(* ===== verification/Trelis_Prelude.thy ===== *)
theory Trelis_Prelude
  imports Main "HOL-Library.Word" "HOL-Library.Monad_Syntax"
begin

text \<open>
  What every component of the development shares: the machine types, Rust's checked
  arithmetic (overflow checks are on in the release profile too, so an overflow is a panic,
  written \<open>None\<close>), little- and big-endian byte strings, slices, results with Rust's
  \<open>?\<close> operator, and two interface locales: decoders that read a prefix of their input
  (\<open>prefix_codec\<close>) and counters that only move forward (\<open>forward_counter\<close>).
\<close>

unbundle bit_operations_syntax

type_synonym u8 = "8 word"
type_synonym u16 = "16 word"
type_synonym u32 = "32 word"
type_synonym u64 = "64 word"
type_synonym bytes = "u8 list"

named_theorems bytes_simps "lengths and round trips of byte strings"
named_theorems try_simps "the question mark operator on results"

section \<open>Checked arithmetic\<close>

definition checked_add :: "'a::len word \<Rightarrow> 'a word \<Rightarrow> 'a word option" where
  "checked_add a b = (if unat a + unat b < 2 ^ LENGTH('a) then Some (a + b) else None)"

definition checked_sub :: "'a::len word \<Rightarrow> 'a word \<Rightarrow> 'a word option" where
  "checked_sub a b = (if b \<le> a then Some (a - b) else None)"

definition checked_mul :: "'a::len word \<Rightarrow> 'a word \<Rightarrow> 'a word option" where
  "checked_mul a b = (if unat a * unat b < 2 ^ LENGTH('a) then Some (a * b) else None)"

text \<open>A shift panics only when the amount is not below the width; bits shifted out are lost.\<close>

definition checked_shl :: "'a::len word \<Rightarrow> u32 \<Rightarrow> 'a word option" where
  "checked_shl a k = (if unat k < LENGTH('a) then Some (push_bit (unat k) a) else None)"

definition checked_shr :: "'a::len word \<Rightarrow> u32 \<Rightarrow> 'a word option" where
  "checked_shr a k = (if unat k < LENGTH('a) then Some (drop_bit (unat k) a) else None)"

lemma checked_add_Some: "checked_add a b = Some c \<Longrightarrow> unat c = unat a + unat b"
  by (auto simp: checked_add_def unat_word_ariths split: if_splits)

lemma checked_add_1: "unat (a :: 'a::len word) + 1 < 2 ^ LENGTH('a) \<Longrightarrow> 1 < LENGTH('a) \<Longrightarrow>
    checked_add a 1 = Some (a + 1) \<and> unat (a + 1) = unat a + 1"
  by (auto simp: checked_add_def unat_word_ariths)

lemma checked_sub_Some: "checked_sub a b = Some c \<Longrightarrow> unat c = unat a - unat b"
  by (auto simp: checked_sub_def unat_sub split: if_splits)

lemma checked_mul_Some: "checked_mul a b = Some c \<Longrightarrow> unat c = unat a * unat b"
  by (auto simp: checked_mul_def unat_word_ariths split: if_splits)

lemma checked_shr_Some: "checked_shr a k = Some c \<Longrightarrow> unat c = unat a div 2 ^ unat k"
  by (auto simp: checked_shr_def unsigned_drop_bit_eq drop_bit_nat_def take_bit_nat_eq_self
      split: if_splits)

lemma unat_push_bit_no_overflow:
  fixes a :: "'a::len word"
  assumes "unat a * 2 ^ n < 2 ^ LENGTH('a)"
  shows "unat (push_bit n a) = unat a * 2 ^ n"
  using assms by (simp add: unsigned_push_bit_eq take_bit_nat_eq_self push_bit_nat_def)

lemma checked_shl_Some:
  fixes a :: "'a::len word"
  assumes "checked_shl a k = Some c" and "unat a * 2 ^ unat k < 2 ^ LENGTH('a)"
  shows "unat c = unat a * 2 ^ unat k"
  using assms by (auto simp: checked_shl_def unat_push_bit_no_overflow split: if_splits)

lemma unat_ucast_up:
  assumes "LENGTH('a) \<le> LENGTH('b)"
  shows "unat (ucast (w :: 'a::len word) :: 'b::len word) = unat w"
proof -
  have "unat w < 2 ^ LENGTH('a)" by (rule unsigned_less)
  also have "\<dots> \<le> 2 ^ LENGTH('b)" using assms by (rule power_increasing) simp
  finally show ?thesis by (simp add: unsigned_ucast_eq take_bit_nat_eq_self)
qed

section \<open>Byte strings of machine words\<close>

fun le_bytes :: "nat \<Rightarrow> 'a::len word \<Rightarrow> bytes" where
  "le_bytes 0 w = []"
| "le_bytes (Suc n) w = ucast w # le_bytes n (drop_bit 8 w)"

fun le_word :: "bytes \<Rightarrow> 'a::len word" where
  "le_word [] = 0"
| "le_word (b # bs) = ucast b OR push_bit 8 (le_word bs)"

definition be_bytes :: "nat \<Rightarrow> 'a::len word \<Rightarrow> bytes" where
  "be_bytes n w = rev (le_bytes n w)"

definition be_word :: "bytes \<Rightarrow> 'a::len word" where
  "be_word bs = le_word (rev bs)"

lemma length_le_bytes [simp, bytes_simps]: "length (le_bytes n w) = n"
  by (induction n arbitrary: w) auto

lemma length_be_bytes [simp, bytes_simps]: "length (be_bytes n w) = n"
  by (simp add: be_bytes_def)

lemma le_word_le_bytes_take_bit:
  "(le_word (le_bytes n w) :: 'a::len word) = take_bit (8 * n) (w :: 'a word)"
proof (induction n arbitrary: w)
  case 0
  then show ?case by simp
next
  case (Suc n)
  show ?case
    by (rule bit_word_eqI) (auto simp: Suc.IH bit_simps not_le)
qed

lemma le_word_le_bytes:
  "LENGTH('a) \<le> 8 * n \<Longrightarrow> le_word (le_bytes n w) = (w :: 'a::len word)"
  by (simp add: le_word_le_bytes_take_bit take_bit_word_eq_self)

lemma le_bytes_le_word:
  "8 * length bs \<le> LENGTH('a) \<Longrightarrow> le_bytes (length bs) (le_word bs :: 'a::len word) = bs"
proof (induction bs)
  case Nil
  then show ?case by simp
next
  case (Cons b bs)
  have hd: "ucast (ucast b OR push_bit 8 (le_word bs) :: 'a word) = b"
    using Cons.prems by (intro bit_word_eqI) (auto simp: bit_simps)
  have tl: "drop_bit 8 (ucast b OR push_bit 8 (le_word bs) :: 'a word)
      = take_bit (LENGTH('a) - 8) (le_word bs)"
    by (intro bit_word_eqI) (auto simp: bit_simps dest: bit_imp_le_length)
  have len: "8 * length bs \<le> LENGTH('a) - 8" using Cons.prems by simp
  have "le_bytes (length bs) (take_bit (LENGTH('a) - 8) (le_word bs :: 'a word)) = bs"
  proof -
    have cut: "le_bytes n (take_bit m w) = le_bytes n w" if "8 * n \<le> m" for n m and w :: "'a word"
      using that
    proof (induction n arbitrary: m w)
      case 0
      then show ?case by simp
    next
      case (Suc n)
      have "drop_bit 8 (take_bit m w) = take_bit (m - 8) (drop_bit 8 w)"
        by (simp add: drop_bit_take_bit)
      moreover have "(ucast (take_bit m w) :: u8) = ucast w"
        using Suc.prems by (intro bit_word_eqI) (auto simp: bit_simps)
      ultimately show ?case using Suc by simp
    qed
    have "8 * length bs \<le> LENGTH('a)" using Cons.prems by simp
    then show ?thesis using Cons.IH cut [OF len] by simp
  qed
  with hd tl show ?case by (simp only: le_word.simps le_bytes.simps list.size add_0 plus_1_eq_Suc
        One_nat_def add_Suc_right add_0_right)
qed

lemma be_word_be_bytes:
  "LENGTH('a) \<le> 8 * n \<Longrightarrow> be_word (be_bytes n w) = (w :: 'a::len word)"
  by (simp add: be_word_def be_bytes_def le_word_le_bytes)

lemma be_bytes_be_word:
  "8 * length bs \<le> LENGTH('a) \<Longrightarrow> be_bytes (length bs) (be_word bs :: 'a::len word) = bs"
  using le_bytes_le_word [of "rev bs", where 'a = 'a] by (simp add: be_bytes_def be_word_def)

lemma le_bytes_round_trips [simp, bytes_simps]:
  "le_word (le_bytes 2 a) = (a :: u16)"
  "le_word (le_bytes 4 b) = (b :: u32)"
  "le_word (le_bytes 8 c) = (c :: u64)"
  by (simp_all add: le_word_le_bytes del: le_bytes.simps)

lemma be_bytes_round_trips [simp, bytes_simps]:
  "be_word (be_bytes 2 a) = (a :: u16)"
  "be_word (be_bytes 4 b) = (b :: u32)"
  "be_word (be_bytes 8 c) = (c :: u64)"
  by (simp_all add: be_word_be_bytes)

section \<open>Slices\<close>

definition sub_slice :: "nat \<Rightarrow> nat \<Rightarrow> 'a list \<Rightarrow> 'a list" where
  "sub_slice a b xs = take (b - a) (drop a xs)"

lemma length_sub_slice [simp]: "length (sub_slice a b xs) = min (b - a) (length xs - a)"
  by (simp add: sub_slice_def)

lemma slice_append_skip:
  "length xs \<le> a \<Longrightarrow> sub_slice a b (xs @ ys) = sub_slice (a - length xs) (b - length xs) ys"
  by (simp add: sub_slice_def)

lemma slice_append_here: "length xs = b \<Longrightarrow> sub_slice 0 b (xs @ ys) = xs"
  by (simp add: sub_slice_def)

lemma slice_of_append: "b \<le> length xs \<Longrightarrow> sub_slice a b (xs @ ys) = sub_slice a b xs"
  by (simp add: sub_slice_def)

lemma slice_full: "length xs = b \<Longrightarrow> sub_slice 0 b xs = xs"
  by (simp add: sub_slice_def)

lemma slice_Cons: "0 < a \<Longrightarrow> sub_slice a b (x # xs) = sub_slice (a - 1) (b - 1) xs"
  using slice_append_skip [of "[x]" a b xs] by simp

lemmas slice_fields = slice_append_skip slice_append_here slice_full slice_Cons

lemma those_map_Some: "(\<And>x. x \<in> set xs \<Longrightarrow> f x = Some (g x)) \<Longrightarrow> those (map f xs) = Some (map g xs)"
  by (induction xs) auto

lemma those_eq_Some: "those xs = Some ys \<longleftrightarrow> xs = map Some ys"
  by (induction xs arbitrary: ys) (auto split: option.splits simp: Cons_eq_map_conv)

section \<open>Results\<close>

text \<open>Rust's \<open>Result\<close> is a sum, \<open>Inl\<close> the error; \<open>tryR\<close> is the \<open>?\<close> operator.\<close>

definition tryR :: "'e + 'a \<Rightarrow> ('a \<Rightarrow> 'e + 'b) \<Rightarrow> 'e + 'b" where
  "tryR r k = (case r of Inl e \<Rightarrow> Inl e | Inr x \<Rightarrow> k x)"

lemma try_simps_base [simp, try_simps]:
  "tryR (Inl e) k = Inl e" "tryR (Inr x) k = k x"
  by (simp_all add: tryR_def)

lemma try_eq_Inr [try_simps]: "tryR r k = Inr y \<longleftrightarrow> (\<exists>x. r = Inr x \<and> k x = Inr y)"
  by (cases r) auto

lemma try_eq_Inl [try_simps]:
  "tryR r k = Inl e \<longleftrightarrow> r = Inl e \<or> (\<exists>x. r = Inr x \<and> k x = Inl e)"
  by (cases r) auto

lemma try_cong [fundef_cong]: "r = r' \<Longrightarrow> (\<And>x. r' = Inr x \<Longrightarrow> k x = k' x) \<Longrightarrow> tryR r k = tryR r' k'"
  by (cases r') auto

definition ok_or :: "'e \<Rightarrow> 'a option \<Rightarrow> 'e + 'a" where
  "ok_or e m = (case m of None \<Rightarrow> Inl e | Some x \<Rightarrow> Inr x)"

lemma ok_or_simps [simp, try_simps]: "ok_or e None = Inl e" "ok_or e (Some x) = Inr x"
  by (simp_all add: ok_or_def)

lemma ok_or_eq_Inr: "ok_or e m = Inr x \<longleftrightarrow> m = Some x"
  by (cases m) simp_all

section \<open>Interface: decoders that read a prefix\<close>

text \<open>
  The wire formats of the program share a shape: an encoder that writes a value, and a
  decoder that reads it back from the front of a buffer and ignores what follows.
\<close>

locale prefix_codec =
  fixes enc :: "'a \<Rightarrow> bytes"
    and dec :: "bytes \<Rightarrow> 'e + 'a"
    and ok :: "'a \<Rightarrow> bool"
  assumes dec_enc: "ok x \<Longrightarrow> dec (enc x @ rest) = Inr x"
begin

lemma dec_enc_exact: "ok x \<Longrightarrow> dec (enc x) = Inr x"
  using dec_enc [of x "[]"] by simp

lemma enc_inject: "ok x \<Longrightarrow> ok y \<Longrightarrow> enc x = enc y \<longleftrightarrow> x = y"
  by (metis dec_enc_exact sum.inject(2))

text \<open>No encoding is a proper prefix of another: a stream of encodings parses one way.\<close>

lemma enc_prefix_free: "ok x \<Longrightarrow> ok y \<Longrightarrow> enc x @ r = enc y @ s \<Longrightarrow> x = y \<and> r = s"
  by (metis dec_enc sum.inject(2) same_append_eq)

lemma dec_sound_on_image: "ok x \<Longrightarrow> dec (enc x @ r) = Inr y \<Longrightarrow> y = x"
  using dec_enc [of x r] by simp

lemma concat_enc_inject:
  assumes "list_all ok xs" and "list_all ok ys" and "length xs = length ys"
    and "concat (map enc xs) = concat (map enc ys)"
  shows "xs = ys"
  using assms(3,1,2,4)
proof (induction xs ys rule: list_induct2)
  case Nil
  then show ?case by simp
next
  case (Cons x xs y ys)
  then show ?case using enc_prefix_free [of x y] by auto
qed

end

text \<open>A fixed-width codec also fixes how many bytes an encoding has.\<close>

locale fixed_codec = prefix_codec enc dec ok
  for enc :: "'a \<Rightarrow> bytes" and dec :: "bytes \<Rightarrow> 'e + 'a" and ok :: "'a \<Rightarrow> bool" +
  fixes width :: nat
  assumes length_enc: "ok x \<Longrightarrow> length (enc x) = width"
begin

lemma length_concat_enc: "list_all ok xs \<Longrightarrow> length (concat (map enc xs)) = width * length xs"
  by (induction xs) (auto simp: length_enc)

lemma dec_nth:
  assumes "list_all ok xs" and "i < length xs"
  shows "dec (drop (width * i) (concat (map enc xs))) = Inr (xs ! i)"
proof -
  have split: "concat (map enc xs)
      = concat (map enc (take i xs)) @ enc (xs ! i) @ concat (map enc (drop (Suc i) xs))"
    using assms(2) by (metis append_assoc concat.simps(2) concat_append id_take_nth_drop
        list.simps(9) map_append)
  have "list_all ok (take i xs)"
    using assms(1) by (metis append_take_drop_id list_all_append)
  then have "length (concat (map enc (take i xs))) = width * i"
    using assms(2) length_concat_enc [of "take i xs"] by simp
  moreover have "ok (xs ! i)" using assms by (simp add: list_all_length)
  ultimately show ?thesis by (simp add: split dec_enc)
qed

end

section \<open>Interface: canonical codecs\<close>

text \<open>
  Keys, bundles and certificates are decoded strictly: a decoder accepts the encodings of valid
  values and nothing else, so an accepted byte string is the only encoding of its value.
\<close>

locale strict_codec =
  fixes enc :: "'a \<Rightarrow> bytes"
    and dec :: "bytes \<Rightarrow> 'e + 'a"
    and ok :: "'a \<Rightarrow> bool"
  assumes decodes: "ok x \<Longrightarrow> dec (enc x) = Inr x"
    and canonical: "dec bs = Inr x \<Longrightarrow> ok x \<and> enc x = bs"
begin

lemma dec_iff: "dec bs = Inr x \<longleftrightarrow> ok x \<and> bs = enc x"
  using decodes canonical by blast

lemma encodings_differ: "ok x \<Longrightarrow> ok y \<Longrightarrow> enc x = enc y \<longleftrightarrow> x = y"
  using decodes by (metis sum.inject(2))

end

section \<open>Interface: counters that only move forward\<close>

text \<open>
  Counters that feed nonces are restored through setters that refuse a rewind and leave the
  state as it was when they do. What the callers need follows once for all of them: over any
  sequence of attempted restores the counter never decreases.
\<close>

locale forward_counter =
  fixes get :: "'s \<Rightarrow> u64"
    and set :: "u64 \<Rightarrow> 's \<Rightarrow> ('e + unit) \<times> 's"
  assumes set_ok: "fst (set c s) = Inr () \<Longrightarrow> get s \<le> c \<and> get (snd (set c s)) = c"
    and set_rejected: "fst (set c s) \<noteq> Inr () \<Longrightarrow> snd (set c s) = s"
begin

lemma set_monotone: "get s \<le> get (snd (set c s))"
  by (cases "fst (set c s) = Inr ()") (auto dest: set_ok set_rejected)

lemma fold_set_monotone: "get s \<le> get (fold (\<lambda>c s. snd (set c s)) cs s)"
proof (induction cs arbitrary: s)
  case Nil
  then show ?case by simp
next
  case (Cons c cs)
  have "get s \<le> get (snd (set c s))" by (rule set_monotone)
  also have "\<dots> \<le> get (fold (\<lambda>c s. snd (set c s)) cs (snd (set c s)))" by (rule Cons.IH)
  finally show ?case by simp
qed

lemma rewind_rejected: "c < get s \<Longrightarrow> (\<exists>e. fst (set c s) = Inl e) \<and> snd (set c s) = s"
  by (metis (full_types) set_ok set_rejected linorder_not_less old.unit.exhaust sum.exhaust_sel
      sum.collapse(2))

end

end
