(* ===== verification/Crypto_Error.thy ===== *)
theory Crypto_Error
  imports Trelis_Prelude
begin

text \<open>
  The error type shared by all crates (\<open>trelis-error/src/lib.rs\<close>): the enum
  \<open>CryptoError\<close> with its payloads, its \<open>Display\<close> text and its classification, and the
  two result types of the model: \<open>'a result\<close> for functions that return
  \<open>Result<T>\<close>, and \<open>'a outcome\<close> for those that may also panic.
\<close>

datatype (plugins only: code size) crypto_error =
    InvalidKeyLength nat nat  \<comment> \<open>expected, actual\<close>
  | KeyGenerationFailed
  | KeyDerivationFailed
  | SignatureVerificationFailed
  | InvalidSignature
  | InvalidContextLength nat nat  \<comment> \<open>actual, max\<close>
  | DecryptionFailed
  | AeadAuthenticationFailed
  | InvalidNonceLength nat nat  \<comment> \<open>expected, actual\<close>
  | EncapsulationFailed
  | DecapsulationFailed
  | InvalidCiphertext
  | InvalidCiphertextLength nat nat  \<comment> \<open>expected, actual\<close>
  | UnknownSenderKey
  | MessageCounterTooOld
  | MessageCounterTooFarAhead u64 u64  \<comment> \<open>max_skip, gap\<close>
  | TooManySkippedKeys nat  \<comment> \<open>limit\<close>
  | SkippedKeyExpired
  | DuplicateMessage
  | EpochTooOld u64 u64  \<comment> \<open>minimum, received\<close>
  | UnknownRecipientKeyId
  | SessionExhausted u64 u64  \<comment> \<open>current, threshold\<close>
  | UnsupportedProtocolVersion u8 u8  \<comment> \<open>received, supported\<close>
  | UnsupportedCipherSuite u8 u8  \<comment> \<open>received, supported\<close>
  | MalformedMessage
  | InvalidHeader
  | UnexpectedEndOfInput nat nat  \<comment> \<open>expected, available\<close>
  | InvalidBundleSignature
  | BundleExpired
  | BundleTimestampInFuture
  | WrongRecipient
  | ContextMismatch
  | RngFailure
  | InvalidNodeIndex
  | MemberNotFound
  | GroupFull
  | InvalidTreeState
  | InvalidGroupSize
  | GroupIdMismatch
  | SelfRemovalForbidden
  | InvalidLeafPosition
  | DuplicateMember
  | ParentHashMismatch
  | RoundHashMismatch
  | IdentityKeyMismatch
  | RemovedFromGroup
  | EpochMismatch u64 u64  \<comment> \<open>expected, received\<close>
  | MessageTooLarge
  | ProofTooDeep
  | TreeDepthExceeded
  | RateLimitExceeded
  | NoActiveSession
  | SessionCompromised
  | NoRecipientKey
  | MessageOrderViolation u64 u64  \<comment> \<open>expected, received\<close>
  | InvalidMagic
  | UnsupportedStateVersion
  | NonceExpired
  | NonceReplayed
  | NonceMismatch

datatype error_category = Fatal | Transient | Protocol | Security

primrec category :: "crypto_error \<Rightarrow> error_category" where
  "category KeyGenerationFailed = Fatal"
| "category RngFailure = Fatal"
| "category InvalidTreeState = Fatal"
| "category GroupFull = Fatal"
| "category InvalidGroupSize = Fatal"
| "category RateLimitExceeded = Transient"
| "category (SessionExhausted _ _) = Protocol"
| "category (EpochTooOld _ _) = Protocol"
| "category UnknownSenderKey = Protocol"
| "category UnknownRecipientKeyId = Protocol"
| "category MemberNotFound = Protocol"
| "category InvalidNodeIndex = Protocol"
| "category NoActiveSession = Protocol"
| "category SessionCompromised = Protocol"
| "category NoRecipientKey = Protocol"
| "category GroupIdMismatch = Protocol"
| "category SelfRemovalForbidden = Protocol"
| "category InvalidLeafPosition = Protocol"
| "category RemovedFromGroup = Protocol"
| "category (EpochMismatch _ _) = Protocol"
| "category (MessageOrderViolation _ _) = Protocol"
| "category SignatureVerificationFailed = Security"
| "category InvalidSignature = Security"
| "category DecryptionFailed = Security"
| "category AeadAuthenticationFailed = Security"
| "category DecapsulationFailed = Security"
| "category MessageCounterTooOld = Security"
| "category DuplicateMember = Security"
| "category ParentHashMismatch = Security"
| "category RoundHashMismatch = Security"
| "category IdentityKeyMismatch = Security"
| "category MessageTooLarge = Security"
| "category ProofTooDeep = Security"
| "category TreeDepthExceeded = Security"
| "category (MessageCounterTooFarAhead _ _) = Security"
| "category (TooManySkippedKeys _) = Security"
| "category SkippedKeyExpired = Security"
| "category DuplicateMessage = Security"
| "category InvalidBundleSignature = Security"
| "category BundleExpired = Security"
| "category BundleTimestampInFuture = Security"
| "category WrongRecipient = Security"
| "category ContextMismatch = Security"
| "category (UnsupportedProtocolVersion _ _) = Security"
| "category (UnsupportedCipherSuite _ _) = Security"
| "category MalformedMessage = Security"
| "category InvalidHeader = Security"
| "category (UnexpectedEndOfInput _ _) = Security"
| "category (InvalidKeyLength _ _) = Security"
| "category (InvalidNonceLength _ _) = Security"
| "category (InvalidContextLength _ _) = Security"
| "category InvalidCiphertext = Security"
| "category (InvalidCiphertextLength _ _) = Security"
| "category EncapsulationFailed = Security"
| "category KeyDerivationFailed = Security"
| "category InvalidMagic = Security"
| "category UnsupportedStateVersion = Security"
| "category NonceExpired = Security"
| "category NonceReplayed = Security"
| "category NonceMismatch = Security"

definition is_fatal :: "crypto_error \<Rightarrow> bool" where
  "is_fatal e = (category e = Fatal)"

definition is_security_error :: "crypto_error \<Rightarrow> bool" where
  "is_security_error e = (category e = Security)"

section \<open>Display\<close>

text \<open>Decimal digits as \<open>{}\<close> prints an integer, two hex digits as \<open>{:02x}\<close> prints a byte.\<close>

fun dec_usize :: "nat \<Rightarrow> string" where
  "dec_usize n = (if n < 10 then [char_of (48 + n)]
     else dec_usize (n div 10) @ [char_of (48 + n mod 10)])"

declare dec_usize.simps [simp del]

definition dec_u64 :: "u64 \<Rightarrow> string" where
  "dec_u64 w = dec_usize (unat w)"

definition hex_digit :: "nat \<Rightarrow> char" where
  "hex_digit n = char_of (if n < 10 then 48 + n else 87 + n)"

definition hex_02x :: "u8 \<Rightarrow> string" where
  "hex_02x b = [hex_digit (unat b div 16), hex_digit (unat b mod 16)]"

primrec display :: "crypto_error \<Rightarrow> string" where
  "display (InvalidKeyLength expected actual) = ''invalid key length: expected '' @ dec_usize expected @ '', got '' @ dec_usize actual"
| "display KeyGenerationFailed = ''key generation failed''"
| "display KeyDerivationFailed = ''key derivation failed''"
| "display SignatureVerificationFailed = ''signature verification failed''"
| "display InvalidSignature = ''invalid signature format''"
| "display (InvalidContextLength actual bound) = ''context string too long: '' @ dec_usize actual @ '' bytes exceeds maximum '' @ dec_usize bound"
| "display DecryptionFailed = ''decryption failed''"
| "display AeadAuthenticationFailed = ''AEAD authentication failed''"
| "display (InvalidNonceLength expected actual) = ''invalid nonce length: expected '' @ dec_usize expected @ '', got '' @ dec_usize actual"
| "display EncapsulationFailed = ''KEM encapsulation failed''"
| "display DecapsulationFailed = ''KEM decapsulation failed''"
| "display InvalidCiphertext = ''invalid ciphertext format''"
| "display (InvalidCiphertextLength expected actual) = ''invalid ciphertext length: expected '' @ dec_usize expected @ '', got '' @ dec_usize actual"
| "display UnknownSenderKey = ''unknown sender public key''"
| "display MessageCounterTooOld = ''message counter too old''"
| "display (MessageCounterTooFarAhead max_skip gap) = ''message counter too far ahead (max skip: '' @ dec_u64 max_skip @ '', gap: '' @ dec_u64 gap @ '')''"
| "display (TooManySkippedKeys limit) = ''too many skipped keys (limit: '' @ dec_usize limit @ '')''"
| "display SkippedKeyExpired = ''skipped key has expired''"
| "display DuplicateMessage = ''duplicate message detected''"
| "display (EpochTooOld minimum received) = ''epoch too old (minimum: '' @ dec_u64 minimum @ '', received: '' @ dec_u64 received @ '')''"
| "display UnknownRecipientKeyId = ''unknown recipient key ID''"
| "display (SessionExhausted current threshold) = ''session exhausted (current: '' @ dec_u64 current @ '', threshold: '' @ dec_u64 threshold @ '')''"
| "display NonceExpired = ''approval nonce window has elapsed''"
| "display NonceReplayed = ''approval nonce already consumed''"
| "display NonceMismatch = ''approval nonce does not match issued value''"
| "display (UnsupportedProtocolVersion received supported) = ''unsupported protocol version: received 0x'' @ hex_02x received @ '', supported 0x'' @ hex_02x supported"
| "display (UnsupportedCipherSuite received supported) = ''unsupported cipher suite: received 0x'' @ hex_02x received @ '', supported 0x'' @ hex_02x supported"
| "display MalformedMessage = ''malformed message''"
| "display InvalidHeader = ''invalid header format''"
| "display (UnexpectedEndOfInput expected available) = ''unexpected end of input: expected '' @ dec_usize expected @ '', available '' @ dec_usize available"
| "display InvalidBundleSignature = ''invalid bundle signature''"
| "display BundleExpired = ''bundle has expired''"
| "display BundleTimestampInFuture = ''bundle timestamp is in the future''"
| "display WrongRecipient = ''wrong recipient for device key wrap''"
| "display ContextMismatch = ''context mismatch in device key wrap''"
| "display RngFailure = ''RNG failure''"
| "display InvalidNodeIndex = ''invalid tree node index''"
| "display MemberNotFound = ''member not found in group''"
| "display GroupFull = ''group is full''"
| "display InvalidTreeState = ''invalid tree state''"
| "display InvalidGroupSize = ''invalid group size''"
| "display GroupIdMismatch = ''group ID mismatch''"
| "display SelfRemovalForbidden = ''cannot remove yourself from group''"
| "display InvalidLeafPosition = ''invalid leaf position''"
| "display DuplicateMember = ''member already in group''"
| "display ParentHashMismatch = ''parent hash verification failed''"
| "display RoundHashMismatch = ''round hash verification failed''"
| "display IdentityKeyMismatch = ''account identity key mismatch''"
| "display RemovedFromGroup = ''you have been removed from the group''"
| "display (EpochMismatch expected received) = ''epoch mismatch: expected '' @ dec_u64 expected @ '', received '' @ dec_u64 received"
| "display MessageTooLarge = ''message exceeds maximum size''"
| "display ProofTooDeep = ''merkle proof exceeds maximum depth''"
| "display TreeDepthExceeded = ''tree/group size limit exceeded''"
| "display RateLimitExceeded = ''rate limit exceeded''"
| "display NoActiveSession = ''no active session''"
| "display SessionCompromised = ''session compromised''"
| "display NoRecipientKey = ''no recipient public key''"
| "display (MessageOrderViolation expected received) = ''message order violation: expected '' @ dec_u64 expected @ '', received '' @ dec_u64 received"
| "display InvalidMagic = ''invalid magic bytes''"
| "display UnsupportedStateVersion = ''unsupported state version''"

section \<open>Results of fallible functions\<close>

type_synonym 'a result = "crypto_error + 'a"

datatype 'a outcome = Done 'a | Fail crypto_error | Panic

definition bind_out :: "'a outcome \<Rightarrow> ('a \<Rightarrow> 'b outcome) \<Rightarrow> 'b outcome" where
  "bind_out m k = (case m of Done x \<Rightarrow> k x | Fail e \<Rightarrow> Fail e | Panic \<Rightarrow> Panic)"

lemma bind_out_simps [simp]:
  "bind_out (Done x) k = k x" "bind_out (Fail e) k = Fail e" "bind_out Panic k = Panic"
  by (simp_all add: bind_out_def)

lemma bind_out_eq_Done: "bind_out m k = Done y \<longleftrightarrow> (\<exists>x. m = Done x \<and> k x = Done y)"
  by (cases m) auto

primrec of_result :: "'a result \<Rightarrow> 'a outcome" where
  "of_result (Inl e) = Fail e"
| "of_result (Inr x) = Done x"

lemma of_result_eq_Done [simp]: "of_result r = Done x \<longleftrightarrow> r = Inr x"
  by (cases r) auto

primrec or_panic :: "'a option \<Rightarrow> 'a outcome" where
  "or_panic None = Panic"
| "or_panic (Some x) = Done x"

lemma or_panic_eq_Done [simp]: "or_panic m = Done x \<longleftrightarrow> m = Some x"
  by (cases m) auto

end
