(* ===== verification/Tree_Index.thy ===== *)
theory Tree_Index
  imports Crypto_Error
begin

text \<open>
  Node indices of the binary ratchet tree (\<open>trelis-cocoa/src/tree/index.rs\<close>): a node is its
  depth and its position at that depth. The arithmetic is on \<open>u32\<close> and \<open>u64\<close> with
  overflow checks, so the operations that can panic return \<open>None\<close> there; the lemmas
  give the bounds under which they do not, and read every operation on naturals.
\<close>

named_theorems index_simps "node indices read as pairs of naturals"

section \<open>Operations\<close>

record node_index =
  depth :: u32
  position :: u32

definition node_new :: "u32 \<Rightarrow> u32 \<Rightarrow> node_index" where
  "node_new d p = \<lparr>depth = d, position = p\<rparr>"

definition root :: node_index where
  "root = node_new 0 0"

definition leaf :: "u32 \<Rightarrow> u32 \<Rightarrow> node_index" where
  "leaf tree_depth leaf_position = node_new tree_depth leaf_position"

definition is_root :: "node_index \<Rightarrow> bool" where
  "is_root i = (depth i = 0)"

definition is_leaf :: "node_index \<Rightarrow> u32 \<Rightarrow> bool" where
  "is_leaf i tree_depth = (depth i = tree_depth)"

definition parent :: "node_index \<Rightarrow> node_index option" where
  "parent i = (if depth i = 0 then None else Some (node_new (depth i - 1) (position i div 2)))"

definition left_child :: "node_index \<Rightarrow> node_index option" where
  "left_child i = do {
     d \<leftarrow> checked_add (depth i) 1;
     p \<leftarrow> checked_mul (position i) 2;
     Some (node_new d p) }"

definition right_child :: "node_index \<Rightarrow> node_index option" where
  "right_child i = do {
     d \<leftarrow> checked_add (depth i) 1;
     p \<leftarrow> checked_mul (position i) 2;
     q \<leftarrow> checked_add p 1;
     Some (node_new d q) }"

definition sibling :: "node_index \<Rightarrow> node_index option" where
  "sibling i = (if depth i = 0 then None else Some (node_new (depth i) (position i XOR 1)))"

definition is_left_child :: "node_index \<Rightarrow> bool" where
  "is_left_child i = (position i mod 2 = 0)"

definition is_right_child :: "node_index \<Rightarrow> bool" where
  "is_right_child i = (position i mod 2 = 1)"

definition is_descendant_of :: "node_index \<Rightarrow> node_index \<Rightarrow> bool option" where
  "is_descendant_of self other =
     (if depth other \<ge> depth self then Some False
      else do {
        depth_diff \<leftarrow> checked_sub (depth self) (depth other);
        ancestor_pos \<leftarrow> checked_shr (position self) depth_diff;
        Some (ancestor_pos = position other) })"

definition is_ancestor_of :: "node_index \<Rightarrow> node_index \<Rightarrow> bool option" where
  "is_ancestor_of self other = is_descendant_of other self"

definition to_linear :: "node_index \<Rightarrow> u64 option" where
  "to_linear i = do {
     level \<leftarrow> checked_shl 1 (depth i);
     nodes_before \<leftarrow> checked_sub level 1;
     checked_add nodes_before (ucast (position i)) }"

fun bit_len :: "nat \<Rightarrow> nat" where
  "bit_len n = (if n = 0 then 0 else Suc (bit_len (n div 2)))"

declare bit_len.simps [simp del]

definition leading_zeros :: "'a::len word \<Rightarrow> u32" where
  "leading_zeros w = of_nat (LENGTH('a) - bit_len (unat w))"

definition from_linear :: "u64 \<Rightarrow> node_index option" where
  "from_linear linear =
     (if linear = 0 then Some root
      else do {
        next \<leftarrow> checked_add linear 1;
        significant \<leftarrow> checked_sub 64 (leading_zeros next);
        d \<leftarrow> checked_sub significant 1;
        level \<leftarrow> checked_shl 1 d;
        nodes_before \<leftarrow> checked_sub level 1;
        p \<leftarrow> checked_sub linear nodes_before;
        Some (node_new d (ucast p)) })"

definition index_to_bytes :: "node_index \<Rightarrow> bytes" where
  "index_to_bytes i = le_bytes 4 (depth i) @ le_bytes 4 (position i)"

text \<open>The argument is a \<open>[u8; 8]\<close>, so the eight reads are in range.\<close>

definition index_from_bytes :: "bytes \<Rightarrow> node_index" where
  "index_from_bytes bs = node_new (le_word (sub_slice 0 4 bs)) (le_word (sub_slice 4 8 bs))"

text \<open>\<open>Ord\<close> compares linear indices; \<open>None\<close> where \<open>to_linear\<close> panics.\<close>

definition index_le :: "node_index \<Rightarrow> node_index \<Rightarrow> bool option" where
  "index_le i j = do { a \<leftarrow> to_linear i; b \<leftarrow> to_linear j; Some (a \<le> b) }"

section \<open>Indices as naturals\<close>

definition ndepth :: "node_index \<Rightarrow> nat" where
  "ndepth i = unat (depth i)"

definition npos :: "node_index \<Rightarrow> nat" where
  "npos i = unat (position i)"

text \<open>Positions at depth \<open>d\<close> run below \<open>2 ^ d\<close>; the code bounds depths by 20, and all the
  arithmetic below needs is that they stay below 32.\<close>

definition valid_index :: "node_index \<Rightarrow> bool" where
  "valid_index i \<longleftrightarrow> ndepth i < 32 \<and> npos i < 2 ^ ndepth i"

lemma node_index_eqI: "ndepth i = ndepth j \<Longrightarrow> npos i = npos j \<Longrightarrow> i = (j :: node_index)"
  by (cases i; cases j) (simp add: ndepth_def npos_def word_eq_iff_unsigned [where 'a = nat])

lemma node_new_simps [simp]: "depth (node_new d p) = d" "position (node_new d p) = p"
  by (simp_all add: node_new_def)

lemma npos_bound: "npos i < 2 ^ 32"
  using unsigned_less [of "position i"] by (simp add: npos_def)

lemma ndepth_0: "ndepth i = 0 \<longleftrightarrow> depth i = 0"
  by (simp add: ndepth_def unat_eq_0)

lemma root_simps [simp, index_simps]: "ndepth root = 0" "npos root = 0" "valid_index root"
  by (simp_all add: root_def ndepth_def npos_def valid_index_def)

lemma leaf_simps [simp]: "ndepth (leaf d p) = unat d" "npos (leaf d p) = unat p"
  "depth (leaf d p) = d" "position (leaf d p) = p"
  by (simp_all add: leaf_def ndepth_def npos_def)

lemma parent_eq_Some:
  "parent i = Some p \<longleftrightarrow> ndepth i \<noteq> 0 \<and> ndepth p = ndepth i - 1 \<and> npos p = npos i div 2"
proof -
  have d: "unat (depth i - 1) = unat (depth i) - 1" if "depth i \<noteq> 0"
    using that by (simp add: unat_minus_one)
  have q: "unat (position i div 2) = unat (position i) div 2"
    by (simp add: unat_div)
  show ?thesis
    using d q by (auto simp: parent_def ndepth_def npos_def unat_eq_0 intro!: node_index_eqI)
qed

lemma parent_eq_None: "parent i = None \<longleftrightarrow> ndepth i = 0"
  by (simp add: parent_def ndepth_0)

lemma unat_xor_1: "unat (w XOR 1 :: 'a::len word) = (if even (unat w) then unat w + 1 else unat w - 1)"
proof -
  have "unat (w XOR 1) = unat w XOR unat (1 :: 'a word)" by (rule unsigned_xor_eq)
  also have "\<dots> = unat w XOR 1" by simp
  also have "\<dots> = (if even (unat w) then unat w + 1 else unat w - 1)"
    by (simp add: xor_Suc_0_eq)
  finally show ?thesis .
qed

lemma sibling_eq_Some:
  "sibling i = Some s \<longleftrightarrow> ndepth i \<noteq> 0 \<and> ndepth s = ndepth i
     \<and> npos s = (if even (npos i) then npos i + 1 else npos i - 1)"
  by (auto simp: sibling_def ndepth_def npos_def unat_eq_0 unat_xor_1 intro!: node_index_eqI
      split: if_splits)

lemma sibling_eq_None: "sibling i = None \<longleftrightarrow> ndepth i = 0"
  by (simp add: sibling_def ndepth_0)

lemma children_eq_Some:
  assumes "ndepth i + 1 < 2 ^ 32" and "2 * npos i + 1 < 2 ^ 32"
  shows "\<exists>l r. left_child i = Some l \<and> right_child i = Some r \<and> ndepth l = ndepth i + 1
    \<and> ndepth r = ndepth i + 1 \<and> npos l = 2 * npos i \<and> npos r = 2 * npos i + 1"
proof -
  have d: "checked_add (depth i) 1 = Some (depth i + 1)" "unat (depth i + 1) = unat (depth i) + 1"
    using checked_add_1 [of "depth i"] assms(1) by (simp_all add: ndepth_def)
  have p: "checked_mul (position i) 2 = Some (position i * 2)"
    "unat (position i * 2) = 2 * unat (position i)"
    using assms(2) by (simp_all add: checked_mul_def npos_def unat_word_ariths)
  have q: "checked_add (position i * 2) 1 = Some (position i * 2 + 1)"
    "unat (position i * 2 + 1) = 2 * unat (position i) + 1"
    using checked_add_1 [of "position i * 2"] assms(2) p by (simp_all add: npos_def)
  show ?thesis
    by (simp add: left_child_def right_child_def d p q ndepth_def npos_def)
qed

section \<open>Linear indices\<close>

lemma unat_shl_1:
  "n < LENGTH('a) \<Longrightarrow> unat (push_bit n 1 :: 'a::len word) = 2 ^ n"
  using unat_push_bit_no_overflow [of "1 :: 'a word" n] by (simp del: push_bit_of_1)

lemma level_minus_1:
  assumes "unat d < 64"
  shows "checked_shl (1 :: u64) d = Some (push_bit (unat d) 1)"
    and "checked_sub (push_bit (unat d) 1 :: u64) 1 = Some (push_bit (unat d) 1 - 1)"
    and "unat (push_bit (unat d) 1 - 1 :: u64) = 2 ^ unat d - 1"
proof -
  have u: "unat (push_bit (unat d) 1 :: u64) = 2 ^ unat d"
    using assms unat_shl_1 [of "unat d", where 'a = 64] by simp
  then have ge: "1 \<le> (push_bit (unat d) 1 :: u64)" by (simp add: word_le_nat_alt)
  show "checked_shl (1 :: u64) d = Some (push_bit (unat d) 1)"
    using assms by (simp add: checked_shl_def)
  show "checked_sub (push_bit (unat d) 1 :: u64) 1 = Some (push_bit (unat d) 1 - 1)"
    using ge by (simp add: checked_sub_def)
  show "unat (push_bit (unat d) 1 - 1 :: u64) = 2 ^ unat d - 1"
    unfolding unat_sub [OF ge] u by simp
qed

lemma to_linear_eq:
  assumes "ndepth i < 64"
  shows "\<exists>l. to_linear i = Some l \<and> unat l = 2 ^ ndepth i - 1 + npos i"
proof -
  have d: "unat (depth i) < 64" using assms by (simp add: ndepth_def)
  have pow: "(2::nat) ^ unat (depth i) \<le> 2 ^ 63"
    using d by (intro power_increasing) auto
  have q: "unat (ucast (position i) :: u64) = npos i"
    using npos_bound [of i] by (simp add: npos_def unsigned_ucast_eq take_bit_nat_eq_self)
  have fits: "2 ^ unat (depth i) - 1 + npos i < 2 ^ 64"
    using pow npos_bound [of i] by simp
  have "unat (push_bit (unat (depth i)) 1 - 1 :: u64) + unat (ucast (position i) :: u64) < 2 ^ LENGTH(64)"
    using fits q level_minus_1(3) [OF d] by simp
  then have "checked_add (push_bit (unat (depth i)) 1 - 1 :: u64) (ucast (position i))
      = Some (push_bit (unat (depth i)) 1 - 1 + ucast (position i))"
    by (simp only: checked_add_def if_True)
  moreover from this have "unat (push_bit (unat (depth i)) 1 - 1 + ucast (position i) :: u64)
      = 2 ^ ndepth i - 1 + npos i"
    using checked_add_Some q level_minus_1(3) [OF d] by (metis ndepth_def)
  ultimately show ?thesis
    by (simp only: to_linear_def level_minus_1(1,2) [OF d] bind.bind_lunit) blast
qed

lemma to_linear_panics: "64 \<le> ndepth i \<Longrightarrow> to_linear i = None"
  by (simp add: to_linear_def checked_shl_def ndepth_def)

lemma to_linear_Some:
  "to_linear i = Some l \<longleftrightarrow> ndepth i < 64 \<and> unat l = 2 ^ ndepth i - 1 + npos i"
  using to_linear_eq [of i] to_linear_panics [of i]
  by (cases "ndepth i < 64") (auto simp: word_eq_iff_unsigned [where 'a = nat])

text \<open>Level-order numbering is injective on valid indices (and only there: the position
  has to stay below \<open>2 ^ depth\<close>).\<close>

lemma level_order_unique:
  fixes d e p q :: nat
  assumes "2 ^ d + p = 2 ^ e + q" and "p < 2 ^ d" and "q < 2 ^ e"
  shows "d = e \<and> p = q"
proof -
  have "d = e"
  proof (rule ccontr)
    assume "d \<noteq> e"
    then consider "d < e" | "e < d" by linarith
    then show False
    proof cases
      case 1
      then have "(2::nat) ^ Suc d \<le> 2 ^ e" by (intro power_increasing) auto
      with assms show False by simp
    next
      case 2
      then have "(2::nat) ^ Suc e \<le> 2 ^ d" by (intro power_increasing) auto
      with assms show False by simp
    qed
  qed
  with assms show ?thesis by simp
qed

lemma to_linear_inj:
  assumes "to_linear i = Some l" "to_linear j = Some l" "valid_index i" "valid_index j"
  shows "i = j"
proof -
  have "2 ^ ndepth i - 1 + npos i = 2 ^ ndepth j - 1 + (npos j :: nat)"
    using assms(1,2) by (simp add: to_linear_Some)
  moreover have "(0::nat) < 2 ^ ndepth i" "(0::nat) < 2 ^ ndepth j" by simp_all
  ultimately have "2 ^ ndepth i + npos i = 2 ^ ndepth j + npos j" by linarith
  from level_order_unique [OF this] assms(3,4) show ?thesis
    by (auto simp: valid_index_def intro: node_index_eqI)
qed

lemma valid_to_linear:
  "valid_index i \<Longrightarrow> \<exists>l. to_linear i = Some l \<and> unat l = 2 ^ ndepth i - 1 + npos i"
  by (intro to_linear_eq) (simp add: valid_index_def)

lemma bit_len_bounds: "0 < n \<Longrightarrow> 2 ^ (bit_len n - 1) \<le> n \<and> n < 2 ^ bit_len n \<and> 0 < bit_len n"
proof (induction n rule: bit_len.induct)
  case (1 n)
  show ?case
  proof (cases "n div 2 = 0")
    case True
    with 1 show ?thesis by (auto simp: bit_len.simps [of n] bit_len.simps [of 0] div_eq_0_iff)
  next
    case False
    with 1 have ih: "2 ^ (bit_len (n div 2) - 1) \<le> n div 2" "n div 2 < 2 ^ bit_len (n div 2)"
      "0 < bit_len (n div 2)" by auto
    have "2 * 2 ^ (bit_len (n div 2) - 1) = (2::nat) ^ bit_len (n div 2)"
      using ih(3) by (metis Suc_diff_1 power_Suc)
    moreover have b: "bit_len n = Suc (bit_len (n div 2))" using 1 by (simp add: bit_len.simps [of n])
    ultimately have "2 ^ bit_len (n div 2) \<le> n" "n < 2 ^ Suc (bit_len (n div 2))"
      using ih(1,2) by simp_all linarith+
    with b show ?thesis by simp
  qed
qed

lemma bit_len_unique: "2 ^ d \<le> n \<Longrightarrow> n < 2 ^ Suc d \<Longrightarrow> bit_len n = Suc d"
proof -
  assume a: "2 ^ d \<le> n" "n < 2 ^ Suc d"
  then have "0 < n" by (metis gr0I less_le_trans nat_zero_less_power_iff not_less0 zero_less_numeral)
  note b = bit_len_bounds [OF this]
  have "d < bit_len n" using a(1) b by (metis le_less_trans nat_power_less_imp_less zero_less_numeral)
  moreover have "bit_len n - 1 < Suc d"
    using a(2) b by (metis le_less_trans nat_power_less_imp_less zero_less_numeral)
  ultimately show ?thesis by simp
qed

lemma bit_len_le: "n < 2 ^ m \<Longrightarrow> bit_len n \<le> m"
proof (cases "n = 0")
  case False
  assume "n < 2 ^ m"
  moreover from False have "2 ^ (bit_len n - 1) \<le> n \<and> 0 < bit_len n" using bit_len_bounds [of n] by simp
  ultimately have "bit_len n - 1 < m"
    by (metis le_less_trans nat_power_less_imp_less zero_less_numeral)
  then show ?thesis by simp
qed (simp add: bit_len.simps [of 0])

lemma unat_leading_zeros: "unat (leading_zeros (w :: u64)) = 64 - bit_len (unat w)"
  by (simp add: leading_zeros_def unat_of_nat)

lemma from_linear_eq:
  assumes "unat l + 1 < 2 ^ 33"
  shows "\<exists>i. from_linear l = Some i \<and> to_linear i = Some l \<and> npos i < 2 ^ ndepth i \<and> ndepth i < 33"
proof (cases "l = 0")
  case True
  then show ?thesis
    by (intro exI [of _ root]) (simp add: from_linear_def to_linear_Some)
next
  case False
  define d where "d = bit_len (unat l + 1) - 1"
  have next1: "checked_add l 1 = Some (l + 1)" "unat (l + 1) = unat l + 1"
    using checked_add_1 [of l] assms by simp_all
  have b: "2 ^ d \<le> unat l + 1" "unat l + 1 < 2 ^ Suc d" "bit_len (unat l + 1) = Suc d"
    using bit_len_bounds [of "unat l + 1"] by (simp_all add: d_def)
  have d33: "d < 33"
    using bit_len_le [of "unat l + 1" 33] assms b(3) by simp
  have lz: "unat (leading_zeros (l + 1)) = 63 - d"
    using d33 unfolding unat_leading_zeros next1 b(3) by simp
  have sig: "checked_sub 64 (leading_zeros (l + 1)) = Some (64 - leading_zeros (l + 1))"
    using lz by (simp add: checked_sub_def word_le_nat_alt)
  have sig_u: "unat (64 - leading_zeros (l + 1)) = Suc d"
    using checked_sub_Some [OF sig] lz d33 by simp
  have dd: "checked_sub (64 - leading_zeros (l + 1)) 1 = Some (64 - leading_zeros (l + 1) - 1)"
    using sig_u by (simp add: checked_sub_def word_le_nat_alt)
  define w where "w = 64 - leading_zeros (l + 1) - 1"
  have w: "unat w = d"
    using checked_sub_Some [OF dd] sig_u by (simp add: w_def)
  have w64: "unat w < 64" using w d33 by simp
  define nb :: u64 where "nb = push_bit (unat w) 1 - 1"
  have nb: "unat nb = 2 ^ d - 1" using level_minus_1(3) [OF w64] w by (simp add: nb_def)
  have p: "checked_sub l nb = Some (l - nb)"
    using b(1) nb by (simp add: checked_sub_def word_le_nat_alt)
  have pu: "unat (l - nb) = unat l + 1 - 2 ^ d"
    using checked_sub_Some [OF p] nb b(1) by simp
  have small: "unat l + 1 - 2 ^ d < 2 ^ 32"
  proof -
    have "(2::nat) ^ d \<le> 2 ^ 32" using d33 by (intro power_increasing) auto
    with b(1,2) show ?thesis by simp
  qed
  have pu32: "unat (ucast (l - nb) :: u32) = unat l + 1 - 2 ^ d"
    using small pu by (simp add: unsigned_ucast_eq take_bit_nat_eq_self)
  let ?i = "node_new w (ucast (l - nb))"
  have i: "ndepth ?i = d" "npos ?i = unat l + 1 - 2 ^ d"
    using w pu32 by (simp_all add: ndepth_def npos_def)
  have "from_linear l = Some ?i"
    using False next1(1) sig dd level_minus_1(1,2) [OF w64] p
    by (simp add: from_linear_def w_def [symmetric] nb_def [symmetric] del: push_bit_of_1)
  moreover have "to_linear ?i = Some l"
    unfolding to_linear_Some using i d33 b(1) by simp
  moreover have "npos ?i < 2 ^ ndepth ?i" using i b by simp
  ultimately show ?thesis using i d33 by blast
qed

lemma from_linear_to_linear:
  assumes "valid_index i" and "to_linear i = Some l"
  shows "from_linear l = Some i"
proof -
  have l: "unat l = 2 ^ ndepth i - 1 + npos i" using assms(2) by (simp add: to_linear_Some)
  have "(2::nat) ^ ndepth i \<le> 2 ^ 31"
    using assms(1) by (intro power_increasing) (auto simp: valid_index_def)
  then have "unat l + 1 < 2 ^ 33" using l assms(1) by (simp add: valid_index_def)
  then obtain j where j: "from_linear l = Some j" "to_linear j = Some l" "npos j < 2 ^ ndepth j"
    using from_linear_eq by blast
  have "2 ^ ndepth j + npos j = 2 ^ ndepth i + npos i"
  proof -
    have "unat l = 2 ^ ndepth j - 1 + npos j" using j(2) by (simp add: to_linear_Some)
    moreover have "(0::nat) < 2 ^ ndepth i" "(0::nat) < 2 ^ ndepth j" by simp_all
    ultimately show ?thesis using l by linarith
  qed
  from level_order_unique [OF this j(3)] assms(1) have "j = i"
    by (auto simp: valid_index_def intro: node_index_eqI)
  with j(1) show ?thesis by simp
qed

section \<open>Ancestors\<close>

text \<open>\<open>k\<close> steps towards the root.\<close>

primrec up :: "nat \<Rightarrow> node_index \<Rightarrow> node_index option" where
  "up 0 i = Some i"
| "up (Suc k) i = Option.bind (parent i) (up k)"

lemma up_eq_Some:
  "up k i = Some j \<longleftrightarrow> k \<le> ndepth i \<and> ndepth j = ndepth i - k \<and> npos j = npos i div 2 ^ k"
proof (induction k arbitrary: i)
  case 0
  then show ?case by (auto intro: node_index_eqI)
next
  case (Suc k)
  show ?case
  proof (cases "parent i")
    case None
    then show ?thesis using parent_eq_None [of i] by simp
  next
    case (Some p)
    then have p: "ndepth i \<noteq> 0" "ndepth p = ndepth i - 1" "npos p = npos i div 2"
      unfolding parent_eq_Some by auto
    show ?thesis using p(1) by (auto simp: Some Suc.IH p(2,3) div_mult2_eq)
  qed
qed

lemma up_total: "k \<le> ndepth i \<Longrightarrow> \<exists>j. up k i = Some j"
proof (induction k arbitrary: i)
  case 0
  then show ?case by simp
next
  case (Suc k)
  then obtain p where p: "parent i = Some p" using parent_eq_None [of i] by (cases "parent i") auto
  then have "ndepth p = ndepth i - 1" unfolding parent_eq_Some by auto
  with Suc show ?case by (simp add: p)
qed

lemma up_add: "up a i = Some j \<Longrightarrow> up b j = up (a + b) i"
  by (induction a arbitrary: i) (auto simp: bind_eq_Some_conv)

lemma is_descendant_of_eq:
  assumes "ndepth i < 32"
  shows "is_descendant_of i j
    = Some (ndepth j < ndepth i \<and> npos i div 2 ^ (ndepth i - ndepth j) = npos j)"
proof (cases "ndepth j < ndepth i")
  case True
  then have lt: "depth j < depth i" by (simp add: ndepth_def word_less_nat_alt)
  then have sub: "checked_sub (depth i) (depth j) = Some (depth i - depth j)"
    by (simp add: checked_sub_def)
  have su: "unat (depth i - depth j) = ndepth i - ndepth j"
    using checked_sub_Some [OF sub] by (simp add: ndepth_def)
  then have shr: "checked_shr (position i) (depth i - depth j)
      = Some (drop_bit (ndepth i - ndepth j) (position i))"
    using assms by (simp add: checked_shr_def)
  have "unat (drop_bit (ndepth i - ndepth j) (position i)) = npos i div 2 ^ (ndepth i - ndepth j)"
    using checked_shr_Some [OF shr] su by (simp add: npos_def)
  with True lt sub shr show ?thesis
    by (auto simp: is_descendant_of_def npos_def word_eq_iff_unsigned [where 'a = nat])
next
  case False
  then have "depth i \<le> depth j" by (simp add: ndepth_def word_le_nat_alt)
  with False show ?thesis by (simp add: is_descendant_of_def)
qed

lemma is_descendant_of_up:
  assumes "ndepth i < 32"
  shows "is_descendant_of i j = Some (\<exists>k>0. up k i = Some j)"
proof -
  have "(\<exists>k>0. up k i = Some j) \<longleftrightarrow>
      ndepth j < ndepth i \<and> npos i div 2 ^ (ndepth i - ndepth j) = npos j"
    unfolding up_eq_Some by (auto intro!: exI [of _ "ndepth i - ndepth j"])
  with is_descendant_of_eq [OF assms] show ?thesis by simp
qed

section \<open>Byte form\<close>

lemma index_codec: "index_from_bytes (index_to_bytes i @ r) = i"
  by (cases i) (simp add: index_from_bytes_def index_to_bytes_def slice_fields node_new_def
      del: le_bytes.simps)

interpretation index: fixed_codec index_to_bytes "\<lambda>bs. Inr (index_from_bytes bs)" "\<lambda>_. True" 8
  by unfold_locales (simp_all add: index_codec, simp add: index_to_bytes_def)

section \<open>Properties\<close>

lemma valid_childrenE:
  assumes "valid_index i" and "ndepth i < 31"
  obtains l r where "left_child i = Some l" "right_child i = Some r" "valid_index l" "valid_index r"
    "ndepth l = ndepth i + 1" "ndepth r = ndepth i + 1" "npos l = 2 * npos i" "npos r = 2 * npos i + 1"
proof -
  have "(2::nat) ^ ndepth i \<le> 2 ^ 30" using assms(2) by (intro power_increasing) auto
  with assms have "ndepth i + 1 < 2 ^ 32" "2 * npos i + 1 < 2 ^ 32" by (auto simp: valid_index_def)
  from children_eq_Some [OF this] obtain l r where lr: "left_child i = Some l" "right_child i = Some r"
    "ndepth l = ndepth i + 1" "ndepth r = ndepth i + 1" "npos l = 2 * npos i" "npos r = 2 * npos i + 1"
    by auto
  moreover from lr assms have "valid_index l" "valid_index r" by (auto simp: valid_index_def)
  ultimately show thesis using that by blast
qed

text \<open>Navigation is consistent: for every valid index above depth 31 both children exist
  (no overflow), are valid, are each other's sibling, have the node as their parent, and sit in
  level order at twice the node's linear index plus one and plus two.\<close>

lemma index_navigation:
  assumes "valid_index i" and "ndepth i < 31"
  shows "\<exists>l r a b c. left_child i = Some l \<and> right_child i = Some r \<and> valid_index l \<and> valid_index r
    \<and> parent l = Some i \<and> parent r = Some i \<and> sibling l = Some r \<and> sibling r = Some l
    \<and> to_linear i = Some a \<and> to_linear l = Some b \<and> to_linear r = Some c
    \<and> unat b = 2 * unat a + 1 \<and> unat c = 2 * unat a + 2"
proof -
  obtain l r where lr: "left_child i = Some l" "right_child i = Some r" "valid_index l" "valid_index r"
    "ndepth l = ndepth i + 1" "ndepth r = ndepth i + 1" "npos l = 2 * npos i" "npos r = 2 * npos i + 1"
    using valid_childrenE [OF assms] .
  then have "parent l = Some i" "parent r = Some i" "sibling l = Some r" "sibling r = Some l"
    unfolding parent_eq_Some sibling_eq_Some by simp_all
  moreover obtain a where a: "to_linear i = Some a" "unat a = 2 ^ ndepth i - 1 + npos i"
    using valid_to_linear [OF assms(1)] by blast
  moreover obtain b where b: "to_linear l = Some b" "unat b = 2 ^ ndepth l - 1 + npos l"
    using valid_to_linear [OF lr(3)] by blast
  moreover obtain c where c: "to_linear r = Some c" "unat c = 2 ^ ndepth r - 1 + npos r"
    using valid_to_linear [OF lr(4)] by blast
  moreover have "unat b = 2 * unat a + 1" "unat c = 2 * unat a + 2"
  proof -
    obtain m :: nat where m: "2 ^ ndepth i = Suc m" by (cases "(2::nat) ^ ndepth i") auto
    show "unat b = 2 * unat a + 1" "unat c = 2 * unat a + 2"
      using a(2) b(2) c(2) lr(5-8) by (simp_all add: m)
  qed
  ultimately show ?thesis using lr(1-4) by (intro exI conjI) assumption+
qed

text \<open>Level-order numbering is a bijection: \<open>from_linear\<close> undoes \<open>to_linear\<close> on every
  valid index, and \<open>to_linear\<close> undoes \<open>from_linear\<close> on every index below \<open>2^33 - 1\<close>, where
  the position still fits its 32 bits.\<close>

lemma linear_round_trips:
  "(valid_index i \<longrightarrow> Option.bind (to_linear i) from_linear = Some i)
   \<and> (unat n + 1 < 2 ^ 33 \<longrightarrow> Option.bind (from_linear n) to_linear = Some n)"
  using valid_to_linear [of i] from_linear_to_linear [of i] from_linear_eq [of n] by auto

text \<open>\<open>is_descendant_of\<close>, computed with one shift, decides exactly whether the other node is
  reached by one or more \<open>parent\<close> steps, and does not panic for depths below 32.\<close>

lemma descendant_iff_parent_steps:
  assumes "ndepth i < 32"
  shows "is_descendant_of i j = Some (\<exists>k>0. up k i = Some j)"
  by (rule is_descendant_of_up [OF assms])

end
