(* ===== verification/Tree_Path.thy ===== *)
theory Tree_Path
  imports Tree_Index
begin

text \<open>
  Paths, co-paths and common ancestors (\<open>trelis-cocoa/src/tree/path.rs\<close>). The loops walk
  towards the root, so the depth decreases and every one of them ends; \<open>None\<close> is a panic
  (an overflow, or an \<open>expect\<close> on the parent of the root).
\<close>

section \<open>Operations\<close>

lemma parent_decreases: "parent i = Some p \<Longrightarrow> ndepth p < ndepth i"
  unfolding parent_eq_Some by auto

function path_up :: "node_index \<Rightarrow> node_index list" where
  "path_up i = i # (case parent i of None \<Rightarrow> [] | Some p \<Rightarrow> path_up p)"
  by pat_completeness auto
termination
  by (relation "measure ndepth") (auto dest: parent_decreases)

declare path_up.simps [simp del]

text \<open>The capacity \<open>(leaf.depth + 1) as usize\<close> is a checked \<open>u32\<close> sum.\<close>

definition path_to_root :: "node_index \<Rightarrow> node_index list option" where
  "path_to_root i = do { _ \<leftarrow> checked_add (depth i) 1; Some (path_up i) }"

function copath :: "node_index \<Rightarrow> node_index list" where
  "copath i = (case sibling i of
     None \<Rightarrow> []
   | Some s \<Rightarrow> s # (case parent i of Some p \<Rightarrow> copath p | None \<Rightarrow> []))"
  by pat_completeness auto
termination
  by (relation "measure ndepth") (auto dest: parent_decreases)

declare copath.simps [simp del]

definition direct_path :: "node_index \<Rightarrow> node_index list option" where
  "direct_path i = do {
     full_path \<leftarrow> path_to_root i;
     Some (if length full_path > 1 then drop 1 full_path else []) }"

definition nodes_at_depth :: "node_index \<Rightarrow> u32 \<Rightarrow> node_index list option" where
  "nodes_at_depth r target_depth =
     (if target_depth < depth r then Some []
      else do {
        depth_diff \<leftarrow> checked_sub target_depth (depth r);
        count \<leftarrow> checked_shl 1 depth_diff;
        start_pos \<leftarrow> checked_shl (position r) depth_diff;
        those (map (\<lambda>i. do { p \<leftarrow> checked_add start_pos (of_nat i); Some (node_new target_depth p) })
          [0..<unat (count :: u32)]) })"

definition leaves_in_subtree :: "node_index \<Rightarrow> u32 \<Rightarrow> node_index list option" where
  "leaves_in_subtree i tree_depth = nodes_at_depth i tree_depth"

function lift_to :: "node_index \<Rightarrow> u32 \<Rightarrow> node_index option" where
  "lift_to i d = (if depth i > d
     then (case parent i of None \<Rightarrow> None | Some p \<Rightarrow> lift_to p d) else Some i)"
  by pat_completeness auto
termination
  by (relation "measure (\<lambda>(i, d). ndepth i)") (auto dest: parent_decreases)

function meet_up :: "node_index \<Rightarrow> node_index \<Rightarrow> node_index option" where
  "meet_up a b = (if a = b then Some a
     else (case parent a of None \<Rightarrow> None
       | Some p \<Rightarrow> (case parent b of None \<Rightarrow> None | Some q \<Rightarrow> meet_up p q)))"
  by pat_completeness auto
termination
  by (relation "measure (\<lambda>(a, b). ndepth a)") (auto dest: parent_decreases)

declare lift_to.simps [simp del] meet_up.simps [simp del]

definition lowest_common_ancestor :: "node_index \<Rightarrow> node_index \<Rightarrow> node_index option" where
  "lowest_common_ancestor a b = do {
     node_a \<leftarrow> lift_to a (depth b);
     node_b \<leftarrow> lift_to b (depth node_a);
     meet_up node_a node_b }"

section \<open>Ancestor or self\<close>

definition anc :: "node_index \<Rightarrow> node_index \<Rightarrow> bool" where
  "anc j i \<longleftrightarrow> ndepth j \<le> ndepth i \<and> npos j = npos i div 2 ^ (ndepth i - ndepth j)"

lemma anc_up: "anc j i \<longleftrightarrow> (\<exists>k. up k i = Some j)"
  unfolding anc_def up_eq_Some by (auto intro!: exI [of _ "ndepth i - ndepth j"])

lemma anc_refl [simp]: "anc i i"
  by (simp add: anc_def)

lemma anc_trans: "anc a b \<Longrightarrow> anc b c \<Longrightarrow> anc a c"
  unfolding anc_up by (metis up_add)

lemma anc_same_depth: "anc a b \<Longrightarrow> ndepth a = ndepth b \<Longrightarrow> a = b"
  by (auto simp: anc_def intro: node_index_eqI)

lemma anc_linear:
  assumes "anc a i" "anc b i" "ndepth a \<le> ndepth b"
  shows "anc a b"
proof -
  have "ndepth i - ndepth a = (ndepth i - ndepth b) + (ndepth b - ndepth a)"
    using assms by (simp add: anc_def)
  then have "npos i div 2 ^ (ndepth i - ndepth a)
      = npos i div 2 ^ (ndepth i - ndepth b) div 2 ^ (ndepth b - ndepth a)"
    by (simp only: power_add div_mult2_eq)
  then show ?thesis using assms by (simp add: anc_def)
qed

lemma anc_parent: "parent i = Some p \<Longrightarrow> anc p i"
  by (metis anc_up bind.bind_lunit up.simps)

lemma anc_via_parent:
  assumes "parent i = Some p" and "anc x i" and "x \<noteq> i"
  shows "anc x p"
proof -
  have "ndepth x \<noteq> ndepth i" using anc_same_depth assms(2,3) by blast
  moreover have "ndepth x \<le> ndepth i" using assms(2) by (simp add: anc_def)
  moreover have "ndepth p = ndepth i - 1" using assms(1) unfolding parent_eq_Some by simp
  ultimately have "ndepth x \<le> ndepth p" by simp
  then show ?thesis by (rule anc_linear [OF assms(2) anc_parent [OF assms(1)]])
qed

section \<open>What the loops compute\<close>

lemma path_up_up: "map Some (path_up i) = map (\<lambda>k. up k i) [0..<Suc (ndepth i)]"
proof (induction i rule: path_up.induct)
  case (1 i)
  show ?case
  proof (cases "parent i")
    case None
    then have "ndepth i = 0" using parent_eq_None [of i] by blast
    with None show ?thesis by (simp add: path_up.simps [of i])
  next
    case (Some p)
    then have d: "ndepth i = Suc (ndepth p)" unfolding parent_eq_Some by auto
    have "map Some (path_up i) = Some i # map (\<lambda>k. up k p) [0..<Suc (ndepth p)]"
      using 1 Some by (simp add: path_up.simps [of i] del: upt_Suc)
    also have "\<dots> = map (\<lambda>k. up k i) [0..<Suc (ndepth i)]"
      by (simp add: upt_conv_Cons map_Suc_upt [symmetric] d Some comp_def del: upt_Suc)
    finally show ?thesis .
  qed
qed

lemma length_path_up [simp]: "length (path_up i) = Suc (ndepth i)"
  using arg_cong [OF path_up_up [of i], of length] by simp

lemma path_up_nth: "k \<le> ndepth i \<Longrightarrow> up k i = Some (path_up i ! k)"
proof -
  assume "k \<le> ndepth i"
  then have "map Some (path_up i) ! k = map (\<lambda>k. up k i) [0..<Suc (ndepth i)] ! k"
    by (simp only: path_up_up)
  with \<open>k \<le> ndepth i\<close> show ?thesis by (simp del: upt_Suc)
qed

lemma set_path_up: "set (path_up i) = {j. anc j i}"
proof (intro set_eqI iffI)
  fix j assume "j \<in> set (path_up i)"
  then obtain k where "k \<le> ndepth i" "path_up i ! k = j"
    by (metis in_set_conv_nth length_path_up less_Suc_eq_le)
  with path_up_nth [of k i] show "j \<in> {j. anc j i}" by (auto simp: anc_up)
next
  fix j assume "j \<in> {j. anc j i}"
  then obtain k where k: "up k i = Some j" by (auto simp: anc_up)
  then have "k \<le> ndepth i" by (simp add: up_eq_Some)
  with path_up_nth [of k i] k show "j \<in> set (path_up i)"
    by (metis length_path_up less_Suc_eq_le nth_mem option.inject)
qed

lemma path_to_root_eq: "ndepth i + 1 < 2 ^ 32 \<Longrightarrow> path_to_root i = Some (path_up i)"
  using checked_add_1 [of "depth i"] by (simp add: path_to_root_def ndepth_def)

lemma copath_up: "map Some (copath i) = map (\<lambda>k. Option.bind (up k i) sibling) [0..<ndepth i]"
proof (induction i rule: copath.induct)
  case (1 i)
  show ?case
  proof (cases "parent i")
    case None
    then have "ndepth i = 0" using parent_eq_None [of i] by blast
    then show ?thesis using sibling_eq_None [of i] by (simp add: copath.simps [of i])
  next
    case (Some p)
    then have d: "ndepth i = Suc (ndepth p)" unfolding parent_eq_Some by auto
    then obtain s where s: "sibling i = Some s" using sibling_eq_None [of i] by (cases "sibling i") auto
    have "map Some (copath i) = Some s # map (\<lambda>k. Option.bind (up k p) sibling) [0..<ndepth p]"
      using 1 [OF s Some] by (simp add: copath.simps [of i] s Some)
    also have "\<dots> = map (\<lambda>k. Option.bind (up k i) sibling) [0..<ndepth i]"
      by (simp add: upt_conv_Cons map_Suc_upt [symmetric] d Some s comp_def del: upt_Suc)
    finally show ?thesis .
  qed
qed

lemma length_copath [simp]: "length (copath i) = ndepth i"
  using arg_cong [OF copath_up [of i], of length] by simp

lemma copath_nth: "k < ndepth i \<Longrightarrow> sibling (path_up i ! k) = Some (copath i ! k)"
proof -
  assume k: "k < ndepth i"
  then have "map Some (copath i) ! k = map (\<lambda>k. Option.bind (up k i) sibling) [0..<ndepth i] ! k"
    by (simp only: copath_up)
  with k path_up_nth [of k i] show ?thesis by simp
qed

lemma copath_node:
  "k < ndepth i \<Longrightarrow> ndepth (copath i ! k) = ndepth i - k \<and>
    npos (copath i ! k) = (if even (npos i div 2 ^ k) then npos i div 2 ^ k + 1 else npos i div 2 ^ k - 1)"
  using copath_nth [of k i] path_up_nth [of k i] by (simp add: sibling_eq_Some up_eq_Some)

section \<open>Properties\<close>

text \<open>The path of a node is its chain of ancestors: it has \<open>depth + 1\<close> entries, starts at
  the node, holds exactly the node and its ancestors, and ends at the root when the node is
  valid; \<open>path_to_root\<close> returns it without panicking.\<close>

lemma path_to_root_spec:
  assumes "valid_index i"
  shows "\<exists>p. path_to_root i = Some p \<and> length p = ndepth i + 1 \<and> hd p = i \<and> last p = root
    \<and> set p = {j. anc j i} \<and> distinct p"
proof -
  have v: "ndepth i < 32" "npos i < 2 ^ ndepth i" using assms by (auto simp: valid_index_def)
  have "last (path_up i) = path_up i ! ndepth i"
    by (metis One_nat_def diff_Suc_1 last_conv_nth length_path_up list.size(3) nat.distinct(1))
  moreover have "up (ndepth i) i = Some root"
    unfolding up_eq_Some using v(2) by simp
  ultimately have "last (path_up i) = root"
    using path_up_nth [of "ndepth i" i] by simp
  moreover have "distinct (path_up i)"
  proof (unfold distinct_conv_nth, intro allI impI)
    fix a b assume "a < length (path_up i)" "b < length (path_up i)" "a \<noteq> b"
    then have "ndepth (path_up i ! a) = ndepth i - a" "ndepth (path_up i ! b) = ndepth i - b"
      "a \<le> ndepth i" "b \<le> ndepth i"
      using path_up_nth [of a i] path_up_nth [of b i] by (simp_all add: up_eq_Some)
    with \<open>a \<noteq> b\<close> show "path_up i ! a \<noteq> path_up i ! b" by auto
  qed
  moreover have "hd (path_up i) = i" by (simp add: path_up.simps [of i])
  ultimately show ?thesis
    using path_to_root_eq [of i] v(1) by (simp add: set_path_up)
qed

lemma siblings_iff:
  fixes x y :: nat
  shows "y = (if even x then x + 1 else x - 1) \<longleftrightarrow> x \<noteq> y \<and> x div 2 = y div 2"
  by (auto elim!: evenE oddE)

lemma above_copath_iff:
  assumes "ndepth j = ndepth i" and "k < ndepth i"
  shows "anc (copath i ! k) j \<longleftrightarrow>
    npos i div 2 ^ k \<noteq> npos j div 2 ^ k \<and> npos i div 2 ^ Suc k = npos j div 2 ^ Suc k"
proof -
  have "anc (copath i ! k) j \<longleftrightarrow> npos (copath i ! k) = npos j div 2 ^ k"
    using assms copath_node [of k i] by (simp add: anc_def)
  also have "\<dots> \<longleftrightarrow> npos i div 2 ^ k \<noteq> npos j div 2 ^ k
      \<and> npos i div 2 ^ k div 2 = npos j div 2 ^ k div 2"
    using copath_node [OF assms(2)] siblings_iff [of "npos j div 2 ^ k" "npos i div 2 ^ k"] by argo
  also have "npos i div 2 ^ k div 2 = npos j div 2 ^ k div 2
      \<longleftrightarrow> npos i div 2 ^ Suc k = npos j div 2 ^ Suc k"
    by (simp add: div_mult2_eq [symmetric] mult.commute)
  finally show ?thesis .
qed

lemma quotients_stay_equal:
  fixes p q :: nat
  assumes "p div 2 ^ a = q div 2 ^ a" and "a \<le> b"
  shows "p div 2 ^ b = q div 2 ^ b"
proof -
  have "b = a + (b - a)" using assms(2) by simp
  then show ?thesis using assms(1) by (metis div_mult2_eq power_add)
qed

text \<open>The co-path covers the group exactly once: every other leaf of the tree lies below
  exactly one node of a leaf's co-path, and the leaf itself below none, so that a secret
  encrypted to each co-path node once reaches everybody else once.\<close>

lemma copath_partitions_leaves:
  assumes "valid_index i" and "valid_index j" and "ndepth j = ndepth i"
  shows "(j \<noteq> i \<longrightarrow> (\<exists>!k. k < length (copath i) \<and> anc (copath i ! k) j))
    \<and> (\<forall>k < length (copath i). \<not> anc (copath i ! k) i)"
proof (intro conjI impI allI)
  assume "j \<noteq> i"
  then have ne: "npos j \<noteq> npos i" using assms(3) by (auto intro: node_index_eqI)
  let ?eq = "\<lambda>k. npos i div 2 ^ k = npos j div 2 ^ k"
  define m where "m = (LEAST k. ?eq k)"
  have top: "?eq (ndepth i)" using assms by (simp add: valid_index_def)
  then have m: "?eq m" "m \<le> ndepth i" unfolding m_def by (rule LeastI, rule Least_le)
  have low: "\<not> ?eq k" if "k < m" for k using that unfolding m_def by (rule not_less_Least)
  have "m \<noteq> 0" using m(1) ne by (cases m) auto
  then obtain n where n: "m = Suc n" by (cases m) auto
  show "\<exists>!k. k < length (copath i) \<and> anc (copath i ! k) j"
  proof (intro ex1I [of _ n] conjI)
    show "n < length (copath i)" using m(2) n by simp
    then show "anc (copath i ! n) j"
      using above_copath_iff [OF assms(3), of n] m(1) low [of n] n by simp
  next
    fix k assume k: "k < length (copath i) \<and> anc (copath i ! k) j"
    then have e: "\<not> ?eq k" "?eq (Suc k)"
      using above_copath_iff [OF assms(3), of k] by auto
    have "m \<le> Suc k" using e(2) unfolding m_def by (rule Least_le)
    moreover have "\<not> m \<le> k" using e(1) quotients_stay_equal [OF m(1)] by blast
    ultimately show "k = n" using n by simp
  qed
next
  fix k assume "k < length (copath i)"
  then show "\<not> anc (copath i ! k) i"
    using above_copath_iff [of i i k] by simp
qed

lemma valid_parent: "valid_index i \<Longrightarrow> parent i = Some p \<Longrightarrow> valid_index p"
  unfolding parent_eq_Some valid_index_def
  by (metis Suc_pred' bot_nat_0.not_eq_extremum less_imp_diff_less less_mult_imp_div_less
      mult.commute power_Suc)

lemma meet_up_spec:
  "ndepth a = ndepth b \<Longrightarrow> valid_index a \<Longrightarrow> valid_index b \<Longrightarrow>
    \<exists>c. meet_up a b = Some c \<and> anc c a \<and> anc c b \<and> (\<forall>x. anc x a \<and> anc x b \<longrightarrow> anc x c)"
proof (induction a b rule: meet_up.induct)
  case (1 a b)
  show ?case
  proof (cases "a = b")
    case True
    then have "meet_up a b = Some a" by (subst meet_up.simps) simp
    with True show ?thesis by (intro exI [of _ a]) simp
  next
    case False
    have "ndepth a \<noteq> 0"
    proof
      assume "ndepth a = 0"
      with 1(2-4) have "npos a = 0 \<and> npos b = 0" by (simp add: valid_index_def)
      with 1(2) False show False by (auto intro: node_index_eqI)
    qed
    then obtain p q where pq: "parent a = Some p" "parent b = Some q"
      using 1(2) parent_eq_None [of a] parent_eq_None [of b] by (metis option.exhaust)
    have d: "ndepth p = ndepth q" using pq 1(2) unfolding parent_eq_Some by simp
    obtain c where c: "meet_up p q = Some c" "anc c p" "anc c q"
      and low: "\<And>x. anc x p \<Longrightarrow> anc x q \<Longrightarrow> anc x c"
      using 1(1) [OF False pq d] valid_parent 1(3,4) pq by blast
    have "anc x c" if x: "anc x a" "anc x b" for x
    proof -
      have "x \<noteq> a \<and> x \<noteq> b" using x False anc_same_depth 1(2) by metis
      then show ?thesis using low x pq by (blast intro: anc_via_parent)
    qed
    moreover have "anc c a" "anc c b" using c pq anc_parent anc_trans by blast+
    ultimately show ?thesis using False pq c(1) by (intro exI [of _ c]) (simp add: meet_up.simps [of a b])
  qed
qed

lemma lift_to_spec:
  "valid_index i \<Longrightarrow> \<exists>j. lift_to i d = Some j \<and> anc j i \<and> valid_index j \<and> ndepth j = min (ndepth i) (unat d)"
proof (induction i d rule: lift_to.induct)
  case (1 i d)
  show ?case
  proof (cases "d < depth i")
    case True
    then have lt: "unat d < ndepth i" by (simp add: ndepth_def word_less_nat_alt)
    then obtain p where p: "parent i = Some p" using parent_eq_None [of i] by (cases "parent i") auto
    obtain j where "lift_to p d = Some j" "anc j p" "valid_index j" "ndepth j = min (ndepth p) (unat d)"
      using 1(1) [OF True p] valid_parent [OF 1(2) p] by blast
    moreover have "ndepth p = ndepth i - 1" using p unfolding parent_eq_Some by simp
    ultimately show ?thesis
      using True p lt by (auto simp: lift_to.simps [of i d] intro: anc_trans anc_parent)
  next
    case False
    then have "ndepth i \<le> unat d" by (simp add: ndepth_def word_le_nat_alt not_less)
    with False 1(2) show ?thesis by (simp add: lift_to.simps [of i d])
  qed
qed

text \<open>\<open>lowest_common_ancestor\<close> never reaches its panics on valid nodes: it returns a common
  ancestor (or one of the nodes), and every common ancestor is an ancestor of it.\<close>

lemma lowest_common_ancestor_spec:
  assumes "valid_index a" and "valid_index b"
  shows "\<exists>c. lowest_common_ancestor a b = Some c \<and> anc c a \<and> anc c b
    \<and> (\<forall>x. anc x a \<and> anc x b \<longrightarrow> anc x c)"
proof -
  obtain a' where a: "lift_to a (depth b) = Some a'" "anc a' a" "valid_index a'"
    "ndepth a' = min (ndepth a) (ndepth b)"
    using lift_to_spec [OF assms(1), of "depth b"] by (auto simp: ndepth_def)
  obtain b' where b: "lift_to b (depth a') = Some b'" "anc b' b" "valid_index b'"
    "ndepth b' = min (ndepth b) (ndepth a')"
    using lift_to_spec [OF assms(2), of "depth a'"] by (auto simp: ndepth_def)
  have d: "ndepth a' = ndepth b'" using a b by simp
  obtain c where c: "meet_up a' b' = Some c" "anc c a'" "anc c b'"
    and low: "\<And>x. anc x a' \<Longrightarrow> anc x b' \<Longrightarrow> anc x c"
    using meet_up_spec [OF d a(3) b(3)] by blast
  have "anc x c" if x: "anc x a" "anc x b" for x
  proof (rule low)
    have "ndepth x \<le> ndepth a'" using x a(4) by (simp add: anc_def)
    then show "anc x a'" "anc x b'"
      using x a(2) b(2) d by (auto intro: anc_linear)
  qed
  moreover have "lowest_common_ancestor a b = Some c"
    by (simp add: lowest_common_ancestor_def a b c)
  ultimately show ?thesis using a(2) b(2) c(2,3) anc_trans by blast
qed

section \<open>Nodes below a node\<close>

lemma nodes_at_depth_eq:
  assumes "valid_index r" and "depth r \<le> t" and "unat t < 32"
  shows "\<exists>ns. nodes_at_depth r t = Some ns \<and> length ns = 2 ^ (unat t - ndepth r)
    \<and> (\<forall>k < length ns. ndepth (ns ! k) = unat t \<and> npos (ns ! k) = npos r * 2 ^ (unat t - ndepth r) + k)"
proof -
  define e where "e = unat t - ndepth r"
  have e: "ndepth r + e = unat t" "e < 32"
    using assms by (simp_all add: e_def ndepth_def word_le_nat_alt)
  have sub: "checked_sub t (depth r) = Some (t - depth r)"
    using assms(2) by (simp add: checked_sub_def)
  have su: "unat (t - depth r) = e" using checked_sub_Some [OF sub] by (simp add: e_def ndepth_def)
  have c: "checked_shl 1 (t - depth r) = Some (push_bit e 1 :: u32)"
    and s: "checked_shl (position r) (t - depth r) = Some (push_bit e (position r))"
    using e(2) su by (simp_all add: checked_shl_def del: push_bit_of_1)
  have cu: "unat (push_bit e 1 :: u32) = 2 ^ e" using e(2) by (simp add: unat_shl_1 del: push_bit_of_1)
  have pow: "(2::nat) ^ (ndepth r + e) \<le> 2 ^ 31"
    unfolding e(1) using assms(3) by (intro power_increasing) auto
  have "Suc (npos r) * 2 ^ e \<le> 2 ^ ndepth r * (2 ^ e :: nat)"
    using assms(1) by (intro mult_right_mono) (simp_all add: valid_index_def)
  then have room: "npos r * 2 ^ e + 2 ^ e \<le> (2 ^ 31 :: nat)" using pow by (simp add: power_add)
  then have su2: "unat (push_bit e (position r)) = npos r * 2 ^ e"
    using unat_push_bit_no_overflow [of "position r" e] by (simp add: npos_def)
  define g where "g k = node_new t (push_bit e (position r) + of_nat k)" for k
  have step: "checked_add (push_bit e (position r)) (of_nat k) = Some (push_bit e (position r) + of_nat k)
      \<and> ndepth (g k) = unat t \<and> npos (g k) = npos r * 2 ^ e + k" if "k < 2 ^ e" for k
  proof -
    have k: "unat (of_nat k :: u32) = k" using that room by (simp add: unat_of_nat)
    then have add: "checked_add (push_bit e (position r)) (of_nat k)
        = Some (push_bit e (position r) + of_nat k)"
      using that room by (simp add: checked_add_def su2)
    with checked_add_Some [OF add] k su2 show ?thesis by (simp add: g_def ndepth_def npos_def)
  qed
  have nlt: "\<not> t < depth r" using assms(2) by simp
  have "those (map (\<lambda>i. do { p \<leftarrow> checked_add (push_bit e (position r)) (of_nat i);
      Some (node_new t p) }) [0..<2 ^ e]) = Some (map g [0..<2 ^ e])"
    by (rule those_map_Some) (use step in \<open>simp add: g_def\<close>)
  then have "nodes_at_depth r t = Some (map g [0..<2 ^ e])"
    by (simp add: nodes_at_depth_def nlt sub c s cu del: push_bit_of_1)
  with step show ?thesis by (intro exI [of _ "map g [0..<2 ^ e]"]) (simp add: e_def [symmetric])
qed

text \<open>\<open>nodes_at_depth\<close> (and \<open>leaves_in_subtree\<close>, which is the same call) enumerates, without
  a panic and without repetition, exactly the descendants of a valid node at the target depth;
  below 32 levels this is every depth a group can have.\<close>

lemma nodes_at_depth_spec:
  assumes "valid_index r" and "depth r \<le> t" and "unat t < 32"
  shows "\<exists>ns. nodes_at_depth r t = Some ns \<and> leaves_in_subtree r t = Some ns \<and> distinct ns
    \<and> set ns = {i. ndepth i = unat t \<and> anc r i}"
proof -
  define e where "e = unat t - ndepth r"
  obtain ns where ns: "nodes_at_depth r t = Some ns" "length ns = 2 ^ e"
    "\<And>k. k < 2 ^ e \<Longrightarrow> ndepth (ns ! k) = unat t \<and> npos (ns ! k) = npos r * 2 ^ e + k"
    using nodes_at_depth_eq [OF assms] by (auto simp: e_def)
  have le: "ndepth r \<le> unat t" using assms(2) by (simp add: ndepth_def word_le_nat_alt)
  have "distinct ns" unfolding distinct_conv_nth using ns(2,3) by (metis add_left_cancel)
  moreover have "set ns = {i. ndepth i = unat t \<and> anc r i}"
  proof (intro set_eqI iffI)
    fix i assume "i \<in> set ns"
    then obtain k where "k < 2 ^ e" "ns ! k = i" using ns(2) by (auto simp: in_set_conv_nth)
    with ns(3) [of k] show "i \<in> {i. ndepth i = unat t \<and> anc r i}"
      using le by (auto simp: anc_def e_def)
  next
    fix i assume "i \<in> {i. ndepth i = unat t \<and> anc r i}"
    then have i: "ndepth i = unat t" "npos r = npos i div 2 ^ e" by (auto simp: anc_def e_def)
    define k where "k = npos i mod 2 ^ e"
    have k: "k < 2 ^ e" by (simp add: k_def)
    have "npos i = npos r * 2 ^ e + k" by (simp add: i(2) k_def div_mult_mod_eq)
    then have "ns ! k = i" using ns(3) [OF k] i by (intro node_index_eqI) auto
    then show "i \<in> set ns" using k ns(2) by (metis nth_mem)
  qed
  ultimately show ?thesis using ns(1) by (auto simp: leaves_in_subtree_def)
qed

end
