(* ===== verification/Sntrup_Encoding.thy ===== *)
theory Sntrup_Encoding
  imports Crypto_Error
begin

text \<open>
  The wire encodings of sntrup761 (\<open>trelis-primitives/src/sntrup761/encoding.rs\<close>): small
  polynomials packed four coefficients to a byte, and the ten-stage base conversions of public
  keys (\<open>rq_encode\<close>, \<open>rq_decode\<close>) and of ciphertext bodies (\<open>rounded_encode\<close>,
  \<open>rounded_decode\<close>), with the division by multiplication they rest on (\<open>divmod_u14\<close>).

  A polynomial is the list of its 761 coefficients; an \<open>i8\<close>, \<open>i16\<close> or \<open>i32\<close> value is
  an integer, and \<open>fits\<close> checks the range where the code's arithmetic would panic. The
  working array \<open>r\<close>, which the code updates in place, is a new list after every stage:
  stage \<open>i\<close> reads \<open>r[2i]\<close> and \<open>r[2i+1]\<close> before anything at or above \<open>i\<close> is
  overwritten.
\<close>

section \<open>Signed machine integers\<close>

definition fits :: "nat \<Rightarrow> int \<Rightarrow> int option" where
  "fits w x = (if - (2 ^ (w - 1)) \<le> x \<and> x < 2 ^ (w - 1) then Some x else None)"

text \<open>\<open>as i16\<close> keeps the low bits.\<close>

definition as_signed :: "nat \<Rightarrow> int \<Rightarrow> int" where
  "as_signed w x = signed_take_bit (w - 1) x"

lemma fits_Some: "fits w x = Some y \<longleftrightarrow> y = x \<and> - (2 ^ (w - 1)) \<le> x \<and> x < 2 ^ (w - 1)"
  by (auto simp: fits_def)

lemma fits_in [simp]: "- (2 ^ (w - 1)) \<le> x \<Longrightarrow> x < 2 ^ (w - 1) \<Longrightarrow> fits w x = Some x"
  by (simp add: fits_def)

section \<open>Parameters\<close>

definition sntrup_p :: nat where "sntrup_p = 761"
definition sntrup_q :: int where "sntrup_q = 4591"
definition sntrup_q12 :: int where "sntrup_q12 = (sntrup_q - 1) div 2"
definition SMALL_BYTES :: nat where "SMALL_BYTES = 191"
definition RQ_BYTES :: nat where "RQ_BYTES = 1158"
definition ROUNDED_BYTES :: nat where "ROUNDED_BYTES = 1007"
definition CONFIRM_BYTES :: nat where "CONFIRM_BYTES = 32"
definition CIPHERTEXT_BYTES :: nat where "CIPHERTEXT_BYTES = ROUNDED_BYTES + CONFIRM_BYTES"
definition SECRET_KEY_BYTES :: nat where
  "SECRET_KEY_BYTES = 2 * SMALL_BYTES + RQ_BYTES + SMALL_BYTES + 32"

lemmas sntrup_sizes = sntrup_p_def sntrup_q_def sntrup_q12_def SMALL_BYTES_def RQ_BYTES_def
  ROUNDED_BYTES_def CONFIRM_BYTES_def CIPHERTEXT_BYTES_def SECRET_KEY_BYTES_def

section \<open>Small polynomials\<close>

text \<open>\<open>(c + 1) as u8\<close>: the addition is on \<open>i8\<close>.\<close>

definition small_digit :: "int \<Rightarrow> u8 option" where
  "small_digit c = do { d \<leftarrow> fits 8 (c + 1); Some (word_of_int d) }"

definition small_pack :: "int \<Rightarrow> int \<Rightarrow> int \<Rightarrow> int \<Rightarrow> u8 option" where
  "small_pack c0 c1 c2 c3 = do {
     x \<leftarrow> small_digit c0;
     d1 \<leftarrow> small_digit c1;
     x \<leftarrow> checked_add x (push_bit 2 d1);
     d2 \<leftarrow> small_digit c2;
     x \<leftarrow> checked_add x (push_bit 4 d2);
     d3 \<leftarrow> small_digit c3;
     checked_add x (push_bit 6 d3) }"

definition small_encode :: "int list \<Rightarrow> bytes option" where
  "small_encode cs = do {
     out \<leftarrow> those (map (\<lambda>i. small_pack (cs ! (4 * i)) (cs ! (4 * i + 1)) (cs ! (4 * i + 2))
       (cs ! (4 * i + 3))) [0..<sntrup_p div 4]);
     last_d \<leftarrow> small_digit (cs ! (sntrup_p - 1));
     Some (out @ [last_d]) }"

definition small_unpack :: "u8 \<Rightarrow> int list" where
  "small_unpack x = [uint (x AND 3) - 1, uint (drop_bit 2 x AND 3) - 1,
     uint (drop_bit 4 x AND 3) - 1, uint (drop_bit 6 x AND 3) - 1]"

definition small_decode :: "bytes \<Rightarrow> int list" where
  "small_decode bs = concat (map (\<lambda>i. small_unpack (bs ! i)) [0..<sntrup_p div 4])
     @ [uint (bs ! (sntrup_p div 4) AND 3) - 1]"

section \<open>Division by multiplication\<close>

definition divmod_u14 :: "u32 \<Rightarrow> u16 \<Rightarrow> (u32 \<times> u16) option" where
  "divmod_u14 x m =
     (if m = 0 then None else do {
        let v = (0x80000000 :: u32) div ucast m;
        let qpart = (ucast (drop_bit 31 ((ucast x :: u64) * ucast v)) :: u32);
        a \<leftarrow> checked_mul qpart (ucast m);
        x \<leftarrow> checked_sub x a;
        q \<leftarrow> checked_add 0 qpart;
        let qpart = (ucast (drop_bit 31 ((ucast x :: u64) * ucast v)) :: u32);
        a \<leftarrow> checked_mul qpart (ucast m);
        x \<leftarrow> checked_sub x a;
        q \<leftarrow> checked_add q qpart;
        let x_minus_m = x - ucast m;
        q \<leftarrow> checked_add q 1;
        let mask = - drop_bit 31 x_minus_m;
        Some (q + mask, ucast (x_minus_m + (mask AND ucast m))) })"

section \<open>The pair step of both encodings\<close>

text \<open>Two digits are mixed to \<open>r0 + r1 * m\<close> (no overflow: both are \<open>u16\<close>), \<open>nb\<close> low bytes
  are written and the rest goes to the next stage.\<close>

definition mix :: "u16 \<Rightarrow> u16 \<Rightarrow> u16 \<Rightarrow> u32" where
  "mix m r0 r1 = ucast r0 + ucast r1 * ucast m"

definition low_part :: "nat \<Rightarrow> u32 \<Rightarrow> bytes" where
  "low_part nb r2 = (if nb = 1 then [ucast r2] else [ucast r2, ucast (drop_bit 8 r2)])"

definition high_part :: "nat \<Rightarrow> u32 \<Rightarrow> u16" where
  "high_part nb r2 = (if nb = 1 then ucast (drop_bit 8 r2) else ucast (drop_bit 16 r2))"

text \<open>The loop \<open>for i in a..b\<close> of a stage: the bytes written and the new \<open>r[a..b]\<close>.\<close>

definition enc_range :: "nat \<Rightarrow> u16 \<Rightarrow> nat \<Rightarrow> nat \<Rightarrow> u16 list \<Rightarrow> bytes \<times> u16 list" where
  "enc_range nb m a b r =
     (let r2s = map (\<lambda>i. mix m (r ! (2 * i)) (r ! (2 * i + 1))) [a..<b]
      in (concat (map (low_part nb) r2s), map (high_part nb) r2s))"

text \<open>The inverse step reads \<open>nb\<close> bytes below \<open>s\<close> (\<open>s_idx\<close> before the reads) under the carried
  value; \<open>clamp\<close> is the reduction applied to the quotient.\<close>

definition dec_pair :: "nat \<Rightarrow> u16 \<Rightarrow> (u32 \<Rightarrow> u32) \<Rightarrow> bytes \<Rightarrow> nat \<Rightarrow> u16 \<Rightarrow> u16 list option" where
  "dec_pair nb m clamp bs s r = do {
     let v = push_bit 8 (ucast r) OR ucast (bs ! (s - 1));
     let v = (if nb = 1 then v else push_bit 8 v OR ucast (bs ! (s - 2)));
     (q, rem) \<leftarrow> divmod_u14 v m;
     Some [rem, ucast (clamp q)] }"

text \<open>The loop \<open>for i in (0..k).rev()\<close>; \<open>s\<close> is \<open>s_idx\<close> before the loop.\<close>

definition dec_range :: "nat \<Rightarrow> u16 \<Rightarrow> (u32 \<Rightarrow> u32) \<Rightarrow> bytes \<Rightarrow> nat \<Rightarrow> nat \<Rightarrow> u16 list \<Rightarrow> u16 list option" where
  "dec_range nb m clamp bs s k r =
     map_option concat (those (map (\<lambda>i. dec_pair nb m clamp bs (s - nb * (k - 1 - i)) (r ! i)) [0..<k]))"

section \<open>Public keys\<close>

definition rq_digit :: "int \<Rightarrow> u16 option" where
  "rq_digit c = do { s \<leftarrow> fits 16 (c + sntrup_q12); Some (word_of_int (s AND 16383)) }"

text \<open>The ten stages on the digits of a polynomial.\<close>

definition rq_pack :: "u16 list \<Rightarrow> bytes" where
  "rq_pack d =
     (let (o1, r1) = enc_range 2 4591 0 380 d; r1 = r1 @ [d ! 760];
          (o2, r2) = enc_range 1 322 0 190 r1; r2 = r2 @ [r1 ! 380];
          (o3, r3) = enc_range 1 406 0 95 r2; r3 = r3 @ [r2 ! 190];
          (o4, r4) = enc_range 1 644 0 48 r3;
          (o5, r5) = enc_range 1 1621 0 23 r4; (o5', r5') = enc_range 2 1621 23 24 r4; r5 = r5 @ r5';
          (o6, r6) = enc_range 2 10265 0 11 r5; (o6', r6') = enc_range 1 10265 11 12 r5; r6 = r6 @ r6';
          (o7, r7) = enc_range 1 1608 0 5 r6; (o7', r7') = enc_range 2 1608 5 6 r6; r7 = r7 @ r7';
          (o8, r8) = enc_range 2 10101 0 2 r7; (o8', r8') = enc_range 1 10101 2 3 r7; r8 = r8 @ r8';
          (o9, r9) = enc_range 1 1557 0 1 r8; r9 = r9 @ [r8 ! 2];
          (o10, r10) = enc_range 2 9470 0 1 r9
      in o1 @ o2 @ o3 @ o4 @ o5 @ o5' @ o6 @ o6' @ o7 @ o7' @ o8 @ o8' @ o9 @ o10
        @ [ucast (r10 ! 0), ucast (drop_bit 8 (r10 ! 0))])"

definition rq_encode :: "int list \<Rightarrow> bytes option" where
  "rq_encode cs = do {
     d \<leftarrow> those (map (\<lambda>i. rq_digit (cs ! i)) [0..<sntrup_p]);
     Some (rq_pack d) }"

definition rq_unpack :: "bytes \<Rightarrow> u16 list option" where
  "rq_unpack bs = do {
     let r = push_bit 8 (ucast (bs ! 1157)) OR (ucast (bs ! 1156) :: u32);
     let r10 = (ucast (r mod 1608) :: u16);
     r9 \<leftarrow> dec_pair 2 9470 (\<lambda>q. q mod 11127) bs 1156 r10;
     r8 \<leftarrow> dec_pair 1 1557 (\<lambda>q. q mod 1557) bs 1154 (r9 ! 0);
     let r8 = r8 @ [r9 ! 1];
     l7 \<leftarrow> dec_pair 1 10101 (\<lambda>q. q mod 282) bs 1153 (r8 ! 2);
     h7 \<leftarrow> dec_range 2 10101 (\<lambda>q. q mod 10101) bs 1152 2 r8; let r7 = h7 @ l7;
     l6 \<leftarrow> dec_pair 2 1608 (\<lambda>q. q mod 11468) bs 1148 (r7 ! 5);
     h6 \<leftarrow> dec_range 1 1608 (\<lambda>q. q mod 1608) bs 1146 5 r7; let r6 = h6 @ l6;
     l5 \<leftarrow> dec_pair 1 10265 (\<lambda>q. q mod 286) bs 1141 (r6 ! 11);
     h5 \<leftarrow> dec_range 2 10265 (\<lambda>q. q mod 10265) bs 1140 11 r6; let r5 = h5 @ l5;
     l4 \<leftarrow> dec_pair 2 1621 (\<lambda>q. q mod 11550) bs 1118 (r5 ! 23);
     h4 \<leftarrow> dec_range 1 1621 (\<lambda>q. q mod 1621) bs 1116 23 r5; let r4 = h4 @ l4;
     l3 \<leftarrow> dec_pair 1 644 (\<lambda>q. q mod 4591) bs 1093 (r4 ! 47);
     h3 \<leftarrow> dec_range 1 644 (\<lambda>q. q mod 644) bs 1092 47 r4; let r3 = h3 @ l3;
     r2 \<leftarrow> dec_range 1 406 (\<lambda>q. q mod 406) bs 1045 95 r3; let r2 = r2 @ [r3 ! 95];
     r1 \<leftarrow> dec_range 1 322 (\<lambda>q. q mod 322) bs 950 190 r2; let r1 = r1 @ [r2 ! 190];
     r0 \<leftarrow> dec_range 2 4591 (\<lambda>q. q mod 4591) bs 760 380 r1;
     Some (r0 @ [r1 ! 380]) }"

text \<open>\<open>rem as i16 - Q12\<close>.\<close>

definition rq_decode :: "bytes \<Rightarrow> int list option" where
  "rq_decode bs = do {
     ds \<leftarrow> rq_unpack bs;
     those (map (\<lambda>d. fits 16 (as_signed 16 (uint d) - sntrup_q12)) ds) }"

section \<open>Ciphertext bodies\<close>

text \<open>\<open>(3 * ((10923 * a + 16384) >> 15)) as i16\<close>.\<close>

definition round3 :: "int \<Rightarrow> int" where
  "round3 a = as_signed 16 (3 * drop_bit 15 (10923 * a + 16384))"

definition rounded_digit :: "int \<Rightarrow> u16" where
  "rounded_digit c = word_of_int (drop_bit 15 (((c + sntrup_q12) AND 16383) * 10923))"

definition rounded_pack :: "u16 list \<Rightarrow> bytes" where
  "rounded_pack d =
     (let (o1, r1) = enc_range 1 1531 0 380 d; r1 = r1 @ [d ! 760];
          (o2, r2) = enc_range 2 9157 0 190 r1; r2 = r2 @ [r1 ! 380];
          (o3, r3) = enc_range 1 1280 0 95 r2; r3 = r3 @ [r2 ! 190];
          (o4, r4) = enc_range 2 6400 0 48 r3;
          (o5, r5) = enc_range 1 625 0 24 r4;
          (o6, r6) = enc_range 1 1526 0 12 r5;
          (o7, r7) = enc_range 2 9097 0 6 r6;
          (o8, r8) = enc_range 1 1263 0 3 r7;
          (o9, r9) = enc_range 2 6232 0 1 r8; r9 = r9 @ [r8 ! 2];
          (o10, r10) = enc_range 1 593 0 1 r9
      in o1 @ o2 @ o3 @ o4 @ o5 @ o6 @ o7 @ o8 @ o9 @ o10
        @ [ucast (r10 ! 0), ucast (drop_bit 8 (r10 ! 0))])"

definition rounded_encode_raw :: "int list \<Rightarrow> bytes" where
  "rounded_encode_raw cs = rounded_pack (map (\<lambda>i. rounded_digit (cs ! i)) [0..<sntrup_p])"

definition rounded_encode :: "int list \<Rightarrow> bytes" where
  "rounded_encode cs = rounded_encode_raw (map (\<lambda>i. round3 (cs ! i)) [0..<sntrup_p])"

definition scale_up :: "u16 \<Rightarrow> int" where
  "scale_up v = as_signed 16 (3 * uint v - sntrup_q12)"

definition rounded_unpack :: "bytes \<Rightarrow> u16 list option" where
  "rounded_unpack bs = do {
     let final_r = push_bit 8 (ucast (bs ! 1006)) OR (ucast (bs ! 1005) :: u32);
     r9 \<leftarrow> dec_pair 1 593 id bs 1005 (ucast final_r);
     r8 \<leftarrow> dec_pair 2 6232 id bs 1004 (r9 ! 0);
     let r8 = r8 @ [r9 ! 1];
     r7 \<leftarrow> dec_range 1 1263 id bs 1002 3 r8;
     r6 \<leftarrow> dec_range 2 9097 id bs 999 6 r7;
     r5 \<leftarrow> dec_range 1 1526 id bs 987 12 r6;
     r4 \<leftarrow> dec_range 1 625 id bs 975 24 r5;
     r3 \<leftarrow> dec_range 2 6400 id bs 951 48 r4;
     r2 \<leftarrow> dec_range 1 1280 id bs 855 95 r3;
     let r2 = r2 @ [r3 ! 95];
     r1 \<leftarrow> dec_range 2 9157 id bs 760 190 r2;
     let r1 = r1 @ [r2 ! 190];
     r0 \<leftarrow> dec_range 1 1531 id bs 380 380 r1;
     Some (r0 @ [r1 ! 380]) }"

definition rounded_decode :: "bytes \<Rightarrow> int list option" where
  "rounded_decode bs = map_option (map scale_up) (rounded_unpack bs)"

section \<open>The division is exact\<close>

text \<open>The arithmetic core: with \<open>v\<close> the truncated reciprocal, two estimates leave a remainder
  of at most \<open>m\<close>, and never overshoot.\<close>

lemma reciprocal_step:
  fixes x m v :: nat
  assumes m: "0 < m" "m < 16384" and v: "v = 2 ^ 31 div m"
    and q: "q = x * v div 2 ^ 31"
  shows "q * m \<le> x" and "(x - q * m) * 2 ^ 31 \<le> m * 2 ^ 31 + x * m"
proof -
  have vm: "v * m \<le> 2 ^ 31" unfolding v by simp
  have "q * 2 ^ 31 \<le> x * v" unfolding q by simp
  then have "q * 2 ^ 31 * m \<le> x * (v * m)" by (metis mult.assoc mult_le_mono1)
  also have "\<dots> \<le> x * 2 ^ 31" using vm by simp
  finally show le: "q * m \<le> x" by simp
  have "2 ^ 31 < v * m + m" unfolding v using m(1) by (metis add.commute dividend_less_times_div mult.commute mult_Suc_right)
  then have "x * 2 ^ 31 \<le> x * (v * m + m)" by (intro mult_left_mono) simp_all
  then have a: "x * 2 ^ 31 \<le> x * v * m + x * m" by (simp add: algebra_simps)
  have "x * v < q * 2 ^ 31 + 2 ^ 31" unfolding q
    by (metis add.commute dividend_less_div_times mult.commute zero_less_numeral zero_less_power)
  then have "x * v * m \<le> (q * 2 ^ 31 + 2 ^ 31) * m" by (intro mult_right_mono) simp_all
  with a have "x * 2 ^ 31 \<le> q * m * 2 ^ 31 + m * 2 ^ 31 + x * m" by (simp add: algebra_simps)
  then show "(x - q * m) * 2 ^ 31 \<le> m * 2 ^ 31 + x * m"
    using le by (simp add: diff_mult_distrib)
qed

lemma reciprocal_twice:
  fixes x m v :: nat
  assumes m: "0 < m" "m < 16384" and x: "x < 2 ^ 32" and v: "v = 2 ^ 31 div m"
    and q1: "q1 = x * v div 2 ^ 31" and q2: "q2 = (x - q1 * m) * v div 2 ^ 31"
  shows "q1 * m \<le> x" and "q2 * m \<le> x - q1 * m" and "x - q1 * m - q2 * m \<le> m"
proof -
  note s1 = reciprocal_step [OF m v q1] and s2 = reciprocal_step [OF m v q2]
  show "q1 * m \<le> x" "q2 * m \<le> x - q1 * m" by (rule s1(1), rule s2(1))
  have "x * m \<le> 2 ^ 32 * m" using x by (intro mult_le_mono) simp_all
  with s1(2) have "(x - q1 * m) * 2 ^ 31 \<le> m * 2 ^ 31 + 2 ^ 32 * m" by (rule order_trans [OF _ add_left_mono])
  then have "(x - q1 * m) * 2 ^ 31 \<le> (3 * m) * 2 ^ 31" by (simp add: algebra_simps)
  then have x1: "x - q1 * m \<le> 3 * m" by (metis mult_le_cancel2 zero_less_numeral zero_less_power)
  then have "(x - q1 * m) * m \<le> 3 * m * m" by simp
  also have "\<dots> < 2 ^ 31"
  proof -
    have "3 * m * m \<le> 3 * 16384 * 16384" using m(2) by (intro mult_le_mono) simp_all
    then show ?thesis by simp
  qed
  finally have "(x - q1 * m) * m < 2 ^ 31" .
  with s2(2) have "(x - q1 * m - q2 * m) * 2 ^ 31 < (m + 1) * 2 ^ 31" by simp
  then have "x - q1 * m - q2 * m < m + 1" by (metis mult_less_cancel2)
  then show "x - q1 * m - q2 * m \<le> m" by simp
qed


lemma estimate_word:
  fixes x v :: u32
  assumes "unat v \<le> 2 ^ 31"
  shows "unat (ucast (drop_bit 31 ((ucast x :: u64) * ucast v)) :: u32) = unat x * unat v div 2 ^ 31"
proof -
  have x: "unat x < 2 ^ 32" using unsigned_less [of x, where 'a = nat] by simp
  have le: "unat x * unat v \<le> unat x * 2 ^ 31" using assms by simp
  also have "unat x * 2 ^ 31 < 2 ^ 64" using x by simp
  finally have lt: "unat x * unat v < 2 ^ 64" .
  then have p: "unat ((ucast x :: u64) * ucast v) = unat x * unat v"
    by (simp add: unat_word_ariths unat_ucast_up)
  have d: "unat x * unat v div 2 ^ 31 \<le> unat x" using le by (metis div_le_mono nonzero_mult_div_cancel_right
        power_not_zero zero_neq_numeral)
  have "unat (drop_bit 31 ((ucast x :: u64) * ucast v)) = unat x * unat v div 2 ^ 31"
    unfolding unsigned_drop_bit_eq p using lt by (simp add: drop_bit_nat_def take_bit_nat_eq_self)
  then show ?thesis
    using d x by (simp only: unsigned_ucast_eq) (simp add: take_bit_nat_eq_self)
qed

lemma drop_31: "drop_bit 31 (w :: u32) = (if unat w < 2 ^ 31 then 0 else 1)"
proof -
  have u: "unat (drop_bit 31 w) = unat w div 2 ^ 31"
    using unsigned_less [of w, where 'a = nat]
    by (simp add: unsigned_drop_bit_eq drop_bit_nat_def take_bit_nat_eq_self)
  have "unat w < 2 ^ 32" using unsigned_less [of w, where 'a = nat] by simp
  then have "unat w div 2 ^ 31 = (if unat w < 2 ^ 31 then 0 else 1)" by (auto simp: div_nat_eqI)
  with u show ?thesis by (auto simp: word_eq_iff_unsigned [where 'a = nat])
qed

text \<open>The final masked correction.\<close>

lemma masked_correction:
  fixes y m q :: u32
  assumes "unat y \<le> unat m" and "unat m < 2 ^ 31" and "0 < unat m"
  shows "q + 1 + - drop_bit 31 (y - m) = (if y = m then q + 1 else q)"
    and "y - m + (- drop_bit 31 (y - m) AND m) = (if y = m then 0 else y)"
proof -
  have big: "drop_bit 31 (y - m) = 1" if "y \<noteq> m"
  proof -
    from that assms(1) have lt: "unat y < unat m" by (metis le_neq_implies_less unsigned_word_eqI)
    then have "unat (y - m) = 2 ^ 32 + unat y - unat m" by (simp add: unat_sub_if')
    then have "\<not> unat (y - m) < 2 ^ 31" using assms(2) by simp
    then show ?thesis by (simp add: drop_31)
  qed
  show "q + 1 + - drop_bit 31 (y - m) = (if y = m then q + 1 else q)"
    and "y - m + (- drop_bit 31 (y - m) AND m) = (if y = m then 0 else y)"
    using big by (auto simp: drop_31)
qed

lemma div_mod_from_parts:
  fixes k m r x :: nat
  assumes "k * m + r = x" and "r < m"
  shows "k = x div m" and "r = x mod m"
  unfolding assms(1) [symmetric] using assms(2) by simp_all

text \<open>On every \<open>u32\<close> and every divisor from 2 to 2^14 - 1, \<open>divmod_u14\<close> returns the quotient
  and the remainder, and none of its checked operations panics.\<close>

lemma divmod_u14_eq:
  assumes "1 < m" and "m < 16384"
  shows "\<exists>q r. divmod_u14 x m = Some (q, r) \<and> unat q = unat x div unat m \<and> unat r = unat x mod unat m"
proof -
  define M where "M = unat m"
  define v where "v = (0x80000000 :: u32) div ucast m"
  have M: "0 < M" "M < 16384" "1 < M" using assms by (simp_all add: M_def word_less_nat_alt)
  have um: "unat (ucast m :: u32) = M" by (simp add: unat_ucast_up M_def)
  have V: "unat v = 2 ^ 31 div M" by (simp add: v_def unat_div um)
  then have V': "unat v \<le> 2 ^ 31" by simp
  have X: "unat x < 2 ^ 32" using unsigned_less [of x, where 'a = nat] by simp
  define p1 where "p1 = (ucast (drop_bit 31 ((ucast x :: u64) * ucast v)) :: u32)"
  define q1 where "q1 = unat x * unat v div 2 ^ 31"
  define q2 where "q2 = (unat x - q1 * M) * unat v div 2 ^ 31"
  note R = reciprocal_twice [OF M(1,2) X V q1_def q2_def]
  have p1: "unat p1 = q1" using estimate_word [OF V'] by (simp add: p1_def q1_def)
  define x1 where "x1 = x - p1 * ucast m"
  have m1: "checked_mul p1 (ucast m) = Some (p1 * ucast m)" and um1: "unat (p1 * ucast m) = q1 * M"
    using R(1) X by (simp_all add: checked_mul_def p1 um unat_word_ariths)
  have s1: "checked_sub x (p1 * ucast m) = Some x1" and ux1: "unat x1 = unat x - q1 * M"
    using R(1) um1 by (simp_all add: checked_sub_def x1_def word_le_nat_alt unat_sub)
  define p2 where "p2 = (ucast (drop_bit 31 ((ucast x1 :: u64) * ucast v)) :: u32)"
  have p2: "unat p2 = q2" using estimate_word [OF V'] by (simp add: p2_def q2_def ux1)
  define x2 where "x2 = x1 - p2 * ucast m"
  have m2: "checked_mul p2 (ucast m) = Some (p2 * ucast m)" and um2: "unat (p2 * ucast m) = q2 * M"
    using R(2) X by (simp_all add: checked_mul_def p2 um unat_word_ariths)
  have s2: "checked_sub x1 (p2 * ucast m) = Some x2" and ux2: "unat x2 = unat x - q1 * M - q2 * M"
    using R(2) um2 ux1 by (simp_all add: checked_sub_def x2_def word_le_nat_alt unat_sub)
  have tot: "(q1 + q2) * M + unat x2 = unat x" using R(1,2) ux2 by (simp add: add_mult_distrib)
  have "(q1 + q2) * 2 \<le> (q1 + q2) * M" using M(3) by (intro mult_le_mono) simp_all
  also have "\<dots> \<le> unat x" using tot by simp
  finally have small: "q1 + q2 + 1 < 2 ^ 32" using X by simp
  have a1: "checked_add 0 p1 = Some p1" using small by (simp add: checked_add_def p1)
  have a2: "checked_add p1 p2 = Some (p1 + p2)" and ua2: "unat (p1 + p2) = q1 + q2"
    using small by (simp_all add: checked_add_def p1 p2 unat_word_ariths)
  have a3: "checked_add (p1 + p2) 1 = Some (p1 + p2 + 1)" and ua3: "unat (p1 + p2 + 1) = q1 + q2 + 1"
    using small checked_add_1 [of "p1 + p2"] by (simp_all add: ua2)
  have nz: "m \<noteq> 0" using assms(1) by auto
  note C = masked_correction(1) [of x2 "ucast m" "p1 + p2", unfolded um]
    masked_correction(2) [of x2 "ucast m", unfolded um]
  have le: "unat x2 \<le> M" using R(3) ux2 by simp
  have lt31: "M < 2 ^ 31" using M by simp
  define r where "r = (if x2 = ucast m then 0 else x2)"
  have ur: "unat r < M" using le um M(1) by (auto simp: r_def word_eq_iff_unsigned [where 'a = nat])
  have "divmod_u14 x m = Some (if x2 = ucast m then p1 + p2 + 1 else p1 + p2, ucast r)"
    unfolding divmod_u14_def
    by (simp only: Let_def v_def [symmetric] p1_def [symmetric] m1 s1 a1 bind.bind_lunit
        p2_def [symmetric] m2 s2 a2 a3 C(1,2) [OF le lt31 M(1)] r_def [symmetric] nz if_False)
  moreover have "unat (if x2 = ucast m then p1 + p2 + 1 else p1 + p2) * M + unat r = unat x"
    using tot by (auto simp: r_def ua2 ua3 um)
  then have "unat (if x2 = ucast m then p1 + p2 + 1 else p1 + p2) = unat x div M"
    and "unat r = unat x mod M"
    by (rule div_mod_from_parts(1) [OF _ ur], rule div_mod_from_parts(2) [OF _ ur])
  moreover have "unat (ucast r :: u16) = unat r"
    using ur M(2) by (simp add: unsigned_ucast_eq take_bit_nat_eq_self)
  ultimately show ?thesis by (simp add: M_def)
qed

section \<open>One stage inverts\<close>

lemma length_low_part: "nb = 1 \<or> nb = 2 \<Longrightarrow> length (low_part nb x) = nb"
  by (auto simp: low_part_def)

lemma unat_mix: "unat (mix m r0 r1) = unat r0 + unat r1 * unat m"
proof -
  have "unat r0 + unat r1 * unat m \<le> 65535 + 65535 * 65535"
    using unsigned_less [of r0, where 'a = nat] unsigned_less [of r1, where 'a = nat]
      unsigned_less [of m, where 'a = nat]
    by (intro add_mono mult_le_mono) simp_all
  then show ?thesis by (simp add: mix_def unat_word_ariths unat_ucast_up)
qed

lemma rebuild_1: "push_bit 8 (ucast (ucast (drop_bit 8 x) :: u16)) OR ucast (ucast x :: u8) = take_bit 24 (x :: u32)"
  by (intro bit_word_eqI) (auto simp: bit_simps)

lemma rebuild_2: "push_bit 8 (push_bit 8 (ucast (ucast (drop_bit 16 x) :: u16))
    OR ucast (ucast (drop_bit 8 x) :: u8)) OR ucast (ucast x :: u8) = (x :: u32)"
proof (rule bit_word_eqI)
  fix n assume "n < LENGTH(32)"
  then show "bit (push_bit 8 (push_bit 8 (ucast (ucast (drop_bit 16 x) :: u16))
      OR ucast (ucast (drop_bit 8 x) :: u8)) OR ucast (ucast x :: u8) :: u32) n = bit x n"
    by (cases "n < 8"; cases "n < 16") (auto simp: bit_simps)
qed

lemma ucast_back: "LENGTH('a) \<le> LENGTH('b) \<Longrightarrow> ucast (ucast w :: 'b::len word) = (w :: 'a::len word)"
  by (intro bit_word_eqI) (auto simp: bit_simps)

lemma dec_pair_enc:
  assumes m: "1 < m" "m < 16384" and nb: "nb = 1 \<or> nb = 2" and r0: "r0 < m"
    and room: "unat r0 + unat r1 * unat m < 256 ^ nb * 65536"
    and clamp: "clamp (ucast r1) = ucast r1"
    and bytes: "\<And>j. j < nb \<Longrightarrow> bs ! (s - nb + j) = low_part nb (mix m r0 r1) ! j" and s: "nb \<le> s"
  shows "dec_pair nb m clamp bs s (high_part nb (mix m r0 r1)) = Some [r0, r1]"
proof -
  let ?x = "mix m r0 r1"
  have m0: "0 < unat m" using m(1) by (simp add: word_less_nat_alt)
  have lt: "unat r0 < unat m" using r0 by (simp add: word_less_nat_alt)
  obtain q r where qr: "divmod_u14 ?x m = Some (q, r)" "unat q = unat ?x div unat m"
    "unat r = unat ?x mod unat m"
    using divmod_u14_eq [OF m] by blast
  have "unat q = unat r1" "unat r = unat r0" using qr(2,3) m0 lt by (simp_all add: unat_mix)
  then have q: "q = ucast r1" and r: "r = r0"
    by (simp_all add: word_eq_iff_unsigned [where 'a = nat] unat_ucast_up)
  from nb have "(let v = push_bit 8 (ucast (high_part nb ?x)) OR ucast (bs ! (s - 1))
      in if nb = 1 then v else push_bit 8 v OR ucast (bs ! (s - 2))) = ?x"
  proof
    assume n: "nb = 1"
    have "take_bit 24 ?x = ?x"
      using room n by (simp add: word_eq_iff_unsigned [where 'a = nat] unsigned_take_bit_eq
          take_bit_nat_eq_self unat_mix)
    then show ?thesis
      using n bytes [of 0] rebuild_1 [of ?x] by (simp add: high_part_def low_part_def)
  next
    assume n: "nb = 2"
    have "s - 2 + 1 = s - Suc 0" using s n by simp
    then show ?thesis
      using n bytes [of 0] bytes [of 1] rebuild_2 [of ?x] by (simp add: high_part_def low_part_def)
  qed
  then show ?thesis
    by (simp add: dec_pair_def Let_def qr(1) q r clamp ucast_back)
qed

lemma nth_concat_uniform:
  assumes "\<And>x. x \<in> set xs \<Longrightarrow> length x = n" and "i < length xs" and "j < n"
  shows "concat xs ! (n * i + j) = xs ! i ! j"
  using assms
proof (induction xs arbitrary: i)
  case Nil
  then show ?case by simp
next
  case (Cons x xs)
  show ?case
  proof (cases i)
    case 0
    then show ?thesis using Cons.prems by (simp add: nth_append)
  next
    case (Suc i')
    have "length x = n" using Cons.prems(1) by simp
    with Suc show ?thesis
      using Cons.IH [of i'] Cons.prems by (simp add: nth_append)
  qed
qed

lemma dec_range_enc:
  fixes r :: "u16 list"
  assumes m: "1 < m" "m < 16384" and nb: "nb = 1 \<or> nb = 2"
    and r0: "\<And>i. i < k \<Longrightarrow> r ! (2 * i) < m"
    and room: "\<And>i. i < k \<Longrightarrow> unat (r ! (2 * i)) + unat (r ! (2 * i + 1)) * unat m < 256 ^ nb * 65536"
    and clamp: "\<And>i. i < k \<Longrightarrow> clamp (ucast (r ! (2 * i + 1))) = ucast (r ! (2 * i + 1))"
    and bytes: "sub_slice (s - nb * k) s bs = fst (enc_range nb m 0 k r)" and s: "nb * k \<le> s" "s \<le> length bs"
    and hs: "\<And>i. i < k \<Longrightarrow> hs ! i = snd (enc_range nb m 0 k r) ! i" and len: "2 * k \<le> length r"
  shows "dec_range nb m clamp bs s k hs = Some (take (2 * k) r)"
proof -
  define f where "f i = mix m (r ! (2 * i)) (r ! (2 * i + 1))" for i
  have at: "bs ! (s - nb * k + nb * i + j) = low_part nb (f i) ! j" if i: "i < k" and j: "j < nb" for i j
  proof -
    have "nb * (i + 1) \<le> nb * k" using i by (intro mult_le_mono) simp_all
    then have in_range: "nb * i + j < nb * k" using j by simp
    have "sub_slice (s - nb * k) s bs ! (nb * i + j) = bs ! (s - nb * k + (nb * i + j))"
      using in_range s by (simp add: sub_slice_def)
    moreover have "sub_slice (s - nb * k) s bs = concat (map (low_part nb) (map f [0..<k]))"
      unfolding bytes enc_range_def Let_def f_def by simp
    moreover have "concat (map (low_part nb) (map f [0..<k])) ! (nb * i + j) = low_part nb (f i) ! j"
      using nb i j by (subst nth_concat_uniform) (auto simp: length_low_part)
    ultimately show ?thesis by (simp add: add.assoc)
  qed
  have pair: "dec_pair nb m clamp bs (s - nb * (k - 1 - i)) (hs ! i) = Some [r ! (2 * i), r ! (2 * i + 1)]"
    if i: "i < k" for i
  proof -
    have "nb * (i + 1) \<le> nb * k" using i by (intro mult_le_mono) simp_all
    moreover have "nb * (k - 1 - i) = nb * k - nb * (i + 1)" by (simp add: diff_mult_distrib2)
    ultimately have pos: "s - nb * (k - 1 - i) - nb = s - nb * k + nb * i" "nb \<le> s - nb * (k - 1 - i)"
      using s by simp_all
    have h: "hs ! i = high_part nb (f i)" using hs [OF i] i by (simp add: enc_range_def Let_def f_def)
    show ?thesis
      unfolding h f_def
      by (rule dec_pair_enc [OF m nb r0 [OF i] room [OF i]])
        (use clamp [OF i] at [OF i] pos in \<open>simp_all add: f_def\<close>)
  qed
  have "those (map (\<lambda>i. dec_pair nb m clamp bs (s - nb * (k - 1 - i)) (hs ! i)) [0..<k])
      = Some (map (\<lambda>i. [r ! (2 * i), r ! (2 * i + 1)]) [0..<k])"
    by (rule those_map_Some, rule pair) simp
  moreover have "concat (map (\<lambda>i. [r ! (2 * i), r ! (2 * i + 1)]) [0..<k]) = take (2 * k) r"
    using len by (induction k) (simp_all add: take_Suc_conv_app_nth)
  ultimately show ?thesis by (simp add: dec_range_def)
qed

lemma enc_range_lengths [simp]:
  "length (snd (enc_range nb m a b r)) = b - a"
  "nb = 1 \<or> nb = 2 \<Longrightarrow> length (fst (enc_range nb m a b r)) = nb * (b - a)"
  by (auto simp: enc_range_def Let_def length_concat o_def low_part_def sum_list_triv)

lemma enc_range_drop:
  assumes "2 * b \<le> length r" and "a \<le> b"
  shows "enc_range nb m a b r = enc_range nb m 0 (b - a) (drop (2 * a) r)"
proof -
  have "map (\<lambda>i. mix m (r ! (2 * i)) (r ! (2 * i + 1))) [a..<b]
      = map (\<lambda>i. mix m (drop (2 * a) r ! (2 * i)) (drop (2 * a) r ! (2 * i + 1))) [0..<b - a]"
    using assms by (intro nth_equalityI) (auto simp: distrib_left)
  then show ?thesis by (simp only: enc_range_def Let_def)
qed

text \<open>How far a stage shrinks the digits.\<close>

definition below :: "nat \<Rightarrow> u16 list \<Rightarrow> bool" where
  "below n r \<longleftrightarrow> (\<forall>d \<in> set r. unat d < n)"

lemma below_nth: "below n r \<Longrightarrow> i < length r \<Longrightarrow> unat (r ! i) < n"
  by (simp add: below_def)

lemma below_append [simp]: "below n (r @ s) \<longleftrightarrow> below n r \<and> below n s"
  by (auto simp: below_def)

lemma below_Cons [simp]: "below n [] \<and> (below n (x # s) \<longleftrightarrow> unat x < n \<and> below n s)"
  by (auto simp: below_def)

lemma below_drop: "below n r \<Longrightarrow> below n (drop k r)"
  by (auto simp: below_def dest: in_set_dropD)

lemma mix_below:
  assumes "unat r0 < unat m" and "unat r1 < c"
  shows "unat (mix m r0 r1) < unat m * c"
proof -
  have "unat (mix m r0 r1) < unat m * (unat r1 + 1)" using assms(1) by (simp add: unat_mix)
  also have "\<dots> \<le> unat m * c" using assms(2) by (intro mult_le_mono) simp_all
  finally show ?thesis .
qed

lemma high_part_below:
  assumes "nb = 1 \<or> nb = 2" and "unat x < 256 ^ nb * n" and "n \<le> 65536"
  shows "unat (high_part nb x) < n"
proof -
  have "unat x div 256 ^ nb < n" using assms(2) by (simp add: less_mult_imp_div_less mult.commute)
  moreover have "unat (high_part nb x) = unat x div 256 ^ nb"
    using assms(1) calculation assms(3)
    by (auto simp: high_part_def unsigned_ucast_eq unsigned_drop_bit_eq drop_bit_nat_def
        take_bit_nat_eq_self unsigned_less)
  ultimately show ?thesis by simp
qed

lemma enc_range_below:
  assumes "nb = 1 \<or> nb = 2" and "n \<le> 65536" and "unat m * c \<le> 256 ^ nb * n"
    and "\<And>i. a \<le> i \<Longrightarrow> i < b \<Longrightarrow> unat (r ! (2 * i)) < unat m"
    and "\<And>i. a \<le> i \<Longrightarrow> i < b \<Longrightarrow> unat (r ! (2 * i + 1)) < c"
  shows "below n (snd (enc_range nb m a b r))"
  unfolding below_def
proof
  fix d assume "d \<in> set (snd (enc_range nb m a b r))"
  then obtain i where i: "a \<le> i" "i < b" and d: "d = high_part nb (mix m (r ! (2 * i)) (r ! (2 * i + 1)))"
    by (auto simp: enc_range_def Let_def)
  have "unat (mix m (r ! (2 * i)) (r ! (2 * i + 1))) < 256 ^ nb * n"
    using mix_below [OF assms(4,5) [OF i]] assms(3) by (rule order_less_le_trans)
  then show "unat d < n" unfolding d by (rule high_part_below [OF assms(1) _ assms(2)])
qed

text \<open>One stage decodes to the digits it was given: \<open>m\<close> bounds the even digits, \<open>c\<close> the odd ones.\<close>

lemma stage_inverts:
  fixes r :: "u16 list"
  assumes m: "1 < m" "m < 16384" and nb: "nb = 1 \<or> nb = 2" and len: "length r = 2 * k"
    and even: "\<And>i. i < k \<Longrightarrow> unat (r ! (2 * i)) < unat m"
    and odd: "\<And>i. i < k \<Longrightarrow> unat (r ! (2 * i + 1)) < c"
    and room: "unat m * c \<le> 256 ^ nb * 65536"
    and clamp: "\<And>q. unat q < c \<Longrightarrow> clamp q = q"
    and bytes: "sub_slice (s - nb * k) s bs = fst (enc_range nb m 0 k r)" and s: "nb * k \<le> s" "s \<le> length bs"
  shows "dec_range nb m clamp bs s k (snd (enc_range nb m 0 k r) @ rest) = Some r"
proof -
  have "dec_range nb m clamp bs s k (snd (enc_range nb m 0 k r) @ rest) = Some (take (2 * k) r)"
  proof (rule dec_range_enc [OF m nb _ _ _ bytes s])
    fix i assume i: "i < k"
    show "r ! (2 * i) < m" using even [OF i] by (simp add: word_less_nat_alt)
    show "unat (r ! (2 * i)) + unat (r ! (2 * i + 1)) * unat m < 256 ^ nb * 65536"
      using mix_below [OF even [OF i] odd [OF i]] room by (simp add: unat_mix)
    show "clamp (ucast (r ! (2 * i + 1))) = ucast (r ! (2 * i + 1))"
      using odd [OF i] by (intro clamp) (simp add: unat_ucast_up)
    show "(snd (enc_range nb m 0 k r) @ rest) ! i = snd (enc_range nb m 0 k r) ! i"
      using i by (simp add: nth_append)
  qed (simp add: len)
  then show ?thesis by (simp add: len)
qed

lemma dec_range_1: "dec_range nb m clamp bs s 1 (x # rest) = dec_pair nb m clamp bs s x"
  by (simp add: dec_range_def split: option.split)

lemma enc_range_take: "2 * b \<le> n \<Longrightarrow> n \<le> length r \<Longrightarrow> enc_range nb m a b (take n r) = enc_range nb m a b r"
  by (auto simp: enc_range_def Let_def intro!: arg_cong [where f = concat])

text \<open>A stage on digits that are all below its modulus, with up to one digit passed through.\<close>

lemma uniform_stage:
  assumes "1 < m" "m < 16384" "nb = 1 \<or> nb = 2"
    and r: "below (unat m) (take (2 * k) r)" "2 * k \<le> length r"
    and n: "unat m * unat m \<le> 256 ^ nb * n" "n \<le> 65536"
    and clamp: "\<And>q. unat q < unat m \<Longrightarrow> clamp q = q"
    and bytes: "sub_slice (s - nb * k) s bs = fst (enc_range nb m 0 k r)" and s: "nb * k \<le> s" "s \<le> length bs"
  shows "dec_range nb m clamp bs s k (snd (enc_range nb m 0 k r) @ rest) = Some (take (2 * k) r)"
    and "below n (snd (enc_range nb m 0 k r))"
proof -
  have b: "unat (r ! i) < unat m" if "i < 2 * k" for i
    using that r below_nth [OF r(1), of i] by simp
  have "256 ^ nb * n \<le> 256 ^ nb * (65536 :: nat)" using n(2) by simp
  then have "unat m * unat m \<le> 256 ^ nb * 65536" using n(1) by (rule order_trans [rotated])
  then show "dec_range nb m clamp bs s k (snd (enc_range nb m 0 k r) @ rest) = Some (take (2 * k) r)"
    using stage_inverts [OF assms(1-3), of "take (2 * k) r" k "unat m" clamp s bs rest] b r(2) clamp bytes s
    by (simp add: enc_range_take)
  show "below n (snd (enc_range nb m 0 k r))"
    by (rule enc_range_below [OF assms(3) n(2) n(1)]) (use b in simp_all)
qed

lemma final_bytes: "ucast (push_bit 8 (ucast (ucast (drop_bit 8 x) :: u8)) OR (ucast (ucast x :: u8) :: u32)) = (x :: u16)"
  by (intro bit_word_eqI) (auto simp: bit_simps)

lemma below_take: "below n r \<Longrightarrow> below n (take k r)"
  by (auto simp: below_def dest: in_set_takeD)

lemma below_mono: "below n r \<Longrightarrow> n \<le> n' \<Longrightarrow> below n' r"
  by (auto simp: below_def)

lemma enc_range_pair:
  "enc_range nb m a b r = (out, s) \<Longrightarrow> nb = 1 \<or> nb = 2 \<Longrightarrow> length out = nb * (b - a) \<and> length s = b - a"
  using enc_range_lengths [of nb m a b r] by simp

lemma take_snoc_nth: "length xs = n + 1 \<Longrightarrow> take n xs @ [xs ! n] = xs"
  by (metis Suc_eq_plus1 lessI order_refl take_Suc_conv_app_nth take_all)

text \<open>The stages of a ciphertext body invert each other on digits below 1531.\<close>

lemma rounded_unpack_pack:
  assumes len: "length d = 761" and d: "below 1531 d"
  shows "rounded_unpack (rounded_pack d) = Some d" and "length (rounded_pack d) = 1007"
proof -
  obtain o1 s1 where e1: "enc_range 1 1531 0 380 d = (o1, s1)" by fastforce
  define r1 where "r1 = s1 @ [d ! 760]"
  obtain o2 s2 where e2: "enc_range 2 9157 0 190 r1 = (o2, s2)" by fastforce
  define r2 where "r2 = s2 @ [r1 ! 380]"
  obtain o3 s3 where e3: "enc_range 1 1280 0 95 r2 = (o3, s3)" by fastforce
  define r3 where "r3 = s3 @ [r2 ! 190]"
  obtain o4 r4 where e4: "enc_range 2 6400 0 48 r3 = (o4, r4)" by fastforce
  obtain o5 r5 where e5: "enc_range 1 625 0 24 r4 = (o5, r5)" by fastforce
  obtain o6 r6 where e6: "enc_range 1 1526 0 12 r5 = (o6, r6)" by fastforce
  obtain o7 r7 where e7: "enc_range 2 9097 0 6 r6 = (o7, r7)" by fastforce
  obtain o8 r8 where e8: "enc_range 1 1263 0 3 r7 = (o8, r8)" by fastforce
  obtain o9 s9 where e9: "enc_range 2 6232 0 1 r8 = (o9, s9)" by fastforce
  define r9 where "r9 = s9 @ [r8 ! 2]"
  obtain o10 r10 where e10: "enc_range 1 593 0 1 r9 = (o10, r10)" by fastforce
  define bs where "bs = o1 @ o2 @ o3 @ o4 @ o5 @ o6 @ o7 @ o8 @ o9 @ o10
    @ [ucast (r10 ! 0), ucast (drop_bit 8 (r10 ! 0))]"
  have pack: "rounded_pack d = bs"
    by (simp only: rounded_pack_def Let_def e1 e2 e3 e4 e5 e6 e7 e8 e9 e10 prod.case bs_def
        r1_def [symmetric] r2_def [symmetric] r3_def [symmetric] r9_def [symmetric])
  have L: "length o1 = 380 \<and> length s1 = 380" "length o2 = 380 \<and> length s2 = 190"
    "length o3 = 95 \<and> length s3 = 95" "length o4 = 96 \<and> length r4 = 48"
    "length o5 = 24 \<and> length r5 = 24" "length o6 = 12 \<and> length r6 = 12"
    "length o7 = 12 \<and> length r7 = 6" "length o8 = 3 \<and> length r8 = 3"
    "length o9 = 2 \<and> length s9 = 1" "length o10 = 1 \<and> length r10 = 1"
    using e1 [THEN enc_range_pair] e2 [THEN enc_range_pair] e3 [THEN enc_range_pair]
      e4 [THEN enc_range_pair] e5 [THEN enc_range_pair] e6 [THEN enc_range_pair]
      e7 [THEN enc_range_pair] e8 [THEN enc_range_pair] e9 [THEN enc_range_pair]
      e10 [THEN enc_range_pair] by simp_all
  have len_bs: "length bs = 1007" by (simp add: bs_def L)
  have S1: "sub_slice 0 380 bs = o1" and S2: "sub_slice 380 760 bs = o2" and S3: "sub_slice 760 855 bs = o3"
    and S4: "sub_slice 855 951 bs = o4" and S5: "sub_slice 951 975 bs = o5" and S6: "sub_slice 975 987 bs = o6"
    and S7: "sub_slice 987 999 bs = o7" and S8: "sub_slice 999 1002 bs = o8" and S9: "sub_slice 1002 1004 bs = o9"
    and S10: "sub_slice 1004 1005 bs = o10"
    by (simp_all add: bs_def slice_fields L)
  have P1: "below 1531 d" "length bs = 1007" by (fact d len_bs)+
  have U1: "dec_range 1 1531 id bs 380 380 (s1 @ rest) = Some (take 760 d)" "below 9157 s1" for rest
    using uniform_stage(1) [of 1531 1 380 d 9157 id 380 bs rest] uniform_stage(2) [of 1531 1 380 d 9157 id 380 bs] e1 L S1 P1 len below_take
    by simp_all
  have P2: "below 9157 (take 380 r1)" "length r1 = 381" "length bs = 1007" using U1(2) L len_bs by (simp_all add: r1_def)
  have U2: "dec_range 2 9157 id bs 760 190 (s2 @ rest) = Some (take 380 r1)" "below 1280 s2" for rest
    using uniform_stage(1) [of 9157 2 190 r1 1280 id 760 bs rest] uniform_stage(2) [of 9157 2 190 r1 1280 id 760 bs] e2 L S2 P2 len below_take
    by simp_all
  have P3: "below 1280 (take 190 r2)" "length r2 = 191" "length bs = 1007" using U2(2) L len_bs by (simp_all add: r2_def)
  have U3: "dec_range 1 1280 id bs 855 95 (s3 @ rest) = Some (take 190 r2)" "below 6400 s3" for rest
    using uniform_stage(1) [of 1280 1 95 r2 6400 id 855 bs rest] uniform_stage(2) [of 1280 1 95 r2 6400 id 855 bs] e3 L S3 P3 len below_take
    by simp_all
  have last3: "r3 ! 95 = d ! 760" "r2 ! 190 = d ! 760" "r1 ! 380 = d ! 760"
    using L by (simp_all add: r1_def r2_def r3_def nth_append)
  have "unat (d ! 760) < 1531" using d len below_nth [of 1531 d 760] by simp
  then have P4: "below 6400 r3" "length r3 = 96" "length bs = 1007"
    using U3(2) L len_bs last3 by (simp_all add: r3_def)
  have U4: "dec_range 2 6400 id bs 951 48 (r4 @ rest) = Some (take 96 r3)" "below 625 r4" for rest
    using uniform_stage(1) [of 6400 2 48 r3 625 id 951 bs rest] uniform_stage(2) [of 6400 2 48 r3 625 id 951 bs] e4 L S4 P4 len below_take
    by simp_all
  have P5: "below 625 r4" "length bs = 1007" using U4(2) len_bs by simp_all
  have U5: "dec_range 1 625 id bs 975 24 (r5 @ rest) = Some (take 48 r4)" "below 1526 r5" for rest
    using uniform_stage(1) [of 625 1 24 r4 1526 id 975 bs rest] uniform_stage(2) [of 625 1 24 r4 1526 id 975 bs] e5 L S5 P5 len below_take
    by simp_all
  have P6: "below 1526 r5" "length bs = 1007" using U5(2) len_bs by simp_all
  have U6: "dec_range 1 1526 id bs 987 12 (r6 @ rest) = Some (take 24 r5)" "below 9097 r6" for rest
    using uniform_stage(1) [of 1526 1 12 r5 9097 id 987 bs rest] uniform_stage(2) [of 1526 1 12 r5 9097 id 987 bs] e6 L S6 P6 len below_take
    by simp_all
  have P7: "below 9097 r6" "length bs = 1007" using U6(2) len_bs by simp_all
  have U7: "dec_range 2 9097 id bs 999 6 (r7 @ rest) = Some (take 12 r6)" "below 1263 r7" for rest
    using uniform_stage(1) [of 9097 2 6 r6 1263 id 999 bs rest] uniform_stage(2) [of 9097 2 6 r6 1263 id 999 bs] e7 L S7 P7 len below_take
    by simp_all
  have P8: "below 1263 r7" "length bs = 1007" using U7(2) len_bs by simp_all
  have U8: "dec_range 1 1263 id bs 1002 3 (r8 @ rest) = Some (take 6 r7)" "below 6232 r8" for rest
    using uniform_stage(1) [of 1263 1 3 r7 6232 id 1002 bs rest] uniform_stage(2) [of 1263 1 3 r7 6232 id 1002 bs] e8 L S8 P8 len below_take
    by simp_all
  have P9: "below 6232 r8" "length bs = 1007" using U8(2) len_bs by simp_all
  have U9: "dec_range 2 6232 id bs 1004 1 (s9 @ rest) = Some (take 2 r8)" "below 593 s9" for rest
    using uniform_stage(1) [of 6232 2 1 r8 593 id 1004 bs rest] uniform_stage(2) [of 6232 2 1 r8 593 id 1004 bs]
      e9 L S9 P9 below_take by simp_all
  have b9: "unat (r9 ! 0) < 593" "unat (r9 ! 1) < 6232" "length r9 = 2"
    using U9(2) L below_nth [OF U9(2), of 0] below_nth [OF P9(1), of 2] by (simp_all add: r9_def nth_append)
  have U10: "dec_range 1 593 id bs 1005 1 (r10 @ rest) = Some r9" for rest
    using stage_inverts [of 593 1 r9 1 6232 id 1005 bs rest] b9 e10 S10 len_bs by simp
  obtain t where t: "r10 = [t]" using L(10) by (auto simp: length_Suc_conv)
  obtain a9 b9' where t9: "r9 = [a9, b9']" using b9(3) by (auto simp: length_Suc_conv numeral_2_eq_2)
  obtain c9 where u9: "s9 = [c9]" using L(9) by (auto simp: length_Suc_conv)
  have fin: "ucast (push_bit 8 (ucast (bs ! 1006)) OR (ucast (bs ! 1005) :: u32)) = t"
    using final_bytes [of t] L by (simp add: bs_def nth_append t)
  have r8: "take 2 r8 @ [r9 ! 1] = r8"
    using take_snoc_nth [of r8 2] L(8) u9 by (simp add: r9_def)
  have joins: "take 190 r2 @ [r3 ! 95] = r2" "take 380 r1 @ [r2 ! 190] = r1" "take 760 d @ [r1 ! 380] = d"
    using L take_snoc_nth [of d 760] len last3 by (simp_all add: r1_def r2_def)
  have p10: "dec_pair 1 593 id bs 1005 t = Some r9"
    using U10 [of "[]"] dec_range_1 [of 1 593 id bs 1005 t "[]"] by (simp add: t)
  have p9: "dec_pair 2 6232 id bs 1004 (r9 ! 0) = Some (take 2 r8)"
    using U9(1) [of "[]"] dec_range_1 [of 2 6232 id bs 1004 c9 "[]"] by (simp add: u9 r9_def)
  have d8: "dec_range 1 1263 id bs 1002 3 r8 = Some r7" using U8(1) [of "[]"] L(7) by simp
  have d7: "dec_range 2 9097 id bs 999 6 r7 = Some r6" using U7(1) [of "[]"] L(6) by simp
  have d6: "dec_range 1 1526 id bs 987 12 r6 = Some r5" using U6(1) [of "[]"] L(5) by simp
  have d5: "dec_range 1 625 id bs 975 24 r5 = Some r4" using U5(1) [of "[]"] L(4) by simp
  have d4: "dec_range 2 6400 id bs 951 48 r4 = Some r3" using U4(1) [of "[]"] P4(2) by simp
  have d3: "dec_range 1 1280 id bs 855 95 r3 = Some (take 190 r2)"
    using U3(1) [of "[r2 ! 190]"] by (simp add: r3_def)
  have d2: "dec_range 2 9157 id bs 760 190 r2 = Some (take 380 r1)"
    using U2(1) [of "[r1 ! 380]"] by (simp add: r2_def)
  have d1: "dec_range 1 1531 id bs 380 380 r1 = Some (take 760 d)"
    using U1(1) [of "[d ! 760]"] by (simp add: r1_def)
  show "rounded_unpack (rounded_pack d) = Some d"
    unfolding rounded_unpack_def pack Let_def fin
    by (simp only: p10 p9 r8 d8 d7 d6 d5 d4 d3 d2 d1 joins bind.bind_lunit)
  show "length (rounded_pack d) = 1007" by (simp only: pack len_bs)
qed

text \<open>The last pair of a stage, whose odd digit has a bound of its own.\<close>

lemma last_pair:
  fixes r :: "u16 list"
  assumes m: "1 < m" "m < 16384" "nb = 1 \<or> nb = 2" and len: "length r = 2 * k + 2"
    and b: "unat (r ! (2 * k)) < unat m" "unat (r ! (2 * k + 1)) < c"
    and n: "unat m * c \<le> 256 ^ nb * n" "n \<le> 65536"
    and clamp: "\<And>q. unat q < c \<Longrightarrow> clamp q = q"
    and bytes: "sub_slice (s - nb) s bs = fst (enc_range nb m k (k + 1) r)" and s: "nb \<le> s" "s \<le> length bs"
  shows "\<exists>t. snd (enc_range nb m k (k + 1) r) = [t]
    \<and> dec_pair nb m clamp bs s t = Some (drop (2 * k) r) \<and> unat t < n"
proof -
  define r' where "r' = drop (2 * k) r"
  have e: "enc_range nb m k (k + 1) r = enc_range nb m 0 1 r'"
    using enc_range_drop [of "k + 1" r k] len by (simp add: r'_def)
  have r': "length r' = 2" "unat (r' ! 0) < unat m" "unat (r' ! 1) < c"
    using len b by (simp_all add: r'_def)
  have "length (snd (enc_range nb m 0 1 r')) = Suc 0" by simp
  then obtain t where t: "snd (enc_range nb m 0 1 r') = [t]"
    by (auto simp: length_Suc_conv simp del: enc_range_lengths)
  have "256 ^ nb * n \<le> 256 ^ nb * (65536 :: nat)" using n(2) by simp
  then have "unat m * c \<le> 256 ^ nb * 65536" using n(1) by (rule order_trans [rotated])
  then have "dec_range nb m clamp bs s 1 (snd (enc_range nb m 0 1 r') @ []) = Some r'"
    by (intro stage_inverts [OF m, of r' 1 c clamp s bs "[]"])
      (use r' clamp bytes s in \<open>simp_all only: e mult_1_right, simp_all\<close>)
  then have "dec_pair nb m clamp bs s t = Some r'"
    unfolding t by (simp only: append_Nil2 dec_range_1)
  moreover have "below n (snd (enc_range nb m 0 1 r'))"
    by (rule enc_range_below [OF m(3) n(2,1)]) (use r' in simp_all)
  then have "unat t < n" unfolding t by simp
  ultimately show ?thesis
    using t unfolding e r'_def by blast
qed

lemma enc_range_split:
  assumes "a \<le> b" and "b \<le> c"
  shows "fst (enc_range nb m a c r) = fst (enc_range nb m a b r) @ fst (enc_range nb m b c r)"
    and "snd (enc_range nb m a c r) = snd (enc_range nb m a b r) @ snd (enc_range nb m b c r)"
proof -
  have "[a..<c] = [a..<b] @ [b..<c]" using assms by (metis le_iff_add upt_add_eq_append)
  then show "fst (enc_range nb m a c r) = fst (enc_range nb m a b r) @ fst (enc_range nb m b c r)"
    and "snd (enc_range nb m a c r) = snd (enc_range nb m a b r) @ snd (enc_range nb m b c r)"
    by (simp_all add: enc_range_def Let_def)
qed

lemma mod_clamp: "unat (q :: 'a::len word) < unat m \<Longrightarrow> q mod m = q"
  by (simp add: word_eq_iff_unsigned [where 'a = nat] unat_mod)

text \<open>The stages of a public key invert each other on digits below 4591.\<close>

lemma rq_unpack_pack:
  assumes len: "length d = 761" and d: "below 4591 d"
  shows "rq_unpack (rq_pack d) = Some d" and "length (rq_pack d) = 1158"
proof -
  obtain o1 s1 where e1: "enc_range 2 4591 0 380 d = (o1, s1)" by fastforce
  define r1 where "r1 = s1 @ [d ! 760]"
  obtain o2 s2 where e2: "enc_range 1 322 0 190 r1 = (o2, s2)" by fastforce
  define r2 where "r2 = s2 @ [r1 ! 380]"
  obtain o3 s3 where e3: "enc_range 1 406 0 95 r2 = (o3, s3)" by fastforce
  define r3 where "r3 = s3 @ [r2 ! 190]"
  obtain o4 s4 where e4: "enc_range 1 644 0 47 r3 = (o4, s4)" by fastforce
  obtain o4' s4' where e4': "enc_range 1 644 47 48 r3 = (o4', s4')" by fastforce
  define r4 where "r4 = s4 @ s4'"
  have e4f: "enc_range 1 644 0 48 r3 = (o4 @ o4', r4)"
    using enc_range_split [of 0 47 48 1 644 r3] e4 e4' by (simp add: prod_eq_iff r4_def)
  obtain o5 s5 where e5: "enc_range 1 1621 0 23 r4 = (o5, s5)" by fastforce
  obtain o5' s5' where e5': "enc_range 2 1621 23 24 r4 = (o5', s5')" by fastforce
  define r5 where "r5 = s5 @ s5'"
  obtain o6 s6 where e6: "enc_range 2 10265 0 11 r5 = (o6, s6)" by fastforce
  obtain o6' s6' where e6': "enc_range 1 10265 11 12 r5 = (o6', s6')" by fastforce
  define r6 where "r6 = s6 @ s6'"
  obtain o7 s7 where e7: "enc_range 1 1608 0 5 r6 = (o7, s7)" by fastforce
  obtain o7' s7' where e7': "enc_range 2 1608 5 6 r6 = (o7', s7')" by fastforce
  define r7 where "r7 = s7 @ s7'"
  obtain o8 s8 where e8: "enc_range 2 10101 0 2 r7 = (o8, s8)" by fastforce
  obtain o8' s8' where e8': "enc_range 1 10101 2 3 r7 = (o8', s8')" by fastforce
  define r8 where "r8 = s8 @ s8'"
  obtain o9 s9 where e9: "enc_range 1 1557 0 1 r8 = (o9, s9)" by fastforce
  define r9 where "r9 = s9 @ [r8 ! 2]"
  obtain o10 r10 where e10: "enc_range 2 9470 0 1 r9 = (o10, r10)" by fastforce
  define bs where "bs = o1 @ o2 @ o3 @ o4 @ o4' @ o5 @ o5' @ o6 @ o6' @ o7 @ o7' @ o8 @ o8' @ o9 @ o10
    @ [ucast (r10 ! 0), ucast (drop_bit 8 (r10 ! 0))]"
  have pack: "rq_pack d = bs"
    by (simp only: rq_pack_def Let_def e1 e2 e3 e4f e5 e5' e6 e6' e7 e7' e8 e8' e9 e10 prod.case bs_def append.assoc
        r1_def [symmetric] r2_def [symmetric] r3_def [symmetric] r5_def [symmetric] r6_def [symmetric]
        r7_def [symmetric] r8_def [symmetric] r9_def [symmetric])
  have L1: "length o1 = 760" "length s1 = 380" using e1 [THEN enc_range_pair] by simp_all
  have L2: "length o2 = 190" "length s2 = 190" using e2 [THEN enc_range_pair] by simp_all
  have L3: "length o3 = 95" "length s3 = 95" using e3 [THEN enc_range_pair] by simp_all
  have L4: "length o4 = 47" "length s4 = 47" using e4 [THEN enc_range_pair] by simp_all
  have L4': "length o4' = 1" "length s4' = 1" using e4' [THEN enc_range_pair] by simp_all
  have L5: "length o5 = 23" "length s5 = 23" using e5 [THEN enc_range_pair] by simp_all
  have L5': "length o5' = 2" "length s5' = 1" using e5' [THEN enc_range_pair] by simp_all
  have L6: "length o6 = 22" "length s6 = 11" using e6 [THEN enc_range_pair] by simp_all
  have L6': "length o6' = 1" "length s6' = 1" using e6' [THEN enc_range_pair] by simp_all
  have L7: "length o7 = 5" "length s7 = 5" using e7 [THEN enc_range_pair] by simp_all
  have L7': "length o7' = 2" "length s7' = 1" using e7' [THEN enc_range_pair] by simp_all
  have L8: "length o8 = 4" "length s8 = 2" using e8 [THEN enc_range_pair] by simp_all
  have L8': "length o8' = 1" "length s8' = 1" using e8' [THEN enc_range_pair] by simp_all
  have L9: "length o9 = 1" "length s9 = 1" using e9 [THEN enc_range_pair] by simp_all
  have L10: "length o10 = 2" "length r10 = 1" using e10 [THEN enc_range_pair] by simp_all
  note L = L1 L2 L3 L4 L4' L5 L5' L6 L6' L7 L7' L8 L8' L9 L10
  have len_bs: "length bs = 1158" by (simp add: bs_def L)
  have S1: "sub_slice 0 760 bs = o1"
    and S2: "sub_slice 760 950 bs = o2"
    and S3: "sub_slice 950 1045 bs = o3"
    and S4: "sub_slice 1045 1092 bs = o4"
    and S4': "sub_slice 1092 1093 bs = o4'"
    and S5: "sub_slice 1093 1116 bs = o5"
    and S5': "sub_slice 1116 1118 bs = o5'"
    and S6: "sub_slice 1118 1140 bs = o6"
    and S6': "sub_slice 1140 1141 bs = o6'"
    and S7: "sub_slice 1141 1146 bs = o7"
    and S7': "sub_slice 1146 1148 bs = o7'"
    and S8: "sub_slice 1148 1152 bs = o8"
    and S8': "sub_slice 1152 1153 bs = o8'"
    and S9: "sub_slice 1153 1154 bs = o9"
    and S10: "sub_slice 1154 1156 bs = o10"
    by (simp_all add: bs_def slice_fields L)
  have P1: "below 4591 (take 760 d)" "length bs = 1158" using d len_bs by (simp_all add: below_take)
  have U1: "dec_range 2 4591 (\<lambda>q. q mod 4591) bs 760 380 (s1 @ rest) = Some (take 760 d)" "below 322 s1" for rest
    using uniform_stage(1) [of 4591 2 380 d 322 "\<lambda>q. q mod 4591" 760 bs rest]
      uniform_stage(2) [of 4591 2 380 d 322 "\<lambda>q. q mod 4591" 760 bs] e1 L1 S1 P1 len
    by (simp_all add: mod_clamp)
  have P2: "below 322 (take 380 r1)" "length r1 = 381" "length bs = 1158" using U1(2) L len_bs by (simp_all add: r1_def)
  have U2: "dec_range 1 322 (\<lambda>q. q mod 322) bs 950 190 (s2 @ rest) = Some (take 380 r1)" "below 406 s2" for rest
    using uniform_stage(1) [of 322 1 190 r1 406 "\<lambda>q. q mod 322" 950 bs rest]
      uniform_stage(2) [of 322 1 190 r1 406 "\<lambda>q. q mod 322" 950 bs] e2 L2 S2 P2 len
    by (simp_all add: mod_clamp)
  have P3: "below 406 (take 190 r2)" "length r2 = 191" "length bs = 1158" using U2(2) L len_bs by (simp_all add: r2_def)
  have U3: "dec_range 1 406 (\<lambda>q. q mod 406) bs 1045 95 (s3 @ rest) = Some (take 190 r2)" "below 644 s3" for rest
    using uniform_stage(1) [of 406 1 95 r2 644 "\<lambda>q. q mod 406" 1045 bs rest]
      uniform_stage(2) [of 406 1 95 r2 644 "\<lambda>q. q mod 406" 1045 bs] e3 L3 S3 P3 len
    by (simp_all add: mod_clamp)
  have last3: "r3 ! 95 = d ! 760" "r2 ! 190 = d ! 760" "r1 ! 380 = d ! 760"
    using L by (simp_all add: r1_def r2_def r3_def nth_append)
  have q4: "unat (d ! 760) < 4591" using d len below_nth [of 4591 d 760] by simp
  have P4: "below 644 (take 94 r3)" "length r3 = 96" "unat (r3 ! 94) < 644" "unat (r3 ! 95) < 4591" "length bs = 1158"
    using U3(2) L len_bs last3 q4 below_nth [OF U3(2), of 94] by (simp_all add: r3_def nth_append below_take)
  have U4: "dec_range 1 644 (\<lambda>q. q mod 644) bs 1092 47 (s4 @ rest) = Some (take 94 r3)" "below 1621 s4" for rest
    using uniform_stage(1) [of 644 1 47 r3 1621 "\<lambda>q. q mod 644" 1092 bs rest]
      uniform_stage(2) [of 644 1 47 r3 1621 "\<lambda>q. q mod 644" 1092 bs] e4 L4 S4 P4 len
    by (simp_all add: mod_clamp)
  obtain t4 where V4: "s4' = [t4]" "dec_pair 1 644 (\<lambda>q. q mod 4591) bs 1093 t4 = Some (drop 94 r3)" "unat t4 < 11550"
    using last_pair [of 644 1 r3 47 4591 11550 "\<lambda>q. q mod 4591" 1093 bs] e4' S4' P4
    by (auto simp: mod_clamp)
  have P5: "below 1621 (take 46 r4)" "length r4 = 48" "unat (r4 ! 46) < 1621"
    "unat (r4 ! 47) < 11550" "length bs = 1158"
    using U4(2) L len_bs V4(3) V4(1) below_nth [OF U4(2), of 46] by (simp_all add: r4_def nth_append below_take)
  have U5: "dec_range 1 1621 (\<lambda>q. q mod 1621) bs 1116 23 (s5 @ rest) = Some (take 46 r4)" "below 10265 s5" for rest
    using uniform_stage(1) [of 1621 1 23 r4 10265 "\<lambda>q. q mod 1621" 1116 bs rest]
      uniform_stage(2) [of 1621 1 23 r4 10265 "\<lambda>q. q mod 1621" 1116 bs] e5 L5 S5 P5 len
    by (simp_all add: mod_clamp)
  obtain t5 where V5: "s5' = [t5]" "dec_pair 2 1621 (\<lambda>q. q mod 11550) bs 1118 t5 = Some (drop 46 r4)" "unat t5 < 286"
    using last_pair [of 1621 2 r4 23 11550 286 "\<lambda>q. q mod 11550" 1118 bs] e5' S5' P5
    by (auto simp: mod_clamp)
  have P6: "below 10265 (take 22 r5)" "length r5 = 24" "unat (r5 ! 22) < 10265"
    "unat (r5 ! 23) < 286" "length bs = 1158"
    using U5(2) L len_bs V5(3) V5(1) below_nth [OF U5(2), of 22] by (simp_all add: r5_def nth_append below_take)
  have U6: "dec_range 2 10265 (\<lambda>q. q mod 10265) bs 1140 11 (s6 @ rest) = Some (take 22 r5)" "below 1608 s6" for rest
    using uniform_stage(1) [of 10265 2 11 r5 1608 "\<lambda>q. q mod 10265" 1140 bs rest]
      uniform_stage(2) [of 10265 2 11 r5 1608 "\<lambda>q. q mod 10265" 1140 bs] e6 L6 S6 P6 len
    by (simp_all add: mod_clamp)
  obtain t6 where V6: "s6' = [t6]" "dec_pair 1 10265 (\<lambda>q. q mod 286) bs 1141 t6 = Some (drop 22 r5)" "unat t6 < 11468"
    using last_pair [of 10265 1 r5 11 286 11468 "\<lambda>q. q mod 286" 1141 bs] e6' S6' P6
    by (auto simp: mod_clamp)
  have P7: "below 1608 (take 10 r6)" "length r6 = 12" "unat (r6 ! 10) < 1608"
    "unat (r6 ! 11) < 11468" "length bs = 1158"
    using U6(2) L len_bs V6(3) V6(1) below_nth [OF U6(2), of 10] by (simp_all add: r6_def nth_append below_take)
  have U7: "dec_range 1 1608 (\<lambda>q. q mod 1608) bs 1146 5 (s7 @ rest) = Some (take 10 r6)" "below 10101 s7" for rest
    using uniform_stage(1) [of 1608 1 5 r6 10101 "\<lambda>q. q mod 1608" 1146 bs rest]
      uniform_stage(2) [of 1608 1 5 r6 10101 "\<lambda>q. q mod 1608" 1146 bs] e7 L7 S7 P7 len
    by (simp_all add: mod_clamp)
  obtain t7 where V7: "s7' = [t7]" "dec_pair 2 1608 (\<lambda>q. q mod 11468) bs 1148 t7 = Some (drop 10 r6)" "unat t7 < 282"
    using last_pair [of 1608 2 r6 5 11468 282 "\<lambda>q. q mod 11468" 1148 bs] e7' S7' P7
    by (auto simp: mod_clamp)
  have P8: "below 10101 (take 4 r7)" "length r7 = 6" "unat (r7 ! 4) < 10101"
    "unat (r7 ! 5) < 282" "length bs = 1158"
    using U7(2) L len_bs V7(3) V7(1) below_nth [OF U7(2), of 4] by (simp_all add: r7_def nth_append below_take)
  have U8: "dec_range 2 10101 (\<lambda>q. q mod 10101) bs 1152 2 (s8 @ rest) = Some (take 4 r7)" "below 1557 s8" for rest
    using uniform_stage(1) [of 10101 2 2 r7 1557 "\<lambda>q. q mod 10101" 1152 bs rest]
      uniform_stage(2) [of 10101 2 2 r7 1557 "\<lambda>q. q mod 10101" 1152 bs] e8 L8 S8 P8 len
    by (simp_all add: mod_clamp)
  obtain t8 where V8: "s8' = [t8]" "dec_pair 1 10101 (\<lambda>q. q mod 282) bs 1153 t8 = Some (drop 4 r7)" "unat t8 < 11127"
    using last_pair [of 10101 1 r7 2 282 11127 "\<lambda>q. q mod 282" 1153 bs] e8' S8' P8
    by (auto simp: mod_clamp)
  obtain t where t: "r10 = [t]" using L10(2) by (auto simp: length_Suc_conv)
  obtain c9 where u9: "s9 = [c9]" using L9(2) by (auto simp: length_Suc_conv)
  have P9: "length r8 = 3" "unat (r8 ! 0) < 1557" "unat (r8 ! 1) < 1557" "unat (r8 ! 2) < 11127"
    using L8 V8(1,3) below_nth [OF U8(2), of 0] below_nth [OF U8(2), of 1]
    by (simp_all add: r8_def nth_append)
  have P9': "below 1557 (take 2 r8)"
    using P9 by (auto simp: below_def in_set_conv_nth less_Suc_eq numeral_2_eq_2)
  have U9: "dec_range 1 1557 (\<lambda>q. q mod 1557) bs 1154 1 (s9 @ rest) = Some (take 2 r8)" "below 9470 s9" for rest
    using uniform_stage(1) [of 1557 1 1 r8 9470 "\<lambda>q. q mod 1557" 1154 bs rest]
      uniform_stage(2) [of 1557 1 1 r8 9470 "\<lambda>q. q mod 1557" 1154 bs] e9 L9 S9 P9(1) P9' len_bs
    by (simp_all add: mod_clamp)
  have P10: "length r9 = 2 * 0 + 2" "unat (r9 ! (2 * 0)) < 9470" "unat (r9 ! (2 * 0 + 1)) < 11127"
    using U9(2) P9(4) by (simp_all add: r9_def u9)
  have V10: "dec_pair 2 9470 (\<lambda>q. q mod 11127) bs 1156 t = Some r9" "unat t < 1608"
    using last_pair [of 9470 2 r9 0 11127 1608 "\<lambda>q. q mod 11127" 1156 bs] e10 S10 P10 len_bs
    by (auto simp: mod_clamp t)
  have fin: "ucast ((push_bit 8 (ucast (bs ! 1157)) OR (ucast (bs ! 1156) :: u32)) mod 1608) = t"
  proof -
    let ?v = "push_bit 8 (ucast (ucast (drop_bit 8 t) :: u8)) OR (ucast (ucast t :: u8) :: u32)"
    have "?v = ucast t" by (intro bit_word_eqI) (auto simp: bit_simps dest: bit_imp_le_length)
    then have "?v mod 1608 = ucast t" using V10(2) by (simp add: mod_clamp unat_ucast_up)
    moreover have "bs ! 1157 = ucast (drop_bit 8 t)" "bs ! 1156 = ucast t"
      by (simp_all add: bs_def nth_append t L)
    ultimately show ?thesis by (simp add: ucast_back)
  qed
  have p9: "dec_pair 1 1557 (\<lambda>q. q mod 1557) bs 1154 (r9 ! 0) = Some (take 2 r8)"
    using U9(1) [of "[]"] dec_range_1 [of 1 1557 "\<lambda>q. q mod 1557" bs 1154 c9 "[]"] by (simp add: u9 r9_def)
  have j8: "take 2 r8 @ [r9 ! 1] = r8"
    using take_snoc_nth [of r8 2] P9(1) u9 by (simp add: r9_def)
  have q8: "dec_pair 1 10101 (\<lambda>q. q mod 282) bs 1153 (r8 ! 2) = Some (drop 4 r7)"
    using V8(1,2) L8(2) by (simp add: r8_def nth_append)
  have m8: "dec_range 2 10101 (\<lambda>q. q mod 10101) bs 1152 2 r8 = Some (take 4 r7)"
    unfolding r8_def by (rule U8(1))
  have q7: "dec_pair 2 1608 (\<lambda>q. q mod 11468) bs 1148 (r7 ! 5) = Some (drop 10 r6)"
    using V7(1,2) L7(2) by (simp add: r7_def nth_append)
  have m7: "dec_range 1 1608 (\<lambda>q. q mod 1608) bs 1146 5 r7 = Some (take 10 r6)"
    unfolding r7_def by (rule U7(1))
  have q6: "dec_pair 1 10265 (\<lambda>q. q mod 286) bs 1141 (r6 ! 11) = Some (drop 22 r5)"
    using V6(1,2) L6(2) by (simp add: r6_def nth_append)
  have m6: "dec_range 2 10265 (\<lambda>q. q mod 10265) bs 1140 11 r6 = Some (take 22 r5)"
    unfolding r6_def by (rule U6(1))
  have q5: "dec_pair 2 1621 (\<lambda>q. q mod 11550) bs 1118 (r5 ! 23) = Some (drop 46 r4)"
    using V5(1,2) L5(2) by (simp add: r5_def nth_append)
  have m5: "dec_range 1 1621 (\<lambda>q. q mod 1621) bs 1116 23 r5 = Some (take 46 r4)"
    unfolding r5_def by (rule U5(1))
  have q4: "dec_pair 1 644 (\<lambda>q. q mod 4591) bs 1093 (r4 ! 47) = Some (drop 94 r3)"
    using V4(1,2) L4(2) by (simp add: r4_def nth_append)
  have m4: "dec_range 1 644 (\<lambda>q. q mod 644) bs 1092 47 r4 = Some (take 94 r3)"
    unfolding r4_def by (rule U4(1))
  have m3: "dec_range 1 406 (\<lambda>q. q mod 406) bs 1045 95 r3 = Some (take 190 r2)"
    unfolding r3_def by (rule U3(1))
  have m2: "dec_range 1 322 (\<lambda>q. q mod 322) bs 950 190 r2 = Some (take 380 r1)"
    unfolding r2_def by (rule U2(1))
  have m1: "dec_range 2 4591 (\<lambda>q. q mod 4591) bs 760 380 r1 = Some (take 760 d)"
    unfolding r1_def by (rule U1(1))
  have joins: "take 190 r2 @ [r3 ! 95] = r2" "take 380 r1 @ [r2 ! 190] = r1" "take 760 d @ [r1 ! 380] = d"
    using L take_snoc_nth [of d 760] len last3 by (simp_all add: r1_def r2_def)
  show "length (rq_pack d) = 1158" by (simp only: pack len_bs)
  show "rq_unpack (rq_pack d) = Some d"
    unfolding rq_unpack_def pack Let_def fin
    by (simp only: V10(1) p9 j8 q8 m8 q7 m7 q6 m6 q5 m5 q4 m4 m3 m2 m1 joins append_take_drop_id bind.bind_lunit)
qed

section \<open>Decoding is total\<close>

lemma dec_pair_total:
  assumes "1 < m" "m < 16384"
  shows "\<exists>a q. dec_pair nb m clamp bs s r = Some [a, ucast (clamp q)] \<and> a < m"
proof -
  have m0: "0 < unat m" using assms(1) by (simp add: word_less_nat_alt)
  have "\<exists>q r. divmod_u14 v m = Some (q, r) \<and> r < m" for v
    using divmod_u14_eq [OF assms, of v] m0 by (auto simp: word_less_nat_alt)
  then obtain f where f: "\<And>v. \<exists>q. divmod_u14 v m = Some (q, f v) \<and> f v < m" by metis
  define v :: u32 where "v = (let v = push_bit 8 (ucast r) OR ucast (bs ! (s - 1))
    in if nb = 1 then v else push_bit 8 v OR ucast (bs ! (s - 2)))"
  obtain q where "divmod_u14 v m = Some (q, f v)" "f v < m" using f by blast
  moreover from this have "dec_pair nb m clamp bs s r = Some [f v, ucast (clamp q)]"
    unfolding dec_pair_def Let_def v_def by simp
  ultimately show ?thesis by blast
qed

lemma those_total: "(\<And>x. x \<in> set xs \<Longrightarrow> \<exists>y. f x = Some y \<and> Q x y)
    \<Longrightarrow> \<exists>ys. those (map f xs) = Some ys \<and> list_all2 Q xs ys"
proof (induction xs)
  case Nil
  then show ?case by simp
next
  case (Cons x xs)
  then obtain y ys where "f x = Some y" "Q x y" "those (map f xs) = Some ys" "list_all2 Q xs ys"
    by (meson list.set_intros)
  then show ?case by (intro exI [of _ "y # ys"]) simp
qed

lemma dec_range_total:
  assumes "1 < m" "m < 16384"
  shows "\<exists>rs. dec_range nb m clamp bs s k r = Some rs \<and> length rs = 2 * k
    \<and> (\<forall>x \<in> set rs. x < m \<or> (\<exists>q. x = ucast (clamp q)))"
proof -
  let ?Q = "\<lambda>i p. length p = 2 \<and> (\<forall>x \<in> set p. x < m \<or> (\<exists>q. x = ucast (clamp q)))"
  let ?f = "\<lambda>i. dec_pair nb m clamp bs (s - nb * (k - 1 - i)) (r ! i)"
  have "\<exists>p. ?f i = Some p \<and> ?Q i p" for i
    using dec_pair_total [OF assms, of nb clamp bs "s - nb * (k - 1 - i)" "r ! i"] by fastforce
  then obtain ps where ps: "those (map ?f [0..<k]) = Some ps" "list_all2 ?Q [0..<k] ps"
    using those_total [of "[0..<k]" ?f ?Q] by blast
  have "\<forall>p \<in> set ps. length p = 2 \<and> (\<forall>x \<in> set p. x < m \<or> (\<exists>q. x = ucast (clamp q)))" and "length ps = k"
    using ps(2) by (simp_all add: list_all2_conv_all_nth all_set_conv_all_nth)
  then have "length (concat ps) = 2 * k \<and> (\<forall>x \<in> set (concat ps). x < m \<or> (\<exists>q. x = ucast (clamp q)))"
    by (induction ps arbitrary: k) auto
  then show ?thesis using ps(1) by (simp add: dec_range_def)
qed

text \<open>The clamps keep every decoded digit of a public key below q, whatever the bytes.\<close>

lemma rq_unpack_total: "\<exists>ds. rq_unpack bs = Some ds \<and> length ds = 761 \<and> below 4591 ds"
proof -
  have cl: "unat (ucast (q mod m :: u32) :: u16) < unat m" if "0 < m" "m < 65536" for q m
  proof -
    have "unat (q mod m) < unat m" using that(1) by (simp add: unat_mod word_less_nat_alt)
    moreover have "unat m < 65536" using that(2) by (simp add: word_less_nat_alt)
    ultimately show ?thesis by (simp add: unsigned_ucast_eq take_bit_nat_eq_self)
  qed
  obtain r9 where r9: "dec_pair 2 9470 (\<lambda>q. q mod 11127) bs 1156 (ucast ((push_bit 8 (ucast (bs ! 1157)) OR (ucast (bs ! 1156) :: u32)) mod 1608)) = Some r9"
    using dec_pair_total [of 9470 2 "(\<lambda>q. q mod 11127)" bs 1156 "(ucast ((push_bit 8 (ucast (bs ! 1157)) OR (ucast (bs ! 1156) :: u32)) mod 1608))"] by force
  obtain r8a where r8a: "dec_pair 1 1557 (\<lambda>q. q mod 1557) bs 1154 (r9 ! 0) = Some r8a"
    using dec_pair_total [of 1557 1 "(\<lambda>q. q mod 1557)" bs 1154 "(r9 ! 0)"] by force
  obtain l7 where l7: "dec_pair 1 10101 (\<lambda>q. q mod 282) bs 1153 ((r8a @ [r9 ! 1]) ! 2) = Some l7"
    using dec_pair_total [of 10101 1 "(\<lambda>q. q mod 282)" bs 1153 "((r8a @ [r9 ! 1]) ! 2)"] by force
  obtain h7 where h7: "dec_range 2 10101 (\<lambda>q. q mod 10101) bs 1152 2 (r8a @ [r9 ! 1]) = Some h7"
    using dec_range_total [of 10101 2 "(\<lambda>q. q mod 10101)" bs 1152 2 "(r8a @ [r9 ! 1])"] by auto
  obtain l6 where l6: "dec_pair 2 1608 (\<lambda>q. q mod 11468) bs 1148 ((h7 @ l7) ! 5) = Some l6"
    using dec_pair_total [of 1608 2 "(\<lambda>q. q mod 11468)" bs 1148 "((h7 @ l7) ! 5)"] by force
  obtain h6 where h6: "dec_range 1 1608 (\<lambda>q. q mod 1608) bs 1146 5 (h7 @ l7) = Some h6"
    using dec_range_total [of 1608 1 "(\<lambda>q. q mod 1608)" bs 1146 5 "(h7 @ l7)"] by auto
  obtain l5 where l5: "dec_pair 1 10265 (\<lambda>q. q mod 286) bs 1141 ((h6 @ l6) ! 11) = Some l5"
    using dec_pair_total [of 10265 1 "(\<lambda>q. q mod 286)" bs 1141 "((h6 @ l6) ! 11)"] by force
  obtain h5 where h5: "dec_range 2 10265 (\<lambda>q. q mod 10265) bs 1140 11 (h6 @ l6) = Some h5"
    using dec_range_total [of 10265 2 "(\<lambda>q. q mod 10265)" bs 1140 11 "(h6 @ l6)"] by auto
  obtain l4 where l4: "dec_pair 2 1621 (\<lambda>q. q mod 11550) bs 1118 ((h5 @ l5) ! 23) = Some l4"
    using dec_pair_total [of 1621 2 "(\<lambda>q. q mod 11550)" bs 1118 "((h5 @ l5) ! 23)"] by force
  obtain h4 where h4: "dec_range 1 1621 (\<lambda>q. q mod 1621) bs 1116 23 (h5 @ l5) = Some h4"
    using dec_range_total [of 1621 1 "(\<lambda>q. q mod 1621)" bs 1116 23 "(h5 @ l5)"] by auto
  obtain l3 where l3: "dec_pair 1 644 (\<lambda>q. q mod 4591) bs 1093 ((h4 @ l4) ! 47) = Some l3" "length l3 = 2" "\<exists>q. l3 ! 1 = ucast (q mod 4591 :: u32)"
    using dec_pair_total [of 644 1 "(\<lambda>q. q mod 4591)" bs 1093 "((h4 @ l4) ! 47)"] by force
  obtain h3 where h3: "dec_range 1 644 (\<lambda>q. q mod 644) bs 1092 47 (h4 @ l4) = Some h3" "length h3 = 94"
    using dec_range_total [of 644 1 "(\<lambda>q. q mod 644)" bs 1092 47 "(h4 @ l4)"] by auto
  obtain r2a where r2a: "dec_range 1 406 (\<lambda>q. q mod 406) bs 1045 95 (h3 @ l3) = Some r2a" "length r2a = 190"
    using dec_range_total [of 406 1 "(\<lambda>q. q mod 406)" bs 1045 95 "(h3 @ l3)"] by auto
  obtain r1a where r1a: "dec_range 1 322 (\<lambda>q. q mod 322) bs 950 190 (r2a @ [(h3 @ l3) ! 95]) = Some r1a" "length r1a = 380"
    using dec_range_total [of 322 1 "(\<lambda>q. q mod 322)" bs 950 190 "(r2a @ [(h3 @ l3) ! 95])"] by auto
  obtain r0 where r0: "dec_range 2 4591 (\<lambda>q. q mod 4591) bs 760 380 (r1a @ [(r2a @ [(h3 @ l3) ! 95]) ! 190]) = Some r0" "length r0 = 760" "\<forall>x \<in> set r0. x < 4591 \<or> (\<exists>q. x = ucast (q mod 4591 :: u32))"
    using dec_range_total [of 4591 2 "(\<lambda>q. q mod 4591)" bs 760 380 "(r1a @ [(r2a @ [(h3 @ l3) ! 95]) ! 190])"] by auto
  define top where "top = (r1a @ [(r2a @ [(h3 @ l3) ! 95]) ! 190]) ! 380"
  have "top = l3 ! 1" using h3(2) r2a(2) r1a(2) by (simp add: top_def nth_append)
  then have "unat top < 4591" using l3(3) cl [of 4591] by auto
  moreover have "below 4591 r0"
    using r0(3) cl [of 4591] by (fastforce simp: below_def word_less_nat_alt)
  moreover have "rq_unpack bs = Some (r0 @ [top])"
    unfolding rq_unpack_def Let_def top_def
    by (simp only: r9 r8a l7 h7 l6 h6 l5 h5 l4 h4 l3(1) h3(1) r2a(1) r1a(1) r0(1) bind.bind_lunit)
  ultimately show ?thesis using r0(2) by simp
qed

text \<open>The even positions of a decoded stage are remainders.\<close>

lemma dec_range_even:
  assumes "1 < m" "m < 16384" and "dec_range nb m clamp bs s k r = Some rs" and "i < k"
  shows "rs ! (2 * i) < m"
proof -
  let ?f = "\<lambda>i. dec_pair nb m clamp bs (s - nb * (k - 1 - i)) (r ! i)"
  have "\<exists>p. ?f i = Some p \<and> length p = 2 \<and> p ! 0 < m" for i
    using dec_pair_total [OF assms(1,2), of nb clamp bs "s - nb * (k - 1 - i)" "r ! i"] by fastforce
  then obtain ps where ps: "those (map ?f [0..<k]) = Some ps" "list_all2 (\<lambda>i p. length p = 2 \<and> p ! 0 < m) [0..<k] ps"
    using those_total [of "[0..<k]" ?f "\<lambda>i p. length p = 2 \<and> p ! 0 < m"] by blast
  have "\<forall>p \<in> set ps. length p = 2 \<and> p ! 0 < m" and "length ps = k"
    using ps(2) by (simp_all add: list_all2_conv_all_nth all_set_conv_all_nth)
  then have "concat ps ! (2 * i) < m" if "i < k" for i
    using that
  proof (induction ps arbitrary: i k)
    case Nil
    then show ?case by simp
  next
    case (Cons p ps)
    then show ?case by (cases i) (simp_all add: nth_append)
  qed
  then show ?thesis using ps(1) assms(3,4) by (simp add: dec_range_def)
qed

lemma rounded_unpack_total: "\<exists>ds. rounded_unpack bs = Some ds \<and> length ds = 761 \<and> (\<forall>i < 380. ds ! (2 * i) < 1531)"
proof -
  have P: "\<exists>p. dec_pair nb m id bs s r = Some p" if "1 < m" "m < 16384" for nb m s r
    using dec_pair_total [OF that, of nb id bs s r] by blast
  have R: "\<exists>rs. dec_range nb m id bs s k r = Some rs \<and> length rs = 2 * k" if "1 < m" "m < 16384" for nb m s k r
    using dec_range_total [OF that, of nb id bs s k r] by blast
  obtain r9 where r9: "dec_pair 1 593 id bs 1005 (ucast (push_bit 8 (ucast (bs ! 1006)) OR (ucast (bs ! 1005) :: u32))) = Some r9"
    using P [of 593] by fastforce
  obtain r8a where r8a: "dec_pair 2 6232 id bs 1004 (r9 ! 0) = Some r8a"
    using P [of 6232] by fastforce
  obtain r7 where r7: "dec_range 1 1263 id bs 1002 3 (r8a @ [r9 ! 1]) = Some r7"
    using R [of 1263] by fastforce
  obtain r6 where r6: "dec_range 2 9097 id bs 999 6 r7 = Some r6"
    using R [of 9097] by fastforce
  obtain r5 where r5: "dec_range 1 1526 id bs 987 12 r6 = Some r5"
    using R [of 1526] by fastforce
  obtain r4 where r4: "dec_range 1 625 id bs 975 24 r5 = Some r4"
    using R [of 625] by fastforce
  obtain r3 where r3: "dec_range 2 6400 id bs 951 48 r4 = Some r3"
    using R [of 6400] by fastforce
  obtain r2a where r2a: "dec_range 1 1280 id bs 855 95 r3 = Some r2a"
    using R [of 1280] by fastforce
  obtain r1a where r1a: "dec_range 2 9157 id bs 760 190 (r2a @ [r3 ! 95]) = Some r1a"
    using R [of 9157] by fastforce
  obtain r0 where r0: "dec_range 1 1531 id bs 380 380 (r1a @ [(r2a @ [r3 ! 95]) ! 190]) = Some r0" "length r0 = 760"
    using R [of 1531] by fastforce
  have "rounded_unpack bs = Some (r0 @ [(r1a @ [(r2a @ [r3 ! 95]) ! 190]) ! 380])"
    unfolding rounded_unpack_def Let_def
    by (simp only: r9 r8a r7 r6 r5 r4 r3 r2a r1a r0(1) bind.bind_lunit)
  moreover have "r0 ! (2 * i) < 1531" if "i < 380" for i
    using dec_range_even [OF _ _ r0(1) that] by simp
  ultimately show ?thesis using r0(2) by (simp add: nth_append)
qed

section \<open>Round trips\<close>

definition small_poly :: "int list \<Rightarrow> bool" where
  "small_poly cs \<longleftrightarrow> length cs = sntrup_p \<and> (\<forall>c \<in> set cs. c = - 1 \<or> c = 0 \<or> c = 1)"

definition rq_poly :: "int list \<Rightarrow> bool" where
  "rq_poly cs \<longleftrightarrow> length cs = sntrup_p \<and> (\<forall>c \<in> set cs. \<bar>c\<bar> \<le> sntrup_q12)"

lemma small_digit_simps [simp]:
  "small_digit (- 1) = Some 0" "small_digit 0 = Some 1" "small_digit 1 = Some 2"
  by (simp_all add: small_digit_def fits_def)

lemma small_quad:
  assumes "a = - 1 \<or> a = 0 \<or> a = 1" "b = - 1 \<or> b = 0 \<or> b = 1"
    "c = - 1 \<or> c = 0 \<or> c = (1 :: int)" "d = - 1 \<or> d = 0 \<or> d = (1 :: int)"
  shows "\<exists>x. small_pack a b c d = Some x \<and> small_unpack x = [a, b, c, d]"
  using assms
  by (elim disjE) (simp_all add: small_pack_def small_unpack_def checked_add_def)

lemma round3_spec:
  assumes "\<bar>c\<bar> \<le> 2295"
  obtains k where "round3 c = 3 * k" "\<bar>k\<bar> \<le> 765" "\<bar>3 * k - c\<bar> \<le> 1"
proof -
  define k where "k = (c + 1) div 3"
  have c: "c = 3 * k + ((c + 1) mod 3 - 1)" unfolding k_def by presburger
  define e where "e = (c + 1) mod 3 - 1"
  have e: "- 1 \<le> e" "e \<le> 1" by (simp_all add: e_def)
  have k: "\<bar>k\<bar> \<le> 765" "\<bar>3 * k - c\<bar> \<le> 1" using assms c e by (simp_all add: e_def [symmetric])
  have "(10923 * c + 16384) div 32768 = k"
  proof (rule int_div_pos_eq)
    show "10923 * c + 16384 = 32768 * k + (k + 10923 * e + 16384)" using c by (simp add: e_def)
    show "0 \<le> k + 10923 * e + 16384" "k + 10923 * e + 16384 < 32768" using k(1) e by linarith+
  qed
  then have "round3 c = as_signed 16 (3 * k)" by (simp add: round3_def drop_bit_int_def)
  also have "\<dots> = 3 * k" using k(1) by (simp add: as_signed_def signed_take_bit_int_eq_self)
  finally show ?thesis using that k by blast
qed

lemma rounded_digit_eq:
  assumes "\<bar>k\<bar> \<le> 765"
  shows "unat (rounded_digit (3 * k)) = nat (k + 765)" and "scale_up (rounded_digit (3 * k)) = 3 * k"
proof -
  have "(3 * k + 2295) AND 16383 = (3 * k + 2295) mod 16384"
    using take_bit_eq_mask [of 14 "3 * k + 2295"] by (simp add: take_bit_eq_mod mask_eq_exp_minus_1)
  also have "\<dots> = 3 * k + 2295" using assms by (intro mod_pos_pos_trivial) linarith+
  finally have a: "(3 * k + 2295) AND 16383 = 3 * k + 2295" .
  have "(3 * k + 2295) * 10923 div 32768 = k + 765"
    by (rule int_div_pos_eq [where r = "k + 765"]) (use assms in auto)
  then have d0: "rounded_digit (3 * k) = word_of_int (k + 765)"
    by (simp add: rounded_digit_def sntrup_sizes a drop_bit_int_def)
  obtain n where n: "k + 765 = int n" "n \<le> 1530"
    using assms by (intro that [of "nat (k + 765)"]) linarith+
  have d: "rounded_digit (3 * k) = of_nat n" unfolding d0 n(1) by simp
  have u: "unat (of_nat n :: u16) = n" using n(2) by (simp add: unsigned_of_nat take_bit_nat_eq_self)
  show "unat (rounded_digit (3 * k)) = nat (k + 765)" unfolding d n(1) u by simp
  have "uint (rounded_digit (3 * k)) = int n" unfolding d by (metis u uint_nat)
  then show "scale_up (rounded_digit (3 * k)) = 3 * k"
    using assms n by (simp add: scale_up_def sntrup_sizes as_signed_def signed_take_bit_int_eq_self)
qed

lemma small_round_trip_aux:
  assumes "small_poly cs"
  shows "\<exists>bs. small_encode cs = Some bs \<and> length bs = SMALL_BYTES \<and> small_decode bs = cs"
proof -
  have len: "length cs = 761" and mem: "\<And>i. i < 761 \<Longrightarrow> cs ! i = - 1 \<or> cs ! i = 0 \<or> cs ! i = 1"
    using assms by (auto simp: small_poly_def sntrup_sizes)
  have "\<exists>x. small_pack (cs ! (4 * i)) (cs ! (4 * i + 1)) (cs ! (4 * i + 2)) (cs ! (4 * i + 3)) = Some x
      \<and> small_unpack x = [cs ! (4 * i), cs ! (4 * i + 1), cs ! (4 * i + 2), cs ! (4 * i + 3)]" if "i < 190" for i
    using that by (intro small_quad mem) simp_all
  then obtain f where f: "\<And>i. i < 190 \<Longrightarrow> small_pack (cs ! (4 * i)) (cs ! (4 * i + 1)) (cs ! (4 * i + 2)) (cs ! (4 * i + 3)) = Some (f i)"
    and g: "\<And>i. i < 190 \<Longrightarrow> small_unpack (f i) = [cs ! (4 * i), cs ! (4 * i + 1), cs ! (4 * i + 2), cs ! (4 * i + 3)]"
    by metis
  obtain l where l: "small_digit (cs ! 760) = Some l" "uint (l AND 3) - 1 = cs ! 760"
    using mem [of 760] by auto
  have "those (map (\<lambda>i. small_pack (cs ! (4 * i)) (cs ! (4 * i + 1)) (cs ! (4 * i + 2)) (cs ! (4 * i + 3)))
      [0..<190]) = Some (map f [0..<190])"
    by (rule those_map_Some, rule f) simp
  moreover have "sntrup_p div 4 = 190" "sntrup_p - 1 = 760" by (simp_all add: sntrup_sizes)
  ultimately have e: "small_encode cs = Some (map f [0..<190] @ [l])"
    unfolding small_encode_def using l(1) by (simp only: bind.bind_lunit)
  have "concat (map (\<lambda>i. [cs ! (4 * i), cs ! (4 * i + 1), cs ! (4 * i + 2), cs ! (4 * i + 3)]) [0..<n]) = take (4 * n) cs"
    if "n \<le> 190" for n
    using that len
  proof (induction n)
    case (Suc n)
    have "take (4 * Suc n) cs = take (4 * n) cs @ [cs ! (4 * n), cs ! (4 * n + 1), cs ! (4 * n + 2), cs ! (4 * n + 3)]"
    proof -
      have "4 * Suc n = Suc (Suc (Suc (Suc (4 * n))))" by simp
      moreover have "4 * n + 3 < length cs" using Suc.prems by simp
      ultimately show ?thesis
        by (simp only: take_Suc_conv_app_nth Suc_lessD append.assoc)
          (simp add: take_Suc_conv_app_nth numeral_3_eq_3 numeral_2_eq_2)
    qed
    with Suc show ?case by simp
  qed simp
  from this [of 190] have "concat (map (\<lambda>i. small_unpack (f i)) [0..<190]) = take 760 cs"
  proof -
    assume c: "190 \<le> (190 :: nat) \<Longrightarrow>
      concat (map (\<lambda>i. [cs ! (4 * i), cs ! (4 * i + 1), cs ! (4 * i + 2), cs ! (4 * i + 3)]) [0..<190]) = take (4 * 190) cs"
    have m: "map (\<lambda>i. small_unpack (f i)) [0..<190]
        = map (\<lambda>i. [cs ! (4 * i), cs ! (4 * i + 1), cs ! (4 * i + 2), cs ! (4 * i + 3)]) [0..<190]"
      by (rule map_cong [OF refl], rule g) simp
    show ?thesis unfolding m using c by simp
  qed
  moreover have "small_decode (map f [0..<190] @ [l]) = concat (map (\<lambda>i. small_unpack (f i)) [0..<190]) @ [cs ! 760]"
  proof -
    have "map (\<lambda>i. small_unpack ((map f [0..<190] @ [l]) ! i)) [0..<190] = map (\<lambda>i. small_unpack (f i)) [0..<190]"
      by (rule map_cong [OF refl]) (simp add: nth_append)
    moreover have "sntrup_p div 4 = 190" by (simp add: sntrup_sizes)
    ultimately show ?thesis
      unfolding small_decode_def using l(2) by (simp only:) (simp add: nth_append)
  qed
  ultimately have "small_decode (map f [0..<190] @ [l]) = cs"
    using take_snoc_nth [of cs 760] len by simp
  with e show ?thesis by (simp add: sntrup_sizes)
qed

lemma rq_digit_eq:
  assumes "\<bar>c\<bar> \<le> 2295"
  shows "\<exists>d. rq_digit c = Some d \<and> unat d < 4591 \<and> fits 16 (as_signed 16 (uint d) - sntrup_q12) = Some c"
proof -
  obtain n where n: "c + 2295 = int n" "n \<le> 4590"
    using assms by (intro that [of "nat (c + 2295)"]) linarith+
  have a: "int n AND 16383 = int n"
    using take_bit_eq_mask [of 14 "int n"] n(2) by (simp add: take_bit_eq_mod mask_eq_exp_minus_1)
  have "rq_digit c = Some (of_nat n)"
    using n assms by (simp add: rq_digit_def sntrup_sizes fits_def a)
  moreover have u: "unat (of_nat n :: u16) = n" using n(2) by (simp add: unsigned_of_nat take_bit_nat_eq_self)
  moreover have "uint (of_nat n :: u16) = int n" by (metis u uint_nat)
  ultimately show ?thesis
    using n assms by (simp add: sntrup_sizes fits_def as_signed_def signed_take_bit_int_eq_self)
qed

lemma rq_round_trip_aux:
  assumes "rq_poly cs"
  shows "\<exists>bs. rq_encode cs = Some bs \<and> length bs = RQ_BYTES \<and> rq_decode bs = Some cs"
proof -
  have len: "length cs = 761" and b: "\<And>i. i < 761 \<Longrightarrow> \<bar>cs ! i\<bar> \<le> 2295"
    using assms by (auto simp: rq_poly_def sntrup_sizes)
  obtain f where f: "\<And>i. i < 761 \<Longrightarrow> rq_digit (cs ! i) = Some (f i) \<and> unat (f i) < 4591
      \<and> fits 16 (as_signed 16 (uint (f i)) - sntrup_q12) = Some (cs ! i)"
    using rq_digit_eq [OF b] by metis
  have d: "those (map (\<lambda>i. rq_digit (cs ! i)) [0..<sntrup_p]) = Some (map f [0..<761])"
    unfolding sntrup_p_def by (rule those_map_Some) (use f in simp)
  have bel: "below 4591 (map f [0..<761])" using f by (simp add: below_def)
  note R = rq_unpack_pack [of "map f [0..<761]", simplified length_map length_upt diff_zero, OF refl bel]
  have "those (map ((\<lambda>d. fits 16 (as_signed 16 (uint d) - sntrup_q12)) \<circ> f) [0..<761]) = Some (map (\<lambda>i. cs ! i) [0..<761])"
    by (rule those_map_Some) (use f in simp)
  moreover have "map (\<lambda>i. cs ! i) [0..<761] = cs" using len map_nth [of cs] by simp
  ultimately have "rq_decode (rq_pack (map f [0..<761])) = Some cs"
    by (simp only: rq_decode_def R(1) bind.bind_lunit map_map)
  then show ?thesis using d R(2) by (simp add: rq_encode_def sntrup_sizes)
qed

lemma rounded_round_trip_aux:
  assumes "rq_poly cs"
  shows "rounded_decode (rounded_encode cs) = Some (map round3 cs)"
    and "length (rounded_encode cs) = ROUNDED_BYTES"
proof -
  have len: "length cs = 761" and b: "\<And>i. i < 761 \<Longrightarrow> \<bar>cs ! i\<bar> \<le> 2295"
    using assms by (auto simp: rq_poly_def sntrup_sizes)
  have "\<exists>k. round3 (cs ! i) = 3 * k \<and> \<bar>k\<bar> \<le> 765" if i: "i < 761" for i
    using round3_spec [OF b [OF i]] by metis
  then obtain g where g: "\<And>i. i < 761 \<Longrightarrow> round3 (cs ! i) = 3 * g i \<and> \<bar>g i\<bar> \<le> 765"
    by metis
  define d where "d = map (\<lambda>i. rounded_digit (3 * g i)) [0..<761]"
  have enc: "rounded_encode cs = rounded_pack d"
    unfolding rounded_encode_def rounded_encode_raw_def d_def sntrup_p_def
    by (intro arg_cong [where f = rounded_pack] map_cong) (use g in simp_all)
  have bel: "below 1531 d"
    unfolding below_def
  proof
    fix x assume "x \<in> set d"
    then obtain i where "i < 761" "x = rounded_digit (3 * g i)" by (auto simp: d_def)
    moreover from this have "\<bar>g i\<bar> \<le> 765" using g by blast
    ultimately show "unat x < 1531" using rounded_digit_eq(1) [of "g i"] by (simp add: abs_le_iff nat_less_iff)
  qed
  have len_d: "length d = 761" by (simp add: d_def)
  have "map scale_up d = map (\<lambda>i. round3 (cs ! i)) [0..<761]"
    using g rounded_digit_eq(2) by (simp add: d_def)
  also have "\<dots> = map round3 (map (\<lambda>i. cs ! i) [0..<761])" by simp
  also have "map (\<lambda>i. cs ! i) [0..<761] = cs" using len map_nth [of cs] by simp
  finally show "rounded_decode (rounded_encode cs) = Some (map round3 cs)"
    unfolding enc rounded_decode_def rounded_unpack_pack(1) [OF len_d bel] by simp
  show "length (rounded_encode cs) = ROUNDED_BYTES"
    unfolding enc rounded_unpack_pack(2) [OF len_d bel] by (simp add: sntrup_sizes)
qed

lemma rq_decode_total: "\<exists>cs. rq_decode bs = Some cs \<and> rq_poly cs"
proof -
  obtain ds where ds: "rq_unpack bs = Some ds" "length ds = 761" "below 4591 ds"
    using rq_unpack_total by blast
  have "\<exists>c. fits 16 (as_signed 16 (uint d) - sntrup_q12) = Some c \<and> \<bar>c\<bar> \<le> 2295" if "d \<in> set ds" for d
  proof -
    have "unat d < 4591" using ds(3) that by (simp add: below_def)
    then have "uint d < 4591" by (metis of_nat_less_iff of_nat_numeral uint_nat)
    moreover have "- (2 ^ 15) \<le> uint d" by (rule order_trans [of _ 0]) simp_all
    moreover from calculation have "signed_take_bit 15 (uint d) = uint d"
      by (intro signed_take_bit_int_eq_self) simp_all
    ultimately show ?thesis
      by (simp add: sntrup_sizes fits_def as_signed_def abs_le_iff)
  qed
  then obtain cs where cs: "those (map (\<lambda>d. fits 16 (as_signed 16 (uint d) - sntrup_q12)) ds) = Some cs"
    "list_all2 (\<lambda>d c. \<bar>c\<bar> \<le> 2295) ds cs"
    using those_total [of ds "\<lambda>d. fits 16 (as_signed 16 (uint d) - sntrup_q12)" "\<lambda>d c. \<bar>c\<bar> \<le> 2295"] by blast
  then have "rq_poly cs" using ds(2)
    by (auto simp: rq_poly_def sntrup_sizes list_all2_conv_all_nth in_set_conv_nth)
  then show ?thesis using ds(1) cs(1) by (simp add: rq_decode_def)
qed

lemma scale_up_i16: "\<bar>scale_up v\<bar> \<le> 32768"
  using signed_take_bit_int_less_exp [of 15 "3 * uint v - sntrup_q12"]
    signed_take_bit_int_greater_eq_minus_exp [of 15 "3 * uint v - sntrup_q12"]
  by (simp add: scale_up_def as_signed_def abs_le_iff)

lemma scale_up_canonical: "v < 1531 \<Longrightarrow> \<bar>scale_up v\<bar> \<le> sntrup_q12 \<and> 3 dvd scale_up v"
proof -
  assume "v < 1531"
  then have v: "uint v < 1531" by (simp add: word_less_def)
  define d where "d = uint v"
  have d: "0 \<le> d" "d < 1531" using v by (simp_all add: d_def)
  then have "signed_take_bit 15 (3 * d - 2295) = 3 * d - 2295" by (intro signed_take_bit_int_eq_self) simp_all
  then have "scale_up v = 3 * (d - 765)" by (simp add: scale_up_def as_signed_def sntrup_sizes d_def)
  then show ?thesis using d by (simp add: sntrup_sizes)
qed

lemma rounded_decode_total:
  "\<exists>cs. rounded_decode bs = Some cs \<and> length cs = sntrup_p \<and> list_all (\<lambda>c. \<bar>c\<bar> \<le> 32768) cs
    \<and> list_all (\<lambda>i. \<bar>cs ! (2 * i)\<bar> \<le> sntrup_q12 \<and> 3 dvd cs ! (2 * i)) [0..<380]"
  using rounded_unpack_total [of bs] scale_up_i16 scale_up_canonical
  by (auto simp: rounded_decode_def sntrup_p_def list_all_iff)

section \<open>Properties\<close>

text \<open>With the divisor 1 the estimates are exact, and the \<open>q += 1\<close> before the correction overflows at
  the largest dividend.\<close>

lemma divmod_u14_one: "divmod_u14 x 1 = (if x = - 1 then None else Some (x, 0))"
proof -
  have "unat (ucast (drop_bit 31 ((ucast x :: u64) * ucast (0x80000000 :: u32))) :: u32) = unat x"
    using estimate_word [of "0x80000000" x] by simp
  then have p1: "(ucast (drop_bit 31 ((ucast x :: u64) * 0x80000000)) :: u32) = x"
    by (simp add: word_eq_iff_unsigned [where 'a = nat])
  have u: "unat x < 2 ^ 32" using unsigned_less [of x, where 'a = nat] by simp
  have m: "checked_mul x 1 = Some x" "checked_add 0 x = Some x" "checked_add x 0 = Some x"
    using u by (simp_all add: checked_mul_def checked_add_def)
  have "unat (- 1 :: u32) = 2 ^ 32 - 1" using unsigned_minus_1_eq_mask [where 'a = nat and 'b = 32] by (simp add: mask_eq_exp_minus_1)
  then have "x = - 1 \<longleftrightarrow> unat x = 2 ^ 32 - 1" by (simp add: word_eq_iff_unsigned [where 'a = nat])
  then have a: "checked_add x 1 = (if x = - 1 then None else Some (x + 1))" using u by (auto simp: checked_add_def)
  have d: "drop_bit 31 (- 1 :: u32) = 1" by (simp add: drop_31)
  have z: "checked_mul (0 :: u32) 1 = Some 0" "checked_sub x x = Some 0" "checked_sub (0 :: u32) 0 = Some 0"
    by (simp_all add: checked_sub_def checked_mul_def)
  have "divmod_u14 x 1 = do { q \<leftarrow> checked_add x 1; Some (q - 1, 0) }"
    by (simp add: divmod_u14_def p1 m z d)
  then show ?thesis by (simp add: a)
qed

text \<open>C38. \<open>divmod_u14\<close>, the branch-free division under all of the encodings, on its documented domain, the
  divisors below 2^14: it panics exactly for the divisor 0 and for 2^32 - 1 divided by 1, where its
  quotient counter overflows, and otherwise returns the quotient and the remainder, with no
  other checked addition, subtraction or product overflowing.\<close>

theorem divmod_u14_exact:
  assumes "m < 16384"
  shows "(divmod_u14 x m = None \<longleftrightarrow> m = 0 \<or> m = 1 \<and> x = - 1)
    \<and> (divmod_u14 x m = None \<or> (\<exists>q r. divmod_u14 x m = Some (q, r) \<and> unat q = unat x div unat m \<and> unat r = unat x mod unat m))"
proof -
  consider "m = 0" | "m = 1" | "1 < m" by (cases "m = 0"; cases "m = 1") (auto simp: word_less_nat_alt word_eq_iff_unsigned [where 'a = nat])
  then show ?thesis
  proof cases
    case 1
    then show ?thesis by (simp add: divmod_u14_def)
  next
    case 2
    then show ?thesis by (simp add: divmod_u14_one)
  next
    case 3
    then have "m \<noteq> 0" "m \<noteq> 1" by auto
    then show ?thesis using divmod_u14_eq [OF 3 assms, of x] by fastforce
  qed
qed

theorem divmod_u14_exact_witness:
  "divmod_u14 0xFFFFFFFF 1 = None \<and> (\<exists>q r. divmod_u14 0xFFFFFFFF 4591 = Some (q, r)
    \<and> unat q = unat (0xFFFFFFFF :: u32) div unat (4591 :: u16) \<and> unat r = unat (0xFFFFFFFF :: u32) mod unat (4591 :: u16))"
  using divmod_u14_exact [of 4591 "0xFFFFFFFF"] divmod_u14_exact [of 1 "0xFFFFFFFF"] by auto

text \<open>The packing of small polynomials loses nothing: encoding any 761 coefficients in
  {-1, 0, 1} takes 191 bytes, never panics, and decodes to the same coefficients.\<close>

lemma small_round_trip:
  assumes "small_poly cs"
  shows "\<exists>bs. small_encode cs = Some bs \<and> length bs = SMALL_BYTES \<and> small_decode bs = cs"
  by (rule small_round_trip_aux [OF assms])

text \<open>C28. The ten-stage base conversion of public keys is invertible: encoding any polynomial with
  coefficients in [-2295, 2295] takes 1158 bytes, never panics, and decodes to the same
  polynomial.\<close>

theorem rq_round_trip:
  assumes "rq_poly cs"
  shows "\<exists>bs. rq_encode cs = Some bs \<and> length bs = RQ_BYTES \<and> rq_decode bs = Some cs"
  by (rule rq_round_trip_aux [OF assms])

theorem rq_round_trip_witness:
  "\<exists>bs. rq_encode (replicate 761 2295) = Some bs \<and> length bs = RQ_BYTES
    \<and> rq_decode bs = Some (replicate 761 2295)"
  by (rule rq_round_trip) (simp add: rq_poly_def sntrup_sizes)

text \<open>Ciphertext bodies decode to the rounded polynomial: encoding takes 1007 bytes, and decoding
  returns every coefficient rounded to a multiple of 3 within 1 of it, without a panic.\<close>

lemma rounded_round_trip:
  assumes "rq_poly cs"
  shows "rounded_decode (rounded_encode cs) = Some (map round3 cs) \<and> length (rounded_encode cs) = ROUNDED_BYTES
    \<and> list_all (\<lambda>c. 3 dvd round3 c \<and> \<bar>round3 c - c\<bar> \<le> 1) cs"
proof -
  have "3 dvd round3 c \<and> \<bar>round3 c - c\<bar> \<le> 1" if "\<bar>c\<bar> \<le> 2295" for c
    using round3_spec [OF that] by (metis dvd_triv_left)
  then have "list_all (\<lambda>c. 3 dvd round3 c \<and> \<bar>round3 c - c\<bar> \<le> 1) cs"
    using assms by (auto simp: rq_poly_def sntrup_sizes list_all_iff)
  then show ?thesis using rounded_round_trip_aux [OF assms] by blast
qed

text \<open>The digit of a small polynomial is two bits wide, so a stray fourth value decodes to 2.\<close>

lemma two_bits: "uint (w AND 3) \<in> {0, 1, 2, 3}" for w :: u8
proof -
  have "w AND 3 = take_bit 2 w" by (rule bit_word_eqI) (auto simp: bit_simps less_Suc_eq numeral_eq_Suc)
  then have "uint (w AND 3) = take_bit 2 (uint w)" by (simp only: unsigned_take_bit_eq)
  then have "uint (w AND 3) < 4" "0 \<le> uint (w AND 3)" using take_bit_int_less_exp [of 2 "uint w"] by simp_all
  then show ?thesis unfolding insert_iff empty_iff by linarith
qed

lemma small_unpack_range: "list_all (\<lambda>c. c \<in> {- 1, 0, 1, 2}) (small_unpack x)"
  using two_bits [of x] two_bits [of "drop_bit 2 x"] two_bits [of "drop_bit 4 x"] two_bits [of "drop_bit 6 x"]
  by (auto simp: small_unpack_def)

lemma length_small_unpacks: "length (concat (map (\<lambda>i. small_unpack (bs ! i)) is)) = 4 * length is"
  by (induction "is") (simp_all add: small_unpack_def)

lemma small_decode_total: "length (small_decode bs) = 761 \<and> list_all (\<lambda>c. c \<in> {- 1, 0, 1, 2}) (small_decode bs)"
  using length_small_unpacks [of bs "[0..<190]"] small_unpack_range two_bits [of "bs ! 190"]
  by (auto simp: small_decode_def sntrup_p_def list_all_iff)

text \<open>C39. Decoding is total on untrusted bytes, and says what it leaves unchecked. The 1158 bytes of a public
  key decode to 761 coefficients in the canonical range, thanks to the clamps. The 1007 bytes of a
  ciphertext decode to 761 \<open>i16\<close> values of which only those at the even positions below 760, the
  remainders of the last stage, are always canonical: the quotients are not reduced. The 191
  bytes of a small polynomial decode to 761 values in {-1, 0, 1, 2}, and 2 occurs.\<close>

theorem decoders_total:
  "(\<exists>cs. rq_decode bs = Some cs \<and> rq_poly cs)
    \<and> (\<exists>cs. rounded_decode bs = Some cs \<and> length cs = sntrup_p \<and> list_all (\<lambda>c. \<bar>c\<bar> \<le> 32768) cs
        \<and> list_all (\<lambda>i. \<bar>cs ! (2 * i)\<bar> \<le> sntrup_q12 \<and> 3 dvd cs ! (2 * i)) [0..<380])
    \<and> length (small_decode bs) = sntrup_p \<and> list_all (\<lambda>c. c \<in> {- 1, 0, 1, 2}) (small_decode bs)
    \<and> 2 \<in> set (small_decode (replicate 191 255))"
proof -
  have "2 \<in> set (small_decode (replicate 191 255))" by (simp add: small_decode_def sntrup_p_def)
  then show ?thesis using rq_decode_total rounded_decode_total small_decode_total by (simp add: sntrup_p_def)
qed

end
