(* ===== verification/Sntrup_Poly.thy ===== *)
theory Sntrup_Poly
  imports Sntrup_Encoding "HOL-Library.Signed_Division"
begin

text \<open>
  Polynomial arithmetic of sntrup761 (\<open>trelis-primitives/src/sntrup761/poly.rs\<close>): schoolbook and
  Karatsuba multiplication on \<open>i32\<close> coefficients, the reduction modulo x^761 - x - 1, and the
  three multiplications built from them. Every \<open>i32\<close> addition, subtraction and product is
  checked (\<open>None\<close> is the overflow panic), so that the lemmas also show the absence of panics.

  The reference is the Cauchy product \<open>pmul\<close> on coefficient functions.
\<close>

section \<open>Multiplication\<close>

text \<open>\<open>result[k] += v\<close> and \<open>result[k] -= v\<close>, with the bounds check and the overflow check.\<close>

definition op_at :: "(int \<Rightarrow> int \<Rightarrow> int) \<Rightarrow> nat \<Rightarrow> int \<Rightarrow> int list \<Rightarrow> int list option" where
  "op_at f k v r = (if k < length r then do { s \<leftarrow> fits 32 (f (r ! k) v); Some (r[k := s]) } else None)"

text \<open>\<open>for (i, &v) in z.iter().enumerate() { result[i + k] op= v }\<close>; with \<open>guard\<close>, only while
  \<open>i + k < result_len\<close>.\<close>

fun accumulate :: "bool \<Rightarrow> (int \<Rightarrow> int \<Rightarrow> int) \<Rightarrow> nat \<Rightarrow> int list \<Rightarrow> int list \<Rightarrow> int list option" where
  "accumulate guard f k [] r = Some r"
| "accumulate guard f k (v # vs) r =
     (if guard \<and> length r \<le> k then accumulate guard f (k + 1) vs r
      else do { r \<leftarrow> op_at f k v r; accumulate guard f (k + 1) vs r })"

fun schoolbook_rows :: "nat \<Rightarrow> int list \<Rightarrow> int list \<Rightarrow> int list \<Rightarrow> int list option" where
  "schoolbook_rows i [] b r = Some r"
| "schoolbook_rows i (ai # a) b r =
     (if ai = 0 then schoolbook_rows (i + 1) a b r
      else do {
        row \<leftarrow> those (map (\<lambda>bj. fits 32 (ai * bj)) b);
        r \<leftarrow> accumulate False (+) i row r;
        schoolbook_rows (i + 1) a b r })"

definition schoolbook_mult :: "int list \<Rightarrow> int list \<Rightarrow> int list option" where
  "schoolbook_mult a b =
     (if a = [] \<or> b = [] then Some []
      else schoolbook_rows 0 a b (replicate (length a + length b - 1) 0))"

definition KARATSUBA_THRESHOLD :: nat where "KARATSUBA_THRESHOLD = 32"

definition pad_to :: "nat \<Rightarrow> int list \<Rightarrow> int list" where
  "pad_to n a = a @ replicate (n - length a) 0"

definition sum_parts :: "int list \<Rightarrow> int list \<Rightarrow> int list option" where
  "sum_parts lo hi = do {
     let overlap = min (length lo) (length hi);
     s \<leftarrow> those (map (\<lambda>i. fits 32 (lo ! i + hi ! i)) [0..<overlap]);
     Some (s @ (if length lo > length hi then drop overlap lo
       else if length hi > length lo then drop overlap hi else [])) }"

lemma length_sum_parts: "sum_parts lo hi = Some s \<Longrightarrow> length s = max (length lo) (length hi)"
  by (auto simp: sum_parts_def bind_eq_Some_conv those_eq_Some Let_def dest!: arg_cong [where f = length])

function karatsuba_mult :: "int list \<Rightarrow> int list \<Rightarrow> int list option" where
  "karatsuba_mult a b =
     (let n = max (length a) (length b) in
      if n \<le> KARATSUBA_THRESHOLD then schoolbook_mult a b
      else
        let a' = pad_to n a; b' = pad_to n b; m = n div 2;
            a_low = take m a'; a_high = drop m a'; b_low = take m b'; b_high = drop m b' in do {
        z0 \<leftarrow> karatsuba_mult a_low b_low;
        z2 \<leftarrow> karatsuba_mult a_high b_high;
        a_sum \<leftarrow> sum_parts a_low a_high;
        b_sum \<leftarrow> sum_parts b_low b_high;
        z1_full \<leftarrow> karatsuba_mult a_sum b_sum;
        let result = replicate (2 * n - 1) 0;
        result \<leftarrow> accumulate False (+) 0 z0 result;
        result \<leftarrow> accumulate True (+) (2 * m) z2 result;
        result \<leftarrow> accumulate True (+) m z1_full result;
        result \<leftarrow> accumulate True (-) m z0 result;
        accumulate True (-) m z2 result })"
  by pat_completeness auto

lemma length_pad_to [simp]: "length (pad_to n a) = max n (length a)"
  by (simp add: pad_to_def)

lemma karatsuba_halves:
  assumes "length a \<le> n" and "32 < n"
  shows "length (take (n div 2) (pad_to n a)) = n div 2" "length (drop (n div 2) (pad_to n a)) = n - n div 2"
    "n div 2 < n" "n - n div 2 < n" "n div 2 \<le> n - n div 2"
  using assms by (simp_all add: max_def)

termination karatsuba_mult
proof (relation "measure (\<lambda>(a, b). max (length a) (length b))", goal_cases)
  case 1
  show ?case by simp
next
  case (2 a b n a' b' m)
  from 2(1,2) have "length a \<le> n" "length b \<le> n" "32 < n"
    unfolding KARATSUBA_THRESHOLD_def by linarith+
  note karatsuba_halves [OF this(1,3)] karatsuba_halves [OF this(2,3)]
  with 2 show ?case by (metis (no_types, lifting) case_prod_conv in_measure max.idem)
next
  case (3 a b n a' b' m)
  from 3(1,2) have "length a \<le> n" "length b \<le> n" "32 < n"
    unfolding KARATSUBA_THRESHOLD_def by linarith+
  note karatsuba_halves [OF this(1,3)] karatsuba_halves [OF this(2,3)]
  with 3 show ?case by (metis (no_types, lifting) case_prod_conv in_measure max.idem)
next
  case (4 a b n a' b' m)
  from 4(1,2) have "length a \<le> n" "length b \<le> n" "32 < n"
    unfolding KARATSUBA_THRESHOLD_def by linarith+
  note karatsuba_halves [OF this(1,3)] karatsuba_halves [OF this(2,3)]
  with 4 show ?case by (metis (no_types, lifting) case_prod_conv in_measure max.absorb2 max.idem length_sum_parts)
qed

declare karatsuba_mult.simps [simp del]

section \<open>Reduction\<close>

text \<open>Rust's \<open>%\<close> on \<open>i32\<close> truncates towards zero.\<close>

definition reduce_mod_q :: "int \<Rightarrow> int" where
  "reduce_mod_q x =
     (let r = x smod 4591 in
      as_signed 16 (if r > 2295 then r - 4591 else if r < - 2295 then r + 4591 else r))"

definition reduce_mod_3 :: "int \<Rightarrow> int" where
  "reduce_mod_3 x = (if x mod 3 = 0 then 0 else if x mod 3 = 1 then 1 else - 1)"

text \<open>The loop over \<open>poly[P..]\<close>: x^(P+k) is replaced by x^(k+1) + x^k.\<close>

fun ring_fold :: "nat \<Rightarrow> int list \<Rightarrow> int list \<Rightarrow> int list option" where
  "ring_fold k [] r = Some r"
| "ring_fold k (v # vs) r = do {
     r \<leftarrow> op_at (+) k v r;
     r \<leftarrow> (if k + 1 < sntrup_p then op_at (+) (k + 1) v r
       else do {
         r \<leftarrow> op_at (+) 0 v r;
         r \<leftarrow> op_at (+) 1 v r;
         op_at (+) (k + 1 - sntrup_p) v r });
     ring_fold (k + 1) vs r }"

definition ring_reduce :: "int list \<Rightarrow> int list option" where
  "ring_reduce poly =
     ring_fold 0 (drop sntrup_p poly) (pad_to sntrup_p (take (min sntrup_p (length poly)) poly))"

definition reduce_ring_rq :: "int list \<Rightarrow> int list option" where
  "reduce_ring_rq poly = map_option (map reduce_mod_q) (ring_reduce poly)"

definition reduce_ring_r3 :: "int list \<Rightarrow> int list option" where
  "reduce_ring_r3 poly = map_option (map reduce_mod_3) (ring_reduce poly)"

definition rq_mult_rq :: "int list \<Rightarrow> int list \<Rightarrow> int list option" where
  "rq_mult_rq a b = do { product \<leftarrow> karatsuba_mult a b; reduce_ring_rq product }"

definition rq_mult_r3 :: "int list \<Rightarrow> int list \<Rightarrow> int list option" where
  "rq_mult_r3 a b = do { product \<leftarrow> karatsuba_mult a b; reduce_ring_rq product }"

definition r3_mult_r3 :: "int list \<Rightarrow> int list \<Rightarrow> int list option" where
  "r3_mult_r3 a b = do { product \<leftarrow> karatsuba_mult a b; reduce_ring_r3 product }"

section \<open>The Cauchy product\<close>

definition coef :: "int list \<Rightarrow> nat \<Rightarrow> int" where
  "coef xs i = (if i < length xs then xs ! i else 0)"

definition pmul :: "(nat \<Rightarrow> int) \<Rightarrow> (nat \<Rightarrow> int) \<Rightarrow> nat \<Rightarrow> int" where
  "pmul f g k = (\<Sum>i\<le>k. f i * g (k - i))"

text \<open>Multiplication by x^m.\<close>

definition psh :: "nat \<Rightarrow> (nat \<Rightarrow> int) \<Rightarrow> nat \<Rightarrow> int" where
  "psh m f k = (if k < m then 0 else f (k - m))"

lemma pmul_commute: "pmul f g = pmul g f"
proof
  fix k
  show "pmul f g k = pmul g f k"
    unfolding pmul_def
    by (rule sum.reindex_bij_witness [of _ "\<lambda>i. k - i" "\<lambda>i. k - i"]) (auto simp: mult.commute)
qed

lemma pmul_add_left: "pmul (\<lambda>i. f i + g i) h = (\<lambda>k. pmul f h k + pmul g h k)"
  by (simp add: fun_eq_iff pmul_def distrib_right sum.distrib)

lemma pmul_add_right: "pmul h (\<lambda>i. f i + g i) = (\<lambda>k. pmul h f k + pmul h g k)"
  by (simp add: fun_eq_iff pmul_def distrib_left sum.distrib)

lemma psh_add: "psh m (\<lambda>i. f i + g i) = (\<lambda>k. psh m f k + psh m g k)"
  by (simp add: fun_eq_iff psh_def)

lemma pmul_psh_left: "pmul (psh m f) g = psh m (pmul f g)"
proof
  fix k
  show "pmul (psh m f) g k = psh m (pmul f g) k"
  proof (cases "k < m")
    case True
    then show ?thesis by (simp add: pmul_def psh_def)
  next
    case False
    have "pmul (psh m f) g k = (\<Sum>i \<in> {m..k}. f (i - m) * g (k - i))"
      unfolding pmul_def by (rule sum.mono_neutral_cong_right) (auto simp: psh_def)
    also have "\<dots> = (\<Sum>i\<le>k - m. f i * g (k - m - i))"
      by (rule sum.reindex_bij_witness [of _ "\<lambda>i. i + m" "\<lambda>i. i - m"]) (use False in auto)
    finally show ?thesis using False by (simp add: psh_def pmul_def)
  qed
qed

lemma pmul_psh_right: "pmul f (psh m g) = psh m (pmul f g)"
  by (metis pmul_commute pmul_psh_left)

lemma psh_psh: "psh m (psh n f) = psh (m + n) f"
  by (auto simp: psh_def fun_eq_iff)

lemma coef_split: "coef xs = (\<lambda>i. coef (take m xs) i + psh m (coef (drop m xs)) i)"
  by (auto simp: fun_eq_iff coef_def psh_def)

text \<open>Karatsuba's identity.\<close>

lemma karatsuba_identity:
  fixes l h l' h' :: "nat \<Rightarrow> int"
  defines "z0 \<equiv> pmul l l'" and "z2 \<equiv> pmul h h'"
    and "z1 \<equiv> pmul (\<lambda>i. l i + h i) (\<lambda>i. l' i + h' i)"
  shows "pmul (\<lambda>i. l i + psh m h i) (\<lambda>i. l' i + psh m h' i) k
    = z0 k + psh (2 * m) z2 k + psh m z1 k - psh m z0 k - psh m z2 k"
proof -
  have "z1 = (\<lambda>j. (z0 j + pmul l h' j) + (pmul h l' j + z2 j))"
    by (simp add: z1_def z0_def z2_def pmul_add_left pmul_add_right)
  then show ?thesis
    by (simp add: pmul_add_left pmul_add_right pmul_psh_left pmul_psh_right psh_psh psh_add
        z0_def z2_def mult_2)
qed

section \<open>The loops compute sums\<close>

lemma fits_abs [simp]: "\<bar>x\<bar> < 2 ^ (w - 1) \<Longrightarrow> fits w x = Some x"
  by (simp add: fits_def abs_less_iff)

lemma psh_Cons: "psh k (coef (v # vs)) j = (if j = k then v else psh (k + 1) (coef vs) j)"
proof (cases "k < j")
  case True
  then obtain n where "j = Suc (k + n)" using less_imp_Suc_add by blast
  then show ?thesis by (simp add: psh_def coef_def)
qed (auto simp: psh_def coef_def)

lemma psh_below: "j < k \<Longrightarrow> psh k f j = 0"
  by (simp add: psh_def)

lemma psh_bound: "\<forall>i. \<bar>f i\<bar> \<le> d \<Longrightarrow> \<bar>psh k f j\<bar> \<le> d"
  using abs_ge_zero [of "f 0"] by (auto simp: psh_def intro: order_trans)

lemma accumulate_eq:
  assumes "guard \<or> k + length vs \<le> length r" and "\<And>x. f x 0 = x"
    and "\<And>j. j < length r \<Longrightarrow> \<bar>f (r ! j) (psh k (coef vs) j)\<bar> < 2 ^ 31"
  shows "accumulate guard f k vs r = Some (map (\<lambda>j. f (r ! j) (psh k (coef vs) j)) [0..<length r])"
  using assms(1,3)
proof (induction vs arbitrary: k r)
  case Nil
  have "map (\<lambda>j. f (r ! j) (psh k (coef []) j)) [0..<length r] = map (\<lambda>j. r ! j) [0..<length r]"
    by (simp add: psh_def coef_def assms(2))
  then show ?case by (simp add: map_nth)
next
  case (Cons v vs)
  show ?case
  proof (cases "length r \<le> k")
    case True
    have same: "psh k (coef (v # vs)) j = psh (k + 1) (coef vs) j" if "j < length r" for j
      using that True by (simp add: psh_below)
    have "accumulate guard f (k + 1) vs r = Some (map (\<lambda>j. f (r ! j) (psh (k + 1) (coef vs) j)) [0..<length r])"
      using Cons.prems True same by (intro Cons.IH) auto
    then show ?thesis using Cons.prems(1) True same by (auto cong: map_cong)
  next
    case False
    define r' where "r' = r[k := f (r ! k) v]"
    have step: "f (r' ! j) (psh (k + 1) (coef vs) j) = f (r ! j) (psh k (coef (v # vs)) j)" if "j < length r" for j
      using that by (auto simp: r'_def psh_Cons psh_below assms(2))
    have "\<bar>f (r ! k) v\<bar> < 2 ^ 31" using Cons.prems(2) [of k] False by (simp add: psh_Cons)
    then have "op_at f k v r = Some r'" using False by (simp add: op_at_def r'_def)
    moreover have len: "length r' = length r" by (simp add: r'_def)
    moreover have "accumulate guard f (k + 1) vs r'
        = Some (map (\<lambda>j. f (r' ! j) (psh (k + 1) (coef vs) j)) [0..<length r'])"
      using Cons.prems step by (intro Cons.IH) (auto simp: len)
    ultimately show ?thesis using False step by (simp cong: map_cong)
  qed
qed

lemma coef_Cons: "coef (x # a) = (\<lambda>i. (if i = 0 then x else 0) + psh 1 (coef a) i)"
  by (auto simp: fun_eq_iff coef_def psh_def nth_Cons split: nat.split)

lemma pmul_const: "pmul (\<lambda>i. if i = 0 then x else 0) g k = x * g k"
proof -
  have "pmul (\<lambda>i. if i = 0 then x else 0) g k = (\<Sum>i\<in>{0::nat}. x * g k)"
    unfolding pmul_def by (rule sum.mono_neutral_cong_right) auto
  then show ?thesis by simp
qed

lemma pmul_Cons: "pmul (coef (x # a)) g = (\<lambda>k. x * g k + psh 1 (pmul (coef a) g) k)"
  by (simp only: coef_Cons pmul_add_left pmul_const pmul_psh_left)

lemma coef_map: "f 0 = 0 \<Longrightarrow> coef (map f xs) i = f (coef xs i)"
  by (simp add: coef_def)

lemma nth_coef: "i < length xs \<Longrightarrow> xs ! i = coef xs i"
  by (simp add: coef_def)

lemma coef_bound: "(\<And>x. x \<in> set xs \<Longrightarrow> \<bar>x\<bar> \<le> A) \<Longrightarrow> 0 \<le> A \<Longrightarrow> \<bar>coef xs i\<bar> \<le> A"
  by (simp add: coef_def)

lemma schoolbook_rows_eq:
  assumes "\<And>x y. x \<in> set a \<Longrightarrow> y \<in> set b \<Longrightarrow> \<bar>x * y\<bar> \<le> c" and "0 \<le> c"
    and "int (i + length a) * c < 2 ^ 31" and "i + length a + length b \<le> length r + 1"
    and "\<And>j. j < length r \<Longrightarrow> \<bar>r ! j\<bar> \<le> int i * c"
  shows "schoolbook_rows i a b r = Some (map (\<lambda>j. r ! j + psh i (pmul (coef a) (coef b)) j) [0..<length r])"
  using assms
proof (induction a arbitrary: i r)
  case Nil
  have "psh i (pmul (coef []) (coef b)) j = 0" for j by (simp add: psh_def pmul_def coef_def)
  then show ?case by (simp add: map_nth)
next
  case (Cons x a)
  define r' where "r' = map (\<lambda>j. r ! j + x * psh i (coef b) j) [0..<length r]"
  have split: "psh i (pmul (coef (x # a)) (coef b)) j = x * psh i (coef b) j + psh (i + 1) (pmul (coef a) (coef b)) j" for j
    by (simp add: pmul_Cons psh_add psh_psh add.commute) (simp add: psh_def)
  have cb: "\<bar>x * coef b j\<bar> \<le> c" for j
    using Cons.prems(1) [of x] Cons.prems(2) by (auto simp: coef_def)
  then have xb: "\<bar>x * psh i (coef b) j\<bar> \<le> c" for j
    using Cons.prems(2) by (simp add: psh_def)
  have b': "\<bar>r' ! j\<bar> \<le> int (i + 1) * c" if "j < length r'" for j
  proof -
    have "\<bar>r ! j + x * psh i (coef b) j\<bar> \<le> int i * c + c"
      using Cons.prems(5) [of j] xb [of j] that by (simp add: r'_def)
    then show ?thesis using that by (simp add: r'_def distrib_right)
  qed
  have "int (i + 1) * c \<le> int (i + length (x # a)) * c" using Cons.prems(2) by (intro mult_right_mono) simp_all
  then have lim: "int (i + 1) * c < 2 ^ 31" using Cons.prems(3) by simp
  have rest: "schoolbook_rows (i + 1) a b r'
      = Some (map (\<lambda>j. r' ! j + psh (i + 1) (pmul (coef a) (coef b)) j) [0..<length r'])"
    using Cons.prems b' by (intro Cons.IH) (auto simp: r'_def)
  have fin: "map (\<lambda>j. r' ! j + psh (i + 1) (pmul (coef a) (coef b)) j) [0..<length r']
      = map (\<lambda>j. r ! j + psh i (pmul (coef (x # a)) (coef b)) j) [0..<length r]"
    by (simp add: split r'_def)
  show ?case
  proof (cases "x = 0")
    case True
    then have "r' = r" by (simp add: r'_def map_nth)
    then show ?thesis using True rest fin by simp
  next
    case False
    have "0 \<le> int i * c" using Cons.prems(2) by simp
    then have "c < 2 ^ 31" using lim by (simp add: distrib_right)
    then have row: "those (map (\<lambda>bj. fits 32 (x * bj)) b) = Some (map (\<lambda>bj. x * bj) b)"
      using Cons.prems(1) [of x] by (intro those_map_Some) (force intro: fits_abs)
    have shift: "psh i (coef (map (\<lambda>bj. x * bj) b)) j = x * psh i (coef b) j" for j
      by (simp add: psh_def coef_map)
    have "accumulate False (+) i (map (\<lambda>bj. x * bj) b) r
        = Some (map (\<lambda>j. r ! j + psh i (coef (map (\<lambda>bj. x * bj) b)) j) [0..<length r])"
    proof (rule accumulate_eq)
      fix j assume "j < length r"
      then show "\<bar>r ! j + psh i (coef (map (\<lambda>bj. x * bj) b)) j\<bar> < 2 ^ 31"
        using b' [of j] lim by (simp add: r'_def shift)
    qed (use Cons.prems(4) in auto)
    then show ?thesis using False row rest fin by (simp add: shift r'_def)
  qed
qed

lemma pmul_bound:
  assumes "\<And>x y. x \<in> set a \<Longrightarrow> y \<in> set b \<Longrightarrow> \<bar>x * y\<bar> \<le> c" and "0 \<le> c"
  shows "\<bar>pmul (coef a) (coef b) k\<bar> \<le> int (length a) * c"
proof -
  have "pmul (coef a) (coef b) k = (\<Sum>i \<in> {i. i \<le> k \<and> i < length a}. coef a i * coef b (k - i))"
    unfolding pmul_def by (rule sum.mono_neutral_right) (auto simp: coef_def)
  then have "\<bar>pmul (coef a) (coef b) k\<bar> \<le> (\<Sum>i \<in> {i. i \<le> k \<and> i < length a}. \<bar>coef a i * coef b (k - i)\<bar>)"
    by (simp only: sum_abs)
  also have "\<dots> \<le> (\<Sum>i \<in> {i. i \<le> k \<and> i < length a}. c)"
    using assms by (intro sum_mono) (auto simp: coef_def)
  also have "\<dots> \<le> int (length a) * c"
  proof -
    have "card {i. i \<le> k \<and> i < length a} \<le> card {..<length a}" by (rule card_mono) auto
    then show ?thesis using assms(2) by (simp add: mult_right_mono)
  qed
  finally show ?thesis .
qed

lemma pmul_high: "length a + length b \<le> k + 1 \<Longrightarrow> a \<noteq> [] \<Longrightarrow> b \<noteq> [] \<Longrightarrow> pmul (coef a) (coef b) k = 0"
  unfolding pmul_def by (intro sum.neutral) (auto simp: coef_def)

lemma schoolbook_mult_eq:
  assumes "a \<noteq> []" "b \<noteq> []" and "\<And>x y. x \<in> set a \<Longrightarrow> y \<in> set b \<Longrightarrow> \<bar>x * y\<bar> \<le> c" and "0 \<le> c"
    and "int (length a) * c < 2 ^ 31"
  shows "schoolbook_mult a b = Some (map (pmul (coef a) (coef b)) [0..<length a + length b - 1])"
proof -
  let ?r = "replicate (length a + length b - 1) (0 :: int)"
  have "schoolbook_rows 0 a b ?r
      = Some (map (\<lambda>j. ?r ! j + psh 0 (pmul (coef a) (coef b)) j) [0..<length ?r])"
    using assms by (intro schoolbook_rows_eq [where c = c]) simp_all
  then show ?thesis using assms(1,2) by (simp add: schoolbook_mult_def psh_def cong: map_cong)
qed

text \<open>The largest absolute value any partial sum of Karatsuba's recursion can take, when products
  of two coefficients are at most \<open>c\<close>.\<close>

fun kbound :: "nat \<Rightarrow> int \<Rightarrow> int" where
  "kbound n c = (if n \<le> 32 then int n * c
     else max (8 * int (n - n div 2) * c) (kbound (n - n div 2) (4 * c)))"

declare kbound.simps [simp del]

lemma kbound_mono: "m \<le> n \<Longrightarrow> 0 \<le> c \<Longrightarrow> c \<le> c' \<Longrightarrow> kbound m c \<le> kbound n c'"
proof (induction n c' arbitrary: m c rule: kbound.induct)
  case (1 n c')
  consider "n \<le> 32" | "32 < n" "m \<le> 32" | "32 < m" using 1(2) by linarith
  then show ?case
  proof cases
    case 1
    then show ?thesis using 1 "1.prems" by (simp add: kbound.simps mult_mono)
  next
    case 2
    have "int m * c \<le> 8 * int (n - n div 2) * c'" using 2 "1.prems" by (intro mult_mono) auto
    then show ?thesis using 2 by (simp add: kbound.simps [of m] kbound.simps [of n])
  next
    case 3
    have le: "m - m div 2 \<le> n - n div 2" using "1.prems"(1) by linarith
    have "kbound (m - m div 2) (4 * c) \<le> kbound (n - n div 2) (4 * c')"
      using 3 "1.prems" le by (intro "1.IH") auto
    moreover have "8 * int (m - m div 2) * c \<le> 8 * int (n - n div 2) * c'"
      using "1.prems" le by (intro mult_mono) auto
    ultimately show ?thesis using 3 "1.prems"(1)
      by (simp add: kbound.simps [of m] kbound.simps [of n] le_max_iff_disj) linarith
  qed
qed

lemma sum_parts_eq:
  assumes "length lo \<le> length hi" and "\<And>x. x \<in> set lo \<union> set hi \<Longrightarrow> \<bar>x\<bar> \<le> A" and "0 \<le> A" and "2 * A < 2 ^ 31"
  shows "\<exists>s. sum_parts lo hi = Some s \<and> length s = length hi \<and> (\<forall>x \<in> set s. \<bar>x\<bar> \<le> 2 * A)
    \<and> coef s = (\<lambda>i. coef lo i + coef hi i)"
proof -
  define s where "s = map (\<lambda>i. lo ! i + hi ! i) [0..<length lo] @ drop (length lo) hi"
  have two: "\<bar>lo ! i + hi ! i\<bar> \<le> 2 * A" if "i < length lo" for i
    using that assms(1) assms(2) [of "lo ! i"] assms(2) [of "hi ! i"] by fastforce
  have "those (map (\<lambda>i. fits 32 (lo ! i + hi ! i)) [0..<length lo]) = Some (map (\<lambda>i. lo ! i + hi ! i) [0..<length lo])"
    using two assms(4) by (intro those_map_Some) (force intro: fits_abs)
  then have "sum_parts lo hi = Some s"
    using assms(1) by (auto simp: sum_parts_def s_def min_def Let_def)
  moreover have "\<bar>x\<bar> \<le> 2 * A" if "x \<in> set s" for x
    using that two assms(2) [of x] assms(3) by (auto simp: s_def dest: in_set_dropD)
  moreover have "coef s = (\<lambda>i. coef lo i + coef hi i)"
    using assms(1) by (auto simp: fun_eq_iff coef_def s_def nth_append)
  ultimately show ?thesis using assms(1) by (auto simp: s_def)
qed


text \<open>Karatsuba multiplication is the Cauchy product, and no intermediate \<open>i32\<close> overflows.\<close>

lemma accumulate_map:
  assumes "guard \<or> k + length vs \<le> n" and "\<And>x. f x 0 = x"
    and "\<And>j. j < n \<Longrightarrow> \<bar>f (g j) (psh k (coef vs) j)\<bar> < 2 ^ 31"
  shows "accumulate guard f k vs (map g [0..<n]) = Some (map (\<lambda>j. f (g j) (psh k (coef vs) j)) [0..<n])"
proof -
  have "accumulate guard f k vs (map g [0..<n])
      = Some (map (\<lambda>j. f (map g [0..<n] ! j) (psh k (coef vs) j)) [0..<length (map g [0..<n])])"
    by (rule accumulate_eq) (use assms in simp_all)
  then show ?thesis by (simp cong: map_cong)
qed

lemma coef_map_upt: "(\<And>j. n \<le> j \<Longrightarrow> g j = 0) \<Longrightarrow> coef (map g [0..<n]) = g"
  by (auto simp: fun_eq_iff coef_def)

lemma karatsuba_eq:
  assumes "length a = n" "length b = n" "1 \<le> n"
    and "\<And>x. x \<in> set a \<Longrightarrow> \<bar>x\<bar> \<le> A" "\<And>x. x \<in> set b \<Longrightarrow> \<bar>x\<bar> \<le> B" "1 \<le> A" "1 \<le> B"
    and "kbound n (A * B) < 2 ^ 31"
  shows "karatsuba_mult a b = Some (map (pmul (coef a) (coef b)) [0..<2 * n - 1])"
  using assms
proof (induction n arbitrary: a b A B rule: less_induct)
  case (less n)
  have prod: "\<bar>x * y\<bar> \<le> A * B" if "x \<in> set a" "y \<in> set b" for x y
    using that less.prems(4) [of x] less.prems(5) [of y] by (auto simp: abs_mult intro: mult_mono)
  have AB: "1 \<le> A * B" using mult_mono [of 1 A 1 B] less.prems(6,7) by simp
  show ?case
  proof (cases "n \<le> 32")
    case True
    have "schoolbook_mult a b = Some (map (pmul (coef a) (coef b)) [0..<length a + length b - 1])"
      using less.prems True AB prod by (intro schoolbook_mult_eq [where c = "A * B"]) (auto simp: kbound.simps)
    then show ?thesis using less.prems(1,2) True
      by (simp add: karatsuba_mult.simps [of a b] KARATSUBA_THRESHOLD_def mult_2)
  next
    case False
    define m where "m = n div 2"
    define N where "N = n - m"
    have mN: "m \<le> N" "N < n" "m < n" "1 \<le> m" "m + N = n" using False by (auto simp: m_def N_def)
    define al where "al = take m a" define ah where "ah = drop m a"
    define bl where "bl = take m b" define bh where "bh = drop m b"
    have len: "length al = m" "length ah = N" "length bl = m" "length bh = N"
      using less.prems(1,2) mN by (simp_all add: al_def ah_def bl_def bh_def)
    have mem: "\<And>x. x \<in> set al \<union> set ah \<Longrightarrow> \<bar>x\<bar> \<le> A" "\<And>x. x \<in> set bl \<union> set bh \<Longrightarrow> \<bar>x\<bar> \<le> B"
      using less.prems(4,5) by (auto simp: al_def ah_def bl_def bh_def dest: in_set_takeD in_set_dropD)
    have kb: "8 * int N * (A * B) < 2 ^ 31" "kbound N (4 * (A * B)) < 2 ^ 31"
      using less.prems(8) False by (simp_all add: kbound.simps [of n] N_def m_def)
    have k0: "kbound m (A * B) < 2 ^ 31" and k2: "kbound N (A * B) < 2 ^ 31"
      using kbound_mono [of m N "A * B" "4 * (A * B)"] kbound_mono [of N N "A * B" "4 * (A * B)"] mN(1) AB kb(2)
      by linarith+
    have z0: "karatsuba_mult al bl = Some (map (pmul (coef al) (coef bl)) [0..<2 * m - 1])"
      using mem k0 less.prems(6,7) mN len by (intro less.IH) auto
    have z2: "karatsuba_mult ah bh = Some (map (pmul (coef ah) (coef bh)) [0..<2 * N - 1])"
      using mem k2 less.prems(6,7) mN len by (intro less.IH) auto
    have "4 * (A * B) \<le> kbound N (4 * (A * B))"
      using kbound_mono [of 1 N "4 * (A * B)" "4 * (A * B)"] mN AB by (simp add: kbound.simps [of "Suc 0"])
    moreover have "A \<le> A * B" "B \<le> A * B" using less.prems(6,7) by simp_all
    ultimately have A2: "2 * A < 2 ^ 31" "2 * B < 2 ^ 31" using kb(2) less.prems(6,7) by linarith+
    obtain as where as: "sum_parts al ah = Some as" "length as = N" "\<forall>x \<in> set as. \<bar>x\<bar> \<le> 2 * A"
      "coef as = (\<lambda>i. coef al i + coef ah i)"
      using sum_parts_eq [of al ah A] len mN(1) mem(1) A2(1) less.prems(6) by auto
    obtain bs where bs: "sum_parts bl bh = Some bs" "length bs = N" "\<forall>x \<in> set bs. \<bar>x\<bar> \<le> 2 * B"
      "coef bs = (\<lambda>i. coef bl i + coef bh i)"
      using sum_parts_eq [of bl bh B] len mN(1) mem(2) A2(2) less.prems(7) by auto
    have "kbound N (2 * A * (2 * B)) < 2 ^ 31" using kb(2) by (simp add: mult.assoc mult.left_commute)
    then have z1: "karatsuba_mult as bs = Some (map (pmul (coef as) (coef bs)) [0..<2 * N - 1])"
      using as bs less.prems(6,7) mN by (intro less.IH [where A = "2 * A" and B = "2 * B"]) auto
    define f0 where "f0 = pmul (coef al) (coef bl)"
    define f1 where "f1 = pmul (coef as) (coef bs)"
    define f2 where "f2 = pmul (coef ah) (coef bh)"
    have ne: "al \<noteq> []" "bl \<noteq> []" "ah \<noteq> []" "bh \<noteq> []" "as \<noteq> []" "bs \<noteq> []"
      using len as(2) bs(2) mN by auto
    define v0 where "v0 = map f0 [0..<2 * m - 1]"
    define v1 where "v1 = map f1 [0..<2 * N - 1]"
    define v2 where "v2 = map f2 [0..<2 * N - 1]"
    have c0: "coef v0 = f0" and c1: "coef v1 = f1" and c2: "coef v2 = f2" unfolding v0_def v1_def v2_def
      by (rule coef_map_upt, use ne len as(2) bs(2) in \<open>simp add: f0_def f1_def f2_def pmul_high\<close>)+
    let ?c = "int N * (A * B)"
    have pb: "\<bar>x * y\<bar> \<le> A * B" if "x \<in> set al \<union> set ah" "y \<in> set bl \<union> set bh" for x y
      using mem(1) [OF that(1)] mem(2) [OF that(2)] by (auto simp: abs_mult intro: mult_mono)
    have "\<bar>x * y\<bar> \<le> 4 * (A * B)" if "x \<in> set as" "y \<in> set bs" for x y
    proof -
      have "\<bar>x\<bar> * \<bar>y\<bar> \<le> (2 * A) * (2 * B)" using as(3) bs(3) that less.prems(6) by (intro mult_mono) auto
      then show ?thesis by (simp add: abs_mult mult.assoc mult.left_commute)
    qed
    then have b1: "\<bar>f1 j\<bar> \<le> 4 * ?c" for j
      using pmul_bound [of as bs "4 * (A * B)" j] AB as(2) by (simp add: f1_def mult.left_commute)
    have b2: "\<bar>f2 j\<bar> \<le> ?c" for j
      using pmul_bound [of ah bh "A * B" j] pb AB len by (simp add: f2_def)
    have "int m * (A * B) \<le> ?c" using mN(1) AB by (intro mult_right_mono) simp_all
    then have b0: "\<bar>f0 j\<bar> \<le> ?c" for j
      using pmul_bound [of al bl "A * B" j] pb AB len by (simp add: f0_def)
    have c8: "8 * ?c < 2 ^ 31" using kb(1) by (simp add: mult.assoc)
    have sh: "\<bar>psh k f0 j\<bar> \<le> ?c" "\<bar>psh k f1 j\<bar> \<le> 4 * ?c" "\<bar>psh k f2 j\<bar> \<le> ?c" for k j
      using b0 b1 b2 by (simp_all add: psh_bound)
    define l where "l = 2 * n - 1"
    have lens: "length v0 \<le> l" using mN by (simp add: l_def v0_def)
    define g0 where "g0 = psh 0 f0"
    define g1 where "g1 j = g0 j + psh (2 * m) f2 j" for j
    define g2 where "g2 j = g1 j + psh m f1 j" for j
    define g3 where "g3 j = g2 j - psh m f0 j" for j
    define g4 where "g4 j = g3 j - psh m f2 j" for j
    have G: "\<bar>g0 j\<bar> \<le> ?c" "\<bar>g1 j\<bar> \<le> 2 * ?c" "\<bar>g2 j\<bar> \<le> 6 * ?c" "\<bar>g3 j\<bar> \<le> 7 * ?c" "\<bar>g4 j\<bar> \<le> 8 * ?c" for j
      using sh(1) [of 0 j] sh [of m j] sh(3) [of "2 * m" j]
      unfolding g4_def g3_def g2_def g1_def g0_def by linarith+
    have G': "\<bar>g0 j\<bar> < 2 ^ 31" "\<bar>g1 j\<bar> < 2 ^ 31" "\<bar>g2 j\<bar> < 2 ^ 31" "\<bar>g3 j\<bar> < 2 ^ 31" "\<bar>g4 j\<bar> < 2 ^ 31" for j
      using G [of j] c8 by linarith+
    have z: "replicate l 0 = map (\<lambda>_. 0 :: int) [0..<l]" by (simp add: map_replicate_const)
    have s0: "accumulate False (+) 0 v0 (replicate l 0) = Some (map g0 [0..<l])"
      using accumulate_map [of False 0 v0 l "(+)" "\<lambda>_. 0"] lens G'(1) by (simp add: z c0 g0_def)
    have s1: "accumulate True (+) (2 * m) v2 (map g0 [0..<l]) = Some (map g1 [0..<l])"
      using accumulate_map [of True "2 * m" v2 l "(+)" g0] G'(2) by (simp add: c2 g1_def)
    have s2: "accumulate True (+) m v1 (map g1 [0..<l]) = Some (map g2 [0..<l])"
      using accumulate_map [of True m v1 l "(+)" g1] G'(3) by (simp add: c1 g2_def)
    have s3: "accumulate True (-) m v0 (map g2 [0..<l]) = Some (map g3 [0..<l])"
      using accumulate_map [of True m v0 l "(-)" g2] G'(4) by (simp add: c0 g3_def)
    have s4: "accumulate True (-) m v2 (map g3 [0..<l]) = Some (map g4 [0..<l])"
      using accumulate_map [of True m v2 l "(-)" g3] G'(5) by (simp add: c2 g4_def)
    have g4: "g4 = pmul (coef a) (coef b)"
    proof
      fix j
      have "pmul (coef a) (coef b) j = pmul (\<lambda>i. coef al i + psh m (coef ah) i) (\<lambda>i. coef bl i + psh m (coef bh) i) j"
        using coef_split [of a m] coef_split [of b m] by (simp only: al_def ah_def bl_def bh_def)
      then show "g4 j = pmul (coef a) (coef b) j"
        by (simp add: karatsuba_identity g4_def g3_def g2_def g1_def g0_def f0_def f1_def f2_def as(4) bs(4))
          (simp add: psh_def)
    qed
    have big: "\<not> n \<le> KARATSUBA_THRESHOLD" "max (length a) (length b) = n" "pad_to n a = a" "pad_to n b = b"
      using False less.prems(1,2) by (simp_all add: KARATSUBA_THRESHOLD_def pad_to_def)
    show ?thesis
      unfolding karatsuba_mult.simps [of a b] Let_def big m_def [symmetric] al_def [symmetric] ah_def [symmetric]
        bl_def [symmetric] bh_def [symmetric] l_def [symmetric]
      by (simp only: big if_False z0 z2 as(1) bs(1) z1 bind.bind_lunit f0_def [symmetric] f1_def [symmetric]
          f2_def [symmetric] v0_def [symmetric] v1_def [symmetric] v2_def [symmetric] s0 s1 s2 s3 s4 g4)
  qed
qed

section \<open>The quotient ring\<close>

text \<open>x^P = x + 1: a polynomial of degree at most 2P - 2 reduced once.\<close>

definition ring_red :: "(nat \<Rightarrow> int) \<Rightarrow> nat \<Rightarrow> int" where
  "ring_red f k = f k + f (sntrup_p + k) + (if k = 0 then 0 else f (sntrup_p + k - 1))"

lemma op_at_eq: "k < length r \<Longrightarrow> \<bar>f (r ! k) v\<bar> < 2 ^ 31 \<Longrightarrow> op_at f k v r = Some (r[k := f (r ! k) v])"
  by (simp add: op_at_def)

lemma ring_fold_eq:
  assumes "length r = sntrup_p" and "k + length vs < sntrup_p"
    and "\<And>v. v \<in> set vs \<Longrightarrow> \<bar>v\<bar> \<le> V" and "0 \<le> V" and "M + 2 * V < 2 ^ 31"
    and "\<bar>r ! k\<bar> \<le> M + V" and "\<And>j. k < j \<Longrightarrow> j < sntrup_p \<Longrightarrow> \<bar>r ! j\<bar> \<le> M"
  shows "ring_fold k vs r
    = Some (map (\<lambda>j. r ! j + psh k (coef vs) j + psh (k + 1) (coef vs) j) [0..<sntrup_p])"
  using assms
proof (induction vs arbitrary: k r)
  case Nil
  have "map (\<lambda>j. r ! j) [0..<sntrup_p] = r" using map_nth [of r] Nil.prems(1) by simp
  then show ?case by (simp add: psh_def coef_def)
next
  case (Cons v vs)
  define r1 where "r1 = r[k := r ! k + v]"
  define r2 where "r2 = r1[k + 1 := r1 ! (k + 1) + v]"
  have v: "\<bar>v\<bar> \<le> V" using Cons.prems(3) by simp
  have k: "k < length r" "k + 1 < length r" "k + 1 < sntrup_p" using Cons.prems(1,2) by simp_all
  have b1: "\<bar>r ! k + v\<bar> < 2 ^ 31" using Cons.prems(5,6) v by linarith
  have b2: "\<bar>r1 ! (k + 1) + v\<bar> \<le> M + V"
    using Cons.prems(7) [of "k + 1"] k v by (simp add: r1_def)
  have "\<bar>r1 ! (k + 1) + v\<bar> < 2 ^ 31" using b2 Cons.prems(4,5) by linarith
  then have step: "ring_fold k (v # vs) r = ring_fold (k + 1) vs r2"
    using k b1 by (simp add: op_at_eq r1_def r2_def)
  have at: "r2 ! j + psh (k + 1) (coef vs) j + psh (k + 2) (coef vs) j
      = r ! j + psh k (coef (v # vs)) j + psh (k + 1) (coef (v # vs)) j" if "j < sntrup_p" for j
    using that k by (auto simp: psh_Cons r2_def r1_def nth_list_update psh_below)
  have "ring_fold (k + 1) vs r2
      = Some (map (\<lambda>j. r2 ! j + psh (k + 1) (coef vs) j + psh (k + 1 + 1) (coef vs) j) [0..<sntrup_p])"
  proof (rule Cons.IH)
    show "\<bar>r2 ! (k + 1)\<bar> \<le> M + V" using b2 k by (simp add: r2_def r1_def)
    show "\<bar>r2 ! j\<bar> \<le> M" if "k + 1 < j" "j < sntrup_p" for j
      using Cons.prems(7) [of j] that by (simp add: r2_def r1_def)
  qed (use Cons.prems in \<open>auto simp: r2_def r1_def\<close>)
  also have "map (\<lambda>j. r2 ! j + psh (k + 1) (coef vs) j + psh (k + 1 + 1) (coef vs) j) [0..<sntrup_p]
      = map (\<lambda>j. r ! j + psh k (coef (v # vs)) j + psh (k + 1) (coef (v # vs)) j) [0..<sntrup_p]"
    using at by (intro map_cong) auto
  finally show ?case unfolding step .
qed

lemma ring_reduce_eq:
  assumes "\<And>j. \<bar>f j\<bar> \<le> V" and "3 * V < 2 ^ 31" and "\<And>j. 2 * sntrup_p - 1 \<le> j \<Longrightarrow> f j = 0"
  shows "ring_reduce (map f [0..<2 * sntrup_p - 1]) = Some (map (ring_red f) [0..<sntrup_p])"
proof -
  let ?r = "map f [0..<sntrup_p]" and ?vs = "map (\<lambda>j. f (sntrup_p + j)) [0..<sntrup_p - 1]"
  have p: "sntrup_p = 761" by (simp add: sntrup_p_def)
  have parts: "drop sntrup_p (map f [0..<2 * sntrup_p - 1]) = ?vs"
    "pad_to sntrup_p (take (min sntrup_p (length (map f [0..<2 * sntrup_p - 1]))) (map f [0..<2 * sntrup_p - 1])) = ?r"
    by (rule nth_equalityI; simp add: p) (simp add: p pad_to_def take_map)
  have V: "0 \<le> V" and f0: "\<bar>f 0\<bar> \<le> 2 * V" using assms(1) [of 0] by linarith+
  have fold: "ring_fold 0 ?vs ?r
      = Some (map (\<lambda>j. ?r ! j + psh 0 (coef ?vs) j + psh (0 + 1) (coef ?vs) j) [0..<sntrup_p])"
    by (rule ring_fold_eq [where V = V and M = V]) (use assms V f0 in \<open>auto simp: p\<close>)
  have c: "coef ?vs = (\<lambda>j. f (sntrup_p + j))"
    using assms(3) by (intro coef_map_upt) (simp add: p)
  have "?r ! j + psh 0 (coef ?vs) j + psh (0 + 1) (coef ?vs) j = ring_red f j" if "j < sntrup_p" for j
    unfolding c using that by (auto simp: psh_def ring_red_def)
  then show ?thesis unfolding ring_reduce_def parts fold by (simp cong: map_cong)
qed

lemma kbound_761: "kbound 761 32768 < 2 ^ 31"
  by (simp add: kbound.simps)

text \<open>The product in Z[x]/(x^P - x - 1), before the coefficients are reduced.\<close>

definition ring_mul :: "int list \<Rightarrow> int list \<Rightarrow> nat \<Rightarrow> int" where
  "ring_mul a b = ring_red (pmul (coef a) (coef b))"

lemma mult_product:
  assumes "length a = sntrup_p" "length b = sntrup_p" and "list_all (\<lambda>x. \<bar>x\<bar> \<le> 32768) a" and "list_all (\<lambda>x. \<bar>x\<bar> \<le> 1) b"
  shows "do { product \<leftarrow> karatsuba_mult a b; ring_reduce product } = Some (map (ring_mul a b) [0..<sntrup_p])"
proof -
  have ab: "\<bar>x * y\<bar> \<le> 32768" if "x \<in> set a" "y \<in> set b" for x y
    using that assms(3,4) mult_mono [of "\<bar>x\<bar>" 32768 "\<bar>y\<bar>" 1] by (simp add: list_all_iff abs_mult)
  have "karatsuba_mult a b = Some (map (pmul (coef a) (coef b)) [0..<2 * sntrup_p - 1])"
    using assms kbound_761
    by (intro karatsuba_eq [where A = 32768 and B = 1]) (auto simp: list_all_iff sntrup_p_def)
  moreover have "ring_reduce (map (pmul (coef a) (coef b)) [0..<2 * sntrup_p - 1])
      = Some (map (ring_red (pmul (coef a) (coef b))) [0..<sntrup_p])"
  proof (rule ring_reduce_eq)
    show "\<bar>pmul (coef a) (coef b) j\<bar> \<le> 761 * 32768" for j
      using pmul_bound [of a b 32768 j] ab assms(1) by (simp add: sntrup_p_def)
    show "pmul (coef a) (coef b) j = 0" if "2 * sntrup_p - 1 \<le> j" for j
    proof (rule pmul_high)
      show "a \<noteq> []" "b \<noteq> []" using assms(1,2) by (auto simp: sntrup_p_def)
    qed (use that assms(1,2) in \<open>simp add: sntrup_p_def\<close>)
  qed simp
  ultimately show ?thesis by (simp add: ring_mul_def)
qed

lemma reduce_mod_q_spec: "\<bar>reduce_mod_q x\<bar> \<le> 2295 \<and> 4591 dvd reduce_mod_q x - x"
proof -
  define r where "r = x smod 4591"
  define c where "c = (if r > 2295 then r - 4591 else if r < - 2295 then r + 4591 else r)"
  have r: "- 4590 \<le> r" "r \<le> 4590" using smod_int_range [of 4591 x] by (simp_all add: r_def)
  have "x = x sdiv 4591 * 4591 + r" by (simp add: r_def sdiv_mult_smod_eq)
  then have "r - x = 4591 * - (x sdiv 4591)" by simp
  then have d: "4591 dvd r - x" by (simp only: dvd_triv_left)
  have c: "\<bar>c\<bar> \<le> 2295" using r by (auto simp: c_def)
  have "4591 dvd c - x"
    using d dvd_add [OF d, of 4591] dvd_diff [OF d, of 4591] by (auto simp: c_def algebra_simps)
  moreover have "reduce_mod_q x = c"
    using c by (auto simp: reduce_mod_q_def c_def [symmetric] r_def [symmetric] Let_def as_signed_def
        intro!: signed_take_bit_int_eq_self)
  ultimately show ?thesis using c by simp
qed

lemma reduce_mod_3_spec:
  "(reduce_mod_3 x = - 1 \<or> reduce_mod_3 x = 0 \<or> reduce_mod_3 x = 1) \<and> 3 dvd reduce_mod_3 x - x"
  unfolding reduce_mod_3_def by presburger

lemma rq_mult_r3_eq:
  assumes "length a = sntrup_p" "length b = sntrup_p" "list_all (\<lambda>x. \<bar>x\<bar> \<le> 32768) a" "list_all (\<lambda>x. \<bar>x\<bar> \<le> 1) b"
  shows "rq_mult_r3 a b = Some (map (\<lambda>k. reduce_mod_q (ring_mul a b k)) [0..<sntrup_p])"
    and "r3_mult_r3 a b = Some (map (\<lambda>k. reduce_mod_3 (ring_mul a b k)) [0..<sntrup_p])"
proof -
  obtain p where "karatsuba_mult a b = Some p" "ring_reduce p = Some (map (ring_mul a b) [0..<sntrup_p])"
    using mult_product [OF assms] by (auto simp: bind_eq_Some_conv)
  then show "rq_mult_r3 a b = Some (map (\<lambda>k. reduce_mod_q (ring_mul a b k)) [0..<sntrup_p])"
    and "r3_mult_r3 a b = Some (map (\<lambda>k. reduce_mod_3 (ring_mul a b k)) [0..<sntrup_p])"
    by (simp_all add: rq_mult_r3_def r3_mult_r3_def reduce_ring_rq_def reduce_ring_r3_def)
qed

section \<open>An overflow in the general product\<close>

lemma sum_parts_prefix:
  assumes "sum_parts lo hi = Some s" and "length lo \<le> length hi"
    and "\<And>i. i < length lo \<Longrightarrow> L \<le> lo ! i" and "\<And>i. i < q \<Longrightarrow> L \<le> hi ! i" and "q \<le> length lo"
  shows "length s = length hi" and "\<And>i. i < q \<Longrightarrow> 2 * L \<le> s ! i"
proof -
  obtain t where t: "those (map (\<lambda>i. fits 32 (lo ! i + hi ! i)) [0..<length lo]) = Some t"
    "s = t @ (if length hi > length lo then drop (length lo) hi else [])"
    using assms(1,2) by (auto simp: sum_parts_def bind_eq_Some_conv Let_def min_def)
  have len: "length t = length lo" using t(1) by (auto simp: those_eq_Some dest: arg_cong [where f = length])
  have at: "t ! i = lo ! i + hi ! i" if "i < length lo" for i
  proof -
    have "map (\<lambda>i. fits 32 (lo ! i + hi ! i)) [0..<length lo] ! i = map Some t ! i"
      using t(1) by (simp add: those_eq_Some)
    then show ?thesis using that len by (simp add: fits_Some)
  qed
  show "length s = length hi" using t(2) len assms(2) by auto
  show "2 * L \<le> s ! i" if "i < q" for i
    using that at [of i] assms(3) [of i] assms(4) [of i] assms(5) len t(2) by (simp add: nth_append)
qed

text \<open>If \<open>n\<close> coefficients split, of which the first \<open>m + q\<close> are at least \<open>L\<close>, the recursion on the
  sums runs on coefficients of which the first \<open>q\<close> are at least \<open>2 * L\<close>.\<close>

lemma karatsuba_sums:
  assumes "karatsuba_mult a b = Some r" and "length a = n" "length b = n" "32 < n"
    and "\<And>i. i < n div 2 + q \<Longrightarrow> L \<le> a ! i" and "\<And>i. i < n div 2 + q \<Longrightarrow> L \<le> b ! i"
    and "q \<le> n div 2"
  shows "\<exists>s t r'. karatsuba_mult s t = Some r' \<and> length s = n - n div 2 \<and> length t = n - n div 2
    \<and> (\<forall>i < q. 2 * L \<le> s ! i) \<and> (\<forall>i < q. 2 * L \<le> t ! i)"
proof -
  have big: "\<not> n \<le> KARATSUBA_THRESHOLD" "max (length a) (length b) = n" "pad_to n a = a" "pad_to n b = b"
    using assms(2-4) by (simp_all add: KARATSUBA_THRESHOLD_def pad_to_def)
  obtain s t r' where st: "sum_parts (take (n div 2) a) (drop (n div 2) a) = Some s"
    "sum_parts (take (n div 2) b) (drop (n div 2) b) = Some t" "karatsuba_mult s t = Some r'"
    using assms(1) unfolding karatsuba_mult.simps [of a b] Let_def big
    by (auto simp: bind_eq_Some_conv big(1))
  have half: "n div 2 \<le> n - n div 2" "n div 2 + q \<le> n" using assms(7) by linarith+
  have lens: "length (take (n div 2) a) = n div 2" "length (drop (n div 2) a) = n - n div 2"
    "length (take (n div 2) b) = n div 2" "length (drop (n div 2) b) = n - n div 2"
    using assms(2,3) by simp_all
  have s: "length s = n - n div 2" "\<And>i. i < q \<Longrightarrow> 2 * L \<le> s ! i"
    using sum_parts_prefix [OF st(1), of L q] lens assms(2,5,7) half by simp_all
  have t: "length t = n - n div 2" "\<And>i. i < q \<Longrightarrow> 2 * L \<le> t ! i"
    using sum_parts_prefix [OF st(2), of L q] lens assms(3,6,7) half by simp_all
  show ?thesis using s t st(3) by blast
qed

lemma karatsuba_base:
  assumes "karatsuba_mult a b = Some r" and "length a = n" "length b = n" "1 \<le> n" "n \<le> 32"
    and "L \<le> a ! 0" "L \<le> b ! 0" "0 < L"
  shows "L * L < 2 ^ 31"
proof -
  obtain x a' y b' where ab: "a = x # a'" "b = y # b'" using assms(2-4) by (cases a; cases b) auto
  have xy: "L \<le> x" "L \<le> y" using assms(6,7) ab by simp_all
  have "schoolbook_mult a b = Some r"
    using assms(1-3,5) by (simp add: karatsuba_mult.simps [of a b] KARATSUBA_THRESHOLD_def)
  then have "fits 32 (x * y) \<noteq> None"
    using ab xy assms(8) by (auto simp: schoolbook_mult_def bind_eq_Some_conv those_eq_Some split: if_splits option.splits)
  then have "x * y < 2 ^ 31" by (auto simp: fits_def split: if_splits)
  moreover have "L * L \<le> x * y" using xy assms(8) by (intro mult_mono) simp_all
  ultimately show ?thesis by simp
qed

section \<open>Properties\<close>

lemma le_kbound: "0 \<le> c \<Longrightarrow> int n * c \<le> kbound n c"
proof (cases "n \<le> 32")
  case False
  assume "0 \<le> c"
  then have "int n * c \<le> 8 * int (n - n div 2) * c" by (intro mult_right_mono) linarith+
  then show ?thesis using False by (simp add: kbound.simps [of n])
qed (simp add: kbound.simps [of n])

text \<open>C30. Karatsuba multiplication is schoolbook multiplication: on operands of the same length up to
  761, one with any \<open>i16\<close> coefficients and one with coefficients in {-1, 0, 1} (the products
  sntrup761 takes, attacker-supplied ciphertexts included), both return the Cauchy product and
  none of the \<open>i32\<close> sums on the way overflows.\<close>

theorem karatsuba_is_schoolbook:
  assumes "length a = n" and "length b = n" and "1 \<le> n" and "n \<le> sntrup_p"
    and "list_all (\<lambda>x. \<bar>x\<bar> \<le> 32768) a" and "list_all (\<lambda>x. \<bar>x\<bar> \<le> 1) b"
  shows "karatsuba_mult a b = Some (map (pmul (coef a) (coef b)) [0..<2 * n - 1])
    \<and> schoolbook_mult a b = karatsuba_mult a b"
proof -
  have lim: "kbound n 32768 < 2 ^ 31"
    using kbound_mono [of n 761 32768 32768] kbound_761 assms(4) by (simp add: sntrup_p_def)
  have k: "karatsuba_mult a b = Some (map (pmul (coef a) (coef b)) [0..<2 * n - 1])"
    using assms lim by (intro karatsuba_eq [where A = 32768 and B = 1]) (auto simp: list_all_iff)
  have prod: "\<bar>x * y\<bar> \<le> 32768" if "x \<in> set a" "y \<in> set b" for x y
    using that assms(5,6) mult_mono [of "\<bar>x\<bar>" 32768 "\<bar>y\<bar>" 1] by (simp add: list_all_iff abs_mult)
  have "schoolbook_mult a b = Some (map (pmul (coef a) (coef b)) [0..<length a + length b - 1])"
    using assms(1-3) prod le_kbound [of 32768 n] lim by (intro schoolbook_mult_eq [where c = 32768]) auto
  then show ?thesis using k assms(1,2) by (simp add: mult_2)
qed

theorem karatsuba_is_schoolbook_witness:
  "schoolbook_mult (replicate 100 (- 32768)) (replicate 100 1)
    = karatsuba_mult (replicate 100 (- 32768)) (replicate 100 1)"
  using karatsuba_is_schoolbook [of "replicate 100 (- 32768)" 100 "replicate 100 1"]
  by (simp add: sntrup_p_def list_all_iff)

text \<open>The multiplications of the KEM are those of the ring Z[x]/(x^761 - x - 1), modulo 4591 and
  modulo 3: on any \<open>i16\<close> operand and any small operand they return, without a panic, the
  centred representatives of the reduced product.\<close>

lemma ring_multiplication:
  assumes "length a = sntrup_p" and "length b = sntrup_p"
    and "list_all (\<lambda>x. \<bar>x\<bar> \<le> 32768) a" and "list_all (\<lambda>x. \<bar>x\<bar> \<le> 1) b"
  shows "\<exists>c d. rq_mult_r3 a b = Some c \<and> rq_poly c \<and> r3_mult_r3 a b = Some d \<and> small_poly d
    \<and> (\<forall>k < sntrup_p. sntrup_q dvd c ! k - ring_mul a b k \<and> 3 dvd d ! k - ring_mul a b k)"
  using rq_mult_r3_eq [OF assms] reduce_mod_q_spec reduce_mod_3_spec
  by (auto simp: rq_poly_def small_poly_def sntrup_q12_def sntrup_q_def)

text \<open>The general product \<open>rq_mult_rq\<close> does not keep its promise on all centred operands: with
  every coefficient 2295 the sums of the recursion reach 73440 and their product overflows
  \<open>i32\<close>, which panics in the release profile as well.\<close>

lemma rq_mult_rq_overflows:
  "rq_poly (replicate 761 2295) \<and> rq_mult_rq (replicate 761 2295) (replicate 761 2295) = None"
proof
  show "rq_poly (replicate 761 2295)" by (simp add: rq_poly_def sntrup_sizes)
  show "rq_mult_rq (replicate 761 2295) (replicate 761 2295) = None"
  proof (rule ccontr)
    assume "rq_mult_rq (replicate 761 2295) (replicate 761 2295) \<noteq> None"
    then obtain r where "karatsuba_mult (replicate 761 2295) (replicate 761 2295) = Some r"
      by (auto simp: rq_mult_rq_def bind_eq_Some_conv)
    from karatsuba_sums [OF this, of 761 380 2295]
    obtain s1 t1 r1 where 1: "karatsuba_mult s1 t1 = Some r1" "length s1 = 381" "length t1 = 381"
      "\<forall>i < 380. 4590 \<le> s1 ! i" "\<forall>i < 380. 4590 \<le> t1 ! i" by auto
    from karatsuba_sums [OF 1(1-3), of 190 4590] 1
    obtain s2 t2 r2 where 2: "karatsuba_mult s2 t2 = Some r2" "length s2 = 191" "length t2 = 191"
      "\<forall>i < 190. 9180 \<le> s2 ! i" "\<forall>i < 190. 9180 \<le> t2 ! i" by auto
    from karatsuba_sums [OF 2(1-3), of 95 9180] 2
    obtain s3 t3 r3 where 3: "karatsuba_mult s3 t3 = Some r3" "length s3 = 96" "length t3 = 96"
      "\<forall>i < 95. 18360 \<le> s3 ! i" "\<forall>i < 95. 18360 \<le> t3 ! i" by auto
    from karatsuba_sums [OF 3(1-3), of 47 18360] 3
    obtain s4 t4 r4 where 4: "karatsuba_mult s4 t4 = Some r4" "length s4 = 48" "length t4 = 48"
      "\<forall>i < 47. 36720 \<le> s4 ! i" "\<forall>i < 47. 36720 \<le> t4 ! i" by auto
    from karatsuba_sums [OF 4(1-3), of 23 36720] 4
    obtain s5 t5 r5 where 5: "karatsuba_mult s5 t5 = Some r5" "length s5 = 24" "length t5 = 24"
      "\<forall>i < 23. 73440 \<le> s5 ! i" "\<forall>i < 23. 73440 \<le> t5 ! i" by auto
    from karatsuba_base [OF 5(1-3), of 73440] 5 show False by auto
  qed
qed

end
