(* ===== verification/Sntrup_Ring.thy ===== *)
theory Sntrup_Ring
  imports Sntrup_Poly
begin

text \<open>
  The ring Z[x]/(x^761 - x - 1) behind sntrup761, on coefficient functions that vanish from 761
  on: multiplication by x as an operator, the product as a combination of its powers, and the
  facts the correctness of the KEM needs (associativity, commutativity, congruences, and the
  bound on products of short polynomials). \<open>ring_mul_eq\<close> links it to the code's product.
\<close>

definition deg_p :: "(nat \<Rightarrow> int) \<Rightarrow> bool" where
  "deg_p f \<longleftrightarrow> (\<forall>k \<ge> sntrup_p. f k = 0)"

definition mulx :: "(nat \<Rightarrow> int) \<Rightarrow> nat \<Rightarrow> int" where
  "mulx v k = (if k < sntrup_p then
     (if k = 0 then v (sntrup_p - 1) else if k = 1 then v 0 + v (sntrup_p - 1) else v (k - 1)) else 0)"

definition rmul :: "(nat \<Rightarrow> int) \<Rightarrow> (nat \<Rightarrow> int) \<Rightarrow> nat \<Rightarrow> int" where
  "rmul a b k = (\<Sum>i < sntrup_p. a i * (mulx ^^ i) b k)"

lemma sntrup_p_pos: "2 < sntrup_p"
  by (simp add: sntrup_p_def)

lemma deg_p_coef [simp]: "length xs = sntrup_p \<Longrightarrow> deg_p (coef xs)"
  by (simp add: deg_p_def coef_def)

lemma deg_p_mulx [simp]: "deg_p (mulx v)"
  by (simp add: deg_p_def mulx_def)

lemma deg_p_mulx_pow: "deg_p b \<Longrightarrow> deg_p ((mulx ^^ i) b)"
  by (cases i) simp_all

lemma deg_p_rmul [simp]: "deg_p b \<Longrightarrow> deg_p (rmul a b)"
  using deg_p_mulx_pow [of b] by (simp add: deg_p_def rmul_def)

section \<open>Powers of x are reduced shifts\<close>

lemma psh_Suc: "psh (Suc i) f (Suc j) = psh i f j" "psh (Suc i) f 0 = 0"
  by (simp_all add: psh_def)

lemma mulx_pow_eq:
  "deg_p b \<Longrightarrow> i < sntrup_p \<Longrightarrow> (mulx ^^ i) b = (\<lambda>k. if k < sntrup_p then ring_red (psh i b) k else 0)"
proof (induction i)
  case 0
  then show ?case by (auto simp: fun_eq_iff deg_p_def ring_red_def psh_def)
next
  case (Suc i)
  let ?f = "psh i b"
  obtain n where p: "sntrup_p = Suc (Suc n)" using sntrup_p_pos by (metis Suc_less_eq gr0_conv_Suc less_trans_Suc numeral_2_eq_2 zero_less_Suc less_imp_Suc_add)
  have top: "?f (sntrup_p + sntrup_p - 1) = 0" "?f (sntrup_p + sntrup_p - 2) = 0"
    using Suc.prems by (auto simp: psh_def deg_p_def)
  have ih: "(mulx ^^ i) b = (\<lambda>k. if k < sntrup_p then ring_red ?f k else 0)" using Suc by simp
  show ?case
  proof
    fix k
    show "(mulx ^^ Suc i) b k = (if k < sntrup_p then ring_red (psh (Suc i) b) k else 0)"
    proof (cases "k < sntrup_p")
      case True
      consider "k = 0" | "k = 1" | j where "k = Suc (Suc j)" by (metis One_nat_def old.nat.exhaust)
      then show ?thesis
      proof cases
        case 1
        then show ?thesis using top by (simp add: ih mulx_def ring_red_def p psh_Suc)
      next
        case 2
        then show ?thesis using top by (simp add: ih mulx_def ring_red_def p psh_Suc)
      next
        case 3
        then show ?thesis using True by (simp add: ih mulx_def ring_red_def psh_Suc)
      qed
    qed (simp add: mulx_def)
  qed
qed

lemma pmul_as_shifts: "deg_p a \<Longrightarrow> pmul a b j = (\<Sum>i < sntrup_p. a i * psh i b j)"
proof -
  assume a: "deg_p a"
  have "pmul a b j = (\<Sum>i\<in>{..j} \<inter> {..<sntrup_p}. a i * b (j - i))"
    unfolding pmul_def by (rule sum.mono_neutral_right) (use a in \<open>auto simp: deg_p_def not_less\<close>)
  also have "\<dots> = (\<Sum>i < sntrup_p. a i * psh i b j)"
    by (rule sum.mono_neutral_cong_left) (auto simp: psh_def)
  finally show ?thesis .
qed

lemma ring_red_sum: "ring_red (\<lambda>j. \<Sum>i<n. a i * f i j) k = (\<Sum>i<n. a i * ring_red (f i) k)"
  by (simp add: ring_red_def distrib_left sum.distrib)

lemma ring_red_pmul: "deg_p a \<Longrightarrow> deg_p b \<Longrightarrow> k < sntrup_p \<Longrightarrow> ring_red (pmul a b) k = rmul a b k"
proof -
  assume a: "deg_p a" "deg_p b" "k < sntrup_p"
  have "ring_red (pmul a b) k = ring_red (\<lambda>j. \<Sum>i < sntrup_p. a i * psh i b j) k"
    using pmul_as_shifts [OF a(1), of b] by presburger
  then show ?thesis using a mulx_pow_eq [OF a(2)] by (simp add: ring_red_sum rmul_def)
qed

text \<open>The product the code computes is the product of the ring.\<close>

lemma ring_mul_eq:
  assumes "length a = sntrup_p" and "length b = sntrup_p" and "k < sntrup_p"
  shows "ring_mul a b k = rmul (coef a) (coef b) k"
  using assms by (simp add: ring_mul_def ring_red_pmul)

section \<open>Ring laws\<close>

lemma rmul_commute: "deg_p a \<Longrightarrow> deg_p b \<Longrightarrow> rmul a b = rmul b a"
proof
  fix k assume d: "deg_p a" "deg_p b"
  show "rmul a b k = rmul b a k"
  proof (cases "k < sntrup_p")
    case True
    then show ?thesis using d by (metis pmul_commute ring_red_pmul)
  next
    case False
    then show ?thesis using d deg_p_rmul [of b a] deg_p_rmul [of a b] by (simp add: deg_p_def)
  qed
qed

lemma mulx_add: "mulx (\<lambda>k. f k + g k) = (\<lambda>k. mulx f k + mulx g k)"
  by (auto simp: fun_eq_iff mulx_def)

lemma mulx_scale: "mulx (\<lambda>k. c * f k) = (\<lambda>k. c * mulx f k)"
  by (auto simp: fun_eq_iff mulx_def distrib_left)

lemma mulx_sum: "mulx (\<lambda>k. \<Sum>i<n. a i * f i k) = (\<lambda>k. \<Sum>i<n. a i * mulx (f i) k)"
  by (auto simp: fun_eq_iff mulx_def distrib_left sum.distrib)

lemma rmul_sum_left: "rmul (\<lambda>k. \<Sum>i<n. a i * f i k) c = (\<lambda>k. \<Sum>i<n. a i * rmul (f i) c k)"
proof
  fix k
  have "rmul (\<lambda>k. \<Sum>i<n. a i * f i k) c k = (\<Sum>j < sntrup_p. \<Sum>i<n. a i * (f i j * (mulx ^^ j) c k))"
    by (simp add: rmul_def sum_distrib_right mult.assoc)
  also have "\<dots> = (\<Sum>i<n. \<Sum>j < sntrup_p. a i * (f i j * (mulx ^^ j) c k))" by (rule sum.swap)
  finally show "rmul (\<lambda>k. \<Sum>i<n. a i * f i k) c k = (\<Sum>i<n. a i * rmul (f i) c k)"
    by (simp add: rmul_def sum_distrib_left)
qed

text \<open>x^P = x + 1.\<close>

lemma mulx_pow_p:
  assumes "deg_p c"
  shows "(mulx ^^ sntrup_p) c = (\<lambda>k. mulx c k + c k)"
proof
  fix k
  obtain n where p: "sntrup_p = Suc (Suc (Suc n))"
    using sntrup_p_pos by (metis Suc_less_eq less_imp_Suc_add numeral_2_eq_2 add_Suc add_0)
  have c0: "c j = 0" if "sntrup_p \<le> j" for j using assms that by (simp add: deg_p_def)
  have "(mulx ^^ (sntrup_p - 1)) c = (\<lambda>k. if k < sntrup_p then ring_red (psh (sntrup_p - 1) c) k else 0)"
    using assms by (rule mulx_pow_eq) (simp add: p)
  moreover have "sntrup_p - 1 = Suc (Suc n)" by (simp add: p)
  ultimately have e: "(mulx ^^ Suc (Suc n)) c = (\<lambda>k. if k < sntrup_p then ring_red (psh (Suc (Suc n)) c) k else 0)"
    by metis
  define v where "v = (mulx ^^ Suc (Suc n)) c"
  have v: "v j = (if j < sntrup_p then ring_red (psh (Suc (Suc n)) c) j else 0)" for j
    using e by (simp only: v_def)
  have "(mulx ^^ sntrup_p) c = mulx v" by (simp add: p v_def)
  moreover have "mulx v k = mulx c k + c k"
  proof -
    consider "k = 0" | "k = 1" | j where "k = Suc (Suc j)" by (metis One_nat_def old.nat.exhaust)
    then show ?thesis
      using c0 [of k] c0 [of sntrup_p] c0 [of "3 + n"] by cases (auto simp: v mulx_def ring_red_def psh_def p)
  qed
  ultimately show "(mulx ^^ sntrup_p) c k = mulx c k + c k" by simp
qed

lemma rmul_mulx_left:
  assumes "deg_p a" and "deg_p c"
  shows "rmul (mulx a) c = mulx (rmul a c)"
proof
  fix k
  obtain n where p: "sntrup_p = Suc (Suc n)"
    using sntrup_p_pos by (metis Suc_less_eq less_imp_Suc_add numeral_2_eq_2 add_Suc add_0)
  let ?X = "\<lambda>i. (mulx ^^ i) c k"
  have "rmul (mulx a) c k = mulx a 0 * ?X 0 + (mulx a 1 * ?X 1 + (\<Sum>i<n. mulx a (Suc (Suc i)) * ?X (Suc (Suc i))))"
    by (simp only: rmul_def p sum.lessThan_Suc_shift) simp
  also have "(\<Sum>i<n. mulx a (Suc (Suc i)) * ?X (Suc (Suc i))) = (\<Sum>i<n. a (Suc i) * ?X (Suc (Suc i)))"
    by (rule sum.cong) (auto simp: mulx_def p)
  also have "mulx a 0 = a (Suc n)" by (simp add: mulx_def p)
  also have "mulx a 1 = a 0 + a (Suc n)" by (simp add: mulx_def p)
  finally have l: "rmul (mulx a) c k = a (Suc n) * ?X 0 + ((a 0 + a (Suc n)) * ?X 1
      + (\<Sum>i<n. a (Suc i) * ?X (Suc (Suc i))))" .
  have "mulx (rmul a c) = (\<lambda>k. \<Sum>i < sntrup_p. a i * mulx ((mulx ^^ i) c) k)"
    using mulx_sum [where n = sntrup_p and a = a and f = "\<lambda>i. (mulx ^^ i) c"] unfolding rmul_def .
  then have "mulx (rmul a c) k = (\<Sum>i<Suc n. a i * ?X (Suc i)) + a (Suc n) * ?X sntrup_p"
    by (simp add: p)
  also have "(\<Sum>i<Suc n. a i * ?X (Suc i)) = a 0 * ?X 1 + (\<Sum>i<n. a (Suc i) * ?X (Suc (Suc i)))"
    by (simp only: sum.lessThan_Suc_shift One_nat_def)
  also have "?X sntrup_p = ?X 1 + ?X 0" using mulx_pow_p [OF assms(2)] by simp
  finally show "rmul (mulx a) c k = mulx (rmul a c) k" unfolding l by (simp add: algebra_simps)
qed

lemma rmul_mulx_pow_left: "deg_p a \<Longrightarrow> deg_p c \<Longrightarrow> rmul ((mulx ^^ i) a) c = (mulx ^^ i) (rmul a c)"
  by (induction i) (simp_all add: rmul_mulx_left deg_p_mulx_pow)

lemma rmul_assoc:
  assumes "deg_p a" "deg_p b" "deg_p c"
  shows "rmul (rmul a b) c = rmul a (rmul b c)"
proof -
  have "rmul a b = (\<lambda>k. \<Sum>i < sntrup_p. a i * (mulx ^^ i) b k)" by (rule ext) (simp add: rmul_def)
  then have "rmul (rmul a b) c = rmul (\<lambda>k. \<Sum>i < sntrup_p. a i * (mulx ^^ i) b k) c" by (simp only:)
  also have "\<dots> = (\<lambda>k. \<Sum>i < sntrup_p. a i * rmul ((mulx ^^ i) b) c k)" by (rule rmul_sum_left)
  finally show ?thesis using rmul_mulx_pow_left [OF assms(2,3)] by (simp add: fun_eq_iff rmul_def [of a])
qed

text \<open>Bilinearity, congruences and the unit.\<close>

lemma rmul_add_left: "rmul (\<lambda>k. f k + g k) c k = rmul f c k + rmul g c k"
  by (simp add: rmul_def distrib_right sum.distrib)

lemma rmul_diff_left: "rmul (\<lambda>k. f k - g k) c k = rmul f c k - rmul g c k"
  by (simp add: rmul_def left_diff_distrib sum_subtractf)

lemma rmul_scale_left: "rmul (\<lambda>k. n * f k) c k = n * rmul f c k"
  by (simp add: rmul_def sum_distrib_left mult.assoc)

lemma rmul_cong_left:
  assumes "\<And>k. k < sntrup_p \<Longrightarrow> n dvd f k - g k"
  shows "n dvd rmul f c k - rmul g c k"
proof -
  have "rmul f c k - rmul g c k = (\<Sum>i < sntrup_p. (f i - g i) * (mulx ^^ i) c k)"
    by (simp add: rmul_def left_diff_distrib sum_subtractf)
  also have "n dvd \<dots>" using assms by (intro dvd_sum) simp
  finally show ?thesis .
qed

lemma rmul_cong_right:
  assumes "deg_p f" "deg_p g" "deg_p c" and "\<And>k. k < sntrup_p \<Longrightarrow> n dvd f k - g k"
  shows "n dvd rmul c f k - rmul c g k"
  using rmul_cong_left [of n f g c k] assms by (simp add: rmul_commute)

definition rone :: "nat \<Rightarrow> int" where
  "rone k = (if k = 0 then 1 else 0)"

lemma deg_p_rone [simp]: "deg_p rone"
  by (simp add: deg_p_def rone_def sntrup_p_def)

lemma rmul_rone_left: "rmul rone a k = a k"
proof -
  have "rmul rone a k = (\<Sum>i\<in>{0::nat}. a k)"
    unfolding rmul_def by (rule sum.mono_neutral_cong_right) (auto simp: rone_def sntrup_p_def)
  then show ?thesis by simp
qed

section \<open>Products of short polynomials stay small\<close>

lemma mulx_pow_bound:
  assumes "deg_p b" and "\<And>k. \<bar>b k\<bar> \<le> 1" and "i < sntrup_p"
  shows "\<bar>(mulx ^^ i) b k\<bar> \<le> 2"
proof (cases "k < sntrup_p")
  case True
  have z: "b j = 0" if "sntrup_p \<le> j" for j using assms(1) that by (simp add: deg_p_def)
  have "\<bar>ring_red (psh i b) k\<bar> \<le> 2"
  proof (cases "i < k")
    case l: True
    then have "psh i b (sntrup_p + k) = 0" "psh i b (sntrup_p + k - 1) = 0"
      using z by (auto simp: psh_def)
    then show ?thesis using assms(2) [of "k - i"] l by (simp add: ring_red_def psh_def)
  next
    case False
    show ?thesis
    proof (cases "i = k")
      case True
      then have "psh i b (sntrup_p + k) = 0" using z by (simp add: psh_def)
      then show ?thesis using assms(2) [of 0] assms(2) [of "sntrup_p - 1"] True
        by (auto simp: ring_red_def psh_def)
    next
      case ne: False
      then have "psh i b k = 0" using False by (simp add: psh_def)
      moreover have "\<bar>psh i b (sntrup_p + k)\<bar> \<le> 1" "\<bar>psh i b (sntrup_p + k - 1)\<bar> \<le> 1"
        using assms(2) by (auto simp: psh_def)
      ultimately show ?thesis by (cases "k = 0") (auto simp: ring_red_def)
    qed
  qed
  then show ?thesis using mulx_pow_eq [OF assms(1,3)] True by simp
next
  case False
  then show ?thesis using deg_p_mulx_pow [OF assms(1), of i] by (simp add: deg_p_def)
qed

lemma rmul_bound:
  assumes "deg_p b" and "\<And>k. \<bar>b k\<bar> \<le> 1" and "\<And>k. \<bar>a k\<bar> \<le> 1"
  shows "\<bar>rmul a b k\<bar> \<le> 2 * int (card {i. i < sntrup_p \<and> a i \<noteq> 0})"
proof -
  have "rmul a b k = (\<Sum>i\<in>{i. i < sntrup_p \<and> a i \<noteq> 0}. a i * (mulx ^^ i) b k)"
    unfolding rmul_def by (rule sum.mono_neutral_right) auto
  then have "\<bar>rmul a b k\<bar> \<le> (\<Sum>i\<in>{i. i < sntrup_p \<and> a i \<noteq> 0}. \<bar>a i * (mulx ^^ i) b k\<bar>)"
    by (simp only: sum_abs)
  also have "\<dots> \<le> (\<Sum>i\<in>{i. i < sntrup_p \<and> a i \<noteq> 0}. 2)"
  proof (rule sum_mono)
    fix i assume "i \<in> {i. i < sntrup_p \<and> a i \<noteq> 0}"
    then have "\<bar>a i\<bar> * \<bar>(mulx ^^ i) b k\<bar> \<le> 1 * 2"
      using assms(3) mulx_pow_bound [OF assms(1,2)] by (intro mult_mono) auto
    then show "\<bar>a i * (mulx ^^ i) b k\<bar> \<le> 2" by (simp add: abs_mult)
  qed
  finally show ?thesis by simp
qed

end
