(* ===== verification/Crypto_Primitives.thy ===== *)
theory Crypto_Primitives
  imports Crypto_Error
begin

text \<open>
  The cryptographic functions that live outside the repository (the crates blake3, sha2,
  chacha20poly1305, ed448-goldilocks-plus), as one record of parameters that every definition
  using them takes, and their documented laws \<open>prims_ok\<close>: output lengths, an AEAD that opens
  what it sealed, and a Diffie-Hellman that commutes. No secrecy is assumed anywhere. The rest
  are the thin wrappers of \<open>trelis-primitives/src/blake3_kdf.rs\<close> and its context strings.
\<close>

record primitives =
  sha512 :: "bytes \<Rightarrow> bytes"
  blake3_hash :: "bytes \<Rightarrow> bytes"
  blake3_derive_key :: "string \<Rightarrow> bytes \<Rightarrow> bytes"
  blake3_keyed_hash :: "bytes \<Rightarrow> bytes \<Rightarrow> bytes"
  blake3_derive_xof :: "string \<Rightarrow> bytes \<Rightarrow> nat \<Rightarrow> bytes"  \<comment> \<open>context, input, output length\<close>
  xchacha_seal :: "bytes \<Rightarrow> bytes \<Rightarrow> bytes \<Rightarrow> bytes \<Rightarrow> bytes option"  \<comment> \<open>key, nonce, message, aad\<close>
  xchacha_open :: "bytes \<Rightarrow> bytes \<Rightarrow> bytes \<Rightarrow> bytes \<Rightarrow> bytes option"
  mont_mul :: "bytes \<Rightarrow> bytes \<Rightarrow> bytes"  \<comment> \<open>Montgomery point, scalar\<close>
  mont_generator :: bytes
  mont_low_order :: "bytes \<Rightarrow> bool"

text \<open>Clamping as in RFC 7748, which the X448 wrapper applies to every secret.\<close>

definition x448_clamped :: "bytes \<Rightarrow> bool" where
  "x448_clamped s \<longleftrightarrow> length s = 56 \<and> s ! 0 AND 3 = 0 \<and> s ! 55 AND 0x80 = 0x80"

definition prims_ok :: "primitives \<Rightarrow> bool" where
  "prims_ok p \<longleftrightarrow>
     (\<forall>x. length (sha512 p x) = 64)
   \<and> (\<forall>x. length (blake3_hash p x) = 32)
   \<and> (\<forall>c x. length (blake3_derive_key p c x) = 32)
   \<and> (\<forall>k x. length (blake3_keyed_hash p k x) = 32)
   \<and> (\<forall>c x n. length (blake3_derive_xof p c x n) = n)
   \<and> (\<forall>k n m a c. xchacha_seal p k n m a = Some c \<longrightarrow>
        length c = length m + 16 \<and> xchacha_open p k n c a = Some m)
   \<and> (\<forall>P s. length (mont_mul p P s) = 56)
   \<and> (\<forall>a b. mont_mul p (mont_mul p (mont_generator p) a) b
        = mont_mul p (mont_mul p (mont_generator p) b) a)
   \<and> (\<forall>s b. x448_clamped s \<longrightarrow> mont_low_order p (mont_mul p (mont_generator p) s) \<longrightarrow>
        mont_mul p (mont_mul p (mont_generator p) b) s = replicate 56 0)"

lemma prims_lengths [simp]:
  assumes "prims_ok p"
  shows "length (sha512 p x) = 64" "length (blake3_hash p x) = 32"
    "length (blake3_derive_key p c x) = 32" "length (blake3_keyed_hash p k x) = 32"
    "length (blake3_derive_xof p c x n) = n" "length (mont_mul p P s) = 56"
  using assms unfolding prims_ok_def by blast+

lemma seal_open:
  assumes "prims_ok p" and "xchacha_seal p k n m a = Some c"
  shows "length c = length m + 16" and "xchacha_open p k n c a = Some m"
  using assms unfolding prims_ok_def by blast+

lemma dh_commutes:
  assumes "prims_ok p"
  shows "mont_mul p (mont_mul p (mont_generator p) a) b = mont_mul p (mont_mul p (mont_generator p) b) a"
  using assms unfolding prims_ok_def by blast

text \<open>The generator has prime order, so a secret whose public key has low order annihilates every public
  key, and the point at infinity is encoded as zeros.\<close>

lemma low_order_secret:
  assumes "prims_ok p" and "x448_clamped s" and "mont_low_order p (mont_mul p (mont_generator p) s)"
  shows "mont_mul p (mont_mul p (mont_generator p) b) s = replicate 56 0"
  using assms unfolding prims_ok_def by blast

text \<open>A concrete instance of the laws, for the witnesses: constant hashes, an AEAD whose tag is
  the first half of the key, and a group with one element.\<close>

definition toy_prims :: primitives where
  "toy_prims = \<lparr>sha512 = (\<lambda>_. replicate 64 7), blake3_hash = (\<lambda>_. replicate 32 1),
     blake3_derive_key = (\<lambda>c _. replicate 32 (of_nat (length c))),
     blake3_keyed_hash = (\<lambda>_ _. replicate 32 2), blake3_derive_xof = (\<lambda>_ _ n. replicate n 3),
     xchacha_seal = (\<lambda>k n m a. Some (m @ take 16 (k @ replicate 16 0))),
     xchacha_open = (\<lambda>k n c a. if length c \<ge> 16 \<and> drop (length c - 16) c = take 16 (k @ replicate 16 0)
       then Some (take (length c - 16) c) else None),
     mont_mul = (\<lambda>_ _. replicate 56 5), mont_generator = replicate 56 5,
     mont_low_order = (\<lambda>_. False)\<rparr>"

lemma toy_prims_ok: "prims_ok toy_prims"
  by (auto simp: prims_ok_def toy_prims_def min_def)

section \<open>The BLAKE3 wrappers\<close>

definition derive_key :: "primitives \<Rightarrow> string \<Rightarrow> bytes \<Rightarrow> bytes" where
  "derive_key p context input = blake3_derive_key p context input"

definition b3hash :: "primitives \<Rightarrow> bytes \<Rightarrow> bytes" where
  "b3hash p input = blake3_hash p input"

definition keyed_hash :: "primitives \<Rightarrow> bytes \<Rightarrow> bytes \<Rightarrow> bytes" where
  "keyed_hash p key input = blake3_keyed_hash p key input"

text \<open>\<open>format!("{context_prefix}-{i}")\<close> for \<open>i in 0..count\<close>.\<close>

definition derive_multiple_keys :: "primitives \<Rightarrow> string \<Rightarrow> bytes \<Rightarrow> nat \<Rightarrow> bytes list" where
  "derive_multiple_keys p context_prefix input count =
     map (\<lambda>i. derive_key p (context_prefix @ ''-'' @ dec_usize i) input) [0..<count]"

definition HYBRID_KEM_CONTEXT :: string where "HYBRID_KEM_CONTEXT = ''trelis-hybrid-kem-v1''"
definition HYBRID_KEM_V2_CONTEXT :: string where "HYBRID_KEM_V2_CONTEXT = ''trelis-hybrid-kem-v2''"
definition RATCHET_ROOT_CONTEXT :: string where "RATCHET_ROOT_CONTEXT = ''trelis-pq-ratchet-root-v1''"
definition RATCHET_MESSAGE_CONTEXT :: string where "RATCHET_MESSAGE_CONTEXT = ''trelis-pq-ratchet-message-v1''"
definition RATCHET_NONCE_CONTEXT :: string where "RATCHET_NONCE_CONTEXT = ''trelis-ratchet-nonce-v1''"
definition RATCHET_INIT_CONTEXT :: string where "RATCHET_INIT_CONTEXT = ''trelis-ratchet-init-v1''"
definition AEAD_COMMIT_CONTEXT :: string where "AEAD_COMMIT_CONTEXT = ''trelis-aead-commit-v1''"

lemma wrapper_lengths [simp]:
  assumes "prims_ok p"
  shows "length (derive_key p c x) = 32" "length (b3hash p x) = 32" "length (keyed_hash p k x) = 32"
  using assms by (simp_all add: derive_key_def b3hash_def keyed_hash_def)

end
