(* ===== verification/Sntrup_Kem.thy ===== *)
theory Sntrup_Kem
  imports Sntrup_Ring Crypto_Primitives
begin

text \<open>
  The sntrup761 KEM (\<open>trelis-primitives/src/sntrup761/pure_rust.rs\<close>): the hashes, key and
  ciphertext parsing, encapsulation and decapsulation with implicit rejection. Key generation
  is in \<open>Sntrup_Keygen\<close>; \<open>sntrup_keypair\<close> says what it establishes. The random short
  polynomials \<open>short_random\<close> draws come from the crate ntrulp and are an argument of
  \<open>sntrup_encapsulate\<close>: draw \<open>k\<close> is the \<open>k\<close>-th attempt, \<open>None\<close> when the crate fails.
\<close>

section \<open>Hashes\<close>

definition hash_with_prefix :: "primitives \<Rightarrow> u8 \<Rightarrow> bytes \<Rightarrow> bytes" where
  "hash_with_prefix p prefix data = take 32 (sha512 p (prefix # data))"

definition hash_r_encoding :: "primitives \<Rightarrow> bytes \<Rightarrow> bytes" where
  "hash_r_encoding p r_enc = hash_with_prefix p 3 r_enc"

definition hash_pk_cache :: "primitives \<Rightarrow> bytes \<Rightarrow> bytes" where
  "hash_pk_cache p pk = hash_with_prefix p 4 pk"

definition hash_confirm :: "primitives \<Rightarrow> bytes \<Rightarrow> bytes \<Rightarrow> bytes" where
  "hash_confirm p r_hash cache = hash_with_prefix p 2 (r_hash @ cache)"

definition hash_session :: "primitives \<Rightarrow> u8 \<Rightarrow> bytes \<Rightarrow> bytes \<Rightarrow> bytes" where
  "hash_session p prefix r_hash ciphertext = take 32 (sha512 p (prefix # r_hash @ ciphertext))"

section \<open>Keys and ciphertexts\<close>

definition W :: nat where "W = 286"
definition MAX_KEYGEN_ATTEMPTS :: nat where "MAX_KEYGEN_ATTEMPTS = 10000"

definition sntrup_sk_from_bytes :: "bytes \<Rightarrow> bytes result" where
  "sntrup_sk_from_bytes bs =
     (if length bs \<noteq> SECRET_KEY_BYTES then Inl (InvalidKeyLength SECRET_KEY_BYTES (length bs)) else Inr bs)"

definition sntrup_sk_public_key :: "bytes \<Rightarrow> bytes" where
  "sntrup_sk_public_key sk = sub_slice (2 * SMALL_BYTES) (2 * SMALL_BYTES + RQ_BYTES) sk"

definition sntrup_pk_from_bytes :: "bytes \<Rightarrow> bytes result" where
  "sntrup_pk_from_bytes bs =
     (if length bs \<noteq> RQ_BYTES then Inl (InvalidKeyLength RQ_BYTES (length bs))
      else if list_all (\<lambda>b. b = 0) bs then Inl DecapsulationFailed else Inr bs)"

definition sntrup_ct_from_bytes :: "bytes \<Rightarrow> bytes result" where
  "sntrup_ct_from_bytes bs =
     (if length bs \<noteq> CIPHERTEXT_BYTES then Inl (InvalidCiphertextLength CIPHERTEXT_BYTES (length bs))
      else Inr bs)"

definition round_rq :: "int list \<Rightarrow> int list" where
  "round_rq cs = map (\<lambda>i. round3 (cs ! i)) [0..<sntrup_p]"

section \<open>Encapsulation\<close>

definition weight :: "int list \<Rightarrow> nat" where
  "weight r = length (filter (\<lambda>c. c \<noteq> 0) r)"

text \<open>The loop that waits for a draw of weight \<open>W\<close>; \<open>n\<close> attempts are left, \<open>k\<close> were made.\<close>

fun pick_short :: "nat \<Rightarrow> (nat \<Rightarrow> int list option) \<Rightarrow> nat \<Rightarrow> int list result" where
  "pick_short 0 draws k = Inl KeyGenerationFailed"
| "pick_short (Suc n) draws k =
     (case draws k of
        Some short \<Rightarrow>
          let r_i8 = map (\<lambda>i. as_signed 8 (short ! i)) [0..<sntrup_p] in
          if weight r_i8 = W then Inr r_i8 else pick_short n draws (k + 1)
      | None \<Rightarrow> pick_short n draws (k + 1))"

text \<open>Everything after the draw: the ciphertext body, the confirmation and the shared secret.\<close>

definition sntrup_encapsulate_with :: "primitives \<Rightarrow> bytes \<Rightarrow> int list \<Rightarrow> (bytes \<times> bytes) option" where
  "sntrup_encapsulate_with p pk r = do {
     h \<leftarrow> rq_decode pk;
     hr \<leftarrow> rq_mult_r3 h r;
     let c_bytes = rounded_encode (round_rq hr);
     r_enc \<leftarrow> small_encode r;
     let r_hash = hash_r_encoding p r_enc;
     let cache = hash_pk_cache p pk;
     let confirm = hash_confirm p r_hash cache;
     let ct = c_bytes @ confirm;
     Some (hash_session p 1 r_hash ct, ct) }"

definition sntrup_encapsulate ::
  "primitives \<Rightarrow> (nat \<Rightarrow> int list option) \<Rightarrow> bytes \<Rightarrow> (bytes \<times> bytes) outcome" where
  "sntrup_encapsulate p draws pk =
     bind_out (of_result (pick_short MAX_KEYGEN_ATTEMPTS draws 0)) (\<lambda>r.
     or_panic (sntrup_encapsulate_with p pk r))"

section \<open>Decapsulation\<close>

text \<open>\<open>cf.wrapping_mul(3)\<close> and the reduction after it.\<close>

definition scale_e :: "int \<Rightarrow> int" where
  "scale_e c =
     (let v = as_signed 16 (c * 3) in
      as_signed 16 (if v > 2295 then v - 4591 else if v < - 2295 then v + 4591 else v))"

text \<open>\<open>((e as i32 % 3) + 3) % 3\<close>, where \<open>%\<close> truncates.\<close>

definition e_mod_3 :: "int \<Rightarrow> int" where
  "e_mod_3 e =
     (let r = (e smod 3 + 3) smod 3 in if r = 0 then 0 else if r = 1 then 1 else - 1)"

text \<open>\<open>r'\<close>, the polynomial the ciphertext body decrypts to.\<close>

definition sntrup_decrypt :: "bytes \<Rightarrow> bytes \<Rightarrow> int list option" where
  "sntrup_decrypt sk ct_body = do {
     let f = small_decode (sub_slice 0 SMALL_BYTES sk);
     let ginv = small_decode (sub_slice SMALL_BYTES (2 * SMALL_BYTES) sk);
     c \<leftarrow> rounded_decode ct_body;
     cf \<leftarrow> rq_mult_r3 c f;
     let e = map scale_e cf;
     r3_mult_r3 (map e_mod_3 e) ginv }"

definition sntrup_decapsulate :: "primitives \<Rightarrow> bytes \<Rightarrow> bytes \<Rightarrow> bytes option" where
  "sntrup_decapsulate p sk ct = do {
     let pk = sub_slice (2 * SMALL_BYTES) (2 * SMALL_BYTES + RQ_BYTES) sk;
     let rho = sub_slice (2 * SMALL_BYTES + RQ_BYTES) (2 * SMALL_BYTES + RQ_BYTES + SMALL_BYTES) sk;
     let cache = drop (SECRET_KEY_BYTES - 32) sk;
     let ct_body = sub_slice 0 ROUNDED_BYTES ct;
     let confirm = drop ROUNDED_BYTES ct;
     r' \<leftarrow> sntrup_decrypt sk ct_body;
     r_enc \<leftarrow> small_encode r';
     let r_hash = hash_r_encoding p r_enc;
     h \<leftarrow> rq_decode pk;
     hr \<leftarrow> rq_mult_r3 h r';
     let c_bytes' = rounded_encode (round_rq hr);
     let confirm' = hash_confirm p r_hash cache;
     let valid = (ct_body = c_bytes' \<and> confirm = confirm');
     let ss_success = hash_session p 1 r_hash ct;
     let ss_reject = hash_session p 0 (hash_r_encoding p rho) ct;
     Some (if valid then ss_success else ss_reject) }"

text \<open>The secret key as \<open>generate_from_rng\<close> assembles it.\<close>

definition assemble_sk :: "primitives \<Rightarrow> bytes \<Rightarrow> bytes \<Rightarrow> bytes \<Rightarrow> bytes \<Rightarrow> bytes" where
  "assemble_sk p f_enc ginv_enc pk rho = f_enc @ ginv_enc @ pk @ rho @ hash_pk_cache p pk"

text \<open>What key generation establishes: \<open>f\<close> short of weight \<open>W\<close>, \<open>g\<close> small with inverse \<open>ginv\<close>
  modulo 3, and the public key \<open>h = g / 3f\<close> modulo q.\<close>

definition sntrup_keypair ::
  "primitives \<Rightarrow> int list \<Rightarrow> int list \<Rightarrow> int list \<Rightarrow> int list \<Rightarrow> bytes \<Rightarrow> bytes \<Rightarrow> bytes \<Rightarrow> bool" where
  "sntrup_keypair p f g ginv h rho sk pk \<longleftrightarrow>
     small_poly f \<and> weight f \<le> W \<and> small_poly g \<and> small_poly ginv \<and> rq_poly h
   \<and> (\<forall>k < sntrup_p. sntrup_q dvd 3 * ring_mul h f k - coef g k)
   \<and> (\<forall>k < sntrup_p. 3 dvd ring_mul g ginv k - rone k)
   \<and> rq_encode h = Some pk \<and> length rho = SMALL_BYTES
   \<and> (\<exists>f_enc ginv_enc. small_encode f = Some f_enc \<and> small_encode ginv = Some ginv_enc
        \<and> sk = assemble_sk p f_enc ginv_enc pk rho)"

section \<open>The lattice arithmetic recovers the short polynomial\<close>

lemma small_poly_list_all: "small_poly a \<Longrightarrow> length a = sntrup_p \<and> list_all (\<lambda>x. \<bar>x\<bar> \<le> 1) a"
  by (auto simp: small_poly_def list_all_iff)

lemma rq_poly_list_all: "rq_poly a \<Longrightarrow> length a = sntrup_p \<and> list_all (\<lambda>x. \<bar>x\<bar> \<le> 32768) a"
proof -
  assume a: "rq_poly a"
  have "\<bar>x\<bar> \<le> 32768" if "x \<in> set a" for x
  proof -
    have "\<bar>x\<bar> \<le> 2295" using a that by (simp add: rq_poly_def sntrup_sizes)
    then show ?thesis by simp
  qed
  then show ?thesis using a by (simp add: rq_poly_def list_all_iff)
qed

lemma small_coef: "small_poly a \<Longrightarrow> \<bar>coef a k\<bar> \<le> 1"
proof (cases "k < length a")
  case True
  assume "small_poly a"
  moreover have "a ! k \<in> set a" using True by simp
  ultimately have "a ! k = - 1 \<or> a ! k = 0 \<or> a ! k = 1" by (simp only: small_poly_def)
  then show ?thesis using True by (auto simp: coef_def)
qed (simp add: coef_def)

lemma weight_card: "length a = sntrup_p \<Longrightarrow> weight a = card {i. i < sntrup_p \<and> coef a i \<noteq> 0}"
  by (simp add: weight_def length_filter_conv_card coef_def cong: conj_cong)

lemma scale_e_spec:
  assumes "\<bar>c\<bar> \<le> 2295"
  shows "\<bar>scale_e c\<bar> \<le> 2295 \<and> 4591 dvd scale_e c - 3 * c"
proof -
  define v where "v = c * 3"
  define w where "w = (if v > 2295 then v - 4591 else if v < - 2295 then v + 4591 else v)"
  have w: "\<bar>w\<bar> \<le> 2295" using assms by (auto simp: w_def v_def)
  have "as_signed 16 v = v" using assms by (simp add: as_signed_def v_def signed_take_bit_int_eq_self)
  moreover have "as_signed 16 w = w" using w by (simp add: as_signed_def signed_take_bit_int_eq_self)
  ultimately have "scale_e c = w" by (simp add: scale_e_def Let_def v_def [symmetric] w_def [symmetric])
  moreover have "w - 3 * c = 0 \<or> w - 3 * c = 4591 \<or> w - 3 * c = - 4591" by (auto simp: w_def v_def)
  ultimately show ?thesis using w by auto
qed

lemma e_mod_3_spec: "(e_mod_3 e = - 1 \<or> e_mod_3 e = 0 \<or> e_mod_3 e = 1) \<and> 3 dvd e_mod_3 e - e"
proof -
  define s where "s = e smod 3"
  have s: "s = - 2 \<or> s = - 1 \<or> s = 0 \<or> s = 1 \<or> s = 2"
    using smod_int_range [of 3 e] by (auto simp: s_def)
  have "e = e sdiv 3 * 3 + s" by (simp add: s_def sdiv_mult_smod_eq)
  then have "s - e = 3 * - (e sdiv 3)" by simp
  then have d: "3 dvd s - e" by (simp only: dvd_triv_left)
  have "e_mod_3 e - s = 0 \<or> e_mod_3 e - s = 3 \<or> e_mod_3 e - s = - 3"
    "e_mod_3 e = - 1 \<or> e_mod_3 e = 0 \<or> e_mod_3 e = 1"
    using s smod_mod_positive [of "s + 3" 3] unfolding e_mod_3_def s_def [symmetric] by (auto simp: Let_def)
  moreover have "3 dvd (e_mod_3 e - s) + (s - e)" using d calculation(1) by (intro dvd_add) auto
  ultimately show ?thesis by simp
qed

lemma round3_idem: "\<bar>c\<bar> \<le> 2295 \<Longrightarrow> round3 (round3 c) = round3 c \<and> \<bar>round3 c\<bar> \<le> 2295 \<and> \<bar>round3 c - c\<bar> \<le> 1"
proof -
  assume "\<bar>c\<bar> \<le> 2295"
  then obtain k where k: "round3 c = 3 * k" "\<bar>k\<bar> \<le> 765" "\<bar>3 * k - c\<bar> \<le> 1" by (rule round3_spec)
  then have b: "\<bar>3 * k\<bar> \<le> 2295" by linarith
  then obtain j where "round3 (3 * k) = 3 * j" "\<bar>3 * j - 3 * k\<bar> \<le> 1" by (rule round3_spec) blast
  then have "round3 (3 * k) = 3 * k" by presburger
  with k b show ?thesis by simp
qed

lemma congruent_and_small:
  fixes x y :: int
  assumes "4591 dvd x - y" and "\<bar>x\<bar> + \<bar>y\<bar> < 4591"
  shows "x = y"
proof -
  obtain k where k: "x - y = 4591 * k" using assms(1) by (elim dvdE)
  then have "\<bar>4591 * k\<bar> < 4591" using assms(2) by linarith
  then have "k = 0" by linarith
  with k show ?thesis by simp
qed

text \<open>The heart of the scheme: \<open>3fc\<close> is \<open>gr\<close> plus three times a short error, small enough not to
  wrap modulo q, so that reducing it modulo 3 and multiplying by \<open>ginv\<close> leaves \<open>r\<close>.\<close>

lemma lattice_recovers:
  assumes f: "small_poly f" "weight f \<le> W" and g: "small_poly g" and ginv: "small_poly ginv" and h: "rq_poly h"
    and key: "\<And>k. k < sntrup_p \<Longrightarrow> 4591 dvd 3 * ring_mul h f k - coef g k"
    and inv: "\<And>k. k < sntrup_p \<Longrightarrow> 3 dvd ring_mul g ginv k - rone k"
    and r: "small_poly r" "weight r \<le> W"
    and c: "length c = sntrup_p" and err: "\<And>k. k < sntrup_p \<Longrightarrow> \<bar>c ! k - hr ! k\<bar> \<le> 1"
    and hr: "length hr = sntrup_p" "\<And>k. k < sntrup_p \<Longrightarrow> 4591 dvd hr ! k - ring_mul h r k"
    and e: "length e = sntrup_p" "\<And>k. k < sntrup_p \<Longrightarrow> \<bar>e ! k\<bar> \<le> 2295"
      "\<And>k. k < sntrup_p \<Longrightarrow> 4591 dvd e ! k - 3 * ring_mul c f k"
    and t: "length t = sntrup_p" "\<And>k. k < sntrup_p \<Longrightarrow> 3 dvd t ! k - e ! k"
    and k: "k < sntrup_p"
  shows "3 dvd ring_mul t ginv k - coef r k"
proof -
  have len: "length f = sntrup_p" "length g = sntrup_p" "length ginv = sntrup_p" "length h = sntrup_p" "length r = sntrup_p"
    using f g ginv h r by (simp_all add: small_poly_def rq_poly_def)
  note dp = len [THEN deg_p_coef] deg_p_coef [OF c] deg_p_coef [OF hr(1)] deg_p_coef [OF e(1)] deg_p_coef [OF t(1)]
  define d where "d k = coef c k - coef hr k" for k
  have dd: "deg_p d" using dp by (simp add: deg_p_def d_def)
  have d1: "\<bar>d k\<bar> \<le> 1" for k using err [of k] c hr(1) by (cases "k < sntrup_p") (simp_all add: d_def coef_def)
  define T where "T k = rmul (coef r) (coef g) k + 3 * rmul (coef f) d k" for k
  have T: "e ! k = T k" if k: "k < sntrup_p" for k
  proof (rule congruent_and_small)
    have "rmul (coef c) (coef f) = rmul (\<lambda>k. coef hr k + d k) (coef f)" by (simp add: d_def)
    then have split: "rmul (coef c) (coef f) k = rmul (coef hr) (coef f) k + rmul d (coef f) k"
      by (simp add: rmul_add_left)
    have "4591 dvd rmul (coef hr) (coef f) k - rmul (rmul (coef h) (coef r)) (coef f) k"
      using hr len by (intro rmul_cong_left) (simp add: ring_mul_eq coef_def)
    then have a: "4591 dvd 3 * (rmul (coef hr) (coef f) k - rmul (rmul (coef h) (coef r)) (coef f) k)" by (rule dvd_mult)
    have "rmul (rmul (coef h) (coef r)) (coef f) = rmul (rmul (coef r) (coef h)) (coef f)"
      using rmul_commute [of "coef h" "coef r"] dp by simp
    also have "\<dots> = rmul (coef r) (rmul (coef h) (coef f))" using dp by (simp add: rmul_assoc)
    also have "\<dots> = rmul (rmul (coef h) (coef f)) (coef r)" using dp by (simp add: rmul_commute)
    finally have sw: "3 * rmul (rmul (coef h) (coef r)) (coef f) k = rmul (\<lambda>k. 3 * rmul (coef h) (coef f) k) (coef r) k"
      by (simp add: rmul_scale_left)
    have "4591 dvd rmul (\<lambda>k. 3 * rmul (coef h) (coef f) k) (coef r) k - rmul (coef g) (coef r) k"
      using key len by (intro rmul_cong_left) (simp add: ring_mul_eq)
    then have b: "4591 dvd 3 * rmul (rmul (coef h) (coef r)) (coef f) k - rmul (coef r) (coef g) k"
      unfolding sw using rmul_commute [of "coef g" "coef r"] dp by simp
    have cc: "4591 dvd e ! k - 3 * rmul (coef c) (coef f) k"
      using e(3) [OF k] len c k by (simp add: ring_mul_eq)
    have "e ! k - T k = (e ! k - 3 * rmul (coef c) (coef f) k)
        + 3 * (rmul (coef hr) (coef f) k - rmul (rmul (coef h) (coef r)) (coef f) k)
        + (3 * rmul (rmul (coef h) (coef r)) (coef f) k - rmul (coef r) (coef g) k)"
      using rmul_commute [of d "coef f"] dp dd by (simp add: T_def split algebra_simps)
    then show "4591 dvd e ! k - T k" using a b cc by (simp only: dvd_add)
    have "\<bar>rmul (coef r) (coef g) k\<bar> \<le> 2 * int (weight r)" "\<bar>rmul (coef f) d k\<bar> \<le> 2 * int (weight f)"
      using rmul_bound [of "coef g" "coef r" k] rmul_bound [of d "coef f" k] dp dd d1 f g r len
      by (simp_all add: small_coef weight_card)
    then have "\<bar>T k\<bar> \<le> 2288" using f(2) r(2) by (simp add: T_def W_def)
    then show "\<bar>e ! k\<bar> + \<bar>T k\<bar> < 4591" using e(2) [OF k] by linarith
  qed
  have "3 dvd coef t k - rmul (coef r) (coef g) k" if k: "k < sntrup_p" for k
  proof -
    have "coef t k - rmul (coef r) (coef g) k = (t ! k - e ! k) + 3 * rmul (coef f) d k"
      using T [OF k] k t(1) by (simp add: T_def coef_def)
    then show ?thesis using t(2) [OF k] by simp
  qed
  then have x: "3 dvd rmul (coef t) (coef ginv) k - rmul (rmul (coef r) (coef g)) (coef ginv) k"
    by (intro rmul_cong_left)
  have "3 dvd rmul (coef r) (rmul (coef g) (coef ginv)) k - rmul (coef r) rone k"
    using inv len dp by (intro rmul_cong_right) (simp_all add: ring_mul_eq)
  moreover have "rmul (coef r) rone = coef r"
    using rmul_commute [of "coef r" rone] rmul_rone_left dp by (simp add: fun_eq_iff)
  moreover have "rmul (rmul (coef r) (coef g)) (coef ginv) = rmul (coef r) (rmul (coef g) (coef ginv))"
    using dp by (simp add: rmul_assoc)
  ultimately have "3 dvd rmul (coef t) (coef ginv) k - coef r k" using dvd_add [OF x] by fastforce
  then show ?thesis using k len t(1) by (simp add: ring_mul_eq)
qed

section \<open>Decapsulation undoes encapsulation\<close>

lemma small_encode_decode:
  assumes "small_poly a" and "small_encode a = Some bs"
  shows "length bs = SMALL_BYTES" and "small_decode bs = a"
  using small_round_trip_aux [OF assms(1)] assms(2) by auto

lemma rq_encode_decode:
  assumes "rq_poly h" and "rq_encode h = Some bs"
  shows "length bs = RQ_BYTES" and "rq_decode bs = Some h"
  using rq_round_trip_aux [OF assms(1)] assms(2) by auto

lemma length_hash_with_prefix [simp]: "prims_ok p \<Longrightarrow> length (hash_with_prefix p b x) = 32"
  by (simp add: hash_with_prefix_def)

lemma length_hash_confirm [simp]: "prims_ok p \<Longrightarrow> length (hash_confirm p r c) = 32"
  by (simp add: hash_confirm_def)

lemma length_hash_session [simp]: "prims_ok p \<Longrightarrow> length (hash_session p b r c) = 32"
  by (simp add: hash_session_def)

text \<open>The fields of an assembled secret key.\<close>

lemma assemble_fields:
  assumes "prims_ok p" "length f_enc = SMALL_BYTES" "length ginv_enc = SMALL_BYTES" "length pk = RQ_BYTES" "length rho = SMALL_BYTES"
  defines "sk \<equiv> assemble_sk p f_enc ginv_enc pk rho"
  shows "sub_slice 0 SMALL_BYTES sk = f_enc" "sub_slice SMALL_BYTES (2 * SMALL_BYTES) sk = ginv_enc"
    "sub_slice (2 * SMALL_BYTES) (2 * SMALL_BYTES + RQ_BYTES) sk = pk"
    "sub_slice (2 * SMALL_BYTES + RQ_BYTES) (2 * SMALL_BYTES + RQ_BYTES + SMALL_BYTES) sk = rho"
    "drop (SECRET_KEY_BYTES - 32) sk = hash_pk_cache p pk" "length sk = SECRET_KEY_BYTES"
  using assms(1-5) by (simp_all add: sk_def assemble_sk_def sntrup_sizes slice_fields hash_pk_cache_def)

lemma round_rq_map: "length a = sntrup_p \<Longrightarrow> round_rq a = map round3 a"
proof -
  assume "length a = sntrup_p"
  then have "map round3 (map (\<lambda>i. a ! i) [0..<sntrup_p]) = map round3 a" using map_nth [of a] by simp
  then show ?thesis by (simp add: round_rq_def o_def)
qed

text \<open>What \<open>rounded_encode\<close> keeps of a product, and what multiplying by three and reducing does.\<close>

lemma round_rq_facts:
  assumes "rq_poly a"
  shows "rq_poly (round_rq a)" and "rounded_decode (rounded_encode (round_rq a)) = Some (round_rq a)"
    and "length (rounded_encode (round_rq a)) = ROUNDED_BYTES"
    and "\<And>k. k < sntrup_p \<Longrightarrow> \<bar>round_rq a ! k - a ! k\<bar> \<le> 1"
proof -
  have len: "length a = sntrup_p" and b: "\<And>x. x \<in> set a \<Longrightarrow> \<bar>x\<bar> \<le> 2295"
    using assms by (simp_all add: rq_poly_def sntrup_sizes)
  show q: "rq_poly (round_rq a)"
    using len b round3_idem by (simp add: round_rq_map rq_poly_def sntrup_q12_def sntrup_q_def)
  have "map round3 (round_rq a) = round_rq a" using len b round3_idem by (simp add: round_rq_map)
  then show "rounded_decode (rounded_encode (round_rq a)) = Some (round_rq a)"
    "length (rounded_encode (round_rq a)) = ROUNDED_BYTES"
    using rounded_round_trip_aux [OF q] by simp_all
  show "\<bar>round_rq a ! k - a ! k\<bar> \<le> 1" if "k < sntrup_p" for k
    using that len b round3_idem by (simp add: round_rq_map)
qed

lemma rq_mult_r3_facts:
  assumes "length a = sntrup_p" "list_all (\<lambda>x. \<bar>x\<bar> \<le> 32768) a" "small_poly b"
  shows "\<exists>c. rq_mult_r3 a b = Some c \<and> rq_poly c \<and> (\<forall>k < sntrup_p. 4591 dvd c ! k - ring_mul a b k)"
  using rq_mult_r3_eq(1) [of a b] small_poly_list_all [OF assms(3)] assms(1,2) reduce_mod_q_spec
  by (auto simp: rq_poly_def sntrup_q12_def sntrup_q_def)

lemma r3_mult_r3_facts:
  assumes "small_poly a" "small_poly b"
  shows "\<exists>c. r3_mult_r3 a b = Some c \<and> small_poly c \<and> (\<forall>k < sntrup_p. 3 dvd c ! k - ring_mul a b k)"
proof -
  have "list_all (\<lambda>x. \<bar>x\<bar> \<le> 32768) a" using assms(1) by (auto simp: small_poly_def list_all_iff)
  then show ?thesis
    using rq_mult_r3_eq(2) [of a b] small_poly_list_all [OF assms(1)] small_poly_list_all [OF assms(2)] reduce_mod_3_spec
    by (auto simp: small_poly_def)
qed

lemma e_mod_3_small: "length e = sntrup_p \<Longrightarrow> small_poly (map e_mod_3 e)"
  using e_mod_3_spec by (auto simp: small_poly_def)

lemma small_congruent_eq:
  fixes x y :: int
  assumes "3 dvd x - y" "x = - 1 \<or> x = 0 \<or> x = 1" "y = - 1 \<or> y = 0 \<or> y = 1"
  shows "x = y"
  using assms by auto

lemma decrypt_total:
  assumes "small_decode (sub_slice 0 SMALL_BYTES sk) = f" "small_poly f"
    and "small_decode (sub_slice SMALL_BYTES (2 * SMALL_BYTES) sk) = ginv" "small_poly ginv"
  shows "\<exists>r. sntrup_decrypt sk body = Some r \<and> small_poly r"
proof -
  obtain c where c: "rounded_decode body = Some c" "length c = sntrup_p" "list_all (\<lambda>c. \<bar>c\<bar> \<le> 32768) c"
    using rounded_decode_total by blast
  obtain cf where cf: "rq_mult_r3 c f = Some cf" "rq_poly cf" using rq_mult_r3_facts [OF c(2,3) assms(2)] by blast
  have "small_poly (map e_mod_3 (map scale_e cf))" using cf(2) by (intro e_mod_3_small) (simp add: rq_poly_def)
  from r3_mult_r3_facts [OF this assms(4)] show ?thesis
    by (auto simp: sntrup_decrypt_def assms(1,3) c(1) cf(1) Let_def)
qed

lemma decrypt_recovers:
  assumes "sntrup_keypair p f g ginv h rho sk pk" and "prims_ok p" and r: "small_poly r" "weight r \<le> W"
    and hr: "rq_mult_r3 h r = Some hr"
  shows "sntrup_decrypt sk (rounded_encode (round_rq hr)) = Some r"
proof -
  obtain fe ge where kp: "small_poly f" "weight f \<le> W" "small_poly g" "small_poly ginv" "rq_poly h"
    "\<And>k. k < sntrup_p \<Longrightarrow> 4591 dvd 3 * ring_mul h f k - coef g k"
    "\<And>k. k < sntrup_p \<Longrightarrow> 3 dvd ring_mul g ginv k - rone k"
    "rq_encode h = Some pk" "length rho = SMALL_BYTES" "small_encode f = Some fe" "small_encode ginv = Some ge"
    "sk = assemble_sk p fe ge pk rho"
    using assms(1) by (auto simp: sntrup_keypair_def sntrup_q_def)
  note lens = small_encode_decode(1) [OF kp(1,10)] small_encode_decode(1) [OF kp(4,11)] rq_encode_decode(1) [OF kp(5,8)]
  note fields = assemble_fields [OF assms(2) lens kp(9), folded kp(12)]
  have hrf: "rq_poly hr" "\<And>k. k < sntrup_p \<Longrightarrow> 4591 dvd hr ! k - ring_mul h r k"
    using rq_mult_r3_facts [of h r] rq_poly_list_all [OF kp(5)] r(1) hr by auto
  define c where "c = round_rq hr"
  note cf = round_rq_facts [OF hrf(1), folded c_def]
  obtain cf' where m: "rq_mult_r3 c f = Some cf'" "rq_poly cf'" "\<And>k. k < sntrup_p \<Longrightarrow> 4591 dvd cf' ! k - ring_mul c f k"
    using rq_mult_r3_facts [of c f] rq_poly_list_all [OF cf(1)] kp(1) by auto
  define e where "e = map scale_e cf'"
  have lcf: "length cf' = sntrup_p" and bcf: "\<And>k. k < sntrup_p \<Longrightarrow> \<bar>cf' ! k\<bar> \<le> 2295"
    using m(2) by (auto simp: rq_poly_def sntrup_q12_def sntrup_q_def)
  have e1: "length e = sntrup_p" by (simp add: e_def lcf)
  have e2: "\<bar>e ! k\<bar> \<le> 2295" if "k < sntrup_p" for k
    using scale_e_spec [OF bcf [OF that]] that by (simp add: e_def lcf)
  have e3: "4591 dvd e ! k - 3 * ring_mul c f k" if "k < sntrup_p" for k
  proof -
    have "4591 dvd 3 * (cf' ! k - ring_mul c f k)" using m(3) [OF that] by (rule dvd_mult)
    moreover have "4591 dvd e ! k - 3 * cf' ! k" using scale_e_spec [OF bcf [OF that]] that by (simp add: e_def lcf)
    ultimately have "4591 dvd (e ! k - 3 * cf' ! k) + 3 * (cf' ! k - ring_mul c f k)" by (intro dvd_add)
    then show ?thesis by (simp add: algebra_simps)
  qed
  define t where "t = map e_mod_3 e"
  have t: "small_poly t" using e1 by (simp add: t_def e_mod_3_small)
  have t2: "3 dvd t ! k - e ! k" if "k < sntrup_p" for k
    using that e1 e_mod_3_spec by (simp add: t_def)
  obtain r' where r': "r3_mult_r3 t ginv = Some r'" "small_poly r'" "\<And>k. k < sntrup_p \<Longrightarrow> 3 dvd r' ! k - ring_mul t ginv k"
    using r3_mult_r3_facts [OF t kp(4)] by blast
  have "r' = r"
  proof (rule nth_equalityI)
    have lr: "length r' = sntrup_p" "length r = sntrup_p" using r'(2) r(1) by (simp_all add: small_poly_def)
    then show "length r' = length r" by simp
    fix k assume "k < length r'"
    then have k: "k < sntrup_p" using lr by simp
    have "3 dvd ring_mul t ginv k - coef r k"
      by (rule lattice_recovers [OF kp(1-5) kp(6) kp(7) r _ cf(4) _ hrf(2) e1 e2 e3 _ t2 k])
        (use cf(1) hrf(1) t in \<open>simp_all add: rq_poly_def small_poly_def\<close>)
    then have "3 dvd (r' ! k - ring_mul t ginv k) + (ring_mul t ginv k - coef r k)"
      using r'(3) [OF k] by (intro dvd_add)
    then have "3 dvd r' ! k - r ! k" using k lr by (simp add: coef_def)
    moreover have "r' ! k \<in> set r'" "r ! k \<in> set r" using k lr by simp_all
    ultimately show "r' ! k = r ! k" using r'(2) r(1) by (intro small_congruent_eq) (auto simp: small_poly_def)
  qed
  moreover have "map e_mod_3 (map scale_e cf') = t" by (simp add: t_def e_def)
  ultimately show ?thesis
    unfolding sntrup_decrypt_def Let_def fields(1,2) small_encode_decode(2) [OF kp(1,10)]
      small_encode_decode(2) [OF kp(4,11)] c_def [symmetric]
    by (simp only: cf(2) m(1) r'(1) bind.bind_lunit)
qed

section \<open>A concrete key pair\<close>

text \<open>\<open>f = g = ginv = 1\<close> and \<open>h = 1/3 = -1530\<close> modulo q, for the witnesses.\<close>

definition one_poly :: "int list" where "one_poly = 1 # replicate 760 0"
definition third_poly :: "int list" where "third_poly = (- 1530) # replicate 760 0"
definition short_poly :: "int list" where "short_poly = replicate 286 1 @ replicate 475 0"

definition toy_pk :: bytes where "toy_pk = the (rq_encode third_poly)"
definition toy_sk :: bytes where
  "toy_sk = assemble_sk toy_prims (the (small_encode one_poly)) (the (small_encode one_poly)) toy_pk (replicate 191 0)"

lemma toy_polys: "small_poly one_poly" "rq_poly third_poly" "small_poly short_poly"
  "weight one_poly \<le> W" "weight short_poly = W"
  by (simp_all add: one_poly_def third_poly_def short_poly_def small_poly_def rq_poly_def sntrup_sizes weight_def W_def)

lemma coef_one_poly: "coef one_poly = rone"
  by (auto simp: fun_eq_iff coef_def one_poly_def rone_def nth_Cons split: nat.split)

lemma coef_third_poly: "coef third_poly k = (if k = 0 then - 1530 else 0)"
  by (auto simp: coef_def third_poly_def nth_Cons split: nat.split)

lemma toy_keypair: "sntrup_keypair toy_prims one_poly one_poly one_poly third_poly (replicate 191 0) toy_sk toy_pk"
proof -
  have len: "length one_poly = sntrup_p" "length third_poly = sntrup_p"
    using toy_polys by (simp_all add: small_poly_def rq_poly_def)
  obtain pk where "rq_encode third_poly = Some pk" using rq_round_trip_aux [OF toy_polys(2)] by blast
  moreover obtain oe where "small_encode one_poly = Some oe" using small_round_trip_aux [OF toy_polys(1)] by blast
  moreover have "sntrup_q dvd 3 * ring_mul third_poly one_poly k - coef one_poly k" if "k < sntrup_p" for k
    using that len rmul_commute [of "coef third_poly" rone] rmul_rone_left
    by (simp add: ring_mul_eq coef_one_poly coef_third_poly rone_def sntrup_q_def)
  moreover have "3 dvd ring_mul one_poly one_poly k - rone k" if "k < sntrup_p" for k
    using that len rmul_rone_left by (simp add: ring_mul_eq coef_one_poly)
  ultimately show ?thesis
    using toy_polys by (simp add: sntrup_keypair_def toy_sk_def toy_pk_def SMALL_BYTES_def)
qed

section \<open>Properties\<close>

lemma encapsulate_with_total:
  assumes "small_poly r"
  shows "\<exists>out. sntrup_encapsulate_with p pk r = Some out"
proof -
  obtain h where h: "rq_decode pk = Some h" "rq_poly h" using rq_decode_total by blast
  obtain hr where "rq_mult_r3 h r = Some hr" using rq_mult_r3_facts [of h r] rq_poly_list_all [OF h(2)] assms by blast
  moreover obtain re where "small_encode r = Some re" using small_round_trip_aux [OF assms] by blast
  ultimately show ?thesis using h(1) by (simp add: sntrup_encapsulate_with_def Let_def)
qed

lemma length_assembled_sk: "sntrup_keypair p f g ginv h rho sk pk \<Longrightarrow> prims_ok p \<Longrightarrow>
    length sk = SECRET_KEY_BYTES \<and> length pk = RQ_BYTES \<and> sntrup_sk_public_key sk = pk"
proof -
  assume "sntrup_keypair p f g ginv h rho sk pk" "prims_ok p"
  moreover from this obtain fe ge where "small_poly f" "small_poly ginv" "rq_poly h" "rq_encode h = Some pk"
    "length rho = SMALL_BYTES" "small_encode f = Some fe" "small_encode ginv = Some ge" "sk = assemble_sk p fe ge pk rho"
    by (auto simp: sntrup_keypair_def)
  ultimately show ?thesis
    using assemble_fields [of p fe ge pk rho] small_encode_decode(1) rq_encode_decode(1)
    by (simp add: sntrup_sk_public_key_def)
qed

lemma decapsulate_correct_aux:
  assumes "prims_ok p" and "sntrup_keypair p f g ginv h rho sk pk"
    and "small_poly r" and "weight r \<le> W"
    and "sntrup_encapsulate_with p pk r = Some (ss, ct)"
  shows "sntrup_decapsulate p sk ct = Some ss"
proof -
  obtain fe ge where kp: "small_poly f" "small_poly ginv" "rq_poly h" "rq_encode h = Some pk" "length rho = SMALL_BYTES"
    "small_encode f = Some fe" "small_encode ginv = Some ge" "sk = assemble_sk p fe ge pk rho"
    using assms(2) by (auto simp: sntrup_keypair_def)
  note lens = small_encode_decode(1) [OF kp(1,6)] small_encode_decode(1) [OF kp(2,7)] rq_encode_decode(1) [OF kp(3,4)]
  note fields = assemble_fields [OF assms(1) lens kp(5), folded kp(8)]
  note dec_pk = rq_encode_decode(2) [OF kp(3,4)]
  obtain hr where hr: "rq_mult_r3 h r = Some hr" "rq_poly hr"
    using rq_mult_r3_facts [of h r] rq_poly_list_all [OF kp(3)] assms(3) by blast
  obtain re where re: "small_encode r = Some re" using small_round_trip_aux [OF assms(3)] by blast
  define body where "body = rounded_encode (round_rq hr)"
  define conf where "conf = hash_confirm p (hash_r_encoding p re) (hash_pk_cache p pk)"
  have out: "ss = hash_session p 1 (hash_r_encoding p re) ct" "ct = body @ conf"
    using assms(5) by (auto simp: sntrup_encapsulate_with_def Let_def dec_pk hr(1) re body_def conf_def)
  have "length body = ROUNDED_BYTES" unfolding body_def by (rule round_rq_facts(3) [OF hr(2)])
  then have parts: "sub_slice 0 ROUNDED_BYTES ct = body" "drop ROUNDED_BYTES ct = conf"
    by (simp_all add: out(2) slice_fields)
  have "sntrup_decrypt sk body = Some r"
    unfolding body_def by (rule decrypt_recovers [OF assms(2,1,3,4) hr(1)])
  then show ?thesis
    by (simp add: sntrup_decapsulate_def Let_def fields parts re dec_pk hr(1) body_def [symmetric]
        conf_def [symmetric] out(1))
qed

text \<open>C2. sntrup761 is correct: for every key pair as key generation makes it and every short
  polynomial of weight at most 286, decapsulating the ciphertext of an encapsulation returns
  the encapsulated shared secret. There is no decryption failure: the proof bounds 3fc by 2288,
  inside [-2295, 2295].\<close>

theorem sntrup_decapsulate_correct:
  assumes "prims_ok p" and "sntrup_keypair p f g ginv h rho sk pk"
    and "small_poly r" and "weight r \<le> W"
    and "sntrup_encapsulate_with p pk r = Some (ss, ct)"
  shows "sntrup_decapsulate p sk ct = Some ss"
  using assms by (rule decapsulate_correct_aux)

theorem sntrup_decapsulate_correct_witness:
  "\<exists>ss ct. sntrup_encapsulate_with toy_prims toy_pk short_poly = Some (ss, ct)
    \<and> sntrup_decapsulate toy_prims toy_sk ct = Some ss"
  using sntrup_decapsulate_correct [OF toy_prims_ok toy_keypair toy_polys(3)] toy_polys(5)
    encapsulate_with_total [OF toy_polys(3), of toy_prims toy_pk] by fastforce

lemma pick_short_eq:
  assumes "\<And>k s. draws k = Some s \<Longrightarrow> small_poly s"
  shows "case pick_short n draws k of
      Inr r \<Rightarrow> small_poly r \<and> weight r = W
    | Inl e \<Rightarrow> e = KeyGenerationFailed \<and> (\<forall>j < n. \<forall>s. draws (k + j) = Some s \<longrightarrow> weight s \<noteq> W)"
proof (induction n arbitrary: k)
  case 0
  then show ?case by simp
next
  case (Suc n)
  have cast: "map (\<lambda>i. as_signed 8 (s ! i)) [0..<sntrup_p] = s" if d: "draws k = Some s" for s
  proof -
    have s: "small_poly s" using assms d by blast
    have "as_signed 8 (s ! i) = s ! i" if "i < sntrup_p" for i
      using small_coef [OF s, of i] s that
      by (simp add: small_poly_def coef_def as_signed_def abs_le_iff signed_take_bit_int_eq_self)
    then have "map (\<lambda>i. as_signed 8 (s ! i)) [0..<length s] = s"
      using s by (intro nth_equalityI) (simp_all add: small_poly_def)
    then show ?thesis using s by (simp add: small_poly_def)
  qed
  have step: "(\<forall>j < Suc n. \<forall>s. draws (k + j) = Some s \<longrightarrow> weight s \<noteq> W)
      \<longleftrightarrow> (\<forall>s. draws k = Some s \<longrightarrow> weight s \<noteq> W) \<and> (\<forall>j < n. \<forall>s. draws (k + 1 + j) = Some s \<longrightarrow> weight s \<noteq> W)"
    by (auto simp: less_Suc_eq_0_disj)
  show ?case
    using Suc.IH [of "k + 1"] cast assms [of k] step
    by (cases "draws k") (auto simp: Let_def split: sum.splits)
qed

text \<open>Encapsulation succeeds and both sides agree, from the random draws on: if one of the 10,000
  draws has weight 286 (each draw being small, as the crate promises), \<open>encapsulate\<close> returns
  a secret and a 1039-byte ciphertext, and the key's owner decapsulates that secret from it.
  Otherwise it reports \<open>KeyGenerationFailed\<close>; it never panics.\<close>

lemma sntrup_kem_agreement:
  assumes "prims_ok p" and "sntrup_keypair p f g ginv h rho sk pk"
    and "\<And>k s. draws k = Some s \<Longrightarrow> small_poly s"
  shows "(\<exists>ss ct. sntrup_encapsulate p draws pk = Done (ss, ct) \<and> length ct = CIPHERTEXT_BYTES
      \<and> sntrup_decapsulate p sk ct = Some ss)
    \<or> (sntrup_encapsulate p draws pk = Fail KeyGenerationFailed
      \<and> (\<forall>k < MAX_KEYGEN_ATTEMPTS. \<forall>s. draws k = Some s \<longrightarrow> weight s \<noteq> W))"
proof (cases "pick_short MAX_KEYGEN_ATTEMPTS draws 0")
  case (Inl e)
  then show ?thesis
    using pick_short_eq [of draws MAX_KEYGEN_ATTEMPTS 0] assms(3) by (simp add: sntrup_encapsulate_def)
next
  case (Inr r)
  then have r: "small_poly r" "weight r = W"
    using pick_short_eq [of draws MAX_KEYGEN_ATTEMPTS 0] assms(3) by simp_all
  obtain ss ct where o: "sntrup_encapsulate_with p pk r = Some (ss, ct)"
    using encapsulate_with_total [OF r(1)] by (metis surj_pair)
  obtain hh hr where hr: "rq_decode pk = Some hh" "rq_mult_r3 hh r = Some hr" "rq_poly hr"
    using rq_decode_total [of pk] rq_mult_r3_facts rq_poly_list_all r(1) by metis
  have "length ct = CIPHERTEXT_BYTES"
    using o hr round_rq_facts(3) [OF hr(3)] assms(1)
    by (auto simp: sntrup_encapsulate_with_def Let_def bind_eq_Some_conv CIPHERTEXT_BYTES_def CONFIRM_BYTES_def)
  moreover have "sntrup_decapsulate p sk ct = Some ss"
    using r by (intro decapsulate_correct_aux [OF assms(1,2) r(1) _ o]) simp
  ultimately show ?thesis using o Inr by (auto simp: sntrup_encapsulate_def)
qed

lemma decapsulate_cases:
  assumes "prims_ok p" and "sntrup_keypair p f g ginv h rho sk pk"
  shows "\<exists>ss. sntrup_decapsulate p sk ct = Some ss \<and> length ss = 32
    \<and> (ss = hash_session p 0 (hash_r_encoding p rho) ct
      \<or> (\<exists>r. small_poly r \<and> sntrup_encapsulate_with p pk r = Some (ss, ct)))"
proof -
  obtain fe ge where kp: "small_poly f" "small_poly ginv" "rq_poly h" "rq_encode h = Some pk" "length rho = SMALL_BYTES"
    "small_encode f = Some fe" "small_encode ginv = Some ge" "sk = assemble_sk p fe ge pk rho"
    using assms(2) by (auto simp: sntrup_keypair_def)
  note lens = small_encode_decode(1) [OF kp(1,6)] small_encode_decode(1) [OF kp(2,7)] rq_encode_decode(1) [OF kp(3,4)]
  note fields = assemble_fields [OF assms(1) lens kp(5), folded kp(8)]
  note dec_pk = rq_encode_decode(2) [OF kp(3,4)]
  obtain r where r: "sntrup_decrypt sk (sub_slice 0 ROUNDED_BYTES ct) = Some r" "small_poly r"
    using decrypt_total [of sk f ginv] fields(1,2) small_encode_decode(2) [OF kp(1,6)]
      small_encode_decode(2) [OF kp(2,7)] kp(1,2) by metis
  obtain re where re: "small_encode r = Some re" using small_round_trip_aux [OF r(2)] by blast
  obtain hr where hr: "rq_mult_r3 h r = Some hr"
    using rq_mult_r3_facts [of h r] rq_poly_list_all [OF kp(3)] r(2) by blast
  have ct: "sub_slice 0 ROUNDED_BYTES ct @ drop ROUNDED_BYTES ct = ct" by (simp add: sub_slice_def)
  have "length (hash_session p b x y) = 32" for b x y using assms(1) by simp
  then show ?thesis
    using r re hr ct
    unfolding sntrup_decapsulate_def sntrup_encapsulate_with_def Let_def fields dec_pk
    by auto
qed

text \<open>C3. Decapsulation never panics, and implicit rejection is exact: on any 1039-byte ciphertext it
  returns the session hash of the rejection seed, unless the ciphertext is one that encapsulation
  itself produces for some small polynomial, and then it returns that encapsulation's secret. No
  error distinguishes the two cases.\<close>

theorem sntrup_implicit_rejection:
  assumes "prims_ok p" and "sntrup_keypair p f g ginv h rho sk pk" and "length ct = CIPHERTEXT_BYTES"
  shows "\<exists>ss. sntrup_decapsulate p sk ct = Some ss \<and> length ss = 32
    \<and> (ss = hash_session p 0 (hash_r_encoding p rho) ct
      \<or> (\<exists>r. small_poly r \<and> sntrup_encapsulate_with p pk r = Some (ss, ct)))"
  by (rule decapsulate_cases [OF assms(1,2)])

theorem sntrup_implicit_rejection_witness:
  "\<exists>ss. sntrup_decapsulate toy_prims toy_sk (replicate 1039 9) = Some ss \<and> length ss = 32"
  using sntrup_implicit_rejection [OF toy_prims_ok toy_keypair, of "replicate 1039 9"]
  by (auto simp: CIPHERTEXT_BYTES_def ROUNDED_BYTES_def CONFIRM_BYTES_def)

end
