(* ===== verification/X448.thy ===== *)
theory X448
  imports Crypto_Primitives
begin

text \<open>
  X448 (\<open>trelis-primitives/src/x448.rs\<close>): clamped secrets, public keys, and the Diffie-Hellman
  that refuses low-order points and an all-zero result. The scalar multiplication of the crate
  ed448-goldilocks-plus is the parameter \<open>mont_mul\<close>; the random bytes \<open>getrandom\<close> returns are
  an argument, \<open>None\<close> when it fails.
\<close>

definition X448_KEYGEN_CONTEXT :: string where "X448_KEYGEN_CONTEXT = ''trelis-x448-keygen''"
definition X448_EXPAND_CONTEXT :: string where "X448_EXPAND_CONTEXT = ''trelis-x448-expand''"

definition fill_bytes :: "bytes option \<Rightarrow> bytes result" where
  "fill_bytes rand = ok_or RngFailure rand"

text \<open>The clamping the three constructors share.\<close>

definition x448_clamp :: "bytes \<Rightarrow> bytes" where
  "x448_clamp bs = (let bs = bs[0 := bs ! 0 AND 0xFC] in bs[55 := bs ! 55 OR 0x80])"

definition x448_generate :: "bytes option \<Rightarrow> bytes result" where
  "x448_generate rand = tryR (fill_bytes rand) (\<lambda>bs. Inr (x448_clamp bs))"

definition x448_generate_from_seed :: "primitives \<Rightarrow> bytes \<Rightarrow> bytes" where
  "x448_generate_from_seed p seed =
     x448_clamp (blake3_derive_xof p X448_EXPAND_CONTEXT (blake3_derive_key p X448_KEYGEN_CONTEXT seed) 56)"

definition x448_secret_from_bytes :: "bytes \<Rightarrow> bytes" where
  "x448_secret_from_bytes bs = x448_clamp bs"

definition x448_public_key :: "primitives \<Rightarrow> bytes \<Rightarrow> bytes" where
  "x448_public_key p sk = mont_mul p (mont_generator p) sk"

definition x448_diffie_hellman :: "primitives \<Rightarrow> bytes \<Rightarrow> bytes \<Rightarrow> bytes result" where
  "x448_diffie_hellman p sk their_public =
     (if mont_low_order p their_public then Inl DecapsulationFailed
      else let shared_point = mont_mul p their_public sk in
           if shared_point = replicate 56 0 then Inl DecapsulationFailed else Inr shared_point)"

definition x448_public_from_bytes :: "bytes \<Rightarrow> bytes result" where
  "x448_public_from_bytes bs =
     (if length bs \<noteq> 56 then Inl (InvalidKeyLength 56 (length bs)) else Inr bs)"

section \<open>Lemmas\<close>

lemma fill_bytes_simps [simp]: "fill_bytes None = Inl RngFailure" "fill_bytes (Some bs) = Inr bs"
  by (simp_all add: fill_bytes_def)

lemma length_x448_clamp [simp]: "length (x448_clamp bs) = length bs"
  by (simp add: x448_clamp_def Let_def)

lemma clamp_bits:
  "((w :: u8) AND 0xFC) AND 3 = 0" "((w :: u8) OR 0x80) AND 0x80 = 0x80"
proof -
  have "(0xFC :: u8) AND 3 = 0" by simp
  then show "(w AND 0xFC) AND 3 = 0" by (simp only: and.assoc and_zero_eq)
  show "(w OR 0x80) AND 0x80 = 0x80" by (intro bit_word_eqI) (auto simp: bit_simps)
qed

lemma clamp_absorb:
  "(w :: u8) AND 3 = 0 \<Longrightarrow> w AND 0xFC = w" "(w :: u8) AND 0x80 = 0x80 \<Longrightarrow> w OR 0x80 = w"
proof -
  assume a: "w AND 3 = 0"
  have "(0xFC :: u8) OR 3 = - 1" by simp
  then have "w = w AND (0xFC OR 3)" by (simp only: and.right_neutral)
  also have "\<dots> = (w AND 0xFC) OR (w AND 3)" by (rule bit.conj_disj_distrib)
  finally show "w AND 0xFC = w" using a by simp
next
  assume "w AND 0x80 = 0x80"
  then have "w OR 0x80 = w OR (w AND 0x80)" by simp
  then show "w OR 0x80 = w" by (simp add: bit_eq_iff bit_simps)
qed

lemma clamped_x448_clamp: "length bs = 56 \<Longrightarrow> x448_clamped (x448_clamp bs)"
  by (simp add: x448_clamped_def x448_clamp_def Let_def clamp_bits)

lemma clamp_clamped: "x448_clamped s \<Longrightarrow> x448_clamp s = s"
  by (simp add: x448_clamped_def x448_clamp_def Let_def clamp_absorb)

lemma length_x448_public_key [simp]: "prims_ok p \<Longrightarrow> length (x448_public_key p s) = 56"
  by (simp add: x448_public_key_def)

text \<open>Both directions of an exchange give the same result or the same failure.\<close>

lemma x448_agreement:
  assumes "prims_ok p" and "x448_clamped a" and "x448_clamped b"
  shows "x448_diffie_hellman p a (x448_public_key p b) = x448_diffie_hellman p b (x448_public_key p a)"
proof -
  have "mont_mul p (mont_mul p (mont_generator p) t) s = replicate 56 0"
    if "x448_clamped s" "mont_low_order p (mont_mul p (mont_generator p) s)" for s t
    using low_order_secret [OF assms(1) that] .
  then show ?thesis
    using assms(2,3) dh_commutes [OF assms(1), of b a]
    by (auto simp: x448_diffie_hellman_def x448_public_key_def Let_def)
qed

lemma length_x448_dh:
  assumes "prims_ok p" and "x448_diffie_hellman p s q = Inr k"
  shows "length k = 56"
  using assms by (auto simp: x448_diffie_hellman_def Let_def split: if_splits)

text \<open>Every X448 secret the program builds is clamped as RFC 7748 asks, a stored secret reloads
  unchanged, and two parties that exchange public keys derive the same shared secret, or both
  get \<open>DecapsulationFailed\<close>.\<close>

lemma x448_exchange:
  assumes "prims_ok p" and "length r1 = 56" and "length r2 = 56"
  shows "x448_generate (Some r1) = Inr (x448_clamp r1) \<and> x448_clamped (x448_clamp r1)
    \<and> x448_secret_from_bytes (x448_clamp r1) = x448_clamp r1
    \<and> x448_clamped (x448_generate_from_seed p seed)
    \<and> x448_diffie_hellman p (x448_clamp r1) (x448_public_key p (x448_clamp r2))
      = x448_diffie_hellman p (x448_clamp r2) (x448_public_key p (x448_clamp r1))
    \<and> (case x448_diffie_hellman p (x448_clamp r1) (x448_public_key p (x448_clamp r2)) of
         Inr k \<Rightarrow> length k = 56 \<and> k \<noteq> replicate 56 0
       | Inl e \<Rightarrow> e = DecapsulationFailed)"
proof -
  have d: "case x448_diffie_hellman p s q of Inr k \<Rightarrow> length k = 56 \<and> k \<noteq> replicate 56 0
       | Inl e \<Rightarrow> e = DecapsulationFailed" for s q
    using assms(1) by (simp add: x448_diffie_hellman_def Let_def)
  have "x448_clamped (x448_generate_from_seed p seed)"
    unfolding x448_generate_from_seed_def using assms(1) by (intro clamped_x448_clamp) simp
  then show ?thesis
    using assms d clamped_x448_clamp x448_agreement clamp_clamped
    by (simp add: x448_generate_def x448_secret_from_bytes_def)
qed

end
