(* ===== verification/Hybrid_Kem.thy ===== *)
theory Hybrid_Kem
  imports Sntrup_Kem X448
begin

text \<open>
  The hybrid KEM X448 + sntrup761 (\<open>trelis-hybrid/src/combiner.rs\<close>, \<open>kem.rs\<close>): the two
  combiners, key pairs, public keys and encapsulations with their fixed-length codecs,
  encapsulation and decapsulation. The interface \<open>kem\<close> states what the session layers rely
  on; sntrup761 and the hybrid both provide it. The sntrup761 key generator's outcome is an
  argument of the key generators here.
\<close>

section \<open>Interface: a key encapsulation mechanism\<close>

locale kem =
  fixes encap :: "'c \<Rightarrow> 'pk \<Rightarrow> ('s \<times> 'e) outcome"
    and decap :: "'sk \<Rightarrow> 'e \<Rightarrow> 's outcome"
    and pair :: "'sk \<Rightarrow> 'pk \<Rightarrow> bool"
    and coins :: "'c \<Rightarrow> bool"
  assumes correct: "pair sk pk \<Longrightarrow> coins c \<Longrightarrow> encap c pk = Done (s, e) \<Longrightarrow> decap sk e = Done s"
begin

text \<open>An encapsulation determines its secret, whoever holds a matching key.\<close>

lemma encapsulation_determines_secret:
  "pair sk pk \<Longrightarrow> coins c \<Longrightarrow> coins c' \<Longrightarrow> encap c pk = Done (s, e) \<Longrightarrow> encap c' pk = Done (s', e) \<Longrightarrow> s = s'"
  using correct [of sk pk c s e] correct [of sk pk c' s' e] by simp

lemma key_holders_agree:
  "pair sk pk \<Longrightarrow> pair sk' pk \<Longrightarrow> coins c \<Longrightarrow> encap c pk = Done (s, e) \<Longrightarrow> decap sk e = decap sk' e"
  using correct [of sk pk c s e] correct [of sk' pk c s e] by simp

lemma decap_cannot_fail: "pair sk pk \<Longrightarrow> coins c \<Longrightarrow> encap c pk = Done (s, e) \<Longrightarrow> decap sk e \<noteq> Fail err"
  using correct [of sk pk c s e] by simp

end

section \<open>Combiners\<close>

definition hybrid_combine :: "primitives \<Rightarrow> bytes \<Rightarrow> bytes \<Rightarrow> bytes" where
  "hybrid_combine p x448_ss sntrup_ss = derive_key p HYBRID_KEM_CONTEXT (x448_ss @ sntrup_ss)"

definition v2_input :: "primitives \<Rightarrow> bytes \<Rightarrow> bytes \<Rightarrow> bytes \<Rightarrow> bytes \<Rightarrow> bytes \<Rightarrow> bytes" where
  "v2_input p x448_ss sntrup_ss ct_sntrup x448_eph pk_hybrid =
     b3hash p ct_sntrup @ b3hash p x448_eph @ b3hash p pk_hybrid @ x448_ss @ sntrup_ss"

definition hybrid_combine_v2 :: "primitives \<Rightarrow> bytes \<Rightarrow> bytes \<Rightarrow> bytes \<Rightarrow> bytes \<Rightarrow> bytes \<Rightarrow> bytes" where
  "hybrid_combine_v2 p x448_ss sntrup_ss ct_sntrup x448_eph pk_hybrid =
     derive_key p HYBRID_KEM_V2_CONTEXT (v2_input p x448_ss sntrup_ss ct_sntrup x448_eph pk_hybrid)"

section \<open>Keys and encapsulations\<close>

definition X448_PK_SIZE :: nat where "X448_PK_SIZE = 56"
definition SNTRUP_PK_SIZE :: nat where "SNTRUP_PK_SIZE = 1158"
definition KEM_PUBLIC_KEY_SIZE :: nat where "KEM_PUBLIC_KEY_SIZE = X448_PK_SIZE + SNTRUP_PK_SIZE"
definition SNTRUP_CT_SIZE :: nat where "SNTRUP_CT_SIZE = 1039"
definition ENCAPSULATION_SIZE :: nat where "ENCAPSULATION_SIZE = 56 + SNTRUP_CT_SIZE"
definition X448_SK_SIZE :: nat where "X448_SK_SIZE = 56"
definition SNTRUP_SK_SIZE :: nat where "SNTRUP_SK_SIZE = 1763"
definition KEM_SECRET_KEY_SIZE :: nat where "KEM_SECRET_KEY_SIZE = X448_SK_SIZE + SNTRUP_SK_SIZE"
definition HYBRID_KEM_X448_SEED_CONTEXT :: string where "HYBRID_KEM_X448_SEED_CONTEXT = ''trelis-hybrid-x448''"
definition HYBRID_KEM_SNTRUP_SEED_CONTEXT :: string where
  "HYBRID_KEM_SNTRUP_SEED_CONTEXT = ''trelis-hybrid-sntrup761''"

lemmas kem_sizes = X448_PK_SIZE_def SNTRUP_PK_SIZE_def KEM_PUBLIC_KEY_SIZE_def SNTRUP_CT_SIZE_def
  ENCAPSULATION_SIZE_def X448_SK_SIZE_def SNTRUP_SK_SIZE_def KEM_SECRET_KEY_SIZE_def

record kem_public_key =
  pk_x448 :: bytes
  pk_sntrup :: bytes

record kem_keypair =
  kp_public :: kem_public_key
  x448_secret :: bytes
  sntrup_secret :: bytes

record hybrid_encapsulation =
  x448_ephemeral :: bytes
  sntrup_ciphertext :: bytes

definition kem_pk_to_bytes :: "kem_public_key \<Rightarrow> bytes" where
  "kem_pk_to_bytes pk = pk_x448 pk @ pk_sntrup pk"

definition kem_pk_from_bytes :: "bytes \<Rightarrow> kem_public_key result" where
  "kem_pk_from_bytes bs =
     (if length bs \<noteq> KEM_PUBLIC_KEY_SIZE then Inl (InvalidKeyLength KEM_PUBLIC_KEY_SIZE (length bs))
      else tryR (x448_public_from_bytes (take X448_PK_SIZE bs)) (\<lambda>x.
           tryR (sntrup_pk_from_bytes (drop X448_PK_SIZE bs)) (\<lambda>s.
           Inr \<lparr>pk_x448 = x, pk_sntrup = s\<rparr>)))"

definition derive_public :: "primitives \<Rightarrow> bytes \<Rightarrow> bytes \<Rightarrow> kem_public_key" where
  "derive_public p x s = \<lparr>pk_x448 = x448_public_key p x, pk_sntrup = sntrup_sk_public_key s\<rparr>"

definition kem_generate_inner :: "primitives \<Rightarrow> bytes option \<Rightarrow> bytes outcome \<Rightarrow> kem_keypair outcome" where
  "kem_generate_inner p rand sntrup_gen =
     bind_out (of_result (x448_generate rand)) (\<lambda>x.
     bind_out sntrup_gen (\<lambda>s.
     Done \<lparr>kp_public = derive_public p x s, x448_secret = x, sntrup_secret = s\<rparr>))"

text \<open>\<open>generate\<close> calls it on every target but Windows, where it runs on a thread of its own.\<close>

definition kem_generate :: "primitives \<Rightarrow> bytes option \<Rightarrow> bytes outcome \<Rightarrow> kem_keypair outcome" where
  "kem_generate p rand sntrup_gen = kem_generate_inner p rand sntrup_gen"

definition kem_generate_from_seed :: "primitives \<Rightarrow> (bytes \<Rightarrow> bytes outcome) \<Rightarrow> bytes \<Rightarrow> kem_keypair outcome" where
  "kem_generate_from_seed p sntrup_gen_from_seed seed =
     (let x448_seed = blake3_derive_key p HYBRID_KEM_X448_SEED_CONTEXT seed;
          sntrup_seed = blake3_derive_key p HYBRID_KEM_SNTRUP_SEED_CONTEXT seed;
          x = x448_generate_from_seed p x448_seed in
      bind_out (sntrup_gen_from_seed sntrup_seed) (\<lambda>s.
      Done \<lparr>kp_public = derive_public p x s, x448_secret = x, sntrup_secret = s\<rparr>))"

definition kem_keypair_to_bytes :: "kem_keypair \<Rightarrow> bytes" where
  "kem_keypair_to_bytes kp = x448_secret kp @ sntrup_secret kp"

definition kem_keypair_from_bytes :: "primitives \<Rightarrow> bytes \<Rightarrow> kem_keypair result" where
  "kem_keypair_from_bytes p bs =
     (if length bs \<noteq> KEM_SECRET_KEY_SIZE then Inl (InvalidKeyLength KEM_SECRET_KEY_SIZE (length bs))
      else let x = x448_secret_from_bytes (take X448_SK_SIZE bs) in
           tryR (sntrup_sk_from_bytes (drop X448_SK_SIZE bs)) (\<lambda>s.
           Inr \<lparr>kp_public = derive_public p x s, x448_secret = x, sntrup_secret = s\<rparr>))"

definition encapsulation_to_bytes :: "hybrid_encapsulation \<Rightarrow> bytes" where
  "encapsulation_to_bytes e = x448_ephemeral e @ sntrup_ciphertext e"

definition encapsulation_from_bytes :: "bytes \<Rightarrow> hybrid_encapsulation result" where
  "encapsulation_from_bytes bs =
     (if length bs \<noteq> ENCAPSULATION_SIZE then Inl DecapsulationFailed
      else tryR (x448_public_from_bytes (take 56 bs)) (\<lambda>x.
           tryR (sntrup_ct_from_bytes (drop 56 bs)) (\<lambda>c.
           Inr \<lparr>x448_ephemeral = x, sntrup_ciphertext = c\<rparr>)))"

section \<open>Encapsulation and decapsulation\<close>

text \<open>The coins: the bytes for the ephemeral secret, and sntrup761's draws.\<close>

type_synonym kem_coins = "bytes option \<times> (nat \<Rightarrow> int list option)"

definition kem_encapsulate ::
  "primitives \<Rightarrow> kem_coins \<Rightarrow> kem_public_key \<Rightarrow> (bytes \<times> hybrid_encapsulation) outcome" where
  "kem_encapsulate p coins pk =
     bind_out (of_result (x448_generate (fst coins))) (\<lambda>eph.
     let eph_public = x448_public_key p eph in
     bind_out (of_result (x448_diffie_hellman p eph (pk_x448 pk))) (\<lambda>x448_ss.
     bind_out (sntrup_encapsulate p (snd coins) (pk_sntrup pk)) (\<lambda>(sntrup_ss, ct).
     Done (hybrid_combine_v2 p x448_ss sntrup_ss ct eph_public (kem_pk_to_bytes pk),
       \<lparr>x448_ephemeral = eph_public, sntrup_ciphertext = ct\<rparr>))))"

definition kem_decapsulate :: "primitives \<Rightarrow> kem_keypair \<Rightarrow> hybrid_encapsulation \<Rightarrow> bytes outcome" where
  "kem_decapsulate p kp e =
     bind_out (of_result (x448_diffie_hellman p (x448_secret kp) (x448_ephemeral e))) (\<lambda>x448_ss.
     bind_out (or_panic (sntrup_decapsulate p (sntrup_secret kp) (sntrup_ciphertext e))) (\<lambda>sntrup_ss.
     Done (hybrid_combine_v2 p x448_ss sntrup_ss (sntrup_ciphertext e) (x448_ephemeral e)
       (kem_pk_to_bytes (kp_public kp)))))"

section \<open>Well-formedness\<close>

definition keypair_wf :: "primitives \<Rightarrow> kem_keypair \<Rightarrow> bool" where
  "keypair_wf p kp \<longleftrightarrow> x448_clamped (x448_secret kp) \<and> length (sntrup_secret kp) = SNTRUP_SK_SIZE
     \<and> kp_public kp = derive_public p (x448_secret kp) (sntrup_secret kp)"

definition kem_pk_wf :: "kem_public_key \<Rightarrow> bool" where
  "kem_pk_wf pk \<longleftrightarrow> length (pk_x448 pk) = X448_PK_SIZE \<and> length (pk_sntrup pk) = SNTRUP_PK_SIZE"

definition encapsulation_wf :: "hybrid_encapsulation \<Rightarrow> bool" where
  "encapsulation_wf e \<longleftrightarrow> length (x448_ephemeral e) = 56 \<and> length (sntrup_ciphertext e) = SNTRUP_CT_SIZE"

definition sntrup_pair :: "primitives \<Rightarrow> bytes \<Rightarrow> bytes \<Rightarrow> bool" where
  "sntrup_pair p sk pk \<longleftrightarrow> prims_ok p \<and> (\<exists>f g ginv h rho. sntrup_keypair p f g ginv h rho sk pk)"

definition draws_ok :: "(nat \<Rightarrow> int list option) \<Rightarrow> bool" where
  "draws_ok draws \<longleftrightarrow> (\<forall>k s. draws k = Some s \<longrightarrow> small_poly s)"

definition kem_pair :: "primitives \<Rightarrow> kem_keypair \<Rightarrow> kem_public_key \<Rightarrow> bool" where
  "kem_pair p kp pk \<longleftrightarrow> prims_ok p \<and> keypair_wf p kp \<and> kp_public kp = pk
     \<and> sntrup_pair p (sntrup_secret kp) (pk_sntrup pk)"

definition kem_coins_ok :: "kem_coins \<Rightarrow> bool" where
  "kem_coins_ok coins \<longleftrightarrow> (\<forall>r. fst coins = Some r \<longrightarrow> length r = 56) \<and> draws_ok (snd coins)"

section \<open>Lemmas\<close>

lemma length_decapsulated: "prims_ok p \<Longrightarrow> sntrup_decapsulate p sk ct = Some s \<Longrightarrow> length s = 32"
  by (auto simp: sntrup_decapsulate_def Let_def bind_eq_Some_conv split: if_splits)

lemma sntrup_encapsulate_Done:
  assumes "draws_ok draws" and "sntrup_encapsulate p draws pk = Done (ss, ct)"
  obtains r where "small_poly r" "weight r = W" "sntrup_encapsulate_with p pk r = Some (ss, ct)"
  using assms pick_short_eq [of draws MAX_KEYGEN_ATTEMPTS 0]
  by (cases "pick_short MAX_KEYGEN_ATTEMPTS draws 0") (auto simp: sntrup_encapsulate_def draws_ok_def)

interpretation sntrup: kem "sntrup_encapsulate p" "\<lambda>sk ct. or_panic (sntrup_decapsulate p sk ct)"
  "sntrup_pair p" draws_ok
  for p
proof
  fix sk pk draws ss ct
  assume "sntrup_pair p sk pk" and d: "draws_ok draws" "sntrup_encapsulate p draws pk = Done (ss, ct)"
  then obtain f g ginv h rho where kp: "prims_ok p" "sntrup_keypair p f g ginv h rho sk pk"
    by (auto simp: sntrup_pair_def)
  from sntrup_encapsulate_Done [OF d] obtain r
    where "small_poly r" "weight r = W" "sntrup_encapsulate_with p pk r = Some (ss, ct)" .
  then show "or_panic (sntrup_decapsulate p sk ct) = Done ss"
    using decapsulate_correct_aux [OF kp] by simp
qed

interpretation hybrid: kem "kem_encapsulate p" "kem_decapsulate p" "kem_pair p" kem_coins_ok
  for p
proof
  fix kp pk coins s e
  assume pair: "kem_pair p kp pk" and c: "kem_coins_ok coins" and enc: "kem_encapsulate p coins pk = Done (s, e)"
  obtain r where r: "fst coins = Some r"
    using enc by (cases "fst coins") (auto simp: kem_encapsulate_def x448_generate_def)
  define eph where "eph = x448_clamp r"
  obtain xs ss ct where x: "x448_diffie_hellman p eph (pk_x448 pk) = Inr xs"
    and k: "sntrup_encapsulate p (snd coins) (pk_sntrup pk) = Done (ss, ct)"
    and s: "s = hybrid_combine_v2 p xs ss ct (x448_public_key p eph) (kem_pk_to_bytes pk)"
    and e: "e = \<lparr>x448_ephemeral = x448_public_key p eph, sntrup_ciphertext = ct\<rparr>"
    using enc by (auto simp: kem_encapsulate_def x448_generate_def r eph_def bind_out_eq_Done Let_def)
  have "x448_clamped eph" using c r by (simp add: kem_coins_ok_def eph_def clamped_x448_clamp)
  then have "x448_diffie_hellman p (x448_secret kp) (x448_public_key p eph) = Inr xs"
    using pair x x448_agreement [of p "x448_secret kp" eph]
    by (simp add: kem_pair_def keypair_wf_def derive_public_def) (metis kem_public_key.select_convs(1))
  moreover have "or_panic (sntrup_decapsulate p (sntrup_secret kp) ct) = Done ss"
    using pair c k sntrup.correct [of p "sntrup_secret kp" "pk_sntrup pk" "snd coins" ss ct] by (simp add: kem_pair_def kem_coins_ok_def)
  ultimately show "kem_decapsulate p kp e = Done s"
    using pair by (simp add: kem_decapsulate_def e s kem_pair_def)
qed

lemma length_sntrup_ct:
  assumes "draws_ok draws" and "prims_ok p" and "sntrup_encapsulate p draws pk = Done (ss, ct)"
  shows "length ct = CIPHERTEXT_BYTES"
proof -
  from sntrup_encapsulate_Done [OF assms(1,3)] obtain r
    where r: "small_poly r" "sntrup_encapsulate_with p pk r = Some (ss, ct)" .
  obtain hh hr where hr: "rq_decode pk = Some hh" "rq_mult_r3 hh r = Some hr" "rq_poly hr"
    using rq_decode_total [of pk] rq_mult_r3_facts rq_poly_list_all r(1) by metis
  show ?thesis
    using r hr round_rq_facts(3) [OF hr(3)] assms(2)
    by (auto simp: sntrup_encapsulate_with_def Let_def bind_eq_Some_conv CIPHERTEXT_BYTES_def CONFIRM_BYTES_def)
qed

lemma encapsulate_wf:
  assumes "prims_ok p" and "kem_coins_ok coins" and "kem_encapsulate p coins pk = Done (k, e)"
  shows "encapsulation_wf e"
proof -
  obtain r xs ss ct where "fst coins = Some r" "sntrup_encapsulate p (snd coins) (pk_sntrup pk) = Done (ss, ct)"
    "e = \<lparr>x448_ephemeral = x448_public_key p (x448_clamp r), sntrup_ciphertext = ct\<rparr>"
    using assms(3) by (cases "fst coins") (auto simp: kem_encapsulate_def x448_generate_def bind_out_eq_Done Let_def)
  then show ?thesis
    using assms length_sntrup_ct [of "snd coins" p "pk_sntrup pk" ss ct]
    by (simp add: encapsulation_wf_def kem_coins_ok_def kem_sizes sntrup_sizes x448_public_key_def)
qed

definition toy_kem_keypair :: kem_keypair where
  "toy_kem_keypair = \<lparr>kp_public = derive_public toy_prims (x448_clamp (replicate 56 9)) toy_sk,
     x448_secret = x448_clamp (replicate 56 9), sntrup_secret = toy_sk\<rparr>"

definition toy_coins :: kem_coins where
  "toy_coins = (Some (replicate 56 6), \<lambda>_. Some short_poly)"

lemma toy_kem_pair: "kem_pair toy_prims toy_kem_keypair (kp_public toy_kem_keypair)"
  using length_assembled_sk [OF toy_keypair toy_prims_ok] toy_keypair toy_prims_ok clamped_x448_clamp
  by (simp add: kem_pair_def keypair_wf_def toy_kem_keypair_def sntrup_pair_def derive_public_def
      sntrup_sizes kem_sizes) blast

lemma toy_coins_ok: "kem_coins_ok toy_coins"
  using toy_polys(3) by (simp add: kem_coins_ok_def toy_coins_def draws_ok_def)

lemma toy_dh: "x448_diffie_hellman toy_prims s q = Inr (replicate 56 5)"
proof -
  have "replicate 56 (5 :: u8) \<noteq> replicate 56 0" by (simp add: replicate_eq_replicate)
  then show ?thesis by (simp add: x448_diffie_hellman_def toy_prims_def)
qed

lemma toy_encapsulates:
  "\<exists>ss e. kem_encapsulate toy_prims toy_coins (kp_public toy_kem_keypair) = Done (ss, e)"
proof -
  have "pick_short MAX_KEYGEN_ATTEMPTS (\<lambda>_. Some short_poly) 0 \<noteq> Inl x" for x
  proof
    assume "pick_short MAX_KEYGEN_ATTEMPTS (\<lambda>_. Some short_poly) 0 = Inl x"
    then have "\<forall>j < MAX_KEYGEN_ATTEMPTS. weight short_poly \<noteq> W"
      using pick_short_eq [of "\<lambda>_. Some short_poly" MAX_KEYGEN_ATTEMPTS 0] toy_polys(3) by simp
    then show False using toy_polys(5) spec [of _ 0] by (fastforce simp: MAX_KEYGEN_ATTEMPTS_def)
  qed
  then obtain r where r: "pick_short MAX_KEYGEN_ATTEMPTS (\<lambda>_. Some short_poly) 0 = Inr r"
    by (cases "pick_short MAX_KEYGEN_ATTEMPTS (\<lambda>_. Some short_poly) 0") auto
  then have "small_poly r"
    using pick_short_eq [of "\<lambda>_. Some short_poly" MAX_KEYGEN_ATTEMPTS 0] toy_polys(3) by simp
  then obtain out where "sntrup_encapsulate toy_prims (\<lambda>_. Some short_poly) (pk_sntrup (kp_public toy_kem_keypair)) = Done out"
    using encapsulate_with_total r by (force simp: sntrup_encapsulate_def)
  then obtain ss e where "kem_encapsulate toy_prims toy_coins (kp_public toy_kem_keypair) = Done (ss, e)"
    by (cases out) (auto simp: kem_encapsulate_def toy_coins_def x448_generate_def toy_dh Let_def)
  then show ?thesis by blast
qed

section \<open>Canonical encodings\<close>

definition public_key_valid :: "kem_public_key \<Rightarrow> bool" where
  "public_key_valid pk \<longleftrightarrow> kem_pk_wf pk \<and> pk_sntrup pk \<noteq> replicate SNTRUP_PK_SIZE 0"

lemma length_kem_codecs: "kem_pk_wf pk \<Longrightarrow> length (kem_pk_to_bytes pk) = 1214"
    "encapsulation_wf e \<Longrightarrow> length (encapsulation_to_bytes e) = 1095"
  by (simp_all add: kem_pk_wf_def kem_pk_to_bytes_def encapsulation_wf_def encapsulation_to_bytes_def kem_sizes)

lemma zeros_iff: "list_all (\<lambda>b. b = 0) xs \<longleftrightarrow> xs = replicate (length xs) (0 :: u8)"
  by (induction xs) auto

lemma kem_pk_codec: "public_key_valid pk \<Longrightarrow> kem_pk_from_bytes (kem_pk_to_bytes pk) = Inr pk"
  using zeros_iff [of "pk_sntrup pk"]
  by (simp add: public_key_valid_def kem_pk_wf_def kem_pk_from_bytes_def kem_pk_to_bytes_def kem_sizes
      x448_public_from_bytes_def sntrup_pk_from_bytes_def sntrup_sizes)

lemma encapsulation_codec: "encapsulation_wf e \<Longrightarrow> encapsulation_from_bytes (encapsulation_to_bytes e) = Inr e"
  by (simp add: encapsulation_wf_def encapsulation_from_bytes_def encapsulation_to_bytes_def
      kem_sizes x448_public_from_bytes_def sntrup_ct_from_bytes_def sntrup_sizes)

interpretation kem_pk: strict_codec kem_pk_to_bytes kem_pk_from_bytes public_key_valid
proof
  fix bs pk
  assume "kem_pk_from_bytes bs = Inr pk"
  then show "public_key_valid pk \<and> kem_pk_to_bytes pk = bs"
    using zeros_iff [of "drop 56 bs"]
    by (auto simp: kem_pk_from_bytes_def x448_public_from_bytes_def sntrup_pk_from_bytes_def kem_sizes sntrup_sizes
        kem_pk_to_bytes_def kem_pk_wf_def public_key_valid_def split: if_splits)
qed (rule kem_pk_codec)

interpretation encapsulation: strict_codec encapsulation_to_bytes encapsulation_from_bytes encapsulation_wf
proof
  fix bs e
  assume "encapsulation_from_bytes bs = Inr e"
  then show "encapsulation_wf e \<and> encapsulation_to_bytes e = bs"
    by (auto simp: encapsulation_from_bytes_def x448_public_from_bytes_def sntrup_ct_from_bytes_def kem_sizes
        sntrup_sizes encapsulation_to_bytes_def encapsulation_wf_def split: if_splits)
qed (rule encapsulation_codec)

section \<open>Properties\<close>

text \<open>C1. The hybrid KEM is correct: whatever \<open>encapsulate\<close> returns for the public key of a key pair,
  \<open>decapsulate\<close> with the key pair returns the same shared secret, and it never fails or panics.\<close>

theorem hybrid_kem_correct:
  assumes "kem_pair p kp pk" and "kem_coins_ok coins" and "kem_encapsulate p coins pk = Done (ss, e)"
  shows "kem_decapsulate p kp e = Done ss"
  using assms by (rule hybrid.correct)

theorem hybrid_kem_correct_witness:
  "\<exists>ss e. kem_encapsulate toy_prims toy_coins (kp_public toy_kem_keypair) = Done (ss, e)
    \<and> kem_decapsulate toy_prims toy_kem_keypair e = Done ss"
  using hybrid_kem_correct [OF toy_kem_pair toy_coins_ok] toy_encapsulates by blast

lemma v2_input_inject:
  assumes "prims_ok p" and "length x = length x'"
  shows "v2_input p x s ct eph pk = v2_input p x' s' ct' eph' pk' \<longleftrightarrow>
    x = x' \<and> s = s' \<and> b3hash p ct = b3hash p ct' \<and> b3hash p eph = b3hash p eph' \<and> b3hash p pk = b3hash p pk'"
  using assms by (auto simp: v2_input_def append_eq_append_conv)

text \<open>The shared secret binds ciphertext and public key: two decapsulations, by any two key pairs
  of any two encapsulations, are KDF outputs on 184-byte inputs that agree only if the digests
  of the sntrup761 ciphertexts, of the ephemeral keys and of the recipients' public keys and
  both component secrets agree. Equal secrets from different exchanges exhibit a collision.\<close>

lemma decapsulation_binds:
  assumes "prims_ok p"
    and "kem_decapsulate p kp e = Done k" and "kem_decapsulate p kp' e' = Done k'"
  shows "\<exists>x s x' s'.
      x448_diffie_hellman p (x448_secret kp) (x448_ephemeral e) = Inr x
    \<and> x448_diffie_hellman p (x448_secret kp') (x448_ephemeral e') = Inr x'
    \<and> sntrup_decapsulate p (sntrup_secret kp) (sntrup_ciphertext e) = Some s
    \<and> sntrup_decapsulate p (sntrup_secret kp') (sntrup_ciphertext e') = Some s'
    \<and> (let u = v2_input p x s (sntrup_ciphertext e) (x448_ephemeral e) (kem_pk_to_bytes (kp_public kp));
           u' = v2_input p x' s' (sntrup_ciphertext e') (x448_ephemeral e') (kem_pk_to_bytes (kp_public kp')) in
         k = derive_key p HYBRID_KEM_V2_CONTEXT u \<and> k' = derive_key p HYBRID_KEM_V2_CONTEXT u'
       \<and> length u = 184 \<and> length u' = 184
       \<and> (u = u' \<longleftrightarrow> x = x' \<and> s = s'
           \<and> b3hash p (sntrup_ciphertext e) = b3hash p (sntrup_ciphertext e')
           \<and> b3hash p (x448_ephemeral e) = b3hash p (x448_ephemeral e')
           \<and> b3hash p (kem_pk_to_bytes (kp_public kp)) = b3hash p (kem_pk_to_bytes (kp_public kp'))))"
proof -
  obtain x s where l: "x448_diffie_hellman p (x448_secret kp) (x448_ephemeral e) = Inr x"
    "sntrup_decapsulate p (sntrup_secret kp) (sntrup_ciphertext e) = Some s"
    "k = hybrid_combine_v2 p x s (sntrup_ciphertext e) (x448_ephemeral e) (kem_pk_to_bytes (kp_public kp))"
    using assms(2) by (auto simp: kem_decapsulate_def bind_out_eq_Done)
  obtain x' s' where r: "x448_diffie_hellman p (x448_secret kp') (x448_ephemeral e') = Inr x'"
    "sntrup_decapsulate p (sntrup_secret kp') (sntrup_ciphertext e') = Some s'"
    "k' = hybrid_combine_v2 p x' s' (sntrup_ciphertext e') (x448_ephemeral e') (kem_pk_to_bytes (kp_public kp'))"
    using assms(3) by (auto simp: kem_decapsulate_def bind_out_eq_Done)
  note len = length_x448_dh [OF assms(1) l(1)] length_x448_dh [OF assms(1) r(1)]
    length_decapsulated [OF assms(1) l(2)] length_decapsulated [OF assms(1) r(2)]
  show ?thesis
    using l r len assms(1) v2_input_inject [OF assms(1), of x x']
    by (simp add: hybrid_combine_v2_def Let_def) (simp add: v2_input_def)
qed

text \<open>The three serialised forms round-trip, and each decoder accepts nothing else: a public key
  (1214 bytes, its sntrup761 half not all zero), an encapsulation (1095 bytes) and a key pair
  (1819 bytes, the public half re-derived). What a decoder accepts it re-encodes to the same
  bytes, except that a key pair's X448 half comes back clamped.\<close>

lemma hybrid_codecs:
  assumes "kem_pk_wf pk" and "pk_sntrup pk \<noteq> replicate SNTRUP_PK_SIZE 0" and "encapsulation_wf e" and "keypair_wf p kp"
  shows "kem_pk_from_bytes (kem_pk_to_bytes pk) = Inr pk
    \<and> encapsulation_from_bytes (encapsulation_to_bytes e) = Inr e
    \<and> kem_keypair_from_bytes p (kem_keypair_to_bytes kp) = Inr kp
    \<and> (case kem_pk_from_bytes bs of
         Inr k \<Rightarrow> kem_pk_to_bytes k = bs \<and> kem_pk_wf k
       | Inl err \<Rightarrow> err = InvalidKeyLength KEM_PUBLIC_KEY_SIZE (length bs) \<and> length bs \<noteq> KEM_PUBLIC_KEY_SIZE
           \<or> err = DecapsulationFailed \<and> drop X448_PK_SIZE bs = replicate SNTRUP_PK_SIZE 0)
    \<and> (case encapsulation_from_bytes bs of
         Inr c \<Rightarrow> encapsulation_to_bytes c = bs \<and> encapsulation_wf c
       | Inl err \<Rightarrow> err = DecapsulationFailed \<and> length bs \<noteq> ENCAPSULATION_SIZE)
    \<and> (case kem_keypair_from_bytes p bs of
         Inr k \<Rightarrow> kem_keypair_to_bytes k = x448_clamp (take X448_SK_SIZE bs) @ drop X448_SK_SIZE bs \<and> keypair_wf p k
       | Inl err \<Rightarrow> err = InvalidKeyLength KEM_SECRET_KEY_SIZE (length bs) \<and> length bs \<noteq> KEM_SECRET_KEY_SIZE)"
proof -
  have zeros: "list_all (\<lambda>b. b = 0) xs \<longleftrightarrow> xs = replicate (length xs) 0" for xs :: bytes
    by (induction xs) auto
  have pk: "kem_pk_from_bytes (kem_pk_to_bytes pk) = Inr pk"
    using assms(1,2) zeros [of "pk_sntrup pk"]
    by (simp add: kem_pk_wf_def kem_pk_from_bytes_def kem_pk_to_bytes_def kem_sizes
        x448_public_from_bytes_def sntrup_pk_from_bytes_def sntrup_sizes)
  have e: "encapsulation_from_bytes (encapsulation_to_bytes e) = Inr e"
    using assms(3) by (simp add: encapsulation_wf_def encapsulation_from_bytes_def encapsulation_to_bytes_def
        kem_sizes x448_public_from_bytes_def sntrup_ct_from_bytes_def sntrup_sizes)
  have "length (x448_secret kp) = 56" using assms(4) by (simp add: keypair_wf_def x448_clamped_def)
  then have kp: "kem_keypair_from_bytes p (kem_keypair_to_bytes kp) = Inr kp"
    using assms(4) by (simp add: keypair_wf_def kem_keypair_from_bytes_def kem_keypair_to_bytes_def Let_def
        kem_sizes x448_secret_from_bytes_def clamp_clamped sntrup_sk_from_bytes_def sntrup_sizes)
  have pk2: "case kem_pk_from_bytes bs of
         Inr k \<Rightarrow> kem_pk_to_bytes k = bs \<and> kem_pk_wf k
       | Inl err \<Rightarrow> err = InvalidKeyLength KEM_PUBLIC_KEY_SIZE (length bs) \<and> length bs \<noteq> KEM_PUBLIC_KEY_SIZE
           \<or> err = DecapsulationFailed \<and> drop X448_PK_SIZE bs = replicate SNTRUP_PK_SIZE 0"
    using zeros [of "drop 56 bs"]
    by (simp add: kem_pk_from_bytes_def x448_public_from_bytes_def sntrup_pk_from_bytes_def kem_sizes sntrup_sizes
        kem_pk_to_bytes_def kem_pk_wf_def)
  have e2: "case encapsulation_from_bytes bs of
         Inr c \<Rightarrow> encapsulation_to_bytes c = bs \<and> encapsulation_wf c
       | Inl err \<Rightarrow> err = DecapsulationFailed \<and> length bs \<noteq> ENCAPSULATION_SIZE"
    by (simp add: encapsulation_from_bytes_def x448_public_from_bytes_def sntrup_ct_from_bytes_def kem_sizes sntrup_sizes
        encapsulation_to_bytes_def encapsulation_wf_def)
  have kp2: "case kem_keypair_from_bytes p bs of
         Inr k \<Rightarrow> kem_keypair_to_bytes k = x448_clamp (take X448_SK_SIZE bs) @ drop X448_SK_SIZE bs \<and> keypair_wf p k
       | Inl err \<Rightarrow> err = InvalidKeyLength KEM_SECRET_KEY_SIZE (length bs) \<and> length bs \<noteq> KEM_SECRET_KEY_SIZE"
    by (simp add: kem_keypair_from_bytes_def Let_def sntrup_sk_from_bytes_def kem_sizes sntrup_sizes
        x448_secret_from_bytes_def kem_keypair_to_bytes_def keypair_wf_def clamped_x448_clamp)
  show ?thesis using pk e kp pk2 e2 kp2 by blast
qed

end
