(* ===== verification/Hybrid_Signature.thy ===== *)
theory Hybrid_Signature
  imports Crypto_Primitives X448
begin

text \<open>
  Hybrid signatures: the Bird-of-Prey-2 combiner of Ed448 and ML-DSA-65
  (\<open>trelis-hybrid/src/signature.rs\<close>) and the Schnorr surface it needs
  (\<open>trelis-primitives/src/ed448.rs\<close>). The curve crate and SHAKE256 are parameters, and so is
  the ML-DSA scheme, which the code takes as a type parameter; \<open>suite_ok\<close> states their
  documented laws. Curve points are opaque and numbered by naturals, scalars are naturals below
  the group order, and the keys and signatures of ML-DSA are their encodings.
\<close>

section \<open>Parameters\<close>

record sig_suite =
  eg_order :: nat
  eg_gen :: nat
  eg_mul :: "nat \<Rightarrow> nat \<Rightarrow> nat"  \<comment> \<open>point, scalar\<close>
  eg_sub :: "nat \<Rightarrow> nat \<Rightarrow> nat"
  eg_compress :: "nat \<Rightarrow> bytes"
  eg_decompress :: "bytes \<Rightarrow> nat option"
  eg_shake256 :: "bytes \<Rightarrow> bytes"  \<comment> \<open>the first 114 bytes\<close>
  eg_verifying_key :: "bytes \<Rightarrow> bytes"  \<comment> \<open>seed\<close>
  eg_valid_key :: "bytes \<Rightarrow> bool"
  md_generate :: "bytes \<Rightarrow> bytes result"  \<comment> \<open>the system generator's bytes\<close>
  md_generate_from_seed :: "bytes \<Rightarrow> bytes result"
  md_verifying_key :: "bytes \<Rightarrow> bytes"
  md_sign_hedged :: "bytes \<Rightarrow> bytes \<Rightarrow> bytes \<Rightarrow> bytes result"  \<comment> \<open>entropy, secret key, message\<close>
  md_verify :: "bytes \<Rightarrow> bytes \<Rightarrow> bytes \<Rightarrow> unit result"
  md_key_from_bytes :: "bytes \<Rightarrow> bytes result"
  md_vk_from_bytes :: "bytes \<Rightarrow> bytes result"
  md_sig_from_bytes :: "bytes \<Rightarrow> bytes result"

section \<open>Ed448 scalars and the Schnorr surface\<close>

fun le_nat :: "bytes \<Rightarrow> nat" where
  "le_nat [] = 0"
| "le_nat (b # bs) = unat b + 256 * le_nat bs"

fun nat_le :: "nat \<Rightarrow> nat \<Rightarrow> bytes" where
  "nat_le 0 n = []"
| "nat_le (Suc k) n = of_nat (n mod 256) # nat_le k (n div 256)"

definition ed448_clamp :: "bytes \<Rightarrow> bytes" where
  "ed448_clamp bs = (let bs = bs[0 := bs ! 0 AND 0xFC]; bs = bs[56 := 0] in bs[55 := bs ! 55 OR 0x80])"

definition bop_secret_scalar :: "sig_suite \<Rightarrow> bytes \<Rightarrow> nat" where
  "bop_secret_scalar g seed = le_nat (ed448_clamp (take 57 (eg_shake256 g seed))) mod eg_order g"

definition bop_reduce_challenge :: "sig_suite \<Rightarrow> bytes \<Rightarrow> nat" where
  "bop_reduce_challenge g challenge_wide = le_nat challenge_wide mod eg_order g"

record ed448_signing_key =
  ed_seed :: bytes
  ed_scalar :: nat

definition ed448_from_seed :: "sig_suite \<Rightarrow> bytes \<Rightarrow> ed448_signing_key" where
  "ed448_from_seed g seed = \<lparr>ed_seed = seed, ed_scalar = bop_secret_scalar g seed\<rparr>"

definition ed448_generate :: "sig_suite \<Rightarrow> bytes option \<Rightarrow> ed448_signing_key result" where
  "ed448_generate g rand =
     tryR (fill_bytes rand) (\<lambda>seed. Inr \<lparr>ed_seed = seed, ed_scalar = bop_secret_scalar g seed\<rparr>)"

definition ed448_verifying_key :: "sig_suite \<Rightarrow> ed448_signing_key \<Rightarrow> bytes" where
  "ed448_verifying_key g sk = eg_verifying_key g (ed_seed sk)"

definition ed448_vk_from_bytes :: "sig_suite \<Rightarrow> bytes \<Rightarrow> bytes result" where
  "ed448_vk_from_bytes g bs =
     (if length bs \<noteq> 57 then Inl (InvalidKeyLength 57 (length bs))
      else if eg_valid_key g bs then Inr bs else Inl SignatureVerificationFailed)"

record bop_nonce =
  nonce_r :: nat
  nonce_s :: nat

definition bop_commit :: "sig_suite \<Rightarrow> bytes option \<Rightarrow> ed448_signing_key \<Rightarrow> (bytes \<times> bop_nonce) result" where
  "bop_commit g rand sk =
     tryR (fill_bytes rand) (\<lambda>buf.
     let r = le_nat buf mod eg_order g in
     Inr (eg_compress g (eg_mul g (eg_gen g) r), \<lparr>nonce_r = r, nonce_s = ed_scalar sk\<rparr>))"

definition bop_respond :: "sig_suite \<Rightarrow> bop_nonce \<Rightarrow> bytes \<Rightarrow> bytes" where
  "bop_respond g n challenge_wide =
     (let chl = bop_reduce_challenge g challenge_wide;
          rsp = (nonce_r n + chl * nonce_s n) mod eg_order g in nat_le 56 rsp @ [0])"

definition canonical_scalar :: "sig_suite \<Rightarrow> bytes \<Rightarrow> nat option" where
  "canonical_scalar g bs = (let n = le_nat (take 56 bs) in if n < eg_order g then Some n else None)"

definition guard_canonical :: "sig_suite \<Rightarrow> bytes \<Rightarrow> unit result" where
  "guard_canonical g bs =
     (if bs ! 56 \<noteq> 0 then Inl InvalidSignature
      else if canonical_scalar g bs = None then Inl InvalidSignature else Inr ())"

definition bop_response_from_bytes :: "sig_suite \<Rightarrow> bytes \<Rightarrow> bytes result" where
  "bop_response_from_bytes g bs =
     (if length bs \<noteq> 57 then Inl InvalidSignature else tryR (guard_canonical g bs) (\<lambda>_. Inr bs))"

definition bop_to_scalar :: "sig_suite \<Rightarrow> bytes \<Rightarrow> nat result" where
  "bop_to_scalar g rsp = tryR (guard_canonical g rsp) (\<lambda>_. ok_or InvalidSignature (canonical_scalar g rsp))"

definition bop_extcom :: "sig_suite \<Rightarrow> bytes \<Rightarrow> bytes \<Rightarrow> bytes \<Rightarrow> bytes result" where
  "bop_extcom g vk challenge_wide rsp =
     tryR (case bop_to_scalar g rsp of Inl _ \<Rightarrow> Inl SignatureVerificationFailed | Inr x \<Rightarrow> Inr x) (\<lambda>rsp_scalar.
     tryR (ok_or SignatureVerificationFailed (eg_decompress g vk)) (\<lambda>a.
     let chl = bop_reduce_challenge g challenge_wide in
     Inr (eg_compress g (eg_sub g (eg_mul g (eg_gen g) rsp_scalar) (eg_mul g a chl)))))"

section \<open>Laws of the parameters\<close>

definition group_ok :: "sig_suite \<Rightarrow> bool" where
  "group_ok g \<longleftrightarrow>
     0 < eg_order g \<and> eg_order g \<le> 2 ^ 446
   \<and> (\<forall>a. eg_mul g (eg_gen g) (a mod eg_order g) = eg_mul g (eg_gen g) a)
   \<and> (\<forall>a b. eg_mul g (eg_mul g (eg_gen g) a) b = eg_mul g (eg_gen g) (b * a))
   \<and> (\<forall>a b. eg_sub g (eg_mul g (eg_gen g) (a + b)) (eg_mul g (eg_gen g) b) = eg_mul g (eg_gen g) a)
   \<and> (\<forall>a. eg_decompress g (eg_compress g (eg_mul g (eg_gen g) a)) = Some (eg_mul g (eg_gen g) a))
   \<and> (\<forall>x. length (eg_compress g x) = 57)
   \<and> (\<forall>vk A c s t. eg_decompress g vk = Some A \<longrightarrow> s < eg_order g \<longrightarrow> t < eg_order g \<longrightarrow>
        eg_compress g (eg_sub g (eg_mul g (eg_gen g) s) (eg_mul g A c))
          = eg_compress g (eg_sub g (eg_mul g (eg_gen g) t) (eg_mul g A c)) \<longrightarrow> s = t)
   \<and> (\<forall>seed. eg_verifying_key g seed = eg_compress g (eg_mul g (eg_gen g) (bop_secret_scalar g seed))
        \<and> eg_valid_key g (eg_verifying_key g seed))"

text \<open>The laws of ML-DSA are about keys its two generators return, never about other byte strings that
  \<open>md_key_from_bytes\<close> accepts: such a key may sign what its verifying key rejects.\<close>

definition md_key :: "sig_suite \<Rightarrow> bytes \<Rightarrow> bool" where
  "md_key g sk \<longleftrightarrow> (\<exists>rand. md_generate g rand = Inr sk) \<or> (\<exists>seed. md_generate_from_seed g seed = Inr sk)"

definition mldsa_ok :: "sig_suite \<Rightarrow> bool" where
  "mldsa_ok g \<longleftrightarrow>
     (\<forall>sk. md_key g sk \<longrightarrow> length (md_verifying_key g sk) = 1952
        \<and> md_vk_from_bytes g (md_verifying_key g sk) = Inr (md_verifying_key g sk))
   \<and> (\<forall>e sk m s. md_key g sk \<longrightarrow> md_sign_hedged g e sk m = Inr s \<longrightarrow>
        length s = 3309 \<and> md_sig_from_bytes g s = Inr s \<and> md_verify g (md_verifying_key g sk) m s = Inr ())
   \<and> (\<forall>bs v. md_vk_from_bytes g bs = Inr v \<longrightarrow> v = bs)
   \<and> (\<forall>bs v. md_sig_from_bytes g bs = Inr v \<longrightarrow> v = bs)
   \<and> (\<forall>bs v. md_key_from_bytes g bs = Inr v \<longrightarrow> v = bs)"

definition suite_ok :: "sig_suite \<Rightarrow> bool" where
  "suite_ok g \<longleftrightarrow> group_ok g \<and> mldsa_ok g"

lemma suite_group:
  assumes "suite_ok g"
  shows "0 < eg_order g" "eg_order g \<le> 2 ^ 446"
    "eg_mul g (eg_gen g) (a mod eg_order g) = eg_mul g (eg_gen g) a"
    "eg_mul g (eg_mul g (eg_gen g) a) b = eg_mul g (eg_gen g) (b * a)"
    "eg_sub g (eg_mul g (eg_gen g) (a + b)) (eg_mul g (eg_gen g) b) = eg_mul g (eg_gen g) a"
    "eg_decompress g (eg_compress g (eg_mul g (eg_gen g) a)) = Some (eg_mul g (eg_gen g) a)"
    "length (eg_compress g x) = 57"
    "eg_verifying_key g seed = eg_compress g (eg_mul g (eg_gen g) (bop_secret_scalar g seed))"
    "eg_valid_key g (eg_verifying_key g seed)"
  using assms unfolding suite_ok_def group_ok_def by blast+

lemma suite_extraction:
  assumes "suite_ok g" "eg_decompress g vk = Some A" "s < eg_order g" "t < eg_order g"
    "eg_compress g (eg_sub g (eg_mul g (eg_gen g) s) (eg_mul g A c))
      = eg_compress g (eg_sub g (eg_mul g (eg_gen g) t) (eg_mul g A c))"
  shows "s = t"
  using assms unfolding suite_ok_def group_ok_def by blast

lemma suite_mldsa:
  assumes "suite_ok g"
  shows "md_key g sk \<Longrightarrow> length (md_verifying_key g sk) = 1952"
    "md_key g sk \<Longrightarrow> md_vk_from_bytes g (md_verifying_key g sk) = Inr (md_verifying_key g sk)"
    "md_key g sk \<Longrightarrow> md_sign_hedged g e sk m = Inr s \<Longrightarrow> length s = 3309"
    "md_key g sk \<Longrightarrow> md_sign_hedged g e sk m = Inr s \<Longrightarrow> md_sig_from_bytes g s = Inr s"
    "md_key g sk \<Longrightarrow> md_sign_hedged g e sk m = Inr s \<Longrightarrow> md_verify g (md_verifying_key g sk) m s = Inr ()"
    "md_vk_from_bytes g bs = Inr v \<Longrightarrow> v = bs" "md_sig_from_bytes g bs = Inr v \<Longrightarrow> v = bs"
    "md_key_from_bytes g bs = Inr v \<Longrightarrow> v = bs"
  using assms unfolding suite_ok_def mldsa_ok_def by blast+

text \<open>An instance for the witnesses: the integers modulo 5, and signatures anyone can make.\<close>

definition toy_suite :: sig_suite where
  "toy_suite = \<lparr>eg_order = 5, eg_gen = 1, eg_mul = (\<lambda>x s. x * s mod 5), eg_sub = (\<lambda>x y. (x + 4 * y) mod 5),
     eg_compress = (\<lambda>x. of_nat x # replicate 56 0),
     eg_decompress = (\<lambda>bs. Some (unat (hd bs) mod 5)), eg_shake256 = (\<lambda>_. replicate 114 1),
     eg_verifying_key = (\<lambda>_. of_nat (le_nat (ed448_clamp (replicate 57 1)) mod 5) # replicate 56 0),
     eg_valid_key = (\<lambda>_. True), md_generate = (\<lambda>_. Inr (replicate 4032 2)), md_generate_from_seed = (\<lambda>_. Inr (replicate 4032 2)),
     md_verifying_key = (\<lambda>_. replicate 1952 3), md_sign_hedged = (\<lambda>_ _ _. Inr (replicate 3309 4)),
     md_verify = (\<lambda>_ _ _. Inr ()), md_key_from_bytes = Inr, md_vk_from_bytes = Inr, md_sig_from_bytes = Inr\<rparr>"

lemma toy_suite_simps:
  "eg_order toy_suite = 5" "eg_gen toy_suite = 1" "eg_mul toy_suite x a = x * a mod 5"
  "eg_sub toy_suite x y = (x + 4 * y) mod 5" "eg_compress toy_suite x = of_nat x # replicate 56 0"
  "eg_decompress toy_suite bs = Some (unat (hd bs) mod 5)" "eg_shake256 toy_suite seed = replicate 114 1"
  "eg_verifying_key toy_suite seed = of_nat (le_nat (ed448_clamp (replicate 57 1)) mod 5) # replicate 56 0"
  "eg_valid_key toy_suite bs" "md_generate toy_suite e = Inr (replicate 4032 2)" "md_verifying_key toy_suite sk = replicate 1952 3"
  "md_sign_hedged toy_suite e sk m = Inr (replicate 3309 4)" "md_verify toy_suite vk m sg = Inr ()"
  "md_key_from_bytes toy_suite bs = Inr bs" "md_vk_from_bytes toy_suite bs = Inr bs" "md_sig_from_bytes toy_suite bs = Inr bs"
  by (simp_all add: toy_suite_def)

lemma toy_group_laws:
  "a mod 5 * 1 mod 5 = a mod (5 :: nat)" "1 * (a mod 5) mod 5 = 1 * a mod (5 :: nat)"
  "(1 * a mod 5) * b mod 5 = 1 * (b * a) mod (5 :: nat)"
  "(1 * (a + b) mod 5 + 4 * (1 * b mod 5)) mod 5 = 1 * a mod (5 :: nat)"
proof -
  show "(1 * (a + b) mod 5 + 4 * (1 * b mod 5)) mod 5 = 1 * a mod (5 :: nat)"
  proof -
    have "(1 * (a + b) mod 5 + 4 * (1 * b mod 5)) mod 5 = (a + b + 4 * b) mod 5"
      by (rule mod_add_cong) (simp_all add: mod_mult_right_eq)
    also have "a + b + 4 * b = a + 5 * b" by simp
    finally show ?thesis by simp
  qed
  show "(1 * a mod 5) * b mod 5 = 1 * (b * a) mod (5 :: nat)" by (simp only: mult_1 mod_mult_left_eq mult.commute [of b a])
qed simp_all

lemma toy_suite_ok: "suite_ok toy_suite"
proof -
  have small: "unat (of_nat n :: u8) = n" if "n < 5" for n
    using that by (simp add: unsigned_of_nat take_bit_nat_eq_self)
  have inj: "s = t" if "s < 5" "t < 5" "(of_nat ((1 * s mod 5 + 4 * d) mod 5) :: u8) = of_nat ((1 * t mod 5 + 4 * d) mod 5)"
    for s t d :: nat
  proof -
    have "(1 * s mod 5 + 4 * d) mod 5 = (1 * t mod 5 + 4 * d) mod 5"
      using small [of "(1 * s mod 5 + 4 * d) mod 5"] small [of "(1 * t mod 5 + 4 * d) mod 5"] that(3)
      by (metis mod_less_divisor zero_less_numeral)
    then have "(s + 4 * d + d) mod 5 = (t + 4 * d + d) mod 5"
      by (metis mod_add_left_eq mult_1)
    moreover have "(x + 4 * d + d) mod 5 = x mod 5" for x :: nat
    proof -
      have "x + 4 * d + d = x + 5 * d" by simp
      then show ?thesis by simp
    qed
    ultimately show ?thesis using that(1,2) by simp
  qed
  have decode: "unat (of_nat (1 * a mod 5) :: u8) mod 5 = 1 * a mod 5" for a
    using small [of "1 * a mod 5"] by simp
  have key: "take 57 (replicate 114 1) = replicate 57 (1 :: u8)" by (simp add: min_def)
  show ?thesis
    unfolding suite_ok_def group_ok_def mldsa_ok_def toy_suite_simps bop_secret_scalar_def toy_group_laws key
  proof (intro conjI allI impI)
    fix vk A c and s :: nat and t :: nat
    assume "s < 5" "t < 5"
      "(of_nat ((1 * s mod 5 + 4 * (A * c mod 5)) mod 5) :: u8) # replicate 56 0
        = of_nat ((1 * t mod 5 + 4 * (A * c mod 5)) mod 5) # replicate 56 0"
    then show "s = t" using inj [of s t "A * c mod 5"] by blast
  qed (use decode in \<open>auto simp: toy_suite_simps\<close>)
qed

section \<open>Scalars and their encodings\<close>

lemma le_nat_append: "le_nat (xs @ ys) = le_nat xs + 256 ^ length xs * le_nat ys"
  by (induction xs) (auto simp: algebra_simps)

lemma le_nat_bound: "le_nat bs < 256 ^ length bs"
proof (induction bs)
  case Nil
  then show ?case by simp
next
  case (Cons b bs)
  have "unat b < 256" using unsigned_less [of b] by simp
  with Cons show ?case by simp
qed

lemma length_nat_le [simp]: "length (nat_le k n) = k"
  by (induction k arbitrary: n) auto

lemma le_nat_nat_le: "n < 256 ^ k \<Longrightarrow> le_nat (nat_le k n) = n"
proof (induction k arbitrary: n)
  case 0
  then show ?case by simp
next
  case (Suc k)
  have "unat (of_nat (n mod 256) :: u8) = n mod 256" by (simp add: unsigned_of_nat take_bit_nat_eq_self)
  moreover have "n div 256 < 256 ^ k" using Suc.prems by (simp add: less_mult_imp_div_less mult.commute)
  ultimately show ?case using Suc.IH by simp
qed

lemma nat_le_le_nat: "nat_le (length bs) (le_nat bs) = bs"
proof (induction bs)
  case Nil
  then show ?case by simp
next
  case (Cons b bs)
  have "unat b < 256" using unsigned_less [of b] by simp
  then show ?case using Cons by (simp add: div_add1_eq)
qed

lemma order_bound: "suite_ok g \<Longrightarrow> n < eg_order g \<Longrightarrow> n < 256 ^ 56"
  using suite_group(2) [of g] power_increasing [of 446 448 "2 :: nat"] power_mult [of "2 :: nat" 8 56] by simp

lemma canonical_response:
  assumes "suite_ok g" and "n < eg_order g"
  shows "bop_to_scalar g (nat_le 56 n @ [0]) = Inr n"
  using assms le_nat_nat_le [OF order_bound [OF assms]]
  by (simp add: bop_to_scalar_def guard_canonical_def canonical_scalar_def Let_def nth_append)

text \<open>A response is determined by its scalar: this is what the guard is for.\<close>

lemma canonical_response_unique:
  assumes "bop_to_scalar g r = Inr n" and "length r = 57"
  shows "r = nat_le 56 n @ [0] \<and> n < eg_order g"
proof -
  have r: "r ! 56 = 0" "le_nat (take 56 r) = n" "n < eg_order g"
    using assms(1) by (auto simp: bop_to_scalar_def guard_canonical_def canonical_scalar_def Let_def split: if_splits)
  have "r = take 56 r @ [r ! 56]" using assms(2) by (metis append.right_neutral lessI numeral_eq_Suc
        pred_numeral_simps take_Suc_conv_app_nth take_all order_refl eval_nat_numeral(3))
  with r assms(2) nat_le_le_nat [of "take 56 r"] show ?thesis by simp
qed

text \<open>The verifier extracts the commitment of an honest response.\<close>

lemma extcom_honest:
  assumes "suite_ok g" and "bop_commit g rand (ed448_from_seed g seed) = Inr (com, n)"
  shows "bop_extcom g (eg_verifying_key g seed) chl (bop_respond g n chl) = Inr com \<and> length com = 57"
proof -
  note law = suite_group [OF assms(1)]
  define s where "s = bop_secret_scalar g seed"
  define c where "c = bop_reduce_challenge g chl"
  obtain r where r: "com = eg_compress g (eg_mul g (eg_gen g) r)" "n = \<lparr>nonce_r = r, nonce_s = s\<rparr>" "r < eg_order g"
    using assms law(1) by (cases rand) (auto simp: bop_commit_def ed448_from_seed_def s_def Let_def)
  have rsp: "bop_to_scalar g (bop_respond g n chl) = Inr ((r + c * s) mod eg_order g)"
    using canonical_response [OF assms(1), of "(r + c * s) mod eg_order g"] law(1)
    by (simp add: bop_respond_def r c_def)
  have "eg_sub g (eg_mul g (eg_gen g) (r + c * s)) (eg_mul g (eg_mul g (eg_gen g) s) c) = eg_mul g (eg_gen g) r"
    using law(4,5) by simp
  then show ?thesis
    using rsp law(3,6,7) by (simp add: bop_extcom_def law(8) s_def [symmetric] c_def [symmetric] r)
qed

section \<open>The combiner\<close>

definition HYBRID_SIGNING_ED448_SEED_CONTEXT :: string where
  "HYBRID_SIGNING_ED448_SEED_CONTEXT = ''trelis-hybrid-signing-ed448-v1''"
definition HYBRID_SIGNING_ED448_SEED_CONTEXT_2 :: string where
  "HYBRID_SIGNING_ED448_SEED_CONTEXT_2 = ''trelis-hybrid-signing-ed448-v1-2''"
definition HYBRID_SIGNING_MLDSA_SEED_CONTEXT :: string where
  "HYBRID_SIGNING_MLDSA_SEED_CONTEXT = ''trelis-hybrid-signing-mldsa-v1''"
definition SIG_BOP2_H1_CONTEXT :: string where "SIG_BOP2_H1_CONTEXT = ''trelis-hybrid-sig-bop2-h1-v1''"
definition SIG_BOP2_H2_CONTEXT :: string where "SIG_BOP2_H2_CONTEXT = ''trelis-hybrid-sig-bop2-h2-v1''"
definition SIG_BOP2_H1_CTX_CONTEXT :: string where "SIG_BOP2_H1_CTX_CONTEXT = ''trelis-hybrid-sig-bop2-h1-ctx-v1''"
definition SIG_BOP2_H1_PREHASH_CONTEXT :: string where
  "SIG_BOP2_H1_PREHASH_CONTEXT = ''trelis-hybrid-sig-bop2-h1-prehash-v1''"

record signing_public_key =
  spk_ed448 :: bytes
  spk_mldsa :: bytes

record signing_keypair =
  skp_public :: signing_public_key
  skp_ed448 :: ed448_signing_key
  skp_mldsa :: bytes

record hybrid_signature =
  sig_rsp :: bytes
  sig_mldsa :: bytes

datatype h1_domain = Plain | Context | Prehashed

primrec h1_context :: "h1_domain \<Rightarrow> string" where
  "h1_context Plain = SIG_BOP2_H1_CONTEXT"
| "h1_context Context = SIG_BOP2_H1_CTX_CONTEXT"
| "h1_context Prehashed = SIG_BOP2_H1_PREHASH_CONTEXT"

definition bop_m_prime :: "primitives \<Rightarrow> h1_domain \<Rightarrow> bytes \<Rightarrow> bytes \<Rightarrow> bytes \<Rightarrow> bytes \<Rightarrow> bytes" where
  "bop_m_prime p mode pk_id pk_sig message com = derive_key p (h1_context mode) (pk_id @ pk_sig @ message @ com)"

definition h2_challenge :: "primitives \<Rightarrow> bytes \<Rightarrow> bytes" where
  "h2_challenge p sigma2 = blake3_derive_xof p SIG_BOP2_H2_CONTEXT sigma2 114"

definition bop_context_region :: "bytes \<Rightarrow> bytes \<Rightarrow> bytes result" where
  "bop_context_region context message =
     (if length context > 255 then Inl (InvalidContextLength (length context) 255)
      else Inr ((of_nat (length context) :: u8) # context @ message))"

definition signing_from_components :: "sig_suite \<Rightarrow> ed448_signing_key \<Rightarrow> bytes \<Rightarrow> signing_keypair" where
  "signing_from_components g ed md =
     \<lparr>skp_public = \<lparr>spk_ed448 = ed448_verifying_key g ed, spk_mldsa = md_verifying_key g md\<rparr>,
      skp_ed448 = ed, skp_mldsa = md\<rparr>"

definition signing_generate :: "sig_suite \<Rightarrow> bytes option \<Rightarrow> bytes \<Rightarrow> signing_keypair result" where
  "signing_generate g rand md_rand =
     tryR (ed448_generate g rand) (\<lambda>ed.
     tryR (md_generate g md_rand) (\<lambda>md.
     Inr \<lparr>skp_public = \<lparr>spk_ed448 = ed448_verifying_key g ed, spk_mldsa = md_verifying_key g md\<rparr>,
       skp_ed448 = ed, skp_mldsa = md\<rparr>))"

definition signing_generate_from_seed :: "primitives \<Rightarrow> sig_suite \<Rightarrow> bytes \<Rightarrow> signing_keypair result" where
  "signing_generate_from_seed p g seed =
     (let part1 = derive_key p HYBRID_SIGNING_ED448_SEED_CONTEXT seed;
          part2 = derive_key p HYBRID_SIGNING_ED448_SEED_CONTEXT_2 seed;
          ed448_seed = part1 @ take 25 part2;
          mldsa_seed = derive_key p HYBRID_SIGNING_MLDSA_SEED_CONTEXT seed;
          ed = ed448_from_seed g ed448_seed in
      tryR (md_generate_from_seed g mldsa_seed) (\<lambda>md.
      Inr \<lparr>skp_public = \<lparr>spk_ed448 = ed448_verifying_key g ed, spk_mldsa = md_verifying_key g md\<rparr>,
        skp_ed448 = ed, skp_mldsa = md\<rparr>))"

definition signing_pk_to_bytes :: "signing_public_key \<Rightarrow> bytes" where
  "signing_pk_to_bytes pk = spk_ed448 pk @ spk_mldsa pk"

definition signing_pk_from_bytes :: "sig_suite \<Rightarrow> bytes \<Rightarrow> signing_public_key result" where
  "signing_pk_from_bytes g bs =
     (if length bs \<noteq> 2009 then Inl (InvalidKeyLength 2009 (length bs))
      else tryR (ed448_vk_from_bytes g (take 57 bs)) (\<lambda>ed.
           tryR (md_vk_from_bytes g (drop 57 bs)) (\<lambda>md.
           Inr \<lparr>spk_ed448 = ed, spk_mldsa = md\<rparr>)))"

definition signing_keypair_to_bytes :: "signing_keypair \<Rightarrow> bytes" where
  "signing_keypair_to_bytes kp = ed_seed (skp_ed448 kp) @ skp_mldsa kp"

definition signing_keypair_from_bytes :: "sig_suite \<Rightarrow> bytes \<Rightarrow> signing_keypair result" where
  "signing_keypair_from_bytes g bs =
     (if length bs \<noteq> 4089 then Inl (InvalidKeyLength 4089 (length bs))
      else let ed = ed448_from_seed g (take 57 bs) in
           tryR (md_key_from_bytes g (drop 57 bs)) (\<lambda>md.
           Inr \<lparr>skp_public = \<lparr>spk_ed448 = ed448_verifying_key g ed, spk_mldsa = md_verifying_key g md\<rparr>,
             skp_ed448 = ed, skp_mldsa = md\<rparr>))"

definition signature_to_bytes :: "hybrid_signature \<Rightarrow> bytes" where
  "signature_to_bytes s = sig_rsp s @ sig_mldsa s"

definition signature_from_bytes :: "sig_suite \<Rightarrow> bytes \<Rightarrow> hybrid_signature result" where
  "signature_from_bytes g bs =
     (if length bs \<noteq> 3366 then Inl InvalidSignature
      else tryR (bop_response_from_bytes g (take 57 bs)) (\<lambda>r.
           tryR (md_sig_from_bytes g (drop 57 bs)) (\<lambda>m.
           Inr \<lparr>sig_rsp = r, sig_mldsa = m\<rparr>)))"

text \<open>The randomness of a signature: the bytes of the Schnorr nonce and ML-DSA's entropy.\<close>

type_synonym sign_coins = "bytes option \<times> bytes"

definition bop_sign_core ::
  "primitives \<Rightarrow> sig_suite \<Rightarrow> sign_coins \<Rightarrow> signing_keypair \<Rightarrow> h1_domain \<Rightarrow> bytes \<Rightarrow> hybrid_signature result" where
  "bop_sign_core p g coins kp mode message =
     (let pk_id = spk_ed448 (skp_public kp); pk_sig = spk_mldsa (skp_public kp) in
      tryR (bop_commit g (fst coins) (skp_ed448 kp)) (\<lambda>(com, nonce).
      let m_prime = bop_m_prime p mode pk_id pk_sig message com in
      tryR (md_sign_hedged g (snd coins) (skp_mldsa kp) m_prime) (\<lambda>sg.
      let chl = h2_challenge p sg in
      Inr \<lparr>sig_rsp = bop_respond g nonce chl, sig_mldsa = sg\<rparr>)))"

definition hybrid_sign :: "primitives \<Rightarrow> sig_suite \<Rightarrow> sign_coins \<Rightarrow> signing_keypair \<Rightarrow> bytes \<Rightarrow> hybrid_signature result" where
  "hybrid_sign p g coins kp message = bop_sign_core p g coins kp Plain message"

definition sign_with_context ::
  "primitives \<Rightarrow> sig_suite \<Rightarrow> sign_coins \<Rightarrow> signing_keypair \<Rightarrow> bytes \<Rightarrow> bytes \<Rightarrow> hybrid_signature result" where
  "sign_with_context p g coins kp message context =
     tryR (bop_context_region context message) (\<lambda>region. bop_sign_core p g coins kp Context region)"

definition sign_prehashed ::
  "primitives \<Rightarrow> sig_suite \<Rightarrow> sign_coins \<Rightarrow> signing_keypair \<Rightarrow> string \<Rightarrow> bytes \<Rightarrow> hybrid_signature result" where
  "sign_prehashed p g coins kp context message =
     (let digest = derive_key p context message in bop_sign_core p g coins kp Prehashed digest)"

definition bop_verify_core ::
  "primitives \<Rightarrow> sig_suite \<Rightarrow> signing_public_key \<Rightarrow> h1_domain \<Rightarrow> bytes \<Rightarrow> hybrid_signature \<Rightarrow> unit result" where
  "bop_verify_core p g pk mode message s =
     (let chl = h2_challenge p (sig_mldsa s) in
      tryR (bop_extcom g (spk_ed448 pk) chl (sig_rsp s)) (\<lambda>com.
      let m_prime = bop_m_prime p mode (spk_ed448 pk) (spk_mldsa pk) message com in
      if md_verify g (spk_mldsa pk) m_prime (sig_mldsa s) = Inr () then Inr ()
      else Inl SignatureVerificationFailed))"

definition hybrid_verify :: "primitives \<Rightarrow> sig_suite \<Rightarrow> signing_public_key \<Rightarrow> bytes \<Rightarrow> hybrid_signature \<Rightarrow> unit result" where
  "hybrid_verify p g pk message s = bop_verify_core p g pk Plain message s"

definition verify_with_context ::
  "primitives \<Rightarrow> sig_suite \<Rightarrow> signing_public_key \<Rightarrow> bytes \<Rightarrow> bytes \<Rightarrow> hybrid_signature \<Rightarrow> unit result" where
  "verify_with_context p g pk message context s =
     tryR (bop_context_region context message) (\<lambda>region. bop_verify_core p g pk Context region s)"

definition verify_prehashed ::
  "primitives \<Rightarrow> sig_suite \<Rightarrow> signing_public_key \<Rightarrow> string \<Rightarrow> bytes \<Rightarrow> hybrid_signature \<Rightarrow> unit result" where
  "verify_prehashed p g pk context message s =
     (let digest = derive_key p context message in bop_verify_core p g pk Prehashed digest s)"

section \<open>Interface: a signature scheme\<close>

text \<open>What the protocols rely on: what a key pair signs its public key verifies.\<close>

locale signature_scheme =
  fixes sign :: "'c \<Rightarrow> 'sk \<Rightarrow> 'm \<Rightarrow> 'e + 's"
    and verify :: "'pk \<Rightarrow> 'm \<Rightarrow> 's \<Rightarrow> 'e + unit"
    and public :: "'sk \<Rightarrow> 'pk"
    and wf :: "'sk \<Rightarrow> bool"
  assumes verifies: "wf sk \<Longrightarrow> sign c sk m = Inr s \<Longrightarrow> verify (public sk) m s = Inr ()"
begin

lemma signed_not_rejected: "wf sk \<Longrightarrow> sign c sk m = Inr s \<Longrightarrow> verify (public sk) m s \<noteq> Inl e"
  using verifies by fastforce

end

definition signing_keypair_wf :: "sig_suite \<Rightarrow> signing_keypair \<Rightarrow> bool" where
  "signing_keypair_wf g kp \<longleftrightarrow> suite_ok g \<and> length (ed_seed (skp_ed448 kp)) = 57 \<and> md_key g (skp_mldsa kp)
     \<and> kp = signing_from_components g (ed448_from_seed g (ed_seed (skp_ed448 kp))) (skp_mldsa kp)"

lemma signing_keypair_wf_facts:
  assumes "signing_keypair_wf g kp"
  shows "suite_ok g" "skp_ed448 kp = ed448_from_seed g (ed_seed (skp_ed448 kp))"
    "spk_ed448 (skp_public kp) = eg_verifying_key g (ed_seed (skp_ed448 kp))"
    "spk_mldsa (skp_public kp) = md_verifying_key g (skp_mldsa kp)" "md_key g (skp_mldsa kp)"
proof -
  have ok: "suite_ok g" and key: "md_key g (skp_mldsa kp)" and kp: "kp = signing_from_components g (ed448_from_seed g (ed_seed (skp_ed448 kp))) (skp_mldsa kp)"
    using assms by (simp_all add: signing_keypair_wf_def)
  show "suite_ok g" "md_key g (skp_mldsa kp)" by (rule ok, rule key)
  show "skp_ed448 kp = ed448_from_seed g (ed_seed (skp_ed448 kp))"
    by (subst kp) (simp add: signing_from_components_def)
  show "spk_ed448 (skp_public kp) = eg_verifying_key g (ed_seed (skp_ed448 kp))"
    by (subst kp) (simp add: signing_from_components_def ed448_verifying_key_def ed448_from_seed_def)
  show "spk_mldsa (skp_public kp) = md_verifying_key g (skp_mldsa kp)"
    by (subst kp) (simp add: signing_from_components_def)
qed

lemma sign_verify_core:
  assumes "signing_keypair_wf g kp" and "bop_sign_core p g coins kp mode m = Inr s"
  shows "bop_verify_core p g (skp_public kp) mode m s = Inr ()"
proof -
  note wf = signing_keypair_wf_facts [OF assms(1)]
  obtain com n sg where c: "bop_commit g (fst coins) (skp_ed448 kp) = Inr (com, n)"
    and sg: "md_sign_hedged g (snd coins) (skp_mldsa kp)
      (bop_m_prime p mode (spk_ed448 (skp_public kp)) (spk_mldsa (skp_public kp)) m com) = Inr sg"
    and s: "s = \<lparr>sig_rsp = bop_respond g n (h2_challenge p sg), sig_mldsa = sg\<rparr>"
    using assms(2) by (auto simp: bop_sign_core_def try_simps Let_def)
  have "bop_extcom g (spk_ed448 (skp_public kp)) (h2_challenge p sg) (bop_respond g n (h2_challenge p sg)) = Inr com"
    using extcom_honest [OF wf(1)] c wf(2,3) by metis
  moreover have "md_verify g (spk_mldsa (skp_public kp))
      (bop_m_prime p mode (spk_ed448 (skp_public kp)) (spk_mldsa (skp_public kp)) m com) sg = Inr ()"
    unfolding wf(4) by (rule suite_mldsa(5) [OF wf(1,5) sg [unfolded wf(4)]])
  ultimately show ?thesis by (simp add: bop_verify_core_def s)
qed

interpretation hybrid_plain: signature_scheme "hybrid_sign p g" "hybrid_verify p g" skp_public "signing_keypair_wf g"
  for p g
  by unfold_locales (simp add: hybrid_sign_def hybrid_verify_def sign_verify_core)

interpretation hybrid_context: signature_scheme "\<lambda>c kp (ctx, m). sign_with_context p g c kp m ctx"
  "\<lambda>pk (ctx, m) s. verify_with_context p g pk m ctx s" skp_public "signing_keypair_wf g" for p g
  by unfold_locales (auto simp: sign_with_context_def verify_with_context_def try_simps sign_verify_core)

interpretation hybrid_prehashed: signature_scheme "\<lambda>c kp (ctx, m). sign_prehashed p g c kp ctx m"
  "\<lambda>pk (ctx, m) s. verify_prehashed p g pk ctx m s" skp_public "signing_keypair_wf g" for p g
  by unfold_locales (auto simp: sign_prehashed_def verify_prehashed_def sign_verify_core)

section \<open>Properties\<close>

lemma signed_encodes:
  assumes "signing_keypair_wf g kp" and "bop_sign_core p g coins kp mode m = Inr s"
  shows "signature_from_bytes g (signature_to_bytes s) = Inr s"
proof -
  note wf = signing_keypair_wf_facts [OF assms(1)]
  obtain n chl m' where s: "sig_rsp s = bop_respond g n chl"
    "md_sign_hedged g (snd coins) (skp_mldsa kp) m' = Inr (sig_mldsa s)"
    using assms(2) by (auto simp: bop_sign_core_def try_simps Let_def)
  have "(nonce_r n + bop_reduce_challenge g chl * nonce_s n) mod eg_order g < eg_order g"
    using suite_group(1) [OF wf(1)] by simp
  from canonical_response [OF wf(1) this] have "guard_canonical g (sig_rsp s) = Inr ()"
    unfolding s(1) by (auto simp: bop_respond_def bop_to_scalar_def try_simps Let_def)
  moreover have "length (sig_rsp s) = 57" by (simp add: s(1) bop_respond_def Let_def)
  ultimately show ?thesis
    using suite_mldsa(3,4) [OF wf(1,5) s(2)]
    by (simp add: signature_from_bytes_def signature_to_bytes_def bop_response_from_bytes_def)
qed

text \<open>Hybrid signatures are correct: what a key pair signs, plainly, with a context of at most 255
  bytes or prehashed, its public key verifies in the same mode, and the signature survives its
  3366-byte encoding, the canonicality check of the response included.\<close>

lemma modes_verify:
  assumes "signing_keypair_wf g kp"
  shows "(\<forall>s. hybrid_sign p g coins kp m = Inr s \<longrightarrow>
      hybrid_verify p g (skp_public kp) m s = Inr () \<and> signature_from_bytes g (signature_to_bytes s) = Inr s)
    \<and> (\<forall>s. sign_with_context p g coins kp m ctx = Inr s \<longrightarrow>
      verify_with_context p g (skp_public kp) m ctx s = Inr () \<and> signature_from_bytes g (signature_to_bytes s) = Inr s)
    \<and> (\<forall>s. sign_prehashed p g coins kp str m = Inr s \<longrightarrow>
      verify_prehashed p g (skp_public kp) str m s = Inr () \<and> signature_from_bytes g (signature_to_bytes s) = Inr s)"
proof -
  have enc: "signature_from_bytes g (signature_to_bytes s) = Inr s" if "bop_sign_core p g coins kp mode r = Inr s" for mode r s
    using signed_encodes [OF assms that] .
  have "signature_from_bytes g (signature_to_bytes s) = Inr s" if "sign_with_context p g coins kp m ctx = Inr s" for s
    using that enc by (auto simp only: sign_with_context_def try_simps)
  moreover have "signature_from_bytes g (signature_to_bytes s) = Inr s" if "hybrid_sign p g coins kp m = Inr s" for s
    using that enc by (simp only: hybrid_sign_def)
  moreover have "signature_from_bytes g (signature_to_bytes s) = Inr s" if "sign_prehashed p g coins kp str m = Inr s" for s
    using that enc by (simp only: sign_prehashed_def Let_def)
  ultimately show ?thesis
    using hybrid_plain.verifies [OF assms, of p coins m] hybrid_prehashed.verifies [OF assms, of p coins "(str, m)"]
      hybrid_context.verifies [OF assms, of p coins "(ctx, m)"] by simp
qed

definition toy_signing :: signing_keypair where
  "toy_signing = signing_from_components toy_suite (ed448_from_seed toy_suite (replicate 57 8)) (replicate 4032 2)"

lemma toy_signing_wf: "signing_keypair_wf toy_suite toy_signing"
  using toy_suite_ok by (simp add: md_key_def toy_suite_simps signing_keypair_wf_def toy_signing_def signing_from_components_def ed448_from_seed_def)

lemma toy_signs: "\<exists>s. bop_sign_core p toy_suite (Some buf, e) kp mode m = Inr s"
  by (simp add: bop_sign_core_def bop_commit_def toy_suite_simps Let_def)

definition signing_pk_valid :: "sig_suite \<Rightarrow> signing_public_key \<Rightarrow> bool" where
  "signing_pk_valid g pk \<longleftrightarrow> suite_ok g \<and> length (spk_ed448 pk) = 57 \<and> length (spk_mldsa pk) = 1952
     \<and> eg_valid_key g (spk_ed448 pk) \<and> md_vk_from_bytes g (spk_mldsa pk) = Inr (spk_mldsa pk)"

lemma signing_pk_dec_iff:
  assumes "suite_ok g"
  shows "signing_pk_from_bytes g bs = Inr pk \<longleftrightarrow> signing_pk_valid g pk \<and> bs = signing_pk_to_bytes pk"
proof
  assume "signing_pk_from_bytes g bs = Inr pk"
  with suite_mldsa(6) [OF assms] show "signing_pk_valid g pk \<and> bs = signing_pk_to_bytes pk"
    by (fastforce simp: assms signing_pk_valid_def signing_pk_from_bytes_def signing_pk_to_bytes_def
        ed448_vk_from_bytes_def try_simps split: if_splits)
next
  assume "signing_pk_valid g pk \<and> bs = signing_pk_to_bytes pk"
  then show "signing_pk_from_bytes g bs = Inr pk"
    by (simp add: signing_pk_valid_def signing_pk_from_bytes_def signing_pk_to_bytes_def ed448_vk_from_bytes_def)
qed

lemma keypair_pk_valid: "signing_keypair_wf g kp \<Longrightarrow> signing_pk_valid g (skp_public kp)"
  using signing_keypair_wf_facts [of g kp] suite_mldsa(1,2) [of g "skp_mldsa kp"] suite_group(7,8,9)
  by (simp add: signing_pk_valid_def)

definition bop_input :: "signing_public_key \<Rightarrow> bytes \<Rightarrow> bytes \<Rightarrow> bytes" where
  "bop_input pk message com = spk_ed448 pk @ spk_mldsa pk @ message @ com"

definition signing_pk_wf :: "signing_public_key \<Rightarrow> bool" where
  "signing_pk_wf pk \<longleftrightarrow> length (spk_ed448 pk) = 57 \<and> length (spk_mldsa pk) = 1952"

lemma bop_input_inject:
  assumes "signing_pk_wf pk" "signing_pk_wf pk'" "length c = 57" "length c' = 57"
  shows "bop_input pk m c = bop_input pk' m' c' \<longleftrightarrow> pk = pk' \<and> m = m' \<and> c = c'"
proof -
  have "m @ c = m' @ c' \<longleftrightarrow> m = m' \<and> c = c'" using assms(3,4) by (metis append_eq_append_conv)
  with assms(1,2) show ?thesis
    by (cases pk; cases pk') (auto simp: bop_input_def signing_pk_wf_def append_eq_append_conv)
qed

lemma h1_context_inject: "h1_context a = h1_context b \<longleftrightarrow> a = b"
  by (cases a; cases b) (simp_all add: SIG_BOP2_H1_CONTEXT_def SIG_BOP2_H1_CTX_CONTEXT_def SIG_BOP2_H1_PREHASH_CONTEXT_def)

lemma accepted:
  assumes "suite_ok g" "bop_verify_core p g pk mode m s = Inr ()"
  obtains A n com where "eg_decompress g (spk_ed448 pk) = Some A" "bop_to_scalar g (sig_rsp s) = Inr n"
    "com = eg_compress g (eg_sub g (eg_mul g (eg_gen g) n)
       (eg_mul g A (bop_reduce_challenge g (h2_challenge p (sig_mldsa s)))))"
    "bop_extcom g (spk_ed448 pk) (h2_challenge p (sig_mldsa s)) (sig_rsp s) = Inr com" "length com = 57"
    "md_verify g (spk_mldsa pk) (derive_key p (h1_context mode) (bop_input pk m com)) (sig_mldsa s) = Inr ()"
  using assms suite_group(7) [OF assms(1)]
  by (auto simp: bop_verify_core_def bop_extcom_def bop_m_prime_def bop_input_def Let_def ok_or_def
      split: if_splits sum.splits option.splits)

text \<open>Two accepted signatures with the same ML-DSA half agree in mode, public key, message and Ed448 response, or
  that half verifies the digests of two different inputs, each under its context: then either the
  two digests are one, a collision, or ML-DSA accepts one signature for two messages.\<close>

lemma accepted_halves_are_bound:
  assumes "suite_ok g" and "signing_pk_wf pk" and "signing_pk_wf pk'"
    and "length (sig_rsp s) = 57" and "length (sig_rsp s') = 57" and "sig_mldsa s' = sig_mldsa s"
    and "bop_verify_core p g pk mode m s = Inr ()" and "bop_verify_core p g pk' mode' m' s' = Inr ()"
  shows "mode = mode' \<and> pk = pk' \<and> m = m' \<and> sig_rsp s = sig_rsp s'
    \<or> (\<exists>u u'. (h1_context mode, u) \<noteq> (h1_context mode', u')
        \<and> md_verify g (spk_mldsa pk) (derive_key p (h1_context mode) u) (sig_mldsa s) = Inr ()
        \<and> md_verify g (spk_mldsa pk') (derive_key p (h1_context mode') u') (sig_mldsa s) = Inr ())"
proof -
  define chl where "chl = bop_reduce_challenge g (h2_challenge p (sig_mldsa s))"
  obtain A n c where 1: "eg_decompress g (spk_ed448 pk) = Some A" "bop_to_scalar g (sig_rsp s) = Inr n"
    "c = eg_compress g (eg_sub g (eg_mul g (eg_gen g) n) (eg_mul g A chl))" "length c = 57"
    "md_verify g (spk_mldsa pk) (derive_key p (h1_context mode) (bop_input pk m c)) (sig_mldsa s) = Inr ()"
    using accepted [OF assms(1,7)] by (metis chl_def)
  obtain A' n' c' where 2: "eg_decompress g (spk_ed448 pk') = Some A'" "bop_to_scalar g (sig_rsp s') = Inr n'"
    "c' = eg_compress g (eg_sub g (eg_mul g (eg_gen g) n') (eg_mul g A' chl))" "length c' = 57"
    "md_verify g (spk_mldsa pk') (derive_key p (h1_context mode') (bop_input pk' m' c')) (sig_mldsa s) = Inr ()"
    using accepted [OF assms(1,8)] assms(6) by (metis chl_def)
  note r = canonical_response_unique [OF 1(2) assms(4)] canonical_response_unique [OF 2(2) assms(5)]
  have "c = c' \<longleftrightarrow> sig_rsp s = sig_rsp s'" if "pk = pk'"
  proof
    assume "c = c'"
    then have "n = n'"
      using suite_extraction [OF assms(1) 1(1), of n n' chl] r 1(1,3) 2(1,3) that by simp
    with r show "sig_rsp s = sig_rsp s'" by simp
  next
    assume "sig_rsp s = sig_rsp s'"
    then show "c = c'" using 1(1-3) 2(1-3) that by simp
  qed
  then have "(h1_context mode, bop_input pk m c) = (h1_context mode', bop_input pk' m' c')
      \<longleftrightarrow> mode = mode' \<and> pk = pk' \<and> m = m' \<and> sig_rsp s = sig_rsp s'"
    using bop_input_inject [OF assms(2,3) 1(4) 2(4)] by (auto simp: h1_context_inject)
  with 1(5) 2(5) show ?thesis by blast
qed

end
