(* ===== verification/Tree_Node.thy ===== *)
theory Tree_Node
  imports Tree_Index Hybrid_Kem Hybrid_Signature
begin

text \<open>
  Nodes of the ratchet tree (\<open>trelis-cocoa/src/tree/node.rs\<close>): populated with key material
  and the provenance of the last update, or blank with a list of unmerged leaf positions.
\<close>

type_synonym user_id = bytes

record update_origin =
  origin_epoch :: u64
  origin_sequence :: u32
  origin_timestamp :: u64

record populated_node =
  pn_public_key :: kem_public_key
  pn_predecessor_key :: "kem_public_key option"
  pn_parent_hash :: "bytes \<times> bytes"
  pn_last_updater_id :: user_id
  pn_update_signature :: hybrid_signature
  pn_transcript_hash :: bytes
  pn_confirmation_tag :: bytes
  pn_origin :: update_origin

datatype node_state = Populated populated_node | Blank "u32 list"

definition blank_state :: node_state where
  "blank_state = Blank []"

primrec is_blank :: "node_state \<Rightarrow> bool" where
  "is_blank (Populated d) = False"
| "is_blank (Blank u) = True"

primrec is_populated :: "node_state \<Rightarrow> bool" where
  "is_populated (Populated d) = True"
| "is_populated (Blank u) = False"

primrec state_public_key :: "node_state \<Rightarrow> kem_public_key option" where
  "state_public_key (Populated d) = Some (pn_public_key d)"
| "state_public_key (Blank u) = None"

primrec state_predecessor_key :: "node_state \<Rightarrow> kem_public_key option" where
  "state_predecessor_key (Populated d) = pn_predecessor_key d"
| "state_predecessor_key (Blank u) = None"

primrec state_parent_hash :: "node_state \<Rightarrow> (bytes \<times> bytes) option" where
  "state_parent_hash (Populated d) = Some (pn_parent_hash d)"
| "state_parent_hash (Blank u) = None"

primrec state_last_updater_id :: "node_state \<Rightarrow> user_id option" where
  "state_last_updater_id (Populated d) = Some (pn_last_updater_id d)"
| "state_last_updater_id (Blank u) = None"

primrec unmerged_leaves :: "node_state \<Rightarrow> u32 list option" where
  "unmerged_leaves (Populated d) = None"
| "unmerged_leaves (Blank u) = Some u"

primrec state_add_unmerged :: "node_state \<Rightarrow> u32 \<Rightarrow> node_state" where
  "state_add_unmerged (Populated d) pos = Populated d"
| "state_add_unmerged (Blank u) pos = Blank (if List.member u pos then u else u @ [pos])"

primrec state_remove_unmerged :: "node_state \<Rightarrow> u32 \<Rightarrow> node_state" where
  "state_remove_unmerged (Populated d) pos = Populated d"
| "state_remove_unmerged (Blank u) pos = Blank (filter (\<lambda>p. p \<noteq> pos) u)"

record tree_node =
  node_idx :: node_index
  node_st :: node_state

definition new_populated ::
  "node_index \<Rightarrow> kem_public_key \<Rightarrow> kem_public_key option \<Rightarrow> bytes \<times> bytes \<Rightarrow> user_id
     \<Rightarrow> hybrid_signature \<Rightarrow> bytes \<Rightarrow> bytes \<Rightarrow> update_origin \<Rightarrow> tree_node" where
  "new_populated index pk pred ph updater sg transcript tag origin =
     \<lparr>node_idx = index, node_st = Populated \<lparr>pn_public_key = pk, pn_predecessor_key = pred,
        pn_parent_hash = ph, pn_last_updater_id = updater, pn_update_signature = sg,
        pn_transcript_hash = transcript, pn_confirmation_tag = tag, pn_origin = origin\<rparr>\<rparr>"

definition new_blank :: "node_index \<Rightarrow> tree_node" where
  "new_blank index = \<lparr>node_idx = index, node_st = blank_state\<rparr>"

definition node_is_leaf :: "tree_node \<Rightarrow> u32 \<Rightarrow> bool" where
  "node_is_leaf n tree_depth = is_leaf (node_idx n) tree_depth"

section \<open>Lemmas\<close>

lemma populated_iff [simp]: "is_populated s \<longleftrightarrow> \<not> is_blank s"
  by (cases s) simp_all

lemma unmerged_None_iff: "unmerged_leaves s = None \<longleftrightarrow> \<not> is_blank s"
  by (cases s) simp_all

definition unmerged_ok :: "node_state \<Rightarrow> bool" where
  "unmerged_ok s \<longleftrightarrow> (case unmerged_leaves s of None \<Rightarrow> True | Some u \<Rightarrow> distinct u)"

lemma unmerged_ok_simps [simp]: "unmerged_ok (Populated d)" "unmerged_ok (Blank u) = distinct u" "unmerged_ok blank_state"
  by (simp_all add: unmerged_ok_def blank_state_def)

text \<open>The unmerged list of a blank node is a set of positions: both updates keep it free of
  duplicates, adding makes exactly the new position a member, removing makes exactly that
  position a non-member, removing a fresh addition restores the list, and a populated node is
  unaffected by either.\<close>

lemma unmerged_list_is_a_set:
  assumes "unmerged_ok s"
  shows "unmerged_ok (state_add_unmerged s pos) \<and> unmerged_ok (state_remove_unmerged s pos)
    \<and> (case s of
         Populated d \<Rightarrow> state_add_unmerged s pos = s \<and> state_remove_unmerged s pos = s
       | Blank u \<Rightarrow> map_option set (unmerged_leaves (state_add_unmerged s pos)) = Some (insert pos (set u))
           \<and> map_option set (unmerged_leaves (state_remove_unmerged s pos)) = Some (set u - {pos})
           \<and> (if pos \<in> set u then state_add_unmerged s pos = s
              else state_remove_unmerged (state_add_unmerged s pos) pos = s))"
  using assms by (cases s) (auto simp: filter_id_conv)

end
