(* ===== verification/Ordered_Map.thy ===== *)
theory Ordered_Map
  imports Trelis_Prelude
begin

text \<open>
  Rust's \<open>BTreeMap\<close> as an association list in key order: \<open>insert\<close> replaces or places the
  entry, iteration is the list itself, and lookups are \<open>map_of\<close>.
\<close>

named_theorems btree_simps "lookups after updates of ordered maps"

type_synonym ('k, 'v) btree_map = "('k \<times> 'v) list"

fun bt_insert :: "'k::linorder \<Rightarrow> 'v \<Rightarrow> ('k, 'v) btree_map \<Rightarrow> ('k, 'v) btree_map" where
  "bt_insert k v [] = [(k, v)]"
| "bt_insert k v ((k', v') # m) =
     (if k < k' then (k, v) # (k', v') # m else if k = k' then (k, v) # m else (k', v') # bt_insert k v m)"

definition bt_remove :: "'k \<Rightarrow> ('k, 'v) btree_map \<Rightarrow> ('k, 'v) btree_map" where
  "bt_remove k m = filter (\<lambda>e. fst e \<noteq> k) m"

definition bt_ok :: "('k::linorder, 'v) btree_map \<Rightarrow> bool" where
  "bt_ok m \<longleftrightarrow> sorted_wrt (<) (map fst m)"

definition bt_of_list :: "('k::linorder \<times> 'v) list \<Rightarrow> ('k, 'v) btree_map" where
  "bt_of_list es = fold (\<lambda>(k, v) m. bt_insert k v m) es []"

lemma bt_lookup_insert [btree_simps]: "map_of (bt_insert k v m) = (map_of m)(k \<mapsto> v)"
  by (induction m) (auto simp: fun_eq_iff)

lemma bt_lookup_remove [btree_simps]: "map_of (bt_remove k m) = (map_of m)(k := None)"
  by (induction m) (auto simp: bt_remove_def fun_eq_iff)

lemma set_bt_insert: "set (map fst (bt_insert k v m)) = insert k (set (map fst m))"
  by (induction k v m rule: bt_insert.induct) (simp_all add: insert_commute)

lemma bt_ok_insert [intro]: "bt_ok m \<Longrightarrow> bt_ok (bt_insert k v m)"
proof (induction m)
  case Nil
  then show ?case by (simp add: bt_ok_def)
next
  case (Cons e m)
  obtain k' v' where e: "e = (k', v')" by (cases e)
  have m: "bt_ok m" and lb: "\<And>a b. (a, b) \<in> set m \<Longrightarrow> k' < a"
    using Cons.prems by (fastforce simp: bt_ok_def e)+
  show ?case
    using m lb Cons.IH set_bt_insert [of k v m] by (auto simp: bt_ok_def e intro: less_trans)
qed

lemma bt_ok_remove [intro]: "bt_ok m \<Longrightarrow> bt_ok (bt_remove k m)"
  unfolding bt_ok_def bt_remove_def by (simp add: sorted_wrt_map sorted_wrt_filter)

lemma bt_ok_Nil [simp]: "bt_ok []"
  by (simp add: bt_ok_def)

lemma bt_ok_distinct: "bt_ok m \<Longrightarrow> distinct (map fst m)"
  unfolding bt_ok_def by (induction m) auto

lemma bt_lookup_iff: "bt_ok m \<Longrightarrow> map_of m k = Some v \<longleftrightarrow> (k, v) \<in> set m"
  using bt_ok_distinct map_of_eq_Some_iff by metis

text \<open>The order makes the representation canonical.\<close>

lemma bt_ext: "bt_ok m \<Longrightarrow> bt_ok n \<Longrightarrow> map_of m = map_of n \<Longrightarrow> m = n"
proof (induction m arbitrary: n)
  case Nil
  then show ?case by (cases n) (auto simp: fun_eq_iff split: if_splits)
next
  case (Cons e m)
  obtain k v where e: "e = (k, v)" by (cases e)
  then obtain f n' where n: "n = f # n'" using Cons.prems(3) by (cases n) (auto simp: fun_eq_iff split: if_splits)
  obtain k' v' where f: "f = (k', v')" by (cases f)
  have lb: "\<And>x. x \<in> fst ` set m \<Longrightarrow> k < x" "\<And>x. x \<in> fst ` set n' \<Longrightarrow> k' < x"
    using Cons.prems(1,2) by (auto simp: bt_ok_def e f n)
  have "fst ` set (e # m) = fst ` set n"
    using dom_map_of_conv_image_fst [of "e # m"] dom_map_of_conv_image_fst [of n] Cons.prems(3) by metis
  then have "k \<in> fst ` set n" "k' \<in> fst ` set (e # m)" by (auto simp: e f n)
  then have kk: "k = k'" using lb by (auto simp: e f n dest: less_asym)
  have eq: "map_of (e # m) x = map_of n x" for x using Cons.prems(3) by (rule fun_cong)
  have vv: "v = v'" using eq [of k] by (simp add: e f n kk)
  have "map_of m x = map_of n' x" for x
  proof (cases "x = k")
    case True
    then have "x \<notin> fst ` set m" "x \<notin> fst ` set n'" using lb kk by auto
    then show ?thesis by (simp add: map_of_eq_None_iff [THEN iffD2])
  next
    case False
    then show ?thesis using eq [of x] by (simp add: e f n kk)
  qed
  then have "m = n'" using Cons.IH [of n'] Cons.prems(1,2) by (auto simp: bt_ok_def n)
  then show ?case by (simp add: e f n kk vv)
qed

lemma bt_ok_of_list: "bt_ok (bt_of_list es)"
proof -
  have "bt_ok m \<Longrightarrow> bt_ok (fold (\<lambda>(k, v) m. bt_insert k v m) es m)" for m
    by (induction es arbitrary: m) auto
  then show ?thesis by (simp add: bt_of_list_def)
qed

lemma bt_lookup_of_list: "distinct (map fst es) \<Longrightarrow> map_of (bt_of_list es) k = map_of es k"
proof -
  assume d: "distinct (map fst es)"
  have "distinct (map fst es) \<Longrightarrow>
      map_of (fold (\<lambda>(k, v) m. bt_insert k v m) es m) k = (case map_of es k of None \<Rightarrow> map_of m k | Some v \<Rightarrow> Some v)" for m
  proof (induction es arbitrary: m)
    case Nil
    then show ?case by simp
  next
    case (Cons e es)
    obtain a b where e: "e = (a, b)" by (cases e)
    have "map_of es a = None" using Cons.prems by (simp add: e map_of_eq_None_iff)
    then show ?case using Cons by (auto simp: e bt_lookup_insert split: option.splits)
  qed
  with d show ?thesis by (auto simp: bt_of_list_def split: option.splits)
qed

lemma set_bt_of_list: "distinct (map fst es) \<Longrightarrow> set (bt_of_list es) = set es"
proof -
  assume d: "distinct (map fst es)"
  have "(k, v) \<in> set (bt_of_list es) \<longleftrightarrow> (k, v) \<in> set es" for k v
    using bt_lookup_iff [OF bt_ok_of_list, of es k v] bt_lookup_of_list [OF d, of k] map_of_eq_Some_iff [OF d, of k v]
    by simp
  then show ?thesis by (simp add: set_eq_iff split_paired_all)
qed

end
