(* ===== verification/Tree_View.thy ===== *)
theory Tree_View
  imports Tree_Path Tree_Node Ordered_Map
begin

text \<open>
  A member's partial view of the ratchet tree (\<open>trelis-cocoa/src/tree/view.rs\<close>): the nodes
  it stores, keyed by linear index in a \<open>BTreeMap\<close>, its own leaf, the depth of the leaf level
  and the member count. Looking a node up computes its linear index, which panics (\<open>None\<close>) at
  depth 64 and beyond; views keep all indices valid, and then nothing panics. The interface
  \<open>node_store\<close> is the lookup/update contract the tree operations rely on.
\<close>

section \<open>Operations\<close>

record tree_view =
  view_nodes :: "(u64, tree_node) btree_map"
  our_leaf :: node_index
  view_depth :: u32
  view_member_count :: u32

definition view_new :: "u32 \<Rightarrow> u32 \<Rightarrow> tree_view" where
  "view_new our_leaf_position tree_depth =
     \<lparr>view_nodes = [], our_leaf = leaf tree_depth our_leaf_position, view_depth = tree_depth, view_member_count = 0\<rparr>"

definition set_member_count :: "u32 \<Rightarrow> tree_view \<Rightarrow> tree_view" where
  "set_member_count count v = v\<lparr>view_member_count := count\<rparr>"

definition our_path :: "tree_view \<Rightarrow> node_index list option" where
  "our_path v = path_to_root (our_leaf v)"

definition our_copath :: "tree_view \<Rightarrow> node_index list" where
  "our_copath v = copath (our_leaf v)"

definition view_get :: "tree_view \<Rightarrow> node_index \<Rightarrow> tree_node option option" where
  "view_get v i = map_option (map_of (view_nodes v)) (to_linear i)"

definition view_insert :: "tree_node \<Rightarrow> tree_view \<Rightarrow> tree_view option" where
  "view_insert n v = map_option (\<lambda>k. v\<lparr>view_nodes := bt_insert k n (view_nodes v)\<rparr>) (to_linear (node_idx n))"

definition view_remove :: "node_index \<Rightarrow> tree_view \<Rightarrow> (tree_node option \<times> tree_view) option" where
  "view_remove i v = map_option (\<lambda>k.
     (map_of (view_nodes v) k, v\<lparr>view_nodes := bt_remove k (view_nodes v)\<rparr>)) (to_linear i)"

definition view_contains :: "tree_view \<Rightarrow> node_index \<Rightarrow> bool option" where
  "view_contains v i = map_option (\<lambda>k. map_of (view_nodes v) k \<noteq> None) (to_linear i)"

definition view_len :: "tree_view \<Rightarrow> nat" where
  "view_len v = length (view_nodes v)"

definition view_is_empty :: "tree_view \<Rightarrow> bool" where
  "view_is_empty v = (view_nodes v = [])"

definition view_iter :: "tree_view \<Rightarrow> tree_node list" where
  "view_iter v = map snd (view_nodes v)"

definition path_nodes :: "tree_view \<Rightarrow> tree_node option list option" where
  "path_nodes v = do { path \<leftarrow> our_path v; those (map (view_get v) path) }"

text \<open>An update through \<open>get_mut\<close>, which leaves the key alone.\<close>

definition view_modify :: "node_index \<Rightarrow> (node_state \<Rightarrow> node_state) \<Rightarrow> tree_view \<Rightarrow> tree_view option" where
  "view_modify i f v = map_option (\<lambda>k.
     case map_of (view_nodes v) k of
       Some node \<Rightarrow> v\<lparr>view_nodes := bt_insert k (node\<lparr>node_st := f (node_st node)\<rparr>) (view_nodes v)\<rparr>
     | None \<Rightarrow> v) (to_linear i)"

definition blank_node :: "node_index \<Rightarrow> tree_view \<Rightarrow> tree_view option" where
  "blank_node i v = view_modify i (\<lambda>_. blank_state) v"

definition view_add_unmerged :: "node_index \<Rightarrow> u32 \<Rightarrow> tree_view \<Rightarrow> tree_view option" where
  "view_add_unmerged i pos v = view_modify i (\<lambda>s. state_add_unmerged s pos) v"

definition view_remove_unmerged :: "node_index \<Rightarrow> u32 \<Rightarrow> tree_view \<Rightarrow> tree_view option" where
  "view_remove_unmerged i pos v = view_modify i (\<lambda>s. state_remove_unmerged s pos) v"

definition USIZE_MAX :: nat where "USIZE_MAX = 2 ^ 64 - 1"

definition total_unmerged_leaves :: "tree_view \<Rightarrow> nat" where
  "total_unmerged_leaves v = foldl (\<lambda>acc node.
     case unmerged_leaves (node_st node) of
       None \<Rightarrow> acc
     | Some leaves \<Rightarrow> min (acc + length leaves) USIZE_MAX) 0 (view_iter v)"

definition depth_for_members :: "u32 \<Rightarrow> u32 option" where
  "depth_for_members count =
     (if count = 0 then Some 0 else do { n \<leftarrow> checked_sub count 1; checked_sub 32 (leading_zeros n) })"

definition path_is_complete :: "tree_view \<Rightarrow> bool option" where
  "path_is_complete v = do {
     path \<leftarrow> our_path v;
     present \<leftarrow> those (map (view_contains v) path);
     Some (list_all id present) }"

definition grow_node :: "tree_node \<Rightarrow> tree_node option" where
  "grow_node node = do {
     d \<leftarrow> checked_add (depth (node_idx node)) 1;
     Some (node\<lparr>node_idx := node_new d (position (node_idx node))\<rparr>) }"

definition grow_tree :: "tree_view \<Rightarrow> tree_view option" where
  "grow_tree v = do {
     new_depth \<leftarrow> checked_add (view_depth v) 1;
     nodes \<leftarrow> those (map grow_node (view_iter v));
     keys \<leftarrow> those (map (\<lambda>n. to_linear (node_idx n)) nodes);
     Some (v\<lparr>view_nodes := bt_of_list (zip keys nodes), view_depth := new_depth,
       our_leaf := leaf new_depth (position (our_leaf v))\<rparr>) }"

definition grow_if_needed :: "u32 \<Rightarrow> tree_view \<Rightarrow> (bool \<times> tree_view) option" where
  "grow_if_needed count v = do {
     required \<leftarrow> depth_for_members count;
     if required > view_depth v then map_option (Pair True) (grow_tree v) else Some (False, v) }"

definition capacity :: "tree_view \<Rightarrow> u32 option" where
  "capacity v = (if view_depth v = 0 then Some 1 else checked_shl 1 (view_depth v))"

definition needs_growth :: "u32 \<Rightarrow> tree_view \<Rightarrow> bool option" where
  "needs_growth count v = do { c \<leftarrow> capacity v; Some (count > c) }"

section \<open>Interface: node stores\<close>

text \<open>What the tree operations rely on: on valid indices no access panics, an insertion is seen
  by exactly one lookup, and a modification changes the state of that one node.\<close>

locale node_store =
  fixes get :: "'v \<Rightarrow> node_index \<Rightarrow> tree_node option option"
    and put :: "tree_node \<Rightarrow> 'v \<Rightarrow> 'v option"
    and modify :: "node_index \<Rightarrow> (node_state \<Rightarrow> node_state) \<Rightarrow> 'v \<Rightarrow> 'v option"
  assumes get_total: "valid_index i \<Longrightarrow> \<exists>n. get v i = Some n"
    and put_get: "valid_index (node_idx n) \<Longrightarrow> \<exists>v'. put n v = Some v' \<and>
      (\<forall>i. valid_index i \<longrightarrow> get v' i = (if i = node_idx n then Some (Some n) else get v i))"
    and modify_get: "valid_index j \<Longrightarrow> \<exists>v'. modify j f v = Some v' \<and>
      (\<forall>i. valid_index i \<longrightarrow> get v' i =
        (if i = j then map_option (map_option (\<lambda>n. n\<lparr>node_st := f (node_st n)\<rparr>)) (get v i) else get v i))"
begin

lemma put_elim:
  assumes "valid_index (node_idx n)" and "put n v = Some v'" and "valid_index i"
  shows "get v' i = (if i = node_idx n then Some (Some n) else get v i)"
  using put_get [OF assms(1), of v] assms(2,3) by auto

lemma modify_elim:
  assumes "valid_index j" and "modify j f v = Some v'" and "valid_index i"
  shows "get v' i = (if i = j then map_option (map_option (\<lambda>n. n\<lparr>node_st := f (node_st n)\<rparr>)) (get v i) else get v i)"
  using modify_get [OF assms(1), of f v] assms(2,3) by auto

text \<open>Updates of different nodes commute, as far as any lookup can tell.\<close>

lemma modify_commute:
  assumes "valid_index a" "valid_index b" "a \<noteq> b" "valid_index i"
    and "modify a f v = Some v1" "modify b g v1 = Some v2"
    and "modify b g v = Some w1" "modify a f w1 = Some w2"
  shows "get v2 i = get w2 i"
  using modify_elim [OF assms(1,5,4)] modify_elim [OF assms(2,6,4)] modify_elim [OF assms(2,7,4)]
    modify_elim [OF assms(1,8,4)] assms(3) by auto

text \<open>Writing a list of nodes: the last write to an index wins.\<close>

fun put_all :: "tree_node list \<Rightarrow> 'v \<Rightarrow> 'v option" where
  "put_all [] v = Some v"
| "put_all (n # ns) v = Option.bind (put n v) (put_all ns)"

lemma put_all_get:
  assumes "list_all (\<lambda>n. valid_index (node_idx n)) ns"
  shows "\<exists>v'. put_all ns v = Some v' \<and> (\<forall>i. valid_index i \<longrightarrow>
      get v' i = (case find (\<lambda>n. node_idx n = i) (rev ns) of Some n \<Rightarrow> Some (Some n) | None \<Rightarrow> get v i))"
  using assms
proof (induction ns arbitrary: v)
  case Nil
  then show ?case by simp
next
  case (Cons n ns)
  then obtain v1 where v1: "put n v = Some v1"
    "\<And>i. valid_index i \<Longrightarrow> get v1 i = (if i = node_idx n then Some (Some n) else get v i)"
    using put_get [of n v] by auto
  have app: "find P (xs @ ys) = (case find P xs of None \<Rightarrow> find P ys | Some x \<Rightarrow> Some x)" for P and xs ys :: "tree_node list"
    by (induction xs) auto
  show ?case using Cons.IH [of v1] Cons.prems v1 by (auto simp: app split: option.splits)
qed

end

section \<open>Views as node stores\<close>

lemma view_get_valid:
  "valid_index i \<Longrightarrow> to_linear i = Some k \<Longrightarrow> view_get v i = Some (map_of (view_nodes v) k)"
  by (simp add: view_get_def)

interpretation store: node_store view_get view_insert view_modify
proof
  fix v :: tree_view and i
  assume "valid_index i"
  then show "\<exists>n. view_get v i = Some n" using valid_to_linear [of i] by (auto simp: view_get_def)
next
  fix v :: tree_view and n :: tree_node
  assume n: "valid_index (node_idx n)"
  then obtain k where k: "to_linear (node_idx n) = Some k" using valid_to_linear by blast
  define v' where "v' = v\<lparr>view_nodes := bt_insert k n (view_nodes v)\<rparr>"
  have "view_get v' i = (if i = node_idx n then Some (Some n) else view_get v i)" if i: "valid_index i" for i
  proof -
    obtain l where "to_linear i = Some l" using i valid_to_linear by blast
    then show ?thesis
      using k to_linear_inj [OF _ k i n] by (auto simp: v'_def view_get_def bt_lookup_insert)
  qed
  moreover have "view_insert n v = Some v'" by (simp add: view_insert_def k v'_def)
  ultimately show "\<exists>v'. view_insert n v = Some v' \<and>
      (\<forall>i. valid_index i \<longrightarrow> view_get v' i = (if i = node_idx n then Some (Some n) else view_get v i))"
    by blast
next
  fix v :: tree_view and j f
  assume j: "valid_index j"
  then obtain k where k: "to_linear j = Some k" using valid_to_linear by blast
  have "view_get v' i = (if i = j then map_option (map_option (\<lambda>n. n\<lparr>node_st := f (node_st n)\<rparr>)) (view_get v i) else view_get v i)"
    if i: "valid_index i" and m: "view_modify j f v = Some v'" for i v'
  proof -
    obtain l where "to_linear i = Some l" using i valid_to_linear by blast
    then show ?thesis
      using m k to_linear_inj [OF _ k i j]
      by (auto simp: view_modify_def view_get_def bt_lookup_insert split: option.splits)
  qed
  moreover have "\<exists>v'. view_modify j f v = Some v'" using k by (simp add: view_modify_def)
  ultimately show "\<exists>v'. view_modify j f v = Some v' \<and> (\<forall>i. valid_index i \<longrightarrow> view_get v' i =
      (if i = j then map_option (map_option (\<lambda>n. n\<lparr>node_st := f (node_st n)\<rparr>)) (view_get v i) else view_get v i))"
    by blast
qed

section \<open>Invariant\<close>

definition node_fits :: "u32 \<Rightarrow> tree_node \<Rightarrow> bool" where
  "node_fits d n \<longleftrightarrow> valid_index (node_idx n) \<and> depth (node_idx n) \<le> d \<and> unmerged_ok (node_st n)"

definition view_ok :: "tree_view \<Rightarrow> bool" where
  "view_ok v \<longleftrightarrow> bt_ok (view_nodes v) \<and> unat (view_depth v) < 32
     \<and> depth (our_leaf v) = view_depth v \<and> valid_index (our_leaf v)
     \<and> (\<forall>(k, n) \<in> set (view_nodes v). to_linear (node_idx n) = Some k \<and> node_fits (view_depth v) n)"

lemma view_ok_lookup:
  assumes "view_ok v" and "valid_index i" and "view_get v i = Some (Some n)"
  shows "node_idx n = i" and "node_fits (view_depth v) n"
proof -
  obtain k where k: "to_linear i = Some k" using assms(2) valid_to_linear by blast
  then have "(k, n) \<in> set (view_nodes v)" using assms(3) by (auto simp: view_get_def dest: map_of_SomeD)
  then have n: "to_linear (node_idx n) = Some k" "node_fits (view_depth v) n" using assms(1) by (auto simp: view_ok_def)
  then show "node_fits (view_depth v) n" by simp
  then show "node_idx n = i" using to_linear_inj [OF n(1) k] assms(2) by (simp add: node_fits_def)
qed

lemma set_bt_insert_entries: "set (bt_insert k v m) \<subseteq> insert (k, v) (set m)"
  by (induction k v m rule: bt_insert.induct) (simp_all split: if_splits, blast+)

lemma view_ok_put:
  assumes "view_ok v" and "to_linear (node_idx n) = Some k" and "node_fits (view_depth v) n"
  shows "view_ok (v\<lparr>view_nodes := bt_insert k n (view_nodes v)\<rparr>)"
  using assms set_bt_insert_entries [of k n "view_nodes v"] by (auto simp: view_ok_def)

lemma view_modify_ok:
  assumes "view_ok v" and "\<And>s. unmerged_ok s \<Longrightarrow> unmerged_ok (f s)" and "view_modify i f v = Some v'"
  shows "view_ok v'"
proof -
  obtain k where k: "to_linear i = Some k" using assms(3) by (auto simp: view_modify_def)
  show ?thesis
  proof (cases "map_of (view_nodes v) k")
    case None
    then show ?thesis using assms(1,3) k by (simp add: view_modify_def)
  next
    case (Some n)
    then have "(k, n) \<in> set (view_nodes v)" by (rule map_of_SomeD)
    then have n: "to_linear (node_idx n) = Some k" "node_fits (view_depth v) n" using assms(1) by (auto simp: view_ok_def)
    have "view_ok (v\<lparr>view_nodes := bt_insert k (n\<lparr>node_st := f (node_st n)\<rparr>) (view_nodes v)\<rparr>)"
      using n assms(2) by (intro view_ok_put [OF assms(1)]) (simp_all add: node_fits_def)
    then show ?thesis using assms(3) k Some by (simp add: view_modify_def)
  qed
qed

lemma unmerged_ok_updates:
  "unmerged_ok s \<Longrightarrow> unmerged_ok (state_add_unmerged s pos)" "unmerged_ok s \<Longrightarrow> unmerged_ok (state_remove_unmerged s pos)"
  by (cases s; auto)+

lemma view_lookup_iff:
  assumes "view_ok v" and "valid_index i"
  shows "view_get v i = Some (Some n) \<longleftrightarrow> n \<in> set (view_iter v) \<and> node_idx n = i"
proof -
  obtain k where k: "to_linear i = Some k" using assms(2) valid_to_linear by blast
  have bt: "bt_ok (view_nodes v)"
    and e: "\<And>l m. (l, m) \<in> set (view_nodes v) \<Longrightarrow> to_linear (node_idx m) = Some l \<and> valid_index (node_idx m)"
    using assms(1) by (auto simp: view_ok_def node_fits_def)
  have "view_get v i = Some (Some n) \<longleftrightarrow> (k, n) \<in> set (view_nodes v)"
    by (simp add: view_get_def k bt_lookup_iff [OF bt])
  also have "\<dots> \<longleftrightarrow> n \<in> set (view_iter v) \<and> node_idx n = i"
    using e to_linear_inj [OF _ k _ assms(2)] k by (force simp: view_iter_def)
  finally show ?thesis .
qed

lemma view_keys_distinct: "view_ok v \<Longrightarrow> distinct (map (\<lambda>n. to_linear (node_idx n)) (view_iter v))"
proof -
  assume v: "view_ok v"
  then have "map (\<lambda>n. to_linear (node_idx n)) (view_iter v) = map (\<lambda>e. Some (fst e)) (view_nodes v)"
    by (auto simp: view_ok_def view_iter_def)
  also have "\<dots> = map Some (map fst (view_nodes v))" by simp
  finally show ?thesis
    using v bt_ok_distinct [of "view_nodes v"] by (simp only: view_ok_def distinct_map) (simp add: inj_on_def)
qed

section \<open>Growth\<close>

definition down :: "node_index \<Rightarrow> node_index" where
  "down i = node_new (depth i + 1) (position i)"

definition grown :: "tree_node \<Rightarrow> tree_node" where
  "grown n = n\<lparr>node_idx := down (node_idx n)\<rparr>"

lemma down_facts:
  assumes "valid_index i" and "ndepth i < 31"
  shows "checked_add (depth i) 1 = Some (depth i + 1)" and "ndepth (down i) = ndepth i + 1"
    and "npos (down i) = npos i" and "valid_index (down i)"
proof -
  note a = checked_add_1 [of "depth i"]
  show "checked_add (depth i) 1 = Some (depth i + 1)" using a assms(2) by (simp add: ndepth_def)
  show d: "ndepth (down i) = ndepth i + 1" using a assms(2) by (simp add: ndepth_def down_def)
  show p: "npos (down i) = npos i" by (simp add: npos_def down_def)
  show "valid_index (down i)" using assms by (simp add: valid_index_def d p)
qed

lemma down_inject: "valid_index i \<Longrightarrow> ndepth i < 31 \<Longrightarrow> valid_index j \<Longrightarrow> ndepth j < 31 \<Longrightarrow> down i = down j \<longleftrightarrow> i = j"
  using down_facts(2,3) by (metis add_right_cancel node_index_eqI)

lemma grow_tree_eq:
  assumes v: "view_ok v" and d: "unat (view_depth v) < 31"
  obtains v' where "grow_tree v = Some v'" "view_ok v'" "unat (view_depth v') = unat (view_depth v) + 1"
    "our_leaf v' = down (our_leaf v)" "set (view_iter v') = grown ` set (view_iter v)"
    "view_member_count v' = view_member_count v"
proof -
  have n: "valid_index (node_idx n)" "ndepth (node_idx n) < 31" "depth (node_idx n) \<le> view_depth v" "unmerged_ok (node_st n)"
    if "n \<in> set (view_iter v)" for n
    using v d that by (auto simp: view_ok_def view_iter_def node_fits_def ndepth_def word_le_nat_alt)
  have "map grow_node (view_iter v) = map Some (map grown (view_iter v))"
    using n down_facts(1) by (auto simp: grow_node_def grown_def down_def)
  then have nodes: "those (map grow_node (view_iter v)) = Some (map grown (view_iter v))" by (simp only: those_eq_Some)
  have "\<exists>k. to_linear (node_idx (grown n)) = Some k" if "n \<in> set (view_iter v)" for n
    using n [OF that] down_facts(4) valid_to_linear by (fastforce simp: grown_def)
  then obtain K where K: "\<And>n. n \<in> set (view_iter v) \<Longrightarrow> to_linear (node_idx (grown n)) = Some (K n)" by metis
  have keys: "those (map (\<lambda>n. to_linear (node_idx n)) (map grown (view_iter v))) = Some (map K (view_iter v))"
    unfolding those_eq_Some using K by simp
  define es where "es = map (\<lambda>n. (K n, grown n)) (view_iter v)"
  have zip: "zip (map K (view_iter v)) (map grown (view_iter v)) = es"
    unfolding es_def by (simp add: zip_map_map zip_same_conv_map)
  have "inj_on K (set (view_iter v))"
  proof (rule inj_onI)
    fix a b assume ab: "a \<in> set (view_iter v)" "b \<in> set (view_iter v)" and "K a = K b"
    then have "to_linear (node_idx (grown a)) = Some (K a)" "to_linear (node_idx (grown b)) = Some (K a)" using K by simp_all
    then have "down (node_idx a) = down (node_idx b)"
      using n [OF ab(1)] n [OF ab(2)] down_facts(4) to_linear_inj by (simp add: grown_def)
    then have "node_idx a = node_idx b" using n [OF ab(1)] n [OF ab(2)] down_inject by blast
    moreover have "inj_on (\<lambda>n. to_linear (node_idx n)) (set (view_iter v))"
      using view_keys_distinct [OF v] by (simp add: distinct_map)
    ultimately show "a = b" using ab by (auto elim: inj_onD)
  qed
  moreover have "distinct (view_iter v)" using view_keys_distinct [OF v] by (simp add: distinct_map)
  ultimately have dist: "distinct (map fst es)" by (simp add: es_def o_def distinct_map)
  note nd = checked_add_1 [of "view_depth v"]
  define v' where "v' = v\<lparr>view_nodes := bt_of_list es, view_depth := view_depth v + 1,
    our_leaf := leaf (view_depth v + 1) (position (our_leaf v))\<rparr>"
  have g: "grow_tree v = Some v'"
    using nd d unfolding grow_tree_def nodes bind.bind_lunit keys zip v'_def by simp
  have leaf: "our_leaf v' = down (our_leaf v)" using v by (simp add: v'_def leaf_def down_def view_ok_def)
  have ol: "valid_index (our_leaf v)" "ndepth (our_leaf v) < 31" using v d by (simp_all add: view_ok_def ndepth_def)
  have dep: "unat (view_depth v') = unat (view_depth v) + 1" using nd d by (simp add: v'_def)
  have ldep: "depth (down (our_leaf v)) = view_depth v + 1" using v by (simp add: down_def view_ok_def)
  have iter: "set (view_iter v') = grown ` set (view_iter v)"
    by (simp add: view_iter_def v'_def set_bt_of_list [OF dist]) (simp add: es_def view_iter_def image_image)
  have "node_fits (view_depth v') (grown a)" if a: "a \<in> set (view_iter v)" for a
  proof -
    have "unat (depth (down (node_idx a))) = unat (depth (node_idx a)) + 1"
      using down_facts(2) n [OF a] by (simp add: ndepth_def)
    then show ?thesis
      using n [OF a] down_facts(4) dep by (simp add: node_fits_def grown_def word_le_nat_alt)
  qed
  then have "view_ok v'"
    using K ol down_facts(4) leaf dep d bt_ok_of_list [of es]
    unfolding view_ok_def v'_def by (simp add: set_bt_of_list [OF dist]) (simp add: es_def leaf_def ldep)
  then show thesis using that g dep leaf iter by (simp add: v'_def)
qed

lemma depth_for_members_eq:
  "\<exists>d. depth_for_members count = Some d \<and> unat d \<le> 32 \<and> (\<forall>e. unat count \<le> 2 ^ e \<longleftrightarrow> unat d \<le> e)"
proof (cases "count = 0")
  case True
  then show ?thesis by (intro exI [of _ 0]) (auto simp: depth_for_members_def)
next
  case False
  define m where "m = unat count - 1"
  have c: "unat count \<noteq> 0" using False by (simp add: unat_eq_0)
  have sub: "checked_sub count 1 = Some (count - 1)" "unat (count - 1) = m"
    using False by (auto simp: checked_sub_def unat_minus_one m_def word_le_nat_alt Suc_le_eq unat_gt_0)
  have "unat count < 2 ^ LENGTH(32)" by (rule unsigned_less)
  then have bl: "bit_len m \<le> 32" by (intro bit_len_le) (simp add: m_def)
  define lz :: u32 where "lz = leading_zeros (count - 1)"
  have lz: "unat lz = 32 - bit_len m" using sub(2) by (simp add: lz_def leading_zeros_def unat_of_nat)
  then have "lz \<le> 32" by (simp add: word_le_nat_alt)
  then have s: "checked_sub 32 lz = Some (32 - lz)" "unat (32 - lz) = bit_len m"
    using lz bl by (simp_all add: checked_sub_def unat_sub)
  have "unat count \<le> 2 ^ e \<longleftrightarrow> bit_len m \<le> e" for e
  proof
    assume "unat count \<le> 2 ^ e"
    then show "bit_len m \<le> e" using c by (intro bit_len_le) (simp add: m_def)
  next
    assume e: "bit_len m \<le> e"
    have "m < 2 ^ bit_len m" by (cases "m = 0") (auto simp: bit_len_bounds bit_len.simps [of 0])
    also have "\<dots> \<le> (2::nat) ^ e" using e by (intro power_increasing) auto
    finally show "unat count \<le> 2 ^ e" by (simp add: m_def)
  qed
  then show ?thesis
    using False sub(1) s bl by (simp add: depth_for_members_def lz_def)
qed

lemma capacity_eq:
  assumes "unat (view_depth v) < 32"
  shows "\<exists>c. capacity v = Some c \<and> unat c = 2 ^ unat (view_depth v)"
  using assms unat_shl_1 [of "unat (view_depth v)", where 'a = 32]
  by (auto simp: capacity_def checked_shl_def)

section \<open>Properties\<close>

text \<open>The view's updates do what they say and keep it well-formed: inserting a fitting node
  changes that lookup only, removing returns the old node and clears that lookup only, blanking
  and the two unmerged-list updates change the state of that node only, and none of them panics.\<close>

lemma view_updates_spec:
  assumes "view_ok v" and "node_fits (view_depth v) n" and "valid_index i"
  shows "\<exists>v1 old v2 v3 v4 v5.
      view_insert n v = Some v1 \<and> view_ok v1
    \<and> (\<forall>j. valid_index j \<longrightarrow> view_get v1 j = (if j = node_idx n then Some (Some n) else view_get v j))
    \<and> view_remove i v = Some (old, v2) \<and> view_ok v2 \<and> view_get v i = Some old
    \<and> (\<forall>j. valid_index j \<longrightarrow> view_get v2 j = (if j = i then Some None else view_get v j))
    \<and> blank_node i v = Some v3 \<and> view_ok v3
    \<and> (\<forall>j. valid_index j \<longrightarrow> view_get v3 j =
        (if j = i then map_option (map_option (\<lambda>n. n\<lparr>node_st := Blank []\<rparr>)) (view_get v j) else view_get v j))
    \<and> view_add_unmerged i pos v = Some v4 \<and> view_ok v4
    \<and> (\<forall>j. valid_index j \<longrightarrow> view_get v4 j =
        (if j = i then map_option (map_option (\<lambda>n. n\<lparr>node_st := state_add_unmerged (node_st n) pos\<rparr>)) (view_get v j)
         else view_get v j))
    \<and> view_remove_unmerged i pos v = Some v5 \<and> view_ok v5
    \<and> (\<forall>j. valid_index j \<longrightarrow> view_get v5 j =
        (if j = i then map_option (map_option (\<lambda>n. n\<lparr>node_st := state_remove_unmerged (node_st n) pos\<rparr>)) (view_get v j)
         else view_get v j))"
proof -
  have n: "valid_index (node_idx n)" using assms(2) by (simp add: node_fits_def)
  obtain v1 where v1: "view_insert n v = Some v1" "\<forall>j. valid_index j \<longrightarrow>
      view_get v1 j = (if j = node_idx n then Some (Some n) else view_get v j)"
    using store.put_get [OF n, of v] by blast
  have v1': "view_ok v1"
    using v1(1) view_ok_put [OF assms(1) _ assms(2)] by (auto simp: view_insert_def)
  obtain k where k: "to_linear i = Some k" using assms(3) valid_to_linear by blast
  define v2 where "v2 = v\<lparr>view_nodes := bt_remove k (view_nodes v)\<rparr>"
  have rm: "view_remove i v = Some (map_of (view_nodes v) k, v2)" "view_get v i = Some (map_of (view_nodes v) k)"
    by (simp_all add: view_remove_def view_get_def k v2_def)
  have v2: "view_ok v2"
    using assms(1) by (auto simp: view_ok_def v2_def bt_remove_def sorted_wrt_map sorted_wrt_filter bt_ok_def)
  have "view_get v2 j = (if j = i then Some None else view_get v j)" if j: "valid_index j" for j
  proof -
    obtain l where "to_linear j = Some l" using j valid_to_linear by blast
    then show ?thesis using to_linear_inj [OF _ k j assms(3)] k by (auto simp: view_get_def v2_def bt_lookup_remove)
  qed
  then have v2': "\<forall>j. valid_index j \<longrightarrow> view_get v2 j = (if j = i then Some None else view_get v j)" by blast
  have "\<exists>w. view_modify i f v = Some w \<and> view_ok w \<and> (\<forall>j. valid_index j \<longrightarrow> view_get w j =
      (if j = i then map_option (map_option (\<lambda>n. n\<lparr>node_st := f (node_st n)\<rparr>)) (view_get v j) else view_get v j))"
    if "\<And>s. unmerged_ok s \<Longrightarrow> unmerged_ok (f s)" for f
    using store.modify_get [OF assms(3), of f v] view_modify_ok [OF assms(1), of f i] that by blast
  note mod = this
  obtain v3 where v3: "blank_node i v = Some v3" "view_ok v3" "\<forall>j. valid_index j \<longrightarrow> view_get v3 j =
      (if j = i then map_option (map_option (\<lambda>n. n\<lparr>node_st := Blank []\<rparr>)) (view_get v j) else view_get v j)"
    using mod [of "\<lambda>_. blank_state"] unfolding blank_node_def by (auto simp: blank_state_def)
  obtain v4 where v4: "view_add_unmerged i pos v = Some v4" "view_ok v4" "\<forall>j. valid_index j \<longrightarrow> view_get v4 j =
      (if j = i then map_option (map_option (\<lambda>n. n\<lparr>node_st := state_add_unmerged (node_st n) pos\<rparr>)) (view_get v j)
       else view_get v j)"
    using mod [of "\<lambda>s. state_add_unmerged s pos"] unmerged_ok_updates(1) unfolding view_add_unmerged_def by blast
  obtain v5 where v5: "view_remove_unmerged i pos v = Some v5" "view_ok v5" "\<forall>j. valid_index j \<longrightarrow> view_get v5 j =
      (if j = i then map_option (map_option (\<lambda>n. n\<lparr>node_st := state_remove_unmerged (node_st n) pos\<rparr>)) (view_get v j)
       else view_get v j)"
    using mod [of "\<lambda>s. state_remove_unmerged s pos"] unmerged_ok_updates(2) unfolding view_remove_unmerged_def by blast
  show ?thesis
    by (intro exI conjI) (use v1 v1' rm v2 v2' v3 v4 v5 in \<open>assumption | blast\<close>)+
qed

definition sample_view :: tree_view where
  "sample_view = \<lparr>view_nodes = [(0, new_blank root)], our_leaf = leaf 1 1, view_depth = 1, view_member_count = 2\<rparr>"

lemma sample_view_ok: "view_ok sample_view"
proof -
  have "to_linear root = Some 0" by (simp add: to_linear_Some)
  moreover have "valid_index (leaf 1 1)" by (simp add: valid_index_def)
  ultimately show ?thesis
    by (simp add: view_ok_def sample_view_def bt_ok_def node_fits_def new_blank_def) (simp add: root_def node_new_def)
qed

text \<open>Growing a tree by one level moves every stored node one level down at its old position,
  leaves the new root and the new right half absent from the view (not blank, as the comment
  on the function says), keeps the view well-formed and the own leaf's position.\<close>

lemma grow_tree_spec:
  assumes "view_ok v" and "unat (view_depth v) < 31"
  shows "\<exists>v'. grow_tree v = Some v' \<and> view_ok v' \<and> unat (view_depth v') = unat (view_depth v) + 1
    \<and> our_leaf v' = down (our_leaf v) \<and> view_member_count v' = view_member_count v
    \<and> (\<forall>i. valid_index i \<and> ndepth i < 31 \<longrightarrow>
         view_get v' (down i) = map_option (map_option (\<lambda>n. n\<lparr>node_idx := down i\<rparr>)) (view_get v i))
    \<and> (\<forall>j. valid_index j \<and> npos j \<ge> 2 ^ (ndepth j - 1) \<or> j = root \<longrightarrow> view_get v' j = Some None)"
proof -
  obtain v' where g: "grow_tree v = Some v'" "view_ok v'" "unat (view_depth v') = unat (view_depth v) + 1"
    "our_leaf v' = down (our_leaf v)" "set (view_iter v') = grown ` set (view_iter v)"
    "view_member_count v' = view_member_count v"
    by (rule grow_tree_eq [OF assms])
  have bound: "valid_index (node_idx n) \<and> ndepth (node_idx n) < 31" if "n \<in> set (view_iter v)" for n
    using assms that by (auto simp: view_ok_def view_iter_def node_fits_def ndepth_def word_le_nat_alt)
  have total: "\<exists>n. view_get w i = Some n" if "valid_index i" for w i using store.get_total [OF that] .
  have moved: "view_get v' (down i) = map_option (map_option (\<lambda>n. n\<lparr>node_idx := down i\<rparr>)) (view_get v i)"
    if i: "valid_index i" "ndepth i < 31" for i
  proof -
    obtain old where old: "view_get v i = Some old" using total [OF i(1)] by blast
    obtain new where new: "view_get v' (down i) = Some new" using total [OF down_facts(4) [OF i]] by blast
    have "new = Some m \<longleftrightarrow> (\<exists>n. old = Some n \<and> m = n\<lparr>node_idx := down i\<rparr>)" for m
    proof -
      have "new = Some m \<longleftrightarrow> m \<in> grown ` set (view_iter v) \<and> node_idx m = down i"
        using view_lookup_iff [OF g(2) down_facts(4) [OF i], of m] by (simp add: new g(5))
      also have "\<dots> \<longleftrightarrow> (\<exists>n \<in> set (view_iter v). node_idx n = i \<and> m = n\<lparr>node_idx := down i\<rparr>)"
        using bound down_inject [OF i] by (auto simp: grown_def image_iff) (metis)
      also have "\<dots> \<longleftrightarrow> (\<exists>n. old = Some n \<and> m = n\<lparr>node_idx := down i\<rparr>)"
        using view_lookup_iff [OF assms(1) i(1)] by (auto simp: old)
      finally show ?thesis .
    qed
    then have "new = map_option (\<lambda>n. n\<lparr>node_idx := down i\<rparr>) old" by (cases new; cases old) auto
    then show ?thesis by (simp add: old new)
  qed
  have absent: "view_get v' j = Some None" if j: "valid_index j" "\<And>i. valid_index i \<Longrightarrow> ndepth i < 31 \<Longrightarrow> down i \<noteq> j" for j
  proof -
    obtain new where new: "view_get v' j = Some new" using total [OF j(1)] by blast
    have "new \<noteq> Some m" for m
    proof
      assume "new = Some m"
      then obtain n where "n \<in> set (view_iter v)" "m = grown n" "node_idx m = j"
        using view_lookup_iff [OF g(2) j(1), of m] by (auto simp: new g(5))
      then show False using j(2) [of "node_idx n"] bound [of n] by (simp add: grown_def)
    qed
    then show ?thesis using new by (cases new) auto
  qed
  have "view_get v' j = Some None" if "valid_index j \<and> npos j \<ge> 2 ^ (ndepth j - 1) \<or> j = root" for j
  proof (rule absent)
    show "valid_index j" using that by auto
    show "down i \<noteq> j" if i: "valid_index i" "ndepth i < 31" for i
      using \<open>valid_index j \<and> npos j \<ge> 2 ^ (ndepth j - 1) \<or> j = root\<close> down_facts(2,3) [OF i] i(1)
      by (auto simp: valid_index_def)
  qed
  with g moved show ?thesis by blast
qed

text \<open>Capacity: the depth computed for a member count is the least whose leaves suffice, a view
  needs growth exactly when that depth exceeds its own, and growing once is enough as long as
  the count at most doubles the capacity (it is not beyond that).\<close>

lemma capacity_spec:
  assumes "view_ok v" and "unat (view_depth v) < 31"
  shows "\<exists>d grew v'. depth_for_members count = Some d \<and> (\<forall>e. unat count \<le> 2 ^ e \<longleftrightarrow> unat d \<le> e)
    \<and> needs_growth count v = Some (d > view_depth v)
    \<and> grow_if_needed count v = Some (grew, v') \<and> (grew \<longleftrightarrow> d > view_depth v) \<and> view_ok v'
    \<and> needs_growth count v' = Some (unat count > 2 * 2 ^ unat (view_depth v))"
proof -
  obtain d where d: "depth_for_members count = Some d" "\<And>e. unat count \<le> 2 ^ e \<longleftrightarrow> unat d \<le> e"
    using depth_for_members_eq by blast
  have need: "needs_growth count w = Some (unat count > 2 ^ unat (view_depth w))" if "unat (view_depth w) < 32" for w
    using capacity_eq [OF that] by (auto simp: needs_growth_def word_less_nat_alt)
  obtain w where w: "grow_tree v = Some w" "view_ok w" "unat (view_depth w) = unat (view_depth v) + 1"
    by (rule grow_tree_eq [OF assms])
  have lt: "d > view_depth v \<longleftrightarrow> unat count > 2 ^ unat (view_depth v)"
    using d(2) [of "unat (view_depth v)"] by (auto simp: word_less_nat_alt)
  show ?thesis
  proof (cases "d > view_depth v")
    case True
    then show ?thesis using d w need [of v] need [of w] assms lt by (simp add: grow_if_needed_def)
  next
    case False
    then have "unat count \<le> 2 ^ unat (view_depth v)" using lt by simp
    then show ?thesis using False d need [of v] assms lt by (simp add: grow_if_needed_def)
  qed
qed

end
