(* ===== verification/Tree_Resolution.thy ===== *)
theory Tree_Resolution
  imports Tree_View
begin

text \<open>
  Resolutions (\<open>trelis-cocoa/src/tree/resolution.rs\<close>): the non-blank nodes that stand for a
  subtree when a path secret is encrypted to it, computed by recursion over blank nodes. The
  trait \<open>NodeLookup\<close> is a lookup function (\<open>None\<close> a panic) and the depth of the leaf level;
  the locale \<open>lookup\<close> states what the resolution needs of it, and views provide it.
\<close>

section \<open>Operations\<close>

text \<open>The first set is collected into a \<open>BTreeSet\<close>, ordered by linear index, so both sides are
  numbered as soon as neither is empty.\<close>

definition res_union :: "node_index list \<Rightarrow> node_index list \<Rightarrow> node_index list option" where
  "res_union a b =
     (if b = [] then Some a else if a = [] then Some b
      else do {
        existing \<leftarrow> those (map to_linear a);
        keys \<leftarrow> those (map to_linear b);
        Some (a @ map fst (filter (\<lambda>(_, k). \<not> List.member existing k) (zip b keys))) })"

lemma left_child_deeper: "left_child i = Some l \<Longrightarrow> ndepth l = ndepth i + 1"
  by (auto simp: left_child_def ndepth_def bind_eq_Some_conv dest!: checked_add_Some)

lemma right_child_deeper: "right_child i = Some l \<Longrightarrow> ndepth l = ndepth i + 1"
  by (auto simp: right_child_def ndepth_def bind_eq_Some_conv dest!: checked_add_Some)

lemma ndepth_less: "ndepth i < 2 ^ 32"
proof -
  have "unat (depth i) < 2 ^ LENGTH(32)" by (rule unsigned_less)
  then show ?thesis by (simp add: ndepth_def)
qed

function resolve :: "(node_index \<Rightarrow> tree_node option option) \<Rightarrow> u32 \<Rightarrow> node_index \<Rightarrow> node_index list option" where
  "resolve get_node tree_depth i =
     (case get_node i of
        None \<Rightarrow> None
      | Some None \<Rightarrow> Some []
      | Some (Some node) \<Rightarrow>
          if is_populated (node_st node) then Some [i]
          else if is_leaf i tree_depth then Some []
          else (case left_child i of
            None \<Rightarrow> None
          | Some l \<Rightarrow> (case resolve get_node tree_depth l of
              None \<Rightarrow> None
            | Some left_res \<Rightarrow> (case right_child i of
                None \<Rightarrow> None
              | Some r \<Rightarrow> (case resolve get_node tree_depth r of
                  None \<Rightarrow> None
                | Some right_res \<Rightarrow> res_union left_res right_res)))))"
  by pat_completeness auto
termination
proof (relation "measure (\<lambda>(_, _, i). 2 ^ 32 - ndepth i)")
  show "wf (measure (\<lambda>(_, _, i). 2 ^ 32 - ndepth i))" by simp
next
  fix get_node td i l
  assume "left_child i = Some l"
  then show "((get_node, td, l), (get_node, td, i)) \<in> measure (\<lambda>(_, _, i). 2 ^ 32 - ndepth i)"
    using left_child_deeper ndepth_less [of l] by simp
next
  fix get_node td i r
  assume "right_child i = Some r"
  then show "((get_node, td, r), (get_node, td, i)) \<in> measure (\<lambda>(_, _, i). 2 ^ 32 - ndepth i)"
    using right_child_deeper ndepth_less [of r] by simp
qed

declare resolve.simps [simp del]

fun union_all :: "node_index list \<Rightarrow> node_index list list \<Rightarrow> node_index list option" where
  "union_all acc [] = Some acc"
| "union_all acc (r # rs) = Option.bind (res_union acc r) (\<lambda>acc. union_all acc rs)"

fun resolve_set_from ::
  "(node_index \<Rightarrow> tree_node option option) \<Rightarrow> u32 \<Rightarrow> node_index list \<Rightarrow> node_index list \<Rightarrow> node_index list option" where
  "resolve_set_from get_node td acc [] = Some acc"
| "resolve_set_from get_node td acc (i # is) = do {
     r \<leftarrow> resolve get_node td i;
     acc \<leftarrow> res_union acc r;
     resolve_set_from get_node td acc is }"

definition resolve_set :: "(node_index \<Rightarrow> tree_node option option) \<Rightarrow> u32 \<Rightarrow> node_index list \<Rightarrow> node_index list option" where
  "resolve_set get_node td is = resolve_set_from get_node td [] is"

definition compute_lj ::
  "(node_index \<Rightarrow> tree_node option option) \<Rightarrow> u32 \<Rightarrow> node_index \<Rightarrow> (node_index \<Rightarrow> node_index list option)
     \<Rightarrow> node_index list option" where
  "compute_lj get_node td path_node unmerged_fn =
     (case sibling path_node of
        None \<Rightarrow> Some []
      | Some s \<Rightarrow> do {
          resolution \<leftarrow> resolve get_node td s;
          leaves \<leftarrow> those (map unmerged_fn resolution);
          unmerged \<leftarrow> union_all [] (map (\<lambda>l. [l]) (concat leaves));
          res_union resolution unmerged })"

text \<open>The closure \<open>operations/add.rs\<close> passes: the unmerged positions of a stored node, as leaves.\<close>

definition unmerged_indices :: "tree_view \<Rightarrow> node_index \<Rightarrow> node_index list option" where
  "unmerged_indices v i = map_option (\<lambda>found.
     case Option.bind found (\<lambda>n. unmerged_leaves (node_st n)) of
       Some leaf_positions \<Rightarrow> map (leaf (view_depth v)) leaf_positions
     | None \<Rightarrow> []) (view_get v i)"

section \<open>Unions\<close>

lemma those_defined: "\<forall>x \<in> set xs. \<exists>y. f x = Some y \<Longrightarrow> \<exists>ys. those (map f xs) = Some ys"
  by (induction xs) auto

lemma filter_zip_keys:
  "map to_linear b = map Some ks \<Longrightarrow>
    map fst (filter (\<lambda>(_, k). k \<notin> set existing) (zip b ks))
      = filter (\<lambda>i. the (to_linear i) \<notin> set existing) b"
proof (induction b arbitrary: ks)
  case Nil
  then show ?case by simp
next
  case (Cons i b)
  then show ?case by (cases ks) auto
qed

lemma those_linear:
  assumes "list_all valid_index a"
  obtains ks where "those (map to_linear a) = Some ks" "map to_linear a = map Some ks"
proof -
  have "\<forall>x \<in> set a. \<exists>y. to_linear x = Some y" using assms valid_to_linear by (metis list_all_iff)
  then obtain ks where "those (map to_linear a) = Some ks" using those_defined by blast
  then show thesis using that by (simp add: those_eq_Some)
qed

lemma res_union_valid:
  assumes "list_all valid_index a" and "list_all valid_index b"
  shows "res_union a b = Some (a @ filter (\<lambda>i. i \<notin> set a) b)"
proof (cases "a = [] \<or> b = []")
  case True
  then show ?thesis by (auto simp: res_union_def)
next
  case False
  obtain ka where ka: "those (map to_linear a) = Some ka" "map to_linear a = map Some ka"
    using those_linear [OF assms(1)] .
  obtain kb where kb: "those (map to_linear b) = Some kb" "map to_linear b = map Some kb"
    using those_linear [OF assms(2)] .
  have "the (to_linear i) \<in> set ka \<longleftrightarrow> i \<in> set a" if i: "i \<in> set b" for i
  proof -
    have vi: "valid_index i" using assms(2) i by (simp add: list_all_iff)
    then obtain k where k: "to_linear i = Some k" using valid_to_linear by blast
    have "Some ` set ka = to_linear ` set a" using ka(2) by (metis list.set_map)
    have "k \<in> set ka \<longleftrightarrow> Some k \<in> to_linear ` set a" by (auto simp flip: \<open>Some ` set ka = to_linear ` set a\<close>)
    also have "\<dots> \<longleftrightarrow> i \<in> set a"
    proof
      assume "Some k \<in> to_linear ` set a"
      then obtain j where j: "j \<in> set a" "to_linear j = Some k" by auto
      then have "valid_index j" using assms(1) by (simp add: list_all_iff)
      then show "i \<in> set a" using to_linear_inj [OF j(2) k _ vi] j(1) by simp
    next
      assume "i \<in> set a"
      then show "Some k \<in> to_linear ` set a" using k by force
    qed
    finally show ?thesis by (simp add: k)
  qed
  then have "filter (\<lambda>i. the (to_linear i) \<notin> set ka) b = filter (\<lambda>i. i \<notin> set a) b"
    by (intro filter_cong) simp_all
  then show ?thesis using False by (simp add: res_union_def ka(1) kb(1) filter_zip_keys [OF kb(2)])
qed

lemma union_all_valid:
  "list_all valid_index acc \<Longrightarrow> list_all valid_index is \<Longrightarrow>
    \<exists>r. union_all acc (map (\<lambda>l. [l]) is) = Some r \<and> set r = set acc \<union> set is \<and> (distinct acc \<longrightarrow> distinct r)"
proof (induction "is" arbitrary: acc)
  case Nil
  then show ?case by simp
next
  case (Cons i "is")
  let ?acc = "acc @ filter (\<lambda>j. j \<notin> set acc) [i]"
  have "list_all valid_index ?acc" using Cons.prems by simp
  with Cons.IH [of ?acc] Cons.prems
  obtain r where "union_all ?acc (map (\<lambda>l. [l]) is) = Some r" "set r = set ?acc \<union> set is" "distinct ?acc \<longrightarrow> distinct r"
    by auto
  then show ?case using Cons.prems res_union_valid [of acc "[i]"] by (auto split: if_splits)
qed

section \<open>What a resolution holds\<close>

text \<open>Node \<open>j\<close> stands for its part of the subtree at \<open>i\<close>: it is populated and every node from
  \<open>i\<close> down to it is stored, blank and above the leaf level.\<close>

definition stands_for :: "(node_index \<Rightarrow> tree_node option option) \<Rightarrow> u32 \<Rightarrow> node_index \<Rightarrow> node_index \<Rightarrow> bool" where
  "stands_for get_node td i j \<longleftrightarrow> valid_index j \<and> anc i j
     \<and> (\<exists>n. get_node j = Some (Some n) \<and> is_populated (node_st n))
     \<and> (\<forall>k. anc i k \<and> anc k j \<and> k \<noteq> j \<longrightarrow>
          depth k \<noteq> td \<and> (\<exists>n. get_node k = Some (Some n) \<and> is_blank (node_st n)))"

lemma stands_for_top:
  assumes "stands_for get_node td i j"
  shows "j = i \<and> (\<exists>n. get_node i = Some (Some n) \<and> \<not> is_blank (node_st n))
    \<or> j \<noteq> i \<and> depth i \<noteq> td \<and> (\<exists>n. get_node i = Some (Some n) \<and> is_blank (node_st n))"
proof (cases "j = i")
  case True
  then show ?thesis using assms by (auto simp: stands_for_def)
next
  case False
  have "anc i i \<and> anc i j \<and> i \<noteq> j" using False assms by (auto simp: stands_for_def)
  then have "depth i \<noteq> td \<and> (\<exists>n. get_node i = Some (Some n) \<and> is_blank (node_st n))"
    using assms unfolding stands_for_def by blast
  then show ?thesis using False by simp
qed

lemma stands_for_blocks:
  assumes "stands_for get_node td i j" and "stands_for get_node td i k" and "anc j k"
  shows "j = k"
proof (rule ccontr)
  assume "j \<noteq> k"
  moreover have "anc i j" using assms(1) by (simp add: stands_for_def)
  ultimately have "\<exists>n. get_node j = Some (Some n) \<and> is_blank (node_st n)"
    using assms(2,3) unfolding stands_for_def by blast
  then show False using assms(1) by (auto simp: stands_for_def)
qed

lemma anc_valid: "anc k j \<Longrightarrow> valid_index j \<Longrightarrow> valid_index k"
proof -
  assume k: "anc k j" and j: "valid_index j"
  have "npos j < 2 ^ (ndepth k + (ndepth j - ndepth k))" using k j by (simp add: anc_def valid_index_def)
  then have "npos j div 2 ^ (ndepth j - ndepth k) < 2 ^ ndepth k"
    by (simp add: less_mult_imp_div_less power_add)
  then show ?thesis using k j by (simp add: anc_def valid_index_def)
qed

lemma anc_children:
  assumes l: "ndepth l = ndepth i + 1" "npos l = 2 * npos i" and r: "ndepth r = ndepth i + 1" "npos r = 2 * npos i + 1"
  shows "anc i k \<and> k \<noteq> i \<longleftrightarrow> anc l k \<or> anc r k"
proof
  assume a: "anc i k \<and> k \<noteq> i"
  then have d: "ndepth i < ndepth k" by (metis anc_def anc_same_depth le_neq_implies_less)
  define q where "q = npos k div 2 ^ (ndepth k - (ndepth i + 1))"
  have "ndepth k - ndepth i = (ndepth k - (ndepth i + 1)) + 1" using d by simp
  then have "npos k div 2 ^ (ndepth k - ndepth i) = q div 2" by (simp only: q_def power_add div_mult2_eq power_one_right)
  then have "q = 2 * npos i \<or> q = 2 * npos i + 1" using a by (simp add: anc_def) linarith
  then show "anc l k \<or> anc r k" using d l r by (auto simp: anc_def q_def)
next
  have il: "anc i l" "anc i r" using l r by (simp_all add: anc_def)
  assume "anc l k \<or> anc r k"
  then obtain c where c: "anc i c" "anc c k" "ndepth c = ndepth i + 1" using il l r by blast
  have "anc i k" by (rule anc_trans [OF c(1,2)])
  moreover have "ndepth i + 1 \<le> ndepth k" using c(2,3) by (simp add: anc_def)
  ultimately show "anc i k \<and> k \<noteq> i" by auto
qed

lemma anc_children_disjoint:
  assumes "ndepth l = ndepth r" and "npos l \<noteq> npos r" and "anc l k" and "anc r k"
  shows False
proof -
  have "ndepth l \<le> ndepth r" using assms(1) by (rule eq_refl)
  then have "anc l r" by (rule anc_linear [OF assms(3,4)])
  then have "l = r" using assms(1) by (rule anc_same_depth)
  then show False using assms(2) by simp
qed

lemma anc_antisym: "anc a b \<Longrightarrow> anc b a \<Longrightarrow> a = b"
  by (intro anc_same_depth) (simp_all add: anc_def)

text \<open>What the recursion needs of a lookup: that it does not panic on valid indices.\<close>

locale lookup =
  fixes get_node :: "node_index \<Rightarrow> tree_node option option"
  assumes get_total: "valid_index i \<Longrightarrow> \<exists>n. get_node i = Some n"
begin

lemma resolve_correct:
  assumes td: "unat td < 32" and "valid_index i" and "ndepth i \<le> unat td"
  shows "\<exists>r. resolve get_node td i = Some r \<and> distinct r \<and> (\<forall>j. j \<in> set r \<longleftrightarrow> stands_for get_node td i j)"
  using assms(2,3)
proof (induction "unat td - ndepth i" arbitrary: i rule: less_induct)
  case less
  note i = less.prems
  obtain found where g: "get_node i = Some found" using get_total [OF i(1)] by blast
  have leafD: "depth i = td \<longleftrightarrow> ndepth i = unat td" by (simp add: ndepth_def word_eq_iff_unsigned [where 'a = nat])
  show ?case
  proof (cases found)
    case None
    then have "\<not> stands_for get_node td i j" for j
      using g None stands_for_top [of get_node td i j] by auto
    then show ?thesis by (simp add: resolve.simps [of _ _ i] g None)
  next
    case (Some n)
    show ?thesis
    proof (cases "is_blank (node_st n)")
      case False
      then have "stands_for get_node td i i"
        using g Some i(1) anc_antisym by (auto simp: stands_for_def)
      moreover have "j = i" if "stands_for get_node td i j" for j
        using stands_for_top [OF that] False g Some by auto
      ultimately have "stands_for get_node td i j \<longleftrightarrow> j = i" for j by blast
      then show ?thesis using False by (simp add: resolve.simps [of _ _ i] g Some)
    next
      case True
      show ?thesis
      proof (cases "depth i = td")
        case leaf: True
        then have "\<not> stands_for get_node td i j" for j
          using g Some True leaf stands_for_top [of get_node td i j] by auto
        then show ?thesis using True leaf by (simp add: resolve.simps [of _ _ i] g Some is_leaf_def)
      next
        case inner: False
        then have lt: "ndepth i < unat td" using i(2) leafD by simp
        then have "ndepth i < 31" using td by simp
        from valid_childrenE [OF i(1) this] obtain l r where lr: "left_child i = Some l" "right_child i = Some r"
          "valid_index l" "valid_index r" "ndepth l = ndepth i + 1" "ndepth r = ndepth i + 1"
          "npos l = 2 * npos i" "npos r = 2 * npos i + 1" by metis
        have smaller: "unat td - ndepth l < unat td - ndepth i" "ndepth l \<le> unat td"
          "unat td - ndepth r < unat td - ndepth i" "ndepth r \<le> unat td"
          using lt lr(5,6) by simp_all
        obtain a where a: "resolve get_node td l = Some a" "distinct a" "\<And>j. j \<in> set a \<longleftrightarrow> stands_for get_node td l j"
          using less.hyps [OF smaller(1) lr(3) smaller(2)] by blast
        obtain b where b: "resolve get_node td r = Some b" "distinct b" "\<And>j. j \<in> set b \<longleftrightarrow> stands_for get_node td r j"
          using less.hyps [OF smaller(3) lr(4) smaller(4)] by blast
        have ch: "anc i k \<and> k \<noteq> i \<longleftrightarrow> anc l k \<or> anc r k" for k using anc_children lr by blast
        have dis: "\<not> (anc l k \<and> anc r k)" for k using anc_children_disjoint [of l r k] lr by auto
        have st: "stands_for get_node td i j \<longleftrightarrow> stands_for get_node td l j \<or> stands_for get_node td r j" for j
        proof -
          have blank: "\<exists>n. get_node i = Some (Some n) \<and> is_blank (node_st n)" using g Some True by simp
          show ?thesis
          proof (cases "j = i")
            case True
            then show ?thesis using blank ch by (auto simp: stands_for_def)
          next
            case False
            have up: "anc l j \<Longrightarrow> anc k j \<Longrightarrow> anc r k \<Longrightarrow> False" "anc r j \<Longrightarrow> anc k j \<Longrightarrow> anc l k \<Longrightarrow> False" for k
              using dis anc_trans by blast+
            show ?thesis using False blank inner ch up unfolding stands_for_def by metis
          qed
        qed
        have "list_all valid_index a" "list_all valid_index b" using a(3) b(3) by (auto simp: list_all_iff stands_for_def)
        from res_union_valid [OF this] have "res_union a b = Some (a @ filter (\<lambda>i. i \<notin> set a) b)" .
        moreover have sep: "j \<notin> set a" if "j \<in> set b" for j
          using that dis [of j] by (auto simp: a(3) b(3) stands_for_def)
        then have "filter (\<lambda>i. i \<notin> set a) b = b" by (simp add: filter_id_conv)
        ultimately have "resolve get_node td i = Some (a @ b)"
          using inner True by (simp add: resolve.simps [of _ _ i] g Some is_leaf_def lr(1,2) a(1) b(1))
        moreover have "distinct (a @ b)" using a(2) b(2) sep by auto
        ultimately show ?thesis using st by (auto simp: a(3) b(3))
      qed
    qed
  qed
qed

text \<open>Nobody stored is left out: a populated node below \<open>i\<close> whose ancestors up to \<open>i\<close> are all
  stored has an ancestor, or itself, standing for it.\<close>

lemma covered:
  assumes td: "unat td < 32" and j: "valid_index j" "anc i j" "ndepth j \<le> unat td"
    and pop: "get_node j = Some (Some n)" "is_populated (node_st n)"
    and stored: "\<And>k. anc i k \<Longrightarrow> anc k j \<Longrightarrow> get_node k \<noteq> Some None"
  shows "\<exists>m. stands_for get_node td i m \<and> anc m j"
proof -
  define P where "P d \<longleftrightarrow> (\<exists>k n. ndepth k = d \<and> anc i k \<and> anc k j \<and> get_node k = Some (Some n) \<and> is_populated (node_st n))" for d
  have "P (ndepth j)" using j pop by (auto simp: P_def)
  define d where "d = (LEAST d. P d)"
  have "P d" unfolding d_def using \<open>P (ndepth j)\<close> by (rule LeastI)
  then obtain m nm where m: "ndepth m = d" "anc i m" "anc m j" "get_node m = Some (Some nm)" "is_populated (node_st nm)"
    by (auto simp: P_def)
  have above: "depth k \<noteq> td \<and> (\<exists>n. get_node k = Some (Some n) \<and> is_blank (node_st n))"
    if k: "anc i k" "anc k m" "k \<noteq> m" for k
  proof -
    have kj: "anc k j" using anc_trans [OF k(2) m(3)] .
    have "ndepth k \<noteq> ndepth m" "ndepth k \<le> ndepth m" using k(2,3) anc_same_depth [OF k(2)] by (auto simp: anc_def)
    then have less: "ndepth k < d" using m(1) by simp
    have "valid_index k" using anc_valid [OF kj j(1)] .
    then obtain nk where nk: "get_node k = Some nk" using get_total by blast
    then obtain n' where n': "nk = Some n'" using stored [OF k(1) kj] by (cases nk) auto
    have "\<not> P (ndepth k)" using less not_less_Least by (simp add: d_def)
    then have "is_blank (node_st n')" using k(1) kj nk n' by (auto simp: P_def)
    moreover have "ndepth k < unat td" using less m(1,3) j(3) by (simp add: anc_def)
    then have "depth k \<noteq> td" by (auto simp: ndepth_def)
    ultimately show ?thesis using nk n' by simp
  qed
  have "stands_for get_node td i m"
    using m above anc_valid [OF m(3) j(1)] by (auto simp: stands_for_def)
  then show ?thesis using m(3) by blast
qed

end

interpretation view_lookup: lookup "view_get v" for v
  by unfold_locales (rule store.get_total)

section \<open>Properties\<close>

text \<open>C29. The resolution of a stored subtree is exactly the frontier of populated nodes under blank
  ones: it never panics, has no duplicates, no node of it lies below another, and every stored
  populated node whose ancestors in the subtree are stored is represented by it.\<close>

theorem resolution_is_frontier:
  assumes "view_ok v" and "valid_index i" and "depth i \<le> view_depth v"
  shows "\<exists>r. resolve (view_get v) (view_depth v) i = Some r \<and> distinct r
    \<and> (\<forall>j. j \<in> set r \<longleftrightarrow> stands_for (view_get v) (view_depth v) i j)
    \<and> (\<forall>j \<in> set r. \<forall>k \<in> set r. anc j k \<longrightarrow> j = k)
    \<and> (\<forall>j n. valid_index j \<and> anc i j \<and> view_get v j = Some (Some n) \<and> is_populated (node_st n)
         \<and> (\<forall>k. anc i k \<and> anc k j \<longrightarrow> view_get v k \<noteq> Some None) \<longrightarrow> (\<exists>m \<in> set r. anc m j))"
proof -
  have td: "unat (view_depth v) < 32" using assms(1) by (simp add: view_ok_def)
  have "ndepth i \<le> unat (view_depth v)" using assms(3) by (simp add: ndepth_def word_le_nat_alt)
  from view_lookup.resolve_correct [OF td assms(2) this, of v] obtain r
    where r: "resolve (view_get v) (view_depth v) i = Some r" "distinct r"
      "\<And>j. j \<in> set r \<longleftrightarrow> stands_for (view_get v) (view_depth v) i j" by blast
  have anti: "j = k" if "j \<in> set r" "k \<in> set r" "anc j k" for j k
    using that stands_for_blocks [of "view_get v" "view_depth v" i j k] by (simp add: r(3))
  have cover: "\<exists>m \<in> set r. anc m j"
    if "valid_index j" "anc i j" and n: "view_get v j = Some (Some n)" "is_populated (node_st n)"
      and st: "\<forall>k. anc i k \<and> anc k j \<longrightarrow> view_get v k \<noteq> Some None" for j n
  proof -
    have "node_fits (view_depth v) n" "node_idx n = j"
      using view_ok_lookup [OF assms(1) that(1) n(1)] by simp_all
    then have "ndepth j \<le> unat (view_depth v)" by (auto simp: node_fits_def ndepth_def word_le_nat_alt)
    from view_lookup.covered [OF td that(1,2) this n] st show ?thesis by (auto simp: r(3))
  qed
  from r anti cover show ?thesis by blast
qed

theorem resolution_is_frontier_witness:
  "\<exists>r. resolve (view_get sample_view) 1 root = Some r \<and> distinct r"
proof -
  have d: "view_depth sample_view = 1" "depth root \<le> 1" by (simp_all add: sample_view_def root_def node_new_def)
  show ?thesis using resolution_is_frontier [OF sample_view_ok, of root] unfolding d(1) using d(2) by auto
qed

lemma lj_eq:
  assumes "view_ok v" and "valid_index i" and "depth i \<le> view_depth v" and "sibling i = Some s"
  shows "compute_lj (view_get v) (view_depth v) i (unmerged_indices v) = resolve (view_get v) (view_depth v) s"
    and "\<exists>r. resolve (view_get v) (view_depth v) s = Some r"
proof -
  have td: "unat (view_depth v) < 32" using assms(1) by (simp add: view_ok_def)
  have s: "ndepth s = ndepth i" "npos s = (if even (npos i) then npos i + 1 else npos i - 1)" "ndepth i \<noteq> 0"
    using assms(4) unfolding sibling_eq_Some by simp_all
  have ev: "even (npos i) \<Longrightarrow> npos i + 1 < 2 ^ ndepth i"
  proof -
    assume e: "even (npos i)"
    have "even ((2::nat) ^ ndepth i)" using s(3) by simp
    then have "npos i + 1 \<noteq> 2 ^ ndepth i" using e by (metis even_plus_one_iff)
    then show ?thesis using assms(2) by (simp add: valid_index_def)
  qed
  have vs: "valid_index s" using assms(2) s ev by (auto simp: valid_index_def)
  have "ndepth s \<le> unat (view_depth v)" using assms(3) s by (simp add: ndepth_def word_le_nat_alt)
  from view_lookup.resolve_correct [OF td vs this, of v] obtain r
    where r: "resolve (view_get v) (view_depth v) s = Some r"
      "\<And>j. j \<in> set r \<longleftrightarrow> stands_for (view_get v) (view_depth v) s j" by blast
  have "unmerged_indices v j = Some []" if j: "j \<in> set r" for j
  proof -
    obtain n where "view_get v j = Some (Some n)" "is_populated (node_st n)" using j r(2) by (auto simp: stands_for_def)
    then show ?thesis by (cases "node_st n") (simp_all add: unmerged_indices_def)
  qed
  then have "those (map (unmerged_indices v) r) = Some (map (\<lambda>_. []) r)" by (intro those_map_Some)
  moreover have cn: "concat (map (\<lambda>_. []) r) = ([] :: node_index list)" by simp
  ultimately show "compute_lj (view_get v) (view_depth v) i (unmerged_indices v) = resolve (view_get v) (view_depth v) s"
    by (simp add: compute_lj_def assms(4) r(1) res_union_def cn del: concat_eq_Nil_conv)
  show "\<exists>r. resolve (view_get v) (view_depth v) s = Some r" using r(1) by blast
qed

text \<open>The recipient set of a path update is the plain resolution of the sibling: with the
  unmerged-leaf closure the add operation passes, the union over unmerged leaves contributes
  nothing, because a resolution holds populated nodes only and those keep no unmerged list. At
  the root, which has no sibling, it is empty.\<close>

lemma lj_ignores_unmerged:
  assumes "view_ok v" and "valid_index i" and "depth i \<le> view_depth v"
  shows "compute_lj (view_get v) (view_depth v) i (unmerged_indices v)
      = (case sibling i of None \<Rightarrow> Some [] | Some s \<Rightarrow> resolve (view_get v) (view_depth v) s)
    \<and> compute_lj (view_get v) (view_depth v) i (unmerged_indices v) \<noteq> None"
  using lj_eq [OF assms] by (cases "sibling i") (auto simp: compute_lj_def)

end
