(* ===== verification/Key_Schedule.thy ===== *)
theory Key_Schedule
  imports Hybrid_Kem Tree_View
begin

text \<open>
  The key schedule of the group protocol (\<open>trelis-cocoa/src/key_schedule.rs\<close>): the hash
  functions H1 to H5, the derivation of application, confirmation and init secrets, the
  per-sender message keys and nonces, and the seed chain of path updates. An incremental
  BLAKE3 hasher in key-derivation mode that is fed several slices hashes their concatenation.
\<close>

type_synonym user_id = bytes
type_synonym group_id = bytes

definition H1_CONTEXT :: string where "H1_CONTEXT = ''cocoa-sa-seed-derive-v1''"
definition H2_CONTEXT_X448 :: string where "H2_CONTEXT_X448 = ''cocoa-sa-keygen-x448-v1''"
definition H2_CONTEXT_SNTRUP :: string where "H2_CONTEXT_SNTRUP = ''cocoa-sa-keygen-sntrup-v1''"
definition H3_CONTEXT :: string where "H3_CONTEXT = ''cocoa-sa-tree-label-v1''"
definition H4_CONTEXT :: string where "H4_CONTEXT = ''cocoa-sa-parent-hash-v1''"
definition H5_CONTEXT :: string where "H5_CONTEXT = ''cocoa-sa-epoch-secret-v1''"
definition ROUND_HASH_CONTEXT :: string where "ROUND_HASH_CONTEXT = ''cocoa-sa-round-hash-v1''"
definition TRANSCRIPT_HASH_CONTEXT :: string where "TRANSCRIPT_HASH_CONTEXT = ''cocoa-sa-transcript-hash-v1''"
definition APP_SECRET_CONTEXT :: string where "APP_SECRET_CONTEXT = ''cocoa-sa-app-secret-v1''"
definition CONF_KEY_CONTEXT :: string where "CONF_KEY_CONTEXT = ''cocoa-sa-conf-key-v1''"
definition INIT_SECRET_CONTEXT :: string where "INIT_SECRET_CONTEXT = ''cocoa-sa-init-secret-v1''"
definition MESSAGE_KEY_CONTEXT :: string where "MESSAGE_KEY_CONTEXT = ''cocoa-sa-message-key-v1''"
definition MESSAGE_NONCE_CONTEXT :: string where "MESSAGE_NONCE_CONTEXT = ''cocoa-sa-message-nonce-v1''"
definition ROOT_LABEL_CONTEXT :: string where "ROOT_LABEL_CONTEXT = ''cocoa-sa-root-label-v1''"
definition CONFIRMATION_TAG_CONTEXT :: string where "CONFIRMATION_TAG_CONTEXT = ''cocoa-sa-confirmation-tag-v1''"
definition USER_ID_CONTEXT :: string where "USER_ID_CONTEXT = ''cocoa-sa-user-id-v1''"

section \<open>H1 and H2: seeds\<close>

definition derive_h1_seed :: "primitives \<Rightarrow> bytes \<Rightarrow> bytes" where
  "derive_h1_seed p delta = blake3_derive_key p H1_CONTEXT delta"

definition h2_keygen_x448 :: "primitives \<Rightarrow> bytes \<Rightarrow> bytes" where
  "h2_keygen_x448 p seed = blake3_derive_key p H2_CONTEXT_X448 seed"

definition h2_keygen_sntrup :: "primitives \<Rightarrow> bytes \<Rightarrow> bytes" where
  "h2_keygen_sntrup p seed = blake3_derive_key p H2_CONTEXT_SNTRUP seed"

text \<open>\<open>for _ in 0..levels\<close>, with the current seed as the accumulator.\<close>

definition advance_seed_chain :: "primitives \<Rightarrow> bytes \<Rightarrow> u32 \<Rightarrow> bytes" where
  "advance_seed_chain p leaf_seed levels = (derive_h1_seed p ^^ unat levels) leaf_seed"

section \<open>H3: labels, rounds and the transcript\<close>

definition h3_tree_label :: "primitives \<Rightarrow> u32 \<Rightarrow> u32 \<Rightarrow> bytes \<Rightarrow> bytes" where
  "h3_tree_label p dep pos public_key =
     blake3_derive_key p H3_CONTEXT (le_bytes 4 dep @ le_bytes 4 pos @ public_key)"

definition round_input :: "bytes \<Rightarrow> user_id list \<Rightarrow> user_id list \<Rightarrow> bytes" where
  "round_input root_tree_label removed_users added_users =
     root_tree_label
       @ le_bytes 4 (of_nat (length removed_users) :: u32) @ concat removed_users
       @ le_bytes 4 (of_nat (length added_users) :: u32) @ concat added_users"

definition h3_round_hash :: "primitives \<Rightarrow> bytes \<Rightarrow> user_id list \<Rightarrow> user_id list \<Rightarrow> bytes" where
  "h3_round_hash p root_tree_label removed_users added_users =
     blake3_derive_key p ROUND_HASH_CONTEXT (round_input root_tree_label removed_users added_users)"

definition h3_transcript_hash :: "primitives \<Rightarrow> bytes \<Rightarrow> bytes \<Rightarrow> bytes" where
  "h3_transcript_hash p prev_transcript round_hash =
     blake3_derive_key p TRANSCRIPT_HASH_CONTEXT (prev_transcript @ round_hash)"

section \<open>H4: parent hashes\<close>

text \<open>\<open>b"h1-sibling"\<close> and \<open>b"h2-predecessors"\<close>.\<close>

definition ascii :: "string \<Rightarrow> bytes" where
  "ascii s = map of_char s"

definition h4_parent_hash_h1 :: "primitives \<Rightarrow> kem_public_key \<Rightarrow> bytes \<Rightarrow> bytes" where
  "h4_parent_hash_h1 p child_pk sibling_label =
     blake3_derive_key p H4_CONTEXT (ascii ''h1-sibling'' @ kem_pk_to_bytes child_pk @ sibling_label)"

definition h4_parent_hash_h2 ::
  "primitives \<Rightarrow> kem_public_key \<Rightarrow> kem_public_key list \<Rightarrow> bytes \<Rightarrow> kem_public_key list \<Rightarrow> bytes" where
  "h4_parent_hash_h2 p child_pk predecessor_keys child_h2 resolution_keys =
     blake3_derive_key p H4_CONTEXT (ascii ''h2-predecessors'' @ kem_pk_to_bytes child_pk
       @ concat (map kem_pk_to_bytes predecessor_keys) @ child_h2
       @ concat (map kem_pk_to_bytes resolution_keys))"

section \<open>H5 and the secrets of an epoch\<close>

definition h5_epoch_secret :: "primitives \<Rightarrow> bytes \<Rightarrow> bytes \<Rightarrow> bytes \<Rightarrow> bytes" where
  "h5_epoch_secret p init_secret_prev delta_root transcript_hash =
     blake3_derive_key p H5_CONTEXT (init_secret_prev @ delta_root @ transcript_hash)"

definition derive_app_secret :: "primitives \<Rightarrow> bytes \<Rightarrow> bytes" where
  "derive_app_secret p epoch_secret = blake3_derive_key p APP_SECRET_CONTEXT epoch_secret"

definition derive_conf_key :: "primitives \<Rightarrow> bytes \<Rightarrow> bytes" where
  "derive_conf_key p epoch_secret = blake3_derive_key p CONF_KEY_CONTEXT epoch_secret"

definition derive_init_secret :: "primitives \<Rightarrow> bytes \<Rightarrow> bytes" where
  "derive_init_secret p epoch_secret = blake3_derive_key p INIT_SECRET_CONTEXT epoch_secret"

definition message_input :: "bytes \<Rightarrow> u32 \<Rightarrow> u64 \<Rightarrow> bytes" where
  "message_input app_secret sender_leaf_position counter =
     app_secret @ le_bytes 4 sender_leaf_position @ le_bytes 8 counter"

definition derive_message_key :: "primitives \<Rightarrow> bytes \<Rightarrow> u32 \<Rightarrow> u64 \<Rightarrow> bytes" where
  "derive_message_key p app_secret sender_leaf_position counter =
     blake3_derive_key p MESSAGE_KEY_CONTEXT (message_input app_secret sender_leaf_position counter)"

definition derive_message_nonce :: "primitives \<Rightarrow> bytes \<Rightarrow> u32 \<Rightarrow> u64 \<Rightarrow> bytes" where
  "derive_message_nonce p app_secret sender_leaf_position counter =
     take 24 (blake3_derive_key p MESSAGE_NONCE_CONTEXT (message_input app_secret sender_leaf_position counter))"

section \<open>Lemmas\<close>

lemma le_bytes_eq_iff [simp]:
  "le_bytes 4 (a :: u32) = le_bytes 4 b \<longleftrightarrow> a = b" "le_bytes 8 (c :: u64) = le_bytes 8 d \<longleftrightarrow> c = d"
  by (metis le_bytes_round_trips(2)) (metis le_bytes_round_trips(3))

lemma length_message_nonce [simp]: "prims_ok p \<Longrightarrow> length (derive_message_nonce p s l c) = 24"
  by (simp add: derive_message_nonce_def)

text \<open>Distinct senders or counters never share a derivation input.\<close>

lemma message_input_inject:
  assumes "length s = length s'"
  shows "message_input s l c = message_input s' l' c' \<longleftrightarrow> s = s' \<and> l = l' \<and> c = c'"
  using assms by (simp add: message_input_def append_eq_append_conv)

lemma concat_inject:
  assumes "list_all (\<lambda>x. length x = n) xs" "list_all (\<lambda>x. length x = n) ys" "length xs = length ys"
  shows "concat xs @ r = concat ys @ s \<longleftrightarrow> xs = ys \<and> r = s"
  using assms(3,1,2) by (induction xs ys rule: list_induct2) (auto simp: append_eq_append_conv)

lemma of_nat_u32_inject:
  assumes "i < 2 ^ 32" and "j < 2 ^ 32"
  shows "(of_nat i :: u32) = of_nat j \<longleftrightarrow> i = j"
proof -
  have "unat (of_nat k :: u32) = k" if "k < 2 ^ 32" for k
    using that by (simp add: unsigned_of_nat take_bit_nat_eq_self)
  with assms show ?thesis by metis
qed

definition users_ok :: "user_id list \<Rightarrow> bool" where
  "users_ok us \<longleftrightarrow> list_all (\<lambda>u. length u = 32) us \<and> length us < 2 ^ 32"

text \<open>The framing of a round separates the label, the removed and the added users.\<close>

lemma round_input_inject:
  assumes "length l = length l'" "users_ok rs" "users_ok rs'" "users_ok as" "users_ok as'"
  shows "round_input l rs as = round_input l' rs' as' \<longleftrightarrow> l = l' \<and> rs = rs' \<and> as = as'"
proof
  assume "round_input l rs as = round_input l' rs' as'"
  then have l: "l = l'" and nr: "length rs = length rs'"
    and rest: "concat rs @ le_bytes 4 (of_nat (length as) :: u32) @ concat as
      = concat rs' @ le_bytes 4 (of_nat (length as') :: u32) @ concat as'"
    using assms of_nat_u32_inject [of "length rs" "length rs'"]
    by (simp_all add: round_input_def users_ok_def)
  then have rs: "rs = rs'" and na: "length as = length as'" and ra: "concat as = concat as'"
    using assms(2-5) concat_inject [of 32 rs rs'] of_nat_u32_inject [of "length as" "length as'"]
    by (simp_all add: users_ok_def)
  then have "as = as'"
    using assms(4,5) concat_inject [of 32 as as' "[]" "[]"] by (simp add: users_ok_def)
  with l rs show "l = l' \<and> rs = rs' \<and> as = as'" by simp
qed simp

text \<open>Climbing a seed chain in two stages.\<close>

lemma advance_seed_chain_add:
  assumes "unat a + unat b < 2 ^ 32"
  shows "advance_seed_chain p s (a + b) = advance_seed_chain p (advance_seed_chain p s b) a"
  using assms by (simp add: advance_seed_chain_def unat_word_ariths funpow_add)

lemma advance_seed_chain_0 [simp]: "advance_seed_chain p s 0 = s"
  by (simp add: advance_seed_chain_def)

text \<open>Keys have one length, so the second parent hash separates its fields when the number of
  predecessors is known. It does not commit to that number: moving a boundary gives two
  well-formed arguments with the same hash, whatever BLAKE3 is.\<close>

lemma length_kem_pk_to_bytes: "kem_pk_wf pk \<Longrightarrow> length (kem_pk_to_bytes pk) = 1214"
  by (simp add: kem_pk_wf_def kem_pk_to_bytes_def kem_sizes)

lemma parent_hash_h2_ambiguous:
  "\<exists>a b h h' r. kem_pk_wf a \<and> kem_pk_wf b \<and> kem_pk_wf r \<and> length h = 32 \<and> length h' = 32
    \<and> h4_parent_hash_h2 p a [b] h [] = h4_parent_hash_h2 p a [] h' [r]"
proof -
  define k :: kem_public_key where "k = \<lparr>pk_x448 = replicate 56 1, pk_sntrup = replicate 1158 1\<rparr>"
  define h :: bytes where "h = replicate 32 1"
  have "kem_pk_wf k" "length h = 32" by (simp_all add: k_def h_def kem_pk_wf_def kem_sizes)
  moreover have "kem_pk_to_bytes k @ h = h @ kem_pk_to_bytes k"
    by (simp add: k_def h_def kem_pk_to_bytes_def flip: replicate_add)
  then have "h4_parent_hash_h2 p k [k] h [] = h4_parent_hash_h2 p k [] h [k]"
    by (simp add: h4_parent_hash_h2_def)
  ultimately show ?thesis by blast
qed

section \<open>The transcript\<close>

text \<open>A round of the group's history is the root's label and the removed and added users; the
  transcript chains the rounds' hashes.\<close>

type_synonym round_data = "bytes \<times> user_id list \<times> user_id list"

primrec round_hash_of :: "primitives \<Rightarrow> round_data \<Rightarrow> bytes" where
  "round_hash_of p (l, us) = h3_round_hash p l (fst us) (snd us)"

primrec transcript_after :: "primitives \<Rightarrow> bytes \<Rightarrow> round_data list \<Rightarrow> bytes" where
  "transcript_after p t [] = t"
| "transcript_after p t (r # rs) = transcript_after p (h3_transcript_hash p t (round_hash_of p r)) rs"

primrec round_input_of :: "round_data \<Rightarrow> bytes" where
  "round_input_of (l, us) = round_input l (fst us) (snd us)"

primrec round_ok :: "round_data \<Rightarrow> bool" where
  "round_ok (l, us) = (length l = 32 \<and> users_ok (fst us) \<and> users_ok (snd us))"

lemma round_input_of_inject: "round_ok r \<Longrightarrow> round_ok r' \<Longrightarrow> round_input_of r = round_input_of r' \<longleftrightarrow> r = r'"
  by (cases r rule: prod_cases3; cases r' rule: prod_cases3) (simp add: round_input_inject)

lemma round_hash_of_eq: "round_hash_of p r = blake3_derive_key p ROUND_HASH_CONTEXT (round_input_of r)"
  by (cases r) (simp add: h3_round_hash_def)

lemma length_transcript_after [simp]: "prims_ok p \<Longrightarrow> length t = 32 \<Longrightarrow> length (transcript_after p t rs) = 32"
  by (induction rs arbitrary: t) (auto simp: h3_transcript_hash_def)

text \<open>Two collisions a history can exhibit in its \<open>k\<close>-th round: of the transcript hash, on the two
  inputs that were hashed there, or of the round hash.\<close>

definition transcript_input :: "primitives \<Rightarrow> bytes \<Rightarrow> round_data list \<Rightarrow> nat \<Rightarrow> bytes" where
  "transcript_input p t rs k = transcript_after p t (take k rs) @ round_hash_of p (rs ! k)"

definition collide_at :: "primitives \<Rightarrow> bytes \<Rightarrow> round_data list \<Rightarrow> bytes \<Rightarrow> round_data list \<Rightarrow> nat \<Rightarrow> bool" where
  "collide_at p t rs t' rs' k \<longleftrightarrow>
     transcript_input p t rs k \<noteq> transcript_input p t' rs' k
       \<and> blake3_derive_key p TRANSCRIPT_HASH_CONTEXT (transcript_input p t rs k)
         = blake3_derive_key p TRANSCRIPT_HASH_CONTEXT (transcript_input p t' rs' k)
   \<or> round_input_of (rs ! k) \<noteq> round_input_of (rs' ! k)
       \<and> blake3_derive_key p ROUND_HASH_CONTEXT (round_input_of (rs ! k))
         = blake3_derive_key p ROUND_HASH_CONTEXT (round_input_of (rs' ! k))"

lemma collide_at_Cons:
  "collide_at p (h3_transcript_hash p t (round_hash_of p r)) rs (h3_transcript_hash p t' (round_hash_of p r')) rs' k
    \<longleftrightarrow> collide_at p t (r # rs) t' (r' # rs') (Suc k)"
  by (simp add: collide_at_def transcript_input_def)

lemma transcript_binds_aux:
  assumes "prims_ok p" and "length rs = length rs'" and "length t = 32" and "length t' = 32"
    and "list_all round_ok rs" and "list_all round_ok rs'"
    and "transcript_after p t rs = transcript_after p t' rs'"
  shows "t = t' \<and> rs = rs' \<or> (\<exists>k < length rs. collide_at p t rs t' rs' k)"
  using assms(2-)
proof (induction rs rs' arbitrary: t t' rule: list_induct2)
  case Nil
  then show ?case by simp
next
  case (Cons r rs r' rs')
  define u u' where "u = h3_transcript_hash p t (round_hash_of p r)"
    and "u' = h3_transcript_hash p t' (round_hash_of p r')"
  have "length u = 32" "length u' = 32" by (simp_all add: u_def u'_def h3_transcript_hash_def assms(1))
  then consider "u = u'" "rs = rs'" | k where "k < length rs" "collide_at p u rs u' rs' k"
    using Cons.IH [of u u'] Cons.prems by (auto simp: u_def u'_def)
  then show ?case
  proof cases
    case 1
    show ?thesis
    proof (cases "t = t' \<and> r = r'")
      case True
      with 1 show ?thesis by simp
    next
      case False
      have "collide_at p t (r # rs) t' (r' # rs') 0"
        using 1(1) False Cons.prems round_input_of_inject [of r r']
        by (auto simp: collide_at_def transcript_input_def u_def u'_def h3_transcript_hash_def
            append_eq_append_conv round_hash_of_eq)
      then show ?thesis by auto
    qed
  next
    case (2 k)
    then show ?thesis unfolding u_def u'_def collide_at_Cons by auto
  qed
qed

text \<open>The transcript binds the group's history: two histories of equally many rounds (root label,
  removed users, added users) that end in the same transcript hash either started from the
  same transcript and are the same history, or exhibit, in a round one can name, two different
  inputs that BLAKE3 maps to the same transcript or round hash. No byte can move between the
  fields of a round.\<close>

lemma transcript_binds_history:
  assumes "prims_ok p" and "length rs = length rs'" and "length t = 32" and "length t' = 32"
    and "list_all round_ok rs" and "list_all round_ok rs'"
    and "transcript_after p t rs = transcript_after p t' rs'"
  shows "t = t' \<and> rs = rs' \<or> (\<exists>k < length rs. collide_at p t rs t' rs' k)"
  using assms by (rule transcript_binds_aux)

end
