(* ===== verification/Cocoa_Epoch.thy ===== *)
theory Cocoa_Epoch
  imports Key_Schedule
begin

text \<open>
  Epochs of the group protocol (\<open>trelis-cocoa/src/epoch.rs\<close>), the size limits every session
  entry checks first (\<open>limits.rs\<close>, with the constants of \<open>lib.rs\<close>) and the watermark that
  guards restores against rollback (\<open>session_watermark.rs\<close>). A counter that would overflow is
  the \<open>expect\<close> panic, \<open>None\<close>.
\<close>

section \<open>Limits\<close>

definition MAX_GROUP_SIZE :: u32 where "MAX_GROUP_SIZE = push_bit 20 1"
definition MAX_TREE_DEPTH :: u32 where "MAX_TREE_DEPTH = 20"
definition MAX_MESSAGE_SIZE :: nat where "MAX_MESSAGE_SIZE = 64 * 1024 * 1024"
definition MAX_MERKLE_PROOF_DEPTH :: nat where "MAX_MERKLE_PROOF_DEPTH = 20"
definition MAX_UNMERGED_LEAVES :: nat where "MAX_UNMERGED_LEAVES = 100"

definition check_size_limits :: "nat \<Rightarrow> nat \<Rightarrow> u32 \<Rightarrow> u32 \<Rightarrow> nat \<Rightarrow> unit result" where
  "check_size_limits message_len proof_depth tree_depth group_size unmerged =
     (if message_len > MAX_MESSAGE_SIZE then Inl MessageTooLarge
      else if proof_depth > MAX_MERKLE_PROOF_DEPTH then Inl ProofTooDeep
      else if group_size > MAX_GROUP_SIZE \<or> tree_depth > MAX_TREE_DEPTH
          \<or> unmerged > MAX_UNMERGED_LEAVES then Inl TreeDepthExceeded
      else Inr ())"

definition check_group_growth_limits :: "u32 \<Rightarrow> unit result option" where
  "check_group_growth_limits member_count =
     map_option (\<lambda>d. check_size_limits 0 0 d member_count 0) (depth_for_members member_count)"

lemma check_message_size: "check_size_limits n 0 0 0 0 = (if n > MAX_MESSAGE_SIZE then Inl MessageTooLarge else Inr ())"
  by (simp add: check_size_limits_def MAX_MERKLE_PROOF_DEPTH_def)

text \<open>The growth check is the bound on the member count: a tree for at most \<open>2 ^ 20\<close> members is
  at most 20 deep, so its second ceiling never decides.\<close>

lemma growth_limits_eq:
  "check_group_growth_limits n = Some (if unat n \<le> 2 ^ 20 then Inr () else Inl TreeDepthExceeded)"
proof -
  obtain d where d: "depth_for_members n = Some d" "\<And>e. unat n \<le> 2 ^ e \<longleftrightarrow> unat d \<le> e"
    using depth_for_members_eq [of n] by blast
  have "n > MAX_GROUP_SIZE \<longleftrightarrow> \<not> unat n \<le> 2 ^ 20"
    by (simp add: MAX_GROUP_SIZE_def word_less_nat_alt not_le)
  moreover have "d > MAX_TREE_DEPTH \<longleftrightarrow> \<not> unat d \<le> 20"
    by (simp add: MAX_TREE_DEPTH_def word_less_nat_alt not_le)
  ultimately show ?thesis
    using d(1) d(2) [of 20] by (simp add: check_group_growth_limits_def check_size_limits_def)
qed

section \<open>Epochs\<close>

record epoch_secrets =
  epoch_secret :: bytes
  app_secret :: bytes
  conf_key :: bytes
  init_secret :: bytes

definition derive_epoch_secrets :: "primitives \<Rightarrow> bytes \<Rightarrow> epoch_secrets" where
  "derive_epoch_secrets p secret = \<lparr>epoch_secret = secret, app_secret = derive_app_secret p secret,
     conf_key = derive_conf_key p secret, init_secret = derive_init_secret p secret\<rparr>"

record message_key =
  mk_key :: bytes
  mk_nonce :: bytes
  mk_sender :: u32
  mk_counter :: u64

definition secrets_message_key :: "primitives \<Rightarrow> epoch_secrets \<Rightarrow> u32 \<Rightarrow> u64 \<Rightarrow> message_key" where
  "secrets_message_key p es sender_leaf_position counter =
     \<lparr>mk_key = derive_message_key p (app_secret es) sender_leaf_position counter,
      mk_nonce = derive_message_nonce p (app_secret es) sender_leaf_position counter,
      mk_sender = sender_leaf_position, mk_counter = counter\<rparr>"

record epoch =
  number :: u64
  secrets :: epoch_secrets
  message_counter :: u64
  ep_transcript :: bytes

definition epoch_initial :: "primitives \<Rightarrow> bytes \<Rightarrow> bytes \<Rightarrow> epoch" where
  "epoch_initial p secret transcript_hash =
     \<lparr>number = 0, secrets = derive_epoch_secrets p secret, message_counter = 0, ep_transcript = transcript_hash\<rparr>"

definition epoch_advance :: "primitives \<Rightarrow> bytes \<Rightarrow> bytes \<Rightarrow> bytes \<Rightarrow> u64 \<Rightarrow> epoch option" where
  "epoch_advance p prev_init_secret delta_root transcript_hash prev_epoch_number =
     (let secret = h5_epoch_secret p prev_init_secret delta_root transcript_hash in
      map_option (\<lambda>n. \<lparr>number = n, secrets = derive_epoch_secrets p secret, message_counter = 0,
        ep_transcript = transcript_hash\<rparr>) (checked_add prev_epoch_number 1))"

definition epoch_restore :: "primitives \<Rightarrow> bytes \<Rightarrow> bytes \<Rightarrow> u64 \<Rightarrow> epoch" where
  "epoch_restore p secret transcript_hash n =
     \<lparr>number = n, secrets = derive_epoch_secrets p secret, message_counter = 0, ep_transcript = transcript_hash\<rparr>"

definition next_message_key :: "primitives \<Rightarrow> u32 \<Rightarrow> epoch \<Rightarrow> (message_key \<times> epoch) option" where
  "next_message_key p our_leaf_position e =
     (let key = secrets_message_key p (secrets e) our_leaf_position (message_counter e) in
      map_option (\<lambda>c. (key, e\<lparr>message_counter := c\<rparr>)) (checked_add (message_counter e) 1))"

definition message_key_for_counter :: "primitives \<Rightarrow> epoch \<Rightarrow> u32 \<Rightarrow> u64 \<Rightarrow> message_key" where
  "message_key_for_counter p e sender_leaf_position counter =
     secrets_message_key p (secrets e) sender_leaf_position counter"

definition set_message_counter :: "u64 \<Rightarrow> epoch \<Rightarrow> unit result \<times> epoch" where
  "set_message_counter counter e =
     (if counter < message_counter e then (Inl MessageCounterTooOld, e)
      else (Inr (), e\<lparr>message_counter := counter\<rparr>))"

definition compute_confirmation_tag :: "primitives \<Rightarrow> epoch \<Rightarrow> bytes \<Rightarrow> bytes" where
  "compute_confirmation_tag p e commit_content = blake3_keyed_hash p (conf_key (secrets e)) commit_content"

definition verify_confirmation_tag :: "primitives \<Rightarrow> epoch \<Rightarrow> bytes \<Rightarrow> bytes \<Rightarrow> bool" where
  "verify_confirmation_tag p e commit_content tag = (compute_confirmation_tag p e commit_content = tag)"

interpretation epoch_counter: forward_counter message_counter set_message_counter
  by unfold_locales (auto simp: set_message_counter_def not_less split: if_splits)

lemma confirmation_tag_ok: "verify_confirmation_tag p e m (compute_confirmation_tag p e m)"
  by (simp add: verify_confirmation_tag_def)

text \<open>Members that hold the same init secret and apply the same update share the next epoch.\<close>

lemma epoch_advance_Some:
  "epoch_advance p i d t n = Some e \<longleftrightarrow>
     unat n + 1 < 2 ^ 64 \<and> e = \<lparr>number = n + 1, secrets = derive_epoch_secrets p (h5_epoch_secret p i d t),
       message_counter = 0, ep_transcript = t\<rparr>"
  by (auto simp: epoch_advance_def Let_def checked_add_def split: if_splits)

lemma next_message_key_Some:
  "next_message_key p l e = Some (k, e') \<longleftrightarrow>
     unat (message_counter e) + 1 < 2 ^ 64 \<and> k = secrets_message_key p (secrets e) l (message_counter e)
       \<and> e' = e\<lparr>message_counter := message_counter e + 1\<rparr>"
  by (auto simp: next_message_key_def Let_def checked_add_def split: if_splits)

lemma succ_u64: "unat (c :: u64) + 1 < 2 ^ 64 \<Longrightarrow> c < c + 1 \<and> unat (c + 1) = unat c + 1"
  by (simp add: word_less_nat_alt unat_word_ariths)

section \<open>The watermark\<close>

text \<open>The derived order compares the fields in their order of declaration.\<close>

datatype session_watermark = SessionWatermark (wm_epoch: u64) (wm_counter: u64)

instantiation session_watermark :: linorder
begin

definition less_eq_session_watermark :: "session_watermark \<Rightarrow> session_watermark \<Rightarrow> bool" where
  "less_eq_session_watermark a b \<longleftrightarrow> wm_epoch a < wm_epoch b \<or> wm_epoch a = wm_epoch b \<and> wm_counter a \<le> wm_counter b"

definition less_session_watermark :: "session_watermark \<Rightarrow> session_watermark \<Rightarrow> bool" where
  "less_session_watermark a b \<longleftrightarrow> wm_epoch a < wm_epoch b \<or> wm_epoch a = wm_epoch b \<and> wm_counter a < wm_counter b"

instance
  by standard (auto simp: less_eq_session_watermark_def less_session_watermark_def intro: session_watermark.expand)

end

lemmas watermark_order = less_eq_session_watermark_def less_session_watermark_def

definition watermark_check :: "session_watermark \<Rightarrow> u64 \<Rightarrow> u64 \<Rightarrow> unit result" where
  "watermark_check w epoch_number counter =
     (if epoch_number < wm_epoch w \<or> epoch_number = wm_epoch w \<and> counter < wm_counter w
      then Inl MessageCounterTooOld else Inr ())"

definition watermark_advanced :: "session_watermark \<Rightarrow> u64 \<Rightarrow> u64 \<Rightarrow> session_watermark" where
  "watermark_advanced w epoch_number counter = max w (SessionWatermark epoch_number counter)"

definition watermark_to_bytes :: "session_watermark \<Rightarrow> bytes" where
  "watermark_to_bytes w = le_bytes 8 (wm_epoch w) @ le_bytes 8 (wm_counter w)"

definition watermark_from_bytes :: "bytes \<Rightarrow> session_watermark result" where
  "watermark_from_bytes bs =
     (if length bs < 16 then Inl MalformedMessage
      else Inr (SessionWatermark (le_word (sub_slice 0 8 bs)) (le_word (sub_slice 8 16 bs))))"

lemma watermark_check_eq:
  "watermark_check w e c = (if w \<le> SessionWatermark e c then Inr () else Inl MessageCounterTooOld)"
  by (auto simp: watermark_check_def watermark_order)

interpretation watermark: fixed_codec watermark_to_bytes watermark_from_bytes "\<lambda>_. True" 16
  by unfold_locales
    (simp_all add: watermark_to_bytes_def watermark_from_bytes_def slice_fields slice_of_append)

text \<open>What a caller relies on: the watermark only rises, every state it has absorbed stays below it,
  and a restore passes exactly when it is not below.\<close>

lemma watermark_advanced_ge: "w \<le> watermark_advanced w e c" "SessionWatermark e c \<le> watermark_advanced w e c"
  by (simp_all add: watermark_advanced_def)

lemma absorbed_states_stay_below:
  "(e, c) \<in> set ps \<Longrightarrow> SessionWatermark e c \<le> foldl (\<lambda>w q. watermark_advanced w (fst q) (snd q)) w ps"
proof (induction ps arbitrary: w)
  case Nil
  then show ?case by simp
next
  case (Cons q ps)
  have mono: "w \<le> foldl (\<lambda>w q. watermark_advanced w (fst q) (snd q)) w ps" for w
    by (induction ps arbitrary: w) (auto intro: order_trans watermark_advanced_ge(1))
  show ?case
  proof (cases "(e, c) = q")
    case True
    then have "SessionWatermark e c \<le> watermark_advanced w (fst q) (snd q)"
      using watermark_advanced_ge(2) by auto
    also note mono
    finally show ?thesis by simp
  next
    case False
    with Cons show ?thesis by simp
  qed
qed

end
