(* ===== verification/Aead.thy ===== *)
theory Aead
  imports Crypto_Primitives
begin

text \<open>
  XChaCha20-Poly1305 as the program wraps it (\<open>trelis-primitives/src/aead.rs\<close>): sealing with an
  appended tag, opening with a length check, and the committing variant that appends a
  BLAKE3 commitment to the key over the length-framed nonce, associated data and ciphertext.
  Keys, nonces and tags are byte strings of their fixed lengths.
\<close>

section \<open>Sealing and opening\<close>

definition aead_key_try_from :: "bytes \<Rightarrow> bytes result" where
  "aead_key_try_from bs = (if length bs \<noteq> 32 then Inl (InvalidKeyLength 32 (length bs)) else Inr bs)"

definition nonce_try_from :: "bytes \<Rightarrow> bytes result" where
  "nonce_try_from bs = (if length bs \<noteq> 24 then Inl (InvalidNonceLength 24 (length bs)) else Inr bs)"

definition tag_try_from :: "bytes \<Rightarrow> bytes result" where
  "tag_try_from bs = (if length bs \<noteq> 16 then Inl InvalidCiphertext else Inr bs)"

text \<open>A 32-byte key is always accepted by the cipher's constructor.\<close>

definition aead_encrypt :: "primitives \<Rightarrow> bytes \<Rightarrow> bytes \<Rightarrow> bytes \<Rightarrow> bytes \<Rightarrow> bytes result" where
  "aead_encrypt p key nonce plaintext aad = ok_or DecryptionFailed (xchacha_seal p key nonce plaintext aad)"

definition aead_decrypt :: "primitives \<Rightarrow> bytes \<Rightarrow> bytes \<Rightarrow> bytes \<Rightarrow> bytes \<Rightarrow> bytes result" where
  "aead_decrypt p key nonce ciphertext aad =
     (if length ciphertext < 16 then Inl InvalidCiphertext
      else ok_or AeadAuthenticationFailed (xchacha_open p key nonce ciphertext aad))"

definition commitment_input :: "bytes \<Rightarrow> bytes \<Rightarrow> bytes \<Rightarrow> bytes" where
  "commitment_input nonce aad ct =
     le_bytes 8 (24 :: u64) @ nonce @ le_bytes 8 (of_nat (length aad) :: u64) @ aad
       @ le_bytes 8 (of_nat (length ct) :: u64) @ ct"

definition aead_commitment :: "primitives \<Rightarrow> bytes \<Rightarrow> bytes \<Rightarrow> bytes \<Rightarrow> bytes \<Rightarrow> bytes" where
  "aead_commitment p key nonce aad ct =
     keyed_hash p (derive_key p AEAD_COMMIT_CONTEXT key) (commitment_input nonce aad ct)"

definition aead_encrypt_committing :: "primitives \<Rightarrow> bytes \<Rightarrow> bytes \<Rightarrow> bytes \<Rightarrow> bytes \<Rightarrow> bytes result" where
  "aead_encrypt_committing p key nonce plaintext aad =
     tryR (aead_encrypt p key nonce plaintext aad) (\<lambda>out.
     Inr (out @ aead_commitment p key nonce aad out))"

definition aead_decrypt_committing :: "primitives \<Rightarrow> bytes \<Rightarrow> bytes \<Rightarrow> bytes \<Rightarrow> bytes \<Rightarrow> bytes result" where
  "aead_decrypt_committing p key nonce committing_ct aad =
     (if length committing_ct < 16 + 32 then Inl InvalidCiphertext
      else let split_at = length committing_ct - 32;
               ct = take split_at committing_ct; commitment = drop split_at committing_ct;
               expected = aead_commitment p key nonce aad ct
           in if expected \<noteq> commitment then Inl AeadAuthenticationFailed
              else aead_decrypt p key nonce ct aad)"

section \<open>Round trips\<close>

lemma aead_round_trip:
  assumes "prims_ok p" and "aead_encrypt p k n m a = Inr c"
  shows "aead_decrypt p k n c a = Inr m" and "length c = length m + 16"
  using assms seal_open [OF assms(1)]
  by (cases "xchacha_seal p k n m a"; fastforce simp: aead_encrypt_def aead_decrypt_def)+

lemma length_aead_commitment [simp]: "prims_ok p \<Longrightarrow> length (aead_commitment p k n a c) = 32"
  by (simp add: aead_commitment_def Let_def)

lemma toy_seals: "aead_encrypt toy_prims k n m a = Inr (m @ take 16 (k @ replicate 16 0))"
  by (simp add: aead_encrypt_def toy_prims_def)

section \<open>Properties\<close>

text \<open>The committing AEAD opens what it sealed: whenever \<open>encrypt_committing\<close> succeeds, its output
  is 48 bytes longer than the plaintext and \<open>decrypt_committing\<close> under the same key, nonce and
  associated data returns that plaintext.\<close>

lemma committing_round_trip:
  assumes "prims_ok p" and "aead_encrypt_committing p k n m a = Inr c"
  shows "aead_decrypt_committing p k n c a = Inr m \<and> length c = length m + 48"
proof -
  obtain out where out: "aead_encrypt p k n m a = Inr out" and c: "c = out @ aead_commitment p k n a out"
    using assms(2) by (auto simp: aead_encrypt_committing_def try_simps)
  note rt = aead_round_trip [OF assms(1) out]
  then show ?thesis
    using assms(1) by (simp add: aead_decrypt_committing_def c Let_def)
qed

lemma le_bytes_inject: "LENGTH('a) \<le> 8 * k \<Longrightarrow> le_bytes k (x :: 'a::len word) = le_bytes k y \<longleftrightarrow> x = y"
  by (metis le_word_le_bytes)

lemma of_nat_u64_inject:
  assumes "i < 2 ^ 64" and "j < 2 ^ 64"
  shows "(of_nat i :: u64) = of_nat j \<longleftrightarrow> i = j"
proof -
  have "unat (of_nat k :: u64) = k" if "k < 2 ^ 64" for k
    using that by (simp add: unsigned_of_nat take_bit_nat_eq_self)
  with assms show ?thesis by metis
qed

text \<open>The framing of the commitment input is unambiguous.\<close>

lemma commitment_input_inject:
  assumes "length n = 24" "length n' = 24" "length a < 2 ^ 64" "length a' < 2 ^ 64"
  shows "commitment_input n a c = commitment_input n' a' c \<longleftrightarrow> n = n' \<and> a = a'"
proof
  assume f: "commitment_input n a c = commitment_input n' a' c"
  then have "n = n'" and rest: "le_bytes 8 (of_nat (length a) :: u64) @ a @ le_bytes 8 (of_nat (length c) :: u64) @ c
      = le_bytes 8 (of_nat (length a') :: u64) @ a' @ le_bytes 8 (of_nat (length c) :: u64) @ c"
    using assms(1,2) by (simp_all add: commitment_input_def)
  moreover from rest have "(of_nat (length a) :: u64) = of_nat (length a')"
    by (simp add: append_eq_append_conv le_bytes_inject)
  then have "length a = length a'" using assms(3,4) by (simp add: of_nat_u64_inject)
  ultimately show "n = n' \<and> a = a'" by simp
qed simp

text \<open>The commitment binds the key: a ciphertext that opens under two keys exhibits two inputs
  with the same keyed hash, namely the framed inputs under the two subkeys, and those inputs
  are equal only if the nonces and the associated data agree, since no byte can move across a
  field boundary of the framing.\<close>

lemma committing_binds_key:
  assumes "aead_decrypt_committing p k n c a = Inr m" and "aead_decrypt_committing p k' n' c a' = Inr m'"
    and "length n = 24" and "length n' = 24" and "length a < 2 ^ 64" and "length a' < 2 ^ 64"
  shows "keyed_hash p (derive_key p AEAD_COMMIT_CONTEXT k) (commitment_input n a (take (length c - 32) c))
      = keyed_hash p (derive_key p AEAD_COMMIT_CONTEXT k') (commitment_input n' a' (take (length c - 32) c))
    \<and> (commitment_input n a (take (length c - 32) c) = commitment_input n' a' (take (length c - 32) c)
       \<longleftrightarrow> n = n' \<and> a = a')"
  using assms commitment_input_inject
  by (auto simp: aead_decrypt_committing_def aead_commitment_def Let_def split: if_splits)

end
