(* ===== verification/Cocoa_Session.thy ===== *)
theory Cocoa_Session
  imports Cocoa_Epoch Aead
begin

text \<open>
  Group sessions (\<open>trelis-cocoa/src/session.rs\<close>): a member's state, its construction and
  restoration, the message channel with its additional data, epoch advances, and the wire form
  of an encrypted message. An operation on a session returns its result and the new state;
  \<open>None\<close> is a panic (a counter that would overflow). The step relation at the end is what a
  process can do to a session, with restarts from stored blobs guarded by the watermark.
\<close>

section \<open>State\<close>

record cocoa_session =
  group_id :: group_id
  our_user_id :: user_id
  our_leaf_position :: u32
  our_keypair :: kem_keypair
  session_tree :: tree_view
  session_epoch :: epoch
  transcript_hash :: bytes
  members :: "user_id set"

definition session_epoch_number :: "cocoa_session \<Rightarrow> u64" where
  "session_epoch_number s = number (session_epoch s)"

definition session_message_counter :: "cocoa_session \<Rightarrow> u64" where
  "session_message_counter s = message_counter (session_epoch s)"

definition create_group ::
  "primitives \<Rightarrow> group_id \<Rightarrow> user_id \<Rightarrow> kem_keypair \<Rightarrow> u32 \<Rightarrow> bytes \<Rightarrow> cocoa_session outcome" where
  "create_group p gid uid kp initial_members secret =
     (if initial_members = 0 then Fail InvalidGroupSize
      else bind_out (or_panic (depth_for_members initial_members)) (\<lambda>tree_depth.
      let our_pos = 0; tree = set_member_count initial_members (view_new our_pos tree_depth);
          transcript = replicate 32 0 in
      Done \<lparr>group_id = gid, our_user_id = uid, our_leaf_position = our_pos, our_keypair = kp,
        session_tree = tree, session_epoch = epoch_initial p secret transcript,
        transcript_hash = transcript, members = {uid}\<rparr>))"

definition join_group ::
  "primitives \<Rightarrow> group_id \<Rightarrow> user_id \<Rightarrow> kem_keypair \<Rightarrow> u32 \<Rightarrow> u32 \<Rightarrow> u32 \<Rightarrow> bytes \<Rightarrow> bytes \<Rightarrow> cocoa_session" where
  "join_group p gid uid kp our_position tree_depth member_count secret transcript =
     \<lparr>group_id = gid, our_user_id = uid, our_leaf_position = our_position, our_keypair = kp,
      session_tree = set_member_count member_count (view_new our_position tree_depth),
      session_epoch = epoch_initial p secret transcript, transcript_hash = transcript, members = {uid}\<rparr>"

definition restore_session ::
  "primitives \<Rightarrow> group_id \<Rightarrow> user_id \<Rightarrow> kem_keypair \<Rightarrow> u32 \<Rightarrow> u32 \<Rightarrow> u32 \<Rightarrow> bytes \<Rightarrow> bytes \<Rightarrow> u64 \<Rightarrow> cocoa_session" where
  "restore_session p gid uid kp our_position tree_depth member_count secret transcript epoch_number =
     \<lparr>group_id = gid, our_user_id = uid, our_leaf_position = our_position, our_keypair = kp,
      session_tree = set_member_count member_count (view_new our_position tree_depth),
      session_epoch = epoch_restore p secret transcript epoch_number, transcript_hash = transcript,
      members = {uid}\<rparr>"

definition session_set_message_counter :: "u64 \<Rightarrow> cocoa_session \<Rightarrow> unit result \<times> cocoa_session" where
  "session_set_message_counter counter s =
     (let (r, e) = set_message_counter counter (session_epoch s) in (r, s\<lparr>session_epoch := e\<rparr>))"

definition restore_session_checked ::
  "primitives \<Rightarrow> session_watermark \<Rightarrow> group_id \<Rightarrow> user_id \<Rightarrow> kem_keypair \<Rightarrow> u32 \<Rightarrow> u32 \<Rightarrow> u32 \<Rightarrow> bytes \<Rightarrow> bytes
     \<Rightarrow> u64 \<Rightarrow> u64 \<Rightarrow> cocoa_session result" where
  "restore_session_checked p watermark gid uid kp our_position tree_depth member_count secret transcript
     epoch_number counter =
     tryR (watermark_check watermark epoch_number counter) (\<lambda>_.
     let s = restore_session p gid uid kp our_position tree_depth member_count secret transcript epoch_number;
         (r, s') = session_set_message_counter counter s in
     tryR r (\<lambda>_. Inr s'))"

definition watermark_of_session :: "cocoa_session \<Rightarrow> session_watermark" where
  "watermark_of_session s = SessionWatermark (session_epoch_number s) (session_message_counter s)"

definition is_member :: "user_id \<Rightarrow> cocoa_session \<Rightarrow> bool" where
  "is_member u s = (u \<in> members s)"

definition insert_member :: "user_id \<Rightarrow> cocoa_session \<Rightarrow> cocoa_session" where
  "insert_member u s = s\<lparr>members := insert u (members s)\<rparr>"

definition remove_member :: "user_id \<Rightarrow> cocoa_session \<Rightarrow> cocoa_session" where
  "remove_member u s = s\<lparr>members := members s - {u}\<rparr>"

section \<open>Messages\<close>

record encrypted_message =
  em_epoch :: u64
  em_sender :: u32
  em_counter :: u64
  em_ciphertext :: bytes

definition message_aad :: "bytes \<Rightarrow> u64 \<Rightarrow> u32 \<Rightarrow> u64 \<Rightarrow> bytes" where
  "message_aad gid epoch_number sender counter = gid @ le_bytes 8 epoch_number @ le_bytes 4 sender @ le_bytes 8 counter"

definition session_encrypt ::
  "primitives \<Rightarrow> bytes \<Rightarrow> cocoa_session \<Rightarrow> (encrypted_message result \<times> cocoa_session) option" where
  "session_encrypt p plaintext s =
     (case check_size_limits (length plaintext) 0 0 0 0 of
        Inl e \<Rightarrow> Some (Inl e, s)
      | Inr _ \<Rightarrow>
          do {
            (key, e') \<leftarrow> next_message_key p (our_leaf_position s) (session_epoch s);
            let s' = s\<lparr>session_epoch := e'\<rparr>;
            let aad = message_aad (group_id s) (number e') (our_leaf_position s) (mk_counter key);
            Some (tryR (aead_encrypt p (mk_key key) (mk_nonce key) plaintext aad) (\<lambda>ct.
              Inr \<lparr>em_epoch = number e', em_sender = our_leaf_position s, em_counter = mk_counter key,
                em_ciphertext = ct\<rparr>), s')
          })"

definition session_decrypt :: "primitives \<Rightarrow> cocoa_session \<Rightarrow> encrypted_message \<Rightarrow> bytes result" where
  "session_decrypt p s message =
     tryR (check_size_limits (length (em_ciphertext message)) 0 0 0 0) (\<lambda>_.
     if em_epoch message \<noteq> number (session_epoch s)
     then Inl (EpochMismatch (number (session_epoch s)) (em_epoch message))
     else let key = message_key_for_counter p (session_epoch s) (em_sender message) (em_counter message);
              aad = message_aad (group_id s) (em_epoch message) (em_sender message) (em_counter message)
          in aead_decrypt p (mk_key key) (mk_nonce key) (em_ciphertext message) aad)"

definition decrypt_with_epoch_secret ::
  "primitives \<Rightarrow> cocoa_session \<Rightarrow> bytes \<Rightarrow> encrypted_message \<Rightarrow> bytes result" where
  "decrypt_with_epoch_secret p s secret message =
     tryR (check_size_limits (length (em_ciphertext message)) 0 0 0 0) (\<lambda>_.
     let es = derive_epoch_secrets p secret;
         key = secrets_message_key p es (em_sender message) (em_counter message);
         aad = message_aad (group_id s) (em_epoch message) (em_sender message) (em_counter message)
     in aead_decrypt p (mk_key key) (mk_nonce key) (em_ciphertext message) aad)"

definition advance_epoch :: "primitives \<Rightarrow> bytes \<Rightarrow> bytes \<Rightarrow> cocoa_session \<Rightarrow> cocoa_session option" where
  "advance_epoch p delta_root new_transcript s =
     map_option (\<lambda>e. s\<lparr>session_epoch := e, transcript_hash := new_transcript\<rparr>)
       (epoch_advance p (init_secret (secrets (session_epoch s))) delta_root new_transcript (number (session_epoch s)))"

definition session_rotate_keypair :: "kem_keypair outcome \<Rightarrow> cocoa_session \<Rightarrow> (unit result \<times> cocoa_session) option" where
  "session_rotate_keypair generated s =
     (case generated of Done kp \<Rightarrow> Some (Inr (), s\<lparr>our_keypair := kp\<rparr>)
      | Fail e \<Rightarrow> Some (Inl e, s) | Panic \<Rightarrow> None)"

section \<open>Wire form of a message\<close>

definition MESSAGE_HEADER_SIZE :: nat where "MESSAGE_HEADER_SIZE = 24"

definition encrypted_message_to_bytes :: "encrypted_message \<Rightarrow> bytes" where
  "encrypted_message_to_bytes m =
     le_bytes 8 (em_epoch m) @ le_bytes 4 (em_sender m) @ le_bytes 8 (em_counter m)
       @ le_bytes 4 (of_nat (length (em_ciphertext m)) :: u32) @ em_ciphertext m"

text \<open>\<open>usize\<close> is 64 bits wide, so adding the header's size to a 32-bit length cannot overflow.\<close>

definition encrypted_message_from_bytes :: "bytes \<Rightarrow> encrypted_message result" where
  "encrypted_message_from_bytes bs =
     (if length bs < MESSAGE_HEADER_SIZE then Inl MalformedMessage
      else let ct_len = unat (le_word (sub_slice 20 24 bs) :: u32);
               end_pos = MESSAGE_HEADER_SIZE + ct_len in
           if length bs < end_pos then Inl MalformedMessage
           else Inr \<lparr>em_epoch = le_word (sub_slice 0 8 bs), em_sender = le_word (sub_slice 8 12 bs),
             em_counter = le_word (sub_slice 12 20 bs), em_ciphertext = sub_slice MESSAGE_HEADER_SIZE end_pos bs\<rparr>)"

definition message_wf :: "encrypted_message \<Rightarrow> bool" where
  "message_wf m \<longleftrightarrow> length (em_ciphertext m) < 2 ^ 32"

interpretation encrypted_message: prefix_codec encrypted_message_to_bytes encrypted_message_from_bytes message_wf
proof
  fix m rest
  assume "message_wf m"
  then have "unat (of_nat (length (em_ciphertext m)) :: u32) = length (em_ciphertext m)"
    by (simp add: message_wf_def unsigned_of_nat take_bit_nat_eq_self)
  then show "encrypted_message_from_bytes (encrypted_message_to_bytes m @ rest) = Inr m"
    by (simp add: encrypted_message_from_bytes_def encrypted_message_to_bytes_def MESSAGE_HEADER_SIZE_def
        slice_append_skip sub_slice_def Let_def)
qed

interpretation session_counter: forward_counter session_message_counter session_set_message_counter
proof
  fix c s
  assume "fst (session_set_message_counter c s) = Inr ()"
  then show "session_message_counter s \<le> c \<and> session_message_counter (snd (session_set_message_counter c s)) = c"
    using epoch_counter.set_ok [of c "session_epoch s"]
    by (simp add: session_set_message_counter_def session_message_counter_def split_def Let_def)
next
  fix c s
  assume "fst (session_set_message_counter c s) \<noteq> Inr ()"
  then show "snd (session_set_message_counter c s) = s"
    using epoch_counter.set_rejected [of c "session_epoch s"]
    by (simp add: session_set_message_counter_def split_def Let_def)
qed

section \<open>The channel\<close>

lemma message_aad_inject:
  assumes "length g = length g'"
  shows "message_aad g e l c = message_aad g' e' l' c' \<longleftrightarrow> g = g' \<and> e = e' \<and> l = l' \<and> c = c'"
  using assms by (auto simp: message_aad_def append_eq_append_conv)

lemma session_encrypt_Inr:
  assumes "session_encrypt p m s = Some (Inr msg, s')"
  shows "length m \<le> MAX_MESSAGE_SIZE" "unat (session_message_counter s) + 1 < 2 ^ 64"
    "s' = s\<lparr>session_epoch := (session_epoch s)\<lparr>message_counter := session_message_counter s + 1\<rparr>\<rparr>"
    "em_epoch msg = session_epoch_number s" "em_sender msg = our_leaf_position s"
    "em_counter msg = session_message_counter s"
    "aead_encrypt p (derive_message_key p (app_secret (secrets (session_epoch s))) (em_sender msg) (em_counter msg))
       (derive_message_nonce p (app_secret (secrets (session_epoch s))) (em_sender msg) (em_counter msg)) m
       (message_aad (group_id s) (em_epoch msg) (em_sender msg) (em_counter msg)) = Inr (em_ciphertext msg)"
  using assms
  by (auto simp: session_encrypt_def check_message_size bind_eq_Some_conv next_message_key_Some try_simps
      secrets_message_key_def Let_def session_message_counter_def session_epoch_number_def split: if_splits)

text \<open>What is left of the state when sealing is not reached or fails.\<close>

lemma session_encrypt_Inl:
  assumes "session_encrypt p m s = Some (Inl e, s')"
  shows "s' = s \<or> unat (session_message_counter s) + 1 < 2 ^ 64
     \<and> s' = s\<lparr>session_epoch := (session_epoch s)\<lparr>message_counter := session_message_counter s + 1\<rparr>\<rparr>"
  using assms
  by (auto simp: session_encrypt_def check_message_size bind_eq_Some_conv next_message_key_Some
      session_message_counter_def Let_def split: if_splits)

text \<open>The secrets of an epoch are the ones derived from its raw secret, and the session and its epoch
  carry the same transcript.\<close>

definition session_ok :: "primitives \<Rightarrow> cocoa_session \<Rightarrow> bool" where
  "session_ok p s \<longleftrightarrow> secrets (session_epoch s) = derive_epoch_secrets p (epoch_secret (secrets (session_epoch s)))
     \<and> ep_transcript (session_epoch s) = transcript_hash s"

lemma session_ok_constructed:
  "session_ok p (join_group p gid uid kp pos dep cnt sec tr)"
  "session_ok p (restore_session p gid uid kp pos dep cnt sec tr n)"
  "create_group p gid uid kp cnt sec = Done s \<Longrightarrow> session_ok p s"
  by (auto simp: session_ok_def join_group_def restore_session_def create_group_def epoch_initial_def
      epoch_restore_def derive_epoch_secrets_def Let_def bind_out_eq_Done split: if_splits)

lemma restore_session_checked_Inr:
  "restore_session_checked p w gid uid kp pos dep cnt sec tr n c = Inr s \<longleftrightarrow>
     w \<le> SessionWatermark n c \<and> s = (restore_session p gid uid kp pos dep cnt sec tr n)
       \<lparr>session_epoch := (epoch_restore p sec tr n)\<lparr>message_counter := c\<rparr>\<rparr>"
  by (auto simp: restore_session_checked_def watermark_check_eq session_set_message_counter_def
      set_message_counter_def restore_session_def epoch_restore_def Let_def)

lemma session_encrypt_ok:
  assumes "session_ok p s" and "session_encrypt p m s = Some (r, s')"
  shows "session_ok p s'"
  using assms session_encrypt_Inr(3) [of p m s _ s'] session_encrypt_Inl [of p m s _ s']
  by (cases r) (fastforce simp: session_ok_def)+

lemma session_ok_preserved:
  assumes "session_ok p s"
  shows "advance_epoch p d t s = Some s' \<Longrightarrow> session_ok p s'"
    "session_ok p (snd (session_set_message_counter c s))"
    "session_rotate_keypair g s = Some (q, s') \<Longrightarrow> session_ok p s'"
    "session_ok p (insert_member u s)" "session_ok p (remove_member u s)"
  using assms
  by (auto simp: advance_epoch_def epoch_advance_Some session_ok_def derive_epoch_secrets_def
      session_set_message_counter_def set_message_counter_def session_rotate_keypair_def insert_member_def
      remove_member_def split: outcome.splits)

text \<open>C24. The group channel delivers: a message that one member encrypts is decrypted by every member of
  the group in the same epoch, and by any member at any later time with that epoch's raw
  secret, provided the ciphertext passes the size gate; a plaintext in the last 16 bytes below
  the 64 MiB ceiling is accepted by the sender and refused by every receiver. The message
  survives its wire form, whatever follows it in the buffer.\<close>

theorem channel_round_trip:
  assumes "prims_ok p" and "session_ok p s" and "session_encrypt p m s = Some (Inr msg, s')"
    and "group_id r = group_id s" and "session_epoch_number r = session_epoch_number s"
    and "secrets (session_epoch r) = secrets (session_epoch s)" and "group_id later = group_id s"
  shows "session_decrypt p r msg = (if length m + 16 \<le> MAX_MESSAGE_SIZE then Inr m else Inl MessageTooLarge)
    \<and> decrypt_with_epoch_secret p later (epoch_secret (secrets (session_epoch s))) msg
      = (if length m + 16 \<le> MAX_MESSAGE_SIZE then Inr m else Inl MessageTooLarge)
    \<and> encrypted_message_from_bytes (encrypted_message_to_bytes msg @ rest) = Inr msg"
proof -
  note enc = session_encrypt_Inr [OF assms(3)]
  note rt = aead_round_trip [OF assms(1) enc(7)]
  have "message_wf msg" using rt(2) enc(1) by (simp add: message_wf_def MAX_MESSAGE_SIZE_def)
  then have wire: "encrypted_message_from_bytes (encrypted_message_to_bytes msg @ rest) = Inr msg"
    by (rule encrypted_message.dec_enc)
  have d: "session_decrypt p r msg = (if length m + 16 \<le> MAX_MESSAGE_SIZE then Inr m else Inl MessageTooLarge)"
    using assms rt enc(4)
    by (simp add: session_decrypt_def check_message_size message_key_for_counter_def secrets_message_key_def
        session_epoch_number_def not_le)
  have "derive_epoch_secrets p (epoch_secret (secrets (session_epoch s))) = secrets (session_epoch s)"
    using assms(2) by (simp add: session_ok_def)
  then have "decrypt_with_epoch_secret p later (epoch_secret (secrets (session_epoch s))) msg
      = (if length m + 16 \<le> MAX_MESSAGE_SIZE then Inr m else Inl MessageTooLarge)"
    using assms rt by (simp add: decrypt_with_epoch_secret_def check_message_size secrets_message_key_def not_le)
  with d wire show ?thesis by blast
qed

definition sample_session :: "u32 \<Rightarrow> cocoa_session" where
  "sample_session pos = join_group toy_prims (replicate 32 1) (replicate 32 (of_nat (unat pos)))
     toy_kem_keypair pos 1 2 (replicate 32 9) (replicate 32 0)"

lemma sample_session_encrypts:
  assumes "length m \<le> MAX_MESSAGE_SIZE"
  shows "\<exists>msg s'. session_encrypt toy_prims m (sample_session pos) = Some (Inr msg, s')"
  using assms by (simp add: session_encrypt_def check_message_size next_message_key_def checked_add_def Let_def
      sample_session_def join_group_def epoch_initial_def toy_seals)

theorem channel_round_trip_witness:
  "\<exists>msg s'. session_encrypt toy_prims [1, 2, 3] (sample_session 0) = Some (Inr msg, s')
    \<and> session_decrypt toy_prims (sample_session 1) msg = Inr [1, 2, 3]"
proof -
  obtain msg s' where e: "session_encrypt toy_prims [1, 2, 3] (sample_session 0) = Some (Inr msg, s')"
    using sample_session_encrypts [of "[1, 2, 3]" 0] by (auto simp: MAX_MESSAGE_SIZE_def)
  have "session_ok toy_prims (sample_session 0)"
    unfolding sample_session_def by (rule session_ok_constructed)
  from channel_round_trip [OF toy_prims_ok this e, of "sample_session 1" "sample_session 1" "[]"] e show ?thesis
    by (auto simp: sample_session_def join_group_def session_epoch_number_def MAX_MESSAGE_SIZE_def)
qed

end
