(* ===== verification/Cocoa_Device.thy ===== *)
theory Cocoa_Device
  imports Cocoa_Session
begin

text \<open>
  What a process can do to one group identity over its life, restarts included, as a step
  relation over the operations of \<open>session.rs\<close> and \<open>session_watermark.rs\<close>. A device is its
  live session, the watermark it has persisted (advanced to the session's position before a
  ciphertext is released, as \<open>restore_session_checked\<close> asks of its caller) and the positions
  \<open>(epoch, counter)\<close> of the ciphertexts it has released. A restart hands
  \<open>restore_session_checked\<close> any arguments at all: the stored blob may be stale or forged.
\<close>

record device =
  live :: cocoa_session
  persisted :: session_watermark
  released :: "session_watermark list"

definition release :: "encrypted_message \<Rightarrow> cocoa_session \<Rightarrow> device \<Rightarrow> device" where
  "release msg s' d = \<lparr>live = s',
     persisted = watermark_advanced (persisted d) (session_epoch_number s') (session_message_counter s'),
     released = released d @ [SessionWatermark (em_epoch msg) (em_counter msg)]\<rparr>"

inductive device_step :: "primitives \<Rightarrow> device \<Rightarrow> device \<Rightarrow> bool" for p where
  emit: "session_encrypt p m (live d) = Some (Inr msg, s') \<Longrightarrow> device_step p d (release msg s' d)"
| refuse: "session_encrypt p m (live d) = Some (Inl e, s') \<Longrightarrow> device_step p d (d\<lparr>live := s'\<rparr>)"
| advance: "advance_epoch p delta tr (live d) = Some s' \<Longrightarrow> device_step p d (d\<lparr>live := s'\<rparr>)"
| forward: "session_set_message_counter c (live d) = (r, s') \<Longrightarrow> device_step p d (d\<lparr>live := s'\<rparr>)"
| rotate: "session_rotate_keypair g (live d) = Some (q, s') \<Longrightarrow> device_step p d (d\<lparr>live := s'\<rparr>)"
| learn: "device_step p d (d\<lparr>live := insert_member u (live d)\<rparr>)"
| forget: "device_step p d (d\<lparr>live := remove_member u (live d)\<rparr>)"
| restart: "restore_session_checked p (persisted d) gid uid kp pos dep cnt sec tr n c = Inr s'
    \<Longrightarrow> device_step p d (d\<lparr>live := s'\<rparr>)"

inductive device_reach :: "primitives \<Rightarrow> device \<Rightarrow> bool" for p where
  start: "session_ok p s \<Longrightarrow> device_reach p \<lparr>live = s, persisted = watermark_of_session s, released = []\<rparr>"
| step: "device_reach p d \<Longrightarrow> device_step p d d' \<Longrightarrow> device_reach p d'"

section \<open>The invariant\<close>

text \<open>Released positions increase and stay below the persisted watermark, which the live session
  never falls behind.\<close>

definition device_inv :: "primitives \<Rightarrow> device \<Rightarrow> bool" where
  "device_inv p d \<longleftrightarrow> session_ok p (live d) \<and> persisted d \<le> watermark_of_session (live d)
     \<and> (\<forall>w \<in> set (released d). w < persisted d) \<and> sorted_wrt (<) (released d)"

lemma session_ok_fields:
  "session_ok p (s\<lparr>session_epoch := (session_epoch s)\<lparr>message_counter := c\<rparr>\<rparr>) \<longleftrightarrow> session_ok p s"
  by (simp add: session_ok_def)

lemma position_after_encrypt:
  assumes "unat (session_message_counter s) + 1 < 2 ^ 64"
  shows "watermark_of_session s
    < watermark_of_session (s\<lparr>session_epoch := (session_epoch s)\<lparr>message_counter := session_message_counter s + 1\<rparr>\<rparr>)"
  using succ_u64 [OF assms]
  by (simp add: watermark_of_session_def watermark_order session_epoch_number_def session_message_counter_def)

lemma position_after_advance:
  assumes "advance_epoch p delta tr s = Some s'"
  shows "watermark_of_session s < watermark_of_session s'"
  using assms succ_u64 [of "number (session_epoch s)"]
  by (auto simp: advance_epoch_def epoch_advance_Some watermark_of_session_def watermark_order
      session_epoch_number_def session_message_counter_def)

lemma position_after_forward:
  "watermark_of_session s \<le> watermark_of_session (snd (session_set_message_counter c s))"
  using session_counter.set_monotone [of s c]
  by (simp add: watermark_of_session_def watermark_order session_epoch_number_def session_set_message_counter_def
      set_message_counter_def)

lemma release_inv:
  assumes "device_inv p d" and "session_encrypt p m (live d) = Some (Inr msg, s')"
  shows "device_inv p (release msg s' d)"
proof -
  note enc = session_encrypt_Inr [OF assms(2)]
  have pos: "SessionWatermark (em_epoch msg) (em_counter msg) = watermark_of_session (live d)"
    by (simp add: watermark_of_session_def enc)
  have lt: "watermark_of_session (live d) < watermark_of_session s'"
    unfolding enc(3) by (rule position_after_encrypt [OF enc(2)])
  moreover have "persisted d \<le> watermark_of_session (live d)" using assms(1) by (simp add: device_inv_def)
  ultimately have new: "watermark_advanced (persisted d) (session_epoch_number s') (session_message_counter s')
      = watermark_of_session s'"
    by (simp add: watermark_advanced_def watermark_of_session_def max_absorb2)
  have "session_ok p s'" using assms by (auto simp: device_inv_def intro: session_encrypt_ok)
  then show ?thesis
    using assms(1) lt pos
    by (auto simp: release_def new device_inv_def sorted_wrt_append dest: order.strict_trans2)
qed

lemma live_only_inv:
  assumes "device_inv p d" and "session_ok p s'" and "persisted d \<le> watermark_of_session s'"
  shows "device_inv p (d\<lparr>live := s'\<rparr>)"
  using assms by (simp add: device_inv_def)

lemma step_inv:
  assumes "device_inv p d" and "device_step p d d'"
  shows "device_inv p d'"
proof -
  have ok: "session_ok p (live d)" and le: "persisted d \<le> watermark_of_session (live d)"
    using assms(1) by (simp_all add: device_inv_def)
  from assms(2) show ?thesis
  proof cases
    case (emit m msg s')
    then show ?thesis using release_inv [OF assms(1)] by simp
  next
    case (refuse m e s')
    have "persisted d \<le> watermark_of_session s'"
      using session_encrypt_Inl [OF refuse(2)] le position_after_encrypt [of "live d"] by (auto intro: order_trans)
    with refuse show ?thesis using live_only_inv [OF assms(1)] session_encrypt_ok [OF ok] by simp
  next
    case (advance delta tr s')
    have "persisted d \<le> watermark_of_session s'"
      using le position_after_advance [OF advance(2)] by simp
    with advance show ?thesis using live_only_inv [OF assms(1)] session_ok_preserved(1) [OF ok] by simp
  next
    case (forward c r s')
    have "persisted d \<le> watermark_of_session s'"
      using le position_after_forward [of "live d" c] forward(2) by simp
    moreover have "session_ok p s'" using session_ok_preserved(2) [OF ok, of c] forward(2) by simp
    ultimately show ?thesis using forward(1) live_only_inv [OF assms(1)] by simp
  next
    case (rotate g q s')
    have "watermark_of_session s' = watermark_of_session (live d)"
      using rotate(2) by (auto simp: session_rotate_keypair_def watermark_of_session_def session_epoch_number_def
          session_message_counter_def split: outcome.splits)
    with rotate le show ?thesis using live_only_inv [OF assms(1)] session_ok_preserved(3) [OF ok] by simp
  next
    case (learn u)
    with le show ?thesis using live_only_inv [OF assms(1)] session_ok_preserved(4) [OF ok]
      by (simp add: watermark_of_session_def session_epoch_number_def session_message_counter_def insert_member_def)
  next
    case (forget u)
    with le show ?thesis using live_only_inv [OF assms(1)] session_ok_preserved(5) [OF ok]
      by (simp add: watermark_of_session_def session_epoch_number_def session_message_counter_def remove_member_def)
  next
    case (restart gid uid kp pos dep cnt sec tr n c s')
    then have s': "persisted d \<le> SessionWatermark n c" "s' = (restore_session p gid uid kp pos dep cnt sec tr n)
       \<lparr>session_epoch := (epoch_restore p sec tr n)\<lparr>message_counter := c\<rparr>\<rparr>"
      by (simp_all add: restore_session_checked_Inr)
    then have "watermark_of_session s' = SessionWatermark n c"
      by (simp add: watermark_of_session_def session_epoch_number_def session_message_counter_def epoch_restore_def)
    moreover have "session_ok p s'"
      by (simp add: s' session_ok_def restore_session_def epoch_restore_def derive_epoch_secrets_def)
    ultimately show ?thesis using restart(1) s'(1) live_only_inv [OF assms(1)] by simp
  qed
qed

lemma reach_inv: "device_reach p d \<Longrightarrow> device_inv p d"
proof (induction rule: device_reach.induct)
  case (start s)
  then show ?case by (simp add: device_inv_def)
next
  case (step d d')
  then show ?case using step_inv by blast
qed

text \<open>C23. No position is used twice: over any run of a device, with any restarts through the checked
  restore, the positions (epoch, counter) of the released ciphertexts strictly increase in the
  lexicographic order, so two of them never derive a message key and nonce from the same
  epoch, leaf and counter, and the next release is above them all.\<close>

theorem no_position_reused:
  assumes "device_reach p d"
  shows "sorted_wrt (<) (released d) \<and> distinct (released d)
    \<and> (\<forall>w \<in> set (released d). w < persisted d) \<and> persisted d \<le> watermark_of_session (live d)"
proof -
  have "distinct ws" if "sorted_wrt (<) ws" for ws :: "session_watermark list"
    using that by (induction ws) auto
  with reach_inv [OF assms] show ?thesis by (simp add: device_inv_def)
qed

theorem no_position_reused_witness:
  "\<exists>d. device_reach toy_prims d \<and> length (released d) = 1 \<and> (\<forall>w \<in> set (released d). w < persisted d)"
proof -
  obtain msg s' where e: "session_encrypt toy_prims [1] (sample_session 0) = Some (Inr msg, s')"
    using sample_session_encrypts [of "[1]" 0] by (auto simp: MAX_MESSAGE_SIZE_def)
  define d where "d = \<lparr>live = sample_session 0, persisted = watermark_of_session (sample_session 0), released = []\<rparr>"
  have "session_ok toy_prims (sample_session 0)"
    unfolding sample_session_def by (rule session_ok_constructed)
  then have "device_reach toy_prims d" unfolding d_def by (rule device_reach.start)
  moreover have "device_step toy_prims d (release msg s' d)"
    by (rule device_step.emit [where m = "[1]"]) (simp add: d_def e)
  ultimately have "device_reach toy_prims (release msg s' d)" by (rule device_reach.step)
  moreover from no_position_reused [OF this]
  have "\<forall>w \<in> set (released (release msg s' d)). w < persisted (release msg s' d)" by blast
  ultimately show ?thesis by (intro exI [of _ "release msg s' d"]) (simp add: release_def d_def)
qed

end
