(* ===== verification/Cocoa_Path.thy ===== *)
theory Cocoa_Path
  imports Key_Schedule Tree_Resolution Aead Tree_Path
begin

text \<open>
  Path updates of the group protocol (\<open>trelis-cocoa/src/operations\<close>): the seed chain
  (\<open>seed_chain.rs\<close>), the encryption of a seed to a recipient (\<open>seed_encrypt.rs\<close>), and the
  construction, application and parent-hash verification of a path (\<open>path_update.rs\<close>). The
  randomness of a construction is an argument: the leaf seed and, per level and recipient,
  the coins of the encapsulation. The seeded sntrup761 generator is the parameter \<open>sg\<close>.
\<close>

section \<open>The seed chain\<close>

definition SEED_SIZE :: nat where "SEED_SIZE = 32"

definition generate_leaf_seed :: "bytes option \<Rightarrow> bytes result" where
  "generate_leaf_seed rand = ok_or RngFailure rand"

fun derive_path_seeds :: "primitives \<Rightarrow> bytes \<Rightarrow> nat \<Rightarrow> bytes list" where
  "derive_path_seeds p current 0 = []"
| "derive_path_seeds p current (Suc n) = current # derive_path_seeds p (derive_h1_seed p current) n"

definition get_seed_at_level :: "primitives \<Rightarrow> bytes \<Rightarrow> u32 \<Rightarrow> bytes" where
  "get_seed_at_level p leaf_seed levels_up = advance_seed_chain p leaf_seed levels_up"

definition derive_node_keypair :: "primitives \<Rightarrow> (bytes \<Rightarrow> bytes outcome) \<Rightarrow> bytes \<Rightarrow> kem_keypair outcome" where
  "derive_node_keypair p sg seed = kem_generate_from_seed p sg seed"

definition derive_delta_root :: "bytes \<Rightarrow> bytes" where
  "derive_delta_root root_seed = root_seed"

section \<open>Encryption of seeds\<close>

definition ENCRYPTED_SEED_CIPHERTEXT_SIZE :: nat where "ENCRYPTED_SEED_CIPHERTEXT_SIZE = SEED_SIZE + 16 + 32"
definition ENCRYPTED_SEED_SIZE :: nat where
  "ENCRYPTED_SEED_SIZE = ENCAPSULATION_SIZE + ENCRYPTED_SEED_CIPHERTEXT_SIZE"
definition SEED_ENCRYPTION_NONCE :: bytes where "SEED_ENCRYPTION_NONCE = replicate 24 0"
definition SEED_AAD_VERSION :: u16 where "SEED_AAD_VERSION = 1"

record encrypted_node_seed =
  es_encapsulation :: hybrid_encapsulation
  es_ciphertext :: bytes

definition encrypted_seed_to_bytes :: "encrypted_node_seed \<Rightarrow> bytes" where
  "encrypted_seed_to_bytes e = encapsulation_to_bytes (es_encapsulation e) @ es_ciphertext e"

definition encrypted_seed_from_bytes :: "bytes \<Rightarrow> encrypted_node_seed result" where
  "encrypted_seed_from_bytes bs =
     (if length bs \<noteq> ENCRYPTED_SEED_SIZE then Inl MalformedMessage
      else tryR (encapsulation_from_bytes (take ENCAPSULATION_SIZE bs)) (\<lambda>e.
           Inr \<lparr>es_encapsulation = e, es_ciphertext = drop ENCAPSULATION_SIZE bs\<rparr>))"

definition build_seed_aad :: "node_index \<Rightarrow> bytes" where
  "build_seed_aad i = le_bytes 2 SEED_AAD_VERSION @ le_bytes 4 (depth i) @ le_bytes 4 (position i)
     @ ascii ''cocoa-seed-encrypt''"

definition encrypt_seed_to_recipient ::
  "primitives \<Rightarrow> kem_coins \<Rightarrow> bytes \<Rightarrow> kem_public_key \<Rightarrow> node_index \<Rightarrow> encrypted_node_seed outcome" where
  "encrypt_seed_to_recipient p coins seed recipient_public_key tree_position =
     bind_out (kem_encapsulate p coins recipient_public_key) (\<lambda>(shared_secret, encapsulation).
     bind_out (of_result (aead_encrypt_committing p shared_secret SEED_ENCRYPTION_NONCE seed
       (build_seed_aad tree_position))) (\<lambda>ciphertext.
     if length ciphertext \<noteq> ENCRYPTED_SEED_CIPHERTEXT_SIZE then Fail AeadAuthenticationFailed
     else Done \<lparr>es_encapsulation = encapsulation, es_ciphertext = ciphertext\<rparr>))"

definition decrypt_seed ::
  "primitives \<Rightarrow> encrypted_node_seed \<Rightarrow> kem_keypair \<Rightarrow> node_index \<Rightarrow> bytes outcome" where
  "decrypt_seed p encrypted our_keypair tree_position =
     bind_out (kem_decapsulate p our_keypair (es_encapsulation encrypted)) (\<lambda>shared_secret.
     bind_out (of_result (aead_decrypt_committing p shared_secret SEED_ENCRYPTION_NONCE
       (es_ciphertext encrypted) (build_seed_aad tree_position))) (\<lambda>plaintext.
     if length plaintext \<noteq> 32 then Fail DecryptionFailed else Done plaintext))"

text \<open>One encapsulation per key; \<open>coins i\<close> are those of the \<open>i\<close>-th.\<close>

fun encrypt_each ::
  "primitives \<Rightarrow> (nat \<Rightarrow> kem_coins) \<Rightarrow> bytes \<Rightarrow> nat \<Rightarrow> kem_public_key list \<Rightarrow> node_index
     \<Rightarrow> encrypted_node_seed list outcome" where
  "encrypt_each p coins seed i [] tree_position = Done []"
| "encrypt_each p coins seed i (pk # pks) tree_position =
     bind_out (encrypt_seed_to_recipient p (coins i) seed pk tree_position) (\<lambda>e.
     bind_out (encrypt_each p coins seed (Suc i) pks tree_position) (\<lambda>es. Done (e # es)))"

definition encrypt_seed_to_resolution ::
  "primitives \<Rightarrow> (nat \<Rightarrow> kem_coins) \<Rightarrow> bytes \<Rightarrow> node_index list \<Rightarrow> kem_public_key list \<Rightarrow> node_index
     \<Rightarrow> encrypted_node_seed list outcome" where
  "encrypt_seed_to_resolution p coins seed resolution public_keys tree_position =
     (if length resolution \<noteq> length public_keys then Fail MalformedMessage
      else encrypt_each p coins seed 0 public_keys tree_position)"

section \<open>Building a path\<close>

record recipient_seed =
  recipient_index :: node_index
  rs_encrypted :: encrypted_node_seed

record node_update =
  nu_index :: node_index
  nu_public_key :: kem_public_key
  nu_parent_hash :: "bytes \<times> bytes"
  nu_seeds :: "recipient_seed list"

record path_update_result =
  pr_updates :: "node_update list"
  pr_delta_root :: bytes

abbreviation zero32 :: bytes where "zero32 \<equiv> replicate 32 0"

text \<open>The loop over the levels: \<open>level\<close> counts them, \<open>prev_h2\<close> and \<open>preds\<close> are the chain.\<close>

fun build_levels ::
  "primitives \<Rightarrow> (bytes \<Rightarrow> bytes outcome) \<Rightarrow> (nat \<Rightarrow> nat \<Rightarrow> kem_coins) \<Rightarrow> u32 \<Rightarrow> u32
     \<Rightarrow> node_index list list \<Rightarrow> kem_public_key list list \<Rightarrow> bytes list
     \<Rightarrow> nat \<Rightarrow> bytes \<Rightarrow> kem_public_key list \<Rightarrow> bytes list \<Rightarrow> node_update list outcome" where
  "build_levels p sg coins tree_depth pos sets keys labels level prev_h2 preds [] = Done []"
| "build_levels p sg coins tree_depth pos sets keys labels level prev_h2 preds (seed # seeds) =
     bind_out (or_panic (checked_sub tree_depth (of_nat level))) (\<lambda>d.
     bind_out (or_panic (checked_shr pos (of_nat level))) (\<lambda>q.
     let i = node_new d q in
     bind_out (derive_node_keypair p sg seed) (\<lambda>keypair.
     let pk = kp_public keypair; resolution = sets ! level; ks = keys ! level in
     if length resolution \<noteq> length ks then Fail MalformedMessage
     else bind_out (encrypt_each p (coins level) seed 0 ks i) (\<lambda>encrypted.
     let (h1, h2) =
       (if level = 0 then (zero32, zero32)
        else (h4_parent_hash_h1 p pk (labels ! (level - 1)), h4_parent_hash_h2 p pk preds prev_h2 ks)) in
     bind_out (build_levels p sg coins tree_depth pos sets keys labels (Suc level) h2 (preds @ [pk]) seeds) (\<lambda>rest.
     Done (\<lparr>nu_index = i, nu_public_key = pk, nu_parent_hash = (h1, h2),
       nu_seeds = map (\<lambda>(r, e). \<lparr>recipient_index = r, rs_encrypted = e\<rparr>) (zip resolution encrypted)\<rparr> # rest))))))"

definition build_path_updates_with_seeds ::
  "primitives \<Rightarrow> (bytes \<Rightarrow> bytes outcome) \<Rightarrow> (nat \<Rightarrow> nat \<Rightarrow> kem_coins) \<Rightarrow> u32 \<Rightarrow> u32 \<Rightarrow> bytes list
     \<Rightarrow> node_index list list \<Rightarrow> kem_public_key list list \<Rightarrow> bytes list \<Rightarrow> path_update_result outcome" where
  "build_path_updates_with_seeds p sg coins tree_depth pos path_seeds sets keys labels =
     (let n = length path_seeds in
      if length sets \<noteq> n \<or> length keys \<noteq> n then Fail MalformedMessage
      else if length labels \<noteq> n - 1 then Fail MalformedMessage
      else bind_out (build_levels p sg coins tree_depth pos sets keys labels 0 zero32 [] path_seeds) (\<lambda>updates.
        Done \<lparr>pr_updates = updates, pr_delta_root = (if path_seeds = [] then zero32 else last path_seeds)\<rparr>))"

text \<open>The variant that draws the leaf seed itself has the same body after that.\<close>

definition build_path_updates ::
  "primitives \<Rightarrow> (bytes \<Rightarrow> bytes outcome) \<Rightarrow> bytes option \<Rightarrow> (nat \<Rightarrow> nat \<Rightarrow> kem_coins) \<Rightarrow> tree_view \<Rightarrow> u32
     \<Rightarrow> node_index list list \<Rightarrow> kem_public_key list list \<Rightarrow> bytes list \<Rightarrow> path_update_result outcome" where
  "build_path_updates p sg rand coins tree pos sets keys labels =
     bind_out (of_result (generate_leaf_seed rand)) (\<lambda>leaf_seed.
     bind_out (or_panic (checked_add (view_depth tree) 1)) (\<lambda>path_length.
     build_path_updates_with_seeds p sg coins (view_depth tree) pos
       (derive_path_seeds p leaf_seed (unat path_length)) sets keys labels))"

section \<open>Applying a path\<close>

function our_walk :: "node_index \<Rightarrow> node_index \<Rightarrow> unit option" where
  "our_walk a b =
     (if a = b then Some ()
      else if depth a < depth b then (case parent b of None \<Rightarrow> None | Some b' \<Rightarrow> our_walk a b')
      else if depth a > depth b then (case parent a of None \<Rightarrow> None | Some a' \<Rightarrow> our_walk a' b)
      else (case parent a of None \<Rightarrow> None | Some a' \<Rightarrow>
           (case parent b of None \<Rightarrow> None | Some b' \<Rightarrow> our_walk a' b')))"
  by pat_completeness auto
termination
proof (relation "measure (\<lambda>(a, b). ndepth a + ndepth b)", goal_cases)
  case (4 a b a' b')
  then show ?case using parent_decreases [of a a'] parent_decreases [of b b'] by simp
qed (auto dest: parent_decreases)

declare our_walk.simps [simp del]

definition find_our_resolution_node :: "u32 \<Rightarrow> u32 \<Rightarrow> u32 \<Rightarrow> node_index option" where
  "find_our_resolution_node our_position tree_depth updater_position =
     map_option (\<lambda>_. leaf tree_depth our_position)
       (our_walk (leaf tree_depth our_position) (leaf tree_depth updater_position))"

text \<open>\<open>decrypt_seed(..).ok()\<close>.\<close>

definition try_decrypt :: "primitives \<Rightarrow> kem_keypair \<Rightarrow> node_index \<Rightarrow> recipient_seed \<Rightarrow> bytes option outcome" where
  "try_decrypt p our_keypair i r =
     (case decrypt_seed p (rs_encrypted r) our_keypair i of
        Done s \<Rightarrow> Done (Some s) | Fail _ \<Rightarrow> Done None | Panic \<Rightarrow> Panic)"

fun trial_decrypt :: "primitives \<Rightarrow> kem_keypair \<Rightarrow> node_index \<Rightarrow> recipient_seed list \<Rightarrow> bytes option outcome" where
  "trial_decrypt p our_keypair i [] = Done None"
| "trial_decrypt p our_keypair i (r # rs) =
     bind_out (try_decrypt p our_keypair i r) (\<lambda>found.
     case found of Some s \<Rightarrow> Done (Some s) | None \<Rightarrow> trial_decrypt p our_keypair i rs)"

definition decrypt_level ::
  "primitives \<Rightarrow> kem_keypair \<Rightarrow> node_index option \<Rightarrow> node_update \<Rightarrow> bytes option outcome" where
  "decrypt_level p our_keypair our_node u =
     bind_out (case Option.bind our_node (\<lambda>i. find (\<lambda>r. recipient_index r = i) (nu_seeds u)) of
         Some r \<Rightarrow> try_decrypt p our_keypair (nu_index u) r | None \<Rightarrow> Done None) (\<lambda>fast.
     case fast of Some s \<Rightarrow> Done (Some s) | None \<Rightarrow> trial_decrypt p our_keypair (nu_index u) (nu_seeds u))"

fun find_seed ::
  "primitives \<Rightarrow> kem_keypair \<Rightarrow> node_index option \<Rightarrow> nat \<Rightarrow> node_update list \<Rightarrow> (nat \<times> bytes) option outcome" where
  "find_seed p our_keypair our_node level [] = Done None"
| "find_seed p our_keypair our_node level (u # us) =
     bind_out (decrypt_level p our_keypair our_node u) (\<lambda>found.
     case found of Some s \<Rightarrow> Done (Some (level, s)) | None \<Rightarrow> find_seed p our_keypair our_node (Suc level) us)"

fun verify_path :: "primitives \<Rightarrow> (bytes \<Rightarrow> bytes outcome) \<Rightarrow> node_update list \<Rightarrow> nat \<Rightarrow> bytes list \<Rightarrow> unit outcome" where
  "verify_path p sg updates level [] = Done ()"
| "verify_path p sg updates level (seed # seeds) =
     bind_out (derive_node_keypair p sg seed) (\<lambda>expected.
     if level < length updates
       \<and> (kem_pk_to_bytes (kp_public expected) \<noteq> kem_pk_to_bytes (nu_public_key (updates ! level))
          \<or> level = 0 \<and> nu_parent_hash (updates ! level) \<noteq> (zero32, zero32))
     then Fail SignatureVerificationFailed
     else verify_path p sg updates (Suc level) seeds)"

definition apply_path_updates ::
  "primitives \<Rightarrow> (bytes \<Rightarrow> bytes outcome) \<Rightarrow> node_update list \<Rightarrow> kem_keypair \<Rightarrow> u32 \<Rightarrow> u32 \<Rightarrow> bytes outcome" where
  "apply_path_updates p sg path_updates our_keypair our_position updater_leaf =
     (if path_updates = [] then Fail MalformedMessage
      else let tree_depth = depth (nu_index (hd path_updates));
               our_node = find_our_resolution_node our_position tree_depth updater_leaf in
        bind_out (find_seed p our_keypair our_node 0 path_updates) (\<lambda>decrypted.
        case decrypted of
          None \<Rightarrow> Fail DecryptionFailed
        | Some (level, seed) \<Rightarrow>
            let path_seeds = derive_path_seeds p seed (length path_updates - level) in
            bind_out (verify_path p sg path_updates level path_seeds) (\<lambda>_.
            Done (if path_seeds = [] then zero32 else last path_seeds))))"

section \<open>Parent hashes\<close>

definition node_public_key :: "tree_view \<Rightarrow> node_index \<Rightarrow> kem_public_key option outcome" where
  "node_public_key tree i = bind_out (or_panic (view_get tree i)) (\<lambda>found.
     Done (Option.bind found (\<lambda>n. state_public_key (node_st n))))"

text \<open>A blank or absent sibling, and the root, have the zero label.\<close>

definition sibling_label :: "primitives \<Rightarrow> tree_view \<Rightarrow> node_index \<Rightarrow> bytes outcome" where
  "sibling_label p tree i =
     (case sibling i of
        None \<Rightarrow> Done zero32
      | Some s \<Rightarrow> bind_out (node_public_key tree s) (\<lambda>pk.
          Done (case pk of Some k \<Rightarrow> h3_tree_label p (depth s) (position s) (kem_pk_to_bytes k) | None \<Rightarrow> zero32)))"

function resolve_complete ::
  "(node_index \<Rightarrow> tree_node option option) \<Rightarrow> u32 \<Rightarrow> node_index \<Rightarrow> (node_index list \<times> bool) option" where
  "resolve_complete get_node tree_depth i =
     (case get_node i of
        None \<Rightarrow> None
      | Some None \<Rightarrow> Some ([], False)
      | Some (Some node) \<Rightarrow>
          if is_populated (node_st node) then Some ([i], True)
          else if is_leaf i tree_depth then Some ([], True)
          else (case left_child i of
            None \<Rightarrow> None
          | Some l \<Rightarrow> (case resolve_complete get_node tree_depth l of
              None \<Rightarrow> None
            | Some (left_nodes, left_complete) \<Rightarrow> (case right_child i of
                None \<Rightarrow> None
              | Some r \<Rightarrow> (case resolve_complete get_node tree_depth r of
                  None \<Rightarrow> None
                | Some (right_nodes, right_complete) \<Rightarrow>
                    Some (left_nodes @ right_nodes, left_complete \<and> right_complete))))))"
  by pat_completeness auto
termination
proof (relation "measure (\<lambda>(_, _, i). 2 ^ 32 - ndepth i)")
  show "wf (measure (\<lambda>(_, _, i). 2 ^ 32 - ndepth i))" by simp
next
  fix get_node td i l
  assume "left_child i = Some l"
  then show "((get_node, td, l), (get_node, td, i)) \<in> measure (\<lambda>(_, _, i). 2 ^ 32 - ndepth i)"
    using left_child_deeper ndepth_less [of l] by simp
next
  fix get_node td i r
  assume "right_child i = Some r"
  then show "((get_node, td, r), (get_node, td, i)) \<in> measure (\<lambda>(_, _, i). 2 ^ 32 - ndepth i)"
    using right_child_deeper ndepth_less [of r] by simp
qed

declare resolve_complete.simps [simp del]

definition unmerged_of :: "tree_view \<Rightarrow> node_index \<Rightarrow> u32 list option" where
  "unmerged_of tree i = map_option (\<lambda>found.
     case Option.bind found (\<lambda>n. unmerged_leaves (node_st n)) of Some us \<Rightarrow> us | None \<Rightarrow> []) (view_get tree i)"

text \<open>\<open>\ Unmerged(v)\<close> of the specification.\<close>

definition drop_unmerged :: "u32 \<Rightarrow> u32 list \<Rightarrow> node_index list \<Rightarrow> node_index list" where
  "drop_unmerged tree_depth unmerged_v is = filter (\<lambda>i. \<not> (depth i = tree_depth \<and> List.member unmerged_v (position i))) is"

definition reconstruct_resolution_complete :: "tree_view \<Rightarrow> node_index \<Rightarrow> (node_index list \<times> bool) option" where
  "reconstruct_resolution_complete tree path_node =
     (case sibling path_node of
        None \<Rightarrow> Some ([], True)
      | Some s \<Rightarrow> do {
          (res_nodes, complete) \<leftarrow> resolve_complete (view_get tree) (view_depth tree) s;
          unmerged_v \<leftarrow> unmerged_of tree path_node;
          Some (drop_unmerged (view_depth tree) unmerged_v res_nodes, complete) })"

fun keys_of :: "tree_view \<Rightarrow> node_index list \<Rightarrow> kem_public_key list option" where
  "keys_of tree [] = Some []"
| "keys_of tree (i # is) = do {
     found \<leftarrow> view_get tree i;
     rest \<leftarrow> keys_of tree is;
     Some (case Option.bind found (\<lambda>n. state_public_key (node_st n)) of Some pk \<Rightarrow> pk # rest | None \<Rightarrow> rest) }"

definition reconstruct_resolution_keys :: "tree_view \<Rightarrow> node_index \<Rightarrow> kem_public_key list option" where
  "reconstruct_resolution_keys tree path_node = do {
     resolution \<leftarrow> compute_lj (view_get tree) (view_depth tree) path_node (unmerged_indices tree);
     unmerged_v \<leftarrow> unmerged_of tree path_node;
     keys_of tree (drop_unmerged (view_depth tree) unmerged_v resolution) }"

definition verify_level ::
  "primitives \<Rightarrow> tree_view \<Rightarrow> nat \<Rightarrow> bytes \<Rightarrow> kem_public_key list \<Rightarrow> node_update \<Rightarrow> unit outcome" where
  "verify_level p tree level prev_h2 preds u =
     (let (wire_h1, wire_h2) = nu_parent_hash u in
      if level = 0 then (if wire_h1 \<noteq> zero32 \<or> wire_h2 \<noteq> zero32 then Fail ParentHashMismatch else Done ())
      else bind_out (sibling_label p tree (nu_index u)) (\<lambda>label.
        if h4_parent_hash_h1 p (nu_public_key u) label \<noteq> wire_h1 then Fail ParentHashMismatch
        else bind_out (or_panic (reconstruct_resolution_complete tree (nu_index u))) (\<lambda>(r_local_nodes, complete).
        if \<not> complete then Done ()
        else if (position \<circ> recipient_index) ` set (nu_seeds u) \<noteq> position ` set r_local_nodes
        then Fail ParentHashMismatch
        else bind_out (or_panic (reconstruct_resolution_keys tree (nu_index u))) (\<lambda>local_res_keys.
        if h4_parent_hash_h2 p (nu_public_key u) preds prev_h2 local_res_keys \<noteq> wire_h2
        then Fail ParentHashMismatch else Done ()))))"

fun verify_chain ::
  "primitives \<Rightarrow> tree_view \<Rightarrow> nat \<Rightarrow> bytes \<Rightarrow> kem_public_key list \<Rightarrow> node_update list \<Rightarrow> unit outcome" where
  "verify_chain p tree level prev_h2 preds [] = Done ()"
| "verify_chain p tree level prev_h2 preds (u # us) =
     bind_out (verify_level p tree level prev_h2 preds u) (\<lambda>_.
     verify_chain p tree (Suc level) (snd (nu_parent_hash u)) (preds @ [nu_public_key u]) us)"

definition verify_parent_hashes :: "primitives \<Rightarrow> tree_view \<Rightarrow> node_update list \<Rightarrow> unit outcome" where
  "verify_parent_hashes p tree updates = verify_chain p tree 0 zero32 [] updates"

text \<open>The joiner's lookup is a \<open>BTreeMap\<close> on linear indices; later insertions overwrite.\<close>

definition welcome_view :: "node_update list \<Rightarrow> (u64 \<times> kem_public_key) list option" where
  "welcome_view nodes = those (map (\<lambda>n. map_option (\<lambda>k. (k, nu_public_key n)) (to_linear (nu_index n))) nodes)"

definition verify_welcome_node ::
  "primitives \<Rightarrow> u32 \<Rightarrow> (u64 \<times> kem_public_key) list \<Rightarrow> node_update \<Rightarrow> unit outcome" where
  "verify_welcome_node p tree_depth view n =
     (let (wire_h1, wire_h2) = nu_parent_hash n in
      if depth (nu_index n) = tree_depth
      then (if wire_h1 \<noteq> zero32 \<or> wire_h2 \<noteq> zero32 then Fail ParentHashMismatch else Done ())
      else case sibling (nu_index n) of
        None \<Rightarrow> Done ()
      | Some s \<Rightarrow> bind_out (or_panic (to_linear s)) (\<lambda>k.
          case map_of (rev view) k of
            None \<Rightarrow> Done ()
          | Some pk \<Rightarrow>
              if h4_parent_hash_h1 p (nu_public_key n) (h3_tree_label p (depth s) (position s) (kem_pk_to_bytes pk))
                \<noteq> wire_h1
              then Fail ParentHashMismatch else Done ()))"

fun verify_welcome_nodes ::
  "primitives \<Rightarrow> u32 \<Rightarrow> (u64 \<times> kem_public_key) list \<Rightarrow> node_update list \<Rightarrow> unit outcome" where
  "verify_welcome_nodes p tree_depth view [] = Done ()"
| "verify_welcome_nodes p tree_depth view (n # ns) =
     bind_out (verify_welcome_node p tree_depth view n) (\<lambda>_. verify_welcome_nodes p tree_depth view ns)"

definition verify_welcome_tree_info :: "primitives \<Rightarrow> node_update list \<Rightarrow> u32 \<Rightarrow> unit outcome" where
  "verify_welcome_tree_info p nodes tree_depth =
     bind_out (or_panic (welcome_view nodes)) (\<lambda>view. verify_welcome_nodes p tree_depth view nodes)"

section \<open>The seed chain reaches the root from every level\<close>

lemma length_derive_path_seeds [simp]: "length (derive_path_seeds p s n) = n"
  by (induction n arbitrary: s) auto

lemma derive_path_seeds_nth: "k < n \<Longrightarrow> derive_path_seeds p s n ! k = (derive_h1_seed p ^^ k) s"
proof (induction n arbitrary: s k)
  case 0
  then show ?case by simp
next
  case (Suc n)
  then show ?case by (cases k) (auto simp: funpow_swap1)
qed

lemma drop_derive_path_seeds:
  "k < n \<Longrightarrow> derive_path_seeds p (derive_path_seeds p s n ! k) (n - k) = drop k (derive_path_seeds p s n)"
proof (induction n arbitrary: s k)
  case 0
  then show ?case by simp
next
  case (Suc n)
  then show ?case by (cases k) auto
qed

lemma seed_at_level: "unat l < n \<Longrightarrow> derive_path_seeds p s n ! unat l = get_seed_at_level p s l"
  by (simp add: derive_path_seeds_nth get_seed_at_level_def advance_seed_chain_def)

lemma length_path_seed: "prims_ok p \<Longrightarrow> length s = 32 \<Longrightarrow> s' \<in> set (derive_path_seeds p s n) \<Longrightarrow> length s' = 32"
proof (induction n arbitrary: s)
  case (Suc n)
  then have "length (derive_h1_seed p s) = 32" by (simp add: derive_h1_seed_def)
  with Suc show ?case by auto
qed simp

section \<open>Seeds and their recipients\<close>

lemma build_seed_aad_inject: "build_seed_aad i = build_seed_aad j \<longleftrightarrow> i = j"
  by (cases i; cases j) (auto simp: build_seed_aad_def append_eq_append_conv)

lemma decapsulate_no_panic:
  assumes "kem_pair p kp pk"
  shows "kem_decapsulate p kp e \<noteq> Panic"
proof -
  obtain f g ginv h rho where "prims_ok p" "sntrup_keypair p f g ginv h rho (sntrup_secret kp) (pk_sntrup pk)"
    using assms by (auto simp: kem_pair_def sntrup_pair_def)
  from decapsulate_cases [OF this] obtain ss where "sntrup_decapsulate p (sntrup_secret kp) (sntrup_ciphertext e) = Some ss"
    by blast
  then show ?thesis
    by (cases "x448_diffie_hellman p (x448_secret kp) (x448_ephemeral e)") (simp_all add: kem_decapsulate_def)
qed

lemma decrypt_seed_no_panic: "kem_pair p kp pk \<Longrightarrow> decrypt_seed p e kp i \<noteq> Panic"
  using decapsulate_no_panic [of p kp pk "es_encapsulation e"]
  by (auto simp: decrypt_seed_def bind_out_def split: outcome.splits)
    (metis of_result.simps outcome.distinct(3) outcome.distinct(5) sum.exhaust)

lemma encrypt_seed_Done:
  assumes "encrypt_seed_to_recipient p coins seed pk i = Done e"
  obtains k where "kem_encapsulate p coins pk = Done (k, es_encapsulation e)"
    "aead_encrypt_committing p k SEED_ENCRYPTION_NONCE seed (build_seed_aad i) = Inr (es_ciphertext e)"
    "length (es_ciphertext e) = 80"
  using assms by (auto simp: encrypt_seed_to_recipient_def bind_out_eq_Done split: if_splits
      simp: ENCRYPTED_SEED_CIPHERTEXT_SIZE_def SEED_SIZE_def)

lemma committing_opens:
  assumes "prims_ok p" and "aead_encrypt_committing p k n m a = Inr c"
  shows "aead_decrypt_committing p k n c a = Inr m"
  using assms aead_round_trip [OF assms(1)]
  by (auto simp: aead_encrypt_committing_def aead_decrypt_committing_def try_simps Let_def)

lemma decrypt_encrypted_seed:
  assumes "kem_pair p kp pk" and "kem_coins_ok coins" and "length seed = 32"
    and "encrypt_seed_to_recipient p coins seed pk i = Done e"
  shows "decrypt_seed p e kp i = Done seed"
proof -
  obtain k where k: "kem_encapsulate p coins pk = Done (k, es_encapsulation e)"
    "aead_encrypt_committing p k SEED_ENCRYPTION_NONCE seed (build_seed_aad i) = Inr (es_ciphertext e)"
    using encrypt_seed_Done [OF assms(4)] by blast
  moreover have "prims_ok p" using assms(1) by (simp add: kem_pair_def)
  ultimately show ?thesis
    using hybrid.correct [OF assms(1,2) k(1)] committing_opens assms(3) by (simp add: decrypt_seed_def)
qed

text \<open>A seed that opens under a key it was not encrypted to: the key that the encapsulation carries and
  the one that the receiver decapsulates differ, and commit to the same ciphertext.\<close>

definition seed_collision :: "primitives \<Rightarrow> kem_keypair \<Rightarrow> node_index \<Rightarrow> encrypted_node_seed \<Rightarrow> bool" where
  "seed_collision p kp i e \<longleftrightarrow> (\<exists>coins pk k k'.
     kem_encapsulate p coins pk = Done (k, es_encapsulation e) \<and> kem_decapsulate p kp (es_encapsulation e) = Done k'
   \<and> k \<noteq> k'
   \<and> aead_commitment p k SEED_ENCRYPTION_NONCE (build_seed_aad i) (take 48 (es_ciphertext e))
     = aead_commitment p k' SEED_ENCRYPTION_NONCE (build_seed_aad i) (take 48 (es_ciphertext e)))"

lemma opened_commitments:
  assumes "prims_ok p" and "encrypt_seed_to_recipient p coins seed pk i = Done e" and "decrypt_seed p e kp i = Done s"
    and "kem_encapsulate p coins pk = Done (k, es_encapsulation e)" and "kem_decapsulate p kp (es_encapsulation e) = Done k'"
  shows "aead_commitment p k SEED_ENCRYPTION_NONCE (build_seed_aad i) (take 48 (es_ciphertext e))
    = aead_commitment p k' SEED_ENCRYPTION_NONCE (build_seed_aad i) (take 48 (es_ciphertext e))"
proof -
  have e: "aead_encrypt_committing p k SEED_ENCRYPTION_NONCE seed (build_seed_aad i) = Inr (es_ciphertext e)"
    "length (es_ciphertext e) = 80"
    using encrypt_seed_Done [OF assms(2)] assms(4) by auto
  have "aead_decrypt_committing p k' SEED_ENCRYPTION_NONCE (es_ciphertext e) (build_seed_aad i) = Inr s"
    using assms(3,5) by (auto simp: decrypt_seed_def bind_out_eq_Done split: if_splits)
  then have "aead_commitment p k' SEED_ENCRYPTION_NONCE (build_seed_aad i) (take 48 (es_ciphertext e)) = drop 48 (es_ciphertext e)"
    using e(2) by (auto simp: aead_decrypt_committing_def Let_def split: if_splits)
  moreover have "aead_commitment p k SEED_ENCRYPTION_NONCE (build_seed_aad i) (take 48 (es_ciphertext e)) = drop 48 (es_ciphertext e)"
  proof -
    obtain x where "x @ aead_commitment p k SEED_ENCRYPTION_NONCE (build_seed_aad i) x = es_ciphertext e"
      using e(1) by (auto simp: aead_encrypt_committing_def try_simps)
    then have x: "es_ciphertext e = x @ aead_commitment p k SEED_ENCRYPTION_NONCE (build_seed_aad i) x" by simp
    then have "length x = 48" using e(2) assms(1) by simp
    then show ?thesis using x by simp
  qed
  ultimately show ?thesis by simp
qed

lemma opened_key:
  assumes "prims_ok p" and "encrypt_seed_to_recipient p coins seed pk i = Done e" and "decrypt_seed p e kp i = Done s"
  shows "seed_collision p kp i e \<or> (\<exists>k. kem_encapsulate p coins pk = Done (k, es_encapsulation e)
    \<and> kem_decapsulate p kp (es_encapsulation e) = Done k \<and> s = seed)"
proof -
  obtain k where k: "kem_encapsulate p coins pk = Done (k, es_encapsulation e)"
    "aead_encrypt_committing p k SEED_ENCRYPTION_NONCE seed (build_seed_aad i) = Inr (es_ciphertext e)"
    using encrypt_seed_Done [OF assms(2)] by blast
  obtain k' where k': "kem_decapsulate p kp (es_encapsulation e) = Done k'"
    "aead_decrypt_committing p k' SEED_ENCRYPTION_NONCE (es_ciphertext e) (build_seed_aad i) = Inr s"
    using assms(3) by (auto simp: decrypt_seed_def bind_out_eq_Done split: if_splits)
  show ?thesis
  proof (cases "k = k'")
    case True
    then show ?thesis using committing_opens [OF assms(1) k(2)] k(1) k' by simp
  next
    case False
    then show ?thesis
      using opened_commitments [OF assms k(1) k'(1)] k(1) k'(1) unfolding seed_collision_def by metis
  qed
qed

lemma opened_seed:
  assumes "prims_ok p" and "encrypt_seed_to_recipient p coins seed pk i = Done e" and "decrypt_seed p e kp i = Done s"
  shows "s = seed \<or> seed_collision p kp i e"
  using opened_key [OF assms] by blast

text \<open>What the two sides of the KEM feed to the combiner.\<close>

definition encapsulation_input :: "primitives \<Rightarrow> kem_coins \<Rightarrow> kem_public_key \<Rightarrow> bytes outcome" where
  "encapsulation_input p coins pk =
     bind_out (of_result (x448_generate (fst coins))) (\<lambda>eph.
     bind_out (of_result (x448_diffie_hellman p eph (pk_x448 pk))) (\<lambda>x448_ss.
     bind_out (sntrup_encapsulate p (snd coins) (pk_sntrup pk)) (\<lambda>(sntrup_ss, ct).
     Done (v2_input p x448_ss sntrup_ss ct (x448_public_key p eph) (kem_pk_to_bytes pk)))))"

definition decapsulation_input :: "primitives \<Rightarrow> kem_keypair \<Rightarrow> hybrid_encapsulation \<Rightarrow> bytes outcome" where
  "decapsulation_input p kp e =
     bind_out (of_result (x448_diffie_hellman p (x448_secret kp) (x448_ephemeral e))) (\<lambda>x448_ss.
     bind_out (or_panic (sntrup_decapsulate p (sntrup_secret kp) (sntrup_ciphertext e))) (\<lambda>sntrup_ss.
     Done (v2_input p x448_ss sntrup_ss (sntrup_ciphertext e) (x448_ephemeral e) (kem_pk_to_bytes (kp_public kp)))))"

lemma encapsulated_input:
  assumes "prims_ok p" and "kem_encapsulate p coins pk = Done (k, e)"
  obtains u x s ct eph where "encapsulation_input p coins pk = Done u" "k = derive_key p HYBRID_KEM_V2_CONTEXT u"
    "u = v2_input p x s ct eph (kem_pk_to_bytes pk)" "length x = 56"
proof -
  obtain eph x s ct where r: "x448_generate (fst coins) = Inr eph" "x448_diffie_hellman p eph (pk_x448 pk) = Inr x"
    "sntrup_encapsulate p (snd coins) (pk_sntrup pk) = Done (s, ct)"
    "k = hybrid_combine_v2 p x s ct (x448_public_key p eph) (kem_pk_to_bytes pk)"
    using assms(2) by (auto simp: kem_encapsulate_def bind_out_eq_Done Let_def split: prod.splits)
  show thesis
  proof (rule that [OF _ _ refl length_x448_dh [OF assms(1) r(2)]])
    show "encapsulation_input p coins pk = Done (v2_input p x s ct (x448_public_key p eph) (kem_pk_to_bytes pk))"
      using r(1-3) by (simp add: encapsulation_input_def)
    show "k = derive_key p HYBRID_KEM_V2_CONTEXT (v2_input p x s ct (x448_public_key p eph) (kem_pk_to_bytes pk))"
      using r(4) by (simp add: hybrid_combine_v2_def)
  qed
qed

lemma decapsulated_input:
  assumes "prims_ok p" and "kem_decapsulate p kp e = Done k"
  obtains u x s ct eph where "decapsulation_input p kp e = Done u" "k = derive_key p HYBRID_KEM_V2_CONTEXT u"
    "u = v2_input p x s ct eph (kem_pk_to_bytes (kp_public kp))" "length x = 56"
proof -
  obtain x s where r: "x448_diffie_hellman p (x448_secret kp) (x448_ephemeral e) = Inr x"
    "or_panic (sntrup_decapsulate p (sntrup_secret kp) (sntrup_ciphertext e)) = Done s"
    "k = hybrid_combine_v2 p x s (sntrup_ciphertext e) (x448_ephemeral e) (kem_pk_to_bytes (kp_public kp))"
    using assms(2) by (auto simp: kem_decapsulate_def bind_out_eq_Done)
  show thesis
  proof (rule that [OF _ _ refl length_x448_dh [OF assms(1) r(1)]])
    show "decapsulation_input p kp e = Done (v2_input p x s (sntrup_ciphertext e) (x448_ephemeral e) (kem_pk_to_bytes (kp_public kp)))"
      using r(1,2) by (simp add: decapsulation_input_def)
    show "k = derive_key p HYBRID_KEM_V2_CONTEXT (v2_input p x s (sntrup_ciphertext e) (x448_ephemeral e) (kem_pk_to_bytes (kp_public kp)))"
      using r(3) by (simp add: hybrid_combine_v2_def)
  qed
qed

text \<open>What a key pair that opens a seed sealed with the given coins to another public key exhibits: the
  encapsulated and the decapsulated secret differ and commit to the seed's ciphertext alike, or
  the two combiner inputs differ and derive one secret, or the two public keys have one hash.\<close>

definition opening_clash ::
  "primitives \<Rightarrow> kem_coins \<Rightarrow> kem_public_key \<Rightarrow> kem_keypair \<Rightarrow> node_index \<Rightarrow> encrypted_node_seed \<Rightarrow> bool" where
  "opening_clash p coins pk kp i e \<longleftrightarrow>
     (\<exists>k k' u u'. kem_encapsulate p coins pk = Done (k, es_encapsulation e)
      \<and> kem_decapsulate p kp (es_encapsulation e) = Done k'
      \<and> encapsulation_input p coins pk = Done u \<and> decapsulation_input p kp (es_encapsulation e) = Done u'
      \<and> (k \<noteq> k' \<and> aead_commitment p k SEED_ENCRYPTION_NONCE (build_seed_aad i) (take 48 (es_ciphertext e))
           = aead_commitment p k' SEED_ENCRYPTION_NONCE (build_seed_aad i) (take 48 (es_ciphertext e))
       \<or> u \<noteq> u' \<and> derive_key p HYBRID_KEM_V2_CONTEXT u = derive_key p HYBRID_KEM_V2_CONTEXT u'
       \<or> kem_pk_to_bytes pk \<noteq> kem_pk_to_bytes (kp_public kp)
         \<and> b3hash p (kem_pk_to_bytes pk) = b3hash p (kem_pk_to_bytes (kp_public kp))))"

lemma kem_pk_to_bytes_inject: "kem_pk_wf a \<Longrightarrow> kem_pk_wf b \<Longrightarrow> kem_pk_to_bytes a = kem_pk_to_bytes b \<longleftrightarrow> a = b"
  by (cases a; cases b) (auto simp: kem_pk_to_bytes_def kem_pk_wf_def)

lemma outsider_opens:
  assumes p: "prims_ok p" and e: "encrypt_seed_to_recipient p coins seed pk i = Done e" and d: "decrypt_seed p e kp i = Done x"
    and k: "kem_pk_wf (kp_public kp)" "kem_pk_wf pk" "kp_public kp \<noteq> pk"
  shows "opening_clash p coins pk kp i e"
proof -
  obtain K where K: "kem_encapsulate p coins pk = Done (K, es_encapsulation e)"
    using encrypt_seed_Done [OF e] by blast
  obtain K' where K': "kem_decapsulate p kp (es_encapsulation e) = Done K'"
    using d by (auto simp: decrypt_seed_def bind_out_eq_Done)
  obtain u x s ct eph where u: "encapsulation_input p coins pk = Done u" "K = derive_key p HYBRID_KEM_V2_CONTEXT u"
    "u = v2_input p x s ct eph (kem_pk_to_bytes pk)" "length x = 56" by (rule encapsulated_input [OF p K])
  obtain u' x' s' ct' eph' where u': "decapsulation_input p kp (es_encapsulation e) = Done u'" "K' = derive_key p HYBRID_KEM_V2_CONTEXT u'"
    "u' = v2_input p x' s' ct' eph' (kem_pk_to_bytes (kp_public kp))" "length x' = 56" by (rule decapsulated_input [OF p K'])
  have pks: "kem_pk_to_bytes pk \<noteq> kem_pk_to_bytes (kp_public kp)" using k kem_pk_to_bytes_inject by metis
  consider "K \<noteq> K'" | "K = K'" "u \<noteq> u'" | "u = u'" by blast
  then show ?thesis
  proof cases
    case 1
    then have "aead_commitment p K SEED_ENCRYPTION_NONCE (build_seed_aad i) (take 48 (es_ciphertext e))
        = aead_commitment p K' SEED_ENCRYPTION_NONCE (build_seed_aad i) (take 48 (es_ciphertext e))"
      using opened_commitments [OF p e d K K'] by simp
    then show ?thesis using 1 K K' u(1) u'(1) unfolding opening_clash_def by blast
  next
    case 2
    then show ?thesis using K K' u(1,2) u'(1,2) unfolding opening_clash_def by blast
  next
    case 3
    then have "b3hash p (kem_pk_to_bytes pk) = b3hash p (kem_pk_to_bytes (kp_public kp))"
      using v2_input_inject [OF p, of x x'] u(3,4) u'(3,4) by simp
    then show ?thesis using pks K K' u(1) u'(1) unfolding opening_clash_def by blast
  qed
qed

section \<open>A path delivers its root seed\<close>

text \<open>What a path carries for a list of seeds, one per level; the recipient indices do not matter.\<close>

definition encrypts :: "primitives \<Rightarrow> bytes \<Rightarrow> node_index \<Rightarrow> recipient_seed \<Rightarrow> bool" where
  "encrypts p s i r \<longleftrightarrow> (\<exists>coins pk. encrypt_seed_to_recipient p coins s pk i = Done (rs_encrypted r))"

definition carries :: "primitives \<Rightarrow> (bytes \<Rightarrow> bytes outcome) \<Rightarrow> bytes list \<Rightarrow> node_update list \<Rightarrow> bool" where
  "carries p sg seeds us \<longleftrightarrow> list_all2 (\<lambda>s u. (\<exists>kp. derive_node_keypair p sg s = Done kp \<and> nu_public_key u = kp_public kp)
       \<and> (\<forall>r \<in> set (nu_seeds u). encrypts p s (nu_index u) r)) seeds us
   \<and> (us \<noteq> [] \<longrightarrow> nu_parent_hash (hd us) = (zero32, zero32))"

definition stray :: "primitives \<Rightarrow> kem_keypair \<Rightarrow> node_update list \<Rightarrow> bool" where
  "stray p kp us \<longleftrightarrow> (\<exists>u \<in> set us. \<exists>r \<in> set (nu_seeds u). seed_collision p kp (nu_index u) (rs_encrypted r))"

definition opens :: "primitives \<Rightarrow> kem_keypair \<Rightarrow> node_update \<Rightarrow> bool" where
  "opens p kp u \<longleftrightarrow> (\<exists>r \<in> set (nu_seeds u). \<exists>s. decrypt_seed p (rs_encrypted r) kp (nu_index u) = Done s)"

lemma carries_length: "carries p sg seeds us \<Longrightarrow> length us = length seeds"
  unfolding carries_def by (elim conjE) (drule list_all2_lengthD, rule sym)

lemma try_decrypt_cases:
  assumes "kem_pair p kp pk" and "encrypts p s i r"
  shows "try_decrypt p kp i r = Done None \<and> (\<forall>t. decrypt_seed p (rs_encrypted r) kp i \<noteq> Done t)
    \<or> (\<exists>t. try_decrypt p kp i r = Done (Some t) \<and> (t = s \<or> seed_collision p kp i (rs_encrypted r)))"
proof -
  have p: "prims_ok p" using assms(1) by (simp add: kem_pair_def)
  obtain coins to where e: "encrypt_seed_to_recipient p coins s to i = Done (rs_encrypted r)"
    using assms(2) by (auto simp: encrypts_def)
  show ?thesis
    using decrypt_seed_no_panic [OF assms(1), of "rs_encrypted r" i] opened_seed [OF p e]
    by (cases "decrypt_seed p (rs_encrypted r) kp i") (auto simp: try_decrypt_def)
qed

lemma trial_decrypt_cases:
  assumes "kem_pair p kp pk" and "\<forall>r \<in> set rs. encrypts p s i r"
  shows "trial_decrypt p kp i rs = Done None \<and> (\<forall>r \<in> set rs. \<forall>t. decrypt_seed p (rs_encrypted r) kp i \<noteq> Done t)
    \<or> (\<exists>t. trial_decrypt p kp i rs = Done (Some t) \<and> (t = s \<or> (\<exists>r \<in> set rs. seed_collision p kp i (rs_encrypted r))))"
  using assms(2)
proof (induction rs)
  case Nil
  then show ?case by simp
next
  case (Cons r rs)
  then show ?case using try_decrypt_cases [OF assms(1), of s i r] by auto
qed

lemma decrypt_level_cases:
  assumes "kem_pair p kp pk" and "\<forall>r \<in> set (nu_seeds u). encrypts p s (nu_index u) r"
  shows "decrypt_level p kp our u = Done None \<and> \<not> opens p kp u
    \<or> (\<exists>t. decrypt_level p kp our u = Done (Some t) \<and> (t = s \<or> stray p kp [u]))"
proof -
  note trial = trial_decrypt_cases [OF assms]
  show ?thesis
  proof (cases "Option.bind our (\<lambda>i. find (\<lambda>r. recipient_index r = i) (nu_seeds u))")
    case None
    then show ?thesis using trial by (auto simp: decrypt_level_def opens_def stray_def)
  next
    case (Some r)
    then have "r \<in> set (nu_seeds u)"
      by (auto simp: bind_eq_Some_conv find_Some_iff in_set_conv_nth)
    with assms(2) try_decrypt_cases [OF assms(1), of s "nu_index u" r] trial Some show ?thesis
      by (auto simp: decrypt_level_def opens_def stray_def)
  qed
qed

lemma find_seed_cases:
  assumes "kem_pair p kp pk"
    and "list_all2 (\<lambda>s u. \<forall>r \<in> set (nu_seeds u). encrypts p s (nu_index u) r) seeds us"
  shows "find_seed p kp our level us = Done None \<and> (\<forall>u \<in> set us. \<not> opens p kp u)
    \<or> (\<exists>k t. find_seed p kp our level us = Done (Some (level + k, t)) \<and> k < length us \<and> (t = seeds ! k \<or> stray p kp us))"
  using assms(2)
proof (induction seeds us arbitrary: level rule: list_all2_induct)
  case Nil
  then show ?case by simp
next
  case (Cons s seeds u us)
  from decrypt_level_cases [OF assms(1) Cons(1), of our]
  consider "decrypt_level p kp our u = Done None" "\<not> opens p kp u"
    | t where "decrypt_level p kp our u = Done (Some t)" "t = s \<or> stray p kp [u]"
    by blast
  then show ?case
  proof cases
    case 1
    then show ?thesis using Cons(3) [of "Suc level"] by (auto simp: stray_def)
  next
    case (2 t)
    then have "find_seed p kp our level (u # us) = Done (Some (level + 0, t))" by simp
    moreover have "t = (s # seeds) ! 0 \<or> stray p kp (u # us)" using 2(2) by (auto simp: stray_def)
    ultimately show ?thesis by blast
  qed
qed

lemma verify_path_carried:
  assumes "carries p sg seeds us" and "k \<le> length us"
  shows "verify_path p sg us k (drop k seeds) = Done ()"
  using assms(2)
proof (induction "length us - k" arbitrary: k)
  case 0
  then show ?case using assms(1) by (auto simp: carries_def dest: list_all2_lengthD)
next
  case (Suc n)
  have len: "length seeds = length us" using assms(1) by (auto simp: carries_def dest: list_all2_lengthD)
  have k: "k < length us" using Suc by simp
  have "\<exists>kp. derive_node_keypair p sg (seeds ! k) = Done kp \<and> nu_public_key (us ! k) = kp_public kp"
    using assms(1) k len list_all2_nthD2 by (fastforce simp: carries_def)
  moreover have "us \<noteq> [] \<longrightarrow> nu_parent_hash (us ! 0) = (zero32, zero32)"
    using assms(1) by (simp add: carries_def hd_conv_nth)
  moreover have "verify_path p sg us (Suc k) (drop (Suc k) seeds) = Done ()"
    using Suc.hyps(1) [of "Suc k"] Suc.hyps(2) k by simp
  moreover have "drop k seeds = seeds ! k # drop (Suc k) seeds" using k len by (simp add: Cons_nth_drop_Suc)
  moreover have "us \<noteq> []" using k by auto
  ultimately show ?case using k by (auto simp only: verify_path.simps bind_out_simps simp_thms if_False split: if_split)
qed

text \<open>Whoever can open any entry of a path arrives at the same root seed, whatever the recipient
  indices say and whoever the committer was, or holds a key that collides with another's.\<close>

lemma path_delivers:
  assumes "kem_pair p kp pk" and "carries p sg (derive_path_seeds p s n) us" and "\<exists>u \<in> set us. opens p kp u"
  shows "apply_path_updates p sg us kp pos committer = Done (last (derive_path_seeds p s n)) \<or> stray p kp us"
proof -
  have len: "length us = n" using carries_length [OF assms(2)] by simp
  have enc: "list_all2 (\<lambda>s u. \<forall>r \<in> set (nu_seeds u). encrypts p s (nu_index u) r) (derive_path_seeds p s n) us"
    using assms(2) by (auto simp: carries_def elim: list_all2_mono)
  define our where "our = find_our_resolution_node pos (depth (nu_index (hd us))) committer"
  from find_seed_cases [OF assms(1) enc, of our 0] assms(3) obtain k t
    where f: "find_seed p kp our 0 us = Done (Some (k, t))" "k < n"
      and t: "t = derive_path_seeds p s n ! k \<or> stray p kp us"
    using len by auto
  have "apply_path_updates p sg us kp pos committer = Done (last (derive_path_seeds p s n))"
    if "t = derive_path_seeds p s n ! k"
  proof -
    have d: "derive_path_seeds p t (length us - k) = drop k (derive_path_seeds p s n)"
      using drop_derive_path_seeds [OF f(2)] that len by simp
    have "us \<noteq> []" "derive_path_seeds p s n \<noteq> []"
      using f(2) len length_derive_path_seeds [of p s n] by (metis list.size(3) not_less_zero)+
    with f d show ?thesis
      using verify_path_carried [OF assms(2), of k] len
      by (simp add: apply_path_updates_def our_def [symmetric] Let_def last_drop)
  qed
  with t show ?thesis by blast
qed

section \<open>The parent hashes of a built path verify\<close>

text \<open>What a level contributes depends on its index, key, hashes and recipients' positions only.\<close>

definition same_level :: "node_update \<Rightarrow> node_update \<Rightarrow> bool" where
  "same_level u v \<longleftrightarrow> nu_index u = nu_index v \<and> nu_public_key u = nu_public_key v \<and> nu_parent_hash u = nu_parent_hash v
     \<and> map rs_encrypted (nu_seeds u) = map rs_encrypted (nu_seeds v)
     \<and> map (position \<circ> recipient_index) (nu_seeds u) = map (position \<circ> recipient_index) (nu_seeds v)"

text \<open>The verifier's tree determines the labels and the keys that the builder was given.\<close>

definition level_matches ::
  "primitives \<Rightarrow> tree_view \<Rightarrow> node_index list list \<Rightarrow> kem_public_key list list \<Rightarrow> bytes list \<Rightarrow> nat \<Rightarrow> node_index \<Rightarrow> bool" where
  "level_matches p tree sets keys labels level i \<longleftrightarrow>
     sibling_label p tree i = Done (labels ! (level - 1))
   \<and> (\<exists>nodes complete. reconstruct_resolution_complete tree i = Some (nodes, complete)
       \<and> (complete \<longrightarrow> position ` set nodes = position ` set (sets ! level)
           \<and> reconstruct_resolution_keys tree i = Some (keys ! level)))"

lemma length_encrypt_each: "encrypt_each p coins seed j pks i = Done es \<Longrightarrow> length es = length pks"
  by (induction pks arbitrary: j es) (auto simp: bind_out_eq_Done)

lemma positions_of_zip:
  "length xs = length es \<Longrightarrow>
    map (position \<circ> recipient_index) (map (\<lambda>(r, e). \<lparr>recipient_index = r, rs_encrypted = e\<rparr>) (zip xs es)) = map position xs"
  by (induction xs es rule: list_induct2) auto

lemma build_levels_Cons:
  assumes "build_levels p sg coins td pos sets keys labels level prev preds (seed # seeds) = Done us"
  obtains d q kp es u rest where "us = u # rest" "checked_sub td (of_nat level) = Some d" "checked_shr pos (of_nat level) = Some q"
    "derive_node_keypair p sg seed = Done kp" "nu_index u = node_new d q" "nu_public_key u = kp_public kp"
    "length (sets ! level) = length (keys ! level)"
    "encrypt_each p (coins level) seed 0 (keys ! level) (node_new d q) = Done es"
    "nu_seeds u = map (\<lambda>(r, e). \<lparr>recipient_index = r, rs_encrypted = e\<rparr>) (zip (sets ! level) es)"
    "nu_parent_hash u = (if level = 0 then (zero32, zero32)
       else (h4_parent_hash_h1 p (kp_public kp) (labels ! (level - 1)), h4_parent_hash_h2 p (kp_public kp) preds prev (keys ! level)))"
    "build_levels p sg coins td pos sets keys labels (Suc level) (snd (nu_parent_hash u)) (preds @ [kp_public kp]) seeds = Done rest"
  using assms
  by (auto simp: bind_out_eq_Done Let_def split: if_splits intro: that)

lemma build_levels_verify:
  assumes "build_levels p sg coins td pos sets keys labels level prev preds seeds = Done us"
    and "list_all2 same_level us vs"
    and "\<forall>k < length us. level + k > 0 \<longrightarrow> level_matches p tree sets keys labels (level + k) (nu_index (us ! k))"
  shows "verify_chain p tree level prev preds vs = Done ()"
  using assms
proof (induction seeds arbitrary: level prev preds us vs)
  case Nil
  then show ?case by simp
next
  case (Cons seed seeds)
  from build_levels_Cons [OF Cons.prems(1)] obtain d q kp es u rest where
    b: "us = u # rest" "checked_sub td (of_nat level) = Some d" "checked_shr pos (of_nat level) = Some q"
      "derive_node_keypair p sg seed = Done kp" "nu_index u = node_new d q" "nu_public_key u = kp_public kp"
      "length (sets ! level) = length (keys ! level)"
      "encrypt_each p (coins level) seed 0 (keys ! level) (node_new d q) = Done es"
      "nu_seeds u = map (\<lambda>(r, e). \<lparr>recipient_index = r, rs_encrypted = e\<rparr>) (zip (sets ! level) es)"
      "nu_parent_hash u = (if level = 0 then (zero32, zero32)
        else (h4_parent_hash_h1 p (kp_public kp) (labels ! (level - 1)), h4_parent_hash_h2 p (kp_public kp) preds prev (keys ! level)))"
    and r: "build_levels p sg coins td pos sets keys labels (Suc level) (snd (nu_parent_hash u)) (preds @ [kp_public kp]) seeds = Done rest" .
  obtain v vs' where v: "vs = v # vs'" "same_level u v" "list_all2 same_level rest vs'"
    using Cons.prems(2) b(1) by (auto simp: list_all2_Cons1)
  have sv: "nu_index v = node_new d q" "nu_public_key v = kp_public kp" "nu_parent_hash v = nu_parent_hash u"
    using v(2) b by (simp_all add: same_level_def)
  have "map (position \<circ> recipient_index) (nu_seeds u) = map position (sets ! level)"
    using b(7) length_encrypt_each [OF b(8)] by (simp only: b(9) positions_of_zip)
  then have "map (position \<circ> recipient_index) (nu_seeds v) = map position (sets ! level)"
    using v(2) by (simp add: same_level_def)
  then have pos: "(position \<circ> recipient_index) ` set (nu_seeds v) = position ` set (sets ! level)"
    by (metis list.set_map)
  have "verify_level p tree level prev preds v = Done ()"
  proof (cases "level = 0")
    case True
    then show ?thesis using sv(3) b(10) by (simp add: verify_level_def)
  next
    case False
    then have m: "level_matches p tree sets keys labels level (node_new d q)"
      using Cons.prems(3) b(1,5) by force
    then show ?thesis using False sv b(10) pos
      by (auto simp: verify_level_def level_matches_def)
  qed
  moreover have "\<forall>k < length rest. Suc level + k > 0 \<longrightarrow> level_matches p tree sets keys labels (Suc level + k) (nu_index (rest ! k))"
    using Cons.prems(3) b(1) by auto
  with Cons.IH [OF r v(3)] have "verify_chain p tree (Suc level) (snd (nu_parent_hash u)) (preds @ [kp_public kp]) vs' = Done ()"
    by blast
  ultimately show ?case using v(1) sv by simp
qed

section \<open>What each level of a built path holds\<close>

lemma build_levels_nth:
  assumes "build_levels p sg coins td pos sets keys labels level prev preds seeds = Done us"
  shows "length us = length seeds \<and> (\<forall>k < length seeds. \<exists>d q kp es.
      checked_sub td (of_nat (level + k)) = Some d \<and> checked_shr pos (of_nat (level + k)) = Some q
    \<and> derive_node_keypair p sg (seeds ! k) = Done kp
    \<and> nu_index (us ! k) = node_new d q \<and> nu_public_key (us ! k) = kp_public kp
    \<and> length (sets ! (level + k)) = length (keys ! (level + k))
    \<and> encrypt_each p (coins (level + k)) (seeds ! k) 0 (keys ! (level + k)) (node_new d q) = Done es
    \<and> nu_seeds (us ! k) = map (\<lambda>(r, e). \<lparr>recipient_index = r, rs_encrypted = e\<rparr>) (zip (sets ! (level + k)) es)
    \<and> (level + k = 0 \<longrightarrow> nu_parent_hash (us ! k) = (zero32, zero32)))"
  using assms
proof (induction seeds arbitrary: level prev preds us)
  case Nil
  then show ?case by simp
next
  case (Cons seed seeds)
  from build_levels_Cons [OF Cons.prems] obtain d q kp es u rest where
    b: "us = u # rest" "checked_sub td (of_nat level) = Some d" "checked_shr pos (of_nat level) = Some q"
      "derive_node_keypair p sg seed = Done kp" "nu_index u = node_new d q" "nu_public_key u = kp_public kp"
      "length (sets ! level) = length (keys ! level)"
      "encrypt_each p (coins level) seed 0 (keys ! level) (node_new d q) = Done es"
      "nu_seeds u = map (\<lambda>(r, e). \<lparr>recipient_index = r, rs_encrypted = e\<rparr>) (zip (sets ! level) es)"
      "nu_parent_hash u = (if level = 0 then (zero32, zero32)
        else (h4_parent_hash_h1 p (kp_public kp) (labels ! (level - 1)), h4_parent_hash_h2 p (kp_public kp) preds prev (keys ! level)))"
    and r: "build_levels p sg coins td pos sets keys labels (Suc level) (snd (nu_parent_hash u)) (preds @ [kp_public kp]) seeds = Done rest" .
  note ih = Cons.IH [OF r]
  show ?case
  proof (intro conjI allI impI)
    show "length us = length (seed # seeds)" using ih b(1) by simp
  next
    fix k
    assume k: "k < length (seed # seeds)"
    show "\<exists>d q kp es.
      checked_sub td (of_nat (level + k)) = Some d \<and> checked_shr pos (of_nat (level + k)) = Some q
    \<and> derive_node_keypair p sg ((seed # seeds) ! k) = Done kp
    \<and> nu_index (us ! k) = node_new d q \<and> nu_public_key (us ! k) = kp_public kp
    \<and> length (sets ! (level + k)) = length (keys ! (level + k))
    \<and> encrypt_each p (coins (level + k)) ((seed # seeds) ! k) 0 (keys ! (level + k)) (node_new d q) = Done es
    \<and> nu_seeds (us ! k) = map (\<lambda>(r, e). \<lparr>recipient_index = r, rs_encrypted = e\<rparr>) (zip (sets ! (level + k)) es)
    \<and> (level + k = 0 \<longrightarrow> nu_parent_hash (us ! k) = (zero32, zero32))"
    proof (cases k)
      case 0
      then show ?thesis using b by auto
    next
      case (Suc j)
      then have "j < length seeds" using k by simp
      with ih show ?thesis by (simp add: Suc b(1))
    qed
  qed
qed

lemma encrypt_each_nth:
  assumes "encrypt_each p coins seed j pks i = Done es"
  shows "length es = length pks \<and> (\<forall>k < length pks. encrypt_seed_to_recipient p (coins (j + k)) seed (pks ! k) i = Done (es ! k))"
  using assms
proof (induction pks arbitrary: j es)
  case Nil
  then show ?case by simp
next
  case (Cons pk pks)
  then obtain e es' where e: "es = e # es'" "encrypt_seed_to_recipient p (coins j) seed pk i = Done e"
    "encrypt_each p coins seed (Suc j) pks i = Done es'" by (auto simp: bind_out_eq_Done)
  show ?case using Cons.IH [OF e(3)] e(1,2) by (auto simp: nth_Cons split: nat.splits)
qed

section \<open>The verifier's resolutions\<close>

context lookup
begin

text \<open>Tracking completeness does not change the resolution.\<close>

lemma resolve_complete_eq:
  assumes td: "unat td < 32" and "valid_index i" and "ndepth i \<le> unat td"
  shows "\<exists>r c. resolve get_node td i = Some r \<and> resolve_complete get_node td i = Some (r, c)"
  using assms(2,3)
proof (induction "unat td - ndepth i" arbitrary: i rule: less_induct)
  case less
  note i = less.prems
  obtain found where g: "get_node i = Some found" using get_total [OF i(1)] by blast
  show ?case
  proof (cases "\<exists>n. found = Some n \<and> is_blank (node_st n) \<and> depth i \<noteq> td")
    case False
    then show ?thesis
      by (cases found) (auto simp: resolve.simps [of _ _ i] resolve_complete.simps [of _ _ i] g is_leaf_def)
  next
    case True
    then obtain n where n: "found = Some n" "is_blank (node_st n)" "depth i \<noteq> td" by blast
    have lt: "ndepth i < unat td" using i(2) n(3) by (auto simp: ndepth_def word_eq_iff_unsigned [where 'a = nat])
    then have "ndepth i < 31" using td by simp
    from valid_childrenE [OF i(1) this] obtain l r where lr: "left_child i = Some l" "right_child i = Some r"
      "valid_index l" "valid_index r" "ndepth l = ndepth i + 1" "ndepth r = ndepth i + 1"
      "npos l = 2 * npos i" "npos r = 2 * npos i + 1" by metis
    have sm: "unat td - ndepth l < unat td - ndepth i" "ndepth l \<le> unat td"
      "unat td - ndepth r < unat td - ndepth i" "ndepth r \<le> unat td" using lt lr(5,6) by simp_all
    obtain a ca where a: "resolve get_node td l = Some a" "resolve_complete get_node td l = Some (a, ca)"
      using less.hyps [OF sm(1) lr(3) sm(2)] by blast
    obtain b cb where b: "resolve get_node td r = Some b" "resolve_complete get_node td r = Some (b, cb)"
      using less.hyps [OF sm(3) lr(4) sm(4)] by blast
    have sa: "\<forall>j. j \<in> set a \<longleftrightarrow> stands_for get_node td l j" using resolve_correct [OF td lr(3) sm(2)] a(1) by auto
    have sb: "\<forall>j. j \<in> set b \<longleftrightarrow> stands_for get_node td r j" using resolve_correct [OF td lr(4) sm(4)] b(1) by auto
    have "list_all valid_index a" "list_all valid_index b" using sa sb by (auto simp: list_all_iff stands_for_def)
    from res_union_valid [OF this] have u: "res_union a b = Some (a @ filter (\<lambda>i. i \<notin> set a) b)" .
    have "j \<notin> set a" if "j \<in> set b" for j
      using that sa sb anc_children_disjoint [of l r j] lr by (auto simp: stands_for_def)
    then have "filter (\<lambda>i. i \<notin> set a) b = b" by (simp add: filter_id_conv)
    with u show ?thesis
      by (simp add: resolve.simps [of _ _ i] resolve_complete.simps [of _ _ i] g n is_leaf_def lr(1,2) a b)
  qed
qed

end

text \<open>Unmerged lists name leaves below the node that holds them; additions keep them so.\<close>

definition unmerged_below :: "tree_view \<Rightarrow> bool" where
  "unmerged_below t \<longleftrightarrow> (\<forall>i n us. valid_index i \<longrightarrow> view_get t i = Some (Some n) \<longrightarrow> unmerged_leaves (node_st n) = Some us
     \<longrightarrow> (\<forall>q \<in> set us. anc i (leaf (view_depth t) q)))"

lemma sibling_valid:
  assumes "valid_index i" and "sibling i = Some s"
  shows "valid_index s" "ndepth s = ndepth i" "npos s \<noteq> npos i"
proof -
  have s: "ndepth s = ndepth i" "npos s = (if even (npos i) then npos i + 1 else npos i - 1)" "ndepth i \<noteq> 0"
    using assms(2) unfolding sibling_eq_Some by simp_all
  then show "ndepth s = ndepth i" by simp
  show "npos s \<noteq> npos i" using s(2) by (cases "even (npos i)") (auto elim: oddE)
  have "even (npos i) \<Longrightarrow> npos i + 1 < 2 ^ ndepth i"
  proof -
    assume e: "even (npos i)"
    have "even ((2::nat) ^ ndepth i)" using s(3) by simp
    then have "npos i + 1 \<noteq> 2 ^ ndepth i" using e by (metis even_plus_one_iff)
    then show ?thesis using assms(1) by (simp add: valid_index_def)
  qed
  then show "valid_index s" using assms(1) s by (auto simp: valid_index_def)
qed

lemma unmerged_of_total: "valid_index i \<Longrightarrow> \<exists>us. unmerged_of t i = Some us"
  using store.get_total [of i t] by (auto simp: unmerged_of_def)

lemma drop_unmerged_sibling:
  assumes "unmerged_below t" and "valid_index i" and "sibling i = Some s" and "unmerged_of t i = Some us"
    and "\<forall>j \<in> set r. anc s j"
  shows "drop_unmerged (view_depth t) us r = r"
proof -
  have "\<not> (depth j = view_depth t \<and> position j \<in> set us)" if j: "j \<in> set r" for j
  proof
    assume d: "depth j = view_depth t \<and> position j \<in> set us"
    then have jl: "leaf (view_depth t) (position j) = j" by (simp add: leaf_def node_new_def)
    obtain n where "view_get t i = Some (Some n)" "unmerged_leaves (node_st n) = Some us"
      using assms(4) d by (auto simp: unmerged_of_def bind_eq_Some_conv split: option.splits Option.bind_splits)
    then have "anc i (leaf (view_depth t) (position j))"
      using assms(1,2) d unfolding unmerged_below_def by blast
    then have "anc i j" by (simp add: jl)
    moreover have "anc s j" using assms(5) j by blast
    ultimately show False
      using anc_children_disjoint [of i s j] sibling_valid [OF assms(2,3)] by simp
  qed
  then show ?thesis by (auto simp: drop_unmerged_def filter_id_conv)
qed

lemma keys_of_total: "list_all valid_index is \<Longrightarrow> \<exists>ks. keys_of t is = Some ks"
proof (induction "is")
  case (Cons i "is")
  then obtain ks where "keys_of t is = Some ks" by auto
  moreover obtain n where "view_get t i = Some n" using Cons.prems store.get_total [of i t] by auto
  ultimately show ?case by simp
qed simp

text \<open>On a well-formed view the two reconstructions of the verifier are the resolution that the
  builder encrypted to, and its keys; whether the view is complete only decides the check.\<close>

lemma reconstructions:
  assumes t: "view_ok t" "unmerged_below t" and i: "valid_index i" "depth i \<le> view_depth t"
  obtains r ks c where "compute_lj (view_get t) (view_depth t) i (unmerged_indices t) = Some r"
    "keys_of t r = Some ks" "reconstruct_resolution_complete t i = Some (r, c)" "reconstruct_resolution_keys t i = Some ks"
proof -
  obtain us where us: "unmerged_of t i = Some us" using unmerged_of_total [OF i(1)] by blast
  show thesis
  proof (cases "sibling i")
    case None
    have lj: "compute_lj (view_get t) (view_depth t) i (unmerged_indices t) = Some []" by (simp add: compute_lj_def None)
    show thesis
      by (rule that [OF lj, of "[]" True])
        (simp_all add: reconstruct_resolution_complete_def reconstruct_resolution_keys_def None lj us drop_unmerged_def)
  next
    case (Some s)
    have td: "unat (view_depth t) < 32" using t(1) by (simp add: view_ok_def)
    have vs: "valid_index s" "ndepth s \<le> unat (view_depth t)"
      using sibling_valid [OF i(1) Some] i(2) by (simp_all add: ndepth_def word_le_nat_alt)
    obtain r c where r: "resolve (view_get t) (view_depth t) s = Some r"
      "resolve_complete (view_get t) (view_depth t) s = Some (r, c)"
      using view_lookup.resolve_complete_eq [OF td vs, of t] by blast
    have st: "\<forall>j \<in> set r. stands_for (view_get t) (view_depth t) s j"
      using view_lookup.resolve_correct [OF td vs, of t] r(1) by auto
    then have drop: "drop_unmerged (view_depth t) us r = r"
      using drop_unmerged_sibling [OF t(2) i(1) Some us] by (simp add: stands_for_def)
    have "list_all valid_index r" using st by (simp add: list_all_iff stands_for_def)
    then obtain ks where ks: "keys_of t r = Some ks" using keys_of_total by blast
    have lj: "compute_lj (view_get t) (view_depth t) i (unmerged_indices t) = Some r"
      using lj_eq [OF t(1) i Some] r(1) by simp
    show thesis
      by (rule that [OF lj ks, of c])
        (simp_all add: reconstruct_resolution_complete_def reconstruct_resolution_keys_def Some lj us drop r ks)
  qed
qed

end
