(* ===== verification/Identity.thy ===== *)
theory Identity
  imports Hybrid_Kem Hybrid_Signature
begin

text \<open>
  Identities, one-time keys and the signed pre-key bundles of session establishment
  (\<open>trelis-hybrid/src/identity.rs\<close>, \<open>one_time_key.rs\<close>, \<open>prekey_bundle.rs\<close>,
  \<open>trelis-x3dh-pq/src/bundle.rs\<close>, \<open>builder.rs\<close>). The required fields that the builder tracks
  in its type are options here, and \<open>build\<close> on a partial builder, which does not
  compile, is the panic its \<open>expect\<close> would raise.
\<close>

section \<open>Identities\<close>

definition DEVICE_SEED_CONTEXT :: string where "DEVICE_SEED_CONTEXT = ''trelis-device-seed-v1''"
definition DEVICE_IDENTITY_KEY_CONTEXT :: string where "DEVICE_IDENTITY_KEY_CONTEXT = ''trelis-device-identity-key-v1''"
definition DEVICE_SIGNING_KEY_CONTEXT :: string where "DEVICE_SIGNING_KEY_CONTEXT = ''trelis-device-signing-key-v1''"

definition derive_device_seed :: "primitives \<Rightarrow> bytes \<Rightarrow> bytes" where
  "derive_device_seed p hardware_entropy = blake3_derive_key p DEVICE_SEED_CONTEXT hardware_entropy"

record identity_public_key =
  ipk_signing :: signing_public_key
  ipk_kem :: kem_public_key

record identity_keypair =
  id_public :: identity_public_key
  id_signing :: signing_keypair
  id_kem :: kem_keypair

definition identity_of :: "signing_keypair \<Rightarrow> kem_keypair \<Rightarrow> identity_keypair" where
  "identity_of sk kk = \<lparr>id_public = \<lparr>ipk_signing = skp_public sk, ipk_kem = kp_public kk\<rparr>,
     id_signing = sk, id_kem = kk\<rparr>"

definition identity_generate_inner ::
  "primitives \<Rightarrow> sig_suite \<Rightarrow> bytes option \<Rightarrow> bytes \<Rightarrow> bytes option \<Rightarrow> bytes outcome \<Rightarrow> identity_keypair outcome" where
  "identity_generate_inner p g ed_rand md_rand x_rand sntrup_gen =
     bind_out (of_result (signing_generate g ed_rand md_rand)) (\<lambda>signing.
     bind_out (kem_generate p x_rand sntrup_gen) (\<lambda>kem.
     Done (identity_of signing kem)))"

definition identity_generate_from_seed ::
  "primitives \<Rightarrow> sig_suite \<Rightarrow> (bytes \<Rightarrow> bytes outcome) \<Rightarrow> bytes \<Rightarrow> identity_keypair outcome" where
  "identity_generate_from_seed p g sntrup_gen_from_seed seed =
     (let signing_seed = derive_key p DEVICE_SIGNING_KEY_CONTEXT seed;
          kem_seed = derive_key p DEVICE_IDENTITY_KEY_CONTEXT seed in
      bind_out (of_result (signing_generate_from_seed p g signing_seed)) (\<lambda>signing.
      bind_out (kem_generate_from_seed p sntrup_gen_from_seed kem_seed) (\<lambda>kem.
      Done (identity_of signing kem))))"

definition identity_to_bytes :: "identity_keypair \<Rightarrow> bytes" where
  "identity_to_bytes i = signing_keypair_to_bytes (id_signing i) @ kem_keypair_to_bytes (id_kem i)"

definition identity_from_bytes :: "primitives \<Rightarrow> sig_suite \<Rightarrow> bytes \<Rightarrow> identity_keypair result" where
  "identity_from_bytes p g bs =
     (if length bs \<noteq> 4089 + KEM_SECRET_KEY_SIZE then Inl (InvalidKeyLength (4089 + KEM_SECRET_KEY_SIZE) (length bs))
      else tryR (signing_keypair_from_bytes g (take 4089 bs)) (\<lambda>signing.
           tryR (kem_keypair_from_bytes p (drop 4089 bs)) (\<lambda>kem.
           Inr (identity_of signing kem))))"

definition identity_pk_to_bytes :: "identity_public_key \<Rightarrow> bytes" where
  "identity_pk_to_bytes pk = signing_pk_to_bytes (ipk_signing pk) @ kem_pk_to_bytes (ipk_kem pk)"

definition identity_pk_from_bytes :: "sig_suite \<Rightarrow> bytes \<Rightarrow> identity_public_key result" where
  "identity_pk_from_bytes g bs =
     (if length bs \<noteq> 2009 + KEM_PUBLIC_KEY_SIZE then Inl (InvalidKeyLength (2009 + KEM_PUBLIC_KEY_SIZE) (length bs))
      else tryR (signing_pk_from_bytes g (take 2009 bs)) (\<lambda>signing.
           tryR (kem_pk_from_bytes (drop 2009 bs)) (\<lambda>kem.
           Inr \<lparr>ipk_signing = signing, ipk_kem = kem\<rparr>)))"

section \<open>One-time keys\<close>

record one_time_key =
  otk_kem :: kem_public_key
  otk_id :: bytes

record one_time_keypair =
  otkp_kem :: kem_keypair
  otkp_id :: bytes

record signed_one_time_key =
  sotk_key :: one_time_key
  sotk_signature :: hybrid_signature

definition otk_generate :: "primitives \<Rightarrow> bytes option \<Rightarrow> bytes outcome \<Rightarrow> one_time_keypair outcome" where
  "otk_generate p x_rand sntrup_gen =
     bind_out (kem_generate p x_rand sntrup_gen) (\<lambda>kem.
     let pk_bytes = kem_pk_to_bytes (kp_public kem); h = b3hash p pk_bytes in
     Done \<lparr>otkp_kem = kem, otkp_id = take 8 h\<rparr>)"

definition otk_public_key :: "one_time_keypair \<Rightarrow> one_time_key" where
  "otk_public_key kp = \<lparr>otk_kem = kp_public (otkp_kem kp), otk_id = otkp_id kp\<rparr>"

definition otk_to_bytes :: "one_time_key \<Rightarrow> bytes" where
  "otk_to_bytes k = otk_id k @ kem_pk_to_bytes (otk_kem k)"

definition otk_from_bytes :: "bytes \<Rightarrow> one_time_key result" where
  "otk_from_bytes bs =
     (if length bs \<noteq> 8 + KEM_PUBLIC_KEY_SIZE then Inl (InvalidKeyLength (8 + KEM_PUBLIC_KEY_SIZE) (length bs))
      else let key_id = take 8 bs in
           tryR (kem_pk_from_bytes (drop 8 bs)) (\<lambda>kem. Inr \<lparr>otk_kem = kem, otk_id = key_id\<rparr>))"

definition otk_sign ::
  "primitives \<Rightarrow> sig_suite \<Rightarrow> sign_coins \<Rightarrow> signing_keypair \<Rightarrow> one_time_keypair \<Rightarrow> signed_one_time_key result" where
  "otk_sign p g coins signing_key kp =
     (let otk = otk_public_key kp in
      tryR (hybrid_sign p g coins signing_key (otk_to_bytes otk)) (\<lambda>s.
      Inr \<lparr>sotk_key = otk, sotk_signature = s\<rparr>))"

definition signed_otk_verify :: "primitives \<Rightarrow> sig_suite \<Rightarrow> signing_public_key \<Rightarrow> signed_one_time_key \<Rightarrow> unit result" where
  "signed_otk_verify p g pk k = hybrid_verify p g pk (otk_to_bytes (sotk_key k)) (sotk_signature k)"

record hybrid_bundle =
  hb_identity_signing :: signing_public_key
  hb_identity_kem :: kem_public_key
  hb_one_time_key :: one_time_key

definition hybrid_bundle_new :: "identity_public_key \<Rightarrow> one_time_key \<Rightarrow> hybrid_bundle" where
  "hybrid_bundle_new identity otk = \<lparr>hb_identity_signing = ipk_signing identity,
     hb_identity_kem = ipk_kem identity, hb_one_time_key = otk\<rparr>"

definition hybrid_bundle_to_bytes :: "hybrid_bundle \<Rightarrow> bytes" where
  "hybrid_bundle_to_bytes b = signing_pk_to_bytes (hb_identity_signing b)
     @ kem_pk_to_bytes (hb_identity_kem b) @ otk_to_bytes (hb_one_time_key b)"

definition hybrid_bundle_from_bytes :: "sig_suite \<Rightarrow> bytes \<Rightarrow> hybrid_bundle result" where
  "hybrid_bundle_from_bytes g bs =
     (let bundle_size = 2009 + KEM_PUBLIC_KEY_SIZE + (8 + KEM_PUBLIC_KEY_SIZE) in
      if length bs \<noteq> bundle_size then Inl (InvalidKeyLength bundle_size (length bs))
      else tryR (signing_pk_from_bytes g (take 2009 bs)) (\<lambda>signing.
           tryR (kem_pk_from_bytes (sub_slice 2009 (2009 + KEM_PUBLIC_KEY_SIZE) bs)) (\<lambda>kem.
           tryR (otk_from_bytes (drop (2009 + KEM_PUBLIC_KEY_SIZE) bs)) (\<lambda>otk.
           Inr \<lparr>hb_identity_signing = signing, hb_identity_kem = kem, hb_one_time_key = otk\<rparr>))))"

section \<open>Pre-key bundles\<close>

definition BUNDLE_DOMAIN :: bytes where "BUNDLE_DOMAIN = map of_char ''trelis-prekey-bundle-v1''"

record prekey_bundle =
  pb_identity_signing :: signing_public_key
  pb_identity_kem :: kem_public_key
  pb_one_time_key :: kem_public_key
  pb_otk_key_id :: u64
  pb_timestamp :: u64
  pb_expiration :: u64

record signed_bundle =
  sb_bundle :: prekey_bundle
  sb_signature :: hybrid_signature

definition prekey_bundle_new ::
  "signing_public_key \<Rightarrow> kem_public_key \<Rightarrow> kem_public_key \<Rightarrow> u64 \<Rightarrow> u64 \<Rightarrow> u64 \<Rightarrow> prekey_bundle" where
  "prekey_bundle_new signing ikem otk key_id ts ex = \<lparr>pb_identity_signing = signing, pb_identity_kem = ikem,
     pb_one_time_key = otk, pb_otk_key_id = key_id, pb_timestamp = ts, pb_expiration = ex\<rparr>"

definition bundle_signing_data :: "prekey_bundle \<Rightarrow> bytes" where
  "bundle_signing_data b = BUNDLE_DOMAIN @ signing_pk_to_bytes (pb_identity_signing b)
     @ kem_pk_to_bytes (pb_identity_kem b) @ kem_pk_to_bytes (pb_one_time_key b)
     @ le_bytes 8 (pb_otk_key_id b) @ le_bytes 8 (pb_timestamp b) @ le_bytes 8 (pb_expiration b)"

definition bundle_sign ::
  "primitives \<Rightarrow> sig_suite \<Rightarrow> sign_coins \<Rightarrow> signing_keypair \<Rightarrow> prekey_bundle \<Rightarrow> signed_bundle result" where
  "bundle_sign p g coins kp b =
     (let data = bundle_signing_data b in
      tryR (hybrid_sign p g coins kp data) (\<lambda>s. Inr \<lparr>sb_bundle = b, sb_signature = s\<rparr>))"

definition bundle_verify :: "primitives \<Rightarrow> sig_suite \<Rightarrow> signed_bundle \<Rightarrow> unit result" where
  "bundle_verify p g sb =
     (let data = bundle_signing_data (sb_bundle sb) in
      case hybrid_verify p g (pb_identity_signing (sb_bundle sb)) data (sb_signature sb) of
        Inl _ \<Rightarrow> Inl InvalidBundleSignature | Inr u \<Rightarrow> Inr u)"

definition validate_timestamps :: "u64 \<Rightarrow> signed_bundle \<Rightarrow> unit result" where
  "validate_timestamps now sb =
     (if pb_timestamp (sb_bundle sb) > now then Inl BundleTimestampInFuture
      else if pb_expiration (sb_bundle sb) < now then Inl BundleExpired else Inr ())"

record bundle_builder =
  bb_identity_signing :: "signing_public_key option"
  bb_identity_kem :: "kem_public_key option"
  bb_one_time_key :: "kem_public_key option"
  bb_otk_key_id :: u64
  bb_timestamp :: u64
  bb_expiration :: u64

definition builder_new :: bundle_builder where
  "builder_new = \<lparr>bb_identity_signing = None, bb_identity_kem = None, bb_one_time_key = None,
     bb_otk_key_id = 0, bb_timestamp = 0, bb_expiration = - 1\<rparr>"

definition with_identity_signing :: "signing_public_key \<Rightarrow> bundle_builder \<Rightarrow> bundle_builder" where
  "with_identity_signing k b = b\<lparr>bb_identity_signing := Some k\<rparr>"
definition with_identity_kem :: "kem_public_key \<Rightarrow> bundle_builder \<Rightarrow> bundle_builder" where
  "with_identity_kem k b = b\<lparr>bb_identity_kem := Some k\<rparr>"
definition with_one_time_key :: "kem_public_key \<Rightarrow> bundle_builder \<Rightarrow> bundle_builder" where
  "with_one_time_key k b = b\<lparr>bb_one_time_key := Some k\<rparr>"
definition with_otk_key_id :: "u64 \<Rightarrow> bundle_builder \<Rightarrow> bundle_builder" where
  "with_otk_key_id n b = b\<lparr>bb_otk_key_id := n\<rparr>"
definition with_timestamp :: "u64 \<Rightarrow> bundle_builder \<Rightarrow> bundle_builder" where
  "with_timestamp n b = b\<lparr>bb_timestamp := n\<rparr>"
definition with_expiration :: "u64 \<Rightarrow> bundle_builder \<Rightarrow> bundle_builder" where
  "with_expiration n b = b\<lparr>bb_expiration := n\<rparr>"

definition builder_build :: "bundle_builder \<Rightarrow> prekey_bundle outcome" where
  "builder_build b =
     (if bb_expiration b \<noteq> - 1 \<and> bb_expiration b < bb_timestamp b then Fail BundleTimestampInFuture
      else bind_out (or_panic (bb_identity_signing b)) (\<lambda>signing.
           bind_out (or_panic (bb_identity_kem b)) (\<lambda>kem.
           bind_out (or_panic (bb_one_time_key b)) (\<lambda>otk.
           Done \<lparr>pb_identity_signing = signing, pb_identity_kem = kem, pb_one_time_key = otk,
             pb_otk_key_id = bb_otk_key_id b, pb_timestamp = bb_timestamp b, pb_expiration = bb_expiration b\<rparr>))))"

section \<open>Lemmas\<close>

definition identity_pk_valid :: "sig_suite \<Rightarrow> identity_public_key \<Rightarrow> bool" where
  "identity_pk_valid g pk \<longleftrightarrow> signing_pk_valid g (ipk_signing pk) \<and> public_key_valid (ipk_kem pk)"

definition otk_valid :: "one_time_key \<Rightarrow> bool" where
  "otk_valid k \<longleftrightarrow> length (otk_id k) = 8 \<and> public_key_valid (otk_kem k)"

lemma length_signing_pk: "signing_pk_valid g pk \<Longrightarrow> length (signing_pk_to_bytes pk) = 2009"
  by (simp add: signing_pk_valid_def signing_pk_to_bytes_def)

lemma length_valid_kem_pk: "public_key_valid pk \<Longrightarrow> length (kem_pk_to_bytes pk) = KEM_PUBLIC_KEY_SIZE"
  by (simp add: public_key_valid_def length_kem_codecs kem_sizes)

interpretation otk: strict_codec otk_to_bytes otk_from_bytes otk_valid
proof
  fix k
  assume "otk_valid k"
  then show "otk_from_bytes (otk_to_bytes k) = Inr k"
    using kem_pk.decodes [of "otk_kem k"]
    by (simp add: otk_valid_def otk_from_bytes_def otk_to_bytes_def length_valid_kem_pk Let_def)
next
  fix bs k
  assume "otk_from_bytes bs = Inr k"
  then obtain k0 where "length bs = 8 + KEM_PUBLIC_KEY_SIZE" "kem_pk_from_bytes (drop 8 bs) = Inr k0"
    "k = \<lparr>otk_kem = k0, otk_id = take 8 bs\<rparr>"
    by (auto simp: otk_from_bytes_def try_simps Let_def split: if_splits)
  with kem_pk.canonical [of "drop 8 bs" k0] show "otk_valid k \<and> otk_to_bytes k = bs"
    by (simp add: otk_valid_def otk_to_bytes_def)
qed

lemma identity_pk_dec_iff:
  assumes "suite_ok g"
  shows "identity_pk_from_bytes g bs = Inr pk \<longleftrightarrow> identity_pk_valid g pk \<and> bs = identity_pk_to_bytes pk"
proof
  assume "identity_pk_from_bytes g bs = Inr pk"
  then have "length bs = 2009 + KEM_PUBLIC_KEY_SIZE" "signing_pk_from_bytes g (take 2009 bs) = Inr (ipk_signing pk)"
    "kem_pk_from_bytes (drop 2009 bs) = Inr (ipk_kem pk)"
    by (auto simp: identity_pk_from_bytes_def try_simps split: if_splits)
  then show "identity_pk_valid g pk \<and> bs = identity_pk_to_bytes pk"
    using signing_pk_dec_iff [OF assms] kem_pk.dec_iff
    by (auto simp: identity_pk_valid_def identity_pk_to_bytes_def) (metis append_take_drop_id)
next
  assume "identity_pk_valid g pk \<and> bs = identity_pk_to_bytes pk"
  then show "identity_pk_from_bytes g bs = Inr pk"
    using signing_pk_dec_iff [OF assms, of "signing_pk_to_bytes (ipk_signing pk)" "ipk_signing pk"]
      kem_pk.decodes [of "ipk_kem pk"] length_signing_pk [of g "ipk_signing pk"]
    by (simp add: identity_pk_valid_def identity_pk_from_bytes_def identity_pk_to_bytes_def
        length_valid_kem_pk)
qed

definition bundle_wf :: "prekey_bundle \<Rightarrow> bool" where
  "bundle_wf b \<longleftrightarrow> signing_pk_wf (pb_identity_signing b) \<and> kem_pk_wf (pb_identity_kem b) \<and> kem_pk_wf (pb_one_time_key b)"

lemma signing_pk_inject: "signing_pk_wf a \<Longrightarrow> signing_pk_wf b \<Longrightarrow> signing_pk_to_bytes a = signing_pk_to_bytes b \<longleftrightarrow> a = b"
  by (cases a; cases b) (auto simp: signing_pk_wf_def signing_pk_to_bytes_def append_eq_append_conv)

lemma kem_pk_inject: "kem_pk_wf a \<Longrightarrow> kem_pk_wf b \<Longrightarrow> kem_pk_to_bytes a = kem_pk_to_bytes b \<longleftrightarrow> a = b"
  by (cases a; cases b) (auto simp: kem_pk_wf_def kem_pk_to_bytes_def append_eq_append_conv)

lemma le_bytes_8_iff: "le_bytes 8 (c :: u64) = le_bytes 8 d \<longleftrightarrow> c = d"
  by (metis le_bytes_round_trips(3))

text \<open>What is signed determines the bundle.\<close>

lemma bundle_data_inject:
  assumes "bundle_wf a" and "bundle_wf b"
  shows "bundle_signing_data a = bundle_signing_data b \<longleftrightarrow> a = b"
proof
  have len: "length (signing_pk_to_bytes k) = 2009" if "signing_pk_wf k" for k
    using that by (simp add: signing_pk_wf_def signing_pk_to_bytes_def)
  assume "bundle_signing_data a = bundle_signing_data b"
  then have "signing_pk_to_bytes (pb_identity_signing a) = signing_pk_to_bytes (pb_identity_signing b)"
    "kem_pk_to_bytes (pb_identity_kem a) = kem_pk_to_bytes (pb_identity_kem b)"
    "kem_pk_to_bytes (pb_one_time_key a) = kem_pk_to_bytes (pb_one_time_key b)"
    "le_bytes 8 (pb_otk_key_id a) = le_bytes 8 (pb_otk_key_id b)"
    "le_bytes 8 (pb_timestamp a) = le_bytes 8 (pb_timestamp b)"
    "le_bytes 8 (pb_expiration a) = le_bytes 8 (pb_expiration b)"
    using assms len length_kem_codecs(1)
    by (simp_all add: bundle_signing_data_def bundle_wf_def append_eq_append_conv)
  then show "a = b"
    using assms signing_pk_inject kem_pk_inject le_bytes_8_iff by (simp add: bundle_wf_def)
qed simp

lemma bundle_sign_verify:
  assumes "signing_keypair_wf g kp" and "pb_identity_signing b = skp_public kp" and "bundle_sign p g coins kp b = Inr sb"
  shows "bundle_verify p g sb = Inr () \<and> sb_bundle sb = b"
  using assms hybrid_plain.verifies [OF assms(1), of p coins "bundle_signing_data b"]
  by (auto simp: bundle_sign_def bundle_verify_def try_simps Let_def)

text \<open>A complete builder gives the bundle of its fields, or reports that it would expire before it
  was made.\<close>

lemma builder_build_spec:
  "builder_build (with_expiration ex (with_timestamp ts (with_otk_key_id n
     (with_one_time_key otk (with_identity_kem ik (with_identity_signing s builder_new))))))
   = (if ex \<noteq> - 1 \<and> ex < ts then Fail BundleTimestampInFuture else Done (prekey_bundle_new s ik otk n ts ex))"
  by (simp add: builder_build_def builder_new_def with_expiration_def with_timestamp_def with_otk_key_id_def
      with_one_time_key_def with_identity_kem_def with_identity_signing_def prekey_bundle_new_def)

end
