(* ===== verification/Cocoa_Commit.thy ===== *)
theory Cocoa_Commit
  imports Cocoa_Path Cocoa_Session Identity
begin

text \<open>
  Commits of the group protocol: the signed content (\<open>operations/commit_sign.rs\<close>), the wire form
  of path updates (\<open>operations/add.rs\<close>) and the steps that the three operations share. The
  helpers that \<open>add.rs\<close>, \<open>remove.rs\<close> and \<open>update.rs\<close> each define for themselves have the same
  body in all three files; they are modelled once, from \<open>update.rs\<close>. An operation on a session is
  a function from the session to its result and the new session, \<open>None\<close> a panic; the
  combinators \<open>act_out\<close> and \<open>act_bind\<close> sequence such steps as the question mark does.
\<close>

section \<open>Steps on a state\<close>

type_synonym ('a, 's) act = "'s \<Rightarrow> ('a result \<times> 's) option"

definition act_bind :: "('a, 's) act \<Rightarrow> ('a \<Rightarrow> ('b, 's) act) \<Rightarrow> ('b, 's) act" where
  "act_bind m k s =
     (case m s of
        None \<Rightarrow> None
      | Some (Inl e, s') \<Rightarrow> Some (Inl e, s')
      | Some (Inr x, s') \<Rightarrow> k x s')"

definition act_out :: "'a outcome \<Rightarrow> ('a, 's) act" where
  "act_out r s = (case r of Done x \<Rightarrow> Some (Inr x, s) | Fail e \<Rightarrow> Some (Inl e, s) | Panic \<Rightarrow> None)"

definition act_modify :: "('s \<Rightarrow> 's option) \<Rightarrow> (unit, 's) act" where
  "act_modify f s = map_option (Pair (Inr ())) (f s)"

definition require :: "bool \<Rightarrow> crypto_error \<Rightarrow> unit outcome" where
  "require b e = (if b then Done () else Fail e)"

section \<open>Commit content\<close>

definition COMMIT_SIGN_CONTEXT :: bytes where "COMMIT_SIGN_CONTEXT = ascii ''cocoa-sa-commit-sign-v1''"

datatype commit_type = Add | Remove | Update

record commit_content =
  co_group_id :: group_id
  co_epoch :: u64
  co_type :: commit_type
  co_round_hash :: bytes
  co_path_updates_hash :: bytes
  co_leaf_position :: u32
  co_user_id :: user_id

primrec commit_type_as_byte :: "commit_type \<Rightarrow> u8" where
  "commit_type_as_byte Add = 1"
| "commit_type_as_byte Remove = 2"
| "commit_type_as_byte Update = 3"

definition commit_type_from_byte :: "u8 \<Rightarrow> commit_type result" where
  "commit_type_from_byte b =
     (if b = 1 then Inr Add else if b = 2 then Inr Remove else if b = 3 then Inr Update else Inl MalformedMessage)"

definition COMMIT_CONTENT_SIZE :: nat where "COMMIT_CONTENT_SIZE = 32 + 8 + 1 + 32 + 32 + 4 + 32"

definition content_new_add :: "group_id \<Rightarrow> u64 \<Rightarrow> bytes \<Rightarrow> bytes \<Rightarrow> u32 \<Rightarrow> user_id \<Rightarrow> commit_content" where
  "content_new_add gid n rh ph leaf_pos uid = \<lparr>co_group_id = gid, co_epoch = n, co_type = Add,
     co_round_hash = rh, co_path_updates_hash = ph, co_leaf_position = leaf_pos, co_user_id = uid\<rparr>"

definition content_new_remove :: "group_id \<Rightarrow> u64 \<Rightarrow> bytes \<Rightarrow> bytes \<Rightarrow> u32 \<Rightarrow> user_id \<Rightarrow> commit_content" where
  "content_new_remove gid n rh ph leaf_pos uid = \<lparr>co_group_id = gid, co_epoch = n, co_type = Remove,
     co_round_hash = rh, co_path_updates_hash = ph, co_leaf_position = leaf_pos, co_user_id = uid\<rparr>"

definition content_new_update :: "group_id \<Rightarrow> u64 \<Rightarrow> bytes \<Rightarrow> bytes \<Rightarrow> u32 \<Rightarrow> user_id \<Rightarrow> commit_content" where
  "content_new_update gid n rh ph leaf_pos uid = \<lparr>co_group_id = gid, co_epoch = n, co_type = Update,
     co_round_hash = rh, co_path_updates_hash = ph, co_leaf_position = leaf_pos, co_user_id = uid\<rparr>"

definition content_to_bytes :: "commit_content \<Rightarrow> bytes" where
  "content_to_bytes c = co_group_id c @ be_bytes 8 (co_epoch c) @ [commit_type_as_byte (co_type c)]
     @ co_round_hash c @ co_path_updates_hash c @ le_bytes 4 (co_leaf_position c) @ co_user_id c"

definition content_from_bytes :: "bytes \<Rightarrow> commit_content result" where
  "content_from_bytes bs =
     (if length bs \<noteq> COMMIT_CONTENT_SIZE then Inl MalformedMessage
      else tryR (commit_type_from_byte (bs ! 40)) (\<lambda>t.
        Inr \<lparr>co_group_id = sub_slice 0 32 bs, co_epoch = be_word (sub_slice 32 40 bs), co_type = t,
          co_round_hash = sub_slice 41 73 bs, co_path_updates_hash = sub_slice 73 105 bs,
          co_leaf_position = le_word (sub_slice 105 109 bs), co_user_id = sub_slice 109 141 bs\<rparr>))"

definition sign_commit ::
  "primitives \<Rightarrow> sig_suite \<Rightarrow> sign_coins \<Rightarrow> identity_keypair \<Rightarrow> commit_content \<Rightarrow> hybrid_signature result" where
  "sign_commit p g coins identity c =
     sign_with_context p g coins (id_signing identity) (content_to_bytes c) COMMIT_SIGN_CONTEXT"

definition verify_commit_signature ::
  "primitives \<Rightarrow> sig_suite \<Rightarrow> identity_public_key \<Rightarrow> commit_content \<Rightarrow> hybrid_signature \<Rightarrow> unit result" where
  "verify_commit_signature p g identity_public c signature =
     verify_with_context p g (ipk_signing identity_public) (content_to_bytes c) COMMIT_SIGN_CONTEXT signature"

definition hash_path_updates :: "primitives \<Rightarrow> bytes \<Rightarrow> bytes" where
  "hash_path_updates p bs = derive_key p ''cocoa-sa-path-updates-hash-v1'' bs"

text \<open>\<open>sort_by\<close> is stable; the comparison is by depth, descending, then by position.\<close>

definition update_before :: "node_index \<Rightarrow> node_index \<Rightarrow> bool" where
  "update_before a b \<longleftrightarrow> depth b < depth a \<or> depth b = depth a \<and> position a \<le> position b"

fun insert_by :: "('a \<Rightarrow> 'a \<Rightarrow> bool) \<Rightarrow> 'a \<Rightarrow> 'a list \<Rightarrow> 'a list" where
  "insert_by le x [] = [x]"
| "insert_by le x (y # ys) = (if le x y then x # y # ys else y # insert_by le x ys)"

definition canonicalise_path_update_order :: "node_index list \<Rightarrow> nat list" where
  "canonicalise_path_update_order indices =
     foldr (insert_by (\<lambda>a b. update_before (indices ! a) (indices ! b))) [0..<length indices] []"

record extended_commit_content =
  base_content :: commit_content
  added_member :: "user_id option"
  added_position :: "u32 option"
  removed_member :: "user_id option"
  removed_position :: "u32 option"

definition extended_new_add :: "commit_content \<Rightarrow> user_id \<Rightarrow> u32 \<Rightarrow> extended_commit_content" where
  "extended_new_add b m pos = \<lparr>base_content = b, added_member = Some m, added_position = Some pos,
     removed_member = None, removed_position = None\<rparr>"

definition extended_new_remove :: "commit_content \<Rightarrow> user_id \<Rightarrow> u32 \<Rightarrow> extended_commit_content" where
  "extended_new_remove b m pos = \<lparr>base_content = b, added_member = None, added_position = None,
     removed_member = Some m, removed_position = Some pos\<rparr>"

definition extended_new_update :: "commit_content \<Rightarrow> extended_commit_content" where
  "extended_new_update b = \<lparr>base_content = b, added_member = None, added_position = None,
     removed_member = None, removed_position = None\<rparr>"

definition member_bytes :: "user_id option \<Rightarrow> u32 option \<Rightarrow> bytes" where
  "member_bytes m pos = (case (m, pos) of (Some u, Some q) \<Rightarrow> u @ be_bytes 4 q | _ \<Rightarrow> [])"

definition extended_to_bytes :: "extended_commit_content \<Rightarrow> bytes" where
  "extended_to_bytes c = content_to_bytes (base_content c) @ member_bytes (added_member c) (added_position c)
     @ member_bytes (removed_member c) (removed_position c)"

definition sign_extended_commit ::
  "primitives \<Rightarrow> sig_suite \<Rightarrow> sign_coins \<Rightarrow> identity_keypair \<Rightarrow> extended_commit_content \<Rightarrow> hybrid_signature result" where
  "sign_extended_commit p g coins identity c =
     sign_with_context p g coins (id_signing identity) (extended_to_bytes c) COMMIT_SIGN_CONTEXT"

definition verify_extended_commit_signature ::
  "primitives \<Rightarrow> sig_suite \<Rightarrow> identity_public_key \<Rightarrow> extended_commit_content \<Rightarrow> hybrid_signature \<Rightarrow> unit result" where
  "verify_extended_commit_signature p g identity_public c signature =
     verify_with_context p g (ipk_signing identity_public) (extended_to_bytes c) COMMIT_SIGN_CONTEXT signature"

section \<open>Path updates on the wire\<close>

record encrypted_seed =
  recipient_position :: u32
  sd_encapsulation :: bytes
  sd_ciphertext :: bytes

record path_update =
  pu_index :: node_index
  pu_public_key :: bytes
  pu_parent_hash :: "bytes \<times> bytes"
  pu_seeds :: "encrypted_seed list"

definition seed_to_wire :: "recipient_seed \<Rightarrow> encrypted_seed" where
  "seed_to_wire r = \<lparr>recipient_position = position (recipient_index r),
     sd_encapsulation = encapsulation_to_bytes (es_encapsulation (rs_encrypted r)),
     sd_ciphertext = es_ciphertext (rs_encrypted r)\<rparr>"

definition to_wire :: "node_update \<Rightarrow> path_update" where
  "to_wire u = \<lparr>pu_index = nu_index u, pu_public_key = kem_pk_to_bytes (nu_public_key u),
     pu_parent_hash = nu_parent_hash u, pu_seeds = map seed_to_wire (nu_seeds u)\<rparr>"

definition saturating_add :: "nat \<Rightarrow> nat \<Rightarrow> nat" where
  "saturating_add a b = min (a + b) USIZE_MAX"

definition path_updates_wire_len :: "path_update list \<Rightarrow> nat" where
  "path_updates_wire_len us = foldl (\<lambda>total u.
     foldl (\<lambda>t s. saturating_add (saturating_add t (length (sd_encapsulation s))) (length (sd_ciphertext s)))
       (saturating_add total (length (pu_public_key u))) (pu_seeds u)) 0 us"

text \<open>\<open>len() as u32\<close> truncates.\<close>

definition le_len :: "'a list \<Rightarrow> bytes" where
  "le_len xs = le_bytes 4 (of_nat (length xs) :: u32)"

definition serialise_seed :: "encrypted_seed \<Rightarrow> bytes" where
  "serialise_seed s = le_bytes 4 (recipient_position s) @ le_len (sd_encapsulation s) @ sd_encapsulation s
     @ le_len (sd_ciphertext s) @ sd_ciphertext s"

definition serialise_path_update :: "path_update \<Rightarrow> bytes" where
  "serialise_path_update u = le_bytes 4 (depth (pu_index u)) @ le_bytes 4 (position (pu_index u))
     @ le_len (pu_public_key u) @ pu_public_key u @ fst (pu_parent_hash u) @ snd (pu_parent_hash u)
     @ le_len (pu_seeds u) @ concat (map serialise_seed (pu_seeds u))"

definition serialise_path_updates :: "path_update list \<Rightarrow> bytes" where
  "serialise_path_updates us = concat (map serialise_path_update us)"

text \<open>The wire carries only the position of a recipient: its depth becomes that of the path node.\<close>

definition seed_from_wire :: "u32 \<Rightarrow> encrypted_seed \<Rightarrow> recipient_seed result" where
  "seed_from_wire node_depth es =
     tryR (encapsulation_from_bytes (sd_encapsulation es)) (\<lambda>e.
     if length (sd_ciphertext es) \<noteq> ENCRYPTED_SEED_CIPHERTEXT_SIZE then Inl MalformedMessage
     else Inr \<lparr>recipient_index = leaf node_depth (recipient_position es),
       rs_encrypted = \<lparr>es_encapsulation = e, es_ciphertext = sd_ciphertext es\<rparr>\<rparr>)"

fun try_map :: "('a \<Rightarrow> 'b result) \<Rightarrow> 'a list \<Rightarrow> 'b list result" where
  "try_map f [] = Inr []"
| "try_map f (x # xs) = tryR (f x) (\<lambda>y. tryR (try_map f xs) (\<lambda>ys. Inr (y # ys)))"

definition update_from_wire :: "path_update \<Rightarrow> node_update result" where
  "update_from_wire pu =
     tryR (kem_pk_from_bytes (pu_public_key pu)) (\<lambda>pk.
     tryR (try_map (seed_from_wire (depth (pu_index pu))) (pu_seeds pu)) (\<lambda>seeds.
     Inr \<lparr>nu_index = pu_index pu, nu_public_key = pk, nu_parent_hash = pu_parent_hash pu, nu_seeds = seeds\<rparr>))"

definition convert_path_updates_to_node_updates :: "path_update list \<Rightarrow> node_update list result" where
  "convert_path_updates_to_node_updates us = try_map update_from_wire us"

text \<open>Additions and removals accept an empty path and take the zero seed for it; they pass position 0
  for the committer's leaf.\<close>

definition delta_root_of ::
  "primitives \<Rightarrow> (bytes \<Rightarrow> bytes outcome) \<Rightarrow> node_update list \<Rightarrow> cocoa_session \<Rightarrow> bytes outcome" where
  "delta_root_of p sg node_updates s =
     (if node_updates = [] then Done zero32
      else apply_path_updates p sg node_updates (our_keypair s) (our_leaf_position s) 0)"

section \<open>What a committer reads from its tree\<close>

fun compute_resolution_sets_and_keys ::
  "tree_view \<Rightarrow> node_index list \<Rightarrow> (node_index list list \<times> kem_public_key list list) option" where
  "compute_resolution_sets_and_keys tree [] = Some ([], [])"
| "compute_resolution_sets_and_keys tree (path_node # path) = do {
     resolution \<leftarrow> compute_lj (view_get tree) (view_depth tree) path_node (unmerged_indices tree);
     keys \<leftarrow> keys_of tree resolution;
     (sets, keyss) \<leftarrow> compute_resolution_sets_and_keys tree path;
     Some (resolution # sets, keys # keyss) }"

text \<open>\<open>add.rs\<close> and \<open>remove.rs\<close> pair the nodes of a resolution with their keys, without those they skip.\<close>

fun keyed_nodes :: "(node_index \<Rightarrow> bool option) \<Rightarrow> tree_view \<Rightarrow> node_index list \<Rightarrow> (node_index \<times> kem_public_key) list option" where
  "keyed_nodes skip tree [] = Some []"
| "keyed_nodes skip tree (i # is) = do {
     skipped \<leftarrow> skip i;
     if skipped then keyed_nodes skip tree is
     else do {
       found \<leftarrow> view_get tree i;
       rest \<leftarrow> keyed_nodes skip tree is;
       Some (case Option.bind found (\<lambda>n. state_public_key (node_st n)) of Some pk \<Rightarrow> (i, pk) # rest | None \<Rightarrow> rest) } }"

fun labels_of :: "primitives \<Rightarrow> tree_view \<Rightarrow> node_index list \<Rightarrow> bytes list outcome" where
  "labels_of p tree [] = Done []"
| "labels_of p tree (i # is) =
     bind_out (sibling_label p tree i) (\<lambda>l. bind_out (labels_of p tree is) (\<lambda>ls. Done (l # ls)))"

definition compute_sibling_labels :: "primitives \<Rightarrow> tree_view \<Rightarrow> node_index list \<Rightarrow> bytes list outcome" where
  "compute_sibling_labels p tree path = labels_of p tree (drop 1 path)"

definition compute_root_label :: "primitives \<Rightarrow> bytes list \<Rightarrow> bytes" where
  "compute_root_label p path_seeds =
     (if path_seeds = [] then zero32 else derive_key p ROOT_LABEL_CONTEXT (last path_seeds))"

definition commit_confirmation_tag :: "primitives \<Rightarrow> bytes \<Rightarrow> bytes \<Rightarrow> u64 \<Rightarrow> bytes" where
  "commit_confirmation_tag p delta_root transcript n =
     derive_key p CONFIRMATION_TAG_CONTEXT (delta_root @ transcript @ le_bytes 8 n)"

definition derive_user_id_from_identity :: "primitives \<Rightarrow> identity_public_key \<Rightarrow> user_id" where
  "derive_user_id_from_identity p identity = derive_key p USER_ID_CONTEXT (identity_pk_to_bytes identity)"

section \<open>What a commit writes\<close>

definition write_path_update ::
  "bytes \<Rightarrow> u64 \<Rightarrow> hybrid_signature \<Rightarrow> user_id \<Rightarrow> path_update \<Rightarrow> tree_view \<Rightarrow> tree_view option" where
  "write_path_update transcript epoch_number commit_signature updater_id pu tree =
     (case kem_pk_from_bytes (pu_public_key pu) of
        Inl _ \<Rightarrow> Some tree
      | Inr pk \<Rightarrow> do {
          found \<leftarrow> view_get tree (pu_index pu);
          n \<leftarrow> checked_add epoch_number 1;
          view_insert (new_populated (pu_index pu) pk (Option.bind found (\<lambda>node. state_public_key (node_st node)))
            (pu_parent_hash pu) updater_id commit_signature transcript zero32
            \<lparr>origin_epoch = n, origin_sequence = 0, origin_timestamp = 0\<rparr>) tree })"

fun write_path_updates ::
  "bytes \<Rightarrow> u64 \<Rightarrow> hybrid_signature \<Rightarrow> user_id \<Rightarrow> path_update list \<Rightarrow> tree_view \<Rightarrow> tree_view option" where
  "write_path_updates transcript n sg uid [] tree = Some tree"
| "write_path_updates transcript n sg uid (pu # pus) tree =
     Option.bind (write_path_update transcript n sg uid pu tree) (write_path_updates transcript n sg uid pus)"

definition update_tree_from_path_updates ::
  "path_update list \<Rightarrow> hybrid_signature \<Rightarrow> user_id \<Rightarrow> cocoa_session \<Rightarrow> cocoa_session option" where
  "update_tree_from_path_updates pus sg uid s = map_option (\<lambda>t. s\<lparr>session_tree := t\<rparr>)
     (write_path_updates (transcript_hash s) (session_epoch_number s) sg uid pus (session_tree s))"

text \<open>The loops walk from a leaf to the root by \<open>parent\<close>, which is \<open>path_up\<close>.\<close>

fun along :: "(node_index \<Rightarrow> tree_view \<Rightarrow> tree_view option) \<Rightarrow> node_index list \<Rightarrow> tree_view \<Rightarrow> tree_view option" where
  "along f [] tree = Some tree"
| "along f (i # is) tree = Option.bind (f i tree) (along f is)"

definition clear_unmerged_on_path :: "u32 \<Rightarrow> cocoa_session \<Rightarrow> cocoa_session option" where
  "clear_unmerged_on_path updater_leaf_position s = map_option (\<lambda>t. s\<lparr>session_tree := t\<rparr>)
     (along (\<lambda>i. view_remove_unmerged i (our_leaf_position s))
       (path_up (leaf (view_depth (session_tree s)) updater_leaf_position)) (session_tree s))"

definition mark_unmerged :: "u32 \<Rightarrow> node_index \<Rightarrow> tree_view \<Rightarrow> tree_view option" where
  "mark_unmerged leaf_position i tree = do {
     found \<leftarrow> view_get tree i;
     (case found of
        Some node \<Rightarrow> if is_blank (node_st node) then view_add_unmerged i leaf_position tree else Some tree
      | None \<Rightarrow> Some tree) }"

definition mark_member_as_unmerged :: "u32 \<Rightarrow> cocoa_session \<Rightarrow> cocoa_session option" where
  "mark_member_as_unmerged leaf_position s = map_option (\<lambda>t. s\<lparr>session_tree := t\<rparr>)
     (along (mark_unmerged leaf_position) (path_up (leaf (view_depth (session_tree s)) leaf_position)) (session_tree s))"

text \<open>\<open>get(leaf).is_some_and(|node| node.state.is_blank())\<close>.\<close>

definition leaf_is_blank :: "tree_view \<Rightarrow> u32 \<Rightarrow> bool option" where
  "leaf_is_blank tree pos = map_option (\<lambda>found. case found of Some node \<Rightarrow> is_blank (node_st node) | None \<Rightarrow> False)
     (view_get tree (leaf (view_depth tree) pos))"

section \<open>Lemmas on steps\<close>

named_theorems act_simps "what a sequence of steps returns"

lemma act_bind_iff [act_simps]:
  "act_bind m k s = Some (Inr y, s') \<longleftrightarrow> (\<exists>x t. m s = Some (Inr x, t) \<and> k x t = Some (Inr y, s'))"
  "act_bind m k s = Some (Inl e, s') \<longleftrightarrow>
     m s = Some (Inl e, s') \<or> (\<exists>x t. m s = Some (Inr x, t) \<and> k x t = Some (Inl e, s'))"
  by (auto simp: act_bind_def split: option.splits sum.splits)

lemma act_out_iff [act_simps]:
  "act_out r s = Some (Inr x, s') \<longleftrightarrow> r = Done x \<and> s' = s"
  "act_out r s = Some (Inl e, s') \<longleftrightarrow> r = Fail e \<and> s' = s"
  by (auto simp: act_out_def split: outcome.splits)

lemma act_modify_iff [act_simps]:
  "act_modify f s = Some (Inr u, s') \<longleftrightarrow> f s = Some s'"
  "act_modify f s \<noteq> Some (Inl e, s')"
  by (auto simp: act_modify_def)

lemma require_iff [simp]:
  "require b e = Done u \<longleftrightarrow> b" "require b e = Fail e' \<longleftrightarrow> \<not> b \<and> e' = e" "require b e \<noteq> Panic"
  by (auto simp: require_def)

lemma rotate_iff [act_simps]:
  "session_rotate_keypair g s = Some (Inr u, s') \<longleftrightarrow> (\<exists>kp. g = Done kp \<and> s' = s\<lparr>our_keypair := kp\<rparr>)"
  "session_rotate_keypair g s = Some (Inl e, s') \<longleftrightarrow> g = Fail e \<and> s' = s"
  by (auto simp: session_rotate_keypair_def split: outcome.splits)

section \<open>The signed content\<close>

definition content_wf :: "commit_content \<Rightarrow> bool" where
  "content_wf c \<longleftrightarrow> length (co_group_id c) = 32 \<and> length (co_round_hash c) = 32
     \<and> length (co_path_updates_hash c) = 32 \<and> length (co_user_id c) = 32"

lemma commit_type_codec:
  "commit_type_from_byte b = Inr t \<longleftrightarrow> b = commit_type_as_byte t"
  "commit_type_from_byte (commit_type_as_byte t) = Inr t"
  by (cases t; auto simp: commit_type_from_byte_def)+

lemma be_round_trips:
  "be_word (be_bytes 8 (c :: u64)) = c" "length bs = 8 \<Longrightarrow> be_bytes 8 (be_word bs :: u64) = bs"
  using le_bytes_round_trips(3) [of c] le_bytes_le_word [of "rev bs", where 'a = 64]
  by (simp_all add: be_word_def be_bytes_def)

lemma le_round_trip_4: "length bs = 4 \<Longrightarrow> le_bytes 4 (le_word bs :: u32) = bs"
  using le_bytes_le_word [of bs, where 'a = 32] by simp

lemma slice_concat:
  assumes "i \<le> j" and "j \<le> k"
  shows "sub_slice i j xs @ sub_slice j k xs = sub_slice i k xs"
proof -
  have "k - i = (j - i) + (k - j)" "drop (j - i) (drop i xs) = drop j xs" using assms by simp_all
  then show ?thesis by (simp only: sub_slice_def take_add)
qed

interpretation content: strict_codec content_to_bytes content_from_bytes content_wf
proof
  fix c
  assume "content_wf c"
  then show "content_from_bytes (content_to_bytes c) = Inr c"
    by (simp add: content_wf_def content_from_bytes_def content_to_bytes_def COMMIT_CONTENT_SIZE_def
        nth_append slice_append_skip sub_slice_def commit_type_codec(2) be_round_trips le_word_le_bytes)
next
  fix bs c
  assume "content_from_bytes bs = Inr c"
  then obtain t where len: "length bs = 141" and t: "bs ! 40 = commit_type_as_byte t"
    and c: "c = \<lparr>co_group_id = sub_slice 0 32 bs, co_epoch = be_word (sub_slice 32 40 bs), co_type = t,
          co_round_hash = sub_slice 41 73 bs, co_path_updates_hash = sub_slice 73 105 bs,
          co_leaf_position = le_word (sub_slice 105 109 bs), co_user_id = sub_slice 109 141 bs\<rparr>"
    by (auto simp: content_from_bytes_def COMMIT_CONTENT_SIZE_def try_simps commit_type_codec(1) split: if_splits)
  have "sub_slice 40 41 bs = [bs ! 40]"
    using len by (simp add: sub_slice_def take_Suc hd_drop_conv_nth)
  then have "content_to_bytes c = sub_slice 0 32 bs @ sub_slice 32 40 bs @ sub_slice 40 41 bs @ sub_slice 41 73 bs
      @ sub_slice 73 105 bs @ sub_slice 105 109 bs @ sub_slice 109 141 bs"
    using len t by (simp add: content_to_bytes_def c be_round_trips le_round_trip_4 length_sub_slice)
  also have "\<dots> = sub_slice 0 141 bs" by (simp add: slice_concat)
  also have "\<dots> = bs" using len by (simp add: sub_slice_def)
  finally show "content_wf c \<and> content_to_bytes c = bs"
    using len by (simp add: content_wf_def c length_sub_slice)
qed

section \<open>Conversion from the wire\<close>

definition rewired :: "node_update \<Rightarrow> node_update" where
  "rewired u = u\<lparr>nu_seeds := map (\<lambda>r. r\<lparr>recipient_index := leaf (depth (nu_index u)) (position (recipient_index r))\<rparr>)
     (nu_seeds u)\<rparr>"

definition wire_ok :: "node_update \<Rightarrow> bool" where
  "wire_ok u \<longleftrightarrow> public_key_valid (nu_public_key u) \<and> (\<forall>r \<in> set (nu_seeds u).
     encapsulation_wf (es_encapsulation (rs_encrypted r)) \<and> length (es_ciphertext (rs_encrypted r)) = 80)"

lemma try_map_Inr: "(\<And>x. x \<in> set xs \<Longrightarrow> f x = Inr (g x)) \<Longrightarrow> try_map f xs = Inr (map g xs)"
  by (induction xs) auto

lemma try_map_wire:
  "(\<And>r. r \<in> set rs \<Longrightarrow> f (g r) = Inr (h r)) \<Longrightarrow> try_map f (map g rs) = Inr (map h rs)"
  by (induction rs) auto

lemma convert_to_wire:
  assumes "\<forall>u \<in> set us. wire_ok u"
  shows "convert_path_updates_to_node_updates (map to_wire us) = Inr (map rewired us)"
proof -
  have seed: "seed_from_wire d (seed_to_wire r) = Inr (r\<lparr>recipient_index := leaf d (position (recipient_index r))\<rparr>)"
    if "encapsulation_wf (es_encapsulation (rs_encrypted r)) \<and> length (es_ciphertext (rs_encrypted r)) = 80" for d r
    using that encapsulation.decodes [of "es_encapsulation (rs_encrypted r)"]
    by (simp add: seed_from_wire_def seed_to_wire_def ENCRYPTED_SEED_CIPHERTEXT_SIZE_def SEED_SIZE_def)
  have "update_from_wire (to_wire u) = Inr (rewired u)" if u: "u \<in> set us" for u
  proof -
    have ok: "wire_ok u" using assms u by blast
    then have "try_map (seed_from_wire (depth (nu_index u))) (map seed_to_wire (nu_seeds u))
        = Inr (map (\<lambda>r. r\<lparr>recipient_index := leaf (depth (nu_index u)) (position (recipient_index r))\<rparr>) (nu_seeds u))"
      using seed by (simp add: wire_ok_def try_map_wire)
    with ok kem_pk.decodes [of "nu_public_key u"] show ?thesis
      by (simp add: update_from_wire_def to_wire_def rewired_def wire_ok_def)
  qed
  then have "try_map update_from_wire (map to_wire us) = Inr (map rewired us)" by (induction us) auto
  then show ?thesis by (simp add: convert_path_updates_to_node_updates_def)
qed

lemma rewired_facts [simp]:
  "nu_index (rewired u) = nu_index u" "nu_public_key (rewired u) = nu_public_key u"
  "nu_parent_hash (rewired u) = nu_parent_hash u"
  "rs_encrypted ` set (nu_seeds (rewired u)) = rs_encrypted ` set (nu_seeds u)"
  by (simp_all add: rewired_def image_image)

lemma same_level_rewired: "same_level u (rewired u)"
  by (simp add: same_level_def rewired_def leaf_def node_new_def)

lemma list_all2_rewired: "list_all2 same_level us (map rewired us)"
  by (simp add: list_all2_conv_all_nth same_level_rewired)

lemma encrypted_of_rewired: "(\<forall>r \<in> set (nu_seeds (rewired u)). P (rs_encrypted r)) \<longleftrightarrow> (\<forall>r \<in> set (nu_seeds u). P (rs_encrypted r))"
  by (simp add: rewired_def)

lemma carries_rewired: "carries p sg seeds (map rewired us) \<longleftrightarrow> carries p sg seeds us"
proof -
  have "(\<forall>r \<in> set (nu_seeds (rewired u)). encrypts p s (nu_index u) r) \<longleftrightarrow> (\<forall>r \<in> set (nu_seeds u). encrypts p s (nu_index u) r)" for s u
    using encrypted_of_rewired [of u "\<lambda>e. \<exists>coins pk. encrypt_seed_to_recipient p coins s pk (nu_index u) = Done e"]
    by (simp add: encrypts_def)
  then show ?thesis by (auto simp: carries_def list_all2_map2 hd_map)
qed

lemma opens_rewired: "opens p kp (rewired u) \<longleftrightarrow> opens p kp u"
  by (auto simp: opens_def rewired_def)

lemma stray_rewired: "stray p kp (map rewired us) \<longleftrightarrow> stray p kp us"
  by (auto simp: stray_def rewired_def)

section \<open>Trees with the same nodes\<close>

definition same_tree :: "tree_view \<Rightarrow> tree_view \<Rightarrow> bool" where
  "same_tree t t' \<longleftrightarrow> view_nodes t = view_nodes t' \<and> view_depth t = view_depth t' \<and> view_member_count t = view_member_count t'"

lemma same_tree_reads:
  assumes "same_tree t t'"
  shows "view_get t = view_get t'" "unmerged_indices t = unmerged_indices t'" "sibling_label p t = sibling_label p t'"
    "keys_of t is = keys_of t' is" "compute_resolution_sets_and_keys t is = compute_resolution_sets_and_keys t' is"
    "labels_of p t is = labels_of p t' is"
proof -
  show get: "view_get t = view_get t'" using assms by (intro ext) (simp add: same_tree_def view_get_def)
  have d: "view_depth t = view_depth t'" using assms by (simp add: same_tree_def)
  show um: "unmerged_indices t = unmerged_indices t'" by (intro ext) (simp only: unmerged_indices_def get d)
  show sl: "sibling_label p t = sibling_label p t'" by (intro ext) (simp only: sibling_label_def node_public_key_def get)
  have ko: "keys_of t js = keys_of t' js" for js by (induction js) (simp_all add: get)
  then show "keys_of t is = keys_of t' is" .
  show "compute_resolution_sets_and_keys t is = compute_resolution_sets_and_keys t' is"
    by (induction "is") (simp_all add: get d um ko)
  show "labels_of p t is = labels_of p t' is" by (induction "is") (simp_all add: sl)
qed

lemma resolution_sets_nth:
  assumes "compute_resolution_sets_and_keys t path = Some (sets, keys)"
  shows "length sets = length path \<and> length keys = length path \<and> (\<forall>k < length path.
    compute_lj (view_get t) (view_depth t) (path ! k) (unmerged_indices t) = Some (sets ! k) \<and> keys_of t (sets ! k) = Some (keys ! k))"
  using assms
proof (induction path arbitrary: sets keys)
  case (Cons i path)
  then show ?case by (fastforce simp: bind_eq_Some_conv nth_Cons split: nat.splits)
qed simp

lemma labels_nth:
  assumes "labels_of p t is = Done ls"
  shows "length ls = length is \<and> (\<forall>k < length is. sibling_label p t (is ! k) = Done (ls ! k))"
  using assms
proof (induction "is" arbitrary: ls)
  case (Cons i "is")
  then show ?case by (fastforce simp: bind_out_eq_Done nth_Cons split: nat.splits)
qed simp

section \<open>What a built path gives its receivers\<close>

definition seeded_keys_valid :: "primitives \<Rightarrow> (bytes \<Rightarrow> bytes outcome) \<Rightarrow> bool" where
  "seeded_keys_valid p sg \<longleftrightarrow> (\<forall>seed kp. derive_node_keypair p sg seed = Done kp \<longrightarrow> public_key_valid (kp_public kp))"

lemma unat_of_nat_32: "k < 32 \<Longrightarrow> unat (of_nat k :: u32) = k"
  by (simp add: unsigned_of_nat take_bit_nat_eq_self)

lemma path_node_index:
  assumes "checked_sub td (of_nat k) = Some d" and "checked_shr pos (of_nat k) = Some q" and "k \<le> unat td" and "unat td < 32"
  shows "node_new d q = path_up (leaf td pos) ! k"
proof -
  have k: "unat (of_nat k :: u32) = k" using assms(3,4) by (intro unat_of_nat_32) simp
  have "up k (leaf td pos) = Some (path_up (leaf td pos) ! k)"
    using assms(3) by (intro path_up_nth) (simp add: ndepth_def leaf_def node_new_def)
  then have "ndepth (path_up (leaf td pos) ! k) = unat td - k" "npos (path_up (leaf td pos) ! k) = unat pos div 2 ^ k"
    by (simp_all add: up_eq_Some ndepth_def npos_def leaf_def node_new_def)
  moreover have "unat d = unat td - k" "unat q = unat pos div 2 ^ k"
    using checked_sub_Some [OF assms(1)] checked_shr_Some [OF assms(2)] by (simp_all add: k)
  ultimately show ?thesis by (intro node_index_eqI) (simp_all add: ndepth_def npos_def node_new_def)
qed

lemma encrypted_wire_ok:
  assumes "prims_ok p" and "kem_coins_ok coins" and "encrypt_seed_to_recipient p coins seed pk i = Done e"
  shows "encapsulation_wf (es_encapsulation e) \<and> length (es_ciphertext e) = 80"
proof -
  obtain k where "kem_encapsulate p coins pk = Done (k, es_encapsulation e)" "length (es_ciphertext e) = 80"
    using encrypt_seed_Done [OF assms(3)] by blast
  with encapsulate_wf [OF assms(1,2)] show ?thesis by blast
qed

lemma built_path:
  assumes p: "prims_ok p" "seeded_keys_valid p sg" and coins: "\<forall>l j. kem_coins_ok (coins l j)"
    and seed: "length leaf_seed = 32" and td: "unat td < 32"
    and b: "build_path_updates_with_seeds p sg coins td pos (derive_path_seeds p leaf_seed n) sets keys labels = Done r"
    and n: "n = Suc (unat td)"
  shows "length (pr_updates r) = n" "pr_delta_root r = last (derive_path_seeds p leaf_seed n)"
    "carries p sg (derive_path_seeds p leaf_seed n) (pr_updates r)"
    "\<forall>u \<in> set (pr_updates r). wire_ok u"
    "\<forall>k < n. nu_index (pr_updates r ! k) = path_up (leaf td pos) ! k"
    "kem_pair p kp pk \<Longrightarrow> ks \<in> set keys \<Longrightarrow> pk \<in> set ks \<Longrightarrow> \<exists>u \<in> set (pr_updates r). opens p kp u"
proof -
  let ?seeds = "derive_path_seeds p leaf_seed n"
  have ls: "length sets = n" "length keys = n" and bl: "build_levels p sg coins td pos sets keys labels 0 zero32 [] ?seeds = Done (pr_updates r)"
    and "pr_delta_root r = (if ?seeds = [] then zero32 else last ?seeds)"
    using b by (auto simp: build_path_updates_with_seeds_def Let_def bind_out_eq_Done split: if_splits)
  then show "pr_delta_root r = last ?seeds" using length_derive_path_seeds [of p leaf_seed n] n by auto
  note nth = build_levels_nth [OF bl, unfolded length_derive_path_seeds add_0]
  show len: "length (pr_updates r) = n" using nth by simp
  have level: "\<exists>d q kp es. checked_sub td (of_nat k) = Some d \<and> checked_shr pos (of_nat k) = Some q
      \<and> derive_node_keypair p sg (?seeds ! k) = Done kp
      \<and> nu_index (pr_updates r ! k) = node_new d q \<and> nu_public_key (pr_updates r ! k) = kp_public kp
      \<and> length (sets ! k) = length (keys ! k) \<and> length es = length (keys ! k)
      \<and> (\<forall>j < length (keys ! k). encrypt_seed_to_recipient p (coins k j) (?seeds ! k) (keys ! k ! j) (node_new d q) = Done (es ! j))
      \<and> nu_seeds (pr_updates r ! k) = map (\<lambda>(r, e). \<lparr>recipient_index = r, rs_encrypted = e\<rparr>) (zip (sets ! k) es)
      \<and> (k = 0 \<longrightarrow> nu_parent_hash (pr_updates r ! k) = (zero32, zero32))" if k: "k < n" for k
  proof -
    from nth k obtain d q kp es where l: "checked_sub td (of_nat k) = Some d" "checked_shr pos (of_nat k) = Some q"
      "derive_node_keypair p sg (?seeds ! k) = Done kp"
      "nu_index (pr_updates r ! k) = node_new d q" "nu_public_key (pr_updates r ! k) = kp_public kp"
      "length (sets ! k) = length (keys ! k)"
      "encrypt_each p (coins k) (?seeds ! k) 0 (keys ! k) (node_new d q) = Done es"
      "nu_seeds (pr_updates r ! k) = map (\<lambda>(r, e). \<lparr>recipient_index = r, rs_encrypted = e\<rparr>) (zip (sets ! k) es)"
      "k = 0 \<longrightarrow> nu_parent_hash (pr_updates r ! k) = (zero32, zero32)" by blast
    show ?thesis
      using l encrypt_each_nth [OF l(7)]
      by (intro exI [of _ d] exI [of _ q] exI [of _ kp] exI [of _ es]) simp
  qed
  have seeds_of: "\<exists>j < length (keys ! k). encrypt_seed_to_recipient p (coins k j) (?seeds ! k) (keys ! k ! j) (nu_index (pr_updates r ! k)) = Done (rs_encrypted x)"
    if "k < n" "x \<in> set (nu_seeds (pr_updates r ! k))" for k x
    using level [OF that(1)] that(2) by (auto simp: in_set_conv_nth)
  show "\<forall>u \<in> set (pr_updates r). wire_ok u"
  proof
    fix u
    assume "u \<in> set (pr_updates r)"
    then obtain k where k: "k < n" "u = pr_updates r ! k" using len by (metis in_set_conv_nth)
    have "public_key_valid (nu_public_key u)" using level [OF k(1)] p(2) k(2) by (auto simp: seeded_keys_valid_def)
    moreover have "encapsulation_wf (es_encapsulation (rs_encrypted x)) \<and> length (es_ciphertext (rs_encrypted x)) = 80"
      if "x \<in> set (nu_seeds u)" for x
      using seeds_of [OF k(1)] that k(2) encrypted_wire_ok [OF p(1)] coins by metis
    ultimately show "wire_ok u" by (simp add: wire_ok_def)
  qed
  have enc: "\<forall>x \<in> set (nu_seeds (pr_updates r ! k)). encrypts p (?seeds ! k) (nu_index (pr_updates r ! k)) x" if "k < n" for k
    using seeds_of [OF that] unfolding encrypts_def by blast
  have key: "\<exists>kp. derive_node_keypair p sg (?seeds ! k) = Done kp \<and> nu_public_key (pr_updates r ! k) = kp_public kp" if "k < n" for k
    using level [OF that] by blast
  have "nu_parent_hash (hd (pr_updates r)) = (zero32, zero32)"
    using level [of 0] n len by (metis hd_conv_nth length_0_conv nat.simps(3) zero_less_Suc)
  then show "carries p sg ?seeds (pr_updates r)"
    using enc key len by (simp add: carries_def list_all2_conv_all_nth)
  show "\<forall>k < n. nu_index (pr_updates r ! k) = path_up (leaf td pos) ! k"
  proof (intro allI impI)
    fix k
    assume k: "k < n"
    from level [OF this] obtain d q where dq: "checked_sub td (of_nat k) = Some d" "checked_shr pos (of_nat k) = Some q"
      "nu_index (pr_updates r ! k) = node_new d q" by blast
    show "nu_index (pr_updates r ! k) = path_up (leaf td pos) ! k"
      using path_node_index [OF dq(1,2)] dq(3) k n td by simp
  qed
  show "\<exists>u \<in> set (pr_updates r). opens p kp u" if kp: "kem_pair p kp pk" and ks: "ks \<in> set keys" "pk \<in> set ks"
  proof -
    obtain k j where k: "k < n" "ks = keys ! k" and j: "j < length ks" "pk = ks ! j"
      using ks ls(2) by (metis in_set_conv_nth)
    from level [OF k(1)] obtain d q es where l: "nu_index (pr_updates r ! k) = node_new d q"
      "length (sets ! k) = length ks" "length es = length ks"
      "\<forall>j < length ks. encrypt_seed_to_recipient p (coins k j) (?seeds ! k) (ks ! j) (node_new d q) = Done (es ! j)"
      "nu_seeds (pr_updates r ! k) = map (\<lambda>(r, e). \<lparr>recipient_index = r, rs_encrypted = e\<rparr>) (zip (sets ! k) es)"
      unfolding k(2) by blast
    have "length (?seeds ! k) = 32"
      by (rule length_path_seed [OF p(1) seed, of _ n]) (simp add: k(1))
    then have "decrypt_seed p (es ! j) kp (node_new d q) = Done (?seeds ! k)"
      using decrypt_encrypted_seed [OF kp, of "coins k j" "?seeds ! k" "node_new d q" "es ! j"] coins l(4) j by simp
    moreover have "\<lparr>recipient_index = sets ! k ! j, rs_encrypted = es ! j\<rparr> \<in> set (nu_seeds (pr_updates r ! k))"
      unfolding l(5) using l(2,3) j(1) by (force simp: in_set_conv_nth)
    ultimately have "opens p kp (pr_updates r ! k)"
      unfolding opens_def l(1) by (metis recipient_seed.select_convs(2))
    then show ?thesis using k(1) len by auto
  qed
qed

text \<open>A path built for a leaf of the receiver's tree converts, verifies against that tree whatever the
  depth of the recipients was, and delivers its root seed to the holder of a recipient key.\<close>

lemma path_accepted:
  assumes p: "prims_ok p" "seeded_keys_valid p sg" and coins: "\<forall>l j. kem_coins_ok (coins l j)"
    and seed: "length leaf_seed = 32" and td: "unat td < 32"
    and b: "build_path_updates_with_seeds p sg coins td pos (derive_path_seeds p leaf_seed (Suc (unat td))) sets keys labels = Done r"
    and m: "\<And>k. 0 < k \<Longrightarrow> k \<le> unat td \<Longrightarrow> level_matches p tree sets keys labels k (path_up (leaf td pos) ! k)"
    and kp: "kem_pair p kp pk" "ks \<in> set keys" "pk \<in> set ks"
  shows "convert_path_updates_to_node_updates (map to_wire (pr_updates r)) = Inr (map rewired (pr_updates r))"
    "verify_parent_hashes p tree (map rewired (pr_updates r)) = Done ()"
    "apply_path_updates p sg (map rewired (pr_updates r)) kp our committer = Done (pr_delta_root r) \<or> stray p kp (pr_updates r)"
    "pr_delta_root r = last (derive_path_seeds p leaf_seed (Suc (unat td)))"
    "map pu_index (map to_wire (pr_updates r)) = path_up (leaf td pos)"
proof -
  let ?n = "Suc (unat td)"
  note bp = built_path [OF p coins seed td b refl]
  show "convert_path_updates_to_node_updates (map to_wire (pr_updates r)) = Inr (map rewired (pr_updates r))"
    by (rule convert_to_wire [OF bp(4)])
  show "pr_delta_root r = last (derive_path_seeds p leaf_seed ?n)" by (rule bp(2))
  have lv: "build_levels p sg coins td pos sets keys labels 0 zero32 [] (derive_path_seeds p leaf_seed ?n) = Done (pr_updates r)"
    using b by (auto simp: build_path_updates_with_seeds_def Let_def bind_out_eq_Done split: if_splits)
  have idx: "nu_index (pr_updates r ! k) = path_up (leaf td pos) ! k" if "k < ?n" for k
    using bp(5) that by blast
  have "\<forall>k < length (pr_updates r). 0 + k > 0 \<longrightarrow> level_matches p tree sets keys labels (0 + k) (nu_index (pr_updates r ! k))"
    using idx m bp(1) by simp
  then show "verify_parent_hashes p tree (map rewired (pr_updates r)) = Done ()"
    unfolding verify_parent_hashes_def by (rule build_levels_verify [OF lv list_all2_rewired])
  obtain u where "u \<in> set (pr_updates r)" "opens p kp u" using bp(6) [OF kp] by blast
  then have "\<exists>u \<in> set (map rewired (pr_updates r)). opens p kp u" using opens_rewired by auto
  from path_delivers [OF kp(1) _ this] bp(3)
  show "apply_path_updates p sg (map rewired (pr_updates r)) kp our committer = Done (pr_delta_root r) \<or> stray p kp (pr_updates r)"
    unfolding bp(2) carries_rewired stray_rewired by blast
  show "map pu_index (map to_wire (pr_updates r)) = path_up (leaf td pos)"
    by (rule nth_equalityI) (simp_all add: bp(1) idx to_wire_def)
qed

section \<open>What a commit writes cannot panic\<close>

definition keeps_shape :: "tree_view \<Rightarrow> tree_view \<Rightarrow> bool" where
  "keeps_shape t t' \<longleftrightarrow> view_ok t' \<and> view_depth t' = view_depth t \<and> view_member_count t' = view_member_count t"

lemma along_total:
  assumes "\<And>i t. i \<in> set is \<Longrightarrow> keeps_shape t0 t \<Longrightarrow> \<exists>t'. f i t = Some t' \<and> keeps_shape t0 t'" and "keeps_shape t0 t"
  shows "\<exists>t'. along f is t = Some t' \<and> keeps_shape t0 t'"
  using assms
proof (induction "is" arbitrary: t)
  case (Cons i "is")
  obtain t1 where t1: "f i t = Some t1" "keeps_shape t0 t1" using Cons.prems(1) [of i t] Cons.prems(2) by auto
  have "\<exists>t'. along f is t1 = Some t' \<and> keeps_shape t0 t'" by (rule Cons.IH) (auto intro: Cons.prems(1) t1(2))
  with t1(1) show ?case by simp
qed simp

lemma modify_total:
  assumes "valid_index i" and "keeps_shape t0 t" and "\<And>s. unmerged_ok s \<Longrightarrow> unmerged_ok (f s)"
  shows "\<exists>t'. view_modify i f t = Some t' \<and> keeps_shape t0 t'"
proof -
  obtain t' where t': "view_modify i f t = Some t'" using store.modify_get [OF assms(1), of f t] by blast
  moreover have "view_ok t'"
    using assms(2) by (intro view_modify_ok [OF _ assms(3) t']) (simp add: keeps_shape_def)
  moreover have "view_depth t' = view_depth t" "view_member_count t' = view_member_count t"
    using t' by (auto simp: view_modify_def split: option.splits)
  ultimately show ?thesis using assms(2) by (simp add: keeps_shape_def)
qed

lemma write_total:
  assumes "valid_index (pu_index pu)" and "depth (pu_index pu) \<le> view_depth t0" and "keeps_shape t0 t"
    and "unat n + 1 < 2 ^ 64"
  shows "\<exists>t'. write_path_update tr n sg uid pu t = Some t' \<and> keeps_shape t0 t'"
proof (cases "kem_pk_from_bytes (pu_public_key pu)")
  case (Inr pk)
  obtain found where g: "view_get t (pu_index pu) = Some found" using store.get_total [OF assms(1)] by blast
  define node where "node = new_populated (pu_index pu) pk (Option.bind found (\<lambda>node. state_public_key (node_st node)))
    (pu_parent_hash pu) uid sg tr zero32 \<lparr>origin_epoch = n + 1, origin_sequence = 0, origin_timestamp = 0\<rparr>"
  have i: "node_idx node = pu_index pu" by (simp add: node_def new_populated_def)
  obtain k where k: "to_linear (pu_index pu) = Some k" using valid_to_linear [OF assms(1)] by blast
  define t' where "t' = t\<lparr>view_nodes := bt_insert k node (view_nodes t)\<rparr>"
  have "node_fits (view_depth t) node"
    using assms(1,2,3) by (simp add: node_fits_def node_def new_populated_def keeps_shape_def)
  with assms(3) have "view_ok t'" unfolding t'_def
    by (intro view_ok_put) (simp_all add: keeps_shape_def i k)
  moreover have "write_path_update tr n sg uid pu t = Some t'"
    using checked_add_1 [of n] assms(4)
    by (simp add: write_path_update_def Inr g view_insert_def node_def [symmetric] i k t'_def)
  ultimately show ?thesis using assms(3) by (simp add: keeps_shape_def t'_def)
qed (simp add: write_path_update_def assms)

lemma writes_total:
  assumes "\<forall>pu \<in> set pus. valid_index (pu_index pu) \<and> depth (pu_index pu) \<le> view_depth t0"
    and "keeps_shape t0 t" and "unat n + 1 < 2 ^ 64"
  shows "\<exists>t'. write_path_updates tr n sg uid pus t = Some t' \<and> keeps_shape t0 t'"
  using assms(1,2)
proof (induction pus arbitrary: t)
  case (Cons pu pus)
  then obtain t1 where "write_path_update tr n sg uid pu t = Some t1" "keeps_shape t0 t1"
    using write_total [of pu t0 t n tr sg uid] assms(3) by auto
  with Cons show ?case by simp
qed simp

lemma path_up_valid:
  assumes "unat pos < 2 ^ unat td" and "unat td < 32" and "i \<in> set (path_up (leaf td pos))"
  shows "valid_index i \<and> depth i \<le> td"
proof -
  have v: "valid_index (leaf td pos)" using assms(1,2) by (simp add: valid_index_def)
  have "anc i (leaf td pos)" using assms(3) by (simp add: set_path_up)
  then show ?thesis using anc_valid [OF _ v] by (auto simp: anc_def word_le_nat_alt ndepth_def leaf_def node_new_def)
qed

lemma clear_unmerged_total:
  assumes "view_ok (session_tree s)" and "unat pos < 2 ^ unat (view_depth (session_tree s))"
  shows "\<exists>t'. clear_unmerged_on_path pos s = Some (s\<lparr>session_tree := t'\<rparr>) \<and> keeps_shape (session_tree s) t'"
proof -
  let ?t = "session_tree s"
  have v: "valid_index i" if "i \<in> set (path_up (leaf (view_depth ?t) pos))" for i
    using path_up_valid [OF assms(2) _ that] assms(1) by (simp add: view_ok_def)
  have "\<exists>t'. along (\<lambda>i. view_remove_unmerged i (our_leaf_position s)) (path_up (leaf (view_depth ?t) pos)) ?t = Some t' \<and> keeps_shape ?t t'"
    by (rule along_total)
      (auto simp: view_remove_unmerged_def keeps_shape_def [of ?t ?t] assms(1) intro!: modify_total v unmerged_ok_updates)
  then show ?thesis by (auto simp: clear_unmerged_on_path_def)
qed

lemma mark_unmerged_total:
  assumes "view_ok (session_tree s)" and "unat pos < 2 ^ unat (view_depth (session_tree s))"
  shows "\<exists>t'. mark_member_as_unmerged pos s = Some (s\<lparr>session_tree := t'\<rparr>) \<and> keeps_shape (session_tree s) t'"
proof -
  let ?t = "session_tree s"
  have "\<exists>t'. mark_unmerged pos i t = Some t' \<and> keeps_shape ?t t'"
    if i: "i \<in> set (path_up (leaf (view_depth ?t) pos))" and t: "keeps_shape ?t t" for i t
  proof -
    have v: "valid_index i" using path_up_valid [OF assms(2) _ i] assms(1) by (simp add: view_ok_def)
    obtain found where "view_get t i = Some found" using store.get_total [OF v] by blast
    moreover obtain t' where "view_add_unmerged i pos t = Some t'" "keeps_shape ?t t'"
      using modify_total [OF v t, of "\<lambda>s. state_add_unmerged s pos"] unmerged_ok_updates(1)
      by (auto simp: view_add_unmerged_def)
    ultimately show ?thesis using t by (auto simp: mark_unmerged_def split: option.splits)
  qed
  then have "\<exists>t'. along (mark_unmerged pos) (path_up (leaf (view_depth ?t) pos)) ?t = Some t' \<and> keeps_shape ?t t'"
    by (rule along_total) (auto simp: keeps_shape_def assms(1))
  then show ?thesis by (auto simp: mark_member_as_unmerged_def)
qed

text \<open>Members who advance from the same epoch with the same root seed and transcript reach the same.\<close>

definition in_step :: "cocoa_session \<Rightarrow> cocoa_session \<Rightarrow> bool" where
  "in_step s r \<longleftrightarrow> group_id s = group_id r \<and> number (session_epoch s) = number (session_epoch r)
     \<and> secrets (session_epoch s) = secrets (session_epoch r) \<and> transcript_hash s = transcript_hash r"

lemma advance_in_step:
  assumes "advance_epoch p d t s = Some s'" and "in_step s r"
  shows "\<exists>r'. advance_epoch p d t r = Some r' \<and> in_step s' r' \<and> session_epoch r' = session_epoch s'
    \<and> session_tree r' = session_tree r"
  using assms by (auto simp: advance_epoch_def epoch_advance_Some in_step_def)

text \<open>The writes of an accepted commit, a last change of the tree, then the advance.\<close>

lemma commit_installs:
  assumes adv: "advance_epoch p d t s = Some s'" "in_step s r"
    and ok: "view_ok (session_tree r)"
    and post: "\<And>q. view_ok (session_tree q) \<Longrightarrow> view_depth (session_tree q) = view_depth (session_tree r) \<Longrightarrow>
      \<exists>t'. post q = Some (q\<lparr>session_tree := t'\<rparr>) \<and> keeps_shape (session_tree q) t'"
    and idx: "\<forall>pu \<in> set pus. valid_index (pu_index pu) \<and> depth (pu_index pu) \<le> view_depth (session_tree r)"
  shows "\<exists>r1 r2 r'. update_tree_from_path_updates pus sg uid r = Some r1 \<and> post r1 = Some r2
    \<and> advance_epoch p d t r2 = Some r' \<and> in_step s' r' \<and> session_epoch r' = session_epoch s'
    \<and> session_tree r' = session_tree r2 \<and> keeps_shape (session_tree r) (session_tree r')"
proof -
  have "unat (session_epoch_number r) + 1 < 2 ^ 64"
    using adv by (auto simp: advance_epoch_def epoch_advance_Some in_step_def session_epoch_number_def)
  then obtain t1 where w: "update_tree_from_path_updates pus sg uid r = Some (r\<lparr>session_tree := t1\<rparr>)" "keeps_shape (session_tree r) t1"
    using writes_total [OF idx, of "session_tree r" "session_epoch_number r" "transcript_hash r" sg uid] ok
    by (auto simp: update_tree_from_path_updates_def keeps_shape_def)
  obtain t2 where cl: "post (r\<lparr>session_tree := t1\<rparr>) = Some (r\<lparr>session_tree := t2\<rparr>)" "keeps_shape t1 t2"
    using post [of "r\<lparr>session_tree := t1\<rparr>"] w(2) by (auto simp: keeps_shape_def)
  have "in_step s (r\<lparr>session_tree := t2\<rparr>)" using adv(2) by (simp add: in_step_def)
  from advance_in_step [OF adv(1) this] obtain r' where "advance_epoch p d t (r\<lparr>session_tree := t2\<rparr>) = Some r'"
    "in_step s' r'" "session_epoch r' = session_epoch s'" "session_tree r' = t2" by auto
  moreover have "keeps_shape (session_tree r) t2" using w(2) cl(2) by (simp add: keeps_shape_def)
  ultimately show ?thesis using w(1) cl(1) by auto
qed

text \<open>Acceptance of a path means that every level passed.\<close>

lemma verify_chain_nth:
  assumes "verify_chain p tree level prev preds us = Done ()" and "k < length us"
  shows "\<exists>prev' preds'. verify_level p tree (level + k) prev' preds' (us ! k) = Done ()"
  using assms
proof (induction us arbitrary: level prev preds k)
  case (Cons u us)
  then have u: "verify_level p tree level prev preds u = Done ()"
    and rest: "verify_chain p tree (Suc level) (snd (nu_parent_hash u)) (preds @ [nu_public_key u]) us = Done ()"
    by (auto simp: bind_out_eq_Done)
  show ?case
  proof (cases k)
    case 0
    then show ?thesis using u by auto
  next
    case (Suc j)
    with Cons.IH [OF rest, of j] Cons.prems(2) show ?thesis by simp
  qed
qed simp

text \<open>A complete level passes only with exactly the positions that the verifier reconstructs.\<close>

lemma complete_level_positions:
  assumes "verify_level p tree level prev preds u = Done ()" and "0 < level"
    and "reconstruct_resolution_complete tree (nu_index u) = Some (nodes, True)"
  shows "(position \<circ> recipient_index) ` set (nu_seeds u) = position ` set nodes"
  using assms by (auto simp: verify_level_def bind_out_eq_Done split: if_splits prod.splits)

lemma built_positions:
  assumes "build_path_updates_with_seeds p sg coins td pos seeds sets keys labels = Done r" and "k < length seeds"
  shows "k < length (pr_updates r)"
    "(position \<circ> recipient_index) ` set (nu_seeds (rewired (pr_updates r ! k))) = position ` set (sets ! k)"
proof -
  have "build_levels p sg coins td pos sets keys labels 0 zero32 [] seeds = Done (pr_updates r)"
    using assms(1) by (auto simp: build_path_updates_with_seeds_def Let_def bind_out_eq_Done split: if_splits)
  note nth = build_levels_nth [OF this, unfolded add_0]
  show "k < length (pr_updates r)" using nth assms(2) by simp
  from nth assms(2) obtain d q kp es where l: "length (sets ! k) = length (keys ! k)"
    "encrypt_each p (coins k) (seeds ! k) 0 (keys ! k) (node_new d q) = Done es"
    "nu_seeds (pr_updates r ! k) = map (\<lambda>(r, e). \<lparr>recipient_index = r, rs_encrypted = e\<rparr>) (zip (sets ! k) es)" by blast
  have "map (position \<circ> recipient_index) (nu_seeds (pr_updates r ! k)) = map position (sets ! k)"
    unfolding l(3) by (rule positions_of_zip) (simp add: l(1) length_encrypt_each [OF l(2)])
  moreover have "map (position \<circ> recipient_index) (nu_seeds (rewired (pr_updates r ! k))) = map (position \<circ> recipient_index) (nu_seeds (pr_updates r ! k))"
    using same_level_rewired [of "pr_updates r ! k"] by (simp add: same_level_def)
  ultimately show "(position \<circ> recipient_index) ` set (nu_seeds (rewired (pr_updates r ! k))) = position ` set (sets ! k)"
    by (metis list.set_map)
qed

section \<open>What an operation needs to be accepted\<close>

record commit_coins =
  cc_seed :: "bytes option"
  cc_kem :: "nat \<Rightarrow> nat \<Rightarrow> kem_coins"
  cc_sign :: sign_coins
  cc_keypair :: "kem_keypair outcome"

definition commit_coins_ok :: "commit_coins \<Rightarrow> bool" where
  "commit_coins_ok c \<longleftrightarrow> (\<forall>l j. kem_coins_ok (cc_kem c l j)) \<and> (\<forall>seed. cc_seed c = Some seed \<longrightarrow> length seed = 32)"

definition committer_identity :: "sig_suite \<Rightarrow> identity_keypair \<Rightarrow> bool" where
  "committer_identity g identity \<longleftrightarrow> signing_keypair_wf g (id_signing identity)
     \<and> ipk_signing (id_public identity) = skp_public (id_signing identity)"

text \<open>The keys that a path from a leaf encrypts to.\<close>

definition recipient_keys :: "tree_view \<Rightarrow> u32 \<Rightarrow> kem_public_key set" where
  "recipient_keys t pos =
     (case compute_resolution_sets_and_keys t (path_up (leaf (view_depth t) pos)) of
        Some (sets, keys) \<Rightarrow> \<Union> (set ` set keys) | None \<Rightarrow> {})"

text \<open>A tree that a receiver can verify a path from \<open>pos\<close> against.\<close>

definition accepts_path_from :: "tree_view \<Rightarrow> u32 \<Rightarrow> bool" where
  "accepts_path_from t pos \<longleftrightarrow> view_ok t \<and> unmerged_below t \<and> unat pos < 2 ^ unat (view_depth t)
     \<and> pos < view_member_count t \<and> leaf_is_blank t pos = Some False"

lemma plain_levels_match:
  assumes t: "view_ok t" "unmerged_below t" "unat pos < 2 ^ unat (view_depth t)"
    and s: "compute_resolution_sets_and_keys t (path_up (leaf (view_depth t) pos)) = Some (sets, keys)"
    and l: "compute_sibling_labels p t (path_up (leaf (view_depth t) pos)) = Done labels"
    and k: "0 < k" "k \<le> unat (view_depth t)"
  shows "level_matches p t sets keys labels k (path_up (leaf (view_depth t) pos) ! k)"
proof -
  let ?path = "path_up (leaf (view_depth t) pos)"
  have len: "length ?path = Suc (unat (view_depth t))" by simp
  have i: "valid_index (?path ! k)" "depth (?path ! k) \<le> view_depth t"
    using path_up_valid [OF t(3), of "?path ! k"] t(1) k(2) len by (auto simp: view_ok_def)
  obtain r ks c where r: "compute_lj (view_get t) (view_depth t) (?path ! k) (unmerged_indices t) = Some r"
    "keys_of t r = Some ks" "reconstruct_resolution_complete t (?path ! k) = Some (r, c)"
    "reconstruct_resolution_keys t (?path ! k) = Some ks"
    using reconstructions [OF t(1,2) i] by blast
  have "sets ! k = r" "keys ! k = ks" using resolution_sets_nth [OF s] r(1,2) k len by auto
  moreover have "sibling_label p t (?path ! k) = Done (labels ! (k - 1))"
    using labels_nth [OF l [unfolded compute_sibling_labels_def]] k len by (cases k) auto
  ultimately show ?thesis using r(3,4) by (simp add: level_matches_def)
qed

text \<open>Every node of a resolution is populated, so the pairing loses only what is skipped.\<close>

lemma keyed_nodes_of_keys:
  assumes "\<forall>i \<in> set is. \<exists>n pk. view_get t i = Some (Some n) \<and> state_public_key (node_st n) = Some pk"
    and "\<forall>i \<in> set is. skip i = Some (sk i)" and "keys_of t is = Some ks"
  shows "length ks = length is \<and> keyed_nodes skip t is = Some (filter (\<lambda>(i, k). \<not> sk i) (zip is ks))"
  using assms
proof (induction "is" arbitrary: ks)
  case (Cons i "is")
  obtain n pk where n: "view_get t i = Some (Some n)" "state_public_key (node_st n) = Some pk" using Cons.prems(1) by auto
  obtain ks' where ks: "keys_of t is = Some ks'" "ks = pk # ks'" using Cons.prems(3) n by (auto simp: bind_eq_Some_conv)
  have "length ks' = length is \<and> keyed_nodes skip t is = Some (filter (\<lambda>(i, k). \<not> sk i) (zip is ks'))"
    using Cons.prems(1,2) by (intro Cons.IH ks(1)) auto
  then show ?case using Cons.prems(2) n by (simp add: ks)
qed simp

lemma resolution_populated:
  assumes "view_ok t" and "valid_index i" and "depth i \<le> view_depth t"
    and "compute_lj (view_get t) (view_depth t) i (unmerged_indices t) = Some r" and "j \<in> set r"
  shows "\<exists>n pk. view_get t j = Some (Some n) \<and> state_public_key (node_st n) = Some pk"
    and "\<exists>s. sibling i = Some s \<and> stands_for (view_get t) (view_depth t) s j"
proof -
  obtain s where s: "sibling i = Some s" using assms(4,5) by (cases "sibling i") (auto simp: compute_lj_def)
  have td: "unat (view_depth t) < 32" using assms(1) by (simp add: view_ok_def)
  have vs: "valid_index s" "ndepth s \<le> unat (view_depth t)"
    using sibling_valid [OF assms(2) s] assms(3) by (simp_all add: ndepth_def word_le_nat_alt)
  have "resolve (view_get t) (view_depth t) s = Some r" using lj_eq(1) [OF assms(1-3) s] assms(4) by simp
  with view_lookup.resolve_correct [OF td vs, of t] assms(5) have st: "stands_for (view_get t) (view_depth t) s j" by auto
  then show "\<exists>s. sibling i = Some s \<and> stands_for (view_get t) (view_depth t) s j" using s by blast
  from st obtain n where n: "view_get t j = Some (Some n)" "is_populated (node_st n)" by (auto simp: stands_for_def)
  then show "\<exists>n pk. view_get t j = Some (Some n) \<and> state_public_key (node_st n) = Some pk"
    by (cases "node_st n") auto
qed

lemma signed_commit_verifies:
  assumes "committer_identity g identity" and "sign_commit p g coins identity content = Inr signature"
  shows "verify_commit_signature p g (id_public identity) content signature = Inr ()"
  using hybrid_context.verifies [of g "id_signing identity" p coins "(COMMIT_SIGN_CONTEXT, content_to_bytes content)" signature] assms
  by (simp add: sign_commit_def verify_commit_signature_def committer_identity_def)

text \<open>What a path built for \<open>pos\<close> gives to the holder of a recipient key, in the terms of the handlers.\<close>

lemma path_reaches:
  assumes p: "prims_ok p" "seeded_keys_valid p sg" and c: "commit_coins_ok c" "cc_seed c = Some leaf_seed"
    and td: "unat td < 32" "unat pos < 2 ^ unat td" and path: "path_to_root (leaf td pos) = Some path"
    and b: "build_path_updates_with_seeds p sg (cc_kem c) td pos (derive_path_seeds p leaf_seed (length path)) sets keys labels = Done r"
    and m: "\<And>k. 0 < k \<Longrightarrow> k \<le> unat td \<Longrightarrow> level_matches p t sets keys labels k (path_up (leaf td pos) ! k)"
    and kp: "kem_pair p kp pk" "ks \<in> set keys" "pk \<in> set ks"
  shows "convert_path_updates_to_node_updates (map to_wire (pr_updates r)) = Inr (map rewired (pr_updates r))"
    "verify_parent_hashes p t (map rewired (pr_updates r)) = Done ()"
    "apply_path_updates p sg (map rewired (pr_updates r)) kp our committer = Done (pr_delta_root r)
      \<or> stray p kp (map rewired (pr_updates r))"
    "derive_key p ROOT_LABEL_CONTEXT (pr_delta_root r) = compute_root_label p (derive_path_seeds p leaf_seed (length path))"
    "\<forall>pu \<in> set (map to_wire (pr_updates r)). valid_index (pu_index pu) \<and> depth (pu_index pu) \<le> td"
    "pr_updates r \<noteq> []"
proof -
  have pu: "path = path_up (leaf td pos)" using path path_to_root_eq [of "leaf td pos"] td(1) by simp
  then have pl: "length path = Suc (unat td)" by simp
  have coins: "\<forall>l j. kem_coins_ok (cc_kem c l j)" "length leaf_seed = 32" using c by (auto simp: commit_coins_ok_def)
  note acc = path_accepted [OF p coins td(1) b [unfolded pl] m kp]
  show "convert_path_updates_to_node_updates (map to_wire (pr_updates r)) = Inr (map rewired (pr_updates r))" by (rule acc(1))
  show "verify_parent_hashes p t (map rewired (pr_updates r)) = Done ()" by (rule acc(2))
  show "apply_path_updates p sg (map rewired (pr_updates r)) kp our committer = Done (pr_delta_root r)
      \<or> stray p kp (map rewired (pr_updates r))" using acc(3) by (simp add: stray_rewired)
  have ne: "derive_path_seeds p leaf_seed (length path) \<noteq> []" unfolding pl by simp
  then show "derive_key p ROOT_LABEL_CONTEXT (pr_delta_root r) = compute_root_label p (derive_path_seeds p leaf_seed (length path))"
    using acc(4) by (simp only: compute_root_label_def if_False pl)
  have "pu_index ` set (map to_wire (pr_updates r)) = set (path_up (leaf td pos))" using acc(5) by (metis list.set_map)
  then show "\<forall>pu \<in> set (map to_wire (pr_updates r)). valid_index (pu_index pu) \<and> depth (pu_index pu) \<le> td"
    using path_up_valid [OF td(2,1)] by blast
  show "pr_updates r \<noteq> []" using acc(5) length_path_up [of "leaf td pos"] by (metis Nil_is_map_conv list.size(3) nat.simps(3))
qed

end
