(* ===== verification/Cocoa_Sample.thy ===== *)
theory Cocoa_Sample
  imports Cocoa_Commit
begin

text \<open>
  A concrete group of two for the witnesses of the group operations: leaf 1 holds the sample
  key pair, the seeded generator is constant, and everything an operation needs of the
  parameters succeeds.
\<close>

definition toy_sg :: "bytes \<Rightarrow> bytes outcome" where
  "toy_sg seed = Done (replicate SECRET_KEY_BYTES 1)"

definition toy_key :: kem_public_key where "toy_key = kp_public toy_kem_keypair"

definition toy_identity :: identity_keypair where
  "toy_identity = identity_of toy_signing toy_kem_keypair"

definition toy_member :: tree_node where
  "toy_member = new_populated (leaf 1 1) toy_key None (zero32, zero32) zero32
     \<lparr>sig_rsp = [], sig_mldsa = []\<rparr> zero32 zero32 \<lparr>origin_epoch = 0, origin_sequence = 0, origin_timestamp = 0\<rparr>"

definition toy_view :: "u32 \<Rightarrow> tree_view" where
  "toy_view pos = \<lparr>view_nodes = [(2, toy_member)], our_leaf = leaf 1 pos, view_depth = 1, view_member_count = 2\<rparr>"

definition toy_member_session :: "u32 \<Rightarrow> cocoa_session" where
  "toy_member_session pos = (join_group toy_prims zero32 (replicate 32 (ucast pos)) toy_kem_keypair pos 1 2 zero32 zero32)
     \<lparr>session_tree := toy_view pos\<rparr>"

lemma toy_keys_valid: "seeded_keys_valid toy_prims toy_sg"
proof -
  have "replicate 1158 (1 :: u8) \<noteq> replicate 1158 0" by (simp add: replicate_eq_replicate)
  moreover have "sub_slice (2 * SMALL_BYTES) (2 * SMALL_BYTES + RQ_BYTES) (replicate SECRET_KEY_BYTES (1 :: u8)) = replicate 1158 1"
    by (simp add: sub_slice_def sntrup_sizes)
  moreover have "length (x448_public_key toy_prims x) = 56" for x by (simp add: x448_public_key_def toy_prims_def)
  ultimately show ?thesis
    by (auto simp: seeded_keys_valid_def derive_node_keypair_def kem_generate_from_seed_def toy_sg_def derive_public_def
        public_key_valid_def kem_pk_wf_def kem_sizes sntrup_sk_public_key_def Let_def)
qed

lemma toy_draws_keys: "\<exists>kp. derive_node_keypair toy_prims toy_sg seed = Done kp"
  by (simp add: derive_node_keypair_def kem_generate_from_seed_def toy_sg_def Let_def)

lemma toy_seed_encrypts:
  assumes "length seed = 32"
  shows "\<exists>e. encrypt_seed_to_recipient toy_prims toy_coins seed toy_key i = Done e"
proof -
  obtain ss e where "kem_encapsulate toy_prims toy_coins toy_key = Done (ss, e)" using toy_encapsulates by (auto simp: toy_key_def)
  moreover obtain c where c: "aead_encrypt toy_prims ss SEED_ENCRYPTION_NONCE seed (build_seed_aad i) = Inr c"
    by (auto simp: toy_seals)
  moreover have "length c = 48" using aead_round_trip(2) [OF toy_prims_ok c] assms by simp
  ultimately show ?thesis
    by (simp add: encrypt_seed_to_recipient_def aead_encrypt_committing_def toy_prims_ok ENCRYPTED_SEED_CIPHERTEXT_SIZE_def SEED_SIZE_def)
qed

lemma toy_tree_ok: "unat pos < 2 \<Longrightarrow> view_ok (toy_view pos)"
proof -
  assume "unat pos < 2"
  then have "valid_index (leaf 1 pos)" "valid_index (leaf 1 1)" by (simp_all add: valid_index_def)
  moreover have "to_linear (leaf 1 1) = Some 2" by (simp_all add: to_linear_Some)
  ultimately show ?thesis
    by (simp add: view_ok_def toy_view_def bt_ok_def node_fits_def toy_member_def new_populated_def)
qed

lemma toy_indices: "to_linear (leaf 1 0) = Some 1" "to_linear (leaf 1 1) = Some 2" "to_linear root = Some 0"
  by (simp_all add: to_linear_Some)

lemma toy_get:
  "view_get (toy_view pos) (leaf 1 0) = Some None" "view_get (toy_view pos) root = Some None"
  "view_get (toy_view pos) (leaf 1 1) = Some (Some toy_member)"
  by (simp_all add: view_get_def toy_view_def toy_indices)

lemma toy_unmerged: "unat pos < 2 \<Longrightarrow> unmerged_below (toy_view pos)"
proof -
  assume "unat pos < 2"
  note ok = toy_tree_ok [OF this]
  have "node_st toy_member = node_st n" if "valid_index i" "view_get (toy_view pos) i = Some (Some n)" for i n
    using view_lookup_iff [OF ok that(1), of n] that(2) by (simp add: view_iter_def toy_view_def)
  then show ?thesis unfolding unmerged_below_def
    by (metis new_populated_def option.distinct(1) toy_member_def tree_node.select_convs(2) unmerged_leaves.simps(1))
qed

lemma toy_path: "path_up (leaf 1 0) = [leaf 1 0, root]"
proof -
  have "parent (leaf 1 0) = Some root" "parent root = None"
    by (simp_all add: parent_eq_Some parent_eq_None)
  then show ?thesis by (simp add: path_up.simps [of "leaf 1 0"] path_up.simps [of root])
qed

lemma toy_sibling: "sibling (leaf 1 0) = Some (leaf 1 1)" "sibling root = None"
  by (simp_all add: sibling_eq_Some sibling_eq_None)

lemma toy_resolution:
  assumes "unat pos < 2"
  shows "compute_resolution_sets_and_keys (toy_view pos) [leaf 1 0, root] = Some ([[leaf 1 1], []], [[toy_key], []])"
    "compute_sibling_labels p (toy_view pos) [leaf 1 0, root] = Done [zero32]"
proof -
  have d: "view_depth (toy_view pos) = 1" by (simp add: toy_view_def)
  have pop: "node_st toy_member = Populated (case node_st toy_member of Populated d \<Rightarrow> d)"
    "state_public_key (node_st toy_member) = Some toy_key" by (simp_all add: toy_member_def new_populated_def)
  have r: "resolve (view_get (toy_view pos)) 1 (leaf 1 1) = Some [leaf 1 1]"
    by (simp add: resolve.simps [of _ _ "leaf 1 1"] toy_get) (simp add: toy_member_def new_populated_def)
  have "valid_index (leaf 1 0)" "depth (leaf 1 0) \<le> view_depth (toy_view pos)"
    by (simp add: valid_index_def) (simp add: d leaf_def node_new_def)
  from lj_eq(1) [OF toy_tree_ok [OF assms] this toy_sibling(1)] r
  have "compute_lj (view_get (toy_view pos)) 1 (leaf 1 0) (unmerged_indices (toy_view pos)) = Some [leaf 1 1]" by (simp add: d)
  moreover have "compute_lj (view_get (toy_view pos)) 1 root (unmerged_indices (toy_view pos)) = Some []"
    by (simp add: compute_lj_def toy_sibling)
  ultimately show "compute_resolution_sets_and_keys (toy_view pos) [leaf 1 0, root] = Some ([[leaf 1 1], []], [[toy_key], []])"
    by (simp add: d toy_get pop(2))
  show "compute_sibling_labels p (toy_view pos) [leaf 1 0, root] = Done [zero32]"
    by (simp add: compute_sibling_labels_def sibling_label_def toy_sibling)
qed

text \<open>The wire length never exceeds the sum of its parts.\<close>

lemma wire_len_bound:
  assumes "\<forall>u \<in> set us. length (pu_public_key u) \<le> a \<and> length (pu_seeds u) \<le> m
    \<and> (\<forall>s \<in> set (pu_seeds u). length (sd_encapsulation s) + length (sd_ciphertext s) \<le> b)"
  shows "path_updates_wire_len us \<le> length us * (a + m * b)"
proof -
  have seeds: "foldl (\<lambda>t s. saturating_add (saturating_add t (length (sd_encapsulation s))) (length (sd_ciphertext s))) n ss
      \<le> n + length ss * b"
    if "\<forall>s \<in> set ss. length (sd_encapsulation s) + length (sd_ciphertext s) \<le> b" for ss :: "encrypted_seed list" and n
    using that
  proof (induction ss arbitrary: n)
    case (Cons s ss)
    let ?n = "saturating_add (saturating_add n (length (sd_encapsulation s))) (length (sd_ciphertext s))"
    have "?n \<le> n + b" using Cons.prems by (auto simp: saturating_add_def)
    with Cons.IH [of ?n] Cons.prems show ?case by (auto intro: order_trans)
  qed simp
  define step where "step total u = foldl (\<lambda>t s. saturating_add (saturating_add t (length (sd_encapsulation s))) (length (sd_ciphertext s)))
      (saturating_add total (length (pu_public_key u))) (pu_seeds u)" for total and u :: path_update
  have one: "step n u \<le> n + (a + m * b)" if "u \<in> set us" for n u
  proof -
    have "step n u \<le> saturating_add n (length (pu_public_key u)) + length (pu_seeds u) * b"
      unfolding step_def using assms that by (intro seeds) auto
    also have "\<dots> \<le> n + a + m * b"
      using assms that by (intro add_mono mult_right_mono) (auto simp: saturating_add_def)
    finally show ?thesis by simp
  qed
  have "foldl step n us \<le> n + length us * (a + m * b)" for n
    using one
  proof (induction us arbitrary: n)
    case (Cons u us)
    have "foldl step (step n u) us \<le> step n u + length us * (a + m * b)" by (rule Cons.IH) (simp add: Cons.prems)
    with Cons.prems [of u n] show ?case by simp
  qed simp
  from this [of 0] show ?thesis by (simp add: path_updates_wire_len_def step_def [abs_def])
qed

definition toy_commit_coins :: commit_coins where
  "toy_commit_coins = \<lparr>cc_seed = Some zero32, cc_kem = (\<lambda>_ _. toy_coins),
     cc_sign = (Some (replicate 114 5), []), cc_keypair = Done toy_kem_keypair\<rparr>"

lemma toy_committer: "commit_coins_ok toy_commit_coins" "committer_identity toy_suite toy_identity"
  using toy_coins_ok toy_signing_wf
  by (simp_all add: commit_coins_ok_def toy_commit_coins_def committer_identity_def toy_identity_def identity_of_def)

lemma toy_signs_commit: "\<exists>s. sign_commit toy_prims toy_suite (cc_sign toy_commit_coins) toy_identity content = Inr s"
  using toy_signs by (simp add: sign_commit_def sign_with_context_def toy_commit_coins_def COMMIT_SIGN_CONTEXT_def
      bop_context_region_def ascii_def)

lemma toy_encrypts_each:
  assumes "length seed = 32" and "set ks \<subseteq> {toy_key}"
  shows "\<exists>es. encrypt_each toy_prims (\<lambda>_. toy_coins) seed j ks i = Done es"
  using assms(2)
proof (induction ks arbitrary: j)
  case (Cons k ks)
  obtain e where "encrypt_seed_to_recipient toy_prims toy_coins seed toy_key i = Done e" using toy_seed_encrypts [OF assms(1)] by blast
  moreover obtain es where "encrypt_each toy_prims (\<lambda>_. toy_coins) seed (Suc j) ks i = Done es" using Cons by fastforce
  ultimately show ?case using Cons.prems by simp
qed simp

lemma toy_build_levels:
  assumes "level + length seeds \<le> Suc (unat td)" and "unat td < 32" and "\<forall>s \<in> set seeds. length s = 32"
    and "\<forall>k \<in> {level..<level + length seeds}. k < length sets \<and> length (sets ! k) = length (keys ! k) \<and> set (keys ! k) \<subseteq> {toy_key}"
  shows "\<exists>us. build_levels toy_prims toy_sg (\<lambda>_ _. toy_coins) td pos sets keys labels level h preds seeds = Done us
    \<and> map (length \<circ> nu_seeds) us = map length (take (length seeds) (drop level sets))"
  using assms(1,3,4)
proof (induction seeds arbitrary: level h preds)
  case (Cons s seeds)
  have k: "unat (of_nat level :: u32) = level" using Cons.prems(1) assms(2) by (intro unat_of_nat_32) simp
  then have "checked_sub td (of_nat level :: u32) \<noteq> None" "checked_shr pos (of_nat level :: u32) \<noteq> None"
    using Cons.prems(1) assms(2) by (simp_all add: checked_sub_def checked_shr_def word_le_nat_alt word_less_nat_alt)
  then obtain d q where dq: "checked_sub td (of_nat level) = Some d" "checked_shr pos (of_nat level :: u32) = Some q" by auto
  obtain kp where kp: "derive_node_keypair toy_prims toy_sg s = Done kp" using toy_draws_keys by blast
  have l: "level < length sets" "length (sets ! level) = length (keys ! level)" "set (keys ! level) \<subseteq> {toy_key}"
    using Cons.prems(3) by simp_all
  obtain es where es: "encrypt_each toy_prims (\<lambda>_. toy_coins) s 0 (keys ! level) (node_new d q) = Done es"
    using toy_encrypts_each [OF _ l(3)] Cons.prems(2) by fastforce
  have le: "length es = length (keys ! level)" by (rule length_encrypt_each [OF es])
  obtain h1 h2 where h: "(if level = 0 then (zero32, zero32) else (h4_parent_hash_h1 toy_prims (kp_public kp) (labels ! (level - 1)),
      h4_parent_hash_h2 toy_prims (kp_public kp) preds h (keys ! level))) = (h1, h2)" by fastforce
  have "\<exists>us. build_levels toy_prims toy_sg (\<lambda>_ _. toy_coins) td pos sets keys labels (Suc level) h2 (preds @ [kp_public kp]) seeds = Done us
      \<and> map (length \<circ> nu_seeds) us = map length (take (length seeds) (drop (Suc level) sets))"
    using Cons.prems by (intro Cons.IH) auto
  then obtain us where us: "build_levels toy_prims toy_sg (\<lambda>_ _. toy_coins) td pos sets keys labels (Suc level) h2 (preds @ [kp_public kp]) seeds = Done us"
    "map (length \<circ> nu_seeds) us = map length (take (length seeds) (drop (Suc level) sets))" by blast
  show ?case using l(2) le us
    by (simp add: dq kp es h Let_def Cons_nth_drop_Suc [OF l(1), symmetric] comp_def)
qed simp

text \<open>Among holders of the sample key every path is built, and it is short on the wire.\<close>

lemma toy_path_built:
  assumes "unat td < 32" and "length leaf_seed = 32" and "length sets = Suc (unat td)" "length keys = Suc (unat td)" "length labels = unat td"
    and "\<forall>k < Suc (unat td). length (sets ! k) = length (keys ! k) \<and> set (keys ! k) \<subseteq> {toy_key}"
  shows "\<exists>r. build_path_updates_with_seeds toy_prims toy_sg (\<lambda>_ _. toy_coins) td pos
      (derive_path_seeds toy_prims leaf_seed (Suc (unat td))) sets keys labels = Done r
    \<and> length (pr_updates r) = Suc (unat td)
    \<and> path_updates_wire_len (map to_wire (pr_updates r)) \<le> Suc (unat td) * (1214 + Max (set (map length sets)) * 1175)"
proof -
  let ?seeds = "derive_path_seeds toy_prims leaf_seed (Suc (unat td))"
  have s32: "\<forall>s \<in> set ?seeds. length s = 32"
    using length_path_seed [OF toy_prims_ok assms(2)] by blast
  obtain us where us: "build_levels toy_prims toy_sg (\<lambda>_ _. toy_coins) td pos sets keys labels 0 zero32 [] ?seeds = Done us"
    "map (length \<circ> nu_seeds) us = map length sets"
    using toy_build_levels [of 0 ?seeds td sets keys pos labels zero32 "[]"] assms s32 by auto
  define r where "r = \<lparr>pr_updates = us, pr_delta_root = (if ?seeds = [] then zero32 else last ?seeds)\<rparr>"
  have b: "build_path_updates_with_seeds toy_prims toy_sg (\<lambda>_ _. toy_coins) td pos ?seeds sets keys labels = Done r"
    using us(1) assms(3-5) by (simp add: build_path_updates_with_seeds_def r_def)
  have u: "pr_updates r = us" by (simp add: r_def)
  have wire: "\<forall>u \<in> set us. wire_ok u"
    using built_path(4) [OF toy_prims_ok toy_keys_valid _ assms(2,1) b refl] toy_coins_ok by (simp add: u)
  have "length (nu_seeds u) \<le> Max (set (map length sets))" if "u \<in> set us" for u
  proof -
    have "length (nu_seeds u) \<in> set (map (length \<circ> nu_seeds) us)" using that by auto
    then show ?thesis unfolding us(2) by simp
  qed
  with wire have "path_updates_wire_len (map to_wire us) \<le> length (map to_wire us) * (1214 + Max (set (map length sets)) * 1175)"
    by (intro wire_len_bound) (auto simp: to_wire_def seed_to_wire_def wire_ok_def length_kem_codecs public_key_valid_def)
  moreover have "length us = Suc (unat td)" using arg_cong [OF us(2), of length] assms(3) by simp
  ultimately show ?thesis using b u by auto
qed

lemma toy_accepts: "accepts_path_from (session_tree (toy_member_session 1)) 0"
proof -
  have "session_tree (toy_member_session 1) = toy_view 1" "view_depth (toy_view 1) = 1" "view_member_count (toy_view 1) = 2"
    by (simp_all add: toy_view_def toy_member_session_def)
  then show ?thesis
    using toy_tree_ok [of 1] toy_unmerged [of 1] by (simp add: accepts_path_from_def leaf_is_blank_def toy_get)
qed

lemma toy_limits:
  "n \<le> 4778 \<Longrightarrow> m \<le> 1 \<Longrightarrow> check_size_limits n m (view_depth (session_tree (toy_member_session 1)))
     (view_member_count (session_tree (toy_member_session 1))) (total_unmerged_leaves (session_tree (toy_member_session 1))) = Inr ()"
proof -
  have "total_unmerged_leaves (toy_view 1) = 0"
    by (simp add: total_unmerged_leaves_def view_iter_def toy_view_def toy_member_def new_populated_def)
  moreover have "session_tree (toy_member_session 1) = toy_view 1" "view_depth (toy_view 1) = 1" "view_member_count (toy_view 1) = 2"
    by (simp_all add: toy_view_def toy_member_session_def)
  moreover assume "n \<le> 4778" "m \<le> 1"
  ultimately show ?thesis
    by (simp add: check_size_limits_def MAX_MESSAGE_SIZE_def MAX_MERKLE_PROOF_DEPTH_def MAX_GROUP_SIZE_def MAX_TREE_DEPTH_def)
qed

section \<open>Three members\<close>

definition toy_node :: "node_index \<Rightarrow> tree_node" where
  "toy_node i = new_populated i toy_key None (zero32, zero32) zero32
     \<lparr>sig_rsp = [], sig_mldsa = []\<rparr> zero32 zero32 \<lparr>origin_epoch = 0, origin_sequence = 0, origin_timestamp = 0\<rparr>"

text \<open>Three members in a tree of depth two that holds the leaf of the second and, when \<open>full\<close>, the node
  above the third.\<close>

definition trio_view :: "bool \<Rightarrow> u32 \<Rightarrow> tree_view" where
  "trio_view full pos = \<lparr>view_nodes = (if full then [(2, toy_node (leaf 1 1))] else []) @ [(4, toy_node (leaf 2 1))],
     our_leaf = leaf 2 pos, view_depth = 2, view_member_count = 3\<rparr>"

definition trio_session :: "bool \<Rightarrow> u32 \<Rightarrow> cocoa_session" where
  "trio_session full pos = (join_group toy_prims zero32 (replicate 32 (ucast pos)) toy_kem_keypair pos 2 3 zero32 zero32)
     \<lparr>session_tree := trio_view full pos\<rparr>"

lemma trio_facts [simp]:
  "session_tree (trio_session full pos) = trio_view full pos" "our_leaf_position (trio_session full pos) = pos"
  "our_keypair (trio_session full pos) = toy_kem_keypair" "session_epoch_number (trio_session full pos) = 0"
  "view_depth (trio_view full pos) = 2" "view_member_count (trio_view full pos) = 3"
  by (simp_all add: trio_session_def trio_view_def join_group_def session_epoch_number_def epoch_initial_def)

lemma toy_node_simps [simp]:
  "node_idx (toy_node i) = i" "is_populated (node_st (toy_node i))" "\<not> is_blank (node_st (toy_node i))" "state_public_key (node_st (toy_node i)) = Some toy_key"
  "unmerged_leaves (node_st (toy_node i)) = None"
  by (simp_all add: toy_node_def new_populated_def)

lemma trio_indices:
  "to_linear (leaf 2 0) = Some 3" "to_linear (leaf 2 1) = Some 4" "to_linear (leaf 2 2) = Some 5" "to_linear (leaf 2 3) = Some 6"
  "to_linear (leaf 1 0) = Some 1" "to_linear (leaf 1 1) = Some 2" "to_linear root = Some 0"
  by (simp_all add: to_linear_Some)

lemma trio_get:
  "view_get (trio_view full pos) (leaf 2 0) = Some None" "view_get (trio_view full pos) (leaf 2 1) = Some (Some (toy_node (leaf 2 1)))"
  "view_get (trio_view full pos) (leaf 1 0) = Some None" "view_get (trio_view full pos) root = Some None"
  "view_get (trio_view full pos) (leaf 1 1) = Some (if full then Some (toy_node (leaf 1 1)) else None)"
  "view_get (trio_view full pos) (leaf 2 3) = Some None"
  by (simp_all add: view_get_def trio_view_def trio_indices)

lemma trio_valid: "valid_index (leaf 2 0)" "valid_index (leaf 2 1)" "valid_index (leaf 2 3)" "valid_index (leaf 1 0)" "valid_index (leaf 1 1)"
  "depth (leaf 2 0) = 2" "depth (leaf 1 0) = 1" "depth (leaf 1 1) = 1" "position (leaf 1 1) = 1"
  by (simp_all add: valid_index_def leaf_def node_new_def ndepth_def npos_def)

lemma trio_ok: "unat pos < 4 \<Longrightarrow> view_ok (trio_view full pos)"
proof -
  assume "unat pos < 4"
  then have "valid_index (leaf 2 pos)" by (simp add: valid_index_def)
  moreover have "node_fits 2 (toy_node (leaf 1 1))" "node_fits 2 (toy_node (leaf 2 1))"
    using trio_valid by (simp_all add: node_fits_def) (simp_all add: toy_node_def new_populated_def leaf_def node_new_def)
  ultimately show ?thesis by (simp add: view_ok_def trio_view_def trio_indices bt_ok_def)
qed

lemma trio_unmerged: "unat pos < 4 \<Longrightarrow> unmerged_below (trio_view full pos)"
proof -
  assume "unat pos < 4"
  note ok = trio_ok [OF this, of full]
  have "n \<in> {toy_node (leaf 1 1), toy_node (leaf 2 1)}" if "valid_index i" "view_get (trio_view full pos) i = Some (Some n)" for i n
    using view_lookup_iff [OF ok that(1), of n] that(2) by (auto simp: view_iter_def trio_view_def split: if_splits)
  then show ?thesis unfolding unmerged_below_def by fastforce
qed

lemma trio_path: "path_up (leaf 2 0) = [leaf 2 0, leaf 1 0, root]"
proof -
  have "parent (leaf 2 0) = Some (leaf 1 0)" "parent (leaf 1 0) = Some root" "parent root = None"
    by (simp_all add: parent_eq_Some parent_eq_None)
  then show ?thesis by (simp add: path_up.simps [of "leaf 2 0"] path_up.simps [of "leaf 1 0"] path_up.simps [of root])
qed

lemma trio_sibling: "sibling (leaf 2 0) = Some (leaf 2 1)" "sibling (leaf 1 0) = Some (leaf 1 1)"
  by (simp_all add: sibling_eq_Some)

lemma trio_lj:
  assumes "unat pos < 4"
  shows "compute_lj (view_get (trio_view full pos)) 2 (leaf 2 0) (unmerged_indices (trio_view full pos)) = Some [leaf 2 1]"
    "compute_lj (view_get (trio_view full pos)) 2 (leaf 1 0) (unmerged_indices (trio_view full pos)) = Some (if full then [leaf 1 1] else [])"
    "compute_lj (view_get (trio_view full pos)) 2 root (unmerged_indices (trio_view full pos)) = Some []"
proof -
  have "resolve (view_get (trio_view full pos)) 2 (leaf 2 1) = Some [leaf 2 1]"
    "resolve (view_get (trio_view full pos)) 2 (leaf 1 1) = Some (if full then [leaf 1 1] else [])"
    by (simp_all add: resolve.simps [of _ _ "leaf 2 1"] resolve.simps [of _ _ "leaf 1 1"] trio_get)
  with lj_eq(1) [OF trio_ok [OF assms, of full] trio_valid(1) _ trio_sibling(1)]
    lj_eq(1) [OF trio_ok [OF assms, of full] trio_valid(4) _ trio_sibling(2)]
  show "compute_lj (view_get (trio_view full pos)) 2 (leaf 2 0) (unmerged_indices (trio_view full pos)) = Some [leaf 2 1]"
    "compute_lj (view_get (trio_view full pos)) 2 (leaf 1 0) (unmerged_indices (trio_view full pos)) = Some (if full then [leaf 1 1] else [])"
    by (simp_all add: trio_valid)
  show "compute_lj (view_get (trio_view full pos)) 2 root (unmerged_indices (trio_view full pos)) = Some []"
    by (simp add: compute_lj_def toy_sibling)
qed

lemma trio_labels: "\<exists>label. compute_sibling_labels p (trio_view full pos) [leaf 2 0, leaf 1 0, root] = Done [label, zero32]"
  by (simp add: compute_sibling_labels_def sibling_label_def node_public_key_def trio_sibling toy_sibling trio_get)

lemma trio_total_unmerged: "total_unmerged_leaves (trio_view full pos) = 0"
  by (simp add: total_unmerged_leaves_def view_iter_def trio_view_def)

lemma trio_complete:
  "reconstruct_resolution_complete (trio_view full pos) (leaf 1 0) = Some (if full then [leaf 1 1] else [], full)"
  "reconstruct_resolution_complete (trio_view full pos) root = Some ([], True)"
  by (simp_all add: reconstruct_resolution_complete_def trio_sibling toy_sibling resolve_complete.simps [of _ _ "leaf 1 1"] trio_get
      unmerged_of_def drop_unmerged_def)

lemma trio_accepts: "unat pos < 4 \<Longrightarrow> accepts_path_from (trio_view full pos) 0"
  using trio_ok trio_unmerged by (simp add: accepts_path_from_def leaf_is_blank_def trio_get)

lemma trio_recipients: "unat pos < 4 \<Longrightarrow> toy_key \<in> recipient_keys (trio_view full pos) 0"
  using trio_lj [of pos full] by (simp add: recipient_keys_def trio_path trio_get)

lemma trio_path_built:
  assumes "length a = length x" "length b = length y" "length c = length z" and "set x \<union> set y \<union> set z \<subseteq> {toy_key}"
    and "length a \<le> 2" "length b \<le> 2" "length c \<le> 2"
  shows "\<exists>r. build_path_updates_with_seeds toy_prims toy_sg (\<lambda>_ _. toy_coins) 2 0 (derive_path_seeds toy_prims zero32 3)
      [a, b, c] [x, y, z] [l1, l2] = Done r
    \<and> length (pr_updates r) = 3 \<and> path_updates_wire_len (map to_wire (pr_updates r)) \<le> 10692"
proof -
  have two: "Suc (unat (2 :: u32)) = 3" by simp
  have len: "length [a, b, c] = Suc (unat (2 :: u32))" "length [x, y, z] = Suc (unat (2 :: u32))" "length [l1, l2] = unat (2 :: u32)" by simp_all
  have "\<forall>k < Suc (Suc (Suc 0)). length ([a, b, c] ! k) = length ([x, y, z] ! k) \<and> set ([x, y, z] ! k) \<subseteq> {toy_key}"
    using assms by (simp add: All_less_Suc)
  then have "\<forall>k < Suc (unat (2 :: u32)). length ([a, b, c] ! k) = length ([x, y, z] ! k) \<and> set ([x, y, z] ! k) \<subseteq> {toy_key}"
    unfolding two by (simp add: numeral_3_eq_3)
  from toy_path_built [OF _ _ len this, of zero32 0]
  obtain r where r: "build_path_updates_with_seeds toy_prims toy_sg (\<lambda>_ _. toy_coins) 2 0 (derive_path_seeds toy_prims zero32 3)
      [a, b, c] [x, y, z] [l1, l2] = Done r" "length (pr_updates r) = 3"
    "path_updates_wire_len (map to_wire (pr_updates r)) \<le> 3 * (1214 + Max (set (map length [a, b, c])) * 1175)"
    unfolding two by auto
  have "Max (set (map length [a, b, c])) \<le> 2" using assms by simp
  with r show ?thesis by fastforce
qed

end
