(* ===== verification/Cocoa_Update.thy ===== *)
theory Cocoa_Update
  imports Cocoa_Sample
begin

text \<open>
  The update operation (\<open>operations/update.rs\<close>): a member refreshes its path, every other member
  processes the commit. The coins of the committer are the leaf seed, the encapsulations'
  coins per level and recipient, the signature's, and the outcome of the key generation.
\<close>

section \<open>Operations\<close>

record update_commit =
  uc_group_id :: group_id
  uc_leaf_position :: u32
  uc_epoch :: u64
  uc_path_updates :: "path_update list"
  uc_signature :: hybrid_signature
  uc_round_hash :: bytes
  uc_confirmation_tag :: bytes

definition create_update ::
  "primitives \<Rightarrow> sig_suite \<Rightarrow> (bytes \<Rightarrow> bytes outcome) \<Rightarrow> commit_coins \<Rightarrow> identity_keypair
     \<Rightarrow> (update_commit, cocoa_session) act" where
  "create_update p g sg c identity s =
     (let tree = session_tree s; pos = our_leaf_position s in
     act_bind (act_out (of_result (generate_leaf_seed (cc_seed c)))) (\<lambda>leaf_seed.
     act_bind (act_out (or_panic (path_to_root (leaf (view_depth tree) pos)))) (\<lambda>path.
     let path_seeds = derive_path_seeds p leaf_seed (length path) in
     act_bind (act_out (or_panic (compute_resolution_sets_and_keys tree path))) (\<lambda>(sets, keys).
     act_bind (act_out (compute_sibling_labels p tree path)) (\<lambda>labels.
     act_bind (act_out (build_path_updates_with_seeds p sg (cc_kem c) (view_depth tree) pos path_seeds sets keys labels)) (\<lambda>r.
     let path_updates = map to_wire (pr_updates r); delta_root = pr_delta_root r in
     act_bind (session_rotate_keypair (cc_keypair c)) (\<lambda>_.
     let round_hash = h3_round_hash p (compute_root_label p path_seeds) [] [];
         path_updates_hash = hash_path_updates p (serialise_path_updates path_updates) in
     act_bind (act_out (or_panic (checked_add (session_epoch_number s) 1))) (\<lambda>n.
     let content = content_new_update (group_id s) n round_hash path_updates_hash pos
           (derive_user_id_from_identity p (id_public identity)) in
     act_bind (act_out (of_result (sign_commit p g (cc_sign c) identity content))) (\<lambda>signature.
     let new_transcript = h3_transcript_hash p (transcript_hash s) round_hash;
         confirmation_tag = commit_confirmation_tag p delta_root new_transcript n in
     act_bind (act_modify (advance_epoch p delta_root new_transcript)) (\<lambda>_.
     act_out (Done \<lparr>uc_group_id = group_id s, uc_leaf_position = pos, uc_epoch = n,
       uc_path_updates = path_updates, uc_signature = signature, uc_round_hash = round_hash,
       uc_confirmation_tag = confirmation_tag\<rparr>)))))))))) s)"

definition process_update ::
  "primitives \<Rightarrow> sig_suite \<Rightarrow> (bytes \<Rightarrow> bytes outcome) \<Rightarrow> update_commit \<Rightarrow> identity_public_key
     \<Rightarrow> (unit, cocoa_session) act" where
  "process_update p g sg commit updater_identity s =
     (let tree = session_tree s; members = view_member_count tree in
     act_bind (act_out (of_result (check_size_limits (path_updates_wire_len (uc_path_updates commit))
       (length (uc_path_updates commit) - 1) (view_depth tree) members (total_unmerged_leaves tree)))) (\<lambda>_.
     act_bind (act_out (require (uc_group_id commit = group_id s) GroupIdMismatch)) (\<lambda>_.
     act_bind (act_out (require (uc_leaf_position commit < members) InvalidLeafPosition)) (\<lambda>_.
     act_bind (act_out (or_panic (checked_add (session_epoch_number s) 1))) (\<lambda>n.
     act_bind (act_out (require (uc_epoch commit = n) (EpochMismatch n (uc_epoch commit)))) (\<lambda>_.
     let path_updates_hash = hash_path_updates p (serialise_path_updates (uc_path_updates commit));
         committer_user_id = derive_user_id_from_identity p updater_identity;
         content = content_new_update (uc_group_id commit) (uc_epoch commit) (uc_round_hash commit)
           path_updates_hash (uc_leaf_position commit) committer_user_id in
     act_bind (act_out (of_result (verify_commit_signature p g updater_identity content (uc_signature commit)))) (\<lambda>_.
     act_bind (act_out (if members \<le> uc_leaf_position commit then Fail InvalidLeafPosition
       else bind_out (or_panic (leaf_is_blank tree (uc_leaf_position commit))) (\<lambda>blank.
         require (\<not> blank) InvalidLeafPosition))) (\<lambda>_.
     act_bind (act_out (of_result (convert_path_updates_to_node_updates (uc_path_updates commit)))) (\<lambda>node_updates.
     act_bind (act_out (apply_path_updates p sg node_updates (our_keypair s) (our_leaf_position s)
       (uc_leaf_position commit))) (\<lambda>delta_root.
     let new_transcript = h3_transcript_hash p (transcript_hash s) (uc_round_hash commit) in
     act_bind (act_out (require (commit_confirmation_tag p delta_root new_transcript (uc_epoch commit)
       = uc_confirmation_tag commit) SignatureVerificationFailed)) (\<lambda>_.
     act_bind (act_out (require (h3_round_hash p (derive_key p ROOT_LABEL_CONTEXT delta_root) [] []
       = uc_round_hash commit) RoundHashMismatch)) (\<lambda>_.
     act_bind (act_out (verify_parent_hashes p tree node_updates)) (\<lambda>_.
     act_bind (act_modify (update_tree_from_path_updates (uc_path_updates commit) (uc_signature commit)
       committer_user_id)) (\<lambda>_.
     act_bind (act_modify (clear_unmerged_on_path (uc_leaf_position commit))) (\<lambda>_.
     act_modify (advance_epoch p delta_root new_transcript))))))))))))))) s)"

section \<open>What the operations return\<close>



lemma create_update_Inr:
  assumes "create_update p g sg c identity s = Some (Inr commit, s')"
  obtains leaf_seed path sets keys labels r kp n signature where
    "cc_seed c = Some leaf_seed" "path_to_root (leaf (view_depth (session_tree s)) (our_leaf_position s)) = Some path"
    "compute_resolution_sets_and_keys (session_tree s) path = Some (sets, keys)"
    "compute_sibling_labels p (session_tree s) path = Done labels"
    "build_path_updates_with_seeds p sg (cc_kem c) (view_depth (session_tree s)) (our_leaf_position s)
       (derive_path_seeds p leaf_seed (length path)) sets keys labels = Done r"
    "cc_keypair c = Done kp" "checked_add (session_epoch_number s) 1 = Some n"
    "sign_commit p g (cc_sign c) identity (content_new_update (group_id s) n
       (h3_round_hash p (compute_root_label p (derive_path_seeds p leaf_seed (length path))) [] [])
       (hash_path_updates p (serialise_path_updates (map to_wire (pr_updates r)))) (our_leaf_position s)
       (derive_user_id_from_identity p (id_public identity))) = Inr signature"
    "advance_epoch p (pr_delta_root r) (h3_transcript_hash p (transcript_hash s)
       (h3_round_hash p (compute_root_label p (derive_path_seeds p leaf_seed (length path))) [] []))
       (s\<lparr>our_keypair := kp\<rparr>) = Some s'"
    "commit = \<lparr>uc_group_id = group_id s, uc_leaf_position = our_leaf_position s, uc_epoch = n,
       uc_path_updates = map to_wire (pr_updates r), uc_signature = signature,
       uc_round_hash = h3_round_hash p (compute_root_label p (derive_path_seeds p leaf_seed (length path))) [] [],
       uc_confirmation_tag = commit_confirmation_tag p (pr_delta_root r) (h3_transcript_hash p (transcript_hash s)
         (h3_round_hash p (compute_root_label p (derive_path_seeds p leaf_seed (length path))) [] [])) n\<rparr>"
  using assms
  by (auto simp: create_update_def act_simps Let_def generate_leaf_seed_def ok_or_eq_Inr intro: that)

lemma create_update_intro:
  assumes "cc_seed c = Some leaf_seed" "path_to_root (leaf (view_depth (session_tree s)) (our_leaf_position s)) = Some path"
    "compute_resolution_sets_and_keys (session_tree s) path = Some (sets, keys)"
    "compute_sibling_labels p (session_tree s) path = Done labels"
    "build_path_updates_with_seeds p sg (cc_kem c) (view_depth (session_tree s)) (our_leaf_position s)
       (derive_path_seeds p leaf_seed (length path)) sets keys labels = Done r"
    "cc_keypair c = Done kp" "checked_add (session_epoch_number s) 1 = Some n"
    and sig: "\<And>content. \<exists>signature. sign_commit p g (cc_sign c) identity content = Inr signature"
  shows "\<exists>commit s'. create_update p g sg c identity s = Some (Inr commit, s') \<and> uc_path_updates commit = map to_wire (pr_updates r)"
proof -
  define content where "content = content_new_update (group_id s) n
       (h3_round_hash p (compute_root_label p (derive_path_seeds p leaf_seed (length path))) [] [])
       (hash_path_updates p (serialise_path_updates (map to_wire (pr_updates r)))) (our_leaf_position s)
       (derive_user_id_from_identity p (id_public identity))"
  obtain signature where "sign_commit p g (cc_sign c) identity content = Inr signature" using sig by blast
  moreover have "\<exists>s'. advance_epoch p d t (s\<lparr>our_keypair := kp\<rparr>) = Some s'" for d t
    using assms(7) by (simp add: advance_epoch_def epoch_advance_def session_epoch_number_def Let_def)
  ultimately show ?thesis
    using assms(1-7) unfolding content_def
    by (simp add: create_update_def act_simps Let_def generate_leaf_seed_def)
qed

lemma process_update_Inr:
  "process_update p g sg commit updater s = Some (Inr u, s') \<longleftrightarrow>
     check_size_limits (path_updates_wire_len (uc_path_updates commit)) (length (uc_path_updates commit) - 1)
       (view_depth (session_tree s)) (view_member_count (session_tree s)) (total_unmerged_leaves (session_tree s)) = Inr ()
   \<and> uc_group_id commit = group_id s \<and> uc_leaf_position commit < view_member_count (session_tree s)
   \<and> checked_add (session_epoch_number s) 1 = Some (uc_epoch commit)
   \<and> verify_commit_signature p g updater (content_new_update (uc_group_id commit) (uc_epoch commit) (uc_round_hash commit)
       (hash_path_updates p (serialise_path_updates (uc_path_updates commit))) (uc_leaf_position commit)
       (derive_user_id_from_identity p updater)) (uc_signature commit) = Inr ()
   \<and> leaf_is_blank (session_tree s) (uc_leaf_position commit) = Some False
   \<and> (\<exists>us delta s1 s2. convert_path_updates_to_node_updates (uc_path_updates commit) = Inr us
       \<and> apply_path_updates p sg us (our_keypair s) (our_leaf_position s) (uc_leaf_position commit) = Done delta
       \<and> commit_confirmation_tag p delta (h3_transcript_hash p (transcript_hash s) (uc_round_hash commit)) (uc_epoch commit)
         = uc_confirmation_tag commit
       \<and> h3_round_hash p (derive_key p ROOT_LABEL_CONTEXT delta) [] [] = uc_round_hash commit
       \<and> verify_parent_hashes p (session_tree s) us = Done ()
       \<and> update_tree_from_path_updates (uc_path_updates commit) (uc_signature commit)
           (derive_user_id_from_identity p updater) s = Some s1
       \<and> clear_unmerged_on_path (uc_leaf_position commit) s1 = Some s2
       \<and> advance_epoch p delta (h3_transcript_hash p (transcript_hash s) (uc_round_hash commit)) s2 = Some s')"
  by (auto simp: process_update_def act_simps Let_def bind_out_eq_Done not_le)

text \<open>Every rejection comes before the first write.\<close>

lemma process_update_Inl: "process_update p g sg commit updater s = Some (Inl e, s') \<Longrightarrow> s' = s"
  by (auto simp: process_update_def act_simps Let_def)

section \<open>Agreement\<close>

lemma update_installs:
  assumes adv: "advance_epoch p d t s = Some s'" "in_step s r"
    and ok: "view_ok (session_tree r)" "unat pos < 2 ^ unat (view_depth (session_tree r))"
    and idx: "\<forall>pu \<in> set pus. valid_index (pu_index pu) \<and> depth (pu_index pu) \<le> view_depth (session_tree r)"
  shows "\<exists>r1 r2 r'. update_tree_from_path_updates pus sg uid r = Some r1 \<and> clear_unmerged_on_path pos r1 = Some r2
    \<and> advance_epoch p d t r2 = Some r' \<and> in_step s' r' \<and> session_epoch r' = session_epoch s'
    \<and> session_tree r' = session_tree r2 \<and> keeps_shape (session_tree r) (session_tree r')"
  by (rule commit_installs [OF adv ok(1) _ idx]) (simp add: clear_unmerged_total ok(2))


text \<open>C8. The group agrees after an update: when a member's update succeeds, every member whose
  session is in step with the committer's, on the same nodes, and that holds the key of a
  recipient, accepts the commit and ends in the same epoch with the same secrets and transcript,
  unless it holds a key under which a seed meant for another commits to the same ciphertext.\<close>

theorem update_agreement:
  assumes p: "prims_ok p" "seeded_keys_valid p sg" and c: "commit_coins_ok c" "committer_identity g identity"
    and create: "create_update p g sg c identity s = Some (Inr commit, s')"
    and step: "in_step s r" "same_tree (session_tree s) (session_tree r)"
      "accepts_path_from (session_tree r) (our_leaf_position s)"
    and limits: "check_size_limits (path_updates_wire_len (uc_path_updates commit)) (length (uc_path_updates commit) - 1)
      (view_depth (session_tree r)) (view_member_count (session_tree r)) (total_unmerged_leaves (session_tree r)) = Inr ()"
    and key: "kem_pair p (our_keypair r) pk" "pk \<in> recipient_keys (session_tree s) (our_leaf_position s)"
  shows "(\<exists>r'. process_update p g sg commit (id_public identity) r = Some (Inr (), r')
      \<and> in_step s' r' \<and> session_epoch r' = session_epoch s')
    \<or> (\<exists>us. convert_path_updates_to_node_updates (uc_path_updates commit) = Inr us \<and> stray p (our_keypair r) us)"
proof -
  define td where "td = view_depth (session_tree s)"
  define pos where "pos = our_leaf_position s"
  have same: "view_depth (session_tree r) = td" using step(2) by (simp add: same_tree_def td_def)
  have t: "view_ok (session_tree r)" "unmerged_below (session_tree r)" "unat pos < 2 ^ unat td"
    "pos < view_member_count (session_tree r)" "leaf_is_blank (session_tree r) pos = Some False"
    using step(3) same by (simp_all add: accepts_path_from_def pos_def)
  have td32: "unat td < 32" using t(1) same by (simp add: view_ok_def)
  from create_update_Inr [OF create] obtain leaf_seed path sets keys labels b kp n signature where
    seed: "cc_seed c = Some leaf_seed" and path: "path_to_root (leaf td pos) = Some path"
    and rs: "compute_resolution_sets_and_keys (session_tree s) path = Some (sets, keys)"
    and ls: "compute_sibling_labels p (session_tree s) path = Done labels"
    and bp: "build_path_updates_with_seeds p sg (cc_kem c) td pos (derive_path_seeds p leaf_seed (length path)) sets keys labels = Done b"
    and n: "checked_add (session_epoch_number s) 1 = Some n"
    and sig: "sign_commit p g (cc_sign c) identity (content_new_update (group_id s) n
       (h3_round_hash p (compute_root_label p (derive_path_seeds p leaf_seed (length path))) [] [])
       (hash_path_updates p (serialise_path_updates (map to_wire (pr_updates b)))) pos
       (derive_user_id_from_identity p (id_public identity))) = Inr signature"
    and adv: "advance_epoch p (pr_delta_root b) (h3_transcript_hash p (transcript_hash s)
       (h3_round_hash p (compute_root_label p (derive_path_seeds p leaf_seed (length path))) [] []))
       (s\<lparr>our_keypair := kp\<rparr>) = Some s'"
    and cm: "commit = \<lparr>uc_group_id = group_id s, uc_leaf_position = pos, uc_epoch = n,
       uc_path_updates = map to_wire (pr_updates b), uc_signature = signature,
       uc_round_hash = h3_round_hash p (compute_root_label p (derive_path_seeds p leaf_seed (length path))) [] [],
       uc_confirmation_tag = commit_confirmation_tag p (pr_delta_root b) (h3_transcript_hash p (transcript_hash s)
         (h3_round_hash p (compute_root_label p (derive_path_seeds p leaf_seed (length path))) [] [])) n\<rparr>"
    unfolding td_def [symmetric] pos_def [symmetric] .
  have pu: "path = path_up (leaf td pos)" using path path_to_root_eq [of "leaf td pos"] td32 by simp
  then have pl: "length path = Suc (unat td)" by simp
  note reads = same_tree_reads [OF step(2)]
  have rs': "compute_resolution_sets_and_keys (session_tree r) (path_up (leaf td pos)) = Some (sets, keys)"
    using rs reads(5) pu by simp
  have ls': "compute_sibling_labels p (session_tree r) (path_up (leaf td pos)) = Done labels"
    using ls reads(6) pu by (simp add: compute_sibling_labels_def)
  have m: "level_matches p (session_tree r) sets keys labels k (path_up (leaf td pos) ! k)" if "0 < k" "k \<le> unat td" for k
    using plain_levels_match [OF t(1,2), of pos sets keys p labels k] t(3) rs' ls' that same by simp
  obtain ks where ks: "ks \<in> set keys" "pk \<in> set ks"
    using key(2) rs pu by (auto simp: recipient_keys_def td_def pos_def)
  note reach = path_reaches [OF p c(1) seed td32 t(3) path bp m key(1) ks]
  define rh where "rh = h3_round_hash p (compute_root_label p (derive_path_seeds p leaf_seed (length path))) [] []"
  have idx: "\<forall>pu \<in> set (uc_path_updates commit). valid_index (pu_index pu) \<and> depth (pu_index pu) \<le> view_depth (session_tree r)"
    using reach(5) cm same by simp
  have nr: "checked_add (session_epoch_number r) 1 = Some n"
    using n step(1) by (simp add: in_step_def session_epoch_number_def)
  have "in_step (s\<lparr>our_keypair := kp\<rparr>) r" using step(1) by (simp add: in_step_def)
  from update_installs [OF adv this t(1) _ idx, of pos "uc_signature commit" "derive_user_id_from_identity p (id_public identity)"]
  obtain r1 r2 r' where w: "update_tree_from_path_updates (uc_path_updates commit) (uc_signature commit)
      (derive_user_id_from_identity p (id_public identity)) r = Some r1" "clear_unmerged_on_path pos r1 = Some r2"
    and r': "advance_epoch p (pr_delta_root b) (h3_transcript_hash p (transcript_hash s) rh) r2 = Some r'"
      "in_step s' r'" "session_epoch r' = session_epoch s'"
    using t(3) unfolding rh_def same by blast
  have gt: "group_id r = group_id s" "transcript_hash r = transcript_hash s" using step(1) by (simp_all add: in_step_def)
  show ?thesis
  proof (cases "stray p (our_keypair r) (map rewired (pr_updates b))")
    case True
    then show ?thesis using reach(1) cm by auto
  next
    case False
    have "process_update p g sg commit (id_public identity) r = Some (Inr (), r')"
      unfolding process_update_Inr
      using limits t(4,5) nr gt cm w r'(1) reach(1-4) False signed_commit_verifies [OF c(2) sig]
      by (intro conjI exI) (assumption | simp add: rh_def)+
    with r'(2,3) show ?thesis by blast
  qed
qed

lemma toy_creates:
  obtains commit s' where "create_update toy_prims toy_suite toy_sg toy_commit_coins toy_identity (toy_member_session 0) = Some (Inr commit, s')"
    "path_updates_wire_len (uc_path_updates commit) \<le> 4778" "length (uc_path_updates commit) = 2"
proof -
  let ?s = "toy_member_session 0"
  have st: "session_tree ?s = toy_view 0" "our_leaf_position ?s = 0" "view_depth (toy_view 0) = 1" "session_epoch_number ?s = 0"
    by (simp_all add: toy_member_session_def toy_view_def join_group_def session_epoch_number_def epoch_initial_def)
  have path: "path_to_root (leaf 1 0) = Some [leaf 1 0, root]" using path_to_root_eq [of "leaf 1 0"] by (simp add: toy_path)
  obtain r where r: "build_path_updates_with_seeds toy_prims toy_sg (\<lambda>_ _. toy_coins) 1 0 (derive_path_seeds toy_prims zero32 2)
      [[leaf 1 1], []] [[toy_key], []] [zero32] = Done r" "length (pr_updates r) = 2"
    "path_updates_wire_len (map to_wire (pr_updates r)) \<le> 4778"
    using toy_path_built [of 1 zero32 "[[leaf 1 1], []]" "[[toy_key], []]" "[zero32]" 0] by (auto simp: less_Suc_eq numeral_2_eq_2)
  have "\<exists>commit s'. create_update toy_prims toy_suite toy_sg toy_commit_coins toy_identity ?s = Some (Inr commit, s')
      \<and> uc_path_updates commit = map to_wire (pr_updates r)"
  proof (rule create_update_intro)
    show "path_to_root (leaf (view_depth (session_tree ?s)) (our_leaf_position ?s)) = Some [leaf 1 0, root]" by (simp add: st path)
    show "compute_resolution_sets_and_keys (session_tree ?s) [leaf 1 0, root] = Some ([[leaf 1 1], []], [[toy_key], []])"
      using toy_resolution(1) [of 0] by (simp add: st)
    show "compute_sibling_labels toy_prims (session_tree ?s) [leaf 1 0, root] = Done [zero32]"
      using toy_resolution(2) [of 0] by (simp add: st)
    show "build_path_updates_with_seeds toy_prims toy_sg (cc_kem toy_commit_coins) (view_depth (session_tree ?s)) (our_leaf_position ?s)
        (derive_path_seeds toy_prims zero32 (length [leaf 1 0, root])) [[leaf 1 1], []] [[toy_key], []] [zero32] = Done r"
      using r(1) by (simp add: st toy_commit_coins_def numeral_2_eq_2)
  qed (use toy_signs_commit in \<open>simp_all add: toy_commit_coins_def st checked_add_def\<close>)
  then show thesis using that r(2,3) by (metis length_map)
qed

theorem update_agreement_witness:
  "\<exists>commit s'. create_update toy_prims toy_suite toy_sg toy_commit_coins toy_identity (toy_member_session 0) = Some (Inr commit, s')
    \<and> ((\<exists>r'. process_update toy_prims toy_suite toy_sg commit (id_public toy_identity) (toy_member_session 1) = Some (Inr (), r')
         \<and> session_epoch r' = session_epoch s')
      \<or> (\<exists>us. convert_path_updates_to_node_updates (uc_path_updates commit) = Inr us \<and> stray toy_prims toy_kem_keypair us))"
proof -
  let ?s = "toy_member_session 0" and ?r = "toy_member_session 1"
  obtain commit s' where c: "create_update toy_prims toy_suite toy_sg toy_commit_coins toy_identity ?s = Some (Inr commit, s')"
    "path_updates_wire_len (uc_path_updates commit) \<le> 4778" "length (uc_path_updates commit) = 2" by (rule toy_creates)
  have st: "session_tree ?s = toy_view 0" "session_tree ?r = toy_view 1" "our_leaf_position ?s = 0" "our_keypair ?r = toy_kem_keypair"
    by (simp_all add: toy_member_session_def join_group_def)
  have d: "view_depth (toy_view pos) = 1" "view_member_count (toy_view pos) = 2" for pos by (simp_all add: toy_view_def)
  have step: "in_step ?s ?r" "same_tree (session_tree ?s) (session_tree ?r)"
    by (simp_all add: in_step_def same_tree_def st toy_view_def) (simp_all add: toy_member_session_def join_group_def)
  have acc: "accepts_path_from (session_tree ?r) (our_leaf_position ?s)"
    using toy_accepts by (simp add: st(3))
  have lim: "check_size_limits (path_updates_wire_len (uc_path_updates commit)) (length (uc_path_updates commit) - 1)
      (view_depth (session_tree ?r)) (view_member_count (session_tree ?r)) (total_unmerged_leaves (session_tree ?r)) = Inr ()"
    using c(2,3) by (intro toy_limits) simp_all
  have key: "kem_pair toy_prims (our_keypair ?r) toy_key" using toy_kem_pair by (simp add: st toy_key_def)
  have rec: "toy_key \<in> recipient_keys (session_tree ?s) (our_leaf_position ?s)"
    using toy_resolution(1) [of 0] by (simp add: recipient_keys_def st d toy_path)
  from update_agreement [OF toy_prims_ok toy_keys_valid toy_committer c(1) step acc lim key rec] c(1)
  show ?thesis by (auto simp: st)
qed

section \<open>The committer's own state\<close>

lemma create_update_Inl:
  "create_update p g sg c identity s = Some (Inl e, s') \<Longrightarrow> s' = s \<or> (\<exists>kp. cc_keypair c = Done kp \<and> s' = s\<lparr>our_keypair := kp\<rparr>)"
  by (auto simp: create_update_def act_simps Let_def)

text \<open>An update leaves the committer's own tree as it was and its key pair unrelated to the path: on
  success the session's key pair is a fresh draw, while the leaf that the commit announces
  carries the public key derived from the leaf seed, whose secret is kept nowhere; the comment
  at the rotation says that it matches the new leaf key. When a later step fails, the old key
  pair is already gone although nothing was committed.\<close>

lemma committer_after_update:
  assumes "create_update p g sg c identity s = Some (res, s')"
  shows "session_tree s' = session_tree s \<and> group_id s' = group_id s \<and> our_leaf_position s' = our_leaf_position s
    \<and> members s' = members s
    \<and> (case res of
         Inr commit \<Rightarrow> cc_keypair c = Done (our_keypair s') \<and> session_epoch_number s' = session_epoch_number s + 1
           \<and> uc_epoch commit = session_epoch_number s'
           \<and> (\<exists>seed kp. cc_seed c = Some seed \<and> derive_node_keypair p sg seed = Done kp
               \<and> pu_index (uc_path_updates commit ! 0) = leaf (view_depth (session_tree s)) (our_leaf_position s)
               \<and> pu_public_key (uc_path_updates commit ! 0) = kem_pk_to_bytes (kp_public kp))
       | Inl e \<Rightarrow> session_epoch s' = session_epoch s \<and> transcript_hash s' = transcript_hash s
           \<and> (our_keypair s' = our_keypair s \<or> cc_keypair c = Done (our_keypair s')))"
proof (cases res)
  case (Inl e)
  then show ?thesis using create_update_Inl [of p g sg c identity s e s'] assms by auto
next
  case (Inr commit)
  with assms have "create_update p g sg c identity s = Some (Inr commit, s')" by simp
  from create_update_Inr [OF this] obtain leaf_seed path sets keys labels r kp n signature where
    e: "cc_seed c = Some leaf_seed" "path_to_root (leaf (view_depth (session_tree s)) (our_leaf_position s)) = Some path"
      "compute_resolution_sets_and_keys (session_tree s) path = Some (sets, keys)"
      "compute_sibling_labels p (session_tree s) path = Done labels"
      "build_path_updates_with_seeds p sg (cc_kem c) (view_depth (session_tree s)) (our_leaf_position s)
         (derive_path_seeds p leaf_seed (length path)) sets keys labels = Done r"
      "cc_keypair c = Done kp" "checked_add (session_epoch_number s) 1 = Some n"
      "sign_commit p g (cc_sign c) identity (content_new_update (group_id s) n
         (h3_round_hash p (compute_root_label p (derive_path_seeds p leaf_seed (length path))) [] [])
         (hash_path_updates p (serialise_path_updates (map to_wire (pr_updates r)))) (our_leaf_position s)
         (derive_user_id_from_identity p (id_public identity))) = Inr signature"
      "advance_epoch p (pr_delta_root r) (h3_transcript_hash p (transcript_hash s)
         (h3_round_hash p (compute_root_label p (derive_path_seeds p leaf_seed (length path))) [] []))
         (s\<lparr>our_keypair := kp\<rparr>) = Some s'"
    and cm: "commit = \<lparr>uc_group_id = group_id s, uc_leaf_position = our_leaf_position s, uc_epoch = n,
       uc_path_updates = map to_wire (pr_updates r), uc_signature = signature,
       uc_round_hash = h3_round_hash p (compute_root_label p (derive_path_seeds p leaf_seed (length path))) [] [],
       uc_confirmation_tag = commit_confirmation_tag p (pr_delta_root r) (h3_transcript_hash p (transcript_hash s)
         (h3_round_hash p (compute_root_label p (derive_path_seeds p leaf_seed (length path))) [] [])) n\<rparr>" .
  have pl: "length path = Suc (length path - 1)"
    using e(2) by (auto simp: path_to_root_def bind_eq_Some_conv)
  then have first: "derive_path_seeds p leaf_seed (length path) ! 0 = leaf_seed" by (metis derive_path_seeds.simps(2) nth_Cons_0)
  from e(5) have "build_levels p sg (cc_kem c) (view_depth (session_tree s)) (our_leaf_position s) sets keys labels 0 zero32 []
      (derive_path_seeds p leaf_seed (length path)) = Done (pr_updates r)"
    by (auto simp: build_path_updates_with_seeds_def Let_def bind_out_eq_Done split: if_splits)
  note nth = build_levels_nth [OF this, unfolded length_derive_path_seeds add_0]
  have z: "0 < length path" using pl by linarith
  with nth first obtain d q nk where k: "checked_sub (view_depth (session_tree s)) (of_nat 0) = Some d"
    "checked_shr (our_leaf_position s) (of_nat 0) = Some q" "derive_node_keypair p sg leaf_seed = Done nk"
    "nu_index (pr_updates r ! 0) = node_new d q" "nu_public_key (pr_updates r ! 0) = kp_public nk" by metis
  have "d = view_depth (session_tree s)" "q = our_leaf_position s"
    using k(1,2) by (simp_all add: checked_sub_def checked_shr_def)
  then have "pu_index (uc_path_updates commit ! 0) = leaf (view_depth (session_tree s)) (our_leaf_position s)
      \<and> pu_public_key (uc_path_updates commit ! 0) = kem_pk_to_bytes (kp_public nk)"
    using nth z k(4,5) by (simp add: cm to_wire_def leaf_def)
  moreover have "n = session_epoch_number s + 1" using e(7) by (simp add: checked_add_def split: if_splits)
  ultimately show ?thesis using Inr e(1,6,9) k(3) cm
    by (auto simp: advance_epoch_def epoch_advance_Some session_epoch_number_def)
qed

section \<open>Paths of any shape\<close>

lemma populated_stays:
  assumes "along (\<lambda>i. view_remove_unmerged i q) is t = Some t'" and "\<forall>j \<in> set is. valid_index j"
    and "valid_index i" and "view_get t i = Some (Some n)" and "is_populated (node_st n)"
  shows "view_get t' i = Some (Some n)"
  using assms(1,2,4)
proof (induction "is" arbitrary: t)
  case (Cons j "is")
  then obtain t1 where t1: "view_modify j (\<lambda>s. state_remove_unmerged s q) t = Some t1"
    "along (\<lambda>i. view_remove_unmerged i q) is t1 = Some t'"
    using Cons.prems(1) unfolding along.simps bind_eq_Some_conv by (metis view_remove_unmerged_def)
  have "state_remove_unmerged (node_st n) q = node_st n" using assms(5) by (cases "node_st n") simp_all
  then have "view_get t1 i = Some (Some n)"
    using store.modify_elim [OF _ t1(1) assms(3)] Cons.prems(2,3) by auto
  with Cons.IH [OF t1(2)] Cons.prems(2) show ?case by simp
qed simp

text \<open>A path of one node, which the signer places at any index.\<close>

definition one_node_update :: "node_index \<Rightarrow> kem_public_key \<Rightarrow> encrypted_node_seed \<Rightarrow> node_update" where
  "one_node_update i pk e = \<lparr>nu_index = i, nu_public_key = pk, nu_parent_hash = (zero32, zero32),
     nu_seeds = [\<lparr>recipient_index = i, rs_encrypted = e\<rparr>]\<rparr>"

lemma one_node_delivers:
  assumes p: "prims_ok p" and kp: "kem_pair p kp pk" "kem_coins_ok kc" "length seed = 32"
    and e: "encrypt_seed_to_recipient p kc seed pk i = Done e" and nk: "derive_node_keypair p sg seed = Done nk"
  shows "apply_path_updates p sg [rewired (one_node_update i (kp_public nk) e)] kp our committer = Done seed"
proof -
  let ?u = "rewired (one_node_update i (kp_public nk) e)"
  have d: "decrypt_seed p e kp i = Done seed" by (rule decrypt_encrypted_seed [OF kp e])
  have seeds: "nu_seeds ?u = [\<lparr>recipient_index = leaf (depth i) (position i), rs_encrypted = e\<rparr>]" "nu_index ?u = i"
    "nu_public_key ?u = kp_public nk" "nu_parent_hash ?u = (zero32, zero32)"
    by (simp_all add: one_node_update_def rewired_def)
  have "decrypt_level p kp our_node ?u = Done (Some seed)" for our_node
    by (cases our_node) (simp_all add: decrypt_level_def seeds try_decrypt_def d del: rewired_facts)
  then show ?thesis by (simp add: apply_path_updates_def nk seeds Let_def del: rewired_facts)
qed

text \<open>C31. The indices of a path are not checked: a commit with a single node at any valid index, whose
  seed is encrypted to the receiver, passes every check of \<open>process_update\<close>, and the receiver's
  tree then holds the signer's key at that index, another member's leaf or the root included,
  with the signer as its last updater.\<close>

theorem any_index_accepted:
  assumes p: "prims_ok p" and c: "committer_identity g identity"
    and kp: "kem_pair p (our_keypair r) pk" "kem_coins_ok kc" "length seed = 32"
    and e: "encrypt_seed_to_recipient p kc seed pk i = Done e" "derive_node_keypair p sg seed = Done nk" "public_key_valid (kp_public nk)"
    and t: "accepts_path_from (session_tree r) pos" "valid_index i" "depth i \<le> view_depth (session_tree r)"
    and n: "checked_add (session_epoch_number r) 1 = Some n"
    and limits: "check_size_limits (path_updates_wire_len [to_wire (one_node_update i (kp_public nk) e)]) 0
      (view_depth (session_tree r)) (view_member_count (session_tree r)) (total_unmerged_leaves (session_tree r)) = Inr ()"
    and rh: "rh = h3_round_hash p (derive_key p ROOT_LABEL_CONTEXT seed) [] []"
    and sig: "sign_commit p g coins identity (content_new_update (group_id r) n rh
      (hash_path_updates p (serialise_path_updates [to_wire (one_node_update i (kp_public nk) e)])) pos
      (derive_user_id_from_identity p (id_public identity))) = Inr signature"
  shows "\<exists>r' node. process_update p g sg \<lparr>uc_group_id = group_id r, uc_leaf_position = pos, uc_epoch = n,
        uc_path_updates = [to_wire (one_node_update i (kp_public nk) e)], uc_signature = signature, uc_round_hash = rh,
        uc_confirmation_tag = commit_confirmation_tag p seed (h3_transcript_hash p (transcript_hash r) rh) n\<rparr>
        (id_public identity) r = Some (Inr (), r')
    \<and> view_get (session_tree r') i = Some (Some node) \<and> state_public_key (node_st node) = Some (kp_public nk)
    \<and> state_last_updater_id (node_st node) = Some (derive_user_id_from_identity p (id_public identity))"
proof -
  let ?u = "one_node_update i (kp_public nk) e" and ?tr = "h3_transcript_hash p (transcript_hash r) rh"
    and ?uid = "derive_user_id_from_identity p (id_public identity)"
  have ok: "view_ok (session_tree r)" "unat pos < 2 ^ unat (view_depth (session_tree r))"
    "pos < view_member_count (session_tree r)" "leaf_is_blank (session_tree r) pos = Some False"
    using t(1) by (simp_all add: accepts_path_from_def)
  have w: "wire_ok ?u" using e(3) encrypted_wire_ok [OF p kp(2) e(1)] by (simp add: wire_ok_def one_node_update_def)
  then have conv: "convert_path_updates_to_node_updates [to_wire ?u] = Inr [rewired ?u]" using convert_to_wire [of "[?u]"] by simp
  have ap: "apply_path_updates p sg [rewired ?u] (our_keypair r) (our_leaf_position r) pos = Done seed"
    by (rule one_node_delivers [OF p kp e(1,2)])
  have vh: "verify_parent_hashes p (session_tree r) [rewired ?u] = Done ()"
    by (simp add: verify_parent_hashes_def verify_level_def one_node_update_def)
  obtain r0 where "advance_epoch p seed ?tr r = Some r0"
    using n by (auto simp: advance_epoch_def epoch_advance_def session_epoch_number_def Let_def)
  moreover have "in_step r r" by (simp add: in_step_def)
  moreover have "\<forall>pu \<in> set [to_wire ?u]. valid_index (pu_index pu) \<and> depth (pu_index pu) \<le> view_depth (session_tree r)"
    using t(2,3) by (simp add: to_wire_def one_node_update_def)
  ultimately obtain r1 r2 r' where inst: "update_tree_from_path_updates [to_wire ?u] signature ?uid r = Some r1"
    "clear_unmerged_on_path pos r1 = Some r2" "advance_epoch p seed ?tr r2 = Some r'" "session_tree r' = session_tree r2"
    using update_installs [OF _ _ ok(1,2), of p seed ?tr r r0 "[to_wire ?u]" signature ?uid] by blast
  obtain found where "view_get (session_tree r) i = Some found" using store.get_total [OF t(2)] by blast
  moreover obtain t1 where r1: "write_path_update (transcript_hash r) (session_epoch_number r) signature ?uid (to_wire ?u) (session_tree r) = Some t1"
    "r1 = r\<lparr>session_tree := t1\<rparr>"
    using inst(1) by (auto simp: update_tree_from_path_updates_def bind_eq_Some_conv)
  ultimately obtain node where node: "view_insert node (session_tree r) = Some t1" "node_idx node = i"
    "is_populated (node_st node)" "state_public_key (node_st node) = Some (kp_public nk)"
    "state_last_updater_id (node_st node) = Some ?uid"
    using kem_pk_codec [OF e(3)] n
    by (auto simp: write_path_update_def to_wire_def one_node_update_def new_populated_def)
  have "view_get t1 i = Some (Some node)" using store.put_elim [OF _ node(1) t(2)] node(2) t(2) by simp
  moreover have "view_depth t1 = view_depth (session_tree r)" using node(1) by (auto simp: view_insert_def)
  then have "\<forall>j \<in> set (path_up (leaf (view_depth t1) pos)). valid_index j"
    using path_up_valid [OF ok(2)] ok(1) by (auto simp: view_ok_def)
  moreover obtain t2 where "along (\<lambda>i. view_remove_unmerged i (our_leaf_position r)) (path_up (leaf (view_depth t1) pos)) t1 = Some t2"
    "r2 = r1\<lparr>session_tree := t2\<rparr>"
    using inst(2) by (auto simp: clear_unmerged_on_path_def r1(2))
  ultimately have "view_get (session_tree r') i = Some (Some node)"
    using populated_stays [OF _ _ t(2), of "our_leaf_position r" "path_up (leaf (view_depth t1) pos)" t1 t2 node] node(3) inst(4) by simp
  moreover have "process_update p g sg \<lparr>uc_group_id = group_id r, uc_leaf_position = pos, uc_epoch = n,
        uc_path_updates = [to_wire ?u], uc_signature = signature, uc_round_hash = rh,
        uc_confirmation_tag = commit_confirmation_tag p seed ?tr n\<rparr> (id_public identity) r = Some (Inr (), r')"
    unfolding process_update_Inr update_commit.simps
    by (intro conjI exI [of _ "[rewired ?u]"] exI [of _ seed] exI [of _ r1] exI [of _ r2])
      (use limits ok n conv ap vh inst rh signed_commit_verifies [OF c sig] in simp_all)
  ultimately show ?thesis using node(4,5) by blast
qed

theorem any_index_accepted_witness:
  "\<exists>commit r' node. process_update toy_prims toy_suite toy_sg commit (id_public toy_identity) (toy_member_session 1) = Some (Inr (), r')
    \<and> view_get (session_tree r') root = Some (Some node) \<and> is_populated (node_st node)"
proof -
  let ?r = "toy_member_session 1"
  obtain nk where nk: "derive_node_keypair toy_prims toy_sg zero32 = Done nk" using toy_draws_keys by blast
  then have v: "public_key_valid (kp_public nk)" using toy_keys_valid by (auto simp: seeded_keys_valid_def)
  obtain e where e: "encrypt_seed_to_recipient toy_prims toy_coins zero32 toy_key root = Done e"
    using toy_seed_encrypts [of zero32 root] by auto
  have key: "kem_pair toy_prims (our_keypair ?r) toy_key"
    using toy_kem_pair by (simp add: toy_member_session_def join_group_def toy_key_def)
  have "encapsulation_wf (es_encapsulation e) \<and> length (es_ciphertext e) = 80"
    by (rule encrypted_wire_ok [OF toy_prims_ok toy_coins_ok e])
  then have "path_updates_wire_len [to_wire (one_node_update root (kp_public nk) e)] \<le> 1 * (1214 + 1 * 1175)"
    using wire_len_bound [of "[to_wire (one_node_update root (kp_public nk) e)]" 1214 1 1175] v
    by (simp add: to_wire_def seed_to_wire_def one_node_update_def length_kem_codecs public_key_valid_def)
  then have lim: "check_size_limits (path_updates_wire_len [to_wire (one_node_update root (kp_public nk) e)]) 0
      (view_depth (session_tree ?r)) (view_member_count (session_tree ?r)) (total_unmerged_leaves (session_tree ?r)) = Inr ()"
    by (intro toy_limits) simp_all
  have n: "checked_add (session_epoch_number ?r) 1 = Some 1"
    by (simp add: toy_member_session_def join_group_def session_epoch_number_def epoch_initial_def checked_add_def)
  define rh where "rh = h3_round_hash toy_prims (derive_key toy_prims ROOT_LABEL_CONTEXT zero32) [] []"
  obtain sig where sig: "sign_commit toy_prims toy_suite (cc_sign toy_commit_coins) toy_identity (content_new_update (group_id ?r) 1 rh
      (hash_path_updates toy_prims (serialise_path_updates [to_wire (one_node_update root (kp_public nk) e)])) 0
      (derive_user_id_from_identity toy_prims (id_public toy_identity))) = Inr sig"
    using toy_signs_commit by blast
  have d: "depth root \<le> view_depth (session_tree ?r)" by (simp add: root_def node_new_def)
  from any_index_accepted [OF toy_prims_ok toy_committer(2) key toy_coins_ok _ e nk v toy_accepts _ d n lim rh_def sig]
  show ?thesis by (metis populated_iff length_replicate root_simps(3) state_public_key.simps(2) is_blank.simps(1) node_state.exhaust option.distinct(1))
qed

end
