(* ===== verification/Cocoa_Welcome.thy ===== *)
theory Cocoa_Welcome
  imports Cocoa_Sample
begin

text \<open>
  Group creation and joining (\<open>operations/init.rs\<close>) and the welcome that an addition sends
  (\<open>create_welcome_message\<close> and \<open>serialise_tree_info\<close> of \<open>operations/add.rs\<close>). The coins of a
  welcome are those of the encapsulation, the nonce and those of the signature.
\<close>

section \<open>The signed body\<close>

definition WELCOME_INFO_PLAINTEXT_SIZE :: nat where "WELCOME_INFO_PLAINTEXT_SIZE = 64"
definition WELCOME_KEY_CONTEXT :: string where "WELCOME_KEY_CONTEXT = ''cocoa-sa-welcome-key-v1''"
definition WELCOME_SIGN_CONTEXT :: bytes where "WELCOME_SIGN_CONTEXT = ascii ''cocoa-sa-welcome-sign-v1''"
definition WELCOME_ADD_AAD :: bytes where "WELCOME_ADD_AAD = ascii ''cocoa-welcome-add''"

text \<open>\<open>u32::try_from(len).unwrap_or(u32::MAX)\<close>.\<close>

definition sat_len :: "'a list \<Rightarrow> bytes" where
  "sat_len xs = le_bytes 4 (if length xs < 2 ^ 32 then of_nat (length xs) else - 1 :: u32)"

definition welcome_sign_body :: "group_id \<Rightarrow> u64 \<Rightarrow> u32 \<Rightarrow> u32 \<Rightarrow> u32 \<Rightarrow> bytes \<Rightarrow> bytes \<Rightarrow> bytes" where
  "welcome_sign_body gid epoch_number leaf_position tree_depth member_count encapsulation encrypted_info =
     gid @ le_bytes 8 epoch_number @ le_bytes 4 leaf_position @ le_bytes 4 tree_depth @ le_bytes 4 member_count
       @ sat_len encapsulation @ encapsulation @ sat_len encrypted_info @ encrypted_info"

record group_welcome =
  wl_group_id :: group_id
  wl_epoch :: u64
  wl_leaf_position :: u32
  wl_tree_depth :: u32
  wl_member_count :: u32
  wl_encrypted_info :: bytes
  wl_encapsulation :: bytes
  wl_signature :: hybrid_signature

definition welcome_body :: "group_welcome \<Rightarrow> bytes" where
  "welcome_body w = welcome_sign_body (wl_group_id w) (wl_epoch w) (wl_leaf_position w) (wl_tree_depth w)
     (wl_member_count w) (wl_encapsulation w) (wl_encrypted_info w)"

section \<open>Creating a group\<close>

record welcome_coins =
  wc_kem :: kem_coins
  wc_nonce :: "bytes option"
  wc_sign :: sign_coins

definition derive_welcome_key :: "primitives \<Rightarrow> bytes \<Rightarrow> bytes" where
  "derive_welcome_key p shared_secret = blake3_derive_key p WELCOME_KEY_CONTEXT shared_secret"

text \<open>One turn of the loop over the bundles, for the \<open>i\<close>-th of them.\<close>

definition make_welcome ::
  "primitives \<Rightarrow> sig_suite \<Rightarrow> welcome_coins \<Rightarrow> identity_keypair \<Rightarrow> group_id \<Rightarrow> bytes \<Rightarrow> bytes \<Rightarrow> u32 \<Rightarrow> u32
     \<Rightarrow> nat \<Rightarrow> hybrid_bundle \<Rightarrow> group_welcome outcome" where
  "make_welcome p g c identity gid secret transcript tree_depth total_members i bundle =
     (let leaf_position = of_nat (i + 1) :: u32 in
      bind_out (kem_encapsulate p (wc_kem c) (hb_identity_kem bundle)) (\<lambda>(shared_secret, encap).
      let aead_key = derive_welcome_key p shared_secret; plaintext = secret @ transcript in
      bind_out (of_result (ok_or RngFailure (wc_nonce c))) (\<lambda>nonce.
      bind_out (of_result (aead_encrypt_committing p aead_key nonce plaintext gid)) (\<lambda>ciphertext.
      let encrypted_info = nonce @ ciphertext; encapsulation = encapsulation_to_bytes encap;
          sign_body = welcome_sign_body gid 0 leaf_position tree_depth total_members encapsulation encrypted_info in
      bind_out (of_result (sign_with_context p g (wc_sign c) (id_signing identity) sign_body WELCOME_SIGN_CONTEXT)) (\<lambda>signature.
      Done \<lparr>wl_group_id = gid, wl_epoch = 0, wl_leaf_position = leaf_position, wl_tree_depth = tree_depth,
        wl_member_count = total_members, wl_encrypted_info = encrypted_info, wl_encapsulation = encapsulation,
        wl_signature = signature\<rparr>)))))"

fun make_welcomes ::
  "primitives \<Rightarrow> sig_suite \<Rightarrow> (nat \<Rightarrow> welcome_coins) \<Rightarrow> identity_keypair \<Rightarrow> group_id \<Rightarrow> bytes \<Rightarrow> bytes \<Rightarrow> u32 \<Rightarrow> u32
     \<Rightarrow> nat \<Rightarrow> hybrid_bundle list \<Rightarrow> group_welcome list outcome" where
  "make_welcomes p g c identity gid secret transcript tree_depth total_members i [] = Done []"
| "make_welcomes p g c identity gid secret transcript tree_depth total_members i (b # bs) =
     bind_out (make_welcome p g (c i) identity gid secret transcript tree_depth total_members i b) (\<lambda>w.
     bind_out (make_welcomes p g c identity gid secret transcript tree_depth total_members (Suc i) bs) (\<lambda>ws.
     Done (w # ws)))"

text \<open>\<open>(len as u32).saturating_add(1)\<close>.\<close>

definition total_members_for :: "'a list \<Rightarrow> u32" where
  "total_members_for bundles = (let n = of_nat (length bundles) :: u32 in if n = - 1 then - 1 else n + 1)"

definition init_create_group ::
  "primitives \<Rightarrow> sig_suite \<Rightarrow> bytes option \<Rightarrow> bytes option \<Rightarrow> (nat \<Rightarrow> welcome_coins) \<Rightarrow> identity_keypair \<Rightarrow> kem_keypair
     \<Rightarrow> user_id \<Rightarrow> hybrid_bundle list \<Rightarrow> (cocoa_session \<times> group_welcome list) outcome" where
  "init_create_group p g gid_rand secret_rand c identity kp uid bundles =
     (let total_members = total_members_for bundles in
      bind_out (or_panic (check_group_growth_limits total_members)) (\<lambda>limits.
      bind_out (of_result limits) (\<lambda>_.
      bind_out (of_result (ok_or RngFailure gid_rand)) (\<lambda>gid.
      bind_out (of_result (ok_or RngFailure secret_rand)) (\<lambda>secret.
      let transcript = zero32 in
      bind_out (create_group p gid uid kp total_members secret) (\<lambda>session.
      bind_out (make_welcomes p g c identity gid secret transcript (view_depth (session_tree session)) total_members 0 bundles) (\<lambda>welcomes.
      Done (session, welcomes))))))))"

section \<open>The welcome of an addition\<close>

record welcome_info =
  wi_init_secret :: bytes
  wi_transcript_hash :: bytes
  wi_delta_root :: bytes
  wi_tree_info :: bytes

definition welcome_info_to_bytes :: "welcome_info \<Rightarrow> bytes" where
  "welcome_info_to_bytes i = wi_init_secret i @ wi_transcript_hash i @ wi_delta_root i @ wi_tree_info i"

text \<open>The trait parameter is the byte string of the information.\<close>

definition encrypt_welcome_info ::
  "primitives \<Rightarrow> welcome_coins \<Rightarrow> bytes \<Rightarrow> kem_public_key \<Rightarrow> (bytes \<times> bytes) outcome" where
  "encrypt_welcome_info p c info recipient_key =
     bind_out (kem_encapsulate p (wc_kem c) recipient_key) (\<lambda>(shared_secret, encap).
     let aead_key = derive_welcome_key p shared_secret in
     bind_out (of_result (ok_or RngFailure (wc_nonce c))) (\<lambda>nonce.
     bind_out (of_result (aead_encrypt_committing p aead_key nonce info WELCOME_ADD_AAD)) (\<lambda>ciphertext.
     Done (nonce @ ciphertext, encapsulation_to_bytes encap))))"

definition decrypt_welcome_info :: "primitives \<Rightarrow> bytes \<Rightarrow> bytes \<Rightarrow> kem_keypair \<Rightarrow> bytes outcome" where
  "decrypt_welcome_info p encrypted_info encapsulation_bytes our_kem =
     (if length encrypted_info < 24 then Fail MalformedMessage
      else bind_out (of_result (encapsulation_from_bytes encapsulation_bytes)) (\<lambda>encapsulation.
      bind_out (kem_decapsulate p our_kem encapsulation) (\<lambda>shared_secret.
      let aead_key = derive_welcome_key p shared_secret in
      of_result (aead_decrypt_committing p aead_key (take 24 encrypted_info) (drop 24 encrypted_info) WELCOME_ADD_AAD))))"

definition serialise_tree_node :: "tree_view \<Rightarrow> node_index \<Rightarrow> bytes option" where
  "serialise_tree_node tree i = do {
     found \<leftarrow> view_get tree i;
     Some (le_bytes 4 (depth i) @ le_bytes 4 (position i) @
       (case Option.bind found (\<lambda>n. state_public_key (node_st n)) of
          Some pk \<Rightarrow> [1] @ le_bytes 2 (of_nat (length (kem_pk_to_bytes pk)) :: u16) @ kem_pk_to_bytes pk
            @ (case Option.bind found (\<lambda>n. state_parent_hash (node_st n)) of
                 Some (h1, h2) \<Rightarrow> h1 @ h2 | None \<Rightarrow> zero32 @ zero32)
        | None \<Rightarrow> [0])) }"

definition serialise_tree_info :: "cocoa_session \<Rightarrow> bytes option" where
  "serialise_tree_info s = do {
     path \<leftarrow> path_to_root (leaf (view_depth (session_tree s)) (our_leaf_position s));
     map_option concat (those (map (serialise_tree_node (session_tree s)) path)) }"

definition create_welcome_message ::
  "primitives \<Rightarrow> sig_suite \<Rightarrow> welcome_coins \<Rightarrow> cocoa_session \<Rightarrow> identity_keypair \<Rightarrow> hybrid_bundle \<Rightarrow> u32 \<Rightarrow> u32
     \<Rightarrow> bytes \<Rightarrow> bytes \<Rightarrow> group_welcome outcome" where
  "create_welcome_message p g c s identity bundle new_position tree_depth delta_root new_transcript =
     bind_out (or_panic (serialise_tree_info s)) (\<lambda>tree_info.
     let info = \<lparr>wi_init_secret = init_secret (secrets (session_epoch s)), wi_transcript_hash = new_transcript,
       wi_delta_root = delta_root, wi_tree_info = tree_info\<rparr> in
     bind_out (encrypt_welcome_info p c (welcome_info_to_bytes info) (otk_kem (hb_one_time_key bundle))) (\<lambda>(encrypted_info, encapsulation).
     bind_out (or_panic (checked_add (session_epoch_number s) 1)) (\<lambda>n.
     bind_out (or_panic (checked_add new_position 1)) (\<lambda>member_count.
     let sign_body = welcome_sign_body (group_id s) n new_position tree_depth member_count encapsulation encrypted_info in
     bind_out (of_result (sign_with_context p g (wc_sign c) (id_signing identity) sign_body WELCOME_SIGN_CONTEXT)) (\<lambda>signature.
     Done \<lparr>wl_group_id = group_id s, wl_epoch = n, wl_leaf_position = new_position, wl_tree_depth = tree_depth,
       wl_member_count = member_count, wl_encrypted_info = encrypted_info, wl_encapsulation = encapsulation,
       wl_signature = signature\<rparr>)))))"

section \<open>Joining\<close>

text \<open>The parser walks by offset; the rest of the buffer stands for it. Slices are shorter than
  \<open>isize::MAX\<close>, so none of its checked additions overflows.\<close>

function parse_welcome_tree_info :: "bytes \<Rightarrow> node_update list result" where
  "parse_welcome_tree_info bs =
     (if bs = [] then Inr []
      else if length bs < 9 then Inl MalformedMessage
      else let i = node_new (le_word (sub_slice 0 4 bs)) (le_word (sub_slice 4 8 bs)) in
        if bs ! 8 = 1
        then (if length bs < 11 then Inl MalformedMessage
          else let pk_end = 11 + unat (le_word (sub_slice 9 11 bs) :: u16) in
            if length bs < pk_end + 64 then Inl MalformedMessage
            else tryR (kem_pk_from_bytes (sub_slice 11 pk_end bs)) (\<lambda>pk.
              tryR (parse_welcome_tree_info (drop (pk_end + 64) bs)) (\<lambda>nodes.
              Inr (\<lparr>nu_index = i, nu_public_key = pk,
                nu_parent_hash = (sub_slice pk_end (pk_end + 32) bs, sub_slice (pk_end + 32) (pk_end + 64) bs),
                nu_seeds = []\<rparr> # nodes))))
        else parse_welcome_tree_info (drop 9 bs))"
  by pat_completeness auto
termination
  by (relation "measure length") auto

declare parse_welcome_tree_info.simps [simp del]

fun advance_times :: "primitives \<Rightarrow> bytes \<Rightarrow> nat \<Rightarrow> cocoa_session \<Rightarrow> cocoa_session option" where
  "advance_times p transcript 0 s = Some s"
| "advance_times p transcript (Suc n) s = Option.bind (advance_epoch p zero32 transcript s) (advance_times p transcript n)"

definition process_welcome ::
  "primitives \<Rightarrow> sig_suite \<Rightarrow> user_id \<Rightarrow> kem_keypair \<Rightarrow> group_welcome \<Rightarrow> identity_public_key \<Rightarrow> cocoa_session outcome" where
  "process_welcome p g uid our_kem w committer =
     bind_out (of_result (check_size_limits (saturating_add (length (wl_encrypted_info w)) (length (wl_encapsulation w)))
       0 (wl_tree_depth w) (wl_member_count w) 0)) (\<lambda>_.
     bind_out (of_result (verify_with_context p g (ipk_signing committer) (welcome_body w) WELCOME_SIGN_CONTEXT (wl_signature w))) (\<lambda>_.
     bind_out (of_result (encapsulation_from_bytes (wl_encapsulation w))) (\<lambda>encapsulation.
     bind_out (kem_decapsulate p our_kem encapsulation) (\<lambda>shared_secret.
     let aead_key = derive_welcome_key p shared_secret in
     if length (wl_encrypted_info w) < 24 then Fail MalformedMessage
     else bind_out (of_result (aead_decrypt_committing p aead_key (take 24 (wl_encrypted_info w))
         (drop 24 (wl_encrypted_info w)) (wl_group_id w))) (\<lambda>plaintext.
     if length plaintext < WELCOME_INFO_PLAINTEXT_SIZE then Fail MalformedMessage
     else let secret = take 32 plaintext; transcript = sub_slice 32 WELCOME_INFO_PLAINTEXT_SIZE plaintext;
              tree_info = drop WELCOME_INFO_PLAINTEXT_SIZE plaintext in
     bind_out (if tree_info = [] then Done ()
         else bind_out (of_result (parse_welcome_tree_info tree_info)) (\<lambda>nodes.
           verify_welcome_tree_info p nodes (wl_tree_depth w))) (\<lambda>_.
     or_panic (advance_times p transcript (unat (wl_epoch w))
       (join_group p (wl_group_id w) uid our_kem (wl_leaf_position w) (wl_tree_depth w) (wl_member_count w) secret transcript))))))))"

section \<open>The founders\<close>

definition welcome_coins_ok :: "welcome_coins \<Rightarrow> bool" where
  "welcome_coins_ok c \<longleftrightarrow> kem_coins_ok (wc_kem c) \<and> (\<forall>n. wc_nonce c = Some n \<longrightarrow> length n = 24)"

lemma make_welcomes_nth:
  assumes "make_welcomes p g c identity gid secret tr td cnt i bs = Done ws"
  shows "length ws = length bs \<and> (\<forall>k < length bs. make_welcome p g (c (i + k)) identity gid secret tr td cnt (i + k) (bs ! k) = Done (ws ! k))"
  using assms
proof (induction bs arbitrary: i ws)
  case (Cons b bs)
  then obtain w ws' where w: "make_welcome p g (c i) identity gid secret tr td cnt i b = Done w"
    "make_welcomes p g c identity gid secret tr td cnt (Suc i) bs = Done ws'" "ws = w # ws'"
    by (auto simp: bind_out_eq_Done)
  show ?case using Cons.IH [OF w(2)] w(1,3) by (auto simp: nth_Cons split: nat.splits)
qed simp

lemma make_welcome_Done:
  assumes "make_welcome p g c identity gid secret tr td cnt i b = Done w"
  obtains ss encap nonce ct where
    "kem_encapsulate p (wc_kem c) (hb_identity_kem b) = Done (ss, encap)" "wc_nonce c = Some nonce"
    "aead_encrypt_committing p (derive_welcome_key p ss) nonce (secret @ tr) gid = Inr ct"
    "sign_with_context p g (wc_sign c) (id_signing identity) (welcome_body w) WELCOME_SIGN_CONTEXT = Inr (wl_signature w)"
    "wl_group_id w = gid" "wl_epoch w = 0" "wl_leaf_position w = of_nat (i + 1)" "wl_tree_depth w = td"
    "wl_member_count w = cnt" "wl_encrypted_info w = nonce @ ct" "wl_encapsulation w = encapsulation_to_bytes encap"
  using assms
  by (auto simp: make_welcome_def bind_out_eq_Done Let_def ok_or_eq_Inr welcome_body_def split: prod.splits intro: that)

lemma signed_welcome_verifies:
  assumes "committer_identity g identity" and "sign_with_context p g c (id_signing identity) body WELCOME_SIGN_CONTEXT = Inr sg"
  shows "verify_with_context p g (ipk_signing (id_public identity)) body WELCOME_SIGN_CONTEXT sg = Inr ()"
  using hybrid_context.verifies [of g "id_signing identity" p c "(WELCOME_SIGN_CONTEXT, body)" sg] assms
  by (simp add: committer_identity_def)

lemma init_create_group_Done:
  assumes "init_create_group p g gr sr c identity kp uid bundles = Done (session, welcomes)"
  obtains gid secret where "gr = Some gid" "sr = Some secret"
    "check_group_growth_limits (total_members_for bundles) = Some (Inr ())"
    "create_group p gid uid kp (total_members_for bundles) secret = Done session"
    "make_welcomes p g c identity gid secret zero32 (view_depth (session_tree session)) (total_members_for bundles) 0 bundles = Done welcomes"
  using assms
  by (auto simp: init_create_group_def bind_out_eq_Done Let_def ok_or_eq_Inr intro: that)

lemma create_group_Done:
  assumes "create_group p gid uid kp n secret = Done s"
  obtains d where "depth_for_members n = Some d"
    "s = \<lparr>group_id = gid, our_user_id = uid, our_leaf_position = 0, our_keypair = kp,
        session_tree = set_member_count n (view_new 0 d), session_epoch = epoch_initial p secret zero32,
        transcript_hash = zero32, members = {uid}\<rparr>"
  using assms by (auto simp: create_group_def bind_out_eq_Done Let_def split: if_splits intro: that)

text \<open>C13. The founders of a group start in step: when the creator's call succeeds, every founding
  member who processes its welcome with its identity key pair obtains a session of the same
  group, epoch, secrets and transcript, with the same tree, at its own leaf; the member
  registries know only their owner.\<close>

theorem founders_join:
  assumes p: "prims_ok p" and c: "committer_identity g identity" "\<forall>k. welcome_coins_ok (c k)"
    and created: "init_create_group p g gr sr c identity kp uid bundles = Done (session, welcomes)"
    and sizes: "\<forall>x. gr = Some x \<longrightarrow> length x = 32" "\<forall>x. sr = Some x \<longrightarrow> length x = 32"
    and i: "i < length bundles" and key: "kem_pair p kp_i (hb_identity_kem (bundles ! i))"
  shows "\<exists>s. process_welcome p g uid_i kp_i (welcomes ! i) (id_public identity) = Done s
    \<and> in_step session s \<and> session_epoch s = session_epoch session \<and> same_tree (session_tree session) (session_tree s)
    \<and> our_leaf_position s = of_nat (i + 1) \<and> our_keypair s = kp_i \<and> members session = {uid} \<and> members s = {uid_i}"
proof -
  obtain gid secret where cr: "gr = Some gid" "sr = Some secret"
    "check_group_growth_limits (total_members_for bundles) = Some (Inr ())"
    "create_group p gid uid kp (total_members_for bundles) secret = Done session"
    "make_welcomes p g c identity gid secret zero32 (view_depth (session_tree session)) (total_members_for bundles) 0 bundles = Done welcomes"
    using init_create_group_Done [OF created] .
  let ?n = "total_members_for bundles"
  obtain d where d: "depth_for_members ?n = Some d" and s0: "session = \<lparr>group_id = gid, our_user_id = uid, our_leaf_position = 0,
      our_keypair = kp, session_tree = set_member_count ?n (view_new 0 d), session_epoch = epoch_initial p secret zero32,
      transcript_hash = zero32, members = {uid}\<rparr>"
    using create_group_Done [OF cr(4)] .
  have td: "view_depth (session_tree session) = d" by (simp add: s0 set_member_count_def view_new_def)
  let ?w = "welcomes ! i"
  have "make_welcome p g (c i) identity gid secret zero32 d ?n i (bundles ! i) = Done ?w"
    using make_welcomes_nth [OF cr(5)] i by (simp add: td)
  from make_welcome_Done [OF this] obtain ss encap nonce ct where w:
    "kem_encapsulate p (wc_kem (c i)) (hb_identity_kem (bundles ! i)) = Done (ss, encap)" "wc_nonce (c i) = Some nonce"
    "aead_encrypt_committing p (derive_welcome_key p ss) nonce (secret @ zero32) gid = Inr ct"
    "sign_with_context p g (wc_sign (c i)) (id_signing identity) (welcome_body ?w) WELCOME_SIGN_CONTEXT = Inr (wl_signature ?w)"
    and wf: "wl_group_id ?w = gid" "wl_epoch ?w = 0" "wl_leaf_position ?w = of_nat (i + 1)" "wl_tree_depth ?w = d"
    "wl_member_count ?w = ?n" "wl_encrypted_info ?w = nonce @ ct" "wl_encapsulation ?w = encapsulation_to_bytes encap" .
  have nonce: "length nonce = 24" "kem_coins_ok (wc_kem (c i))" using c(2) w(2) by (auto simp: welcome_coins_ok_def)
  have len: "length secret = 32" "length gid = 32" using cr(1,2) sizes by auto
  obtain x where x: "aead_encrypt p (derive_welcome_key p ss) nonce (secret @ zero32) gid = Inr x"
    "ct = x @ aead_commitment p (derive_welcome_key p ss) nonce gid x"
    using w(3) by (auto simp: aead_encrypt_committing_def try_simps)
  have ct: "length ct = 112" using x aead_round_trip(2) [OF p x(1)] p len(1) by simp
  have encap: "encapsulation_wf encap" using encapsulate_wf [OF p nonce(2) w(1)] .
  have sat: "saturating_add (length (wl_encrypted_info ?w)) (length (wl_encapsulation ?w)) = 1231"
    using ct nonce(1) length_kem_codecs(2) [OF encap] by (simp add: wf saturating_add_def USIZE_MAX_def)
  have "unat ?n \<le> 2 ^ 20" using cr(3) growth_limits_eq [of ?n] by (auto split: if_splits)
  then have lim: "check_size_limits 1231 0 d ?n 0 = Inr ()"
    using cr(3) d by (auto simp: check_group_growth_limits_def check_size_limits_def MAX_MESSAGE_SIZE_def split: if_splits)
  have dec: "kem_decapsulate p kp_i encap = Done ss" by (rule hybrid.correct [OF key nonce(2) w(1)])
  have pt: "aead_decrypt_committing p (derive_welcome_key p ss) nonce ct gid = Inr (secret @ zero32)"
    by (rule committing_opens [OF p w(3)])
  have "process_welcome p g uid_i kp_i ?w (id_public identity)
      = Done (join_group p gid uid_i kp_i (of_nat (i + 1)) d ?n secret zero32)"
    using signed_welcome_verifies [of g identity p "wc_sign (c i)" "welcome_body ?w" "wl_signature ?w"] c(1) w(4) encapsulation.decodes [OF encap] dec pt nonce(1) len lim sat ct
    by (simp add: process_welcome_def wf WELCOME_INFO_PLAINTEXT_SIZE_def sub_slice_def Let_def)
  then show ?thesis
    by (simp add: s0 join_group_def in_step_def same_tree_def set_member_count_def view_new_def)
qed

definition toy_welcome_coins :: welcome_coins where
  "toy_welcome_coins = \<lparr>wc_kem = toy_coins, wc_nonce = Some (replicate 24 4), wc_sign = (Some (replicate 114 5), [])\<rparr>"

definition toy_hybrid_bundle :: hybrid_bundle where
  "toy_hybrid_bundle = hybrid_bundle_new (id_public toy_identity) \<lparr>otk_kem = toy_key, otk_id = replicate 8 0\<rparr>"

lemma toy_welcome_coins_ok: "welcome_coins_ok toy_welcome_coins"
  using toy_coins_ok by (simp add: welcome_coins_ok_def toy_welcome_coins_def)

lemma toy_signs_welcome:
  "\<exists>s. sign_with_context toy_prims toy_suite (wc_sign toy_welcome_coins) (id_signing toy_identity) body WELCOME_SIGN_CONTEXT = Inr s"
  using toy_signs by (simp add: sign_with_context_def toy_welcome_coins_def WELCOME_SIGN_CONTEXT_def bop_context_region_def ascii_def)

lemma toy_founds:
  obtains session ws where "init_create_group toy_prims toy_suite (Some zero32) (Some zero32) (\<lambda>_. toy_welcome_coins)
     toy_identity toy_kem_keypair zero32 [toy_hybrid_bundle] = Done (session, ws)"
proof -
  have n: "total_members_for [toy_hybrid_bundle] = 2" by (simp add: total_members_for_def Let_def)
  have lim: "check_group_growth_limits 2 = Some (Inr ())" by (simp add: growth_limits_eq)
  obtain d where "depth_for_members 2 = Some d" using depth_for_members_eq [of 2] by blast
  then obtain session where s: "create_group toy_prims zero32 zero32 toy_kem_keypair 2 zero32 = Done session"
    by (simp add: create_group_def Let_def)
  obtain ss e where "kem_encapsulate toy_prims toy_coins toy_key = Done (ss, e)" using toy_encapsulates by (auto simp: toy_key_def)
  moreover have "hb_identity_kem toy_hybrid_bundle = toy_key"
    by (simp add: toy_hybrid_bundle_def hybrid_bundle_new_def toy_identity_def identity_of_def toy_key_def)
  ultimately have "\<exists>w. make_welcome toy_prims toy_suite toy_welcome_coins toy_identity zero32 zero32 zero32 td 2 0 toy_hybrid_bundle = Done w" for td
    using toy_signs_welcome
    by (simp add: make_welcome_def toy_welcome_coins_def aead_encrypt_committing_def toy_seals Let_def) (metis bind_out_simps(1) of_result.simps(2))
  then obtain w where w: "make_welcome toy_prims toy_suite toy_welcome_coins toy_identity zero32 zero32 zero32
      (view_depth (session_tree session)) 2 0 toy_hybrid_bundle = Done w" by blast
  show thesis by (rule that) (simp add: init_create_group_def n lim s w)
qed

theorem founders_join_witness:
  "\<exists>session ws s. init_create_group toy_prims toy_suite (Some zero32) (Some zero32) (\<lambda>_. toy_welcome_coins)
     toy_identity toy_kem_keypair zero32 [toy_hybrid_bundle] = Done (session, ws)
    \<and> process_welcome toy_prims toy_suite (replicate 32 1) toy_kem_keypair (ws ! 0) (id_public toy_identity) = Done s
    \<and> session_epoch s = session_epoch session"
proof -
  obtain session ws where f: "init_create_group toy_prims toy_suite (Some zero32) (Some zero32) (\<lambda>_. toy_welcome_coins)
     toy_identity toy_kem_keypair zero32 [toy_hybrid_bundle] = Done (session, ws)" by (rule toy_founds)
  have "kem_pair toy_prims toy_kem_keypair (hb_identity_kem ([toy_hybrid_bundle] ! 0))"
    using toy_kem_pair by (simp add: toy_hybrid_bundle_def hybrid_bundle_new_def toy_identity_def identity_of_def)
  from founders_join [OF toy_prims_ok toy_committer(2) _ f _ _ _ this, of "replicate 32 1"] f show ?thesis
    using toy_welcome_coins_ok by auto
qed

section \<open>What an addition sends to its joiner\<close>

text \<open>The nodes of a path that the tree information carries: the populated ones.\<close>

definition carried_node :: "tree_view \<Rightarrow> node_index \<Rightarrow> node_update list" where
  "carried_node tree i =
     (case view_get tree i of
        Some (Some n) \<Rightarrow> (case node_st n of
            Populated d \<Rightarrow> [\<lparr>nu_index = i, nu_public_key = pn_public_key d, nu_parent_hash = pn_parent_hash d, nu_seeds = []\<rparr>]
          | Blank _ \<Rightarrow> [])
      | _ \<Rightarrow> [])"

definition tree_keys_ok :: "tree_view \<Rightarrow> bool" where
  "tree_keys_ok t \<longleftrightarrow> (\<forall>n \<in> set (view_iter t). \<forall>d. node_st n = Populated d \<longrightarrow>
     public_key_valid (pn_public_key d) \<and> length (fst (pn_parent_hash d)) = 32 \<and> length (snd (pn_parent_hash d)) = 32)"

lemma parse_serialised_node:
  assumes "tree_keys_ok t" and "serialise_tree_node t i = Some bs"
  shows "parse_welcome_tree_info (bs @ rest) = tryR (parse_welcome_tree_info rest) (\<lambda>ns. Inr (carried_node t i @ ns))"
proof -
  obtain found where f: "view_get t i = Some found" and bs: "bs = le_bytes 4 (depth i) @ le_bytes 4 (position i) @
       (case Option.bind found (\<lambda>n. state_public_key (node_st n)) of
          Some pk \<Rightarrow> [1] @ le_bytes 2 (of_nat (length (kem_pk_to_bytes pk)) :: u16) @ kem_pk_to_bytes pk
            @ (case Option.bind found (\<lambda>n. state_parent_hash (node_st n)) of
                 Some (h1, h2) \<Rightarrow> h1 @ h2 | None \<Rightarrow> zero32 @ zero32)
        | None \<Rightarrow> [0])"
    using assms(2) by (auto simp: serialise_tree_node_def bind_eq_Some_conv)
  have i: "node_new (depth i) (position i) = i" by (cases i) (simp add: node_new_def)
  have idx: "node_new (le_word (sub_slice 0 4 (le_bytes 4 (depth i) @ le_bytes 4 (position i) @ xs)))
      (le_word (sub_slice 4 8 (le_bytes 4 (depth i) @ le_bytes 4 (position i) @ xs))) = i" for xs
    by (simp add: slice_append_skip sub_slice_def le_word_le_bytes i)
  show ?thesis
  proof (cases "Option.bind found (\<lambda>n. state_public_key (node_st n))")
    case None
    then have "carried_node t i = []"
      using f by (auto simp: carried_node_def bind_eq_None_conv split: option.splits node_state.splits)
    then show ?thesis
      by (subst parse_welcome_tree_info.simps) (simp add: bs None nth_append tryR_def split: sum.splits)
  next
    case (Some pk)
    then obtain n where "found = Some n" "state_public_key (node_st n) = Some pk" by (auto simp: bind_eq_Some_conv)
    then obtain d where n: "found = Some n" "node_st n = Populated d" "pn_public_key d = pk"
      by (cases "node_st n") auto
    have "n \<in> set (view_iter t)"
      using f n(1) by (auto simp: view_get_def view_iter_def dest!: map_of_SomeD intro!: image_eqI)
    with assms(1) n have ok: "public_key_valid pk" "length (fst (pn_parent_hash d)) = 32" "length (snd (pn_parent_hash d)) = 32"
      unfolding tree_keys_ok_def by blast+
    obtain h1 h2 where h: "pn_parent_hash d = (h1, h2)" "length h1 = 32" "length h2 = 32" using ok(2,3) by (cases "pn_parent_hash d") simp
    have len: "length (kem_pk_to_bytes pk) = 1214" using ok(1) by (simp add: public_key_valid_def length_kem_codecs)
    have body: "bs @ rest = (le_bytes 4 (depth i) @ le_bytes 4 (position i)) @ [1] @ le_bytes 2 (1214 :: u16) @ kem_pk_to_bytes pk @ h1 @ h2 @ rest"
      using Some n h by (simp add: bs len)
    have w: "unat (le_word (sub_slice 9 11 (bs @ rest)) :: u16) = 1214" "(bs @ rest) ! 8 = 1"
      "sub_slice 11 1225 (bs @ rest) = kem_pk_to_bytes pk" "sub_slice 1225 1257 (bs @ rest) = h1"
      "sub_slice 1257 1289 (bs @ rest) = h2" "drop 1289 (bs @ rest) = rest" "length (bs @ rest) = 1289 + length rest"
      unfolding body using len h by (simp_all add: slice_append_skip sub_slice_def le_word_le_bytes nth_append)
    have ix: "node_new (le_word (sub_slice 0 4 (bs @ rest))) (le_word (sub_slice 4 8 (bs @ rest))) = i"
      using idx by (simp add: body)
    obtain x where x: "bs @ rest = x" by simp
    have "x \<noteq> []" using w(7) x by auto
    with w ix kem_pk.decodes [OF ok(1)] have "parse_welcome_tree_info (bs @ rest)
        = tryR (parse_welcome_tree_info rest) (\<lambda>ns. Inr (\<lparr>nu_index = i, nu_public_key = pk, nu_parent_hash = (h1, h2), nu_seeds = []\<rparr> # ns))"
      unfolding x by (subst parse_welcome_tree_info.simps) (simp add: Let_def)
    then show ?thesis using f n h by (simp add: carried_node_def)
  qed
qed

lemma parse_serialised_nodes:
  assumes "tree_keys_ok t" and "those (map (serialise_tree_node t) is) = Some bss"
  shows "parse_welcome_tree_info (concat bss) = Inr (concat (map (carried_node t) is))"
  using assms(2)
proof (induction "is" arbitrary: bss)
  case Nil
  then show ?case by (simp add: parse_welcome_tree_info.simps)
next
  case (Cons i "is")
  then obtain bs bss' where b: "serialise_tree_node t i = Some bs" "those (map (serialise_tree_node t) is) = Some bss'" "bss = bs # bss'"
    by (auto split: option.splits)
  show ?case using parse_serialised_node [OF assms(1) b(1)] Cons.IH [OF b(2)] by (simp add: b(3))
qed

lemma encrypted_welcome_opens:
  assumes p: "prims_ok p" and c: "welcome_coins_ok c" and key: "kem_pair p kp pk"
    and e: "encrypt_welcome_info p c info pk = Done (encrypted, encapsulation)"
  shows "\<exists>ss encap nonce ct. kem_decapsulate p kp encap = Done ss \<and> encapsulation_from_bytes encapsulation = Inr encap
    \<and> encrypted = nonce @ ct \<and> length nonce = 24
    \<and> aead_decrypt_committing p (derive_welcome_key p ss) nonce ct WELCOME_ADD_AAD = Inr info"
proof -
  obtain ss encap nonce ct where w: "kem_encapsulate p (wc_kem c) pk = Done (ss, encap)" "wc_nonce c = Some nonce"
    "aead_encrypt_committing p (derive_welcome_key p ss) nonce info WELCOME_ADD_AAD = Inr ct"
    "encrypted = nonce @ ct" "encapsulation = encapsulation_to_bytes encap"
    using e by (auto simp: encrypt_welcome_info_def bind_out_eq_Done Let_def ok_or_eq_Inr split: prod.splits)
  have ok: "kem_coins_ok (wc_kem c)" "length nonce = 24" using c w(2) by (auto simp: welcome_coins_ok_def)
  have "encapsulation_from_bytes encapsulation = Inr encap"
    unfolding w(5) by (rule encapsulation.decodes [OF encapsulate_wf [OF p ok(1) w(1)]])
  with hybrid.correct [OF key ok(1) w(1)] committing_opens [OF p w(3)] w(4) ok(2) show ?thesis by blast
qed

text \<open>C34. The welcome that an addition sends opens with \<open>decrypt_welcome_info\<close>, to the secret, transcript,
  root seed and tree nodes that the adder put in, but it cannot be joined with: the adder seals it
  with the associated data \<open>cocoa-welcome-add\<close>, while \<open>process_welcome\<close> opens with the group
  identifier, so a join by its addressee exhibits two different commitment inputs with the same
  keyed hash under the encapsulated key.\<close>

theorem add_welcome_cannot_join:
  assumes p: "prims_ok p" and c: "welcome_coins_ok c" and key: "kem_pair p kp (otk_kem (hb_one_time_key bundle))"
    and made: "create_welcome_message p g c s identity bundle new_position td delta transcript = Done w"
    and s: "tree_keys_ok (session_tree s)" "length (group_id s) = 32"
  shows "(\<exists>tree_info. decrypt_welcome_info p (wl_encrypted_info w) (wl_encapsulation w) kp
        = Done (init_secret (secrets (session_epoch s)) @ transcript @ delta @ tree_info)
      \<and> (\<exists>path. path_to_root (leaf (view_depth (session_tree s)) (our_leaf_position s)) = Some path
          \<and> parse_welcome_tree_info tree_info = Inr (concat (map (carried_node (session_tree s)) path))))
    \<and> (\<exists>ss nonce ct. wl_encrypted_info w = nonce @ ct
      \<and> (\<forall>uid committer joined. process_welcome p g uid kp w committer = Done joined \<longrightarrow>
          commitment_input nonce (group_id s) (take (length ct - 32) ct) \<noteq> commitment_input nonce WELCOME_ADD_AAD (take (length ct - 32) ct)
        \<and> keyed_hash p (derive_key p AEAD_COMMIT_CONTEXT (derive_welcome_key p ss)) (commitment_input nonce (group_id s) (take (length ct - 32) ct))
          = keyed_hash p (derive_key p AEAD_COMMIT_CONTEXT (derive_welcome_key p ss)) (commitment_input nonce WELCOME_ADD_AAD (take (length ct - 32) ct))))"
proof -
  obtain tree_info where ti: "serialise_tree_info s = Some tree_info" and enc: "encrypt_welcome_info p c
      (welcome_info_to_bytes \<lparr>wi_init_secret = init_secret (secrets (session_epoch s)), wi_transcript_hash = transcript,
        wi_delta_root = delta, wi_tree_info = tree_info\<rparr>) (otk_kem (hb_one_time_key bundle))
      = Done (wl_encrypted_info w, wl_encapsulation w)" and gid: "wl_group_id w = group_id s"
    using made by (auto simp: create_welcome_message_def bind_out_eq_Done Let_def split: prod.splits)
  from encrypted_welcome_opens [OF p c key enc] obtain ss encap nonce ct where
    o: "kem_decapsulate p kp encap = Done ss" "encapsulation_from_bytes (wl_encapsulation w) = Inr encap"
      "wl_encrypted_info w = nonce @ ct" "length nonce = 24"
      "aead_decrypt_committing p (derive_welcome_key p ss) nonce ct WELCOME_ADD_AAD
        = Inr (init_secret (secrets (session_epoch s)) @ transcript @ delta @ tree_info)"
    by (auto simp: welcome_info_to_bytes_def)
  have d: "decrypt_welcome_info p (wl_encrypted_info w) (wl_encapsulation w) kp
      = Done (init_secret (secrets (session_epoch s)) @ transcript @ delta @ tree_info)"
    using o by (simp add: decrypt_welcome_info_def Let_def)
  obtain path bss where path: "path_to_root (leaf (view_depth (session_tree s)) (our_leaf_position s)) = Some path"
    "those (map (serialise_tree_node (session_tree s)) path) = Some bss" "tree_info = concat bss"
    using ti by (auto simp: serialise_tree_info_def bind_eq_Some_conv)
  have len: "length WELCOME_ADD_AAD = 17" by (simp add: WELCOME_ADD_AAD_def ascii_def)
  have j: "\<exists>m. aead_decrypt_committing p (derive_welcome_key p ss) nonce ct (group_id s) = Inr m"
    if "process_welcome p g uid kp w committer = Done joined" for uid committer joined
    using that o(1-4) by (auto simp: process_welcome_def bind_out_eq_Done gid Let_def split: if_splits)
  have ne: "commitment_input nonce (group_id s) x \<noteq> commitment_input nonce WELCOME_ADD_AAD x" for x
    using commitment_input_inject [OF o(4,4), of "group_id s" WELCOME_ADD_AAD x] s(2) len by auto
  have eq: "keyed_hash p (derive_key p AEAD_COMMIT_CONTEXT (derive_welcome_key p ss)) (commitment_input nonce (group_id s) (take (length ct - 32) ct))
      = keyed_hash p (derive_key p AEAD_COMMIT_CONTEXT (derive_welcome_key p ss)) (commitment_input nonce WELCOME_ADD_AAD (take (length ct - 32) ct))"
    if "aead_decrypt_committing p (derive_welcome_key p ss) nonce ct (group_id s) = Inr m" for m
    using that o(5) by (auto simp: aead_decrypt_committing_def aead_commitment_def Let_def split: if_splits)
  show ?thesis
  proof (intro conjI)
    show "\<exists>tree_info. decrypt_welcome_info p (wl_encrypted_info w) (wl_encapsulation w) kp
        = Done (init_secret (secrets (session_epoch s)) @ transcript @ delta @ tree_info)
      \<and> (\<exists>path. path_to_root (leaf (view_depth (session_tree s)) (our_leaf_position s)) = Some path
          \<and> parse_welcome_tree_info tree_info = Inr (concat (map (carried_node (session_tree s)) path)))"
      using d path(1) parse_serialised_nodes [OF s(1) path(2)] path(3) by blast
  qed (use o(3) j ne eq in blast)
qed

lemma serialise_tree_info_total:
  assumes "unat (our_leaf_position s) < 2 ^ unat (view_depth (session_tree s))" and "unat (view_depth (session_tree s)) < 32"
  shows "\<exists>bs. serialise_tree_info s = Some bs"
proof -
  let ?t = "session_tree s" and ?path = "path_up (leaf (view_depth (session_tree s)) (our_leaf_position s))"
  have "\<exists>bs. serialise_tree_node ?t i = Some bs" if i: "i \<in> set ?path" for i
  proof -
    have "valid_index i" using path_up_valid [OF assms i] by blast
    then obtain found where "view_get ?t i = Some found" using store.get_total by blast
    then show ?thesis by (simp add: serialise_tree_node_def)
  qed
  then have "\<exists>bss. those (map (serialise_tree_node ?t) is) = Some bss" if "set is \<subseteq> set ?path" for "is"
    using that by (induction "is") fastforce+
  then obtain bss where "those (map (serialise_tree_node ?t) ?path) = Some bss" by blast
  moreover have "path_to_root (leaf (view_depth ?t) (our_leaf_position s)) = Some ?path" using assms(2) by (intro path_to_root_eq) simp
  ultimately show ?thesis by (simp add: serialise_tree_info_def)
qed

lemma toy_welcomes:
  assumes "unat (our_leaf_position s) < 2 ^ unat (view_depth (session_tree s))" and "unat (view_depth (session_tree s)) < 32"
    and "checked_add (session_epoch_number s) 1 = Some n" and "checked_add new_position 1 = Some count"
  shows "\<exists>w. create_welcome_message toy_prims toy_suite toy_welcome_coins s toy_identity toy_hybrid_bundle new_position td delta tr = Done w"
proof -
  obtain ti where ti: "serialise_tree_info s = Some ti" using serialise_tree_info_total [OF assms(1,2)] by blast
  obtain ss e where "kem_encapsulate toy_prims toy_coins toy_key = Done (ss, e)" using toy_encapsulates by (auto simp: toy_key_def)
  moreover have "otk_kem (hb_one_time_key toy_hybrid_bundle) = toy_key" "wc_kem toy_welcome_coins = toy_coins"
    "wc_nonce toy_welcome_coins = Some (replicate 24 4)"
    by (simp_all add: toy_hybrid_bundle_def hybrid_bundle_new_def toy_welcome_coins_def)
  ultimately have e: "\<exists>x y. encrypt_welcome_info toy_prims toy_welcome_coins info (otk_kem (hb_one_time_key toy_hybrid_bundle)) = Done (x, y)" for info
    by (simp add: encrypt_welcome_info_def aead_encrypt_committing_def toy_seals Let_def)
  obtain x y where e: "encrypt_welcome_info toy_prims toy_welcome_coins (welcome_info_to_bytes
      \<lparr>wi_init_secret = init_secret (secrets (session_epoch s)), wi_transcript_hash = tr, wi_delta_root = delta, wi_tree_info = ti\<rparr>)
      (otk_kem (hb_one_time_key toy_hybrid_bundle)) = Done (x, y)" using e by blast
  obtain sg where "sign_with_context toy_prims toy_suite (wc_sign toy_welcome_coins) (id_signing toy_identity)
      (welcome_sign_body (group_id s) n new_position td count y x) WELCOME_SIGN_CONTEXT = Inr sg" using toy_signs_welcome by blast
  then show ?thesis using assms(3,4) by (simp add: create_welcome_message_def ti e)
qed

theorem add_welcome_cannot_join_witness:
  "\<exists>w tree_info. create_welcome_message toy_prims toy_suite toy_welcome_coins (sample_session 0) toy_identity toy_hybrid_bundle 1 1 zero32 zero32 = Done w
    \<and> decrypt_welcome_info toy_prims (wl_encrypted_info w) (wl_encapsulation w) toy_kem_keypair
      = Done (init_secret (secrets (session_epoch (sample_session 0))) @ zero32 @ zero32 @ tree_info)"
proof -
  obtain w where w: "create_welcome_message toy_prims toy_suite toy_welcome_coins (sample_session 0) toy_identity toy_hybrid_bundle 1 1 zero32 zero32 = Done w"
    using toy_welcomes [of "sample_session 0" 1 1 2 1 zero32 zero32]
    by (auto simp: sample_session_def join_group_def set_member_count_def view_new_def session_epoch_number_def epoch_initial_def checked_add_def)
  have key: "kem_pair toy_prims toy_kem_keypair (otk_kem (hb_one_time_key toy_hybrid_bundle))"
    using toy_kem_pair by (simp add: toy_hybrid_bundle_def hybrid_bundle_new_def toy_key_def)
  have "tree_keys_ok (session_tree (sample_session 0))" "length (group_id (sample_session 0)) = 32"
    by (simp_all add: tree_keys_ok_def view_iter_def sample_session_def join_group_def set_member_count_def view_new_def)
  from add_welcome_cannot_join [OF toy_prims_ok toy_welcome_coins_ok key w this] w show ?thesis by blast
qed

end
