(* ===== verification/Cocoa_Add.thy ===== *)
theory Cocoa_Add
  imports Cocoa_Welcome
begin

text \<open>
  Additions (\<open>operations/add.rs\<close>): a member adds another at the first position past the member
  count, growing the tree by one level when that is needed, and every other member processes
  the commit against a grown copy of its tree before it writes anything.
\<close>

section \<open>Operations\<close>

record add_commit =
  ac_group_id :: group_id
  ac_new_member_id :: user_id
  ac_new_leaf_position :: u32
  ac_committer_leaf_position :: u32
  ac_epoch :: u64
  ac_path_updates :: "path_update list"
  ac_signature :: hybrid_signature
  ac_round_hash :: bytes
  ac_confirmation_tag :: bytes

definition is_in_sibling_subtree :: "node_index \<Rightarrow> node_index \<Rightarrow> bool option" where
  "is_in_sibling_subtree path_node target =
     (case sibling path_node of
        None \<Rightarrow> Some False
      | Some s \<Rightarrow> map_option (\<lambda>below. below \<or> target = s) (is_descendant_of target s))"

fun compute_add_resolution_sets_and_keys ::
  "tree_view \<Rightarrow> node_index list \<Rightarrow> hybrid_bundle \<Rightarrow> u32 \<Rightarrow> u32
     \<Rightarrow> (node_index list list \<times> kem_public_key list list) option" where
  "compute_add_resolution_sets_and_keys tree [] bundle tree_depth new_position = Some ([], [])"
| "compute_add_resolution_sets_and_keys tree (path_node # path) bundle tree_depth new_position = do {
     resolution \<leftarrow> compute_lj (view_get tree) (view_depth tree) path_node (unmerged_indices tree);
     pairs \<leftarrow> keyed_nodes (\<lambda>_. Some False) tree resolution;
     below \<leftarrow> is_in_sibling_subtree path_node (leaf tree_depth new_position);
     let new = (if below then [(leaf tree_depth new_position, otk_kem (hb_one_time_key bundle))] else []);
     (sets, keyss) \<leftarrow> compute_add_resolution_sets_and_keys tree path bundle tree_depth new_position;
     Some (map fst (pairs @ new) # sets, map snd (pairs @ new) # keyss) }"

text \<open>A change of the session's tree.\<close>

definition on_tree :: "(tree_view \<Rightarrow> tree_view option) \<Rightarrow> cocoa_session \<Rightarrow> cocoa_session option" where
  "on_tree f s = map_option (\<lambda>t. s\<lparr>session_tree := t\<rparr>) (f (session_tree s))"

definition grow_view :: "u32 \<Rightarrow> tree_view \<Rightarrow> tree_view option" where
  "grow_view count t = map_option snd (grow_if_needed count t)"

text \<open>The coins of the operation are those of the path and of the signature, and of the welcome;
  no key pair is generated.\<close>

definition add_member ::
  "primitives \<Rightarrow> sig_suite \<Rightarrow> (bytes \<Rightarrow> bytes outcome) \<Rightarrow> commit_coins \<Rightarrow> welcome_coins \<Rightarrow> identity_keypair
     \<Rightarrow> hybrid_bundle \<Rightarrow> user_id \<Rightarrow> (add_commit \<times> group_welcome, cocoa_session) act" where
  "add_member p g sg c wc identity bundle new_member_id s0 =
     (let new_position = view_member_count (session_tree s0); pos = our_leaf_position s0 in
     act_bind (act_out (require (\<not> is_member new_member_id s0) DuplicateMember)) (\<lambda>_.
     act_bind (act_out (of_result (ok_or TreeDepthExceeded (checked_add new_position 1)))) (\<lambda>new_member_count.
     act_bind (act_out (bind_out (or_panic (check_group_growth_limits new_member_count)) of_result)) (\<lambda>_.
     act_bind (act_modify (on_tree (grow_view new_member_count))) (\<lambda>_ s.
     (let tree = session_tree s; tree_depth = view_depth tree in
     act_bind (act_out (of_result (generate_leaf_seed (cc_seed c)))) (\<lambda>leaf_seed.
     act_bind (act_out (or_panic (path_to_root (leaf tree_depth pos)))) (\<lambda>path.
     let path_seeds = derive_path_seeds p leaf_seed (length path) in
     act_bind (act_out (or_panic (compute_add_resolution_sets_and_keys tree path bundle tree_depth new_position))) (\<lambda>(sets, keys).
     act_bind (act_out (compute_sibling_labels p tree path)) (\<lambda>labels.
     act_bind (act_out (build_path_updates_with_seeds p sg (cc_kem c) tree_depth pos path_seeds sets keys labels)) (\<lambda>r.
     let path_updates = map to_wire (pr_updates r); delta_root = pr_delta_root r in
     act_bind (act_modify (on_tree (\<lambda>t. map_option (\<lambda>n. set_member_count n t) (checked_add new_position 1)))) (\<lambda>_ s1.
     (let round_hash = h3_round_hash p (compute_root_label p path_seeds) [] [new_member_id];
         path_updates_hash = hash_path_updates p (serialise_path_updates path_updates) in
     act_bind (act_out (or_panic (checked_add (session_epoch_number s1) 1))) (\<lambda>n.
     let content = content_new_add (group_id s1) n round_hash path_updates_hash pos
           (derive_user_id_from_identity p (id_public identity)) in
     act_bind (act_out (of_result (sign_commit p g (cc_sign c) identity content))) (\<lambda>signature.
     let new_transcript = h3_transcript_hash p (transcript_hash s1) round_hash in
     act_bind (act_out (create_welcome_message p g wc s1 identity bundle new_position tree_depth delta_root new_transcript)) (\<lambda>w.
     let confirmation_tag = commit_confirmation_tag p delta_root new_transcript n in
     act_bind (act_modify (mark_member_as_unmerged new_position)) (\<lambda>_.
     act_bind (act_modify (advance_epoch p delta_root new_transcript)) (\<lambda>_.
     act_bind (act_modify (\<lambda>s. Some (insert_member new_member_id s))) (\<lambda>_.
     act_out (Done (\<lparr>ac_group_id = group_id s1, ac_new_member_id = new_member_id, ac_new_leaf_position = new_position,
       ac_committer_leaf_position = pos, ac_epoch = n, ac_path_updates = path_updates, ac_signature = signature,
       ac_round_hash = round_hash, ac_confirmation_tag = confirmation_tag\<rparr>, w)))))))) s1))))))) s))))) s0)"

definition process_add ::
  "primitives \<Rightarrow> sig_suite \<Rightarrow> (bytes \<Rightarrow> bytes outcome) \<Rightarrow> add_commit \<Rightarrow> identity_public_key
     \<Rightarrow> (unit, cocoa_session) act" where
  "process_add p g sg commit adder_identity s =
     (let tree = session_tree s in
     act_bind (act_out (of_result (ok_or InvalidLeafPosition (checked_add (ac_new_leaf_position commit) 1)))) (\<lambda>new_member_count.
     act_bind (act_out (or_panic (depth_for_members new_member_count))) (\<lambda>new_depth.
     act_bind (act_out (of_result (check_size_limits (path_updates_wire_len (ac_path_updates commit))
       (length (ac_path_updates commit) - 1) new_depth new_member_count (total_unmerged_leaves tree)))) (\<lambda>_.
     act_bind (act_out (require (ac_group_id commit = group_id s) GroupIdMismatch)) (\<lambda>_.
     act_bind (act_out (or_panic (checked_add (session_epoch_number s) 1))) (\<lambda>n.
     act_bind (act_out (require (ac_epoch commit = n) (EpochMismatch n (ac_epoch commit)))) (\<lambda>_.
     let path_updates_hash = hash_path_updates p (serialise_path_updates (ac_path_updates commit));
         content = content_new_add (ac_group_id commit) (ac_epoch commit) (ac_round_hash commit) path_updates_hash
           (ac_committer_leaf_position commit) (derive_user_id_from_identity p adder_identity) in
     act_bind (act_out (of_result (verify_commit_signature p g adder_identity content (ac_signature commit)))) (\<lambda>_.
     act_bind (act_out (or_panic (grow_view new_member_count tree))) (\<lambda>scratch.
     act_bind (act_out (if view_member_count tree \<le> ac_committer_leaf_position commit then Fail InvalidLeafPosition
       else bind_out (or_panic (leaf_is_blank scratch (ac_committer_leaf_position commit))) (\<lambda>blank.
         require (\<not> blank) InvalidLeafPosition))) (\<lambda>_.
     act_bind (act_out (if is_member (ac_new_member_id commit) s then Fail DuplicateMember
       else bind_out (or_panic (view_get scratch (leaf (view_depth scratch) (ac_new_leaf_position commit)))) (\<lambda>found.
         require (case found of Some node \<Rightarrow> \<not> is_populated (node_st node) | None \<Rightarrow> True) DuplicateMember))) (\<lambda>_.
     act_bind (act_out (of_result (convert_path_updates_to_node_updates (ac_path_updates commit)))) (\<lambda>node_updates.
     act_bind (act_out (delta_root_of p sg node_updates s)) (\<lambda>delta_root.
     let new_transcript = h3_transcript_hash p (transcript_hash s) (ac_round_hash commit) in
     act_bind (act_out (require (commit_confirmation_tag p delta_root new_transcript (ac_epoch commit)
       = ac_confirmation_tag commit) SignatureVerificationFailed)) (\<lambda>_.
     act_bind (act_out (require (h3_round_hash p (derive_key p ROOT_LABEL_CONTEXT delta_root) [] [ac_new_member_id commit]
       = ac_round_hash commit) RoundHashMismatch)) (\<lambda>_.
     act_bind (act_out (verify_parent_hashes p scratch node_updates)) (\<lambda>_.
     act_bind (act_modify (on_tree (grow_view new_member_count))) (\<lambda>_.
     act_bind (act_modify (on_tree (\<lambda>t. Some (set_member_count new_member_count t)))) (\<lambda>_.
     act_bind (act_modify (update_tree_from_path_updates (ac_path_updates commit) (ac_signature commit) (our_user_id s))) (\<lambda>_.
     act_bind (act_modify (mark_member_as_unmerged (ac_new_leaf_position commit))) (\<lambda>_.
     act_bind (act_modify (advance_epoch p delta_root new_transcript)) (\<lambda>_.
     act_modify (\<lambda>s. Some (insert_member (ac_new_member_id commit) s)))))))))))))))))))))) s)"

section \<open>What the operations return\<close>

text \<open>The commit that an addition broadcasts, from what was computed along the way.\<close>

definition add_commit_of ::
  "primitives \<Rightarrow> identity_keypair \<Rightarrow> cocoa_session \<Rightarrow> user_id \<Rightarrow> u64 \<Rightarrow> bytes list \<Rightarrow> path_update_result \<Rightarrow> hybrid_signature \<Rightarrow> add_commit" where
  "add_commit_of p identity s uid n path_seeds r signature =
     (let rh = h3_round_hash p (compute_root_label p path_seeds) [] [uid] in
      \<lparr>ac_group_id = group_id s, ac_new_member_id = uid, ac_new_leaf_position = view_member_count (session_tree s),
       ac_committer_leaf_position = our_leaf_position s, ac_epoch = n, ac_path_updates = map to_wire (pr_updates r),
       ac_signature = signature, ac_round_hash = rh,
       ac_confirmation_tag = commit_confirmation_tag p (pr_delta_root r) (h3_transcript_hash p (transcript_hash s) rh) n\<rparr>)"

definition add_content :: "primitives \<Rightarrow> identity_public_key \<Rightarrow> add_commit \<Rightarrow> commit_content" where
  "add_content p adder commit = content_new_add (ac_group_id commit) (ac_epoch commit) (ac_round_hash commit)
     (hash_path_updates p (serialise_path_updates (ac_path_updates commit))) (ac_committer_leaf_position commit)
     (derive_user_id_from_identity p adder)"

lemma insert_member_fields [simp]:
  "session_tree (insert_member u s) = session_tree s" "session_epoch (insert_member u s) = session_epoch s"
  "group_id (insert_member u s) = group_id s" "transcript_hash (insert_member u s) = transcript_hash s"
  "our_keypair (insert_member u s) = our_keypair s" "our_leaf_position (insert_member u s) = our_leaf_position s"
  by (simp_all add: insert_member_def)

lemma add_member_Inr:
  assumes "add_member p g sg c wc identity bundle uid s = Some (Inr (commit, w), s')"
  obtains count t leaf_seed path sets keys labels r n signature s1 s2 s3 where
    "\<not> is_member uid s" "checked_add (view_member_count (session_tree s)) 1 = Some count"
    "check_group_growth_limits count = Some (Inr ())" "grow_view count (session_tree s) = Some t"
    "cc_seed c = Some leaf_seed" "path_to_root (leaf (view_depth t) (our_leaf_position s)) = Some path"
    "compute_add_resolution_sets_and_keys t path bundle (view_depth t) (view_member_count (session_tree s)) = Some (sets, keys)"
    "compute_sibling_labels p t path = Done labels"
    "build_path_updates_with_seeds p sg (cc_kem c) (view_depth t) (our_leaf_position s)
       (derive_path_seeds p leaf_seed (length path)) sets keys labels = Done r"
    "checked_add (session_epoch_number s) 1 = Some n"
    "commit = add_commit_of p identity s uid n (derive_path_seeds p leaf_seed (length path)) r signature"
    "sign_commit p g (cc_sign c) identity (add_content p (id_public identity) commit) = Inr signature"
    "s1 = s\<lparr>session_tree := set_member_count count t\<rparr>"
    "create_welcome_message p g wc s1 identity bundle (view_member_count (session_tree s)) (view_depth t) (pr_delta_root r)
       (h3_transcript_hash p (transcript_hash s) (ac_round_hash commit)) = Done w"
    "mark_member_as_unmerged (view_member_count (session_tree s)) s1 = Some s2"
    "advance_epoch p (pr_delta_root r) (h3_transcript_hash p (transcript_hash s) (ac_round_hash commit)) s2 = Some s3"
    "s' = insert_member uid s3"
  using assms
  by (auto simp: add_member_def act_simps Let_def generate_leaf_seed_def ok_or_eq_Inr bind_out_eq_Done on_tree_def
      session_epoch_number_def add_commit_of_def add_content_def intro: that)

lemma process_add_Inr:
  "process_add p g sg commit adder s = Some (Inr u, s') \<longleftrightarrow>
     (\<exists>count d scratch us delta s1 s2 s3 s4.
       checked_add (ac_new_leaf_position commit) 1 = Some count \<and> depth_for_members count = Some d
     \<and> check_size_limits (path_updates_wire_len (ac_path_updates commit)) (length (ac_path_updates commit) - 1)
         d count (total_unmerged_leaves (session_tree s)) = Inr ()
     \<and> ac_group_id commit = group_id s \<and> checked_add (session_epoch_number s) 1 = Some (ac_epoch commit)
     \<and> verify_commit_signature p g adder (add_content p adder commit) (ac_signature commit) = Inr ()
     \<and> grow_view count (session_tree s) = Some scratch
     \<and> ac_committer_leaf_position commit < view_member_count (session_tree s)
     \<and> leaf_is_blank scratch (ac_committer_leaf_position commit) = Some False
     \<and> \<not> is_member (ac_new_member_id commit) s
     \<and> (\<exists>found. view_get scratch (leaf (view_depth scratch) (ac_new_leaf_position commit)) = Some found
         \<and> (case found of Some node \<Rightarrow> \<not> is_populated (node_st node) | None \<Rightarrow> True))
     \<and> convert_path_updates_to_node_updates (ac_path_updates commit) = Inr us
     \<and> delta_root_of p sg us s = Done delta
     \<and> commit_confirmation_tag p delta (h3_transcript_hash p (transcript_hash s) (ac_round_hash commit)) (ac_epoch commit)
         = ac_confirmation_tag commit
     \<and> h3_round_hash p (derive_key p ROOT_LABEL_CONTEXT delta) [] [ac_new_member_id commit] = ac_round_hash commit
     \<and> verify_parent_hashes p scratch us = Done ()
     \<and> s1 = s\<lparr>session_tree := set_member_count count scratch\<rparr>
     \<and> update_tree_from_path_updates (ac_path_updates commit) (ac_signature commit) (our_user_id s) s1 = Some s2
     \<and> mark_member_as_unmerged (ac_new_leaf_position commit) s2 = Some s3
     \<and> advance_epoch p delta (h3_transcript_hash p (transcript_hash s) (ac_round_hash commit)) s3 = Some s4
     \<and> s' = insert_member (ac_new_member_id commit) s4)"
  by (auto simp: process_add_def act_simps Let_def bind_out_eq_Done ok_or_eq_Inr not_le on_tree_def add_content_def
      split: if_splits)

lemma process_add_Inl: "process_add p g sg commit adder s = Some (Inl e, s') \<Longrightarrow> s' = s"
  by (auto simp: process_add_def act_simps Let_def)

section \<open>Recipients of an addition\<close>

lemma add_sets_nth:
  assumes "compute_add_resolution_sets_and_keys t path bundle td new_position = Some (sets, keys)"
    and "view_ok t" and "\<forall>i \<in> set path. valid_index i \<and> depth i \<le> view_depth t" and "k < length path"
  shows "\<exists>r ks below. compute_lj (view_get t) (view_depth t) (path ! k) (unmerged_indices t) = Some r \<and> keys_of t r = Some ks
    \<and> is_in_sibling_subtree (path ! k) (leaf td new_position) = Some below
    \<and> sets ! k = r @ (if below then [leaf td new_position] else [])
    \<and> keys ! k = ks @ (if below then [otk_kem (hb_one_time_key bundle)] else [])"
  using assms(1,3,4)
proof (induction path arbitrary: sets keys k)
  case (Cons i path)
  obtain r pairs below sets' keys' where c: "compute_lj (view_get t) (view_depth t) i (unmerged_indices t) = Some r"
    "keyed_nodes (\<lambda>_. Some False) t r = Some pairs" "is_in_sibling_subtree i (leaf td new_position) = Some below"
    "compute_add_resolution_sets_and_keys t path bundle td new_position = Some (sets', keys')"
    "sets = map fst (pairs @ (if below then [(leaf td new_position, otk_kem (hb_one_time_key bundle))] else [])) # sets'"
    "keys = map snd (pairs @ (if below then [(leaf td new_position, otk_kem (hb_one_time_key bundle))] else [])) # keys'"
    using Cons.prems(1) by (auto simp: bind_eq_Some_conv Let_def)
  have i: "valid_index i" "depth i \<le> view_depth t" using Cons.prems(2) by auto
  have pop: "\<forall>j \<in> set r. \<exists>n pk. view_get t j = Some (Some n) \<and> state_public_key (node_st n) = Some pk"
    using resolution_populated(1) [OF assms(2) i c(1)] by blast
  have "list_all valid_index r"
    using resolution_populated(2) [OF assms(2) i c(1)] by (auto simp: list_all_iff stands_for_def)
  then obtain ks where ks: "keys_of t r = Some ks" using keys_of_total by blast
  have "length ks = length r \<and> keyed_nodes (\<lambda>_. Some False) t r = Some (filter (\<lambda>(i, k). \<not> False) (zip r ks))"
    by (rule keyed_nodes_of_keys [OF pop _ ks, of _ "\<lambda>_. False"]) simp
  then have "length r = length ks" "pairs = zip r ks" using c(2) by simp_all
  show ?case
  proof (cases k)
    case 0
    then show ?thesis using c(1,3,5,6) ks \<open>length r = length ks\<close> \<open>pairs = zip r ks\<close> by auto
  next
    case (Suc m)
    then show ?thesis using Cons.IH [OF c(4), of m] Cons.prems(2,3) c(5,6) by simp
  qed
qed simp

text \<open>An addition can be verified against a tree when no level reconstructs completely above the new
  leaf: the verifier does not know the new leaf, so a level that it resolves completely must not
  be one at which the adder encrypts to it.\<close>

definition add_verifiable :: "tree_view \<Rightarrow> u32 \<Rightarrow> u32 \<Rightarrow> bool" where
  "add_verifiable t pos new_position \<longleftrightarrow> (\<forall>k > 0. k \<le> unat (view_depth t) \<longrightarrow>
     is_in_sibling_subtree (path_up (leaf (view_depth t) pos) ! k) (leaf (view_depth t) new_position) = Some True \<longrightarrow>
     (\<exists>nodes. reconstruct_resolution_complete t (path_up (leaf (view_depth t) pos) ! k) = Some (nodes, False)))"

lemma add_levels_match:
  assumes t: "view_ok t" "unmerged_below t" "unat pos < 2 ^ unat (view_depth t)"
    and s: "compute_add_resolution_sets_and_keys t (path_up (leaf (view_depth t) pos)) bundle (view_depth t) new_position = Some (sets, keys)"
    and l: "compute_sibling_labels p t (path_up (leaf (view_depth t) pos)) = Done labels"
    and v: "add_verifiable t pos new_position" and k: "0 < k" "k \<le> unat (view_depth t)"
  shows "level_matches p t sets keys labels k (path_up (leaf (view_depth t) pos) ! k)"
proof -
  let ?path = "path_up (leaf (view_depth t) pos)"
  have len: "length ?path = Suc (unat (view_depth t))" by simp
  have path: "\<forall>i \<in> set ?path. valid_index i \<and> depth i \<le> view_depth t"
    using path_up_valid [OF t(3)] t(1) by (auto simp: view_ok_def)
  have kl: "k < length ?path" using k(2) len by simp
  then have i: "valid_index (?path ! k)" "depth (?path ! k) \<le> view_depth t" using path nth_mem by blast+
  obtain r ks below where a: "compute_lj (view_get t) (view_depth t) (?path ! k) (unmerged_indices t) = Some r" "keys_of t r = Some ks"
    "is_in_sibling_subtree (?path ! k) (leaf (view_depth t) new_position) = Some below"
    "sets ! k = r @ (if below then [leaf (view_depth t) new_position] else [])"
    "keys ! k = ks @ (if below then [otk_kem (hb_one_time_key bundle)] else [])"
    using add_sets_nth [OF s t(1) path kl] by blast
  obtain r' ks' c where r: "compute_lj (view_get t) (view_depth t) (?path ! k) (unmerged_indices t) = Some r'"
    "keys_of t r' = Some ks'" "reconstruct_resolution_complete t (?path ! k) = Some (r', c)"
    "reconstruct_resolution_keys t (?path ! k) = Some ks'"
    using reconstructions [OF t(1,2) i] by blast
  have eq: "r' = r" "ks' = ks" using a(1,2) r(1,2) by auto
  have lab: "sibling_label p t (?path ! k) = Done (labels ! (k - 1))"
    using labels_nth [OF l [unfolded compute_sibling_labels_def]] k len by (cases k) auto
  show ?thesis
  proof (cases below)
    case True
    then have "c = False" using v [unfolded add_verifiable_def, rule_format, OF k] a(3) r(3) by simp
    then show ?thesis using lab r(3) by (auto simp: level_matches_def)
  next
    case False
    then show ?thesis using lab r(3,4) a(4,5) eq by (simp add: level_matches_def)
  qed
qed

lemma grow_view_eq:
  "grow_view count t = (case depth_for_members count of None \<Rightarrow> None
     | Some d \<Rightarrow> if d > view_depth t then grow_tree t else Some t)"
  by (cases "depth_for_members count"; cases "grow_tree t") (simp_all add: grow_view_def grow_if_needed_def)

lemma grow_tree_eq_Some:
  "grow_tree t = Some u \<longleftrightarrow> (\<exists>d nodes keys. checked_add (view_depth t) 1 = Some d
     \<and> those (map grow_node (view_iter t)) = Some nodes \<and> those (map (\<lambda>n. to_linear (node_idx n)) nodes) = Some keys
     \<and> u = t\<lparr>view_nodes := bt_of_list (zip keys nodes), view_depth := d, our_leaf := leaf d (position (our_leaf t))\<rparr>)"
  by (auto simp: grow_tree_def bind_eq_Some_conv)

lemma same_tree_grows:
  assumes "same_tree t t'" and "grow_view count t = Some u"
  shows "\<exists>u'. grow_view count t' = Some u' \<and> same_tree u u' \<and> view_member_count u' = view_member_count t'"
proof -
  obtain d where d: "depth_for_members count = Some d" using assms(2) by (auto simp: grow_view_eq split: option.splits)
  have s: "view_nodes t' = view_nodes t" "view_depth t' = view_depth t" "view_member_count t' = view_member_count t" "view_iter t' = view_iter t"
    using assms(1) by (simp_all add: same_tree_def view_iter_def)
  show ?thesis
  proof (cases "d > view_depth t")
    case True
    then have "grow_tree t = Some u" using assms(2) d by (simp add: grow_view_eq)
    then obtain d' nodes keys where g: "checked_add (view_depth t) 1 = Some d'" "those (map grow_node (view_iter t)) = Some nodes"
      "those (map (\<lambda>n. to_linear (node_idx n)) nodes) = Some keys"
      "u = t\<lparr>view_nodes := bt_of_list (zip keys nodes), view_depth := d', our_leaf := leaf d' (position (our_leaf t))\<rparr>"
      unfolding grow_tree_eq_Some by blast
    define u' where "u' = t'\<lparr>view_nodes := bt_of_list (zip keys nodes), view_depth := d', our_leaf := leaf d' (position (our_leaf t'))\<rparr>"
    have "grow_tree t' = Some u'" unfolding grow_tree_eq_Some s using g(1-3) u'_def by blast
    then show ?thesis using True d g(4) by (simp add: grow_view_eq s u'_def same_tree_def)
  next
    case False
    then show ?thesis using assms d by (auto simp: grow_view_eq s(2))
  qed
qed

lemma same_tree_add_sets:
  "same_tree t t' \<Longrightarrow> compute_add_resolution_sets_and_keys t path b td q = compute_add_resolution_sets_and_keys t' path b td q"
proof (induction path)
  case (Cons i path)
  have "keyed_nodes sk t js = keyed_nodes sk t' js" for sk js
    using same_tree_reads(1) [OF Cons.prems] by (induction js) (simp_all cong: if_cong)
  moreover have "view_depth t = view_depth t'" using Cons.prems by (simp add: same_tree_def)
  ultimately show ?case using Cons same_tree_reads(1,2) [OF Cons.prems] by simp
qed simp

section \<open>Agreement\<close>

text \<open>A leaf that a commit may assign.\<close>

definition leaf_is_free :: "tree_view \<Rightarrow> u32 \<Rightarrow> bool" where
  "leaf_is_free t pos \<longleftrightarrow> unat pos < 2 ^ unat (view_depth t)
     \<and> (case view_get t (leaf (view_depth t) pos) of
          Some (Some node) \<Rightarrow> \<not> is_populated (node_st node) | Some None \<Rightarrow> True | None \<Rightarrow> False)"

lemma set_member_count_fields [simp]:
  "view_get (set_member_count n t) = view_get t" "view_depth (set_member_count n t) = view_depth t"
  "view_ok (set_member_count n t) = view_ok t" "view_member_count (set_member_count n t) = n"
  by (simp_all add: set_member_count_def view_get_def view_ok_def fun_eq_iff)

lemma add_installs:
  assumes adv: "advance_epoch p d tr s = Some s'" "in_step s r"
    and ok: "view_ok t" "unat new_position < 2 ^ unat (view_depth t)"
    and idx: "\<forall>pu \<in> set pus. valid_index (pu_index pu) \<and> depth (pu_index pu) \<le> view_depth t"
  shows "\<exists>r1 r2 r'. update_tree_from_path_updates pus sg uid (r\<lparr>session_tree := set_member_count count t\<rparr>) = Some r1
    \<and> mark_member_as_unmerged new_position r1 = Some r2 \<and> advance_epoch p d tr r2 = Some r' \<and> in_step s' r'
    \<and> session_epoch r' = session_epoch s' \<and> view_member_count (session_tree r') = count \<and> view_depth (session_tree r') = view_depth t"
proof -
  let ?r = "r\<lparr>session_tree := set_member_count count t\<rparr>"
  have "in_step s ?r" using adv(2) by (simp add: in_step_def)
  moreover have "\<exists>t'. mark_member_as_unmerged new_position q = Some (q\<lparr>session_tree := t'\<rparr>) \<and> keeps_shape (session_tree q) t'"
    if "view_ok (session_tree q)" "view_depth (session_tree q) = view_depth (session_tree ?r)" for q
    using mark_unmerged_total [OF that(1), of new_position] that(2) ok(2) by simp
  ultimately obtain r1 r2 r' where "update_tree_from_path_updates pus sg uid ?r = Some r1" "mark_member_as_unmerged new_position r1 = Some r2"
    "advance_epoch p d tr r2 = Some r'" "in_step s' r'" "session_epoch r' = session_epoch s'"
    "keeps_shape (session_tree ?r) (session_tree r')"
    using commit_installs [OF adv(1), of ?r "mark_member_as_unmerged new_position" pus sg uid] ok(1) idx by auto
  then show ?thesis by (auto simp: keeps_shape_def)
qed

lemma mark_member_keeps:
  "mark_member_as_unmerged pos s = Some s' \<Longrightarrow> \<exists>t. s' = s\<lparr>session_tree := t\<rparr>"
  by (auto simp: mark_member_as_unmerged_def)

lemma in_step_insert_member [simp]: "in_step (insert_member u s) r = in_step s r" "in_step s (insert_member u r) = in_step s r"
  by (simp_all add: in_step_def)

lemma add_keys_cover:
  assumes "compute_add_resolution_sets_and_keys t path bundle td new_position = Some (sets, keys)"
    and "compute_resolution_sets_and_keys t path = Some (sets', keys')"
    and "view_ok t" and "\<forall>i \<in> set path. valid_index i \<and> depth i \<le> view_depth t"
  shows "ks' \<in> set keys' \<Longrightarrow> pk \<in> set ks' \<Longrightarrow> \<exists>ks \<in> set keys. pk \<in> set ks"
proof -
  assume ks: "ks' \<in> set keys'" "pk \<in> set ks'"
  note plain = resolution_sets_nth [OF assms(2)]
  obtain k where k: "k < length path" "ks' = keys' ! k" using ks(1) plain by (metis in_set_conv_nth)
  have "length keys = length path" using assms(1)
    by (induction path arbitrary: sets keys) (auto simp: bind_eq_Some_conv Let_def)
  moreover have "set (keys' ! k) \<subseteq> set (keys ! k)"
    using add_sets_nth [OF assms(1,3,4) k(1)] plain k(1) by auto
  ultimately show ?thesis using ks(2) k by (metis in_mono nth_mem)
qed

text \<open>C9. The group agrees after an addition: when a member's addition succeeds, every member in step
  with it on the same nodes, whose tree grows to one that can verify the path, that does not know
  the new member and holds the key of a recipient, accepts the commit, ends in the same epoch
  with the same secrets and the same member count, and has registered the new member, unless it
  holds a key under which a seed meant for another commits to the same ciphertext.\<close>

theorem add_agreement:
  assumes p: "prims_ok p" "seeded_keys_valid p sg" and c: "commit_coins_ok c" "committer_identity g identity"
    and create: "add_member p g sg c wc identity bundle uid s = Some (Inr (commit, w), s')"
    and step: "in_step s r" "same_tree (session_tree s) (session_tree r)" "\<not> is_member uid r"
    and grown: "checked_add (ac_new_leaf_position commit) 1 = Some count" "grow_view count (session_tree r) = Some t"
    and t: "accepts_path_from t (our_leaf_position s)" "add_verifiable t (our_leaf_position s) (ac_new_leaf_position commit)"
      "leaf_is_free t (ac_new_leaf_position commit)"
    and limits: "depth_for_members count = Some d" "check_size_limits (path_updates_wire_len (ac_path_updates commit))
      (length (ac_path_updates commit) - 1) d count (total_unmerged_leaves (session_tree r)) = Inr ()"
    and key: "kem_pair p (our_keypair r) pk" "pk \<in> recipient_keys t (our_leaf_position s)"
  shows "(\<exists>r'. process_add p g sg commit (id_public identity) r = Some (Inr (), r')
      \<and> in_step s' r' \<and> session_epoch r' = session_epoch s' \<and> is_member uid r'
      \<and> view_member_count (session_tree r') = count)
    \<or> (\<exists>us. convert_path_updates_to_node_updates (ac_path_updates commit) = Inr us \<and> stray p (our_keypair r) us)"
proof -
  define pos where "pos = our_leaf_position s"
  from add_member_Inr [OF create] obtain count' ts leaf_seed path sets keys labels b n signature s1 s2 s3 where
    "\<not> is_member uid s" and count: "checked_add (view_member_count (session_tree s)) 1 = Some count'"
    and "check_group_growth_limits count' = Some (Inr ())"
    and ts: "grow_view count' (session_tree s) = Some ts"
    and seed: "cc_seed c = Some leaf_seed" and path: "path_to_root (leaf (view_depth ts) pos) = Some path"
    and rs: "compute_add_resolution_sets_and_keys ts path bundle (view_depth ts) (view_member_count (session_tree s)) = Some (sets, keys)"
    and ls: "compute_sibling_labels p ts path = Done labels"
    and bp: "build_path_updates_with_seeds p sg (cc_kem c) (view_depth ts) pos (derive_path_seeds p leaf_seed (length path)) sets keys labels = Done b"
    and n: "checked_add (session_epoch_number s) 1 = Some n"
    and cm: "commit = add_commit_of p identity s uid n (derive_path_seeds p leaf_seed (length path)) b signature"
    and sig: "sign_commit p g (cc_sign c) identity (add_content p (id_public identity) commit) = Inr signature"
    and s1: "s1 = s\<lparr>session_tree := set_member_count count' ts\<rparr>"
    and "create_welcome_message p g wc s1 identity bundle (view_member_count (session_tree s)) (view_depth ts) (pr_delta_root b)
       (h3_transcript_hash p (transcript_hash s) (ac_round_hash commit)) = Done w"
    and mark: "mark_member_as_unmerged (view_member_count (session_tree s)) s1 = Some s2"
    and adv: "advance_epoch p (pr_delta_root b) (h3_transcript_hash p (transcript_hash s) (ac_round_hash commit)) s2 = Some s3"
    and s': "s' = insert_member uid s3" unfolding pos_def [symmetric] .
  have f: "ac_new_leaf_position commit = view_member_count (session_tree s)" "ac_new_member_id commit = uid" "ac_group_id commit = group_id s"
    "ac_committer_leaf_position commit = pos" "ac_epoch commit = n" "ac_path_updates commit = map to_wire (pr_updates b)" "ac_signature commit = signature"
    by (simp_all add: cm add_commit_of_def Let_def pos_def)
  have count': "count' = count" using count grown(1) f(1) by simp
  obtain u where u: "grow_view count (session_tree r) = Some u" "same_tree ts u" "view_member_count u = view_member_count (session_tree r)"
    using same_tree_grows [OF step(2)] ts count' by blast
  then have st: "same_tree ts t" "view_member_count t = view_member_count (session_tree r)" using grown(2) by simp_all
  have td: "view_depth ts = view_depth t" using st(1) by (simp add: same_tree_def)
  have ok: "view_ok t" "unmerged_below t" "unat pos < 2 ^ unat (view_depth t)" "pos < view_member_count t" "leaf_is_blank t pos = Some False"
    using t(1) by (simp_all add: accepts_path_from_def pos_def)
  have td32: "unat (view_depth t) < 32" using ok(1) by (simp add: view_ok_def)
  have pu: "path = path_up (leaf (view_depth t) pos)" using path path_to_root_eq [of "leaf (view_depth t) pos"] td32 td by simp
  have rs': "compute_add_resolution_sets_and_keys t (path_up (leaf (view_depth t) pos)) bundle (view_depth t) (ac_new_leaf_position commit) = Some (sets, keys)"
    using rs same_tree_add_sets [OF st(1)] pu td f(1) by simp
  have ls': "compute_sibling_labels p t (path_up (leaf (view_depth t) pos)) = Done labels"
    using ls same_tree_reads(6) [OF st(1)] pu by (simp add: compute_sibling_labels_def)
  have m: "level_matches p t sets keys labels k (path_up (leaf (view_depth t) pos) ! k)" if "0 < k" "k \<le> unat (view_depth t)" for k
    by (rule add_levels_match [OF ok(1-3) rs' ls' t(2) [folded pos_def] that])
  obtain ks where ks: "ks \<in> set keys" "pk \<in> set ks"
  proof -
    obtain sets' keys' ks' where k: "compute_resolution_sets_and_keys t (path_up (leaf (view_depth t) pos)) = Some (sets', keys')"
      "ks' \<in> set keys'" "pk \<in> set ks'"
      using key(2) by (auto simp: recipient_keys_def pos_def split: option.splits)
    have "\<forall>i \<in> set (path_up (leaf (view_depth t) pos)). valid_index i \<and> depth i \<le> view_depth t"
      using path_up_valid [OF ok(3) td32] by blast
    from add_keys_cover [OF rs' k(1) ok(1) this k(2,3)] that show thesis by blast
  qed
  note reach = path_reaches [OF p c(1) seed td32 ok(3) path [unfolded td] bp [unfolded td] m key(1) ks]
  have "in_step s2 r" using mark_member_keeps [OF mark] step(1) s1 by (auto simp: in_step_def)
  from add_installs [OF adv this ok(1)] reach(5) t(3)
  obtain r1 r2 r' where w: "update_tree_from_path_updates (map to_wire (pr_updates b)) signature (our_user_id r) (r\<lparr>session_tree := set_member_count count t\<rparr>) = Some r1"
    "mark_member_as_unmerged (ac_new_leaf_position commit) r1 = Some r2"
    "advance_epoch p (pr_delta_root b) (h3_transcript_hash p (transcript_hash s) (ac_round_hash commit)) r2 = Some r'"
    "in_step s3 r'" "session_epoch r' = session_epoch s3" "view_member_count (session_tree r') = count"
    unfolding leaf_is_free_def by meson
  have g: "group_id r = group_id s" "transcript_hash r = transcript_hash s" "session_epoch_number r = session_epoch_number s"
    using step(1) by (simp_all add: in_step_def session_epoch_number_def)
  have free: "\<exists>found. view_get t (leaf (view_depth t) (ac_new_leaf_position commit)) = Some found
      \<and> (case found of Some node \<Rightarrow> \<not> is_populated (node_st node) | None \<Rightarrow> True)"
    using t(3) by (auto simp: leaf_is_free_def split: option.splits)
  have tags: "ac_round_hash commit = h3_round_hash p (compute_root_label p (derive_path_seeds p leaf_seed (length path))) [] [uid]"
    "ac_confirmation_tag commit = commit_confirmation_tag p (pr_delta_root b) (h3_transcript_hash p (transcript_hash s) (ac_round_hash commit)) n"
    by (simp_all add: cm add_commit_of_def Let_def)
  show ?thesis
  proof (cases "stray p (our_keypair r) (map rewired (pr_updates b))")
    case True
    then show ?thesis using reach(1) f(6) by auto
  next
    case False
    then have delta: "delta_root_of p sg (map rewired (pr_updates b)) r = Done (pr_delta_root b)"
      using reach(3) [of "our_leaf_position r" 0] reach(6) by (simp add: delta_root_of_def)
    have "process_add p g sg commit (id_public identity) r = Some (Inr (), insert_member uid r')"
      unfolding process_add_Inr
      by (rule exI [of _ count], rule exI [of _ d], rule exI [of _ t], rule exI [of _ "map rewired (pr_updates b)"],
          rule exI [of _ "pr_delta_root b"], rule exI [of _ "r\<lparr>session_tree := set_member_count count t\<rparr>"], rule exI [of _ r1],
          rule exI [of _ r2], rule exI [of _ r'], intro conjI)
        (simp_all only: not_False_eq_True f(2-7) g n grown limits [unfolded f] ok(4,5) st(2) [symmetric] step(3) reach(1,2,4) delta w(1-3) tags(2)
          tags(1) [symmetric] signed_commit_verifies [OF c(2) sig [unfolded f(7)]] free)
    then show ?thesis using w(4-6) s' by (auto simp: is_member_def insert_member_def in_step_def)
  qed
qed

text \<open>An addition succeeds when each of its parts does.\<close>

lemma add_member_intro:
  assumes "\<not> is_member uid s" "checked_add (view_member_count (session_tree s)) 1 = Some count"
    "check_group_growth_limits count = Some (Inr ())" "grow_view count (session_tree s) = Some t"
    "cc_seed c = Some leaf_seed" "path_to_root (leaf (view_depth t) (our_leaf_position s)) = Some path"
    "compute_add_resolution_sets_and_keys t path bundle (view_depth t) (view_member_count (session_tree s)) = Some (sets, keys)"
    "compute_sibling_labels p t path = Done labels"
    "build_path_updates_with_seeds p sg (cc_kem c) (view_depth t) (our_leaf_position s)
       (derive_path_seeds p leaf_seed (length path)) sets keys labels = Done r"
    "checked_add (session_epoch_number s) 1 = Some n"
    and sig: "\<And>content. \<exists>signature. sign_commit p g (cc_sign c) identity content = Inr signature"
    and w: "\<And>delta tr. \<exists>w. create_welcome_message p g wc (s\<lparr>session_tree := set_member_count count t\<rparr>) identity bundle
      (view_member_count (session_tree s)) (view_depth t) delta tr = Done w"
    and t: "view_ok t" "unat (view_member_count (session_tree s)) < 2 ^ unat (view_depth t)"
  shows "\<exists>commit w s'. add_member p g sg c wc identity bundle uid s = Some (Inr (commit, w), s')
    \<and> ac_path_updates commit = map to_wire (pr_updates r) \<and> ac_new_leaf_position commit = view_member_count (session_tree s)"
proof -
  let ?s1 = "s\<lparr>session_tree := set_member_count count t\<rparr>" and ?rh = "h3_round_hash p (compute_root_label p (derive_path_seeds p leaf_seed (length path))) [] [uid]"
  define content where "content = content_new_add (group_id s) n ?rh
       (hash_path_updates p (serialise_path_updates (map to_wire (pr_updates r)))) (our_leaf_position s)
       (derive_user_id_from_identity p (id_public identity))"
  obtain signature where sg: "sign_commit p g (cc_sign c) identity content = Inr signature" using sig by blast
  obtain w where w: "create_welcome_message p g wc ?s1 identity bundle (view_member_count (session_tree s)) (view_depth t)
      (pr_delta_root r) (h3_transcript_hash p (transcript_hash s) ?rh) = Done w" using w by blast
  obtain t' where m: "mark_member_as_unmerged (view_member_count (session_tree s)) ?s1 = Some (s\<lparr>session_tree := t'\<rparr>)"
    using mark_unmerged_total [of ?s1 "view_member_count (session_tree s)"] t by auto
  have "\<exists>s'. advance_epoch p d tr (s\<lparr>session_tree := t'\<rparr>) = Some s'" for d tr
    using assms(10) by (simp add: advance_epoch_def epoch_advance_def session_epoch_number_def Let_def)
  then obtain s' where "advance_epoch p (pr_delta_root r) (h3_transcript_hash p (transcript_hash s) ?rh) (s\<lparr>session_tree := t'\<rparr>) = Some s'" by blast
  then show ?thesis
    using assms(1-10) sg w m unfolding content_def
    by (simp add: add_member_def act_simps Let_def generate_leaf_seed_def on_tree_def session_epoch_number_def)
qed

section \<open>Sample additions\<close>

lemma trio_below: "is_in_sibling_subtree (leaf 2 0) (leaf 2 3) = Some False" "is_in_sibling_subtree (leaf 1 0) (leaf 2 3) = Some True"
  "is_in_sibling_subtree root (leaf 2 3) = Some False"
  proof -
  have "leaf 2 3 \<noteq> leaf 2 1" by (simp add: leaf_def node_new_def)
  then show "is_in_sibling_subtree (leaf 2 0) (leaf 2 3) = Some False" "is_in_sibling_subtree (leaf 1 0) (leaf 2 3) = Some True"
    "is_in_sibling_subtree root (leaf 2 3) = Some False"
    by (simp_all add: is_in_sibling_subtree_def trio_sibling toy_sibling is_descendant_of_eq)
qed

lemma trio_add_sets:
  assumes "unat pos < 4"
  shows "compute_add_resolution_sets_and_keys (trio_view full pos) [leaf 2 0, leaf 1 0, root] toy_hybrid_bundle 2 3
    = Some ([[leaf 2 1], (if full then [leaf 1 1] else []) @ [leaf 2 3], []],
        [[toy_key], (if full then [toy_key] else []) @ [toy_key], []])"
  using trio_lj [OF assms, of full]
  by (simp add: trio_get trio_below toy_hybrid_bundle_def hybrid_bundle_new_def)

lemma trio_grows: "grow_view 4 (trio_view full pos) = Some (trio_view full pos)" "depth_for_members 4 = Some 2"
  "checked_add (3 :: u32) 1 = Some 4" "check_group_growth_limits 4 = Some (Inr ())"
proof -
  show d: "depth_for_members 4 = Some 2" by code_simp
  then show "grow_view 4 (trio_view full pos) = Some (trio_view full pos)" by (simp add: grow_view_eq)
  show "checked_add (3 :: u32) 1 = Some 4" by (simp add: checked_add_def)
  show "check_group_growth_limits 4 = Some (Inr ())"
    by (simp add: check_group_growth_limits_def d check_size_limits_def MAX_MESSAGE_SIZE_def MAX_MERKLE_PROOF_DEPTH_def
        MAX_GROUP_SIZE_def MAX_TREE_DEPTH_def)
qed

lemma trio_adds:
  obtains commit w s' where "add_member toy_prims toy_suite toy_sg toy_commit_coins toy_welcome_coins toy_identity toy_hybrid_bundle
      (replicate 32 7) (trio_session full 0) = Some (Inr (commit, w), s')"
    "path_updates_wire_len (ac_path_updates commit) \<le> 10692" "length (ac_path_updates commit) = 3" "ac_new_leaf_position commit = 3"
proof -
  let ?s = "trio_session full 0" and ?sets = "[[leaf 2 1], (if full then [leaf 1 1] else []) @ [leaf 2 3], []]"
    and ?keys = "[[toy_key], (if full then [toy_key] else []) @ [toy_key], []]"
  have path: "path_to_root (leaf 2 0) = Some [leaf 2 0, leaf 1 0, root]" using path_to_root_eq [of "leaf 2 0"] by (simp add: trio_path)
  obtain label where labels: "compute_sibling_labels toy_prims (trio_view full 0) [leaf 2 0, leaf 1 0, root] = Done [label, zero32]"
    using trio_labels by blast
  obtain r where r: "build_path_updates_with_seeds toy_prims toy_sg (\<lambda>_ _. toy_coins) 2 0 (derive_path_seeds toy_prims zero32 3)
      ?sets ?keys [label, zero32] = Done r" "length (pr_updates r) = 3" "path_updates_wire_len (map to_wire (pr_updates r)) \<le> 10692"
    using trio_path_built [of "[leaf 2 1]" "[toy_key]" "(if full then [leaf 1 1] else []) @ [leaf 2 3]"
        "(if full then [toy_key] else []) @ [toy_key]" "[]" "[]" label zero32] by (cases full) auto
  have "\<exists>commit w s'. add_member toy_prims toy_suite toy_sg toy_commit_coins toy_welcome_coins toy_identity toy_hybrid_bundle (replicate 32 7) ?s
      = Some (Inr (commit, w), s') \<and> ac_path_updates commit = map to_wire (pr_updates r) \<and> ac_new_leaf_position commit = view_member_count (session_tree ?s)"
  proof (rule add_member_intro [where count = 4 and t = "trio_view full 0" and path = "[leaf 2 0, leaf 1 0, root]" and leaf_seed = zero32
      and n = 1 and sets = ?sets and keys = ?keys and labels = "[label, zero32]"])
    show "\<exists>w. create_welcome_message toy_prims toy_suite toy_welcome_coins (?s\<lparr>session_tree := set_member_count 4 (trio_view full 0)\<rparr>) toy_identity
        toy_hybrid_bundle (view_member_count (session_tree ?s)) (view_depth (trio_view full 0)) delta tr = Done w" for delta tr
      by (rule toy_welcomes [where n = 1 and count = 4]) (simp_all add: trio_session_def join_group_def session_epoch_number_def epoch_initial_def checked_add_def)
    show "\<not> is_member (replicate 32 7) ?s"
      by (simp add: is_member_def trio_session_def join_group_def replicate_eq_replicate)
    show "build_path_updates_with_seeds toy_prims toy_sg (cc_kem toy_commit_coins) (view_depth (trio_view full 0)) (our_leaf_position ?s)
        (derive_path_seeds toy_prims zero32 (length [leaf 2 0, leaf 1 0, root])) ?sets ?keys [label, zero32] = Done r"
      using r(1) by (simp add: toy_commit_coins_def numeral_3_eq_3)
  qed (use trio_grows trio_add_sets [of 0 full] labels path trio_ok toy_signs_commit in \<open>simp_all add: toy_commit_coins_def checked_add_def\<close>)
  then show thesis using that r(2,3) by (metis length_map trio_facts(1,6))
qed

theorem add_agreement_witness:
  "\<exists>commit w s'. add_member toy_prims toy_suite toy_sg toy_commit_coins toy_welcome_coins toy_identity toy_hybrid_bundle
      (replicate 32 7) (trio_session False 0) = Some (Inr (commit, w), s')
    \<and> ((\<exists>r'. process_add toy_prims toy_suite toy_sg commit (id_public toy_identity) (trio_session False 2) = Some (Inr (), r')
         \<and> session_epoch r' = session_epoch s' \<and> view_member_count (session_tree r') = 4)
      \<or> (\<exists>us. convert_path_updates_to_node_updates (ac_path_updates commit) = Inr us \<and> stray toy_prims toy_kem_keypair us))"
proof -
  let ?s = "trio_session False 0" and ?r = "trio_session False 2"
  obtain commit w s' where c: "add_member toy_prims toy_suite toy_sg toy_commit_coins toy_welcome_coins toy_identity toy_hybrid_bundle
      (replicate 32 7) ?s = Some (Inr (commit, w), s')" "path_updates_wire_len (ac_path_updates commit) \<le> 10692"
    "length (ac_path_updates commit) = 3" "ac_new_leaf_position commit = 3" by (rule trio_adds)
  have step: "in_step ?s ?r" "same_tree (session_tree ?s) (session_tree ?r)" "\<not> is_member (replicate 32 7) ?r"
    by (simp_all add: in_step_def trio_session_def join_group_def) (simp_all add: same_tree_def trio_view_def is_member_def replicate_eq_replicate)
  have grown: "checked_add (ac_new_leaf_position commit) 1 = Some 4" "grow_view 4 (session_tree ?r) = Some (trio_view False 2)"
    using c(4) trio_grows by simp_all
  have below: "is_in_sibling_subtree (path_up (leaf 2 0) ! k) (leaf 2 3) = Some True \<Longrightarrow> k \<le> 2 \<Longrightarrow> k = 1" for k
    by (auto simp: trio_path trio_below less_Suc_eq numeral_2_eq_2 le_Suc_eq)
  have "add_verifiable (trio_view False 2) 0 3"
    unfolding add_verifiable_def
  proof (intro allI impI)
    fix k
    assume "k \<le> unat (view_depth (trio_view False 2))"
      "is_in_sibling_subtree (path_up (leaf (view_depth (trio_view False 2)) 0) ! k) (leaf (view_depth (trio_view False 2)) 3) = Some True"
    then have "k = 1" using below by simp
    then show "\<exists>nodes. reconstruct_resolution_complete (trio_view False 2) (path_up (leaf (view_depth (trio_view False 2)) 0) ! k)
        = Some (nodes, False)" using trio_complete(1) [of False 2] by (simp add: trio_path)
  qed
  then have t: "accepts_path_from (trio_view False 2) (our_leaf_position ?s)"
    "add_verifiable (trio_view False 2) (our_leaf_position ?s) (ac_new_leaf_position commit)"
    "leaf_is_free (trio_view False 2) (ac_new_leaf_position commit)"
    using trio_accepts [of 2] c(4) by (simp_all add: leaf_is_free_def trio_get)
  have limits: "check_size_limits (path_updates_wire_len (ac_path_updates commit)) (length (ac_path_updates commit) - 1) 2 4
      (total_unmerged_leaves (session_tree ?r)) = Inr ()"
    using c(2,3) by (simp add: trio_total_unmerged check_size_limits_def MAX_MESSAGE_SIZE_def MAX_MERKLE_PROOF_DEPTH_def MAX_GROUP_SIZE_def MAX_TREE_DEPTH_def)
  have key: "kem_pair toy_prims (our_keypair ?r) toy_key" "toy_key \<in> recipient_keys (trio_view False 2) (our_leaf_position ?s)"
    using toy_kem_pair trio_recipients [of 2] by (simp_all add: toy_key_def)
  from add_agreement [OF toy_prims_ok toy_keys_valid toy_committer c(1) step grown t trio_grows(2) limits key] c(1)
  show ?thesis by auto
qed

section \<open>Honest additions that are refused\<close>

text \<open>C32. An honest addition is refused by every member whose tree determines the resolution above the
  new leaf: when at some level above the leaves the new leaf lies below the sibling and the
  receiver knows that sibling's subtree completely, the receiver compares the positions that the
  adder encrypted to, the new leaf among them, with the resolution of its own tree, which cannot
  contain a leaf that is not there yet. No step of such a member accepts the commit.\<close>

theorem honest_add_refused:
  assumes p: "prims_ok p" "seeded_keys_valid p sg" and c: "commit_coins_ok c"
    and create: "add_member p g sg c wc identity bundle uid s = Some (Inr (commit, w), s')"
    and same: "same_tree (session_tree s) (session_tree r)"
    and grown: "checked_add (ac_new_leaf_position commit) 1 = Some count" "grow_view count (session_tree r) = Some t"
    and t: "view_ok t" "unat (our_leaf_position s) < 2 ^ unat (view_depth t)"
    and level: "0 < k" "k \<le> unat (view_depth t)" "path_up (leaf (view_depth t) (our_leaf_position s)) ! k = i"
      "is_in_sibling_subtree i (leaf (view_depth t) (ac_new_leaf_position commit)) = Some True"
      "reconstruct_resolution_complete t i = Some (nodes, True)" "ac_new_leaf_position commit \<notin> position ` set nodes"
  shows "process_add p g sg' commit adder r \<noteq> Some (Inr (), r')"
proof
  assume acc: "process_add p g sg' commit adder r = Some (Inr (), r')"
  define pos where "pos = our_leaf_position s"
  from add_member_Inr [OF create] obtain count' ts leaf_seed path sets keys labels b n signature where
    count: "checked_add (view_member_count (session_tree s)) 1 = Some count'" and ts: "grow_view count' (session_tree s) = Some ts"
    and seed: "cc_seed c = Some leaf_seed" and path: "path_to_root (leaf (view_depth ts) pos) = Some path"
    and rs: "compute_add_resolution_sets_and_keys ts path bundle (view_depth ts) (view_member_count (session_tree s)) = Some (sets, keys)"
    and bp: "build_path_updates_with_seeds p sg (cc_kem c) (view_depth ts) pos (derive_path_seeds p leaf_seed (length path)) sets keys labels = Done b"
    and cm: "commit = add_commit_of p identity s uid n (derive_path_seeds p leaf_seed (length path)) b signature"
    unfolding pos_def by metis
  have f: "ac_new_leaf_position commit = view_member_count (session_tree s)" "ac_path_updates commit = map to_wire (pr_updates b)"
    by (simp_all add: cm add_commit_of_def Let_def)
  have "count' = count" using count grown(1) f(1) by simp
  with same_tree_grows [OF same] ts grown(2) have st: "same_tree ts t" by fastforce
  then have td: "view_depth ts = view_depth t" by (simp add: same_tree_def)
  have td32: "unat (view_depth t) < 32" using t(1) by (simp add: view_ok_def)
  have pu: "path = path_up (leaf (view_depth t) pos)" using path path_to_root_eq [of "leaf (view_depth t) pos"] td32 td by simp
  then have pl: "length path = Suc (unat (view_depth t))" by simp
  have kp: "k < length path" using level(2) pl by simp
  have valid: "\<forall>i \<in> set path. valid_index i \<and> depth i \<le> view_depth t" using path_up_valid [OF _ td32] t(2) pu pos_def by blast
  have "compute_add_resolution_sets_and_keys t path bundle (view_depth t) (ac_new_leaf_position commit) = Some (sets, keys)"
    using rs same_tree_add_sets [OF st] td f(1) by simp
  from add_sets_nth [OF this t(1) valid kp] level(3,4)
  have new: "leaf (view_depth t) (ac_new_leaf_position commit) \<in> set (sets ! k)" by (auto simp: pu pos_def)
  have coins: "\<forall>l j. kem_coins_ok (cc_kem c l j)" "length leaf_seed = 32" using c seed by (auto simp: commit_coins_ok_def)
  note built = built_path [OF p coins td32 bp [unfolded td pl] refl]
  note pos = built_positions [OF bp, of k, unfolded length_derive_path_seeds, OF kp]
  obtain us scratch where v: "grow_view count (session_tree r) = Some scratch"
    "convert_path_updates_to_node_updates (ac_path_updates commit) = Inr us" "verify_parent_hashes p scratch us = Done ()"
    using acc grown(1) unfolding process_add_Inr by auto
  have "us = map rewired (pr_updates b)" using v(2) convert_to_wire [OF built(4)] by (simp add: f(2))
  with v(1,3) grown(2) have "verify_chain p t 0 zero32 [] (map rewired (pr_updates b)) = Done ()" by (simp add: verify_parent_hashes_def)
  from verify_chain_nth [OF this, of k] pos(1) obtain h preds where
    vl: "verify_level p t k h preds (rewired (pr_updates b ! k)) = Done ()" by auto
  have "nu_index (rewired (pr_updates b ! k)) = i" using built(5) level(2,3) by (simp add: pos_def rewired_def)
  from complete_level_positions [OF vl level(1)] this level(5)
  have "position ` set (sets ! k) = position ` set nodes" using pos(2) by simp
  moreover have "ac_new_leaf_position commit \<in> position ` set (sets ! k)" using new by (force simp: leaf_def node_new_def)
  ultimately show False using level(6) by blast
qed

theorem honest_add_refused_witness:
  "\<exists>commit w s'. add_member toy_prims toy_suite toy_sg toy_commit_coins toy_welcome_coins toy_identity toy_hybrid_bundle
      (replicate 32 7) (trio_session True 0) = Some (Inr (commit, w), s')
    \<and> (\<forall>r'. process_add toy_prims toy_suite toy_sg commit (id_public toy_identity) (trio_session True 2) \<noteq> Some (Inr (), r'))"
proof -
  let ?s = "trio_session True 0" and ?r = "trio_session True 2"
  obtain commit w s' where c: "add_member toy_prims toy_suite toy_sg toy_commit_coins toy_welcome_coins toy_identity toy_hybrid_bundle
      (replicate 32 7) ?s = Some (Inr (commit, w), s')" "ac_new_leaf_position commit = 3" by (rule trio_adds)
  have grown: "checked_add (ac_new_leaf_position commit) 1 = Some 4" "grow_view 4 (session_tree ?r) = Some (trio_view True 2)"
    using c(2) trio_grows by simp_all
  have "process_add toy_prims toy_suite toy_sg commit (id_public toy_identity) ?r \<noteq> Some (Inr (), r')" for r'
  proof (rule honest_add_refused [OF toy_prims_ok toy_keys_valid toy_committer(1) c(1) _ grown, where k = 1 and i = "leaf 1 0" and nodes = "[leaf 1 1]"])
  qed (use c(2) trio_ok [of 2 True] trio_complete(1) [of True 2] trio_below(2) trio_valid in \<open>simp_all add: same_tree_def trio_view_def [abs_def] trio_path\<close>)
  with c(1) show ?thesis by blast
qed

end
