(* ===== verification/Cocoa_Remove.thy ===== *)
theory Cocoa_Remove
  imports Cocoa_Add
begin

text \<open>
  Removals (\<open>operations/remove.rs\<close>): a member blanks another's leaf and refreshes its own path,
  encrypting to the resolution of its co-path without the removed leaf and its ancestors.
  Every other member verifies the path against a copy of its tree with that leaf blanked.
\<close>

section \<open>Operations\<close>

record remove_commit =
  rc_group_id :: group_id
  rc_removed_member_id :: user_id
  rc_removed_leaf_position :: u32
  rc_committer_leaf_position :: u32
  rc_epoch :: u64
  rc_path_updates :: "path_update list"
  rc_signature :: hybrid_signature
  rc_round_hash :: bytes
  rc_confirmation_tag :: bytes

definition is_removed :: "node_index \<Rightarrow> node_index \<Rightarrow> bool option" where
  "is_removed removed_leaf i = (if i = removed_leaf then Some True else is_descendant_of removed_leaf i)"

fun compute_remove_resolution_sets_and_keys ::
  "tree_view \<Rightarrow> node_index list \<Rightarrow> u32 \<Rightarrow> (node_index list list \<times> kem_public_key list list) option" where
  "compute_remove_resolution_sets_and_keys tree [] removed_pos = Some ([], [])"
| "compute_remove_resolution_sets_and_keys tree (path_node # path) removed_pos = do {
     resolution \<leftarrow> compute_lj (view_get tree) (view_depth tree) path_node (unmerged_indices tree);
     pairs \<leftarrow> keyed_nodes (is_removed (leaf (view_depth tree) removed_pos)) tree resolution;
     (sets, keyss) \<leftarrow> compute_remove_resolution_sets_and_keys tree path removed_pos;
     Some (map fst pairs # sets, map snd pairs # keyss) }"

text \<open>\<open>remove_member\<close> of the operations; the session's method of that name only edits the registry.\<close>

definition op_remove_member ::
  "primitives \<Rightarrow> sig_suite \<Rightarrow> (bytes \<Rightarrow> bytes outcome) \<Rightarrow> commit_coins \<Rightarrow> identity_keypair \<Rightarrow> user_id \<Rightarrow> u32
     \<Rightarrow> (remove_commit, cocoa_session) act" where
  "op_remove_member p g sg c identity removed_id removed_pos s0 =
     (let pos = our_leaf_position s0; tree_depth = view_depth (session_tree s0) in
     act_bind (act_out (require (removed_pos \<noteq> pos) SelfRemovalForbidden)) (\<lambda>_.
     act_bind (act_out (require (removed_pos < view_member_count (session_tree s0)) InvalidLeafPosition)) (\<lambda>_.
     act_bind (act_modify (on_tree (blank_node (leaf tree_depth removed_pos)))) (\<lambda>_ s.
     (let tree = session_tree s in
     act_bind (act_out (of_result (generate_leaf_seed (cc_seed c)))) (\<lambda>leaf_seed.
     act_bind (act_out (or_panic (path_to_root (leaf tree_depth pos)))) (\<lambda>path.
     let path_seeds = derive_path_seeds p leaf_seed (length path) in
     act_bind (act_out (or_panic (compute_remove_resolution_sets_and_keys tree path removed_pos))) (\<lambda>(sets, keys).
     act_bind (act_out (compute_sibling_labels p tree path)) (\<lambda>labels.
     act_bind (act_out (build_path_updates_with_seeds p sg (cc_kem c) tree_depth pos path_seeds sets keys labels)) (\<lambda>r.
     let path_updates = map to_wire (pr_updates r); delta_root = pr_delta_root r;
         round_hash = h3_round_hash p (compute_root_label p path_seeds) [removed_id] [];
         path_updates_hash = hash_path_updates p (serialise_path_updates path_updates) in
     act_bind (act_out (or_panic (checked_add (session_epoch_number s) 1))) (\<lambda>n.
     let content = content_new_remove (group_id s) n round_hash path_updates_hash pos
           (derive_user_id_from_identity p (id_public identity)) in
     act_bind (act_out (of_result (sign_commit p g (cc_sign c) identity content))) (\<lambda>signature.
     let new_transcript = h3_transcript_hash p (transcript_hash s) round_hash;
         confirmation_tag = commit_confirmation_tag p delta_root new_transcript n in
     act_bind (act_modify (advance_epoch p delta_root new_transcript)) (\<lambda>_.
     act_out (Done \<lparr>rc_group_id = group_id s, rc_removed_member_id = removed_id, rc_removed_leaf_position = removed_pos,
       rc_committer_leaf_position = pos, rc_epoch = n, rc_path_updates = path_updates, rc_signature = signature,
       rc_round_hash = round_hash, rc_confirmation_tag = confirmation_tag\<rparr>))))))))) s)))) s0)"

definition process_remove ::
  "primitives \<Rightarrow> sig_suite \<Rightarrow> (bytes \<Rightarrow> bytes outcome) \<Rightarrow> remove_commit \<Rightarrow> identity_public_key
     \<Rightarrow> (unit, cocoa_session) act" where
  "process_remove p g sg commit remover_identity s =
     (let tree = session_tree s in
     act_bind (act_out (of_result (check_size_limits (path_updates_wire_len (rc_path_updates commit))
       (length (rc_path_updates commit) - 1) (view_depth tree) (view_member_count tree) (total_unmerged_leaves tree)))) (\<lambda>_.
     act_bind (act_out (require (rc_group_id commit = group_id s) GroupIdMismatch)) (\<lambda>_.
     act_bind (act_out (require (rc_removed_leaf_position commit \<noteq> our_leaf_position s) RemovedFromGroup)) (\<lambda>_.
     act_bind (act_out (or_panic (checked_add (session_epoch_number s) 1))) (\<lambda>n.
     act_bind (act_out (require (rc_epoch commit = n) (EpochMismatch n (rc_epoch commit)))) (\<lambda>_.
     let path_updates_hash = hash_path_updates p (serialise_path_updates (rc_path_updates commit));
         content = content_new_remove (rc_group_id commit) (rc_epoch commit) (rc_round_hash commit) path_updates_hash
           (rc_committer_leaf_position commit) (derive_user_id_from_identity p remover_identity) in
     act_bind (act_out (of_result (verify_commit_signature p g remover_identity content (rc_signature commit)))) (\<lambda>_.
     act_bind (act_out (if view_member_count tree \<le> rc_committer_leaf_position commit then Fail InvalidLeafPosition
       else bind_out (or_panic (leaf_is_blank tree (rc_committer_leaf_position commit))) (\<lambda>blank.
         require (\<not> blank) InvalidLeafPosition))) (\<lambda>_.
     act_bind (act_out (of_result (convert_path_updates_to_node_updates (rc_path_updates commit)))) (\<lambda>node_updates.
     act_bind (act_out (delta_root_of p sg node_updates s)) (\<lambda>delta_root.
     let new_transcript = h3_transcript_hash p (transcript_hash s) (rc_round_hash commit) in
     act_bind (act_out (require (commit_confirmation_tag p delta_root new_transcript (rc_epoch commit)
       = rc_confirmation_tag commit) SignatureVerificationFailed)) (\<lambda>_.
     act_bind (act_out (require (h3_round_hash p (derive_key p ROOT_LABEL_CONTEXT delta_root) [rc_removed_member_id commit] []
       = rc_round_hash commit) RoundHashMismatch)) (\<lambda>_.
     let leaf_index = leaf (view_depth tree) (rc_removed_leaf_position commit) in
     act_bind (act_out (or_panic (blank_node leaf_index tree))) (\<lambda>scratch.
     act_bind (act_out (verify_parent_hashes p scratch node_updates)) (\<lambda>_.
     act_bind (act_modify (on_tree (blank_node leaf_index))) (\<lambda>_.
     act_bind (act_modify (update_tree_from_path_updates (rc_path_updates commit) (rc_signature commit) (our_user_id s))) (\<lambda>_.
     act_bind (act_modify (advance_epoch p delta_root new_transcript)) (\<lambda>_.
     act_modify (\<lambda>s. Some (remove_member (rc_removed_member_id commit) s)))))))))))))))))) s)"

section \<open>What the operations return\<close>

definition remove_content :: "primitives \<Rightarrow> identity_public_key \<Rightarrow> remove_commit \<Rightarrow> commit_content" where
  "remove_content p remover commit = content_new_remove (rc_group_id commit) (rc_epoch commit) (rc_round_hash commit)
     (hash_path_updates p (serialise_path_updates (rc_path_updates commit))) (rc_committer_leaf_position commit)
     (derive_user_id_from_identity p remover)"

text \<open>The commit that a removal broadcasts, from what was computed along the way.\<close>

definition remove_commit_of ::
  "primitives \<Rightarrow> cocoa_session \<Rightarrow> user_id \<Rightarrow> u32 \<Rightarrow> u64 \<Rightarrow> bytes list \<Rightarrow> path_update_result \<Rightarrow> hybrid_signature \<Rightarrow> remove_commit" where
  "remove_commit_of p s uid q n path_seeds r signature =
     (let rh = h3_round_hash p (compute_root_label p path_seeds) [uid] [] in
      \<lparr>rc_group_id = group_id s, rc_removed_member_id = uid, rc_removed_leaf_position = q,
       rc_committer_leaf_position = our_leaf_position s, rc_epoch = n, rc_path_updates = map to_wire (pr_updates r),
       rc_signature = signature, rc_round_hash = rh,
       rc_confirmation_tag = commit_confirmation_tag p (pr_delta_root r) (h3_transcript_hash p (transcript_hash s) rh) n\<rparr>)"

lemma remove_member_fields [simp]:
  "session_tree (remove_member u s) = session_tree s" "session_epoch (remove_member u s) = session_epoch s"
  "group_id (remove_member u s) = group_id s" "transcript_hash (remove_member u s) = transcript_hash s"
  "our_keypair (remove_member u s) = our_keypair s" "our_leaf_position (remove_member u s) = our_leaf_position s"
  by (simp_all add: remove_member_def)

lemma op_remove_member_Inr:
  assumes "op_remove_member p g sg c identity uid q s = Some (Inr commit, s')"
  obtains t leaf_seed path sets keys labels r n signature where
    "q \<noteq> our_leaf_position s" "q < view_member_count (session_tree s)"
    "blank_node (leaf (view_depth (session_tree s)) q) (session_tree s) = Some t"
    "cc_seed c = Some leaf_seed" "path_to_root (leaf (view_depth (session_tree s)) (our_leaf_position s)) = Some path"
    "compute_remove_resolution_sets_and_keys t path q = Some (sets, keys)"
    "compute_sibling_labels p t path = Done labels"
    "build_path_updates_with_seeds p sg (cc_kem c) (view_depth (session_tree s)) (our_leaf_position s)
       (derive_path_seeds p leaf_seed (length path)) sets keys labels = Done r"
    "checked_add (session_epoch_number s) 1 = Some n"
    "commit = remove_commit_of p s uid q n (derive_path_seeds p leaf_seed (length path)) r signature"
    "sign_commit p g (cc_sign c) identity (remove_content p (id_public identity) commit) = Inr signature"
    "advance_epoch p (pr_delta_root r) (h3_transcript_hash p (transcript_hash s) (rc_round_hash commit))
       (s\<lparr>session_tree := t\<rparr>) = Some s'"
  using assms
  by (auto simp: op_remove_member_def act_simps Let_def generate_leaf_seed_def ok_or_eq_Inr bind_out_eq_Done on_tree_def
      session_epoch_number_def remove_commit_of_def remove_content_def intro: that)

lemma process_remove_Inr:
  "process_remove p g sg commit remover s = Some (Inr u, s') \<longleftrightarrow>
     (\<exists>scratch us delta s2 s3.
       check_size_limits (path_updates_wire_len (rc_path_updates commit)) (length (rc_path_updates commit) - 1)
         (view_depth (session_tree s)) (view_member_count (session_tree s)) (total_unmerged_leaves (session_tree s)) = Inr ()
     \<and> rc_group_id commit = group_id s \<and> rc_removed_leaf_position commit \<noteq> our_leaf_position s
     \<and> checked_add (session_epoch_number s) 1 = Some (rc_epoch commit)
     \<and> verify_commit_signature p g remover (remove_content p remover commit) (rc_signature commit) = Inr ()
     \<and> rc_committer_leaf_position commit < view_member_count (session_tree s)
     \<and> leaf_is_blank (session_tree s) (rc_committer_leaf_position commit) = Some False
     \<and> convert_path_updates_to_node_updates (rc_path_updates commit) = Inr us
     \<and> delta_root_of p sg us s = Done delta
     \<and> commit_confirmation_tag p delta (h3_transcript_hash p (transcript_hash s) (rc_round_hash commit)) (rc_epoch commit)
         = rc_confirmation_tag commit
     \<and> h3_round_hash p (derive_key p ROOT_LABEL_CONTEXT delta) [rc_removed_member_id commit] [] = rc_round_hash commit
     \<and> blank_node (leaf (view_depth (session_tree s)) (rc_removed_leaf_position commit)) (session_tree s) = Some scratch
     \<and> verify_parent_hashes p scratch us = Done ()
     \<and> update_tree_from_path_updates (rc_path_updates commit) (rc_signature commit) (our_user_id s) (s\<lparr>session_tree := scratch\<rparr>) = Some s2
     \<and> advance_epoch p delta (h3_transcript_hash p (transcript_hash s) (rc_round_hash commit)) s2 = Some s3
     \<and> s' = remove_member (rc_removed_member_id commit) s3)"
  by (auto simp: process_remove_def act_simps Let_def bind_out_eq_Done not_le on_tree_def remove_content_def split: if_splits)

lemma process_remove_Inl: "process_remove p g sg commit remover s = Some (Inl e, s') \<Longrightarrow> s' = s"
  by (auto simp: process_remove_def act_simps Let_def)

section \<open>Recipients of a removal\<close>

lemma is_removed_anc:
  assumes "ndepth l < 32" shows "is_removed l i = Some (anc i l)"
proof (cases "i = l")
  case True
  then show ?thesis by (simp add: is_removed_def anc_def)
next
  case False
  then have "(\<exists>k>0. up k l = Some i) \<longleftrightarrow> (\<exists>k. up k l = Some i)" by (metis gr0I option.inject up.simps(1))
  then show ?thesis using False is_descendant_of_up [OF assms, of i] by (simp add: is_removed_def anc_up)
qed

text \<open>The keys that a removal encrypts to.\<close>

definition removal_recipients :: "tree_view \<Rightarrow> u32 \<Rightarrow> u32 \<Rightarrow> kem_public_key set" where
  "removal_recipients t pos q =
     (case compute_remove_resolution_sets_and_keys t (path_up (leaf (view_depth t) pos)) q of
        Some (sets, keys) \<Rightarrow> \<Union> (set ` set keys) | None \<Rightarrow> {})"

lemma remove_sets_nth:
  assumes "compute_remove_resolution_sets_and_keys t path q = Some (sets, keys)"
    and "view_ok t" and "\<forall>i \<in> set path. valid_index i \<and> depth i \<le> view_depth t" and "k < length path"
  shows "length keys = length path \<and> (\<exists>r ks. compute_lj (view_get t) (view_depth t) (path ! k) (unmerged_indices t) = Some r
    \<and> keys_of t r = Some ks \<and> length ks = length r
    \<and> sets ! k = map fst (filter (\<lambda>(i, _). \<not> anc i (leaf (view_depth t) q)) (zip r ks))
    \<and> keys ! k = map snd (filter (\<lambda>(i, _). \<not> anc i (leaf (view_depth t) q)) (zip r ks)))"
  using assms(1,3,4)
proof (induction path arbitrary: sets keys k)
  case (Cons i path)
  obtain r pairs sets' keys' where c: "compute_lj (view_get t) (view_depth t) i (unmerged_indices t) = Some r"
    "keyed_nodes (is_removed (leaf (view_depth t) q)) t r = Some pairs"
    "compute_remove_resolution_sets_and_keys t path q = Some (sets', keys')"
    "sets = map fst pairs # sets'" "keys = map snd pairs # keys'"
    using Cons.prems(1) by (auto simp: bind_eq_Some_conv)
  have i: "valid_index i" "depth i \<le> view_depth t" using Cons.prems(2) by auto
  have pop: "\<forall>j \<in> set r. \<exists>n pk. view_get t j = Some (Some n) \<and> state_public_key (node_st n) = Some pk"
    using resolution_populated(1) [OF assms(2) i c(1)] by blast
  have "list_all valid_index r"
    using resolution_populated(2) [OF assms(2) i c(1)] by (auto simp: list_all_iff stands_for_def)
  then obtain ks where ks: "keys_of t r = Some ks" using keys_of_total by blast
  have "\<forall>j \<in> set r. is_removed (leaf (view_depth t) q) j = Some (anc j (leaf (view_depth t) q))"
    using assms(2) by (simp add: is_removed_anc view_ok_def)
  from keyed_nodes_of_keys [OF pop this ks] c(2)
  have "length ks = length r" "pairs = filter (\<lambda>(i, k). \<not> anc i (leaf (view_depth t) q)) (zip r ks)" by simp_all
  moreover have len: "length keys' = length path" using c(3)
    by (induction path arbitrary: sets' keys') (auto simp: bind_eq_Some_conv)
  ultimately show ?case
    using c(1,4,5) ks Cons.IH [OF c(3), of "k - 1"] Cons.prems(2,3) by (cases k) auto
qed simp

text \<open>A removal can be verified against a tree when it skips no recipient at a level that the verifier
  resolves completely.\<close>

definition remove_verifiable :: "tree_view \<Rightarrow> u32 \<Rightarrow> u32 \<Rightarrow> bool" where
  "remove_verifiable t pos q \<longleftrightarrow> (\<forall>k > 0. k \<le> unat (view_depth t) \<longrightarrow>
     (let i = path_up (leaf (view_depth t) pos) ! k in
      \<forall>nodes. reconstruct_resolution_complete t i = Some (nodes, True) \<longrightarrow>
        (\<forall>j \<in> set nodes. \<not> anc j (leaf (view_depth t) q))))"

lemma remove_levels_match:
  assumes t: "view_ok t" "unmerged_below t" "unat pos < 2 ^ unat (view_depth t)"
    and s: "compute_remove_resolution_sets_and_keys t (path_up (leaf (view_depth t) pos)) q = Some (sets, keys)"
    and l: "compute_sibling_labels p t (path_up (leaf (view_depth t) pos)) = Done labels"
    and v: "remove_verifiable t pos q" and k: "0 < k" "k \<le> unat (view_depth t)"
  shows "level_matches p t sets keys labels k (path_up (leaf (view_depth t) pos) ! k)"
proof -
  let ?path = "path_up (leaf (view_depth t) pos)"
  have len: "length ?path = Suc (unat (view_depth t))" by simp
  have path: "\<forall>i \<in> set ?path. valid_index i \<and> depth i \<le> view_depth t"
    using path_up_valid [OF t(3)] t(1) by (auto simp: view_ok_def)
  have kl: "k < length ?path" using k(2) len by simp
  then have i: "valid_index (?path ! k)" "depth (?path ! k) \<le> view_depth t" using path nth_mem by blast+
  obtain r ks where a: "compute_lj (view_get t) (view_depth t) (?path ! k) (unmerged_indices t) = Some r" "keys_of t r = Some ks"
    "length ks = length r" "sets ! k = map fst (filter (\<lambda>(i, _). \<not> anc i (leaf (view_depth t) q)) (zip r ks))"
    "keys ! k = map snd (filter (\<lambda>(i, _). \<not> anc i (leaf (view_depth t) q)) (zip r ks))"
    using remove_sets_nth [OF s t(1) path kl] by blast
  obtain r' ks' c where r: "compute_lj (view_get t) (view_depth t) (?path ! k) (unmerged_indices t) = Some r'"
    "keys_of t r' = Some ks'" "reconstruct_resolution_complete t (?path ! k) = Some (r', c)"
    "reconstruct_resolution_keys t (?path ! k) = Some ks'"
    using reconstructions [OF t(1,2) i] by blast
  have eq: "r' = r" "ks' = ks" using a(1,2) r(1,2) by auto
  have lab: "sibling_label p t (?path ! k) = Done (labels ! (k - 1))"
    using labels_nth [OF l [unfolded compute_sibling_labels_def]] k len by (cases k) auto
  show ?thesis
  proof (cases c)
    case True
    then have "\<forall>j \<in> set r. \<not> anc j (leaf (view_depth t) q)"
      using v [unfolded remove_verifiable_def Let_def, rule_format, OF k, of r] r(3) eq by simp
    then have "filter (\<lambda>(i, _). \<not> anc i (leaf (view_depth t) q)) (zip r ks) = zip r ks"
      by (auto simp: filter_id_conv dest: set_zip_leftD)
    then show ?thesis using lab r(3,4) a(3-5) eq by (simp add: level_matches_def)
  next
    case False
    then show ?thesis using lab r(3) by (auto simp: level_matches_def)
  qed
qed

lemma blank_keeps:
  assumes "blank_node i t = Some t'" and "view_ok t" and "valid_index i"
  shows "keeps_shape t t'"
proof -
  obtain t'' where "view_modify i (\<lambda>_. blank_state) t = Some t''" "keeps_shape t t''"
    using modify_total [OF assms(3), of t t "\<lambda>_. blank_state"] assms(2)
    by (auto simp: keeps_shape_def blank_state_def)
  then show ?thesis using assms(1) by (simp add: blank_node_def)
qed

lemma same_tree_blanks:
  assumes "same_tree t t'" and "blank_node i t = Some u"
  shows "\<exists>u'. blank_node i t' = Some u' \<and> same_tree u u'"
proof -
  have s: "view_nodes t' = view_nodes t" "view_depth t' = view_depth t" "view_member_count t' = view_member_count t"
    using assms(1) by (simp_all add: same_tree_def)
  obtain k where k: "to_linear i = Some k" using assms(2) by (auto simp: blank_node_def view_modify_def)
  show ?thesis
    using assms by (cases "map_of (view_nodes t) k") (auto simp: blank_node_def view_modify_def k s same_tree_def)
qed

lemma same_tree_remove_sets:
  "same_tree t t' \<Longrightarrow> compute_remove_resolution_sets_and_keys t path q = compute_remove_resolution_sets_and_keys t' path q"
proof (induction path)
  case (Cons i path)
  have "keyed_nodes sk t js = keyed_nodes sk t' js" for sk js
    using same_tree_reads(1) [OF Cons.prems] by (induction js) (simp_all cong: if_cong)
  moreover have "view_depth t = view_depth t'" using Cons.prems by (simp add: same_tree_def)
  ultimately show ?case using Cons same_tree_reads(1,2) [OF Cons.prems] by simp
qed simp

section \<open>Agreement\<close>

lemma remove_installs:
  assumes adv: "advance_epoch p d tr s = Some s'" "in_step s r" and ok: "view_ok (session_tree r)"
    and idx: "\<forall>pu \<in> set pus. valid_index (pu_index pu) \<and> depth (pu_index pu) \<le> view_depth (session_tree r)"
  shows "\<exists>r1 r'. update_tree_from_path_updates pus sg uid r = Some r1 \<and> advance_epoch p d tr r1 = Some r'
    \<and> in_step s' r' \<and> session_epoch r' = session_epoch s' \<and> session_tree r' = session_tree r1"
proof -
  have "\<exists>t'. Some q = Some (q\<lparr>session_tree := t'\<rparr>) \<and> keeps_shape (session_tree q) t'" if "view_ok (session_tree q)" for q :: cocoa_session
    using that by (auto simp: keeps_shape_def intro!: exI [of _ "session_tree q"])
  from commit_installs [OF adv ok this idx, of sg uid] show ?thesis by auto
qed

text \<open>C10. The group agrees after a removal: when a member's removal of another succeeds, every member in
  step with it on the same nodes, other than the removed one, for whom no completely known level
  loses a recipient and who holds the key of a remaining recipient, accepts the commit, ends in
  the same epoch with the same secrets and forgets the removed member, unless it holds a key
  under which a seed meant for another commits to the same ciphertext.\<close>

theorem remove_agreement:
  assumes p: "prims_ok p" "seeded_keys_valid p sg" and c: "commit_coins_ok c" "committer_identity g identity"
    and create: "op_remove_member p g sg c identity uid q s = Some (Inr commit, s')"
    and step: "in_step s r" "same_tree (session_tree s) (session_tree r)" "q \<noteq> our_leaf_position r"
    and committer: "accepts_path_from (session_tree r) (our_leaf_position s)"
    and blanked: "blank_node (leaf (view_depth (session_tree r)) q) (session_tree r) = Some t" "unat q < 2 ^ unat (view_depth (session_tree r))"
      "unmerged_below t" "remove_verifiable t (our_leaf_position s) q"
    and limits: "check_size_limits (path_updates_wire_len (rc_path_updates commit)) (length (rc_path_updates commit) - 1)
      (view_depth (session_tree r)) (view_member_count (session_tree r)) (total_unmerged_leaves (session_tree r)) = Inr ()"
    and key: "kem_pair p (our_keypair r) pk" "pk \<in> removal_recipients t (our_leaf_position s) q"
  shows "(\<exists>r'. process_remove p g sg commit (id_public identity) r = Some (Inr (), r')
      \<and> in_step s' r' \<and> session_epoch r' = session_epoch s' \<and> \<not> is_member uid r')
    \<or> (\<exists>us. convert_path_updates_to_node_updates (rc_path_updates commit) = Inr us \<and> stray p (our_keypair r) us)"
proof -
  define td where "td = view_depth (session_tree s)"
  define pos where "pos = our_leaf_position s"
  have same: "view_depth (session_tree r) = td" using step(2) by (simp add: same_tree_def td_def)
  have acc: "view_ok (session_tree r)" "unat pos < 2 ^ unat td" "pos < view_member_count (session_tree r)"
    "leaf_is_blank (session_tree r) pos = Some False"
    using committer same by (simp_all add: accepts_path_from_def pos_def)
  have td32: "unat td < 32" using acc(1) same by (simp add: view_ok_def)
  have "valid_index (leaf td q)" using blanked(2) td32 by (simp add: valid_index_def same)
  from blank_keeps [OF blanked(1) acc(1)] this have t: "view_ok t" "view_depth t = td"
    by (simp_all add: keeps_shape_def same)
  from op_remove_member_Inr [OF create] obtain ts leaf_seed path sets keys labels b n signature where
    "q \<noteq> pos" "q < view_member_count (session_tree s)"
    and ts: "blank_node (leaf td q) (session_tree s) = Some ts"
    and seed: "cc_seed c = Some leaf_seed" and path: "path_to_root (leaf td pos) = Some path"
    and rs: "compute_remove_resolution_sets_and_keys ts path q = Some (sets, keys)"
    and ls: "compute_sibling_labels p ts path = Done labels"
    and bp: "build_path_updates_with_seeds p sg (cc_kem c) td pos (derive_path_seeds p leaf_seed (length path)) sets keys labels = Done b"
    and n: "checked_add (session_epoch_number s) 1 = Some n"
    and cm: "commit = remove_commit_of p s uid q n (derive_path_seeds p leaf_seed (length path)) b signature"
    and sig: "sign_commit p g (cc_sign c) identity (remove_content p (id_public identity) commit) = Inr signature"
    and adv: "advance_epoch p (pr_delta_root b) (h3_transcript_hash p (transcript_hash s) (rc_round_hash commit)) (s\<lparr>session_tree := ts\<rparr>) = Some s'"
    unfolding td_def [symmetric] pos_def [symmetric] .
  have f: "rc_removed_leaf_position commit = q" "rc_removed_member_id commit = uid" "rc_group_id commit = group_id s"
    "rc_committer_leaf_position commit = pos" "rc_epoch commit = n" "rc_path_updates commit = map to_wire (pr_updates b)" "rc_signature commit = signature"
    by (simp_all add: cm remove_commit_of_def Let_def pos_def)
  have tags: "rc_round_hash commit = h3_round_hash p (compute_root_label p (derive_path_seeds p leaf_seed (length path))) [uid] []"
    "rc_confirmation_tag commit = commit_confirmation_tag p (pr_delta_root b) (h3_transcript_hash p (transcript_hash s) (rc_round_hash commit)) n"
    by (simp_all add: cm remove_commit_of_def Let_def)
  have st: "same_tree ts t" using same_tree_blanks [OF step(2) ts] blanked(1) same by auto
  have pu: "path = path_up (leaf td pos)" using path path_to_root_eq [of "leaf td pos"] td32 by simp
  have rs': "compute_remove_resolution_sets_and_keys t (path_up (leaf td pos)) q = Some (sets, keys)"
    using rs same_tree_remove_sets [OF st] pu by simp
  have ls': "compute_sibling_labels p t (path_up (leaf td pos)) = Done labels"
    using ls same_tree_reads(6) [OF st] pu by (simp add: compute_sibling_labels_def)
  have m: "level_matches p t sets keys labels k (path_up (leaf td pos) ! k)" if "0 < k" "k \<le> unat td" for k
    using remove_levels_match [OF t(1) blanked(3), of pos q sets keys p labels k] acc(2) rs' ls' blanked(4) that t(2) pos_def by simp
  obtain ks where ks: "ks \<in> set keys" "pk \<in> set ks"
    using key(2) rs' by (auto simp: removal_recipients_def t(2) pos_def)
  note reach = path_reaches [OF p c(1) seed td32 acc(2) path bp m key(1) ks]
  let ?r = "r\<lparr>session_tree := t\<rparr>"
  have "in_step (s\<lparr>session_tree := ts\<rparr>) ?r" using step(1) by (simp add: in_step_def)
  from remove_installs [OF adv this, of "map to_wire (pr_updates b)" signature "our_user_id r"] t reach(5)
  obtain r1 r' where w: "update_tree_from_path_updates (map to_wire (pr_updates b)) signature (our_user_id r) ?r = Some r1"
    "advance_epoch p (pr_delta_root b) (h3_transcript_hash p (transcript_hash s) (rc_round_hash commit)) r1 = Some r'"
    "in_step s' r'" "session_epoch r' = session_epoch s'" by auto
  have g: "group_id r = group_id s" "transcript_hash r = transcript_hash s" "session_epoch_number r = session_epoch_number s"
    using step(1) by (simp_all add: in_step_def session_epoch_number_def)
  show ?thesis
  proof (cases "stray p (our_keypair r) (map rewired (pr_updates b))")
    case True
    then show ?thesis using reach(1) f(6) by auto
  next
    case False
    then have delta: "delta_root_of p sg (map rewired (pr_updates b)) r = Done (pr_delta_root b)"
      using reach(3) [of "our_leaf_position r" 0] reach(6) by (simp add: delta_root_of_def)
    have "process_remove p g sg commit (id_public identity) r = Some (Inr (), remove_member uid r')"
      unfolding process_remove_Inr
      by (rule exI [of _ t], rule exI [of _ "map rewired (pr_updates b)"], rule exI [of _ "pr_delta_root b"], rule exI [of _ r1],
          rule exI [of _ r'], intro conjI)
        (simp_all only: f g n limits [unfolded f same] acc(3,4) step(3) not_False_eq_True reach(1,2,4) delta w(1,2) tags(2)
          tags(1) [symmetric] blanked(1) [unfolded same] signed_commit_verifies [OF c(2) sig [unfolded f(7)]] same)
    then show ?thesis using w(3,4) by (auto simp: is_member_def remove_member_def in_step_def)
  qed
qed

section \<open>Whom a removal excludes\<close>

text \<open>Every seed of a built path is sealed with its own coins to the key that was given for it.\<close>

lemma sealed_seeds:
  assumes b: "build_path_updates_with_seeds p sg coins td pos seeds sets keys labels = Done r"
    and k: "k < length (pr_updates r)" "j < length (nu_seeds (pr_updates r ! k))"
  shows "j < length (keys ! k)" "length (sets ! k) = length (keys ! k)"
    "recipient_index (nu_seeds (pr_updates r ! k) ! j) = sets ! k ! j"
    "encrypt_seed_to_recipient p (coins k j) (seeds ! k) (keys ! k ! j) (nu_index (pr_updates r ! k))
      = Done (rs_encrypted (nu_seeds (pr_updates r ! k) ! j))"
proof -
  have bl: "build_levels p sg coins td pos sets keys labels 0 zero32 [] seeds = Done (pr_updates r)"
    using b by (auto simp: build_path_updates_with_seeds_def Let_def bind_out_eq_Done split: if_splits)
  note nth = build_levels_nth [OF bl, unfolded add_0]
  have "k < length seeds" using k(1) nth by simp
  with nth obtain d q es where l: "nu_index (pr_updates r ! k) = node_new d q" "length (sets ! k) = length (keys ! k)"
    "encrypt_each p (coins k) (seeds ! k) 0 (keys ! k) (node_new d q) = Done es"
    "nu_seeds (pr_updates r ! k) = map (\<lambda>(r, e). \<lparr>recipient_index = r, rs_encrypted = e\<rparr>) (zip (sets ! k) es)" by blast
  note e = encrypt_each_nth [OF l(3)]
  show "j < length (keys ! k)" "length (sets ! k) = length (keys ! k)" using k(2) l(2,4) by simp_all
  show "recipient_index (nu_seeds (pr_updates r ! k) ! j) = sets ! k ! j"
    "encrypt_seed_to_recipient p (coins k j) (seeds ! k) (keys ! k ! j) (nu_index (pr_updates r ! k))
      = Done (rs_encrypted (nu_seeds (pr_updates r ! k) ! j))"
    using e k(2) l by simp_all
qed

lemma sealed_count:
  assumes "build_path_updates_with_seeds p sg coins td pos seeds sets keys labels = Done r" and "k < length (pr_updates r)"
  shows "length (nu_seeds (pr_updates r ! k)) = length (keys ! k)"
proof -
  have bl: "build_levels p sg coins td pos sets keys labels 0 zero32 [] seeds = Done (pr_updates r)"
    using assms(1) by (auto simp: build_path_updates_with_seeds_def Let_def bind_out_eq_Done split: if_splits)
  note nth = build_levels_nth [OF bl, unfolded add_0]
  have "k < length seeds" using assms(2) nth by simp
  with nth obtain d q es where l: "length (sets ! k) = length (keys ! k)"
    "encrypt_each p (coins k) (seeds ! k) 0 (keys ! k) (node_new d q) = Done es"
    "nu_seeds (pr_updates r ! k) = map (\<lambda>(r, e). \<lparr>recipient_index = r, rs_encrypted = e\<rparr>) (zip (sets ! k) es)" by blast
  then show ?thesis using encrypt_each_nth [OF l(2)] by simp
qed

lemma built_length:
  assumes "build_path_updates_with_seeds p sg coins td pos seeds sets keys labels = Done r"
  shows "length (pr_updates r) = length seeds"
  using assms build_levels_nth by (auto simp: build_path_updates_with_seeds_def Let_def bind_out_eq_Done split: if_splits)

lemma keys_of_zip:
  assumes "keys_of t r = Some ks" and "length ks = length r" and "(j, x) \<in> set (zip r ks)"
  shows "\<exists>n. view_get t j = Some (Some n) \<and> state_public_key (node_st n) = Some x"
proof -
  have le: "keys_of t r = Some ks \<Longrightarrow> length ks \<le> length r" for r ks
    by (induction r arbitrary: ks) (fastforce simp: bind_eq_Some_conv split: option.splits)+
  show ?thesis
    using assms
  proof (induction r arbitrary: ks)
    case (Cons i r)
    obtain found ks' where f: "view_get t i = Some found" "keys_of t r = Some ks'"
      "ks = (case Option.bind found (\<lambda>n. state_public_key (node_st n)) of Some pk \<Rightarrow> pk # ks' | None \<Rightarrow> ks')"
      using Cons.prems(1) by (auto simp: bind_eq_Some_conv)
    then obtain n pk where n: "found = Some n" "state_public_key (node_st n) = Some pk" "ks = pk # ks'"
      using le [OF f(2)] Cons.prems(2) by (auto simp: bind_eq_Some_conv split: option.splits)
    then show ?case using Cons f(1,2) by auto
  qed simp
qed

text \<open>The recipients of a level are populated nodes that are not above the removed leaf.\<close>

lemma recipients_survive:
  assumes "compute_remove_resolution_sets_and_keys t path q = Some (sets, keys)"
    and "view_ok t" and "\<forall>i \<in> set path. valid_index i \<and> depth i \<le> view_depth t" and "k < length path" and "j < length (keys ! k)"
  shows "\<exists>n. \<not> anc (sets ! k ! j) (leaf (view_depth t) q) \<and> view_get t (sets ! k ! j) = Some (Some n)
    \<and> state_public_key (node_st n) = Some (keys ! k ! j)"
proof -
  from remove_sets_nth [OF assms(1-4)] obtain r ks where r: "keys_of t r = Some ks" "length ks = length r"
    "sets ! k = map fst (filter (\<lambda>(i, _). \<not> anc i (leaf (view_depth t) q)) (zip r ks))"
    "keys ! k = map snd (filter (\<lambda>(i, _). \<not> anc i (leaf (view_depth t) q)) (zip r ks))" by blast
  let ?f = "filter (\<lambda>(i, _). \<not> anc i (leaf (view_depth t) q)) (zip r ks)"
  have "j < length ?f" using assms(5) unfolding r(4) length_map .
  then have "?f ! j \<in> set ?f" by (rule nth_mem)
  then have "(sets ! k ! j, keys ! k ! j) \<in> set ?f" using assms(5) r(3,4) by simp
  then have "(sets ! k ! j, keys ! k ! j) \<in> set (zip r ks)" "\<not> anc (sets ! k ! j) (leaf (view_depth t) q)" by simp_all
  then show ?thesis using keys_of_zip [OF r(1,2)] by blast
qed

text \<open>C11. A removal excludes the removed leaf. Read back from the wire, the path of a successful removal
  has one update per level, and the j-th seed of level k is the encryption, with the run's own
  coins, of that level's path seed to the public key of a populated node which is not above the
  removed leaf and whose position the commit names: no ciphertext is sealed to a key that only
  the removed member's path held. Each of the remaining recipients has its ciphertext. And any key pair with another public key that opens one of
  these ciphertexts, the removed member's included, exhibits a clash of two concrete values: the
  commitments of the encapsulated and the decapsulated secret, the two combiner inputs, or the
  encodings of the two public keys.\<close>

theorem removal_excludes:
  assumes p: "prims_ok p" "seeded_keys_valid p sg" and c: "commit_coins_ok c"
    and create: "op_remove_member p g sg c identity uid q s = Some (Inr commit, s')"
    and tree: "view_ok (session_tree s)" "unat (our_leaf_position s) < 2 ^ unat (view_depth (session_tree s))"
      "unat q < 2 ^ unat (view_depth (session_tree s))"
      "blank_node (leaf (view_depth (session_tree s)) q) (session_tree s) = Some t"
      "\<forall>k \<in> removal_recipients t (our_leaf_position s) q. kem_pk_wf k"
  shows "\<exists>seed us. cc_seed c = Some seed \<and> convert_path_updates_to_node_updates (rc_path_updates commit) = Inr us
    \<and> length us = Suc (unat (view_depth t))
    \<and> (\<forall>k < length us. \<forall>j < length (nu_seeds (us ! k)). \<exists>i n pk.
        position (recipient_index (nu_seeds (us ! k) ! j)) = position i
      \<and> \<not> anc i (leaf (view_depth t) q) \<and> view_get t i = Some (Some n) \<and> state_public_key (node_st n) = Some pk
      \<and> encrypt_seed_to_recipient p (cc_kem c k j) (derive_path_seeds p seed (length us) ! k) pk (nu_index (us ! k))
        = Done (rs_encrypted (nu_seeds (us ! k) ! j))
      \<and> (\<forall>kp x. kem_pk_wf (kp_public kp) \<and> kp_public kp \<noteq> pk
          \<and> decrypt_seed p (rs_encrypted (nu_seeds (us ! k) ! j)) kp (nu_index (us ! k)) = Done x
          \<longrightarrow> opening_clash p (cc_kem c k j) pk kp (nu_index (us ! k)) (rs_encrypted (nu_seeds (us ! k) ! j))))
    \<and> (\<forall>pk \<in> removal_recipients t (our_leaf_position s) q. \<exists>k < length us. \<exists>j < length (nu_seeds (us ! k)).
        encrypt_seed_to_recipient p (cc_kem c k j) (derive_path_seeds p seed (length us) ! k) pk (nu_index (us ! k))
        = Done (rs_encrypted (nu_seeds (us ! k) ! j)))"
proof -
  let ?td = "view_depth (session_tree s)" and ?pos = "our_leaf_position s"
  have td32: "unat ?td < 32" using tree(1) by (simp add: view_ok_def)
  have "valid_index (leaf ?td q)" using tree(3) td32 by (simp add: valid_index_def)
  from blank_keeps [OF tree(4,1) this] have t: "view_ok t" "view_depth t = ?td" by (simp_all add: keeps_shape_def)
  from op_remove_member_Inr [OF create] obtain leaf_seed path sets keys labels b n signature where
    seed: "cc_seed c = Some leaf_seed" and path: "path_to_root (leaf ?td ?pos) = Some path"
    and rs: "compute_remove_resolution_sets_and_keys t path q = Some (sets, keys)"
    and bp: "build_path_updates_with_seeds p sg (cc_kem c) ?td ?pos (derive_path_seeds p leaf_seed (length path)) sets keys labels = Done b"
    and cm: "commit = remove_commit_of p s uid q n (derive_path_seeds p leaf_seed (length path)) b signature"
    using tree(4) by (metis option.inject)
  have pu: "path = path_up (leaf ?td ?pos)" using path path_to_root_eq [of "leaf ?td ?pos"] td32 by simp
  then have pl: "length path = Suc (unat ?td)" by simp
  have valid: "\<forall>i \<in> set path. valid_index i \<and> depth i \<le> view_depth t" using path_up_valid [OF tree(2) td32] pu t(2) by simp
  have rec: "removal_recipients t ?pos q = \<Union> (set ` set keys)" using rs pu t(2) by (simp add: removal_recipients_def)
  have len: "length keys = length path" using remove_sets_nth [OF rs t(1) valid, of 0] pl by simp
  have coins: "\<forall>l j. kem_coins_ok (cc_kem c l j)" "length leaf_seed = 32" using c seed by (auto simp: commit_coins_ok_def)
  define us where "us = map rewired (pr_updates b)"
  have us: "convert_path_updates_to_node_updates (rc_path_updates commit) = Inr us"
    using convert_to_wire [OF built_path(4) [OF p coins td32 bp [unfolded pl] refl]] by (simp add: cm remove_commit_of_def Let_def us_def)
  have lb: "length (pr_updates b) = length path" using built_length [OF bp] by simp
  have "\<exists>i n pk. position (recipient_index (nu_seeds (us ! k) ! j)) = position i
      \<and> \<not> anc i (leaf (view_depth t) q) \<and> view_get t i = Some (Some n) \<and> state_public_key (node_st n) = Some pk
      \<and> encrypt_seed_to_recipient p (cc_kem c k j) (derive_path_seeds p leaf_seed (length us) ! k) pk (nu_index (us ! k))
        = Done (rs_encrypted (nu_seeds (us ! k) ! j))
      \<and> (\<forall>kp x. kem_pk_wf (kp_public kp) \<and> kp_public kp \<noteq> pk
          \<and> decrypt_seed p (rs_encrypted (nu_seeds (us ! k) ! j)) kp (nu_index (us ! k)) = Done x
          \<longrightarrow> opening_clash p (cc_kem c k j) pk kp (nu_index (us ! k)) (rs_encrypted (nu_seeds (us ! k) ! j)))"
    if k: "k < length us" and j: "j < length (nu_seeds (us ! k))" for k j
  proof -
    have kb: "k < length (pr_updates b)" and jb: "j < length (nu_seeds (pr_updates b ! k))"
      using k j by (simp_all add: us_def rewired_def)
    note sealed = sealed_seeds [OF bp kb jb]
    have u: "position (recipient_index (nu_seeds (us ! k) ! j)) = position (sets ! k ! j)"
      "rs_encrypted (nu_seeds (us ! k) ! j) = rs_encrypted (nu_seeds (pr_updates b ! k) ! j)"
      "nu_index (us ! k) = nu_index (pr_updates b ! k)" "length us = length path"
      using kb jb sealed(3) lb by (simp_all add: us_def rewired_def leaf_def)
    from recipients_survive [OF rs t(1) valid _ sealed(1)] kb lb obtain n where
      n: "\<not> anc (sets ! k ! j) (leaf (view_depth t) q)" "view_get t (sets ! k ! j) = Some (Some n)"
        "state_public_key (node_st n) = Some (keys ! k ! j)" by auto
    have "keys ! k ! j \<in> removal_recipients t ?pos q"
      unfolding rec using kb lb len sealed(1) by (metis UN_iff image_eqI nth_mem)
    then have "kem_pk_wf (keys ! k ! j)" using tree(5) by blast
    from outsider_opens [OF p(1) sealed(4) _ _ this] n sealed(4) show ?thesis unfolding u by blast
  qed
  moreover have "\<exists>k < length us. \<exists>j < length (nu_seeds (us ! k)).
        encrypt_seed_to_recipient p (cc_kem c k j) (derive_path_seeds p leaf_seed (length us) ! k) pk (nu_index (us ! k))
        = Done (rs_encrypted (nu_seeds (us ! k) ! j))" if pk: "pk \<in> removal_recipients t ?pos q" for pk
  proof -
    obtain k j where kj: "k < length path" "j < length (keys ! k)" "pk = keys ! k ! j"
      using pk len unfolding rec by (auto simp: in_set_conv_nth)
    have kb: "k < length (pr_updates b)" using kj(1) lb by simp
    have jb: "j < length (nu_seeds (pr_updates b ! k))" using sealed_count [OF bp kb] kj(2) by simp
    have "k < length us" "j < length (nu_seeds (us ! k))" using kb jb by (simp_all add: us_def rewired_def)
    moreover have "encrypt_seed_to_recipient p (cc_kem c k j) (derive_path_seeds p leaf_seed (length us) ! k) pk (nu_index (us ! k))
        = Done (rs_encrypted (nu_seeds (us ! k) ! j))"
      using sealed_seeds(4) [OF bp kb jb] kb jb kj(3) lb by (simp add: us_def rewired_def)
    ultimately show ?thesis by blast
  qed
  moreover have "length us = Suc (unat (view_depth t))" using lb pl t(2) by (simp add: us_def)
  ultimately show ?thesis using seed us by blast
qed

section \<open>Honest removals that are refused\<close>

text \<open>An honest removal is refused by every member whose tree determines a populated node above the
  removed leaf: the remover skips that node, and with it all members below, while the receiver
  compares the positions with a resolution that has it. A member that holds no other key
  receives no seed.\<close>

lemma honest_removal_refused:
  assumes p: "prims_ok p" "seeded_keys_valid p sg" and c: "commit_coins_ok c"
    and create: "op_remove_member p g sg c identity uid q s = Some (Inr commit, s')"
    and same: "same_tree (session_tree s) (session_tree r)"
    and tree: "view_ok (session_tree r)" "unat (our_leaf_position s) < 2 ^ unat (view_depth (session_tree r))"
      "unat q < 2 ^ unat (view_depth (session_tree r))"
      "blank_node (leaf (view_depth (session_tree r)) q) (session_tree r) = Some t" "unmerged_below t"
    and level: "0 < k" "k \<le> unat (view_depth t)" "path_up (leaf (view_depth t) (our_leaf_position s)) ! k = i"
      "reconstruct_resolution_complete t i = Some (nodes, True)" "j \<in> set nodes" "anc j (leaf (view_depth t) q)"
      "\<forall>m \<in> set nodes. \<not> anc m (leaf (view_depth t) q) \<longrightarrow> position m \<noteq> position j"
  shows "process_remove p g sg' commit remover r \<noteq> Some (Inr (), r')"
proof
  assume acc: "process_remove p g sg' commit remover r = Some (Inr (), r')"
  let ?td = "view_depth (session_tree r)" and ?pos = "our_leaf_position s"
  have std: "view_depth (session_tree s) = ?td" using same by (simp add: same_tree_def)
  have td32: "unat ?td < 32" using tree(1) by (simp add: view_ok_def)
  have "valid_index (leaf ?td q)" using tree(3) td32 by (simp add: valid_index_def)
  from blank_keeps [OF tree(4,1) this] have t: "view_ok t" "view_depth t = ?td" by (simp_all add: keeps_shape_def)
  from op_remove_member_Inr [OF create] obtain ts leaf_seed path sets keys labels b n signature where
    ts: "blank_node (leaf ?td q) (session_tree s) = Some ts"
    and seed: "cc_seed c = Some leaf_seed" and path: "path_to_root (leaf ?td ?pos) = Some path"
    and rs: "compute_remove_resolution_sets_and_keys ts path q = Some (sets, keys)"
    and bp: "build_path_updates_with_seeds p sg (cc_kem c) ?td ?pos (derive_path_seeds p leaf_seed (length path)) sets keys labels = Done b"
    and cm: "commit = remove_commit_of p s uid q n (derive_path_seeds p leaf_seed (length path)) b signature"
    unfolding std by metis
  have st: "same_tree ts t" using same_tree_blanks [OF same ts] tree(4) by auto
  have pu: "path = path_up (leaf ?td ?pos)" using path path_to_root_eq [of "leaf ?td ?pos"] td32 by simp
  then have pl: "length path = Suc (unat ?td)" by simp
  have kp: "k < length path" using level(2) pl t(2) by simp
  have valid: "\<forall>i \<in> set path. valid_index i \<and> depth i \<le> view_depth t" using path_up_valid [OF tree(2) td32] pu t(2) by simp
  have pk: "path ! k = i" using level(3) pu t(2) by simp
  have i: "valid_index i" "depth i \<le> view_depth t" using valid kp pk nth_mem by blast+
  have "compute_remove_resolution_sets_and_keys t path q = Some (sets, keys)" using rs same_tree_remove_sets [OF st] by simp
  from remove_sets_nth [OF this t(1) valid kp, THEN conjunct2]
  obtain r0 ks where r0: "compute_lj (view_get t) (view_depth t) i (unmerged_indices t) = Some r0" and "keys_of t r0 = Some ks"
    and "length ks = length r0" and sk: "sets ! k = map fst (filter (\<lambda>(i, _). \<not> anc i (leaf (view_depth t) q)) (zip r0 ks))"
    and "keys ! k = map snd (filter (\<lambda>(i, _). \<not> anc i (leaf (view_depth t) q)) (zip r0 ks))" unfolding pk by blast
  obtain r1 c1 where "compute_lj (view_get t) (view_depth t) i (unmerged_indices t) = Some r1"
    "reconstruct_resolution_complete t i = Some (r1, c1)" by (rule reconstructions [OF t(1) tree(5) i])
  then have nodes: "r0 = nodes" using r0 level(4) by simp
  have sets: "set (sets ! k) \<subseteq> {m \<in> set nodes. \<not> anc m (leaf (view_depth t) q)}"
    using sk nodes by (auto dest: set_zip_leftD)
  have coins: "\<forall>l j. kem_coins_ok (cc_kem c l j)" "length leaf_seed = 32" using c seed by (auto simp: commit_coins_ok_def)
  note built = built_path [OF p coins td32 bp [unfolded pl] refl]
  note bpos = built_positions [OF bp, of k, unfolded length_derive_path_seeds, OF kp]
  have f: "rc_path_updates commit = map to_wire (pr_updates b)" "rc_removed_leaf_position commit = q"
    by (simp_all add: cm remove_commit_of_def Let_def)
  obtain us scratch where v: "blank_node (leaf ?td q) (session_tree r) = Some scratch"
    "convert_path_updates_to_node_updates (rc_path_updates commit) = Inr us" "verify_parent_hashes p scratch us = Done ()"
    using acc unfolding process_remove_Inr f(2) by auto
  have "us = map rewired (pr_updates b)" using v(2) convert_to_wire [OF built(4)] by (simp add: f(1))
  with v(1,3) tree(4) have "verify_chain p t 0 zero32 [] (map rewired (pr_updates b)) = Done ()" by (simp add: verify_parent_hashes_def)
  from verify_chain_nth [OF this, of k] bpos(1) obtain h preds where
    vl: "verify_level p t k h preds (rewired (pr_updates b ! k)) = Done ()" by auto
  have "nu_index (rewired (pr_updates b ! k)) = i" using built(5) level(2,3) t(2) by (simp add: rewired_def)
  from complete_level_positions [OF vl level(1)] this level(4)
  have "position ` set (sets ! k) = position ` set nodes" using bpos(2) by simp
  then have "position j \<in> position ` set (sets ! k)" using level(5) by simp
  with sets level(7) show False by force
qed

section \<open>What a removal does not bind\<close>

text \<open>C33. An empty path is accepted: a member at any occupied leaf can sign a removal with no path at all,
  and every receiver other than the named one takes the zero seed as root seed. The new epoch is
  then a function of the old one and of public values, so the removed member, still in step
  before, derives the same secrets from the broadcast alone.\<close>

theorem empty_removal_accepted:
  assumes g: "committer_identity g identity" and n: "checked_add (session_epoch_number r) 1 = Some n"
    and tree: "accepts_path_from (session_tree r) pos" "q \<noteq> our_leaf_position r" "unat q < 2 ^ unat (view_depth (session_tree r))"
    and limits: "check_size_limits 0 0 (view_depth (session_tree r)) (view_member_count (session_tree r)) (total_unmerged_leaves (session_tree r)) = Inr ()"
    and rh: "rh = h3_round_hash p (derive_key p ROOT_LABEL_CONTEXT zero32) [uid] []" and tr: "tr = h3_transcript_hash p (transcript_hash r) rh"
    and sig: "sign_commit p g coins identity (content_new_remove (group_id r) n rh (hash_path_updates p (serialise_path_updates [])) pos
      (derive_user_id_from_identity p (id_public identity))) = Inr signature"
    and removed: "in_step r x"
  shows "\<exists>r' x'. process_remove p g sg \<lparr>rc_group_id = group_id r, rc_removed_member_id = uid, rc_removed_leaf_position = q,
        rc_committer_leaf_position = pos, rc_epoch = n, rc_path_updates = [], rc_signature = signature, rc_round_hash = rh,
        rc_confirmation_tag = commit_confirmation_tag p zero32 tr n\<rparr> (id_public identity) r = Some (Inr (), r')
    \<and> advance_epoch p zero32 tr x = Some x' \<and> in_step r' x' \<and> session_epoch r' = session_epoch x'"
proof -
  let ?c = "\<lparr>rc_group_id = group_id r, rc_removed_member_id = uid, rc_removed_leaf_position = q,
        rc_committer_leaf_position = pos, rc_epoch = n, rc_path_updates = [], rc_signature = signature, rc_round_hash = rh,
        rc_confirmation_tag = commit_confirmation_tag p zero32 tr n\<rparr>"
  have ok: "view_ok (session_tree r)" "pos < view_member_count (session_tree r)" "leaf_is_blank (session_tree r) pos = Some False"
    using tree(1) by (simp_all add: accepts_path_from_def)
  have "valid_index (leaf (view_depth (session_tree r)) q)" using tree(3) ok(1) by (simp add: valid_index_def view_ok_def)
  then obtain t where t: "blank_node (leaf (view_depth (session_tree r)) q) (session_tree r) = Some t"
    using modify_total [of _ "session_tree r" "session_tree r" "\<lambda>_. blank_state"] ok(1)
    by (fastforce simp: blank_node_def keeps_shape_def blank_state_def)
  obtain x' where x': "advance_epoch p zero32 tr x = Some x'"
    using n removed by (auto simp: advance_epoch_def epoch_advance_def session_epoch_number_def in_step_def Let_def)
  have "in_step x (r\<lparr>session_tree := t\<rparr>)" using removed by (simp add: in_step_def)
  from advance_in_step [OF x' this] obtain r' where r': "advance_epoch p zero32 tr (r\<lparr>session_tree := t\<rparr>) = Some r'"
    "in_step x' r'" "session_epoch r' = session_epoch x'" by blast
  have "process_remove p g sg ?c (id_public identity) r = Some (Inr (), remove_member uid r')"
    unfolding process_remove_Inr
    by (rule exI [of _ t], rule exI [of _ "[]"], rule exI [of _ zero32], rule exI [of _ "r\<lparr>session_tree := t\<rparr>"], rule exI [of _ r'], intro conjI)
      (use limits tree(2) n ok(2,3) t r'(1) signed_commit_verifies [OF g sig] rh tr in
        \<open>simp_all add: path_updates_wire_len_def remove_content_def convert_path_updates_to_node_updates_def delta_root_of_def
          verify_parent_hashes_def update_tree_from_path_updates_def\<close>)
  with x' r'(2,3) show ?thesis by (auto simp: in_step_def remove_member_def)
qed

lemma write_elsewhere:
  assumes "write_path_updates tr n sg uid pus t = Some t'" and "valid_index i" and "i \<notin> pu_index ` set pus"
    and "\<forall>pu \<in> set pus. valid_index (pu_index pu)"
  shows "view_get t' i = view_get t i"
  using assms(1,3,4)
proof (induction pus arbitrary: t)
  case (Cons pu pus)
  then obtain t1 where t1: "write_path_update tr n sg uid pu t = Some t1" "write_path_updates tr n sg uid pus t1 = Some t'"
    by (auto simp: bind_eq_Some_conv)
  have "view_get t1 i = view_get t i"
  proof (cases "kem_pk_from_bytes (pu_public_key pu)")
    case (Inr pk)
    then obtain node where node: "view_insert node t = Some t1" "node_idx node = pu_index pu"
      using t1(1) by (auto simp: write_path_update_def bind_eq_Some_conv new_populated_def)
    then show ?thesis using store.put_get [of node t] Cons.prems(2,3) assms(2) by auto
  qed (use t1(1) in \<open>simp add: write_path_update_def\<close>)
  with Cons.IH [OF t1(2)] Cons.prems(2,3) show ?case by simp
qed simp

text \<open>The position of the removed leaf is not signed: whoever relays an accepted removal can replace it
  by any other position than the receiver's own whose blanking leaves the path verifiable, and
  the receiver accepts it as well. It reaches the same epoch, secrets and registry, but blanks
  the other member's leaf and keeps the removed one.\<close>

lemma removed_position_unbound:
  assumes acc: "process_remove p g sg commit remover r = Some (Inr (), r1)" and ok: "view_ok (session_tree r)"
    and idx: "\<forall>pu \<in> set (rc_path_updates commit). valid_index (pu_index pu) \<and> depth (pu_index pu) \<le> view_depth (session_tree r)"
    and q: "q \<noteq> our_leaf_position r" "unat q < 2 ^ unat (view_depth (session_tree r))"
    and v: "blank_node (leaf (view_depth (session_tree r)) q) (session_tree r) = Some t"
      "convert_path_updates_to_node_updates (rc_path_updates commit) = Inr us" "verify_parent_hashes p t us = Done ()"
  shows "\<exists>r2. process_remove p g sg (commit\<lparr>rc_removed_leaf_position := q\<rparr>) remover r = Some (Inr (), r2)
    \<and> in_step r1 r2 \<and> session_epoch r2 = session_epoch r1 \<and> members r2 = members r1
    \<and> (\<forall>i. valid_index i \<longrightarrow> i \<notin> pu_index ` set (rc_path_updates commit) \<longrightarrow> view_get (session_tree r2) i = view_get t i)"
proof -
  obtain scratch us' delta s2 s3 where a:
    "check_size_limits (path_updates_wire_len (rc_path_updates commit)) (length (rc_path_updates commit) - 1)
         (view_depth (session_tree r)) (view_member_count (session_tree r)) (total_unmerged_leaves (session_tree r)) = Inr ()"
    "rc_group_id commit = group_id r" "checked_add (session_epoch_number r) 1 = Some (rc_epoch commit)"
    "verify_commit_signature p g remover (remove_content p remover commit) (rc_signature commit) = Inr ()"
    "rc_committer_leaf_position commit < view_member_count (session_tree r)"
    "leaf_is_blank (session_tree r) (rc_committer_leaf_position commit) = Some False"
    "convert_path_updates_to_node_updates (rc_path_updates commit) = Inr us'" "delta_root_of p sg us' r = Done delta"
    "commit_confirmation_tag p delta (h3_transcript_hash p (transcript_hash r) (rc_round_hash commit)) (rc_epoch commit) = rc_confirmation_tag commit"
    "h3_round_hash p (derive_key p ROOT_LABEL_CONTEXT delta) [rc_removed_member_id commit] [] = rc_round_hash commit"
    "update_tree_from_path_updates (rc_path_updates commit) (rc_signature commit) (our_user_id r) (r\<lparr>session_tree := scratch\<rparr>) = Some s2"
    "advance_epoch p delta (h3_transcript_hash p (transcript_hash r) (rc_round_hash commit)) s2 = Some s3"
    "r1 = remove_member (rc_removed_member_id commit) s3"
    using acc unfolding process_remove_Inr by blast
  have "valid_index (leaf (view_depth (session_tree r)) q)" using q(2) ok by (simp add: valid_index_def view_ok_def)
  from blank_keeps [OF v(1) ok this] have t: "view_ok t" "view_depth t = view_depth (session_tree r)" by (simp_all add: keeps_shape_def)
  obtain t2 where s2: "s2 = r\<lparr>session_tree := t2\<rparr>" using a(11) by (auto simp: update_tree_from_path_updates_def)
  have "in_step s2 (r\<lparr>session_tree := t\<rparr>)" by (simp add: in_step_def s2)
  from remove_installs [OF a(12) this, of "rc_path_updates commit" "rc_signature commit" "our_user_id r"] t idx
  obtain q1 r' where w: "update_tree_from_path_updates (rc_path_updates commit) (rc_signature commit) (our_user_id r) (r\<lparr>session_tree := t\<rparr>) = Some q1"
    "advance_epoch p delta (h3_transcript_hash p (transcript_hash r) (rc_round_hash commit)) q1 = Some r'"
    "in_step s3 r'" "session_epoch r' = session_epoch s3" "session_tree r' = session_tree q1" by auto
  have "remove_content p remover (commit\<lparr>rc_removed_leaf_position := q\<rparr>) = remove_content p remover commit" by (simp add: remove_content_def)
  then have "process_remove p g sg (commit\<lparr>rc_removed_leaf_position := q\<rparr>) remover r = Some (Inr (), remove_member (rc_removed_member_id commit) r')"
    unfolding process_remove_Inr
    by (intro exI [of _ t] exI [of _ us'] exI [of _ delta] exI [of _ q1] exI [of _ r'] conjI)
      (use a v w(1,2) q(1) in simp_all)
  moreover have "members r' = members s3"
    using a(12) w(1,2) by (auto simp: s2 advance_epoch_def update_tree_from_path_updates_def)
  moreover have "view_get (session_tree r') i = view_get t i" if "valid_index i" "i \<notin> pu_index ` set (rc_path_updates commit)" for i
    using w(1) write_elsewhere [OF _ that, where t = t and t' = "session_tree q1"] idx
    by (auto simp: w(5) update_tree_from_path_updates_def)
  ultimately show ?thesis using w(3,4) a(13) by (intro exI [of _ "remove_member (rc_removed_member_id commit) r'"])
      (auto simp: in_step_def remove_member_def)
qed

section \<open>Sample removals\<close>

lemma op_remove_member_intro:
  assumes "q \<noteq> our_leaf_position s" "q < view_member_count (session_tree s)"
    "blank_node (leaf (view_depth (session_tree s)) q) (session_tree s) = Some t"
    "cc_seed c = Some leaf_seed" "path_to_root (leaf (view_depth (session_tree s)) (our_leaf_position s)) = Some path"
    "compute_remove_resolution_sets_and_keys t path q = Some (sets, keys)"
    "compute_sibling_labels p t path = Done labels"
    "build_path_updates_with_seeds p sg (cc_kem c) (view_depth (session_tree s)) (our_leaf_position s)
       (derive_path_seeds p leaf_seed (length path)) sets keys labels = Done r"
    "checked_add (session_epoch_number s) 1 = Some n"
    and sig: "\<And>content. \<exists>signature. sign_commit p g (cc_sign c) identity content = Inr signature"
  shows "\<exists>commit s'. op_remove_member p g sg c identity uid q s = Some (Inr commit, s') \<and> rc_path_updates commit = map to_wire (pr_updates r)"
proof -
  define content where "content = content_new_remove (group_id s) n
       (h3_round_hash p (compute_root_label p (derive_path_seeds p leaf_seed (length path))) [uid] [])
       (hash_path_updates p (serialise_path_updates (map to_wire (pr_updates r)))) (our_leaf_position s)
       (derive_user_id_from_identity p (id_public identity))"
  obtain signature where "sign_commit p g (cc_sign c) identity content = Inr signature" using sig by blast
  moreover have "\<exists>s'. advance_epoch p d tr (s\<lparr>session_tree := t\<rparr>) = Some s'" for d tr
    using assms(9) by (simp add: advance_epoch_def epoch_advance_def session_epoch_number_def Let_def)
  ultimately show ?thesis
    using assms(1-9) unfolding content_def
    by (simp add: op_remove_member_def act_simps Let_def generate_leaf_seed_def on_tree_def session_epoch_number_def)
qed

text \<open>The tree of three members with the second blanked; removing the third blanks nothing.\<close>

definition duo_view :: "u32 \<Rightarrow> tree_view" where
  "duo_view pos = (trio_view True pos)\<lparr>view_nodes := [(2, toy_node (leaf 1 1)), (4, new_blank (leaf 2 1))]\<rparr>"

lemma duo_blanks:
  "blank_node (leaf 2 1) (trio_view True pos) = Some (duo_view pos)"
  "blank_node (leaf 2 2) (trio_view full pos) = Some (trio_view full pos)"
  "blank_node (leaf 2 3) (trio_view full pos) = Some (trio_view full pos)"
  by (simp_all add: blank_node_def view_modify_def trio_indices duo_view_def trio_view_def new_blank_def blank_state_def toy_node_def new_populated_def)

lemma duo_facts [simp]: "view_depth (duo_view pos) = 2" "view_member_count (duo_view pos) = 3"
  by (simp_all add: duo_view_def)

lemma duo_get:
  "view_get (duo_view pos) (leaf 2 1) = Some (Some (new_blank (leaf 2 1)))" "view_get (duo_view pos) (leaf 1 0) = Some None"
  "view_get (duo_view pos) (leaf 1 1) = Some (Some (toy_node (leaf 1 1)))" "view_get (duo_view pos) root = Some None"
  by (simp_all add: view_get_def duo_view_def trio_indices)

lemma duo_ok: "unat pos < 4 \<Longrightarrow> view_ok (duo_view pos)"
  using blank_keeps [OF duo_blanks(1) trio_ok trio_valid(2)] by (simp add: keeps_shape_def)

lemma duo_unmerged: "unat pos < 4 \<Longrightarrow> unmerged_below (duo_view pos)"
proof -
  assume "unat pos < 4"
  note ok = duo_ok [OF this]
  have "unmerged_leaves (node_st n) \<in> {None, Some []}" if "valid_index i" "view_get (duo_view pos) i = Some (Some n)" for i n
    using view_lookup_iff [OF ok that(1), of n] that(2) by (auto simp: view_iter_def duo_view_def new_blank_def blank_state_def)
  then show ?thesis unfolding unmerged_below_def by fastforce
qed

lemma trio_anc: "\<not> anc (leaf 1 1) (leaf 2 1)" "anc (leaf 1 1) (leaf 2 2)" "\<not> anc (leaf 2 1) (leaf 2 2)"
  by (simp_all add: anc_def)

lemma duo_lj:
  assumes "unat pos < 4"
  shows "compute_lj (view_get (duo_view pos)) 2 (leaf 2 0) (unmerged_indices (duo_view pos)) = Some []"
    "compute_lj (view_get (duo_view pos)) 2 (leaf 1 0) (unmerged_indices (duo_view pos)) = Some [leaf 1 1]"
    "compute_lj (view_get (duo_view pos)) 2 root (unmerged_indices (duo_view pos)) = Some []"
proof -
  have "is_leaf (leaf 2 1) 2" by (simp add: is_leaf_def leaf_def node_new_def)
  then have "resolve (view_get (duo_view pos)) 2 (leaf 2 1) = Some []" "resolve (view_get (duo_view pos)) 2 (leaf 1 1) = Some [leaf 1 1]"
    by (simp_all add: resolve.simps [of _ _ "leaf 2 1"] resolve.simps [of _ _ "leaf 1 1"] duo_get new_blank_def blank_state_def)
  with lj_eq(1) [OF duo_ok [OF assms] trio_valid(1) _ trio_sibling(1)] lj_eq(1) [OF duo_ok [OF assms] trio_valid(4) _ trio_sibling(2)]
  show "compute_lj (view_get (duo_view pos)) 2 (leaf 2 0) (unmerged_indices (duo_view pos)) = Some []"
    "compute_lj (view_get (duo_view pos)) 2 (leaf 1 0) (unmerged_indices (duo_view pos)) = Some [leaf 1 1]"
    by (simp_all add: trio_valid)
  show "compute_lj (view_get (duo_view pos)) 2 root (unmerged_indices (duo_view pos)) = Some []"
    by (simp add: compute_lj_def toy_sibling)
qed

lemma sample_remove_sets:
  assumes "unat pos < 4"
  shows "compute_remove_resolution_sets_and_keys (duo_view pos) [leaf 2 0, leaf 1 0, root] 1 = Some ([[], [leaf 1 1], []], [[], [toy_key], []])"
    "compute_remove_resolution_sets_and_keys (trio_view True pos) [leaf 2 0, leaf 1 0, root] 2 = Some ([[leaf 2 1], [], []], [[toy_key], [], []])"
  using duo_lj [OF assms] trio_lj [OF assms, of True] trio_anc
  by (simp_all add: is_removed_anc duo_get trio_get)

lemma sample_removes:
  assumes "(q, t, sets, keys) = (1, duo_view 0, [[], [leaf 1 1], []], [[], [toy_key], []])
    \<or> (q, t, sets, keys) = (2, trio_view True 0, [[leaf 2 1], [], []], [[toy_key], [], []])"
  obtains commit s' where "op_remove_member toy_prims toy_suite toy_sg toy_commit_coins toy_identity (replicate 32 7) q (trio_session True 0)
      = Some (Inr commit, s')"
    "path_updates_wire_len (rc_path_updates commit) \<le> 10692" "length (rc_path_updates commit) = 3"
proof -
  let ?s = "trio_session True 0"
  have t: "blank_node (leaf 2 q) (trio_view True 0) = Some t" "q \<noteq> 0" "q < 3"
    "compute_remove_resolution_sets_and_keys t [leaf 2 0, leaf 1 0, root] q = Some (sets, keys)"
    using assms duo_blanks sample_remove_sets [of 0] by auto
  have path: "path_to_root (leaf 2 0) = Some [leaf 2 0, leaf 1 0, root]" using path_to_root_eq [of "leaf 2 0"] by (simp add: trio_path)
  have "\<exists>l1 l2. compute_sibling_labels toy_prims t [leaf 2 0, leaf 1 0, root] = Done [l1, l2]"
    using assms
    by (auto simp: compute_sibling_labels_def sibling_label_def node_public_key_def trio_sibling toy_sibling trio_get duo_get)
  then obtain l1 l2 where labels: "compute_sibling_labels toy_prims t [leaf 2 0, leaf 1 0, root] = Done [l1, l2]" by blast
  obtain r where r: "build_path_updates_with_seeds toy_prims toy_sg (\<lambda>_ _. toy_coins) 2 0 (derive_path_seeds toy_prims zero32 3)
      sets keys [l1, l2] = Done r" "length (pr_updates r) = 3" "path_updates_wire_len (map to_wire (pr_updates r)) \<le> 10692"
    using assms trio_path_built [of "[]" "[]" "[leaf 1 1]" "[toy_key]" "[]" "[]" l1 l2]
      trio_path_built [of "[leaf 2 1]" "[toy_key]" "[]" "[]" "[]" "[]" l1 l2] by auto
  have "\<exists>commit s'. op_remove_member toy_prims toy_suite toy_sg toy_commit_coins toy_identity (replicate 32 7) q ?s = Some (Inr commit, s')
      \<and> rc_path_updates commit = map to_wire (pr_updates r)"
  proof (rule op_remove_member_intro)
    show "build_path_updates_with_seeds toy_prims toy_sg (cc_kem toy_commit_coins) (view_depth (session_tree ?s)) (our_leaf_position ?s)
        (derive_path_seeds toy_prims zero32 (length [leaf 2 0, leaf 1 0, root])) sets keys [l1, l2] = Done r"
      using r(1) by (simp add: toy_commit_coins_def numeral_3_eq_3)
  qed (use t labels path toy_signs_commit in \<open>simp_all add: toy_commit_coins_def checked_add_def\<close>)
  then show thesis using that r(2,3) by (metis length_map)
qed

lemma duo_complete: "reconstruct_resolution_complete (duo_view pos) (leaf 1 0) = Some ([leaf 1 1], True)"
  "reconstruct_resolution_complete (duo_view pos) root = Some ([], True)"
  by (simp_all add: reconstruct_resolution_complete_def trio_sibling toy_sibling resolve_complete.simps [of _ _ "leaf 1 1"] duo_get
      unmerged_of_def drop_unmerged_def)

theorem remove_agreement_witness:
  "\<exists>commit s'. op_remove_member toy_prims toy_suite toy_sg toy_commit_coins toy_identity (replicate 32 7) 1 (trio_session True 0) = Some (Inr commit, s')
    \<and> ((\<exists>r'. process_remove toy_prims toy_suite toy_sg commit (id_public toy_identity) (trio_session True 2) = Some (Inr (), r')
         \<and> session_epoch r' = session_epoch s')
      \<or> (\<exists>us. convert_path_updates_to_node_updates (rc_path_updates commit) = Inr us \<and> stray toy_prims toy_kem_keypair us))"
proof -
  let ?s = "trio_session True 0" and ?r = "trio_session True 2"
  obtain commit s' where c: "op_remove_member toy_prims toy_suite toy_sg toy_commit_coins toy_identity (replicate 32 7) 1 ?s = Some (Inr commit, s')"
    "path_updates_wire_len (rc_path_updates commit) \<le> 10692" "length (rc_path_updates commit) = 3"
    by (rule sample_removes [of 1 "duo_view 0"]) simp_all
  have step: "in_step ?s ?r" "same_tree (session_tree ?s) (session_tree ?r)" "(1 :: u32) \<noteq> our_leaf_position ?r"
    by (simp_all add: in_step_def trio_session_def join_group_def) (simp_all add: same_tree_def trio_view_def)
  have "remove_verifiable (duo_view 2) 0 1"
    unfolding remove_verifiable_def Let_def
  proof (intro allI impI ballI)
    fix k nodes j
    assume k: "0 < k" "k \<le> unat (view_depth (duo_view 2))" and j: "j \<in> set nodes"
      "reconstruct_resolution_complete (duo_view 2) (path_up (leaf (view_depth (duo_view 2)) 0) ! k) = Some (nodes, True)"
    from k have "k = 1 \<or> k = 2" by auto
    then show "\<not> anc j (leaf (view_depth (duo_view 2)) 1)"
      using j duo_complete [of 2] trio_anc(1) by (auto simp: trio_path)
  qed
  then have b: "blank_node (leaf (view_depth (session_tree ?r)) 1) (session_tree ?r) = Some (duo_view 2)"
    "unat (1 :: u32) < 2 ^ unat (view_depth (session_tree ?r))" "unmerged_below (duo_view 2)"
    "remove_verifiable (duo_view 2) (our_leaf_position ?s) 1"
    using duo_blanks(1) duo_unmerged [of 2] by simp_all
  have acc: "accepts_path_from (session_tree ?r) (our_leaf_position ?s)" using trio_accepts [of 2 True] by simp
  have limits: "check_size_limits (path_updates_wire_len (rc_path_updates commit)) (length (rc_path_updates commit) - 1)
      (view_depth (session_tree ?r)) (view_member_count (session_tree ?r)) (total_unmerged_leaves (session_tree ?r)) = Inr ()"
    using c(2,3) by (simp add: trio_total_unmerged check_size_limits_def MAX_MESSAGE_SIZE_def MAX_MERKLE_PROOF_DEPTH_def MAX_GROUP_SIZE_def MAX_TREE_DEPTH_def)
  have key: "kem_pair toy_prims (our_keypair ?r) toy_key" "toy_key \<in> removal_recipients (duo_view 2) (our_leaf_position ?s) 1"
    using toy_kem_pair sample_remove_sets(1) [of 2] by (simp_all add: toy_key_def removal_recipients_def trio_path)
  from remove_agreement [OF toy_prims_ok toy_keys_valid toy_committer c(1) step acc b limits key] c(1)
  show ?thesis by auto
qed

lemma toy_key_wf: "kem_pk_wf toy_key"
  using toy_kem_pair toy_prims_ok
  by (simp add: kem_pair_def keypair_wf_def toy_key_def derive_public_def kem_pk_wf_def kem_sizes sntrup_sk_public_key_def
      x448_public_key_def sntrup_sizes)

text \<open>In the sample primitives every derived key is the same, so an outsider does open a sealed seed.\<close>

lemma toy_outsider:
  assumes "encrypt_seed_to_recipient toy_prims coins seed pk i = Done e" and "length seed = 32"
  shows "\<exists>kp. kem_pk_wf (kp_public kp) \<and> kp_public kp \<noteq> pk \<and> decrypt_seed toy_prims e kp i = Done seed"
proof -
  define other where "other = \<lparr>pk_x448 = replicate 56 (if pk_x448 pk = replicate 56 6 then 7 else 6), pk_sntrup = replicate 1158 1\<rparr>"
  define kp where "kp = toy_kem_keypair\<lparr>kp_public := other\<rparr>"
  have "replicate 56 (7 :: u8) \<noteq> replicate 56 6" by simp
  then have "pk_x448 other \<noteq> pk_x448 pk" by (simp add: other_def)
  then have ne: "kp_public kp \<noteq> pk" by (auto simp: kp_def)
  have wf: "kem_pk_wf (kp_public kp)" by (simp add: kp_def other_def kem_pk_wf_def kem_sizes)
  obtain k where k: "kem_encapsulate toy_prims coins pk = Done (k, es_encapsulation e)"
    "aead_encrypt_committing toy_prims k SEED_ENCRYPTION_NONCE seed (build_seed_aad i) = Inr (es_ciphertext e)"
    using encrypt_seed_Done [OF assms(1)] by blast
  obtain f g ginv h rho where "sntrup_keypair toy_prims f g ginv h rho (sntrup_secret toy_kem_keypair) (pk_sntrup (kp_public toy_kem_keypair))"
    using toy_kem_pair by (auto simp: kem_pair_def sntrup_pair_def)
  from decapsulate_cases [OF toy_prims_ok this] obtain ss where
    ss: "sntrup_decapsulate toy_prims (sntrup_secret toy_kem_keypair) (sntrup_ciphertext (es_encapsulation e)) = Some ss" by blast
  have "derive_key toy_prims ctx a = derive_key toy_prims ctx b" for ctx a b by (simp add: derive_key_def toy_prims_def)
  moreover have "\<exists>a. k = derive_key toy_prims HYBRID_KEM_V2_CONTEXT a"
    using encapsulated_input [OF toy_prims_ok k(1)] by metis
  moreover have "\<exists>a. kem_decapsulate toy_prims kp (es_encapsulation e) = Done (derive_key toy_prims HYBRID_KEM_V2_CONTEXT a)"
  proof -
    have "x448_diffie_hellman toy_prims (x448_secret kp) (x448_ephemeral (es_encapsulation e)) = Inr (replicate 56 5)"
      by (simp add: x448_diffie_hellman_def toy_prims_def)
    then show ?thesis using ss by (auto simp: kem_decapsulate_def kp_def hybrid_combine_v2_def)
  qed
  ultimately have "kem_decapsulate toy_prims kp (es_encapsulation e) = Done k" by metis
  then have "decrypt_seed toy_prims e kp i = Done seed"
    using committing_opens [OF toy_prims_ok k(2)] assms(2) by (simp add: decrypt_seed_def)
  then show ?thesis using wf ne by blast
qed

theorem removal_excludes_witness:
  "\<exists>commit s' us k j pk kp x.
    op_remove_member toy_prims toy_suite toy_sg toy_commit_coins toy_identity (replicate 32 7) 1 (trio_session True 0) = Some (Inr commit, s')
    \<and> convert_path_updates_to_node_updates (rc_path_updates commit) = Inr us
    \<and> k < length us \<and> j < length (nu_seeds (us ! k)) \<and> kp_public kp \<noteq> pk
    \<and> decrypt_seed toy_prims (rs_encrypted (nu_seeds (us ! k) ! j)) kp (nu_index (us ! k)) = Done x
    \<and> opening_clash toy_prims toy_coins pk kp (nu_index (us ! k)) (rs_encrypted (nu_seeds (us ! k) ! j))"
proof -
  let ?s = "trio_session True 0"
  obtain commit s' where c: "op_remove_member toy_prims toy_suite toy_sg toy_commit_coins toy_identity (replicate 32 7) 1 ?s = Some (Inr commit, s')"
    by (rule sample_removes [of 1 "duo_view 0"]) simp_all
  have rec: "removal_recipients (duo_view 0) (our_leaf_position ?s) 1 = {toy_key}"
    using sample_remove_sets(1) [of 0] by (simp add: removal_recipients_def trio_path)
  have tree: "view_ok (session_tree ?s)" "unat (our_leaf_position ?s) < 2 ^ unat (view_depth (session_tree ?s))"
    "unat (1 :: u32) < 2 ^ unat (view_depth (session_tree ?s))"
    "blank_node (leaf (view_depth (session_tree ?s)) 1) (session_tree ?s) = Some (duo_view 0)"
    "\<forall>k \<in> removal_recipients (duo_view 0) (our_leaf_position ?s) 1. kem_pk_wf k"
    using trio_ok [of 0 True] duo_blanks(1) toy_key_wf unfolding rec by simp_all
  from removal_excludes [OF toy_prims_ok toy_keys_valid toy_committer(1) c tree] obtain seed us where
    us: "cc_seed toy_commit_coins = Some seed" "convert_path_updates_to_node_updates (rc_path_updates commit) = Inr us"
    and all: "\<forall>k < length us. \<forall>j < length (nu_seeds (us ! k)). \<exists>i n pk.
        position (recipient_index (nu_seeds (us ! k) ! j)) = position i
      \<and> \<not> anc i (leaf (view_depth (duo_view 0)) 1) \<and> view_get (duo_view 0) i = Some (Some n) \<and> state_public_key (node_st n) = Some pk
      \<and> encrypt_seed_to_recipient toy_prims (cc_kem toy_commit_coins k j) (derive_path_seeds toy_prims seed (length us) ! k) pk (nu_index (us ! k))
        = Done (rs_encrypted (nu_seeds (us ! k) ! j))
      \<and> (\<forall>kp x. kem_pk_wf (kp_public kp) \<and> kp_public kp \<noteq> pk
          \<and> decrypt_seed toy_prims (rs_encrypted (nu_seeds (us ! k) ! j)) kp (nu_index (us ! k)) = Done x
          \<longrightarrow> opening_clash toy_prims (cc_kem toy_commit_coins k j) pk kp (nu_index (us ! k)) (rs_encrypted (nu_seeds (us ! k) ! j)))"
    and some: "\<exists>k < length us. \<exists>j < length (nu_seeds (us ! k)).
        encrypt_seed_to_recipient toy_prims (cc_kem toy_commit_coins k j) (derive_path_seeds toy_prims seed (length us) ! k) toy_key (nu_index (us ! k))
        = Done (rs_encrypted (nu_seeds (us ! k) ! j))"
    unfolding rec by blast
  obtain k j where kj: "k < length us" "j < length (nu_seeds (us ! k))" using some by blast
  have cc: "cc_kem toy_commit_coins k j = toy_coins" by (simp add: toy_commit_coins_def)
  from all [rule_format, OF kj] obtain pk where
    e: "encrypt_seed_to_recipient toy_prims toy_coins (derive_path_seeds toy_prims seed (length us) ! k) pk (nu_index (us ! k))
        = Done (rs_encrypted (nu_seeds (us ! k) ! j))"
    and clash: "\<And>kp x. kem_pk_wf (kp_public kp) \<Longrightarrow> kp_public kp \<noteq> pk \<Longrightarrow>
      decrypt_seed toy_prims (rs_encrypted (nu_seeds (us ! k) ! j)) kp (nu_index (us ! k)) = Done x \<Longrightarrow>
      opening_clash toy_prims toy_coins pk kp (nu_index (us ! k)) (rs_encrypted (nu_seeds (us ! k) ! j))"
    unfolding cc by blast
  have "seed = zero32" using us(1) by (simp add: toy_commit_coins_def)
  then have "length (derive_path_seeds toy_prims seed (length us) ! k) = 32"
    using kj(1) length_path_seed [OF toy_prims_ok, of zero32 _ "length us"] by simp
  from toy_outsider [OF e this] obtain kp where "kem_pk_wf (kp_public kp)" "kp_public kp \<noteq> pk"
    "decrypt_seed toy_prims (rs_encrypted (nu_seeds (us ! k) ! j)) kp (nu_index (us ! k)) = Done (derive_path_seeds toy_prims seed (length us) ! k)" by blast
  then show ?thesis using clash c us(2) kj by blast
qed

text \<open>An empty removal of the second member, signed from the first leaf, at the third.\<close>

definition empty_removal :: "bytes \<Rightarrow> hybrid_signature \<Rightarrow> remove_commit" where
  "empty_removal tr signature = \<lparr>rc_group_id = zero32, rc_removed_member_id = replicate 32 7, rc_removed_leaf_position = 1,
     rc_committer_leaf_position = 0, rc_epoch = 1, rc_path_updates = [], rc_signature = signature,
     rc_round_hash = h3_round_hash toy_prims (derive_key toy_prims ROOT_LABEL_CONTEXT zero32) [replicate 32 7] [],
     rc_confirmation_tag = commit_confirmation_tag toy_prims zero32 tr 1\<rparr>"

lemma trio_more:
  "group_id (trio_session full pos) = zero32" "transcript_hash (trio_session full pos) = zero32"
  "in_step (trio_session full 2) (trio_session full pos)" "number (session_epoch (trio_session full pos)) = 0"
  by (simp_all add: in_step_def trio_session_def join_group_def epoch_initial_def)

lemma sample_empty_limits:
  "check_size_limits 0 0 (view_depth (session_tree (trio_session full 2))) (view_member_count (session_tree (trio_session full 2)))
     (total_unmerged_leaves (session_tree (trio_session full 2))) = Inr ()"
  by (simp add: trio_total_unmerged check_size_limits_def MAX_MESSAGE_SIZE_def MAX_MERKLE_PROOF_DEPTH_def MAX_GROUP_SIZE_def MAX_TREE_DEPTH_def)

lemma sample_empty_tree:
  "accepts_path_from (session_tree (trio_session False 2)) 0" "(1 :: u32) \<noteq> our_leaf_position (trio_session False 2)"
  "unat (1 :: u32) < 2 ^ unat (view_depth (session_tree (trio_session False 2)))" "checked_add (session_epoch_number (trio_session False 2)) 1 = Some 1"
  using trio_accepts [of 2 False] by (simp_all add: checked_add_def)

theorem empty_removal_accepted_witness:
  "\<exists>signature tr r' x'. process_remove toy_prims toy_suite toy_sg (empty_removal tr signature) (id_public toy_identity) (trio_session False 2) = Some (Inr (), r')
    \<and> advance_epoch toy_prims zero32 tr (trio_session False 1) = Some x' \<and> session_epoch r' = session_epoch x'"
proof -
  define rh where "rh = h3_round_hash toy_prims (derive_key toy_prims ROOT_LABEL_CONTEXT zero32) [replicate 32 7] []"
  define tr where "tr = h3_transcript_hash toy_prims (transcript_hash (trio_session False 2)) rh"
  obtain signature where sig: "sign_commit toy_prims toy_suite (cc_sign toy_commit_coins) toy_identity (content_new_remove (group_id (trio_session False 2)) 1 rh
      (hash_path_updates toy_prims (serialise_path_updates [])) 0 (derive_user_id_from_identity toy_prims (id_public toy_identity))) = Inr signature"
    using toy_signs_commit by blast
  from empty_removal_accepted [OF toy_committer(2) sample_empty_tree(4,1-3) sample_empty_limits rh_def tr_def sig trio_more(3) [of False 1], of toy_sg]
  show ?thesis unfolding trio_more(1,2) rh_def [symmetric] by (auto simp: empty_removal_def rh_def)
qed

end
