(* ===== verification/Cocoa_Group.thy ===== *)
theory Cocoa_Group
  imports Cocoa_Update Cocoa_Remove
begin

text \<open>
  What the three operations have in common, for the committer and for the members that process its
  commit: each success is one step of an abstract group, which knows the epoch, its secrets
  and the transcript and nothing of trees and keys; each failure leaves the abstract group.
\<close>

section \<open>The abstract group\<close>

record group_state =
  gs_group_id :: group_id
  gs_epoch :: u64
  gs_secrets :: epoch_secrets
  gs_transcript :: bytes

definition group_of :: "cocoa_session \<Rightarrow> group_state" where
  "group_of s = \<lparr>gs_group_id = group_id s, gs_epoch = session_epoch_number s, gs_secrets = secrets (session_epoch s),
     gs_transcript = transcript_hash s\<rparr>"

text \<open>A commit of the root seed \<open>delta\<close> and a round hash.\<close>

definition group_commit :: "primitives \<Rightarrow> bytes \<Rightarrow> bytes \<Rightarrow> group_state \<Rightarrow> group_state" where
  "group_commit p delta round_hash st =
     (let transcript = h3_transcript_hash p (gs_transcript st) round_hash in
      st\<lparr>gs_epoch := gs_epoch st + 1,
         gs_secrets := derive_epoch_secrets p (h5_epoch_secret p (init_secret (gs_secrets st)) delta transcript),
         gs_transcript := transcript\<rparr>)"

text \<open>What a commit message says of the step, whatever its kind.\<close>

record commit_facts =
  cf_epoch :: u64
  cf_removed :: "user_id list"
  cf_added :: "user_id list"
  cf_round_hash :: bytes
  cf_tag :: bytes

definition confirms :: "primitives \<Rightarrow> bytes \<Rightarrow> commit_facts \<Rightarrow> group_state \<Rightarrow> bool" where
  "confirms p delta f st \<longleftrightarrow> (let st' = group_commit p delta (cf_round_hash f) st in
     cf_round_hash f = h3_round_hash p (derive_key p ROOT_LABEL_CONTEXT delta) (cf_removed f) (cf_added f)
   \<and> unat (gs_epoch st) + 1 < 2 ^ 64 \<and> cf_epoch f = gs_epoch st'
   \<and> cf_tag f = commit_confirmation_tag p delta (gs_transcript st') (cf_epoch f))"

section \<open>The operations of a member\<close>

datatype group_op =
    CreateUpdate commit_coins identity_keypair
  | ProcessUpdate update_commit identity_public_key
  | AddMember commit_coins welcome_coins identity_keypair hybrid_bundle user_id
  | ProcessAdd add_commit identity_public_key
  | RemoveMember commit_coins identity_keypair user_id u32
  | ProcessRemove remove_commit identity_public_key

definition update_facts :: "update_commit \<Rightarrow> commit_facts" where
  "update_facts c = \<lparr>cf_epoch = uc_epoch c, cf_removed = [], cf_added = [], cf_round_hash = uc_round_hash c, cf_tag = uc_confirmation_tag c\<rparr>"

definition add_facts :: "add_commit \<Rightarrow> commit_facts" where
  "add_facts c = \<lparr>cf_epoch = ac_epoch c, cf_removed = [], cf_added = [ac_new_member_id c], cf_round_hash = ac_round_hash c,
     cf_tag = ac_confirmation_tag c\<rparr>"

definition remove_facts :: "remove_commit \<Rightarrow> commit_facts" where
  "remove_facts c = \<lparr>cf_epoch = rc_epoch c, cf_removed = [rc_removed_member_id c], cf_added = [], cf_round_hash = rc_round_hash c,
     cf_tag = rc_confirmation_tag c\<rparr>"

fun perform :: "primitives \<Rightarrow> sig_suite \<Rightarrow> (bytes \<Rightarrow> bytes outcome) \<Rightarrow> group_op \<Rightarrow> (commit_facts, cocoa_session) act" where
  "perform p g sg (CreateUpdate c i) = act_bind (create_update p g sg c i) (\<lambda>m. act_out (Done (update_facts m)))"
| "perform p g sg (ProcessUpdate m i) = act_bind (process_update p g sg m i) (\<lambda>_. act_out (Done (update_facts m)))"
| "perform p g sg (AddMember c w i b u) = act_bind (add_member p g sg c w i b u) (\<lambda>(m, _). act_out (Done (add_facts m)))"
| "perform p g sg (ProcessAdd m i) = act_bind (process_add p g sg m i) (\<lambda>_. act_out (Done (add_facts m)))"
| "perform p g sg (RemoveMember c i u q) = act_bind (op_remove_member p g sg c i u q) (\<lambda>m. act_out (Done (remove_facts m)))"
| "perform p g sg (ProcessRemove m i) = act_bind (process_remove p g sg m i) (\<lambda>_. act_out (Done (remove_facts m)))"

text \<open>A member performs operations one after the other and goes on after an error; a panic ends it.\<close>

fun run_group ::
  "primitives \<Rightarrow> sig_suite \<Rightarrow> (bytes \<Rightarrow> bytes outcome) \<Rightarrow> group_op list \<Rightarrow> cocoa_session \<Rightarrow> (commit_facts list \<times> cocoa_session) option" where
  "run_group p g sg [] s = Some ([], s)"
| "run_group p g sg (op # ops) s =
     (case perform p g sg op s of
        None \<Rightarrow> None
      | Some (Inl e, s') \<Rightarrow> run_group p g sg ops s'
      | Some (Inr f, s') \<Rightarrow> map_option (\<lambda>(fs, s''). (f # fs, s'')) (run_group p g sg ops s'))"

section \<open>Each operation is a step or leaves the group\<close>

text \<open>What an operation keeps of a session: its seat and that it is well formed.\<close>

definition session_kept :: "primitives \<Rightarrow> cocoa_session \<Rightarrow> cocoa_session \<Rightarrow> bool" where
  "session_kept p s s' \<longleftrightarrow> (session_ok p s \<longrightarrow> session_ok p s') \<and> our_leaf_position s' = our_leaf_position s \<and> our_user_id s' = our_user_id s"

definition stays :: "primitives \<Rightarrow> cocoa_session \<Rightarrow> cocoa_session \<Rightarrow> bool" where
  "stays p s s' \<longleftrightarrow> group_of s' = group_of s \<and> session_kept p s s'"

lemma stays_trans: "stays p s t \<Longrightarrow> stays p t u \<Longrightarrow> stays p s u"
  by (simp add: stays_def session_kept_def)

lemma stays_simps [simp]:
  "stays p s s" "stays p s (s\<lparr>session_tree := t\<rparr>)" "stays p s (s\<lparr>our_keypair := kp\<rparr>)"
  "stays p s (insert_member u s)" "stays p s (remove_member u s)"
  by (auto simp: stays_def session_kept_def session_ok_def group_of_def session_epoch_number_def insert_member_def remove_member_def)

lemma stays_writes:
  "update_tree_from_path_updates pus sigs uid s = Some s' \<Longrightarrow> stays p s s'"
  "clear_unmerged_on_path pos s = Some s' \<Longrightarrow> stays p s s'"
  "mark_member_as_unmerged pos s = Some s' \<Longrightarrow> stays p s s'"
  by (auto simp: update_tree_from_path_updates_def clear_unmerged_on_path_def mark_member_as_unmerged_def)

lemma root_label_of_seeds:
  assumes "build_path_updates_with_seeds p sg coins td pos seeds sets keys labels = Done r" and "seeds \<noteq> []"
  shows "compute_root_label p seeds = derive_key p ROOT_LABEL_CONTEXT (pr_delta_root r)"
  using assms by (auto simp: build_path_updates_with_seeds_def compute_root_label_def Let_def bind_out_eq_Done split: if_splits)

lemma path_seeds_nonempty: "path_to_root i = Some path \<Longrightarrow> derive_path_seeds p seed (length path) \<noteq> []"
  by (auto simp: path_to_root_def bind_eq_Some_conv)

text \<open>What makes an operation a step: the commit names the next epoch, its round hash and tag come
  from the root seed, and the session advances by that seed.\<close>

definition group_step :: "primitives \<Rightarrow> commit_facts \<Rightarrow> cocoa_session \<Rightarrow> cocoa_session \<Rightarrow> bool" where
  "group_step p f s s' \<longleftrightarrow> session_kept p s s'
     \<and> (\<exists>delta. confirms p delta f (group_of s) \<and> group_of s' = group_commit p delta (cf_round_hash f) (group_of s))"

lemma commit_is_step:
  assumes "checked_add (session_epoch_number s) 1 = Some (cf_epoch f)"
    and "cf_round_hash f = h3_round_hash p (derive_key p ROOT_LABEL_CONTEXT delta) (cf_removed f) (cf_added f)"
    and "cf_tag f = commit_confirmation_tag p delta (h3_transcript_hash p (transcript_hash s) (cf_round_hash f)) (cf_epoch f)"
    and "advance_epoch p delta (h3_transcript_hash p (transcript_hash s) (cf_round_hash f)) s1 = Some s2"
    and stays: "stays p s s1" "stays p s2 s3"
  shows "group_step p f s s3"
proof -
  have g: "group_of s1 = group_of s" "group_of s3 = group_of s2" using stays by (simp_all add: stays_def)
  then have "transcript_hash s1 = transcript_hash s" by (simp add: group_of_def)
  then have "group_of s2 = group_commit p delta (cf_round_hash f) (group_of s1)" "unat (gs_epoch (group_of s1)) + 1 < 2 ^ 64"
    using assms(4) by (auto simp: advance_epoch_def epoch_advance_Some group_of_def group_commit_def session_epoch_number_def Let_def)
  with g have adv: "group_of s3 = group_commit p delta (cf_round_hash f) (group_of s)" "unat (gs_epoch (group_of s)) + 1 < 2 ^ 64" by simp_all
  have "cf_epoch f = gs_epoch (group_of s) + 1" using assms(1) by (simp add: checked_add_def group_of_def split: if_splits)
  then have "confirms p delta f (group_of s)"
    using adv(2) assms(2,3) by (simp add: confirms_def group_commit_def Let_def) (simp add: group_of_def)
  moreover have "session_kept p s s3"
  proof -
    have "session_kept p s1 s2"
      using assms(4) by (auto simp: session_kept_def session_ok_def advance_epoch_def epoch_advance_Some derive_epoch_secrets_def)
    with stays show ?thesis by (simp add: stays_def session_kept_def)
  qed
  ultimately show ?thesis using adv(1) by (auto simp: group_step_def)
qed

lemma create_update_step:
  assumes "create_update p g sg c i s = Some (Inr m, s')"
  shows "group_step p (update_facts m) s s'"
proof -
  from create_update_Inr [OF assms] obtain seed path sets keys labels r kp n sig where
    path: "path_to_root (leaf (view_depth (session_tree s)) (our_leaf_position s)) = Some path"
    and built: "build_path_updates_with_seeds p sg (cc_kem c) (view_depth (session_tree s)) (our_leaf_position s)
       (derive_path_seeds p seed (length path)) sets keys labels = Done r"
    and n: "checked_add (session_epoch_number s) 1 = Some n"
    and adv: "advance_epoch p (pr_delta_root r) (h3_transcript_hash p (transcript_hash s)
       (h3_round_hash p (compute_root_label p (derive_path_seeds p seed (length path))) [] [])) (s\<lparr>our_keypair := kp\<rparr>) = Some s'"
    and m: "m = \<lparr>uc_group_id = group_id s, uc_leaf_position = our_leaf_position s, uc_epoch = n,
       uc_path_updates = map to_wire (pr_updates r), uc_signature = sig,
       uc_round_hash = h3_round_hash p (compute_root_label p (derive_path_seeds p seed (length path))) [] [],
       uc_confirmation_tag = commit_confirmation_tag p (pr_delta_root r) (h3_transcript_hash p (transcript_hash s)
         (h3_round_hash p (compute_root_label p (derive_path_seeds p seed (length path))) [] [])) n\<rparr>"
    by metis
  note label = root_label_of_seeds [OF built path_seeds_nonempty [OF path]]
  show ?thesis
    by (rule commit_is_step [of s _ p "pr_delta_root r" "s\<lparr>our_keypair := kp\<rparr>" s'])
      (use n adv label in \<open>simp_all add: update_facts_def m\<close>)
qed

lemma process_update_step:
  assumes "process_update p g sg m i s = Some (Inr u, s')"
  shows "group_step p (update_facts m) s s'"
proof -
  from assms obtain delta s1 s2 where r: "checked_add (session_epoch_number s) 1 = Some (uc_epoch m)"
    "commit_confirmation_tag p delta (h3_transcript_hash p (transcript_hash s) (uc_round_hash m)) (uc_epoch m) = uc_confirmation_tag m"
    "h3_round_hash p (derive_key p ROOT_LABEL_CONTEXT delta) [] [] = uc_round_hash m"
    "update_tree_from_path_updates (uc_path_updates m) (uc_signature m) (derive_user_id_from_identity p i) s = Some s1"
    "clear_unmerged_on_path (uc_leaf_position m) s1 = Some s2"
    "advance_epoch p delta (h3_transcript_hash p (transcript_hash s) (uc_round_hash m)) s2 = Some s'"
    unfolding process_update_Inr by blast
  show ?thesis
    by (rule commit_is_step [of s _ p delta s2 s'])
      (use r stays_trans [OF stays_writes(1) [OF r(4)] stays_writes(2) [OF r(5)]] in \<open>simp_all add: update_facts_def\<close>)
qed

lemma add_member_step:
  assumes "add_member p g sg c wc i b uid s = Some (Inr (m, w), s')"
  shows "group_step p (add_facts m) s s'"
proof -
  from add_member_Inr [OF assms] obtain count t seed path sets keys labels r n sig s1 s2 s3 where
    path: "path_to_root (leaf (view_depth t) (our_leaf_position s)) = Some path"
    and built: "build_path_updates_with_seeds p sg (cc_kem c) (view_depth t) (our_leaf_position s)
       (derive_path_seeds p seed (length path)) sets keys labels = Done r"
    and n: "checked_add (session_epoch_number s) 1 = Some n"
    and m: "m = add_commit_of p i s uid n (derive_path_seeds p seed (length path)) r sig"
    and s1: "s1 = s\<lparr>session_tree := set_member_count count t\<rparr>"
    and s2: "mark_member_as_unmerged (view_member_count (session_tree s)) s1 = Some s2"
    and adv: "advance_epoch p (pr_delta_root r) (h3_transcript_hash p (transcript_hash s) (ac_round_hash m)) s2 = Some s3"
    and s': "s' = insert_member uid s3"
    by metis
  note label = root_label_of_seeds [OF built path_seeds_nonempty [OF path]]
  show ?thesis
    by (rule commit_is_step [of s _ p "pr_delta_root r" s2 s3])
      (use n adv label s' stays_trans [OF stays_simps(2) stays_writes(3) [OF s2 [unfolded s1]]] in \<open>simp_all add: add_facts_def m add_commit_of_def Let_def\<close>)
qed

lemma process_add_step:
  assumes "process_add p g sg m i s = Some (Inr u, s')"
  shows "group_step p (add_facts m) s s'"
proof -
  from assms obtain delta t s2 s3 s4 where r: "checked_add (session_epoch_number s) 1 = Some (ac_epoch m)"
    "commit_confirmation_tag p delta (h3_transcript_hash p (transcript_hash s) (ac_round_hash m)) (ac_epoch m) = ac_confirmation_tag m"
    "h3_round_hash p (derive_key p ROOT_LABEL_CONTEXT delta) [] [ac_new_member_id m] = ac_round_hash m"
    "update_tree_from_path_updates (ac_path_updates m) (ac_signature m) (our_user_id s) (s\<lparr>session_tree := t\<rparr>) = Some s2"
    "mark_member_as_unmerged (ac_new_leaf_position m) s2 = Some s3"
    "advance_epoch p delta (h3_transcript_hash p (transcript_hash s) (ac_round_hash m)) s3 = Some s4"
    "s' = insert_member (ac_new_member_id m) s4"
    unfolding process_add_Inr by blast
  show ?thesis
    by (rule commit_is_step [of s _ p delta s3 s4])
      (use r stays_trans [OF stays_simps(2) stays_trans [OF stays_writes(1) [OF r(4)] stays_writes(3) [OF r(5)]]] in \<open>simp_all add: add_facts_def\<close>)
qed

lemma remove_member_step:
  assumes "op_remove_member p g sg c i uid q s = Some (Inr m, s')"
  shows "group_step p (remove_facts m) s s'"
proof -
  from op_remove_member_Inr [OF assms] obtain t seed path sets keys labels r n sig where
    path: "path_to_root (leaf (view_depth (session_tree s)) (our_leaf_position s)) = Some path"
    and built: "build_path_updates_with_seeds p sg (cc_kem c) (view_depth (session_tree s)) (our_leaf_position s)
       (derive_path_seeds p seed (length path)) sets keys labels = Done r"
    and n: "checked_add (session_epoch_number s) 1 = Some n"
    and m: "m = remove_commit_of p s uid q n (derive_path_seeds p seed (length path)) r sig"
    and adv: "advance_epoch p (pr_delta_root r) (h3_transcript_hash p (transcript_hash s) (rc_round_hash m)) (s\<lparr>session_tree := t\<rparr>) = Some s'"
    by metis
  note label = root_label_of_seeds [OF built path_seeds_nonempty [OF path]]
  show ?thesis
    by (rule commit_is_step [of s _ p "pr_delta_root r" "s\<lparr>session_tree := t\<rparr>" s'])
      (use n adv label in \<open>simp_all add: remove_facts_def m remove_commit_of_def Let_def\<close>)
qed

lemma process_remove_step:
  assumes "process_remove p g sg m i s = Some (Inr u, s')"
  shows "group_step p (remove_facts m) s s'"
proof -
  from assms obtain delta t s2 s3 where r: "checked_add (session_epoch_number s) 1 = Some (rc_epoch m)"
    "commit_confirmation_tag p delta (h3_transcript_hash p (transcript_hash s) (rc_round_hash m)) (rc_epoch m) = rc_confirmation_tag m"
    "h3_round_hash p (derive_key p ROOT_LABEL_CONTEXT delta) [rc_removed_member_id m] [] = rc_round_hash m"
    "update_tree_from_path_updates (rc_path_updates m) (rc_signature m) (our_user_id s) (s\<lparr>session_tree := t\<rparr>) = Some s2"
    "advance_epoch p delta (h3_transcript_hash p (transcript_hash s) (rc_round_hash m)) s2 = Some s3"
    "s' = remove_member (rc_removed_member_id m) s3"
    unfolding process_remove_Inr by blast
  show ?thesis
    by (rule commit_is_step [of s _ p delta s2 s3])
      (use r stays_trans [OF stays_simps(2) stays_writes(1) [OF r(4)]] in \<open>simp_all add: remove_facts_def\<close>)
qed

lemma perform_step:
  assumes "perform p g sg op s = Some (Inr f, s')"
  shows "group_step p f s s'"
  using assms
  by (cases op) (auto simp: act_simps intro: create_update_step process_update_step add_member_step process_add_step
      remove_member_step process_remove_step)

section \<open>Failures\<close>

lemma add_member_Inl:
  assumes "add_member p g sg c wc i b uid s = Some (Inl e, s')"
  shows "s' = s \<or> (\<exists>n t. checked_add (view_member_count (session_tree s)) 1 = Some n \<and> grow_view n (session_tree s) = Some t
    \<and> s' \<in> {s\<lparr>session_tree := t\<rparr>, s\<lparr>session_tree := set_member_count n t\<rparr>})"
  using assms by (auto simp: add_member_def act_simps Let_def on_tree_def ok_or_eq_Inr)

lemma op_remove_member_Inl:
  assumes "op_remove_member p g sg c i uid q s = Some (Inl e, s')"
  shows "s' = s \<or> (\<exists>t. blank_node (leaf (view_depth (session_tree s)) q) (session_tree s) = Some t \<and> s' = s\<lparr>session_tree := t\<rparr>)"
  using assms by (auto simp: op_remove_member_def act_simps Let_def on_tree_def)

lemma perform_Inl:
  assumes "perform p g sg op s = Some (Inl e, s')" shows "stays p s s'"
  using assms
  by (cases op) (auto simp: act_simps dest: create_update_Inl process_update_Inl add_member_Inl process_add_Inl
      op_remove_member_Inl process_remove_Inl)

section \<open>Runs\<close>

text \<open>The abstract run: one root seed for each commit, and each commit confirmed by its seed.\<close>

fun replay :: "primitives \<Rightarrow> (bytes \<times> commit_facts) list \<Rightarrow> group_state \<Rightarrow> group_state option" where
  "replay p [] st = Some st"
| "replay p ((delta, f) # rest) st = (if confirms p delta f st then replay p rest (group_commit p delta (cf_round_hash f) st) else None)"

lemma run_group_replays:
  assumes "run_group p g sg ops s = Some (fs, s')"
  shows "session_kept p s s' \<and> (\<exists>deltas. length deltas = length fs \<and> replay p (zip deltas fs) (group_of s) = Some (group_of s'))"
  using assms
proof (induction ops arbitrary: s fs)
  case (Cons op ops)
  obtain r s1 where one: "perform p g sg op s = Some (r, s1)" using Cons.prems by (auto split: option.splits)
  show ?case
  proof (cases r)
    case (Inl e)
    then have "stays p s s1" "run_group p g sg ops s1 = Some (fs, s')" using one Cons.prems perform_Inl by auto
    with Cons.IH [of s1 fs] show ?thesis by (auto simp: stays_def session_kept_def)
  next
    case (Inr f)
    then obtain fs1 where fs: "fs = f # fs1" "run_group p g sg ops s1 = Some (fs1, s')" using one Cons.prems by auto
    obtain delta where d: "session_kept p s s1" "confirms p delta f (group_of s)"
      "group_of s1 = group_commit p delta (cf_round_hash f) (group_of s)"
      using perform_step [of p g sg op s f s1] one Inr by (auto simp: group_step_def)
    from Cons.IH [OF fs(2)] obtain deltas where "length deltas = length fs1"
      "replay p (zip deltas fs1) (group_of s1) = Some (group_of s')" and k: "session_kept p s1 s'" by blast
    then have "length (delta # deltas) = length fs \<and> replay p (zip (delta # deltas) fs) (group_of s) = Some (group_of s')"
      using d fs(1) by simp
    then have "\<exists>deltas. length deltas = length fs \<and> replay p (zip deltas fs) (group_of s) = Some (group_of s')" by blast
    with d(1) k show ?thesis unfolding session_kept_def by simp
  qed
qed (auto intro: exI [of _ "[]"] simp: session_kept_def)

lemma replay_counts:
  "replay p dfs st = Some st' \<Longrightarrow> unat (gs_epoch st') = unat (gs_epoch st) + length dfs \<and> gs_group_id st' = gs_group_id st"
proof (induction dfs arbitrary: st)
  case (Cons df dfs)
  obtain delta f where df: "df = (delta, f)" by (cases df)
  then have c: "confirms p delta f st" "replay p dfs (group_commit p delta (cf_round_hash f) st) = Some st'"
    using Cons.prems by (auto split: if_splits)
  have "unat (gs_epoch st + 1) = unat (gs_epoch st) + 1"
    using c(1) by (simp add: confirms_def Let_def unat_word_ariths)
  with Cons.IH [OF c(2)] show ?case by (simp add: group_commit_def Let_def)
qed simp

text \<open>The transcript after the commits of a run, and the first commit that two lists of root seeds
  disagree on: both seeds have its tag under the transcript of that moment.\<close>

definition transcript_of :: "primitives \<Rightarrow> group_state \<Rightarrow> commit_facts list \<Rightarrow> bytes" where
  "transcript_of p st fs = foldl (\<lambda>t f. h3_transcript_hash p t (cf_round_hash f)) (gs_transcript st) fs"

definition seeds_clash :: "primitives \<Rightarrow> group_state \<Rightarrow> commit_facts list \<Rightarrow> bytes list \<Rightarrow> bytes list \<Rightarrow> bool" where
  "seeds_clash p st fs ds es \<longleftrightarrow> (\<exists>k < length fs. take k ds = take k es \<and> ds ! k \<noteq> es ! k
     \<and> (\<forall>d \<in> {ds ! k, es ! k}. commit_confirmation_tag p d (transcript_of p st (take (Suc k) fs)) (cf_epoch (fs ! k)) = cf_tag (fs ! k)))"

lemma seeds_clash_Cons: "seeds_clash p (group_commit p d (cf_round_hash f) st) fs ds es \<Longrightarrow> seeds_clash p st (f # fs) (d # ds) (d # es)"
  unfolding seeds_clash_def transcript_of_def by (fastforce simp: group_commit_def Let_def)

lemma confirmed_seed_unique:
  assumes "confirms p d f st" "confirms p e f st" "d \<noteq> e" shows "seeds_clash p st (f # fs) (d # ds) (e # es)"
  using assms unfolding seeds_clash_def transcript_of_def
  by (intro exI [of _ 0]) (auto simp: confirms_def group_commit_def Let_def)

lemma replays_agree:
  assumes "replay p (zip ds fs) st = Some st1" "replay p (zip es fs) st = Some st2" "length ds = length fs" "length es = length fs"
  shows "ds = es \<or> seeds_clash p st fs ds es"
  using assms
proof (induction fs arbitrary: st ds es)
  case (Cons f fs)
  obtain d ds' e es' where l: "ds = d # ds'" "es = e # es'" using Cons.prems(3,4) by (metis length_Suc_conv)
  then have c: "confirms p d f st" "confirms p e f st" using Cons.prems(1,2) by (simp_all split: if_splits)
  show ?case
  proof (cases "d = e")
    case True
    then show ?thesis using Cons.IH [of ds' "group_commit p d (cf_round_hash f) st" es'] Cons.prems l c seeds_clash_Cons by auto
  qed (use confirmed_seed_unique c l in simp)
qed simp

section \<open>Properties\<close>

text \<open>C6. The group operations refine an abstract group. Whatever operations a member performs, in
  any order and with any errors in between, its epoch, secrets and transcript are those of an
  abstract group that takes one step for each operation that succeeds and none for one that
  fails; each step is determined by the commit and one root seed, which the commit's tag and round
  hash confirm. The epoch number counts the commits, without wrapping, and the session stays
  well formed at the same leaf.\<close>

theorem group_run_refines:
  assumes "run_group p g sg ops s = Some (fs, s')"
  shows "(\<exists>deltas. length deltas = length fs \<and> replay p (zip deltas fs) (group_of s) = Some (group_of s'))
    \<and> unat (session_epoch_number s') = unat (session_epoch_number s) + length fs \<and> group_id s' = group_id s
    \<and> (session_ok p s \<longrightarrow> session_ok p s') \<and> our_leaf_position s' = our_leaf_position s \<and> our_user_id s' = our_user_id s"
proof -
  from run_group_replays [OF assms] obtain deltas where d: "length deltas = length fs"
    "replay p (zip deltas fs) (group_of s) = Some (group_of s')" and k: "session_kept p s s'" by blast
  from replay_counts [OF d(2)] d(1) have "unat (session_epoch_number s') = unat (session_epoch_number s) + length fs"
    "group_id s' = group_id s" by (simp_all add: group_of_def)
  with d k show ?thesis unfolding session_kept_def by blast
qed

text \<open>C7. Members that accept the same commits stay in agreement: two sessions in the same group state,
  each performing its own operations and each with its own failures, whose successes
  show the same sequence of epochs, member changes, round hashes and tags, have followed two lists
  of root seeds. When the lists are the same, they end with the same epoch, the same
  secrets and the same transcript, whatever path updates, signatures and trees each of them was
  shown; when they are not, the first difference is two root seeds with one confirmation tag.\<close>

theorem runs_agree:
  assumes "group_of s = group_of r"
    and "run_group p g1 sg1 ops1 s = Some (fs, s')" and "run_group p g2 sg2 ops2 r = Some (fs, r')"
  shows "\<exists>ds es. length ds = length fs \<and> replay p (zip ds fs) (group_of s) = Some (group_of s')
    \<and> length es = length fs \<and> replay p (zip es fs) (group_of r) = Some (group_of r')
    \<and> (ds = es \<and> group_of s' = group_of r' \<or> seeds_clash p (group_of s) fs ds es)"
proof -
  obtain ds es where d: "length ds = length fs" "replay p (zip ds fs) (group_of s) = Some (group_of s')"
    "length es = length fs" "replay p (zip es fs) (group_of r) = Some (group_of r')"
    using run_group_replays [OF assms(2)] run_group_replays [OF assms(3)] by blast
  moreover have "ds = es \<or> seeds_clash p (group_of s) fs ds es"
    using replays_agree [of p ds fs "group_of s" "group_of s'" es "group_of r'"] d assms(1) by simp
  moreover have "ds = es \<Longrightarrow> group_of s' = group_of r'" using d(2,4) assms(1) by simp
  ultimately show ?thesis by blast
qed

text \<open>C12. A failed operation changes nothing that the group shares: the epoch, its secrets and the
  transcript stay, and so does the member registry. A receiver that refuses a commit is left
  untouched. A committer is not: a failed update may already have replaced the key pair, a failed
  addition may have grown the tree, and a failed removal may have blanked the leaf of a member who
  is still in the group.\<close>

theorem failed_operations:
  assumes "perform p g sg op s = Some (Inl e, s')"
  shows "group_of s' = group_of s \<and> members s' = members s \<and> our_leaf_position s' = our_leaf_position s
    \<and> (case op of
         CreateUpdate c i \<Rightarrow> session_tree s' = session_tree s \<and> (our_keypair s' = our_keypair s \<or> cc_keypair c = Done (our_keypair s'))
       | AddMember c w i b u \<Rightarrow> our_keypair s' = our_keypair s \<and> (session_tree s' = session_tree s
           \<or> (\<exists>n t. checked_add (view_member_count (session_tree s)) 1 = Some n \<and> grow_view n (session_tree s) = Some t
               \<and> session_tree s' \<in> {t, set_member_count n t}))
       | RemoveMember c i u q \<Rightarrow> our_keypair s' = our_keypair s \<and> (session_tree s' = session_tree s
           \<or> blank_node (leaf (view_depth (session_tree s)) q) (session_tree s) = Some (session_tree s'))
       | _ \<Rightarrow> s' = s)"
proof -
  have "stays p s s'" by (rule perform_Inl [OF assms])
  then have "group_of s' = group_of s" "our_leaf_position s' = our_leaf_position s" by (simp_all add: stays_def session_kept_def)
  moreover have "members s' = members s"
    using assms by (cases op) (auto simp: act_simps dest: create_update_Inl process_update_Inl add_member_Inl process_add_Inl
      op_remove_member_Inl process_remove_Inl)
  ultimately show ?thesis
    using assms by (cases op) (auto simp: act_simps dest: create_update_Inl process_update_Inl add_member_Inl process_add_Inl
      op_remove_member_Inl process_remove_Inl)
qed

section \<open>Witnesses\<close>

theorem group_run_refines_witness:
  "\<exists>commit s'. run_group toy_prims toy_suite toy_sg [CreateUpdate toy_commit_coins toy_identity] (toy_member_session 0) = Some ([update_facts commit], s')
    \<and> unat (session_epoch_number s') = 1 \<and> group_id s' = zero32"
proof -
  obtain commit s' where "create_update toy_prims toy_suite toy_sg toy_commit_coins toy_identity (toy_member_session 0) = Some (Inr commit, s')"
    by (rule toy_creates)
  then have run: "run_group toy_prims toy_suite toy_sg [CreateUpdate toy_commit_coins toy_identity] (toy_member_session 0) = Some ([update_facts commit], s')"
    by (simp add: act_bind_def act_out_def)
  have "session_epoch_number (toy_member_session 0) = 0" "group_id (toy_member_session 0) = zero32"
    by (simp_all add: toy_member_session_def join_group_def session_epoch_number_def epoch_initial_def)
  with run group_run_refines [OF run] show ?thesis by auto
qed

lemma sample_empty_everywhere:
  obtains commit where "\<forall>pos. unat pos < 4 \<and> pos \<noteq> 1 \<longrightarrow>
    (\<exists>s'. process_remove toy_prims toy_suite toy_sg commit (id_public toy_identity) (trio_session False pos) = Some (Inr (), s'))"
proof -
  define rh where "rh = h3_round_hash toy_prims (derive_key toy_prims ROOT_LABEL_CONTEXT zero32) [replicate 32 7] []"
  obtain signature where sig: "sign_commit toy_prims toy_suite (cc_sign toy_commit_coins) toy_identity (content_new_remove zero32 1 rh
      (hash_path_updates toy_prims (serialise_path_updates [])) 0 (derive_user_id_from_identity toy_prims (id_public toy_identity))) = Inr signature"
    using toy_signs_commit by blast
  have "blank_node (leaf 2 1) (trio_view False pos) = Some ((trio_view False pos)\<lparr>view_nodes := [(4, new_blank (leaf 2 1))]\<rparr>)" for pos
    by (simp add: blank_node_def view_modify_def trio_indices trio_view_def new_blank_def blank_state_def toy_node_def new_populated_def)
  moreover have "accepts_path_from (trio_view False pos) 0" if "unat pos < 4" for pos using trio_accepts [OF that] by simp
  moreover have "check_size_limits 0 0 (view_depth (trio_view False pos)) (view_member_count (trio_view False pos))
     (total_unmerged_leaves (trio_view False pos)) = Inr ()" if "unat pos < 4" for pos
    by (simp add: trio_total_unmerged that check_size_limits_def MAX_MESSAGE_SIZE_def MAX_MERKLE_PROOF_DEPTH_def MAX_GROUP_SIZE_def MAX_TREE_DEPTH_def)
  ultimately have "\<exists>s'. process_remove toy_prims toy_suite toy_sg (empty_removal (h3_transcript_hash toy_prims zero32 rh) signature)
      (id_public toy_identity) (trio_session False pos) = Some (Inr (), s')" if "unat pos < 4" "pos \<noteq> 1" for pos
    unfolding process_remove_Inr
    using signed_commit_verifies [OF toy_committer(2) sig] trio_more that
    by (auto simp: empty_removal_def path_updates_wire_len_def remove_content_def convert_path_updates_to_node_updates_def
        delta_root_of_def verify_parent_hashes_def update_tree_from_path_updates_def rh_def accepts_path_from_def
        advance_epoch_def epoch_advance_def session_epoch_number_def Let_def checked_add_def)
  then show thesis using that by blast
qed

theorem runs_agree_witness:
  "\<exists>commit s' r'. run_group toy_prims toy_suite toy_sg [ProcessRemove commit (id_public toy_identity)] (trio_session False 0) = Some ([remove_facts commit], s')
    \<and> run_group toy_prims toy_suite toy_sg [ProcessRemove commit (id_public toy_identity)] (trio_session False 2) = Some ([remove_facts commit], r')
    \<and> (group_of s' = group_of r' \<or> (\<exists>ds es. seeds_clash toy_prims (group_of (trio_session False 0)) [remove_facts commit] ds es))"
proof -
  obtain commit where c: "\<forall>pos. unat pos < 4 \<and> pos \<noteq> 1 \<longrightarrow>
    (\<exists>s'. process_remove toy_prims toy_suite toy_sg commit (id_public toy_identity) (trio_session False pos) = Some (Inr (), s'))"
    by (rule sample_empty_everywhere)
  obtain s' r' where "process_remove toy_prims toy_suite toy_sg commit (id_public toy_identity) (trio_session False 0) = Some (Inr (), s')"
    "process_remove toy_prims toy_suite toy_sg commit (id_public toy_identity) (trio_session False 2) = Some (Inr (), r')"
    using c [rule_format, of 0] c [rule_format, of 2] by auto
  then have runs: "run_group toy_prims toy_suite toy_sg [ProcessRemove commit (id_public toy_identity)] (trio_session False 0) = Some ([remove_facts commit], s')"
    "run_group toy_prims toy_suite toy_sg [ProcessRemove commit (id_public toy_identity)] (trio_session False 2) = Some ([remove_facts commit], r')"
    by (simp_all add: act_bind_def act_out_def)
  have "group_of (trio_session False 0) = group_of (trio_session False 2)"
    by (simp add: group_of_def trio_session_def join_group_def session_epoch_number_def epoch_initial_def)
  from runs_agree [OF this runs] runs show ?thesis by blast
qed

theorem failed_operations_witness:
  "\<exists>s'. perform toy_prims toy_suite toy_sg (RemoveMember (toy_commit_coins\<lparr>cc_seed := None\<rparr>) toy_identity (replicate 32 7) 1) (trio_session True 0)
      = Some (Inl RngFailure, s')
    \<and> group_of s' = group_of (trio_session True 0)
    \<and> view_get (session_tree (trio_session True 0)) (leaf 2 1) = Some (Some (toy_node (leaf 2 1)))
    \<and> view_get (session_tree s') (leaf 2 1) = Some (Some (new_blank (leaf 2 1)))"
proof -
  let ?s = "trio_session True 0"
  have fail: "perform toy_prims toy_suite toy_sg (RemoveMember (toy_commit_coins\<lparr>cc_seed := None\<rparr>) toy_identity (replicate 32 7) 1) ?s
      = Some (Inl RngFailure, ?s\<lparr>session_tree := duo_view 0\<rparr>)"
    by (simp add: op_remove_member_def act_bind_def act_out_def act_modify_def require_def on_tree_def generate_leaf_seed_def duo_blanks)
  from failed_operations [OF fail] fail show ?thesis
    using trio_get(2) [of True 0] duo_get(1) [of 0] by simp
qed

end
