(* ===== verification/Wire_Header.thy ===== *)
theory Wire_Header
  imports Crypto_Error
begin

text \<open>
  The protocol header of every message (\<open>trelis-wire/src/header.rs\<close>) and the normative
  sizes of the wire format (\<open>trelis-wire/src/constants.rs\<close>).
\<close>

section \<open>Constants\<close>

definition PROTOCOL_VERSION :: u8 where "PROTOCOL_VERSION = 0x01"
definition CIPHER_SUITE :: u8 where "CIPHER_SUITE = 0x01"
definition WIRE_HEADER_SIZE :: nat where "WIRE_HEADER_SIZE = 2"
definition NONCE_SIZE :: nat where "NONCE_SIZE = 24"
definition TAG_SIZE :: nat where "TAG_SIZE = 16"
definition AEAD_KEY_SIZE :: nat where "AEAD_KEY_SIZE = 32"
definition AEAD_COMMITMENT_SIZE :: nat where "AEAD_COMMITMENT_SIZE = 32"
definition ED448_PK_SIZE :: nat where "ED448_PK_SIZE = 57"
definition ED448_SIG_SIZE :: nat where "ED448_SIG_SIZE = 114"
definition X448_PK_SIZE :: nat where "X448_PK_SIZE = 56"
definition MLDSA65_PK_SIZE :: nat where "MLDSA65_PK_SIZE = 1952"
definition MLDSA65_SIG_SIZE :: nat where "MLDSA65_SIG_SIZE = 3309"
definition SNTRUP761_PK_SIZE :: nat where "SNTRUP761_PK_SIZE = 1158"
definition SNTRUP761_CT_SIZE :: nat where "SNTRUP761_CT_SIZE = 1039"
definition SNTRUP761_SS_SIZE :: nat where "SNTRUP761_SS_SIZE = 32"
definition HYBRID_SIGNING_PK_SIZE :: nat where
  "HYBRID_SIGNING_PK_SIZE = ED448_PK_SIZE + MLDSA65_PK_SIZE"
definition BOP2_RESPONSE_SIZE :: nat where "BOP2_RESPONSE_SIZE = 57"
definition HYBRID_SIG_SIZE :: nat where
  "HYBRID_SIG_SIZE = BOP2_RESPONSE_SIZE + MLDSA65_SIG_SIZE"
definition HYBRID_KEM_PK_SIZE :: nat where
  "HYBRID_KEM_PK_SIZE = X448_PK_SIZE + SNTRUP761_PK_SIZE"
definition HYBRID_ENCAP_SIZE :: nat where
  "HYBRID_ENCAP_SIZE = X448_PK_SIZE + SNTRUP761_CT_SIZE"
definition HYBRID_IDENTITY_PK_SIZE :: nat where
  "HYBRID_IDENTITY_PK_SIZE = HYBRID_SIGNING_PK_SIZE + HYBRID_KEM_PK_SIZE"
definition KEY_ID_SIZE :: nat where "KEY_ID_SIZE = 8"
definition OTK_SIZE :: nat where "OTK_SIZE = KEY_ID_SIZE + HYBRID_KEM_PK_SIZE"
definition PREKEY_BUNDLE_SIZE :: nat where
  "PREKEY_BUNDLE_SIZE = HYBRID_SIGNING_PK_SIZE + HYBRID_KEM_PK_SIZE + OTK_SIZE"
definition DEVICE_KEY_WRAP_SIZE :: nat where
  "DEVICE_KEY_WRAP_SIZE = KEY_ID_SIZE + X448_PK_SIZE + SNTRUP761_CT_SIZE + NONCE_SIZE
     + AEAD_KEY_SIZE + TAG_SIZE + AEAD_COMMITMENT_SIZE"

lemmas wire_sizes = WIRE_HEADER_SIZE_def NONCE_SIZE_def TAG_SIZE_def AEAD_KEY_SIZE_def
  AEAD_COMMITMENT_SIZE_def ED448_PK_SIZE_def ED448_SIG_SIZE_def X448_PK_SIZE_def
  MLDSA65_PK_SIZE_def MLDSA65_SIG_SIZE_def SNTRUP761_PK_SIZE_def SNTRUP761_CT_SIZE_def
  SNTRUP761_SS_SIZE_def HYBRID_SIGNING_PK_SIZE_def BOP2_RESPONSE_SIZE_def HYBRID_SIG_SIZE_def
  HYBRID_KEM_PK_SIZE_def HYBRID_ENCAP_SIZE_def HYBRID_IDENTITY_PK_SIZE_def KEY_ID_SIZE_def
  OTK_SIZE_def PREKEY_BUNDLE_SIZE_def DEVICE_KEY_WRAP_SIZE_def

section \<open>Version, suite and header\<close>

datatype protocol_version = V1

definition version_from_byte :: "u8 \<Rightarrow> protocol_version result" where
  "version_from_byte b =
     (if b = 0x01 then Inr V1 else Inl (UnsupportedProtocolVersion b PROTOCOL_VERSION))"

primrec version_as_byte :: "protocol_version \<Rightarrow> u8" where
  "version_as_byte V1 = 0x01"

datatype cipher_suite = TrelisHybridV1

definition suite_from_byte :: "u8 \<Rightarrow> cipher_suite result" where
  "suite_from_byte b =
     (if b = 0x01 then Inr TrelisHybridV1 else Inl (UnsupportedCipherSuite b CIPHER_SUITE))"

primrec suite_as_byte :: "cipher_suite \<Rightarrow> u8" where
  "suite_as_byte TrelisHybridV1 = 0x01"

record header =
  version :: protocol_version
  suite :: cipher_suite

definition new_header :: header where
  "new_header = \<lparr>version = V1, suite = TrelisHybridV1\<rparr>"

definition header_to_bytes :: "header \<Rightarrow> bytes" where
  "header_to_bytes h = [version_as_byte (version h), suite_as_byte (suite h)]"

text \<open>The argument is a \<open>[u8; 2]\<close>, so \<open>bytes[0]\<close> and \<open>bytes[1]\<close> are in range.\<close>

definition header_from_bytes :: "bytes \<Rightarrow> header result" where
  "header_from_bytes bs =
     tryR (version_from_byte (bs ! 0)) (\<lambda>v.
     tryR (suite_from_byte (bs ! 1)) (\<lambda>s.
     Inr \<lparr>version = v, suite = s\<rparr>))"

definition validate_header :: "header \<Rightarrow> unit result" where
  "validate_header h =
     (if version_as_byte (version h) \<noteq> PROTOCOL_VERSION
      then Inl (UnsupportedProtocolVersion (version_as_byte (version h)) PROTOCOL_VERSION)
      else if suite_as_byte (suite h) \<noteq> CIPHER_SUITE
      then Inl (UnsupportedCipherSuite (suite_as_byte (suite h)) CIPHER_SUITE)
      else Inr ())"

lemma version_round_trip [simp]: "version_from_byte (version_as_byte v) = Inr v"
  by (cases v) (simp add: version_from_byte_def)

lemma suite_round_trip [simp]: "suite_from_byte (suite_as_byte s) = Inr s"
  by (cases s) (simp add: suite_from_byte_def)

lemma length_header_to_bytes [simp, bytes_simps]: "length (header_to_bytes h) = WIRE_HEADER_SIZE"
  by (simp add: header_to_bytes_def WIRE_HEADER_SIZE_def)

lemma header_codec: "header_from_bytes (header_to_bytes h @ r) = Inr h"
  by (simp add: header_from_bytes_def header_to_bytes_def)

interpretation header: fixed_codec header_to_bytes header_from_bytes "\<lambda>_. True" WIRE_HEADER_SIZE
  by unfold_locales (simp_all add: header_codec)

text \<open>Every value of the header type is valid: the type has no other version or suite.\<close>

lemma validate_header_ok: "validate_header h = Inr ()"
  by (cases "version h"; cases "suite h")
    (simp add: validate_header_def PROTOCOL_VERSION_def CIPHER_SUITE_def)

lemma header_from_bytes_Inr:
  "header_from_bytes bs = Inr h \<longleftrightarrow> bs ! 0 = PROTOCOL_VERSION \<and> bs ! 1 = CIPHER_SUITE"
  by (cases h; cases "version h"; cases "suite h")
    (auto simp: header_from_bytes_def version_from_byte_def suite_from_byte_def try_simps
      PROTOCOL_VERSION_def CIPHER_SUITE_def split: if_splits)

end
