(* ===== verification/Wire_Codec.thy ===== *)
theory Wire_Codec
  imports Wire_Header
begin

text \<open>
  The buffer encoder and decoder of \<open>trelis-wire/src/encode.rs\<close> and \<open>decode.rs\<close>. Both
  are a buffer with a position; a method returns its result and the buffer it leaves
  behind, also when it fails. \<open>usize\<close> values are naturals: positions and lengths never
  leave the buffer, which is the invariant proved first.
\<close>

section \<open>Encoder\<close>

record encoder =
  enc_buf :: bytes
  enc_pos :: nat

definition encoder_new :: "bytes \<Rightarrow> encoder" where
  "encoder_new b = \<lparr>enc_buf = b, enc_pos = 0\<rparr>"

definition enc_remaining :: "encoder \<Rightarrow> nat" where
  "enc_remaining e = length (enc_buf e) - enc_pos e"

definition enc_has_remaining :: "encoder \<Rightarrow> nat \<Rightarrow> bool" where
  "enc_has_remaining e n = (n \<le> enc_remaining e)"

text \<open>\<open>self.buf[pos..pos + n].copy_from_slice(data)\<close> and the advance of \<open>pos\<close>.\<close>

definition put :: "bytes \<Rightarrow> encoder \<Rightarrow> encoder" where
  "put bs e = e\<lparr>enc_buf := take (enc_pos e) (enc_buf e) @ bs @ drop (enc_pos e + length bs) (enc_buf e),
     enc_pos := enc_pos e + length bs\<rparr>"

definition write_u8 :: "u8 \<Rightarrow> encoder \<Rightarrow> unit option \<times> encoder" where
  "write_u8 v e = (if enc_pos e \<ge> length (enc_buf e) then (None, e)
     else (Some (), e\<lparr>enc_buf := (enc_buf e)[enc_pos e := v], enc_pos := enc_pos e + 1\<rparr>))"

definition write_u16 :: "u16 \<Rightarrow> encoder \<Rightarrow> unit option \<times> encoder" where
  "write_u16 v e = (if enc_remaining e < 2 then (None, e) else (Some (), put (le_bytes 2 v) e))"

definition write_u32 :: "u32 \<Rightarrow> encoder \<Rightarrow> unit option \<times> encoder" where
  "write_u32 v e = (if enc_remaining e < 4 then (None, e) else (Some (), put (le_bytes 4 v) e))"

definition write_u64 :: "u64 \<Rightarrow> encoder \<Rightarrow> unit option \<times> encoder" where
  "write_u64 v e = (if enc_remaining e < 8 then (None, e) else (Some (), put (le_bytes 8 v) e))"

definition write_bytes :: "bytes \<Rightarrow> encoder \<Rightarrow> unit option \<times> encoder" where
  "write_bytes bs e = (if enc_remaining e < length bs then (None, e) else (Some (), put bs e))"

definition write_header :: "header \<Rightarrow> encoder \<Rightarrow> unit option \<times> encoder" where
  "write_header h e = write_bytes (header_to_bytes h) e"

text \<open>When the prefix fits and the data does not, the prefix stays written.\<close>

definition write_length_prefixed :: "bytes \<Rightarrow> encoder \<Rightarrow> unit option \<times> encoder" where
  "write_length_prefixed bs e =
     (if length bs \<ge> 2 ^ 32 then (None, e)
      else case write_u32 (of_nat (length bs)) e of
        (None, e') \<Rightarrow> (None, e')
      | (Some _, e') \<Rightarrow> write_bytes bs e')"

section \<open>Decoder\<close>

datatype decoder_error =
    UnexpectedEof
  | InvalidHeader_D
  | UnsupportedProtocolVersion_D u8
  | UnsupportedCipherSuite_D u8

record decoder =
  dec_buf :: bytes
  dec_pos :: nat

definition decoder_new :: "bytes \<Rightarrow> decoder" where
  "decoder_new b = \<lparr>dec_buf = b, dec_pos = 0\<rparr>"

definition dec_remaining :: "decoder \<Rightarrow> nat" where
  "dec_remaining d = length (dec_buf d) - dec_pos d"

definition dec_has_remaining :: "decoder \<Rightarrow> nat \<Rightarrow> bool" where
  "dec_has_remaining d n = (n \<le> dec_remaining d)"

definition dec_is_empty :: "decoder \<Rightarrow> bool" where
  "dec_is_empty d = (dec_remaining d = 0)"

definition peek_remaining :: "decoder \<Rightarrow> bytes" where
  "peek_remaining d = drop (dec_pos d) (dec_buf d)"

definition read_u8 :: "decoder \<Rightarrow> (decoder_error + u8) \<times> decoder" where
  "read_u8 d = (if dec_pos d \<ge> length (dec_buf d) then (Inl UnexpectedEof, d)
     else (Inr (dec_buf d ! dec_pos d), d\<lparr>dec_pos := dec_pos d + 1\<rparr>))"

definition read_u16 :: "decoder \<Rightarrow> (decoder_error + u16) \<times> decoder" where
  "read_u16 d = (if dec_remaining d < 2 then (Inl UnexpectedEof, d)
     else (Inr (le_word (sub_slice (dec_pos d) (dec_pos d + 2) (dec_buf d))),
           d\<lparr>dec_pos := dec_pos d + 2\<rparr>))"

definition read_u32 :: "decoder \<Rightarrow> (decoder_error + u32) \<times> decoder" where
  "read_u32 d = (if dec_remaining d < 4 then (Inl UnexpectedEof, d)
     else (Inr (le_word (sub_slice (dec_pos d) (dec_pos d + 4) (dec_buf d))),
           d\<lparr>dec_pos := dec_pos d + 4\<rparr>))"

definition read_u64 :: "decoder \<Rightarrow> (decoder_error + u64) \<times> decoder" where
  "read_u64 d = (if dec_remaining d < 8 then (Inl UnexpectedEof, d)
     else (Inr (le_word (sub_slice (dec_pos d) (dec_pos d + 8) (dec_buf d))),
           d\<lparr>dec_pos := dec_pos d + 8\<rparr>))"

definition read_bytes :: "nat \<Rightarrow> decoder \<Rightarrow> (decoder_error + bytes) \<times> decoder" where
  "read_bytes n d = (if dec_remaining d < n then (Inl UnexpectedEof, d)
     else (Inr (sub_slice (dec_pos d) (dec_pos d + n) (dec_buf d)), d\<lparr>dec_pos := dec_pos d + n\<rparr>))"

definition read_array :: "nat \<Rightarrow> decoder \<Rightarrow> (decoder_error + bytes) \<times> decoder" where
  "read_array n d = (if dec_remaining d < n then (Inl UnexpectedEof, d)
     else (Inr (sub_slice (dec_pos d) (dec_pos d + n) (dec_buf d)), d\<lparr>dec_pos := dec_pos d + n\<rparr>))"

fun header_error :: "crypto_error \<Rightarrow> decoder_error" where
  "header_error (UnsupportedProtocolVersion r _) = UnsupportedProtocolVersion_D r"
| "header_error (UnsupportedCipherSuite r _) = UnsupportedCipherSuite_D r"
| "header_error _ = InvalidHeader_D"

definition read_header :: "decoder \<Rightarrow> (decoder_error + header) \<times> decoder" where
  "read_header d = (case read_array 2 d of
     (Inl e, d') \<Rightarrow> (Inl e, d')
   | (Inr bs, d') \<Rightarrow> (case header_from_bytes bs of
        Inl e \<Rightarrow> (Inl (header_error e), d')
      | Inr h \<Rightarrow> (Inr h, d')))"

definition read_length_prefixed :: "decoder \<Rightarrow> (decoder_error + bytes) \<times> decoder" where
  "read_length_prefixed d = (case read_u32 d of
     (Inl e, d') \<Rightarrow> (Inl e, d')
   | (Inr n, d') \<Rightarrow> read_bytes (unat n) d')"

definition skip :: "nat \<Rightarrow> decoder \<Rightarrow> (decoder_error + unit) \<times> decoder" where
  "skip n d = (if dec_remaining d < n then (Inl UnexpectedEof, d)
     else (Inr (), d\<lparr>dec_pos := dec_pos d + n\<rparr>))"

section \<open>The buffer invariant\<close>

definition enc_wf :: "encoder \<Rightarrow> bool" where
  "enc_wf e \<longleftrightarrow> enc_pos e \<le> length (enc_buf e)"

definition dec_wf :: "decoder \<Rightarrow> bool" where
  "dec_wf d \<longleftrightarrow> dec_pos d \<le> length (dec_buf d)"

definition written :: "encoder \<Rightarrow> bytes" where
  "written e = take (enc_pos e) (enc_buf e)"

lemma enc_wf_new [simp]: "enc_wf (encoder_new b)"
  by (simp add: enc_wf_def encoder_new_def)

lemma dec_wf_new [simp]: "dec_wf (decoder_new b)"
  by (simp add: dec_wf_def decoder_new_def)

lemma put_facts:
  assumes "enc_wf e" and "length bs \<le> enc_remaining e"
  shows "enc_wf (put bs e)" "length (enc_buf (put bs e)) = length (enc_buf e)"
    "written (put bs e) = written e @ bs" "enc_pos (put bs e) = enc_pos e + length bs"
    "enc_remaining (put bs e) = enc_remaining e - length bs"
  using assms by (auto simp: enc_wf_def enc_remaining_def put_def written_def)

lemma write_u8_put:
  "write_u8 v e = (if enc_remaining e < 1 then (None, e) else (Some (), put [v] e))"
  by (auto simp: write_u8_def enc_remaining_def put_def upd_conv_take_nth_drop)

section \<open>Sequences of calls\<close>

text \<open>
  A client encodes a message by a sequence of calls and decodes it by the matching sequence.
  \<open>wire_field\<close> names the call and its argument; on the reading side only the kind of call
  (and the length asked of \<open>read_bytes\<close>) is used.
\<close>

datatype wire_field =
    FU8 u8 | FU16 u16 | FU32 u32 | FU64 u64
  | FBytes bytes | FHeader header | FPrefixed bytes

primrec write_field :: "wire_field \<Rightarrow> encoder \<Rightarrow> unit option \<times> encoder" where
  "write_field (FU8 v) e = write_u8 v e"
| "write_field (FU16 v) e = write_u16 v e"
| "write_field (FU32 v) e = write_u32 v e"
| "write_field (FU64 v) e = write_u64 v e"
| "write_field (FBytes bs) e = write_bytes bs e"
| "write_field (FHeader h) e = write_header h e"
| "write_field (FPrefixed bs) e = write_length_prefixed bs e"

definition got :: "('a \<Rightarrow> wire_field) \<Rightarrow> ('e + 'a) \<times> decoder \<Rightarrow> ('e + wire_field) \<times> decoder" where
  "got f r = (map_sum id f (fst r), snd r)"

primrec read_field :: "wire_field \<Rightarrow> decoder \<Rightarrow> (decoder_error + wire_field) \<times> decoder" where
  "read_field (FU8 _) d = got FU8 (read_u8 d)"
| "read_field (FU16 _) d = got FU16 (read_u16 d)"
| "read_field (FU32 _) d = got FU32 (read_u32 d)"
| "read_field (FU64 _) d = got FU64 (read_u64 d)"
| "read_field (FBytes bs) d = got FBytes (read_bytes (length bs) d)"
| "read_field (FHeader _) d = got FHeader (read_header d)"
| "read_field (FPrefixed _) d = got FPrefixed (read_length_prefixed d)"

fun write_fields :: "wire_field list \<Rightarrow> encoder \<Rightarrow> unit option \<times> encoder" where
  "write_fields [] e = (Some (), e)"
| "write_fields (f # fs) e = (case write_field f e of
     (None, e') \<Rightarrow> (None, e')
   | (Some _, e') \<Rightarrow> write_fields fs e')"

fun read_fields :: "wire_field list \<Rightarrow> decoder \<Rightarrow> (decoder_error + wire_field list) \<times> decoder" where
  "read_fields [] d = (Inr [], d)"
| "read_fields (f # fs) d = (case read_field f d of
     (Inl x, d') \<Rightarrow> (Inl x, d')
   | (Inr g, d') \<Rightarrow> (case read_fields fs d' of
        (Inl x, d'') \<Rightarrow> (Inl x, d'')
      | (Inr gs, d'') \<Rightarrow> (Inr (g # gs), d'')))"

text \<open>The bytes of a call, and when a call is possible at all.\<close>

primrec field_bytes :: "wire_field \<Rightarrow> bytes" where
  "field_bytes (FU8 v) = [v]"
| "field_bytes (FU16 v) = le_bytes 2 v"
| "field_bytes (FU32 v) = le_bytes 4 v"
| "field_bytes (FU64 v) = le_bytes 8 v"
| "field_bytes (FBytes bs) = bs"
| "field_bytes (FHeader h) = header_to_bytes h"
| "field_bytes (FPrefixed bs) = le_bytes 4 (of_nat (length bs) :: u32) @ bs"

fun field_ok :: "wire_field \<Rightarrow> bool" where
  "field_ok (FPrefixed bs) = (length bs < 2 ^ 32)"
| "field_ok _ = True"

lemma put_put: "enc_wf e \<Longrightarrow> length a + length b \<le> enc_remaining e \<Longrightarrow> put b (put a e) = put (a @ b) e"
  by (simp add: put_def enc_wf_def enc_remaining_def ac_simps)

lemma write_field_fits:
  assumes "enc_wf e" and "field_ok f" and "length (field_bytes f) \<le> enc_remaining e"
  shows "write_field f e = (Some (), put (field_bytes f) e)"
proof (cases f)
  case (FPrefixed bs)
  with assms have fits: "4 + length bs \<le> enc_remaining e" and len: "length bs < 2 ^ 32" by auto
  have "put bs (put (le_bytes 4 (of_nat (length bs) :: u32)) e) = put (field_bytes f) e"
    using fits by (simp add: FPrefixed put_put [OF assms(1)])
  moreover have "enc_remaining (put (le_bytes 4 (of_nat (length bs) :: u32)) e) = enc_remaining e - 4"
    using put_facts(5) [OF assms(1), of "le_bytes 4 (of_nat (length bs) :: u32)"] fits by simp
  ultimately show ?thesis
    using fits len by (simp add: FPrefixed write_length_prefixed_def write_u32_def write_bytes_def)
qed (use assms in \<open>auto simp: write_u8_put write_u16_def write_u32_def write_u64_def
      write_bytes_def write_header_def simp del: le_bytes.simps\<close>)

lemma write_field_too_big:
  assumes "enc_wf e" and "\<not> (field_ok f \<and> length (field_bytes f) \<le> enc_remaining e)"
  shows "fst (write_field f e) = None"
proof (cases f)
  case (FPrefixed bs)
  show ?thesis
  proof (cases "length bs < 2 ^ 32 \<and> 4 \<le> enc_remaining e")
    case True
    then have "enc_remaining (put (le_bytes 4 (of_nat (length bs) :: u32)) e) = enc_remaining e - 4"
      using put_facts(5) [OF assms(1), of "le_bytes 4 (of_nat (length bs) :: u32)"] by simp
    with True assms(2) show ?thesis
      by (auto simp: FPrefixed write_length_prefixed_def write_u32_def write_bytes_def)
  qed (auto simp: FPrefixed write_length_prefixed_def write_u32_def)
qed (use assms in \<open>auto simp: write_u8_put write_u16_def write_u32_def write_u64_def
      write_bytes_def write_header_def simp del: le_bytes.simps\<close>)

text \<open>Whatever a call does, it keeps the invariant and the bytes written before it.\<close>

definition enc_extends :: "encoder \<Rightarrow> encoder \<Rightarrow> bool" where
  "enc_extends e e' \<longleftrightarrow> enc_wf e' \<and> length (enc_buf e') = length (enc_buf e)
     \<and> enc_pos e \<le> enc_pos e' \<and> take (enc_pos e) (enc_buf e') = written e"

lemma enc_extends_refl: "enc_wf e \<Longrightarrow> enc_extends e e"
  by (simp add: enc_extends_def written_def)

lemma enc_extends_trans: "enc_extends a b \<Longrightarrow> enc_extends b c \<Longrightarrow> enc_extends a c"
  unfolding enc_extends_def written_def by (metis le_trans min_absorb1 take_take)

lemma enc_extends_put: "enc_wf e \<Longrightarrow> length bs \<le> enc_remaining e \<Longrightarrow> enc_extends e (put bs e)"
  by (auto simp: enc_extends_def enc_wf_def enc_remaining_def put_def written_def)

lemma write_field_extends: "enc_wf e \<Longrightarrow> enc_extends e (snd (write_field f e))"
proof (cases f)
  case (FPrefixed bs)
  assume wf: "enc_wf e"
  show ?thesis
  proof (cases "length bs < 2 ^ 32 \<and> 4 \<le> enc_remaining e")
    case True
    let ?e = "put (le_bytes 4 (of_nat (length bs) :: u32)) e"
    have e1: "enc_extends e ?e" using True by (intro enc_extends_put [OF wf]) simp
    then have "enc_wf ?e" by (simp add: enc_extends_def)
    then have "enc_extends ?e (snd (write_bytes bs ?e))"
      by (auto simp: write_bytes_def intro: enc_extends_refl enc_extends_put)
    with e1 True show ?thesis
      by (auto simp: FPrefixed write_length_prefixed_def write_u32_def intro: enc_extends_trans)
  qed (auto simp: FPrefixed write_length_prefixed_def write_u32_def enc_extends_refl [OF wf])
qed (auto simp: write_u8_put write_u16_def write_u32_def write_u64_def write_bytes_def
      write_header_def simp del: le_bytes.simps intro!: enc_extends_put enc_extends_refl)

section \<open>Reading back\<close>

lemma dec_remaining_peek: "dec_remaining d = length (peek_remaining d)"
  by (simp add: dec_remaining_def peek_remaining_def)

lemma sub_slice_peek: "sub_slice (dec_pos d) (dec_pos d + n) (dec_buf d) = take n (peek_remaining d)"
  by (simp add: sub_slice_def peek_remaining_def)

lemma sub_slice_peek2:
  "sub_slice (dec_pos d) (Suc (Suc (dec_pos d))) (dec_buf d) = take 2 (peek_remaining d)"
  using sub_slice_peek [of d 2] by simp

lemma read_u8_peek:
  "read_u8 d = (case peek_remaining d of [] \<Rightarrow> (Inl UnexpectedEof, d)
     | b # _ \<Rightarrow> (Inr b, d\<lparr>dec_pos := dec_pos d + 1\<rparr>))"
proof (cases "dec_pos d < length (dec_buf d)")
  case True
  then have "peek_remaining d = dec_buf d ! dec_pos d # drop (Suc (dec_pos d)) (dec_buf d)"
    by (simp add: peek_remaining_def Cons_nth_drop_Suc)
  with True show ?thesis by (simp add: read_u8_def)
qed (simp add: read_u8_def peek_remaining_def)

lemmas read_defs = read_u16_def read_u32_def read_u64_def read_bytes_def read_array_def
  read_length_prefixed_def sub_slice_peek sub_slice_peek2 dec_remaining_peek

lemma peek_advance [simp]: "peek_remaining (d\<lparr>dec_pos := dec_pos d + n\<rparr>) = drop n (peek_remaining d)"
  by (simp add: peek_remaining_def add.commute)

lemma read_field_back:
  assumes "field_ok f" and "peek_remaining d = field_bytes f @ r"
  shows "read_field f d = (Inr f, d\<lparr>dec_pos := dec_pos d + length (field_bytes f)\<rparr>)"
proof (cases f)
  case (FPrefixed bs)
  with assms have len: "length bs < 2 ^ 32"
    and peek: "peek_remaining d = le_bytes 4 (of_nat (length bs) :: u32) @ bs @ r" by auto
  have u: "unat (of_nat (length bs) :: u32) = length bs" using len by (simp add: unat_of_nat)
  let ?d = "d\<lparr>dec_pos := dec_pos d + 4\<rparr>"
  have "read_u32 d = (Inr (of_nat (length bs)), ?d)"
    by (simp add: read_defs peek del: le_bytes.simps)
  moreover have "peek_remaining ?d = bs @ r" by (simp only: peek_advance peek) simp
  then have "read_bytes (length bs) ?d = (Inr bs, ?d\<lparr>dec_pos := dec_pos ?d + length bs\<rparr>)"
    by (simp only: read_bytes_def dec_remaining_peek sub_slice_peek) simp
  ultimately show ?thesis
    by (simp add: FPrefixed read_length_prefixed_def got_def u)
next
  case (FHeader h)
  with assms have peek: "peek_remaining d = header_to_bytes h @ r" by simp
  have "read_array 2 d = (Inr (header_to_bytes h), d\<lparr>dec_pos := dec_pos d + 2\<rparr>)"
    by (simp only: read_array_def dec_remaining_peek sub_slice_peek peek)
      (simp add: WIRE_HEADER_SIZE_def)
  then show ?thesis
    by (simp add: FHeader read_header_def got_def WIRE_HEADER_SIZE_def header.dec_enc_exact)
qed (use assms in \<open>auto simp: read_u8_peek read_defs got_def simp del: le_bytes.simps\<close>)

lemma read_fields_back:
  assumes "list_all field_ok fs" and "peek_remaining d = concat (map field_bytes fs) @ r"
  shows "read_fields fs d = (Inr fs, d\<lparr>dec_pos := dec_pos d + length (concat (map field_bytes fs))\<rparr>)"
  using assms
proof (induction fs arbitrary: d)
  case Nil
  then show ?case by simp
next
  case (Cons f fs)
  let ?d = "d\<lparr>dec_pos := dec_pos d + length (field_bytes f)\<rparr>"
  have "read_field f d = (Inr f, ?d)"
    using Cons.prems by (intro read_field_back) auto
  moreover have "peek_remaining ?d = concat (map field_bytes fs) @ r"
    using Cons.prems(2) by simp
  then have "read_fields fs ?d
      = (Inr fs, ?d\<lparr>dec_pos := dec_pos ?d + length (concat (map field_bytes fs))\<rparr>)"
    using Cons.prems(1) by (intro Cons.IH) simp_all
  ultimately show ?case by (simp add: add.assoc)
qed

lemma write_fields_written:
  assumes "enc_wf e" and "fst (write_fields fs e) = Some ()"
  shows "list_all field_ok fs \<and> length (concat (map field_bytes fs)) \<le> enc_remaining e
    \<and> snd (write_fields fs e) = put (concat (map field_bytes fs)) e"
  using assms
proof (induction fs arbitrary: e)
  case Nil
  then show ?case by (simp add: put_def enc_wf_def)
next
  case (Cons f fs)
  have ok: "field_ok f \<and> length (field_bytes f) \<le> enc_remaining e"
  proof (rule ccontr)
    assume "\<not> ?thesis"
    then have "fst (write_field f e) = None" by (rule write_field_too_big [OF Cons.prems(1)])
    with Cons.prems(2) show False by (cases "write_field f e") simp
  qed
  then have w: "write_field f e = (Some (), put (field_bytes f) e)"
    by (intro write_field_fits [OF Cons.prems(1)]) auto
  note f = put_facts [OF Cons.prems(1) conjunct2 [OF ok]]
  have "list_all field_ok fs \<and> length (concat (map field_bytes fs)) \<le> enc_remaining (put (field_bytes f) e)
      \<and> snd (write_fields fs (put (field_bytes f) e)) = put (concat (map field_bytes fs)) (put (field_bytes f) e)"
    using Cons.prems(2) w by (intro Cons.IH f(1)) simp
  with ok w f(5) show ?case by (auto simp: put_put [OF Cons.prems(1)])
qed

lemma write_fields_fits:
  assumes "enc_wf e" and "list_all field_ok fs"
    and "length (concat (map field_bytes fs)) \<le> enc_remaining e"
  shows "fst (write_fields fs e) = Some ()"
  using assms
proof (induction fs arbitrary: e)
  case Nil
  then show ?case by simp
next
  case (Cons f fs)
  have fit: "length (field_bytes f) \<le> enc_remaining e" using Cons.prems(3) by simp
  then have "write_field f e = (Some (), put (field_bytes f) e)"
    using Cons.prems by (intro write_field_fits) auto
  moreover have "fst (write_fields fs (put (field_bytes f) e)) = Some ()"
    using Cons.prems put_facts [OF Cons.prems(1) fit] by (intro Cons.IH) auto
  ultimately show ?case by simp
qed

lemma write_fields_extends: "enc_wf e \<Longrightarrow> enc_extends e (snd (write_fields fs e))"
proof (induction fs arbitrary: e)
  case Nil
  then show ?case by (simp add: enc_extends_refl)
next
  case (Cons f fs)
  have f: "enc_extends e (snd (write_field f e))" by (rule write_field_extends [OF Cons.prems])
  moreover from f have "enc_wf (snd (write_field f e))" by (simp add: enc_extends_def)
  then have "enc_extends (snd (write_field f e)) (snd (write_fields fs (snd (write_field f e))))"
    by (rule Cons.IH)
  ultimately show ?case
    by (cases "write_field f e") (auto intro: enc_extends_trans split: option.split)
qed

section \<open>Properties\<close>

text \<open>C4. A decoder that repeats the calls of an encoder reads back what was written: whatever
  sequence of fields an encoder wrote into a buffer without running out of space, a decoder on
  that buffer returns the same fields and stops where the encoder stopped.\<close>

theorem wire_stream_round_trip:
  assumes "write_fields fs (encoder_new b) = (Some (), e)"
  shows "read_fields fs (decoder_new (enc_buf e)) = (Inr fs, \<lparr>dec_buf = enc_buf e, dec_pos = enc_pos e\<rparr>)"
proof -
  have w: "list_all field_ok fs" "length (concat (map field_bytes fs)) \<le> enc_remaining (encoder_new b)"
    "e = put (concat (map field_bytes fs)) (encoder_new b)"
    using write_fields_written [of "encoder_new b" fs] assms by auto
  have "peek_remaining (decoder_new (enc_buf e))
      = concat (map field_bytes fs) @ drop (length (concat (map field_bytes fs))) b"
    by (simp add: w(3) put_def encoder_new_def decoder_new_def peek_remaining_def)
  from read_fields_back [OF w(1) this] show ?thesis
    by (simp add: w(3) put_def encoder_new_def decoder_new_def)
qed

theorem wire_stream_round_trip_witness:
  "\<exists>e. write_fields [FHeader new_header, FU32 7, FPrefixed [9, 8]] (encoder_new (replicate 13 0))
        = (Some (), e)
     \<and> read_fields [FHeader new_header, FU32 7, FPrefixed [9, 8]] (decoder_new (enc_buf e))
        = (Inr [FHeader new_header, FU32 7, FPrefixed [9, 8]],
           \<lparr>dec_buf = enc_buf e, dec_pos = enc_pos e\<rparr>)"
proof -
  have "fst (write_fields [FHeader new_header, FU32 7, FPrefixed [9, 8]] (encoder_new (replicate 13 0)))
      = Some ()"
    by (rule write_fields_fits [OF enc_wf_new])
      (simp_all add: enc_remaining_def encoder_new_def WIRE_HEADER_SIZE_def del: le_bytes.simps)
  then obtain e where "write_fields [FHeader new_header, FU32 7, FPrefixed [9, 8]]
      (encoder_new (replicate 13 0)) = (Some (), e)"
    by (metis prod.collapse)
  from this wire_stream_round_trip [OF this] show ?thesis by blast
qed

text \<open>Writing a sequence of fields into a buffer succeeds exactly when the fields are
  encodable (a length prefix fits 32 bits) and their bytes fit into the space left; no call
  writes outside that space, and no call, failed or not, changes a byte written before it.\<close>

lemma write_fields_exact:
  assumes "enc_wf e"
  shows "(fst (write_fields fs e) = Some () \<longleftrightarrow>
      list_all field_ok fs \<and> length (concat (map field_bytes fs)) \<le> enc_remaining e)
    \<and> enc_extends e (snd (write_fields fs e))"
  using write_fields_written [OF assms] write_fields_fits [OF assms]
    write_fields_extends [OF assms] by blast

end
