(* ===== verification/Ratchet_Wire.thy ===== *)
theory Ratchet_Wire
  imports Hybrid_Kem Wire_Header Aead
begin

text \<open>
  The stateless parts of the KEM ratchet (\<open>trelis-ratchet/src\<close>): key derivation (\<open>kdf.rs\<close>),
  hedged nonces (\<open>nonce.rs\<close>), the message header and the message (\<open>header.rs\<close>), and the
  header and integers of the state file (\<open>serialise.rs\<close>).
\<close>

section \<open>Key derivation\<close>

definition KDF_ROOT :: string where "KDF_ROOT = ''trelis-pq-ratchet-root-v1''"
definition KDF_MESSAGE :: string where "KDF_MESSAGE = ''trelis-pq-ratchet-message-v1''"

record kdf_output =
  new_root_key :: bytes
  kdf_message_key :: bytes

text \<open>The input is gathered on the stack when it has at most 256 bytes and on the heap otherwise;
  both branches hash the same bytes.\<close>

definition kdf_rk :: "primitives \<Rightarrow> bytes \<Rightarrow> bytes \<Rightarrow> kdf_output" where
  "kdf_rk p root shared_secret =
     (let total_len = length root + length shared_secret;
          input_slice = (if total_len \<le> 256
            then take total_len (root @ shared_secret @ replicate (256 - total_len) 0)
            else root @ shared_secret) in
      \<lparr>new_root_key = blake3_derive_key p KDF_ROOT input_slice,
       kdf_message_key = blake3_derive_key p KDF_MESSAGE input_slice\<rparr>)"

definition derive_initial_root_key :: "primitives \<Rightarrow> bytes \<Rightarrow> bytes" where
  "derive_initial_root_key p session_key = blake3_derive_key p RATCHET_INIT_CONTEXT session_key"

lemma kdf_rk_eq:
  "kdf_rk p root ss = \<lparr>new_root_key = blake3_derive_key p KDF_ROOT (root @ ss),
     kdf_message_key = blake3_derive_key p KDF_MESSAGE (root @ ss)\<rparr>"
  by (simp add: kdf_rk_def Let_def)

section \<open>Nonces\<close>

definition derive_nonce_with_random :: "primitives \<Rightarrow> u64 \<Rightarrow> bytes \<Rightarrow> bytes \<Rightarrow> bytes result" where
  "derive_nonce_with_random p counter message_key random_component =
     Inr (take 24 (blake3_derive_key p RATCHET_NONCE_CONTEXT (be_bytes 8 counter @ message_key @ random_component)))"

definition derive_hedged_nonce :: "primitives \<Rightarrow> bytes option \<Rightarrow> u64 \<Rightarrow> bytes \<Rightarrow> bytes result" where
  "derive_hedged_nonce p rand counter message_key =
     tryR (fill_bytes rand) (\<lambda>random_component. derive_nonce_with_random p counter message_key random_component)"

section \<open>Headers and messages\<close>

definition HEADER_SIZE :: nat where "HEADER_SIZE = 2339"

record message_header =
  mh_version :: u8
  mh_cipher_suite :: u8
  recipient_key_id :: u64
  sender_public_key :: kem_public_key
  encapsulation :: hybrid_encapsulation
  message_number :: u64

definition new_message_header ::
  "u64 \<Rightarrow> kem_public_key \<Rightarrow> hybrid_encapsulation \<Rightarrow> u64 \<Rightarrow> message_header" where
  "new_message_header key_id pk e n = \<lparr>mh_version = PROTOCOL_VERSION, mh_cipher_suite = CIPHER_SUITE,
     recipient_key_id = key_id, sender_public_key = pk, encapsulation = e, message_number = n\<rparr>"

definition message_header_to_bytes :: "message_header \<Rightarrow> bytes" where
  "message_header_to_bytes h =
     [mh_version h, mh_cipher_suite h] @ le_bytes 4 (of_nat HEADER_SIZE :: u32)
       @ le_bytes 8 (recipient_key_id h)
       @ le_bytes 4 (of_nat HYBRID_KEM_PK_SIZE :: u32) @ kem_pk_to_bytes (sender_public_key h)
       @ le_bytes 4 (of_nat HYBRID_ENCAP_SIZE :: u32) @ encapsulation_to_bytes (encapsulation h)
       @ le_bytes 8 (message_number h)"

text \<open>The offsets the decoder steps through: 2, 6, 14, 18, 1232, 1236, 2331. The three length fields
  are skipped.\<close>

definition message_header_from_bytes :: "bytes \<Rightarrow> message_header result" where
  "message_header_from_bytes bs =
     (if length bs < HEADER_SIZE then Inl MalformedMessage
      else let v = bs ! 0; cs = bs ! 1 in
        if v \<noteq> PROTOCOL_VERSION then Inl (UnsupportedProtocolVersion v PROTOCOL_VERSION)
        else if cs \<noteq> CIPHER_SUITE then Inl (UnsupportedCipherSuite cs CIPHER_SUITE)
        else let key_id = le_word (sub_slice 6 14 bs) in
          tryR (kem_pk_from_bytes (sub_slice 18 1232 bs)) (\<lambda>pk.
          tryR (encapsulation_from_bytes (sub_slice 1236 2331 bs)) (\<lambda>e.
          Inr \<lparr>mh_version = v, mh_cipher_suite = cs, recipient_key_id = key_id, sender_public_key = pk,
            encapsulation = e, message_number = le_word (sub_slice 2331 2339 bs)\<rparr>)))"

record ratchet_message =
  rm_header :: message_header
  rm_nonce :: bytes
  rm_ciphertext :: bytes

definition ratchet_aad :: "ratchet_message \<Rightarrow> bytes" where
  "ratchet_aad m = message_header_to_bytes (rm_header m)"

definition ratchet_message_to_bytes :: "ratchet_message \<Rightarrow> bytes" where
  "ratchet_message_to_bytes m =
     message_header_to_bytes (rm_header m) @ rm_nonce m
       @ le_bytes 4 (of_nat (length (rm_ciphertext m)) :: u32) @ rm_ciphertext m"

definition ratchet_message_from_bytes :: "bytes \<Rightarrow> ratchet_message result" where
  "ratchet_message_from_bytes bs =
     (if length bs < HEADER_SIZE + NONCE_SIZE + 4 then Inl MalformedMessage
      else tryR (message_header_from_bytes (take HEADER_SIZE bs)) (\<lambda>h.
        let nonce = sub_slice HEADER_SIZE (HEADER_SIZE + NONCE_SIZE) bs;
            offset = HEADER_SIZE + NONCE_SIZE + 4;
            ct_len = unat (le_word (sub_slice (HEADER_SIZE + NONCE_SIZE) offset bs) :: u32);
            end_pos = offset + ct_len in
        if length bs < end_pos then Inl MalformedMessage
        else Inr \<lparr>rm_header = h, rm_nonce = nonce, rm_ciphertext = sub_slice offset end_pos bs\<rparr>))"

section \<open>The state file\<close>

definition MAGIC :: bytes where "MAGIC = map of_char ''TRLS''"
definition STATE_VERSION :: u16 where "STATE_VERSION = 1"
definition FLAG_HAS_PEER :: u16 where "FLAG_HAS_PEER = 0x0001"
definition FLAG_HAS_SKIPPED :: u16 where "FLAG_HAS_SKIPPED = 0x0002"

record state_header =
  sh_magic :: bytes
  sh_version :: u16
  sh_flags :: u16

definition new_state_header :: "u16 \<Rightarrow> state_header" where
  "new_state_header flags = \<lparr>sh_magic = MAGIC, sh_version = STATE_VERSION, sh_flags = flags\<rparr>"

definition state_header_to_bytes :: "state_header \<Rightarrow> bytes" where
  "state_header_to_bytes h = sh_magic h @ be_bytes 2 (sh_version h) @ be_bytes 2 (sh_flags h)"

definition state_header_from_bytes :: "bytes \<Rightarrow> state_header result" where
  "state_header_from_bytes bs =
     (if length bs < 8 then Inl MalformedMessage
      else let magic = sub_slice 0 4 bs in
        if magic \<noteq> MAGIC then Inl InvalidMagic
        else let v = be_word (sub_slice 4 6 bs) in
          if v \<noteq> STATE_VERSION then Inl UnsupportedStateVersion
          else Inr \<lparr>sh_magic = magic, sh_version = v, sh_flags = be_word (sub_slice 6 8 bs)\<rparr>)"

definition has_peer :: "state_header \<Rightarrow> bool" where
  "has_peer h = (sh_flags h AND FLAG_HAS_PEER \<noteq> 0)"

definition has_skipped :: "state_header \<Rightarrow> bool" where
  "has_skipped h = (sh_flags h AND FLAG_HAS_SKIPPED \<noteq> 0)"

definition encode_u64 :: "u64 \<Rightarrow> bytes" where "encode_u64 value = be_bytes 8 value"

definition decode_u64 :: "bytes \<Rightarrow> u64 result" where
  "decode_u64 bs = (if length bs < 8 then Inl MalformedMessage else Inr (be_word (take 8 bs)))"

definition encode_u32 :: "u32 \<Rightarrow> bytes" where "encode_u32 value = be_bytes 4 value"

definition decode_u32 :: "bytes \<Rightarrow> u32 result" where
  "decode_u32 bs = (if length bs < 4 then Inl MalformedMessage else Inr (be_word (take 4 bs)))"

interpretation state_u64: fixed_codec encode_u64 decode_u64 "\<lambda>_. True" 8
  by unfold_locales (simp_all add: encode_u64_def decode_u64_def)

interpretation state_u32: fixed_codec encode_u32 decode_u32 "\<lambda>_. True" 4
  by unfold_locales (simp_all add: encode_u32_def decode_u32_def)

definition state_header_wf :: "state_header \<Rightarrow> bool" where
  "state_header_wf h \<longleftrightarrow> sh_magic h = MAGIC \<and> sh_version h = STATE_VERSION"

interpretation state_header: fixed_codec state_header_to_bytes state_header_from_bytes state_header_wf 8
  by unfold_locales (auto simp: state_header_to_bytes_def state_header_from_bytes_def state_header_wf_def
      sub_slice_def MAGIC_def Let_def)

section \<open>Codecs of messages\<close>

definition message_header_wf :: "message_header \<Rightarrow> bool" where
  "message_header_wf h \<longleftrightarrow> mh_version h = PROTOCOL_VERSION \<and> mh_cipher_suite h = CIPHER_SUITE
     \<and> public_key_valid (sender_public_key h) \<and> encapsulation_wf (encapsulation h)"

definition ratchet_message_wf :: "ratchet_message \<Rightarrow> bool" where
  "ratchet_message_wf m \<longleftrightarrow> message_header_wf (rm_header m) \<and> length (rm_nonce m) = NONCE_SIZE
     \<and> length (rm_ciphertext m) < 2 ^ 32"

interpretation message_header: fixed_codec message_header_to_bytes message_header_from_bytes
  message_header_wf HEADER_SIZE
proof
  fix h rest
  assume "message_header_wf h"
  then show "message_header_from_bytes (message_header_to_bytes h @ rest) = Inr h"
    by (simp add: message_header_wf_def message_header_from_bytes_def message_header_to_bytes_def
        length_kem_codecs kem_pk_codec encapsulation_codec public_key_valid_def slice_fields
        HEADER_SIZE_def Let_def nth_append)
next
  fix h
  assume "message_header_wf h"
  then show "length (message_header_to_bytes h) = HEADER_SIZE"
    by (simp add: message_header_wf_def message_header_to_bytes_def length_kem_codecs public_key_valid_def
        HEADER_SIZE_def)
qed

interpretation ratchet_message: prefix_codec ratchet_message_to_bytes ratchet_message_from_bytes ratchet_message_wf
proof
  fix m rest
  assume wf: "ratchet_message_wf m"
  then have h: "message_header_wf (rm_header m)" and n: "length (rm_nonce m) = 24"
    and l: "unat (of_nat (length (rm_ciphertext m)) :: u32) = length (rm_ciphertext m)"
    by (simp_all add: ratchet_message_wf_def NONCE_SIZE_def unsigned_of_nat take_bit_nat_eq_self)
  note len = message_header.length_enc [OF h]
  have "message_header_from_bytes (message_header_to_bytes (rm_header m)) = Inr (rm_header m)"
    by (rule message_header.dec_enc_exact [OF h])
  then show "ratchet_message_from_bytes (ratchet_message_to_bytes m @ rest) = Inr m"
    using len n l
    by (simp add: ratchet_message_from_bytes_def ratchet_message_to_bytes_def HEADER_SIZE_def NONCE_SIZE_def
        slice_append_skip sub_slice_def Let_def)
qed

section \<open>Fields the decoder skips\<close>

lemma sub_slice_update: "k < a \<or> b \<le> k \<Longrightarrow> sub_slice a b (bs[k := v]) = sub_slice a b bs"
  by (rule nth_equalityI) (auto simp: sub_slice_def)

definition length_field :: "nat \<Rightarrow> bool" where
  "length_field k \<longleftrightarrow> 2 \<le> k \<and> k < 6 \<or> 14 \<le> k \<and> k < 18 \<or> 1232 \<le> k \<and> k < 1236"

lemma header_skips_lengths:
  assumes "length_field k"
  shows "message_header_from_bytes (bs[k := v]) = message_header_from_bytes bs"
proof -
  have "sub_slice a b (bs[k := v]) = sub_slice a b bs"
    if "(a, b) \<in> {(6, 14), (18, 1232), (1236, 2331), (2331, 2339)}" for a b
    using that assms by (intro sub_slice_update) (auto simp: length_field_def)
  moreover have "bs[k := v] ! 0 = bs ! 0" "bs[k := v] ! 1 = bs ! 1"
    using assms by (auto simp: length_field_def)
  ultimately show ?thesis by (simp add: message_header_from_bytes_def Let_def cong: if_cong)
qed

lemma message_skips_lengths:
  assumes "length_field k"
  shows "ratchet_message_from_bytes (bs[k := v]) = ratchet_message_from_bytes bs"
proof -
  have k: "k < HEADER_SIZE" using assms by (auto simp: length_field_def HEADER_SIZE_def)
  then have "take HEADER_SIZE (bs[k := v]) = (take HEADER_SIZE bs)[k := v]"
    by (simp add: take_update_swap)
  moreover have "sub_slice HEADER_SIZE b (bs[k := v]) = sub_slice HEADER_SIZE b bs"
    "sub_slice (HEADER_SIZE + NONCE_SIZE) b (bs[k := v]) = sub_slice (HEADER_SIZE + NONCE_SIZE) b bs"
    "sub_slice (HEADER_SIZE + NONCE_SIZE + 4) b (bs[k := v]) = sub_slice (HEADER_SIZE + NONCE_SIZE + 4) b bs" for b
    using k by (auto intro!: sub_slice_update)
  ultimately show ?thesis
    using header_skips_lengths [OF assms] by (simp add: ratchet_message_from_bytes_def Let_def cong: if_cong)
qed

text \<open>C36. The wire form of a ratchet message round-trips, with anything after it in the buffer; but the
  twelve bytes of the header's three length fields are neither checked nor part of what the
  receiver authenticates: changing any of them on the wire yields the same message.\<close>

theorem ratchet_message_codec:
  assumes "ratchet_message_wf m" and "length_field k"
  shows "ratchet_message_from_bytes (ratchet_message_to_bytes m @ rest) = Inr m
    \<and> ratchet_message_from_bytes ((ratchet_message_to_bytes m @ rest)[k := v]) = Inr m"
  using ratchet_message.dec_enc [OF assms(1)] message_skips_lengths [OF assms(2)] by simp

definition sample_message :: ratchet_message where
  "sample_message = \<lparr>rm_header = new_message_header 7
     \<lparr>pk_x448 = replicate 56 1, pk_sntrup = replicate 1158 1\<rparr>
     \<lparr>x448_ephemeral = replicate 56 2, sntrup_ciphertext = replicate 1039 3\<rparr> 5,
     rm_nonce = replicate 24 4, rm_ciphertext = [1, 2, 3]\<rparr>"

theorem ratchet_message_codec_witness:
  "ratchet_message_from_bytes ((ratchet_message_to_bytes sample_message)[3 := 0xFF]) = Inr sample_message"
  using ratchet_message_codec [where m = sample_message and k = 3 and rest = "[]" and v = "0xFF"]
  by (simp add: sample_message_def ratchet_message_wf_def message_header_wf_def new_message_header_def
      public_key_valid_def kem_pk_wf_def encapsulation_wf_def kem_sizes NONCE_SIZE_def length_field_def
      replicate_eq_replicate)

end
