(* ===== verification/Ratchet_State.thy ===== *)
theory Ratchet_State
  imports Ratchet_Wire
begin

text \<open>
  The state of the per-message KEM ratchet and its operations
  (\<open>trelis-ratchet/src/state.rs\<close>, \<open>lib.rs\<close>), and sending and receiving
  (\<open>send.rs\<close>, \<open>receive.rs\<close>). An operation that takes the state mutably returns its result and
  the state it leaves; \<open>None\<close> is a panic. The state at every \<open>?\<close> is written out (\<open>attempt\<close>).
\<close>

section \<open>State\<close>

definition MAX_PREVIOUS_KEYPAIRS :: nat where "MAX_PREVIOUS_KEYPAIRS = 5"
definition SESSION_EXHAUSTION_THRESHOLD :: u64 where "SESSION_EXHAUSTION_THRESHOLD = (- 1) - 1000000"

definition derive_key_id :: "primitives \<Rightarrow> kem_public_key \<Rightarrow> u64" where
  "derive_key_id p pk = le_word (take 8 (blake3_hash p (pk_x448 pk @ pk_sntrup pk)))"

datatype ratchet_status = Uninitialised | Active | AwaitingReply | Stale | Compromised

record kem_ratchet =
  our_kp :: kem_keypair
  our_key_id :: u64
  previous_keypairs :: "(u64 \<times> kem_keypair) list"
  their_public_key :: "kem_public_key option"
  their_key_id :: "u64 option"
  root_key :: bytes
  send_count :: u64
  recv_count :: u64
  status :: ratchet_status
  last_activity :: u64

definition init_initiator ::
  "primitives \<Rightarrow> kem_keypair outcome \<Rightarrow> bytes \<Rightarrow> kem_public_key \<Rightarrow> u64 \<Rightarrow> kem_ratchet outcome" where
  "init_initiator p generated session_key their_pk current_time =
     bind_out generated (\<lambda>kp.
     Done \<lparr>our_kp = kp, our_key_id = derive_key_id p (kp_public kp), previous_keypairs = [],
       their_public_key = Some their_pk, their_key_id = Some (derive_key_id p their_pk),
       root_key = derive_initial_root_key p session_key, send_count = 0, recv_count = 0,
       status = Active, last_activity = current_time\<rparr>)"

definition init_responder :: "primitives \<Rightarrow> bytes \<Rightarrow> kem_keypair \<Rightarrow> u64 \<Rightarrow> kem_ratchet" where
  "init_responder p session_key kp current_time =
     \<lparr>our_kp = kp, our_key_id = derive_key_id p (kp_public kp), previous_keypairs = [],
      their_public_key = None, their_key_id = None, root_key = derive_initial_root_key p session_key,
      send_count = 0, recv_count = 0, status = Active, last_activity = current_time\<rparr>"

definition check_exhaustion :: "kem_ratchet \<Rightarrow> unit result" where
  "check_exhaustion st =
     (if send_count st \<ge> SESSION_EXHAUSTION_THRESHOLD
      then Inl (SessionExhausted (send_count st) SESSION_EXHAUSTION_THRESHOLD) else Inr ())"

definition validate_can_send :: "kem_ratchet \<Rightarrow> unit result" where
  "validate_can_send st =
     (case status st of
        Uninitialised \<Rightarrow> Inl NoActiveSession
      | Compromised \<Rightarrow> Inl SessionCompromised
      | _ \<Rightarrow> tryR (check_exhaustion st) (\<lambda>_.
          if their_public_key st = None \<or> their_key_id st = None then Inl NoRecipientKey else Inr ()))"

definition validate_can_receive :: "kem_ratchet \<Rightarrow> unit result" where
  "validate_can_receive st =
     (case status st of
        Uninitialised \<Rightarrow> Inl NoActiveSession
      | Compromised \<Rightarrow> Inl SessionCompromised
      | _ \<Rightarrow> Inr ())"

definition find_keypair :: "u64 \<Rightarrow> kem_ratchet \<Rightarrow> kem_keypair option" where
  "find_keypair key_id st =
     (if key_id = our_key_id st then Some (our_kp st) else map_of (previous_keypairs st) key_id)"

definition rotate_keypair :: "primitives \<Rightarrow> kem_keypair \<Rightarrow> kem_ratchet \<Rightarrow> kem_ratchet" where
  "rotate_keypair p new_keypair st =
     (let previous = (if length (previous_keypairs st) \<ge> MAX_PREVIOUS_KEYPAIRS
        then tl (previous_keypairs st) else previous_keypairs st) in
      st\<lparr>our_kp := new_keypair, previous_keypairs := previous @ [(our_key_id st, our_kp st)],
         our_key_id := derive_key_id p (kp_public new_keypair)\<rparr>)"

definition set_root_key :: "bytes \<Rightarrow> kem_ratchet \<Rightarrow> kem_ratchet" where
  "set_root_key k st = st\<lparr>root_key := k\<rparr>"

definition increment_send_count :: "kem_ratchet \<Rightarrow> kem_ratchet option" where
  "increment_send_count st = map_option (\<lambda>n. st\<lparr>send_count := n\<rparr>) (checked_add (send_count st) 1)"

definition set_recv_count :: "u64 \<Rightarrow> kem_ratchet \<Rightarrow> kem_ratchet option" where
  "set_recv_count n st = map_option (\<lambda>n. st\<lparr>recv_count := n\<rparr>) (checked_add n 1)"

definition set_send_count :: "u64 \<Rightarrow> kem_ratchet \<Rightarrow> unit result \<times> kem_ratchet" where
  "set_send_count n st =
     (if n < send_count st then (Inl MessageCounterTooOld, st)
      else if n \<ge> SESSION_EXHAUSTION_THRESHOLD
        then (Inl (SessionExhausted n SESSION_EXHAUSTION_THRESHOLD), st)
      else (Inr (), st\<lparr>send_count := n\<rparr>))"

definition reset_recv_count :: "kem_ratchet \<Rightarrow> kem_ratchet" where
  "reset_recv_count st = st\<lparr>recv_count := 0\<rparr>"

definition set_their_public_key :: "primitives \<Rightarrow> kem_public_key \<Rightarrow> kem_ratchet \<Rightarrow> kem_ratchet" where
  "set_their_public_key p pk st = st\<lparr>their_key_id := Some (derive_key_id p pk), their_public_key := Some pk\<rparr>"

definition set_status :: "ratchet_status \<Rightarrow> kem_ratchet \<Rightarrow> kem_ratchet" where
  "set_status s st = st\<lparr>status := s\<rparr>"

definition set_last_activity :: "u64 \<Rightarrow> kem_ratchet \<Rightarrow> kem_ratchet" where
  "set_last_activity t st = st\<lparr>last_activity := t\<rparr>"

definition mark_compromised :: "kem_ratchet \<Rightarrow> kem_ratchet" where
  "mark_compromised st = st\<lparr>status := Compromised\<rparr>"

text \<open>Zeroing a key pair overwrites its two secrets.\<close>

definition zeroize_keypair :: "kem_keypair \<Rightarrow> kem_keypair" where
  "zeroize_keypair kp = kp\<lparr>x448_secret := replicate (length (x448_secret kp)) 0,
     sntrup_secret := replicate (length (sntrup_secret kp)) 0\<rparr>"

definition zeroize_ratchet :: "kem_ratchet \<Rightarrow> kem_ratchet" where
  "zeroize_ratchet st = st\<lparr>root_key := replicate (length (root_key st)) 0, our_kp := zeroize_keypair (our_kp st),
     previous_keypairs := [], send_count := 0, recv_count := 0, status := Uninitialised\<rparr>"

interpretation send_counter: forward_counter send_count set_send_count
  by unfold_locales (auto simp: set_send_count_def not_less split: if_splits)

section \<open>Sending and receiving\<close>

type_synonym 'a effect = "('a result \<times> kem_ratchet) option"

definition attempt :: "kem_ratchet \<Rightarrow> 'a outcome \<Rightarrow> ('a \<Rightarrow> 'b effect) \<Rightarrow> 'b effect" where
  "attempt st m k = (case m of Done x \<Rightarrow> k x | Fail e \<Rightarrow> Some (Inl e, st) | Panic \<Rightarrow> None)"

lemma attempt_simps [simp]:
  "attempt st (Done x) k = k x" "attempt st (Fail e) k = Some (Inl e, st)" "attempt st Panic k = None"
  by (simp_all add: attempt_def)

lemma attempt_Inr: "attempt st m k = Some (Inr y, st') \<longleftrightarrow> (\<exists>x. m = Done x \<and> k x = Some (Inr y, st'))"
  by (cases m) auto

lemma attempt_Inl: "attempt st m k = Some (Inl e, st') \<longleftrightarrow>
    m = Fail e \<and> st' = st \<or> (\<exists>x. m = Done x \<and> k x = Some (Inl e, st'))"
  by (cases m) auto

record send_result =
  sr_message :: ratchet_message
  sr_state_updated :: bool

text \<open>The randomness a send draws: the new key pair's, the encapsulation's and the nonce's.\<close>

record send_coins =
  sc_x448 :: "bytes option"
  sc_sntrup :: "bytes outcome"
  sc_kem :: kem_coins
  sc_nonce :: "bytes option"

definition send_message :: "primitives \<Rightarrow> send_coins \<Rightarrow> bytes \<Rightarrow> u64 \<Rightarrow> kem_ratchet \<Rightarrow> send_result effect" where
  "send_message p coins plaintext current_time st =
     attempt st (of_result (validate_can_send st)) (\<lambda>_.
     attempt st (kem_generate p (sc_x448 coins) (sc_sntrup coins)) (\<lambda>new_keypair.
     attempt st (or_panic (their_public_key st)) (\<lambda>their_pk.
     attempt st (kem_encapsulate p (sc_kem coins) their_pk) (\<lambda>(shared_secret, e).
     let kdf = kdf_rk p (root_key st) shared_secret in
     attempt st (or_panic (their_key_id st)) (\<lambda>key_id.
     let h = new_message_header key_id (kp_public new_keypair) e (send_count st) in
     attempt st (of_result (derive_hedged_nonce p (sc_nonce coins) (send_count st) (kdf_message_key kdf))) (\<lambda>nonce.
     attempt st (of_result (aead_encrypt p (kdf_message_key kdf) nonce plaintext (message_header_to_bytes h))) (\<lambda>ct.
     do {
       let st1 = set_root_key (new_root_key kdf) (rotate_keypair p new_keypair st);
       st2 \<leftarrow> increment_send_count st1;
       let st3 = set_last_activity current_time (set_status AwaitingReply st2);
       Some (Inr \<lparr>sr_message = \<lparr>rm_header = h, rm_nonce = nonce, rm_ciphertext = ct\<rparr>,
         sr_state_updated = True\<rparr>, st3)
     })))))))"

definition receive_message :: "primitives \<Rightarrow> ratchet_message \<Rightarrow> u64 \<Rightarrow> kem_ratchet \<Rightarrow> bytes effect" where
  "receive_message p message current_time st =
     (let h = rm_header message in
     attempt st (of_result (validate_can_receive st)) (\<lambda>_.
     if message_number h \<noteq> recv_count st
     then Some (Inl (MessageOrderViolation (recv_count st) (message_number h)), st)
     else if find_keypair (recipient_key_id h) st = None then Some (Inl UnknownRecipientKeyId, st)
     else let sender_key_changed = (their_public_key st \<noteq> Some (sender_public_key h)) in
     attempt st (or_panic (find_keypair (recipient_key_id h) st)) (\<lambda>keypair.
     attempt st (kem_decapsulate p keypair (encapsulation h)) (\<lambda>shared_secret.
     let kdf = kdf_rk p (root_key st) shared_secret in
     attempt st (of_result (aead_decrypt p (kdf_message_key kdf) (rm_nonce message) (rm_ciphertext message)
       (message_header_to_bytes h))) (\<lambda>plaintext.
     do {
       let st1 = set_root_key (new_root_key kdf) st;
       let st2 = (if sender_key_changed then set_their_public_key p (sender_public_key h) st1 else st1);
       st3 \<leftarrow> set_recv_count (message_number h) st2;
       let st4 = set_last_activity current_time (set_status Active st3);
       Some (Inr plaintext, st4)
     })))))"

section \<open>What the operations do\<close>

lemma send_message_Inr:
  assumes "send_message p coins m now st = Some (Inr r, st')"
  obtains kp pk key_id ss e nonce where
    "validate_can_send st = Inr ()" "kem_generate p (sc_x448 coins) (sc_sntrup coins) = Done kp"
    "their_public_key st = Some pk" "kem_encapsulate p (sc_kem coins) pk = Done (ss, e)"
    "their_key_id st = Some key_id"
    "rm_header (sr_message r) = new_message_header key_id (kp_public kp) e (send_count st)"
    "derive_hedged_nonce p (sc_nonce coins) (send_count st) (kdf_message_key (kdf_rk p (root_key st) ss))
      = Inr (rm_nonce (sr_message r))"
    "aead_encrypt p (kdf_message_key (kdf_rk p (root_key st) ss)) (rm_nonce (sr_message r)) m
      (message_header_to_bytes (rm_header (sr_message r))) = Inr (rm_ciphertext (sr_message r))"
    "unat (send_count st) + 1 < 2 ^ 64"
    "st' = (rotate_keypair p kp st)\<lparr>root_key := new_root_key (kdf_rk p (root_key st) ss),
       send_count := send_count st + 1, status := AwaitingReply, last_activity := now\<rparr>"
proof -
  from assms obtain kp pk key_id ss e nonce ct where *:
    "validate_can_send st = Inr ()" "kem_generate p (sc_x448 coins) (sc_sntrup coins) = Done kp"
    "their_public_key st = Some pk" "kem_encapsulate p (sc_kem coins) pk = Done (ss, e)"
    "their_key_id st = Some key_id"
    "derive_hedged_nonce p (sc_nonce coins) (send_count st) (kdf_message_key (kdf_rk p (root_key st) ss)) = Inr nonce"
    "aead_encrypt p (kdf_message_key (kdf_rk p (root_key st) ss)) nonce m
      (message_header_to_bytes (new_message_header key_id (kp_public kp) e (send_count st))) = Inr ct"
    "increment_send_count (set_root_key (new_root_key (kdf_rk p (root_key st) ss)) (rotate_keypair p kp st)) \<noteq> None"
    "r = \<lparr>sr_message = \<lparr>rm_header = new_message_header key_id (kp_public kp) e (send_count st),
       rm_nonce = nonce, rm_ciphertext = ct\<rparr>, sr_state_updated = True\<rparr>"
    "st' = set_last_activity now (set_status AwaitingReply (the (increment_send_count
       (set_root_key (new_root_key (kdf_rk p (root_key st) ss)) (rotate_keypair p kp st)))))"
    by (auto simp: send_message_def attempt_Inr Let_def bind_eq_Some_conv)
  from *(8) have "unat (send_count st) + 1 < 2 ^ 64"
    "increment_send_count (set_root_key (new_root_key (kdf_rk p (root_key st) ss)) (rotate_keypair p kp st))
      = Some ((rotate_keypair p kp st)\<lparr>root_key := new_root_key (kdf_rk p (root_key st) ss), send_count := send_count st + 1\<rparr>)"
    by (auto simp: increment_send_count_def set_root_key_def rotate_keypair_def checked_add_def Let_def
        split: if_splits)
  with * show thesis
    by (intro that [of kp pk ss e key_id]) (simp_all add: set_last_activity_def set_status_def)
qed

end
