(* ===== verification/Ratchet_Conversation.thy ===== *)
theory Ratchet_Conversation
  imports Ratchet_Session
begin

text \<open>
  Two peers of the KEM ratchet over ordered links: the interface of a peer's handlers, what it
  means that two states are in step, and a conversation in which a peer speaks only when
  nothing is on its way to it. Sending and receiving are \<open>send.rs\<close> and \<open>receive.rs\<close>.
\<close>

section \<open>States in step\<close>

definition peer_ok :: "primitives \<Rightarrow> kem_ratchet \<Rightarrow> bool" where
  "peer_ok p st \<longleftrightarrow> ratchet_ok p st \<and> status st \<noteq> Uninitialised \<and> status st \<noteq> Compromised
     \<and> kem_pair p (our_kp st) (kp_public (our_kp st))"

definition knows :: "kem_ratchet \<Rightarrow> kem_ratchet \<Rightarrow> bool" where
  "knows a b \<longleftrightarrow> their_public_key a = None \<or> their_public_key a = Some (kp_public (our_kp b))"

definition in_step :: "primitives \<Rightarrow> kem_ratchet \<Rightarrow> kem_ratchet \<Rightarrow> bool" where
  "in_step p a b \<longleftrightarrow> peer_ok p a \<and> peer_ok p b \<and> root_key a = root_key b
     \<and> send_count a = recv_count b \<and> send_count b = recv_count a \<and> knows a b \<and> knows b a"

lemma in_step_sym: "in_step p a b \<longleftrightarrow> in_step p b a"
  by (auto simp: in_step_def)

definition honest_coins :: "primitives \<Rightarrow> send_coins \<Rightarrow> bool" where
  "honest_coins p coins \<longleftrightarrow> kem_coins_ok (sc_kem coins)
     \<and> (\<forall>kp. kem_generate p (sc_x448 coins) (sc_sntrup coins) = Done kp \<longrightarrow> kem_pair p kp (kp_public kp))"

lemma validate_receive_peer: "peer_ok p st \<Longrightarrow> validate_can_receive st = Inr ()"
  by (cases "status st") (auto simp: peer_ok_def validate_can_receive_def)

text \<open>What one peer sends the other receives, and they stay in step.\<close>

lemma deliver_one:
  assumes "in_step p a b" and coins: "honest_coins p coins"
    and send: "send_message p coins m now a = Some (Inr r, a')"
  shows "\<exists>b'. receive_message p (sr_message r) now' b = Some (Inr m, b') \<and> in_step p a' b'"
proof -
  obtain kp pk key_id ss e where s:
    "kem_generate p (sc_x448 coins) (sc_sntrup coins) = Done kp"
    "their_public_key a = Some pk" "kem_encapsulate p (sc_kem coins) pk = Done (ss, e)"
    "their_key_id a = Some key_id"
    "rm_header (sr_message r) = new_message_header key_id (kp_public kp) e (send_count a)"
    "aead_encrypt p (kdf_message_key (kdf_rk p (root_key a) ss)) (rm_nonce (sr_message r)) m
      (message_header_to_bytes (rm_header (sr_message r))) = Inr (rm_ciphertext (sr_message r))"
    "unat (send_count a) + 1 < 2 ^ 64"
    "a' = (rotate_keypair p kp a)\<lparr>root_key := new_root_key (kdf_rk p (root_key a) ss),
       send_count := send_count a + 1, status := AwaitingReply, last_activity := now\<rparr>"
    using send by (elim send_message_Inr)
  have a: "peer_ok p a" and b: "peer_ok p b" and root: "root_key b = root_key a"
    and counts: "recv_count b = send_count a" "send_count b = recv_count a"
    and pk: "pk = kp_public (our_kp b)" and kb: "knows b a"
    using assms(1) s(2) by (auto simp: in_step_def knows_def)
  have pair: "kem_pair p (our_kp b) pk" using b pk by (simp add: peer_ok_def)
  then have p: "prims_ok p" by (simp add: kem_pair_def)
  have "key_id = our_key_id b" using a b s(2,4) pk by (simp add: peer_ok_def ratchet_ok_def)
  then have find: "find_keypair key_id b = Some (our_kp b)" by (simp add: find_keypair_def)
  have dec: "kem_decapsulate p (our_kp b) e = Done ss"
    using hybrid.correct [OF pair _ s(3)] coins by (simp add: honest_coins_def)
  note opened = aead_round_trip(1) [OF p s(6)]
  define b' where "b' = (if their_public_key b \<noteq> Some (kp_public kp) then set_their_public_key p (kp_public kp) b else b)
      \<lparr>root_key := new_root_key (kdf_rk p (root_key b) ss), recv_count := recv_count b + 1,
       status := Active, last_activity := now'\<rparr>"
  have rcv: "receive_message p (sr_message r) now' b = Some (Inr m, b')"
    using receive_message_ok [of b "sr_message r" "our_kp b" p ss m now'] validate_receive_peer [OF b]
      find dec opened counts(1) s(7) root
    by (simp add: s(5) new_message_header_def b'_def)
  have "peer_ok p a'"
    using rotate_keypair_ok [of p a kp] a coins s(1)
    by (simp add: s(8) peer_ok_def ratchet_ok_def honest_coins_def) (simp add: rotate_keypair_def Let_def)
  moreover have "peer_ok p b'"
    using b by (simp add: b'_def peer_ok_def ratchet_ok_def set_their_public_key_def)
  ultimately have "in_step p a' b'"
    using root counts pk s(2)
    by (simp add: in_step_def s(8) b'_def knows_def rotate_keypair_def set_their_public_key_def Let_def)
  with rcv show ?thesis by blast
qed

text \<open>Messages on their way: the receiver will take them all, whatever its clock, and then be in step.\<close>

fun drains :: "primitives \<Rightarrow> kem_ratchet \<Rightarrow> kem_ratchet \<Rightarrow> ratchet_message list \<Rightarrow> bytes list \<Rightarrow> bool" where
  "drains p a b [] [] = in_step p a b"
| "drains p a b (q # qs) (m # ms) =
     (\<forall>now. \<exists>b'. receive_message p q now b = Some (Inr m, b') \<and> drains p a b' qs ms)"
| "drains p a b _ _ = False"

fun_cases drains_NilE: "drains p a b [] ms"
fun_cases drains_ConsE: "drains p a b (q # qs) ms"

lemma drains_send:
  assumes "drains p a b qs ms" and "honest_coins p coins"
    and "send_message p coins m now a = Some (Inr r, a')"
  shows "drains p a' b (qs @ [sr_message r]) (ms @ [m])"
  using assms(1)
proof (induction qs arbitrary: b ms)
  case Nil
  then have "ms = []" and "in_step p a b" by (auto elim: drains_NilE)
  with deliver_one [OF _ assms(2,3)] show ?case by simp
next
  case (Cons q qs)
  from Cons.prems obtain n ns where ms: "ms = n # ns"
    and d: "\<And>now. \<exists>b'. receive_message p q now b = Some (Inr n, b') \<and> drains p a b' qs ns"
    by (auto elim: drains_ConsE)
  then show ?case using Cons.IH by (simp add: ms) meson
qed

section \<open>A conversation\<close>

datatype peer = Alice | Bob

primrec other :: "peer \<Rightarrow> peer" where
  "other Alice = Bob"
| "other Bob = Alice"

lemma other_simps [simp]: "other (other x) = x" "other x \<noteq> x" "x \<noteq> other x"
  by (cases x; simp)+

lemma peer_cases: "y = x \<or> y = other x"
  by (cases x; cases y) auto

text \<open>Each peer's state, the messages on their way to it, and what it has sent and got.\<close>

record conversation =
  ratchet :: "peer \<Rightarrow> kem_ratchet"
  link :: "peer \<Rightarrow> ratchet_message list"
  sent :: "peer \<Rightarrow> bytes list"
  got :: "peer \<Rightarrow> bytes list"

definition speak :: "peer \<Rightarrow> bytes \<Rightarrow> ratchet_message \<Rightarrow> kem_ratchet \<Rightarrow> conversation \<Rightarrow> conversation" where
  "speak x m msg st c = c\<lparr>ratchet := (ratchet c)(x := st),
     link := (link c)(other x := link c (other x) @ [msg]), sent := (sent c)(x := sent c x @ [m])\<rparr>"

definition hear :: "peer \<Rightarrow> bytes result \<Rightarrow> kem_ratchet \<Rightarrow> conversation \<Rightarrow> conversation" where
  "hear x r st c = c\<lparr>ratchet := (ratchet c)(x := st), link := (link c)(x := tl (link c x)),
     got := (got c)(x := got c x @ (case r of Inr m \<Rightarrow> [m] | Inl _ \<Rightarrow> []))\<rparr>"

inductive talk_step :: "primitives \<Rightarrow> conversation \<Rightarrow> conversation \<Rightarrow> bool" for p where
  speaks: "link c x = [] \<Longrightarrow> honest_coins p coins \<Longrightarrow> send_message p coins m now (ratchet c x) = Some (Inr r, st)
    \<Longrightarrow> talk_step p c (speak x m (sr_message r) st c)"
| hears: "link c x = msg # rest \<Longrightarrow> receive_message p msg now (ratchet c x) = Some (r, st)
    \<Longrightarrow> talk_step p c (hear x r st c)"

inductive talk :: "primitives \<Rightarrow> conversation \<Rightarrow> bool" for p where
  start: "init_initiator p generated key (kp_public kpb) now = Done a \<Longrightarrow> init_responder p key kpb now' = b
    \<Longrightarrow> kem_pair p kpb (kp_public kpb) \<Longrightarrow> (\<forall>kp. generated = Done kp \<longrightarrow> kem_pair p kp (kp_public kp))
    \<Longrightarrow> talk p \<lparr>ratchet = (\<lambda>x. case x of Alice \<Rightarrow> a | Bob \<Rightarrow> b), link = (\<lambda>_. []), sent = (\<lambda>_. []), got = (\<lambda>_. [])\<rparr>"
| step: "talk p c \<Longrightarrow> talk_step p c c' \<Longrightarrow> talk p c'"

text \<open>One peer, \<open>x\<close>, has the floor: nothing is on its way to it and the other will take what is on
  its way there.\<close>

definition floor :: "primitives \<Rightarrow> conversation \<Rightarrow> peer \<Rightarrow> bool" where
  "floor p c x \<longleftrightarrow> link c x = [] \<and> sent c (other x) = got c x
     \<and> (\<exists>ms. drains p (ratchet c x) (ratchet c (other x)) (link c (other x)) ms
          \<and> sent c x = got c (other x) @ ms)"

lemma floor_passes: "floor p c x \<Longrightarrow> link c (other x) = [] \<Longrightarrow> floor p c (other x)"
  by (auto simp: floor_def elim!: drains_NilE intro!: exI [of _ "[]"] simp: in_step_sym)

lemma floor_speak:
  assumes "floor p c x" and "honest_coins p coins"
    and "send_message p coins m now (ratchet c x) = Some (Inr r, st)"
  shows "floor p (speak x m (sr_message r) st c) x"
proof -
  obtain ms where "drains p (ratchet c x) (ratchet c (other x)) (link c (other x)) ms" "sent c x = got c (other x) @ ms"
    using assms(1) by (auto simp: floor_def)
  with drains_send [OF this(1) assms(2,3)] assms(1) show ?thesis
    by (auto simp: floor_def speak_def intro!: exI [of _ "ms @ [m]"])
qed

lemma floor_hear:
  assumes "floor p c x" and l: "link c (other x) = msg # rest"
    and r: "receive_message p msg now (ratchet c (other x)) = Some (r, st)"
  shows "floor p (hear (other x) r st c) x"
proof -
  obtain m ms where ms: "\<forall>now. \<exists>b'. receive_message p msg now (ratchet c (other x)) = Some (Inr m, b')
      \<and> drains p (ratchet c x) b' rest ms" "sent c x = got c (other x) @ m # ms"
    using assms(1) l by (auto simp: floor_def elim!: drains_ConsE)
  from ms(1) r have d: "drains p (ratchet c x) st rest ms" "r = Inr m"
    using spec [OF ms(1), of now] by auto
  note d = d ms(2)
  with assms(1) l show ?thesis
    by (auto simp: floor_def hear_def intro!: exI [of _ ms])
qed

lemma floor_step:
  assumes "floor p c x" and "talk_step p c c'"
  shows "\<exists>y. floor p c' y"
  using assms(2)
proof cases
  case (speaks y coins m now r st)
  have "floor p c y"
    using assms(1) floor_passes speaks(2) peer_cases [of y x] by auto
  with floor_speak speaks show ?thesis by blast
next
  case (hears y msg rest now r st)
  then have "y = other x" using assms(1) peer_cases [of y x] by (auto simp: floor_def)
  with floor_hear [OF assms(1)] hears show ?thesis by blast
qed

lemma talk_floor: "talk p c \<Longrightarrow> \<exists>x. floor p c x"
proof (induction rule: talk.induct)
  case (start generated key kpb now a now' b)
  obtain kpa where kpa: "generated = Done kpa"
    using start(1) by (auto simp: init_initiator_def bind_out_eq_Done)
  have "ratchet_ok p a" "ratchet_ok p b"
    using start(1,2) ratchet_ok_init by auto
  then have "in_step p a b"
    using start kpa
    by (auto simp: in_step_def peer_ok_def knows_def init_initiator_def init_responder_def)
  then show ?case by (auto simp: floor_def intro!: exI [of _ Alice] exI [of _ "[]"])
next
  case (step c c')
  then show ?case using floor_step by blast
qed

text \<open>C20. The ratchet delivers: in every conversation that starts from a shared session key and in which
  no peer speaks while a message is on its way to it, over links that keep the order, each peer
  has got exactly the first messages the other sent, and the next message on a link is received
  without error and is the next plaintext.\<close>

theorem ratchet_delivers:
  assumes "talk p c" and "link c x = msg # rest"
  shows "\<exists>m ms st. receive_message p msg now (ratchet c x) = Some (Inr m, st)
    \<and> sent c (other x) = got c x @ m # ms \<and> sent c x = got c (other x)"
proof -
  obtain y where y: "floor p c y" using talk_floor [OF assms(1)] by blast
  then have "x = other y" using assms(2) peer_cases [of x y] by (auto simp: floor_def)
  with y assms(2) show ?thesis by (fastforce simp: floor_def elim!: drains_ConsE)
qed

definition toy_send_coins :: send_coins where
  "toy_send_coins = \<lparr>sc_x448 = Some (replicate 56 9), sc_sntrup = Done toy_sk, sc_kem = toy_coins,
     sc_nonce = Some (replicate 16 4)\<rparr>"

definition toy_alice :: kem_ratchet where
  "toy_alice = (init_responder toy_prims (replicate 32 1) toy_kem_keypair 0)
     \<lparr>their_public_key := Some (kp_public toy_kem_keypair),
      their_key_id := Some (derive_key_id toy_prims (kp_public toy_kem_keypair))\<rparr>"

lemma toy_generates: "kem_generate toy_prims (sc_x448 toy_send_coins) (sc_sntrup toy_send_coins) = Done toy_kem_keypair"
  by (simp add: kem_generate_def kem_generate_inner_def toy_send_coins_def x448_generate_def toy_kem_keypair_def)

lemma toy_honest: "honest_coins toy_prims toy_send_coins"
  using toy_coins_ok toy_kem_pair toy_generates
  by (simp add: honest_coins_def) (simp add: toy_send_coins_def)

lemma toy_speaks: "\<exists>r st. send_message toy_prims toy_send_coins m 0 toy_alice = Some (Inr r, st)"
proof -
  obtain ss e where e: "kem_encapsulate toy_prims toy_coins (kp_public toy_kem_keypair) = Done (ss, e)"
    using toy_encapsulates by blast
  have v: "validate_can_send toy_alice = Inr ()"
    by (simp add: validate_can_send_def toy_alice_def init_responder_def check_exhaustion_def
        SESSION_EXHAUSTION_THRESHOLD_def)
  have n: "sc_kem toy_send_coins = toy_coins" "sc_nonce toy_send_coins = Some (replicate 16 4)"
    by (simp_all add: toy_send_coins_def)
  show ?thesis
    using e v n toy_generates
    by (simp add: send_message_def toy_seals derive_hedged_nonce_def derive_nonce_with_random_def Let_def
        increment_send_count_def set_root_key_def rotate_keypair_def checked_add_def toy_alice_def init_responder_def)
qed

theorem ratchet_delivers_witness:
  "\<exists>c msg st. talk toy_prims c \<and> link c Bob = [msg]
    \<and> receive_message toy_prims msg 0 (ratchet c Bob) = Some (Inr [1, 2], st)"
proof -
  define c where "c = \<lparr>ratchet = (\<lambda>x. case x of Alice \<Rightarrow> toy_alice
      | Bob \<Rightarrow> init_responder toy_prims (replicate 32 1) toy_kem_keypair 0),
    link = (\<lambda>_. []), sent = (\<lambda>_. []), got = (\<lambda>_. [])\<rparr>"
  have "init_initiator toy_prims (Done toy_kem_keypair) (replicate 32 1) (kp_public toy_kem_keypair) 0 = Done toy_alice"
    by (simp add: init_initiator_def toy_alice_def init_responder_def)
  then have "talk toy_prims c" unfolding c_def
    by (rule talk.start) (use toy_kem_pair in auto)
  moreover obtain r st where s: "send_message toy_prims toy_send_coins [1, 2] 0 toy_alice = Some (Inr r, st)"
    using toy_speaks by blast
  ultimately have t: "talk toy_prims (speak Alice [1, 2] (sr_message r) st c)"
    by (intro talk.step [OF _ talk_step.speaks [OF _ toy_honest, where m = "[1, 2]" and now = 0]])
      (simp_all add: c_def)
  have "link (speak Alice [1, 2] (sr_message r) st c) Bob = [sr_message r]" by (simp add: speak_def c_def)
  from t ratchet_delivers [OF t this, of 0] this show ?thesis
    by (fastforce simp: speak_def c_def)
qed

end
