(* ===== verification/X3dh.thy ===== *)
theory X3dh
  imports Identity Wire_Header
begin

text \<open>
  Session establishment, X3DH-PQ (\<open>trelis-x3dh-pq/src\<close>): the transcript both sides hash
  (\<open>transcript.rs\<close>), the session keys (\<open>session_keys.rs\<close>), the initiator
  (\<open>initiator.rs\<close>) and the responder (\<open>responder.rs\<close>).
\<close>

section \<open>Transcripts and session keys\<close>

definition SESSION_V2_CONTEXT :: string where "SESSION_V2_CONTEXT = ''trelis-session-v2''"
definition ROOT_KEY_CONTEXT :: string where "ROOT_KEY_CONTEXT = ''trelis-session-root-v1''"
definition SEND_CHAIN_CONTEXT :: string where "SEND_CHAIN_CONTEXT = ''trelis-session-send-v1''"
definition RECV_CHAIN_CONTEXT :: string where "RECV_CHAIN_CONTEXT = ''trelis-session-recv-v1''"

record session_flags =
  li_capable :: bool

definition flags_to_transcript_bytes :: "session_flags \<Rightarrow> bytes" where
  "flags_to_transcript_bytes f = [if li_capable f then 1 else 0]"

record transcript =
  alice_identity_hash :: bytes
  bob_identity_hash :: bytes
  bundle_hash :: bytes
  tr_dh1 :: bytes
  tr_dh2 :: bytes
  tr_dh3 :: bytes
  tr_pq_ss :: bytes
  tr_flags :: session_flags

definition hash_identity :: "primitives \<Rightarrow> signing_public_key \<Rightarrow> bytes" where
  "hash_identity p identity = blake3_hash p (signing_pk_to_bytes identity)"

definition hash_bundle :: "primitives \<Rightarrow> signed_bundle \<Rightarrow> bytes" where
  "hash_bundle p b = blake3_hash p (bundle_signing_data (sb_bundle b))"

definition transcript_new ::
  "primitives \<Rightarrow> signing_public_key \<Rightarrow> signing_public_key \<Rightarrow> signed_bundle \<Rightarrow> bytes \<Rightarrow> bytes \<Rightarrow> bytes \<Rightarrow> bytes
     \<Rightarrow> session_flags \<Rightarrow> transcript" where
  "transcript_new p alice bob bundle dh1 dh2 dh3 pq_ss flags =
     \<lparr>alice_identity_hash = hash_identity p alice, bob_identity_hash = hash_identity p bob,
      bundle_hash = hash_bundle p bundle, tr_dh1 = dh1, tr_dh2 = dh2, tr_dh3 = dh3, tr_pq_ss = pq_ss, tr_flags = flags\<rparr>"

definition transcript_to_bytes :: "transcript \<Rightarrow> bytes" where
  "transcript_to_bytes t = alice_identity_hash t @ bob_identity_hash t @ bundle_hash t
     @ tr_dh1 t @ tr_dh2 t @ tr_dh3 t @ tr_pq_ss t
     @ [PROTOCOL_VERSION, CIPHER_SUITE, flags_to_transcript_bytes (tr_flags t) ! 0]"

definition derive_shared_secret :: "primitives \<Rightarrow> transcript \<Rightarrow> bytes" where
  "derive_shared_secret p t = blake3_derive_key p SESSION_V2_CONTEXT (transcript_to_bytes t)"

record session_keys =
  sk_root_key :: bytes
  send_chain_key :: bytes
  recv_chain_key :: bytes

definition session_keys_derive :: "primitives \<Rightarrow> bytes \<Rightarrow> session_keys" where
  "session_keys_derive p shared_secret =
     \<lparr>sk_root_key = blake3_derive_key p ROOT_KEY_CONTEXT shared_secret,
      send_chain_key = blake3_derive_key p SEND_CHAIN_CONTEXT shared_secret,
      recv_chain_key = blake3_derive_key p RECV_CHAIN_CONTEXT shared_secret\<rparr>"

definition swap_directions :: "session_keys \<Rightarrow> session_keys" where
  "swap_directions k = \<lparr>sk_root_key = sk_root_key k, send_chain_key = recv_chain_key k, recv_chain_key = send_chain_key k\<rparr>"

section \<open>The two sides\<close>

record initial_message =
  im_ephemeral_public :: bytes
  im_pq_ciphertext :: bytes

record initiator_result =
  ir_session_keys :: session_keys
  ir_initial_message :: initial_message

definition initial_message_to_bytes :: "initial_message \<Rightarrow> bytes" where
  "initial_message_to_bytes m = im_ephemeral_public m @ im_pq_ciphertext m"

definition initial_message_from_bytes :: "bytes \<Rightarrow> initial_message result" where
  "initial_message_from_bytes bs =
     (if length bs \<noteq> 56 + 1039 then Inl MalformedMessage
      else Inr \<lparr>im_ephemeral_public = take 56 bs, im_pq_ciphertext = drop 56 bs\<rparr>)"

definition keypair_x448_dh :: "primitives \<Rightarrow> kem_keypair \<Rightarrow> bytes \<Rightarrow> bytes result" where
  "keypair_x448_dh p kp their_public = x448_diffie_hellman p (x448_secret kp) their_public"

definition keypair_sntrup_decapsulate :: "primitives \<Rightarrow> kem_keypair \<Rightarrow> bytes \<Rightarrow> bytes outcome" where
  "keypair_sntrup_decapsulate p kp ct = or_panic (sntrup_decapsulate p (sntrup_secret kp) ct)"

definition pk_sntrup_encapsulate ::
  "primitives \<Rightarrow> (nat \<Rightarrow> int list option) \<Rightarrow> kem_public_key \<Rightarrow> (bytes \<times> bytes) outcome" where
  "pk_sntrup_encapsulate p draws pk = sntrup_encapsulate p draws (pk_sntrup pk)"

text \<open>The initiator's randomness: the ephemeral key pair's and the draws of the encapsulation.\<close>

record initiator_coins =
  ic_x448 :: "bytes option"
  ic_sntrup :: "bytes outcome"
  ic_draws :: "nat \<Rightarrow> int list option"

definition initiator_establish ::
  "primitives \<Rightarrow> sig_suite \<Rightarrow> initiator_coins \<Rightarrow> identity_keypair \<Rightarrow> signed_bundle \<Rightarrow> u64 \<Rightarrow> session_flags
     \<Rightarrow> initiator_result outcome" where
  "initiator_establish p g coins our_identity their_bundle current_time flags =
     bind_out (of_result (bundle_verify p g their_bundle)) (\<lambda>_.
     bind_out (of_result (validate_timestamps current_time their_bundle)) (\<lambda>_.
     bind_out (kem_generate p (ic_x448 coins) (ic_sntrup coins)) (\<lambda>ephemeral.
     let otk = pb_one_time_key (sb_bundle their_bundle); ik = pb_identity_kem (sb_bundle their_bundle) in
     bind_out (of_result (keypair_x448_dh p (id_kem our_identity) (pk_x448 otk))) (\<lambda>dh1.
     bind_out (of_result (keypair_x448_dh p ephemeral (pk_x448 ik))) (\<lambda>dh2.
     bind_out (of_result (keypair_x448_dh p ephemeral (pk_x448 otk))) (\<lambda>dh3.
     bind_out (pk_sntrup_encapsulate p (ic_draws coins) otk) (\<lambda>(pq_ss, pq_ct).
     let t = transcript_new p (skp_public (id_signing our_identity)) (pb_identity_signing (sb_bundle their_bundle))
               their_bundle dh1 dh2 dh3 pq_ss flags;
         shared_secret = derive_shared_secret p t in
     Done \<lparr>ir_session_keys = session_keys_derive p shared_secret,
       ir_initial_message = \<lparr>im_ephemeral_public = pk_x448 (kp_public ephemeral), im_pq_ciphertext = pq_ct\<rparr>\<rparr>)))))))"

definition responder_establish ::
  "primitives \<Rightarrow> identity_keypair \<Rightarrow> kem_keypair \<Rightarrow> signing_public_key \<Rightarrow> bytes \<Rightarrow> signed_bundle \<Rightarrow> initial_message
     \<Rightarrow> session_flags \<Rightarrow> session_keys outcome" where
  "responder_establish p our_identity our_otk their_signing their_kem_x448 our_bundle msg flags =
     bind_out (of_result (x448_public_from_bytes (im_ephemeral_public msg))) (\<lambda>their_ephemeral.
     bind_out (of_result (sntrup_ct_from_bytes (im_pq_ciphertext msg))) (\<lambda>pq_ct.
     bind_out (of_result (keypair_x448_dh p our_otk their_kem_x448)) (\<lambda>dh1.
     bind_out (of_result (keypair_x448_dh p (id_kem our_identity) their_ephemeral)) (\<lambda>dh2.
     bind_out (of_result (keypair_x448_dh p our_otk their_ephemeral)) (\<lambda>dh3.
     bind_out (keypair_sntrup_decapsulate p our_otk pq_ct) (\<lambda>pq_ss.
     let t = transcript_new p their_signing (skp_public (id_signing our_identity)) our_bundle dh1 dh2 dh3 pq_ss flags;
         shared_secret = derive_shared_secret p t in
     Done (swap_directions (session_keys_derive p shared_secret))))))))"

section \<open>Lemmas\<close>

definition initial_message_wf :: "initial_message \<Rightarrow> bool" where
  "initial_message_wf m \<longleftrightarrow> length (im_ephemeral_public m) = 56 \<and> length (im_pq_ciphertext m) = 1039"

interpretation initial_message: strict_codec initial_message_to_bytes initial_message_from_bytes initial_message_wf
  by unfold_locales
    (auto simp: initial_message_to_bytes_def initial_message_from_bytes_def initial_message_wf_def split: if_splits)

lemma kem_generate_clamped:
  assumes "kem_generate p (Some r) sg = Done kp" and "length r = 56"
  shows "x448_clamped (x448_secret kp)" "pk_x448 (kp_public kp) = x448_public_key p (x448_secret kp)"
  using assms by (auto simp: kem_generate_def kem_generate_inner_def x448_generate_def bind_out_eq_Done
      derive_public_def clamped_x448_clamp)

text \<open>The keys the two sides are given belong together: Alice and Bob hold well-formed KEM identities,
  Bob's bundle carries his public keys and that of the one-time pair he uses.\<close>

definition x3dh_parties ::
  "primitives \<Rightarrow> identity_keypair \<Rightarrow> identity_keypair \<Rightarrow> kem_keypair \<Rightarrow> signed_bundle \<Rightarrow> bool" where
  "x3dh_parties p alice bob otk b \<longleftrightarrow>
     prims_ok p \<and> keypair_wf p (id_kem alice) \<and> keypair_wf p (id_kem bob)
   \<and> kem_pair p otk (pb_one_time_key (sb_bundle b)) \<and> pb_identity_kem (sb_bundle b) = kp_public (id_kem bob)
   \<and> pb_identity_signing (sb_bundle b) = skp_public (id_signing bob)"

definition initiator_coins_ok :: "initiator_coins \<Rightarrow> bool" where
  "initiator_coins_ok c \<longleftrightarrow> (\<forall>r. ic_x448 c = Some r \<longrightarrow> length r = 56) \<and> draws_ok (ic_draws c)"

text \<open>What a successful initiator computed, with each exchange as the responder computes it.\<close>

lemma initiator_Done:
  assumes "x3dh_parties p alice bob otk b" and "initiator_coins_ok coins"
    and "initiator_establish p g coins alice b now flags = Done res"
  obtains dh1 dh2 dh3 ss where
    "bundle_verify p g b = Inr ()" "validate_timestamps now b = Inr ()"
    "keypair_x448_dh p otk (pk_x448 (kp_public (id_kem alice))) = Inr dh1"
    "keypair_x448_dh p (id_kem bob) (im_ephemeral_public (ir_initial_message res)) = Inr dh2"
    "keypair_x448_dh p otk (im_ephemeral_public (ir_initial_message res)) = Inr dh3"
    "keypair_sntrup_decapsulate p otk (im_pq_ciphertext (ir_initial_message res)) = Done ss"
    "initial_message_wf (ir_initial_message res)"
    "ir_session_keys res = session_keys_derive p (derive_shared_secret p
       (transcript_new p (skp_public (id_signing alice)) (skp_public (id_signing bob)) b dh1 dh2 dh3 ss flags))"
proof -
  have p: "prims_ok p" and wa: "keypair_wf p (id_kem alice)" and wb: "keypair_wf p (id_kem bob)"
    and wo: "kem_pair p otk (pb_one_time_key (sb_bundle b))"
    and ik: "pb_identity_kem (sb_bundle b) = kp_public (id_kem bob)"
    and isig: "pb_identity_signing (sb_bundle b) = skp_public (id_signing bob)"
    using assms(1) by (simp_all add: x3dh_parties_def)
  from assms(3) obtain eph dh1 dh2 dh3 ss ct where c:
    "bundle_verify p g b = Inr ()" "validate_timestamps now b = Inr ()"
    "kem_generate p (ic_x448 coins) (ic_sntrup coins) = Done eph"
    "keypair_x448_dh p (id_kem alice) (pk_x448 (pb_one_time_key (sb_bundle b))) = Inr dh1"
    "keypair_x448_dh p eph (pk_x448 (kp_public (id_kem bob))) = Inr dh2"
    "keypair_x448_dh p eph (pk_x448 (pb_one_time_key (sb_bundle b))) = Inr dh3"
    "pk_sntrup_encapsulate p (ic_draws coins) (pb_one_time_key (sb_bundle b)) = Done (ss, ct)"
    "res = \<lparr>ir_session_keys = session_keys_derive p (derive_shared_secret p
       (transcript_new p (skp_public (id_signing alice)) (skp_public (id_signing bob)) b dh1 dh2 dh3 ss flags)),
      ir_initial_message = \<lparr>im_ephemeral_public = pk_x448 (kp_public eph), im_pq_ciphertext = ct\<rparr>\<rparr>"
    by (auto simp: initiator_establish_def bind_out_eq_Done Let_def ik isig)
  obtain r where "ic_x448 coins = Some r"
    using c(3) by (cases "ic_x448 coins") (auto simp: kem_generate_def kem_generate_inner_def x448_generate_def)
  with c(3) assms(2) have eph: "x448_clamped (x448_secret eph)" "pk_x448 (kp_public eph) = x448_public_key p (x448_secret eph)"
    using kem_generate_clamped [of p r "ic_sntrup coins" eph] by (simp_all add: initiator_coins_ok_def)
  have pub: "x448_clamped (x448_secret kp)" "pk_x448 (kp_public kp) = x448_public_key p (x448_secret kp)"
    if "keypair_wf p kp" for kp
    using that by (auto simp: keypair_wf_def derive_public_def)
  have wo': "keypair_wf p otk" "kp_public otk = pb_one_time_key (sb_bundle b)"
    "sntrup_pair p (sntrup_secret otk) (pk_sntrup (pb_one_time_key (sb_bundle b)))"
    using wo by (simp_all add: kem_pair_def)
  have dh: "keypair_x448_dh p k1 (pk_x448 (kp_public k2)) = keypair_x448_dh p k2 (pk_x448 (kp_public k1))"
    if "x448_clamped (x448_secret k1)" "x448_clamped (x448_secret k2)"
      "pk_x448 (kp_public k1) = x448_public_key p (x448_secret k1)"
      "pk_x448 (kp_public k2) = x448_public_key p (x448_secret k2)" for k1 k2
    using that x448_agreement [OF p] by (simp add: keypair_x448_dh_def)
  have dec: "keypair_sntrup_decapsulate p otk ct = Done ss"
    using sntrup.correct [OF wo'(3), of "ic_draws coins" ss ct] assms(2) c(7)
    by (simp add: keypair_sntrup_decapsulate_def pk_sntrup_encapsulate_def initiator_coins_ok_def)
  have "initial_message_wf \<lparr>im_ephemeral_public = pk_x448 (kp_public eph), im_pq_ciphertext = ct\<rparr>"
    using eph p c(7) assms(2) length_sntrup_ct [of "ic_draws coins" p]
    by (simp add: initial_message_wf_def pk_sntrup_encapsulate_def initiator_coins_ok_def sntrup_sizes)
  with c dec dh [of "id_kem alice" otk] dh [of eph "id_kem bob"] dh [of eph otk] eph pub [OF wa] pub [OF wb] pub [OF wo'(1)] wo'(2)
  show thesis by (intro that [of dh1 dh2 dh3 ss]) simp_all
qed

lemma responder_Done:
  assumes "responder_establish p bob otk alice kx b msg f = Done k"
  obtains dh1 dh2 dh3 ss where
    "keypair_x448_dh p otk kx = Inr dh1" "keypair_x448_dh p (id_kem bob) (im_ephemeral_public msg) = Inr dh2"
    "keypair_x448_dh p otk (im_ephemeral_public msg) = Inr dh3"
    "keypair_sntrup_decapsulate p otk (im_pq_ciphertext msg) = Done ss"
    "k = swap_directions (session_keys_derive p (derive_shared_secret p
       (transcript_new p alice (skp_public (id_signing bob)) b dh1 dh2 dh3 ss f)))"
  using assms by (auto simp: responder_establish_def bind_out_eq_Done Let_def x448_public_from_bytes_def
      sntrup_ct_from_bytes_def split: if_splits intro: that)

lemma responder_agrees:
  assumes "x3dh_parties p alice bob otk b" and "initiator_coins_ok coins"
    and "initiator_establish p g coins alice b now flags = Done res"
  shows "responder_establish p bob otk (skp_public (id_signing alice)) (pk_x448 (kp_public (id_kem alice))) b
      (ir_initial_message res) flags = Done (swap_directions (ir_session_keys res))
    \<and> initial_message_wf (ir_initial_message res)"
proof -
  from initiator_Done [OF assms] obtain dh1 dh2 dh3 ss where d:
    "keypair_x448_dh p otk (pk_x448 (kp_public (id_kem alice))) = Inr dh1"
    "keypair_x448_dh p (id_kem bob) (im_ephemeral_public (ir_initial_message res)) = Inr dh2"
    "keypair_x448_dh p otk (im_ephemeral_public (ir_initial_message res)) = Inr dh3"
    "keypair_sntrup_decapsulate p otk (im_pq_ciphertext (ir_initial_message res)) = Done ss"
    "initial_message_wf (ir_initial_message res)"
    "ir_session_keys res = session_keys_derive p (derive_shared_secret p
       (transcript_new p (skp_public (id_signing alice)) (skp_public (id_signing bob)) b dh1 dh2 dh3 ss flags))" .
  then show ?thesis
    by (simp add: responder_establish_def x448_public_from_bytes_def sntrup_ct_from_bytes_def initial_message_wf_def
        sntrup_sizes Let_def)
qed

text \<open>C5. X3DH-PQ agrees: if the initiator establishes a session from the responder's signed bundle, the
  responder who holds the bundle's keys establishes it from the initial message, also after the
  message's 1095-byte encoding, without error, with the same root key and the two chain keys in
  opposite roles.\<close>

theorem x3dh_agreement:
  assumes "x3dh_parties p alice bob otk b" and "initiator_coins_ok coins"
    and "initiator_establish p g coins alice b now flags = Done res"
  shows "responder_establish p bob otk (skp_public (id_signing alice)) (pk_x448 (kp_public (id_kem alice))) b
      (ir_initial_message res) flags = Done (swap_directions (ir_session_keys res))
    \<and> initial_message_from_bytes (initial_message_to_bytes (ir_initial_message res)) = Inr (ir_initial_message res)"
  using responder_agrees [OF assms] initial_message.decodes by blast

lemma flags_bytes_inject:
  "flags_to_transcript_bytes f ! 0 = flags_to_transcript_bytes f' ! 0 \<longleftrightarrow> f = f'"
  by (cases f; cases f') (simp add: flags_to_transcript_bytes_def)

lemma transcript_to_bytes_new:
  "transcript_to_bytes (transcript_new p a b c d1 d2 d3 s f) = hash_identity p a @ hash_identity p b @ hash_bundle p c
     @ d1 @ d2 @ d3 @ s @ [PROTOCOL_VERSION, CIPHER_SUITE, flags_to_transcript_bytes f ! 0]"
  by (simp add: transcript_to_bytes_def transcript_new_def)

lemma length_hashes: "prims_ok p \<Longrightarrow> length (hash_identity p a) = 32" "prims_ok p \<Longrightarrow> length (hash_bundle p c) = 32"
  by (simp_all add: hash_identity_def hash_bundle_def)

lemma transcript_to_bytes_inject:
  assumes "prims_ok p" and "length d1 = 56" "length d2 = 56" "length d3 = 56" "length s = 32"
    and "length e1 = 56" "length e2 = 56" "length e3 = 56" "length s' = 32"
  shows "transcript_to_bytes (transcript_new p a b c d1 d2 d3 s f) = transcript_to_bytes (transcript_new p a' b' c' e1 e2 e3 s' f')
    \<longleftrightarrow> hash_identity p a = hash_identity p a' \<and> hash_identity p b = hash_identity p b' \<and> hash_bundle p c = hash_bundle p c'
      \<and> d1 = e1 \<and> d2 = e2 \<and> d3 = e3 \<and> s = s' \<and> f = f'"
  unfolding transcript_to_bytes_new
  by (simp only: append_eq_append_conv length_hashes assms simp_thms list.inject flags_bytes_inject)

definition digest_collision :: "primitives \<Rightarrow> bytes \<Rightarrow> bytes \<Rightarrow> bool" where
  "digest_collision p x y \<longleftrightarrow> x \<noteq> y \<and> blake3_hash p x = blake3_hash p y"

lemma length_keypair_dh: "prims_ok p \<Longrightarrow> keypair_x448_dh p kp q = Inr d \<Longrightarrow> length d = 56"
  by (simp add: keypair_x448_dh_def length_x448_dh)

lemma length_keypair_decapsulate:
  assumes "prims_ok p" "keypair_sntrup_decapsulate p kp ct = Done s"
  shows "length s = 32"
  using assms length_decapsulated [OF assms(1), of "sntrup_secret kp" ct]
  by (simp add: keypair_sntrup_decapsulate_def)

text \<open>C27. A session binds who talks to whom: two sessions that a responder establishes, in any roles and
  from any messages, have keys derived from 299-byte transcripts, and equal transcripts have the
  same flags and the same three exchanges and encapsulated secret, and the same two identities
  and the same bundle unless the hash collides.\<close>

theorem session_binds_transcript:
  assumes "prims_ok p"
    and "responder_establish p bob otk alice kx b msg f = Done k"
    and "responder_establish p bob' otk' alice' kx' b' msg' f' = Done k'"
    and "\<forall>pk \<in> {alice, alice', skp_public (id_signing bob), skp_public (id_signing bob')}. signing_pk_wf pk"
    and "bundle_wf (sb_bundle b)" and "bundle_wf (sb_bundle b')"
  shows "\<exists>u u'. k = swap_directions (session_keys_derive p (blake3_derive_key p SESSION_V2_CONTEXT u))
    \<and> k' = swap_directions (session_keys_derive p (blake3_derive_key p SESSION_V2_CONTEXT u'))
    \<and> length u = 299 \<and> length u' = 299
    \<and> (u = u' \<longrightarrow> f = f'
       \<and> keypair_x448_dh p otk kx = keypair_x448_dh p otk' kx'
       \<and> keypair_x448_dh p (id_kem bob) (im_ephemeral_public msg) = keypair_x448_dh p (id_kem bob') (im_ephemeral_public msg')
       \<and> keypair_x448_dh p otk (im_ephemeral_public msg) = keypair_x448_dh p otk' (im_ephemeral_public msg')
       \<and> keypair_sntrup_decapsulate p otk (im_pq_ciphertext msg) = keypair_sntrup_decapsulate p otk' (im_pq_ciphertext msg')
       \<and> (alice = alice' \<or> digest_collision p (signing_pk_to_bytes alice) (signing_pk_to_bytes alice'))
       \<and> (skp_public (id_signing bob) = skp_public (id_signing bob') \<or> digest_collision p
            (signing_pk_to_bytes (skp_public (id_signing bob))) (signing_pk_to_bytes (skp_public (id_signing bob'))))
       \<and> (sb_bundle b = sb_bundle b' \<or> digest_collision p
            (bundle_signing_data (sb_bundle b)) (bundle_signing_data (sb_bundle b'))))"
proof -
  from responder_Done [OF assms(2)] obtain d1 d2 d3 s where l:
    "keypair_x448_dh p otk kx = Inr d1" "keypair_x448_dh p (id_kem bob) (im_ephemeral_public msg) = Inr d2"
    "keypair_x448_dh p otk (im_ephemeral_public msg) = Inr d3"
    "keypair_sntrup_decapsulate p otk (im_pq_ciphertext msg) = Done s"
    "k = swap_directions (session_keys_derive p (derive_shared_secret p
       (transcript_new p alice (skp_public (id_signing bob)) b d1 d2 d3 s f)))" .
  from responder_Done [OF assms(3)] obtain e1 e2 e3 s' where r:
    "keypair_x448_dh p otk' kx' = Inr e1" "keypair_x448_dh p (id_kem bob') (im_ephemeral_public msg') = Inr e2"
    "keypair_x448_dh p otk' (im_ephemeral_public msg') = Inr e3"
    "keypair_sntrup_decapsulate p otk' (im_pq_ciphertext msg') = Done s'"
    "k' = swap_directions (session_keys_derive p (derive_shared_secret p
       (transcript_new p alice' (skp_public (id_signing bob')) b' e1 e2 e3 s' f')))" .
  note dh = l(1-3) [THEN length_keypair_dh [OF assms(1)]] r(1-3) [THEN length_keypair_dh [OF assms(1)]]
  note ss = length_keypair_decapsulate [OF assms(1) l(4)] length_keypair_decapsulate [OF assms(1) r(4)]
  define u where "u = transcript_to_bytes (transcript_new p alice (skp_public (id_signing bob)) b d1 d2 d3 s f)"
  define u' where "u' = transcript_to_bytes (transcript_new p alice' (skp_public (id_signing bob')) b' e1 e2 e3 s' f')"
  have len: "length u = 299" "length u' = 299"
    using dh ss length_hashes [OF assms(1)] by (simp_all add: u_def u'_def transcript_to_bytes_new)
  from transcript_to_bytes_inject [OF assms(1) dh(1-3) ss(1) dh(4-6) ss(2), of alice "skp_public (id_signing bob)" b f
      alice' "skp_public (id_signing bob')" b' f'] assms(4-6) have
    "u = u' \<Longrightarrow> f = f' \<and> d1 = e1 \<and> d2 = e2 \<and> d3 = e3 \<and> s = s'
      \<and> (alice = alice' \<or> digest_collision p (signing_pk_to_bytes alice) (signing_pk_to_bytes alice'))
      \<and> (skp_public (id_signing bob) = skp_public (id_signing bob') \<or> digest_collision p
            (signing_pk_to_bytes (skp_public (id_signing bob))) (signing_pk_to_bytes (skp_public (id_signing bob'))))
      \<and> (sb_bundle b = sb_bundle b' \<or> digest_collision p
            (bundle_signing_data (sb_bundle b)) (bundle_signing_data (sb_bundle b')))"
    by (simp add: u_def u'_def digest_collision_def hash_identity_def hash_bundle_def signing_pk_inject
        bundle_data_inject)
  then have eq: "u = u' \<longrightarrow> f = f'
       \<and> keypair_x448_dh p otk kx = keypair_x448_dh p otk' kx'
       \<and> keypair_x448_dh p (id_kem bob) (im_ephemeral_public msg) = keypair_x448_dh p (id_kem bob') (im_ephemeral_public msg')
       \<and> keypair_x448_dh p otk (im_ephemeral_public msg) = keypair_x448_dh p otk' (im_ephemeral_public msg')
       \<and> keypair_sntrup_decapsulate p otk (im_pq_ciphertext msg) = keypair_sntrup_decapsulate p otk' (im_pq_ciphertext msg')
       \<and> (alice = alice' \<or> digest_collision p (signing_pk_to_bytes alice) (signing_pk_to_bytes alice'))
       \<and> (skp_public (id_signing bob) = skp_public (id_signing bob') \<or> digest_collision p
            (signing_pk_to_bytes (skp_public (id_signing bob))) (signing_pk_to_bytes (skp_public (id_signing bob'))))
       \<and> (sb_bundle b = sb_bundle b' \<or> digest_collision p
            (bundle_signing_data (sb_bundle b)) (bundle_signing_data (sb_bundle b')))"
    by (simp only: l(1-4) r(1-4) sum.inject outcome.inject) blast
  have keys: "k = swap_directions (session_keys_derive p (blake3_derive_key p SESSION_V2_CONTEXT u))"
    "k' = swap_directions (session_keys_derive p (blake3_derive_key p SESSION_V2_CONTEXT u'))"
    unfolding l(5) r(5) by (simp_all only: u_def u'_def derive_shared_secret_def)
  from keys len eq show ?thesis by blast
qed

lemma toy_encapsulates_sntrup:
  "\<exists>ss ct. sntrup_encapsulate toy_prims (\<lambda>_. Some short_poly) (pk_sntrup (kp_public toy_kem_keypair)) = Done (ss, ct)"
proof -
  obtain ss e where "kem_encapsulate toy_prims toy_coins (kp_public toy_kem_keypair) = Done (ss, e)"
    using toy_encapsulates by blast
  then show ?thesis
    by (auto simp: kem_encapsulate_def toy_coins_def x448_generate_def bind_out_eq_Done Let_def)
qed

definition toy_initiator :: initiator_coins where
  "toy_initiator = \<lparr>ic_x448 = Some (replicate 56 9), ic_sntrup = Done toy_sk, ic_draws = \<lambda>_. Some short_poly\<rparr>"

definition toy_bundle :: prekey_bundle where
  "toy_bundle = prekey_bundle_new (skp_public toy_signing) (kp_public toy_kem_keypair) (kp_public toy_kem_keypair) 1 0 9"

lemma toy_establishes:
  assumes "bundle_verify toy_prims toy_suite sb = Inr ()" and "sb_bundle sb = toy_bundle"
  shows "\<exists>res. initiator_establish toy_prims toy_suite toy_initiator (identity_of toy_signing toy_kem_keypair)
    sb 5 flags = Done res"
proof -
  have k: "kem_generate toy_prims (Some (replicate 56 9)) (Done toy_sk) = Done toy_kem_keypair"
    by (simp add: kem_generate_def kem_generate_inner_def x448_generate_def toy_kem_keypair_def)
  have v: "validate_timestamps 5 sb = Inr ()"
    using assms(2) by (simp add: validate_timestamps_def toy_bundle_def prekey_bundle_new_def)
  obtain ss ct where "sntrup_encapsulate toy_prims (\<lambda>_. Some short_poly) (pk_sntrup (kp_public toy_kem_keypair)) = Done (ss, ct)"
    using toy_encapsulates_sntrup by blast
  then show ?thesis
    using assms k v by (simp add: initiator_establish_def toy_initiator_def toy_bundle_def prekey_bundle_new_def
        keypair_x448_dh_def toy_dh pk_sntrup_encapsulate_def Let_def)
qed

lemma toy_session:
  obtains sb res where "sb_bundle sb = toy_bundle"
    "initiator_establish toy_prims toy_suite toy_initiator (identity_of toy_signing toy_kem_keypair)
      sb 5 \<lparr>li_capable = True\<rparr> = Done res"
    "x3dh_parties toy_prims (identity_of toy_signing toy_kem_keypair)
      (identity_of toy_signing toy_kem_keypair) toy_kem_keypair sb"
    "initiator_coins_ok toy_initiator"
proof -
  obtain s where "hybrid_sign toy_prims toy_suite (Some (replicate 114 5), []) toy_signing (bundle_signing_data toy_bundle) = Inr s"
    using toy_signs by (force simp: hybrid_sign_def)
  then obtain sb where sb: "bundle_sign toy_prims toy_suite (Some (replicate 114 5), []) toy_signing toy_bundle = Inr sb"
    by (simp add: bundle_sign_def)
  have v: "bundle_verify toy_prims toy_suite sb = Inr () \<and> sb_bundle sb = toy_bundle"
    by (rule bundle_sign_verify [OF toy_signing_wf _ sb]) (simp add: toy_bundle_def prekey_bundle_new_def)
  obtain res where res: "initiator_establish toy_prims toy_suite toy_initiator (identity_of toy_signing toy_kem_keypair)
      sb 5 \<lparr>li_capable = True\<rparr> = Done res"
    using toy_establishes v by blast
  have parties: "x3dh_parties toy_prims (identity_of toy_signing toy_kem_keypair)
      (identity_of toy_signing toy_kem_keypair) toy_kem_keypair sb"
    using v toy_kem_pair toy_prims_ok
    by (simp add: x3dh_parties_def identity_of_def toy_bundle_def prekey_bundle_new_def kem_pair_def)
  have "initiator_coins_ok toy_initiator"
    using toy_coins_ok by (simp add: initiator_coins_ok_def toy_initiator_def kem_coins_ok_def toy_coins_def)
  with v res parties show thesis using that by blast
qed

theorem x3dh_agreement_witness:
  "\<exists>sb res. initiator_establish toy_prims toy_suite toy_initiator (identity_of toy_signing toy_kem_keypair)
      sb 5 \<lparr>li_capable = True\<rparr> = Done res
    \<and> responder_establish toy_prims (identity_of toy_signing toy_kem_keypair) toy_kem_keypair (skp_public toy_signing)
        (pk_x448 (kp_public toy_kem_keypair)) sb (ir_initial_message res) \<lparr>li_capable = True\<rparr>
      = Done (swap_directions (ir_session_keys res))"
proof -
  obtain sb res where r: "initiator_establish toy_prims toy_suite toy_initiator (identity_of toy_signing toy_kem_keypair)
      sb 5 \<lparr>li_capable = True\<rparr> = Done res"
    "x3dh_parties toy_prims (identity_of toy_signing toy_kem_keypair)
      (identity_of toy_signing toy_kem_keypair) toy_kem_keypair sb" "initiator_coins_ok toy_initiator"
    using toy_session by blast
  from x3dh_agreement [OF r(2,3,1)] r(1) show ?thesis by (auto simp: identity_of_def)
qed

theorem session_binds_transcript_witness:
  "\<exists>b msg k u. responder_establish toy_prims (identity_of toy_signing toy_kem_keypair) toy_kem_keypair (skp_public toy_signing)
        (pk_x448 (kp_public toy_kem_keypair)) b msg \<lparr>li_capable = True\<rparr> = Done k
    \<and> k = swap_directions (session_keys_derive toy_prims (blake3_derive_key toy_prims SESSION_V2_CONTEXT u)) \<and> length u = 299"
proof -
  obtain sb res where i: "sb_bundle sb = toy_bundle"
    "initiator_establish toy_prims toy_suite toy_initiator (identity_of toy_signing toy_kem_keypair)
      sb 5 \<lparr>li_capable = True\<rparr> = Done res"
    "x3dh_parties toy_prims (identity_of toy_signing toy_kem_keypair)
      (identity_of toy_signing toy_kem_keypair) toy_kem_keypair sb" "initiator_coins_ok toy_initiator"
    using toy_session by blast
  from responder_agrees [OF i(3,4,2)] obtain k where r: "sb_bundle sb = toy_bundle"
    "responder_establish toy_prims (identity_of toy_signing toy_kem_keypair) toy_kem_keypair (skp_public toy_signing)
      (pk_x448 (kp_public toy_kem_keypair)) sb (ir_initial_message res) \<lparr>li_capable = True\<rparr> = Done k"
    using i(1) by (auto simp: identity_of_def)
  have pk: "signing_pk_wf (skp_public toy_signing)"
    by (simp add: signing_pk_wf_def toy_signing_def signing_from_components_def ed448_verifying_key_def toy_suite_simps)
  have "kem_pk_wf (kp_public toy_kem_keypair)"
    using length_assembled_sk [OF toy_keypair toy_prims_ok] toy_prims_ok
    by (simp add: toy_kem_keypair_def kem_pk_wf_def derive_public_def sntrup_sizes kem_sizes)
  then have w: "bundle_wf (sb_bundle sb)"
    using r(1) pk by (simp add: bundle_wf_def toy_bundle_def prekey_bundle_new_def)
  have "\<forall>k \<in> {skp_public toy_signing, skp_public toy_signing, skp_public (id_signing (identity_of toy_signing toy_kem_keypair)),
      skp_public (id_signing (identity_of toy_signing toy_kem_keypair))}. signing_pk_wf k"
    using pk by (simp add: identity_of_def)
  from session_binds_transcript [OF toy_prims_ok r(2) r(2) this w w] r(2) show ?thesis by blast
qed

end
