(* ===== verification/Safety_Number.thy ===== *)
theory Safety_Number
  imports Identity "HOL-Library.List_Lexorder" "HOL-Library.Multiset"
begin

text \<open>
  Safety numbers (\<open>trelis-hybrid/src/safety_number.rs\<close>): the fingerprint of two identities, of two
  identities in a thread with synchronised history, and of two identities with their devices; its
  decimal display and its Base64-URL form. Digests are compared and sorted as byte slices, which is
  the lexicographic order of the library. Strings are their UTF-8 bytes.
\<close>

unbundle bit_operations_syntax

section \<open>Fingerprints\<close>

definition SAFETY_NUMBER_CONTEXT :: string where "SAFETY_NUMBER_CONTEXT = ''trelis-safety-number-v1''"
definition SAFETY_NUMBER_SYNC_CONTEXT :: string where "SAFETY_NUMBER_SYNC_CONTEXT = ''trelis-safety-number-sync-v1''"
definition SAFETY_NUMBER_DEVICE_SET_CONTEXT :: string where
  "SAFETY_NUMBER_DEVICE_SET_CONTEXT = ''trelis-safety-number-device-set-v1''"

record safety_number =
  fingerprint :: bytes

definition hash_identity_sn :: "primitives \<Rightarrow> identity_public_key \<Rightarrow> bytes" where
  "hash_identity_sn p key = b3hash p (signing_pk_to_bytes (ipk_signing key) @ kem_pk_to_bytes (ipk_kem key))"

definition ordered_pair :: "bytes \<Rightarrow> bytes \<Rightarrow> bytes" where
  "ordered_pair a b = (let (first, second) = if a < b then (a, b) else (b, a) in first @ second)"

definition safety_number_new :: "primitives \<Rightarrow> identity_public_key \<Rightarrow> identity_public_key \<Rightarrow> safety_number" where
  "safety_number_new p key_a key_b =
     (let input = ordered_pair (hash_identity_sn p key_a) (hash_identity_sn p key_b) in
      \<lparr>fingerprint = blake3_derive_key p SAFETY_NUMBER_CONTEXT input\<rparr>)"

definition new_with_history_sync ::
  "primitives \<Rightarrow> identity_public_key \<Rightarrow> identity_public_key \<Rightarrow> bytes \<Rightarrow> safety_number" where
  "new_with_history_sync p key_a key_b thread_id =
     (let input = ordered_pair (hash_identity_sn p key_a) (hash_identity_sn p key_b) @ thread_id in
      \<lparr>fingerprint = blake3_derive_key p SAFETY_NUMBER_SYNC_CONTEXT input\<rparr>)"

definition hash_identity_with_devices :: "primitives \<Rightarrow> identity_public_key \<Rightarrow> signing_public_key list \<Rightarrow> bytes" where
  "hash_identity_with_devices p key devices =
     (let device_fingerprints = sort (map (\<lambda>pk. b3hash p (signing_pk_to_bytes pk)) devices);
          device_set_hash = b3hash p (concat device_fingerprints);
          identity_digest = hash_identity_sn p key in
      b3hash p (identity_digest @ device_set_hash))"

definition new_with_device_set ::
  "primitives \<Rightarrow> identity_public_key \<Rightarrow> identity_public_key \<Rightarrow> signing_public_key list \<Rightarrow> signing_public_key list \<Rightarrow> safety_number" where
  "new_with_device_set p key_a key_b devices_a devices_b =
     (let input = ordered_pair (hash_identity_with_devices p key_a devices_a) (hash_identity_with_devices p key_b devices_b) in
      \<lparr>fingerprint = blake3_derive_key p SAFETY_NUMBER_DEVICE_SET_CONTEXT input\<rparr>)"

section \<open>Decimal display\<close>

text \<open>One pass of the division by ten; sixteen-bit arithmetic is checked.\<close>

fun div10 :: "u16 \<Rightarrow> u16 list \<Rightarrow> (u16 \<times> u16 list) option" where
  "div10 carry [] = Some (carry, [])"
| "div10 carry (byte # bytes) = do {
     scaled \<leftarrow> checked_mul carry 256;
     value \<leftarrow> checked_add scaled byte;
     (carry', bytes') \<leftarrow> div10 (value mod 10) bytes;
     Some (carry', value div 10 # bytes') }"

primrec decimal_digits :: "nat \<Rightarrow> u16 list \<Rightarrow> bytes option" where
  "decimal_digits 0 data = Some []"
| "decimal_digits (Suc n) data = do {
     (carry, data') \<leftarrow> div10 0 data;
     digit \<leftarrow> checked_add (ucast carry :: u8) 48;
     digits \<leftarrow> decimal_digits n data';
     Some (digit # digits) }"

text \<open>A digit string is ASCII, so \<open>from_utf8\<close> only has to accept that.\<close>

definition bytes_to_decimal :: "bytes \<Rightarrow> nat \<Rightarrow> bytes option" where
  "bytes_to_decimal bs num_digits = do {
     digits \<leftarrow> decimal_digits num_digits (map ucast bs);
     let digits = rev digits;
     Some (if list_all (\<lambda>b. b < 128) digits then digits else replicate num_digits 48) }"

definition safety_number_display :: "safety_number \<Rightarrow> bytes option" where
  "safety_number_display s = do {
     digits \<leftarrow> bytes_to_decimal (take 30 (fingerprint s)) 60;
     let grp = (\<lambda>i. sub_slice (5 * i) (5 * i + 5) digits);
     let row = (\<lambda>i. grp i @ [32] @ grp (i + 1) @ [32] @ grp (i + 2) @ [32] @ grp (i + 3) @ [32] @ grp (i + 4) @ [32] @ grp (i + 5));
     Some (row 0 @ [10] @ row 6) }"

section \<open>Base64-URL\<close>

definition ALPHABET :: bytes where
  "ALPHABET = map of_char ''ABCDEFGHIJKLMNOPQRSTUVWXYZabcdefghijklmnopqrstuvwxyz0123456789-_''"

definition alphabet_at :: "u32 \<Rightarrow> u8" where
  "alphabet_at n = ALPHABET ! unat (n AND 0x3F)"

fun base64_url_encode :: "bytes \<Rightarrow> bytes" where
  "base64_url_encode (a # b # c # rest) =
     (let n = push_bit 16 (ucast a :: u32) OR push_bit 8 (ucast b) OR ucast c in
      [alphabet_at (drop_bit 18 n), alphabet_at (drop_bit 12 n), alphabet_at (drop_bit 6 n), alphabet_at n] @ base64_url_encode rest)"
| "base64_url_encode [a] = (let n = push_bit 16 (ucast a :: u32) in [alphabet_at (drop_bit 18 n), alphabet_at (drop_bit 12 n)])"
| "base64_url_encode [a, b] =
     (let n = push_bit 16 (ucast a :: u32) OR push_bit 8 (ucast b) in
      [alphabet_at (drop_bit 18 n), alphabet_at (drop_bit 12 n), alphabet_at (drop_bit 6 n)])"
| "base64_url_encode [] = []"

definition char_to_value :: "u8 \<Rightarrow> u8 option" where
  "char_to_value c =
     (if 65 \<le> c \<and> c \<le> 90 then Some (c - 65)
      else if 97 \<le> c \<and> c \<le> 122 then Some (c - 97 + 26)
      else if 48 \<le> c \<and> c \<le> 57 then Some (c - 48 + 52)
      else if c = 45 then Some 62 else if c = 95 then Some 63 else None)"

fun base64_url_decode :: "bytes \<Rightarrow> bytes option" where
  "base64_url_decode (w # x # y # z # rest) = do {
     a \<leftarrow> char_to_value w; b \<leftarrow> char_to_value x; c \<leftarrow> char_to_value y; d \<leftarrow> char_to_value z;
     r \<leftarrow> base64_url_decode rest;
     Some ([push_bit 2 a OR drop_bit 4 b, push_bit 4 b OR drop_bit 2 c, push_bit 6 c OR d] @ r) }"
| "base64_url_decode [w, x] = do {
     a \<leftarrow> char_to_value w; b \<leftarrow> char_to_value x; Some [push_bit 2 a OR drop_bit 4 b] }"
| "base64_url_decode [w, x, y] = do {
     a \<leftarrow> char_to_value w; b \<leftarrow> char_to_value x; c \<leftarrow> char_to_value y;
     Some [push_bit 2 a OR drop_bit 4 b, push_bit 4 b OR drop_bit 2 c] }"
| "base64_url_decode [w] = Some []"
| "base64_url_decode [] = Some []"

definition to_qr_string :: "safety_number \<Rightarrow> bytes" where
  "to_qr_string s = base64_url_encode (1 # fingerprint s)"

definition from_qr_string :: "bytes \<Rightarrow> safety_number option" where
  "from_qr_string s = do {
     data \<leftarrow> base64_url_decode s;
     if length data \<noteq> 33 \<or> data ! 0 \<noteq> 1 then None else Some \<lparr>fingerprint = drop 1 data\<rparr> }"

section \<open>The decimal display is the number modulo ten to the sixtieth\<close>

primrec big_endian :: "u16 list \<Rightarrow> nat" where
  "big_endian [] = 0"
| "big_endian (b # bs) = unat b * 256 ^ length bs + big_endian bs"

abbreviation byte_sized :: "u16 list \<Rightarrow> bool" where
  "byte_sized data \<equiv> \<forall>b \<in> set data. b < 256"

lemma div10_step:
  assumes "carry < 10" "byte < (256 :: u16)"
  shows "\<exists>value. checked_mul carry 256 = Some (carry * 256) \<and> checked_add (carry * 256) byte = Some value
    \<and> unat value = unat carry * 256 + unat byte \<and> value mod 10 < 10 \<and> value div 10 < 256"
proof -
  have c: "unat carry < 10" "unat byte < 256" using assms by (simp_all add: word_less_nat_alt)
  then have m: "unat (carry * 256) = unat carry * 256" by (simp add: unat_mult_lem [THEN iffD1])
  then have "unat (carry * 256) + unat byte < 2 ^ 16" using c by simp
  then have v: "unat (carry * 256 + byte) = unat carry * 256 + unat byte" using m by (simp add: unat_add_lem [THEN iffD1])
  then have "unat (carry * 256 + byte) < 2560" using c by simp
  then have "(carry * 256 + byte) div 10 < 256" by (simp add: word_less_nat_alt unat_div_distrib)
  moreover have "(carry * 256 + byte) mod 10 < 10" by (simp add: word_less_nat_alt unat_mod_distrib)
  ultimately show ?thesis using c m v by (simp add: checked_mul_def checked_add_def)
qed

lemma div10_spec:
  assumes "carry < 10" "byte_sized data"
  shows "\<exists>carry' data'. div10 carry data = Some (carry', data') \<and> carry' < 10 \<and> byte_sized data' \<and> length data' = length data
    \<and> unat carry * 256 ^ length data + big_endian data = 10 * big_endian data' + unat carry'"
  using assms
proof (induction data arbitrary: carry)
  case (Cons b bs)
  obtain v where v: "checked_mul carry 256 = Some (carry * 256)" "checked_add (carry * 256) b = Some v"
    "unat v = unat carry * 256 + unat b" "v mod 10 < 10" "v div 10 < 256"
    using div10_step [of carry b] Cons.prems by auto
  obtain c' bs' where r: "div10 (v mod 10) bs = Some (c', bs')" "c' < 10" "byte_sized bs'" "length bs' = length bs"
    "unat (v mod 10) * 256 ^ length bs + big_endian bs = 10 * big_endian bs' + unat c'"
    using Cons.IH [of "v mod 10"] v(4) Cons.prems(2) by auto
  have "unat carry * 256 + unat b = 10 * unat (v div 10) + unat (v mod 10)"
    using v(3) by (simp add: unat_div_distrib unat_mod_distrib)
  then have "(unat carry * 256 + unat b) * 256 ^ length bs = 10 * (unat (v div 10) * 256 ^ length bs) + unat (v mod 10) * 256 ^ length bs"
    by (simp add: distrib_right)
  then have "unat carry * 256 ^ length (b # bs) + big_endian (b # bs) = 10 * big_endian (v div 10 # bs') + unat c'"
    using r(4,5) by (simp add: algebra_simps)
  moreover have "div10 carry (b # bs) = Some (c', v div 10 # bs')" using v(1,2) r(1) by simp
  ultimately show ?case using r v(5) by auto
qed simp

lemma decimal_digits_spec:
  assumes "byte_sized data"
  shows "decimal_digits n data = Some (map (\<lambda>i. of_nat (48 + big_endian data div 10 ^ i mod 10)) [0..<n])"
  using assms
proof (induction n arbitrary: data)
  case (Suc n)
  obtain c data' where d: "div10 0 data = Some (c, data')" "c < 10" "byte_sized data'" "big_endian data = 10 * big_endian data' + unat c"
    using div10_spec [of 0 data] Suc.prems by fastforce
  have c: "unat c < 10" using d(2) by (simp add: word_less_nat_alt)
  then have q: "big_endian data' = big_endian data div 10" "unat c = big_endian data mod 10" using d(4) by simp_all
  have u: "ucast c = (of_nat (unat c) :: u8)" by simp
  have "unat (of_nat (unat c) :: u8) = unat c" using c by (simp only: unat_of_nat take_bit_eq_mod) simp
  then have "checked_add (ucast c :: u8) 48 = Some (of_nat (48 + big_endian data mod 10))"
    using c unfolding u checked_add_def q(2) [symmetric] by simp
  moreover have "map (\<lambda>i. of_nat (48 + big_endian data div 10 ^ i mod 10) :: u8) [0..<Suc n]
      = of_nat (48 + big_endian data mod 10) # map (\<lambda>i. of_nat (48 + big_endian data' div 10 ^ i mod 10)) [0..<n]"
    by (simp add: upt_conv_Cons map_Suc_upt [symmetric] q(1) div_mult2_eq del: upt_Suc of_nat_add)
  ultimately show ?case using d(1) Suc.IH [OF d(3)] by simp
qed simp

section \<open>Base64-URL decodes what it encodes\<close>

lemma char_of_sextet_list: "list_all (\<lambda>k. char_to_value (ALPHABET ! k) = Some (of_nat k)) [0..<64]"
  by code_simp

lemma char_to_value_alphabet: "char_to_value (alphabet_at n) = Some (ucast (n AND 0x3F))"
proof -
  have "unat (n AND 0x3F) < 64" using word_and_le1 [of n "0x3F"] by (simp add: word_le_nat_alt)
  then have "char_to_value (ALPHABET ! unat (n AND 0x3F)) = Some (of_nat (unat (n AND 0x3F)))"
    using char_of_sextet_list by (simp add: list_all_iff)
  then show ?thesis by (simp add: alphabet_at_def)
qed

lemma octet_positions: "n < LENGTH(8) \<Longrightarrow> n = 0 \<or> n = 1 \<or> n = 2 \<or> n = 3 \<or> n = 4 \<or> n = 5 \<or> n = 6 \<or> n = (7 :: nat)"
  by simp linarith

lemma sextets_rejoin:
  fixes a b c :: u8
  shows "push_bit 2 (ucast (drop_bit 18 (push_bit 16 (ucast a :: u32) OR push_bit 8 (ucast b) OR ucast c) AND 0x3F))
      OR drop_bit 4 (ucast (drop_bit 12 (push_bit 16 (ucast a :: u32) OR push_bit 8 (ucast b) OR ucast c) AND 0x3F)) = a"
    "push_bit 4 (ucast (drop_bit 12 (push_bit 16 (ucast a :: u32) OR push_bit 8 (ucast b) OR ucast c) AND 0x3F))
      OR drop_bit 2 (ucast (drop_bit 6 (push_bit 16 (ucast a :: u32) OR push_bit 8 (ucast b) OR ucast c) AND 0x3F)) = b"
    "push_bit 6 (ucast (drop_bit 6 (push_bit 16 (ucast a :: u32) OR push_bit 8 (ucast b) OR ucast c) AND 0x3F))
      OR ucast ((push_bit 16 (ucast a :: u32) OR push_bit 8 (ucast b) OR ucast c) AND 0x3F) = c"
proof -
  have m: "(0x3F :: u32) = mask 6" by (simp add: mask_eq_exp_minus_1)
  show "push_bit 2 (ucast (drop_bit 18 (push_bit 16 (ucast a :: u32) OR push_bit 8 (ucast b) OR ucast c) AND 0x3F))
      OR drop_bit 4 (ucast (drop_bit 12 (push_bit 16 (ucast a :: u32) OR push_bit 8 (ucast b) OR ucast c) AND 0x3F)) = a"
    "push_bit 4 (ucast (drop_bit 12 (push_bit 16 (ucast a :: u32) OR push_bit 8 (ucast b) OR ucast c) AND 0x3F))
      OR drop_bit 2 (ucast (drop_bit 6 (push_bit 16 (ucast a :: u32) OR push_bit 8 (ucast b) OR ucast c) AND 0x3F)) = b"
    "push_bit 6 (ucast (drop_bit 6 (push_bit 16 (ucast a :: u32) OR push_bit 8 (ucast b) OR ucast c) AND 0x3F))
      OR ucast ((push_bit 16 (ucast a :: u32) OR push_bit 8 (ucast b) OR ucast c) AND 0x3F) = c"
    unfolding m by (intro bit_word_eqI; drule octet_positions; elim disjE; simp add: bit_simps; (auto dest: bit_imp_le_length)?)+
qed

lemma base64_round_trip: "base64_url_decode (base64_url_encode bs) = Some bs"
proof (induction bs rule: base64_url_encode.induct)
  case (1 a b c rest)
  then show ?case by (simp add: Let_def char_to_value_alphabet sextets_rejoin [simplified])
next
  case (2 a)
  then show ?case using sextets_rejoin(1) [of a 0 0, simplified] by (simp add: Let_def char_to_value_alphabet)
next
  case (3 a b)
  then show ?case using sextets_rejoin(1,2) [of a b 0, simplified] by (simp add: Let_def char_to_value_alphabet)
qed simp

lemma length_base64: "length bs mod 3 = 0 \<Longrightarrow> length (base64_url_encode bs) = 4 * (length bs div 3)"
  by (induction bs rule: base64_url_encode.induct) (auto simp: Let_def)

lemma base64_stray: "length s mod 4 = 0 \<Longrightarrow> base64_url_decode (s @ [x]) = base64_url_decode s"
proof (induction s rule: base64_url_decode.induct)
  case (1 w x' y z rest)
  then show ?case
    by (cases "char_to_value w"; cases "char_to_value x'"; cases "char_to_value y"; cases "char_to_value z") auto
qed auto

section \<open>Properties\<close>

text \<open>The machine-readable form of a safety number round-trips: its 44 characters are read back as the
  same fingerprint. They are not the only ones: a 45-th character, any at all, is ignored.\<close>

lemma qr_round_trip:
  assumes "length (fingerprint s) = 32"
  shows "from_qr_string (to_qr_string s) = Some s \<and> length (to_qr_string s) = 44
    \<and> (\<forall>stray. from_qr_string (to_qr_string s @ [stray]) = Some s)"
proof -
  have "length (1 # fingerprint s) = 33" using assms by simp
  then have "length (to_qr_string s) = 44" using length_base64 [of "1 # fingerprint s"] by (simp add: to_qr_string_def)
  moreover have "from_qr_string (to_qr_string s) = Some s"
    using assms by (simp add: from_qr_string_def to_qr_string_def base64_round_trip)
  ultimately show ?thesis using base64_stray [of "to_qr_string s"] by (simp add: from_qr_string_def)
qed

definition shown_number :: "safety_number \<Rightarrow> nat" where
  "shown_number s = big_endian (map ucast (take 30 (fingerprint s)))"

lemma equal_digits: "(\<forall>i < n. a div 10 ^ i mod 10 = b div 10 ^ i mod (10 :: nat)) \<longleftrightarrow> a mod 10 ^ n = b mod 10 ^ n"
proof (induction n)
  case (Suc n)
  have split: "x mod 10 ^ Suc n = 10 ^ n * (x div 10 ^ n mod 10) + x mod 10 ^ n" for x :: nat
    by (simp only: power_Suc2 mod_mult2_eq)
  have "a mod 10 ^ Suc n = b mod 10 ^ Suc n \<longleftrightarrow> a div 10 ^ n mod 10 = b div 10 ^ n mod 10 \<and> a mod 10 ^ n = b mod 10 ^ n"
  proof
    assume eq: "a mod 10 ^ Suc n = b mod 10 ^ Suc n"
    then have "a mod 10 ^ n = b mod 10 ^ n" by (metis mod_mod_cancel le_imp_power_dvd le_add2 plus_1_eq_Suc)
    moreover from this have "10 ^ n * (a div 10 ^ n mod 10) = 10 ^ n * (b div 10 ^ n mod 10)" using eq unfolding split by simp
    ultimately show "a div 10 ^ n mod 10 = b div 10 ^ n mod 10 \<and> a mod 10 ^ n = b mod 10 ^ n" by simp
  qed (simp only: split)
  then show ?case using Suc.IH by (auto simp: less_Suc_eq)
qed simp

lemma display_digits:
  defines "ds \<equiv> \<lambda>s. rev (map (\<lambda>i. of_nat (48 + shown_number s div 10 ^ i mod 10) :: u8) [0..<60])"
  shows "bytes_to_decimal (take 30 (fingerprint s)) 60 = Some (ds s)" "list_all (\<lambda>d. 48 \<le> d) (ds s)"
proof -
  have d: "unat (of_nat (48 + k mod 10) :: u8) = 48 + k mod 10" for k :: nat
  proof -
    have "48 + k mod 10 < 256" by simp
    then show ?thesis by (simp only: unat_of_nat take_bit_eq_mod) simp
  qed
  have b: "(48 :: u8) \<le> of_nat (48 + k mod 10) \<and> of_nat (48 + k mod 10) < (128 :: u8)" for k :: nat
  proof -
    have "48 + k mod 10 < 128" by simp
    then show ?thesis unfolding word_le_nat_alt word_less_nat_alt d by simp
  qed
  then have ascii: "list_all (\<lambda>d. d < 128) (ds s)" and "list_all (\<lambda>d. 48 \<le> d) (ds s)"
    unfolding ds_def by (simp_all add: list_all_iff del: of_nat_add)
  then show "list_all (\<lambda>d. 48 \<le> d) (ds s)" by simp
  have "ucast b < (256 :: u16)" for b :: u8
  proof -
    have "unat b < 2 ^ LENGTH(8)" by (rule unsigned_less)
    then show ?thesis by (simp add: word_less_nat_alt unsigned_ucast_eq take_bit_nat_eq_self)
  qed
  then have "byte_sized (map ucast (take 30 (fingerprint s)))" by simp
  from decimal_digits_spec [OF this] have "decimal_digits 60 (map ucast (take 30 (fingerprint s)))
      = Some (map (\<lambda>i. of_nat (48 + shown_number s div 10 ^ i mod 10)) [0..<60])" by (simp only: shown_number_def)
  then show "bytes_to_decimal (take 30 (fingerprint s)) 60 = Some (ds s)"
    using ascii unfolding bytes_to_decimal_def ds_def by simp
qed

text \<open>The display of a safety number never panics, and it shows the first thirty bytes of the
  fingerprint as a big-endian number modulo ten to the sixtieth: two safety numbers are shown by the
  same 71 characters exactly when these numbers are congruent. The last two bytes of a fingerprint
  are never shown.\<close>

lemma display_shows_number:
  "(\<exists>text. safety_number_display s = Some text \<and> length text = 71)
   \<and> (safety_number_display s = safety_number_display t \<longleftrightarrow> shown_number s mod 10 ^ 60 = shown_number t mod 10 ^ 60)"
proof -
  define ds where "ds = (\<lambda>s. rev (map (\<lambda>i. of_nat (48 + shown_number s div 10 ^ i mod 10) :: u8) [0..<60]))"
  define grp where "grp = (\<lambda>ds :: bytes. \<lambda>i. sub_slice (5 * i) (5 * i + 5) ds)"
  define lay where "lay = (\<lambda>ds :: bytes. let row = (\<lambda>i. grp ds i @ [32] @ grp ds (i + 1) @ [32] @ grp ds (i + 2) @ [32]
    @ grp ds (i + 3) @ [32] @ grp ds (i + 4) @ [32] @ grp ds (i + 5)) in row 0 @ [10] @ row 6)"
  have shown: "safety_number_display u = Some (lay (ds u))" for u
    unfolding safety_number_display_def display_digits(1) lay_def grp_def ds_def by (simp add: Let_def)
  have d: "length (ds u) = 60" "list_all (\<lambda>d. 48 \<le> d) (ds u)" for u
    using display_digits(2) [of u] unfolding ds_def by simp_all
  have "filter (\<lambda>c. 48 \<le> c) (lay xs) = xs" if "length xs = 60" "list_all (\<lambda>d. 48 \<le> d) xs" for xs :: bytes
  proof -
    have g: "filter (\<lambda>c. 48 \<le> c) (grp xs i) = grp xs i" for i
      using that(2) by (auto simp: grp_def sub_slice_def list_all_iff filter_id_conv dest: in_set_takeD in_set_dropD)
    have "concat (map (grp xs) [0..<12]) = xs"
    proof -
      have "concat (map (grp xs) [0..<k]) = take (5 * k) xs" for k
        by (induction k) (auto simp: grp_def sub_slice_def, metis add.commute take_add)
      with that(1) show ?thesis by simp
    qed
    moreover have "[0..<12 :: nat] = [0, 1, 2, 3, 4, 5, 6, 7, 8, 9, 10, 11]" by code_simp
    ultimately show ?thesis by (simp add: lay_def Let_def g del: add_2_eq_Suc add_2_eq_Suc')
  qed
  then have "lay (ds s) = lay (ds t) \<longleftrightarrow> ds s = ds t" using d by metis
  also have "\<dots> \<longleftrightarrow> (\<forall>i < 60. shown_number s div 10 ^ i mod 10 = shown_number t div 10 ^ i mod 10)"
  proof -
    have "(of_nat (48 + k mod 10) :: u8) = of_nat (48 + l mod 10) \<longleftrightarrow> k mod 10 = l mod 10" for k l :: nat
    proof -
      have "48 + k mod 10 < 256" "48 + l mod 10 < 256" by simp_all
      then show ?thesis by (simp only: word_unat_eq_iff unat_of_nat take_bit_eq_mod) simp
    qed
    then show ?thesis unfolding ds_def rev_is_rev_conv map_eq_conv by (simp add: Ball_def del: of_nat_add)
  qed
  finally have "lay (ds s) = lay (ds t) \<longleftrightarrow> shown_number s mod 10 ^ 60 = shown_number t mod 10 ^ 60" by (simp only: equal_digits)
  moreover have "length (lay (ds s)) = 71" using d(1) by (simp add: lay_def grp_def Let_def)
  ultimately show ?thesis by (simp add: shown)
qed

text \<open>What a fingerprint is computed from: the inputs of every hash on the way.\<close>

definition identity_input :: "identity_public_key \<Rightarrow> bytes" where
  "identity_input key = signing_pk_to_bytes (ipk_signing key) @ kem_pk_to_bytes (ipk_kem key)"

definition device_set_input :: "primitives \<Rightarrow> signing_public_key list \<Rightarrow> bytes" where
  "device_set_input p devices = concat (sort (map (\<lambda>pk. b3hash p (signing_pk_to_bytes pk)) devices))"

definition hashed_inputs :: "primitives \<Rightarrow> identity_public_key \<Rightarrow> signing_public_key list \<Rightarrow> bytes set" where
  "hashed_inputs p key devices = {identity_input key, device_set_input p devices,
     b3hash p (identity_input key) @ b3hash p (device_set_input p devices)} \<union> signing_pk_to_bytes ` set devices"

definition collide_between :: "primitives \<Rightarrow> bytes set \<Rightarrow> bytes set \<Rightarrow> bool" where
  "collide_between p xs ys \<longleftrightarrow> (\<exists>x \<in> xs. \<exists>y \<in> ys. x \<noteq> y \<and> b3hash p x = b3hash p y)"

definition identity_wf :: "identity_public_key \<Rightarrow> bool" where
  "identity_wf k \<longleftrightarrow> signing_pk_wf (ipk_signing k) \<and> kem_pk_wf (ipk_kem k)"

lemma identity_input_inject: "identity_wf a \<Longrightarrow> identity_wf b \<Longrightarrow> identity_input a = identity_input b \<longleftrightarrow> a = b"
proof -
  assume wf: "identity_wf a" "identity_wf b"
  then have "length (signing_pk_to_bytes (ipk_signing a)) = length (signing_pk_to_bytes (ipk_signing b))"
    by (simp add: identity_wf_def signing_pk_wf_def signing_pk_to_bytes_def)
  then show ?thesis
    using wf signing_pk_inject [of "ipk_signing a" "ipk_signing b"] kem_pk_inject [of "ipk_kem a" "ipk_kem b"]
    by (cases a; cases b) (auto simp: identity_wf_def identity_input_def)
qed

lemma no_collision: "\<not> collide_between p xs ys \<Longrightarrow> x \<in> xs \<Longrightarrow> y \<in> ys \<Longrightarrow> b3hash p x = b3hash p y \<Longrightarrow> x = y"
  by (auto simp: collide_between_def)

lemma ordered_pair_commute: "ordered_pair a b = ordered_pair b a"
  by (auto simp: ordered_pair_def)

lemma ordered_pair_inject:
  assumes "length a = 32" "length b = 32" "length c = 32" "length d = 32" "ordered_pair a b = ordered_pair c d"
  shows "a = c \<and> b = d \<or> a = d \<and> b = c"
  using assms by (auto simp: ordered_pair_def split: if_splits)

lemma device_set_hash_unfold:
  "hash_identity_with_devices p key devices = b3hash p (b3hash p (identity_input key) @ b3hash p (device_set_input p devices))"
  by (simp add: hash_identity_with_devices_def hash_identity_sn_def identity_input_def device_set_input_def Let_def)

lemma concat_blocks_inject:
  assumes "\<forall>x \<in> set xs. length x = 32" "\<forall>y \<in> set ys. length (y :: bytes) = 32" "concat xs = concat ys"
  shows "xs = ys"
  using assms
proof (induction xs arbitrary: ys)
  case Nil
  then show ?case by (cases ys) auto
next
  case (Cons x xs)
  obtain y ys' where ys: "ys = y # ys'" using Cons.prems by (cases ys) auto
  then have "x = y" "concat xs = concat ys'" using Cons.prems by (simp_all add: append_eq_append_conv)
  with Cons.IH [of ys'] Cons.prems ys show ?case by simp
qed

lemma image_mset_inject:
  assumes "image_mset h A = image_mset h B" and "\<forall>u \<in># A. \<forall>v \<in># B. h u = h v \<longrightarrow> u = v"
  shows "A = B"
  using assms
proof (induction A arbitrary: B)
  case (add x A)
  then have "image_mset h B = add_mset (h x) (image_mset h A)" by simp
  from msed_map_invR [OF this] obtain B1 y where y: "B = add_mset y B1" "h y = h x" "image_mset h B1 = image_mset h A" by blast
  then have "y = x" using add.prems(2) by simp
  moreover have "A = B1" using y(1) add.prems(2) by (intro add.IH) (simp_all add: y(3))
  ultimately show ?case using y(1) by simp
qed simp

lemma hashed_members:
  "identity_input key \<in> hashed_inputs p key devices" "device_set_input p devices \<in> hashed_inputs p key devices"
  "b3hash p (identity_input key) @ b3hash p (device_set_input p devices) \<in> hashed_inputs p key devices"
  "d \<in> set devices \<Longrightarrow> signing_pk_to_bytes d \<in> hashed_inputs p key devices"
  unfolding hashed_inputs_def by blast+

text \<open>Equal digests of users with devices come from the same identity and the same devices.\<close>

lemma device_digest_inject:
  assumes p: "prims_ok p" and wf: "identity_wf a" "identity_wf c" "\<forall>d \<in> set da \<union> set dc. signing_pk_wf d"
    and free: "\<not> collide_between p (hashed_inputs p a da) (hashed_inputs p c dc)"
    and eq: "hash_identity_with_devices p a da = hash_identity_with_devices p c dc"
  shows "a = c \<and> mset da = mset dc"
proof -
  note same = no_collision [OF free]
  have "b3hash p (identity_input a) @ b3hash p (device_set_input p da) = b3hash p (identity_input c) @ b3hash p (device_set_input p dc)"
    by (rule same [OF hashed_members(3) hashed_members(3) eq [unfolded device_set_hash_unfold]])
  then have d: "b3hash p (identity_input a) = b3hash p (identity_input c)" "b3hash p (device_set_input p da) = b3hash p (device_set_input p dc)"
    using p by (simp_all add: append_eq_append_conv)
  have "identity_input a = identity_input c" by (rule same [OF hashed_members(1) hashed_members(1) d(1)])
  then have "a = c" using identity_input_inject [OF wf(1,2)] by simp
  have "device_set_input p da = device_set_input p dc" by (rule same [OF hashed_members(2) hashed_members(2) d(2)])
  then have "sort (map (\<lambda>pk. b3hash p (signing_pk_to_bytes pk)) da) = sort (map (\<lambda>pk. b3hash p (signing_pk_to_bytes pk)) dc)"
    unfolding device_set_input_def by (rule concat_blocks_inject [rotated 2]) (auto simp: p)
  from arg_cong [OF this, of mset]
  have m: "image_mset (\<lambda>pk. b3hash p (signing_pk_to_bytes pk)) (mset da) = image_mset (\<lambda>pk. b3hash p (signing_pk_to_bytes pk)) (mset dc)"
    by simp
  have inj: "x = y" if "x \<in> set da" "y \<in> set dc" "b3hash p (signing_pk_to_bytes x) = b3hash p (signing_pk_to_bytes y)" for x y
    using same [OF hashed_members(4) hashed_members(4), of x y] that wf(3) signing_pk_inject [of x y] by simp
  have "mset da = mset dc" using inj by (intro image_mset_inject [OF m]) simp
  with \<open>a = c\<close> show ?thesis by simp
qed

lemma hash_identity_sn_eq: "hash_identity_sn p k = b3hash p (identity_input k)"
  by (simp add: hash_identity_sn_def identity_input_def)

text \<open>A safety number identifies the two users. It does not depend on who is first, and two pairs of
  identities with the same number are the same pair, or two different inputs that the two
  computations hash collide: identities, the pairs of digests or, for threads with
  synchronised history, the pairs with the thread identifier.\<close>

lemma safety_number_binds_identities:
  assumes p: "prims_ok p" and wf: "identity_wf a" "identity_wf b" "identity_wf c" "identity_wf d"
    and len: "length t = 32" "length u = 32"
  shows "safety_number_new p a b = safety_number_new p b a \<and> new_with_history_sync p a b t = new_with_history_sync p b a t
    \<and> (safety_number_new p a b = safety_number_new p c d \<longrightarrow>
        (a = c \<and> b = d \<or> a = d \<and> b = c) \<or> collide_between p (identity_input ` {a, b}) (identity_input ` {c, d})
        \<or> (let x = ordered_pair (hash_identity_sn p a) (hash_identity_sn p b); y = ordered_pair (hash_identity_sn p c) (hash_identity_sn p d) in
             x \<noteq> y \<and> blake3_derive_key p SAFETY_NUMBER_CONTEXT x = blake3_derive_key p SAFETY_NUMBER_CONTEXT y))
    \<and> (new_with_history_sync p a b t = new_with_history_sync p c d u \<longrightarrow>
        ((a = c \<and> b = d \<or> a = d \<and> b = c) \<and> t = u) \<or> collide_between p (identity_input ` {a, b}) (identity_input ` {c, d})
        \<or> (let x = ordered_pair (hash_identity_sn p a) (hash_identity_sn p b) @ t;
               y = ordered_pair (hash_identity_sn p c) (hash_identity_sn p d) @ u in
             x \<noteq> y \<and> blake3_derive_key p SAFETY_NUMBER_SYNC_CONTEXT x = blake3_derive_key p SAFETY_NUMBER_SYNC_CONTEXT y))"
proof -
  let ?h = "hash_identity_sn p"
  have h: "length (?h k) = 32" for k using p by (simp add: hash_identity_sn_def)
  have same: "(a = c \<and> b = d \<or> a = d \<and> b = c) \<or> collide_between p (identity_input ` {a, b}) (identity_input ` {c, d})"
    if "ordered_pair (?h a) (?h b) = ordered_pair (?h c) (?h d)"
  proof (rule disjCI)
    assume "\<not> collide_between p (identity_input ` {a, b}) (identity_input ` {c, d})"
    then have inj: "k = l" if "k \<in> {a, b}" "l \<in> {c, d}" "?h k = ?h l" for k l
      using that wf identity_input_inject [of k l] no_collision [of p _ _ "identity_input k" "identity_input l"]
      by (auto simp: hash_identity_sn_eq)
    from ordered_pair_inject [OF h h h h that] show "a = c \<and> b = d \<or> a = d \<and> b = c" using inj by blast
  qed
  have "length (ordered_pair (?h k) (?h l)) = 64" for k l by (simp add: ordered_pair_def h)
  then have split: "ordered_pair (?h a) (?h b) @ t = ordered_pair (?h c) (?h d) @ u
      \<longleftrightarrow> ordered_pair (?h a) (?h b) = ordered_pair (?h c) (?h d) \<and> t = u" by simp
  have comm: "ordered_pair (?h a) (?h b) = ordered_pair (?h b) (?h a)" by (rule ordered_pair_commute)
  show ?thesis
    using same split comm by (auto simp: safety_number_new_def new_with_history_sync_def Let_def)
qed

text \<open>A safety number with devices identifies the two users and their devices. It does not depend
  on who is first nor on the order of the devices, and two computations with the same
  number have the same users with the same devices, each as often, or two different inputs that
  they hash collide. Adding or removing a device therefore changes the number.\<close>

lemma device_set_is_bound:
  assumes p: "prims_ok p" and wf: "identity_wf a" "identity_wf b" "identity_wf c" "identity_wf d"
    and dev: "\<forall>k \<in> set da \<union> set db \<union> set dc \<union> set dd. signing_pk_wf k"
  shows "new_with_device_set p a b da db = new_with_device_set p b a db da
    \<and> (mset da = mset da' \<longrightarrow> new_with_device_set p a b da' db = new_with_device_set p a b da db)
    \<and> (new_with_device_set p a b da db = new_with_device_set p c d dc dd \<longrightarrow>
        (a = c \<and> mset da = mset dc \<and> b = d \<and> mset db = mset dd \<or> a = d \<and> mset da = mset dd \<and> b = c \<and> mset db = mset dc)
      \<or> collide_between p (hashed_inputs p a da \<union> hashed_inputs p b db) (hashed_inputs p c dc \<union> hashed_inputs p d dd)
      \<or> (let x = ordered_pair (hash_identity_with_devices p a da) (hash_identity_with_devices p b db);
             y = ordered_pair (hash_identity_with_devices p c dc) (hash_identity_with_devices p d dd) in
           x \<noteq> y \<and> blake3_derive_key p SAFETY_NUMBER_DEVICE_SET_CONTEXT x = blake3_derive_key p SAFETY_NUMBER_DEVICE_SET_CONTEXT y))"
proof -
  let ?h = "hash_identity_with_devices p"
  have h: "length (?h k ds) = 32" for k ds using p by (simp add: device_set_hash_unfold)
  have perm: "?h a da' = ?h a da" if "mset da = mset da'"
  proof -
    have "sort (map f da') = sort (map f da)" for f :: "signing_public_key \<Rightarrow> bytes"
      using that by (intro properties_for_sort) simp_all
    then show ?thesis by (simp add: hash_identity_with_devices_def)
  qed
  have same: "(a = c \<and> mset da = mset dc \<and> b = d \<and> mset db = mset dd \<or> a = d \<and> mset da = mset dd \<and> b = c \<and> mset db = mset dc)
      \<or> collide_between p (hashed_inputs p a da \<union> hashed_inputs p b db) (hashed_inputs p c dc \<union> hashed_inputs p d dd)"
    if "ordered_pair (?h a da) (?h b db) = ordered_pair (?h c dc) (?h d dd)"
  proof (rule disjCI)
    assume free: "\<not> collide_between p (hashed_inputs p a da \<union> hashed_inputs p b db) (hashed_inputs p c dc \<union> hashed_inputs p d dd)"
    have "k = l \<and> mset dk = mset dl" if "(k, dk) \<in> {(a, da), (b, db)}" "(l, dl) \<in> {(c, dc), (d, dd)}" "?h k dk = ?h l dl" for k dk l dl
      by (rule device_digest_inject [OF p]) (use that wf dev free in \<open>auto simp: collide_between_def\<close>)
    with ordered_pair_inject [OF h h h h that]
    show "a = c \<and> mset da = mset dc \<and> b = d \<and> mset db = mset dd \<or> a = d \<and> mset da = mset dd \<and> b = c \<and> mset db = mset dc"
      by blast
  qed
  have comm: "ordered_pair (?h a da) (?h b db) = ordered_pair (?h b db) (?h a da)" by (rule ordered_pair_commute)
  show ?thesis
    using same comm perm by (auto simp: new_with_device_set_def Let_def)
qed

definition sample_identity :: "u8 \<Rightarrow> identity_public_key" where
  "sample_identity b = \<lparr>ipk_signing = \<lparr>spk_ed448 = replicate 57 b, spk_mldsa = replicate 1952 b\<rparr>,
     ipk_kem = \<lparr>pk_x448 = replicate 56 b, pk_sntrup = replicate 1158 b\<rparr>\<rparr>"

lemma sample_identity_wf: "identity_wf (sample_identity b)" "signing_pk_wf (ipk_signing (sample_identity b))"
  by (simp_all add: identity_wf_def signing_pk_wf_def kem_pk_wf_def sample_identity_def kem_sizes)

end
