(* ===== verification/Recovery.thy ===== *)
theory Recovery
  imports Identity
begin

text \<open>
  Account recovery (\<open>trelis-hybrid/src/recovery.rs\<close>): signed notices that a key is compromised, the
  recovery key pair derived from a seed, and attestations of an identity rotation that the old and
  the new key both sign. The ML-DSA scheme, a type parameter of the code, is part of the suite.
\<close>

definition RECOVERY_ED448_CONTEXT :: string where "RECOVERY_ED448_CONTEXT = ''trelis-recovery-ed448-v1''"
definition RECOVERY_ED448_CONTEXT_2 :: string where "RECOVERY_ED448_CONTEXT_2 = ''trelis-recovery-ed448-v1-2''"
definition RECOVERY_MLDSA_CONTEXT :: string where "RECOVERY_MLDSA_CONTEXT = ''trelis-recovery-mldsa-v1''"
definition COMPROMISE_NOTICE_CONTEXT :: bytes where "COMPROMISE_NOTICE_CONTEXT = map of_char ''trelis-compromise-notice-v1''"
definition RECOVERY_KEY_ATTEST_CONTEXT :: bytes where "RECOVERY_KEY_ATTEST_CONTEXT = map of_char ''trelis-recovery-key-attest-v1''"

text \<open>\<open>map_err(|_| MalformedMessage)\<close>.\<close>

definition malformed :: "'a result \<Rightarrow> 'a result" where
  "malformed r = (case r of Inl _ \<Rightarrow> Inl MalformedMessage | Inr x \<Rightarrow> Inr x)"

section \<open>Compromise notices\<close>

datatype compromise_reason = KeyExfiltration | DeviceTheft | MalwareExposure | BackupCompromise | ServerBreach | Unknown

definition reason_from_byte :: "u8 \<Rightarrow> compromise_reason" where
  "reason_from_byte b =
     (if b = 0 then KeyExfiltration else if b = 1 then DeviceTheft else if b = 2 then MalwareExposure
      else if b = 3 then BackupCompromise else if b = 4 then ServerBreach else Unknown)"

primrec reason_to_byte :: "compromise_reason \<Rightarrow> u8" where
  "reason_to_byte KeyExfiltration = 0"
| "reason_to_byte DeviceTheft = 1"
| "reason_to_byte MalwareExposure = 2"
| "reason_to_byte BackupCompromise = 3"
| "reason_to_byte ServerBreach = 4"
| "reason_to_byte Unknown = 255"

primrec reason_description :: "compromise_reason \<Rightarrow> string" where
  "reason_description KeyExfiltration = ''Key material exfiltrated''"
| "reason_description DeviceTheft = ''Device containing key stolen or lost''"
| "reason_description MalwareExposure = ''Potential malware exposure''"
| "reason_description BackupCompromise = ''Backup compromise''"
| "reason_description ServerBreach = ''Server-side breach''"
| "reason_description Unknown = ''Unknown compromise reason''"

record compromise_notice =
  cn_compromised_fingerprint :: bytes
  cn_compromised_at :: u64
  cn_reason :: compromise_reason
  cn_signer_fingerprint :: bytes
  cn_signature :: hybrid_signature

definition key_fingerprint :: "primitives \<Rightarrow> signing_public_key \<Rightarrow> bytes" where
  "key_fingerprint p public_key = b3hash p (signing_pk_to_bytes public_key)"

definition notice_signing_data :: "bytes \<Rightarrow> u64 \<Rightarrow> compromise_reason \<Rightarrow> bytes \<Rightarrow> bytes" where
  "notice_signing_data compromised_fingerprint compromised_at reason signer_fingerprint =
     COMPROMISE_NOTICE_CONTEXT @ compromised_fingerprint @ le_bytes 8 compromised_at @ [reason_to_byte reason] @ signer_fingerprint"

definition notice_new ::
  "primitives \<Rightarrow> sig_suite \<Rightarrow> sign_coins \<Rightarrow> bytes \<Rightarrow> compromise_reason \<Rightarrow> u64 \<Rightarrow> signing_keypair \<Rightarrow> compromise_notice result" where
  "notice_new p g coins compromised_fingerprint reason compromised_at signing_key =
     (let signer_fingerprint = key_fingerprint p (skp_public signing_key);
          sig_data = notice_signing_data compromised_fingerprint compromised_at reason signer_fingerprint in
      tryR (hybrid_sign p g coins signing_key sig_data) (\<lambda>signature.
      Inr \<lparr>cn_compromised_fingerprint = compromised_fingerprint, cn_compromised_at = compromised_at, cn_reason = reason,
        cn_signer_fingerprint = signer_fingerprint, cn_signature = signature\<rparr>))"

definition notice_verify :: "primitives \<Rightarrow> sig_suite \<Rightarrow> signing_public_key \<Rightarrow> compromise_notice \<Rightarrow> unit result" where
  "notice_verify p g signer_key n =
     (let expected_fingerprint = key_fingerprint p signer_key in
      if expected_fingerprint \<noteq> cn_signer_fingerprint n then Inl SignatureVerificationFailed
      else let sig_data = notice_signing_data (cn_compromised_fingerprint n) (cn_compromised_at n) (cn_reason n) (cn_signer_fingerprint n) in
           hybrid_verify p g signer_key sig_data (cn_signature n))"

definition is_self_signed :: "compromise_notice \<Rightarrow> bool" where
  "is_self_signed n \<longleftrightarrow> cn_compromised_fingerprint n = cn_signer_fingerprint n"

definition notice_to_bytes :: "compromise_notice \<Rightarrow> bytes" where
  "notice_to_bytes n = cn_compromised_fingerprint n @ le_bytes 8 (cn_compromised_at n) @ [reason_to_byte (cn_reason n)]
     @ cn_signer_fingerprint n @ signature_to_bytes (cn_signature n)"

definition NOTICE_FIXED_SIZE :: nat where "NOTICE_FIXED_SIZE = 73"

definition notice_from_bytes :: "sig_suite \<Rightarrow> bytes \<Rightarrow> compromise_notice result" where
  "notice_from_bytes g bs =
     (if length bs < NOTICE_FIXED_SIZE then Inl MalformedMessage
      else let compromised_fingerprint = sub_slice 0 32 bs; compromised_at = le_word (sub_slice 32 40 bs);
               reason = reason_from_byte (bs ! 40); signer_fingerprint = sub_slice 41 73 bs in
      tryR (malformed (signature_from_bytes g (drop 73 bs))) (\<lambda>signature.
      Inr \<lparr>cn_compromised_fingerprint = compromised_fingerprint, cn_compromised_at = compromised_at, cn_reason = reason,
        cn_signer_fingerprint = signer_fingerprint, cn_signature = signature\<rparr>))"

section \<open>The recovery key pair\<close>

definition derive_recovery_keypair :: "primitives \<Rightarrow> sig_suite \<Rightarrow> bytes \<Rightarrow> signing_keypair result" where
  "derive_recovery_keypair p g seed =
     (let ed448_seed_part1 = derive_key p RECOVERY_ED448_CONTEXT seed;
          ed448_seed_part2 = derive_key p RECOVERY_ED448_CONTEXT_2 seed;
          ed448_seed = ed448_seed_part1 @ take 25 ed448_seed_part2;
          ed448_secret = ed448_from_seed g ed448_seed;
          mldsa_rng_seed = derive_key p RECOVERY_MLDSA_CONTEXT seed in
      tryR (md_generate_from_seed g mldsa_rng_seed) (\<lambda>mldsa_secret.
      Inr (signing_from_components g ed448_secret mldsa_secret)))"

section \<open>Rotation attestations\<close>

record recovery_attestation =
  ra_old_identity_pk :: signing_public_key
  ra_new_identity_pk :: signing_public_key
  ra_user_id :: bytes
  ra_registered_at :: u64
  ra_sig_old :: hybrid_signature
  ra_sig_new :: hybrid_signature

definition attestation_signing_data :: "signing_public_key \<Rightarrow> signing_public_key \<Rightarrow> bytes \<Rightarrow> u64 \<Rightarrow> bytes" where
  "attestation_signing_data old_pk new_pk user_id registered_at =
     RECOVERY_KEY_ATTEST_CONTEXT @ signing_pk_to_bytes old_pk @ signing_pk_to_bytes new_pk @ user_id @ le_bytes 8 registered_at"

definition attestation_create ::
  "primitives \<Rightarrow> sig_suite \<Rightarrow> sign_coins \<Rightarrow> sign_coins \<Rightarrow> signing_keypair \<Rightarrow> signing_keypair \<Rightarrow> bytes \<Rightarrow> u64 \<Rightarrow> recovery_attestation result" where
  "attestation_create p g coins_old coins_new old_identity_keypair new_identity_keypair user_id registered_at =
     (let old_identity_pk = skp_public old_identity_keypair; new_identity_pk = skp_public new_identity_keypair in
      if old_identity_pk = new_identity_pk then Inl MalformedMessage
      else let body = attestation_signing_data old_identity_pk new_identity_pk user_id registered_at in
      tryR (hybrid_sign p g coins_old old_identity_keypair body) (\<lambda>sig_old.
      tryR (hybrid_sign p g coins_new new_identity_keypair body) (\<lambda>sig_new.
      Inr \<lparr>ra_old_identity_pk = old_identity_pk, ra_new_identity_pk = new_identity_pk, ra_user_id = user_id,
        ra_registered_at = registered_at, ra_sig_old = sig_old, ra_sig_new = sig_new\<rparr>)))"

definition attestation_verify :: "primitives \<Rightarrow> sig_suite \<Rightarrow> recovery_attestation \<Rightarrow> unit result" where
  "attestation_verify p g a =
     (let body = attestation_signing_data (ra_old_identity_pk a) (ra_new_identity_pk a) (ra_user_id a) (ra_registered_at a) in
      tryR (hybrid_verify p g (ra_old_identity_pk a) body (ra_sig_old a)) (\<lambda>_.
      tryR (hybrid_verify p g (ra_new_identity_pk a) body (ra_sig_new a)) (\<lambda>_.
      Inr ())))"

definition attestation_to_bytes :: "recovery_attestation \<Rightarrow> bytes" where
  "attestation_to_bytes a = signing_pk_to_bytes (ra_old_identity_pk a) @ signing_pk_to_bytes (ra_new_identity_pk a)
     @ ra_user_id a @ le_bytes 8 (ra_registered_at a) @ signature_to_bytes (ra_sig_old a) @ signature_to_bytes (ra_sig_new a)"

definition ATTESTATION_WIRE_SIZE :: nat where "ATTESTATION_WIRE_SIZE = 2009 + 2009 + 32 + 8 + 3366 + 3366"

definition attestation_from_bytes :: "sig_suite \<Rightarrow> bytes \<Rightarrow> recovery_attestation result" where
  "attestation_from_bytes g bs =
     (if length bs \<noteq> ATTESTATION_WIRE_SIZE then Inl MalformedMessage
      else tryR (malformed (signing_pk_from_bytes g (sub_slice 0 2009 bs))) (\<lambda>old_identity_pk.
           tryR (malformed (signing_pk_from_bytes g (sub_slice 2009 4018 bs))) (\<lambda>new_identity_pk.
           let user_id = sub_slice 4018 4050 bs; registered_at = le_word (sub_slice 4050 4058 bs) in
           tryR (malformed (signature_from_bytes g (sub_slice 4058 7424 bs))) (\<lambda>sig_old.
           tryR (malformed (signature_from_bytes g (sub_slice 7424 10790 bs))) (\<lambda>sig_new.
           Inr \<lparr>ra_old_identity_pk = old_identity_pk, ra_new_identity_pk = new_identity_pk, ra_user_id = user_id,
             ra_registered_at = registered_at, ra_sig_old = sig_old, ra_sig_new = sig_new\<rparr>)))))"

section \<open>Lemmas\<close>

lemma malformed_Inr [simp, try_simps]: "malformed r = Inr x \<longleftrightarrow> r = Inr x" "malformed r = Inl e \<longleftrightarrow> e = MalformedMessage \<and> (\<exists>e'. r = Inl e')"
  by (auto simp: malformed_def split: sum.splits)

lemma malformed_simps [simp]: "malformed (Inr x) = Inr x" "malformed (Inl e) = Inl MalformedMessage"
  by (simp_all add: malformed_def)

definition signature_valid :: "sig_suite \<Rightarrow> hybrid_signature \<Rightarrow> bool" where
  "signature_valid g s \<longleftrightarrow> suite_ok g \<and> length (sig_rsp s) = 57 \<and> length (sig_mldsa s) = 3309
     \<and> guard_canonical g (sig_rsp s) = Inr () \<and> md_sig_from_bytes g (sig_mldsa s) = Inr (sig_mldsa s)"

lemma signature_dec_iff:
  assumes "suite_ok g"
  shows "signature_from_bytes g bs = Inr s \<longleftrightarrow> signature_valid g s \<and> bs = signature_to_bytes s"
proof
  assume "signature_from_bytes g bs = Inr s"
  with suite_mldsa(7) [OF assms] show "signature_valid g s \<and> bs = signature_to_bytes s"
    by (fastforce simp: assms signature_valid_def signature_from_bytes_def signature_to_bytes_def bop_response_from_bytes_def
        try_simps split: if_splits)
next
  assume "signature_valid g s \<and> bs = signature_to_bytes s"
  then show "signature_from_bytes g bs = Inr s"
    by (simp add: signature_valid_def signature_from_bytes_def signature_to_bytes_def bop_response_from_bytes_def)
qed

lemma length_signature: "signature_valid g s \<Longrightarrow> length (signature_to_bytes s) = 3366"
  by (simp add: signature_valid_def signature_to_bytes_def)

lemma valid_decodes [simp]:
  "signature_valid g s \<Longrightarrow> signature_from_bytes g (signature_to_bytes s) = Inr s"
  "signing_pk_valid g k \<Longrightarrow> signing_pk_from_bytes g (signing_pk_to_bytes k) = Inr k"
  using signature_dec_iff [of g "signature_to_bytes s" s] signing_pk_dec_iff [of g "signing_pk_to_bytes k" k]
  by (simp_all add: signature_valid_def signing_pk_valid_def)

lemma signed_is_valid: "signing_keypair_wf g kp \<Longrightarrow> hybrid_sign p g coins kp m = Inr s \<Longrightarrow> signature_valid g s"
  using signed_encodes [of g kp p coins Plain m s] signature_dec_iff [OF signing_keypair_wf_facts(1)]
  by (simp add: hybrid_sign_def)

lemma pk_valid_wf: "signing_pk_valid g pk \<Longrightarrow> signing_pk_wf pk"
  by (simp add: signing_pk_valid_def signing_pk_wf_def)

definition notice_wf :: "sig_suite \<Rightarrow> compromise_notice \<Rightarrow> bool" where
  "notice_wf g n \<longleftrightarrow> length (cn_compromised_fingerprint n) = 32 \<and> length (cn_signer_fingerprint n) = 32 \<and> signature_valid g (cn_signature n)"

lemma reason_codec: "reason_from_byte (reason_to_byte r) = r" "5 \<le> b \<Longrightarrow> reason_from_byte b = Unknown"
proof -
  show "reason_from_byte (reason_to_byte r) = r" by (cases r) (simp_all add: reason_from_byte_def)
  assume "5 \<le> b"
  then have "5 \<le> unat b" by (simp add: word_le_nat_alt)
  then show "reason_from_byte b = Unknown" by (auto simp: reason_from_byte_def)
qed

text \<open>A notice is read back whatever byte stands for its reason, as long as it is read as that reason.\<close>

lemma notice_dec:
  assumes "notice_wf g n" and "reason_from_byte b = cn_reason n"
  shows "notice_from_bytes g ((notice_to_bytes n)[40 := b]) = Inr n"
proof -
  have len: "length (cn_compromised_fingerprint n) = 32" "length (cn_signer_fingerprint n) = 32"
    "length (signature_to_bytes (cn_signature n)) = 3366" "signature_valid g (cn_signature n)"
    using assms(1) length_signature [of g "cn_signature n"] by (simp_all add: notice_wf_def)
  have bs: "(notice_to_bytes n)[40 := b] = cn_compromised_fingerprint n @ le_bytes 8 (cn_compromised_at n) @ [b]
     @ cn_signer_fingerprint n @ signature_to_bytes (cn_signature n)"
    using len by (simp add: notice_to_bytes_def list_update_append)
  show ?thesis
    unfolding bs using len assms(2)
    by (simp add: notice_from_bytes_def NOTICE_FIXED_SIZE_def Let_def slice_fields sub_slice_def nth_append)
qed

lemma notice_wire: "length (cn_compromised_fingerprint n) = 32 \<Longrightarrow> (notice_to_bytes n)[40 := reason_to_byte (cn_reason n)] = notice_to_bytes n"
  by (simp add: notice_to_bytes_def list_update_append)

definition attestation_wf :: "sig_suite \<Rightarrow> recovery_attestation \<Rightarrow> bool" where
  "attestation_wf g a \<longleftrightarrow> signing_pk_valid g (ra_old_identity_pk a) \<and> signing_pk_valid g (ra_new_identity_pk a)
     \<and> length (ra_user_id a) = 32 \<and> signature_valid g (ra_sig_old a) \<and> signature_valid g (ra_sig_new a)"

lemma attestation_dec_iff:
  assumes "suite_ok g"
  shows "attestation_from_bytes g bs = Inr a \<longleftrightarrow> attestation_wf g a \<and> bs = attestation_to_bytes a"
proof
  assume "attestation_from_bytes g bs = Inr a"
  then have len: "length bs = 10790" and r: "signing_pk_from_bytes g (sub_slice 0 2009 bs) = Inr (ra_old_identity_pk a)"
    "signing_pk_from_bytes g (sub_slice 2009 4018 bs) = Inr (ra_new_identity_pk a)" "ra_user_id a = sub_slice 4018 4050 bs"
    "ra_registered_at a = le_word (sub_slice 4050 4058 bs)"
    "signature_from_bytes g (sub_slice 4058 7424 bs) = Inr (ra_sig_old a)"
    "signature_from_bytes g (sub_slice 7424 10790 bs) = Inr (ra_sig_new a)"
    by (auto simp: attestation_from_bytes_def ATTESTATION_WIRE_SIZE_def try_simps Let_def split: if_splits)
  have "bs = take 10790 bs" using len by simp
  also have "\<dots> = sub_slice 0 2009 bs @ sub_slice 2009 4018 bs @ sub_slice 4018 4050 bs @ sub_slice 4050 4058 bs
      @ sub_slice 4058 7424 bs @ sub_slice 7424 10790 bs"
    by (simp add: sub_slice_def flip: take_add append_assoc)
  finally have "bs = \<dots>" .
  moreover have "le_bytes 8 (le_word (sub_slice 4050 4058 bs) :: u64) = sub_slice 4050 4058 bs"
    using le_bytes_le_word [of "sub_slice 4050 4058 bs", where 'a = 64] len by simp
  ultimately show "attestation_wf g a \<and> bs = attestation_to_bytes a"
    using r len unfolding signing_pk_dec_iff [OF assms] signature_dec_iff [OF assms]
    by (simp add: attestation_wf_def attestation_to_bytes_def)
next
  assume a: "attestation_wf g a \<and> bs = attestation_to_bytes a"
  then have "length (signing_pk_to_bytes (ra_old_identity_pk a)) = 2009" "length (signing_pk_to_bytes (ra_new_identity_pk a)) = 2009"
    "length (signature_to_bytes (ra_sig_old a)) = 3366" "length (signature_to_bytes (ra_sig_new a)) = 3366"
    by (auto simp: attestation_wf_def intro: length_signature length_signing_pk)
  with a show "attestation_from_bytes g bs = Inr a"
    by (simp add: attestation_wf_def attestation_to_bytes_def attestation_from_bytes_def ATTESTATION_WIRE_SIZE_def Let_def
        slice_fields sub_slice_def)
qed

lemma attestation_data_inject:
  assumes "signing_pk_wf a" "signing_pk_wf b" "signing_pk_wf c" "signing_pk_wf d" "length u = 32" "length v = 32"
  shows "attestation_signing_data a b u t = attestation_signing_data c d v w \<longleftrightarrow> a = c \<and> b = d \<and> u = v \<and> t = w"
proof -
  have "length (signing_pk_to_bytes k) = 2009" if "signing_pk_wf k" for k
    using that by (simp add: signing_pk_wf_def signing_pk_to_bytes_def)
  with assms show ?thesis
    using signing_pk_inject [of a c] signing_pk_inject [of b d] le_bytes_8_iff [of t w]
    by (simp add: attestation_signing_data_def)
qed

section \<open>Properties\<close>

text \<open>A compromise notice verifies under the key that made it, names that key by its
  fingerprint, and is read back from its wire form. The reason is not canonical on the wire: the
  251 bytes from 5 upwards all stand for an unknown reason, so such a byte can be changed without the
  notice, its signature included, becoming another one.\<close>

lemma compromise_notice_delivers:
  assumes kp: "signing_keypair_wf g kp" and p: "prims_ok p" and fp: "length fp = 32"
    and new: "notice_new p g coins fp reason at kp = Inr n"
  shows "notice_verify p g (skp_public kp) n = Inr () \<and> notice_from_bytes g (notice_to_bytes n) = Inr n
    \<and> (is_self_signed n \<longleftrightarrow> fp = key_fingerprint p (skp_public kp))
    \<and> (\<forall>b \<ge> 5. reason = Unknown \<longrightarrow> notice_from_bytes g ((notice_to_bytes n)[40 := b]) = Inr n)
    \<and> (\<forall>signer. key_fingerprint p signer \<noteq> key_fingerprint p (skp_public kp) \<longrightarrow> notice_verify p g signer n = Inl SignatureVerificationFailed)"
proof -
  let ?data = "notice_signing_data fp at reason (key_fingerprint p (skp_public kp))"
  obtain s where s: "hybrid_sign p g coins kp ?data = Inr s"
    and n: "n = \<lparr>cn_compromised_fingerprint = fp, cn_compromised_at = at, cn_reason = reason,
      cn_signer_fingerprint = key_fingerprint p (skp_public kp), cn_signature = s\<rparr>"
    using new by (auto simp: notice_new_def try_simps Let_def)
  have wf: "notice_wf g n" using fp p signed_is_valid [OF kp s] by (simp add: notice_wf_def n key_fingerprint_def)
  have "notice_verify p g (skp_public kp) n = Inr ()"
    using hybrid_plain.verifies [OF kp s] by (simp add: notice_verify_def n Let_def)
  moreover have "notice_from_bytes g (notice_to_bytes n) = Inr n"
    using notice_dec [OF wf reason_codec(1)] notice_wire [of n] wf by (simp add: notice_wf_def)
  moreover have "notice_from_bytes g ((notice_to_bytes n)[40 := b]) = Inr n" if "5 \<le> b" "reason = Unknown" for b
    using notice_dec [OF wf, of b] reason_codec(2) [OF that(1)] that(2) by (simp add: n)
  ultimately show ?thesis by (auto simp: is_self_signed_def n notice_verify_def Let_def)
qed

text \<open>A rotation attestation convinces: when the old and the new identity sign it, it verifies, it
  is read back from its wire form, and only from it; both signatures are needed, and the signed body
  determines both keys, the account and the time. The rule that the two keys differ is one
  of the constructor only: an attestation that rotates a key to itself, which \<open>create\<close>
  refuses, is read from the wire and verified like any other.\<close>

lemma rotation_attestation:
  assumes old: "signing_keypair_wf g old" and new: "signing_keypair_wf g new" and uid: "length uid = 32"
  shows "(\<forall>a. attestation_create p g c1 c2 old new uid at = Inr a \<longrightarrow>
      skp_public old \<noteq> skp_public new \<and> attestation_verify p g a = Inr ()
      \<and> (\<forall>bs. attestation_from_bytes g bs = Inr a \<longleftrightarrow> bs = attestation_to_bytes a))
    \<and> (\<forall>a. attestation_verify p g a = Inr () \<longleftrightarrow>
        (let body = attestation_signing_data (ra_old_identity_pk a) (ra_new_identity_pk a) (ra_user_id a) (ra_registered_at a) in
         hybrid_verify p g (ra_old_identity_pk a) body (ra_sig_old a) = Inr () \<and> hybrid_verify p g (ra_new_identity_pk a) body (ra_sig_new a) = Inr ()))
    \<and> (\<forall>k l v t. signing_pk_wf k \<longrightarrow> signing_pk_wf l \<longrightarrow> length v = 32 \<longrightarrow>
        (attestation_signing_data (skp_public old) (skp_public new) uid at = attestation_signing_data k l v t
          \<longleftrightarrow> (skp_public old, skp_public new, uid, at) = (k, l, v, t)))
    \<and> attestation_create p g c1 c2 old old uid at = Inl MalformedMessage
    \<and> (\<forall>s. hybrid_sign p g c1 old (attestation_signing_data (skp_public old) (skp_public old) uid at) = Inr s \<longrightarrow>
        (\<exists>bs a. attestation_from_bytes g bs = Inr a \<and> ra_old_identity_pk a = ra_new_identity_pk a \<and> attestation_verify p g a = Inr ()))"
proof -
  note ok = signing_keypair_wf_facts(1) [OF old]
  note pk = keypair_pk_valid [OF old] keypair_pk_valid [OF new]
  have dec: "attestation_from_bytes g bs = Inr a \<longleftrightarrow> bs = attestation_to_bytes a" if "attestation_wf g a" for a bs
    using attestation_dec_iff [OF ok] that by blast
  have created: "attestation_wf g a \<and> skp_public old \<noteq> skp_public new \<and> attestation_verify p g a = Inr ()"
    if "attestation_create p g c1 c2 old new uid at = Inr a" for a
  proof -
    define body where "body = attestation_signing_data (skp_public old) (skp_public new) uid at"
    from that obtain s1 s2 where s: "hybrid_sign p g c1 old body = Inr s1" "hybrid_sign p g c2 new body = Inr s2" "skp_public old \<noteq> skp_public new"
      and a: "a = \<lparr>ra_old_identity_pk = skp_public old, ra_new_identity_pk = skp_public new, ra_user_id = uid,
        ra_registered_at = at, ra_sig_old = s1, ra_sig_new = s2\<rparr>"
      by (auto simp: attestation_create_def body_def try_simps Let_def split: if_splits)
    show ?thesis
      using s(3) pk uid signed_is_valid [OF old s(1)] signed_is_valid [OF new s(2)]
        hybrid_plain.verifies [OF old s(1)] hybrid_plain.verifies [OF new s(2)]
      by (simp add: a attestation_verify_def attestation_wf_def Let_def flip: body_def)
  qed
  have noop: "\<exists>bs a. attestation_from_bytes g bs = Inr a \<and> ra_old_identity_pk a = ra_new_identity_pk a \<and> attestation_verify p g a = Inr ()"
    if s: "hybrid_sign p g c1 old (attestation_signing_data (skp_public old) (skp_public old) uid at) = Inr s" for s
  proof -
    define a where "a = \<lparr>ra_old_identity_pk = skp_public old, ra_new_identity_pk = skp_public old, ra_user_id = uid,
      ra_registered_at = at, ra_sig_old = s, ra_sig_new = s\<rparr>"
    have "attestation_wf g a" using pk uid signed_is_valid [OF old s] by (simp add: a_def attestation_wf_def)
    moreover have "attestation_verify p g a = Inr ()"
      using hybrid_plain.verifies [OF old s] by (simp add: a_def attestation_verify_def Let_def)
    ultimately show ?thesis using dec by (intro exI [of _ "attestation_to_bytes a"] exI [of _ a]) (simp add: a_def)
  qed
  have inj: "attestation_signing_data (skp_public old) (skp_public new) uid at = attestation_signing_data k l v t
      \<longleftrightarrow> (skp_public old, skp_public new, uid, at) = (k, l, v, t)" if "signing_pk_wf k" "signing_pk_wf l" "length v = 32" for k l v t
    using attestation_data_inject [of "skp_public old" "skp_public new" k l uid v at t] that uid pk pk_valid_wf by auto
  have "attestation_verify p g a = Inr () \<longleftrightarrow>
        (let body = attestation_signing_data (ra_old_identity_pk a) (ra_new_identity_pk a) (ra_user_id a) (ra_registered_at a) in
         hybrid_verify p g (ra_old_identity_pk a) body (ra_sig_old a) = Inr () \<and> hybrid_verify p g (ra_new_identity_pk a) body (ra_sig_new a) = Inr ())" for a
    by (simp add: attestation_verify_def try_simps Let_def)
  moreover have "attestation_create p g c1 c2 old old uid at = Inl MalformedMessage" by (simp add: attestation_create_def)
  ultimately show ?thesis using created dec noop inj by blast
qed

end
