(* ===== verification/Identity_Cert.thy ===== *)
theory Identity_Cert
  imports Safety_Number Recovery
begin

text \<open>
  Identity certificates and certified safety numbers (\<open>trelis-hybrid/src/identity_cert.rs\<close>): an
  issuer's signature over a subject's identity and a validity window, and a safety number that one or
  both parties sign under their certified identities. Chains of certificates are the application's.
\<close>

definition IDENTITY_CERT_CONTEXT :: bytes where "IDENTITY_CERT_CONTEXT = map of_char ''trelis-identity-cert-v1''"
definition CERTIFIED_SAFETY_NUMBER_CONTEXT :: bytes where
  "CERTIFIED_SAFETY_NUMBER_CONTEXT = map of_char ''trelis-certified-safety-number-v1''"

section \<open>Certificates\<close>

record identity_certificate =
  ic_subject_identity :: identity_public_key
  ic_issuer_signing_pk :: signing_public_key
  ic_issued_at :: u64
  ic_expires_at :: u64
  ic_signature :: hybrid_signature

definition cert_signing_data :: "identity_public_key \<Rightarrow> u64 \<Rightarrow> u64 \<Rightarrow> bytes" where
  "cert_signing_data subject_identity issued_at expires_at =
     IDENTITY_CERT_CONTEXT @ identity_pk_to_bytes subject_identity @ le_bytes 8 issued_at @ le_bytes 8 expires_at"

definition cert_issue ::
  "primitives \<Rightarrow> sig_suite \<Rightarrow> sign_coins \<Rightarrow> signing_keypair \<Rightarrow> identity_public_key \<Rightarrow> u64 \<Rightarrow> u64 \<Rightarrow> identity_certificate result" where
  "cert_issue p g coins issuer_keypair subject_identity issued_at expires_at =
     (let body = cert_signing_data subject_identity issued_at expires_at in
      tryR (hybrid_sign p g coins issuer_keypair body) (\<lambda>signature.
      Inr \<lparr>ic_subject_identity = subject_identity, ic_issuer_signing_pk = skp_public issuer_keypair,
        ic_issued_at = issued_at, ic_expires_at = expires_at, ic_signature = signature\<rparr>))"

definition cert_verify :: "primitives \<Rightarrow> sig_suite \<Rightarrow> identity_certificate \<Rightarrow> unit result" where
  "cert_verify p g c =
     (let body = cert_signing_data (ic_subject_identity c) (ic_issued_at c) (ic_expires_at c) in
      hybrid_verify p g (ic_issuer_signing_pk c) body (ic_signature c))"

definition validate_validity_window :: "u64 \<Rightarrow> identity_certificate \<Rightarrow> unit result" where
  "validate_validity_window now c =
     (if ic_issued_at c > now then Inl BundleTimestampInFuture
      else if ic_expires_at c < now then Inl BundleExpired else Inr ())"

definition CERTIFICATE_WIRE_SIZE :: nat where "CERTIFICATE_WIRE_SIZE = 3223 + 2009 + 8 + 8 + 3366"

definition cert_to_bytes :: "identity_certificate \<Rightarrow> bytes" where
  "cert_to_bytes c = identity_pk_to_bytes (ic_subject_identity c) @ signing_pk_to_bytes (ic_issuer_signing_pk c)
     @ le_bytes 8 (ic_issued_at c) @ le_bytes 8 (ic_expires_at c) @ signature_to_bytes (ic_signature c)"

definition cert_from_bytes :: "sig_suite \<Rightarrow> bytes \<Rightarrow> identity_certificate result" where
  "cert_from_bytes g bs =
     (if length bs \<noteq> CERTIFICATE_WIRE_SIZE then Inl MalformedMessage
      else tryR (malformed (identity_pk_from_bytes g (sub_slice 0 3223 bs))) (\<lambda>subject_identity.
           tryR (malformed (signing_pk_from_bytes g (sub_slice 3223 5232 bs))) (\<lambda>issuer_signing_pk.
           let issued_at = le_word (sub_slice 5232 5240 bs); expires_at = le_word (sub_slice 5240 5248 bs) in
           tryR (malformed (signature_from_bytes g (drop 5248 bs))) (\<lambda>signature.
           Inr \<lparr>ic_subject_identity = subject_identity, ic_issuer_signing_pk = issuer_signing_pk, ic_issued_at = issued_at,
             ic_expires_at = expires_at, ic_signature = signature\<rparr>))))"

section \<open>Certified safety numbers\<close>

record certified_safety_number =
  cs_safety_number :: safety_number
  cs_our_certificate :: identity_certificate
  cs_our_signature :: hybrid_signature
  cs_their_certificate :: "identity_certificate option"
  cs_their_signature :: "hybrid_signature option"

definition csn_signing_data :: "safety_number \<Rightarrow> bytes" where
  "csn_signing_data s = CERTIFIED_SAFETY_NUMBER_CONTEXT @ fingerprint s"

definition create_one_sided ::
  "primitives \<Rightarrow> sig_suite \<Rightarrow> sign_coins \<Rightarrow> safety_number \<Rightarrow> signing_keypair \<Rightarrow> identity_certificate \<Rightarrow> certified_safety_number result" where
  "create_one_sided p g coins safety_number our_keypair our_certificate =
     (let body = csn_signing_data safety_number in
      tryR (hybrid_sign p g coins our_keypair body) (\<lambda>our_signature.
      Inr \<lparr>cs_safety_number = safety_number, cs_our_certificate = our_certificate, cs_our_signature = our_signature,
        cs_their_certificate = None, cs_their_signature = None\<rparr>))"

definition attach_their_side ::
  "identity_certificate \<Rightarrow> hybrid_signature \<Rightarrow> certified_safety_number \<Rightarrow> certified_safety_number" where
  "attach_their_side their_certificate their_signature c =
     c\<lparr>cs_their_certificate := Some their_certificate, cs_their_signature := Some their_signature\<rparr>"

definition csn_verify :: "primitives \<Rightarrow> sig_suite \<Rightarrow> certified_safety_number \<Rightarrow> unit result" where
  "csn_verify p g c =
     (let body = csn_signing_data (cs_safety_number c) in
      tryR (cert_verify p g (cs_our_certificate c)) (\<lambda>_.
      tryR (hybrid_verify p g (ipk_signing (ic_subject_identity (cs_our_certificate c))) body (cs_our_signature c)) (\<lambda>_.
      case (cs_their_certificate c, cs_their_signature c) of
        (Some their_cert, Some their_sig) \<Rightarrow>
          tryR (cert_verify p g their_cert) (\<lambda>_.
          tryR (hybrid_verify p g (ipk_signing (ic_subject_identity their_cert)) body their_sig) (\<lambda>_. Inr ()))
      | _ \<Rightarrow> Inr ())))"

definition csn_to_bytes :: "certified_safety_number \<Rightarrow> bytes" where
  "csn_to_bytes c = fingerprint (cs_safety_number c) @
     (case (cs_their_certificate c, cs_their_signature c) of
        (Some their_cert, Some their_sig) \<Rightarrow>
          1 # cert_to_bytes (cs_our_certificate c) @ signature_to_bytes (cs_our_signature c) @ cert_to_bytes their_cert @ signature_to_bytes their_sig
      | _ \<Rightarrow> 0 # cert_to_bytes (cs_our_certificate c) @ signature_to_bytes (cs_our_signature c))"

definition ONE_SIDED_SIZE :: nat where "ONE_SIDED_SIZE = 33 + CERTIFICATE_WIRE_SIZE + 3366"
definition TWO_SIDED_SIZE :: nat where "TWO_SIDED_SIZE = 33 + 2 * (CERTIFICATE_WIRE_SIZE + 3366)"

definition csn_from_bytes :: "sig_suite \<Rightarrow> bytes \<Rightarrow> certified_safety_number result" where
  "csn_from_bytes g bs =
     (if length bs \<noteq> ONE_SIDED_SIZE \<and> length bs \<noteq> TWO_SIDED_SIZE then Inl MalformedMessage
      else let s = \<lparr>fingerprint = take 32 bs\<rparr>; presence = bs ! 32 in
           tryR (cert_from_bytes g (sub_slice 33 8647 bs)) (\<lambda>our_certificate.
           tryR (malformed (signature_from_bytes g (sub_slice 8647 12013 bs))) (\<lambda>our_signature.
           tryR (if presence = 0 then if length bs \<noteq> ONE_SIDED_SIZE then Inl MalformedMessage else Inr (None, None)
                 else if presence = 1 then
                   if length bs \<noteq> TWO_SIDED_SIZE then Inl MalformedMessage
                   else tryR (cert_from_bytes g (sub_slice 12013 20627 bs)) (\<lambda>their_cert.
                        tryR (malformed (signature_from_bytes g (sub_slice 20627 23993 bs))) (\<lambda>their_sig.
                        Inr (Some their_cert, Some their_sig)))
                 else Inl MalformedMessage) (\<lambda>(their_certificate, their_signature).
           Inr \<lparr>cs_safety_number = s, cs_our_certificate = our_certificate, cs_our_signature = our_signature,
             cs_their_certificate = their_certificate, cs_their_signature = their_signature\<rparr>))))"

section \<open>Lemmas\<close>

definition cert_wf :: "sig_suite \<Rightarrow> identity_certificate \<Rightarrow> bool" where
  "cert_wf g c \<longleftrightarrow> identity_pk_valid g (ic_subject_identity c) \<and> signing_pk_valid g (ic_issuer_signing_pk c)
     \<and> signature_valid g (ic_signature c)"

lemma length_identity_pk: "identity_pk_valid g k \<Longrightarrow> length (identity_pk_to_bytes k) = 3223"
  by (simp add: identity_pk_valid_def identity_pk_to_bytes_def length_signing_pk [of g] length_valid_kem_pk kem_sizes)

lemma valid_suite: "signature_valid g s \<Longrightarrow> suite_ok g"
  by (simp add: signature_valid_def)

lemma length_cert: "cert_wf g c \<Longrightarrow> length (cert_to_bytes c) = CERTIFICATE_WIRE_SIZE"
  by (simp add: cert_wf_def cert_to_bytes_def CERTIFICATE_WIRE_SIZE_def length_identity_pk [of g] length_signing_pk [of g] length_signature [of g])

lemma cert_dec_iff:
  assumes "suite_ok g"
  shows "cert_from_bytes g bs = Inr c \<longleftrightarrow> cert_wf g c \<and> bs = cert_to_bytes c"
proof
  assume "cert_from_bytes g bs = Inr c"
  then have len: "length bs = 8614" and r: "identity_pk_from_bytes g (sub_slice 0 3223 bs) = Inr (ic_subject_identity c)"
    "signing_pk_from_bytes g (sub_slice 3223 5232 bs) = Inr (ic_issuer_signing_pk c)"
    "ic_issued_at c = le_word (sub_slice 5232 5240 bs)" "ic_expires_at c = le_word (sub_slice 5240 5248 bs)"
    "signature_from_bytes g (drop 5248 bs) = Inr (ic_signature c)"
    by (auto simp: cert_from_bytes_def CERTIFICATE_WIRE_SIZE_def try_simps Let_def split: if_splits)
  have "bs = take 5248 bs @ drop 5248 bs" by simp
  also have "take 5248 bs = sub_slice 0 3223 bs @ sub_slice 3223 5232 bs @ sub_slice 5232 5240 bs @ sub_slice 5240 5248 bs"
    by (simp add: sub_slice_def flip: take_add append_assoc)
  finally have "bs = sub_slice 0 3223 bs @ sub_slice 3223 5232 bs @ sub_slice 5232 5240 bs @ sub_slice 5240 5248 bs @ drop 5248 bs" by simp
  moreover have "le_bytes 8 (le_word (sub_slice 5232 5240 bs) :: u64) = sub_slice 5232 5240 bs"
    "le_bytes 8 (le_word (sub_slice 5240 5248 bs) :: u64) = sub_slice 5240 5248 bs"
    using le_bytes_le_word [of "sub_slice 5232 5240 bs", where 'a = 64] le_bytes_le_word [of "sub_slice 5240 5248 bs", where 'a = 64] len
    by simp_all
  ultimately show "cert_wf g c \<and> bs = cert_to_bytes c"
    using r unfolding identity_pk_dec_iff [OF assms] signing_pk_dec_iff [OF assms] signature_dec_iff [OF assms]
    by (simp add: cert_wf_def cert_to_bytes_def)
next
  assume a: "cert_wf g c \<and> bs = cert_to_bytes c"
  then have "length (identity_pk_to_bytes (ic_subject_identity c)) = 3223" "length (signing_pk_to_bytes (ic_issuer_signing_pk c)) = 2009"
    "length (signature_to_bytes (ic_signature c)) = 3366"
    by (auto simp: cert_wf_def intro: length_identity_pk length_signature length_signing_pk)
  with a show "cert_from_bytes g bs = Inr c"
    using identity_pk_dec_iff [OF assms, of "identity_pk_to_bytes (ic_subject_identity c)" "ic_subject_identity c"]
    by (simp add: cert_wf_def cert_to_bytes_def cert_from_bytes_def CERTIFICATE_WIRE_SIZE_def Let_def slice_fields sub_slice_def)
qed

definition csn_wf :: "sig_suite \<Rightarrow> certified_safety_number \<Rightarrow> bool" where
  "csn_wf g c \<longleftrightarrow> length (fingerprint (cs_safety_number c)) = 32 \<and> cert_wf g (cs_our_certificate c) \<and> signature_valid g (cs_our_signature c)
     \<and> (case (cs_their_certificate c, cs_their_signature c) of
          (Some k, Some s) \<Rightarrow> cert_wf g k \<and> signature_valid g s | (None, None) \<Rightarrow> True | _ \<Rightarrow> False)"

lemma cert_decodes: "cert_wf g c \<Longrightarrow> cert_from_bytes g (cert_to_bytes c) = Inr c"
  using cert_dec_iff [of g "cert_to_bytes c" c] by (simp add: cert_wf_def signature_valid_def)

lemma csn_decodes:
  assumes "csn_wf g c" shows "csn_from_bytes g (csn_to_bytes c) = Inr c"
proof -
  have our: "length (cert_to_bytes (cs_our_certificate c)) = 8614" "length (signature_to_bytes (cs_our_signature c)) = 3366"
    using assms length_cert [of g "cs_our_certificate c"] length_signature [of g "cs_our_signature c"]
    by (simp_all add: csn_wf_def CERTIFICATE_WIRE_SIZE_def)
  show ?thesis
  proof (cases "cs_their_certificate c")
    case None
    then have "cs_their_signature c = None" using assms by (auto simp: csn_wf_def split: option.splits)
    with None our assms cert_decodes show ?thesis
      by (simp add: csn_from_bytes_def csn_to_bytes_def csn_wf_def ONE_SIDED_SIZE_def TWO_SIDED_SIZE_def CERTIFICATE_WIRE_SIZE_def
          Let_def slice_fields sub_slice_def nth_append)
  next
    case (Some k)
    then obtain s where s: "cs_their_signature c = Some s" "cert_wf g k" "signature_valid g s"
      using assms by (auto simp: csn_wf_def split: option.splits)
    then have "length (cert_to_bytes k) = 8614" "length (signature_to_bytes s) = 3366"
      using length_cert [of g k] length_signature [of g s] by (simp_all add: CERTIFICATE_WIRE_SIZE_def)
    with Some s our assms cert_decodes show ?thesis
      by (simp add: csn_from_bytes_def csn_to_bytes_def csn_wf_def ONE_SIDED_SIZE_def TWO_SIDED_SIZE_def CERTIFICATE_WIRE_SIZE_def
          Let_def slice_fields sub_slice_def nth_append)
  qed
qed

lemma identity_input_eq: "identity_input k = identity_pk_to_bytes k"
  by (simp add: identity_input_def identity_pk_to_bytes_def)

lemma cert_data_inject:
  assumes "identity_wf a" "identity_wf b"
  shows "cert_signing_data a t e = cert_signing_data b u f \<longleftrightarrow> a = b \<and> t = u \<and> e = f"
proof -
  have "length (identity_pk_to_bytes k) = 3223" if "identity_wf k" for k
    using that length_kem_codecs(1) [of "ipk_kem k"]
    by (simp add: identity_wf_def signing_pk_wf_def signing_pk_to_bytes_def identity_pk_to_bytes_def kem_sizes)
  with assms show ?thesis
    using identity_input_inject [OF assms] le_bytes_8_iff
    by (auto simp: cert_signing_data_def identity_input_eq append_eq_append_conv)
qed

section \<open>Properties\<close>

text \<open>Certificates and certified safety numbers are complete: a certificate that an issuer signs
  verifies, is read back from its wire form and from no other bytes, is refused outside its
  validity window, and its signed body determines subject and window. Two parties that sign the
  same safety number under certificates of their identities make a number that verifies, one-sided and
  with both sides attached, and survives the wire; a signature over another number is not one over this
  one.\<close>

lemma certified_number_verifies:
  assumes kp: "signing_keypair_wf g issuer" "signing_keypair_wf g ours" "signing_keypair_wf g theirs"
    and id: "identity_pk_valid g us" "ipk_signing us = skp_public ours" "identity_pk_valid g them" "ipk_signing them = skp_public theirs"
    and len: "length (fingerprint sn) = 32"
    and certs: "cert_issue p g c1 issuer us t1 e1 = Inr cert1" "cert_issue p g c2 issuer them t2 e2 = Inr cert2"
    and one: "create_one_sided p g c3 sn ours cert1 = Inr one" and sig: "hybrid_sign p g c4 theirs (csn_signing_data sn) = Inr s"
  shows "cert_verify p g cert1 = Inr () \<and> (\<forall>bs. cert_from_bytes g bs = Inr cert1 \<longleftrightarrow> bs = cert_to_bytes cert1)
    \<and> (\<forall>now. validate_validity_window now cert1 = Inr () \<longleftrightarrow> t1 \<le> now \<and> now \<le> e1)
    \<and> (\<forall>other u f. identity_wf other \<longrightarrow> (cert_signing_data us t1 e1 = cert_signing_data other u f \<longleftrightarrow> us = other \<and> t1 = u \<and> e1 = f))
    \<and> csn_verify p g one = Inr () \<and> csn_from_bytes g (csn_to_bytes one) = Inr one
    \<and> csn_verify p g (attach_their_side cert2 s one) = Inr ()
    \<and> csn_from_bytes g (csn_to_bytes (attach_their_side cert2 s one)) = Inr (attach_their_side cert2 s one)
    \<and> (\<forall>other. csn_signing_data sn = csn_signing_data other \<longleftrightarrow> sn = other)"
proof -
  note ok = signing_keypair_wf_facts(1) [OF kp(1)]
  obtain s1 s2 where s1: "hybrid_sign p g c1 issuer (cert_signing_data us t1 e1) = Inr s1"
      "cert1 = \<lparr>ic_subject_identity = us, ic_issuer_signing_pk = skp_public issuer, ic_issued_at = t1, ic_expires_at = e1, ic_signature = s1\<rparr>"
    and s2: "hybrid_sign p g c2 issuer (cert_signing_data them t2 e2) = Inr s2"
      "cert2 = \<lparr>ic_subject_identity = them, ic_issuer_signing_pk = skp_public issuer, ic_issued_at = t2, ic_expires_at = e2, ic_signature = s2\<rparr>"
    using certs by (auto simp: cert_issue_def try_simps Let_def)
  obtain s3 where s3: "hybrid_sign p g c3 ours (csn_signing_data sn) = Inr s3"
      "one = \<lparr>cs_safety_number = sn, cs_our_certificate = cert1, cs_our_signature = s3, cs_their_certificate = None, cs_their_signature = None\<rparr>"
    using one by (auto simp: create_one_sided_def try_simps Let_def)
  have wf: "cert_wf g cert1" "cert_wf g cert2"
    using id keypair_pk_valid [OF kp(1)] signed_is_valid [OF kp(1) s1(1)] signed_is_valid [OF kp(1) s2(1)]
    by (simp_all add: cert_wf_def s1(2) s2(2))
  have v: "cert_verify p g cert1 = Inr ()" "cert_verify p g cert2 = Inr ()"
    using hybrid_plain.verifies [OF kp(1) s1(1)] hybrid_plain.verifies [OF kp(1) s2(1)] by (simp_all add: cert_verify_def s1(2) s2(2))
  have n: "hybrid_verify p g (ipk_signing us) (csn_signing_data sn) s3 = Inr ()" "hybrid_verify p g (ipk_signing them) (csn_signing_data sn) s = Inr ()"
    using hybrid_plain.verifies [OF kp(2) s3(1)] hybrid_plain.verifies [OF kp(3) sig] id by simp_all
  have "csn_wf g one" "csn_wf g (attach_their_side cert2 s one)"
    using wf len signed_is_valid [OF kp(2) s3(1)] signed_is_valid [OF kp(3) sig] by (simp_all add: csn_wf_def s3(2) attach_their_side_def)
  from this [THEN csn_decodes]
  have dec: "csn_from_bytes g (csn_to_bytes one) = Inr one"
    "csn_from_bytes g (csn_to_bytes (attach_their_side cert2 s one)) = Inr (attach_their_side cert2 s one)" by simp_all
  have cv: "csn_verify p g one = Inr ()" "csn_verify p g (attach_their_side cert2 s one) = Inr ()"
    using v n by (simp_all add: csn_verify_def attach_their_side_def s1(2) s2(2) s3(2) Let_def)
  have "public_key_valid k \<Longrightarrow> kem_pk_wf k" for k by (simp add: public_key_valid_def)
  then have "identity_wf us" using id(1) pk_valid_wf by (auto simp: identity_wf_def identity_pk_valid_def)
  then have inj: "cert_signing_data us t1 e1 = cert_signing_data other u f \<longleftrightarrow> us = other \<and> t1 = u \<and> e1 = f" if "identity_wf other" for other u f
    using cert_data_inject that by blast
  have win: "validate_validity_window now cert1 = Inr () \<longleftrightarrow> t1 \<le> now \<and> now \<le> e1" for now
    by (auto simp: validate_validity_window_def s1(2))
  have "csn_signing_data sn = csn_signing_data other \<longleftrightarrow> sn = other" for other
    by (cases sn; cases other) (simp add: csn_signing_data_def)
  then show ?thesis using v(1) cert_dec_iff [OF ok] wf(1) dec cv inj win by blast
qed

definition certified_identity :: identity_public_key where
  "certified_identity = \<lparr>ipk_signing = skp_public toy_signing, ipk_kem = \<lparr>pk_x448 = replicate 56 1, pk_sntrup = replicate 1158 1\<rparr>\<rparr>"

lemma certified_identity_valid: "identity_pk_valid toy_suite certified_identity"
proof -
  have "replicate 1158 (1 :: u8) ! 0 \<noteq> replicate 1158 0 ! 0" by simp
  then have "replicate 1158 (1 :: u8) \<noteq> replicate 1158 0" by metis
  then show ?thesis
    using keypair_pk_valid [OF toy_signing_wf]
    by (simp add: identity_pk_valid_def certified_identity_def public_key_valid_def kem_pk_wf_def kem_sizes)
qed

end
