(* ===== verification/Device_Certificates.thy ===== *)
theory Device_Certificates
  imports Recovery
begin

text \<open>
  Certificates about devices: approvals of new devices (\<open>trelis-multidevice/src/approval.rs\<close>) and
  revocations (\<open>revocation.rs\<close>). The store of server nonces is the caller's.
\<close>

section \<open>Approvals\<close>

definition APPROVAL_CONTEXT :: bytes where "APPROVAL_CONTEXT = map of_char ''trelis-device-approval-v1''"

record nonce_window =
  nw_seconds :: u64

definition nonce_window_default :: nonce_window where "nonce_window_default = \<lparr>nw_seconds = 300\<rparr>"

record device_approval =
  da_approving_device_id :: bytes
  da_user_id :: bytes
  da_new_device_fingerprint :: bytes
  da_server_nonce :: bytes
  da_approving_device_pk :: signing_public_key
  da_account_identity_pk :: signing_public_key
  da_approved_at :: u64
  da_signature :: hybrid_signature

definition approval_signing_data ::
  "bytes \<Rightarrow> bytes \<Rightarrow> bytes \<Rightarrow> bytes \<Rightarrow> signing_public_key \<Rightarrow> signing_public_key \<Rightarrow> u64 \<Rightarrow> bytes" where
  "approval_signing_data approving_device_id user_id new_device_fingerprint server_nonce approving_device_pk account_identity_pk approved_at =
     APPROVAL_CONTEXT @ approving_device_id @ user_id @ new_device_fingerprint @ server_nonce
     @ signing_pk_to_bytes approving_device_pk @ signing_pk_to_bytes account_identity_pk @ le_bytes 8 approved_at"

definition approval_new ::
  "primitives \<Rightarrow> sig_suite \<Rightarrow> sign_coins \<Rightarrow> bytes \<Rightarrow> bytes \<Rightarrow> bytes \<Rightarrow> bytes \<Rightarrow> signing_public_key \<Rightarrow> u64 \<Rightarrow> signing_keypair
     \<Rightarrow> device_approval result" where
  "approval_new p g coins approving_device_id user_id new_device_fingerprint server_nonce account_identity_pk approved_at signing_key =
     (let approving_device_pk = skp_public signing_key;
          sig_data = approval_signing_data approving_device_id user_id new_device_fingerprint server_nonce
            approving_device_pk account_identity_pk approved_at in
      tryR (hybrid_sign p g coins signing_key sig_data) (\<lambda>signature.
      Inr \<lparr>da_approving_device_id = approving_device_id, da_user_id = user_id, da_new_device_fingerprint = new_device_fingerprint,
        da_server_nonce = server_nonce, da_approving_device_pk = approving_device_pk, da_account_identity_pk = account_identity_pk,
        da_approved_at = approved_at, da_signature = signature\<rparr>))"

definition abs_diff :: "u64 \<Rightarrow> u64 \<Rightarrow> u64" where
  "abs_diff a b = (if a < b then b - a else a - b)"

definition approval_verify ::
  "primitives \<Rightarrow> sig_suite \<Rightarrow> signing_public_key \<Rightarrow> u64 \<Rightarrow> nonce_window \<Rightarrow> device_approval \<Rightarrow> unit result" where
  "approval_verify p g expected_account_identity_pk now window a =
     (let elapsed = abs_diff now (da_approved_at a) in
      if elapsed > nw_seconds window then Inl NonceExpired
      else if signing_pk_to_bytes (da_account_identity_pk a) \<noteq> signing_pk_to_bytes expected_account_identity_pk then Inl IdentityKeyMismatch
      else let sig_data = approval_signing_data (da_approving_device_id a) (da_user_id a) (da_new_device_fingerprint a)
             (da_server_nonce a) (da_approving_device_pk a) (da_account_identity_pk a) (da_approved_at a) in
           hybrid_verify p g (da_approving_device_pk a) sig_data (da_signature a))"

definition approval_to_bytes :: "device_approval \<Rightarrow> bytes" where
  "approval_to_bytes a = da_approving_device_id a @ da_user_id a @ da_new_device_fingerprint a @ da_server_nonce a
     @ signing_pk_to_bytes (da_approving_device_pk a) @ signing_pk_to_bytes (da_account_identity_pk a)
     @ le_bytes 8 (da_approved_at a) @ signature_to_bytes (da_signature a)"

definition APPROVAL_BODY_SIZE :: nat where "APPROVAL_BODY_SIZE = 16 + 32 + 32 + 32 + 2009 + 2009 + 8"

definition approval_from_bytes :: "sig_suite \<Rightarrow> bytes \<Rightarrow> device_approval result" where
  "approval_from_bytes g bs =
     (if length bs < APPROVAL_BODY_SIZE then Inl MalformedMessage
      else let approving_device_id = sub_slice 0 16 bs; user_id = sub_slice 16 48 bs;
               new_device_fingerprint = sub_slice 48 80 bs; server_nonce = sub_slice 80 112 bs in
      tryR (malformed (signing_pk_from_bytes g (sub_slice 112 2121 bs))) (\<lambda>approving_device_pk.
      tryR (malformed (signing_pk_from_bytes g (sub_slice 2121 4130 bs))) (\<lambda>account_identity_pk.
      let approved_at = le_word (sub_slice 4130 4138 bs) in
      tryR (malformed (signature_from_bytes g (drop 4138 bs))) (\<lambda>signature.
      Inr \<lparr>da_approving_device_id = approving_device_id, da_user_id = user_id, da_new_device_fingerprint = new_device_fingerprint,
        da_server_nonce = server_nonce, da_approving_device_pk = approving_device_pk, da_account_identity_pk = account_identity_pk,
        da_approved_at = approved_at, da_signature = signature\<rparr>))))"

definition device_fingerprint :: "primitives \<Rightarrow> signing_public_key \<Rightarrow> bytes" where
  "device_fingerprint p public_key = b3hash p (signing_pk_to_bytes public_key)"

section \<open>Revocations\<close>

definition REVOCATION_CONTEXT :: bytes where "REVOCATION_CONTEXT = map of_char ''trelis-device-revocation-v1''"

datatype revocation_reason = UserInitiated | DeviceLost | DeviceCompromised | DeviceReplaced

definition revocation_reason_from_byte :: "u8 \<Rightarrow> revocation_reason option" where
  "revocation_reason_from_byte b =
     (if b = 0 then Some UserInitiated else if b = 1 then Some DeviceLost
      else if b = 2 then Some DeviceCompromised else if b = 3 then Some DeviceReplaced else None)"

primrec revocation_reason_to_byte :: "revocation_reason \<Rightarrow> u8" where
  "revocation_reason_to_byte UserInitiated = 0"
| "revocation_reason_to_byte DeviceLost = 1"
| "revocation_reason_to_byte DeviceCompromised = 2"
| "revocation_reason_to_byte DeviceReplaced = 3"

primrec revocation_description :: "revocation_reason \<Rightarrow> string" where
  "revocation_description UserInitiated = ''User initiated revocation''"
| "revocation_description DeviceLost = ''Device reported lost''"
| "revocation_description DeviceCompromised = ''Device believed compromised''"
| "revocation_description DeviceReplaced = ''Device replaced''"

record device_revocation =
  dr_device_id :: bytes
  dr_revoked_at :: u64
  dr_reason :: revocation_reason
  dr_signature :: hybrid_signature

definition revocation_signing_data :: "bytes \<Rightarrow> u64 \<Rightarrow> revocation_reason \<Rightarrow> bytes" where
  "revocation_signing_data device_id revoked_at reason =
     REVOCATION_CONTEXT @ device_id @ le_bytes 8 revoked_at @ [revocation_reason_to_byte reason]"

definition revocation_new ::
  "primitives \<Rightarrow> sig_suite \<Rightarrow> sign_coins \<Rightarrow> bytes \<Rightarrow> revocation_reason \<Rightarrow> u64 \<Rightarrow> signing_keypair \<Rightarrow> device_revocation result" where
  "revocation_new p g coins device_id reason revoked_at signing_key =
     (let sig_data = revocation_signing_data device_id revoked_at reason in
      tryR (hybrid_sign p g coins signing_key sig_data) (\<lambda>signature.
      Inr \<lparr>dr_device_id = device_id, dr_revoked_at = revoked_at, dr_reason = reason, dr_signature = signature\<rparr>))"

definition revocation_verify :: "primitives \<Rightarrow> sig_suite \<Rightarrow> signing_public_key \<Rightarrow> device_revocation \<Rightarrow> unit result" where
  "revocation_verify p g user_key r =
     (let sig_data = revocation_signing_data (dr_device_id r) (dr_revoked_at r) (dr_reason r) in
      hybrid_verify p g user_key sig_data (dr_signature r))"

definition revocation_to_bytes :: "device_revocation \<Rightarrow> bytes" where
  "revocation_to_bytes r = dr_device_id r @ le_bytes 8 (dr_revoked_at r) @ [revocation_reason_to_byte (dr_reason r)]
     @ signature_to_bytes (dr_signature r)"

definition revocation_from_bytes :: "sig_suite \<Rightarrow> bytes \<Rightarrow> device_revocation result" where
  "revocation_from_bytes g bs =
     (if length bs < 25 then Inl MalformedMessage
      else let device_id = sub_slice 0 16 bs; revoked_at = le_word (sub_slice 16 24 bs) in
      tryR (ok_or MalformedMessage (revocation_reason_from_byte (bs ! 24))) (\<lambda>reason.
      tryR (malformed (signature_from_bytes g (drop 25 bs))) (\<lambda>signature.
      Inr \<lparr>dr_device_id = device_id, dr_revoked_at = revoked_at, dr_reason = reason, dr_signature = signature\<rparr>)))"

record rekey_event =
  re_device_id :: bytes
  re_reason :: revocation_reason
  re_revoked_at :: u64

definition from_revocation :: "device_revocation \<Rightarrow> rekey_event" where
  "from_revocation r = \<lparr>re_device_id = dr_device_id r, re_reason = dr_reason r, re_revoked_at = dr_revoked_at r\<rparr>"

definition requires_immediate_rekey :: "rekey_event \<Rightarrow> bool" where
  "requires_immediate_rekey e \<longleftrightarrow> re_reason e = DeviceCompromised"

section \<open>Lemmas\<close>

definition approval_wf :: "sig_suite \<Rightarrow> device_approval \<Rightarrow> bool" where
  "approval_wf g a \<longleftrightarrow> length (da_approving_device_id a) = 16 \<and> length (da_user_id a) = 32 \<and> length (da_new_device_fingerprint a) = 32
     \<and> length (da_server_nonce a) = 32 \<and> signing_pk_valid g (da_approving_device_pk a) \<and> signing_pk_valid g (da_account_identity_pk a)
     \<and> signature_valid g (da_signature a)"

lemma approval_dec_iff:
  assumes "suite_ok g"
  shows "approval_from_bytes g bs = Inr a \<longleftrightarrow> approval_wf g a \<and> bs = approval_to_bytes a"
proof
  assume "approval_from_bytes g bs = Inr a"
  then have len: "4138 \<le> length bs" and r: "signing_pk_from_bytes g (sub_slice 112 2121 bs) = Inr (da_approving_device_pk a)"
    "signing_pk_from_bytes g (sub_slice 2121 4130 bs) = Inr (da_account_identity_pk a)"
    "da_approving_device_id a = sub_slice 0 16 bs" "da_user_id a = sub_slice 16 48 bs" "da_new_device_fingerprint a = sub_slice 48 80 bs"
    "da_server_nonce a = sub_slice 80 112 bs" "da_approved_at a = le_word (sub_slice 4130 4138 bs)"
    "signature_from_bytes g (drop 4138 bs) = Inr (da_signature a)"
    by (auto simp: approval_from_bytes_def APPROVAL_BODY_SIZE_def try_simps Let_def split: if_splits)
  have "bs = take 4138 bs @ drop 4138 bs" by simp
  also have "take 4138 bs = sub_slice 0 16 bs @ sub_slice 16 48 bs @ sub_slice 48 80 bs @ sub_slice 80 112 bs
      @ sub_slice 112 2121 bs @ sub_slice 2121 4130 bs @ sub_slice 4130 4138 bs"
    by (simp add: sub_slice_def flip: take_add append_assoc)
  finally have "bs = sub_slice 0 16 bs @ sub_slice 16 48 bs @ sub_slice 48 80 bs @ sub_slice 80 112 bs
      @ sub_slice 112 2121 bs @ sub_slice 2121 4130 bs @ sub_slice 4130 4138 bs @ drop 4138 bs" by simp
  moreover have "le_bytes 8 (le_word (sub_slice 4130 4138 bs) :: u64) = sub_slice 4130 4138 bs"
    using le_bytes_le_word [of "sub_slice 4130 4138 bs", where 'a = 64] len by simp
  ultimately show "approval_wf g a \<and> bs = approval_to_bytes a"
    using r len unfolding signing_pk_dec_iff [OF assms] signature_dec_iff [OF assms]
    by (simp add: approval_wf_def approval_to_bytes_def)
next
  assume a: "approval_wf g a \<and> bs = approval_to_bytes a"
  then have "length (signing_pk_to_bytes (da_approving_device_pk a)) = 2009" "length (signing_pk_to_bytes (da_account_identity_pk a)) = 2009"
    by (auto simp: approval_wf_def intro: length_signing_pk)
  with a show "approval_from_bytes g bs = Inr a"
    by (simp add: approval_wf_def approval_to_bytes_def approval_from_bytes_def APPROVAL_BODY_SIZE_def Let_def slice_fields sub_slice_def)
qed

definition revocation_wf :: "sig_suite \<Rightarrow> device_revocation \<Rightarrow> bool" where
  "revocation_wf g r \<longleftrightarrow> length (dr_device_id r) = 16 \<and> signature_valid g (dr_signature r)"

lemma revocation_reason_codec: "revocation_reason_from_byte b = Some r \<longleftrightarrow> b = revocation_reason_to_byte r"
  by (cases r) (auto simp: revocation_reason_from_byte_def)

lemma revocation_dec_iff:
  assumes "suite_ok g"
  shows "revocation_from_bytes g bs = Inr r \<longleftrightarrow> revocation_wf g r \<and> bs = revocation_to_bytes r"
proof
  assume "revocation_from_bytes g bs = Inr r"
  then have len: "25 \<le> length bs" and f: "dr_device_id r = sub_slice 0 16 bs" "dr_revoked_at r = le_word (sub_slice 16 24 bs)"
    "bs ! 24 = revocation_reason_to_byte (dr_reason r)" "signature_from_bytes g (drop 25 bs) = Inr (dr_signature r)"
    by (auto simp: revocation_from_bytes_def try_simps Let_def ok_or_eq_Inr revocation_reason_codec split: if_splits)
  have "bs = take 25 bs @ drop 25 bs" by simp
  also have "take 25 bs = sub_slice 0 16 bs @ sub_slice 16 24 bs @ [bs ! 24]"
  proof -
    have "take 25 bs = take 24 bs @ [bs ! 24]" using len take_Suc_conv_app_nth [of 24 bs] by simp
    moreover have "take 24 bs = sub_slice 0 16 bs @ sub_slice 16 24 bs" by (simp add: sub_slice_def flip: take_add)
    ultimately show ?thesis by simp
  qed
  finally have "bs = sub_slice 0 16 bs @ sub_slice 16 24 bs @ [bs ! 24] @ drop 25 bs" by simp
  moreover have "le_bytes 8 (le_word (sub_slice 16 24 bs) :: u64) = sub_slice 16 24 bs"
    using le_bytes_le_word [of "sub_slice 16 24 bs", where 'a = 64] len by simp
  ultimately show "revocation_wf g r \<and> bs = revocation_to_bytes r"
    using f len unfolding signature_dec_iff [OF assms] by (simp add: revocation_wf_def revocation_to_bytes_def)
next
  assume "revocation_wf g r \<and> bs = revocation_to_bytes r"
  then show "revocation_from_bytes g bs = Inr r"
    using revocation_reason_codec [of _ "dr_reason r", THEN iffD2]
    by (simp add: revocation_wf_def revocation_to_bytes_def revocation_from_bytes_def Let_def slice_fields sub_slice_def nth_append)
qed

lemma approval_data_inject:
  assumes "length i = 16" "length i' = 16" "length u = 32" "length u' = 32" "length f = 32" "length f' = 32" "length n = 32" "length n' = 32"
    "signing_pk_wf k" "signing_pk_wf k'" "signing_pk_wf l" "signing_pk_wf l'"
  shows "approval_signing_data i u f n k l t = approval_signing_data i' u' f' n' k' l' t' \<longleftrightarrow> (i, u, f, n, k, l, t) = (i', u', f', n', k', l', t')"
proof -
  have "length (signing_pk_to_bytes k) = 2009" if "signing_pk_wf k" for k
    using that by (simp add: signing_pk_wf_def signing_pk_to_bytes_def)
  with assms show ?thesis
    using signing_pk_inject [of k k'] signing_pk_inject [of l l'] le_bytes_8_iff [of t t']
    by (simp add: approval_signing_data_def)
qed

text \<open>A revocation verifies under the key that signed it, is read back from its bytes and from no others, and
  asks for an immediate rekey when the device is compromised.\<close>

lemma revocation_delivers:
  assumes kp: "signing_keypair_wf g kp" and len: "length i = 16" and new: "revocation_new p g coins i reason at kp = Inr r"
  shows "revocation_verify p g (skp_public kp) r = Inr ()" "revocation_from_bytes g bs = Inr r \<longleftrightarrow> bs = revocation_to_bytes r"
    "requires_immediate_rekey (from_revocation r) \<longleftrightarrow> reason = DeviceCompromised"
proof -
  obtain s where s: "hybrid_sign p g coins kp (revocation_signing_data i at reason) = Inr s"
    "r = \<lparr>dr_device_id = i, dr_revoked_at = at, dr_reason = reason, dr_signature = s\<rparr>"
    using new by (auto simp: revocation_new_def try_simps Let_def)
  show "revocation_verify p g (skp_public kp) r = Inr ()"
    using hybrid_plain.verifies [OF kp s(1)] by (simp add: revocation_verify_def s(2) Let_def)
  have "revocation_wf g r" using len signed_is_valid [OF kp s(1)] by (simp add: revocation_wf_def s(2))
  then show "revocation_from_bytes g bs = Inr r \<longleftrightarrow> bs = revocation_to_bytes r"
    using revocation_dec_iff [OF signing_keypair_wf_facts(1) [OF kp]] by blast
  show "requires_immediate_rekey (from_revocation r) \<longleftrightarrow> reason = DeviceCompromised"
    by (simp add: requires_immediate_rekey_def from_revocation_def s(2))
qed

section \<open>Properties\<close>

text \<open>C26. A device approval is accepted exactly inside its window and under the account it names, it is
  read back from its bytes and from no others, and its signed body determines every field. What it
  proves of the account is nothing: the account's identity key is a field that the approving
  device fills in and signs with its own embedded key, so an approval by any key pair at all,
  naming any account it likes, is accepted by every verifier that trusts that account.\<close>

theorem approval_is_self_asserted:
  assumes anyone: "signing_keypair_wf g anyone" and account: "signing_pk_valid g account"
    and len: "length i = 16" "length u = 32" "length f = 32" "length n = 32"
    and new: "approval_new p g coins i u f n account at anyone = Inr a"
  shows "(\<forall>now w. abs_diff now at \<le> nw_seconds w \<longrightarrow> approval_verify p g account now w a = Inr ())
    \<and> (\<forall>now w k. nw_seconds w < abs_diff now at \<longrightarrow> approval_verify p g k now w a = Inl NonceExpired)
    \<and> (\<forall>now w k. abs_diff now at \<le> nw_seconds w \<longrightarrow> signing_pk_wf k \<longrightarrow> k \<noteq> account \<longrightarrow> approval_verify p g k now w a = Inl IdentityKeyMismatch)
    \<and> (\<forall>bs. approval_from_bytes g bs = Inr a \<longleftrightarrow> bs = approval_to_bytes a)
    \<and> (\<forall>b. approval_wf g b \<longrightarrow> approval_signing_data i u f n (skp_public anyone) account at
          = approval_signing_data (da_approving_device_id b) (da_user_id b) (da_new_device_fingerprint b) (da_server_nonce b)
              (da_approving_device_pk b) (da_account_identity_pk b) (da_approved_at b) \<longrightarrow> b = a\<lparr>da_signature := da_signature b\<rparr>)"
proof -
  note pk = keypair_pk_valid [OF anyone] account
  obtain s where s: "hybrid_sign p g coins anyone (approval_signing_data i u f n (skp_public anyone) account at) = Inr s"
    and a: "a = \<lparr>da_approving_device_id = i, da_user_id = u, da_new_device_fingerprint = f, da_server_nonce = n,
      da_approving_device_pk = skp_public anyone, da_account_identity_pk = account, da_approved_at = at, da_signature = s\<rparr>"
    using new by (auto simp: approval_new_def try_simps Let_def)
  have "approval_wf g a" using len pk signed_is_valid [OF anyone s] by (simp add: approval_wf_def a)
  then have "\<forall>bs. approval_from_bytes g bs = Inr a \<longleftrightarrow> bs = approval_to_bytes a"
    using approval_dec_iff [OF signing_keypair_wf_facts(1) [OF anyone]] by blast
  moreover have "\<forall>b. approval_wf g b \<longrightarrow> approval_signing_data i u f n (skp_public anyone) account at
      = approval_signing_data (da_approving_device_id b) (da_user_id b) (da_new_device_fingerprint b) (da_server_nonce b)
          (da_approving_device_pk b) (da_account_identity_pk b) (da_approved_at b) \<longrightarrow> b = a\<lparr>da_signature := da_signature b\<rparr>"
    using len pk pk_valid_wf by (auto simp: approval_wf_def approval_data_inject a)
  moreover have "\<forall>now w. abs_diff now at \<le> nw_seconds w \<longrightarrow> approval_verify p g account now w a = Inr ()"
    using hybrid_plain.verifies [OF anyone s] by (auto simp: approval_verify_def a Let_def)
  moreover have "\<forall>now w k. nw_seconds w < abs_diff now at \<longrightarrow> approval_verify p g k now w a = Inl NonceExpired"
    by (auto simp: approval_verify_def a Let_def dest: leD)
  moreover have "\<forall>now w k. abs_diff now at \<le> nw_seconds w \<longrightarrow> signing_pk_wf k \<longrightarrow> k \<noteq> account
      \<longrightarrow> approval_verify p g k now w a = Inl IdentityKeyMismatch"
    using signing_pk_inject [OF pk_valid_wf [OF account]] by (auto simp: approval_verify_def a Let_def not_less)
  ultimately show ?thesis by blast
qed

definition other_account :: signing_public_key where
  "other_account = \<lparr>spk_ed448 = replicate 57 6, spk_mldsa = replicate 1952 6\<rparr>"

theorem approval_is_self_asserted_witness:
  "\<exists>a. approval_new toy_prims toy_suite (Some (replicate 114 5), []) (replicate 16 1) (replicate 32 2) (replicate 32 3) (replicate 32 4)
      other_account 1000 toy_signing = Inr a
    \<and> skp_public toy_signing \<noteq> other_account
    \<and> approval_verify toy_prims toy_suite other_account 1200 nonce_window_default a = Inr ()
    \<and> approval_verify toy_prims toy_suite other_account 1301 nonce_window_default a = Inl NonceExpired"
proof -
  obtain a where a: "approval_new toy_prims toy_suite (Some (replicate 114 5), []) (replicate 16 1) (replicate 32 2) (replicate 32 3)
      (replicate 32 4) other_account 1000 toy_signing = Inr a"
    using toy_signs by (fastforce simp: approval_new_def hybrid_sign_def try_simps Let_def)
  have valid: "signing_pk_valid toy_suite other_account"
    using toy_suite_ok by (simp add: signing_pk_valid_def other_account_def toy_suite_simps)
  have "spk_mldsa (skp_public toy_signing) = replicate 1952 3"
    by (simp add: toy_signing_def signing_from_components_def toy_suite_simps)
  moreover have "replicate 1952 (3 :: u8) \<noteq> replicate 1952 6" by (simp add: replicate_eq_replicate)
  ultimately have "skp_public toy_signing \<noteq> other_account" by (auto simp: other_account_def)
  with approval_is_self_asserted [OF toy_signing_wf valid _ _ _ _ a] a show ?thesis
    by (simp add: abs_diff_def nonce_window_default_def)
qed

end
