(* ===== verification/Retained_Keys.thy ===== *)
theory Retained_Keys
  imports Crypto_Error "HOL-Library.Multiset"
begin

text \<open>
  Retained message keys (\<open>trelis-multidevice/src/retained_key.rs\<close>) and the settings and key store of
  a thread (\<open>settings.rs\<close>). The store is a vector sorted by sequence number; it is searched with the
  standard library's binary search, modelled as its loop, and what the store relies on is the
  documented contract of the search, stated as a locale. Zeroising is not visible in the model:
  what is evicted or cleared is gone.
\<close>

section \<open>Retained keys\<close>

record retained_key =
  rk_message_id :: bytes
  rk_message_key :: bytes
  rk_sequence :: u64
  rk_timestamp :: u64

definition retained_key_new :: "bytes \<Rightarrow> bytes \<Rightarrow> u64 \<Rightarrow> u64 \<Rightarrow> retained_key" where
  "retained_key_new message_id message_key sequence timestamp =
     \<lparr>rk_message_id = message_id, rk_message_key = message_key, rk_sequence = sequence, rk_timestamp = timestamp\<rparr>"

definition RETAINED_KEY_SIZE :: nat where "RETAINED_KEY_SIZE = 80"

definition retained_key_to_bytes :: "retained_key \<Rightarrow> bytes" where
  "retained_key_to_bytes k = rk_message_id k @ rk_message_key k @ le_bytes 8 (rk_sequence k) @ le_bytes 8 (rk_timestamp k)"

definition retained_key_from_bytes :: "bytes \<Rightarrow> retained_key result" where
  "retained_key_from_bytes bs =
     (if length bs \<noteq> RETAINED_KEY_SIZE then Inl MalformedMessage
      else Inr \<lparr>rk_message_id = sub_slice 0 32 bs, rk_message_key = sub_slice 32 64 bs,
        rk_sequence = le_word (sub_slice 64 72 bs), rk_timestamp = le_word (sub_slice 72 80 bs)\<rparr>)"

section \<open>Binary search\<close>

text \<open>\<open>binary_search_by_key\<close> of the standard library: the loop halves the window [\<open>base\<close>, \<open>base\<close> + \<open>width\<close>).
  \<open>Inr\<close> is a position of the key, \<open>Inl\<close> the place where it can be inserted.\<close>

function search_loop :: "u64 list \<Rightarrow> u64 \<Rightarrow> nat \<Rightarrow> nat \<Rightarrow> nat" where
  "search_loop xs k base width =
     (if width \<le> 1 then base
      else let half = width div 2; mid = base + half in
           search_loop xs k (if xs ! mid > k then base else mid) (width - half))"
  by pat_completeness auto
termination
  by (relation "measure (\<lambda>(xs, k, base, width). width)") auto

declare search_loop.simps [simp del]

definition binary_search :: "u64 list \<Rightarrow> u64 \<Rightarrow> nat + nat" where
  "binary_search xs k =
     (if xs = [] then Inl 0
      else let base = search_loop xs k 0 (length xs) in
           if xs ! base = k then Inr base else Inl (base + (if xs ! base < k then 1 else 0)))"

section \<open>Settings and the key store\<close>

definition MAX_RETAINED_KEYS :: nat where "MAX_RETAINED_KEYS = 100000"

record thread_settings =
  ts_thread_id :: bytes
  history_sync_enabled :: bool
  history_sync_changed_at :: "u64 option"

definition thread_settings_new :: "bytes \<Rightarrow> thread_settings" where
  "thread_settings_new thread_id =
     \<lparr>ts_thread_id = thread_id, history_sync_enabled = True, history_sync_changed_at = None\<rparr>"

definition new_ephemeral :: "bytes \<Rightarrow> u64 \<Rightarrow> thread_settings" where
  "new_ephemeral thread_id timestamp =
     \<lparr>ts_thread_id = thread_id, history_sync_enabled = False, history_sync_changed_at = Some timestamp\<rparr>"

definition enable_history_sync :: "u64 \<Rightarrow> thread_settings \<Rightarrow> thread_settings" where
  "enable_history_sync timestamp s = s\<lparr>history_sync_enabled := True, history_sync_changed_at := Some timestamp\<rparr>"

definition disable_history_sync :: "u64 \<Rightarrow> thread_settings \<Rightarrow> thread_settings" where
  "disable_history_sync timestamp s = s\<lparr>history_sync_enabled := False, history_sync_changed_at := Some timestamp\<rparr>"

record thread_key_store =
  tk_thread_id :: bytes
  tk_keys :: "retained_key list"

definition key_store_new :: "bytes \<Rightarrow> thread_key_store" where
  "key_store_new thread_id = \<lparr>tk_thread_id = thread_id, tk_keys = []\<rparr>"

definition insert_sorted :: "retained_key \<Rightarrow> retained_key list \<Rightarrow> retained_key list" where
  "insert_sorted key keys =
     (let pos = (case binary_search (map rk_sequence keys) (rk_sequence key) of Inr p \<Rightarrow> p | Inl p \<Rightarrow> p) in
      take pos keys @ key # drop pos keys)"

definition enforce_cap :: "retained_key list \<Rightarrow> retained_key list" where
  "enforce_cap keys =
     (if length keys > MAX_RETAINED_KEYS then let overflow = length keys - MAX_RETAINED_KEYS in drop overflow keys else keys)"

definition retain_key :: "retained_key \<Rightarrow> thread_key_store \<Rightarrow> thread_key_store" where
  "retain_key key s = s\<lparr>tk_keys := enforce_cap (insert_sorted key (tk_keys s))\<rparr>"

fun merge_keys :: "retained_key list \<Rightarrow> retained_key list \<Rightarrow> retained_key list" where
  "merge_keys [] keys = keys"
| "merge_keys (key # other) keys =
     (if \<exists>k \<in> set keys. rk_message_id k = rk_message_id key then merge_keys other keys
      else merge_keys other (insert_sorted key keys))"

definition store_merge :: "retained_key list \<Rightarrow> thread_key_store \<Rightarrow> thread_key_store" where
  "store_merge other_keys s = s\<lparr>tk_keys := enforce_cap (merge_keys other_keys (tk_keys s))\<rparr>"

definition store_clear :: "thread_key_store \<Rightarrow> thread_key_store" where
  "store_clear s = s\<lparr>tk_keys := []\<rparr>"

definition prune_before :: "u64 \<Rightarrow> thread_key_store \<Rightarrow> thread_key_store" where
  "prune_before timestamp s = s\<lparr>tk_keys := filter (\<lambda>k. timestamp \<le> rk_timestamp k) (tk_keys s)\<rparr>"

definition get_key :: "bytes \<Rightarrow> thread_key_store \<Rightarrow> retained_key option" where
  "get_key message_id s = find (\<lambda>k. rk_message_id k = message_id) (tk_keys s)"

definition get_key_by_sequence :: "u64 \<Rightarrow> thread_key_store \<Rightarrow> retained_key option" where
  "get_key_by_sequence sequence s =
     (case binary_search (map rk_sequence (tk_keys s)) sequence of Inr idx \<Rightarrow> Some (tk_keys s ! idx) | Inl _ \<Rightarrow> None)"

definition sequence_range :: "thread_key_store \<Rightarrow> (u64 \<times> u64) option" where
  "sequence_range s = (if tk_keys s = [] then None else Some (rk_sequence (hd (tk_keys s)), rk_sequence (last (tk_keys s))))"

section \<open>Interface: search in a sorted vector\<close>

locale sorted_search =
  fixes search :: "'a::linorder list \<Rightarrow> 'a \<Rightarrow> nat + nat"
  assumes found: "sorted xs \<Longrightarrow> search xs k = Inr p \<Longrightarrow> p < length xs \<and> xs ! p = k"
    and missing: "sorted xs \<Longrightarrow> search xs k = Inl p \<Longrightarrow> p \<le> length xs \<and> (\<forall>x \<in> set (take p xs). x < k) \<and> (\<forall>x \<in> set (drop p xs). k < x)"
begin

lemma found_iff:
  assumes "sorted xs"
  shows "(\<exists>p. search xs k = Inr p) \<longleftrightarrow> k \<in> set xs"
proof
  assume "k \<in> set xs"
  show "\<exists>p. search xs k = Inr p"
  proof (cases "search xs k")
    case (Inl p)
    have "k \<in> set (take p xs) \<union> set (drop p xs)" using \<open>k \<in> set xs\<close> by (metis append_take_drop_id set_append)
    then show ?thesis using missing [OF assms Inl] by auto
  qed simp
qed (use found [OF assms] in \<open>auto simp: in_set_conv_nth\<close>)

lemma insert_keeps_sorted:
  assumes "sorted xs" and p: "p = (case search xs k of Inr p \<Rightarrow> p | Inl p \<Rightarrow> p)"
  shows "sorted (take p xs @ k # drop p xs)" "p \<le> length xs"
proof -
  have "(\<forall>x \<in> set (take p xs). x \<le> k) \<and> (\<forall>x \<in> set (drop p xs). k \<le> x) \<and> p \<le> length xs"
  proof (cases "search xs k")
    case (Inl q)
    then show ?thesis using missing [OF assms(1) Inl] by (auto simp: p intro: less_imp_le)
  next
    case (Inr q)
    then have q: "q < length xs" "xs ! q = k" "p = q" using found [OF assms(1) Inr] by (simp_all add: p)
    have "x \<le> k" if "x \<in> set (take q xs)" for x
      using that q sorted_nth_mono [OF assms(1), of _ q] by (auto simp: in_set_conv_nth)
    moreover have "k \<le> x" if "x \<in> set (drop q xs)" for x
      using that q sorted_nth_mono [OF assms(1), of q] by (auto simp: in_set_conv_nth)
    ultimately show ?thesis using q by simp
  qed
  moreover have "sorted (take p xs)" "sorted (drop p xs)" using assms(1) by (simp_all add: sorted_wrt_take sorted_wrt_drop)
  ultimately show "sorted (take p xs @ k # drop p xs)" "p \<le> length xs"
    by (auto simp: sorted_append) (meson order_trans)
qed

end

lemma search_loop_window:
  assumes "sorted xs" "0 < width" "base + width \<le> length xs" "base = 0 \<or> xs ! base \<le> k" "\<forall>j < length xs. base + width \<le> j \<longrightarrow> k < xs ! j"
  shows "search_loop xs k base width < length xs \<and> (search_loop xs k base width = 0 \<or> xs ! search_loop xs k base width \<le> k)
    \<and> (\<forall>j < length xs. search_loop xs k base width < j \<longrightarrow> k < xs ! j)"
  using assms
proof (induction xs k base width rule: search_loop.induct)
  case (1 xs k base width)
  show ?case
  proof (cases "width \<le> 1")
    case True
    then have "width = 1" using "1.prems"(2) by simp
    then show ?thesis using "1.prems" by (simp add: search_loop.simps)
  next
    case False
    define half where "half = width div 2"
    define mid where "mid = base + half"
    have h: "0 < half" "half < width" "mid < length xs" using False "1.prems"(3) by (auto simp: half_def mid_def)
    have eq: "search_loop xs k base width = search_loop xs k (if xs ! mid > k then base else mid) (width - half)"
      using False by (simp add: search_loop.simps [of xs k base width] Let_def half_def mid_def)
    have "\<forall>j < length xs. (if xs ! mid > k then base else mid) + (width - half) \<le> j \<longrightarrow> k < xs ! j"
    proof (intro allI impI)
      fix j assume j: "j < length xs" "(if xs ! mid > k then base else mid) + (width - half) \<le> j"
      show "k < xs ! j"
      proof (cases "xs ! mid > k")
        case True
        then have "mid \<le> j" using j(2) by (simp add: mid_def half_def)
        then show ?thesis using True sorted_nth_mono [OF "1.prems"(1), of mid j] j(1) by simp
      next
        case False
        then have "base + width \<le> j" using j(2) h(2) by (simp add: mid_def)
        then show ?thesis using "1.prems"(5) j(1) by simp
      qed
    qed
    moreover have "0 < width - half" "(if xs ! mid > k then base else mid) + (width - half) \<le> length xs"
      "(if xs ! mid > k then base else mid) = 0 \<or> xs ! (if xs ! mid > k then base else mid) \<le> k"
      using h "1.prems"(3,4) by (auto simp: mid_def not_less)
    ultimately show ?thesis
      using "1.IH" [OF False half_def mid_def "1.prems"(1)] unfolding eq by blast
  qed
qed

interpretation binary: sorted_search binary_search
proof
  fix xs k p
  assume s: "sorted (xs :: u64 list)"
  have "0 < length xs \<Longrightarrow> search_loop xs k 0 (length xs) < length xs
      \<and> (search_loop xs k 0 (length xs) = 0 \<or> xs ! search_loop xs k 0 (length xs) \<le> k)
      \<and> (\<forall>j < length xs. search_loop xs k 0 (length xs) < j \<longrightarrow> k < xs ! j)"
    using search_loop_window [OF s, of "length xs" 0 k] by simp
  then obtain b where b: "b = search_loop xs k 0 (length xs)"
    "xs \<noteq> [] \<Longrightarrow> b < length xs \<and> (b = 0 \<or> xs ! b \<le> k) \<and> (\<forall>j < length xs. b < j \<longrightarrow> k < xs ! j)" by auto
  show "binary_search xs k = Inr p \<Longrightarrow> p < length xs \<and> xs ! p = k"
    using b by (auto simp: binary_search_def Let_def split: if_splits)
  assume p: "binary_search xs k = Inl p"
  show "p \<le> length xs \<and> (\<forall>x \<in> set (take p xs). x < k) \<and> (\<forall>x \<in> set (drop p xs). k < x)"
  proof (cases "xs = []")
    case False
    then have pb: "p = b + (if xs ! b < k then 1 else 0)" "xs ! b \<noteq> k" using p b(1) by (auto simp: binary_search_def Let_def split: if_splits)
    have w: "b < length xs" "b = 0 \<or> xs ! b \<le> k" "\<And>j. j < length xs \<Longrightarrow> b < j \<Longrightarrow> k < xs ! j" using b(2) [OF False] by auto
    have "x < k" if x: "x \<in> set (take p xs)" for x
    proof -
      obtain i where i: "i < p" "i < length xs" "x = xs ! i" using x by (auto simp: in_set_conv_nth)
      show ?thesis
      proof (cases "xs ! b < k")
        case True
        then have "i \<le> b" using i(1) pb(1) by simp
        then show ?thesis using sorted_nth_mono [OF s, of i b] w(1) True i(3) by simp
      next
        case f: False
        then have "b = 0" using w(2) pb(2) by auto
        then show ?thesis using i(1) pb(1) f by simp
      qed
    qed
    moreover have "k < x" if x: "x \<in> set (drop p xs)" for x
    proof -
      obtain i where "i < length xs - p" "x = xs ! (p + i)" using x by (auto simp: in_set_conv_nth)
      then obtain j where j: "p \<le> j" "j < length xs" "x = xs ! j" using that [of "p + i"] by simp
      show ?thesis
      proof (cases "b < j")
        case True
        then show ?thesis using w(3) j by simp
      next
        case f: False
        then have "j = b" "\<not> xs ! b < k" using j(1) pb(1) by (auto split: if_splits)
        then show ?thesis using j(3) pb(2) by simp
      qed
    qed
    moreover have "p \<le> length xs" using w(1) pb(1) by (simp split: if_splits)
    ultimately show ?thesis by blast
  qed (use p in \<open>simp add: binary_search_def\<close>)
qed

interpretation retained: strict_codec retained_key_to_bytes retained_key_from_bytes
  "\<lambda>k. length (rk_message_id k) = 32 \<and> length (rk_message_key k) = 32"
proof
  fix bs k
  assume d: "retained_key_from_bytes bs = Inr k"
  then have len: "length bs = 80" by (auto simp: retained_key_from_bytes_def RETAINED_KEY_SIZE_def split: if_splits)
  have "bs = take 80 bs" using len by simp
  also have "\<dots> = sub_slice 0 32 bs @ sub_slice 32 64 bs @ sub_slice 64 72 bs @ sub_slice 72 80 bs"
    by (simp add: sub_slice_def flip: take_add append_assoc)
  finally have split: "sub_slice 0 32 bs @ sub_slice 32 64 bs @ sub_slice 64 72 bs @ sub_slice 72 80 bs = bs" by (rule sym)
  have w: "le_bytes 8 (le_word (sub_slice 64 72 bs) :: u64) = sub_slice 64 72 bs" "le_bytes 8 (le_word (sub_slice 72 80 bs) :: u64) = sub_slice 72 80 bs"
    using le_bytes_le_word [of "sub_slice 64 72 bs", where 'a = 64] le_bytes_le_word [of "sub_slice 72 80 bs", where 'a = 64] len by simp_all
  have k: "k = \<lparr>rk_message_id = sub_slice 0 32 bs, rk_message_key = sub_slice 32 64 bs,
      rk_sequence = le_word (sub_slice 64 72 bs), rk_timestamp = le_word (sub_slice 72 80 bs)\<rparr>"
    using d len by (simp add: retained_key_from_bytes_def RETAINED_KEY_SIZE_def)
  have "retained_key_to_bytes k = sub_slice 0 32 bs @ sub_slice 32 64 bs @ sub_slice 64 72 bs @ sub_slice 72 80 bs"
    unfolding k retained_key_to_bytes_def by (simp only: retained_key.simps w)
  also note split
  finally show "(length (rk_message_id k) = 32 \<and> length (rk_message_key k) = 32) \<and> retained_key_to_bytes k = bs"
    using len by (simp add: k)
next
  fix k :: retained_key
  assume "length (rk_message_id k) = 32 \<and> length (rk_message_key k) = 32"
  then show "retained_key_from_bytes (retained_key_to_bytes k) = Inr k"
    by (cases k) (simp add: retained_key_from_bytes_def retained_key_to_bytes_def RETAINED_KEY_SIZE_def sub_slice_def)
qed

section \<open>The store\<close>

definition store_ok :: "thread_key_store \<Rightarrow> bool" where
  "store_ok s \<longleftrightarrow> sorted (map rk_sequence (tk_keys s)) \<and> length (tk_keys s) \<le> MAX_RETAINED_KEYS"

lemma insert_sorted_spec:
  assumes "sorted (map rk_sequence keys)"
  shows "sorted (map rk_sequence (insert_sorted k keys)) \<and> mset (insert_sorted k keys) = add_mset k (mset keys)"
proof -
  define p where "p = (case binary_search (map rk_sequence keys) (rk_sequence k) of Inr p \<Rightarrow> p | Inl p \<Rightarrow> p)"
  have "mset (take p keys @ k # drop p keys) = add_mset k (mset keys)"
    using mset_append [of "take p keys" "drop p keys"] by simp
  with binary.insert_keeps_sorted [OF assms p_def] show ?thesis
    by (simp add: insert_sorted_def Let_def take_map drop_map flip: p_def)
qed

text \<open>What the cap evicts is older than what it leaves, and it leaves a full store.\<close>

lemma enforce_cap_spec:
  assumes "sorted (map rk_sequence keys)"
  shows "\<exists>evicted. keys = evicted @ enforce_cap keys \<and> (\<forall>e \<in> set evicted. \<forall>k \<in> set (enforce_cap keys). rk_sequence e \<le> rk_sequence k)
    \<and> length (enforce_cap keys) = min (length keys) MAX_RETAINED_KEYS"
proof (intro exI conjI)
  show "keys = take (length keys - MAX_RETAINED_KEYS) keys @ enforce_cap keys" by (simp add: enforce_cap_def)
  then show "\<forall>e \<in> set (take (length keys - MAX_RETAINED_KEYS) keys). \<forall>k \<in> set (enforce_cap keys). rk_sequence e \<le> rk_sequence k"
    using assms by (metis (no_types, lifting) imageI list.set_map map_append sorted_append)
  show "length (enforce_cap keys) = min (length keys) MAX_RETAINED_KEYS" by (auto simp: enforce_cap_def)
qed

text \<open>A merge adds the keys whose message is not in the store yet.\<close>

lemma merge_keys_spec:
  assumes "sorted (map rk_sequence keys)"
  shows "sorted (map rk_sequence (merge_keys other keys))
    \<and> (\<exists>added. mset (merge_keys other keys) = mset keys + mset added \<and> set added \<subseteq> set other
      \<and> distinct (map rk_message_id added) \<and> rk_message_id ` set added = rk_message_id ` set other - rk_message_id ` set keys)"
  using assms
proof (induction other keys rule: merge_keys.induct)
  case (2 key other keys)
  show ?case
  proof (cases "\<exists>k \<in> set keys. rk_message_id k = rk_message_id key")
    case True
    then have "rk_message_id key \<in> rk_message_id ` set keys" by (metis image_eqI)
    then have "rk_message_id ` set (key # other) - rk_message_id ` set keys = rk_message_id ` set other - rk_message_id ` set keys" by auto
    with "2.IH"(1) [OF True] "2.prems" True show ?thesis by auto
  next
    case False
    note ins = insert_sorted_spec [OF "2.prems", of key]
    have ids: "rk_message_id ` set (insert_sorted key keys) = insert (rk_message_id key) (rk_message_id ` set keys)"
      using ins by (metis image_insert set_mset_add_mset_insert set_mset_mset)
    from "2.IH"(2) [OF False] ins obtain added where a: "sorted (map rk_sequence (merge_keys other (insert_sorted key keys)))"
      "mset (merge_keys other (insert_sorted key keys)) = add_mset key (mset keys) + mset added" "set added \<subseteq> set other"
      "distinct (map rk_message_id added)"
      "rk_message_id ` set added = rk_message_id ` set other - insert (rk_message_id key) (rk_message_id ` set keys)"
      unfolding ids by auto
    have "rk_message_id key \<notin> rk_message_id ` set keys" using False by auto
    then have "rk_message_id ` set (key # added) = rk_message_id ` set (key # other) - rk_message_id ` set keys"
      using a(5) by auto
    moreover have "distinct (map rk_message_id (key # added))" using a(4,5) by auto
    moreover have "set (key # added) \<subseteq> set (key # other)" using a(3) by auto
    moreover have "mset (merge_keys (key # other) keys) = mset keys + mset (key # added)" using a(2) False by simp
    moreover have "sorted (map rk_sequence (merge_keys (key # other) keys))" using a(1) False by simp
    ultimately show ?thesis by blast
  qed
qed (auto intro: exI [of _ "[]"])

lemma store_ops_ok:
  assumes "store_ok s"
  shows "store_ok (retain_key k s)" "store_ok (store_merge other s)" "store_ok (prune_before t s)" "store_ok (store_clear s)"
proof -
  have capped: "sorted (map rk_sequence (enforce_cap keys)) \<and> length (enforce_cap keys) \<le> MAX_RETAINED_KEYS"
    if "sorted (map rk_sequence keys)" for keys
    using that by (auto simp: enforce_cap_def sorted_wrt_drop simp flip: drop_map)
  have s: "sorted (map rk_sequence (tk_keys s))" "length (tk_keys s) \<le> MAX_RETAINED_KEYS" using assms by (simp_all add: store_ok_def)
  show "store_ok (retain_key k s)" "store_ok (store_merge other s)"
    using insert_sorted_spec [OF s(1)] merge_keys_spec [OF s(1)] capped by (simp_all add: store_ok_def retain_key_def store_merge_def)
  show "store_ok (prune_before t s)"
    using sorted_filter [OF s(1)] le_trans [OF length_filter_le s(2)] by (simp add: store_ok_def prune_before_def)
  show "store_ok (store_clear s)" by (simp add: store_ok_def store_clear_def)
qed

lemma search_finds:
  assumes "store_ok s"
  shows "(get_key_by_sequence q s = None \<longleftrightarrow> q \<notin> rk_sequence ` set (tk_keys s))
    \<and> (\<forall>k. get_key_by_sequence q s = Some k \<longrightarrow> k \<in> set (tk_keys s) \<and> rk_sequence k = q)"
proof -
  have s: "sorted (map rk_sequence (tk_keys s))" using assms by (simp add: store_ok_def)
  show ?thesis
    using binary.found [OF s, of q] binary.found_iff [OF s, of q]
    by (auto simp: get_key_by_sequence_def split: sum.splits)
qed

lemma range_bounds:
  assumes "store_ok s"
  shows "case sequence_range s of None \<Rightarrow> tk_keys s = [] | Some (lo, hi) \<Rightarrow> \<forall>k \<in> set (tk_keys s). lo \<le> rk_sequence k \<and> rk_sequence k \<le> hi"
proof (cases "tk_keys s = []")
  case False
  have s: "sorted (map rk_sequence (tk_keys s))" using assms by (simp add: store_ok_def)
  have "rk_sequence (hd (tk_keys s)) \<le> rk_sequence k \<and> rk_sequence k \<le> rk_sequence (last (tk_keys s))" if k: "k \<in> set (tk_keys s)" for k
  proof -
    obtain i where i: "i < length (tk_keys s)" "k = tk_keys s ! i" using k by (auto simp: in_set_conv_nth)
    then show ?thesis
      using False sorted_nth_mono [OF s, of 0 i] sorted_nth_mono [OF s, of i "length (tk_keys s) - 1"]
      by (simp add: hd_conv_nth last_conv_nth)
  qed
  with False show ?thesis by (simp add: sequence_range_def)
qed (simp add: sequence_range_def)

section \<open>Properties\<close>

datatype store_op = Retain retained_key | Merge "retained_key list" | PruneBefore u64 | Clear

primrec apply_op :: "store_op \<Rightarrow> thread_key_store \<Rightarrow> thread_key_store" where
  "apply_op (Retain k) s = retain_key k s"
| "apply_op (Merge ks) s = store_merge ks s"
| "apply_op (PruneBefore t) s = prune_before t s"
| "apply_op Clear s = store_clear s"

text \<open>After any sequence of retentions, merges, prunings and clearings, the key store of a thread is
  sorted by sequence number and holds at most 100,000 keys; the binary search finds a key of a sequence
  number exactly when there is one, and the reported range bounds every key. Duplicated
  sequence numbers are allowed throughout.\<close>

lemma retention_invariant:
  assumes s: "s = fold apply_op ops (key_store_new thread)"
  shows "tk_thread_id s = thread \<and> sorted (map rk_sequence (tk_keys s)) \<and> length (tk_keys s) \<le> 100000
    \<and> (\<forall>q. get_key_by_sequence q s = None \<longleftrightarrow> q \<notin> rk_sequence ` set (tk_keys s))
    \<and> (\<forall>q k. get_key_by_sequence q s = Some k \<longrightarrow> k \<in> set (tk_keys s) \<and> rk_sequence k = q)
    \<and> (case sequence_range s of None \<Rightarrow> tk_keys s = [] | Some (lo, hi) \<Rightarrow> \<forall>k \<in> set (tk_keys s). lo \<le> rk_sequence k \<and> rk_sequence k \<le> hi)"
proof -
  have "store_ok (fold apply_op ops t) \<and> tk_thread_id (fold apply_op ops t) = tk_thread_id t" if "store_ok t" for t
    using that
  proof (induction ops arbitrary: t)
    case (Cons op ops)
    have "store_ok (apply_op op t)" using store_ops_ok [OF Cons.prems] by (cases op) simp_all
    moreover have "tk_thread_id (apply_op op t) = tk_thread_id t"
      by (cases op) (simp_all add: retain_key_def store_merge_def prune_before_def store_clear_def)
    ultimately show ?case using Cons.IH by simp
  qed simp
  moreover have "store_ok (key_store_new thread)" by (simp add: store_ok_def key_store_new_def)
  ultimately have ok: "store_ok s" "tk_thread_id s = thread" by (simp_all add: s key_store_new_def)
  with search_finds [OF ok(1)] range_bounds [OF ok(1)] show ?thesis by (simp add: store_ok_def MAX_RETAINED_KEYS_def)
qed

text \<open>What is retained is the most recent: retaining or merging keeps the old keys and the new ones,
  for a merge those whose message is not there yet, each once, and evicts only when the store is
  full, and only keys that are no newer than any key that stays.\<close>

lemma most_recent_stay:
  assumes "store_ok s"
  shows "(\<exists>evicted. add_mset k (mset (tk_keys s)) = mset (tk_keys (retain_key k s)) + evicted
      \<and> (\<forall>e \<in># evicted. \<forall>r \<in> set (tk_keys (retain_key k s)). rk_sequence e \<le> rk_sequence r)
      \<and> (evicted \<noteq> {#} \<longrightarrow> length (tk_keys (retain_key k s)) = MAX_RETAINED_KEYS))
    \<and> (\<exists>added evicted. mset (tk_keys s) + mset added = mset (tk_keys (store_merge other s)) + evicted
      \<and> set added \<subseteq> set other \<and> distinct (map rk_message_id added)
      \<and> rk_message_id ` set added = rk_message_id ` set other - rk_message_id ` set (tk_keys s)
      \<and> (\<forall>e \<in># evicted. \<forall>r \<in> set (tk_keys (store_merge other s)). rk_sequence e \<le> rk_sequence r)
      \<and> (evicted \<noteq> {#} \<longrightarrow> length (tk_keys (store_merge other s)) = MAX_RETAINED_KEYS))"
proof -
  have s: "sorted (map rk_sequence (tk_keys s))" using assms by (simp add: store_ok_def)
  have cap: "\<exists>evicted. mset keys = mset (enforce_cap keys) + evicted \<and> (\<forall>e \<in># evicted. \<forall>r \<in> set (enforce_cap keys). rk_sequence e \<le> rk_sequence r)
      \<and> (evicted \<noteq> {#} \<longrightarrow> length (enforce_cap keys) = MAX_RETAINED_KEYS)" if srt: "sorted (map rk_sequence keys)" for keys
  proof -
    obtain ev where ev: "keys = ev @ enforce_cap keys" "\<forall>e \<in> set ev. \<forall>k \<in> set (enforce_cap keys). rk_sequence e \<le> rk_sequence k"
      "length (enforce_cap keys) = min (length keys) MAX_RETAINED_KEYS" using enforce_cap_spec [OF srt] by blast
    have "ev \<noteq> [] \<longrightarrow> length (enforce_cap keys) = MAX_RETAINED_KEYS"
      using ev(3) arg_cong [OF ev(1), of length] by (auto simp: min_def split: if_splits)
    moreover have "mset keys = mset (enforce_cap keys) + mset ev" using arg_cong [OF ev(1), of mset] by (simp add: ac_simps)
    ultimately show ?thesis using ev(2) by (intro exI [of _ "mset ev"]) simp
  qed
  note ins = insert_sorted_spec [OF s, of k]
  from merge_keys_spec [OF s, of other] obtain added where m: "sorted (map rk_sequence (merge_keys other (tk_keys s)))"
    "mset (merge_keys other (tk_keys s)) = mset (tk_keys s) + mset added" "set added \<subseteq> set other" "distinct (map rk_message_id added)"
    "rk_message_id ` set added = rk_message_id ` set other - rk_message_id ` set (tk_keys s)" by blast
  have "\<exists>evicted. add_mset k (mset (tk_keys s)) = mset (tk_keys (retain_key k s)) + evicted
      \<and> (\<forall>e \<in># evicted. \<forall>r \<in> set (tk_keys (retain_key k s)). rk_sequence e \<le> rk_sequence r)
      \<and> (evicted \<noteq> {#} \<longrightarrow> length (tk_keys (retain_key k s)) = MAX_RETAINED_KEYS)"
    using cap [of "insert_sorted k (tk_keys s)"] ins by (simp add: retain_key_def)
  moreover have "\<exists>evicted. mset (tk_keys s) + mset added = mset (tk_keys (store_merge other s)) + evicted
      \<and> (\<forall>e \<in># evicted. \<forall>r \<in> set (tk_keys (store_merge other s)). rk_sequence e \<le> rk_sequence r)
      \<and> (evicted \<noteq> {#} \<longrightarrow> length (tk_keys (store_merge other s)) = MAX_RETAINED_KEYS)"
    using cap [OF m(1)] m(2) by (simp add: store_merge_def)
  ultimately show ?thesis using m(3-5) by blast
qed

end
