(* ===== verification/History_Share.thy ===== *)
theory History_Share
  imports Retained_Keys Recovery
begin

text \<open>
  Shares of the message history (\<open>trelis-multidevice/src/history.rs\<close>): a device signs the retained keys of
  a thread for a new device, which reads the message, checks the signature and merges the keys into its own
  store. Lengths and counts of the wire are \<open>usize\<close> of a 64-bit target.
\<close>

section \<open>Messages\<close>

definition HISTORY_KEY_SHARE_CONTEXT :: bytes where "HISTORY_KEY_SHARE_CONTEXT = map of_char ''trelis-history-key-share-v1''"

record history_share_message =
  hs_thread_id :: bytes
  hs_keys :: "retained_key list"
  hs_signature :: hybrid_signature
  hs_shared_at :: u64

definition history_signing_data :: "primitives \<Rightarrow> bytes \<Rightarrow> retained_key list \<Rightarrow> u64 \<Rightarrow> bytes" where
  "history_signing_data p thread_id keys shared_at =
     (let keys_hash = b3hash p (concat (map retained_key_to_bytes keys)) in
      HISTORY_KEY_SHARE_CONTEXT @ thread_id @ le_bytes 8 (of_nat (length keys) :: u64) @ le_bytes 8 shared_at @ keys_hash)"

definition history_share_new ::
  "primitives \<Rightarrow> sig_suite \<Rightarrow> sign_coins \<Rightarrow> bytes \<Rightarrow> retained_key list \<Rightarrow> signing_keypair \<Rightarrow> u64 \<Rightarrow> history_share_message result" where
  "history_share_new p g coins thread_id keys signing_key shared_at =
     (let sig_data = history_signing_data p thread_id keys shared_at in
      tryR (hybrid_sign p g coins signing_key sig_data) (\<lambda>signature.
      Inr \<lparr>hs_thread_id = thread_id, hs_keys = keys, hs_signature = signature, hs_shared_at = shared_at\<rparr>))"

definition history_share_verify :: "primitives \<Rightarrow> sig_suite \<Rightarrow> signing_public_key \<Rightarrow> history_share_message \<Rightarrow> unit result" where
  "history_share_verify p g sender_key m =
     (let sig_data = history_signing_data p (hs_thread_id m) (hs_keys m) (hs_shared_at m) in
      hybrid_verify p g sender_key sig_data (hs_signature m))"

definition key_count :: "history_share_message \<Rightarrow> nat" where
  "key_count m = length (hs_keys m)"

definition history_share_to_bytes :: "history_share_message \<Rightarrow> bytes" where
  "history_share_to_bytes m = hs_thread_id m @ le_bytes 8 (of_nat (length (hs_keys m)) :: u64)
     @ concat (map retained_key_to_bytes (hs_keys m)) @ le_bytes 8 (hs_shared_at m) @ signature_to_bytes (hs_signature m)"

primrec read_keys :: "nat \<Rightarrow> nat \<Rightarrow> bytes \<Rightarrow> retained_key list result" where
  "read_keys 0 offset bs = Inr []"
| "read_keys (Suc n) offset bs =
     tryR (retained_key_from_bytes (sub_slice offset (offset + RETAINED_KEY_SIZE) bs)) (\<lambda>key.
     tryR (read_keys n (offset + RETAINED_KEY_SIZE) bs) (\<lambda>keys. Inr (key # keys)))"

definition history_share_from_bytes :: "sig_suite \<Rightarrow> bytes \<Rightarrow> history_share_message result" where
  "history_share_from_bytes g bs =
     (if length bs < 48 then Inl MalformedMessage
      else let thread_id = sub_slice 0 32 bs; count = unat (le_word (sub_slice 32 40 bs) :: u64);
               keys_size = count * RETAINED_KEY_SIZE; required = 40 + keys_size + 8 in
      if 2 ^ 64 \<le> keys_size then Inl MalformedMessage
      else if 2 ^ 64 \<le> required then Inl MalformedMessage
      else if length bs < required then Inl MalformedMessage
      else tryR (read_keys count 40 bs) (\<lambda>keys.
           let shared_at = le_word (sub_slice (40 + keys_size) (48 + keys_size) bs) in
           tryR (malformed (signature_from_bytes g (drop (48 + keys_size) bs))) (\<lambda>signature.
           Inr \<lparr>hs_thread_id = thread_id, hs_keys = keys, hs_signature = signature, hs_shared_at = shared_at\<rparr>)))"

record history_key_share =
  hk_thread_id :: bytes
  hk_key_count :: nat
  hk_shared_at :: u64

definition from_message :: "history_share_message \<Rightarrow> history_key_share" where
  "from_message m = \<lparr>hk_thread_id = hs_thread_id m, hk_key_count = length (hs_keys m), hk_shared_at = hs_shared_at m\<rparr>"

section \<open>Lemmas\<close>

definition key_ok :: "retained_key \<Rightarrow> bool" where
  "key_ok k \<longleftrightarrow> length (rk_message_id k) = 32 \<and> length (rk_message_key k) = 32"

text \<open>The last conjunct is a vector that fits the address space with its message.\<close>

definition history_wf :: "sig_suite \<Rightarrow> history_share_message \<Rightarrow> bool" where
  "history_wf g m \<longleftrightarrow> length (hs_thread_id m) = 32 \<and> list_all key_ok (hs_keys m) \<and> signature_valid g (hs_signature m)
     \<and> 48 + 80 * length (hs_keys m) < 2 ^ 64"

lemma length_key [simp]: "key_ok k \<Longrightarrow> length (retained_key_to_bytes k) = 80"
  by (simp add: key_ok_def retained_key_to_bytes_def)

lemma length_keys: "list_all key_ok ks \<Longrightarrow> length (concat (map retained_key_to_bytes ks)) = 80 * length ks"
  by (induction ks) simp_all

lemma key_dec_iff: "retained_key_from_bytes bs = Inr k \<longleftrightarrow> key_ok k \<and> bs = retained_key_to_bytes k"
  using retained.dec_iff [of bs k] by (simp add: key_ok_def)

lemma keys_inject:
  "list_all key_ok ks \<Longrightarrow> list_all key_ok ks' \<Longrightarrow> concat (map retained_key_to_bytes ks) = concat (map retained_key_to_bytes ks') \<longleftrightarrow> ks = ks'"
proof (induction ks arbitrary: ks')
  case Nil
  then show ?case by (cases ks') (auto dest!: arg_cong [of _ _ length])
next
  case (Cons k ks)
  show ?case
  proof (cases ks')
    case Nil
    then show ?thesis using Cons.prems by (auto dest!: arg_cong [of _ _ length])
  next
    case (Cons k' ks2)
    have "retained_key_from_bytes (retained_key_to_bytes k) = Inr k" "retained_key_from_bytes (retained_key_to_bytes k') = Inr k'"
      using Cons.prems Cons by (simp_all add: key_dec_iff)
    then have "retained_key_to_bytes k = retained_key_to_bytes k' \<longleftrightarrow> k = k'" by (metis sum.inject(2))
    then show ?thesis using Cons.prems Cons Cons.IH [of ks2] by simp
  qed
qed

lemma read_keys_iff:
  "offset + 80 * n \<le> length bs \<Longrightarrow>
    read_keys n offset bs = Inr ks \<longleftrightarrow> length ks = n \<and> list_all key_ok ks
      \<and> sub_slice offset (offset + 80 * n) bs = concat (map retained_key_to_bytes ks)"
proof (induction n arbitrary: offset ks)
  case 0
  then show ?case by (auto simp: sub_slice_def)
next
  case (Suc n)
  have split: "sub_slice offset (offset + 80 * Suc n) bs = sub_slice offset (offset + 80) bs @ sub_slice (offset + 80) (offset + 80 + 80 * n) bs"
    using take_add [of 80 "80 * n" "drop offset bs"] by (simp add: sub_slice_def add.commute)
  have len: "length (sub_slice offset (offset + 80) bs) = 80" using Suc.prems by simp
  have "read_keys (Suc n) offset bs = Inr ks \<longleftrightarrow>
      (\<exists>k ks'. ks = k # ks' \<and> retained_key_from_bytes (sub_slice offset (offset + 80) bs) = Inr k \<and> read_keys n (offset + 80) bs = Inr ks')"
    by (auto simp: try_simps RETAINED_KEY_SIZE_def)
  also have "\<dots> \<longleftrightarrow> (\<exists>k ks'. ks = k # ks' \<and> key_ok k \<and> sub_slice offset (offset + 80) bs = retained_key_to_bytes k
      \<and> length ks' = n \<and> list_all key_ok ks' \<and> sub_slice (offset + 80) (offset + 80 + 80 * n) bs = concat (map retained_key_to_bytes ks'))"
    using Suc.IH [of "offset + 80"] Suc.prems by (simp add: key_dec_iff)
  also have "\<dots> \<longleftrightarrow> length ks = Suc n \<and> list_all key_ok ks
      \<and> sub_slice offset (offset + 80 * Suc n) bs = concat (map retained_key_to_bytes ks)"
    unfolding split using len by (cases ks) (auto simp: append_eq_append_conv)
  finally show ?case .
qed

lemma history_dec_iff:
  assumes "suite_ok g"
  shows "history_share_from_bytes g bs = Inr m \<longleftrightarrow> history_wf g m \<and> bs = history_share_to_bytes m"
proof
  define n where "n = unat (le_word (sub_slice 32 40 bs) :: u64)"
  assume "history_share_from_bytes g bs = Inr m"
  then have len: "48 + 80 * n \<le> length bs" "48 + 80 * n < 2 ^ 64" and r: "read_keys n 40 bs = Inr (hs_keys m)"
    and f: "hs_thread_id m = sub_slice 0 32 bs" "hs_shared_at m = le_word (sub_slice (40 + 80 * n) (48 + 80 * n) bs)"
      "signature_from_bytes g (drop (48 + 80 * n) bs) = Inr (hs_signature m)"
    by (auto simp: history_share_from_bytes_def try_simps Let_def RETAINED_KEY_SIZE_def n_def mult.commute split: if_splits)
  have keys: "length (hs_keys m) = n" "list_all key_ok (hs_keys m)" "sub_slice 40 (40 + 80 * n) bs = concat (map retained_key_to_bytes (hs_keys m))"
    using read_keys_iff [of 40 n bs "hs_keys m"] r len by simp_all
  have w: "le_bytes 8 (of_nat n :: u64) = sub_slice 32 40 bs"
      "le_bytes 8 (le_word (sub_slice (40 + 80 * n) (48 + 80 * n) bs) :: u64) = sub_slice (40 + 80 * n) (48 + 80 * n) bs"
    using le_bytes_le_word [of "sub_slice 32 40 bs", where 'a = 64]
      le_bytes_le_word [of "sub_slice (40 + 80 * n) (48 + 80 * n) bs", where 'a = 64] len by (simp_all add: n_def)
  have "bs = take (48 + 80 * n) bs @ drop (48 + 80 * n) bs" by simp
  also have "take (48 + 80 * n) bs = take 32 bs @ sub_slice 32 40 bs @ sub_slice 40 (40 + 80 * n) bs @ sub_slice (40 + 80 * n) (48 + 80 * n) bs"
    using take_add [of 32 8 bs] take_add [of 40 "80 * n" bs] take_add [of "40 + 80 * n" 8 bs] by (simp add: sub_slice_def)
  finally have "bs = history_share_to_bytes m"
    using f(3) unfolding signature_dec_iff [OF assms]
    by (simp add: history_share_to_bytes_def keys f(1,2) w) (simp add: sub_slice_def)
  then show "history_wf g m \<and> bs = history_share_to_bytes m"
    using f keys len unfolding signature_dec_iff [OF assms] by (simp add: history_wf_def)
next
  assume a: "history_wf g m \<and> bs = history_share_to_bytes m"
  define n where "n = length (hs_keys m)"
  have wf: "length (hs_thread_id m) = 32" "list_all key_ok (hs_keys m)" "signature_valid g (hs_signature m)" "48 + 80 * n < 2 ^ 64"
    using a by (simp_all add: history_wf_def n_def)
  have "unat (of_nat n :: u64) = n" using wf(4) by (simp add: unsigned_of_nat take_bit_nat_eq_self)
  moreover have klen: "length (concat (map retained_key_to_bytes (hs_keys m))) = 80 * n" using length_keys [OF wf(2)] by (simp add: n_def)
  moreover have len: "48 + 80 * n \<le> length bs"
    using a klen wf(1) by (simp add: history_share_to_bytes_def)
  moreover have "sub_slice 0 32 bs = hs_thread_id m" "sub_slice 32 40 bs = le_bytes 8 (of_nat n :: u64)"
    "sub_slice 40 (40 + 80 * n) bs = concat (map retained_key_to_bytes (hs_keys m))"
    "sub_slice (40 + 80 * n) (48 + 80 * n) bs = le_bytes 8 (hs_shared_at m)" "drop (48 + 80 * n) bs = signature_to_bytes (hs_signature m)"
    using a klen wf(1) by (simp_all add: history_share_to_bytes_def sub_slice_def slice_fields n_def)
  moreover from this have "read_keys n 40 bs = Inr (hs_keys m)"
    using read_keys_iff [of 40 n bs "hs_keys m"] len wf(2) by (simp add: n_def)
  ultimately show "history_share_from_bytes g bs = Inr m"
    using wf by (simp add: history_share_from_bytes_def Let_def RETAINED_KEY_SIZE_def mult.commute [of n])
qed

lemma history_data_binds:
  assumes "length t = 32" "length t' = 32" "list_all key_ok ks" "list_all key_ok ks'" "prims_ok p"
    and eq: "history_signing_data p t ks at = history_signing_data p t' ks' at'"
  shows "t = t' \<and> at = at' \<and> (ks = ks' \<or> concat (map retained_key_to_bytes ks) \<noteq> concat (map retained_key_to_bytes ks')
    \<and> b3hash p (concat (map retained_key_to_bytes ks)) = b3hash p (concat (map retained_key_to_bytes ks')))"
  using assms keys_inject [of ks ks'] le_bytes_8_iff [of at at']
  by (auto simp: history_signing_data_def Let_def)

text \<open>A merge into an empty store of keys with distinct message identifiers is a permutation of the keys.\<close>

lemma merge_into_empty:
  assumes "distinct (map rk_message_id ks)"
  shows "mset (merge_keys ks []) = mset ks" "sorted (map rk_sequence (merge_keys ks []))"
proof -
  obtain added where m: "sorted (map rk_sequence (merge_keys ks []))" "mset (merge_keys ks []) = mset added" "set added \<subseteq> set ks"
    "distinct (map rk_message_id added)" "rk_message_id ` set added = rk_message_id ` set ks"
    using merge_keys_spec [of "[]" ks] by auto
  have "set ks \<subseteq> set added"
  proof
    fix k assume k: "k \<in> set ks"
    then obtain k' where k': "k' \<in> set added" "rk_message_id k' = rk_message_id k" using m(5) by (metis image_iff)
    with k m(3) assms have "k' = k" by (auto simp: distinct_map dest: inj_onD)
    with k' show "k \<in> set added" by simp
  qed
  then have "mset added = mset ks"
    using m(3,4) assms by (simp add: set_eq_iff_mset_eq_distinct [symmetric] distinct_map subset_antisym)
  with m(1,2) show "mset (merge_keys ks []) = mset ks" "sorted (map rk_sequence (merge_keys ks []))" by simp_all
qed

lemma merge_known: "rk_message_id ` set other \<subseteq> rk_message_id ` set keys \<Longrightarrow> merge_keys other keys = keys"
  by (induction other keys rule: merge_keys.induct) (auto simp: image_iff)

lemma sorted_permutation_unique:
  assumes "mset xs = mset ys" "sorted (map f xs)" "sorted (map f ys)" "distinct (map f ys)"
  shows "xs = ys"
proof -
  have "mset (map f xs) = mset (map f ys)" using assms(1) by (metis mset_map)
  then have "map f xs = map f ys" using assms(2,3) by (metis properties_for_sort)
  moreover have "inj_on f (set xs \<union> set ys)" using assms(1,4) mset_eq_setD [of xs ys] by (simp add: distinct_map)
  ultimately show ?thesis using map_inj_on by blast
qed

lemma find_by_id:
  "distinct (map rk_message_id ks) \<Longrightarrow>
    find (\<lambda>k. rk_message_id k = i) ks = Some k \<longleftrightarrow> k \<in> set ks \<and> rk_message_id k = i"
  by (induction ks) (auto simp: image_iff)

lemma find_permutation:
  assumes "mset ks = mset ks'" "distinct (map rk_message_id ks')"
  shows "find (\<lambda>k. rk_message_id k = i) ks = find (\<lambda>k. rk_message_id k = i) ks'"
proof -
  have "distinct (map rk_message_id ks)" using assms by (metis mset_eq_imp_distinct_iff mset_map)
  moreover have "set ks = set ks'" using assms(1) by (rule mset_eq_setD)
  ultimately have "find (\<lambda>k. rk_message_id k = i) ks = Some k \<longleftrightarrow> find (\<lambda>k. rk_message_id k = i) ks' = Some k" for k
    using find_by_id [of ks i k] find_by_id [OF assms(2), of i k] by simp
  then show ?thesis by (metis option.exhaust)
qed

section \<open>Properties\<close>

text \<open>C22. History reaches a new device. The message in which a device shares its key store is read back from
  its bytes and from no others, and verifies under the sharing device's key; merged into an empty
  store it gives back every key, found under the same message identifier as in the store that
  was shared, the same store when sequence numbers are distinct, and merging it again changes
  nothing. Another message with the same signed body differs only in its signature, or it
  exhibits two key lists with one digest.\<close>

theorem history_sync_delivers:
  assumes kp: "signing_keypair_wf g kp" and p: "prims_ok p"
    and store: "store_ok s" "length (tk_thread_id s) = 32" "list_all key_ok (tk_keys s)" "distinct (map rk_message_id (tk_keys s))"
    and new: "history_share_new p g coins (tk_thread_id s) (tk_keys s) kp at = Inr m"
    and merged: "s' = store_merge (hs_keys m) (key_store_new (hs_thread_id m))"
  shows "(\<forall>bs. history_share_from_bytes g bs = Inr m \<longleftrightarrow> bs = history_share_to_bytes m)
    \<and> history_share_verify p g (skp_public kp) m = Inr ()
    \<and> mset (tk_keys s') = mset (tk_keys s) \<and> (\<forall>i. get_key i s' = get_key i s)
    \<and> (distinct (map rk_sequence (tk_keys s)) \<longrightarrow> s' = s) \<and> store_merge (hs_keys m) s' = s'
    \<and> (\<forall>m'. history_wf g m' \<longrightarrow> history_signing_data p (hs_thread_id m') (hs_keys m') (hs_shared_at m')
          = history_signing_data p (hs_thread_id m) (hs_keys m) (hs_shared_at m)
        \<longrightarrow> m' = m\<lparr>hs_signature := hs_signature m'\<rparr>
          \<or> (concat (map retained_key_to_bytes (hs_keys m')) \<noteq> concat (map retained_key_to_bytes (hs_keys m))
             \<and> b3hash p (concat (map retained_key_to_bytes (hs_keys m'))) = b3hash p (concat (map retained_key_to_bytes (hs_keys m)))))"
proof -
  obtain sg where sg: "hybrid_sign p g coins kp (history_signing_data p (tk_thread_id s) (tk_keys s) at) = Inr sg"
    and m: "m = \<lparr>hs_thread_id = tk_thread_id s, hs_keys = tk_keys s, hs_signature = sg, hs_shared_at = at\<rparr>"
    using new by (auto simp: history_share_new_def try_simps Let_def)
  have ok: "sorted (map rk_sequence (tk_keys s))" "length (tk_keys s) \<le> 100000"
    using store(1) by (simp_all add: store_ok_def MAX_RETAINED_KEYS_def)
  have "history_wf g m" using store ok(2) signed_is_valid [OF kp sg] by (simp add: history_wf_def m)
  then have codec: "\<forall>bs. history_share_from_bytes g bs = Inr m \<longleftrightarrow> bs = history_share_to_bytes m"
    using history_dec_iff [OF signing_keypair_wf_facts(1) [OF kp]] by blast
  have verifies: "history_share_verify p g (skp_public kp) m = Inr ()"
    using hybrid_plain.verifies [OF kp sg] by (simp add: history_share_verify_def m Let_def)
  note mm = merge_into_empty [OF store(4)]
  have "length (merge_keys (tk_keys s) []) = length (tk_keys s)" using mm(1) by (metis size_mset)
  then have s': "s' = \<lparr>tk_thread_id = tk_thread_id s, tk_keys = merge_keys (tk_keys s) []\<rparr>"
    using ok(2) by (simp add: merged m store_merge_def key_store_new_def enforce_cap_def MAX_RETAINED_KEYS_def)
  have "rk_message_id ` set (tk_keys s) \<subseteq> rk_message_id ` set (merge_keys (tk_keys s) [])"
    using mset_eq_setD [OF mm(1)] by simp
  then have again: "store_merge (hs_keys m) s' = s'"
    using ok(2) \<open>length (merge_keys (tk_keys s) []) = length (tk_keys s)\<close>
    by (simp add: m s' store_merge_def merge_known enforce_cap_def MAX_RETAINED_KEYS_def)
  have "distinct (map rk_sequence (tk_keys s)) \<longrightarrow> s' = s"
    using sorted_permutation_unique [OF mm ok(1)] by (simp add: s')
  moreover have "\<forall>i. get_key i s' = get_key i s" using find_permutation [OF mm(1) store(4)] by (simp add: get_key_def s')
  moreover have "mset (tk_keys s') = mset (tk_keys s)" using mm(1) by (simp add: s')
  moreover have "\<forall>m'. history_wf g m' \<longrightarrow> history_signing_data p (hs_thread_id m') (hs_keys m') (hs_shared_at m')
          = history_signing_data p (hs_thread_id m) (hs_keys m) (hs_shared_at m)
        \<longrightarrow> m' = m\<lparr>hs_signature := hs_signature m'\<rparr>
          \<or> (concat (map retained_key_to_bytes (hs_keys m')) \<noteq> concat (map retained_key_to_bytes (hs_keys m))
             \<and> b3hash p (concat (map retained_key_to_bytes (hs_keys m'))) = b3hash p (concat (map retained_key_to_bytes (hs_keys m))))"
  proof (intro allI impI)
    fix m' assume w: "history_wf g m'" and eq: "history_signing_data p (hs_thread_id m') (hs_keys m') (hs_shared_at m')
          = history_signing_data p (hs_thread_id m) (hs_keys m) (hs_shared_at m)"
    show "m' = m\<lparr>hs_signature := hs_signature m'\<rparr>
          \<or> (concat (map retained_key_to_bytes (hs_keys m')) \<noteq> concat (map retained_key_to_bytes (hs_keys m))
             \<and> b3hash p (concat (map retained_key_to_bytes (hs_keys m'))) = b3hash p (concat (map retained_key_to_bytes (hs_keys m))))"
      using history_data_binds [OF _ _ _ _ p eq] w store by (cases m') (auto simp: history_wf_def m)
  qed
  ultimately show ?thesis using codec verifies again by blast
qed

definition shared_store :: thread_key_store where
  "shared_store = \<lparr>tk_thread_id = replicate 32 1, tk_keys = [retained_key_new (replicate 32 2) (replicate 32 3) 7 1000]\<rparr>"

theorem history_sync_delivers_witness:
  "\<exists>m. history_share_new toy_prims toy_suite (Some (replicate 114 5), []) (replicate 32 1)
      [retained_key_new (replicate 32 2) (replicate 32 3) 7 1000] toy_signing 2000 = Inr m
    \<and> history_share_from_bytes toy_suite (history_share_to_bytes m) = Inr m
    \<and> history_share_verify toy_prims toy_suite (skp_public toy_signing) m = Inr ()
    \<and> store_merge (hs_keys m) (key_store_new (hs_thread_id m)) = shared_store"
proof -
  obtain m where m: "history_share_new toy_prims toy_suite (Some (replicate 114 5), []) (tk_thread_id shared_store)
      (tk_keys shared_store) toy_signing 2000 = Inr m"
    using toy_signs by (fastforce simp: history_share_new_def hybrid_sign_def try_simps Let_def)
  have "store_ok shared_store" "length (tk_thread_id shared_store) = 32" "list_all key_ok (tk_keys shared_store)"
    "distinct (map rk_message_id (tk_keys shared_store))" "distinct (map rk_sequence (tk_keys shared_store))"
    by (simp_all add: store_ok_def shared_store_def MAX_RETAINED_KEYS_def key_ok_def retained_key_new_def)
  with history_sync_delivers [OF toy_signing_wf toy_prims_ok _ _ _ _ m refl] m show ?thesis
    by (simp add: shared_store_def)
qed

end
