(* ===== verification/Device_Wrap.thy ===== *)
theory Device_Wrap
  imports Hybrid_Kem Aead
begin

text \<open>
  Device key wraps (\<open>trelis-multidevice/src/device_key_wrap.rs\<close>): a 32-byte secret sealed to the hybrid
  KEM key of one device with the committing AEAD, the context as associated data. The nonce is drawn with the
  infallible interface of the generator, which panics when there is no randomness.
\<close>

section \<open>Contexts and wraps\<close>

definition BUNDLE_WRAP_CONTEXT :: string where "BUNDLE_WRAP_CONTEXT = ''trelis-bundle-wrap-v1''"
definition KEY_ID_SIZE :: nat where "KEY_ID_SIZE = 8"
definition X448_EPHEMERAL_SIZE :: nat where "X448_EPHEMERAL_SIZE = 56"
definition WRAP_SNTRUP_CT_SIZE :: nat where "WRAP_SNTRUP_CT_SIZE = 1039"
definition ENCRYPTED_PAYLOAD_SIZE :: nat where "ENCRYPTED_PAYLOAD_SIZE = 32 + 16 + 32"
definition DEVICE_KEY_WRAP_SIZE :: nat where
  "DEVICE_KEY_WRAP_SIZE = KEY_ID_SIZE + X448_EPHEMERAL_SIZE + WRAP_SNTRUP_CT_SIZE + 24 + ENCRYPTED_PAYLOAD_SIZE"

lemmas wrap_sizes = KEY_ID_SIZE_def X448_EPHEMERAL_SIZE_def WRAP_SNTRUP_CT_SIZE_def ENCRYPTED_PAYLOAD_SIZE_def DEVICE_KEY_WRAP_SIZE_def

datatype wrap_purpose = BundleKey | SessionSeed | HistoryKey

definition purpose_from_byte :: "u8 \<Rightarrow> wrap_purpose option" where
  "purpose_from_byte b =
     (if b = 1 then Some BundleKey else if b = 2 then Some SessionSeed else if b = 3 then Some HistoryKey else None)"

primrec purpose_to_byte :: "wrap_purpose \<Rightarrow> u8" where
  "purpose_to_byte BundleKey = 1"
| "purpose_to_byte SessionSeed = 2"
| "purpose_to_byte HistoryKey = 3"

record wrap_context =
  wc_recipient_key_id :: bytes
  wc_purpose :: wrap_purpose
  wc_thread_id :: bytes
  wc_bundle_id :: bytes
  wc_epoch :: u64

definition wrap_context_new :: "bytes \<Rightarrow> wrap_purpose \<Rightarrow> bytes \<Rightarrow> bytes \<Rightarrow> u64 \<Rightarrow> wrap_context" where
  "wrap_context_new recipient_key_id purpose thread_id bundle_id epoch =
     \<lparr>wc_recipient_key_id = recipient_key_id, wc_purpose = purpose, wc_thread_id = thread_id, wc_bundle_id = bundle_id, wc_epoch = epoch\<rparr>"

definition to_aad :: "wrap_context \<Rightarrow> bytes" where
  "to_aad c = wc_recipient_key_id c @ [purpose_to_byte (wc_purpose c)] @ wc_thread_id c @ wc_bundle_id c @ le_bytes 8 (wc_epoch c)"

record device_key_wrap =
  dw_recipient_key_id :: bytes
  dw_x448_ephemeral :: bytes
  dw_sntrup_ciphertext :: bytes
  dw_nonce :: bytes
  dw_encrypted_payload :: bytes

section \<open>Wrapping and unwrapping\<close>

text \<open>\<open>try_into\<close> of a vector into an array.\<close>

definition into_array :: "crypto_error \<Rightarrow> nat \<Rightarrow> bytes \<Rightarrow> bytes result" where
  "into_array e n bs = (if length bs = n then Inr bs else Inl e)"

definition derive_wrapping_key :: "primitives \<Rightarrow> bytes \<Rightarrow> bytes" where
  "derive_wrapping_key p shared_secret = derive_key p BUNDLE_WRAP_CONTEXT shared_secret"

definition wrap :: "primitives \<Rightarrow> kem_coins \<Rightarrow> bytes option \<Rightarrow> bytes \<Rightarrow> kem_public_key \<Rightarrow> wrap_context \<Rightarrow> device_key_wrap outcome" where
  "wrap p coins rand secret recipient_pk context =
     bind_out (kem_encapsulate p coins recipient_pk) (\<lambda>(shared_secret, encapsulation).
     let wrapping_key = derive_wrapping_key p shared_secret in
     bind_out (or_panic rand) (\<lambda>nonce.
     let aad = to_aad context in
     of_result (tryR (aead_encrypt_committing p wrapping_key nonce secret aad) (\<lambda>ciphertext.
       tryR (into_array MalformedMessage ENCRYPTED_PAYLOAD_SIZE ciphertext) (\<lambda>encrypted_payload.
       let encap_bytes = encapsulation_to_bytes encapsulation in
       tryR (into_array MalformedMessage X448_EPHEMERAL_SIZE (take X448_EPHEMERAL_SIZE encap_bytes)) (\<lambda>x448_eph.
       tryR (into_array MalformedMessage WRAP_SNTRUP_CT_SIZE (drop X448_EPHEMERAL_SIZE encap_bytes)) (\<lambda>sntrup_ct.
       Inr \<lparr>dw_recipient_key_id = wc_recipient_key_id context, dw_x448_ephemeral = x448_eph, dw_sntrup_ciphertext = sntrup_ct,
         dw_nonce = nonce, dw_encrypted_payload = encrypted_payload\<rparr>)))))))"

definition unwrap :: "primitives \<Rightarrow> kem_keypair \<Rightarrow> wrap_context \<Rightarrow> device_key_wrap \<Rightarrow> bytes outcome" where
  "unwrap p recipient_keypair context w =
     (if dw_recipient_key_id w \<noteq> wc_recipient_key_id context then Fail DecryptionFailed
      else let encap_bytes = dw_x448_ephemeral w @ dw_sntrup_ciphertext w in
      bind_out (of_result (encapsulation_from_bytes encap_bytes)) (\<lambda>encapsulation.
      bind_out (kem_decapsulate p recipient_keypair encapsulation) (\<lambda>shared_secret.
      let wrapping_key = derive_wrapping_key p shared_secret; aad = to_aad context; nonce = dw_nonce w in
      of_result (tryR (aead_decrypt_committing p wrapping_key nonce (dw_encrypted_payload w) aad) (\<lambda>plaintext.
        into_array DecryptionFailed 32 plaintext)))))"

definition wrap_to_bytes :: "device_key_wrap \<Rightarrow> bytes" where
  "wrap_to_bytes w = dw_recipient_key_id w @ dw_x448_ephemeral w @ dw_sntrup_ciphertext w @ dw_nonce w @ dw_encrypted_payload w"

definition wrap_from_bytes :: "bytes \<Rightarrow> device_key_wrap result" where
  "wrap_from_bytes bs =
     (if length bs \<noteq> DEVICE_KEY_WRAP_SIZE then Inl MalformedMessage
      else Inr \<lparr>dw_recipient_key_id = sub_slice 0 8 bs, dw_x448_ephemeral = sub_slice 8 64 bs, dw_sntrup_ciphertext = sub_slice 64 1103 bs,
        dw_nonce = sub_slice 1103 1127 bs, dw_encrypted_payload = sub_slice 1127 1207 bs\<rparr>)"

section \<open>Lemmas\<close>

definition context_wf :: "wrap_context \<Rightarrow> bool" where
  "context_wf c \<longleftrightarrow> length (wc_recipient_key_id c) = 8 \<and> length (wc_thread_id c) = 32 \<and> length (wc_bundle_id c) = 32"

definition wrap_wf :: "device_key_wrap \<Rightarrow> bool" where
  "wrap_wf w \<longleftrightarrow> length (dw_recipient_key_id w) = 8 \<and> length (dw_x448_ephemeral w) = 56 \<and> length (dw_sntrup_ciphertext w) = 1039
     \<and> length (dw_nonce w) = 24 \<and> length (dw_encrypted_payload w) = 80"

lemma purpose_codec: "purpose_from_byte b = Some x \<longleftrightarrow> b = purpose_to_byte x"
  by (cases x) (auto simp: purpose_from_byte_def)

lemma aad_inject:
  assumes "context_wf c" "context_wf c'"
  shows "to_aad c = to_aad c' \<longleftrightarrow> c = c'"
proof -
  have "purpose_to_byte (wc_purpose c) = purpose_to_byte (wc_purpose c') \<longleftrightarrow> wc_purpose c = wc_purpose c'"
    by (metis option.inject purpose_codec)
  with assms show ?thesis
    by (auto simp: context_wf_def to_aad_def le_bytes_inject intro: wrap_context.equality)
qed

lemma length_aad: "context_wf c \<Longrightarrow> length (to_aad c) = 81"
  by (simp add: context_wf_def to_aad_def)

interpretation device_wrap: strict_codec wrap_to_bytes wrap_from_bytes wrap_wf
proof
  fix bs w
  assume "wrap_from_bytes bs = Inr w"
  then have len: "length bs = 1207" and w: "w = \<lparr>dw_recipient_key_id = sub_slice 0 8 bs, dw_x448_ephemeral = sub_slice 8 64 bs,
      dw_sntrup_ciphertext = sub_slice 64 1103 bs, dw_nonce = sub_slice 1103 1127 bs, dw_encrypted_payload = sub_slice 1127 1207 bs\<rparr>"
    by (auto simp: wrap_from_bytes_def wrap_sizes split: if_splits)
  have "bs = take 1207 bs" using len by simp
  also have "\<dots> = sub_slice 0 8 bs @ sub_slice 8 64 bs @ sub_slice 64 1103 bs @ sub_slice 1103 1127 bs @ sub_slice 1127 1207 bs"
    by (simp add: sub_slice_def flip: take_add append_assoc)
  finally show "wrap_wf w \<and> wrap_to_bytes w = bs" using len by (simp add: w wrap_wf_def wrap_to_bytes_def)
next
  fix w
  assume "wrap_wf w"
  then show "wrap_from_bytes (wrap_to_bytes w) = Inr w"
    by (simp add: wrap_wf_def wrap_from_bytes_def wrap_to_bytes_def wrap_sizes slice_fields sub_slice_def)
qed

lemma opens_commits:
  "aead_decrypt_committing p k n c a = Inr m \<Longrightarrow> drop (length c - 32) c = aead_commitment p k n a (take (length c - 32) c)"
  by (auto simp: aead_decrypt_committing_def Let_def split: if_splits)

text \<open>What an unwrap that succeeds says.\<close>

lemma unwrap_Done:
  assumes "unwrap p kp c w = Done s"
  obtains k where "dw_recipient_key_id w = wc_recipient_key_id c"
    "aead_decrypt_committing p (derive_wrapping_key p k) (dw_nonce w) (dw_encrypted_payload w) (to_aad c) = Inr s"
    "\<exists>e. encapsulation_from_bytes (dw_x448_ephemeral w @ dw_sntrup_ciphertext w) = Inr e \<and> kem_decapsulate p kp e = Done k"
  using assms by (auto simp: unwrap_def bind_out_eq_Done Let_def try_simps into_array_def split: if_splits)

text \<open>What a wrap that succeeds is made of.\<close>

lemma wrap_Done:
  assumes p: "prims_ok p" and coins: "kem_coins_ok coins" and res: "wrap p coins rand secret pk c = Done w"
  obtains k e n where "kem_encapsulate p coins pk = Done (k, e)" "encapsulation_wf e" "rand = Some n"
    "aead_encrypt_committing p (derive_wrapping_key p k) n secret (to_aad c) = Inr (dw_encrypted_payload w)"
    "length (dw_encrypted_payload w) = 80"
    "w = \<lparr>dw_recipient_key_id = wc_recipient_key_id c, dw_x448_ephemeral = x448_ephemeral e, dw_sntrup_ciphertext = sntrup_ciphertext e,
       dw_nonce = n, dw_encrypted_payload = dw_encrypted_payload w\<rparr>"
proof -
  obtain k e where ke: "kem_encapsulate p coins pk = Done (k, e)"
    using res by (auto simp: wrap_def bind_out_eq_Done)
  obtain n where n: "rand = Some n" using res by (cases rand) (auto simp: wrap_def ke Let_def)
  note e = encapsulate_wf [OF p coins ke]
  then have "take 56 (encapsulation_to_bytes e) = x448_ephemeral e" "drop 56 (encapsulation_to_bytes e) = sntrup_ciphertext e"
    by (simp_all add: encapsulation_wf_def encapsulation_to_bytes_def)
  then show ?thesis using res e that [OF ke e n]
    by (auto simp: wrap_def ke n Let_def try_simps into_array_def wrap_sizes split: if_splits)
qed

section \<open>Properties\<close>

text \<open>C21. A secret wrapped to a device reaches it, and only where it was wrapped for: unwrapping with the
  device's key pair under the same context returns the secret, and the 1207 bytes of the wrap are
  the only ones read back as it. A context that names another key is refused before any key is
  used. Whoever unwraps it, with any key pair, under another context exhibits two different
  inputs that the commitment's keyed hash maps to one digest, and whoever unwraps it under the same
  context exhibits a subkey, from the KEM secret, under which the committed input has the digest of
  the recipient's.\<close>

theorem wrap_delivers:
  assumes p: "prims_ok p" and pair: "kem_pair p kp pk" and coins: "kem_coins_ok coins" and n: "length n = 24"
    and sec: "length secret = 32" and c: "context_wf c" and res: "wrap p coins (Some n) secret pk c = Done w"
  shows "unwrap p kp c w = Done secret \<and> length (wrap_to_bytes w) = 1207
    \<and> (\<forall>bs. wrap_from_bytes bs = Inr w \<longleftrightarrow> bs = wrap_to_bytes w)
    \<and> (\<forall>kp' c'. wc_recipient_key_id c' \<noteq> wc_recipient_key_id c \<longrightarrow> unwrap p kp' c' w = Fail DecryptionFailed)
    \<and> (\<exists>k. kem_decapsulate p kp \<lparr>x448_ephemeral = dw_x448_ephemeral w, sntrup_ciphertext = dw_sntrup_ciphertext w\<rparr> = Done k
      \<and> (\<forall>kp' c' s. context_wf c' \<longrightarrow> unwrap p kp' c' w = Done s \<longrightarrow>
          (\<exists>k'. kem_decapsulate p kp' \<lparr>x448_ephemeral = dw_x448_ephemeral w, sntrup_ciphertext = dw_sntrup_ciphertext w\<rparr> = Done k'
            \<and> (let input = (\<lambda>c. commitment_input n (to_aad c) (take 48 (dw_encrypted_payload w)));
                   subkey = (\<lambda>k. derive_key p AEAD_COMMIT_CONTEXT (derive_wrapping_key p k)) in
               keyed_hash p (subkey k') (input c') = keyed_hash p (subkey k) (input c) \<and> (input c' = input c \<longleftrightarrow> c' = c)))))"
proof -
  obtain k e where k: "kem_encapsulate p coins pk = Done (k, e)" and e: "encapsulation_wf e"
    and enc: "aead_encrypt_committing p (derive_wrapping_key p k) n secret (to_aad c) = Inr (dw_encrypted_payload w)"
    and len: "length (dw_encrypted_payload w) = 80"
    and w: "w = \<lparr>dw_recipient_key_id = wc_recipient_key_id c, dw_x448_ephemeral = x448_ephemeral e, dw_sntrup_ciphertext = sntrup_ciphertext e,
       dw_nonce = n, dw_encrypted_payload = dw_encrypted_payload w\<rparr>"
    using wrap_Done [OF p coins res] by (metis option.inject)
  have f: "dw_recipient_key_id w = wc_recipient_key_id c" "dw_x448_ephemeral w = x448_ephemeral e" "dw_sntrup_ciphertext w = sntrup_ciphertext e"
    "dw_nonce w = n" by (subst w, simp)+
  have dec: "encapsulation_from_bytes (dw_x448_ephemeral w @ dw_sntrup_ciphertext w) = Inr e"
    using encapsulation_codec [OF e] by (simp add: f encapsulation_to_bytes_def)
  have e': "\<lparr>x448_ephemeral = dw_x448_ephemeral w, sntrup_ciphertext = dw_sntrup_ciphertext w\<rparr> = e" by (simp add: f)
  note decap = hybrid.correct [OF pair coins k]
  note opens = committing_round_trip [OF p enc, THEN conjunct1]
  have "unwrap p kp c w = Done secret"
    using opens decap sec dec by (simp add: unwrap_def f Let_def into_array_def)
  moreover have "wrap_wf w" using e c n len by (simp add: wrap_wf_def f context_wf_def encapsulation_wf_def kem_sizes)
  moreover from this have "length (wrap_to_bytes w) = 1207" by (simp add: wrap_wf_def wrap_to_bytes_def)
  moreover have "unwrap p kp' c' w = Fail DecryptionFailed" if "wc_recipient_key_id c' \<noteq> wc_recipient_key_id c" for kp' c'
    using that by (simp add: unwrap_def f)
  moreover have "\<exists>k'. kem_decapsulate p kp' e = Done k'
      \<and> keyed_hash p (derive_key p AEAD_COMMIT_CONTEXT (derive_wrapping_key p k')) (commitment_input n (to_aad c') (take 48 (dw_encrypted_payload w)))
        = keyed_hash p (derive_key p AEAD_COMMIT_CONTEXT (derive_wrapping_key p k)) (commitment_input n (to_aad c) (take 48 (dw_encrypted_payload w)))
      \<and> (commitment_input n (to_aad c') (take 48 (dw_encrypted_payload w)) = commitment_input n (to_aad c) (take 48 (dw_encrypted_payload w)) \<longleftrightarrow> c' = c)"
    if wf: "context_wf c'" and u: "unwrap p kp' c' w = Done s" for kp' c' s
  proof -
    obtain k' where k': "aead_decrypt_committing p (derive_wrapping_key p k') n (dw_encrypted_payload w) (to_aad c') = Inr s"
      "kem_decapsulate p kp' e = Done k'"
      using unwrap_Done [OF u] dec by (auto simp: f)
    with opens_commits [OF opens] opens_commits [OF k'(1)] len
      commitment_input_inject [OF n n, of "to_aad c'" "to_aad c"] length_aad [OF wf] length_aad [OF c] aad_inject [OF wf c]
    show ?thesis by (simp add: aead_commitment_def)
  qed
  ultimately show ?thesis using device_wrap.dec_iff [of _ w] decap unfolding e' Let_def by blast
qed

definition toy_context :: wrap_context where
  "toy_context = wrap_context_new (replicate 8 1) HistoryKey (replicate 32 2) (replicate 32 3) 5"

theorem wrap_delivers_witness:
  "\<exists>w. wrap toy_prims toy_coins (Some (replicate 24 7)) (replicate 32 8) (kp_public toy_kem_keypair) toy_context = Done w
    \<and> unwrap toy_prims toy_kem_keypair toy_context w = Done (replicate 32 8)"
proof -
  obtain k e where k: "kem_encapsulate toy_prims toy_coins (kp_public toy_kem_keypair) = Done (k, e)"
    using toy_encapsulates by blast
  obtain ct where ct: "aead_encrypt_committing toy_prims (derive_wrapping_key toy_prims k) (replicate 24 7) (replicate 32 8) (to_aad toy_context) = Inr ct"
    by (simp add: aead_encrypt_committing_def toy_seals)
  then have "length ct = 80" using committing_round_trip [OF toy_prims_ok ct] by simp
  moreover have "length (encapsulation_to_bytes e) = 1095" using encapsulate_wf [OF toy_prims_ok toy_coins_ok k] by (rule length_kem_codecs(2))
  ultimately obtain w where w: "wrap toy_prims toy_coins (Some (replicate 24 7)) (replicate 32 8) (kp_public toy_kem_keypair) toy_context = Done w"
    by (simp add: wrap_def k ct Let_def into_array_def wrap_sizes)
  have "context_wf toy_context" by (simp add: context_wf_def toy_context_def wrap_context_new_def)
  from wrap_delivers [OF toy_prims_ok toy_kem_pair toy_coins_ok _ _ this w] w show ?thesis by auto
qed

end
