(* ===== verification/Mldsa_Hash.thy ===== *)
theory Mldsa_Hash
  imports Trelis_Prelude
begin

text \<open>
  The hash functions of ML-DSA (\<open>mldsa_core/hash.rs\<close>, \<open>crypto.rs\<close>, \<open>crypto_blake3.rs\<close>). An
  extendable output function is third-party code: its output is a parameter, the stream of bytes
  \<open>xof input i\<close> that a finished state reads from left to right. The state machines around it, which
  absorb and then squeeze, are the code's. \<open>hash_interface\<close> is what the signature scheme relies on;
  it is interpreted on the SHAKE states and on the BLAKE3 states with their read-ahead cache.
\<close>

section \<open>The interface\<close>

text \<open>\<open>HashState\<close>: absorbing panics (\<open>None\<close>) once output was read.\<close>

record 's hash_state =
  hash_default :: 's
  hash_absorb :: "'s \<Rightarrow> bytes \<Rightarrow> 's option"
  hash_squeeze :: "'s \<Rightarrow> nat \<Rightarrow> bytes \<times> 's"

record ('g, 'h) hash_suite =
  suite_G :: "'g hash_state"
  suite_H :: "'h hash_state"

text \<open>A chain \<open>H::default().absorb(a).absorb(b)\<close>.\<close>

definition absorb_all :: "'s hash_state \<Rightarrow> bytes list \<Rightarrow> 's option" where
  "absorb_all H inputs = fold (\<lambda>input st. Option.bind st (\<lambda>s. hash_absorb H s input)) inputs (Some (hash_default H))"

text \<open>\<open>squeeze_new\<close> into a fresh array; the state is read further by later calls.\<close>

definition squeeze_new :: "'s hash_state \<Rightarrow> 's \<Rightarrow> nat \<Rightarrow> bytes \<times> 's" where
  "squeeze_new H s n = hash_squeeze H s n"

locale hash_interface =
  fixes H :: "'s hash_state" and ok :: "'s \<Rightarrow> bool" and fresh :: "'s \<Rightarrow> bool"
  assumes default_fresh: "fresh (hash_default H)"
    and absorb_fresh: "fresh s \<Longrightarrow> \<exists>s'. hash_absorb H s input = Some s' \<and> fresh s'"
    and fresh_ok: "fresh s \<Longrightarrow> ok s"
    and squeeze_ok: "ok s \<Longrightarrow> length (fst (hash_squeeze H s n)) = n \<and> ok (snd (hash_squeeze H s n))"
begin

lemma absorb_fold:
  "fresh s \<Longrightarrow> \<exists>s'. fold (\<lambda>input st. Option.bind st (\<lambda>s. hash_absorb H s input)) inputs (Some s) = Some s' \<and> fresh s'"
proof (induction inputs arbitrary: s)
  case (Cons i inputs)
  obtain s' where "hash_absorb H s i = Some s'" "fresh s'" using absorb_fresh [OF Cons.prems] by blast
  then show ?case using Cons.IH [of s'] by simp
qed simp

lemma absorb_all_ok: "\<exists>s. absorb_all H inputs = Some s \<and> ok s"
  using absorb_fold [OF default_fresh, of inputs] fresh_ok by (auto simp: absorb_all_def)

end

section \<open>SHAKE\<close>

datatype shake_state = ShakeAbsorbing bytes | ShakeSqueezing bytes nat

definition shake_default :: shake_state where "shake_default = ShakeAbsorbing []"

fun shake_absorb :: "shake_state \<Rightarrow> bytes \<Rightarrow> shake_state option" where
  "shake_absorb (ShakeAbsorbing sponge) input = Some (ShakeAbsorbing (sponge @ input))"
| "shake_absorb (ShakeSqueezing sponge pos) input = None"

text \<open>The next \<open>n\<close> bytes of a reader at a position.\<close>

definition xof_read :: "(bytes \<Rightarrow> nat \<Rightarrow> u8) \<Rightarrow> bytes \<Rightarrow> nat \<Rightarrow> nat \<Rightarrow> bytes" where
  "xof_read xof input pos n = map (xof input) [pos..<pos + n]"

fun shake_squeeze :: "(bytes \<Rightarrow> nat \<Rightarrow> u8) \<Rightarrow> shake_state \<Rightarrow> nat \<Rightarrow> bytes \<times> shake_state" where
  "shake_squeeze xof (ShakeAbsorbing sponge) n = (xof_read xof sponge 0 n, ShakeSqueezing sponge n)"
| "shake_squeeze xof (ShakeSqueezing sponge pos) n = (xof_read xof sponge pos n, ShakeSqueezing sponge (pos + n))"

definition shake_hash :: "(bytes \<Rightarrow> nat \<Rightarrow> u8) \<Rightarrow> shake_state hash_state" where
  "shake_hash xof = \<lparr>hash_default = shake_default, hash_absorb = shake_absorb, hash_squeeze = shake_squeeze xof\<rparr>"

definition shake_suite :: "(bytes \<Rightarrow> nat \<Rightarrow> u8) \<Rightarrow> (bytes \<Rightarrow> nat \<Rightarrow> u8) \<Rightarrow> (shake_state, shake_state) hash_suite" where
  "shake_suite shake128 shake256 = \<lparr>suite_G = shake_hash shake128, suite_H = shake_hash shake256\<rparr>"

fun shake_fresh :: "shake_state \<Rightarrow> bool" where
  "shake_fresh (ShakeAbsorbing sponge) = True"
| "shake_fresh (ShakeSqueezing sponge pos) = False"

lemma length_xof_read [simp]: "length (xof_read xof input pos n) = n"
  by (simp add: xof_read_def)

interpretation shake: hash_interface "shake_hash xof" "\<lambda>s. True" shake_fresh for xof
proof
  show "length (fst (hash_squeeze (shake_hash xof) s n)) = n \<and> True" for s n
    by (cases s) (simp_all add: shake_hash_def)
  show "\<exists>s'. hash_absorb (shake_hash xof) s input = Some s' \<and> shake_fresh s'" if "shake_fresh s" for s input
    using that by (cases s) (simp_all add: shake_hash_def)
qed (simp_all add: shake_hash_def shake_default_def)

text \<open>Reading in pieces is reading at once.\<close>

lemma shake_stream:
  "fst (shake_squeeze xof (snd (shake_squeeze xof s m)) n) = drop m (fst (shake_squeeze xof s (m + n)))"
  by (cases s) (simp_all add: xof_read_def drop_map drop_upt add.assoc)

section \<open>BLAKE3\<close>

definition TINY_SQUEEZE_MAX :: nat where "TINY_SQUEEZE_MAX = 128"
definition TINY_PREFETCH :: nat where "TINY_PREFETCH = 1024"

record b3_squeezing =
  b3_input :: bytes
  b3_pos :: nat
  tiny_hits :: nat
  b3_cache :: bytes
  cache_off :: nat
  cache_len :: nat

datatype b3_state = B3Absorbing bytes | B3Squeezing b3_squeezing

definition b3_default :: b3_state where "b3_default = B3Absorbing []"

text \<open>The parallel update of large inputs has the result of the sequential one.\<close>

fun b3_absorb :: "b3_state \<Rightarrow> bytes \<Rightarrow> b3_state option" where
  "b3_absorb (B3Absorbing hasher) input = Some (B3Absorbing (hasher @ input))"
| "b3_absorb (B3Squeezing q) input = None"

fun ensure_reader :: "b3_state \<Rightarrow> b3_squeezing" where
  "ensure_reader (B3Absorbing hasher) =
     \<lparr>b3_input = hasher, b3_pos = 0, tiny_hits = 0, b3_cache = replicate TINY_PREFETCH 0, cache_off = 0, cache_len = 0\<rparr>"
| "ensure_reader (B3Squeezing q) = q"

definition reader_fill :: "(bytes \<Rightarrow> nat \<Rightarrow> u8) \<Rightarrow> b3_squeezing \<Rightarrow> nat \<Rightarrow> bytes \<times> b3_squeezing" where
  "reader_fill xof q n = (xof_read xof (b3_input q) (b3_pos q) n, q\<lparr>b3_pos := b3_pos q + n\<rparr>)"

definition b3_squeeze :: "(bytes \<Rightarrow> nat \<Rightarrow> u8) \<Rightarrow> b3_state \<Rightarrow> nat \<Rightarrow> bytes \<times> b3_state" where
  "b3_squeeze xof s n =
     (let q = ensure_reader s in
      if n \<le> TINY_SQUEEZE_MAX then
        if 0 < tiny_hits q then
          let q = (if cache_len q < cache_off q + n
                   then let (filled, q) = reader_fill xof q TINY_PREFETCH in q\<lparr>b3_cache := filled, cache_off := 0, cache_len := TINY_PREFETCH\<rparr>
                   else q) in
          (sub_slice (cache_off q) (cache_off q + n) (b3_cache q), B3Squeezing (q\<lparr>cache_off := cache_off q + n\<rparr>))
        else let (out, q) = reader_fill xof q n in (out, B3Squeezing (q\<lparr>tiny_hits := 1\<rparr>))
      else let (out, q) = reader_fill xof q n in (out, B3Squeezing (q\<lparr>tiny_hits := 0, cache_off := 0, cache_len := 0\<rparr>)))"

text \<open>The derived key context of a state is the first argument of the output function.\<close>

definition b3_hash :: "(string \<Rightarrow> bytes \<Rightarrow> nat \<Rightarrow> u8) \<Rightarrow> string \<Rightarrow> b3_state hash_state" where
  "b3_hash xof ctx = \<lparr>hash_default = b3_default, hash_absorb = b3_absorb, hash_squeeze = b3_squeeze (xof ctx)\<rparr>"

definition b3_suite :: "(string \<Rightarrow> bytes \<Rightarrow> nat \<Rightarrow> u8) \<Rightarrow> (b3_state, b3_state) hash_suite" where
  "b3_suite xof = \<lparr>suite_G = b3_hash xof ''ML-DSA-B-G'', suite_H = b3_hash xof ''ML-DSA-B-H''\<rparr>"

text \<open>The cache is full when it is read from, so slices of it are in range.\<close>

fun b3_ok :: "b3_state \<Rightarrow> bool" where
  "b3_ok (B3Absorbing hasher) = True"
| "b3_ok (B3Squeezing q) \<longleftrightarrow> length (b3_cache q) = TINY_PREFETCH \<and> cache_len q \<le> TINY_PREFETCH"

fun b3_fresh :: "b3_state \<Rightarrow> bool" where
  "b3_fresh (B3Absorbing hasher) = True"
| "b3_fresh (B3Squeezing q) = False"

lemma ensure_reader_ok: "b3_ok s \<Longrightarrow> length (b3_cache (ensure_reader s)) = TINY_PREFETCH \<and> cache_len (ensure_reader s) \<le> TINY_PREFETCH"
  by (cases s) simp_all

lemma b3_squeeze_ok: "b3_ok s \<Longrightarrow> length (fst (b3_squeeze xof s n)) = n \<and> b3_ok (snd (b3_squeeze xof s n))"
  using ensure_reader_ok [of s]
  by (auto simp: b3_squeeze_def reader_fill_def Let_def TINY_PREFETCH_def TINY_SQUEEZE_MAX_def)

interpretation b3: hash_interface "b3_hash xof ctx" b3_ok b3_fresh for xof ctx
proof
  show "length (fst (hash_squeeze (b3_hash xof ctx) s n)) = n \<and> b3_ok (snd (hash_squeeze (b3_hash xof ctx) s n))" if "b3_ok s" for s n
    using b3_squeeze_ok [OF that] by (simp add: b3_hash_def)
  show "\<exists>s'. hash_absorb (b3_hash xof ctx) s input = Some s' \<and> b3_fresh s'" if "b3_fresh s" for s input
    using that by (cases s) (simp_all add: b3_hash_def)
  show "b3_ok s" if "b3_fresh s" for s using that by (cases s) simp_all
qed (simp_all add: b3_hash_def b3_default_def)

text \<open>The read-ahead makes the output depend on the sizes of the reads: what is left in the cache when
  it is refilled is skipped. Three bytes at a time, as the matrix is sampled, the 1027th byte of the
  stream is never delivered.\<close>

fun b3_squeezes :: "(bytes \<Rightarrow> nat \<Rightarrow> u8) \<Rightarrow> b3_state \<Rightarrow> nat \<Rightarrow> nat \<Rightarrow> bytes list" where
  "b3_squeezes xof s n 0 = []"
| "b3_squeezes xof s n (Suc k) = (let (out, s) = b3_squeeze xof s n in out # b3_squeezes xof s n k)"

lemma b3_cached_reads:
  assumes "0 < n" and "n \<le> 128" and "off + k * n \<le> 1024"
  shows "b3_squeezes xof (B3Squeezing \<lparr>b3_input = inp, b3_pos = pos, tiny_hits = 1, b3_cache = cache, cache_off = off, cache_len = 1024\<rparr>) n (k + j)
    = map (\<lambda>i. sub_slice (off + i * n) (off + i * n + n) cache) [0..<k]
      @ b3_squeezes xof (B3Squeezing \<lparr>b3_input = inp, b3_pos = pos, tiny_hits = 1, b3_cache = cache, cache_off = off + k * n, cache_len = 1024\<rparr>) n j"
  using assms(3)
proof (induction k arbitrary: off)
  case (Suc k)
  have "map (\<lambda>i. sub_slice (off + i * n) (off + i * n + n) cache) [0..<Suc k]
      = sub_slice off (off + n) cache # map (\<lambda>i. sub_slice (off + n + i * n) (off + n + i * n + n) cache) [0..<k]"
    unfolding map_upt_Suc by (simp add: algebra_simps)
  then show ?case using Suc.IH [of "off + n"] Suc.prems assms(1,2)
    by (simp add: b3_squeeze_def Let_def TINY_SQUEEZE_MAX_def add.assoc)
qed simp

lemma sub_slice_join: "a \<le> b \<Longrightarrow> b \<le> d \<Longrightarrow> sub_slice a b xs @ sub_slice b d xs = sub_slice a d xs"
  using take_add [of "b - a" "d - b" "drop a xs"] by (simp add: sub_slice_def)

lemma take_xof_read: "k \<le> n \<Longrightarrow> take k (xof_read xof m p n) = xof_read xof m p k"
  by (simp add: xof_read_def take_map)

lemma xof_read_join: "xof_read xof m p i @ xof_read xof m (p + i) j = xof_read xof m p (i + j)"
  unfolding xof_read_def map_append [symmetric] add.assoc [symmetric] by (subst upt_add_eq_append [symmetric]) simp_all

lemma b3_skips_a_byte:
  "b3_squeezes xof (B3Absorbing m) 3 343 ! 342 = xof_read xof m 1027 3"
  "concat (b3_squeezes xof (B3Absorbing m) 3 342) = xof_read xof m 0 1026"
proof -
  define c where "c = xof_read xof m 3 TINY_PREFETCH"
  define st where "st off = B3Squeezing \<lparr>b3_input = m, b3_pos = 3 + TINY_PREFETCH, tiny_hits = 1, b3_cache = c, cache_off = off, cache_len = TINY_PREFETCH\<rparr>" for off
  have first: "b3_squeezes xof (B3Absorbing m) 3 (Suc (Suc j)) = xof_read xof m 0 3 # sub_slice 0 3 c # b3_squeezes xof (st 3) 3 j" for j
    by (simp add: b3_squeeze_def reader_fill_def Let_def TINY_SQUEEZE_MAX_def st_def c_def)
  have cached: "b3_squeezes xof (st 3) 3 (340 + j) = map (\<lambda>i. sub_slice (3 + i * 3) (3 + i * 3 + 3) c) [0..<340] @ b3_squeezes xof (st 1023) 3 j" for j
    using b3_cached_reads [of 3 3 340 xof m 1027 c j] by (simp add: st_def TINY_PREFETCH_def)
  have refill: "b3_squeezes xof (st 1023) 3 1 = [xof_read xof m 1027 3]"
    unfolding One_nat_def b3_squeezes.simps
    by (simp add: b3_squeeze_def reader_fill_def Let_def TINY_SQUEEZE_MAX_def TINY_PREFETCH_def st_def sub_slice_def take_xof_read)
  show "b3_squeezes xof (B3Absorbing m) 3 343 ! 342 = xof_read xof m 1027 3"
    using first [of "340 + 1"] cached [of 1] refill by (simp add: nth_append)
  have slices: "concat (map (\<lambda>i. sub_slice (3 + i * 3) (3 + i * 3 + 3) c) [0..<k]) = sub_slice 3 (3 + k * 3) c" if "3 + k * 3 \<le> 1024" for k
    using that
  proof (induction k)
    case (Suc k)
    have "sub_slice 3 (3 + k * 3) c @ sub_slice (3 + k * 3) (3 + k * 3 + 3) c = sub_slice 3 (3 + Suc k * 3) c"
      by (subst sub_slice_join) (simp_all add: add.commute)
    then show ?case using Suc by simp
  qed (simp add: sub_slice_def)
  have "concat (b3_squeezes xof (B3Absorbing m) 3 342) = xof_read xof m 0 3 @ sub_slice 0 3 c @ sub_slice 3 1023 c"
    using first [of "340 + 0"] cached [of 0] slices [of 340] by simp
  also have "sub_slice 0 3 c @ sub_slice 3 1023 c = take 1023 c" by (subst sub_slice_join) (simp_all add: sub_slice_def)
  also have "take 1023 c = xof_read xof m 3 1023" by (simp add: c_def TINY_PREFETCH_def take_xof_read)
  also have "xof_read xof m 0 3 @ xof_read xof m 3 1023 = xof_read xof m 0 1026" using xof_read_join [of xof m 0 3 1023] by simp
  finally show "concat (b3_squeezes xof (B3Absorbing m) 3 342) = xof_read xof m 0 1026" .
qed

end
