(* ===== verification/Mldsa_Field.thy ===== *)
theory Mldsa_Field
  imports Trelis_Prelude "HOL-Library.Numeral_Type"
begin

text \<open>
  The field of ML-DSA and the rounding functions of its coefficients
  (\<open>trelis-primitives/src/mldsa_core/algebra.rs\<close>, \<open>module_lattice/algebra.rs\<close>). An element is a
  32-bit word; the code keeps it below the prime. The operations are written with Rust's checked
  arithmetic once, where it is shown that on reduced elements nothing overflows, and as plain word
  functions everywhere else. Reasoning happens in the ring of integers modulo the prime, to which
  \<open>elem_val\<close> maps an element.
\<close>

section \<open>Elements\<close>

type_synonym elem = u32
type_synonym zq = "8380417"

definition MLDSA_Q :: u32 where "MLDSA_Q = 8380417"
definition BARRETT_SHIFT :: nat where "BARRETT_SHIFT = 46"
definition BARRETT_MULTIPLIER :: "128 word" where "BARRETT_MULTIPLIER = push_bit BARRETT_SHIFT 1 div 8380417"

definition small_reduce :: "u32 \<Rightarrow> u32" where
  "small_reduce x = (if x < MLDSA_Q then x else x - MLDSA_Q)"

definition barrett_reduce :: "u64 \<Rightarrow> u32" where
  "barrett_reduce x =
     (let x = ucast x :: 128 word; product = x * BARRETT_MULTIPLIER; quotient = drop_bit BARRETT_SHIFT product;
          remainder = x - quotient * 8380417 in
      small_reduce (ucast remainder))"

definition elem_neg :: "elem \<Rightarrow> elem" where "elem_neg a = small_reduce (MLDSA_Q - a)"
definition elem_add :: "elem \<Rightarrow> elem \<Rightarrow> elem" where "elem_add a b = small_reduce (a + b)"
definition elem_sub :: "elem \<Rightarrow> elem \<Rightarrow> elem" where "elem_sub a b = small_reduce (a + MLDSA_Q - b)"
definition elem_mul :: "elem \<Rightarrow> elem \<Rightarrow> elem" where "elem_mul a b = barrett_reduce (ucast a * ucast b)"

text \<open>The same with overflow checks: \<open>None\<close> is the panic.\<close>

definition elem_neg_checked :: "elem \<Rightarrow> elem option" where
  "elem_neg_checked a = map_option small_reduce (checked_sub MLDSA_Q a)"

definition elem_add_checked :: "elem \<Rightarrow> elem \<Rightarrow> elem option" where
  "elem_add_checked a b = map_option small_reduce (checked_add a b)"

definition elem_sub_checked :: "elem \<Rightarrow> elem \<Rightarrow> elem option" where
  "elem_sub_checked a b =
     Option.bind (checked_add a MLDSA_Q) (\<lambda>s. map_option small_reduce (checked_sub s b))"

definition elem_mul_checked :: "elem \<Rightarrow> elem \<Rightarrow> elem option" where
  "elem_mul_checked a b =
     Option.bind (checked_mul (ucast a :: u64) (ucast b)) (\<lambda>prod. let x = ucast prod :: 128 word in
     Option.bind (checked_mul x BARRETT_MULTIPLIER) (\<lambda>product. let quotient = drop_bit BARRETT_SHIFT product in
     Option.bind (checked_mul quotient 8380417) (\<lambda>multiple.
     map_option (\<lambda>remainder. small_reduce (ucast remainder)) (checked_sub x multiple))))"

section \<open>Reduction to other moduli\<close>

fun ilog2 :: "nat \<Rightarrow> nat" where
  "ilog2 n = (if n \<le> 1 then 0 else Suc (ilog2 (n div 2)))"

declare ilog2.simps [simp del]

definition reduce_shift :: "nat \<Rightarrow> nat" where "reduce_shift m = 2 * (ilog2 m + 1)"

text \<open>\<open>BarrettReduce\<close> for a modulus that is a type-level constant.\<close>

definition m_reduce :: "nat \<Rightarrow> u32 \<Rightarrow> u32" where
  "m_reduce m x =
     (let x = ucast x :: u64; multiplier = push_bit (reduce_shift m) 1 div of_nat m;
          quotient = drop_bit (reduce_shift m) (x * multiplier); remainder = x - quotient * of_nat m in
      if remainder < of_nat m then ucast remainder else ucast (remainder - of_nat m))"

definition mod_plus_minus :: "nat \<Rightarrow> elem \<Rightarrow> elem" where
  "mod_plus_minus m a =
     (let raw_mod = m_reduce m a in
      if raw_mod \<le> drop_bit 1 (of_nat m) then raw_mod else elem_sub raw_mod (of_nat m))"

definition decompose :: "nat \<Rightarrow> elem \<Rightarrow> elem \<times> elem" where
  "decompose two_gamma2 r =
     (let r_plus = r; r0 = mod_plus_minus two_gamma2 r_plus in
      if elem_sub r_plus r0 = MLDSA_Q - 1 then (0, elem_sub r0 1)
      else let r1 = elem_sub r_plus r0 in (r1 div of_nat two_gamma2, r0))"

definition high_bits :: "nat \<Rightarrow> elem \<Rightarrow> elem" where "high_bits two_gamma2 a = fst (decompose two_gamma2 a)"
definition low_bits :: "nat \<Rightarrow> elem \<Rightarrow> elem" where "low_bits two_gamma2 a = snd (decompose two_gamma2 a)"

definition elem_norm :: "elem \<Rightarrow> u32" where
  "elem_norm a = (if a \<le> drop_bit 1 MLDSA_Q then a else MLDSA_Q - a)"

definition power2round :: "elem \<Rightarrow> elem \<times> elem" where
  "power2round r =
     (let r_plus = r; r0 = mod_plus_minus (2 ^ 13) r_plus; r1 = drop_bit 13 (elem_sub r_plus r0) in (r1, r0))"

section \<open>The ring behind the elements\<close>

definition reduced :: "elem \<Rightarrow> bool" where "reduced a \<longleftrightarrow> a < MLDSA_Q"

definition elem_val :: "elem \<Rightarrow> zq" where "elem_val a = of_nat (unat a)"

lemma unat_Q [simp]: "unat MLDSA_Q = 8380417"
  by (simp add: MLDSA_Q_def)

lemma reduced_iff: "reduced a \<longleftrightarrow> unat a < 8380417"
  by (simp add: reduced_def word_less_nat_alt)

lemma bit1_of_int_eq_iff: "(of_int a :: 'a::finite bit1) = of_int b \<longleftrightarrow> a mod int CARD('a bit1) = b mod int CARD('a bit1)"
proof -
  have "Rep_bit1 (of_int k :: 'a bit1) = k mod int CARD('a bit1)" for k
    unfolding bit1.of_int_eq by (rule bit1.Rep_Abs_mod)
  then show ?thesis by (metis Rep_bit1_inject)
qed

lemma zq_of_int_eq_iff: "(of_int a :: zq) = of_int b \<longleftrightarrow> a mod 8380417 = b mod 8380417"
  unfolding bit1_of_int_eq_iff by simp

lemma zq_of_nat_eq_iff: "(of_nat a :: zq) = of_nat b \<longleftrightarrow> a mod 8380417 = b mod 8380417"
proof -
  have "(of_nat a :: zq) = of_nat b \<longleftrightarrow> int a mod 8380417 = int b mod 8380417"
    unfolding zq_of_int_eq_iff [symmetric] of_int_of_nat_eq by (rule refl)
  also have "\<dots> \<longleftrightarrow> int (a mod 8380417) = int (b mod 8380417)" by (simp only: of_nat_mod of_nat_numeral)
  finally show ?thesis by (simp only: of_nat_eq_iff)
qed

lemma elem_val_inject: "reduced a \<Longrightarrow> reduced b \<Longrightarrow> elem_val a = elem_val b \<longleftrightarrow> a = b"
  unfolding elem_val_def zq_of_nat_eq_iff reduced_iff word_unat_eq_iff by simp

section \<open>Arithmetic is exact\<close>

text \<open>Barrett reduction: the quotient estimate is at most one too small.\<close>

lemma barrett_quotient:
  fixes x m B :: nat
  assumes "0 < m" and "x < B"
  shows "x * (B div m) div B * m \<le> x" and "x < (x * (B div m) div B + 2) * m"
proof -
  let ?q = "x * (B div m) div B"
  have "?q * m * B \<le> x * (B div m) * m"
    using div_times_less_eq_dividend [of "x * (B div m)" B] by (simp add: mult.commute mult.left_commute)
  also have "\<dots> \<le> x * B" by (simp add: mult.assoc)
  finally show "?q * m \<le> x" using assms(2) by simp
  have lt: "x * (B div m) < (?q + 1) * B"
    using assms(2) by (metis add.commute less_nat_zero_code linorder_neqE_nat mult.commute dividend_less_times_div plus_1_eq_Suc mult_Suc_right)
  have "x * B = x * (B div m) * m + x * (B mod m)"
    by (metis add_mult_distrib2 div_mult_mod_eq mult.assoc)
  also have "\<dots> \<le> x * (B div m) * m + B * m"
    using assms mod_less_divisor [of m B] mult_le_mono [of x B "B mod m" m] by simp
  also have "x * (B div m) * m < (?q + 1) * B * m" using lt assms(1) by simp
  then have "x * (B div m) * m + B * m < (?q + 2) * m * B" by (simp add: algebra_simps)
  finally show "x < (?q + 2) * m" using assms(2) by (simp add: mult_less_cancel2)
qed

lemma barrett_mod:
  fixes x m B :: nat
  assumes "0 < m" and "x < B"
  shows "(let r = x - x * (B div m) div B * m in if r < m then r else r - m) = x mod m"
proof -
  define q where "q = x * (B div m) div B"
  have q: "q * m \<le> x" "x < q * m + 2 * m" using barrett_quotient [OF assms] by (simp_all add: q_def add_mult_distrib)
  define r where "r = x - q * m"
  have x: "x = r + q * m" "r < 2 * m" using q by (simp_all add: r_def)
  have "x mod m = r mod m" by (simp add: x(1))
  also have "r mod m = (if r < m then r else r - m)" using x(2) by (simp add: mod_if)
  finally show ?thesis by (simp add: Let_def q_def [symmetric] r_def)
qed

lemma small_reduce_unat: "unat x < 2 * 8380417 \<Longrightarrow> unat (small_reduce x) = unat x mod 8380417"
  by (auto simp: small_reduce_def word_less_nat_alt unat_sub_if' mod_if)

lemma small_reduce_reduced: "unat x < 2 * 8380417 \<Longrightarrow> reduced (small_reduce x)"
  by (simp add: reduced_iff small_reduce_unat)

lemma unat_add_small: "unat a + unat b < 2 ^ LENGTH('a) \<Longrightarrow> unat (a + b :: 'a::len word) = unat a + unat b"
  by (simp add: unat_word_ariths)

lemma unat_mul_small: "unat a * unat b < 2 ^ LENGTH('a) \<Longrightarrow> unat (a * b :: 'a::len word) = unat a * unat b"
  by (simp add: unat_word_ariths)

lemma unat_sub_small: "b \<le> a \<Longrightarrow> unat (a - b :: 'a::len word) = unat a - unat b"
  by (rule unat_sub)

lemma unat_drop_bit_div: "unat (drop_bit n (w :: 'a::len word)) = unat w div 2 ^ n"
  by (simp add: unsigned_drop_bit_eq drop_bit_nat_def take_bit_nat_eq_self)

lemma barrett_reduce_unat:
  assumes "unat x < 2 ^ 46"
  shows "unat (barrett_reduce x) = unat x mod 8380417"
proof -
  define y where "y = (ucast x :: 128 word)"
  have y: "unat y = unat x" by (simp add: y_def unat_ucast_up)
  have M: "unat BARRETT_MULTIPLIER = 2 ^ 46 div 8380417"
    by (simp add: BARRETT_MULTIPLIER_def BARRETT_SHIFT_def)
  have prod: "unat (y * BARRETT_MULTIPLIER) = unat x * (2 ^ 46 div 8380417)"
  proof -
    have "unat x * (2 ^ 46 div 8380417) < 2 ^ 46 * 2 ^ 46" using assms by (intro mult_strict_mono) simp_all
    then show ?thesis by (subst unat_mul_small) (simp_all add: y M)
  qed
  define q where "q = unat x * (2 ^ 46 div 8380417) div 2 ^ 46"
  have uq: "unat (drop_bit BARRETT_SHIFT (y * BARRETT_MULTIPLIER)) = q"
    unfolding unat_drop_bit_div prod q_def BARRETT_SHIFT_def by (rule refl)
  note b = barrett_quotient [of 8380417 "unat x" "2 ^ 46", OF zero_less_numeral assms, folded q_def]
  have uqm: "unat (drop_bit BARRETT_SHIFT (y * BARRETT_MULTIPLIER) * 8380417) = q * 8380417"
    using b(1) assms by (subst unat_mul_small) (simp_all add: uq)
  then have "drop_bit BARRETT_SHIFT (y * BARRETT_MULTIPLIER) * 8380417 \<le> y"
    using b(1) by (simp add: word_le_nat_alt y)
  then have r: "unat (y - drop_bit BARRETT_SHIFT (y * BARRETT_MULTIPLIER) * 8380417) = unat x - q * 8380417"
    by (simp add: unat_sub_small y uqm)
  have small: "unat x - q * 8380417 < 2 * 8380417" using b by (simp add: add_mult_distrib)
  have "unat (ucast (y - drop_bit BARRETT_SHIFT (y * BARRETT_MULTIPLIER) * 8380417) :: u32) = unat x - q * 8380417"
    using small by (simp add: unsigned_ucast_eq r take_bit_nat_eq_self)
  with small have "unat (barrett_reduce x) = (unat x - q * 8380417) mod 8380417"
    by (simp add: barrett_reduce_def Let_def y_def [symmetric] small_reduce_unat)
  also have "\<dots> = (unat x - q * 8380417 + q * 8380417) mod 8380417" by (rule mod_mult_self1 [symmetric])
  also have "unat x - q * 8380417 + q * 8380417 = unat x" using b(1) by (rule le_add_diff_inverse2)
  finally show ?thesis .
qed

lemma elem_unat:
  assumes "reduced a" and "reduced b"
  shows "unat (elem_add a b) = (unat a + unat b) mod 8380417"
    "unat (elem_sub a b) = (unat a + 8380417 - unat b) mod 8380417"
    "unat (elem_neg a) = (8380417 - unat a) mod 8380417"
    "unat (elem_mul a b) = (unat a * unat b) mod 8380417"
proof -
  have a: "unat a < 8380417" and b: "unat b < 8380417" using assms by (simp_all add: reduced_iff)
  have "unat (a + b) = unat a + unat b" using a b by (intro unat_add_small) simp
  then show "unat (elem_add a b) = (unat a + unat b) mod 8380417" using a b by (simp add: elem_add_def small_reduce_unat)
  have "unat (a + MLDSA_Q) = unat a + 8380417" using a by (subst unat_add_small) simp_all
  moreover from this have "b \<le> a + MLDSA_Q" using b by (simp add: word_le_nat_alt)
  ultimately have "unat (a + MLDSA_Q - b) = unat a + 8380417 - unat b" by (simp add: unat_sub_small)
  then show "unat (elem_sub a b) = (unat a + 8380417 - unat b) mod 8380417" using a b by (simp add: elem_sub_def small_reduce_unat)
  have "unat (MLDSA_Q - a) = 8380417 - unat a" using a by (subst unat_sub_small) (simp_all add: word_le_nat_alt)
  then show "unat (elem_neg a) = (8380417 - unat a) mod 8380417" using a by (simp add: elem_neg_def small_reduce_unat)
  have "unat a * unat b < 2 ^ 23 * 2 ^ 23" using a b by (intro mult_strict_mono) simp_all
  then have "unat (ucast a * ucast b :: u64) = unat a * unat b" by (subst unat_mul_small) (simp_all add: unat_ucast_up)
  then show "unat (elem_mul a b) = (unat a * unat b) mod 8380417"
    using \<open>unat a * unat b < 2 ^ 23 * 2 ^ 23\<close> by (simp add: elem_mul_def barrett_reduce_unat)
qed

lemma elem_reduced [simp, intro]:
  assumes "reduced a" and "reduced b"
  shows "reduced (elem_add a b)" "reduced (elem_sub a b)" "reduced (elem_neg a)" "reduced (elem_mul a b)"
  unfolding reduced_iff elem_unat [OF assms] by simp_all

lemma reduced_consts [simp]: "reduced 0" "reduced 1" by (simp_all add: reduced_iff)

text \<open>The elements are the ring of integers modulo the prime.\<close>

lemma elem_val_of_nat: "unat a = k mod 8380417 \<Longrightarrow> elem_val a = of_nat k"
  unfolding elem_val_def zq_of_nat_eq_iff by simp

lemma elem_val_ops [simp]:
  assumes "reduced a" and "reduced b"
  shows "elem_val (elem_add a b) = elem_val a + elem_val b" "elem_val (elem_sub a b) = elem_val a - elem_val b"
    "elem_val (elem_neg a) = - elem_val a" "elem_val (elem_mul a b) = elem_val a * elem_val b"
proof -
  have Q: "(of_nat 8380417 :: zq) = 0" using zq_of_nat_eq_iff [of 8380417 0] by simp
  have le: "unat a \<le> 8380417" "unat b \<le> unat a + 8380417" using assms by (simp_all add: reduced_iff)
  show "elem_val (elem_add a b) = elem_val a + elem_val b"
    using elem_val_of_nat [OF elem_unat(1) [OF assms]] by (simp add: elem_val_def)
  show "elem_val (elem_mul a b) = elem_val a * elem_val b"
    using elem_val_of_nat [OF elem_unat(4) [OF assms]] by (simp add: elem_val_def)
  show "elem_val (elem_sub a b) = elem_val a - elem_val b"
    using elem_val_of_nat [OF elem_unat(2) [OF assms]] le(2) by (simp only: elem_val_def of_nat_diff of_nat_add Q add_0_right)
  show "elem_val (elem_neg a) = - elem_val a"
    using elem_val_of_nat [OF elem_unat(3) [OF assms]] le(1) by (simp only: elem_val_def of_nat_diff Q diff_0)
qed

lemma elem_val_consts [simp]: "elem_val 0 = 0" "elem_val 1 = 1"
  by (simp_all add: elem_val_def)

text \<open>On reduced elements no operation overflows.\<close>

lemma elem_ops_never_overflow:
  assumes "reduced a" and "reduced b"
  shows "elem_add_checked a b = Some (elem_add a b)" "elem_sub_checked a b = Some (elem_sub a b)"
    "elem_neg_checked a = Some (elem_neg a)" "elem_mul_checked a b = Some (elem_mul a b)"
proof -
  have a: "unat a < 8380417" and b: "unat b < 8380417" using assms by (simp_all add: reduced_iff)
  show "elem_add_checked a b = Some (elem_add a b)"
    using a b by (simp add: elem_add_checked_def checked_add_def elem_add_def)
  have "unat (a + MLDSA_Q) = unat a + 8380417" using a by (subst unat_add_small) simp_all
  then show "elem_sub_checked a b = Some (elem_sub a b)"
    using a b by (simp add: elem_sub_checked_def checked_add_def checked_sub_def elem_sub_def word_le_nat_alt)
  show "elem_neg_checked a = Some (elem_neg a)"
    using a by (simp add: elem_neg_checked_def checked_sub_def elem_neg_def word_le_nat_alt)
  have "unat a * unat b < 2 ^ 23 * 2 ^ 23" using a b by (intro mult_strict_mono) simp_all
  then have prod: "checked_mul (ucast a :: u64) (ucast b) = Some (ucast a * ucast b)" "unat (ucast a * ucast b :: u64) = unat a * unat b"
    "unat a * unat b < 2 ^ 46"
    by (simp_all add: checked_mul_def unat_ucast_up unat_mul_small)
  define x where "x = (ucast (ucast a * ucast b :: u64) :: 128 word)"
  have x: "unat x < 2 ^ 46" using prod(2,3) by (simp add: x_def unat_ucast_up)
  have M: "unat BARRETT_MULTIPLIER = 2 ^ 46 div 8380417"
    by (simp add: BARRETT_MULTIPLIER_def BARRETT_SHIFT_def)
  have "unat x * (2 ^ 46 div 8380417) < 2 ^ 46 * 2 ^ 46" using x by (intro mult_strict_mono) simp_all
  then have m1: "checked_mul x BARRETT_MULTIPLIER = Some (x * BARRETT_MULTIPLIER)" "unat (x * BARRETT_MULTIPLIER) = unat x * (2 ^ 46 div 8380417)"
    unfolding checked_mul_def M by (simp, subst unat_mul_small, simp_all add: M)
  have uq: "unat (drop_bit BARRETT_SHIFT (x * BARRETT_MULTIPLIER)) = unat x * (2 ^ 46 div 8380417) div 2 ^ 46"
    unfolding unat_drop_bit_div m1(2) BARRETT_SHIFT_def by (rule refl)
  note b = barrett_quotient [of 8380417 "unat x" "2 ^ 46", OF zero_less_numeral x, folded uq]
  have m2: "checked_mul (drop_bit BARRETT_SHIFT (x * BARRETT_MULTIPLIER)) 8380417 = Some (drop_bit BARRETT_SHIFT (x * BARRETT_MULTIPLIER) * 8380417)"
    "unat (drop_bit BARRETT_SHIFT (x * BARRETT_MULTIPLIER) * 8380417) = unat (drop_bit BARRETT_SHIFT (x * BARRETT_MULTIPLIER)) * 8380417"
    using b(1) x unfolding checked_mul_def by (simp, subst unat_mul_small, simp_all)
  have "checked_sub x (drop_bit BARRETT_SHIFT (x * BARRETT_MULTIPLIER) * 8380417) = Some (x - drop_bit BARRETT_SHIFT (x * BARRETT_MULTIPLIER) * 8380417)"
    using b(1) m2(2) by (simp add: checked_sub_def word_le_nat_alt)
  then show "elem_mul_checked a b = Some (elem_mul a b)"
    unfolding elem_mul_checked_def elem_mul_def barrett_reduce_def Let_def prod(1) Option.bind.bind_lunit x_def [symmetric] m1(1) m2(1)
    by simp
qed

section \<open>Rounding\<close>

text \<open>The signed representative of an element.\<close>

definition cval :: "elem \<Rightarrow> int" where
  "cval a = (if unat a \<le> 4190208 then int (unat a) else int (unat a) - 8380417)"

lemma cval_range: "reduced a \<Longrightarrow> - 4190208 \<le> cval a \<and> cval a \<le> 4190208"
  by (auto simp: cval_def reduced_iff simp del: of_nat_unat)

lemma elem_val_cval: "elem_val a = of_int (cval a)"
proof -
  have "(of_int (int (unat a)) :: zq) = of_int (cval a)"
    unfolding zq_of_int_eq_iff cval_def by (simp add: mod_diff_eq [symmetric])
  then show ?thesis by (simp add: elem_val_def)
qed

lemma cval_eqI:
  assumes "reduced a" and "elem_val a = of_int k" and "- 4190208 \<le> k" and "k \<le> 4190208"
  shows "cval a = k"
proof -
  have "cval a mod 8380417 = k mod 8380417" using assms(2) unfolding elem_val_cval zq_of_int_eq_iff .
  then have "8380417 dvd (cval a - k)" by (rule mod_eq_dvd_iff [THEN iffD1])
  then obtain j where "cval a - k = 8380417 * j" by (rule dvdE)
  moreover have "- 8380417 < cval a - k" "cval a - k < 8380417" using cval_range [OF assms(1)] assms(3,4) by simp_all
  ultimately have "j = 0" by simp
  with \<open>cval a - k = 8380417 * j\<close> show ?thesis by simp
qed

lemma elem_norm_cval: "reduced a \<Longrightarrow> int (unat (elem_norm a)) = \<bar>cval a\<bar>"
  by (auto simp: elem_norm_def cval_def reduced_iff word_le_nat_alt unat_drop_bit_div unat_sub_small simp del: of_nat_unat)

text \<open>The moduli in use: twice the rounding ranges of the parameter sets, \<open>2 ^ 13\<close>, and the prime.\<close>

lemma m_reduce_unat:
  assumes "0 < m" and "m < 2 ^ 32" and "reduce_shift m < 64" and "unat x < 2 ^ reduce_shift m"
    and "unat x * (2 ^ reduce_shift m div m) < 2 ^ 64"
  shows "unat (m_reduce m x) = unat x mod m"
proof -
  define s where "s = reduce_shift m"
  define y where "y = (ucast x :: u64)"
  have y: "unat y = unat x" by (simp add: y_def unat_ucast_up)
  have m: "unat (of_nat m :: u64) = m" using assms(2) by (simp add: unsigned_of_nat take_bit_nat_eq_self)
  have "unat (push_bit s 1 :: u64) = 2 ^ s"
    using assms(3) power_strict_increasing [of s 64 "2 :: nat"] by (subst unat_push_bit_no_overflow) (simp_all add: s_def [symmetric])
  then have M: "unat (push_bit s 1 div of_nat m :: u64) = 2 ^ s div m" unfolding unat_div m by simp
  define mu where "mu = (push_bit s 1 div of_nat m :: u64)"
  note M = M [folded mu_def]
  have prod: "unat (y * mu) = unat x * (2 ^ s div m)"
    using assms(5) by (subst unat_mul_small) (simp_all add: y M s_def [symmetric])
  define q where "q = unat x * (2 ^ s div m) div 2 ^ s"
  have uq: "unat (drop_bit s (y * mu)) = q"
    unfolding unat_drop_bit_div prod q_def by (rule refl)
  note b = barrett_quotient [of m "unat x" "2 ^ s", folded q_def, OF assms(1)]
  have b1: "q * m \<le> unat x" and b2: "unat x - q * m < 2 * m"
    using b assms(4) by (simp_all add: s_def [symmetric] add_mult_distrib less_diff_conv2)
  have "unat x < 2 ^ LENGTH(32)" by (rule unsigned_less)
  then have qm: "unat (drop_bit s (y * mu) * of_nat m) = q * m"
    using b1 by (subst unat_mul_small) (simp_all add: uq m)
  define r where "r = y - drop_bit s (y * mu) * of_nat m"
  have r: "unat r = unat x - q * m"
    unfolding r_def using b1 by (subst unat_sub_small) (simp_all add: word_le_nat_alt y qm)
  have red: "m_reduce m x = (if r < of_nat m then ucast r else ucast (r - of_nat m))"
    by (simp only: m_reduce_def Let_def r_def y_def mu_def s_def)
  have "unat (m_reduce m x) = (if unat x - q * m < m then unat x - q * m else unat x - q * m - m)"
  proof (cases "unat x - q * m < m")
    case True
    then have "unat (ucast r :: u32) = unat r" using assms(2) by (simp add: unsigned_ucast_eq r take_bit_nat_eq_self)
    with True show ?thesis by (simp add: red word_less_nat_alt r m)
  next
    case False
    then have "unat (r - of_nat m) = unat x - q * m - m" by (subst unat_sub_small) (simp_all add: word_le_nat_alt r m)
    moreover from this have "unat (ucast (r - of_nat m) :: u32) = unat (r - of_nat m)"
      using b2 assms(2) by (simp add: unsigned_ucast_eq take_bit_nat_eq_self)
    ultimately show ?thesis using False
      by (simp add: red word_less_nat_alt r m)
  qed
  also have "\<dots> = unat x mod m"
    using barrett_mod [OF assms(1), of "unat x" "2 ^ s"] assms(4) by (simp add: Let_def q_def [symmetric] s_def [symmetric])
  finally show ?thesis .
qed

definition modulus_ok :: "nat \<Rightarrow> bool" where "modulus_ok m \<longleftrightarrow> m = 2 ^ 13 \<or> m = 190464 \<or> m = 523776"

lemma reduce_shifts: "reduce_shift 8192 = 28" "reduce_shift 190464 = 36" "reduce_shift 523776 = 38" "reduce_shift 8380417 = 46"
  by (simp_all add: reduce_shift_def ilog2.simps)

lemma m_reduce_ok:
  assumes "modulus_ok m \<or> m = 8380417" and "reduced x"
  shows "unat (m_reduce m x) = unat x mod m"
  using assms by (intro m_reduce_unat) (auto simp: modulus_ok_def reduce_shifts reduced_iff)

lemma modulus_facts:
  assumes "modulus_ok m"
  obtains g k where "m = 2 * g" "int k * int m = 8380416" "2 \<le> k" "100 \<le> g" "g \<le> 261888" "k \<le> 1023" "k = 8380416 div m"
  using assms unfolding modulus_ok_def
proof (elim disjE)
  assume "m = 2 ^ 13" then show ?thesis by (intro that [of 4096 1023]) simp_all
next
  assume "m = 190464" then show ?thesis by (intro that [of 95232 44]) simp_all
next
  assume "m = 523776" then show ?thesis by (intro that [of 261888 16]) simp_all
qed

text \<open>The nearest multiple of \<open>m\<close>, ties downwards.\<close>

definition nearest :: "nat \<Rightarrow> nat \<Rightarrow> nat" where "nearest m x = (x + (m div 2 - 1)) div m"

lemma nearest_int:
  assumes m: "m = 2 * g" and g: "0 < g" and lo: "- int g < int x - int m * k" and hi: "int x - int m * k \<le> int g" and "0 \<le> k"
  shows "int (nearest m x) = k"
proof -
  obtain n where k: "k = int n" using assms(5) nonneg_int_cases by blast
  define P where "P = m * n"
  have "int m * k = int P" by (simp add: P_def k)
  then have "- int g < int x - int P" "int x - int P \<le> int g" using lo hi by simp_all
  then have P: "P \<le> x + (g - 1)" "x + (g - 1) < P + m" using g m by linarith+
  have "(x + (g - 1)) div m = n"
    using P by (intro div_nat_eqI) (simp_all add: P_def mult.commute)
  moreover have "m div 2 = g" using m by simp
  ultimately show ?thesis by (simp add: nearest_def k)
qed

lemma nearest_bounds:
  assumes m: "m = 2 * g" and g: "0 < g"
  shows "- int g < int x - int m * int (nearest m x)" "int x - int m * int (nearest m x) \<le> int g"
proof -
  define P where "P = m * nearest m x"
  have half: "m div 2 = g" using m by simp
  have "nearest m x * m + (x + (g - 1)) mod m = x + (g - 1)" unfolding nearest_def half by (rule div_mult_mod_eq)
  moreover have "(x + (g - 1)) mod m < m" using m g by simp
  ultimately have "P \<le> x + (g - 1)" "x + (g - 1) < P + m" unfolding P_def mult.commute [of m] by linarith+
  moreover have "int m * int (nearest m x) = int P" by (simp add: P_def)
  ultimately show "- int g < int x - int m * int (nearest m x)" "int x - int m * int (nearest m x) \<le> int g"
    using m g by linarith+
qed

lemma nearest_le:
  assumes m: "m = 2 * g" and g: "0 < g" and k: "int k * int m = 8380416" and x: "x < 8380417"
  shows "nearest m x \<le> k"
proof (rule ccontr)
  assume "\<not> nearest m x \<le> k"
  then have "(k + 1) * m \<le> nearest m x * m" by (intro mult_le_mono1) simp
  then have "int k * int m + int m \<le> int m * int (nearest m x)"
    by (simp add: mult.commute distrib_right flip: of_nat_mult of_nat_add)
  with nearest_bounds(1) [OF m g, of x] k x m show False by linarith
qed

lemma mod_plus_minus_spec:
  assumes "modulus_ok m" and "reduced a"
  shows "reduced (mod_plus_minus m a) \<and> cval (mod_plus_minus m a) = int (unat a) - int m * int (nearest m (unat a))"
proof -
  obtain g k where m: "m = 2 * g" "int k * int m = 8380416" "2 \<le> k" "100 \<le> g" "g \<le> 261888" using modulus_facts [OF assms(1)] by metis
  define x where "x = unat a"
  define r where "r = m_reduce m a"
  have r: "unat r = x mod m" using m_reduce_ok assms by (simp add: r_def x_def)
  have rm: "unat r < m" using m(1,4) by (simp add: r)
  have "m < 2 ^ 32" using m(1,5) by simp
  then have um: "unat (of_nat m :: u32) = m" by (simp add: unsigned_of_nat take_bit_nat_eq_self)
  have half: "unat (drop_bit 1 (of_nat m :: u32)) = g" unfolding unat_drop_bit_div um using m(1) by simp
  have x: "int x = int m * int (x div m) + int (unat r)"
    unfolding r by (metis mult_div_mod_eq of_nat_add of_nat_mult)
  have rr: "reduced r" "reduced (of_nat m)" using rm m(1,5) unfolding reduced_iff um by simp_all
  have red: "mod_plus_minus m a = (if unat r \<le> g then r else elem_sub r (of_nat m))"
    unfolding half [symmetric] word_le_nat_alt [symmetric] by (simp only: mod_plus_minus_def Let_def r_def)
  show ?thesis
  proof (cases "unat r \<le> g")
    case True
    have "int (nearest m x) = int (x div m)" using m True by (intro nearest_int [of _ g]) (simp_all add: x del: of_nat_unat)
    moreover have "cval r = int (unat r)" using True m by (simp add: cval_def)
    ultimately show ?thesis using True rr red x by (simp add: x_def [symmetric] del: of_nat_unat)
  next
    case False
    have "int (nearest m x) = int (x div m + 1)" using m False rm by (intro nearest_int [of _ g]) (simp_all add: x algebra_simps del: of_nat_unat)
    moreover have "cval (elem_sub r (of_nat m)) = int (unat r) - int m"
    proof (rule cval_eqI [OF elem_reduced(2) [OF rr]])
      show "elem_val (elem_sub r (of_nat m)) = of_int (int (unat r) - int m)"
        unfolding elem_val_ops(2) [OF rr] unfolding elem_val_def um by (simp only: of_int_diff of_int_of_nat_eq)
    qed (use rm m(1,5) in linarith)+
    ultimately show ?thesis using False rr red x by (simp add: x_def [symmetric] algebra_simps del: of_nat_unat)
  qed
qed

text \<open>The two parts of an element, as integers.\<close>

lemma decompose_spec:
  assumes ok: "modulus_ok m" and a: "reduced a" and k: "k = nearest m (unat a)" and M: "M = 8380416 div m"
  shows "reduced (high_bits m a)" "reduced (low_bits m a)" "unat (high_bits m a) = k mod M" "k \<le> M"
    "cval (low_bits m a) = int (unat a) - int m * int k - (if k = M then 1 else 0)"
proof -
  obtain g M' where m: "m = 2 * g" "int M' * int m = 8380416" "2 \<le> M'" "100 \<le> g" "g \<le> 261888" "M' = 8380416 div m"
    using modulus_facts [OF ok] by metis
  have M_le: "M \<le> 8380416" unfolding M by (rule div_le_dividend)
  have M: "int M * int m = 8380416" "2 \<le> M" using m(2,3,6) M by simp_all
  define r0 where "r0 = mod_plus_minus m a"
  have r0: "reduced r0" "cval r0 = int (unat a) - int m * int k" using mod_plus_minus_spec [OF ok a] by (simp_all add: r0_def k)
  show kM: "k \<le> M" unfolding k using a m(4) by (intro nearest_le [OF m(1) _ M(1)]) (auto simp: reduced_iff)
  have mk: "m * k \<le> 8380416"
  proof -
    have "m * k \<le> m * M" using kM by simp
    moreover have "int (m * M) = 8380416" using M(1) by (simp add: mult.commute)
    ultimately show ?thesis by linarith
  qed
  have umk: "unat (of_nat (m * k) :: u32) = m * k" using mk by (subst unsigned_of_nat) (simp add: take_bit_nat_eq_self)
  have "elem_val (elem_sub a r0) = of_nat (unat a) - of_int (int (unat a) - int m * int k)"
    unfolding elem_val_ops(2) [OF a r0(1)] elem_val_cval [of r0] r0(2) unfolding elem_val_def by (rule refl)
  also have "\<dots> = of_nat (m * k)" by (simp only: of_int_diff of_int_mult of_int_of_nat_eq of_nat_mult) simp
  finally have "elem_val (elem_sub a r0) = elem_val (of_nat (m * k))" unfolding elem_val_def umk .
  moreover have "reduced (of_nat (m * k))"
    unfolding reduced_iff using mk by (subst unsigned_of_nat) (simp add: take_bit_nat_eq_self)
  ultimately have diff: "elem_sub a r0 = of_nat (m * k)" using elem_val_inject [OF elem_reduced(2) [OF a r0(1)]] by blast
  have um: "unat (of_nat m :: u32) = m" using m(1,5) by (subst unsigned_of_nat) (simp add: take_bit_nat_eq_self)
  have top: "elem_sub a r0 = MLDSA_Q - 1 \<longleftrightarrow> k = M"
  proof -
    have "elem_sub a r0 = MLDSA_Q - 1 \<longleftrightarrow> m * k = 8380416" unfolding diff word_unat_eq_iff umk by (simp add: MLDSA_Q_def)
    also have "\<dots> \<longleftrightarrow> int m * int k = int m * int M" using M(1) by (simp add: mult.commute flip: of_nat_mult)
    also have "\<dots> \<longleftrightarrow> k = M" using m(1,4) by simp
    finally show ?thesis .
  qed
  have dec: "decompose m a = (if k = M then (0, elem_sub r0 1) else (of_nat (m * k) div of_nat m, r0))"
    unfolding decompose_def Let_def r0_def [symmetric] top unfolding diff by (rule refl)
  show "unat (high_bits m a) = k mod M"
  proof (cases "k = M")
    case False
    have "unat (of_nat (m * k) div of_nat m :: u32) = k" unfolding unat_div umk um using m(1,4) by simp
    with False kM show ?thesis unfolding high_bits_def dec by simp
  qed (simp add: high_bits_def dec)
  then show "reduced (high_bits m a)"
    unfolding reduced_iff using mod_less_divisor [of M k] M(2) M_le by linarith
  show "reduced (low_bits m a)" using r0(1) by (simp add: low_bits_def dec)
  show "cval (low_bits m a) = int (unat a) - int m * int k - (if k = M then 1 else 0)"
  proof (cases "k = M")
    case True
    have "cval (elem_sub r0 1) = cval r0 - 1"
    proof (rule cval_eqI)
      show "elem_val (elem_sub r0 1) = of_int (cval r0 - 1)" using r0(1) by (simp add: elem_val_cval [symmetric])
    qed (use nearest_bounds [OF m(1), of "unat a"] m r0 k in \<open>simp_all\<close>)
    with True show ?thesis by (simp add: low_bits_def dec r0)
  qed (simp add: low_bits_def dec r0)
qed

lemma power2round_spec:
  assumes a: "reduced a"
  shows "reduced (fst (power2round a))" "reduced (snd (power2round a))" "unat (fst (power2round a)) < 1024"
    "- 4096 < cval (snd (power2round a))" "cval (snd (power2round a)) \<le> 4096"
    "int (unat a) = 8192 * int (unat (fst (power2round a))) + cval (snd (power2round a))"
proof -
  define k where "k = nearest 8192 (unat a)"
  define r0 where "r0 = mod_plus_minus (2 ^ 13) a"
  have ok: "modulus_ok (2 ^ 13)" by (simp add: modulus_ok_def)
  have r0: "reduced r0" "cval r0 = int (unat a) - 8192 * int k"
    using mod_plus_minus_spec [OF ok a] by (simp_all add: r0_def k_def)
  have b: "- 4096 < cval r0" "cval r0 \<le> 4096" using nearest_bounds [of 8192 4096 "unat a"] by (simp_all add: r0(2) k_def)
  have k: "k \<le> 1023" unfolding k_def using a by (intro nearest_le [of _ 4096]) (auto simp: reduced_iff)
  have umk: "unat (of_nat (8192 * k) :: u32) = 8192 * k" using k by (subst unsigned_of_nat) (simp add: take_bit_nat_eq_self)
  have "elem_val (elem_sub a r0) = of_nat (unat a) - of_int (int (unat a) - 8192 * int k)"
    unfolding elem_val_ops(2) [OF a r0(1)] elem_val_cval [of r0] r0(2) unfolding elem_val_def by (rule refl)
  also have "\<dots> = of_nat (8192 * k)" by (simp only: of_int_diff of_int_mult of_int_of_nat_eq of_nat_mult of_int_numeral of_nat_numeral) simp
  finally have "elem_val (elem_sub a r0) = elem_val (of_nat (8192 * k))" unfolding elem_val_def umk .
  moreover have "reduced (of_nat (8192 * k))" unfolding reduced_iff umk using k by simp
  ultimately have "elem_sub a r0 = of_nat (8192 * k)" using elem_val_inject [OF elem_reduced(2) [OF a r0(1)]] by blast
  then have "unat (elem_sub a r0) = 8192 * k" by (simp only: umk)
  then have r1: "unat (drop_bit 13 (elem_sub a r0)) = k" unfolding unat_drop_bit_div by simp
  have p: "power2round a = (drop_bit 13 (elem_sub a r0), r0)" unfolding power2round_def Let_def r0_def ..
  show "reduced (fst (power2round a))" "reduced (snd (power2round a))" "unat (fst (power2round a)) < 1024"
    "- 4096 < cval (snd (power2round a))" "cval (snd (power2round a)) \<le> 4096"
    "int (unat a) = 8192 * int (unat (fst (power2round a))) + cval (snd (power2round a))"
    unfolding p fst_conv snd_conv reduced_iff [of "drop_bit 13 (elem_sub a r0)"] r1 using r0 b k by simp_all
qed

lemma mod_plus_minus_Q:
  assumes "reduced a"
  shows "mod_plus_minus 8380417 a = a"
proof -
  have "m_reduce 8380417 a = a" using m_reduce_ok [of 8380417 a] assms by (simp add: word_unat_eq_iff reduced_iff)
  moreover have "elem_sub a (of_nat 8380417) = a"
  proof -
    have "unat (a + MLDSA_Q) = unat a + 8380417" using assms by (subst unat_add_small) (simp_all add: reduced_iff)
    then have "unat (a + MLDSA_Q - of_nat 8380417) = unat a" by (subst unat_sub_small) (simp_all add: word_le_nat_alt)
    moreover from this have "unat (small_reduce (a + MLDSA_Q - of_nat 8380417)) = unat a"
      using assms by (subst small_reduce_unat) (simp_all add: reduced_iff)
    ultimately show ?thesis unfolding elem_sub_def word_unat_eq_iff by simp
  qed
  ultimately show ?thesis by (simp add: mod_plus_minus_def Let_def)
qed

text \<open>Rounding survives small changes: what the signer's and the verifier's computations differ by.\<close>

lemma high_bits_close:
  assumes ok: "modulus_ok m" and u: "reduced u" and w: "reduced w"
    and diff: "elem_val w = elem_val u + of_int e" and "\<bar>e\<bar> \<le> b" and "\<bar>cval (low_bits m u)\<bar> < int (m div 2) - b"
  shows "high_bits m w = high_bits m u"
proof -
  obtain g M where m: "m = 2 * g" "int M * int m = 8380416" "2 \<le> M" "100 \<le> g" "g \<le> 261888" "M = 8380416 div m"
    using modulus_facts [OF ok] by metis
  define k where "k = nearest m (unat u)"
  define P where "P = int m * int k"
  note du = decompose_spec [OF ok u k_def m(6)]
  note dw = decompose_spec [OF ok w refl m(6)]
  have g: "m div 2 = g" using m(1) by simp
  define U where "U = int (unat u)"
  define W where "W = int (unat w)"
  have x: "0 \<le> U" "U < 8380417" "0 \<le> W" "W < 8380417" using u w by (simp_all add: reduced_iff U_def W_def del: of_nat_unat)
  define c where "c = U - P"
  have c: "- int g < c" "c \<le> int g" unfolding c_def P_def k_def U_def using nearest_bounds [OF m(1), of "unat u"] m(4) by simp_all
  have low: "\<bar>c - (if k = M then 1 else 0)\<bar> < int g - b" using assms(6) unfolding du(5) g c_def P_def U_def .
  have "P = 8380416 \<longleftrightarrow> int m * int k = int m * int M" unfolding P_def m(2) [symmetric] mult.commute [of "int M"] by (rule refl)
  then have PM: "k = M \<longleftrightarrow> P = 8380416" using m(1,4) by auto
  have Pk: "P + int m \<le> 8380416" if "k \<noteq> M"
  proof -
    have "int k + 1 \<le> int M" using du(4) that by simp
    then have "int m * (int k + 1) \<le> int m * int M" by (intro mult_left_mono) simp_all
    then show ?thesis using m(2) by (simp add: P_def distrib_left mult.commute [of "int M"])
  qed
  have P0: "int m \<le> P" if "k \<noteq> 0"
  proof -
    have "int m * 1 \<le> int m * int k" using that by (intro mult_left_mono) simp_all
    then show ?thesis by (simp add: P_def)
  qed
  have "(of_int W :: zq) = of_int (U + e)"
    using diff unfolding elem_val_def W_def U_def by (simp only: of_int_add of_int_of_nat_eq)
  then have "8380417 dvd W - (U + e)" unfolding zq_of_int_eq_iff by (rule mod_eq_dvd_iff [THEN iffD1])
  then obtain j where "W - (U + e) = 8380417 * j" by (rule dvdE)
  then have j: "W = U + e + 8380417 * j" by simp
  have e: "- b \<le> e" "e \<le> b" using assms(5) by simp_all
  have gm: "int m = 2 * int g" "100 \<le> int g" "int g \<le> 261888" using m(1,4,5) by simp_all
  have near: "int (nearest m (unat w)) = k'" if "0 \<le> k'" "- int g < W - int m * k'" "W - int m * k' \<le> int g" for k'
    using that m(4) unfolding W_def by (intro nearest_int [OF m(1)]) simp_all
  have bg: "b < int g + 1" using low by (auto split: if_splits)
  have "- 2 < j" "j < 2" using j x e bg gm(3) by linarith+
  then consider "j = 0" | "j = 1" | "j = - 1" by linarith
  then have "nearest m (unat w) mod M = k mod M"
  proof cases
    case 1
    have "int (nearest m (unat w)) = int k"
    proof (rule near)
      have d: "W - int m * int k = c + e" using j 1 by (simp add: c_def P_def)
      have "c \<le> 0" if "k = M" using that PM x(2) c_def by simp
      then show "- int g < W - int m * int k" "W - int m * int k \<le> int g" unfolding d
        using low e by (auto split: if_splits)
    qed simp
    then show ?thesis by simp
  next
    case 2
    then have W: "W = U + e + 8380417" using j by simp
    then have "U < b" using x(4) e by linarith
    then have "k = 0" using P0 gm c(1) bg c_def by (cases "k = 0") auto
    then have "P = 0" "k \<noteq> M" using m(3) by (simp_all add: P_def)
    then have low': "\<bar>U\<bar> < int g - b" using low c_def by simp
    have "int (nearest m (unat w)) = int M"
    proof (rule near)
      have "int m * int M = 8380416" using m(2) by (simp add: mult.commute)
      then show "- int g < W - int m * int M" "W - int m * int M \<le> int g" using W x e low' by linarith+
    qed simp
    then show ?thesis using \<open>k = 0\<close> by simp
  next
    case 3
    then have W: "W = U + e - 8380417" using j by simp
    then have U: "8380417 \<le> U + b" using x(3) e by linarith
    have "k = M"
    proof (rule ccontr)
      assume "k \<noteq> M"
      with Pk low U c_def gm show False by simp
    qed
    have "0 \<le> W" "W \<le> int g" using W x e bg by linarith+
    then have "int (nearest m (unat w)) = 0" using gm by (intro near) simp_all
    then show ?thesis using \<open>k = M\<close> by simp
  qed
  then show ?thesis using du(3) dw(3) by (simp add: word_unat_eq_iff k_def)
qed

end
