(* ===== verification/Mldsa_Poly.thy ===== *)
theory Mldsa_Poly
  imports Mldsa_Field
begin

text \<open>
  Polynomials, vectors and matrices of ML-DSA (\<open>mldsa_core/module_lattice/algebra.rs\<close> and the
  polynomial and vector parts of \<open>mldsa_core/algebra.rs\<close>). An array of 256 elements is a list of
  that length. Every operation is coefficientwise, so it is described by what it does to
  \<open>coef f i\<close>, the ring element behind coefficient \<open>i\<close>.
\<close>

section \<open>Data and operations\<close>

type_synonym poly = "elem list"
type_synonym vec = "poly list"
type_synonym matrix = "vec list"

definition poly_zero :: poly where "poly_zero = replicate 256 0"

definition poly_add :: "poly \<Rightarrow> poly \<Rightarrow> poly" where "poly_add f g = map2 elem_add f g"
definition poly_sub :: "poly \<Rightarrow> poly \<Rightarrow> poly" where "poly_sub f g = map2 elem_sub f g"
definition poly_scale :: "elem \<Rightarrow> poly \<Rightarrow> poly" where "poly_scale c f = map (elem_mul c) f"
definition poly_neg :: "poly \<Rightarrow> poly" where "poly_neg f = map elem_neg f"

definition vec_add :: "vec \<Rightarrow> vec \<Rightarrow> vec" where "vec_add u v = map2 poly_add u v"
definition vec_sub :: "vec \<Rightarrow> vec \<Rightarrow> vec" where "vec_sub u v = map2 poly_sub u v"
definition vec_scale :: "elem \<Rightarrow> vec \<Rightarrow> vec" where "vec_scale c v = map (poly_scale c) v"
definition vec_neg :: "vec \<Rightarrow> vec" where "vec_neg v = map poly_neg v"

text \<open>Transformed polynomials and vectors are distinct types with the same representation and operations.\<close>

definition ntt_add :: "poly \<Rightarrow> poly \<Rightarrow> poly" where "ntt_add f g = map2 elem_add f g"
definition ntt_sub :: "poly \<Rightarrow> poly \<Rightarrow> poly" where "ntt_sub f g = map2 elem_sub f g"
definition ntt_scale :: "elem \<Rightarrow> poly \<Rightarrow> poly" where "ntt_scale c f = map (elem_mul c) f"
definition ntt_neg :: "poly \<Rightarrow> poly" where "ntt_neg f = map elem_neg f"
definition ntt_vec_add :: "vec \<Rightarrow> vec \<Rightarrow> vec" where "ntt_vec_add u v = map2 ntt_add u v"
definition ntt_vec_sub :: "vec \<Rightarrow> vec \<Rightarrow> vec" where "ntt_vec_sub u v = map2 ntt_sub u v"

lemma ntt_ops_eq [simp]:
  "ntt_add = poly_add" "ntt_sub = poly_sub" "ntt_scale = poly_scale" "ntt_neg = poly_neg" "ntt_vec_add = vec_add" "ntt_vec_sub = vec_sub"
  by (simp_all add: fun_eq_iff ntt_add_def poly_add_def ntt_sub_def poly_sub_def ntt_scale_def poly_scale_def ntt_neg_def poly_neg_def
      ntt_vec_add_def vec_add_def ntt_vec_sub_def vec_sub_def)

text \<open>Products of transformed polynomials are coefficientwise; the dot product keeps one accumulator.\<close>

definition ntt_mul :: "poly \<Rightarrow> poly \<Rightarrow> poly" where "ntt_mul f g = map2 elem_mul f g"
definition ntt_vec_scale :: "poly \<Rightarrow> vec \<Rightarrow> vec" where "ntt_vec_scale f v = map (ntt_mul f) v"

definition dot_step :: "poly \<Rightarrow> poly \<Rightarrow> poly \<Rightarrow> poly" where
  "dot_step f g acc = fold (\<lambda>i acc. acc[i := elem_add (acc ! i) (elem_mul (f ! i) (g ! i))]) [0..<256] acc"

definition ntt_dot :: "vec \<Rightarrow> vec \<Rightarrow> poly" where
  "ntt_dot u v = fold (\<lambda>(f, g). dot_step f g) (zip u v) poly_zero"

definition matrix_mul :: "matrix \<Rightarrow> vec \<Rightarrow> vec" where "matrix_mul A v = map (\<lambda>row. ntt_dot row v) A"

text \<open>\<open>AlgebraExt\<close> for polynomials and vectors; the maximum over no elements, which the code unwraps,
  does not occur.\<close>

definition poly_mod_plus_minus :: "nat \<Rightarrow> poly \<Rightarrow> poly" where "poly_mod_plus_minus m f = map (mod_plus_minus m) f"
definition poly_norm :: "poly \<Rightarrow> u32" where "poly_norm f = fold max (map elem_norm f) 0"
definition poly_power2round :: "poly \<Rightarrow> poly \<times> poly" where
  "poly_power2round f = (map (\<lambda>x. fst (power2round x)) f, map (\<lambda>x. snd (power2round x)) f)"
definition poly_high_bits :: "nat \<Rightarrow> poly \<Rightarrow> poly" where "poly_high_bits two_gamma2 f = map (high_bits two_gamma2) f"
definition poly_low_bits :: "nat \<Rightarrow> poly \<Rightarrow> poly" where "poly_low_bits two_gamma2 f = map (low_bits two_gamma2) f"

definition vec_mod_plus_minus :: "nat \<Rightarrow> vec \<Rightarrow> vec" where "vec_mod_plus_minus m v = map (poly_mod_plus_minus m) v"
definition vec_norm :: "vec \<Rightarrow> u32" where "vec_norm v = fold max (map poly_norm v) 0"
definition vec_power2round :: "vec \<Rightarrow> vec \<times> vec" where
  "vec_power2round v = (map (\<lambda>f. fst (poly_power2round f)) v, map (\<lambda>f. snd (poly_power2round f)) v)"
definition vec_high_bits :: "nat \<Rightarrow> vec \<Rightarrow> vec" where "vec_high_bits two_gamma2 v = map (poly_high_bits two_gamma2) v"
definition vec_low_bits :: "nat \<Rightarrow> vec \<Rightarrow> vec" where "vec_low_bits two_gamma2 v = map (poly_low_bits two_gamma2) v"

section \<open>Coefficients\<close>

text \<open>What the types and the arithmetic of the code keep: 256 reduced coefficients, \<open>n\<close> polynomials.\<close>

definition poly_ok :: "poly \<Rightarrow> bool" where "poly_ok f \<longleftrightarrow> length f = 256 \<and> list_all reduced f"
definition vec_ok :: "nat \<Rightarrow> vec \<Rightarrow> bool" where "vec_ok n v \<longleftrightarrow> length v = n \<and> list_all poly_ok v"
definition matrix_ok :: "nat \<Rightarrow> nat \<Rightarrow> matrix \<Rightarrow> bool" where "matrix_ok k l A \<longleftrightarrow> length A = k \<and> list_all (vec_ok l) A"

definition coef :: "poly \<Rightarrow> nat \<Rightarrow> zq" where "coef f i = elem_val (f ! i)"

lemma poly_okD: "poly_ok f \<Longrightarrow> length f = 256" "poly_ok f \<Longrightarrow> i < 256 \<Longrightarrow> reduced (f ! i)"
  by (auto simp: poly_ok_def list_all_length)

lemma poly_okI: "length f = 256 \<Longrightarrow> (\<And>i. i < 256 \<Longrightarrow> reduced (f ! i)) \<Longrightarrow> poly_ok f"
  by (simp add: poly_ok_def list_all_length)

lemma vec_okD: "vec_ok n v \<Longrightarrow> length v = n" "vec_ok n v \<Longrightarrow> i < n \<Longrightarrow> poly_ok (v ! i)"
  by (auto simp: vec_ok_def list_all_length)

lemma vec_okI: "length v = n \<Longrightarrow> (\<And>i. i < n \<Longrightarrow> poly_ok (v ! i)) \<Longrightarrow> vec_ok n v"
  by (simp add: vec_ok_def list_all_length)

lemma matrix_okD: "matrix_ok k l A \<Longrightarrow> length A = k" "matrix_ok k l A \<Longrightarrow> i < k \<Longrightarrow> vec_ok l (A ! i)"
  by (auto simp: matrix_ok_def list_all_length)

lemma poly_eqI: "poly_ok f \<Longrightarrow> poly_ok g \<Longrightarrow> (\<And>i. i < 256 \<Longrightarrow> coef f i = coef g i) \<Longrightarrow> f = g"
  by (rule nth_equalityI) (simp_all add: coef_def elem_val_inject poly_okD)

lemma vec_eqI: "vec_ok n u \<Longrightarrow> vec_ok n v \<Longrightarrow> (\<And>k i. k < n \<Longrightarrow> i < 256 \<Longrightarrow> coef (u ! k) i = coef (v ! k) i) \<Longrightarrow> u = v"
  by (rule nth_equalityI) (simp_all add: vec_okD poly_eqI)

lemma elem_neg_ok [simp]: "reduced a \<Longrightarrow> reduced (elem_neg a)" "reduced a \<Longrightarrow> elem_val (elem_neg a) = - elem_val a"
  by (blast intro: elem_reduced(3) elem_val_ops(3))+

named_theorems algebra_ok "operations keep polynomials, vectors and matrices well formed"
named_theorems coef_simps "coefficients of the results of operations"

lemma poly_ops_ok [simp, intro, algebra_ok]:
  "poly_ok poly_zero"
  "poly_ok f \<Longrightarrow> poly_ok g \<Longrightarrow> poly_ok (poly_add f g)" "poly_ok f \<Longrightarrow> poly_ok g \<Longrightarrow> poly_ok (poly_sub f g)"
  "poly_ok f \<Longrightarrow> poly_ok (poly_neg f)" "poly_ok f \<Longrightarrow> reduced c \<Longrightarrow> poly_ok (poly_scale c f)"
  "poly_ok f \<Longrightarrow> poly_ok g \<Longrightarrow> poly_ok (ntt_mul f g)"
  by (rule poly_okI; simp add: poly_zero_def poly_add_def poly_sub_def poly_neg_def poly_scale_def ntt_mul_def poly_okD)+

lemma coef_ops [simp, coef_simps]:
  "i < 256 \<Longrightarrow> coef poly_zero i = 0"
  "poly_ok f \<Longrightarrow> poly_ok g \<Longrightarrow> i < 256 \<Longrightarrow> coef (poly_add f g) i = coef f i + coef g i"
  "poly_ok f \<Longrightarrow> poly_ok g \<Longrightarrow> i < 256 \<Longrightarrow> coef (poly_sub f g) i = coef f i - coef g i"
  "poly_ok f \<Longrightarrow> i < 256 \<Longrightarrow> coef (poly_neg f) i = - coef f i"
  "poly_ok f \<Longrightarrow> reduced c \<Longrightarrow> i < 256 \<Longrightarrow> coef (poly_scale c f) i = elem_val c * coef f i"
  "poly_ok f \<Longrightarrow> poly_ok g \<Longrightarrow> i < 256 \<Longrightarrow> coef (ntt_mul f g) i = coef f i * coef g i"
  by (simp_all add: coef_def poly_zero_def poly_add_def poly_sub_def poly_neg_def poly_scale_def ntt_mul_def poly_okD)

lemma vec_ops_ok [simp, intro, algebra_ok]:
  "vec_ok n u \<Longrightarrow> vec_ok n v \<Longrightarrow> vec_ok n (vec_add u v)" "vec_ok n u \<Longrightarrow> vec_ok n v \<Longrightarrow> vec_ok n (vec_sub u v)"
  "vec_ok n v \<Longrightarrow> vec_ok n (vec_neg v)" "vec_ok n v \<Longrightarrow> reduced c \<Longrightarrow> vec_ok n (vec_scale c v)"
  "vec_ok n v \<Longrightarrow> poly_ok f \<Longrightarrow> vec_ok n (ntt_vec_scale f v)"
  by (rule vec_okI; simp add: vec_add_def vec_sub_def vec_neg_def vec_scale_def ntt_vec_scale_def vec_okD poly_ops_ok)+

lemma vec_ops_nth [simp, coef_simps]:
  "vec_ok n u \<Longrightarrow> vec_ok n v \<Longrightarrow> k < n \<Longrightarrow> vec_add u v ! k = poly_add (u ! k) (v ! k)"
  "vec_ok n u \<Longrightarrow> vec_ok n v \<Longrightarrow> k < n \<Longrightarrow> vec_sub u v ! k = poly_sub (u ! k) (v ! k)"
  "vec_ok n v \<Longrightarrow> k < n \<Longrightarrow> vec_neg v ! k = poly_neg (v ! k)"
  "vec_ok n v \<Longrightarrow> k < n \<Longrightarrow> vec_scale c v ! k = poly_scale c (v ! k)"
  "vec_ok n v \<Longrightarrow> k < n \<Longrightarrow> ntt_vec_scale f v ! k = ntt_mul f (v ! k)"
  by (simp_all add: vec_add_def vec_sub_def vec_neg_def vec_scale_def ntt_vec_scale_def vec_okD)

lemma dot_step_spec:
  assumes "poly_ok f" and "poly_ok g" and "poly_ok acc"
  shows "poly_ok (dot_step f g acc) \<and> (\<forall>i < 256. coef (dot_step f g acc) i = coef acc i + coef f i * coef g i)"
proof -
  have "fold (\<lambda>i acc. acc[i := elem_add (acc ! i) (elem_mul (f ! i) (g ! i))]) [0..<n] acc
      = map (\<lambda>i. if i < n then elem_add (acc ! i) (elem_mul (f ! i) (g ! i)) else acc ! i) [0..<256]" if "n \<le> 256" for n
    using that
  proof (induction n)
    case 0
    then show ?case using assms(3) by (intro nth_equalityI) (simp_all add: poly_okD)
  next
    case (Suc n)
    then show ?case by (intro nth_equalityI) (auto simp: nth_list_update)
  qed
  then have "dot_step f g acc = map (\<lambda>i. elem_add (acc ! i) (elem_mul (f ! i) (g ! i))) [0..<256]"
    by (simp add: dot_step_def)
  then show ?thesis using assms by (simp add: coef_def poly_okD poly_okI)
qed

lemma fold_dot_step:
  assumes "list_all (\<lambda>(f, g). poly_ok f \<and> poly_ok g) ps" and "poly_ok acc"
  shows "poly_ok (fold (\<lambda>(f, g). dot_step f g) ps acc)
    \<and> (\<forall>i < 256. coef (fold (\<lambda>(f, g). dot_step f g) ps acc) i = coef acc i + (\<Sum>(f, g) \<leftarrow> ps. coef f i * coef g i))"
  using assms
proof (induction ps arbitrary: acc)
  case (Cons p ps)
  obtain f g where p: "p = (f, g)" by (cases p)
  note d = dot_step_spec [of f g acc]
  show ?case using Cons.IH [of "dot_step f g acc"] Cons.prems d by (auto simp: p add.assoc)
qed simp

lemma ntt_dot_ok [simp, intro, algebra_ok]: "vec_ok n u \<Longrightarrow> vec_ok n v \<Longrightarrow> poly_ok (ntt_dot u v)"
  using fold_dot_step [of "zip u v" poly_zero] by (simp add: ntt_dot_def list_all_length vec_okD)

lemma coef_ntt_dot [coef_simps]:
  assumes "vec_ok n u" and "vec_ok n v" and "i < 256"
  shows "coef (ntt_dot u v) i = (\<Sum>k < n. coef (u ! k) i * coef (v ! k) i)"
proof -
  have "coef (ntt_dot u v) i = (\<Sum>(f, g) \<leftarrow> zip u v. coef f i * coef g i)"
    using fold_dot_step [of "zip u v" poly_zero] assms by (simp add: ntt_dot_def list_all_length vec_okD)
  also have "\<dots> = (\<Sum>k < n. coef (u ! k) i * coef (v ! k) i)"
    using assms by (simp add: sum_list_sum_nth vec_okD atLeast0LessThan)
  finally show ?thesis .
qed

lemma matrix_mul_ok [simp, intro, algebra_ok]: "matrix_ok k l A \<Longrightarrow> vec_ok l v \<Longrightarrow> vec_ok k (matrix_mul A v)"
  by (rule vec_okI) (simp_all add: matrix_mul_def matrix_okD ntt_dot_ok [of l])

lemma matrix_mul_nth [simp, coef_simps]: "matrix_ok k l A \<Longrightarrow> i < k \<Longrightarrow> matrix_mul A v ! i = ntt_dot (A ! i) v"
  by (simp add: matrix_mul_def matrix_okD)

section \<open>Norms and rounding\<close>

lemma fold_max_less:
  "fold max (xs :: 'a::linorder list) a < b \<longleftrightarrow> a < b \<and> (\<forall>x \<in> set xs. x < b)"
  by (induction xs arbitrary: a) auto

lemma poly_norm_less:
  assumes "poly_ok f" and "0 < b"
  shows "poly_norm f < b \<longleftrightarrow> (\<forall>i < 256. \<bar>cval (f ! i)\<bar> < int (unat b))"
proof -
  have "elem_norm (f ! i) < b \<longleftrightarrow> \<bar>cval (f ! i)\<bar> < int (unat b)" if "i < 256" for i
    using elem_norm_cval [OF poly_okD(2) [OF assms(1) that]] by (simp add: word_less_nat_alt del: of_nat_unat) linarith
  moreover have "poly_norm f < b \<longleftrightarrow> (\<forall>i < 256. elem_norm (f ! i) < b)"
    using assms poly_okD(1) [OF assms(1)] by (simp add: poly_norm_def fold_max_less all_set_conv_all_nth)
  ultimately show ?thesis by blast
qed

lemma vec_norm_less:
  assumes "vec_ok n v" and "0 < b"
  shows "vec_norm v < b \<longleftrightarrow> (\<forall>k < n. \<forall>i < 256. \<bar>cval (v ! k ! i)\<bar> < int (unat b))"
proof -
  have "vec_norm v < b \<longleftrightarrow> (\<forall>k < n. poly_norm (v ! k) < b)"
    using assms by (simp add: vec_norm_def fold_max_less all_set_conv_all_nth vec_okD)
  then show ?thesis using assms by (simp add: poly_norm_less vec_okD)
qed

end
