(* ===== verification/Mldsa_Encode.thy ===== *)
theory Mldsa_Encode
  imports Mldsa_Poly
begin

text \<open>
  Packing of coefficients into bytes (\<open>mldsa_core/module_lattice/encode.rs\<close>,
  \<open>module_lattice/util.rs\<close> and \<open>mldsa_core/encode.rs\<close>). A chunk of coefficients is collected in a
  128-bit word and written as bytes; a range encoding stores the distance from the upper end. The
  assertions of \<open>BitPack\<close> are \<open>None\<close>.
\<close>

section \<open>The encoders\<close>

definition chunks :: "nat \<Rightarrow> 'a list \<Rightarrow> 'a list list" where
  "chunks n xs = map (\<lambda>i. take n (drop (i * n) xs)) [0..<(length xs + n - 1) div n]"

text \<open>\<open>EncodingUnit\<close>, the least common multiple of the width and 8, determines both steps.\<close>

definition encoding_unit :: "nat \<Rightarrow> nat" where "encoding_unit d = d * 8 div gcd d 8"
definition value_step :: "nat \<Rightarrow> nat" where "value_step d = encoding_unit d div d"
definition byte_step :: "nat \<Rightarrow> nat" where "byte_step d = encoding_unit d div 8"

definition pack_values :: "nat \<Rightarrow> elem list \<Rightarrow> 128 word" where
  "pack_values d v = fold (\<lambda>j x. x OR push_bit (d * j) (ucast (v ! j))) [0..<length v] 0"

definition byte_encode :: "nat \<Rightarrow> poly \<Rightarrow> bytes" where
  "byte_encode d vals = concat (map (\<lambda>v. take (byte_step d) (le_bytes 16 (pack_values d v))) (chunks (value_step d) vals))"

definition unpack_values :: "nat \<Rightarrow> 128 word \<Rightarrow> elem list" where
  "unpack_values d x = map (\<lambda>j. let val = ucast (drop_bit (d * j) x) AND (push_bit d 1 - 1) in
     if d = 12 then val mod MLDSA_Q else val) [0..<value_step d]"

definition byte_decode :: "nat \<Rightarrow> bytes \<Rightarrow> poly" where
  "byte_decode d bs = concat (map (\<lambda>b. unpack_values d (le_word (b @ replicate (16 - byte_step d) 0))) (chunks (byte_step d) bs))"

text \<open>Range encodings; \<open>Length\<close> of a type-level integer is its number of binary digits.\<close>

definition bit_length :: "nat \<Rightarrow> nat" where "bit_length n = (if n = 0 then 0 else ilog2 n + 1)"

definition range_bits :: "nat \<Rightarrow> nat \<Rightarrow> nat" where "range_bits a b = bit_length (a + b)"

definition bit_pack :: "nat \<Rightarrow> nat \<Rightarrow> poly \<Rightarrow> bytes option" where
  "bit_pack a b f =
     (if list_all (\<lambda>w. w \<le> of_nat b \<or> elem_neg (of_nat a) \<le> w) f
      then Some (byte_encode (range_bits a b) (map (\<lambda>w. elem_sub (of_nat b) w) f)) else None)"

definition bit_unpack :: "nat \<Rightarrow> nat \<Rightarrow> bytes \<Rightarrow> poly option" where
  "bit_unpack a b enc =
     (let decoded = byte_decode (range_bits a b) enc in
      if list_all (\<lambda>z. z \<le> elem_add (of_nat a) (of_nat b)) decoded then Some (map (\<lambda>z. elem_sub (of_nat b) z) decoded) else None)"

text \<open>Vectors are the concatenation of their polynomials; \<open>flatten\<close> and \<open>unflatten\<close> are \<open>concat\<close> and \<open>chunks\<close>.\<close>

definition vec_encode :: "nat \<Rightarrow> vec \<Rightarrow> bytes" where "vec_encode d v = concat (map (byte_encode d) v)"
definition vec_decode :: "nat \<Rightarrow> bytes \<Rightarrow> vec" where "vec_decode d enc = map (byte_decode d) (chunks (32 * d) enc)"

definition vec_pack :: "nat \<Rightarrow> nat \<Rightarrow> vec \<Rightarrow> bytes option" where
  "vec_pack a b v = map_option concat (those (map (bit_pack a b) v))"

definition vec_unpack :: "nat \<Rightarrow> nat \<Rightarrow> bytes \<Rightarrow> vec option" where
  "vec_unpack a b enc = those (map (bit_unpack a b) (chunks (32 * range_bits a b) enc))"

section \<open>Chunks\<close>

lemma chunks_concat:
  assumes "0 < n" and "\<And>y. y \<in> set ys \<Longrightarrow> length y = n"
  shows "chunks n (concat ys) = ys"
proof -
  have len: "length (concat ys) = length ys * n" using assms(2) by (induction ys) simp_all
  have "(length ys * n + n - 1) div n = length ys"
  proof -
    have "(length ys * n + n - 1) div n = (length ys * n + (n - 1)) div n" using assms(1) by simp
    also have "\<dots> = length ys + (n - 1) div n" using assms(1) by (intro div_mult_self3) simp
    finally show ?thesis using assms(1) by simp
  qed
  moreover have "take n (drop (i * n) (concat ys)) = ys ! i" if "i < length ys" for i
    using that assms(2)
  proof (induction ys arbitrary: i)
    case (Cons y ys)
    then show ?case by (cases i) simp_all
  qed simp
  ultimately show ?thesis by (intro nth_equalityI) (simp_all add: chunks_def len)
qed

lemma concat_chunks:
  assumes "0 < n" and "length xs = k * n"
  shows "concat (chunks n xs) = xs" "\<And>y. y \<in> set (chunks n xs) \<Longrightarrow> length y = n" "length (chunks n xs) = k"
proof -
  have "\<exists>ys. xs = concat ys \<and> length ys = k \<and> (\<forall>y \<in> set ys. length y = n)"
    using assms(2)
  proof (induction k arbitrary: xs)
    case (Suc k)
    have "length (drop n xs) = k * n" using Suc.prems by simp
    from Suc.IH [OF this] obtain ys where "drop n xs = concat ys" "length ys = k" "\<forall>y \<in> set ys. length y = n" by blast
    moreover from this have "xs = concat (take n xs # ys)" by (metis append_take_drop_id concat.simps(2))
    moreover have "length (take n xs) = n" using Suc.prems by simp
    ultimately have "xs = concat (take n xs # ys)" "length (take n xs) = n" "length ys = k" "\<forall>y \<in> set ys. length y = n" by blast+
    then show ?case by (intro exI [of _ "take n xs # ys"]) simp
  qed simp
  then obtain ys where ys: "xs = concat ys" "length ys = k" "\<And>y. y \<in> set ys \<Longrightarrow> length y = n" by blast
  have "chunks n xs = ys" unfolding ys(1) by (rule chunks_concat [OF assms(1) ys(3)])
  then show "concat (chunks n xs) = xs" "\<And>y. y \<in> set (chunks n xs) \<Longrightarrow> length y = n" "length (chunks n xs) = k"
    using ys by simp_all
qed

section \<open>Bits of a chunk\<close>

lemma bit_pack_values:
  "bit (pack_values d v) i \<longleftrightarrow> i < 128 \<and> (\<exists>j < length v. d * j \<le> i \<and> bit (v ! j) (i - d * j))"
proof -
  have "bit (fold (\<lambda>j x. x OR push_bit (d * j) (ucast (v ! j))) [0..<n] (0 :: 128 word)) i
      \<longleftrightarrow> i < 128 \<and> (\<exists>j < n. d * j \<le> i \<and> bit (v ! j) (i - d * j))" for n
  proof (induction n)
    case (Suc n)
    then show ?case by (auto simp: bit_simps less_Suc_eq)
  qed simp
  then show ?thesis by (simp add: pack_values_def)
qed

lemma le_bytes_take: "m \<le> n \<Longrightarrow> take m (le_bytes n w) = le_bytes m w"
proof (induction m arbitrary: n w)
  case (Suc m)
  then show ?case by (cases n) simp_all
qed simp

lemma le_word_pad: "le_word (b @ replicate k 0) = le_word b"
proof (induction b)
  case Nil
  then show ?case by (induction k) simp_all
qed simp

text \<open>A chunk of values below \<open>2^d\<close> survives, and so does a chunk of bytes.\<close>

lemma small_bits:
  fixes w :: "'a::len word"
  assumes "unat w < 2 ^ d" and "bit w n"
  shows "n < d"
proof (rule ccontr)
  assume "\<not> n < d"
  have "take_bit d w = w" using assms(1) by (metis take_bit_nat_eq_self unsigned_take_bit_eq word_unat_eq_iff)
  with \<open>\<not> n < d\<close> show False using assms(2) by (metis bit_take_bit_iff)
qed

lemma unpack_pack_values:
  assumes "\<And>x. x \<in> set v \<Longrightarrow> unat x < 2 ^ d" and "length v = value_step d" and "value_step d * d = 8 * byte_step d"
    and "byte_step d \<le> 16" and "d < 32" "d \<noteq> 12"
  shows "unpack_values d (le_word (le_bytes (byte_step d) (pack_values d v))) = v"
proof (rule nth_equalityI)
  show "length (unpack_values d (le_word (le_bytes (byte_step d) (pack_values d v)))) = length v"
    by (simp add: unpack_values_def assms(2))
next
  fix j assume "j < length (unpack_values d (le_word (le_bytes (byte_step d) (pack_values d v))))"
  then have j: "j < length v" by (simp add: unpack_values_def assms(2))
  have small: "n < d" if "bit (v ! k) n" "k < length v" for k n using small_bits [OF assms(1) that(1)] that(2) by simp
  have same: "k = j" if "d * k \<le> d * j + n" "n < d" "bit (v ! k) (d * j + n - d * k)" "k < length v" for k n
  proof -
    have "d * j + n - d * k < d" using small [OF that(3,4)] .
    then have "d * j + n < d * (k + 1)" using that(1) by (simp add: algebra_simps)
    then have "j \<le> k" using that(2) by (metis add_lessD1 less_Suc_eq_le mult_less_cancel1 Suc_eq_plus1)
    moreover have "d * k < d * (j + 1)" using that(1,2) by (simp add: algebra_simps)
    then have "k < j + 1" by (simp only: mult_less_cancel1)
    ultimately show "k = j" by simp
  qed
  have room: "d * j + n < 8 * byte_step d" if "n < d" for n
  proof -
    have "(j + 1) * d \<le> value_step d * d" using j assms(2) by (intro mult_le_mono1) simp
    then show ?thesis using that assms(3) by (simp add: algebra_simps)
  qed
  have "bit ((ucast (drop_bit (d * j) (take_bit (8 * byte_step d) (pack_values d v))) AND (push_bit d 1 - 1)) :: u32) n \<longleftrightarrow> bit (v ! j) n"
    if "n < 32" for n
  proof -
    have mask: "(push_bit d 1 - 1 :: u32) = mask d" by (simp add: mask_eq_exp_minus_1)
    have "bit (pack_values d v) (d * j + n) \<longleftrightarrow> bit (v ! j) n" if "n < d"
    proof -
      have "d * j + n < 128" using room [OF that] assms(4) by simp
      moreover have "(\<exists>k < length v. d * k \<le> d * j + n \<and> bit (v ! k) (d * j + n - d * k)) \<longleftrightarrow> bit (v ! j) n"
      proof
        assume "\<exists>k < length v. d * k \<le> d * j + n \<and> bit (v ! k) (d * j + n - d * k)"
        then obtain k where k: "k < length v" "d * k \<le> d * j + n" "bit (v ! k) (d * j + n - d * k)" by blast
        with same [OF k(2) \<open>n < d\<close> k(3,1)] show "bit (v ! j) n" by simp
      next
        assume "bit (v ! j) n"
        then show "\<exists>k < length v. d * k \<le> d * j + n \<and> bit (v ! k) (d * j + n - d * k)" using j by (intro exI [of _ j]) simp
      qed
      ultimately show ?thesis by (simp add: bit_pack_values)
    qed
    then show ?thesis unfolding mask using that room small [OF _ j, of n] assms(4)
      by (auto simp: bit_simps dest: bit_imp_le_length)
  qed
  then have "(ucast (drop_bit (d * j) (take_bit (8 * byte_step d) (pack_values d v))) AND (push_bit d 1 - 1) :: u32) = v ! j"
    by (intro bit_word_eqI) simp
  then show "unpack_values d (le_word (le_bytes (byte_step d) (pack_values d v))) ! j = v ! j"
    using j assms(2,6) by (simp add: unpack_values_def le_word_le_bytes_take_bit)
qed

lemma pack_unpack_values:
  assumes "length b = byte_step d" and "value_step d * d = 8 * byte_step d" and "byte_step d \<le> 16" and "0 < d" "d < 32" "d \<noteq> 12"
  shows "take (byte_step d) (le_bytes 16 (pack_values d (unpack_values d (le_word (b @ replicate (16 - byte_step d) 0))))) = b"
    and "v \<in> set (unpack_values d x) \<Longrightarrow> unat v < 2 ^ d"
proof -
  define x where "x = (le_word b :: 128 word)"
  have mask: "(push_bit d 1 - 1 :: u32) = mask d" by (simp add: mask_eq_exp_minus_1)
  have len: "length (unpack_values d y) = value_step d" for y by (simp add: unpack_values_def)
  have small: "i < 8 * byte_step d" if "bit x i" for i
  proof -
    have "le_word (le_bytes (byte_step d) x) = take_bit (8 * byte_step d) x" by (rule le_word_le_bytes_take_bit)
    moreover have "le_bytes (byte_step d) x = b" using le_bytes_le_word [of b, where 'a = 128] assms(1,3) by (simp add: x_def)
    ultimately have "x = take_bit (8 * byte_step d) x" by (simp add: x_def)
    then show ?thesis using that by (metis bit_take_bit_iff)
  qed
  have vals: "bit (unpack_values d x ! j) n \<longleftrightarrow> n < d \<and> bit x (d * j + n)" if "j < value_step d" for j n
    unfolding unpack_values_def mask using that assms(5,6) by (auto simp: bit_simps Let_def dest: bit_imp_le_length)
  have "pack_values d (unpack_values d x) = x"
  proof (rule bit_word_eqI)
    fix i assume "i < LENGTH(128)"
    then have i: "i < 128" by simp
    have "bit (pack_values d (unpack_values d x)) i \<longleftrightarrow> (\<exists>j < value_step d. d * j \<le> i \<and> i - d * j < d \<and> bit x i)"
      unfolding bit_pack_values len using i by (auto simp: vals)
    also have "\<dots> \<longleftrightarrow> bit x i"
    proof
      assume "bit x i"
      from small [OF this] have "i < value_step d * d" using assms(2) by simp
      then have "i div d < value_step d" by (simp add: less_mult_imp_div_less)
      moreover have "d * (i div d) \<le> i" "i - d * (i div d) < d" using assms(4) by (simp_all add: minus_mult_div_eq_mod)
      ultimately show "\<exists>j < value_step d. d * j \<le> i \<and> i - d * j < d \<and> bit x i" using \<open>bit x i\<close> by blast
    qed blast
    finally show "bit (pack_values d (unpack_values d x)) i \<longleftrightarrow> bit x i" .
  qed
  then show "take (byte_step d) (le_bytes 16 (pack_values d (unpack_values d (le_word (b @ replicate (16 - byte_step d) 0))))) = b"
    using le_bytes_le_word [of b, where 'a = 128] assms(1,3) by (simp add: le_word_pad x_def le_bytes_take)
  show "unat v < 2 ^ d" if v: "v \<in> set (unpack_values d y)" for v y
  proof -
    obtain j where "v = ucast (drop_bit (d * j) y) AND mask d" using v assms(6) by (auto simp: unpack_values_def Let_def mask_eq_exp_minus_1)
    then have "v = take_bit d (ucast (drop_bit (d * j) y))" by (simp add: take_bit_eq_mask)
    then show ?thesis by (simp add: unsigned_take_bit_eq)
  qed
qed

section \<open>Whole polynomials\<close>

text \<open>The widths that occur: 3 and 4 bits for secrets, 4 and 6 for high parts, 10 for \<open>t1\<close>, 13 for
  \<open>t0\<close>, 18 and 20 for masks.\<close>

definition width_ok :: "nat \<Rightarrow> bool" where "width_ok d \<longleftrightarrow> d \<in> {3, 4, 6, 10, 13, 18, 20}"

lemma width_facts:
  assumes "width_ok d"
  shows "value_step d * d = 8 * byte_step d" "byte_step d \<le> 16" "0 < d" "d < 32" "d \<noteq> 12" "0 < value_step d" "0 < byte_step d"
    "256 div value_step d * value_step d = 256" "256 div value_step d * byte_step d = 32 * d"
proof -
  have "gcd 3 8 = (1 :: nat)" "gcd 4 8 = (4 :: nat)" "gcd 6 8 = (2 :: nat)" "gcd 10 8 = (2 :: nat)" "gcd 13 8 = (1 :: nat)"
    "gcd 18 8 = (2 :: nat)" "gcd 20 8 = (4 :: nat)" by code_simp+
  then show "value_step d * d = 8 * byte_step d" "byte_step d \<le> 16" "0 < d" "d < 32" "d \<noteq> 12" "0 < value_step d" "0 < byte_step d"
    "256 div value_step d * value_step d = 256" "256 div value_step d * byte_step d = 32 * d"
    using assms by (auto simp: width_ok_def value_step_def byte_step_def encoding_unit_def)
qed

definition fits :: "nat \<Rightarrow> poly \<Rightarrow> bool" where "fits d f \<longleftrightarrow> length f = 256 \<and> (\<forall>x \<in> set f. unat x < 2 ^ d)"

lemma byte_encode_decode:
  assumes d: "width_ok d" and f: "fits d f"
  shows "length (byte_encode d f) = 32 * d" "byte_decode d (byte_encode d f) = f"
proof -
  note w = width_facts [OF d]
  have len: "length f = 256 div value_step d * value_step d" using f w(8) by (simp add: fits_def)
  note c = concat_chunks [OF w(6) len]
  define enc where "enc v = take (byte_step d) (le_bytes 16 (pack_values d v))" for v
  have enc_len: "length (enc v) = byte_step d" for v using w(2) by (simp add: enc_def)
  have enc: "byte_encode d f = concat (map enc (chunks (value_step d) f))" by (simp add: byte_encode_def enc_def [abs_def])
  show "length (byte_encode d f) = 32 * d"
    using c(3) w(9) by (simp add: enc length_concat o_def enc_len sum_list_triv)
  have "chunks (byte_step d) (byte_encode d f) = map enc (chunks (value_step d) f)"
    unfolding enc by (rule chunks_concat [OF w(7)]) (auto simp: enc_len)
  then have "byte_decode d (byte_encode d f) = concat (map (\<lambda>v. unpack_values d (le_word (enc v))) (chunks (value_step d) f))"
    by (simp add: byte_decode_def le_word_pad o_def)
  also have "map (\<lambda>v. unpack_values d (le_word (enc v))) (chunks (value_step d) f) = chunks (value_step d) f"
  proof (rule map_idI)
    fix v assume v: "v \<in> set (chunks (value_step d) f)"
    then have "set v \<subseteq> set f" using c(1) by (metis UN_upper set_concat)
    then show "unpack_values d (le_word (enc v)) = v"
      using unpack_pack_values [of v d] f v c(2) w by (auto simp: enc_def le_bytes_take fits_def)
  qed
  also have "concat (chunks (value_step d) f) = f" by (rule c(1))
  finally show "byte_decode d (byte_encode d f) = f" .
qed

lemma byte_decode_encode:
  assumes d: "width_ok d" and b: "length b = 32 * d"
  shows "fits d (byte_decode d b)" "byte_encode d (byte_decode d b) = b"
proof -
  note w = width_facts [OF d]
  have len: "length b = 256 div value_step d * byte_step d" using b w(9) by simp
  note c = concat_chunks [OF w(7) len]
  define dec where "dec y = unpack_values d (le_word (y @ replicate (16 - byte_step d) 0))" for y
  have dec_len: "length (dec y) = value_step d" for y by (simp add: dec_def unpack_values_def)
  have dec: "byte_decode d b = concat (map dec (chunks (byte_step d) b))" by (simp add: byte_decode_def dec_def [abs_def])
  have "length (byte_decode d b) = 256"
    using c(3) w(8) by (simp add: dec length_concat o_def dec_len sum_list_triv)
  moreover have "unat x < 2 ^ d" if x: "x \<in> set (byte_decode d b)" for x
  proof -
    obtain y where "y \<in> set (chunks (byte_step d) b)" "x \<in> set (dec y)" using x by (auto simp: dec)
    then show ?thesis using pack_unpack_values(2) [of y d] c(2) w by (auto simp: dec_def)
  qed
  ultimately show "fits d (byte_decode d b)" by (simp add: fits_def)
  have "chunks (value_step d) (byte_decode d b) = map dec (chunks (byte_step d) b)"
    unfolding dec by (rule chunks_concat [OF w(6)]) (auto simp: dec_len)
  then have "byte_encode d (byte_decode d b)
      = concat (map (\<lambda>y. take (byte_step d) (le_bytes 16 (pack_values d (dec y)))) (chunks (byte_step d) b))"
    by (simp add: byte_encode_def o_def)
  also have "map (\<lambda>y. take (byte_step d) (le_bytes 16 (pack_values d (dec y)))) (chunks (byte_step d) b) = chunks (byte_step d) b"
    using pack_unpack_values(1) [of _ d] c(2) w by (intro map_idI) (simp add: dec_def)
  also have "concat (chunks (byte_step d) b) = b" by (rule c(1))
  finally show "byte_encode d (byte_decode d b) = b" .
qed

section \<open>Range encodings\<close>

text \<open>The ranges that occur and their widths.\<close>

definition range_ok :: "nat \<Rightarrow> nat \<Rightarrow> bool" where
  "range_ok a b \<longleftrightarrow> (a, b) \<in> {(2, 2), (4, 4), (4095, 4096), (131071, 131072), (524287, 524288)}"

lemma range_facts:
  assumes "range_ok a b"
  shows "width_ok (range_bits a b)" "a + b < 2 ^ range_bits a b" "a \<le> 524288" "b \<le> 524288"
    "a \<noteq> b \<Longrightarrow> a + b + 1 = 2 ^ range_bits a b"
proof -
  have "range_bits 2 2 = 3" "range_bits 4 4 = 4" "range_bits 4095 4096 = 13" "range_bits 131071 131072 = 18" "range_bits 524287 524288 = 20"
    by (simp_all add: range_bits_def bit_length_def ilog2.simps)
  then show "width_ok (range_bits a b)" "a + b < 2 ^ range_bits a b" "a \<le> 524288" "b \<le> 524288"
    "a \<noteq> b \<Longrightarrow> a + b + 1 = 2 ^ range_bits a b"
    using assms by (auto simp: range_ok_def width_ok_def)
qed

text \<open>Polynomials with coefficients between \<open>- a\<close> and \<open>b\<close>.\<close>

definition in_range :: "nat \<Rightarrow> nat \<Rightarrow> poly \<Rightarrow> bool" where
  "in_range a b f \<longleftrightarrow> poly_ok f \<and> (\<forall>i < 256. - int a \<le> cval (f ! i) \<and> cval (f ! i) \<le> int b)"

lemma unat_of_nat_small: "n < 2 ^ 32 \<Longrightarrow> unat (of_nat n :: u32) = n"
  by (simp add: unsigned_of_nat take_bit_nat_eq_self)

lemma distance:
  assumes r: "range_ok a b" and w: "reduced w"
  shows "reduced (elem_sub (of_nat b) w)" "elem_sub (of_nat b) (elem_sub (of_nat b) w) = w"
    and "w \<le> of_nat b \<or> elem_neg (of_nat a) \<le> w \<longleftrightarrow> - int a \<le> cval w \<and> cval w \<le> int b"
    and "- int a \<le> cval w \<Longrightarrow> cval w \<le> int b \<Longrightarrow> int (unat (elem_sub (of_nat b) w)) = int b - cval w"
proof -
  note f = range_facts [OF r]
  have u: "unat (of_nat a :: u32) = a" "unat (of_nat b :: u32) = b" using f by (simp_all add: unat_of_nat_small)
  have red: "reduced (of_nat a)" "reduced (of_nat b)" using f u by (simp_all add: reduced_iff)
  show "reduced (elem_sub (of_nat b) w)" using red w by simp
  have "elem_val (elem_sub (of_nat b) (elem_sub (of_nat b) w)) = elem_val w" using red w by simp
  then show "elem_sub (of_nat b) (elem_sub (of_nat b) w) = w"
    using red w elem_val_inject [of "elem_sub (of_nat b) (elem_sub (of_nat b) w)" w] by simp
  have W: "unat w < 8380417" using w by (simp add: reduced_iff)
  have neg: "unat (elem_neg (of_nat a)) = (8380417 - a) mod 8380417" using elem_unat(3) [OF red(1,1)] by (simp add: u)
  have pos: "0 < a" using r by (auto simp: range_ok_def)
  show "w \<le> of_nat b \<or> elem_neg (of_nat a) \<le> w \<longleftrightarrow> - int a \<le> cval w \<and> cval w \<le> int b"
    unfolding word_le_nat_alt neg u cval_def using W f(3,4) pos by (auto simp del: of_nat_unat)
  assume "- int a \<le> cval w" "cval w \<le> int b"
  then show "int (unat (elem_sub (of_nat b) w)) = int b - cval w"
    unfolding elem_unat(2) [OF red(2) w] u cval_def using W f(3,4) by (auto simp: mod_if simp del: of_nat_unat split: if_splits)
qed

lemma bit_pack_ok:
  assumes r: "range_ok a b" and f: "in_range a b f"
  obtains enc where "bit_pack a b f = Some enc" "length enc = 32 * range_bits a b" "bit_unpack a b enc = Some f"
proof -
  note rf = range_facts [OF r]
  have ok: "poly_ok f" and bounds: "\<And>i. i < 256 \<Longrightarrow> - int a \<le> cval (f ! i) \<and> cval (f ! i) \<le> int b" using f by (simp_all add: in_range_def)
  note red = poly_okD(2) [OF ok]
  define g where "g = map (elem_sub (of_nat b)) f"
  have lg: "length g = 256" using poly_okD(1) [OF ok] by (simp add: g_def)
  have val: "unat (g ! i) \<le> a + b" if "i < 256" for i
    using distance(4) [OF r red [OF that]] bounds [OF that] that poly_okD(1) [OF ok] by (simp add: g_def del: of_nat_unat)
  have "unat x < 2 ^ range_bits a b" if "x \<in> set g" for x
    using that val rf(2) lg by (metis in_set_conv_nth le_less_trans)
  then have fit: "fits (range_bits a b) g" using lg by (simp add: fits_def)
  note e = byte_encode_decode [OF rf(1) fit]
  have "list_all (\<lambda>w. w \<le> of_nat b \<or> elem_neg (of_nat a) \<le> w) f"
    using distance(3) [OF r] red bounds poly_okD(1) [OF ok] by (simp add: list_all_length)
  then have pack: "bit_pack a b f = Some (byte_encode (range_bits a b) g)" by (simp add: bit_pack_def g_def)
  have sum: "unat (elem_add (of_nat a) (of_nat b)) = a + b"
  proof -
    have "unat (of_nat a :: u32) = a" "unat (of_nat b :: u32) = b" using rf by (simp_all add: unat_of_nat_small)
    then show ?thesis using elem_unat(1) [of "of_nat a" "of_nat b"] rf(3,4) by (simp add: reduced_iff)
  qed
  have "list_all (\<lambda>z. z \<le> elem_add (of_nat a) (of_nat b)) g"
    using val lg sum by (simp add: list_all_length word_le_nat_alt)
  moreover have "map (elem_sub (of_nat b)) g = f"
    using distance(2) [OF r] red poly_okD(1) [OF ok] by (intro nth_equalityI) (simp_all add: g_def)
  ultimately have "bit_unpack a b (byte_encode (range_bits a b) g) = Some f"
    by (simp add: bit_unpack_def e(2))
  then show thesis using that pack e(1) by blast
qed

lemma bit_unpack_ok:
  assumes r: "range_ok a b" and enc: "length enc = 32 * range_bits a b" and dec: "bit_unpack a b enc = Some f"
  shows "in_range a b f" "bit_pack a b f = Some enc"
proof -
  note rf = range_facts [OF r]
  define g where "g = byte_decode (range_bits a b) enc"
  note e = byte_decode_encode [OF rf(1) enc, folded g_def]
  have u: "unat (of_nat a :: u32) = a" "unat (of_nat b :: u32) = b" using rf by (simp_all add: unat_of_nat_small)
  have red_ab: "reduced (of_nat a)" "reduced (of_nat b)" using rf u by (simp_all add: reduced_iff)
  have sum: "unat (elem_add (of_nat a) (of_nat b)) = a + b"
    using elem_unat(1) [OF red_ab] rf(3,4) by (simp add: u)
  have lg: "length g = 256" using e(1) by (simp add: fits_def)
  have f: "f = map (elem_sub (of_nat b)) g" and all: "list_all (\<lambda>z. z \<le> elem_add (of_nat a) (of_nat b)) g"
    using dec by (auto simp: bit_unpack_def g_def Let_def split: if_splits)
  have val: "unat (g ! i) \<le> a + b" if "i < 256" for i
    using all that lg by (simp add: list_all_length word_le_nat_alt sum)
  have redg: "reduced (g ! i)" if "i < 256" for i using val [OF that] rf(3,4) by (simp add: reduced_iff)
  have "cval (f ! i) = int b - int (unat (g ! i))" if "i < 256" for i
  proof (rule cval_eqI)
    show "reduced (f ! i)" using redg [OF that] red_ab that lg by (simp add: f)
    have "elem_val (f ! i) = of_nat b - of_nat (unat (g ! i))" using redg [OF that] red_ab that lg u by (simp add: f elem_val_def [of "of_nat b"] elem_val_def [of "g ! i"])
    then show "elem_val (f ! i) = of_int (int b - int (unat (g ! i)))" by simp
    show "- 4190208 \<le> int b - int (unat (g ! i))" "int b - int (unat (g ! i)) \<le> 4190208"
      using val [OF that] rf(3,4) by (simp_all del: of_nat_unat)
  qed
  then have "- int a \<le> cval (f ! i) \<and> cval (f ! i) \<le> int b" if "i < 256" for i
    using val [OF that] that by (simp del: of_nat_unat)
  moreover have "poly_ok f" using redg red_ab lg by (intro poly_okI) (simp_all add: f)
  ultimately show range: "in_range a b f" by (simp add: in_range_def)
  have "list_all (\<lambda>w. w \<le> of_nat b \<or> elem_neg (of_nat a) \<le> w) f"
    using distance(3) [OF r] range by (simp add: list_all_length in_range_def poly_okD)
  moreover have "map (elem_sub (of_nat b)) f = g"
    using distance(2) [OF r redg] lg by (intro nth_equalityI) (simp_all add: f)
  ultimately show "bit_pack a b f = Some enc" by (simp add: bit_pack_def e(2))
qed

text \<open>Where the two ends differ, the ranges are powers of two and every byte string decodes.\<close>

lemma bit_unpack_total:
  assumes r: "range_ok a b" and "a \<noteq> b" and enc: "length enc = 32 * range_bits a b"
  obtains f where "bit_unpack a b enc = Some f"
proof -
  note rf = range_facts [OF r]
  have u: "unat (of_nat a :: u32) = a" "unat (of_nat b :: u32) = b" using rf by (simp_all add: unat_of_nat_small)
  have sum: "unat (elem_add (of_nat a) (of_nat b)) = a + b"
    using elem_unat(1) [of "of_nat a" "of_nat b"] rf(3,4) by (simp add: reduced_iff u)
  have "fits (range_bits a b) (byte_decode (range_bits a b) enc)" by (rule byte_decode_encode(1) [OF rf(1) enc])
  then have "list_all (\<lambda>z. z \<le> elem_add (of_nat a) (of_nat b)) (byte_decode (range_bits a b) enc)"
    using rf(5) [OF assms(2), symmetric] by (auto simp: fits_def list_all_iff word_le_nat_alt sum)
  then show thesis using that by (simp add: bit_unpack_def)
qed

section \<open>Vectors\<close>

lemma vec_encode_decode:
  assumes d: "width_ok d" and v: "\<And>f. f \<in> set v \<Longrightarrow> fits d f"
  shows "length (vec_encode d v) = length v * (32 * d)" "vec_decode d (vec_encode d v) = v"
proof -
  note e = byte_encode_decode [OF d v]
  have len: "length y = 32 * d" if "y \<in> set (map (byte_encode d) v)" for y using that e(1) by auto
  show "length (vec_encode d v) = length v * (32 * d)" using e(1) unfolding vec_encode_def by (induction v) simp_all
  have "chunks (32 * d) (vec_encode d v) = map (byte_encode d) v"
    unfolding vec_encode_def using width_facts(3) [OF d] by (intro chunks_concat len) simp_all
  then show "vec_decode d (vec_encode d v) = v" using e(2) by (simp add: vec_decode_def map_idI)
qed

lemma vec_decode_encode:
  assumes d: "width_ok d" and enc: "length enc = n * (32 * d)"
  shows "length (vec_decode d enc) = n" "\<And>f. f \<in> set (vec_decode d enc) \<Longrightarrow> fits d f" "vec_encode d (vec_decode d enc) = enc"
proof -
  have pos: "0 < 32 * d" using width_facts(3) [OF d] by simp
  note c = concat_chunks [OF pos enc]
  show "length (vec_decode d enc) = n" using c(3) by (simp add: vec_decode_def)
  show "fits d f" if "f \<in> set (vec_decode d enc)" for f
    using that byte_decode_encode(1) [OF d c(2)] by (auto simp: vec_decode_def)
  have "map (\<lambda>y. byte_encode d (byte_decode d y)) (chunks (32 * d) enc) = chunks (32 * d) enc"
    using byte_decode_encode(2) [OF d c(2)] by (simp add: map_idI)
  then show "vec_encode d (vec_decode d enc) = enc" using c(1) by (simp add: vec_encode_def vec_decode_def o_def)
qed

lemma vec_pack_ok:
  assumes r: "range_ok a b" and v: "\<And>f. f \<in> set v \<Longrightarrow> in_range a b f"
  obtains enc where "vec_pack a b v = Some enc" "length enc = length v * (32 * range_bits a b)" "vec_unpack a b enc = Some v"
proof -
  have "\<forall>f \<in> set v. \<exists>enc. bit_pack a b f = Some enc \<and> length enc = 32 * range_bits a b \<and> bit_unpack a b enc = Some f"
    using bit_pack_ok [OF r v] by metis
  then obtain e where e: "\<And>f. f \<in> set v \<Longrightarrow> bit_pack a b f = Some (e f)" "\<And>f. f \<in> set v \<Longrightarrow> length (e f) = 32 * range_bits a b"
    "\<And>f. f \<in> set v \<Longrightarrow> bit_unpack a b (e f) = Some f" by metis
  have "those (map (bit_pack a b) v) = Some (map e v)" using e(1) by (rule those_map_Some)
  then have pack: "vec_pack a b v = Some (concat (map e v))" by (simp add: vec_pack_def)
  have "length (concat (map e v)) = length v * (32 * range_bits a b)" using e(2) by (induction v) simp_all
  moreover have "chunks (32 * range_bits a b) (concat (map e v)) = map e v"
    using width_facts(3) [OF range_facts(1) [OF r]] e(2) by (intro chunks_concat) auto
  then have "vec_unpack a b (concat (map e v)) = those (map (\<lambda>f. bit_unpack a b (e f)) v)" by (simp add: vec_unpack_def o_def)
  then have "vec_unpack a b (concat (map e v)) = Some v"
    using those_map_Some [of v "\<lambda>f. bit_unpack a b (e f)" "\<lambda>f. f"] e(3) by simp
  ultimately show thesis using that pack by blast
qed

lemma vec_unpack_ok:
  assumes r: "range_ok a b" and enc: "length enc = n * (32 * range_bits a b)" and dec: "vec_unpack a b enc = Some v"
  shows "length v = n" "\<And>f. f \<in> set v \<Longrightarrow> in_range a b f" "vec_pack a b v = Some enc"
proof -
  have pos: "0 < 32 * range_bits a b" using width_facts(3) [OF range_facts(1) [OF r]] by simp
  note c = concat_chunks [OF pos enc]
  have maps: "map (bit_unpack a b) (chunks (32 * range_bits a b) enc) = map Some v"
    using dec by (simp add: vec_unpack_def those_eq_Some)
  then show len: "length v = n" using c(3) by (metis length_map)
  have each: "bit_unpack a b (chunks (32 * range_bits a b) enc ! i) = Some (v ! i)" "length (chunks (32 * range_bits a b) enc ! i) = 32 * range_bits a b"
    if "i < n" for i
    using that maps len c(2,3) by (metis nth_map, metis nth_mem)
  note u = bit_unpack_ok [OF r each(2) each(1)]
  show "in_range a b f" if "f \<in> set v" for f
    using that u(1) len by (metis in_set_conv_nth)
  have "map (bit_pack a b) v = map Some (chunks (32 * range_bits a b) enc)"
    using u(2) len c(3) by (intro nth_equalityI) simp_all
  then show "vec_pack a b v = Some enc" using c(1) by (simp add: vec_pack_def those_eq_Some [THEN iffD2])
qed

lemma vec_unpack_total:
  assumes r: "range_ok a b" and "a \<noteq> b" and enc: "length enc = n * (32 * range_bits a b)"
  obtains v where "vec_unpack a b enc = Some v"
proof -
  have pos: "0 < 32 * range_bits a b" using width_facts(3) [OF range_facts(1) [OF r]] by simp
  note c = concat_chunks [OF pos enc]
  have "\<forall>y \<in> set (chunks (32 * range_bits a b) enc). \<exists>f. bit_unpack a b y = Some f"
    using bit_unpack_total [OF r assms(2) c(2)] by metis
  then obtain g where "\<And>y. y \<in> set (chunks (32 * range_bits a b) enc) \<Longrightarrow> bit_unpack a b y = Some (g y)" by metis
  then have "vec_unpack a b enc = Some (map g (chunks (32 * range_bits a b) enc))" unfolding vec_unpack_def by (rule those_map_Some)
  then show thesis using that by blast
qed

end
