(* ===== verification/Mldsa_Ntt.thy ===== *)
theory Mldsa_Ntt
  imports Mldsa_Poly
begin

text \<open>
  The number theoretic transform of ML-DSA (\<open>mldsa_core/ntt.rs\<close>), with its table of powers of
  1753 and both loop nests as the code has them. The transform evaluates a polynomial at the 256 odd
  powers of the root; its inverse undoes it, and coefficientwise products of transforms are the
  transforms of products modulo \<open>X^256 + 1\<close>.
\<close>

section \<open>The table\<close>

definition bitrev8 :: "nat \<Rightarrow> nat" where
  "bitrev8 x = foldl (\<lambda>r i. 2 * r + (if bit (of_nat x :: u8) i then 1 else 0)) 0 [0..<8]"

definition ZETA :: u64 where "ZETA = 1753"

text \<open>The loop that fills \<open>pow\<close>: \<open>curr\<close> is multiplied and reduced after each entry.\<close>

fun zeta_pows :: "nat \<Rightarrow> u64 \<Rightarrow> elem list" where
  "zeta_pows 0 cur = []"
| "zeta_pows (Suc n) cur = ucast cur # zeta_pows n ((cur * ZETA) mod 8380417)"

definition ZETA_POW_BITREV :: "elem list" where
  "ZETA_POW_BITREV = (let pow = zeta_pows 256 1 in
     fold (\<lambda>i pow_bitrev. pow_bitrev[i := pow ! bitrev8 i]) [1..<256] (replicate 256 0))"

section \<open>The transforms\<close>

definition step_by :: "nat \<Rightarrow> nat \<Rightarrow> nat list" where
  "step_by hi step = map (\<lambda>k. k * step) [0..<(hi + step - 1) div step]"

definition butterfly :: "elem \<Rightarrow> nat \<Rightarrow> nat \<Rightarrow> poly \<Rightarrow> poly" where
  "butterfly z len j w =
     (let t = elem_mul z (w ! (j + len)); w = w[j + len := elem_sub (w ! j) t] in
      w[j := elem_add (w ! j) t])"

definition ntt_block :: "nat \<Rightarrow> nat \<Rightarrow> poly \<times> nat \<Rightarrow> poly \<times> nat" where
  "ntt_block len start = (\<lambda>(w, m). let m = m + 1; z = ZETA_POW_BITREV ! m in
     (fold (butterfly z len) [start..<start + len] w, m))"

definition ntt_layer :: "nat \<Rightarrow> poly \<times> nat \<Rightarrow> poly \<times> nat" where
  "ntt_layer len = fold (ntt_block len) (step_by 256 (2 * len))"

definition ntt :: "poly \<Rightarrow> poly" where
  "ntt f = fst (fold ntt_layer [128, 64, 32, 16, 8, 4, 2, 1] (f, 0))"

definition vec_ntt :: "vec \<Rightarrow> vec" where "vec_ntt v = map ntt v"

definition inv_butterfly :: "elem \<Rightarrow> nat \<Rightarrow> nat \<Rightarrow> poly \<Rightarrow> poly" where
  "inv_butterfly z len j w =
     (let t = w ! j; w = w[j := elem_add t (w ! (j + len))] in
      w[j + len := elem_mul z (elem_sub t (w ! (j + len)))])"

definition inv_block :: "nat \<Rightarrow> nat \<Rightarrow> poly \<times> nat \<Rightarrow> poly \<times> nat" where
  "inv_block len start = (\<lambda>(w, m). let m = m - 1; z = elem_neg (ZETA_POW_BITREV ! m) in
     (fold (inv_butterfly z len) [start..<start + len] w, m))"

definition inv_layer :: "nat \<Rightarrow> poly \<times> nat \<Rightarrow> poly \<times> nat" where
  "inv_layer len = fold (inv_block len) (step_by 256 (2 * len))"

definition INVERSE_256 :: elem where "INVERSE_256 = 8347681"

definition ntt_inverse :: "poly \<Rightarrow> poly" where
  "ntt_inverse f = poly_scale INVERSE_256 (fst (fold inv_layer [1, 2, 4, 8, 16, 32, 64, 128] (f, 256)))"

definition vec_ntt_inverse :: "vec \<Rightarrow> vec" where "vec_ntt_inverse v = map ntt_inverse v"

section \<open>The table holds powers of the root\<close>

lemma zeta_pows_spec:
  assumes "unat c < 8380417" and "i < n"
  shows "length (zeta_pows n c) = n \<and> reduced (zeta_pows n c ! i) \<and> elem_val (zeta_pows n c ! i) = of_nat (unat c) * 1753 ^ i"
  using assms
proof (induction n arbitrary: c i)
  case (Suc n)
  define d where "d = (c * ZETA) mod 8380417"
  have "unat c * 1753 < 8380417 * 1753" using Suc.prems(1) by simp
  then have "unat (c * ZETA) = unat c * 1753" by (subst unat_mul_small) (simp_all add: ZETA_def)
  then have d: "unat d = unat c * 1753 mod 8380417" by (simp add: d_def unat_mod)
  have len: "length (zeta_pows k e) = k" for k e by (induction k arbitrary: e) simp_all
  show ?case
  proof (cases i)
    case 0
    have "unat (ucast c :: u32) = unat c" using Suc.prems(1) by (simp add: unsigned_ucast_eq take_bit_nat_eq_self)
    then show ?thesis using 0 Suc.prems(1) by (simp add: len reduced_iff elem_val_def del: of_nat_unat)
  next
    case (Suc k)
    have "(of_nat (unat d) :: zq) = of_nat (unat c * 1753)" unfolding d zq_of_nat_eq_iff by simp
    then show ?thesis using Suc Suc.IH [of d k] Suc.prems d by (simp add: len d_def [symmetric] del: of_nat_unat)
  qed
qed simp

abbreviation zeta :: "nat \<Rightarrow> zq" where "zeta m \<equiv> elem_val (ZETA_POW_BITREV ! m)"

lemma bitrev8_less: "bitrev8 i < 256"
  by (simp add: bitrev8_def upt_rec)

lemma fold_list_updates:
  "length xs = n \<Longrightarrow> k \<le> n \<Longrightarrow> fold (\<lambda>i xs. xs[i := f i]) [a..<k] xs = map (\<lambda>i. if a \<le> i \<and> i < k then f i else xs ! i) [0..<n]"
proof (induction k)
  case 0
  then show ?case by (intro nth_equalityI) simp_all
next
  case (Suc k)
  then show ?case
    by (cases "a \<le> k") (auto simp: nth_list_update not_le intro!: nth_equalityI)
qed

lemma zeta_table:
  assumes "0 < m" and "m < 256"
  shows "reduced (ZETA_POW_BITREV ! m)" "zeta m = 1753 ^ bitrev8 m"
proof -
  have "ZETA_POW_BITREV ! m = zeta_pows 256 1 ! bitrev8 m"
    unfolding ZETA_POW_BITREV_def Let_def using assms by (subst fold_list_updates [where n = 256]) simp_all
  moreover have "reduced (zeta_pows 256 1 ! bitrev8 m)" "elem_val (zeta_pows 256 1 ! bitrev8 m) = 1753 ^ bitrev8 m"
    using zeta_pows_spec [of 1 "bitrev8 m" 256] bitrev8_less [of m] by simp_all
  ultimately show "reduced (ZETA_POW_BITREV ! m)" "zeta m = 1753 ^ bitrev8 m" by simp_all
qed

lemma zq_square: "a * a mod 8380417 = b mod 8380417 \<Longrightarrow> k = 2 * n \<Longrightarrow> (x :: zq) ^ n = of_nat a \<Longrightarrow> x ^ k = of_nat b"
  by (simp only: mult_2 power_add of_nat_mult [symmetric] zq_of_nat_eq_iff)

lemma root_256: "(1753 :: zq) ^ 256 = - 1"
proof -
  have "(1753 :: zq) ^ 1 = of_nat 1753" by simp
  then have "(1753 :: zq) ^ 2 = of_nat 3073009" by (rule zq_square [rotated 2]) simp_all
  then have "(1753 :: zq) ^ 4 = of_nat 3602218" by (rule zq_square [rotated 2]) simp_all
  then have "(1753 :: zq) ^ 8 = of_nat 5010068" by (rule zq_square [rotated 2]) simp_all
  then have "(1753 :: zq) ^ 16 = of_nat 7778734" by (rule zq_square [rotated 2]) simp_all
  then have "(1753 :: zq) ^ 32 = of_nat 5178923" by (rule zq_square [rotated 2]) simp_all
  then have "(1753 :: zq) ^ 64 = of_nat 3765607" by (rule zq_square [rotated 2]) simp_all
  then have "(1753 :: zq) ^ 128 = of_nat 4808194" by (rule zq_square [rotated 2]) simp_all
  then have "(1753 :: zq) ^ 256 = of_nat 8380416" by (rule zq_square [rotated 2]) simp_all
  also have "(of_nat 8380416 :: zq) = - 1"
  proof -
    have "(of_int 8380416 :: zq) = of_int (- 1)" unfolding zq_of_int_eq_iff by simp
    then show ?thesis by (simp only: of_int_numeral of_int_minus of_int_1 of_nat_numeral)
  qed
  finally show ?thesis .
qed

text \<open>The exponents: squares of the factors of a layer are the factors of the layer before.\<close>

lemma bitrev8_bits:
  "bitrev8 x = 128 * of_bool (bit x 0) + 64 * of_bool (bit x 1) + 32 * of_bool (bit x 2) + 16 * of_bool (bit x 3)
     + 8 * of_bool (bit x 4) + 4 * of_bool (bit x 5) + 2 * of_bool (bit x 6) + of_bool (bit x 7)"
proof -
  have "[0..<8] = [0, 1, 2, 3, 4, 5, 6, 7]" by code_simp
  then show ?thesis by (simp add: bitrev8_def bit_of_nat_iff of_bool_def)
qed

lemma bitrev8_double:
  assumes "m < 128"
  shows "2 * bitrev8 (2 * m) = bitrev8 m" "2 * bitrev8 (2 * m + 1) = bitrev8 m + 256"
proof -
  have top: "\<not> bit m 7" using assms by (simp add: bit_iff_odd)
  have even: "bit (2 * m) i \<longleftrightarrow> 0 < i \<and> bit m (i - 1)" for i by (cases i) (simp_all add: bit_Suc bit_0)
  have odd: "bit (2 * m + 1) i \<longleftrightarrow> i = 0 \<or> bit m (i - 1)" for i by (cases i) (simp_all add: bit_Suc bit_0)
  show "2 * bitrev8 (2 * m) = bitrev8 m" "2 * bitrev8 (2 * m + 1) = bitrev8 m + 256"
    unfolding bitrev8_bits even odd using top by simp_all
qed

lemma bitrev8_mirror: "s < 8 \<Longrightarrow> c < 2 ^ s \<Longrightarrow> bitrev8 (2 ^ s + c) + bitrev8 (2 * 2 ^ s - 1 - c) = 256"
proof (induction s arbitrary: c)
  case 0
  have "bitrev8 1 = 128" using bitrev8_double(2) [of 0] by (simp add: bitrev8_bits)
  then show ?case using 0 by simp
next
  case (Suc s)
  define h where "h = c div 2"
  have pow: "(2 :: nat) ^ s < 2 ^ 7" using Suc.prems(1) by (intro power_strict_increasing) simp_all
  have h: "h < 2 ^ s" using Suc.prems(2) by (simp add: h_def)
  define a where "a = 2 ^ s + h"
  define b where "b = 2 * 2 ^ s - 1 - h"
  have bound: "a < 128" "b < 128"
  proof -
    have "(2 :: nat) ^ Suc s \<le> 2 ^ 7" using Suc.prems(1) by (intro power_increasing) simp_all
    then show "a < 128" "b < 128" using h by (simp_all add: a_def b_def)
  qed
  have IH: "bitrev8 a + bitrev8 b = 256" using Suc.IH [OF _ h] Suc.prems(1) by (simp add: a_def b_def)
  note d = bitrev8_double [OF bound(1)] bitrev8_double [OF bound(2)]
  show ?case
  proof (cases "even c")
    case True
    then have "2 ^ Suc s + c = 2 * a" "2 * 2 ^ Suc s - 1 - c = 2 * b + 1"
      using h by (auto simp: a_def b_def h_def)
    then show ?thesis using IH d by simp
  next
    case False
    then have "c = 2 * h + 1" by (simp add: h_def)
    then have "2 ^ Suc s + c = 2 * a + 1" "2 * 2 ^ Suc s - 1 - c = 2 * b"
      using h by (simp_all add: a_def b_def)
    then show ?thesis using IH d by simp
  qed
qed

lemma square_128: "((x :: zq) ^ 128) ^ 2 = x ^ 256" by (simp add: power_mult [symmetric])

lemma zeta_squares:
  assumes "0 < m" and "m < 128"
  shows "zeta (2 * m) ^ 2 = zeta m" "zeta (2 * m + 1) ^ 2 = - zeta m" "zeta 1 ^ 2 = - 1"
proof -
  show "zeta (2 * m) ^ 2 = zeta m" using assms
    by (simp add: zeta_table bitrev8_double(1) [of m, symmetric] power_mult [symmetric] mult.commute)
  have "zeta (2 * m + 1) ^ 2 = 1753 ^ (2 * bitrev8 (2 * m + 1))"
    using assms by (simp add: zeta_table power_mult [symmetric] mult.commute)
  also have "\<dots> = 1753 ^ bitrev8 m * 1753 ^ 256" unfolding bitrev8_double(2) [OF assms(2)] by (rule power_add)
  finally show "zeta (2 * m + 1) ^ 2 = - zeta m" using assms by (simp only: root_256 zeta_table) simp
  have "bitrev8 1 = 128" using bitrev8_double(2) [of 0] by (simp add: bitrev8_bits)
  then have "zeta 1 ^ 2 = (1753 ^ 128) ^ 2" using zeta_table(2) [of 1] by (simp only: one_less_numeral_iff zero_less_one semiring_norm)
  also have "\<dots> = 1753 ^ 256" by (rule square_128)
  finally show "zeta 1 ^ 2 = - 1" by (simp only: root_256)
qed

lemma zeta_mirror:
  assumes "s < 8" and "c < 2 ^ s"
  shows "zeta (2 ^ s + c) * zeta (2 * 2 ^ s - 1 - c) = - 1"
proof -
  have "(2 :: nat) ^ s \<le> 2 ^ 7" using assms(1) by (intro power_increasing) simp_all
  then have "0 < 2 ^ s + c" "2 ^ s + c < 256" "0 < 2 * 2 ^ s - 1 - c" "2 * 2 ^ s - 1 - c < 256" using assms(2) by simp_all
  then have "zeta (2 ^ s + c) * zeta (2 * 2 ^ s - 1 - c) = 1753 ^ (bitrev8 (2 ^ s + c) + bitrev8 (2 * 2 ^ s - 1 - c))"
    by (simp only: zeta_table(2) power_add)
  then show ?thesis unfolding bitrev8_mirror [OF assms] root_256 .
qed

section \<open>Layers act on pairs of coefficients\<close>

text \<open>Both butterflies replace the pair at \<open>j\<close> and \<open>j + len\<close>; the pairs of a layer are disjoint, so every
  pair is computed from the values before the layer.\<close>

definition pair_step :: "('a \<Rightarrow> 'a \<Rightarrow> 'a) \<Rightarrow> ('a \<Rightarrow> 'a \<Rightarrow> 'a) \<Rightarrow> nat \<Rightarrow> nat \<Rightarrow> 'a list \<Rightarrow> 'a list" where
  "pair_step F G len j w = w[j := F (w ! j) (w ! (j + len)), j + len := G (w ! j) (w ! (j + len))]"

lemma butterflies:
  assumes "0 < len"
  shows "butterfly z len = pair_step (\<lambda>a b. elem_add a (elem_mul z b)) (\<lambda>a b. elem_sub a (elem_mul z b)) len"
    "inv_butterfly z len = pair_step elem_add (\<lambda>a b. elem_mul z (elem_sub a b)) len"
  using assms by (auto simp: fun_eq_iff butterfly_def inv_butterfly_def pair_step_def Let_def list_update_swap)

lemma pairs_block:
  assumes "start + 2 * len \<le> length w" and "k \<le> len"
  shows "length (fold (pair_step F G len) [start..<start + k] w) = length w
    \<and> (\<forall>i < length w. fold (pair_step F G len) [start..<start + k] w ! i
        = (if start \<le> i \<and> i < start + k then F (w ! i) (w ! (i + len))
           else if start + len \<le> i \<and> i < start + len + k then G (w ! (i - len)) (w ! i) else w ! i))"
  using assms(2)
proof (induction k)
  case (Suc k)
  define v where "v = fold (pair_step F G len) [start..<start + k] w"
  have IH: "length v = length w" "\<And>i. i < length w \<Longrightarrow> v ! i
        = (if start \<le> i \<and> i < start + k then F (w ! i) (w ! (i + len))
           else if start + len \<le> i \<and> i < start + len + k then G (w ! (i - len)) (w ! i) else w ! i)"
    using Suc by (simp_all add: v_def)
  have vk: "v ! (start + k) = w ! (start + k)" "v ! (start + k + len) = w ! (start + k + len)"
    using IH(2) [of "start + k"] IH(2) [of "start + k + len"] Suc.prems assms(1) by simp_all
  define u where "u = v[start + k := F (w ! (start + k)) (w ! (start + k + len)), start + k + len := G (w ! (start + k)) (w ! (start + k + len))]"
  have step: "fold (pair_step F G len) [start..<start + Suc k] w = u"
    unfolding u_def by (simp add: v_def [symmetric] vk pair_step_def)
  have "u ! i = (if start \<le> i \<and> i < start + Suc k then F (w ! i) (w ! (i + len))
           else if start + len \<le> i \<and> i < start + len + Suc k then G (w ! (i - len)) (w ! i) else w ! i)" if "i < length w" for i
  proof -
    consider "i = start + k" | "i = start + k + len" | "i \<noteq> start + k" "i \<noteq> start + k + len" by blast
    then show ?thesis
    proof cases
      case 3
      then have "u ! i = v ! i" by (simp add: u_def)
      moreover have "i < start + Suc k \<longleftrightarrow> i < start + k" "i < start + len + Suc k \<longleftrightarrow> i < start + len + k" using 3 by auto
      ultimately show ?thesis using IH(2) [OF that] by simp
    qed (use that Suc.prems assms(1) IH(1) in \<open>simp_all add: u_def\<close>)
  qed
  moreover have "length u = length w" using IH(1) by (simp add: u_def)
  ultimately show ?case unfolding step by blast
qed auto

lemma pairs_layer:
  assumes "n * (2 * len) \<le> length w"
  shows "length (fold (\<lambda>b. fold (pair_step (F b) (G b) len) [b * (2 * len)..<b * (2 * len) + len]) [0..<n] w) = length w
    \<and> (\<forall>b < n. \<forall>j < len.
        fold (\<lambda>b. fold (pair_step (F b) (G b) len) [b * (2 * len)..<b * (2 * len) + len]) [0..<n] w ! (b * (2 * len) + j)
          = F b (w ! (b * (2 * len) + j)) (w ! (b * (2 * len) + len + j))
      \<and> fold (\<lambda>b. fold (pair_step (F b) (G b) len) [b * (2 * len)..<b * (2 * len) + len]) [0..<n] w ! (b * (2 * len) + len + j)
          = G b (w ! (b * (2 * len) + j)) (w ! (b * (2 * len) + len + j)))
    \<and> (\<forall>i. n * (2 * len) \<le> i \<longrightarrow> i < length w \<longrightarrow>
        fold (\<lambda>b. fold (pair_step (F b) (G b) len) [b * (2 * len)..<b * (2 * len) + len]) [0..<n] w ! i = w ! i)"
  using assms
proof (induction n)
  case (Suc n)
  define v where "v = fold (\<lambda>b. fold (pair_step (F b) (G b) len) [b * (2 * len)..<b * (2 * len) + len]) [0..<n] w"
  define u where "u = fold (pair_step (F n) (G n) len) [n * (2 * len)..<n * (2 * len) + len] v"
  have IH: "length v = length w"
    "\<And>b j. b < n \<Longrightarrow> j < len \<Longrightarrow> v ! (b * (2 * len) + j) = F b (w ! (b * (2 * len) + j)) (w ! (b * (2 * len) + len + j))"
    "\<And>b j. b < n \<Longrightarrow> j < len \<Longrightarrow> v ! (b * (2 * len) + len + j) = G b (w ! (b * (2 * len) + j)) (w ! (b * (2 * len) + len + j))"
    "\<And>i. n * (2 * len) \<le> i \<Longrightarrow> i < length w \<Longrightarrow> v ! i = w ! i"
    using Suc by (simp_all add: v_def)
  have room: "n * (2 * len) + 2 * len \<le> length v" using Suc.prems IH(1) by simp
  note blk = pairs_block [OF room order_refl, of "F n" "G n", folded u_def]
  have u: "length u = length w" using blk IH(1) by simp
  have low: "u ! i = v ! i" if "i < n * (2 * len)" for i
    using blk that room by simp
  have high: "u ! i = v ! i" if "Suc n * (2 * len) \<le> i" "i < length w" for i
    using blk that room IH(1) by simp
  have within: "u ! (n * (2 * len) + j) = F n (w ! (n * (2 * len) + j)) (w ! (n * (2 * len) + len + j))"
    "u ! (n * (2 * len) + len + j) = G n (w ! (n * (2 * len) + j)) (w ! (n * (2 * len) + len + j))" if "j < len" for j
    using blk that room IH(1) IH(4) [of "n * (2 * len) + j"] IH(4) [of "n * (2 * len) + len + j"]
    by (simp_all add: ac_simps)
  have earlier: "b * (2 * len) + len + j < n * (2 * len)" "b * (2 * len) + j < n * (2 * len)" if "b < n" "j < len" for b j
  proof -
    have "(b + 1) * (2 * len) \<le> n * (2 * len)" using that(1) by (intro mult_le_mono1) simp
    then show "b * (2 * len) + len + j < n * (2 * len)" "b * (2 * len) + j < n * (2 * len)" using that(2) by simp_all
  qed
  have "fold (\<lambda>b. fold (pair_step (F b) (G b) len) [b * (2 * len)..<b * (2 * len) + len]) [0..<Suc n] w = u"
    by (simp add: u_def v_def)
  moreover have "u ! (b * (2 * len) + j) = F b (w ! (b * (2 * len) + j)) (w ! (b * (2 * len) + len + j))
      \<and> u ! (b * (2 * len) + len + j) = G b (w ! (b * (2 * len) + j)) (w ! (b * (2 * len) + len + j))"
    if "b < Suc n" "j < len" for b j
  proof (cases "b = n")
    case True
    then show ?thesis using within [OF that(2)] by simp
  next
    case False
    then have "b < n" using that(1) by simp
    then show ?thesis using earlier [OF _ that(2), of b] IH(2,3) [of b j] that(2) low by simp
  qed
  moreover have "u ! i = w ! i" if "Suc n * (2 * len) \<le> i" "i < length w" for i
    using high [OF that] IH(4) [of i] that by simp
  ultimately show ?case using u by simp
qed simp

section \<open>What a layer does\<close>

lemma steps_of_layer: "0 < len \<Longrightarrow> n * (2 * len) = 256 \<Longrightarrow> step_by 256 (2 * len) = map (\<lambda>b. b * (2 * len)) [0..<n]"
proof -
  assume n: "0 < len" "n * (2 * len) = 256"
  have "256 + 2 * len - 1 = n * (2 * len) + (2 * len - 1)" using n(1) unfolding n(2) by simp
  then have "(256 + 2 * len - 1) div (2 * len) = (n * (2 * len) + (2 * len - 1)) div (2 * len)" by (rule arg_cong)
  also have "\<dots> = n + (2 * len - 1) div (2 * len)" using n(1) by (intro div_mult_self3) simp
  also have "\<dots> = n" using n(1) by simp
  finally have "(256 + 2 * len - 1) div (2 * len) = n" .
  then show "step_by 256 (2 * len) = map (\<lambda>b. b * (2 * len)) [0..<n]" unfolding step_by_def by simp
qed

lemma fold_ntt_blocks:
  "0 < len \<Longrightarrow> fold (ntt_block len) (map (\<lambda>b. b * (2 * len)) [0..<n]) (w, m)
    = (fold (\<lambda>b. fold (pair_step (\<lambda>x y. elem_add x (elem_mul (ZETA_POW_BITREV ! (m + 1 + b)) y))
          (\<lambda>x y. elem_sub x (elem_mul (ZETA_POW_BITREV ! (m + 1 + b)) y)) len) [b * (2 * len)..<b * (2 * len) + len]) [0..<n] w, m + n)"
  by (induction n) (simp_all add: ntt_block_def Let_def butterflies)

lemma fold_inv_blocks:
  "0 < len \<Longrightarrow> fold (inv_block len) (map (\<lambda>b. b * (2 * len)) [0..<n]) (w, m)
    = (fold (\<lambda>b. fold (pair_step elem_add
          (\<lambda>x y. elem_mul (elem_neg (ZETA_POW_BITREV ! (m - 1 - b))) (elem_sub x y)) len) [b * (2 * len)..<b * (2 * len) + len]) [0..<n] w, m - n)"
  by (induction n) (simp_all add: inv_block_def Let_def butterflies)

text \<open>Every index below 256 is in a pair.\<close>

lemma pair_index:
  assumes "n * (2 * len) = (256 :: nat)" and "i < 256"
  obtains b j where "b < n" "j < len" "i = b * (2 * len) + j \<or> i = b * (2 * len) + len + j"
proof -
  define b where "b = i div (2 * len)"
  define r where "r = i mod (2 * len)"
  have i: "i = b * (2 * len) + r" unfolding b_def r_def by (rule div_mult_mod_eq [symmetric])
  have "0 < len" using assms(1) by (cases len) simp_all
  then have r: "r < 2 * len" by (simp add: r_def)
  have "b < n" using assms i \<open>0 < len\<close> by (metis b_def less_mult_imp_div_less)
  then show thesis using that [of b r] that [of b "r - len"] i r by (cases "r < len") simp_all
qed

lemma layer_ok:
  assumes w: "poly_ok w" and n: "n * (2 * len) = 256" and len: "length w' = 256"
    and pairs: "\<And>b j. b < n \<Longrightarrow> j < len \<Longrightarrow> reduced (w' ! (b * (2 * len) + j)) \<and> reduced (w' ! (b * (2 * len) + len + j))"
  shows "poly_ok w'"
proof (rule poly_okI [OF len])
  fix i :: nat assume "i < 256"
  with n obtain b j where "b < n" "j < len" "i = b * (2 * len) + j \<or> i = b * (2 * len) + len + j" by (rule pair_index)
  then show "reduced (w' ! i)" using pairs [of b j] by auto
qed

lemma pair_bound:
  assumes "n * (2 * len) = (256 :: nat)" and "b < n" and "j < len"
  shows "b * (2 * len) + j < 256" "b * (2 * len) + len + j < 256"
proof -
  have "(b + 1) * (2 * len) \<le> n * (2 * len)" using assms(2) by (intro mult_le_mono1) simp
  then show "b * (2 * len) + j < 256" "b * (2 * len) + len + j < 256" using assms by simp_all
qed

lemma ntt_layer_spec:
  assumes w: "poly_ok w" and n: "n * (2 * len) = 256" and m: "m + n < 256"
  obtains w' where "ntt_layer len (w, m) = (w', m + n)" "poly_ok w'"
    "\<And>b j. b < n \<Longrightarrow> j < len \<Longrightarrow>
       coef w' (b * (2 * len) + j) = coef w (b * (2 * len) + j) + zeta (m + 1 + b) * coef w (b * (2 * len) + len + j)"
    "\<And>b j. b < n \<Longrightarrow> j < len \<Longrightarrow>
       coef w' (b * (2 * len) + len + j) = coef w (b * (2 * len) + j) - zeta (m + 1 + b) * coef w (b * (2 * len) + len + j)"
proof -
  have len: "0 < len" using n by (cases len) simp_all
  define w' where "w' = fst (ntt_layer len (w, m))"
  have lw: "length w = 256" by (rule poly_okD(1) [OF w])
  have eq: "ntt_layer len (w, m) = (w', m + n)"
    by (simp add: w'_def ntt_layer_def steps_of_layer [OF len n] fold_ntt_blocks [OF len])
  have w'_fold: "w' = fold (\<lambda>b. fold (pair_step (\<lambda>x y. elem_add x (elem_mul (ZETA_POW_BITREV ! (m + 1 + b)) y))
          (\<lambda>x y. elem_sub x (elem_mul (ZETA_POW_BITREV ! (m + 1 + b)) y)) len) [b * (2 * len)..<b * (2 * len) + len]) [0..<n] w"
    unfolding w'_def ntt_layer_def steps_of_layer [OF len n] fold_ntt_blocks [OF len] by (rule fst_conv)
  have le: "n * (2 * len) \<le> length w" using n lw by simp
  note sp = pairs_layer [OF le, of "\<lambda>b x y. elem_add x (elem_mul (ZETA_POW_BITREV ! (m + 1 + b)) y)"
    "\<lambda>b x y. elem_sub x (elem_mul (ZETA_POW_BITREV ! (m + 1 + b)) y)", folded w'_fold]
  have vals: "w' ! (b * (2 * len) + j) = elem_add (w ! (b * (2 * len) + j)) (elem_mul (ZETA_POW_BITREV ! (m + 1 + b)) (w ! (b * (2 * len) + len + j)))"
    "w' ! (b * (2 * len) + len + j) = elem_sub (w ! (b * (2 * len) + j)) (elem_mul (ZETA_POW_BITREV ! (m + 1 + b)) (w ! (b * (2 * len) + len + j)))"
    if "b < n" "j < len" for b j
    using sp that by blast+
  have red: "reduced (w ! (b * (2 * len) + j))" "reduced (w ! (b * (2 * len) + len + j))" "reduced (ZETA_POW_BITREV ! (m + 1 + b))"
    if "b < n" "j < len" for b j
    using pair_bound [OF n that] poly_okD(2) [OF w] zeta_table(1) [of "m + 1 + b"] m that(1) by simp_all
  have lw': "length w' = 256" using sp lw by simp
  have "poly_ok w'" by (rule layer_ok [OF w n lw']) (simp only: vals red elem_reduced elem_neg_ok simp_thms)
  then show thesis by (rule that [OF eq]) (simp_all only: coef_def vals elem_val_ops elem_reduced red)
qed

lemma inv_layer_spec:
  assumes w: "poly_ok w" and n: "n * (2 * len) = 256" and m: "n < m" "m \<le> 256"
  obtains w' where "inv_layer len (w, m) = (w', m - n)" "poly_ok w'"
    "\<And>b j. b < n \<Longrightarrow> j < len \<Longrightarrow>
       coef w' (b * (2 * len) + j) = coef w (b * (2 * len) + j) + coef w (b * (2 * len) + len + j)"
    "\<And>b j. b < n \<Longrightarrow> j < len \<Longrightarrow>
       coef w' (b * (2 * len) + len + j) = - zeta (m - 1 - b) * (coef w (b * (2 * len) + j) - coef w (b * (2 * len) + len + j))"
proof -
  have len: "0 < len" using n by (cases len) simp_all
  define w' where "w' = fst (inv_layer len (w, m))"
  have lw: "length w = 256" by (rule poly_okD(1) [OF w])
  have eq: "inv_layer len (w, m) = (w', m - n)"
    by (simp add: w'_def inv_layer_def steps_of_layer [OF len n] fold_inv_blocks [OF len])
  have w'_fold: "w' = fold (\<lambda>b. fold (pair_step elem_add
          (\<lambda>x y. elem_mul (elem_neg (ZETA_POW_BITREV ! (m - 1 - b))) (elem_sub x y)) len) [b * (2 * len)..<b * (2 * len) + len]) [0..<n] w"
    unfolding w'_def inv_layer_def steps_of_layer [OF len n] fold_inv_blocks [OF len] by (rule fst_conv)
  have le: "n * (2 * len) \<le> length w" using n lw by simp
  note sp = pairs_layer [OF le, of "\<lambda>b. elem_add"
    "\<lambda>b x y. elem_mul (elem_neg (ZETA_POW_BITREV ! (m - 1 - b))) (elem_sub x y)", folded w'_fold]
  have vals: "w' ! (b * (2 * len) + j) = elem_add (w ! (b * (2 * len) + j)) (w ! (b * (2 * len) + len + j))"
    "w' ! (b * (2 * len) + len + j) = elem_mul (elem_neg (ZETA_POW_BITREV ! (m - 1 - b))) (elem_sub (w ! (b * (2 * len) + j)) (w ! (b * (2 * len) + len + j)))"
    if "b < n" "j < len" for b j
    using sp that by blast+
  have red: "reduced (w ! (b * (2 * len) + j))" "reduced (w ! (b * (2 * len) + len + j))" "reduced (ZETA_POW_BITREV ! (m - 1 - b))"
    if "b < n" "j < len" for b j
    using pair_bound [OF n that] poly_okD(2) [OF w] zeta_table(1) [of "m - 1 - b"] m that(1) by simp_all
  have lw': "length w' = 256" using sp lw by simp
  have "poly_ok w'" by (rule layer_ok [OF w n lw']) (simp only: vals red elem_reduced elem_neg_ok simp_thms)
  then show thesis by (rule that [OF eq]) (simp_all only: coef_def vals elem_val_ops elem_neg_ok elem_reduced red)
qed

section \<open>The transform evaluates at the odd powers of the root\<close>

text \<open>After \<open>s\<close> layers block \<open>b\<close> holds the polynomial modulo \<open>X^len - root s b\<close>.\<close>

definition root :: "nat \<Rightarrow> nat \<Rightarrow> zq" where
  "root s b = (if s = 0 then - 1 else if even b then zeta (2 ^ (s - 1) + b div 2) else - zeta (2 ^ (s - 1) + b div 2))"

lemma root_children:
  "root (Suc s) (2 * b) = zeta (2 ^ s + b)" "root (Suc s) (2 * b + 1) = - zeta (2 ^ s + b)"
  by (simp_all add: root_def)

lemma zeta_squared:
  assumes "s < 8" and "b < 2 ^ s"
  shows "zeta (2 ^ s + b) ^ 2 = root s b"
proof (cases s)
  case 0
  then show ?thesis using assms(2) zeta_squares(3) [of 1] by (simp add: root_def)
next
  case (Suc r)
  define c where "c = b div 2"
  have "(2 :: nat) ^ Suc r \<le> 2 ^ 7" using assms(1) Suc by (intro power_increasing) simp_all
  then have c: "0 < 2 ^ r + c" "2 ^ r + c < 128" using assms(2) Suc by (simp_all add: c_def)
  show ?thesis
  proof (cases "even b")
    case True
    then have "b = 2 * c" by (simp add: c_def)
    then show ?thesis using zeta_squares(1) [OF c] Suc by (simp add: root_def)
  next
    case False
    then have "b = 2 * c + 1" by (simp add: c_def)
    then show ?thesis using zeta_squares(2) [OF c] Suc by (simp add: root_def)
  qed
qed

lemma root_squared: "s < 8 \<Longrightarrow> b < 2 ^ Suc s \<Longrightarrow> root (Suc s) b ^ 2 = root s (b div 2)"
proof -
  assume "s < 8" "b < 2 ^ Suc s"
  moreover have "root (Suc s) b ^ 2 = zeta (2 ^ s + b div 2) ^ 2" by (simp add: root_def [of "Suc s" b])
  ultimately show "root (Suc s) b ^ 2 = root s (b div 2)" using zeta_squared [of s "b div 2"] by simp
qed

lemma root_power: "s \<le> 8 \<Longrightarrow> b < 2 ^ s \<Longrightarrow> root s b ^ (2 ^ s) = - 1"
proof (induction s arbitrary: b)
  case (Suc s)
  have "root (Suc s) b ^ (2 ^ Suc s) = (root (Suc s) b ^ 2) ^ (2 ^ s)" by (simp add: power_mult [symmetric])
  then show ?case using Suc root_squared [of s b] by simp
qed (simp add: root_def)

definition holds_residues :: "poly \<Rightarrow> nat \<Rightarrow> poly \<Rightarrow> bool" where
  "holds_residues f s w \<longleftrightarrow> poly_ok w
     \<and> (\<forall>b < 2 ^ s. \<forall>j < 2 ^ (8 - s). coef w (b * 2 ^ (8 - s) + j) = (\<Sum>t < 2 ^ s. coef f (j + t * 2 ^ (8 - s)) * root s b ^ t))"

lemma sum_even_odd: "(\<Sum>t < 2 * (n :: nat). g t) = (\<Sum>t < n. g (2 * t) + g (2 * t + 1) :: 'a::comm_monoid_add)"
  by (induction n) (simp_all add: add.assoc)

lemma layer_sizes: "s < 8 \<Longrightarrow> 2 ^ s * (2 * 2 ^ (7 - s)) = (256 :: nat)" "s < 8 \<Longrightarrow> (2 :: nat) ^ (8 - s) = 2 * 2 ^ (7 - s)"
proof -
  assume s: "s < 8"
  have "(2 :: nat) ^ s * (2 * 2 ^ (7 - s)) = 2 ^ (s + Suc (7 - s))" by (simp only: power_add power_Suc)
  also have "s + Suc (7 - s) = 8" using s by simp
  finally show "2 ^ s * (2 * 2 ^ (7 - s)) = (256 :: nat)" by simp
  have "8 - s = Suc (7 - s)" using s by simp
  then show "(2 :: nat) ^ (8 - s) = 2 * 2 ^ (7 - s)" by (simp only: power_Suc)
qed

lemma ntt_layer_residues:
  assumes f: "holds_residues f s w" and s: "s < 8"
  obtains w' where "ntt_layer (2 ^ (7 - s)) (w, 2 ^ s - 1) = (w', 2 ^ Suc s - 1)" "holds_residues f (Suc s) w'"
    "\<And>b j. b < 2 ^ s \<Longrightarrow> j < 2 ^ (7 - s) \<Longrightarrow> coef w' (b * (2 * 2 ^ (7 - s)) + j)
       = coef w (b * (2 * 2 ^ (7 - s)) + j) + zeta (2 ^ s + b) * coef w (b * (2 * 2 ^ (7 - s)) + 2 ^ (7 - s) + j)"
    "\<And>b j. b < 2 ^ s \<Longrightarrow> j < 2 ^ (7 - s) \<Longrightarrow> coef w' (b * (2 * 2 ^ (7 - s)) + 2 ^ (7 - s) + j)
       = coef w (b * (2 * 2 ^ (7 - s)) + j) - zeta (2 ^ s + b) * coef w (b * (2 * 2 ^ (7 - s)) + 2 ^ (7 - s) + j)"
proof -
  define len :: nat where "len = 2 ^ (7 - s)"
  define n :: nat where "n = 2 ^ s"
  have n: "n * (2 * len) = 256" "(2 :: nat) ^ (8 - s) = 2 * len" "(2 :: nat) ^ (8 - Suc s) = len"
    using layer_sizes [OF s] by (simp_all add: n_def len_def)
  have "n \<le> 2 ^ 7" unfolding n_def using s by (intro power_increasing) simp_all
  then have m: "n - 1 + n < 256" "0 < n" "n - 1 + 1 = n" "n - 1 + n = 2 * n - 1" by (simp_all add: n_def)
  have w: "poly_ok w" and res: "\<And>b j. b < n \<Longrightarrow> j < 2 * len \<Longrightarrow> coef w (b * (2 * len) + j) = (\<Sum>t < n. coef f (j + t * (2 * len)) * root s b ^ t)"
    using f unfolding holds_residues_def n(2) n_def [symmetric] by blast+
  obtain w' where w': "ntt_layer len (w, n - 1) = (w', 2 * n - 1)" "poly_ok w'"
    "\<And>b j. b < n \<Longrightarrow> j < len \<Longrightarrow> coef w' (b * (2 * len) + j) = coef w (b * (2 * len) + j) + zeta (n + b) * coef w (b * (2 * len) + len + j)"
    "\<And>b j. b < n \<Longrightarrow> j < len \<Longrightarrow> coef w' (b * (2 * len) + len + j) = coef w (b * (2 * len) + j) - zeta (n + b) * coef w (b * (2 * len) + len + j)"
    using ntt_layer_spec [OF w n(1) m(1)] unfolding m(3,4) by metis
  have halves: "coef w (b * (2 * len) + j) + z * coef w (b * (2 * len) + len + j) = (\<Sum>t < 2 * n. coef f (j + t * len) * z ^ t)"
    if "b < n" "j < len" "z ^ 2 = root s b" for b j z
  proof -
    have "coef w (b * (2 * len) + j) + z * coef w (b * (2 * len) + len + j)
        = (\<Sum>t < n. coef f (j + t * (2 * len)) * root s b ^ t) + z * (\<Sum>t < n. coef f (len + j + t * (2 * len)) * root s b ^ t)"
      using res [OF that(1), of j] res [OF that(1), of "len + j"] that(2) by (simp add: add.assoc)
    also have "\<dots> = (\<Sum>t < n. coef f (j + 2 * t * len) * z ^ (2 * t) + coef f (j + (2 * t + 1) * len) * z ^ (2 * t + 1))"
      unfolding sum.distrib sum_distrib_left that(3) [symmetric]
      by (intro arg_cong2 [where f = plus] sum.cong refl) (simp_all add: power_mult [symmetric] ac_simps)
    finally show ?thesis by (simp only: sum_even_odd)
  qed
  have zz: "zeta (n + b) ^ 2 = root s b" "(- zeta (n + b)) ^ 2 = root s b" if "b < n" for b
    using zeta_squared [OF s, of b] that by (simp_all add: n_def)
  have "holds_residues f (Suc s) w'"
    unfolding holds_residues_def n(3) power_Suc n_def [symmetric]
  proof (intro conjI allI impI w'(2))
    fix b' j assume b': "b' < 2 * n" and j: "j < len"
    define b where "b = b' div 2"
    have b: "b < n" using b' by (simp add: b_def)
    show "coef w' (b' * len + j) = (\<Sum>t < 2 * n. coef f (j + t * len) * root (Suc s) b' ^ t)"
    proof (cases "even b'")
      case True
      then have b'_eq: "b' = 2 * b" by (simp add: b_def)
      then have "b' * len + j = b * (2 * len) + j" by simp
      then show ?thesis using w'(3) [OF b j] halves [OF b j zz(1) [OF b]] by (simp only: b'_eq root_children n_def)
    next
      case False
      then have b'_eq: "b' = 2 * b + 1" by (simp add: b_def)
      then have "b' * len + j = b * (2 * len) + len + j" by (simp add: add_mult_distrib)
      then show ?thesis using w'(4) [OF b j] halves [OF b j zz(2) [OF b]]
        by (simp only: b'_eq root_children n_def) simp
    qed
  qed
  then show thesis using that w' unfolding len_def n_def by simp
qed

text \<open>The state after the first layers.\<close>

definition after_layers :: "poly \<Rightarrow> nat \<Rightarrow> poly" where
  "after_layers f s = fst (fold ntt_layer (map (\<lambda>r. 2 ^ (7 - r)) [0..<s]) (f, 0))"

lemma after_layers_spec:
  assumes "poly_ok f" and "s \<le> 8"
  shows "fold ntt_layer (map (\<lambda>r. 2 ^ (7 - r)) [0..<s]) (f, 0) = (after_layers f s, 2 ^ s - 1) \<and> holds_residues f s (after_layers f s)"
  using assms(2)
proof (induction s)
  case 0
  then show ?case using assms(1) by (simp add: after_layers_def holds_residues_def)
next
  case (Suc s)
  then have IH: "fold ntt_layer (map (\<lambda>r. 2 ^ (7 - r)) [0..<s]) (f, 0) = (after_layers f s, 2 ^ s - 1)" "holds_residues f s (after_layers f s)"
    and s: "s < 8" by simp_all
  obtain w' where "ntt_layer (2 ^ (7 - s)) (after_layers f s, 2 ^ s - 1) = (w', 2 ^ Suc s - 1)" "holds_residues f (Suc s) w'"
    using ntt_layer_residues [OF IH(2) s] by metis
  moreover have "after_layers f (Suc s) = fst (ntt_layer (2 ^ (7 - s)) (after_layers f s, 2 ^ s - 1))"
    by (simp add: after_layers_def [of f "Suc s"] IH(1))
  ultimately show ?case by (simp add: IH(1))
qed

lemma layer_lens: "map (\<lambda>r. 2 ^ (7 - r)) [0..<8] = [128, 64, 32, 16, 8, 4, 2, 1 :: nat]"
  "map (\<lambda>r. 2 ^ (7 - r)) (rev [0..<8]) = [1, 2, 4, 8, 16, 32, 64, 128 :: nat]"
  by code_simp+

lemma ntt_after_layers: "ntt f = after_layers f 8"
  by (simp only: ntt_def after_layers_def layer_lens)

lemma ntt_ok [simp, intro, algebra_ok]: "poly_ok f \<Longrightarrow> poly_ok (ntt f)"
  using after_layers_spec [of f 8] by (simp add: ntt_after_layers holds_residues_def)

lemma coef_ntt: "poly_ok f \<Longrightarrow> b < 256 \<Longrightarrow> coef (ntt f) b = (\<Sum>t < 256. coef f t * root 8 b ^ t)"
  using after_layers_spec [of f 8] by (simp add: ntt_after_layers holds_residues_def)

lemma after_layers_step:
  assumes "poly_ok f" and "s < 8" and "b < 2 ^ s" and "j < 2 ^ (7 - s)"
  shows "coef (after_layers f (Suc s)) (b * (2 * 2 ^ (7 - s)) + j)
       = coef (after_layers f s) (b * (2 * 2 ^ (7 - s)) + j) + zeta (2 ^ s + b) * coef (after_layers f s) (b * (2 * 2 ^ (7 - s)) + 2 ^ (7 - s) + j)"
    "coef (after_layers f (Suc s)) (b * (2 * 2 ^ (7 - s)) + 2 ^ (7 - s) + j)
       = coef (after_layers f s) (b * (2 * 2 ^ (7 - s)) + j) - zeta (2 ^ s + b) * coef (after_layers f s) (b * (2 * 2 ^ (7 - s)) + 2 ^ (7 - s) + j)"
proof -
  have before: "fold ntt_layer (map (\<lambda>r. 2 ^ (7 - r)) [0..<s]) (f, 0) = (after_layers f s, 2 ^ s - 1)" "holds_residues f s (after_layers f s)"
    using after_layers_spec [OF assms(1), of s] assms(2) by simp_all
  obtain w' where w': "ntt_layer (2 ^ (7 - s)) (after_layers f s, 2 ^ s - 1) = (w', 2 ^ Suc s - 1)"
    "coef w' (b * (2 * 2 ^ (7 - s)) + j)
       = coef (after_layers f s) (b * (2 * 2 ^ (7 - s)) + j) + zeta (2 ^ s + b) * coef (after_layers f s) (b * (2 * 2 ^ (7 - s)) + 2 ^ (7 - s) + j)"
    "coef w' (b * (2 * 2 ^ (7 - s)) + 2 ^ (7 - s) + j)
       = coef (after_layers f s) (b * (2 * 2 ^ (7 - s)) + j) - zeta (2 ^ s + b) * coef (after_layers f s) (b * (2 * 2 ^ (7 - s)) + 2 ^ (7 - s) + j)"
    using ntt_layer_residues [OF before(2) assms(2)] assms(3,4) by metis
  moreover have "after_layers f (Suc s) = fst (ntt_layer (2 ^ (7 - s)) (after_layers f s, 2 ^ s - 1))"
    by (simp add: after_layers_def [of f "Suc s"] before(1))
  ultimately show "coef (after_layers f (Suc s)) (b * (2 * 2 ^ (7 - s)) + j)
       = coef (after_layers f s) (b * (2 * 2 ^ (7 - s)) + j) + zeta (2 ^ s + b) * coef (after_layers f s) (b * (2 * 2 ^ (7 - s)) + 2 ^ (7 - s) + j)"
    "coef (after_layers f (Suc s)) (b * (2 * 2 ^ (7 - s)) + 2 ^ (7 - s) + j)
       = coef (after_layers f s) (b * (2 * 2 ^ (7 - s)) + j) - zeta (2 ^ s + b) * coef (after_layers f s) (b * (2 * 2 ^ (7 - s)) + 2 ^ (7 - s) + j)"
    by simp_all
qed

section \<open>The inverse transform undoes it\<close>

lemma inv_layers:
  assumes "poly_ok f" and "s \<le> 8" and "poly_ok w" and "\<And>i. i < 256 \<Longrightarrow> coef w i = \<kappa> * coef (after_layers f s) i"
  shows "\<exists>w'. fold inv_layer (map (\<lambda>r. 2 ^ (7 - r)) (rev [0..<s])) (w, 2 ^ s) = (w', 1) \<and> poly_ok w'
    \<and> (\<forall>i < 256. coef w' i = 2 ^ s * \<kappa> * coef f i)"
  using assms(2-)
proof (induction s arbitrary: w \<kappa>)
  case 0
  then show ?case by (simp add: after_layers_def)
next
  case (Suc s)
  define len :: nat where "len = 2 ^ (7 - s)"
  define n :: nat where "n = 2 ^ s"
  have s: "s < 8" using Suc.prems(1) by simp
  have n: "n * (2 * len) = 256" using layer_sizes(1) [OF s] by (simp add: n_def len_def)
  have "n \<le> 2 ^ 7" unfolding n_def using s by (intro power_increasing) simp_all
  then have m: "n < 2 * n" "2 * n \<le> 256" "2 * n - n = n" by (simp_all add: n_def)
  obtain w' where w': "inv_layer len (w, 2 * n) = (w', n)" "poly_ok w'"
    "\<And>b j. b < n \<Longrightarrow> j < len \<Longrightarrow> coef w' (b * (2 * len) + j) = coef w (b * (2 * len) + j) + coef w (b * (2 * len) + len + j)"
    "\<And>b j. b < n \<Longrightarrow> j < len \<Longrightarrow>
       coef w' (b * (2 * len) + len + j) = - zeta (2 * n - 1 - b) * (coef w (b * (2 * len) + j) - coef w (b * (2 * len) + len + j))"
    using inv_layer_spec [OF Suc.prems(2) n m(1,2)] unfolding m(3) by metis
  have undone: "coef w' i = 2 * \<kappa> * coef (after_layers f s) i" if i: "i < 256" for i
  proof -
    obtain b j where bj: "b < n" "j < len" "i = b * (2 * len) + j \<or> i = b * (2 * len) + len + j" by (rule pair_index [OF n i])
    define x where "x = coef (after_layers f s) (b * (2 * len) + j)"
    define y where "y = coef (after_layers f s) (b * (2 * len) + len + j)"
    note bound = pair_bound [OF n bj(1,2)]
    have c: "coef w (b * (2 * len) + j) = \<kappa> * (x + zeta (n + b) * y)" "coef w (b * (2 * len) + len + j) = \<kappa> * (x - zeta (n + b) * y)"
      using after_layers_step [OF assms(1) s, of b j, folded n_def len_def, OF bj(1,2)] Suc.prems(3) bound
      by (simp_all add: x_def y_def)
    have inv: "- zeta (2 * n - 1 - b) * zeta (n + b) = 1" using zeta_mirror [OF s, of b] bj(1) by (simp add: n_def mult.commute)
    have "coef w' (b * (2 * len) + j) = 2 * \<kappa> * x" using w'(3) [OF bj(1,2)] c by (simp add: algebra_simps)
    moreover have "coef w' (b * (2 * len) + len + j) = (- zeta (2 * n - 1 - b) * zeta (n + b)) * (2 * \<kappa> * y)"
      unfolding w'(4) [OF bj(1,2)] c by (simp add: algebra_simps)
    ultimately show ?thesis using bj(3) unfolding inv by (auto simp: x_def y_def)
  qed
  obtain w'' where "fold inv_layer (map (\<lambda>r. 2 ^ (7 - r)) (rev [0..<s])) (w', 2 ^ s) = (w'', 1)" "poly_ok w''"
    "\<forall>i < 256. coef w'' i = 2 ^ s * (2 * \<kappa>) * coef f i"
    using Suc.IH [OF _ w'(2) undone] Suc.prems(1) by auto
  then show ?case using w'(1) by (auto simp: len_def n_def mult_ac)
qed

lemma inverse_256: "reduced INVERSE_256" "elem_val INVERSE_256 * 256 = 1"
proof -
  show "reduced INVERSE_256" by (simp add: INVERSE_256_def reduced_iff)
  have "(of_nat (8347681 * 256) :: zq) = of_nat 1" unfolding zq_of_nat_eq_iff by simp
  then show "elem_val INVERSE_256 * 256 = 1" by (simp only: elem_val_def INVERSE_256_def of_nat_mult unat_numeral of_nat_numeral of_nat_1) simp
qed

lemma ntt_inverse_ntt: "poly_ok f \<Longrightarrow> ntt_inverse (ntt f) = f"
proof -
  assume f: "poly_ok f"
  obtain w where w: "fold inv_layer [1, 2, 4, 8, 16, 32, 64, 128] (ntt f, 256) = (w, 1)" "poly_ok w" "\<And>i. i < 256 \<Longrightarrow> coef w i = 256 * coef f i"
    using inv_layers [OF f order_refl ntt_ok [OF f], of 1] unfolding layer_lens by (auto simp: ntt_after_layers)
  have "coef (poly_scale INVERSE_256 w) i = coef f i" if "i < 256" for i
    using w(2,3) that inverse_256 by (simp add: mult.assoc [symmetric])
  then show ?thesis unfolding ntt_inverse_def w(1) fst_conv
    using w(2) f inverse_256(1) by (intro poly_eqI) auto
qed

text \<open>The transform is injective on a finite set it maps to itself, so the inverse works on both sides.\<close>

lemma finite_polys: "finite {f. poly_ok f}"
proof -
  have "{f. poly_ok f} \<subseteq> {f. set f \<subseteq> UNIV \<and> length f = 256}" by (auto simp: poly_ok_def)
  then show ?thesis using finite_lists_length_eq [OF finite, of "UNIV :: elem set" 256] by (rule finite_subset)
qed

lemma ntt_ntt_inverse: "poly_ok f \<Longrightarrow> ntt (ntt_inverse f) = f"
proof -
  assume "poly_ok f"
  have "inj_on ntt {f. poly_ok f}" by (rule inj_on_inverseI [where g = ntt_inverse]) (simp add: ntt_inverse_ntt)
  then have "ntt ` {f. poly_ok f} = {f. poly_ok f}" using finite_polys by (intro endo_inj_surj) auto
  then obtain g where "poly_ok g" "f = ntt g" using \<open>poly_ok f\<close> by blast
  then show ?thesis by (simp add: ntt_inverse_ntt)
qed

lemma ntt_inverse_ok [simp, intro, algebra_ok]: "poly_ok f \<Longrightarrow> poly_ok (ntt_inverse f)"
proof -
  assume "poly_ok f"
  have "inj_on ntt {f. poly_ok f}" by (rule inj_on_inverseI [where g = ntt_inverse]) (simp add: ntt_inverse_ntt)
  then have "ntt ` {f. poly_ok f} = {f. poly_ok f}" using finite_polys by (intro endo_inj_surj) auto
  then obtain g where "poly_ok g" "f = ntt g" using \<open>poly_ok f\<close> by blast
  then show ?thesis by (simp add: ntt_inverse_ntt)
qed

lemmas ntt_inverses [simp] = ntt_inverse_ntt ntt_ntt_inverse

section \<open>Products\<close>

text \<open>The schoolbook product modulo \<open>X^256 + 1\<close>.\<close>

definition negacyclic_mult :: "poly \<Rightarrow> poly \<Rightarrow> poly" where
  "negacyclic_mult f g = map (\<lambda>k. fold (\<lambda>i acc. elem_add acc
     (if i \<le> k then elem_mul (f ! i) (g ! (k - i)) else elem_neg (elem_mul (f ! i) (g ! (256 + k - i))))) [0..<256] 0) [0..<256]"

lemma fold_elem_add:
  "(\<And>i. i \<in> set is \<Longrightarrow> reduced (h i)) \<Longrightarrow> reduced a \<Longrightarrow>
    reduced (fold (\<lambda>i acc. elem_add acc (h i)) is a) \<and> elem_val (fold (\<lambda>i acc. elem_add acc (h i)) is a) = elem_val a + (\<Sum>i \<leftarrow> is. elem_val (h i))"
  by (induction "is" arbitrary: a) (simp_all add: add.assoc)

lemma negacyclic_mult_spec:
  assumes "poly_ok f" and "poly_ok g"
  shows "poly_ok (negacyclic_mult f g)"
    and "k < 256 \<Longrightarrow> coef (negacyclic_mult f g) k = (\<Sum>i < 256. coef f i * (if i \<le> k then coef g (k - i) else - coef g (256 + k - i)))"
proof -
  define h where "h k i = (if i \<le> k then elem_mul (f ! i) (g ! (k - i)) else elem_neg (elem_mul (f ! i) (g ! (256 + k - i))))" for k i
  have h: "reduced (h k i)" "elem_val (h k i) = coef f i * (if i \<le> k then coef g (k - i) else - coef g (256 + k - i))"
    if "k < 256" "i < 256" for k i
    using that poly_okD(2) [OF assms(1), of i] poly_okD(2) [OF assms(2), of "k - i"] poly_okD(2) [OF assms(2), of "256 + k - i"]
    by (simp_all add: h_def coef_def)
  have sums: "reduced (negacyclic_mult f g ! k)" "elem_val (negacyclic_mult f g ! k) = (\<Sum>i < 256. elem_val (h k i))" if "k < 256" for k
    using fold_elem_add [of "[0..<256]" "h k" 0] h(1) [OF that] that
    by (simp_all add: negacyclic_mult_def h_def [symmetric] interv_sum_list_conv_sum_set_nat atLeast0LessThan)
  show "poly_ok (negacyclic_mult f g)" by (rule poly_okI) (simp_all add: sums, simp add: negacyclic_mult_def)
  show "coef (negacyclic_mult f g) k = (\<Sum>i < 256. coef f i * (if i \<le> k then coef g (k - i) else - coef g (256 + k - i)))" if "k < 256"
    unfolding coef_def [of "negacyclic_mult f g"] sums(2) [OF that] by (rule sum.cong) (simp_all add: h(2) that)
qed

text \<open>At a 256th root of minus one the product evaluates to the product of the values.\<close>

lemma negacyclic_shift:
  fixes g :: "nat \<Rightarrow> 'a::comm_ring_1"
  assumes "r ^ n = - 1" and "i < n"
  shows "(\<Sum>k < n. (if i \<le> k then g (k - i) else - g (n + k - i)) * r ^ k) = r ^ i * (\<Sum>j < n. g j * r ^ j)"
proof -
  have "(\<Sum>k < n. (if i \<le> k then g (k - i) else - g (n + k - i)) * r ^ k)
      = (\<Sum>k < i. - g (n + k - i) * r ^ k) + (\<Sum>k = i..<n. g (k - i) * r ^ k)"
  proof -
    have "{..<n} = {..<i} \<union> {i..<n}" using assms(2) by auto
    then show ?thesis by (simp add: sum.union_disjoint ivl_disj_int)
  qed
  also have "(\<Sum>k = i..<n. g (k - i) * r ^ k) = (\<Sum>j < n - i. g j * r ^ (i + j))"
    using assms(2) by (intro sum.reindex_bij_witness [where i = "\<lambda>j. i + j" and j = "\<lambda>k. k - i"]) auto
  also have "(\<Sum>k < i. - g (n + k - i) * r ^ k) = (\<Sum>j = n - i..<n. g j * r ^ (i + j))"
  proof (rule sum.reindex_bij_witness [where i = "\<lambda>j. j - (n - i)" and j = "\<lambda>k. n + k - i"])
    fix k assume "k \<in> {..<i}"
    then have "i + (n + k - i) = n + k" using assms(2) by simp
    then show "g (n + k - i) * r ^ (i + (n + k - i)) = - g (n + k - i) * r ^ k" by (simp add: power_add assms(1))
  qed (use assms(2) in auto)
  also have "(\<Sum>j = n - i..<n. g j * r ^ (i + j)) + (\<Sum>j < n - i. g j * r ^ (i + j)) = (\<Sum>j < n. g j * r ^ (i + j))"
  proof -
    have "{..<n} = {..<n - i} \<union> {n - i..<n}" by auto
    then show ?thesis by (simp add: sum.union_disjoint ivl_disj_int add.commute)
  qed
  also have "\<dots> = r ^ i * (\<Sum>j < n. g j * r ^ j)" unfolding sum_distrib_left by (intro sum.cong) (simp_all add: power_add mult_ac)
  finally show ?thesis .
qed

lemma ntt_negacyclic:
  assumes f: "poly_ok f" and g: "poly_ok g"
  shows "ntt (negacyclic_mult f g) = ntt_mul (ntt f) (ntt g)"
proof (rule poly_eqI)
  fix b :: nat assume b: "b < 256"
  define r where "r = root 8 b"
  have r: "r ^ 256 = - 1" using root_power [of 8 b] b by (simp add: r_def)
  have "coef (ntt (negacyclic_mult f g)) b
      = (\<Sum>k < 256. \<Sum>i < 256. coef f i * ((if i \<le> k then coef g (k - i) else - coef g (256 + k - i)) * r ^ k))"
    unfolding coef_ntt [OF negacyclic_mult_spec(1) [OF f g] b] r_def [symmetric]
    by (intro sum.cong refl) (simp add: negacyclic_mult_spec(2) [OF f g] sum_distrib_right mult.assoc)
  also have "\<dots> = (\<Sum>i < 256. coef f i * (\<Sum>k < 256. (if i \<le> k then coef g (k - i) else - coef g (256 + k - i)) * r ^ k))"
    by (subst sum.swap) (simp add: sum_distrib_left)
  also have "\<dots> = (\<Sum>i < 256. coef f i * (r ^ i * (\<Sum>j < 256. coef g j * r ^ j)))"
    by (intro sum.cong refl) (simp add: negacyclic_shift [OF r])
  also have "\<dots> = (\<Sum>i < 256. coef f i * r ^ i) * (\<Sum>j < 256. coef g j * r ^ j)" by (simp add: sum_distrib_right mult.assoc)
  also have "\<dots> = coef (ntt_mul (ntt f) (ntt g)) b" using f g b by (simp add: coef_ntt r_def)
  finally show "coef (ntt (negacyclic_mult f g)) b = coef (ntt_mul (ntt f) (ntt g)) b" .
qed (simp_all add: negacyclic_mult_spec(1) f g)

section \<open>Linearity\<close>

lemma ntt_linear:
  assumes "poly_ok f" and "poly_ok g"
  shows "ntt (poly_add f g) = poly_add (ntt f) (ntt g)" "ntt (poly_sub f g) = poly_sub (ntt f) (ntt g)"
    "reduced c \<Longrightarrow> ntt (poly_scale c f) = poly_scale c (ntt f)" "ntt (poly_neg f) = poly_neg (ntt f)"
  using assms by (auto intro!: poly_eqI simp: coef_ntt sum_distrib_left sum.distrib sum_subtractf sum_negf algebra_simps)

lemma ntt_inverse_linear:
  assumes "poly_ok f" and "poly_ok g"
  shows "ntt_inverse (poly_add f g) = poly_add (ntt_inverse f) (ntt_inverse g)" "ntt_inverse (poly_sub f g) = poly_sub (ntt_inverse f) (ntt_inverse g)"
    "reduced c \<Longrightarrow> ntt_inverse (poly_scale c f) = poly_scale c (ntt_inverse f)"
proof -
  have inv: "ntt_inverse x = y" if "poly_ok y" "ntt y = x" for x y using that by auto
  show "ntt_inverse (poly_add f g) = poly_add (ntt_inverse f) (ntt_inverse g)" "ntt_inverse (poly_sub f g) = poly_sub (ntt_inverse f) (ntt_inverse g)"
    "reduced c \<Longrightarrow> ntt_inverse (poly_scale c f) = poly_scale c (ntt_inverse f)"
    using assms by (auto intro!: inv simp: ntt_linear)
qed

section \<open>Vectors\<close>

lemma vec_ntt_ok [simp, intro, algebra_ok]:
  "vec_ok n v \<Longrightarrow> vec_ok n (vec_ntt v)" "vec_ok n v \<Longrightarrow> vec_ok n (vec_ntt_inverse v)"
  by (rule vec_okI; simp add: vec_ntt_def vec_ntt_inverse_def vec_okD ntt_ok ntt_inverse_ok)+

lemma vec_ntt_nth [simp, coef_simps]:
  "vec_ok n v \<Longrightarrow> k < n \<Longrightarrow> vec_ntt v ! k = ntt (v ! k)" "vec_ok n v \<Longrightarrow> k < n \<Longrightarrow> vec_ntt_inverse v ! k = ntt_inverse (v ! k)"
  by (simp_all add: vec_ntt_def vec_ntt_inverse_def vec_okD)

lemma vec_ntt_inverses [simp]: "vec_ok n v \<Longrightarrow> vec_ntt_inverse (vec_ntt v) = v" "vec_ok n v \<Longrightarrow> vec_ntt (vec_ntt_inverse v) = v"
  by (rule vec_eqI [of n]; simp add: vec_ntt_nth [of n] vec_okD vec_ntt_ok)+

lemma vec_ntt_linear:
  assumes "vec_ok n u" and "vec_ok n v"
  shows "vec_ntt (vec_add u v) = vec_add (vec_ntt u) (vec_ntt v)" "vec_ntt (vec_sub u v) = vec_sub (vec_ntt u) (vec_ntt v)"
    "reduced c \<Longrightarrow> vec_ntt (vec_scale c u) = vec_scale c (vec_ntt u)"
  using assms by (auto intro!: vec_eqI [of n] simp: ntt_linear [OF _ poly_ops_ok(1)] ntt_linear vec_okD vec_ntt_nth [of n] vec_ops_nth [of n])

lemma vec_ntt_inverse_linear:
  assumes "vec_ok n u" and "vec_ok n v"
  shows "vec_ntt_inverse (vec_add u v) = vec_add (vec_ntt_inverse u) (vec_ntt_inverse v)"
    "vec_ntt_inverse (vec_sub u v) = vec_sub (vec_ntt_inverse u) (vec_ntt_inverse v)"
  using assms by (auto intro!: vec_eqI [of n] simp: ntt_inverse_linear vec_okD vec_ntt_nth [of n] vec_ops_nth [of n])

text \<open>C17. The transform and its inverse undo each other, the transform evaluates at the 256 roots of
  \<open>X^256 + 1\<close>, and multiplying transforms coefficientwise is schoolbook multiplication modulo
  \<open>X^256 + 1\<close>, for all polynomials with reduced coefficients.\<close>

theorem ntt_computes_products:
  assumes "poly_ok f" and "poly_ok g"
  shows "ntt_inverse (ntt_mul (ntt f) (ntt g)) = negacyclic_mult f g \<and> ntt_inverse (ntt f) = f \<and> ntt (ntt_inverse f) = f
    \<and> (\<forall>b < 256. coef (ntt f) b = (\<Sum>t < 256. coef f t * root 8 b ^ t) \<and> root 8 b ^ 256 = - 1)"
  using assms root_power [of 8] by (simp add: coef_ntt ntt_negacyclic [symmetric] negacyclic_mult_spec(1))

theorem ntt_computes_products_witness:
  "ntt_inverse (ntt_mul (ntt (replicate 256 1)) (ntt (replicate 256 (MLDSA_Q - 1)))) = negacyclic_mult (replicate 256 1) (replicate 256 (MLDSA_Q - 1))"
  by (rule ntt_computes_products [THEN conjunct1]) (simp_all add: poly_ok_def list_all_length reduced_iff MLDSA_Q_def)

end
