(* ===== verification/Mldsa_Sample.thy ===== *)
theory Mldsa_Sample
  imports Mldsa_Hash Mldsa_Encode Mldsa_Ntt
begin

text \<open>
  Sampling in ML-DSA (\<open>mldsa_core/sampling.rs\<close>). Rejection sampling reads from a hash state until
  enough samples were accepted; nothing bounds the loops, so they are partial functions and \<open>None\<close>
  is also the run that never ends.
\<close>

section \<open>Coefficients from bytes\<close>

definition bit_set :: "bytes \<Rightarrow> nat \<Rightarrow> bool option" where
  "bit_set z i = (let bit_index = i AND 0x07; byte_index = drop_bit 3 i in
     if byte_index < length z then Some (z ! byte_index AND push_bit bit_index 1 \<noteq> 0) else None)"

definition coeff_from_three_bytes :: "bytes \<Rightarrow> elem option" where
  "coeff_from_three_bytes b =
     (let b0 = ucast (b ! 0) :: u32; b1 = ucast (b ! 1); b2 = ucast (b ! 2);
          b2p = (if 127 < b2 then b2 - 128 else b2); z = push_bit 16 b2p + push_bit 8 b1 + b0 in
      if z < MLDSA_Q then Some z else None)"

datatype eta = EtaTwo | EtaFour

fun eta_value :: "eta \<Rightarrow> nat" where
  "eta_value EtaTwo = 2"
| "eta_value EtaFour = 4"

definition coeff_from_half_byte :: "u8 \<Rightarrow> eta \<Rightarrow> elem option" where
  "coeff_from_half_byte b \<eta> =
     (case \<eta> of
        EtaTwo \<Rightarrow> if b < 15 then
          (let b = ucast (if b < 5 then b else if b < 10 then b - 5 else b - 10) :: u32 in
           if b \<le> 2 then Some (2 - b) else Some (elem_neg (b - 2))) else None
      | EtaFour \<Rightarrow> if b < 9 then
          (let b = ucast b :: u32 in if b \<le> 4 then Some (4 - b) else Some (elem_neg (b - 4))) else None)"

definition coeffs_from_byte :: "u8 \<Rightarrow> eta \<Rightarrow> elem option \<times> elem option" where
  "coeffs_from_byte z \<eta> = (coeff_from_half_byte (z AND 0x0F) \<eta>, coeff_from_half_byte (drop_bit 4 z) \<eta>)"

section \<open>Rejection loops\<close>

text \<open>The inner loop of \<open>sample_in_ball\<close>: read bytes until one is at most \<open>i\<close>.\<close>

partial_function (option) ball_index :: "'s hash_state \<Rightarrow> nat \<Rightarrow> 's \<Rightarrow> (nat \<times> 's) option" where
  "ball_index H i ctx = (let (j, ctx) = hash_squeeze H ctx 1 in
     if i < unat (j ! 0) then ball_index H i ctx else Some (unat (j ! 0), ctx))"

definition ball_step :: "'s hash_state \<Rightarrow> bytes \<Rightarrow> nat \<Rightarrow> nat \<Rightarrow> (poly \<times> 's) option \<Rightarrow> (poly \<times> 's) option" where
  "ball_step H s tau i st =
     Option.bind st (\<lambda>(c, ctx). Option.bind (ball_index H i ctx) (\<lambda>(j, ctx).
     Option.bind (bit_set s (i + tau - 256)) (\<lambda>b.
       let c = c[i := c ! j] in Some (c[j := (if b then MLDSA_Q - 1 else 1)], ctx))))"

definition sample_in_ball :: "'s hash_state \<Rightarrow> bytes \<Rightarrow> nat \<Rightarrow> poly option" where
  "sample_in_ball H rho tau =
     Option.bind (absorb_all H [rho]) (\<lambda>ctx. let (s, ctx) = hash_squeeze H ctx 8 in
       map_option fst (fold (ball_step H s tau) [256 - tau..<256] (Some (poly_zero, ctx))))"

partial_function (option) rej_ntt_loop :: "'s hash_state \<Rightarrow> 's \<Rightarrow> poly \<Rightarrow> nat \<Rightarrow> poly option" where
  "rej_ntt_loop H ctx a j = (if j < 256 then
     (let (s, ctx) = hash_squeeze H ctx 3 in
      case coeff_from_three_bytes s of Some x \<Rightarrow> rej_ntt_loop H ctx (a[j := x]) (j + 1) | None \<Rightarrow> rej_ntt_loop H ctx a j)
     else Some a)"

definition rej_ntt_poly :: "'s hash_state \<Rightarrow> bytes \<Rightarrow> u8 \<Rightarrow> u8 \<Rightarrow> poly option" where
  "rej_ntt_poly G rho r s = Option.bind (absorb_all G [rho, [s], [r]]) (\<lambda>ctx. rej_ntt_loop G ctx poly_zero 0)"

partial_function (option) rej_bounded_loop :: "'s hash_state \<Rightarrow> eta \<Rightarrow> 's \<Rightarrow> poly \<Rightarrow> nat \<Rightarrow> poly option" where
  "rej_bounded_loop H \<eta> ctx a j = (if j < 256 then
     (let (z, ctx) = hash_squeeze H ctx 1; (z0, z1) = coeffs_from_byte (z ! 0) \<eta>;
          (a, j) = (case z0 of Some z \<Rightarrow> (a[j := z], j + 1) | None \<Rightarrow> (a, j)) in
      if j = 256 then Some a
      else let (a, j) = (case z1 of Some z \<Rightarrow> (a[j := z], j + 1) | None \<Rightarrow> (a, j)) in rej_bounded_loop H \<eta> ctx a j)
     else Some a)"

definition rej_bounded_poly :: "'s hash_state \<Rightarrow> bytes \<Rightarrow> eta \<Rightarrow> u16 \<Rightarrow> poly option" where
  "rej_bounded_poly H rho \<eta> r = Option.bind (absorb_all H [rho, le_bytes 2 r]) (\<lambda>ctx. rej_bounded_loop H \<eta> ctx poly_zero 0)"

section \<open>Expansion\<close>

definition expand_a :: "'s hash_state \<Rightarrow> nat \<Rightarrow> nat \<Rightarrow> bytes \<Rightarrow> matrix option" where
  "expand_a G k l rho = those (map (\<lambda>r. those (map (\<lambda>s. rej_ntt_poly G rho (of_nat r) (of_nat s)) [0..<l])) [0..<k])"

definition expand_s :: "'s hash_state \<Rightarrow> nat \<Rightarrow> bytes \<Rightarrow> eta \<Rightarrow> nat \<Rightarrow> vec option" where
  "expand_s H k rho \<eta> base = those (map (\<lambda>r. rej_bounded_poly H rho \<eta> (of_nat (r + base))) [0..<k])"

text \<open>The index \<open>mu + r\<close> is added as \<open>u16\<close>.\<close>

definition mask_poly :: "'s hash_state \<Rightarrow> nat \<Rightarrow> bytes \<Rightarrow> u16 \<Rightarrow> u16 \<Rightarrow> poly option" where
  "mask_poly H gamma1 rho mu r =
     Option.bind (checked_add mu r) (\<lambda>n. Option.bind (absorb_all H [rho, le_bytes 2 n]) (\<lambda>ctx.
       bit_unpack (gamma1 - 1) gamma1 (fst (squeeze_new H ctx (32 * range_bits (gamma1 - 1) gamma1)))))"

definition expand_mask :: "'s hash_state \<Rightarrow> nat \<Rightarrow> nat \<Rightarrow> bytes \<Rightarrow> u16 \<Rightarrow> vec option" where
  "expand_mask H l gamma1 rho mu = those (map (\<lambda>r. mask_poly H gamma1 rho mu (of_nat r)) [0..<l])"

section \<open>What is sampled\<close>

lemma three_bytes_reduced: "coeff_from_three_bytes b = Some x \<Longrightarrow> reduced x"
  by (auto simp: coeff_from_three_bytes_def Let_def reduced_def split: if_splits)

lemma half_byte_range:
  assumes "coeff_from_half_byte b \<eta> = Some x"
  shows "reduced x \<and> - int (eta_value \<eta>) \<le> cval x \<and> cval x \<le> int (eta_value \<eta>)"
proof -
  have small: "reduced (elem_neg y) \<and> cval (elem_neg y) = - int (unat y) \<and> reduced y \<and> cval y = int (unat y)" if "unat y \<le> 4" for y
  proof -
    have r: "reduced y" using that by (simp add: reduced_iff)
    have y: "cval y = int (unat y)" using that by (simp add: cval_def)
    have "cval (elem_neg y) = - int (unat y)"
    proof (rule cval_eqI)
      show "reduced (elem_neg y)" using r by simp
      show "elem_val (elem_neg y) = of_int (- int (unat y))" using r by (simp add: elem_val_def [of y] del: of_nat_unat)
      show "- 4190208 \<le> - int (unat y)" "- int (unat y) \<le> 4190208" using that by (simp_all del: of_nat_unat)
    qed
    then show ?thesis using r y by simp
  qed
  have sub: "unat (c - 2) = unat c - 2" "unat (c - 4) = unat c - 4" if "unat c \<ge> 4" for c :: u32
    using that by (simp_all add: unat_sub word_le_nat_alt)
  show ?thesis
  proof (cases \<eta>)
    case EtaTwo
    define c where "c = (ucast (if b < 5 then b else if b < 10 then b - 5 else b - 10) :: u32)"
    have "unat c < 5" "b < 15"
      using assms EtaTwo by (auto simp: c_def coeff_from_half_byte_def unat_ucast_up word_less_nat_alt unat_sub word_le_nat_alt not_less Let_def split: if_splits)
    have x: "x = (if c \<le> 2 then 2 - c else elem_neg (c - 2))"
      using assms EtaTwo \<open>b < 15\<close> by (simp add: coeff_from_half_byte_def Let_def c_def [symmetric] split: if_splits)
    have "unat (2 - c) \<le> 2" if "c \<le> 2" using that by (simp add: unat_sub word_le_nat_alt)
    moreover have "unat (c - 2) \<le> 2" if "\<not> c \<le> 2" using that \<open>unat c < 5\<close> by (simp add: unat_sub word_le_nat_alt)
    ultimately show ?thesis using small [of "2 - c"] small [of "c - 2"] EtaTwo by (cases "c \<le> 2") (simp_all add: x del: of_nat_unat)
  next
    case EtaFour
    define c where "c = (ucast b :: u32)"
    have c: "unat c < 9" "b < 9"
      using assms EtaFour by (auto simp: c_def coeff_from_half_byte_def unat_ucast_up word_less_nat_alt split: if_splits)
    have x: "x = (if c \<le> 4 then 4 - c else elem_neg (c - 4))"
      using assms EtaFour \<open>b < 9\<close> by (simp add: coeff_from_half_byte_def Let_def c_def [symmetric] split: if_splits)
    have "unat (4 - c) \<le> 4" if "c \<le> 4" using that by (simp add: unat_sub word_le_nat_alt)
    moreover have "unat (c - 4) \<le> 4" if "\<not> c \<le> 4" using that c(1) by (simp add: unat_sub word_le_nat_alt)
    ultimately show ?thesis using small [of "4 - c"] small [of "c - 4"] EtaFour by (cases "c \<le> 4") (simp_all add: x del: of_nat_unat)
  qed
qed

lemma nth_update: "a[k := x] ! i = (if k = i \<and> k < length a then x else a ! i)"
  by (cases "k < length a") (auto simp: nth_list_update list_update_beyond)

lemma poly_ok_update [simp]: "poly_ok a \<Longrightarrow> reduced x \<Longrightarrow> poly_ok (a[j := x])"
  by (simp add: poly_ok_def list_all_length nth_update)

lemma rej_ntt_loop_ok: "rej_ntt_loop H ctx a j = Some f \<Longrightarrow> poly_ok a \<longrightarrow> poly_ok f"
proof (induction H ctx a j f rule: rej_ntt_loop.raw_induct [rotated, consumes 1, case_names step])
  case (step loop H ctx a j f)
  obtain s ctx' where "hash_squeeze H ctx 3 = (s, ctx')" by force
  then show ?case using step by (auto simp: three_bytes_reduced split: if_splits option.splits)
qed

lemma rej_bounded_loop_ok:
  "rej_bounded_loop H \<eta> ctx a j = Some f \<Longrightarrow> in_range (eta_value \<eta>) (eta_value \<eta>) a \<longrightarrow> in_range (eta_value \<eta>) (eta_value \<eta>) f"
proof (induction H \<eta> ctx a j f rule: rej_bounded_loop.raw_induct [rotated, consumes 1, case_names step])
  case (step loop H \<eta> ctx a j f)
  have upd: "in_range (eta_value \<eta>) (eta_value \<eta>) (a[k := x])"
    if "in_range (eta_value \<eta>) (eta_value \<eta>) a" "coeff_from_half_byte b \<eta> = Some x" for a k b x
    using that half_byte_range [OF that(2)] by (auto simp: in_range_def nth_update)
  obtain z ctx' where z: "hash_squeeze H ctx 1 = (z, ctx')" by force
  obtain z0 z1 where zz: "coeffs_from_byte (z ! 0) \<eta> = (z0, z1)" by force
  then have c: "z0 = coeff_from_half_byte (z ! 0 AND 0x0F) \<eta>" "z1 = coeff_from_half_byte (drop_bit 4 (z ! 0)) \<eta>"
    by (simp_all add: coeffs_from_byte_def)
  obtain a1 j1 where s1: "(case z0 of Some z \<Rightarrow> (a[j := z], j + 1) | None \<Rightarrow> (a, j)) = (a1, j1)" by force
  obtain a2 j2 where s2: "(case z1 of Some z \<Rightarrow> (a1[j1 := z], j1 + 1) | None \<Rightarrow> (a1, j1)) = (a2, j2)" by force
  have k1: "in_range (eta_value \<eta>) (eta_value \<eta>) a \<Longrightarrow> in_range (eta_value \<eta>) (eta_value \<eta>) a1"
    using s1 upd [of a "z ! 0 AND 0x0F"] c(1) [symmetric] by (auto split: option.splits)
  have k2: "in_range (eta_value \<eta>) (eta_value \<eta>) a1 \<Longrightarrow> in_range (eta_value \<eta>) (eta_value \<eta>) a2"
    using s2 upd [of a1 "drop_bit 4 (z ! 0)"] c(2) [symmetric] by (auto split: option.splits)
  show ?case
  proof (cases "j < 256")
    case True
    then have "(if j1 = 256 then Some a1 else loop H \<eta> ctx' a2 j2) = Some f"
      using step(2) s2 by (simp add: z zz s1 del: One_nat_def split: if_splits)
    then show ?thesis using k1 k2 step(1) by (auto split: if_splits)
  qed (use step(2) in simp)
qed

lemma zero_in_range: "in_range a b poly_zero"
  by (simp add: in_range_def poly_zero_def poly_ok_def list_all_length cval_def)

lemma those_in: "those (map g is) = Some v \<Longrightarrow> length v = length is \<and> (\<forall>i < length is. g (is ! i) = Some (v ! i))"
  unfolding those_eq_Some by (metis length_map nth_map)

lemma expand_s_ok:
  assumes "expand_s H k rho \<eta> base = Some v"
  shows "length v = k" "\<And>f. f \<in> set v \<Longrightarrow> in_range (eta_value \<eta>) (eta_value \<eta>) f"
proof -
  note t = those_in [OF assms [unfolded expand_s_def]]
  show len: "length v = k" using t by simp
  show "in_range (eta_value \<eta>) (eta_value \<eta>) f" if f: "f \<in> set v" for f
  proof -
    obtain i where "i < k" "f = v ! i" using f len by (metis in_set_conv_nth)
    then have "rej_bounded_poly H rho \<eta> (of_nat (i + base)) = Some f" using t by simp
    then obtain ctx where "rej_bounded_loop H \<eta> ctx poly_zero 0 = Some f" by (auto simp: rej_bounded_poly_def bind_eq_Some_conv)
    from rej_bounded_loop_ok [OF this] show ?thesis using zero_in_range by simp
  qed
qed

lemma expand_a_ok: "expand_a G k l rho = Some A \<Longrightarrow> matrix_ok k l A"
proof -
  assume "expand_a G k l rho = Some A"
  note t = those_in [OF this [unfolded expand_a_def]]
  show "matrix_ok k l A"
    unfolding matrix_ok_def list_all_length
  proof (intro conjI allI impI)
    show len: "length A = k" using t by simp
    fix i assume "i < length A"
    then have "those (map (\<lambda>s. rej_ntt_poly G rho (of_nat i) (of_nat s)) [0..<l]) = Some (A ! i)" using t len by simp
    note u = those_in [OF this]
    show "vec_ok l (A ! i)"
    proof (rule vec_okI)
      show "length (A ! i) = l" using u by simp
      fix j assume "j < l"
      then have "rej_ntt_poly G rho (of_nat i) (of_nat j) = Some (A ! i ! j)" using u by simp
      then obtain ctx where "rej_ntt_loop G ctx poly_zero 0 = Some (A ! i ! j)" by (auto simp: rej_ntt_poly_def bind_eq_Some_conv)
      from rej_ntt_loop_ok [OF this] show "poly_ok (A ! i ! j)" by simp
    qed
  qed
qed

lemma those_eq_map: "those (map g is) = Some v \<Longrightarrow> f \<in> set v \<Longrightarrow> \<exists>i \<in> set is. g i = Some f"
  unfolding those_eq_Some by (metis (no_types, lifting) image_iff list.set_map)

section \<open>Challenges\<close>

lemma ball_index_le: "ball_index H i ctx = Some r \<Longrightarrow> fst r \<le> i"
proof (induction H i ctx r rule: ball_index.raw_induct [rotated, consumes 1, case_names step])
  case (step loop H i ctx r)
  obtain j ctx' where "hash_squeeze H ctx 1 = (j, ctx')" by force
  then show ?case using step by (auto simp: not_less simp del: One_nat_def split: if_splits)
qed

text \<open>Ternary polynomials with a given number of coefficients that are not zero.\<close>

definition nonzero :: "poly \<Rightarrow> nat set" where "nonzero c = {k. k < 256 \<and> c ! k \<noteq> 0}"

definition challenge_ok :: "nat \<Rightarrow> poly \<Rightarrow> bool" where
  "challenge_ok tau c \<longleftrightarrow> poly_ok c \<and> card (nonzero c) = tau \<and> (\<forall>k < 256. c ! k \<in> {0, 1, MLDSA_Q - 1})"

lemma finite_nonzero [simp]: "finite (nonzero c)" by (simp add: nonzero_def)

lemma reduced_minus_one [simp]: "reduced (MLDSA_Q - 1)" "(MLDSA_Q - 1 :: u32) \<noteq> 0" "cval (MLDSA_Q - 1) = - 1"
  "MLDSA_Q \<noteq> 1"
  by (simp_all add: reduced_iff MLDSA_Q_def cval_def)

lemma ball_swap:
  assumes c: "challenge_ok n c" "\<And>k. i \<le> k \<Longrightarrow> k < 256 \<Longrightarrow> c ! k = 0" and i: "i < 256" and j: "j \<le> i" and x: "x = 1 \<or> x = MLDSA_Q - 1"
  shows "challenge_ok (Suc n) (c[i := c ! j, j := x]) \<and> (\<forall>k. i + 1 \<le> k \<longrightarrow> k < 256 \<longrightarrow> c[i := c ! j, j := x] ! k = 0)"
proof -
  have len: "length c = 256" and ok: "poly_ok c" and tern: "\<And>k. k < 256 \<Longrightarrow> c ! k \<in> {0, 1, MLDSA_Q - 1}" and n: "card (nonzero c) = n"
    using c(1) poly_okD(1) by (auto simp: challenge_ok_def)
  define d where "d = c[i := c ! j, j := x]"
  have red: "reduced x" "x \<noteq> 0" using x by auto
  have d: "d ! k = (if k = j then x else if k = i then c ! j else c ! k)" if "k < 256" for k
    using that i j len by (simp add: d_def nth_update)
  have "poly_ok d" unfolding d_def using ok red(1) poly_okD(2) [OF ok, of j] i j by simp
  moreover have "d ! k \<in> {0, 1, MLDSA_Q - 1}" if "k < 256" for k
    using tern [OF that] tern [of j] x i j d [OF that] by auto
  moreover have "card (nonzero d) = Suc n"
  proof (cases "j = i \<or> c ! j = 0")
    case True
    then have "nonzero d = insert j (nonzero c)" using d red c(2) [of i] i j by (auto simp: nonzero_def split: if_splits)
    moreover have "j \<notin> nonzero c" using True c(2) [of i] i by (auto simp: nonzero_def)
    ultimately show ?thesis using n by simp
  next
    case False
    then have "nonzero d = insert i (nonzero c)" using d red i j by (auto simp: nonzero_def split: if_splits)
    moreover have "i \<notin> nonzero c" using c(2) [of i] i by (auto simp: nonzero_def)
    ultimately show ?thesis using n by simp
  qed
  moreover have "d ! k = 0" if "i + 1 \<le> k" "k < 256" for k using d [OF that(2)] that j c(2) [of k] by simp
  ultimately show ?thesis by (simp add: challenge_ok_def d_def)
qed

lemma sample_in_ball_ok:
  assumes "sample_in_ball H rho tau = Some c" and "tau \<le> 256"
  shows "challenge_ok tau c"
proof -
  obtain ctx where ctx: "absorb_all H [rho] = Some ctx" using assms(1) by (auto simp: sample_in_ball_def bind_eq_Some_conv)
  obtain s ctx' where sq: "hash_squeeze H ctx 8 = (s, ctx')" by force
  obtain c_ctx where f: "fold (ball_step H s tau) [256 - tau..<256] (Some (poly_zero, ctx')) = Some c_ctx" "c = fst c_ctx"
    using assms(1) by (auto simp: sample_in_ball_def ctx sq)
  have none: "ball_step H s tau i None = None" for i by (simp add: ball_step_def)
  have "fold (ball_step H s tau) [256 - tau..<256 - tau + n] (Some (poly_zero, ctx')) = Some (c, ctx'')
      \<Longrightarrow> challenge_ok n c \<and> (\<forall>k. 256 - tau + n \<le> k \<longrightarrow> k < 256 \<longrightarrow> c ! k = 0)" if "n \<le> tau" for n c ctx''
    using that
  proof (induction n arbitrary: c ctx'')
    case 0
    then show ?case using poly_ops_ok(1) by (auto simp: challenge_ok_def nonzero_def poly_zero_def)
  next
    case (Suc n)
    define i where "i = 256 - tau + n"
    have i: "i < 256" using Suc.prems(2) assms(2) by (simp add: i_def)
    have upt: "[256 - tau..<256 - tau + Suc n] = [256 - tau..<256 - tau + n] @ [i]" by (simp add: i_def)
    obtain c0 ctx0 where p: "fold (ball_step H s tau) [256 - tau..<256 - tau + n] (Some (poly_zero, ctx')) = Some (c0, ctx0)"
      using Suc.prems(1) unfolding upt by (cases "fold (ball_step H s tau) [256 - tau..<256 - tau + n] (Some (poly_zero, ctx'))") (auto simp: none)
    have IH: "challenge_ok n c0" "\<And>k. i \<le> k \<Longrightarrow> k < 256 \<Longrightarrow> c0 ! k = 0" using Suc.IH [OF p] Suc.prems(2) by (simp_all add: i_def)
    have "ball_step H s tau i (Some (c0, ctx0)) = Some (c, ctx'')" using Suc.prems(1) p unfolding upt by simp
    then obtain j ctx1 bt where "ball_index H i ctx0 = Some (j, ctx1)" "c = c0[i := c0 ! j, j := (if bt then MLDSA_Q - 1 else 1)]"
      by (auto simp: ball_step_def bind_eq_Some_conv Let_def)
    moreover from this have "j \<le> i" using ball_index_le by fastforce
    ultimately show ?case using ball_swap [OF IH i, of j "if bt then MLDSA_Q - 1 else 1"] by (auto simp: i_def)
  qed
  from this [OF order_refl, of c "snd c_ctx"] show ?thesis using f assms(2) by simp
qed

text \<open>Multiplying by a challenge adds up at most \<open>tau\<close> coefficients.\<close>

lemma challenge_product:
  assumes c: "challenge_ok tau c" and s: "in_range e e s" and small: "tau * e \<le> 4190208" and k: "k < 256"
  shows "\<bar>cval (negacyclic_mult c s ! k)\<bar> \<le> int (tau * e)"
proof -
  have okc: "poly_ok c" and oks: "poly_ok s" using c s by (simp_all add: challenge_ok_def in_range_def)
  define h where "h i = cval (c ! i) * (if i \<le> k then cval (s ! (k - i)) else - cval (s ! (256 + k - i)))" for i
  define S where "S = (\<Sum>i < 256. h i)"
  have "elem_val (negacyclic_mult c s ! k) = (\<Sum>i < 256. of_int (h i))"
    using negacyclic_mult_spec(2) [OF okc oks k] by (simp add: coef_def h_def elem_val_cval if_distrib cong: if_cong)
  then have val: "elem_val (negacyclic_mult c s ! k) = of_int S" by (simp add: S_def)
  have zero: "h i = 0" if "i < 256" "i \<notin> nonzero c" for i using that by (simp add: h_def nonzero_def cval_def)
  have each: "\<bar>h i\<bar> \<le> int e" if i: "i < 256" for i
  proof -
    have ci: "c ! i = 0 \<or> c ! i = 1 \<or> c ! i = MLDSA_Q - 1" using c i by (auto simp: challenge_ok_def)
    have "\<bar>cval (c ! i)\<bar> \<le> 1"
    proof -
      have "cval 0 = 0" "cval 1 = 1" by (simp_all add: cval_def)
      then show ?thesis using ci by (elim disjE) simp_all
    qed
    moreover have "\<bar>if i \<le> k then cval (s ! (k - i)) else - cval (s ! (256 + k - i))\<bar> \<le> int e"
    proof -
      have range: "- int e \<le> cval (s ! m) \<and> cval (s ! m) \<le> int e" if "m < 256" for m using s that by (simp add: in_range_def)
      have "\<bar>cval (s ! m)\<bar> \<le> int e" if "m < 256" for m using range [OF that] by linarith
      then show ?thesis using i k by simp
    qed
    ultimately have "\<bar>cval (c ! i)\<bar> * \<bar>if i \<le> k then cval (s ! (k - i)) else - cval (s ! (256 + k - i))\<bar> \<le> 1 * int e"
      by (intro mult_mono) simp_all
    then show ?thesis by (simp only: h_def abs_mult mult_1)
  qed
  have "S = (\<Sum>i \<in> nonzero c. h i)" unfolding S_def using zero by (intro sum.mono_neutral_right) (auto simp: nonzero_def)
  also have "\<bar>\<dots>\<bar> \<le> (\<Sum>i \<in> nonzero c. \<bar>h i\<bar>)" by (rule sum_abs)
  also have "\<dots> \<le> (\<Sum>i \<in> nonzero c. int e)" using each by (intro sum_mono) (simp add: nonzero_def)
  also have "\<dots> = int (tau * e)" using c by (simp add: challenge_ok_def)
  finally have S: "\<bar>S\<bar> \<le> int (tau * e)" .
  have bound: "int (tau * e) \<le> 4190208" using small by (metis of_nat_le_iff of_nat_numeral)
  have "cval (negacyclic_mult c s ! k) = S"
    using negacyclic_mult_spec(1) [OF okc oks] k S bound by (intro cval_eqI val) (auto simp: poly_okD)
  then show ?thesis using S by simp
qed

end
