(* ===== verification/Mldsa_Hint.thy ===== *)
theory Mldsa_Hint
  imports Mldsa_Field
begin

text \<open>
  The hints of ML-DSA (\<open>mldsa_core/hint.rs\<close>): one bit per coefficient that tells a verifier
  which way the high part of the signer's value is, and the packing of the bits as sorted positions with
  the ends of the rows. A panic is \<open>None\<close> where the code can panic.
\<close>

section \<open>Hints for one coefficient\<close>

definition make_hint :: "nat \<Rightarrow> elem \<Rightarrow> elem \<Rightarrow> bool" where
  "make_hint two_gamma2 z r =
     (let r1 = high_bits two_gamma2 r; v1 = high_bits two_gamma2 (elem_add r z) in r1 \<noteq> v1)"

text \<open>The last branch of the code is \<open>unreachable!\<close>.\<close>

definition use_hint :: "nat \<Rightarrow> bool \<Rightarrow> elem \<Rightarrow> elem option" where
  "use_hint two_gamma2 h r =
     (let m = (MLDSA_Q - 1) div of_nat two_gamma2; (r1, r0) = decompose two_gamma2 r; gamma2 = of_nat two_gamma2 div 2 in
      if h \<and> r0 \<le> gamma2 then Some ((r1 + 1) mod m)
      else if h \<and> MLDSA_Q - gamma2 \<le> r0 then Some ((r1 + m - 1) mod m)
      else if h then None
      else Some r1)"

section \<open>Hint matrices\<close>

type_synonym hint = "bool list list"

definition hint_new :: "nat \<Rightarrow> elem list list \<Rightarrow> elem list list \<Rightarrow> hint" where
  "hint_new two_gamma2 z r = map2 (map2 (make_hint two_gamma2)) z r"

definition hamming_weight :: "hint \<Rightarrow> nat" where
  "hamming_weight h = sum_list (map (\<lambda>x. length (filter (\<lambda>b. b) x)) h)"

definition hint_use :: "nat \<Rightarrow> hint \<Rightarrow> elem list list \<Rightarrow> elem list list option" where
  "hint_use two_gamma2 h r = those (map2 (\<lambda>hv rv. those (map2 (use_hint two_gamma2) hv rv)) h r)"

text \<open>\<open>bit_pack\<close>: the loops over the rows and their positions; an index outside the array panics.\<close>

definition pack_bit :: "bool list \<Rightarrow> nat \<Rightarrow> (bytes \<times> nat) option \<Rightarrow> (bytes \<times> nat) option" where
  "pack_bit row j st =
     Option.bind st (\<lambda>(y, index).
       if row ! j then if index < length y then Some (y[index := of_nat j], index + 1) else None
       else Some (y, index))"

fun pack_rows :: "nat \<Rightarrow> nat \<Rightarrow> hint \<Rightarrow> bytes \<Rightarrow> nat \<Rightarrow> bytes option" where
  "pack_rows omega i [] y index = Some y"
| "pack_rows omega i (row # rows) y index =
     Option.bind (fold (pack_bit row) [0..<256] (Some (y, index))) (\<lambda>(y, index).
       pack_rows omega (Suc i) rows (y[omega + i := of_nat index]) index)"

definition hint_bit_pack :: "nat \<Rightarrow> hint \<Rightarrow> bytes option" where
  "hint_bit_pack omega h = pack_rows omega 0 h (replicate (omega + length h) 0) 0"

definition monotonic :: "nat list \<Rightarrow> bool" where
  "monotonic a \<longleftrightarrow> (\<forall>i < length a. i = 0 \<or> a ! (i - 1) \<le> a ! i)"

definition set_bits_of :: "nat list \<Rightarrow> bool list" where
  "set_bits_of indices = fold (\<lambda>j row. row[j := True]) indices (replicate 256 False)"

fun unpack_rows :: "nat list \<Rightarrow> nat \<Rightarrow> nat list \<Rightarrow> hint option" where
  "unpack_rows indices start [] = Some []"
| "unpack_rows indices start (stop # cuts) =
     (let s = sub_slice start stop indices in
      if \<not> monotonic s then None
      else map_option (Cons (set_bits_of s)) (unpack_rows indices stop cuts))"

definition hint_bit_unpack :: "nat \<Rightarrow> bytes \<Rightarrow> hint option" where
  "hint_bit_unpack omega y =
     (let indices = map unat (take omega y); cuts = map unat (drop omega y); max_cut = fold max cuts 0 in
      if \<not> monotonic cuts \<or> length indices < max_cut \<or> 0 < fold max (drop max_cut indices) 0 then None
      else unpack_rows indices 0 cuts)"

section \<open>Hints recover the high part\<close>

lemma use_hint_eq:
  assumes ok: "modulus_ok m" and r: "reduced r" and k: "k = nearest m (unat r)" and M: "M = 8380416 div m"
  shows "use_hint m h r = Some (of_nat
     (if h then if 0 \<le> cval (low_bits m r) then (k mod M + 1) mod M else (k mod M + M - 1) mod M else k mod M))"
proof -
  obtain g M' where m: "m = 2 * g" "int M' * int m = 8380416" "2 \<le> M'" "100 \<le> g" "g \<le> 261888" "M' \<le> 1023" "M' = 8380416 div m"
    using modulus_facts [OF ok] by metis
  have M: "M = 8380416 div m" "2 \<le> M" "M \<le> 1023" using m(3,6,7) M by simp_all
  note d = decompose_spec [OF ok r k M(1)]
  define r1 where "r1 = high_bits m r"
  define r0 where "r0 = low_bits m r"
  have um: "unat (of_nat m :: u32) = m" using m(1,5) by (subst unsigned_of_nat) (simp add: take_bit_nat_eq_self)
  have uM: "unat ((MLDSA_Q - 1) div of_nat m) = M" unfolding unat_div um M(1) by (simp add: MLDSA_Q_def)
  have ug: "unat (of_nat m div 2 :: u32) = g" unfolding unat_div um using m(1) by simp
  have r1: "unat r1 = k mod M" "k mod M < M" using d(3) M(2) by (simp_all add: r1_def)
  have sum: "unat (r1 + 1) = k mod M + 1" using r1 M(3) by (subst unat_add_small) simp_all
  have up: "unat ((r1 + 1) mod ((MLDSA_Q - 1) div of_nat m)) = (k mod M + 1) mod M" unfolding unat_mod uM sum ..
  have add: "unat (r1 + (MLDSA_Q - 1) div of_nat m) = k mod M + M" using r1 M(3) uM by (subst unat_add_small) simp_all
  have "unat (r1 + (MLDSA_Q - 1) div of_nat m - 1) = k mod M + M - 1" using M(2) by (subst unat_sub_small) (simp_all add: word_le_nat_alt add)
  then have down: "unat ((r1 + (MLDSA_Q - 1) div of_nat m - 1) mod ((MLDSA_Q - 1) div of_nat m)) = (k mod M + M - 1) mod M"
    unfolding unat_mod uM by simp
  have low: "- int g \<le> cval r0" "cval r0 \<le> int g"
  proof -
    have b: "- int g < int (unat r) - int m * int k" "int (unat r) - int m * int k \<le> int g"
      using nearest_bounds [OF m(1), of "unat r"] m(4) by (simp_all add: k)
    then show "- int g \<le> cval r0" "cval r0 \<le> int g" unfolding r0_def d(5) by (cases "k = M"; simp)+
  qed
  have red0: "unat r0 < 8380417" using d(2) by (simp add: r0_def reduced_iff)
  have pos: "r0 \<le> of_nat m div 2 \<longleftrightarrow> 0 \<le> cval r0"
    unfolding word_le_nat_alt ug using low red0 m(5) by (auto simp: cval_def simp del: of_nat_unat)
  have "unat (MLDSA_Q - of_nat m div 2) = 8380417 - g" using m(5) by (subst unat_sub_small) (simp_all add: word_le_nat_alt ug)
  then have neg: "MLDSA_Q - of_nat m div 2 \<le> r0 \<longleftrightarrow> cval r0 < 0"
    unfolding word_le_nat_alt using low red0 m(4,5) by (auto simp: cval_def simp del: of_nat_unat)
  have dec: "decompose m r = (r1, r0)" by (simp add: r1_def r0_def high_bits_def low_bits_def)
  have bound: "(k mod M + 1) mod M < 2 ^ 32" "(k mod M + M - 1) mod M < 2 ^ 32" "k mod M < 2 ^ 32"
    using mod_less_divisor [of M] M(2,3) by (auto intro: less_trans [of _ M])
  have words: "(r1 + 1) mod ((MLDSA_Q - 1) div of_nat m) = of_nat ((k mod M + 1) mod M)"
    "(r1 + (MLDSA_Q - 1) div of_nat m - 1) mod ((MLDSA_Q - 1) div of_nat m) = of_nat ((k mod M + M - 1) mod M)"
    "r1 = of_nat (k mod M)"
    unfolding word_unat_eq_iff up down r1(1) using bound by (simp_all add: unsigned_of_nat take_bit_nat_eq_self)
  show ?thesis
    unfolding use_hint_def dec Let_def prod.case pos neg words(1,2) r0_def [symmetric] using words(3) by (cases h) (auto simp: not_le)
qed

text \<open>The hint of a change smaller than the rounding range leads to the high part after it.\<close>

lemma use_make_hint:
  assumes ok: "modulus_ok m" and r: "reduced r" and z: "reduced z" and small: "\<bar>cval z\<bar> < int (m div 2)"
  shows "use_hint m (make_hint m z r) r = Some (high_bits m (elem_add r z))"
proof -
  obtain g M where m: "m = 2 * g" "int M * int m = 8380416" "2 \<le> M" "100 \<le> g" "g \<le> 261888" "M \<le> 1023" "M = 8380416 div m"
    using modulus_facts [OF ok] by metis
  define w where "w = elem_add r z"
  have w: "reduced w" using r z by (simp add: w_def)
  define k where "k = nearest m (unat r)"
  define k' where "k' = nearest m (unat w)"
  note dr = decompose_spec [OF ok r k_def m(7)]
  note dw = decompose_spec [OF ok w k'_def m(7)]
  define P where "P = int m * int k"
  define U where "U = int (unat r)"
  define W where "W = int (unat w)"
  define c where "c = U - P"
  have x: "0 \<le> U" "U < 8380417" "0 \<le> W" "W < 8380417" using r w by (simp_all add: reduced_iff U_def W_def del: of_nat_unat)
  have gm: "int m = 2 * int g" "100 \<le> int g" "int g \<le> 261888" using m(1,4,5) by simp_all
  have c: "- int g < c" "c \<le> int g" unfolding c_def P_def k_def U_def using nearest_bounds [OF m(1), of "unat r"] m(4) by simp_all
  have low: "cval (low_bits m r) = c - (if k = M then 1 else 0)" unfolding dr(5) c_def P_def U_def ..
  have e: "- int g < cval z" "cval z < int g" using small m(1) by simp_all
  have "(of_int W :: zq) = of_int (U + cval z)"
    using elem_val_ops(1) [OF r z] unfolding elem_val_cval [of z] unfolding elem_val_def W_def U_def w_def
    by (simp only: of_int_add of_int_of_nat_eq)
  then have "8380417 dvd W - (U + cval z)" unfolding zq_of_int_eq_iff by (rule mod_eq_dvd_iff [THEN iffD1])
  then obtain j where "W - (U + cval z) = 8380417 * j" by (rule dvdE)
  then have j: "W = U + cval z + 8380417 * j" by simp
  have near: "int k' = n" if "0 \<le> n" "- int g < W - int m * n" "W - int m * n \<le> int g" for n
    using that m(4) unfolding W_def k'_def by (intro nearest_int [OF m(1)]) simp_all
  have PM: "k = M \<Longrightarrow> P = 8380416" using m(2) by (simp add: P_def mult.commute)
  have top: "c \<le> 0" if "k = M" using PM [OF that] x(2) c_def by simp
  have zero: "0 \<le> c" if "k = 0" using that x(1) c_def by (simp add: P_def)
  have step: "k' = k \<or> 0 \<le> c \<and> k' = k + 1 \<or> c < 0 \<and> int k' = int k - 1" if "j = 0"
  proof -
    have d: "W - int m * int k = c + cval z" "W - int m * (int k + 1) = c + cval z - int m" "W - int m * (int k - 1) = c + cval z + int m"
      using j that by (simp_all add: c_def P_def algebra_simps)
    show ?thesis
    proof (cases "- int g < c + cval z \<and> c + cval z \<le> int g")
      case True
      then have "int k' = int k" by (intro near) (simp_all add: d)
      then show ?thesis by simp
    next
      case False
      show ?thesis
      proof (cases "0 \<le> c")
        case True
        then have "int k' = int k + 1" using False e c gm(1) d(2) by (intro near) linarith+
        with True show ?thesis by simp
      next
        case neg: False
        then have "k \<noteq> 0" using zero by auto
        then have "int k' = int k - 1" using neg False e c gm(1) d(3) by (intro near) linarith+
        with neg show ?thesis by simp
      qed
    qed
  qed
  have wrap: "k mod M = k' mod M" if "j \<noteq> 0"
  proof -
    have "- 2 < j" "j < 2" using j x e gm by linarith+
    with that have "j = 1 \<or> j = - 1" by presburger
    then consider "j = 1" | "j = - 1" by blast
    then show ?thesis
    proof cases
      case 1
      then have W: "W = U + cval z + 8380417" using j by simp
      have "k = 0"
      proof (rule ccontr)
        assume "k \<noteq> 0"
        then have "int m * 1 \<le> P" unfolding P_def by (intro mult_left_mono) simp_all
        then show False using W x(4) e gm c c_def by simp
      qed
      moreover have "int k' = int M"
      proof (rule near)
        have "int m * int M = 8380416" using m(2) by (simp add: mult.commute)
        then show "- int g < W - int m * int M" "W - int m * int M \<le> int g" using W x e gm by linarith+
      qed simp
      ultimately show ?thesis by simp
    next
      case 2
      then have W: "W = U + cval z - 8380417" using j by simp
      have "k = M"
      proof (rule ccontr)
        assume "k \<noteq> M"
        then have "int k + 1 \<le> int M" using dr(4) by simp
        then have "int m * (int k + 1) \<le> int m * int M" by (intro mult_left_mono) simp_all
        then have "P + int m \<le> 8380416" using m(2) by (simp add: P_def distrib_left mult.commute [of "int M"])
        then show False using W x(3) e gm c c_def by simp
      qed
      moreover have "0 \<le> W" "W \<le> int g" using W x e by linarith+
      then have "int k' = 0" using gm by (intro near) simp_all
      ultimately show ?thesis by simp
    qed
  qed
  have hint: "make_hint m z r \<longleftrightarrow> k mod M \<noteq> k' mod M"
    unfolding make_hint_def Let_def w_def [symmetric] word_unat_eq_iff dr(3) dw(3) ..
  have high: "high_bits m w = of_nat (k' mod M)"
  proof -
    have "k' mod M < 2 ^ 32" using less_trans [OF mod_less_divisor [of M k'], of "2 ^ 32"] m(3,6) by simp
    then show ?thesis unfolding word_unat_eq_iff dw(3) by (simp add: unsigned_of_nat take_bit_nat_eq_self)
  qed
  show ?thesis
  proof (cases "k mod M = k' mod M")
    case True
    then show ?thesis unfolding use_hint_eq [OF ok r k_def m(7)] hint w_def [symmetric] high by simp
  next
    case False
    with wrap have "j = 0" by blast
    from step [OF this] False consider "0 \<le> c" "k' = k + 1" | "c < 0" "int k' = int k - 1" by auto
    then have "(if 0 \<le> cval (low_bits m r) then (k mod M + 1) mod M else (k mod M + M - 1) mod M) = k' mod M"
    proof cases
      case 1
      have "k \<noteq> M"
      proof
        assume "k = M"
        with dw(4) 1(2) show False by simp
      qed
      then show ?thesis using 1 low by (simp add: mod_Suc_eq)
    next
      case 2
      then have "k = k' + 1" by simp
      moreover have "(k mod M + M - 1) mod M = k' mod M"
      proof (cases "k = M")
        case True
        with \<open>k = k' + 1\<close> m(3) show ?thesis by (simp add: mod_if)
      next
        case False
        with dr(4) have "k < M" by simp
        with \<open>k = k' + 1\<close> show ?thesis by (simp add: mod_if)
      qed
      ultimately show ?thesis using 2 low by (simp split: if_splits)
    qed
    with False show ?thesis unfolding use_hint_eq [OF ok r k_def m(7)] hint w_def [symmetric] high by simp
  qed
qed

lemma use_hint_total:
  assumes "modulus_ok m" and "reduced r"
  shows "\<exists>v. use_hint m h r = Some v \<and> reduced v \<and> unat v < 8380416 div m"
proof -
  define M where "M = 8380416 div m"
  have M: "2 \<le> M" "M \<le> 1023" using modulus_facts [OF assms(1)] unfolding M_def by metis+
  define n where "n = (if h then if 0 \<le> cval (low_bits m r) then (nearest m (unat r) mod M + 1) mod M
    else (nearest m (unat r) mod M + M - 1) mod M else nearest m (unat r) mod M)"
  have "n < M" using M(1) by (simp add: n_def)
  moreover from this M(2) have "unat (of_nat n :: u32) = n" by (simp add: unsigned_of_nat take_bit_nat_eq_self)
  ultimately show ?thesis using M(2) unfolding use_hint_eq [OF assms refl M_def] M_def [symmetric] n_def [symmetric] by (simp add: reduced_iff)
qed

section \<open>Packing\<close>

definition row_indices :: "bool list \<Rightarrow> nat list" where
  "row_indices row = filter (\<lambda>j. row ! j) [0..<length row]"

fun cuts_from :: "nat \<Rightarrow> 'a list list \<Rightarrow> nat list" where
  "cuts_from n [] = []"
| "cuts_from n (l # ls) = (n + length l) # cuts_from (n + length l) ls"

lemma length_cuts [simp]: "length (cuts_from n ls) = length ls"
  by (induction ls arbitrary: n) simp_all

lemma cuts_Nil: "cuts_from n ls = [] \<longleftrightarrow> ls = []"
  by (cases ls) simp_all

lemma cuts_bounds: "c \<in> set (cuts_from n ls) \<Longrightarrow> n \<le> c \<and> c \<le> n + length (concat ls)"
  by (induction ls arbitrary: n) fastforce+

lemma cuts_sorted: "sorted (cuts_from n ls)"
  by (induction ls arbitrary: n) (auto dest: cuts_bounds)

lemma last_cut: "fold max (cuts_from n ls) n = n + length (concat ls)"
  by (induction ls arbitrary: n) (simp_all add: add.assoc)

lemma monotonic_sorted: "monotonic a \<longleftrightarrow> sorted a"
proof
  assume "monotonic a"
  then show "sorted a" unfolding sorted_iff_nth_Suc monotonic_def by (metis Suc_lessD diff_Suc_1 nat.distinct(1))
next
  assume "sorted a"
  then show "monotonic a" by (auto simp: monotonic_def intro: sorted_nth_mono)
qed

lemma sorted_row_indices: "sorted (row_indices row)"
  by (simp add: row_indices_def sorted_wrt_filter)

lemma set_row_indices: "set (row_indices row) = {j. j < length row \<and> row ! j}"
  by (auto simp: row_indices_def)

lemma length_row_indices: "length (row_indices row) = length (filter (\<lambda>b. b) row)"
  by (auto simp: row_indices_def length_filter_conv_card intro: arg_cong [of _ _ card])

lemma set_bits_nth:
  assumes "\<forall>j \<in> set l. j < 256"
  shows "set_bits_of l = map (\<lambda>j. j \<in> set l) [0..<256]"
proof -
  have "fold (\<lambda>j row. row[j := True]) l r = map (\<lambda>j. r ! j \<or> j \<in> set l) [0..<256]"
    if "length r = 256" "\<forall>j \<in> set l. j < 256" for r :: "bool list"
    using that
  proof (induction l arbitrary: r)
    case Nil
    then show ?case by (simp add: list_eq_iff_nth_eq)
  next
    case (Cons j l)
    then have "fold (\<lambda>j row. row[j := True]) (j # l) r = map (\<lambda>i. r[j := True] ! i \<or> i \<in> set l) [0..<256]" by simp
    also have "\<dots> = map (\<lambda>i. r ! i \<or> i \<in> set (j # l)) [0..<256]"
      using Cons.prems by (intro map_cong) (auto simp: nth_list_update)
    finally show ?case .
  qed
  then have "set_bits_of l = map (\<lambda>j. replicate 256 False ! j \<or> j \<in> set l) [0..<256]" using assms by (simp add: set_bits_of_def)
  then show ?thesis by (simp cong: map_cong)
qed

lemma set_bits_row: "length row = 256 \<Longrightarrow> set_bits_of (row_indices row) = row"
  by (subst set_bits_nth) (auto simp: set_row_indices list_eq_iff_nth_eq)

text \<open>Unpacking reads back any sorted lists of positions from their concatenation.\<close>

lemma unpack_lists:
  "\<forall>l \<in> set ls. sorted l \<Longrightarrow> unpack_rows (pre @ concat ls @ zs) (length pre) (cuts_from (length pre) ls) = Some (map set_bits_of ls)"
proof (induction ls arbitrary: pre)
  case (Cons l ls)
  have "sub_slice (length pre) (length pre + length l) (pre @ concat (l # ls) @ zs) = l" by (simp add: sub_slice_def)
  then show ?case using Cons.IH [of "pre @ l"] Cons.prems by (simp add: monotonic_sorted Let_def)
qed simp

lemma unpack_packed_lists:
  assumes "\<forall>l \<in> set ls. sorted l \<and> (\<forall>j \<in> set l. j < 256)" and "length (concat ls) \<le> omega" and "omega \<le> 255"
  shows "hint_bit_unpack omega (map of_nat (concat ls) @ replicate (omega - length (concat ls)) 0 @ map of_nat (cuts_from 0 ls))
    = Some (map set_bits_of ls)"
proof -
  define n where "n = length (concat ls)"
  define y where "y = map of_nat (concat ls) @ replicate (omega - n) 0 @ (map of_nat (cuts_from 0 ls) :: bytes)"
  have small: "map unat (map of_nat xs :: bytes) = xs" if "\<forall>x \<in> set xs. x < 256" for xs
    using that by (simp add: map_idI unsigned_of_nat take_bit_nat_eq_self)
  have ix: "map unat (take omega y) = concat ls @ replicate (omega - n) 0"
    using assms(1,2) small [of "concat ls"] by (simp add: y_def n_def del: map_map)
  have cuts: "map unat (drop omega y) = cuts_from 0 ls"
  proof -
    have "\<forall>x \<in> set (cuts_from 0 ls). x < 256" using cuts_bounds [of _ 0 ls] assms(2,3) by fastforce
    then show ?thesis using assms(2) small by (simp add: y_def n_def)
  qed
  have mx: "fold max (cuts_from 0 ls) 0 = n" using last_cut [of 0 ls] by (simp add: n_def)
  have zeros: "(max 0 ^^ i) (0 :: nat) = 0" for i by (induction i) simp_all
  have "unpack_rows (concat ls @ replicate (omega - n) 0) 0 (cuts_from 0 ls) = Some (map set_bits_of ls)"
    using unpack_lists [of ls "[]" "replicate (omega - n) 0"] assms(1) by simp
  then have "hint_bit_unpack omega y = Some (map set_bits_of ls)"
    using assms(2) unfolding hint_bit_unpack_def Let_def ix cuts mx monotonic_sorted by (simp add: cuts_sorted n_def [symmetric] zeros)
  then show ?thesis by (simp add: y_def n_def)
qed

text \<open>Packing writes the positions row by row, then the ends of the rows.\<close>

lemma pack_row_spec:
  assumes "length ys = index" and "index + length (filter (\<lambda>j. row ! j) js) \<le> index + length rest"
  shows "fold (pack_bit row) js (Some (ys @ rest, index))
    = Some (ys @ map of_nat (filter (\<lambda>j. row ! j) js) @ drop (length (filter (\<lambda>j. row ! j) js)) rest, index + length (filter (\<lambda>j. row ! j) js))"
  using assms
proof (induction js arbitrary: ys index rest)
  case (Cons j js)
  show ?case
  proof (cases "row ! j")
    case True
    then obtain r rest' where rest: "rest = r # rest'" using Cons.prems by (cases rest) auto
    have "(ys @ rest)[index := of_nat j] = (ys @ [of_nat j]) @ rest'" using Cons.prems(1) by (simp add: rest list_update_append)
    with True Cons.IH [of "ys @ [of_nat j]" "Suc index" rest'] Cons.prems show ?thesis by (simp add: pack_bit_def rest)
  next
    case False
    with Cons.IH [OF Cons.prems(1), of rest] Cons.prems(2) show ?thesis by (simp add: pack_bit_def)
  qed
qed simp

lemma pack_rows_spec:
  assumes "\<forall>row \<in> set rows. length row = 256" and "length ys = index" and "index + length (concat (map row_indices rows)) + length zs = omega"
    and "length (cuts :: bytes) = i" and "length (later :: bytes) = length rows"
  shows "pack_rows omega i rows (ys @ replicate (length (concat (map row_indices rows))) 0 @ zs @ cuts @ later) index
    = Some (ys @ map of_nat (concat (map row_indices rows)) @ zs @ cuts @ map of_nat (cuts_from index (map row_indices rows)))"
  using assms
proof (induction rows arbitrary: ys index cuts i later)
  case (Cons row rows)
  define js where "js = row_indices row"
  define n where "n = length (concat (map row_indices rows))"
  obtain l later' where later: "later = l # later'" using Cons.prems(5) by (cases later) auto
  have js: "filter (\<lambda>j. row ! j) [0..<256] = js" using Cons.prems(1) by (simp add: js_def row_indices_def)
  have fold: "fold (pack_bit row) [0..<256] (Some (ys @ replicate (length js + n) 0 @ zs @ cuts @ later, index))
      = Some (ys @ map of_nat js @ replicate n 0 @ zs @ cuts @ later, index + length js)"
    using pack_row_spec [of ys index row "[0..<256]" "replicate (length js + n) 0 @ zs @ cuts @ later"] Cons.prems(2)
    by (simp add: js)
  have pos: "omega + i = length (ys @ map of_nat js @ replicate n 0 @ zs @ cuts)"
    using Cons.prems by (simp add: js_def n_def)
  then have "(ys @ map of_nat js @ replicate n 0 @ zs @ cuts @ later)[omega + i := of_nat (index + length js)]
      = (ys @ map of_nat js) @ replicate n 0 @ zs @ (cuts @ [of_nat (index + length js)]) @ later'"
    using list_update_length [of "ys @ map of_nat js @ replicate n 0 @ zs @ cuts" l later' "of_nat (index + length js)"] by (simp add: later)
  moreover have "pack_rows omega (Suc i) rows ((ys @ map of_nat js) @ replicate n 0 @ zs @ (cuts @ [of_nat (index + length js)]) @ later') (index + length js)
      = Some ((ys @ map of_nat js) @ map of_nat (concat (map row_indices rows)) @ zs @ (cuts @ [of_nat (index + length js)])
        @ map of_nat (cuts_from (index + length js) (map row_indices rows)))"
    unfolding n_def using Cons.prems by (intro Cons.IH) (simp_all add: js_def later)
  ultimately show ?case using fold by (simp add: js_def [symmetric] n_def [symmetric])
qed simp

definition hint_ok :: "nat \<Rightarrow> nat \<Rightarrow> hint \<Rightarrow> bool" where
  "hint_ok K omega h \<longleftrightarrow> length h = K \<and> (\<forall>row \<in> set h. length row = 256) \<and> hamming_weight h \<le> omega"

lemma hamming_weight_concat: "hamming_weight h = length (concat (map row_indices h))"
  unfolding hamming_weight_def by (induction h) (simp_all add: length_row_indices)

lemma hint_bit_pack_eq:
  assumes "hint_ok K omega h"
  shows "hint_bit_pack omega h = Some (map of_nat (concat (map row_indices h)) @ replicate (omega - hamming_weight h) 0
    @ map of_nat (cuts_from 0 (map row_indices h)))"
proof -
  let ?n = "length (concat (map row_indices h))"
  have "replicate (omega + length h) 0 = [] @ replicate ?n 0 @ replicate (omega - ?n) 0 @ [] @ replicate (length h) (0 :: u8)"
    using assms by (simp add: hint_ok_def hamming_weight_concat flip: replicate_add)
  then have "hint_bit_pack omega h = pack_rows omega 0 h ([] @ replicate ?n 0 @ replicate (omega - ?n) 0 @ [] @ replicate (length h) 0) 0"
    unfolding hint_bit_pack_def by (simp only:)
  also have "\<dots> = Some ([] @ map of_nat (concat (map row_indices h)) @ replicate (omega - ?n) 0 @ [] @ map of_nat (cuts_from 0 (map row_indices h)))"
    using assms by (intro pack_rows_spec) (simp_all add: hint_ok_def hamming_weight_concat)
  finally show ?thesis by (simp add: hamming_weight_concat)
qed

lemma hint_round_trip:
  assumes h: "hint_ok K omega h" and "omega \<le> 255"
  obtains y where "hint_bit_pack omega h = Some y" "length y = omega + K" "hint_bit_unpack omega y = Some h"
proof -
  have rows: "\<forall>row \<in> set h. length row = 256" using h by (simp add: hint_ok_def)
  have "hint_bit_unpack omega (map of_nat (concat (map row_indices h)) @ replicate (omega - hamming_weight h) 0
      @ map of_nat (cuts_from 0 (map row_indices h))) = Some (map set_bits_of (map row_indices h))"
    using unpack_packed_lists [of "map row_indices h" omega] h assms(2) rows
    by (simp add: hint_ok_def hamming_weight_concat sorted_row_indices set_row_indices)
  moreover have "map set_bits_of (map row_indices h) = h" using rows by (simp add: map_idI set_bits_row)
  ultimately show thesis
    using that [OF hint_bit_pack_eq [OF h]] h by (simp add: hint_ok_def hamming_weight_concat)
qed

text \<open>A second packing of the same hint: the last position of the last row that has one is written twice. The check
  in \<open>bit_unpack\<close> lets equal neighbours pass.\<close>

lemma hint_repacked:
  assumes h: "hint_ok K omega h" and "omega \<le> 255" and "0 < hamming_weight h" "hamming_weight h < omega"
  obtains y y' where "hint_bit_pack omega h = Some y" "y' \<noteq> y" "length y' = length y" "hint_bit_unpack omega y' = Some h"
proof -
  have rows: "\<forall>row \<in> set h. length row = 256" using h by (simp add: hint_ok_def)
  have "concat (map row_indices h) \<noteq> []" using assms(3) by (simp add: hamming_weight_concat)
  then obtain row where row: "row \<in> set h" "row_indices row \<noteq> []" by (auto simp: concat_eq_Nil_conv)
  then obtain a b where ab: "h = a @ row # b" by (meson split_list)
  define js where "js = row_indices row"
  define ls where "ls = map row_indices a @ (js @ [last js]) # map row_indices b"
  define n where "n = hamming_weight h"
  have js: "js \<noteq> []" "\<forall>j \<in> set js. j < 256" "sorted js"
    using row rows by (auto simp: js_def set_row_indices sorted_row_indices)
  have len: "length (concat ls) = n + 1" by (simp add: ls_def n_def ab hamming_weight_concat js_def)
  have ok: "\<forall>l \<in> set ls. sorted l \<and> (\<forall>j \<in> set l. j < 256)"
  proof
    fix l assume "l \<in> set ls"
    then consider "l = js @ [last js]" | r where "r \<in> set h" "l = row_indices r" unfolding ls_def ab by auto
    then show "sorted l \<and> (\<forall>j \<in> set l. j < 256)"
    proof cases
      case 1
      have "sorted (butlast js @ [last js])" using js(1,3) by simp
      then have "\<forall>j \<in> set (butlast js). j \<le> last js" by (simp add: sorted_append)
      moreover have "set js = insert (last js) (set (butlast js))"
        using js(1) set_append [of "butlast js" "[last js]"] by simp
      ultimately have "\<forall>j \<in> set js. j \<le> last js" by simp
      with 1 js show ?thesis by (simp add: sorted_append)
    qed (use rows in \<open>auto simp: sorted_row_indices set_row_indices\<close>)
  qed
  define y' where "y' = map of_nat (concat ls) @ replicate (omega - (n + 1)) 0 @ (map of_nat (cuts_from 0 ls) :: bytes)"
  have "hint_bit_unpack omega y' = Some (map set_bits_of ls)"
    using unpack_packed_lists [OF ok] assms(2,4) len by (simp add: y'_def n_def)
  moreover have "map set_bits_of ls = h"
  proof -
    have "set_bits_of (js @ [last js]) = set_bits_of js"
      using js by (subst (1 2) set_bits_nth) (auto intro: last_in_set)
    then show ?thesis using rows unfolding ls_def ab js_def by (simp add: map_idI set_bits_row)
  qed
  ultimately have "hint_bit_unpack omega y' = Some h" by simp
  moreover obtain y where y: "hint_bit_pack omega h = Some y" "y = map of_nat (concat (map row_indices h)) @ replicate (omega - n) 0
      @ map of_nat (cuts_from 0 (map row_indices h))"
    using hint_bit_pack_eq [OF h] by (simp add: n_def)
  moreover have "length y' = length y"
    using len assms(4) by (simp add: y'_def y(2) ls_def ab hamming_weight_concat n_def)
  moreover have "y' \<noteq> y"
  proof
    assume "y' = y"
    have cut: "last (cuts_from 0 l) = length (concat l)" if "l \<noteq> []" for l :: "nat list list"
    proof -
      have "last (cuts_from m l) = m + length (concat l)" for m using that
        by (induction l arbitrary: m) (auto simp: add.assoc cuts_Nil)
      then show ?thesis by simp
    qed
    have ne: "cuts_from 0 ls \<noteq> []" "cuts_from 0 (map row_indices h) \<noteq> []" by (simp_all add: cuts_Nil ls_def ab)
    have "last y' = of_nat (n + 1)" unfolding y'_def using ne(1) cut [of ls] len by (simp add: last_map ls_def)
    moreover have "last y = of_nat n" unfolding y(2) using ne(2) cut [of "map row_indices h"] by (simp add: last_map ab n_def hamming_weight_concat)
    ultimately have "(of_nat (n + 1) :: u8) = of_nat n" using \<open>y' = y\<close> by simp
    then show False by simp
  qed
  ultimately show thesis using that by blast
qed

section \<open>Comparison with the standard\<close>

text \<open>\<open>UseHint\<close> of FIPS 204 (Algorithm 40), over the integers.\<close>

definition fips_use_hint :: "nat \<Rightarrow> bool \<Rightarrow> elem \<Rightarrow> nat" where
  "fips_use_hint two_gamma2 h r =
     (let m = 8380416 div two_gamma2; r1 = unat (high_bits two_gamma2 r); r0 = cval (low_bits two_gamma2 r) in
      if h \<and> 0 < r0 then (r1 + 1) mod m else if h \<and> r0 \<le> 0 then (r1 + m - 1) mod m else r1)"

text \<open>C40. A verifier recovers the signer's high bits: the hint made for a change below the rounding range,
  applied to the value before the change, gives the high bits after it; applying a hint never reaches the
  unreachable branch. It is the standard's \<open>UseHint\<close> except where a hint is set and the low part is
  zero: there the standard goes down and the code goes up.\<close>

theorem hints_recover_high_bits:
  assumes ok: "modulus_ok m" and r: "reduced r"
  shows "(\<forall>z. reduced z \<longrightarrow> \<bar>cval z\<bar> < int (m div 2) \<longrightarrow> use_hint m (make_hint m z r) r = Some (high_bits m (elem_add r z)))
    \<and> (\<exists>v. use_hint m h r = Some v \<and> (unat v = fips_use_hint m h r \<longleftrightarrow> \<not> (h \<and> cval (low_bits m r) = 0)))"
proof -
  define M where "M = 8380416 div m"
  define k where "k = nearest m (unat r)"
  have M: "3 \<le> M" "M \<le> 1023" using ok by (auto simp: M_def modulus_ok_def)
  have r1: "unat (high_bits m r) = k mod M" "k mod M < M" using decompose_spec(3) [OF ok r k_def M_def] M(1) by simp_all
  have word: "unat (of_nat n :: u32) = n" if "n < M" for n using that M(2) by (simp add: unsigned_of_nat take_bit_nat_eq_self)
  have wrap: "(j + 1) mod M \<noteq> (j + M - 1) mod M" if "j < M" for j
  proof (cases j)
    case 0
    then show ?thesis using M(1) by simp
  next
    case (Suc i)
    have "(j + M - 1) mod M = i" using that Suc by simp
    moreover have "(j + 1) mod M = (if j + 1 = M then 0 else j + 1)" using that by simp
    ultimately show ?thesis using Suc M(1) by (auto split: if_splits)
  qed
  have differ: "(k mod M + 1) mod M \<noteq> (k mod M + M - 1) mod M" using wrap [OF r1(2)] .
  have lt: "(k mod M + 1) mod M < M" "(k mod M + M - 1) mod M < M" using M(1) by simp_all
  have "\<exists>v. use_hint m h r = Some v \<and> (unat v = fips_use_hint m h r \<longleftrightarrow> \<not> (h \<and> cval (low_bits m r) = 0))"
  proof (cases h)
    case False
    then show ?thesis unfolding use_hint_eq [OF ok r k_def M_def] fips_use_hint_def Let_def M_def [symmetric] r1(1)
      using word [OF r1(2)] by simp
  next
    case True
    consider "0 < cval (low_bits m r)" | "cval (low_bits m r) = 0" | "cval (low_bits m r) < 0" by (rule linorder_cases)
    then show ?thesis unfolding use_hint_eq [OF ok r k_def M_def] fips_use_hint_def Let_def M_def [symmetric] r1(1)
      using True differ word [OF lt(1)] word [OF lt(2)] by cases simp_all
  qed
  then show ?thesis using use_make_hint [OF ok r] by blast
qed

theorem hints_recover_high_bits_witness:
  "use_hint 523776 (make_hint 523776 (elem_neg 70000) 523780) 523780 = Some (high_bits 523776 (elem_add 523780 (elem_neg 70000)))"
proof -
  have red: "reduced 523780" "reduced 70000" by (simp_all add: reduced_iff)
  then have neg: "reduced (elem_neg 70000)" by simp
  have "cval (elem_neg 70000) = - 70000" by (simp add: cval_def elem_neg_def small_reduce_def MLDSA_Q_def)
  with neg hints_recover_high_bits [of 523776 523780 True, THEN conjunct1] red(1) show ?thesis by (simp add: modulus_ok_def)
qed

end
