(* ===== verification/Mldsa_Core.thy ===== *)
theory Mldsa_Core
  imports Mldsa_Sample Mldsa_Hint
begin

text \<open>
  ML-DSA itself (\<open>mldsa_core/internal.rs\<close>, \<open>param.rs\<close> and the signature type of
  \<open>mldsa_core/mod.rs\<close>) for the three parameter sets, over any hash suite: key generation, signing with
  its rejection loop, verification, and the encodings of keys and signatures. \<open>None\<close> is a panic or
  a sampling loop that does not end.
\<close>

section \<open>Parameters\<close>

record params =
  par_k :: nat
  par_l :: nat
  par_eta :: eta
  par_gamma1 :: nat
  par_gamma2 :: nat
  par_w1_bits :: nat
  par_lambda :: nat
  par_omega :: nat
  par_tau :: nat

definition mldsa44 :: params where
  "mldsa44 = \<lparr>par_k = 4, par_l = 4, par_eta = EtaTwo, par_gamma1 = 2 ^ 17, par_gamma2 = 8380416 div 88,
     par_w1_bits = bit_length (88 div 2 - 1), par_lambda = 32, par_omega = 80, par_tau = 39\<rparr>"

definition mldsa65 :: params where
  "mldsa65 = \<lparr>par_k = 6, par_l = 5, par_eta = EtaFour, par_gamma1 = 2 ^ 19, par_gamma2 = 8380416 div 32,
     par_w1_bits = bit_length (32 div 2 - 1), par_lambda = 48, par_omega = 55, par_tau = 49\<rparr>"

definition mldsa87 :: params where
  "mldsa87 = \<lparr>par_k = 8, par_l = 7, par_eta = EtaTwo, par_gamma1 = 2 ^ 19, par_gamma2 = 8380416 div 32,
     par_w1_bits = bit_length (32 div 2 - 1), par_lambda = 64, par_omega = 75, par_tau = 60\<rparr>"

definition two_gamma2 :: "params \<Rightarrow> nat" where "two_gamma2 p = 2 * par_gamma2 p"
definition par_beta :: "params \<Rightarrow> nat" where "par_beta p = par_tau p * eta_value (par_eta p)"
definition gamma1_minus_beta :: "params \<Rightarrow> u32" where "gamma1_minus_beta p = of_nat (par_gamma1 p - par_beta p)"
definition gamma2_minus_beta :: "params \<Rightarrow> u32" where "gamma2_minus_beta p = of_nat (par_gamma2 p - par_beta p)"

section \<open>Encodings of the parts\<close>

definition eta_bits :: "params \<Rightarrow> nat" where
  "eta_bits p = range_bits (eta_value (par_eta p)) (eta_value (par_eta p))"
definition z_bits :: "params \<Rightarrow> nat" where "z_bits p = range_bits (par_gamma1 p - 1) (par_gamma1 p)"

definition encode_s :: "params \<Rightarrow> vec \<Rightarrow> bytes option" where
  "encode_s p s = vec_pack (eta_value (par_eta p)) (eta_value (par_eta p)) s"
definition decode_s :: "params \<Rightarrow> bytes \<Rightarrow> vec option" where
  "decode_s p enc = vec_unpack (eta_value (par_eta p)) (eta_value (par_eta p)) enc"
definition encode_t0 :: "vec \<Rightarrow> bytes option" where "encode_t0 t0 = vec_pack (2 ^ 12 - 1) (2 ^ 12) t0"
definition decode_t0 :: "bytes \<Rightarrow> vec option" where "decode_t0 enc = vec_unpack (2 ^ 12 - 1) (2 ^ 12) enc"
definition encode_t1 :: "vec \<Rightarrow> bytes" where "encode_t1 t1 = vec_encode 10 t1"
definition decode_t1 :: "bytes \<Rightarrow> vec" where "decode_t1 enc = vec_decode 10 enc"
definition encode_w1 :: "params \<Rightarrow> vec \<Rightarrow> bytes" where "encode_w1 p w1 = vec_encode (par_w1_bits p) w1"
definition encode_z :: "params \<Rightarrow> vec \<Rightarrow> bytes option" where "encode_z p z = vec_pack (par_gamma1 p - 1) (par_gamma1 p) z"
definition decode_z :: "params \<Rightarrow> bytes \<Rightarrow> vec option" where "decode_z p enc = vec_unpack (par_gamma1 p - 1) (par_gamma1 p) enc"

definition signing_key_size :: "params \<Rightarrow> nat" where
  "signing_key_size p = 128 + par_l p * (32 * eta_bits p) + par_k p * (32 * eta_bits p) + par_k p * (32 * 13)"
definition verifying_key_size :: "params \<Rightarrow> nat" where "verifying_key_size p = 32 + par_k p * (32 * 10)"
definition signature_size :: "params \<Rightarrow> nat" where
  "signature_size p = par_lambda p + par_l p * (32 * z_bits p) + (par_omega p + par_k p)"

section \<open>Keys\<close>

record signing_key_data =
  sd_rho :: bytes
  sd_K :: bytes
  sd_tr :: bytes
  sd_s1 :: vec
  sd_s2 :: vec
  sd_t0 :: vec
  sd_s1_hat :: vec
  sd_s2_hat :: vec
  sd_t0_hat :: vec
  sd_A_hat :: matrix

record verifying_key_data =
  vd_rho :: bytes
  vd_t1 :: vec
  vd_A_hat :: matrix
  vd_t1_2d_hat :: vec
  vd_tr :: bytes

definition new_signing_key ::
  "params \<Rightarrow> ('g, 'h) hash_suite \<Rightarrow> bytes \<Rightarrow> bytes \<Rightarrow> bytes \<Rightarrow> vec \<Rightarrow> vec \<Rightarrow> vec \<Rightarrow> matrix option \<Rightarrow> signing_key_data option" where
  "new_signing_key p S rho K tr s1 s2 t0 A_hat =
     Option.bind (case A_hat of Some A \<Rightarrow> Some A | None \<Rightarrow> expand_a (suite_G S) (par_k p) (par_l p) rho) (\<lambda>A_hat.
       Some \<lparr>sd_rho = rho, sd_K = K, sd_tr = tr, sd_s1 = s1, sd_s2 = s2, sd_t0 = t0,
         sd_s1_hat = vec_ntt s1, sd_s2_hat = vec_ntt s2, sd_t0_hat = vec_ntt t0, sd_A_hat = A_hat\<rparr>)"

definition encode_vk_parts :: "bytes \<Rightarrow> vec \<Rightarrow> bytes" where "encode_vk_parts rho t1 = rho @ encode_t1 t1"

definition new_verifying_key ::
  "params \<Rightarrow> ('g, 'h) hash_suite \<Rightarrow> bytes \<Rightarrow> vec \<Rightarrow> matrix option \<Rightarrow> bytes option \<Rightarrow> verifying_key_data option" where
  "new_verifying_key p S rho t1 A_hat enc =
     Option.bind (case A_hat of Some A \<Rightarrow> Some A | None \<Rightarrow> expand_a (suite_G S) (par_k p) (par_l p) rho) (\<lambda>A_hat.
       let enc = (case enc of Some e \<Rightarrow> e | None \<Rightarrow> encode_vk_parts rho t1);
           t1_2d_hat = vec_ntt (vec_scale (push_bit 13 1) t1) in
       Option.bind (absorb_all (suite_H S) [enc]) (\<lambda>h. let tr = fst (squeeze_new (suite_H S) h 64) in
       Some \<lparr>vd_rho = rho, vd_t1 = t1, vd_A_hat = A_hat, vd_t1_2d_hat = t1_2d_hat, vd_tr = tr\<rparr>))"

definition mldsa_key_gen :: "params \<Rightarrow> ('g, 'h) hash_suite \<Rightarrow> bytes \<Rightarrow> (signing_key_data \<times> verifying_key_data) option" where
  "mldsa_key_gen p S seed =
     Option.bind (absorb_all (suite_H S) [seed, [of_nat (par_k p)], [of_nat (par_l p)]]) (\<lambda>h.
       let (rho, h) = squeeze_new (suite_H S) h 32; (rhop, h) = squeeze_new (suite_H S) h 64; (K, h) = squeeze_new (suite_H S) h 32 in
     Option.bind (expand_a (suite_G S) (par_k p) (par_l p) rho) (\<lambda>A_hat.
     Option.bind (expand_s (suite_H S) (par_l p) rhop (par_eta p) 0) (\<lambda>s1.
     Option.bind (expand_s (suite_H S) (par_k p) rhop (par_eta p) (par_l p)) (\<lambda>s2.
       let As1_hat = matrix_mul A_hat (vec_ntt s1); t = vec_add (vec_ntt_inverse As1_hat) s2; (t1, t0) = vec_power2round t in
     Option.bind (new_verifying_key p S rho t1 (Some A_hat) None) (\<lambda>vk.
     map_option (\<lambda>sk. (sk, vk)) (new_signing_key p S rho K (vd_tr vk) s1 s2 t0 (Some A_hat)))))))"

definition derive_verifying_key :: "params \<Rightarrow> ('g, 'h) hash_suite \<Rightarrow> signing_key_data \<Rightarrow> verifying_key_data option" where
  "derive_verifying_key p S sk =
     (let As1 = matrix_mul (sd_A_hat sk) (sd_s1_hat sk); t = vec_add (vec_ntt_inverse As1) (sd_s2 sk); (t1, t0) = vec_power2round t in
      new_verifying_key p S (sd_rho sk) t1 (Some (sd_A_hat sk)) None)"

definition encode_signing_key :: "params \<Rightarrow> signing_key_data \<Rightarrow> bytes option" where
  "encode_signing_key p sk =
     Option.bind (encode_s p (sd_s1 sk)) (\<lambda>s1_enc. Option.bind (encode_s p (sd_s2 sk)) (\<lambda>s2_enc.
     Option.bind (encode_t0 (sd_t0 sk)) (\<lambda>t0_enc.
       Some (sd_rho sk @ sd_K sk @ sd_tr sk @ s1_enc @ s2_enc @ t0_enc))))"

definition decode_signing_key :: "params \<Rightarrow> ('g, 'h) hash_suite \<Rightarrow> bytes \<Rightarrow> signing_key_data option" where
  "decode_signing_key p S enc =
     (let s1_end = 128 + par_l p * (32 * eta_bits p); s2_end = s1_end + par_k p * (32 * eta_bits p) in
      Option.bind (decode_s p (sub_slice 128 s1_end enc)) (\<lambda>s1. Option.bind (decode_s p (sub_slice s1_end s2_end enc)) (\<lambda>s2.
      Option.bind (decode_t0 (drop s2_end enc)) (\<lambda>t0.
        new_signing_key p S (sub_slice 0 32 enc) (sub_slice 32 64 enc) (sub_slice 64 128 enc) s1 s2 t0 None))))"

definition encode_verifying_key :: "verifying_key_data \<Rightarrow> bytes" where
  "encode_verifying_key vk = encode_vk_parts (vd_rho vk) (vd_t1 vk)"

definition decode_verifying_key :: "params \<Rightarrow> ('g, 'h) hash_suite \<Rightarrow> bytes \<Rightarrow> verifying_key_data option" where
  "decode_verifying_key p S enc =
     (let rho = take 32 enc; t1_enc = drop 32 enc; t1 = decode_t1 t1_enc in new_verifying_key p S rho t1 None (Some enc))"

section \<open>Signatures\<close>

record mldsa_sig =
  ms_c_tilde :: bytes
  ms_z :: vec
  ms_h :: hint

definition sig_encode :: "params \<Rightarrow> mldsa_sig \<Rightarrow> bytes option" where
  "sig_encode p sigma = Option.bind (encode_z p (ms_z sigma)) (\<lambda>z. Option.bind (hint_bit_pack (par_omega p) (ms_h sigma)) (\<lambda>h.
     Some (ms_c_tilde sigma @ z @ h)))"

text \<open>\<open>Some None\<close> is a signature that is refused, \<open>None\<close> the failed assertion of the decoder.\<close>

definition sig_decode :: "params \<Rightarrow> bytes \<Rightarrow> mldsa_sig option option" where
  "sig_decode p enc =
     (let z_end = par_lambda p + par_l p * (32 * z_bits p); c_tilde = take (par_lambda p) enc in
      Option.bind (decode_z p (sub_slice (par_lambda p) z_end enc)) (\<lambda>z.
        Some (case hint_bit_unpack (par_omega p) (drop z_end enc) of None \<Rightarrow> None
          | Some h \<Rightarrow> if gamma1_minus_beta p \<le> vec_norm z then None else Some \<lparr>ms_c_tilde = c_tilde, ms_z = z, ms_h = h\<rparr>)))"

definition message_representative :: "'h hash_state \<Rightarrow> bytes \<Rightarrow> bytes list list \<Rightarrow> bytes option" where
  "message_representative H tr Mp =
     Option.bind (absorb_all H (tr # concat Mp)) (\<lambda>h. Some (fst (squeeze_new H h 64)))"

text \<open>One pass of the rejection loop: \<open>Some None\<close> continues.\<close>

definition sign_attempt :: "params \<Rightarrow> ('g, 'h) hash_suite \<Rightarrow> signing_key_data \<Rightarrow> bytes \<Rightarrow> bytes \<Rightarrow> u16 \<Rightarrow> mldsa_sig option option" where
  "sign_attempt p S sk mu rhopp kappa =
     Option.bind (expand_mask (suite_H S) (par_l p) (par_gamma1 p) rhopp kappa) (\<lambda>y.
       let w = vec_ntt_inverse (matrix_mul (sd_A_hat sk) (vec_ntt y)); w1 = vec_high_bits (two_gamma2 p) w;
           w1_tilde = encode_w1 p w1 in
     Option.bind (absorb_all (suite_H S) [mu, w1_tilde]) (\<lambda>h. let c_tilde = fst (squeeze_new (suite_H S) h (par_lambda p)) in
     Option.bind (sample_in_ball (suite_H S) c_tilde (par_tau p)) (\<lambda>c.
       let c_hat = ntt c;
           cs1 = vec_ntt_inverse (ntt_vec_scale c_hat (sd_s1_hat sk)); cs2 = vec_ntt_inverse (ntt_vec_scale c_hat (sd_s2_hat sk));
           z = vec_add y cs1; r0 = vec_low_bits (two_gamma2 p) (vec_sub w cs2) in
       if gamma1_minus_beta p \<le> vec_norm z \<or> gamma2_minus_beta p \<le> vec_norm r0 then Some None
       else
         let ct0 = vec_ntt_inverse (ntt_vec_scale c_hat (sd_t0_hat sk)); minus_ct0 = vec_neg ct0;
             w_cs2_ct0 = vec_add (vec_sub w cs2) ct0; h = hint_new (two_gamma2 p) minus_ct0 w_cs2_ct0 in
         if of_nat (par_gamma2 p) \<le> vec_norm ct0 \<or> par_omega p < hamming_weight h then Some None
         else Some (Some \<lparr>ms_c_tilde = c_tilde, ms_z = vec_mod_plus_minus 8380417 z, ms_h = h\<rparr>))))"

text \<open>After the last counter the code reaches \<open>unreachable!\<close>.\<close>

fun sign_loop :: "params \<Rightarrow> ('g, 'h) hash_suite \<Rightarrow> signing_key_data \<Rightarrow> bytes \<Rightarrow> bytes \<Rightarrow> u16 list \<Rightarrow> mldsa_sig option" where
  "sign_loop p S sk mu rhopp [] = None"
| "sign_loop p S sk mu rhopp (kappa # kappas) =
     Option.bind (sign_attempt p S sk mu rhopp kappa) (\<lambda>r. case r of None \<Rightarrow> sign_loop p S sk mu rhopp kappas | Some s \<Rightarrow> Some s)"

definition sign_mu :: "params \<Rightarrow> ('g, 'h) hash_suite \<Rightarrow> signing_key_data \<Rightarrow> bytes \<Rightarrow> bytes \<Rightarrow> mldsa_sig option" where
  "sign_mu p S sk mu rnd =
     Option.bind (absorb_all (suite_H S) [sd_K sk, rnd, mu]) (\<lambda>h. let rhopp = fst (squeeze_new (suite_H S) h 64) in
       sign_loop p S sk mu rhopp (map of_nat (step_by 65535 (par_l p))))"

definition sign_internal :: "params \<Rightarrow> ('g, 'h) hash_suite \<Rightarrow> signing_key_data \<Rightarrow> bytes list list \<Rightarrow> bytes \<Rightarrow> mldsa_sig option" where
  "sign_internal p S sk Mp rnd = Option.bind (message_representative (suite_H S) (sd_tr sk) Mp) (\<lambda>mu. sign_mu p S sk mu rnd)"

definition verify_mu :: "params \<Rightarrow> ('g, 'h) hash_suite \<Rightarrow> verifying_key_data \<Rightarrow> bytes \<Rightarrow> mldsa_sig \<Rightarrow> bool option" where
  "verify_mu p S vk mu sigma =
     Option.bind (sample_in_ball (suite_H S) (ms_c_tilde sigma) (par_tau p)) (\<lambda>c.
       let z_hat = vec_ntt (ms_z sigma); c_hat = ntt c; Az_hat = matrix_mul (vd_A_hat vk) z_hat;
           ct1_2d_hat = ntt_vec_scale c_hat (vd_t1_2d_hat vk); wp_approx = vec_ntt_inverse (ntt_vec_sub Az_hat ct1_2d_hat) in
     Option.bind (hint_use (two_gamma2 p) (ms_h sigma) wp_approx) (\<lambda>w1p.
     Option.bind (absorb_all (suite_H S) [mu, encode_w1 p w1p]) (\<lambda>h.
       let cp_tilde = fst (squeeze_new (suite_H S) h (par_lambda p)) in Some (ms_c_tilde sigma = cp_tilde))))"

definition verify_internal :: "params \<Rightarrow> ('g, 'h) hash_suite \<Rightarrow> verifying_key_data \<Rightarrow> bytes list list \<Rightarrow> mldsa_sig \<Rightarrow> bool option" where
  "verify_internal p S vk Mp sigma = Option.bind (message_representative (suite_H S) (vd_tr vk) Mp) (\<lambda>mu. verify_mu p S vk mu sigma)"

section \<open>Facts about the parameters\<close>

definition params_ok :: "params \<Rightarrow> bool" where "params_ok p \<longleftrightarrow> p \<in> {mldsa44, mldsa65, mldsa87}"

lemma params_facts:
  assumes "params_ok p"
  shows "modulus_ok (two_gamma2 p)" "two_gamma2 p div 2 = par_gamma2 p" "range_ok (eta_value (par_eta p)) (eta_value (par_eta p))"
    "range_ok (par_gamma1 p - 1) (par_gamma1 p)" "par_tau p \<le> 256" "par_beta p \<le> 196" "par_beta p < par_gamma2 p" "par_beta p < par_gamma1 p"
    "par_gamma1 p \<le> 524288" "par_gamma2 p \<le> 261888" "par_omega p \<le> 255" "0 < par_l p" "0 < par_k p" "par_k p \<le> 8" "par_l p \<le> 7"
  using assms unfolding params_ok_def
  by (auto simp: mldsa44_def mldsa65_def mldsa87_def two_gamma2_def modulus_ok_def range_ok_def par_beta_def)

lemma beta_words:
  assumes "params_ok p"
  shows "unat (gamma1_minus_beta p) = par_gamma1 p - par_beta p" "0 < gamma1_minus_beta p"
    "unat (gamma2_minus_beta p) = par_gamma2 p - par_beta p" "0 < gamma2_minus_beta p"
    "unat (of_nat (par_gamma2 p) :: u32) = par_gamma2 p" "(0 :: u32) < of_nat (par_gamma2 p)"
proof -
  note f = params_facts [OF assms]
  show u: "unat (gamma1_minus_beta p) = par_gamma1 p - par_beta p" "unat (gamma2_minus_beta p) = par_gamma2 p - par_beta p"
    "unat (of_nat (par_gamma2 p) :: u32) = par_gamma2 p"
    unfolding gamma1_minus_beta_def gamma2_minus_beta_def by (rule unat_of_nat_small, use f in simp)+
  show "0 < gamma1_minus_beta p" "0 < gamma2_minus_beta p" "(0 :: u32) < of_nat (par_gamma2 p)"
    using f unfolding word_less_nat_alt u by simp_all
qed

section \<open>Well-formed keys and signatures\<close>

text \<open>\<open>t\<close> of a signing key, recomputed from its transformed parts.\<close>

definition key_t :: "signing_key_data \<Rightarrow> vec" where
  "key_t sk = vec_add (vec_ntt_inverse (matrix_mul (sd_A_hat sk) (sd_s1_hat sk))) (sd_s2 sk)"

definition signing_key_ok :: "params \<Rightarrow> ('g, 'h) hash_suite \<Rightarrow> signing_key_data \<Rightarrow> bool" where
  "signing_key_ok p S sk \<longleftrightarrow>
     (let e = eta_value (par_eta p) in
      expand_a (suite_G S) (par_k p) (par_l p) (sd_rho sk) = Some (sd_A_hat sk) \<and>
      length (sd_rho sk) = 32 \<and> length (sd_K sk) = 32 \<and> length (sd_tr sk) = 64 \<and>
      length (sd_s1 sk) = par_l p \<and> list_all (in_range e e) (sd_s1 sk) \<and> length (sd_s2 sk) = par_k p \<and> list_all (in_range e e) (sd_s2 sk) \<and>
      sd_t0 sk = snd (vec_power2round (key_t sk)) \<and>
      sd_s1_hat sk = vec_ntt (sd_s1 sk) \<and> sd_s2_hat sk = vec_ntt (sd_s2 sk) \<and> sd_t0_hat sk = vec_ntt (sd_t0 sk) \<and>
      map_option vd_tr (derive_verifying_key p S sk) = Some (sd_tr sk))"

lemma in_range_vec: "length v = n \<Longrightarrow> list_all (in_range a b) v \<Longrightarrow> vec_ok n v"
  by (auto simp: vec_ok_def list_all_iff in_range_def)

lemma signing_key_parts:
  assumes "signing_key_ok p S sk"
  shows "matrix_ok (par_k p) (par_l p) (sd_A_hat sk)" "vec_ok (par_l p) (sd_s1 sk)" "vec_ok (par_k p) (sd_s2 sk)"
    "vec_ok (par_k p) (key_t sk)" "sd_s1_hat sk = vec_ntt (sd_s1 sk)" "sd_s2_hat sk = vec_ntt (sd_s2 sk)" "sd_t0_hat sk = vec_ntt (sd_t0 sk)"
proof -
  show A: "matrix_ok (par_k p) (par_l p) (sd_A_hat sk)" using assms expand_a_ok by (auto simp: signing_key_ok_def Let_def)
  show s: "vec_ok (par_l p) (sd_s1 sk)" "vec_ok (par_k p) (sd_s2 sk)" using assms in_range_vec by (auto simp: signing_key_ok_def Let_def)
  show h: "sd_s1_hat sk = vec_ntt (sd_s1 sk)" "sd_s2_hat sk = vec_ntt (sd_s2 sk)" "sd_t0_hat sk = vec_ntt (sd_t0 sk)"
    using assms by (simp_all add: signing_key_ok_def Let_def)
  show "vec_ok (par_k p) (key_t sk)"
    unfolding key_t_def h(1) using A s by (intro vec_ops_ok vec_ntt_ok matrix_mul_ok)
qed

lemma power2round_vec:
  assumes t: "vec_ok n t"
  shows "vec_ok n (fst (vec_power2round t))" "vec_ok n (snd (vec_power2round t))"
    "i < n \<Longrightarrow> poly_add (poly_scale 8192 (fst (vec_power2round t) ! i)) (snd (vec_power2round t) ! i) = t ! i"
    "i < n \<Longrightarrow> fits 10 (fst (vec_power2round t) ! i)" "i < n \<Longrightarrow> in_range 4095 4096 (snd (vec_power2round t) ! i)"
proof -
  have ti: "poly_ok (t ! i)" if "i < n" for i using vec_okD(2) [OF t that] .
  have nth: "fst (vec_power2round t) ! i = map (\<lambda>x. fst (power2round x)) (t ! i)" "snd (vec_power2round t) ! i = map (\<lambda>x. snd (power2round x)) (t ! i)"
    if "i < n" for i
    using that vec_okD(1) [OF t] by (simp_all add: vec_power2round_def poly_power2round_def)
  note sp = power2round_spec [OF poly_okD(2) [OF ti]]
  have ok: "poly_ok (fst (vec_power2round t) ! i)" "poly_ok (snd (vec_power2round t) ! i)" if "i < n" for i
    using sp(1,2) [OF that] poly_okD(1) [OF ti [OF that]] by (auto simp: nth [OF that] intro!: poly_okI)
  show v: "vec_ok n (fst (vec_power2round t))" "vec_ok n (snd (vec_power2round t))"
    using ok vec_okD(1) [OF t] by (auto intro!: vec_okI simp: vec_power2round_def)
  assume i: "i < n"
  have red: "reduced 8192" by (simp add: reduced_iff)
  show "poly_add (poly_scale 8192 (fst (vec_power2round t) ! i)) (snd (vec_power2round t) ! i) = t ! i"
  proof (rule poly_eqI)
    show "poly_ok (poly_add (poly_scale 8192 (fst (vec_power2round t) ! i)) (snd (vec_power2round t) ! i))" "poly_ok (t ! i)"
      using ok [OF i] red ti [OF i] by simp_all
    fix j :: nat assume j: "j < 256"
    have len: "length (t ! i) = 256" by (rule poly_okD(1) [OF ti [OF i]])
    have "elem_val (t ! i ! j) = of_int (8192 * int (unat (fst (power2round (t ! i ! j)))) + cval (snd (power2round (t ! i ! j))))"
      unfolding elem_val_def sp(6) [OF i j, symmetric] by (simp only: of_int_of_nat_eq)
    also have "\<dots> = 8192 * elem_val (fst (power2round (t ! i ! j))) + elem_val (snd (power2round (t ! i ! j)))"
      by (simp add: elem_val_def [of "fst (power2round (t ! i ! j))"] elem_val_cval [of "snd (power2round (t ! i ! j))"] del: of_nat_unat)
    finally show "coef (poly_add (poly_scale 8192 (fst (vec_power2round t) ! i)) (snd (vec_power2round t) ! i)) j = coef (t ! i) j"
      using ok [OF i] red j len i by (simp add: coef_ops) (simp add: coef_def nth elem_val_def [of 8192])
  qed
  show "fits 10 (fst (vec_power2round t) ! i)"
    using sp(3) [OF i] poly_okD(1) [OF ti [OF i]] by (auto simp: fits_def nth [OF i] in_set_conv_nth)
  show "in_range 4095 4096 (snd (vec_power2round t) ! i)"
  proof -
    have "- 4095 \<le> cval (snd (power2round (t ! i ! j)))" if "j < 256" for j using sp(4) [OF i that] by linarith
    then show ?thesis unfolding in_range_def using sp(5) [OF i] ok(2) [OF i] poly_okD(1) [OF ti [OF i]] by (simp add: nth [OF i])
  qed
qed

section \<open>The equation behind verification\<close>

lemma ntt_vec_scale_product:
  assumes "poly_ok c" and "vec_ok n s" and "i < n"
  shows "vec_ntt_inverse (ntt_vec_scale (ntt c) (vec_ntt s)) ! i = negacyclic_mult c (s ! i)"
  using assms by (simp add: vec_ntt_nth [of n] vec_ops_nth [of n] ntt_negacyclic [symmetric] negacyclic_mult_spec(1) vec_okD)

lemma move_across:
  fixes x :: "'a::comm_ring"
  assumes "t1 + t0 = u + s2"
  shows "x + c * u - c * t1 = x - c * s2 + c * t0"
proof -
  have "u - t1 = t0 - s2" using assms by (simp add: algebra_simps)
  then have "c * (u - t1) = c * (t0 - s2)" by (rule arg_cong)
  then show ?thesis by (simp add: right_diff_distrib algebra_simps)
qed

text \<open>\<open>A z - c t1 2^d = w - c s2 + c t0\<close> for \<open>z = y + c s1\<close>, row by row.\<close>

lemma verification_equation:
  assumes sk: "signing_key_ok p S sk" and y: "vec_ok (par_l p) y" and c: "poly_ok c"
  defines "w \<equiv> vec_ntt_inverse (matrix_mul (sd_A_hat sk) (vec_ntt y))"
    and "cs1 \<equiv> vec_ntt_inverse (ntt_vec_scale (ntt c) (sd_s1_hat sk))"
    and "cs2 \<equiv> vec_ntt_inverse (ntt_vec_scale (ntt c) (sd_s2_hat sk))"
    and "ct0 \<equiv> vec_ntt_inverse (ntt_vec_scale (ntt c) (sd_t0_hat sk))"
    and "t1_hat \<equiv> vec_ntt (vec_scale 8192 (fst (vec_power2round (key_t sk))))"
  shows "vec_ok (par_k p) w" "vec_ok (par_l p) cs1" "vec_ok (par_k p) cs2" "vec_ok (par_k p) ct0"
    "vec_ntt_inverse (ntt_vec_sub (matrix_mul (sd_A_hat sk) (vec_ntt (vec_add y cs1))) (ntt_vec_scale (ntt c) t1_hat)) = vec_add (vec_sub w cs2) ct0"
proof -
  let ?k = "par_k p" and ?l = "par_l p"
  note parts = signing_key_parts [OF sk]
  have t0: "vec_ok ?k (sd_t0 sk)" "sd_t0 sk = snd (vec_power2round (key_t sk))"
    using sk power2round_vec(2) [OF parts(4)] by (simp_all add: signing_key_ok_def Let_def)
  define t1 where "t1 = vec_scale 8192 (fst (vec_power2round (key_t sk)))"
  have red: "reduced 8192" by (simp add: reduced_iff)
  have t1: "vec_ok ?k t1" unfolding t1_def by (rule vec_ops_ok(4) [OF power2round_vec(1) [OF parts(4)] red])
  have t: "poly_add (t1 ! i) (sd_t0 sk ! i) = key_t sk ! i" if "i < ?k" for i
    using power2round_vec(3) [OF parts(4) that] that by (simp add: t1_def t0(2) vec_ops_nth(4) [OF power2round_vec(1) [OF parts(4)]])
  have cn: "poly_ok (ntt c)" using c by simp
  show w: "vec_ok ?k w" unfolding w_def using parts(1) y by (intro vec_ntt_ok matrix_mul_ok)
  show cs1: "vec_ok ?l cs1" unfolding cs1_def parts(5) using parts(2) cn by (intro vec_ntt_ok vec_ops_ok)
  show cs2: "vec_ok ?k cs2" unfolding cs2_def parts(6) using parts(3) cn by (intro vec_ntt_ok vec_ops_ok)
  show ct0: "vec_ok ?k ct0" unfolding ct0_def parts(7) using t0(1) cn by (intro vec_ntt_ok vec_ops_ok)
  let ?z = "vec_add y cs1"
  have z: "vec_ok ?l ?z" using y cs1 by (rule vec_ops_ok)
  have Az: "vec_ok ?k (matrix_mul (sd_A_hat sk) (vec_ntt ?z))" using parts(1) z by (intro vec_ntt_ok matrix_mul_ok)
  have ct1: "vec_ok ?k (ntt_vec_scale (ntt c) t1_hat)" unfolding t1_hat_def t1_def [symmetric] using t1 cn by (intro vec_ntt_ok vec_ops_ok)
  have zj: "coef (ntt (?z ! j)) b = coef (ntt (y ! j)) b + coef (ntt c) b * coef (ntt (sd_s1 sk ! j)) b" if "j < ?l" "b < 256" for j b
  proof -
    have "?z ! j = poly_add (y ! j) (cs1 ! j)" by (rule vec_ops_nth(1) [OF y cs1 that(1)])
    moreover have "cs1 ! j = ntt_inverse (ntt_mul (ntt c) (ntt (sd_s1 sk ! j)))"
      using parts(2) cn that(1) unfolding cs1_def parts(5) by (simp add: vec_ntt_nth [of ?l] vec_ops_nth [of ?l])
    ultimately show ?thesis
      using vec_okD(2) [OF y that(1)] vec_okD(2) [OF parts(2) that(1)] cn that(2) by (simp add: ntt_linear)
  qed
  have row: "vec_ok ?l (sd_A_hat sk ! i)" if "i < ?k" for i using matrix_okD(2) [OF parts(1) that] .
  have dot: "coef (ntt_dot (sd_A_hat sk ! i) (vec_ntt v)) b = (\<Sum>j < ?l. coef (sd_A_hat sk ! i ! j) b * coef (ntt (v ! j)) b)"
    if "i < ?k" "b < 256" "vec_ok ?l v" for i b v
    using coef_ntt_dot [OF row [OF that(1)] vec_ntt_ok(1) [OF that(3)] that(2)] that(3) by (simp add: vec_ntt_nth [of ?l])
  have tb: "coef (ntt (t1 ! i)) b + coef (ntt (sd_t0 sk ! i)) b = (\<Sum>j < ?l. coef (sd_A_hat sk ! i ! j) b * coef (ntt (sd_s1 sk ! j)) b) + coef (ntt (sd_s2 sk ! i)) b"
    if "i < ?k" "b < 256" for i b
  proof -
    have "coef (ntt (t1 ! i)) b + coef (ntt (sd_t0 sk ! i)) b = coef (ntt (key_t sk ! i)) b"
      unfolding t [OF that(1), symmetric] using vec_okD(2) [OF t1 that(1)] vec_okD(2) [OF t0(1) that(1)] that(2) by (simp add: ntt_linear)
    also have "key_t sk ! i = poly_add (ntt_inverse (ntt_dot (sd_A_hat sk ! i) (vec_ntt (sd_s1 sk)))) (sd_s2 sk ! i)"
      unfolding key_t_def parts(5) using parts(1-3) that(1)
      by (simp add: vec_ops_nth(1) [of ?k] vec_ntt_nth [of ?k] matrix_mul_nth [of ?k ?l] matrix_mul_ok [of ?k ?l] vec_ntt_ok)
    also have "coef (ntt \<dots>) b = coef (ntt_dot (sd_A_hat sk ! i) (vec_ntt (sd_s1 sk))) b + coef (ntt (sd_s2 sk ! i)) b"
      using ntt_dot_ok [OF row [OF that(1)] vec_ntt_ok(1) [OF parts(2)]] vec_okD(2) [OF parts(3) that(1)] that(2) by (simp add: ntt_linear)
    finally show ?thesis unfolding dot [OF that parts(2)] .
  qed
  show "vec_ntt_inverse (ntt_vec_sub (matrix_mul (sd_A_hat sk) (vec_ntt ?z)) (ntt_vec_scale (ntt c) t1_hat)) = vec_add (vec_sub w cs2) ct0"
  proof -
    have "ntt_vec_sub (matrix_mul (sd_A_hat sk) (vec_ntt ?z)) (ntt_vec_scale (ntt c) t1_hat) = vec_ntt (vec_add (vec_sub w cs2) ct0)"
    proof (rule vec_eqI [of ?k])
      show "vec_ok ?k (ntt_vec_sub (matrix_mul (sd_A_hat sk) (vec_ntt ?z)) (ntt_vec_scale (ntt c) t1_hat))" using Az ct1 by simp
      show "vec_ok ?k (vec_ntt (vec_add (vec_sub w cs2) ct0))" using w cs2 ct0 by (intro vec_ntt_ok vec_ops_ok)
      fix i b assume i: "i < ?k" and b: "b < (256 :: nat)"
      have oks: "poly_ok (w ! i)" "poly_ok (cs2 ! i)" "poly_ok (ct0 ! i)" using vec_okD(2) [OF w i] vec_okD(2) [OF cs2 i] vec_okD(2) [OF ct0 i] .
      have wi: "ntt (w ! i) = ntt_dot (sd_A_hat sk ! i) (vec_ntt y)"
        using parts(1) y i ntt_dot_ok [OF row [OF i] vec_ntt_ok(1) [OF y]] unfolding w_def
        by (simp add: vec_ntt_nth [of ?k] matrix_mul_nth [of ?k ?l] matrix_mul_ok [of ?k ?l] vec_ntt_ok)
      have cs2i: "ntt (cs2 ! i) = ntt_mul (ntt c) (ntt (sd_s2 sk ! i))"
        using parts(3) cn i vec_okD(2) [OF parts(3) i] unfolding cs2_def parts(6) by (simp add: vec_ntt_nth [of ?k] vec_ops_nth [of ?k])
      have ct0i: "ntt (ct0 ! i) = ntt_mul (ntt c) (ntt (sd_t0 sk ! i))"
        using t0(1) cn i vec_okD(2) [OF t0(1) i] unfolding ct0_def parts(7) by (simp add: vec_ntt_nth [of ?k] vec_ops_nth [of ?k])
      have rhs: "coef (vec_ntt (vec_add (vec_sub w cs2) ct0) ! i) b
          = (\<Sum>j < ?l. coef (sd_A_hat sk ! i ! j) b * coef (ntt (y ! j)) b) - coef (ntt c) b * coef (ntt (sd_s2 sk ! i)) b
            + coef (ntt c) b * coef (ntt (sd_t0 sk ! i)) b"
      proof -
        have "vec_ntt (vec_add (vec_sub w cs2) ct0) ! i = ntt (poly_add (poly_sub (w ! i) (cs2 ! i)) (ct0 ! i))"
          using w cs2 ct0 i by (simp add: vec_ntt_nth [of ?k] vec_ops_nth [of ?k] vec_ops_ok)
        also have "coef \<dots> b = coef (ntt (w ! i)) b - coef (ntt (cs2 ! i)) b + coef (ntt (ct0 ! i)) b"
          using oks b by (simp add: ntt_linear)
        finally show ?thesis unfolding wi cs2i ct0i dot [OF i b y]
          using cn vec_okD(2) [OF parts(3) i] vec_okD(2) [OF t0(1) i] b by simp
      qed
      have "coef (ntt_vec_sub (matrix_mul (sd_A_hat sk) (vec_ntt ?z)) (ntt_vec_scale (ntt c) t1_hat) ! i) b
          = coef (ntt_dot (sd_A_hat sk ! i) (vec_ntt ?z)) b - coef (ntt c) b * coef (ntt (t1 ! i)) b"
      proof -
        have "ntt_vec_scale (ntt c) t1_hat ! i = ntt_mul (ntt c) (ntt (t1 ! i))"
          unfolding t1_hat_def t1_def [symmetric] using t1 cn i by (simp add: vec_ntt_nth [of ?k] vec_ops_nth [of ?k])
        moreover have "matrix_mul (sd_A_hat sk) (vec_ntt ?z) ! i = ntt_dot (sd_A_hat sk ! i) (vec_ntt ?z)" by (rule matrix_mul_nth [OF parts(1) i])
        ultimately show ?thesis
          using Az ct1 i b cn vec_okD(2) [OF t1 i] ntt_dot_ok [OF row [OF i] vec_ntt_ok(1) [OF z]] by (simp add: vec_ops_nth(2) [of ?k])
      qed
      also have "coef (ntt_dot (sd_A_hat sk ! i) (vec_ntt ?z)) b
          = (\<Sum>j < ?l. coef (sd_A_hat sk ! i ! j) b * coef (ntt (y ! j)) b) + coef (ntt c) b * (\<Sum>j < ?l. coef (sd_A_hat sk ! i ! j) b * coef (ntt (sd_s1 sk ! j)) b)"
        unfolding dot [OF i b z] sum_distrib_left sum.distrib [symmetric] by (intro sum.cong refl) (simp add: zj b algebra_simps)
      also have "\<dots> - coef (ntt c) b * coef (ntt (t1 ! i)) b = coef (vec_ntt (vec_add (vec_sub w cs2) ct0) ! i) b"
        unfolding rhs by (rule move_across [OF tb [OF i b]])
      finally show "coef (ntt_vec_sub (matrix_mul (sd_A_hat sk) (vec_ntt ?z)) (ntt_vec_scale (ntt c) t1_hat) ! i) b
          = coef (vec_ntt (vec_add (vec_sub w cs2) ct0) ! i) b" .
    qed
    then show ?thesis using vec_ntt_inverses(1) [of ?k "vec_add (vec_sub w cs2) ct0"] w cs2 ct0 by (simp add: vec_ops_ok)
  qed
qed

section \<open>Hints of an accepted attempt\<close>

lemma those_map2:
  assumes "length xs = n" "length ys = n" "length zs = n" "\<And>i. i < n \<Longrightarrow> f (xs ! i) (ys ! i) = Some (zs ! i)"
  shows "those (map2 f xs ys) = Some zs"
  unfolding those_eq_Some using assms by (intro nth_equalityI) simp_all

lemma attempt_hints:
  assumes p: "params_ok p" and w: "vec_ok k w" and cs2: "vec_ok k cs2" and ct0: "vec_ok k ct0"
    and small: "\<And>i j. i < k \<Longrightarrow> j < 256 \<Longrightarrow> \<bar>cval (cs2 ! i ! j)\<bar> \<le> int (par_beta p)"
    and r0: "vec_norm (vec_low_bits (two_gamma2 p) (vec_sub w cs2)) < gamma2_minus_beta p"
    and norm: "vec_norm ct0 < of_nat (par_gamma2 p)"
  defines "r \<equiv> vec_add (vec_sub w cs2) ct0"
  shows "hint_use (two_gamma2 p) (hint_new (two_gamma2 p) (vec_neg ct0) r) r = Some (vec_high_bits (two_gamma2 p) w)"
    and "length (hint_new (two_gamma2 p) (vec_neg ct0) r) = k \<and> (\<forall>row \<in> set (hint_new (two_gamma2 p) (vec_neg ct0) r). length row = 256)"
proof -
  define m where "m = two_gamma2 p"
  note pf = params_facts [OF p, folded m_def] and pw = beta_words [OF p]
  have r: "vec_ok k r" and u: "vec_ok k (vec_sub w cs2)" and n: "vec_ok k (vec_neg ct0)"
    unfolding r_def using w cs2 ct0 by simp_all
  have oks: "poly_ok (w ! i)" "poly_ok (cs2 ! i)" "poly_ok (ct0 ! i)" if "i < k" for i
    using vec_okD(2) [OF w that] vec_okD(2) [OF cs2 that] vec_okD(2) [OF ct0 that] .
  have ri: "r ! i = poly_add (poly_sub (w ! i) (cs2 ! i)) (ct0 ! i)" "vec_sub w cs2 ! i = poly_sub (w ! i) (cs2 ! i)" "vec_neg ct0 ! i = poly_neg (ct0 ! i)" if "i < k" for i
    unfolding r_def using w cs2 ct0 u that by (simp_all add: vec_ops_nth [of k])
  have nr: "reduced (ct0 ! i ! j)" "reduced (w ! i ! j)" "reduced (cs2 ! i ! j)" if "i < k" "j < 256" for i j
    using poly_okD(2) [OF oks(3) [OF that(1)] that(2)] poly_okD(2) [OF oks(1) [OF that(1)] that(2)] poly_okD(2) [OF oks(2) [OF that(1)] that(2)] .
  have ct0_small: "\<bar>cval (ct0 ! i ! j)\<bar> < int (par_gamma2 p)" if "i < k" "j < 256" for i j
    using norm that unfolding vec_norm_less [OF ct0 pw(6)] pw(5) by blast
  have neg: "cval (elem_neg x) = - cval x" if "reduced x" for x
  proof (rule cval_eqI)
    show "elem_val (elem_neg x) = of_int (- cval x)" using that by (simp add: elem_val_cval [of x])
    show "- 4190208 \<le> - cval x" "- cval x \<le> 4190208" using cval_range [OF that] by simp_all
  qed (simp add: that)
  have low: "vec_ok k (vec_low_bits m (vec_sub w cs2))"
  proof (rule vec_okI)
    show "length (vec_low_bits m (vec_sub w cs2)) = k" using vec_okD(1) [OF u] by (simp add: vec_low_bits_def)
    fix i assume i: "i < k"
    show "poly_ok (vec_low_bits m (vec_sub w cs2) ! i)"
      using vec_okD(2) [OF u i] i decompose_spec(2) [OF pf(1) _ refl refl] vec_okD(1) [OF u]
      by (auto simp: vec_low_bits_def poly_low_bits_def poly_okD intro!: poly_okI)
  qed
  have low_small: "\<bar>cval (low_bits m (elem_sub (w ! i ! j) (cs2 ! i ! j)))\<bar> < int (par_gamma2 p) - int (par_beta p)" if "i < k" "j < 256" for i j
  proof -
    have "\<bar>cval (vec_low_bits m (vec_sub w cs2) ! i ! j)\<bar> < int (par_gamma2 p - par_beta p)"
      using r0 [folded m_def] that unfolding vec_norm_less [OF low pw(4)] pw(3) by blast
    moreover have "vec_low_bits m (vec_sub w cs2) ! i ! j = low_bits m (elem_sub (w ! i ! j) (cs2 ! i ! j))"
      using that oks [OF that(1)] vec_okD(1) [OF u] ri(2) [OF that(1)]
      by (simp add: vec_low_bits_def poly_low_bits_def poly_sub_def poly_okD)
    ultimately show ?thesis using pf(7) by (simp add: of_nat_diff)
  qed
  have each: "use_hint m (make_hint m (vec_neg ct0 ! i ! j) (r ! i ! j)) (r ! i ! j) = Some (high_bits m (w ! i ! j))" if "i < k" "j < 256" for i j
  proof -
    have nij: "vec_neg ct0 ! i ! j = elem_neg (ct0 ! i ! j)" using that oks(3) [OF that(1)] by (simp add: ri poly_neg_def poly_okD)
    have rij: "r ! i ! j = elem_add (elem_sub (w ! i ! j) (cs2 ! i ! j)) (ct0 ! i ! j)"
      using that oks [OF that(1)] by (simp add: ri poly_add_def poly_sub_def poly_okD)
    note nr = nr [OF that]
    have red: "reduced (r ! i ! j)" unfolding rij using nr by simp
    have "\<bar>cval (elem_neg (ct0 ! i ! j))\<bar> < int (m div 2)" using neg [OF nr(1)] ct0_small [OF that] pf(2) by simp
    from use_make_hint [OF pf(1) red _ this] have "use_hint m (make_hint m (elem_neg (ct0 ! i ! j)) (r ! i ! j)) (r ! i ! j)
        = Some (high_bits m (elem_add (r ! i ! j) (elem_neg (ct0 ! i ! j))))" using nr by simp
    also have "elem_add (r ! i ! j) (elem_neg (ct0 ! i ! j)) = elem_sub (w ! i ! j) (cs2 ! i ! j)"
    proof (rule elem_val_inject [THEN iffD1])
      show "elem_val (elem_add (r ! i ! j) (elem_neg (ct0 ! i ! j))) = elem_val (elem_sub (w ! i ! j) (cs2 ! i ! j))"
        unfolding rij using nr by simp
    qed (use red nr in simp_all)
    also have "high_bits m (elem_sub (w ! i ! j) (cs2 ! i ! j)) = high_bits m (w ! i ! j)"
    proof (rule high_bits_close [symmetric, OF pf(1)])
      show "elem_val (w ! i ! j) = elem_val (elem_sub (w ! i ! j) (cs2 ! i ! j)) + of_int (cval (cs2 ! i ! j))"
        using nr by (simp add: elem_val_cval [symmetric])
      show "\<bar>cval (cs2 ! i ! j)\<bar> \<le> int (par_beta p)" by (rule small [OF that])
      show "\<bar>cval (low_bits m (elem_sub (w ! i ! j) (cs2 ! i ! j)))\<bar> < int (m div 2) - int (par_beta p)" using low_small [OF that] pf(2) by simp
    qed (use nr in simp_all)
    finally show ?thesis unfolding nij .
  qed
  have lens: "length (vec_neg ct0) = k" "length r = k" "length w = k" using n r w by (simp_all add: vec_okD)
  have rows: "length (vec_neg ct0 ! i) = 256" "length (r ! i) = 256" "length (w ! i) = 256" if "i < k" for i
    using n r w that by (simp_all add: vec_okD poly_okD)
  show "length (hint_new (two_gamma2 p) (vec_neg ct0) r) = k \<and> (\<forall>row \<in> set (hint_new (two_gamma2 p) (vec_neg ct0) r). length row = 256)"
    using lens rows by (auto simp: hint_new_def set_zip)
  show "hint_use (two_gamma2 p) (hint_new (two_gamma2 p) (vec_neg ct0) r) r = Some (vec_high_bits (two_gamma2 p) w)"
    unfolding hint_use_def m_def [symmetric]
  proof (rule those_map2)
    fix i assume i: "i < k"
    show "those (map2 (use_hint m) (hint_new m (vec_neg ct0) r ! i) (r ! i)) = Some (vec_high_bits m w ! i)"
    proof (rule those_map2)
      fix j :: nat assume j: "j < 256"
      show "use_hint m (hint_new m (vec_neg ct0) r ! i ! j) (r ! i ! j) = Some (vec_high_bits m w ! i ! j)"
        using each [OF i j] i j lens rows [OF i] by (simp add: hint_new_def vec_high_bits_def poly_high_bits_def)
    qed (use i lens rows [OF i] in \<open>simp_all add: hint_new_def vec_high_bits_def poly_high_bits_def\<close>)
  qed (use lens in \<open>simp_all add: hint_new_def vec_high_bits_def\<close>)
qed

section \<open>Signing and verifying\<close>

definition signature_ok :: "params \<Rightarrow> mldsa_sig \<Rightarrow> bool" where
  "signature_ok p sigma \<longleftrightarrow> length (ms_c_tilde sigma) = par_lambda p \<and> vec_ok (par_l p) (ms_z sigma)
     \<and> vec_norm (ms_z sigma) < gamma1_minus_beta p \<and> hint_ok (par_k p) (par_omega p) (ms_h sigma)"

text \<open>A verifying key that belongs to a signing key.\<close>

definition keys_match :: "signing_key_data \<Rightarrow> verifying_key_data \<Rightarrow> bool" where
  "keys_match sk vk \<longleftrightarrow> vd_A_hat vk = sd_A_hat sk \<and> vd_t1_2d_hat vk = vec_ntt (vec_scale 8192 (fst (vec_power2round (key_t sk))))
     \<and> vd_rho vk = sd_rho sk \<and> vd_t1 vk = fst (vec_power2round (key_t sk)) \<and> vd_tr vk = sd_tr sk"

lemma mod_plus_minus_vec: "vec_ok n z \<Longrightarrow> vec_mod_plus_minus 8380417 z = z"
proof -
  assume z: "vec_ok n z"
  have "poly_mod_plus_minus 8380417 f = f" if "f \<in> set z" for f
  proof -
    have "poly_ok f" using z that by (simp add: vec_ok_def list_all_iff)
    then show ?thesis by (simp add: poly_mod_plus_minus_def poly_ok_def list_all_iff mod_plus_minus_Q map_idI)
  qed
  then show ?thesis by (simp add: vec_mod_plus_minus_def map_idI)
qed

lemma sign_loop_attempt:
  "sign_loop p S sk mu rhopp kappas = Some sigma \<Longrightarrow> \<exists>kappa \<in> set kappas. sign_attempt p S sk mu rhopp kappa = Some (Some sigma)"
  by (induction kappas) (auto simp: bind_eq_Some_conv split: option.splits)

locale mldsa_suite = hash_interface "suite_H S" ok fresh
  for S :: "('g, 'h) hash_suite" and ok :: "'h \<Rightarrow> bool" and fresh :: "'h \<Rightarrow> bool"
begin

lemma squeeze_length: "absorb_all (suite_H S) inputs = Some h \<Longrightarrow> length (fst (squeeze_new (suite_H S) h n)) = n"
  using absorb_all_ok [of inputs] squeeze_ok by (auto simp: squeeze_new_def)

lemma mask_ok:
  assumes p: "params_ok p" and "expand_mask (suite_H S) (par_l p) (par_gamma1 p) rhopp kappa = Some y"
  shows "vec_ok (par_l p) y"
proof -
  note t = those_in [OF assms(2) [unfolded expand_mask_def]]
  show ?thesis
  proof (rule vec_okI)
    show "length y = par_l p" using t by simp
    fix i assume i: "i < par_l p"
    then have "mask_poly (suite_H S) (par_gamma1 p) rhopp kappa (of_nat i) = Some (y ! i)" using t by simp
    then obtain n h where nh: "absorb_all (suite_H S) [rhopp, le_bytes 2 (n :: u16)] = Some h"
      "bit_unpack (par_gamma1 p - 1) (par_gamma1 p) (fst (squeeze_new (suite_H S) h (32 * range_bits (par_gamma1 p - 1) (par_gamma1 p)))) = Some (y ! i)"
      by (auto simp: mask_poly_def bind_eq_Some_conv)
    then show "poly_ok (y ! i)"
      using bit_unpack_ok(1) [OF params_facts(4) [OF p] squeeze_length [OF nh(1)] nh(2)] by (simp add: in_range_def)
  qed
qed

lemma attempt_verifies:
  assumes p: "params_ok p" and sk: "signing_key_ok p S sk" and vk: "keys_match sk vk"
    and att: "sign_attempt p S sk mu rhopp kappa = Some (Some sigma)"
  shows "verify_mu p S vk mu sigma = Some True" "signature_ok p sigma"
proof -
  obtain y where y: "expand_mask (suite_H S) (par_l p) (par_gamma1 p) rhopp kappa = Some y"
    using att by (auto simp: sign_attempt_def bind_eq_Some_conv)
  define w where "w = vec_ntt_inverse (matrix_mul (sd_A_hat sk) (vec_ntt y))"
  define w1 where "w1 = vec_high_bits (two_gamma2 p) w"
  obtain h where h: "absorb_all (suite_H S) [mu, encode_w1 p w1] = Some h" using absorb_all_ok by blast
  define ct where "ct = fst (squeeze_new (suite_H S) h (par_lambda p))"
  obtain c where c: "sample_in_ball (suite_H S) ct (par_tau p) = Some c"
    using att y h by (auto simp: sign_attempt_def Let_def w_def [symmetric] w1_def [symmetric] ct_def [symmetric] bind_eq_Some_conv)
  define cs1 where "cs1 = vec_ntt_inverse (ntt_vec_scale (ntt c) (sd_s1_hat sk))"
  define cs2 where "cs2 = vec_ntt_inverse (ntt_vec_scale (ntt c) (sd_s2_hat sk))"
  define ct0 where "ct0 = vec_ntt_inverse (ntt_vec_scale (ntt c) (sd_t0_hat sk))"
  define z where "z = vec_add y cs1"
  define r where "r = vec_add (vec_sub w cs2) ct0"
  define hh where "hh = hint_new (two_gamma2 p) (vec_neg ct0) r"
  have ok: "vec_norm z < gamma1_minus_beta p" "vec_norm (vec_low_bits (two_gamma2 p) (vec_sub w cs2)) < gamma2_minus_beta p"
    "vec_norm ct0 < of_nat (par_gamma2 p)" "hamming_weight hh \<le> par_omega p"
    and sigma: "sigma = \<lparr>ms_c_tilde = ct, ms_z = vec_mod_plus_minus 8380417 z, ms_h = hh\<rparr>"
    using att y h c
    by (simp_all add: sign_attempt_def Let_def w_def [symmetric] w1_def [symmetric] ct_def [symmetric] cs1_def [symmetric] cs2_def [symmetric]
        ct0_def [symmetric] z_def [symmetric] r_def [symmetric] hh_def [symmetric] not_le not_less split: if_splits)
  note yv = mask_ok [OF p y]
  have ch: "challenge_ok (par_tau p) c" using sample_in_ball_ok [OF c params_facts(5) [OF p]] .
  then have cp: "poly_ok c" by (simp add: challenge_ok_def)
  note eq = verification_equation [OF sk yv cp, folded w_def cs1_def cs2_def ct0_def, folded z_def]
  have zv: "vec_ok (par_l p) z" unfolding z_def using yv eq(2) by (rule vec_ops_ok)
  have small: "\<bar>cval (cs2 ! i ! j)\<bar> \<le> int (par_beta p)" if "i < par_k p" "j < 256" for i j
  proof -
    note parts = signing_key_parts [OF sk]
    have "cs2 ! i = negacyclic_mult c (sd_s2 sk ! i)" unfolding cs2_def parts(6) by (rule ntt_vec_scale_product [OF cp parts(3) that(1)])
    moreover have "in_range (eta_value (par_eta p)) (eta_value (par_eta p)) (sd_s2 sk ! i)"
      using sk that(1) by (auto simp: signing_key_ok_def Let_def list_all_length)
    ultimately show ?thesis using challenge_product [OF ch _ _ that(2)] params_facts(6) [OF p] by (simp add: par_beta_def)
  qed
  note hints = attempt_hints [OF p eq(1,3,4) small ok(2,3), folded r_def, folded hh_def w1_def]
  have sz: "ms_z sigma = z" "ms_c_tilde sigma = ct" "ms_h sigma = hh" by (simp_all add: sigma mod_plus_minus_vec [OF zv])
  have "vec_ntt_inverse (ntt_vec_sub (matrix_mul (vd_A_hat vk) (vec_ntt z)) (ntt_vec_scale (ntt c) (vd_t1_2d_hat vk))) = r"
    using vk eq(5) by (simp add: keys_match_def r_def)
  then show "verify_mu p S vk mu sigma = Some True"
    using c h hints(1) by (simp add: verify_mu_def Let_def sz ct_def [symmetric])
  show "signature_ok p sigma"
    using ok(1,4) zv hints(2) squeeze_length [OF h] by (simp add: signature_ok_def sz hint_ok_def ct_def)
qed

lemma sign_mu_verifies:
  assumes p: "params_ok p" and sk: "signing_key_ok p S sk" and vk: "keys_match sk vk" and sig: "sign_mu p S sk mu rnd = Some sigma"
  shows "verify_mu p S vk mu sigma = Some True" "signature_ok p sigma"
proof -
  obtain rhopp where "sign_loop p S sk mu rhopp (map of_nat (step_by 65535 (par_l p))) = Some sigma"
    using sig by (auto simp: sign_mu_def bind_eq_Some_conv Let_def)
  then obtain kappa where "sign_attempt p S sk mu rhopp kappa = Some (Some sigma)" using sign_loop_attempt by blast
  then show "verify_mu p S vk mu sigma = Some True" "signature_ok p sigma" using attempt_verifies [OF p sk vk] by blast+
qed

end

end
