(* ===== verification/Mldsa_Codec.thy ===== *)
theory Mldsa_Codec
  imports Mldsa_Core
begin

text \<open>The encodings of ML-DSA keys and signatures (signing_key/encode, verifying_key/encode and
  signature/encode of mldsa_core): whatever key generation and signing produce is encoded in
  exactly the size the parameter set gives, and decoding gives it back, the matrix and the
  transforms a decoded key recomputes included.\<close>

section \<open>Encodings\<close>

lemma sig_parts:
  assumes p: "params_ok p" and sig: "signature_ok p sigma"
  obtains z where "encode_z p (ms_z sigma) = Some z" "length z = par_l p * (32 * z_bits p)"
    "\<And>y. hint_bit_unpack (par_omega p) y = Some (ms_h sigma) \<Longrightarrow> sig_decode p (ms_c_tilde sigma @ z @ y) = Some (Some sigma)"
proof -
  note pf = params_facts [OF p] and pw = beta_words [OF p]
  have s: "length (ms_c_tilde sigma) = par_lambda p" "vec_ok (par_l p) (ms_z sigma)" "vec_norm (ms_z sigma) < gamma1_minus_beta p"
    using sig by (simp_all add: signature_ok_def)
  have "in_range (par_gamma1 p - 1) (par_gamma1 p) f" if f: "f \<in> set (ms_z sigma)" for f
  proof -
    obtain i where i: "i < par_l p" "f = ms_z sigma ! i" using f s(2) by (metis in_set_conv_nth vec_okD(1))
    have "\<bar>cval (f ! j)\<bar> < int (par_gamma1 p - par_beta p)" if "j < 256" for j
      using s(3) i that unfolding vec_norm_less [OF s(2) pw(2)] pw(1) by blast
    moreover have "int (par_gamma1 p - par_beta p) \<le> int (par_gamma1 p)" "int (par_gamma1 p - 1) = int (par_gamma1 p) - 1"
      using pf(8) by simp_all
    ultimately have "- int (par_gamma1 p - 1) \<le> cval (f ! j) \<and> cval (f ! j) \<le> int (par_gamma1 p)" if "j < 256" for j
      using that by (smt (verit))
    then show ?thesis using vec_okD(2) [OF s(2) i(1)] i(2) by (simp add: in_range_def)
  qed
  then obtain z where z: "vec_pack (par_gamma1 p - 1) (par_gamma1 p) (ms_z sigma) = Some z" "length z = par_l p * (32 * z_bits p)"
    "vec_unpack (par_gamma1 p - 1) (par_gamma1 p) z = Some (ms_z sigma)"
    using vec_pack_ok [OF pf(4)] vec_okD(1) [OF s(2)] unfolding z_bits_def by metis
  show thesis
  proof (rule that)
    show "encode_z p (ms_z sigma) = Some z" "length z = par_l p * (32 * z_bits p)" using z by (simp_all add: encode_z_def)
    fix y assume y: "hint_bit_unpack (par_omega p) y = Some (ms_h sigma)"
    have "sub_slice (par_lambda p) (par_lambda p + par_l p * (32 * z_bits p)) (ms_c_tilde sigma @ z @ y) = z"
      "drop (par_lambda p + par_l p * (32 * z_bits p)) (ms_c_tilde sigma @ z @ y) = y"
      using s(1) z(2) by (simp_all add: sub_slice_def)
    then show "sig_decode p (ms_c_tilde sigma @ z @ y) = Some (Some sigma)"
      using s(1,3) z(3) y by (simp add: sig_decode_def decode_z_def Let_def not_le)
  qed
qed

lemma sig_codec:
  assumes p: "params_ok p" and sig: "signature_ok p sigma"
  obtains enc where "sig_encode p sigma = Some enc" "length enc = signature_size p" "sig_decode p enc = Some (Some sigma)"
proof -
  have s: "length (ms_c_tilde sigma) = par_lambda p" "hint_ok (par_k p) (par_omega p) (ms_h sigma)" using sig by (simp_all add: signature_ok_def)
  obtain y where y: "hint_bit_pack (par_omega p) (ms_h sigma) = Some y" "length y = par_omega p + par_k p"
    "hint_bit_unpack (par_omega p) y = Some (ms_h sigma)"
    using hint_round_trip [OF s(2) params_facts(11) [OF p]] by metis
  from sig_parts [OF p sig] obtain z where z: "encode_z p (ms_z sigma) = Some z" "length z = par_l p * (32 * z_bits p)"
    "sig_decode p (ms_c_tilde sigma @ z @ y) = Some (Some sigma)" using y(3) by metis
  show thesis by (rule that [OF _ _ z(3)]) (use s y z in \<open>simp_all add: sig_encode_def signature_size_def\<close>)
qed

text \<open>A hint that is not full and not empty has a second packing, so the signature has a second encoding.\<close>

lemma sig_reencoded:
  assumes p: "params_ok p" and sig: "signature_ok p sigma" and "0 < hamming_weight (ms_h sigma)" "hamming_weight (ms_h sigma) < par_omega p"
  obtains enc enc' where "sig_encode p sigma = Some enc" "enc' \<noteq> enc" "length enc' = length enc" "sig_decode p enc' = Some (Some sigma)"
proof -
  have h: "hint_ok (par_k p) (par_omega p) (ms_h sigma)" using sig by (simp add: signature_ok_def)
  obtain y y' where y: "hint_bit_pack (par_omega p) (ms_h sigma) = Some y" "y' \<noteq> y" "length y' = length y"
    "hint_bit_unpack (par_omega p) y' = Some (ms_h sigma)"
    using hint_repacked [OF h params_facts(11) [OF p] assms(3,4)] by metis
  from sig_parts [OF p sig] obtain z where z: "encode_z p (ms_z sigma) = Some z"
    "sig_decode p (ms_c_tilde sigma @ z @ y') = Some (Some sigma)" using y(4) by metis
  show thesis by (rule that [of "ms_c_tilde sigma @ z @ y", OF _ _ _ z(2)]) (use y z in \<open>simp_all add: sig_encode_def\<close>)
qed

lemma t1_codec:
  assumes "vec_ok n t"
  shows "length (encode_t1 (fst (vec_power2round t))) = n * (32 * 10)" "decode_t1 (encode_t1 (fst (vec_power2round t))) = fst (vec_power2round t)"
proof -
  note pr = power2round_vec [OF assms]
  have fits: "fits 10 f" if "f \<in> set (fst (vec_power2round t))" for f
    using that pr(4) vec_okD(1) [OF pr(1)] by (metis in_set_conv_nth)
  have "width_ok 10" by (simp add: width_ok_def)
  from vec_encode_decode [OF this fits] show "length (encode_t1 (fst (vec_power2round t))) = n * (32 * 10)"
    "decode_t1 (encode_t1 (fst (vec_power2round t))) = fst (vec_power2round t)"
    using vec_okD(1) [OF pr(1)] by (simp_all add: encode_t1_def decode_t1_def)
qed

context mldsa_suite
begin

lemma derived_key:
  assumes sk: "signing_key_ok p S sk"
  obtains vk where "derive_verifying_key p S sk = Some vk" "keys_match sk vk"
    "length (encode_verifying_key vk) = verifying_key_size p" "decode_verifying_key p S (encode_verifying_key vk) = Some vk"
proof -
  note parts = signing_key_parts [OF sk]
  define t1 where "t1 = fst (vec_power2round (key_t sk))"
  obtain t0 where pair: "vec_power2round (key_t sk) = (t1, t0)" using t1_def by (metis prod.collapse)
  obtain h where h: "absorb_all (suite_H S) [encode_vk_parts (sd_rho sk) t1] = Some h" using absorb_all_ok by blast
  define vk where "vk = \<lparr>vd_rho = sd_rho sk, vd_t1 = t1, vd_A_hat = sd_A_hat sk, vd_t1_2d_hat = vec_ntt (vec_scale (push_bit 13 1) t1),
    vd_tr = fst (squeeze_new (suite_H S) h 64)\<rparr>"
  have "derive_verifying_key p S sk = Some vk"
    using h by (simp add: derive_verifying_key_def key_t_def [symmetric] new_verifying_key_def Let_def pair vk_def)
  moreover from this have "vd_tr vk = sd_tr sk" using sk by (simp add: signing_key_ok_def Let_def)
  then have "keys_match sk vk" by (simp add: keys_match_def vk_def t1_def)
  moreover have rho: "length (sd_rho sk) = 32" "expand_a (suite_G S) (par_k p) (par_l p) (sd_rho sk) = Some (sd_A_hat sk)"
    using sk by (simp_all add: signing_key_ok_def Let_def)
  note c = t1_codec [OF parts(4), folded t1_def]
  have enc: "encode_verifying_key vk = encode_vk_parts (sd_rho sk) t1" by (simp add: encode_verifying_key_def vk_def)
  moreover have "length (encode_verifying_key vk) = verifying_key_size p"
    using rho c by (simp add: enc encode_vk_parts_def verifying_key_size_def)
  moreover have "take 32 (encode_vk_parts (sd_rho sk) t1) = sd_rho sk" "drop 32 (encode_vk_parts (sd_rho sk) t1) = encode_t1 t1"
    using rho by (simp_all add: encode_vk_parts_def)
  then have "decode_verifying_key p S (encode_verifying_key vk) = Some vk"
    using rho(2) c(2) h by (simp add: enc decode_verifying_key_def new_verifying_key_def Let_def) (simp add: vk_def)
  ultimately show thesis using that by blast
qed

lemma signing_key_codec:
  assumes p: "params_ok p" and sk: "signing_key_ok p S sk"
  obtains enc where "encode_signing_key p sk = Some enc" "length enc = signing_key_size p" "decode_signing_key p S enc = Some sk"
proof -
  let ?e = "eta_value (par_eta p)"
  note pf = params_facts [OF p] and parts = signing_key_parts [OF sk]
  have k: "length (sd_rho sk) = 32" "length (sd_K sk) = 32" "length (sd_tr sk) = 64" "length (sd_s1 sk) = par_l p" "length (sd_s2 sk) = par_k p"
    "\<And>f. f \<in> set (sd_s1 sk) \<Longrightarrow> in_range ?e ?e f" "\<And>f. f \<in> set (sd_s2 sk) \<Longrightarrow> in_range ?e ?e f"
    "sd_t0 sk = snd (vec_power2round (key_t sk))" "expand_a (suite_G S) (par_k p) (par_l p) (sd_rho sk) = Some (sd_A_hat sk)"
    using sk by (simp_all add: signing_key_ok_def Let_def list_all_iff)
  have "\<And>f. f \<in> set (sd_t0 sk) \<Longrightarrow> in_range 4095 4096 f" and lt0: "length (sd_t0 sk) = par_k p"
    using power2round_vec(5) [OF parts(4)] vec_okD(1) [OF power2round_vec(2) [OF parts(4)]] unfolding k(8) by (metis in_set_conv_nth)+
  moreover have "range_ok 4095 4096" by (simp add: range_ok_def)
  ultimately obtain t0 where t0: "vec_pack 4095 4096 (sd_t0 sk) = Some t0" "length t0 = par_k p * (32 * 13)" "vec_unpack 4095 4096 t0 = Some (sd_t0 sk)"
  proof -
    assume r: "range_ok 4095 4096" and f: "\<And>f. f \<in> set (sd_t0 sk) \<Longrightarrow> in_range 4095 4096 f"
    have "range_bits 4095 4096 = 13" by (simp add: range_bits_def bit_length_def ilog2.simps)
    then show thesis if "\<And>t0. vec_pack 4095 4096 (sd_t0 sk) = Some t0 \<Longrightarrow> length t0 = par_k p * (32 * 13) \<Longrightarrow> vec_unpack 4095 4096 t0 = Some (sd_t0 sk) \<Longrightarrow> thesis"
      using vec_pack_ok [OF r f] that lt0 by metis
  qed
  obtain s1 where s1: "vec_pack ?e ?e (sd_s1 sk) = Some s1" "length s1 = par_l p * (32 * eta_bits p)" "vec_unpack ?e ?e s1 = Some (sd_s1 sk)"
    using vec_pack_ok [OF pf(3) k(6)] k(4) unfolding eta_bits_def by metis
  obtain s2 where s2: "vec_pack ?e ?e (sd_s2 sk) = Some s2" "length s2 = par_k p * (32 * eta_bits p)" "vec_unpack ?e ?e s2 = Some (sd_s2 sk)"
    using vec_pack_ok [OF pf(3) k(7)] k(5) unfolding eta_bits_def by metis
  define enc where "enc = sd_rho sk @ sd_K sk @ sd_tr sk @ s1 @ s2 @ t0"
  define a where "a = par_l p * (32 * eta_bits p)"
  define b where "b = par_k p * (32 * eta_bits p)"
  have slices: "sub_slice 0 32 enc = sd_rho sk" "sub_slice 32 64 enc = sd_K sk" "sub_slice 64 128 enc = sd_tr sk"
    "sub_slice 128 (128 + a) enc = s1" "sub_slice (128 + a) (128 + a + b) enc = s2" "drop (128 + a + b) enc = t0"
    using k(1-3) s1(2) s2(2) by (simp_all add: enc_def sub_slice_def a_def [symmetric] b_def [symmetric])
  show thesis
  proof (rule that)
    show "encode_signing_key p sk = Some enc"
      using s1(1) s2(1) t0(1) by (simp add: encode_signing_key_def encode_s_def encode_t0_def enc_def)
    show "length enc = signing_key_size p" using k(1-3) s1(2) s2(2) t0(2) by (simp add: enc_def signing_key_size_def)
    show "decode_signing_key p S enc = Some sk"
      unfolding decode_signing_key_def Let_def a_def [symmetric] b_def [symmetric] slices
      using s1(3) s2(3) t0(3) k(9) parts(5-7) by (simp add: decode_s_def decode_t0_def new_signing_key_def)
  qed
qed

lemma key_gen_ok:
  assumes p: "params_ok p" and gen: "mldsa_key_gen p S seed = Some (sk, vk)"
  shows "signing_key_ok p S sk" "derive_verifying_key p S sk = Some vk" "keys_match sk vk"
proof -
  obtain h0 where h0: "absorb_all (suite_H S) [seed, [of_nat (par_k p)], [of_nat (par_l p)]] = Some h0" "ok h0" using absorb_all_ok by blast
  obtain rho h1 where h1: "squeeze_new (suite_H S) h0 32 = (rho, h1)" by force
  obtain rhop h2 where h2: "squeeze_new (suite_H S) h1 64 = (rhop, h2)" by force
  obtain K h3 where h3: "squeeze_new (suite_H S) h2 32 = (K, h3)" by force
  have len: "length rho = 32" "length K = 32"
    using squeeze_ok [OF h0(2), of 32] squeeze_ok [of h1 64] squeeze_ok [of h2 32] h1 h2 h3 by (simp_all add: squeeze_new_def)
  obtain A where A: "expand_a (suite_G S) (par_k p) (par_l p) rho = Some A" using gen h0 h1 h2 h3 by (auto simp: mldsa_key_gen_def Let_def bind_eq_Some_conv)
  obtain s1 where s1: "expand_s (suite_H S) (par_l p) rhop (par_eta p) 0 = Some s1"
    using gen h0 h1 h2 h3 A by (auto simp: mldsa_key_gen_def Let_def bind_eq_Some_conv)
  obtain s2 where s2: "expand_s (suite_H S) (par_k p) rhop (par_eta p) (par_l p) = Some s2"
    using gen h0 h1 h2 h3 A s1 by (auto simp: mldsa_key_gen_def Let_def bind_eq_Some_conv)
  define t where "t = vec_add (vec_ntt_inverse (matrix_mul A (vec_ntt s1))) s2"
  have vk: "new_verifying_key p S rho (fst (vec_power2round t)) (Some A) None = Some vk"
    and sk: "new_signing_key p S rho K (vd_tr vk) s1 s2 (snd (vec_power2round t)) (Some A) = Some sk"
    using gen h0 h1 h2 h3 A s1 s2 by (auto simp: mldsa_key_gen_def Let_def bind_eq_Some_conv t_def [symmetric] split: prod.splits)
  have fields: "sd_rho sk = rho" "sd_K sk = K" "sd_tr sk = vd_tr vk" "sd_s1 sk = s1" "sd_s2 sk = s2" "sd_t0 sk = snd (vec_power2round t)"
    "sd_s1_hat sk = vec_ntt s1" "sd_s2_hat sk = vec_ntt s2" "sd_t0_hat sk = vec_ntt (snd (vec_power2round t))" "sd_A_hat sk = A"
    using sk by (auto simp: new_signing_key_def)
  have kt: "key_t sk = t" by (simp add: key_t_def fields t_def)
  show derive: "derive_verifying_key p S sk = Some vk"
    using vk by (cases "vec_power2round t") (simp add: derive_verifying_key_def fields t_def [symmetric] Let_def)
  have tr: "length (vd_tr vk) = 64" using vk squeeze_length by (auto simp: new_verifying_key_def bind_eq_Some_conv Let_def)
  show "signing_key_ok p S sk"
    using len tr A expand_s_ok [OF s1] expand_s_ok [OF s2] derive
    by (simp add: signing_key_ok_def fields kt list_all_iff)
  then show "keys_match sk vk" using derived_key [of p sk] derive by (metis option.inject)
qed

end

end
