(* ===== verification/Mldsa_Steady.thy ===== *)
theory Mldsa_Steady
  imports Mldsa_Codec
begin

text \<open>
  A run of key generation and signing that can be followed by hand: the output function returns one
  byte for the matrix (\<open>G\<close>) and one for everything else (\<open>H\<close>). It shows that the sampling loops and
  the rejection loop can end, so the theorems about generated keys and signatures are not empty.
\<close>

section \<open>A steady output function\<close>

definition steady_xof :: "string \<Rightarrow> bytes \<Rightarrow> nat \<Rightarrow> u8" where
  "steady_xof ctx inp i = (if ctx = ''ML-DSA-B-G'' then 0 else 0x44)"

definition steady :: "u8 \<Rightarrow> b3_state hash_state" where
  "steady b = \<lparr>hash_default = b3_default, hash_absorb = b3_absorb, hash_squeeze = b3_squeeze (\<lambda>inp i. b)\<rparr>"

fun b3_steady :: "u8 \<Rightarrow> b3_state \<Rightarrow> bool" where
  "b3_steady b (B3Absorbing hasher) = True"
| "b3_steady b (B3Squeezing q) \<longleftrightarrow> cache_len q = 0 \<and> cache_off q = 0 \<or> cache_len q = TINY_PREFETCH \<and> b3_cache q = replicate TINY_PREFETCH b"

lemma steady_suite: "suite_G (b3_suite steady_xof) = steady 0" "suite_H (b3_suite steady_xof) = steady 0x44"
proof -
  have "steady_xof ''ML-DSA-B-G'' = (\<lambda>inp i. 0)" "steady_xof ''ML-DSA-B-H'' = (\<lambda>inp i. 0x44)" by (simp_all add: steady_xof_def fun_eq_iff)
  then show "suite_G (b3_suite steady_xof) = steady 0" "suite_H (b3_suite steady_xof) = steady 0x44"
    by (simp_all add: b3_suite_def b3_hash_def steady_def)
qed

lemma steady_absorb: "absorb_all (steady b) inputs = Some (B3Absorbing (concat inputs))"
proof -
  have "fold (\<lambda>input st. Option.bind st (\<lambda>s. hash_absorb (steady b) s input)) inputs (Some (B3Absorbing h)) = Some (B3Absorbing (h @ concat inputs))" for h
    by (induction inputs arbitrary: h) (simp_all add: steady_def)
  then show ?thesis by (simp add: absorb_all_def steady_def b3_default_def)
qed

lemma steady_squeeze:
  assumes "b3_steady b s"
  obtains s' where "hash_squeeze (steady b) s n = (replicate n b, s')" "b3_steady b s'"
proof -
  have read: "xof_read (\<lambda>inp i. b) inp pos k = replicate k b" for inp pos k by (simp add: xof_read_def map_replicate_const)
  have q: "cache_len (ensure_reader s) = 0 \<and> cache_off (ensure_reader s) = 0
      \<or> cache_len (ensure_reader s) = TINY_PREFETCH \<and> b3_cache (ensure_reader s) = replicate TINY_PREFETCH b"
    using assms by (cases s) simp_all
  have "fst (b3_squeeze (\<lambda>inp i. b) s n) = replicate n b \<and> b3_steady b (snd (b3_squeeze (\<lambda>inp i. b) s n))"
    using q by (auto simp: b3_squeeze_def reader_fill_def Let_def read sub_slice_def TINY_PREFETCH_def TINY_SQUEEZE_MAX_def)
  then show thesis using that by (cases "b3_squeeze (\<lambda>inp i. b) s n") (simp add: steady_def)
qed

section \<open>Sampling\<close>

lemma zero_update: "poly_zero[j := 0] = poly_zero"
  by (cases "j < 256") (auto simp: poly_zero_def list_update_same_conv list_update_beyond)

lemma steady_ntt_loop: "b3_steady 0 s \<Longrightarrow> rej_ntt_loop (steady 0) s poly_zero j = Some poly_zero"
proof (induction "256 - j" arbitrary: j s)
  case 0
  then show ?case by (simp add: rej_ntt_loop.simps)
next
  case (Suc n)
  obtain s' where s: "hash_squeeze (steady 0) s 3 = (replicate 3 0, s')" "b3_steady 0 s'" using steady_squeeze [OF Suc.prems] .
  have "coeff_from_three_bytes (replicate 3 0) = Some 0" by (simp add: coeff_from_three_bytes_def Let_def MLDSA_Q_def)
  then show ?case using Suc.hyps(1) [OF _ s(2), of "j + 1"] Suc.hyps(2)
    by (subst rej_ntt_loop.simps) (simp add: s(1) zero_update)
qed

lemma steady_bounded_loop: "b3_steady 0x44 s \<Longrightarrow> rej_bounded_loop (steady 0x44) EtaFour s poly_zero j = Some poly_zero"
proof (induction "256 - j" arbitrary: j s rule: less_induct)
  case less
  obtain s' where s: "hash_squeeze (steady 0x44) s 1 = (replicate 1 0x44, s')" "b3_steady 0x44 s'" using steady_squeeze [OF less.prems] .
  have c: "coeffs_from_byte 0x44 EtaFour = (Some 0, Some 0)" by (simp add: coeffs_from_byte_def coeff_from_half_byte_def Let_def)
  show ?case
    by (subst rej_bounded_loop.simps) (use s(1) c less.hyps [OF _ s(2), of "j + 2"] in \<open>simp add: zero_update\<close>)
qed

lemma those_map_const: "(\<And>x. x \<in> set xs \<Longrightarrow> f x = Some c) \<Longrightarrow> those (map f xs) = Some (replicate (length xs) c)"
  by (induction xs) simp_all

lemma steady_expand:
  "expand_a (steady 0) k l rho = Some (replicate k (replicate l poly_zero))"
  "expand_s (steady 0x44) k rho EtaFour base = Some (replicate k poly_zero)"
proof -
  have "those (map (\<lambda>s. rej_ntt_poly (steady 0) rho (of_nat r) (of_nat s)) [0..<l]) = Some (replicate l poly_zero)" for r
    using those_map_const [of "[0..<l]" "\<lambda>s. rej_ntt_poly (steady 0) rho (of_nat r) (of_nat s)" poly_zero]
    by (simp add: rej_ntt_poly_def steady_absorb steady_ntt_loop)
  then show "expand_a (steady 0) k l rho = Some (replicate k (replicate l poly_zero))"
    unfolding expand_a_def
    using those_map_const [of "[0..<k]" "\<lambda>r. those (map (\<lambda>s. rej_ntt_poly (steady 0) rho (of_nat r) (of_nat s)) [0..<l])" "replicate l poly_zero"]
    by simp
  show "expand_s (steady 0x44) k rho EtaFour base = Some (replicate k poly_zero)"
    unfolding expand_s_def
    using those_map_const [of "[0..<k]" "\<lambda>r. rej_bounded_poly (steady 0x44) rho EtaFour (of_nat (r + base))" poly_zero]
    by (simp add: rej_bounded_poly_def steady_absorb steady_bounded_loop)
qed

lemma steady_ball:
  assumes "tau \<le> 64"
  obtains c where "sample_in_ball (steady 0x44) rho tau = Some c"
proof -
  have step: "\<exists>c' s'. ball_step (steady 0x44) (replicate 8 0x44) tau i (Some (c, s)) = Some (c', s') \<and> b3_steady 0x44 s'"
    if st: "b3_steady 0x44 s" and i: "256 - tau \<le> i" "i < 256" for i c s
  proof -
    obtain s' where s: "hash_squeeze (steady 0x44) s 1 = (replicate 1 0x44, s')" "b3_steady 0x44 s'" using steady_squeeze [OF st] .
    have "ball_index (steady 0x44) i s = Some (0x44, s')"
    proof -
      have "\<not> i < 68" using i assms by linarith
      then show ?thesis by (subst ball_index.simps) (simp add: s(1) del: One_nat_def)
    qed
    moreover have "drop_bit 3 (i + tau - 256) < (8 :: nat)" using i assms by (simp add: drop_bit_eq_div)
    then have "\<exists>b. bit_set (replicate 8 0x44) (i + tau - 256) = Some b" by (simp add: bit_set_def)
    ultimately show ?thesis using s(2) by (auto simp: ball_step_def Let_def)
  qed
  have "\<exists>c s'. fold (ball_step (steady 0x44) (replicate 8 0x44) tau) is (Some (c0, s)) = Some (c, s')"
    if "b3_steady 0x44 s" "\<And>i. i \<in> set is \<Longrightarrow> 256 - tau \<le> i \<and> i < 256" for "is" c0 s
    using that
  proof (induction "is" arbitrary: c0 s)
    case (Cons i "is")
    then show ?case using step [of s i c0] by fastforce
  qed simp
  moreover obtain s where "hash_squeeze (steady 0x44) (B3Absorbing rho) 8 = (replicate 8 0x44, s)" "b3_steady 0x44 s"
    using steady_squeeze [where b = "0x44" and s = "B3Absorbing rho" and n = 8] by auto
  ultimately show thesis using that [of "_ :: poly"] by (fastforce simp: sample_in_ball_def steady_absorb)
qed

lemma steady_mask:
  assumes "l \<le> 256"
  shows "expand_mask (steady 0x44) l (2 ^ 19) rho 0 = Some (replicate l (replicate 256 244668))"
proof -
  have bits: "range_bits (2 ^ 19 - 1) (2 ^ 19) = 20" by (simp add: range_bits_def bit_length_def ilog2.simps)
  have steps: "byte_step 20 = 5" "value_step 20 = 2" by (simp_all add: byte_step_def value_step_def encoding_unit_def gcd_nat.simps)
  have "unpack_values 20 (le_word (replicate 5 0x44 @ replicate 11 0)) = [279620, 279620]"
  proof -
    have "[0..<value_step 20] = [0, 1]" by (simp add: steps upt_rec)
    moreover have "le_word (replicate 5 0x44 @ replicate 11 0) = (0x4444444444 :: 128 word)" by code_simp
    ultimately show ?thesis unfolding unpack_values_def by (simp add: Let_def)
  qed
  moreover have "chunks 5 (replicate 640 (0x44 :: u8)) = replicate 128 (replicate 5 0x44)"
    by (rule nth_equalityI) (simp_all add: chunks_def)
  moreover have "concat (replicate n [279620, 279620]) = replicate (n * 2) (279620 :: u32)" for n
    by (induction n) simp_all
  ultimately have decode: "byte_decode 20 (replicate 640 0x44) = replicate 256 279620" by (simp add: byte_decode_def steps)
  have unpack: "bit_unpack (2 ^ 19 - 1) (2 ^ 19) (replicate 640 0x44) = Some (replicate 256 244668)"
    unfolding bit_unpack_def bits decode Let_def
    by (simp add: list_all_length elem_add_def elem_sub_def small_reduce_def MLDSA_Q_def)
  have "mask_poly (steady 0x44) (2 ^ 19) rho 0 (of_nat r) = Some (replicate 256 244668)" if "r < l" for r
  proof -
    have "checked_add 0 (of_nat r :: u16) = Some (of_nat r)"
      using unsigned_less [of "of_nat r :: u16"] by (simp add: checked_add_def)
    moreover obtain s' where "squeeze_new (steady 0x44) (B3Absorbing (rho @ le_bytes 2 (of_nat r :: u16))) 640 = (replicate 640 0x44, s')"
      using steady_squeeze [where b = "0x44" and s = "B3Absorbing (rho @ le_bytes 2 (of_nat r :: u16))" and n = 640] by (auto simp: squeeze_new_def)
    ultimately show ?thesis
      unfolding mask_poly_def bits using unpack by (simp add: steady_absorb)
  qed
  then show ?thesis
    using those_map_const [of "[0..<l]" "\<lambda>r. mask_poly (steady 0x44) (2 ^ 19) rho 0 (of_nat r)" "replicate 256 244668"]
    by (simp add: expand_mask_def)
qed

section \<open>Arithmetic with zero\<close>

lemma coef_zero [simp]: "i < 256 \<Longrightarrow> coef poly_zero i = 0"
  by (simp add: coef_def poly_zero_def elem_val_def)

lemma poly_zero_ok [simp]: "poly_ok poly_zero" using zero_in_range by (simp add: in_range_def)

lemma vec_zero_ok [simp]: "vec_ok n (replicate n poly_zero)" by (simp add: vec_ok_def list_all_length)

lemma ntt_zero [simp]: "ntt poly_zero = poly_zero"
  by (rule poly_eqI) (simp_all add: coef_ntt)

lemma ntt_inverse_zero [simp]: "ntt_inverse poly_zero = poly_zero"
  by (metis ntt_zero ntt_inverse_ntt poly_zero_ok)

lemma ntt_mul_zero [simp]: "poly_ok f \<Longrightarrow> ntt_mul f poly_zero = poly_zero"
  by (rule poly_eqI) simp_all

lemma poly_add_zero [simp]: "poly_ok f \<Longrightarrow> poly_add f poly_zero = f" by (rule poly_eqI) simp_all

lemma poly_sub_zero [simp]: "poly_sub poly_zero poly_zero = poly_zero" by (rule poly_eqI) simp_all

lemma poly_neg_zero [simp]: "poly_neg poly_zero = poly_zero" by (rule poly_eqI) simp_all

lemma vec_zero_simps [simp]:
  "vec_ntt (replicate n poly_zero) = replicate n poly_zero" "vec_ntt_inverse (replicate n poly_zero) = replicate n poly_zero"
  "poly_ok f \<Longrightarrow> ntt_vec_scale f (replicate n poly_zero) = replicate n poly_zero"
  "poly_ok f \<Longrightarrow> vec_add (replicate n f) (replicate n poly_zero) = replicate n f"
  "vec_sub (replicate n poly_zero) (replicate n poly_zero) = replicate n poly_zero" "vec_neg (replicate n poly_zero) = replicate n poly_zero"
  by (simp_all add: vec_ntt_def vec_ntt_inverse_def ntt_vec_scale_def vec_add_def vec_sub_def vec_neg_def zip_replicate)

lemma ntt_dot_zero [simp]:
  assumes "vec_ok n v"
  shows "ntt_dot (replicate n poly_zero) v = poly_zero"
proof (rule poly_eqI)
  note d = ntt_dot_ok [OF vec_zero_ok assms]
  show "poly_ok (ntt_dot (replicate n poly_zero) v)" by (rule d)
  fix i :: nat assume "i < 256"
  then show "coef (ntt_dot (replicate n poly_zero) v) i = coef poly_zero i" using coef_ntt_dot [OF vec_zero_ok assms] by simp
qed simp

lemma matrix_mul_zero [simp]: "vec_ok l v \<Longrightarrow> matrix_mul (replicate k (replicate l poly_zero)) v = replicate k poly_zero"
  by (simp add: matrix_mul_def)

lemma rounding_zero [simp]:
  "vec_power2round (replicate n poly_zero) = (replicate n poly_zero, replicate n poly_zero)"
  "vec_high_bits 523776 (replicate n poly_zero) = replicate n poly_zero" "vec_low_bits 523776 (replicate n poly_zero) = replicate n poly_zero"
proof -
  have "power2round 0 = (0, 0)" by (simp add: power2round_def mod_plus_minus_def m_reduce_def Let_def elem_sub_def small_reduce_def MLDSA_Q_def)
  then show "vec_power2round (replicate n poly_zero) = (replicate n poly_zero, replicate n poly_zero)"
    by (simp add: vec_power2round_def poly_power2round_def poly_zero_def)
  have "decompose 523776 0 = (0, 0)" by (simp add: decompose_def mod_plus_minus_def m_reduce_def Let_def elem_sub_def small_reduce_def MLDSA_Q_def)
  then show "vec_high_bits 523776 (replicate n poly_zero) = replicate n poly_zero" "vec_low_bits 523776 (replicate n poly_zero) = replicate n poly_zero"
    by (simp_all add: vec_high_bits_def vec_low_bits_def poly_high_bits_def poly_low_bits_def high_bits_def low_bits_def poly_zero_def)
qed

lemma fold_max_const: "fold max (replicate n x) y = (if n = 0 then y else max x y)" for x :: "'a::linorder"
  by (induction n arbitrary: y) (simp_all add: max_def)

lemma norm_const: "0 < n \<Longrightarrow> vec_norm (replicate n (replicate 256 x)) = elem_norm x"
  by (simp add: vec_norm_def poly_norm_def fold_max_const del: fold_replicate)

section \<open>A key and a signature\<close>

abbreviation "steady_suite65 \<equiv> b3_suite steady_xof"

text \<open>Every part of the key is zero.\<close>

definition zero_key :: "signing_key_data \<Rightarrow> bool" where
  "zero_key sk \<longleftrightarrow> sd_A_hat sk = replicate 6 (replicate 5 poly_zero) \<and> sd_s1_hat sk = replicate 5 poly_zero
     \<and> sd_s2_hat sk = replicate 6 poly_zero \<and> sd_t0_hat sk = replicate 6 poly_zero"

lemma mldsa65_fields [simp]:
  "par_k mldsa65 = 6" "par_l mldsa65 = 5" "par_eta mldsa65 = EtaFour" "par_gamma1 mldsa65 = 524288" "par_tau mldsa65 = 49"
  "two_gamma2 mldsa65 = 523776" "par_gamma2 mldsa65 = 261888" "par_omega mldsa65 = 55" "par_beta mldsa65 = 196"
  "gamma1_minus_beta mldsa65 = 524092" "gamma2_minus_beta mldsa65 = 261692"
  by (simp_all add: mldsa65_def two_gamma2_def par_beta_def gamma1_minus_beta_def gamma2_minus_beta_def)

lemma steady_key_gen:
  obtains sk vk where "mldsa_key_gen mldsa65 steady_suite65 seed = Some (sk, vk)" "zero_key sk"
proof -
  let ?H = "steady 0x44"
  define h0 where "h0 = B3Absorbing (seed @ [6, 5])"
  obtain rho h1 rhop h2 K h3 where h: "squeeze_new ?H h0 32 = (rho, h1)" "squeeze_new ?H h1 64 = (rhop, h2)" "squeeze_new ?H h2 32 = (K, h3)"
    by (metis prod.collapse)
  show thesis
  proof (rule that)
    show "mldsa_key_gen mldsa65 steady_suite65 seed = Some
      (\<lparr>sd_rho = rho, sd_K = K, sd_tr = vd_tr (the (new_verifying_key mldsa65 steady_suite65 rho (replicate 6 poly_zero) (Some (replicate 6 (replicate 5 poly_zero))) None)),
        sd_s1 = replicate 5 poly_zero, sd_s2 = replicate 6 poly_zero, sd_t0 = replicate 6 poly_zero, sd_s1_hat = replicate 5 poly_zero,
        sd_s2_hat = replicate 6 poly_zero, sd_t0_hat = replicate 6 poly_zero, sd_A_hat = replicate 6 (replicate 5 poly_zero)\<rparr>,
       the (new_verifying_key mldsa65 steady_suite65 rho (replicate 6 poly_zero) (Some (replicate 6 (replicate 5 poly_zero))) None))"
      using h by (simp add: mldsa_key_gen_def steady_suite steady_absorb h0_def [symmetric] steady_expand new_signing_key_def
          new_verifying_key_def Let_def)
  qed (simp add: zero_key_def)
qed

lemma steady_attempt:
  assumes "zero_key sk"
  obtains sigma where "sign_attempt mldsa65 steady_suite65 sk mu rhopp 0 = Some (Some sigma)"
proof -
  let ?H = "steady 0x44"
  define y where "y = replicate 5 (replicate 256 (244668 :: u32))"
  have poly: "poly_ok (replicate 256 244668)" by (simp add: poly_ok_def list_all_length reduced_iff)
  then have y: "vec_ok 5 y" by (simp add: y_def vec_ok_def list_all_length)
  define c_tilde where "c_tilde = fst (squeeze_new ?H (B3Absorbing (mu @ encode_w1 mldsa65 (replicate 6 poly_zero))) (par_lambda mldsa65))"
  obtain c where c: "sample_in_ball ?H c_tilde 49 = Some c" using steady_ball [of 49 c_tilde] by auto
  then have cok: "poly_ok (ntt c)" using sample_in_ball_ok [OF c] by (simp add: challenge_ok_def)
  have mask: "expand_mask ?H 5 524288 rhopp 0 = Some y" using steady_mask [of 5 rhopp] by (simp add: y_def)
  have add: "vec_add y (replicate 5 poly_zero) = y" unfolding y_def using poly by simp
  have norms: "vec_norm y = 244668" "vec_norm (replicate 6 poly_zero) = 0"
    unfolding y_def poly_zero_def by (simp_all add: norm_const elem_norm_def MLDSA_Q_def)
  have hints: "hamming_weight (hint_new 523776 (replicate 6 poly_zero) (replicate 6 poly_zero)) = 0"
  proof -
    have "make_hint 523776 0 0 = False" by (simp add: make_hint_def elem_add_def small_reduce_def MLDSA_Q_def)
    then show ?thesis by (simp add: hint_new_def hamming_weight_def poly_zero_def zip_replicate)
  qed
  have "matrix_mul (sd_A_hat sk) (vec_ntt y) = replicate 6 poly_zero" using assms y by (simp add: zero_key_def)
  then have "sign_attempt mldsa65 steady_suite65 sk mu rhopp 0 = Some (Some \<lparr>ms_c_tilde = c_tilde, ms_z = vec_mod_plus_minus 8380417 y,
      ms_h = hint_new 523776 (replicate 6 poly_zero) (replicate 6 poly_zero)\<rparr>)"
    using assms c cok mask
    by (simp add: sign_attempt_def steady_suite steady_absorb zero_key_def Let_def c_tilde_def [symmetric] add norms hints)
  then show thesis by (rule that)
qed

lemma steady_sign:
  assumes "zero_key sk"
  obtains sigma where "sign_internal mldsa65 steady_suite65 sk Mp rnd = Some sigma"
proof -
  have "[0..<13107] = 0 # [1..<13107 :: nat]" by (subst upt_conv_Cons) simp_all
  then have ks: "map of_nat (step_by 65535 5) = (0 :: u16) # map (\<lambda>k. of_nat (k * 5)) [1..<13107]"
    by (simp add: step_by_def comp_def)
  have "\<exists>sigma. sign_mu mldsa65 steady_suite65 sk mu rnd = Some sigma" for mu
  proof -
    define rhopp where "rhopp = fst (squeeze_new (steady 0x44) (B3Absorbing (concat [sd_K sk, rnd, mu])) 64)"
    obtain sigma where "sign_attempt mldsa65 steady_suite65 sk mu rhopp 0 = Some (Some sigma)" using steady_attempt [OF assms] .
    then show ?thesis by (simp add: sign_mu_def steady_suite steady_absorb rhopp_def Let_def ks)
  qed
  then show thesis using that by (auto simp: sign_internal_def message_representative_def steady_suite steady_absorb)
qed

end
