(* ===== verification/Mldsa_Api.thy ===== *)
theory Mldsa_Api
  imports Mldsa_Steady X448
begin

text \<open>
  The surface of ML-DSA: the wrapper types that \<open>define_mldsa_variant!\<close> generates for a hash suite
  (\<open>mldsa_core/mod.rs\<close>) and ML-DSA-B-65 (\<open>mldsa65b.rs\<close>), which keeps keys and signatures as byte
  arrays and decodes them for every operation. \<open>Panic\<close> also stands for a sampling loop that does
  not end.
\<close>

section \<open>The variant modules\<close>

text \<open>\<open>signature::Error\<close> carries nothing, so it is the unit value on the left.\<close>

definition context_pieces :: "bytes \<Rightarrow> bytes list" where
  "context_pieces ctx = [[0], [of_nat (length ctx)], ctx]"

definition raw_sign_deterministic ::
  "params \<Rightarrow> ('g, 'h) hash_suite \<Rightarrow> signing_key_data \<Rightarrow> bytes list \<Rightarrow> bytes \<Rightarrow> (unit + mldsa_sig) option" where
  "raw_sign_deterministic p S sk M ctx =
     (if 255 < length ctx then Some (Inl ())
      else let rnd = replicate 32 0; Mp = [context_pieces ctx, M] in map_option Inr (sign_internal p S sk Mp rnd))"

definition sign_deterministic ::
  "params \<Rightarrow> ('g, 'h) hash_suite \<Rightarrow> signing_key_data \<Rightarrow> bytes \<Rightarrow> bytes \<Rightarrow> (unit + mldsa_sig) option" where
  "sign_deterministic p S sk M ctx = raw_sign_deterministic p S sk [M] ctx"

definition key_sign_internal ::
  "params \<Rightarrow> ('g, 'h) hash_suite \<Rightarrow> signing_key_data \<Rightarrow> bytes list \<Rightarrow> bytes \<Rightarrow> mldsa_sig option" where
  "key_sign_internal p S sk Mp rnd = sign_internal p S sk [Mp] rnd"

text \<open>The randomised calls take the 32 bytes their generator delivers.\<close>

definition sign_randomized ::
  "params \<Rightarrow> ('g, 'h) hash_suite \<Rightarrow> signing_key_data \<Rightarrow> bytes \<Rightarrow> bytes \<Rightarrow> bytes \<Rightarrow> (unit + mldsa_sig) option" where
  "sign_randomized p S sk M ctx rnd =
     (if 255 < length ctx then Some (Inl ())
      else let Mp = [[0], [of_nat (length ctx)], ctx, M] in map_option Inr (key_sign_internal p S sk Mp rnd))"

definition sign_mu_deterministic :: "params \<Rightarrow> ('g, 'h) hash_suite \<Rightarrow> signing_key_data \<Rightarrow> bytes \<Rightarrow> mldsa_sig option" where
  "sign_mu_deterministic p S sk mu = sign_mu p S sk mu (replicate 32 0)"

definition sign_mu_randomized :: "params \<Rightarrow> ('g, 'h) hash_suite \<Rightarrow> signing_key_data \<Rightarrow> bytes \<Rightarrow> bytes \<Rightarrow> mldsa_sig option" where
  "sign_mu_randomized p S sk mu rnd = sign_mu p S sk mu rnd"

definition try_sign :: "params \<Rightarrow> ('g, 'h) hash_suite \<Rightarrow> signing_key_data \<Rightarrow> bytes \<Rightarrow> (unit + mldsa_sig) option" where
  "try_sign p S sk msg = sign_deterministic p S sk msg []"

definition try_multipart_sign ::
  "params \<Rightarrow> ('g, 'h) hash_suite \<Rightarrow> signing_key_data \<Rightarrow> bytes list \<Rightarrow> (unit + mldsa_sig) option" where
  "try_multipart_sign p S sk msg = raw_sign_deterministic p S sk msg []"

definition raw_verify_with_context ::
  "params \<Rightarrow> ('g, 'h) hash_suite \<Rightarrow> verifying_key_data \<Rightarrow> bytes list \<Rightarrow> bytes \<Rightarrow> mldsa_sig \<Rightarrow> bool option" where
  "raw_verify_with_context p S vk M ctx sig =
     (if 255 < length ctx then Some False else verify_internal p S vk [context_pieces ctx, M] sig)"

definition key_verify_with_context ::
  "params \<Rightarrow> ('g, 'h) hash_suite \<Rightarrow> verifying_key_data \<Rightarrow> bytes \<Rightarrow> bytes \<Rightarrow> mldsa_sig \<Rightarrow> bool option" where
  "key_verify_with_context p S vk M ctx sig = raw_verify_with_context p S vk [M] ctx sig"

definition key_verify_internal ::
  "params \<Rightarrow> ('g, 'h) hash_suite \<Rightarrow> verifying_key_data \<Rightarrow> bytes list \<Rightarrow> mldsa_sig \<Rightarrow> bool option" where
  "key_verify_internal p S vk Mp sig = verify_internal p S vk [Mp] sig"

definition then_some :: "bool \<Rightarrow> unit + unit" where "then_some b = (if b then Inr () else Inl ())"

definition verifier_verify :: "params \<Rightarrow> ('g, 'h) hash_suite \<Rightarrow> verifying_key_data \<Rightarrow> bytes \<Rightarrow> mldsa_sig \<Rightarrow> (unit + unit) option" where
  "verifier_verify p S vk msg sig = map_option then_some (key_verify_with_context p S vk msg [] sig)"

definition multipart_verify ::
  "params \<Rightarrow> ('g, 'h) hash_suite \<Rightarrow> verifying_key_data \<Rightarrow> bytes list \<Rightarrow> mldsa_sig \<Rightarrow> (unit + unit) option" where
  "multipart_verify p S vk msg sig = map_option then_some (raw_verify_with_context p S vk msg [] sig)"

record key_pair =
  kp_signing_key :: signing_key_data
  kp_verifying_key :: verifying_key_data
  kp_seed :: bytes

definition key_gen_internal :: "params \<Rightarrow> ('g, 'h) hash_suite \<Rightarrow> bytes \<Rightarrow> key_pair option" where
  "key_gen_internal p S seed =
     map_option (\<lambda>(sk, vk). \<lparr>kp_signing_key = sk, kp_verifying_key = vk, kp_seed = seed\<rparr>) (mldsa_key_gen p S seed)"

definition variant_message_representative :: "('g, 'h) hash_suite \<Rightarrow> bytes \<Rightarrow> bytes list \<Rightarrow> bytes option" where
  "variant_message_representative S tr msg =
     Option.bind (absorb_all (suite_H S) (tr # msg)) (\<lambda>h. Some (fst (squeeze_new (suite_H S) h 64)))"

definition sig_try_from :: "params \<Rightarrow> bytes \<Rightarrow> (unit + mldsa_sig) option" where
  "sig_try_from p bs =
     (if length bs \<noteq> signature_size p then Some (Inl ())
      else map_option (\<lambda>s. case s of None \<Rightarrow> Inl () | Some sigma \<Rightarrow> Inr sigma) (sig_decode p bs))"

section \<open>ML-DSA-B-65\<close>

definition B65_PUBLIC_KEY_SIZE :: nat where "B65_PUBLIC_KEY_SIZE = 1952"
definition B65_SECRET_KEY_SIZE :: nat where "B65_SECRET_KEY_SIZE = 4032"
definition B65_SIGNATURE_SIZE :: nat where "B65_SIGNATURE_SIZE = 3309"

type_synonym blake3_xof = "string \<Rightarrow> bytes \<Rightarrow> nat \<Rightarrow> u8"

definition b65_generate_from_seed :: "blake3_xof \<Rightarrow> bytes \<Rightarrow> bytes outcome" where
  "b65_generate_from_seed xof seed =
     bind_out (or_panic (key_gen_internal mldsa65 (b3_suite xof) seed)) (\<lambda>keypair.
       or_panic (encode_signing_key mldsa65 (kp_signing_key keypair)))"

definition b65_generate :: "blake3_xof \<Rightarrow> bytes option \<Rightarrow> bytes outcome" where
  "b65_generate xof rand = bind_out (of_result (fill_bytes rand)) (\<lambda>seed. b65_generate_from_seed xof seed)"

definition b65_key_from_bytes :: "bytes \<Rightarrow> bytes result" where
  "b65_key_from_bytes bs =
     (if length bs \<noteq> B65_SECRET_KEY_SIZE then Inl (InvalidKeyLength B65_SECRET_KEY_SIZE (length bs)) else Inr bs)"

definition b65_verifying_key :: "blake3_xof \<Rightarrow> bytes \<Rightarrow> bytes outcome" where
  "b65_verifying_key xof sk =
     bind_out (or_panic (decode_signing_key mldsa65 (b3_suite xof) sk)) (\<lambda>sk.
     bind_out (or_panic (derive_verifying_key mldsa65 (b3_suite xof) sk)) (\<lambda>pk. Done (encode_verifying_key pk)))"

definition b65_sign_with_context :: "blake3_xof \<Rightarrow> bytes \<Rightarrow> bytes \<Rightarrow> bytes \<Rightarrow> bytes outcome" where
  "b65_sign_with_context xof sk message ctx =
     (if 255 < length ctx then Fail (InvalidContextLength (length ctx) 255)
      else bind_out (or_panic (decode_signing_key mldsa65 (b3_suite xof) sk)) (\<lambda>sk.
           bind_out (or_panic (sign_deterministic mldsa65 (b3_suite xof) sk message ctx)) (\<lambda>r.
             case r of Inl _ \<Rightarrow> Fail InvalidSignature | Inr sig \<Rightarrow> or_panic (sig_encode mldsa65 sig))))"

definition b65_sign :: "blake3_xof \<Rightarrow> bytes \<Rightarrow> bytes \<Rightarrow> bytes outcome" where
  "b65_sign xof sk message = b65_sign_with_context xof sk message []"

definition b65_vk_from_bytes :: "bytes \<Rightarrow> bytes result" where
  "b65_vk_from_bytes bs =
     (if length bs \<noteq> B65_PUBLIC_KEY_SIZE then Inl (InvalidKeyLength B65_PUBLIC_KEY_SIZE (length bs)) else Inr bs)"

definition b65_verify_with_context :: "blake3_xof \<Rightarrow> bytes \<Rightarrow> bytes \<Rightarrow> bytes \<Rightarrow> bytes \<Rightarrow> unit outcome" where
  "b65_verify_with_context xof vk message ctx signature =
     (if 255 < length ctx then Fail (InvalidContextLength (length ctx) 255)
      else bind_out (or_panic (decode_verifying_key mldsa65 (b3_suite xof) vk)) (\<lambda>pk.
           bind_out (or_panic (sig_decode mldsa65 signature)) (\<lambda>sig. case sig of
             None \<Rightarrow> Fail SignatureVerificationFailed
           | Some sig \<Rightarrow> bind_out (or_panic (key_verify_with_context mldsa65 (b3_suite xof) pk message ctx sig)) (\<lambda>b.
               if b then Done () else Fail SignatureVerificationFailed))))"

definition b65_verify :: "blake3_xof \<Rightarrow> bytes \<Rightarrow> bytes \<Rightarrow> bytes \<Rightarrow> unit outcome" where
  "b65_verify xof vk message signature = b65_verify_with_context xof vk message [] signature"

definition b65_verify_internal :: "blake3_xof \<Rightarrow> bytes \<Rightarrow> bytes \<Rightarrow> bytes \<Rightarrow> bool outcome" where
  "b65_verify_internal xof vk message signature =
     bind_out (or_panic (decode_verifying_key mldsa65 (b3_suite xof) vk)) (\<lambda>pk.
     bind_out (or_panic (sig_decode mldsa65 signature)) (\<lambda>sig. case sig of
       None \<Rightarrow> Done False
     | Some sig \<Rightarrow> or_panic (key_verify_internal mldsa65 (b3_suite xof) pk [message] sig)))"

definition b65_signature_from_bytes :: "bytes \<Rightarrow> bytes result" where
  "b65_signature_from_bytes bs = (if length bs \<noteq> B65_SIGNATURE_SIZE then Inl InvalidSignature else Inr bs)"

section \<open>Signing with a context\<close>

context mldsa_suite
begin

lemma internal_verifies:
  assumes "params_ok p" and "signing_key_ok p S sk" and vk: "keys_match sk vk"
    and sig: "sign_internal p S sk Mp rnd = Some sigma" and pieces: "concat Mp' = concat Mp"
  shows "verify_internal p S vk Mp' sigma = Some True" "signature_ok p sigma"
proof -
  obtain mu where mu: "message_representative (suite_H S) (sd_tr sk) Mp = Some mu" "sign_mu p S sk mu rnd = Some sigma"
    using sig by (auto simp: sign_internal_def bind_eq_Some_conv)
  moreover have "message_representative (suite_H S) (vd_tr vk) Mp' = Some mu"
    using mu(1) vk pieces by (simp add: keys_match_def message_representative_def)
  ultimately show "verify_internal p S vk Mp' sigma = Some True" "signature_ok p sigma"
    using sign_mu_verifies [OF assms(1,2) vk] by (simp_all add: verify_internal_def)
qed

text \<open>Deterministic, multipart and randomised signatures all verify with the context they were made for.\<close>

lemma context_verifies:
  assumes k: "params_ok p" "signing_key_ok p S sk" "keys_match sk vk" and sig: "raw_sign_deterministic p S sk M ctx = Some (Inr sigma)"
  shows "raw_verify_with_context p S vk M ctx sigma = Some True" "signature_ok p sigma"
  using sig internal_verifies [OF k, of "[context_pieces ctx, M]" "replicate 32 0" sigma "[context_pieces ctx, M]"]
  by (auto simp: raw_sign_deterministic_def raw_verify_with_context_def Let_def split: if_splits)

lemma randomized_verifies:
  assumes k: "params_ok p" "signing_key_ok p S sk" "keys_match sk vk" and sig: "sign_randomized p S sk M ctx rnd = Some (Inr sigma)"
  shows "key_verify_with_context p S vk M ctx sigma = Some True" "signature_ok p sigma"
  using sig internal_verifies [OF k, of "[[[0], [of_nat (length ctx)], ctx, M]]" rnd sigma "[context_pieces ctx, [M]]"]
  by (auto simp: sign_randomized_def key_sign_internal_def key_verify_with_context_def raw_verify_with_context_def context_pieces_def
      split: if_splits)

end

interpretation b3_dsa: mldsa_suite "b3_suite xof" b3_ok b3_fresh for xof
  unfolding mldsa_suite_def using b3.hash_interface_axioms [of xof "''ML-DSA-B-H''"] by (simp add: b3_suite_def)

interpretation shake_dsa: mldsa_suite "shake_suite x128 x256" "\<lambda>s. True" shake_fresh for x128 x256
  unfolding mldsa_suite_def using shake.hash_interface_axioms [of x256] by (simp add: shake_suite_def)

section \<open>ML-DSA-B-65 keys and signatures\<close>

lemma mldsa65_sizes: "params_ok mldsa65" "signing_key_size mldsa65 = 4032" "verifying_key_size mldsa65 = 1952" "signature_size mldsa65 = 3309"
  by (simp_all add: params_ok_def signing_key_size_def verifying_key_size_def signature_size_def eta_bits_def z_bits_def
      mldsa65_def range_bits_def bit_length_def ilog2.simps)

text \<open>What a generated key decodes to, and what its verifying key decodes to.\<close>

lemma b65_generated:
  assumes "b65_generate_from_seed xof seed = Done sk"
  obtains key vk where "length sk = 4032" "decode_signing_key mldsa65 (b3_suite xof) sk = Some key"
    "signing_key_ok mldsa65 (b3_suite xof) key" "keys_match key vk" "b65_verifying_key xof sk = Done (encode_verifying_key vk)"
    "length (encode_verifying_key vk) = 1952" "decode_verifying_key mldsa65 (b3_suite xof) (encode_verifying_key vk) = Some vk"
proof -
  note p = mldsa65_sizes
  obtain key vk0 where gen: "mldsa_key_gen mldsa65 (b3_suite xof) seed = Some (key, vk0)" and enc: "encode_signing_key mldsa65 key = Some sk"
    using assms by (auto simp: b65_generate_from_seed_def bind_out_eq_Done key_gen_internal_def)
  note ok = b3_dsa.key_gen_ok(1) [OF p(1) gen]
  have codec: "length sk = 4032" "decode_signing_key mldsa65 (b3_suite xof) sk = Some key"
    using b3_dsa.signing_key_codec [OF p(1) ok] enc p(2) by (metis option.inject)+
  obtain vk where vk: "derive_verifying_key mldsa65 (b3_suite xof) key = Some vk" "keys_match key vk"
    "length (encode_verifying_key vk) = 1952" "decode_verifying_key mldsa65 (b3_suite xof) (encode_verifying_key vk) = Some vk"
    using b3_dsa.derived_key [OF ok] p(3) by metis
  show thesis by (rule that [OF codec ok vk(2) _ vk(3,4)]) (simp add: b65_verifying_key_def codec(2) vk(1))
qed

lemma b65_signed:
  assumes "decode_signing_key mldsa65 (b3_suite xof) sk = Some key" and k: "signing_key_ok mldsa65 (b3_suite xof) key" "keys_match key vk"
    and "decode_verifying_key mldsa65 (b3_suite xof) bs = Some vk" and sig: "b65_sign_with_context xof sk m ctx = Done sig"
  shows "length sig = 3309" "b65_verify_with_context xof bs m ctx sig = Done ()"
proof -
  note p = mldsa65_sizes
  have ctx: "\<not> 255 < length ctx" using sig by (auto simp: b65_sign_with_context_def)
  then obtain r where r: "raw_sign_deterministic mldsa65 (b3_suite xof) key [m] ctx = Some r"
    "(case r of Inl _ \<Rightarrow> Fail InvalidSignature | Inr sig \<Rightarrow> or_panic (sig_encode mldsa65 sig)) = Done sig"
    using sig assms(1) by (auto simp: b65_sign_with_context_def bind_out_eq_Done sign_deterministic_def)
  then obtain sigma where sigma: "raw_sign_deterministic mldsa65 (b3_suite xof) key [m] ctx = Some (Inr sigma)" "sig_encode mldsa65 sigma = Some sig"
    by (cases r) simp_all
  note v = b3_dsa.context_verifies [OF p(1) k sigma(1)]
  have enc: "length sig = 3309" "sig_decode mldsa65 sig = Some (Some sigma)"
    using sig_codec [OF p(1) v(2)] sigma(2) p(4) by (metis option.inject)+
  then show "length sig = 3309" "b65_verify_with_context xof bs m ctx sig = Done ()"
    using ctx assms(4) v(1) by (simp_all add: b65_verify_with_context_def key_verify_with_context_def)
qed

text \<open>C15. A key generated from a seed and its verifying key have the advertised sizes, and every signature it makes
  has the advertised size and verifies for its message and context, whatever the output function.\<close>

theorem b65_signatures_verify:
  assumes "b65_generate_from_seed xof seed = Done sk" and "b65_sign_with_context xof sk m ctx = Done sig"
  shows "b65_key_from_bytes sk = Inr sk \<and> b65_signature_from_bytes sig = Inr sig
    \<and> (\<exists>vk. b65_verifying_key xof sk = Done vk \<and> b65_vk_from_bytes vk = Inr vk \<and> b65_verify_with_context xof vk m ctx sig = Done ())"
proof -
  from b65_generated [OF assms(1)] obtain key vk where k: "length sk = 4032" "decode_signing_key mldsa65 (b3_suite xof) sk = Some key"
    "signing_key_ok mldsa65 (b3_suite xof) key" "keys_match key vk" "b65_verifying_key xof sk = Done (encode_verifying_key vk)"
    "length (encode_verifying_key vk) = 1952" "decode_verifying_key mldsa65 (b3_suite xof) (encode_verifying_key vk) = Some vk" .
  show ?thesis using k(1,5,6) b65_signed [OF k(2,3,4,7) assms(2)]
    by (simp add: b65_key_from_bytes_def b65_signature_from_bytes_def b65_vk_from_bytes_def
        B65_SECRET_KEY_SIZE_def B65_SIGNATURE_SIZE_def B65_PUBLIC_KEY_SIZE_def)
qed

theorem b65_signatures_verify_witness:
  "\<exists>sk sig vk. b65_generate_from_seed steady_xof (replicate 32 7) = Done sk \<and> b65_sign_with_context steady_xof sk [1, 2, 3] [9] = Done sig
    \<and> b65_verifying_key steady_xof sk = Done vk \<and> b65_verify_with_context steady_xof vk [1, 2, 3] [9] sig = Done ()"
proof -
  note p = mldsa65_sizes(1)
  obtain key vk where gen: "mldsa_key_gen mldsa65 steady_suite65 (replicate 32 7) = Some (key, vk)" and z: "zero_key key"
    using steady_key_gen .
  note ok = b3_dsa.key_gen_ok [OF p gen]
  obtain sk where sk: "encode_signing_key mldsa65 key = Some sk" "decode_signing_key mldsa65 steady_suite65 sk = Some key"
    using b3_dsa.signing_key_codec [OF p ok(1)] by metis
  have g: "b65_generate_from_seed steady_xof (replicate 32 7) = Done sk"
    using gen sk(1) by (simp add: b65_generate_from_seed_def key_gen_internal_def)
  obtain sigma where "sign_internal mldsa65 steady_suite65 key [context_pieces [9], [[1, 2, 3]]] (replicate 32 0) = Some sigma"
    using steady_sign [OF z] .
  then have r: "raw_sign_deterministic mldsa65 steady_suite65 key [[1, 2, 3]] [9] = Some (Inr sigma)"
    by (simp add: raw_sign_deterministic_def Let_def)
  obtain sig where "sig_encode mldsa65 sigma = Some sig" using sig_codec [OF p b3_dsa.context_verifies(2) [OF p ok(1,3) r]] by metis
  then have s: "b65_sign_with_context steady_xof sk [1, 2, 3] [9] = Done sig"
    using sk(2) r by (simp add: b65_sign_with_context_def sign_deterministic_def)
  show ?thesis using g s b65_signatures_verify [OF g s] by blast
qed

text \<open>C16. Signatures are malleable: one that uses some but not all of its hint positions has a second encoding of the
  same length that every key judges the same.\<close>

theorem b65_signatures_malleable:
  assumes "signature_ok mldsa65 sigma" and "sig_encode mldsa65 sigma = Some sig"
    and "0 < hamming_weight (ms_h sigma)" "hamming_weight (ms_h sigma) < par_omega mldsa65"
  shows "\<exists>sig'. sig' \<noteq> sig \<and> b65_signature_from_bytes sig' = Inr sig'
    \<and> (\<forall>xof vk m ctx. b65_verify_with_context xof vk m ctx sig' = b65_verify_with_context xof vk m ctx sig)"
proof -
  note p = mldsa65_sizes
  obtain sig' where "sig' \<noteq> sig" "length sig' = length sig" "sig_decode mldsa65 sig' = Some (Some sigma)"
    using sig_reencoded [OF p(1) assms(1,3,4)] assms(2) by (metis option.inject)
  moreover have "length sig = 3309" "sig_decode mldsa65 sig = Some (Some sigma)"
    using sig_codec [OF p(1) assms(1)] assms(2) p(4) by (metis option.inject)+
  ultimately show ?thesis
    by (intro exI [of _ sig']) (simp add: b65_signature_from_bytes_def b65_verify_with_context_def B65_SIGNATURE_SIZE_def)
qed

definition forked_signature :: mldsa_sig where
  "forked_signature = \<lparr>ms_c_tilde = replicate 48 0, ms_z = replicate 5 poly_zero,
     ms_h = (True # replicate 255 False) # replicate 5 (replicate 256 False)\<rparr>"

theorem b65_signatures_malleable_witness:
  "\<exists>sig sig'. sig_encode mldsa65 forked_signature = Some sig \<and> sig' \<noteq> sig \<and> length sig' = 3309
    \<and> (\<forall>xof vk m ctx. b65_verify_with_context xof vk m ctx sig' = b65_verify_with_context xof vk m ctx sig)"
proof -
  have w: "hamming_weight (ms_h forked_signature) = 1" by (simp add: forked_signature_def hamming_weight_def)
  have "vec_norm (replicate 5 poly_zero) = 0" using norm_const [of 5 0] by (simp add: poly_zero_def elem_norm_def)
  then have ok: "signature_ok mldsa65 forked_signature"
    using w by (simp add: signature_ok_def hint_ok_def) (simp add: forked_signature_def mldsa65_def)
  obtain sig where sig: "sig_encode mldsa65 forked_signature = Some sig" using sig_codec [OF mldsa65_sizes(1) ok] by metis
  from b65_signatures_malleable [OF ok sig] w show ?thesis
    using sig by (auto simp: b65_signature_from_bytes_def B65_SIGNATURE_SIZE_def split: if_splits)
qed

section \<open>What key generation promises\<close>

text \<open>C18. Every part of a generated key pair is what its type says: vectors of the parameter set's dimensions over
  reduced coefficients, short secrets, and encodings of exactly the declared sizes that decode to the key.\<close>

theorem generated_key_typed:
  assumes "params_ok p" and "mldsa_key_gen p (b3_suite xof) seed = Some (sk, vk)"
  shows "length (sd_rho sk) = 32 \<and> length (sd_K sk) = 32 \<and> length (sd_tr sk) = 64 \<and> vd_tr vk = sd_tr sk
    \<and> matrix_ok (par_k p) (par_l p) (sd_A_hat sk) \<and> vec_ok (par_l p) (sd_s1 sk) \<and> vec_ok (par_k p) (sd_s2 sk) \<and> vec_ok (par_k p) (sd_t0 sk)
    \<and> vec_ok (par_l p) (sd_s1_hat sk) \<and> vec_ok (par_k p) (sd_s2_hat sk) \<and> vec_ok (par_k p) (sd_t0_hat sk) \<and> vec_ok (par_k p) (vd_t1 vk)
    \<and> list_all (in_range (eta_value (par_eta p)) (eta_value (par_eta p))) (sd_s1 sk @ sd_s2 sk)
    \<and> (\<exists>enc. encode_signing_key p sk = Some enc \<and> length enc = signing_key_size p \<and> decode_signing_key p (b3_suite xof) enc = Some sk)
    \<and> length (encode_verifying_key vk) = verifying_key_size p \<and> decode_verifying_key p (b3_suite xof) (encode_verifying_key vk) = Some vk"
proof -
  note ok = b3_dsa.key_gen_ok [OF assms]
  note parts = signing_key_parts [OF ok(1)]
  have "sd_t0 sk = snd (vec_power2round (key_t sk))" "vd_t1 vk = fst (vec_power2round (key_t sk))"
    using ok(1,3) by (simp_all add: signing_key_ok_def keys_match_def Let_def)
  then have "vec_ok (par_k p) (sd_t0 sk)" "vec_ok (par_k p) (vd_t1 vk)" using power2round_vec(1,2) [OF parts(4)] by simp_all
  moreover have "\<exists>enc. encode_signing_key p sk = Some enc \<and> length enc = signing_key_size p \<and> decode_signing_key p (b3_suite xof) enc = Some sk"
    using b3_dsa.signing_key_codec [OF assms(1) ok(1)] by metis
  moreover have "length (encode_verifying_key vk) = verifying_key_size p" "decode_verifying_key p (b3_suite xof) (encode_verifying_key vk) = Some vk"
    using b3_dsa.derived_key [OF ok(1)] ok(2) by (metis option.inject)+
  moreover have "length (sd_rho sk) = 32" "length (sd_K sk) = 32" "length (sd_tr sk) = 64" "vd_tr vk = sd_tr sk"
    "list_all (in_range (eta_value (par_eta p)) (eta_value (par_eta p))) (sd_s1 sk @ sd_s2 sk)"
    using ok(1,3) by (simp_all add: signing_key_ok_def keys_match_def Let_def)
  ultimately show ?thesis using parts(1-3) unfolding parts(5-7) by (intro conjI vec_ntt_ok)
qed

theorem generated_key_typed_witness:
  "\<exists>sk vk. mldsa_key_gen mldsa65 steady_suite65 (replicate 32 7) = Some (sk, vk) \<and> matrix_ok 6 5 (sd_A_hat sk)
    \<and> length (encode_verifying_key vk) = 1952"
proof -
  obtain sk vk where gen: "mldsa_key_gen mldsa65 steady_suite65 (replicate 32 7) = Some (sk, vk)" using steady_key_gen .
  show ?thesis using gen generated_key_typed [OF mldsa65_sizes(1) gen] mldsa65_sizes(3) by auto
qed

section \<open>Keys that are not keys\<close>

lemma and15: "x AND 15 = take_bit 4 (x :: 'a::len word)"
proof -
  have "(15 :: 'a word) = mask 4" by (simp add: mask_eq_exp_minus_1)
  then show ?thesis by (simp only: take_bit_eq_mask)
qed

lemma byte_decode_nibbles: "byte_decode 4 bs = concat (map (\<lambda>b. [ucast b AND 15, ucast (drop_bit 4 b)]) bs)"
proof -
  have steps: "byte_step 4 = 1" "value_step 4 = 2" by (simp_all add: byte_step_def value_step_def encoding_unit_def gcd_nat.simps)
  have "chunks 1 bs = map (\<lambda>b. [b]) bs" by (rule nth_equalityI) (simp_all add: chunks_def take_Suc_conv_app_nth Cons_nth_drop_Suc [symmetric])
  moreover have "unpack_values 4 (le_word ([b] @ replicate (16 - 1) 0)) = [ucast b AND 15, ucast (drop_bit 4 b)]" for b
  proof -
    have "le_word (replicate n 0) = (0 :: 128 word)" for n by (induction n) simp_all
    then have "(le_word ([b] @ replicate (16 - 1) 0) :: 128 word) = ucast b" by simp
    moreover have "[0..<value_step 4] = [0, 1]" by (simp add: steps upt_rec)
    moreover have "ucast (drop_bit 4 (ucast b :: 128 word)) AND 15 = (ucast (drop_bit 4 b) :: u32)" "ucast (ucast b :: 128 word) AND 15 = (ucast b AND 15 :: u32)"
      unfolding and15 by (rule bit_word_eqI, use bit_imp_le_length [of b] in \<open>fastforce simp: bit_simps\<close>)+
    ultimately show ?thesis unfolding unpack_values_def by (simp add: Let_def)
  qed
  ultimately show ?thesis by (simp add: byte_decode_def steps comp_def)
qed

definition bad_byte :: "u8 \<Rightarrow> bool" where "bad_byte b \<longleftrightarrow> 8 < unat b mod 16 \<or> 8 < unat b div 16"

lemma nibbles_unat: "unat (ucast b AND 15 :: u32) = unat b mod 16" "unat (ucast (drop_bit 4 b) :: u32) = unat b div 16" for b :: u8
proof -
  show "unat (ucast b AND 15 :: u32) = unat b mod 16"
    unfolding and15 unsigned_take_bit_eq by (simp add: unat_ucast_up take_bit_eq_mod)
  show "unat (ucast (drop_bit 4 b) :: u32) = unat b div 16" by (simp add: unat_ucast_up unat_drop_bit_eq drop_bit_eq_div unat_div)
qed

lemma decode_s_bad:
  assumes "length enc = n * 128" and "b \<in> set enc" "bad_byte b"
  shows "decode_s mldsa65 enc = None"
proof -
  have bits: "range_bits 4 4 = 4" by (simp add: range_bits_def bit_length_def ilog2.simps)
  have "concat (chunks 128 enc) = enc" using concat_chunks [of 128 enc n] assms(1) by simp
  then obtain c where c: "c \<in> set (chunks 128 enc)" "b \<in> set c" using assms(2) by (metis UN_E set_concat)
  have "\<not> (ucast b AND 15 \<le> (8 :: u32) \<and> ucast (drop_bit 4 b) \<le> (8 :: u32))"
    using assms(3) unfolding word_le_nat_alt nibbles_unat bad_byte_def by auto
  then have "bit_unpack 4 4 c = None"
    using c(2) by (auto simp: bit_unpack_def bits byte_decode_nibbles Let_def list_all_iff elem_add_def small_reduce_def MLDSA_Q_def)
  moreover have "those xs = None" if "None \<in> set xs" for xs :: "poly option list"
    using that by (induction xs) (auto split: option.splits)
  ultimately have "those (map (bit_unpack 4 4) (chunks 128 enc)) = None" using c(1) by (metis image_eqI list.set_map)
  then show ?thesis by (simp add: decode_s_def vec_unpack_def bits)
qed

text \<open>C19. Any 4032 bytes are taken for a signing key. If a byte of the part that encodes the secret vectors holds a digit
  above 8, using the key panics, in signing and in the derivation of the verifying key.\<close>

theorem b65_invalid_keys_panic:
  assumes "length sk = 4032" and "128 \<le> i" "i < 1536" and "bad_byte (sk ! i)"
  shows "b65_key_from_bytes sk = Inr sk \<and> b65_verifying_key xof sk = Panic \<and> b65_sign xof sk m = Panic"
proof -
  have bits: "eta_bits mldsa65 = 4" by (simp add: eta_bits_def range_bits_def bit_length_def ilog2.simps)
  have "sk ! i \<in> set (sub_slice 128 768 sk) \<or> sk ! i \<in> set (sub_slice 768 1536 sk)"
  proof (cases "i < 768")
    case True
    have "sub_slice 128 768 sk ! (i - 128) = sk ! i" "i - 128 < length (sub_slice 128 768 sk)" using assms(1,2) True by (simp_all add: sub_slice_def)
    then show ?thesis by (metis nth_mem)
  next
    case False
    have "sub_slice 768 1536 sk ! (i - 768) = sk ! i" "i - 768 < length (sub_slice 768 1536 sk)" using assms(1,3) False by (simp_all add: sub_slice_def)
    then show ?thesis by (metis nth_mem)
  qed
  moreover have "length (sub_slice 128 768 sk) = 5 * 128" "length (sub_slice 768 1536 sk) = 6 * 128" using assms(1) by (simp_all add: sub_slice_def)
  ultimately have "decode_s mldsa65 (sub_slice 128 768 sk) = None \<or> decode_s mldsa65 (sub_slice 768 1536 sk) = None"
    using decode_s_bad assms(4) by metis
  then have "decode_signing_key mldsa65 (b3_suite xof) sk = None"
    unfolding decode_signing_key_def Let_def bits by (cases "decode_s mldsa65 (sub_slice 128 768 sk)") simp_all
  then show ?thesis
    using assms(1) by (simp add: b65_key_from_bytes_def B65_SECRET_KEY_SIZE_def b65_verifying_key_def b65_sign_def b65_sign_with_context_def)
qed

theorem b65_invalid_keys_panic_witness:
  "b65_key_from_bytes (replicate 4032 0xFF) = Inr (replicate 4032 0xFF) \<and> b65_sign steady_xof (replicate 4032 0xFF) [1] = Panic"
  using b65_invalid_keys_panic [of "replicate 4032 0xFF" 128 steady_xof "[1]"] by (simp add: bad_byte_def)

end
