(* ===== verification/Mldsa_Scheme.thy ===== *)
theory Mldsa_Scheme
  imports Mldsa_Api
begin

text \<open>
  The two ML-DSA-65 schemes behind one interface: ML-DSA-65 of FIPS 204 (\<open>mldsa65.rs\<close>), a wrapper
  of the crate fips204 with its random number generators, and the trait \<open>MlDsaScheme\<close> with its two
  implementations (\<open>mldsa.rs\<close>). The crate is the record \<open>fips204\<close> of parameters with its documented
  laws \<open>fips_ok\<close>.
\<close>

section \<open>Random number generators\<close>

text \<open>A generator as the crate sees it through \<open>RngCore\<close>: asked for a number of bytes it fails, or returns them and
  the generator that is left.\<close>

codatatype rng = Rng (try_fill: "nat \<Rightarrow> (bytes \<times> rng) option")

text \<open>\<open>fill_bytes\<close> and the integers drawn through it panic where \<open>try_fill_bytes\<close> fails.\<close>

definition rng_fill :: "rng \<Rightarrow> nat \<Rightarrow> (bytes \<times> rng) outcome" where "rng_fill r n = or_panic (try_fill r n)"

definition next_u32 :: "rng \<Rightarrow> (u32 \<times> rng) outcome" where
  "next_u32 r = bind_out (rng_fill r 4) (\<lambda>(buf, r). Done (le_word buf, r))"

definition next_u64 :: "rng \<Rightarrow> (u64 \<times> rng) outcome" where
  "next_u64 r = bind_out (rng_fill r 8) (\<lambda>(buf, r). Done (le_word buf, r))"

text \<open>The adapter of the system generator draws eight bytes when it is made.\<close>

definition csprng_new :: "rng \<Rightarrow> rng result" where
  "csprng_new sys = (case try_fill sys 8 of None \<Rightarrow> Inl RngFailure | Some (test, sys) \<Rightarrow> Inr sys)"

record det_rng =
  dr_state :: bytes
  dr_counter :: u64

definition det_new :: "bytes \<Rightarrow> det_rng" where "det_new seed = \<lparr>dr_state = seed, dr_counter = 0\<rparr>"

definition next_block :: "primitives \<Rightarrow> det_rng \<Rightarrow> bytes \<times> det_rng" where
  "next_block p r =
     (let input = dr_state r @ le_bytes 8 (dr_counter r); state = blake3_hash p input in
      (state, \<lparr>dr_state = state, dr_counter = dr_counter r + 1\<rparr>))"

fun det_fill :: "primitives \<Rightarrow> nat \<Rightarrow> det_rng \<Rightarrow> bytes \<times> det_rng" where
  "det_fill p n r =
     (if n = 0 then ([], r)
      else let (block, r) = next_block p r; copy_len = min 32 n; (rest, r) = det_fill p (n - copy_len) r in
           (take copy_len block @ rest, r))"

declare det_fill.simps [simp del]

primcorec det_object :: "primitives \<Rightarrow> det_rng \<Rightarrow> rng" where
  "det_object p r = Rng (\<lambda>n. map_option (map_prod id (det_object p)) (Some (det_fill p n r)))"

lemma det_fill_length: "prims_ok p \<Longrightarrow> length (fst (det_fill p n r)) = n"
proof (induction p n r rule: det_fill.induct)
  case (1 p n r)
  show ?case
  proof (cases "n = 0")
    case False
    obtain block r' where b: "next_block p r = (block, r')" by force
    then have "length block = 32" using 1(2) by (auto simp: next_block_def Let_def)
    moreover obtain rest r'' where "det_fill p (n - min 32 n) r' = (rest, r'')" by force
    moreover from this have "length rest = n - min 32 n" using 1(1) [OF False b [symmetric] refl refl 1(2)] b by simp
    ultimately show ?thesis using False b by (subst det_fill.simps) (simp add: Let_def)
  qed (simp add: det_fill.simps)
qed

text \<open>The generator made from a seed never fails, and it delivers what is asked for.\<close>

lemma det_object_fills:
  assumes "prims_ok p"
  obtains bs r' where "try_fill (det_object p r) n = Some (bs, det_object p r')" "length bs = n"
  using det_fill_length [OF assms, of n r] by (cases "det_fill p n r") (simp add: det_object.sel)

section \<open>ML-DSA-65 of FIPS 204\<close>

record fips204 =
  fp_keygen :: "rng \<Rightarrow> (bytes \<times> bytes) option"  \<comment> \<open>public, private\<close>
  fp_private_ok :: "bytes \<Rightarrow> bool"  \<comment> \<open>\<open>PrivateKey::try_from_bytes\<close> succeeds\<close>
  fp_public_key :: "bytes \<Rightarrow> bytes"
  fp_sign :: "rng \<Rightarrow> bytes \<Rightarrow> bytes \<Rightarrow> bytes \<Rightarrow> bytes option"  \<comment> \<open>private key, message, context\<close>
  fp_public_ok :: "bytes \<Rightarrow> bool"
  fp_verify :: "bytes \<Rightarrow> bytes \<Rightarrow> bytes \<Rightarrow> bytes \<Rightarrow> bool"  \<comment> \<open>public key, message, signature, context\<close>

definition F65_PUBLIC_KEY_SIZE :: nat where "F65_PUBLIC_KEY_SIZE = 1952"
definition F65_SECRET_KEY_SIZE :: nat where "F65_SECRET_KEY_SIZE = 4032"
definition F65_SIGNATURE_SIZE :: nat where "F65_SIGNATURE_SIZE = 3309"
definition MLDSA_HEDGE_CONTEXT :: string where "MLDSA_HEDGE_CONTEXT = ''trelis-mldsa-hedge-v1''"

definition f65_keygen :: "fips204 \<Rightarrow> rng \<Rightarrow> bytes result" where
  "f65_keygen F rng = (case fp_keygen F rng of None \<Rightarrow> Inl KeyGenerationFailed | Some (pk, sk) \<Rightarrow> Inr sk)"

definition f65_generate :: "fips204 \<Rightarrow> rng \<Rightarrow> bytes result" where
  "f65_generate F sys = tryR (csprng_new sys) (\<lambda>rng. f65_keygen F rng)"

definition f65_generate_from_seed :: "fips204 \<Rightarrow> primitives \<Rightarrow> bytes \<Rightarrow> bytes result" where
  "f65_generate_from_seed F p seed = f65_keygen F (det_object p (det_new seed))"

definition f65_key_from_bytes :: "fips204 \<Rightarrow> bytes \<Rightarrow> bytes result" where
  "f65_key_from_bytes F bs =
     (if length bs \<noteq> F65_SECRET_KEY_SIZE then Inl (InvalidKeyLength F65_SECRET_KEY_SIZE (length bs))
      else if fp_private_ok F bs then Inr bs else Inl KeyGenerationFailed)"

text \<open>Every use parses the key again and expects that to succeed.\<close>

definition f65_parsed :: "fips204 \<Rightarrow> bytes \<Rightarrow> bytes outcome" where
  "f65_parsed F sk = (if fp_private_ok F sk then Done sk else Panic)"

definition f65_verifying_key :: "fips204 \<Rightarrow> bytes \<Rightarrow> bytes outcome" where
  "f65_verifying_key F sk = bind_out (f65_parsed F sk) (\<lambda>sk. Done (fp_public_key F sk))"

definition f65_sign_with :: "fips204 \<Rightarrow> rng \<Rightarrow> bytes \<Rightarrow> bytes \<Rightarrow> bytes \<Rightarrow> bytes outcome" where
  "f65_sign_with F rng sk message ctx =
     (case fp_sign F rng sk message ctx of None \<Rightarrow> Fail InvalidSignature | Some sig \<Rightarrow> Done sig)"

definition f65_sign :: "fips204 \<Rightarrow> rng \<Rightarrow> bytes \<Rightarrow> bytes \<Rightarrow> bytes outcome" where
  "f65_sign F sys sk message =
     bind_out (f65_parsed F sk) (\<lambda>sk. bind_out (of_result (csprng_new sys)) (\<lambda>rng. f65_sign_with F rng sk message []))"

definition f65_sign_with_context :: "fips204 \<Rightarrow> rng \<Rightarrow> bytes \<Rightarrow> bytes \<Rightarrow> bytes \<Rightarrow> bytes outcome" where
  "f65_sign_with_context F sys sk message ctx =
     (if 255 < length ctx then Fail (InvalidContextLength (length ctx) 255)
      else bind_out (f65_parsed F sk) (\<lambda>sk. bind_out (of_result (csprng_new sys)) (\<lambda>rng. f65_sign_with F rng sk message ctx)))"

definition f65_sign_hedged :: "fips204 \<Rightarrow> primitives \<Rightarrow> bytes option \<Rightarrow> bytes \<Rightarrow> bytes \<Rightarrow> bytes outcome" where
  "f65_sign_hedged F p rand sk message =
     bind_out (of_result (fill_bytes rand)) (\<lambda>fresh_random.
       let hedge_entropy = blake3_derive_key p MLDSA_HEDGE_CONTEXT (fresh_random @ message); rng = det_object p (det_new hedge_entropy) in
     bind_out (f65_parsed F sk) (\<lambda>sk. f65_sign_with F rng sk message []))"

definition f65_vk_from_array :: "fips204 \<Rightarrow> bytes \<Rightarrow> bytes result" where
  "f65_vk_from_array F bs = (if fp_public_ok F bs then Inr bs else Inl SignatureVerificationFailed)"

definition f65_vk_from_bytes :: "fips204 \<Rightarrow> bytes \<Rightarrow> bytes result" where
  "f65_vk_from_bytes F bs =
     (if length bs \<noteq> F65_PUBLIC_KEY_SIZE then Inl (InvalidKeyLength F65_PUBLIC_KEY_SIZE (length bs)) else f65_vk_from_array F bs)"

definition f65_verify_with_context :: "fips204 \<Rightarrow> bytes \<Rightarrow> bytes \<Rightarrow> bytes \<Rightarrow> bytes \<Rightarrow> unit result" where
  "f65_verify_with_context F vk message ctx signature =
     (if 255 < length ctx then Inl (InvalidContextLength (length ctx) 255)
      else if \<not> fp_public_ok F vk then Inl SignatureVerificationFailed
      else if fp_verify F vk message signature ctx then Inr () else Inl SignatureVerificationFailed)"

definition f65_verify :: "fips204 \<Rightarrow> bytes \<Rightarrow> bytes \<Rightarrow> bytes \<Rightarrow> unit result" where
  "f65_verify F vk message signature =
     (if \<not> fp_public_ok F vk then Inl SignatureVerificationFailed
      else if fp_verify F vk message signature [] then Inr () else Inl SignatureVerificationFailed)"

definition f65_signature_from_bytes :: "bytes \<Rightarrow> bytes result" where
  "f65_signature_from_bytes bs = (if length bs \<noteq> F65_SIGNATURE_SIZE then Inl InvalidSignature else Inr bs)"

text \<open>What the crate documents: sizes, keys that parse, signatures that verify with their context.\<close>

definition fips_ok :: "fips204 \<Rightarrow> bool" where
  "fips_ok F \<longleftrightarrow>
     (\<forall>rng pk sk. fp_keygen F rng = Some (pk, sk) \<longrightarrow> length sk = 4032 \<and> fp_private_ok F sk \<and> fp_public_key F sk = pk)
   \<and> (\<forall>sk. fp_private_ok F sk \<longrightarrow> length (fp_public_key F sk) = 1952 \<and> fp_public_ok F (fp_public_key F sk))
   \<and> (\<forall>rng pk sk rng' m ctx sig. fp_keygen F rng = Some (pk, sk) \<longrightarrow> length ctx \<le> 255 \<longrightarrow> fp_sign F rng' sk m ctx = Some sig \<longrightarrow>
        length sig = 3309 \<and> fp_verify F pk m sig ctx)"

section \<open>The scheme interface\<close>

text \<open>The trait \<open>MlDsaScheme\<close>: keys and signatures are their bytes; the signing calls take what the system generator delivers.\<close>

record mldsa_scheme =
  sc_public_key_size :: nat
  sc_secret_key_size :: nat
  sc_signature_size :: nat
  sc_generate :: "rng \<Rightarrow> bytes outcome"
  sc_generate_from_seed :: "bytes \<Rightarrow> bytes outcome"
  sc_verifying_key :: "bytes \<Rightarrow> bytes outcome"
  sc_sign :: "rng \<Rightarrow> bytes \<Rightarrow> bytes \<Rightarrow> bytes outcome"
  sc_sign_hedged :: "rng \<Rightarrow> bytes \<Rightarrow> bytes \<Rightarrow> bytes outcome"
  sc_sign_with_context :: "rng \<Rightarrow> bytes \<Rightarrow> bytes \<Rightarrow> bytes \<Rightarrow> bytes outcome"
  sc_verify :: "bytes \<Rightarrow> bytes \<Rightarrow> bytes \<Rightarrow> unit outcome"
  sc_verify_with_context :: "bytes \<Rightarrow> bytes \<Rightarrow> bytes \<Rightarrow> bytes \<Rightarrow> unit outcome"
  sc_signing_key_from_bytes :: "bytes \<Rightarrow> bytes result"
  sc_verifying_key_from_bytes :: "bytes \<Rightarrow> bytes result"
  sc_signature_from_bytes :: "bytes \<Rightarrow> bytes result"

definition draw :: "rng \<Rightarrow> nat \<Rightarrow> bytes option" where "draw sys n = map_option fst (try_fill sys n)"

definition MlDsa65Fips204 :: "fips204 \<Rightarrow> primitives \<Rightarrow> mldsa_scheme" where
  "MlDsa65Fips204 F p =
     \<lparr>sc_public_key_size = F65_PUBLIC_KEY_SIZE, sc_secret_key_size = F65_SECRET_KEY_SIZE, sc_signature_size = F65_SIGNATURE_SIZE,
      sc_generate = (\<lambda>sys. of_result (f65_generate F sys)), sc_generate_from_seed = (\<lambda>seed. of_result (f65_generate_from_seed F p seed)),
      sc_verifying_key = f65_verifying_key F, sc_sign = f65_sign F, sc_sign_hedged = (\<lambda>sys. f65_sign_hedged F p (draw sys 32)),
      sc_sign_with_context = f65_sign_with_context F, sc_verify = (\<lambda>vk m s. of_result (f65_verify F vk m s)),
      sc_verify_with_context = (\<lambda>vk m ctx s. of_result (f65_verify_with_context F vk m ctx s)),
      sc_signing_key_from_bytes = f65_key_from_bytes F, sc_verifying_key_from_bytes = f65_vk_from_bytes F,
      sc_signature_from_bytes = f65_signature_from_bytes\<rparr>"

text \<open>The BLAKE3 scheme signs deterministically and keeps the trait's \<open>sign_hedged\<close>, which is \<open>sign\<close>.\<close>

definition MlDsa65Blake3 :: "blake3_xof \<Rightarrow> mldsa_scheme" where
  "MlDsa65Blake3 xof =
     \<lparr>sc_public_key_size = B65_PUBLIC_KEY_SIZE, sc_secret_key_size = B65_SECRET_KEY_SIZE, sc_signature_size = B65_SIGNATURE_SIZE,
      sc_generate = (\<lambda>sys. b65_generate xof (draw sys 32)), sc_generate_from_seed = b65_generate_from_seed xof,
      sc_verifying_key = b65_verifying_key xof, sc_sign = (\<lambda>sys. b65_sign xof), sc_sign_hedged = (\<lambda>sys. b65_sign xof),
      sc_sign_with_context = (\<lambda>sys. b65_sign_with_context xof), sc_verify = b65_verify xof,
      sc_verify_with_context = b65_verify_with_context xof, sc_signing_key_from_bytes = b65_key_from_bytes,
      sc_verifying_key_from_bytes = b65_vk_from_bytes, sc_signature_from_bytes = b65_signature_from_bytes\<rparr>"

section \<open>What users of the interface rely on\<close>

text \<open>\<open>key\<close> holds of the signing keys the scheme makes.\<close>

locale mldsa_interface =
  fixes sc :: mldsa_scheme and key :: "bytes \<Rightarrow> bool"
  assumes seeded: "sc_generate_from_seed sc seed = Done sk \<Longrightarrow> key sk"
    and generated: "sc_generate sc sys = Done sk \<Longrightarrow> key sk"
    and key_bytes: "key sk \<Longrightarrow> length sk = sc_secret_key_size sc \<and> sc_signing_key_from_bytes sc sk = Inr sk"
    and verifying: "key sk \<Longrightarrow> \<exists>vk. sc_verifying_key sc sk = Done vk \<and> length vk = sc_public_key_size sc \<and> sc_verifying_key_from_bytes sc vk = Inr vk"
    and context_signed: "key sk \<Longrightarrow> sc_verifying_key sc sk = Done vk \<Longrightarrow> sc_sign_with_context sc sys sk m ctx = Done sig \<Longrightarrow>
      length sig = sc_signature_size sc \<and> sc_verify_with_context sc vk m ctx sig = Done ()"
    and plain_signed: "key sk \<Longrightarrow> sc_verifying_key sc sk = Done vk \<Longrightarrow> sc_sign sc sys sk m = Done sig \<or> sc_sign_hedged sc sys sk m = Done sig \<Longrightarrow>
      length sig = sc_signature_size sc \<and> sc_verify sc vk m sig = Done ()"
    and signature_bytes: "length sig = sc_signature_size sc \<Longrightarrow> sc_signature_from_bytes sc sig = Inr sig"
begin

text \<open>A signature made with a fresh or a seeded key verifies after key and signature have travelled as bytes.\<close>

lemma signature_travels:
  assumes "sc_generate_from_seed sc seed = Done sk \<or> sc_generate sc sys = Done sk"
    and "sc_sign sc sys' sk m = Done sig \<or> sc_sign_hedged sc sys' sk m = Done sig"
  shows "\<exists>sk' vk vk' sig'. sc_signing_key_from_bytes sc sk = Inr sk' \<and> sc_verifying_key sc sk' = Done vk
    \<and> sc_verifying_key_from_bytes sc vk = Inr vk' \<and> sc_signature_from_bytes sc sig = Inr sig' \<and> sc_verify sc vk' m sig' = Done ()"
proof -
  have k: "key sk" using assms(1) seeded generated by blast
  obtain vk where vk: "sc_verifying_key sc sk = Done vk" "sc_verifying_key_from_bytes sc vk = Inr vk" using verifying [OF k] by blast
  show ?thesis using key_bytes [OF k] vk plain_signed [OF k vk(1) assms(2)] signature_bytes by blast
qed

end

definition b65_key :: "blake3_xof \<Rightarrow> bytes \<Rightarrow> bool" where "b65_key xof sk \<longleftrightarrow> (\<exists>seed. b65_generate_from_seed xof seed = Done sk)"

interpretation b65: mldsa_interface "MlDsa65Blake3 xof" "b65_key xof" for xof
proof
  show "b65_key xof sk" if "sc_generate_from_seed (MlDsa65Blake3 xof) seed = Done sk" for seed sk
    using that by (auto simp: MlDsa65Blake3_def b65_key_def)
  show "b65_key xof sk" if "sc_generate (MlDsa65Blake3 xof) sys = Done sk" for sys sk
    using that by (auto simp: MlDsa65Blake3_def b65_key_def b65_generate_def bind_out_eq_Done)
  have signed: "length sig = 3309 \<and> b65_verify_with_context xof vk m ctx sig = Done ()"
    if k: "b65_key xof sk" and vk: "b65_verifying_key xof sk = Done vk" and sig: "b65_sign_with_context xof sk m ctx = Done sig" for sk vk m ctx sig
  proof -
    obtain seed where "b65_generate_from_seed xof seed = Done sk" using k by (auto simp: b65_key_def)
    from b65_generated [OF this] obtain key vk0 where "decode_signing_key mldsa65 (b3_suite xof) sk = Some key"
      "signing_key_ok mldsa65 (b3_suite xof) key" "keys_match key vk0" "b65_verifying_key xof sk = Done (encode_verifying_key vk0)"
      "decode_verifying_key mldsa65 (b3_suite xof) (encode_verifying_key vk0) = Some vk0" by metis
    then show ?thesis using b65_signed vk sig by auto
  qed
  fix sk assume "b65_key xof sk"
  then obtain seed where seed: "b65_generate_from_seed xof seed = Done sk" by (auto simp: b65_key_def)
  show "length sk = sc_secret_key_size (MlDsa65Blake3 xof) \<and> sc_signing_key_from_bytes (MlDsa65Blake3 xof) sk = Inr sk"
    using b65_generated [OF seed] by (auto simp: MlDsa65Blake3_def b65_key_from_bytes_def B65_SECRET_KEY_SIZE_def)
  show "\<exists>vk. sc_verifying_key (MlDsa65Blake3 xof) sk = Done vk \<and> length vk = sc_public_key_size (MlDsa65Blake3 xof)
      \<and> sc_verifying_key_from_bytes (MlDsa65Blake3 xof) vk = Inr vk"
    using b65_generated [OF seed] by (auto simp: MlDsa65Blake3_def b65_vk_from_bytes_def B65_PUBLIC_KEY_SIZE_def)
  show "length sig = sc_signature_size (MlDsa65Blake3 xof) \<and> sc_verify_with_context (MlDsa65Blake3 xof) vk m ctx sig = Done ()"
    if "sc_verifying_key (MlDsa65Blake3 xof) sk = Done vk" "sc_sign_with_context (MlDsa65Blake3 xof) sys sk m ctx = Done sig" for vk sys m ctx sig
    using that signed [OF \<open>b65_key xof sk\<close>] by (simp add: MlDsa65Blake3_def B65_SIGNATURE_SIZE_def)
  show "length sig = sc_signature_size (MlDsa65Blake3 xof) \<and> sc_verify (MlDsa65Blake3 xof) vk m sig = Done ()"
    if "sc_verifying_key (MlDsa65Blake3 xof) sk = Done vk"
      "sc_sign (MlDsa65Blake3 xof) sys sk m = Done sig \<or> sc_sign_hedged (MlDsa65Blake3 xof) sys sk m = Done sig" for vk sys m sig
    using that signed [OF \<open>b65_key xof sk\<close>] by (auto simp: MlDsa65Blake3_def B65_SIGNATURE_SIZE_def b65_sign_def b65_verify_def)
next
  show "sc_signature_from_bytes (MlDsa65Blake3 xof) sig = Inr sig" if "length sig = sc_signature_size (MlDsa65Blake3 xof)" for sig
    using that by (simp add: MlDsa65Blake3_def b65_signature_from_bytes_def)
qed

text \<open>The same contract from the documented laws of the crate; keys that a constructor returned are accepted, so the
  \<open>expect\<close> on parsing them again does not fire.\<close>

definition f65_key :: "fips204 \<Rightarrow> bytes \<Rightarrow> bool" where "f65_key F sk \<longleftrightarrow> (\<exists>rng pk. fp_keygen F rng = Some (pk, sk))"

lemma fips_keys:
  assumes "fips_ok F" and "f65_key F sk"
  shows "length sk = 4032" "fp_private_ok F sk" "length (fp_public_key F sk) = 1952" "fp_public_ok F (fp_public_key F sk)"
  using assms unfolding fips_ok_def f65_key_def by blast+

lemma fips_signed:
  assumes "fips_ok F" and "f65_key F sk" and "length ctx \<le> 255" and "fp_sign F rng sk m ctx = Some sig"
  shows "length sig = 3309" "fp_verify F (fp_public_key F sk) m sig ctx"
  using assms unfolding fips_ok_def f65_key_def by metis+

lemma f65_sign_with_Done: "f65_sign_with F rng sk m ctx = Done sig \<longleftrightarrow> fp_sign F rng sk m ctx = Some sig"
  by (simp add: f65_sign_with_def split: option.splits)

lemma f65_keygen_key: "f65_keygen F rng = Inr sk \<Longrightarrow> f65_key F sk"
  by (auto simp: f65_keygen_def f65_key_def split: option.splits)

lemma fips_interface:
  assumes F: "fips_ok F"
  shows "mldsa_interface (MlDsa65Fips204 F p) (f65_key F)"
proof
  show "f65_key F sk" if "sc_generate_from_seed (MlDsa65Fips204 F p) seed = Done sk" for seed sk
    using that by (auto simp: MlDsa65Fips204_def f65_generate_from_seed_def intro: f65_keygen_key)
  show "f65_key F sk" if "sc_generate (MlDsa65Fips204 F p) sys = Done sk" for sys sk
    using that by (auto simp: MlDsa65Fips204_def f65_generate_def tryR_def intro: f65_keygen_key split: sum.splits)
  fix sk assume k: "f65_key F sk"
  note fk = fips_keys [OF F k]
  show "length sk = sc_secret_key_size (MlDsa65Fips204 F p) \<and> sc_signing_key_from_bytes (MlDsa65Fips204 F p) sk = Inr sk"
    using fk by (simp add: MlDsa65Fips204_def f65_key_from_bytes_def F65_SECRET_KEY_SIZE_def)
  show "\<exists>vk. sc_verifying_key (MlDsa65Fips204 F p) sk = Done vk \<and> length vk = sc_public_key_size (MlDsa65Fips204 F p)
      \<and> sc_verifying_key_from_bytes (MlDsa65Fips204 F p) vk = Inr vk"
    using fk by (simp add: MlDsa65Fips204_def f65_verifying_key_def f65_parsed_def f65_vk_from_bytes_def f65_vk_from_array_def F65_PUBLIC_KEY_SIZE_def)
  show "length sig = sc_signature_size (MlDsa65Fips204 F p) \<and> sc_verify_with_context (MlDsa65Fips204 F p) vk m ctx sig = Done ()"
    if "sc_verifying_key (MlDsa65Fips204 F p) sk = Done vk" "sc_sign_with_context (MlDsa65Fips204 F p) sys sk m ctx = Done sig" for vk sys m ctx sig
    using that fk fips_signed [OF F k]
    by (auto simp: MlDsa65Fips204_def f65_verifying_key_def f65_parsed_def f65_sign_with_context_def f65_sign_with_Done bind_out_eq_Done
        f65_verify_with_context_def F65_SIGNATURE_SIZE_def not_less split: if_splits)
  show "length sig = sc_signature_size (MlDsa65Fips204 F p) \<and> sc_verify (MlDsa65Fips204 F p) vk m sig = Done ()"
    if "sc_verifying_key (MlDsa65Fips204 F p) sk = Done vk"
      "sc_sign (MlDsa65Fips204 F p) sys sk m = Done sig \<or> sc_sign_hedged (MlDsa65Fips204 F p) sys sk m = Done sig" for vk sys m sig
    using that fk fips_signed [OF F k, of "[]"]
    by (auto simp: MlDsa65Fips204_def f65_verifying_key_def f65_parsed_def f65_sign_def f65_sign_hedged_def f65_sign_with_Done bind_out_eq_Done
        Let_def f65_verify_def F65_SIGNATURE_SIZE_def)
next
  show "sc_signature_from_bytes (MlDsa65Fips204 F p) sig = Inr sig" if "length sig = sc_signature_size (MlDsa65Fips204 F p)" for sig
    using that by (simp add: MlDsa65Fips204_def f65_signature_from_bytes_def)
qed

lemma of_result_not_panic [simp]: "of_result r \<noteq> Panic" by (cases r) simp_all

lemma constructed_keys_parse:
  assumes "fips_ok F" and "f65_key_from_bytes F bs = Inr sk \<or> f65_generate F sys = Inr sk \<or> f65_generate_from_seed F p seed = Inr sk"
  shows "f65_verifying_key F sk \<noteq> Panic" "f65_sign F sys' sk m \<noteq> Panic" "f65_sign_hedged F p rand sk m \<noteq> Panic"
proof -
  have "fp_private_ok F sk"
    using assms fips_keys(2) f65_keygen_key
    by (auto simp: f65_key_from_bytes_def f65_generate_def f65_generate_from_seed_def tryR_def split: if_splits sum.splits)
  then show "f65_verifying_key F sk \<noteq> Panic" "f65_sign F sys' sk m \<noteq> Panic" "f65_sign_hedged F p rand sk m \<noteq> Panic"
    by (auto simp: f65_verifying_key_def f65_parsed_def f65_sign_def f65_sign_hedged_def f65_sign_with_def bind_out_def Let_def
        split: outcome.splits option.splits)
qed

end
