(* ===== verification/Mldsa_Hybrid.thy ===== *)
theory Mldsa_Hybrid
  imports Mldsa_Scheme Hybrid_Signature
begin

text \<open>
  Hybrid signatures over the two ML-DSA schemes of the code: \<open>HybridSigningKeypair<S>\<close>
  (\<open>trelis-hybrid/src/signature.rs\<close>) for \<open>S = MlDsa65Blake3\<close>, whose ML-DSA is modelled down to the
  arithmetic, and for \<open>S = MlDsa65Fips204\<close>, a wrapper of the crate fips204. The laws that hybrid
  signatures need of a scheme are proved here for the first and follow from what the crate
  documents for the second; in both cases they are about the keys the scheme generates.
\<close>

section \<open>A scheme as the ML-DSA half\<close>

text \<open>The system generator that delivers the given bytes and then fails.\<close>

primcorec rng_of :: "bytes \<Rightarrow> rng" where
  "rng_of e = Rng (\<lambda>n. map_option (map_prod id rng_of) (if n \<le> length e then Some (take n e, drop n e) else None))"

text \<open>A panic of the scheme ends the caller; as a result it counts as an error. None occurs on a
  generated key.\<close>

definition settle :: "'a outcome \<Rightarrow> 'a result" where
  "settle x = (case x of Done y \<Rightarrow> Inr y | Fail e \<Rightarrow> Inl e | Panic \<Rightarrow> Inl SignatureVerificationFailed)"

definition with_scheme :: "sig_suite \<Rightarrow> mldsa_scheme \<Rightarrow> sig_suite" where
  "with_scheme g sc = g\<lparr>
     md_generate := \<lambda>e. settle (sc_generate sc (rng_of e)),
     md_generate_from_seed := \<lambda>seed. settle (sc_generate_from_seed sc seed),
     md_verifying_key := \<lambda>sk. (case sc_verifying_key sc sk of Done vk \<Rightarrow> vk | _ \<Rightarrow> []),
     md_sign_hedged := \<lambda>e sk m. settle (sc_sign_hedged sc (rng_of e) sk m),
     md_verify := \<lambda>vk m s. settle (sc_verify sc vk m s),
     md_key_from_bytes := sc_signing_key_from_bytes sc,
     md_vk_from_bytes := sc_verifying_key_from_bytes sc,
     md_sig_from_bytes := sc_signature_from_bytes sc\<rparr>"

lemma settle_Inr [simp]: "settle x = Inr y \<longleftrightarrow> x = Done y"
  by (cases x) (simp_all add: settle_def)

lemma with_scheme_group [simp]: "group_ok (with_scheme g sc) = group_ok g"
  by (simp add: group_ok_def with_scheme_def bop_secret_scalar_def)

section \<open>What hybrid signatures need of a scheme\<close>

locale hybrid_scheme = mldsa_interface +
  assumes sizes: "sc_public_key_size sc = 1952" "sc_secret_key_size sc = 4032" "sc_signature_size sc = 3309"
    and exact: "sc_signing_key_from_bytes sc bs = Inr v \<Longrightarrow> v = bs" "sc_verifying_key_from_bytes sc bs = Inr v \<Longrightarrow> v = bs"
      "sc_signature_from_bytes sc bs = Inr v \<Longrightarrow> v = bs"
begin

lemma generated_keys: "md_key (with_scheme g sc) sk \<Longrightarrow> key sk"
  using seeded generated by (auto simp: md_key_def with_scheme_def)

lemma suite: "group_ok g \<Longrightarrow> suite_ok (with_scheme g sc)"
  unfolding suite_ok_def mldsa_ok_def
proof (intro conjI allI impI)
  assume "group_ok g"
  then show "group_ok (with_scheme g sc)" by simp
next
  fix sk assume "md_key (with_scheme g sc) sk"
  then have k: "key sk" by (rule generated_keys)
  obtain vk where vk: "sc_verifying_key sc sk = Done vk" "length vk = sc_public_key_size sc" "sc_verifying_key_from_bytes sc vk = Inr vk"
    using verifying [OF k] by blast
  show "length (md_verifying_key (with_scheme g sc) sk) = 1952"
    "md_vk_from_bytes (with_scheme g sc) (md_verifying_key (with_scheme g sc) sk) = Inr (md_verifying_key (with_scheme g sc) sk)"
    using vk sizes(1) by (simp_all add: with_scheme_def)
  fix e m s assume "md_sign_hedged (with_scheme g sc) e sk m = Inr s"
  then have "sc_sign_hedged sc (rng_of e) sk m = Done s" by (simp add: with_scheme_def)
  then have s: "length s = sc_signature_size sc" "sc_verify sc vk m s = Done ()" using plain_signed [OF k vk(1)] by blast+
  then show "length s = 3309" "md_sig_from_bytes (with_scheme g sc) s = Inr s"
    "md_verify (with_scheme g sc) (md_verifying_key (with_scheme g sc) sk) m s = Inr ()"
    using sizes(3) signature_bytes [OF s(1)] vk(1) by (simp_all add: with_scheme_def)
qed (use exact in \<open>auto simp: with_scheme_def\<close>)

text \<open>A generated hybrid key pair is well formed, and it survives its encoding.\<close>

lemma generated_keypair:
  assumes g: "group_ok g" and p: "prims_ok p" and rand: "\<forall>r. rand = Some r \<longrightarrow> length r = 57"
    and kp: "signing_generate (with_scheme g sc) rand md_rand = Inr kp \<or> signing_generate_from_seed p (with_scheme g sc) seed = Inr kp"
  shows "signing_keypair_wf (with_scheme g sc) kp"
    "signing_keypair_from_bytes (with_scheme g sc) (signing_keypair_to_bytes kp) = Inr kp"
proof -
  obtain ed md where k: "length ed = 57" "md_key (with_scheme g sc) md"
    "kp = signing_from_components (with_scheme g sc) (ed448_from_seed (with_scheme g sc) ed) md"
    using kp
  proof (elim disjE)
    assume "signing_generate (with_scheme g sc) rand md_rand = Inr kp"
    then show thesis
      using that rand by (cases rand)
        (auto simp: signing_generate_def try_simps ed448_generate_def ed448_from_seed_def signing_from_components_def md_key_def)
  next
    assume "signing_generate_from_seed p (with_scheme g sc) seed = Inr kp"
    then obtain md where md: "md_generate_from_seed (with_scheme g sc) (derive_key p HYBRID_SIGNING_MLDSA_SEED_CONTEXT seed) = Inr md"
      "kp = signing_from_components (with_scheme g sc) (ed448_from_seed (with_scheme g sc)
        (derive_key p HYBRID_SIGNING_ED448_SEED_CONTEXT seed @ take 25 (derive_key p HYBRID_SIGNING_ED448_SEED_CONTEXT_2 seed))) md"
      by (auto simp: signing_generate_from_seed_def Let_def try_simps signing_from_components_def)
    have "length (derive_key p HYBRID_SIGNING_ED448_SEED_CONTEXT seed @ take 25 (derive_key p HYBRID_SIGNING_ED448_SEED_CONTEXT_2 seed)) = 57"
      using p by (simp add: derive_key_def)
    moreover have "md_key (with_scheme g sc) md" using md(1) by (auto simp: md_key_def)
    ultimately show thesis using md(2) by (rule that)
  qed
  then show "signing_keypair_wf (with_scheme g sc) kp"
    using suite [OF g] by (simp add: signing_keypair_wf_def signing_from_components_def ed448_from_seed_def)
  have "key md" using k(2) by (rule generated_keys)
  then have "length md = 4032" "md_key_from_bytes (with_scheme g sc) md = Inr md"
    using key_bytes sizes(2) by (simp_all add: with_scheme_def)
  then show "signing_keypair_from_bytes (with_scheme g sc) (signing_keypair_to_bytes kp) = Inr kp"
    using k(1,3)
    by (simp add: signing_keypair_from_bytes_def signing_keypair_to_bytes_def signing_from_components_def ed448_from_seed_def Let_def)
qed

end

interpretation hybrid_b65: hybrid_scheme "MlDsa65Blake3 xof" "b65_key xof" for xof
  by unfold_locales (auto simp: MlDsa65Blake3_def B65_PUBLIC_KEY_SIZE_def B65_SECRET_KEY_SIZE_def B65_SIGNATURE_SIZE_def
      b65_key_from_bytes_def b65_vk_from_bytes_def b65_signature_from_bytes_def split: if_splits)

lemma hybrid_fips:
  assumes "fips_ok F"
  shows "hybrid_scheme (MlDsa65Fips204 F p) (f65_key F)"
proof (rule hybrid_scheme.intro [OF fips_interface [OF assms]], unfold_locales)
qed (auto simp: MlDsa65Fips204_def F65_PUBLIC_KEY_SIZE_def F65_SECRET_KEY_SIZE_def F65_SIGNATURE_SIZE_def
      f65_key_from_bytes_def f65_vk_from_bytes_def f65_vk_from_array_def f65_signature_from_bytes_def split: if_splits)

section \<open>The property\<close>

definition code_scheme :: "primitives \<Rightarrow> mldsa_scheme \<Rightarrow> bool" where
  "code_scheme p sc \<longleftrightarrow> (\<exists>xof. sc = MlDsa65Blake3 xof) \<or> (\<exists>F. fips_ok F \<and> sc = MlDsa65Fips204 F p)"

lemma code_schemes:
  assumes "code_scheme p sc"
  obtains key where "hybrid_scheme sc key"
  using assms hybrid_b65.hybrid_scheme_axioms hybrid_fips unfolding code_scheme_def by blast

text \<open>C14. Hybrid signatures are correct, for each of the code's two ML-DSA schemes: the ML-DSA-B-65 that
  is modelled here, about which nothing is assumed, and the crate's ML-DSA-65 under its documented
  laws for the keys it generates. A key pair that either generator returns survives its encoding,
  and so does its public key; what it signs, plainly, with a context of at most 255 bytes or
  prehashed, its public key verifies in the same mode, and the signature survives its 3366-byte
  encoding, the canonicality check of the response included.\<close>

theorem hybrid_signature_correct:
  assumes "group_ok g" and "prims_ok p" and "code_scheme p sc" and "\<forall>r. rand = Some r \<longrightarrow> length r = 57"
    and "signing_generate (with_scheme g sc) rand md_rand = Inr kp \<or> signing_generate_from_seed p (with_scheme g sc) seed = Inr kp"
  shows "let g' = with_scheme g sc; pk = skp_public kp in
      signing_keypair_from_bytes g' (signing_keypair_to_bytes kp) = Inr kp
    \<and> signing_pk_from_bytes g' (signing_pk_to_bytes pk) = Inr pk
    \<and> (\<forall>s. hybrid_sign p g' coins kp m = Inr s \<longrightarrow>
        hybrid_verify p g' pk m s = Inr () \<and> signature_from_bytes g' (signature_to_bytes s) = Inr s)
    \<and> (\<forall>s. sign_with_context p g' coins kp m ctx = Inr s \<longrightarrow>
        verify_with_context p g' pk m ctx s = Inr () \<and> signature_from_bytes g' (signature_to_bytes s) = Inr s)
    \<and> (\<forall>s. sign_prehashed p g' coins kp str m = Inr s \<longrightarrow>
        verify_prehashed p g' pk str m s = Inr () \<and> signature_from_bytes g' (signature_to_bytes s) = Inr s)"
proof -
  obtain key where sc: "hybrid_scheme sc key" using assms(3) by (rule code_schemes)
  note kp = hybrid_scheme.generated_keypair [OF sc assms(1,2,4,5)]
  have "signing_pk_valid (with_scheme g sc) (skp_public kp)" using kp(1) by (rule keypair_pk_valid)
  then have "signing_pk_from_bytes (with_scheme g sc) (signing_pk_to_bytes (skp_public kp)) = Inr (skp_public kp)"
    using signing_pk_dec_iff hybrid_scheme.suite [OF sc assms(1)] by blast
  then show ?thesis using kp(2) modes_verify [OF kp(1), of p coins m ctx str] by (simp only: Let_def)
qed

text \<open>A key pair over the modelled ML-DSA-B-65 that does sign.\<close>

lemma steady_hybrid_signs:
  obtains kp s where "signing_generate (with_scheme toy_suite (MlDsa65Blake3 steady_xof)) (Some (replicate 57 8)) (replicate 32 7) = Inr kp"
    "hybrid_sign toy_prims (with_scheme toy_suite (MlDsa65Blake3 steady_xof)) (Some (replicate 114 5), []) kp [1, 2, 3] = Inr s"
proof -
  let ?g = "with_scheme toy_suite (MlDsa65Blake3 steady_xof)"
  note p = mldsa65_sizes(1)
  obtain key vk where gen: "mldsa_key_gen mldsa65 steady_suite65 (replicate 32 7) = Some (key, vk)" and z: "zero_key key"
    using steady_key_gen .
  note ok = b3_dsa.key_gen_ok [OF p gen]
  obtain sk where sk: "encode_signing_key mldsa65 key = Some sk" "decode_signing_key mldsa65 steady_suite65 sk = Some key"
    using b3_dsa.signing_key_codec [OF p ok(1)] by metis
  have "b65_generate_from_seed steady_xof (replicate 32 7) = Done sk"
    using gen sk(1) by (simp add: b65_generate_from_seed_def key_gen_internal_def)
  then have "b65_generate steady_xof (draw (rng_of (replicate 32 7)) 32) = Done sk"
    by (simp add: b65_generate_def draw_def rng_of.sel)
  then have g: "md_generate ?g (replicate 32 7) = Inr sk" by (simp add: with_scheme_def MlDsa65Blake3_def)
  have "\<exists>sig. b65_sign steady_xof sk M = Done sig" for M
  proof -
    obtain sigma where "sign_internal mldsa65 steady_suite65 key [context_pieces [], [M]] (replicate 32 0) = Some sigma"
      using steady_sign [OF z] .
    then have r: "raw_sign_deterministic mldsa65 steady_suite65 key [M] [] = Some (Inr sigma)"
      by (simp add: raw_sign_deterministic_def Let_def)
    obtain sig where "sig_encode mldsa65 sigma = Some sig" using sig_codec [OF p b3_dsa.context_verifies(2) [OF p ok(1,3) r]] by metis
    then show ?thesis using sk(2) r by (simp add: b65_sign_def b65_sign_with_context_def sign_deterministic_def)
  qed
  then have s: "\<exists>sig. md_sign_hedged ?g e sk M = Inr sig" for e M by (simp add: with_scheme_def MlDsa65Blake3_def)
  obtain kp where kp: "signing_generate ?g (Some (replicate 57 8)) (replicate 32 7) = Inr kp" "skp_mldsa kp = sk"
    by (simp add: signing_generate_def ed448_generate_def g)
  have "\<exists>com n. bop_commit ?g (Some (replicate 114 5)) (skp_ed448 kp) = Inr (com, n)" by (simp add: bop_commit_def Let_def)
  then obtain com n where "bop_commit ?g (Some (replicate 114 5)) (skp_ed448 kp) = Inr (com, n)" by blast
  moreover obtain sig where "md_sign_hedged ?g [] sk
      (bop_m_prime toy_prims Plain (spk_ed448 (skp_public kp)) (spk_mldsa (skp_public kp)) [1, 2, 3] com) = Inr sig"
    using s by blast
  ultimately have "\<exists>t. hybrid_sign toy_prims ?g (Some (replicate 114 5), []) kp [1, 2, 3] = Inr t"
    by (simp add: hybrid_sign_def bop_sign_core_def kp(2) Let_def)
  then show thesis using that kp(1) by blast
qed

theorem hybrid_signature_correct_witness:
  "\<exists>kp s. signing_generate (with_scheme toy_suite (MlDsa65Blake3 steady_xof)) (Some (replicate 57 8)) (replicate 32 7) = Inr kp
    \<and> hybrid_sign toy_prims (with_scheme toy_suite (MlDsa65Blake3 steady_xof)) (Some (replicate 114 5), []) kp [1, 2, 3] = Inr s
    \<and> hybrid_verify toy_prims (with_scheme toy_suite (MlDsa65Blake3 steady_xof)) (skp_public kp) [1, 2, 3] s = Inr ()"
proof -
  let ?g = "with_scheme toy_suite (MlDsa65Blake3 steady_xof)"
  obtain kp s where r: "signing_generate ?g (Some (replicate 57 8)) (replicate 32 7) = Inr kp"
    "hybrid_sign toy_prims ?g (Some (replicate 114 5), []) kp [1, 2, 3] = Inr s"
    by (rule steady_hybrid_signs)
  have "group_ok toy_suite" "code_scheme toy_prims (MlDsa65Blake3 steady_xof)"
    using toy_suite_ok by (auto simp: suite_ok_def code_scheme_def)
  from hybrid_signature_correct [OF this(1) toy_prims_ok this(2), of "Some (replicate 57 8)" "replicate 32 7" kp _ "(Some (replicate 114 5), [])" "[1, 2, 3]"] r
  have "hybrid_verify toy_prims ?g (skp_public kp) [1, 2, 3] s = Inr ()" by (simp add: Let_def)
  then show ?thesis using r by blast
qed

end
