(* ===== verification/Sntrup_Fq.thy ===== *)
theory Sntrup_Fq
  imports Sntrup_Poly
begin

text \<open>
  Field arithmetic of sntrup761 (\<open>trelis-primitives/src/sntrup761/fq.rs\<close>, first half): the mask
  functions, the division by a precomputed reciprocal, the two centred reductions \<open>freeze\<close>
  (modulo q = 4591) and \<open>f3_freeze\<close> (modulo 3), and the inversions \<open>recip\<close> (extended Euclid)
  and \<open>recip_ct\<close> (Fermat). Signed values are integers; \<open>fits\<close> is the range check of the code's
  overflow-checked arithmetic, and \<open>None\<close> its panic. Debug assertions are absent, as in the release profile.
\<close>

section \<open>Masks\<close>

definition i16_negative_mask :: "int \<Rightarrow> int" where
  "i16_negative_mask x = drop_bit 15 x"

definition i16_nonzero_mask :: "int \<Rightarrow> int" where
  "i16_nonzero_mask x =
     (let xu = word_of_int x :: u16;
          neg = drop_bit 15 (xu OR (- xu))
      in - as_signed 16 (uint neg))"

definition i16_select :: "int \<Rightarrow> int \<Rightarrow> int \<Rightarrow> int" where
  "i16_select msk a b = b XOR (msk AND (a XOR b))"

definition i32_select :: "int \<Rightarrow> int \<Rightarrow> int \<Rightarrow> int" where
  "i32_select msk a b = b XOR (msk AND (a XOR b))"

section \<open>Division by a reciprocal\<close>

definition fq_V :: u32 where "fq_V = 0x80000000"
definition fq_V_DIV_Q :: u32 where "fq_V_DIV_Q = fq_V div 4591"
definition fq_V_MOD_Q :: u32 where "fq_V_MOD_Q = fq_V mod 4591"

text \<open>The body both unsigned divisions share, with the reciprocal \<open>v\<close>. The second estimate is cast to
  \<open>u32\<close> before the shift, so only bit 31 of the product is kept.\<close>

definition divmod_with :: "u32 \<Rightarrow> u32 \<Rightarrow> u32 \<Rightarrow> (u32 \<times> u16) option" where
  "divmod_with v m x = do {
     let qpart = (ucast (drop_bit 31 ((ucast x :: u64) * ucast v)) :: u32);
     a \<leftarrow> checked_mul qpart m;
     let new_x = x - a;
     q \<leftarrow> checked_add 0 qpart;
     let qpart = drop_bit 31 (ucast ((ucast new_x :: u64) * ucast v) :: u32);
     a \<leftarrow> checked_mul qpart m;
     let final_x = new_x - a;
     q \<leftarrow> checked_add q qpart;
     let sub_x = final_x - m;
     q \<leftarrow> checked_add q 1;
     let mask = 0 - drop_bit 31 sub_x;
     let added_x = sub_x + (mask AND m);
     Some (q + mask, ucast added_x) }"

definition u32_divmod_u14 :: "u32 \<Rightarrow> u16 \<Rightarrow> (u32 \<times> u16) option" where
  "u32_divmod_u14 x m = (if m = 0 then None else divmod_with (fq_V div ucast m) (ucast m) x)"

definition u32_divmod_q :: "u32 \<Rightarrow> (u32 \<times> u16) option" where
  "u32_divmod_q x = divmod_with fq_V_DIV_Q 4591 x"

text \<open>The signed divisions shift their argument by V and take V's share off again.\<close>

definition take_off_V :: "u32 \<Rightarrow> u32 \<Rightarrow> u32 \<Rightarrow> u32 \<times> u16 \<Rightarrow> u32 \<times> u32" where
  "take_off_V m uq2 ur2 = (\<lambda>(uq, ur).
     (let ur = ucast ur - ur2;
          uq = uq - uq2;
          mask = (if drop_bit 15 ur \<noteq> 0 then - 1 else 0 :: u32)
      in (uq + mask, ur + (mask AND m))))"

definition i32_divmod_u14 :: "int \<Rightarrow> u16 \<Rightarrow> (u32 \<times> u32) option" where
  "i32_divmod_u14 x m = do {
     d \<leftarrow> u32_divmod_u14 (fq_V + word_of_int x) m;
     (uq2, ur2) \<leftarrow> u32_divmod_u14 fq_V m;
     Some (take_off_V (ucast m) uq2 (ucast ur2) d) }"

definition i32_mod_u14 :: "int \<Rightarrow> u16 \<Rightarrow> u32 option" where
  "i32_mod_u14 x m = map_option snd (i32_divmod_u14 x m)"

definition V_DIVMOD_Q :: "u32 \<times> u32" where "V_DIVMOD_Q = (fq_V_DIV_Q, fq_V_MOD_Q)"

definition i32_divmod_q :: "int \<Rightarrow> (u32 \<times> u32) option" where
  "i32_divmod_q x = do {
     d \<leftarrow> u32_divmod_q (fq_V + word_of_int x);
     Some (take_off_V 4591 (fst V_DIVMOD_Q) (snd V_DIVMOD_Q) d) }"

definition i32_mod_q :: "int \<Rightarrow> u32 option" where
  "i32_mod_q x = map_option snd (i32_divmod_q x)"

section \<open>Centred reductions\<close>

definition f3_freeze :: "int \<Rightarrow> int option" where
  "f3_freeze a = do {
     m \<leftarrow> fits 32 (10923 * a);
     m \<leftarrow> fits 32 (3 * drop_bit 15 m);
     b \<leftarrow> fits 32 (a - m);
     m \<leftarrow> fits 32 (89478485 * b);
     m \<leftarrow> fits 32 (m + 134217728);
     m \<leftarrow> fits 32 (3 * drop_bit 28 m);
     c \<leftarrow> fits 32 (b - m);
     Some (as_signed 8 c) }"

definition fq_freeze :: "int \<Rightarrow> int option" where
  "fq_freeze x = do {
     y \<leftarrow> fits 32 (x + sntrup_q12);
     r \<leftarrow> i32_mod_q y;
     fits 16 (as_signed 16 (uint r) - sntrup_q12) }"

section \<open>Inversion modulo q\<close>

text \<open>The loop of the extended Euclidean algorithm; \<open>/\<close> truncates.\<close>

function fq_euclid :: "int \<Rightarrow> int \<Rightarrow> int \<Rightarrow> int \<Rightarrow> (int \<times> int) option" where
  "fq_euclid old_r r old_s s =
     (if r = 0 then Some (old_r, old_s) else do {
        quotient \<leftarrow> fits 32 (old_r sdiv r);
        m \<leftarrow> fits 32 (quotient * r);
        r' \<leftarrow> fits 32 (old_r - m);
        m \<leftarrow> fits 32 (quotient * s);
        s' \<leftarrow> fits 32 (old_s - m);
        fq_euclid r r' s s' })"
  by pat_completeness auto

lemma smod_smaller: "r \<noteq> 0 \<Longrightarrow> \<bar>a smod r\<bar> < \<bar>r :: int\<bar>"
  by (cases "0 < r") (use smod_int_range [of r a] in auto)

termination fq_euclid
proof (relation "measure (\<lambda>(old_r, r, old_s, s). nat \<bar>r\<bar>)", goal_cases)
  case 1
  show ?case by simp
next
  case (2 old_r r old_s s quotient m r' m' s')
  then have "r' = old_r - old_r sdiv r * r" by (simp add: fits_Some)
  then have "r' = old_r smod r" using sdiv_mult_smod_eq [of old_r r] by linarith
  with 2(1) show ?case using smod_smaller [of r old_r] by simp
qed

declare fq_euclid.simps [simp del]

definition fq_recip :: "int \<Rightarrow> int option" where
  "fq_recip a = do {
     a_pos \<leftarrow> (if a < 0 then fits 32 (a + sntrup_q) else Some a);
     (old_r, old_s) \<leftarrow> fq_euclid sntrup_q a_pos 0 1;
     fq_freeze old_s }"

text \<open>The unrolled loop of \<open>recip_ct\<close>: bit \<open>k\<close> of the exponent selects the product, then the base is
  squared, except after the last bit.\<close>

definition FERMAT_EXP :: u32 where "FERMAT_EXP = 4589"

definition ct_multiply :: "nat \<Rightarrow> int \<Rightarrow> int \<Rightarrow> int option" where
  "ct_multiply k result base = do {
     let bit_mask = - as_signed 16 (uint (drop_bit k FERMAT_EXP AND 1));
     m \<leftarrow> fits 32 (result * base);
     prod \<leftarrow> fq_freeze m;
     same \<leftarrow> fq_freeze result;
     Some (i16_select bit_mask prod same) }"

definition ct_square :: "int \<Rightarrow> int option" where
  "ct_square base = do { m \<leftarrow> fits 32 (base * base); fq_freeze m }"

fun ct_bits :: "nat list \<Rightarrow> int \<Rightarrow> int \<Rightarrow> (int \<times> int) option" where
  "ct_bits [] result base = Some (result, base)"
| "ct_bits (k # ks) result base = do {
     result \<leftarrow> ct_multiply k result base;
     base \<leftarrow> ct_square base;
     ct_bits ks result base }"

definition recip_ct :: "int \<Rightarrow> int option" where
  "recip_ct a = do {
     let neg_mask = drop_bit 15 a;
     a_pos \<leftarrow> fits 32 (a + (neg_mask AND sntrup_q));
     (result, base) \<leftarrow> ct_bits [0..<12] 1 a_pos;
     result \<leftarrow> ct_multiply 12 result base;
     Some (as_signed 16 result) }"

section \<open>The masks select\<close>

lemma top_div: "- 32768 \<le> x \<Longrightarrow> x < 32768 \<Longrightarrow> x div 32768 = (if x < 0 then - 1 else 0 :: int)"
  using int_div_pos_eq [of x 32768 "- 1" "x + 32768"] by auto

lemma i16_negative_mask_eq: "- 32768 \<le> x \<Longrightarrow> x < 32768 \<Longrightarrow> i16_negative_mask x = (if x < 0 then - 1 else 0)"
  using top_div [of x] by (simp add: i16_negative_mask_def drop_bit_int_def)

lemma top_bit_word: "drop_bit 15 (w :: u16) = (if bit w 15 then 1 else 0)"
proof (rule bit_word_eqI)
  fix n assume "n < LENGTH(16)"
  show "bit (drop_bit 15 w) n = bit (if bit w 15 then 1 else 0 :: u16) n"
    using bit_imp_le_length [of w "15 + n"] by (cases n) (auto simp: bit_simps bit_1_iff)
qed

lemma i16_nonzero_mask_eq:
  assumes "- 32768 \<le> x" and "x < 32768"
  shows "i16_nonzero_mask x = (if x = 0 then 0 else - 1)"
proof (cases "x = 0")
  case True
  then show ?thesis by (simp add: i16_nonzero_mask_def as_signed_def)
next
  case False
  define w where "w = (word_of_int x :: u16)"
  have b: "bit (word_of_int y :: u16) 15 \<longleftrightarrow> y < 0" if "- 32768 \<le> y" "y < 32768" for y
  proof -
    have "bit y 15 \<longleftrightarrow> odd (y div 32768)" by (simp add: bit_iff_odd)
    then show ?thesis using top_div [OF that] by (simp add: bit_word_of_int_iff)
  qed
  have "- w = word_of_int (- x)" by (simp add: w_def)
  then have "bit (w OR - w) 15"
    using b [of x] b [of "- x"] assms False by (cases "x = - 32768") (auto simp: bit_or_iff w_def)
  then show ?thesis using False
    by (simp only: i16_nonzero_mask_def Let_def top_bit_word w_def [symmetric] if_True) (simp add: as_signed_def signed_take_bit_int_eq_self)
qed

lemma xor_back: "b XOR (a XOR b) = (a :: int)"
  by (rule bit_eqI) (auto simp: bit_simps)

lemma i16_select_simps [simp]: "i16_select 0 a b = b" "i16_select (- 1) a b = a"
  by (simp_all add: i16_select_def xor_back)

lemma i32_select_simps: "i32_select 0 a b = b" "i32_select (- 1) a b = a"
  by (simp_all add: i32_select_def xor_back)

section \<open>The reductions are exact\<close>

lemma f3_freeze_spec:
  assumes "- 32768 \<le> a" and "a < 32768"
  shows "\<exists>c. f3_freeze a = Some c \<and> (c = - 1 \<or> c = 0 \<or> c = 1) \<and> 3 dvd c - a"
proof -
  define k where "k = drop_bit 15 (10923 * a)"
  have k: "32768 * k \<le> 10923 * a" "10923 * a < 32768 * k + 32768"
    unfolding k_def drop_bit_int_def by simp_all
  define b where "b = a - 3 * k"
  have "- 2 < b" "b < 4" using k assms by (simp_all add: b_def)
  then consider "b = - 1" | "b = 0" | "b = 1" | "b = 2" | "b = 3" by linarith
  then have "\<exists>c. (do { m \<leftarrow> fits 32 (89478485 * b); m \<leftarrow> fits 32 (m + 134217728);
     m \<leftarrow> fits 32 (3 * drop_bit 28 m); c \<leftarrow> fits 32 (b - m); Some (as_signed 8 c) }) = Some c
     \<and> (c = - 1 \<or> c = 0 \<or> c = 1) \<and> 3 dvd c - b"
    by cases (simp_all add: drop_bit_int_def as_signed_def signed_take_bit_int_eq_self)
  then obtain c where c: "(do { m \<leftarrow> fits 32 (89478485 * b); m \<leftarrow> fits 32 (m + 134217728);
     m \<leftarrow> fits 32 (3 * drop_bit 28 m); c \<leftarrow> fits 32 (b - m); Some (as_signed 8 c) }) = Some c"
     "c = - 1 \<or> c = 0 \<or> c = 1" "3 dvd c - b" by blast
  have f: "fits 32 (10923 * a) = Some (10923 * a)" "fits 32 (3 * k) = Some (3 * k)" "fits 32 (a - 3 * k) = Some b"
    using assms k by (simp_all add: fits_def b_def)
  have "f3_freeze a = Some c"
    unfolding f3_freeze_def by (simp only: f k_def [symmetric] bind.bind_lunit c(1))
  moreover have "3 dvd (c - b) + (b - a)" by (rule dvd_add [OF c(3)]) (simp add: b_def)
  ultimately show ?thesis using c(2) by simp
qed

lemma fq_reciprocal: "fq_V_DIV_Q = 467759" "fq_V_MOD_Q = 2079"
  by (simp_all add: fq_V_DIV_Q_def fq_V_MOD_Q_def fq_V_def)

text \<open>After the first estimate less than 8749 is left, so the product of the second fits 32 bits and
  its cast loses nothing.\<close>

lemma first_estimate_q:
  fixes x q :: nat
  assumes "x < 2 ^ 32" and "q = x * 467759 div 2 ^ 31"
  shows "x - q * 4591 < 8749"
proof -
  have "x * 467759 < q * 2147483648 + 2147483648" using assms(2) by simp
  then have "x * 2147481569 < 4591 * (q * 2147483648) + 9859097427968" by linarith
  moreover have "x * 2147483648 = x * 2147481569 + x * 2079" by simp
  ultimately have "x * 2147483648 < (q * 4591) * 2147483648 + 8749 * 2147483648"
    using assms(1) by (simp add: algebra_simps)
  then show ?thesis by linarith
qed

lemma u32_divmod_q_eq:
  "\<exists>q r. u32_divmod_q x = Some (q, r) \<and> unat q = unat x div 4591 \<and> unat r = unat x mod 4591"
proof -
  define v where "v = (467759 :: u32)"
  have V: "unat v \<le> 2 ^ 31" "unat v = 2 ^ 31 div 4591" "unat v = 467759" by (simp_all add: v_def)
  have X: "unat x < 2 ^ 32" using unsigned_less [of x, where 'a = nat] by simp
  define p1 where "p1 = (ucast (drop_bit 31 ((ucast x :: u64) * ucast v)) :: u32)"
  define q1 where "q1 = unat x * unat v div 2 ^ 31"
  define q2 where "q2 = (unat x - q1 * 4591) * unat v div 2 ^ 31"
  have M: "(0::nat) < 4591" "(4591::nat) < 16384" by simp_all
  note R = reciprocal_twice [OF M X V(2) q1_def q2_def]
  have p1: "unat p1 = q1" using estimate_word [OF V(1)] by (simp add: p1_def q1_def)
  define x1 where "x1 = x - p1 * 4591"
  have m1: "checked_mul p1 4591 = Some (p1 * 4591)" and um1: "unat (p1 * 4591) = q1 * 4591"
    using R(1) X by (simp_all add: checked_mul_def p1 unat_word_ariths)
  have ux1: "unat x1 = unat x - q1 * 4591"
    using R(1) um1 by (simp add: x1_def word_le_nat_alt unat_sub)
  have x1: "unat x1 < 8749" unfolding ux1 using first_estimate_q [OF X] by (simp add: q1_def V(3))
  define p2 where "p2 = drop_bit 31 (ucast ((ucast x1 :: u64) * ucast v) :: u32)"
  have "unat x1 * 467759 \<le> 8748 * 467759" using x1 by (intro mult_le_mono) simp_all
  then have small: "unat x1 * 467759 < 2 ^ 32" by simp
  then have "unat ((ucast x1 :: u64) * ucast v) = unat x1 * 467759"
    by (simp add: unat_word_ariths unat_ucast_up V(3))
  then have "unat (ucast ((ucast x1 :: u64) * ucast v) :: u32) = unat x1 * 467759"
    using small by (simp add: unsigned_ucast_eq take_bit_nat_eq_self)
  then have p2: "unat p2 = q2"
    using small by (simp add: p2_def unsigned_drop_bit_eq drop_bit_nat_def take_bit_nat_eq_self q2_def ux1 V(3))
  define x2 where "x2 = x1 - p2 * 4591"
  have m2: "checked_mul p2 4591 = Some (p2 * 4591)" and um2: "unat (p2 * 4591) = q2 * 4591"
    using R(2) X by (simp_all add: checked_mul_def p2 unat_word_ariths)
  have ux2: "unat x2 = unat x - q1 * 4591 - q2 * 4591"
    using R(2) um2 ux1 by (simp add: x2_def word_le_nat_alt unat_sub)
  have tot: "(q1 + q2) * 4591 + unat x2 = unat x" using R(1,2) ux2 by (simp add: add_mult_distrib)
  then have few: "q1 + q2 + 1 < 2 ^ 32" using X by simp
  have a1: "checked_add 0 p1 = Some p1" using few by (simp add: checked_add_def p1)
  have a2: "checked_add p1 p2 = Some (p1 + p2)" and ua2: "unat (p1 + p2) = q1 + q2"
    using few by (simp_all add: checked_add_def p1 p2 unat_word_ariths)
  have a3: "checked_add (p1 + p2) 1 = Some (p1 + p2 + 1)" and ua3: "unat (p1 + p2 + 1) = q1 + q2 + 1"
    using few checked_add_1 [of "p1 + p2"] by (simp_all add: ua2)
  have le: "unat x2 \<le> unat (4591 :: u32)" using R(3) ux2 by simp
  have lt: "unat (4591 :: u32) < 2 ^ 31" "0 < unat (4591 :: u32)" by simp_all
  note C = masked_correction(1) [OF le lt, of "p1 + p2"] masked_correction(2) [OF le lt]
  define r where "r = (if x2 = 4591 then 0 else x2)"
  have "x2 \<noteq> 4591 \<Longrightarrow> unat x2 \<noteq> 4591" by (simp add: word_eq_iff_unsigned [where 'a = nat])
  then have ur: "unat r < 4591" using le by (auto simp: r_def)
  have "u32_divmod_q x = Some (if x2 = 4591 then p1 + p2 + 1 else p1 + p2, ucast r)"
    unfolding u32_divmod_q_def divmod_with_def fq_reciprocal
    by (simp only: Let_def v_def [symmetric] p1_def [symmetric] m1 x1_def [symmetric] a1 bind.bind_lunit
        p2_def [symmetric] m2 x2_def [symmetric] a2 a3 C r_def [symmetric] diff_0)
  moreover have "unat (if x2 = 4591 then p1 + p2 + 1 else p1 + p2) * 4591 + unat r = unat x"
    using tot by (auto simp: r_def ua2 ua3)
  then have "unat (if x2 = 4591 then p1 + p2 + 1 else p1 + p2) = unat x div 4591"
    and "unat r = unat x mod 4591"
    by (rule div_mod_from_parts(1) [OF _ ur], rule div_mod_from_parts(2) [OF _ ur])
  moreover have "unat (ucast r :: u16) = unat r"
    using ur by (simp add: unsigned_ucast_eq take_bit_nat_eq_self)
  ultimately show ?thesis by metis
qed

text \<open>The generic division loses the second estimate when the product reaches 2^32.\<close>

lemma generic_division_wrong:
  "u32_divmod_u14 4294967271 10 = Some (429496726, 11)" "(4294967271 :: nat) mod 10 = 1"
  by (simp_all add: u32_divmod_u14_def divmod_with_def fq_V_def checked_mul_def checked_add_def)

text \<open>The signed remainder, on every \<open>i32\<close>.\<close>

lemma i32_mod_q_eq:
  assumes "- (2 ^ 31) \<le> x" and "x < 2 ^ 31"
  shows "\<exists>r. i32_mod_q x = Some r \<and> uint r = x mod 4591"
proof -
  define X where "X = fq_V + word_of_int x"
  have "X = word_of_int (x + 2147483648)" by (simp add: X_def fq_V_def add.commute)
  then have "uint X = (x + 2147483648) mod 2 ^ LENGTH(32)" by (simp only: uint_word_of_int)
  then have uX: "uint X = x + 2 ^ 31" using assms by simp
  obtain q ur where d: "u32_divmod_q X = Some (q, ur)" "unat ur = unat X mod 4591"
    using u32_divmod_q_eq by blast
  have "uint ur = uint X mod 4591" using d(2) by (metis of_nat_mod of_nat_numeral of_nat_unat)
  moreover have "x + 2 ^ 31 = x + 2079 + 467759 * 4591" by simp
  ultimately have ur: "uint ur = (x + 2079) mod 4591" unfolding uX by (metis mod_mult_self1)
  have lo: "0 \<le> uint ur" "uint ur < 4591" unfolding ur by simp_all
  define w where "w = (ucast ur - 2079 :: u32)"
  have uc: "uint (ucast ur :: u32) = uint ur" using lo by (simp add: unsigned_ucast_eq take_bit_int_eq_self)
  have w: "uint w = (if uint ur < 2079 then uint ur - 2079 + 2 ^ 32 else uint ur - 2079)"
    using lo by (simp add: w_def uint_sub_if' uc)
  have b: "drop_bit 15 w = 0 \<longleftrightarrow> \<not> uint ur < 2079"
  proof -
    have "uint (drop_bit 15 w) = uint w div 32768"
      using uint_bounded [of w] take_bit_int_eq_self [of "uint w" 32]
      by (simp add: unsigned_drop_bit_eq drop_bit_int_def)
    moreover have "uint w div 32768 = 0 \<longleftrightarrow> \<not> uint ur < 2079" by (simp add: zdiv_eq_0_iff w) (use lo in linarith)
    ultimately show ?thesis using uint_0_iff [of "drop_bit 15 w"] by simp
  qed
  define r where "r = w + ((if drop_bit 15 w \<noteq> 0 then - 1 else 0) AND 4591)"
  have "uint r = (if uint ur < 2079 then uint ur - 2079 + 4591 else uint ur - 2079)"
  proof -
    have "4294969808 + uint ur = 2512 + uint ur + 4294967296" by simp
    then have "(4294969808 + uint ur) mod 4294967296 = (2512 + uint ur) mod 4294967296"
      by (simp only: mod_add_self2)
    moreover have "(2512 + uint ur) mod 4294967296 = 2512 + uint ur" by (rule mod_pos_pos_trivial) (use lo in linarith)+
    ultimately show ?thesis using w by (simp add: r_def b uint_word_ariths)
  qed
  moreover have "4591 dvd uint ur - (x + 2079)" unfolding ur by (simp add: mod_eq_dvd_iff [symmetric])
  ultimately have "4591 dvd uint r - x" "0 \<le> uint r" "uint r < 4591"
    using lo dvd_add [of 4591 "uint ur - (x + 2079)" 4591] by (auto simp: algebra_simps)
  then have "uint r = x mod 4591" by (metis mod_eq_dvd_iff mod_pos_pos_trivial)
  moreover have "i32_mod_q x = Some r"
    by (simp add: i32_mod_q_def i32_divmod_q_def X_def [symmetric] d(1) take_off_V_def Let_def
        V_DIVMOD_Q_def fq_reciprocal w_def [symmetric] r_def)
  ultimately show ?thesis by blast
qed

lemma fq_freeze_spec:
  assumes "- (2 ^ 31) - 2295 \<le> x" and "x + 2295 < 2 ^ 31"
  shows "\<exists>y. fq_freeze x = Some y \<and> \<bar>y\<bar> \<le> 2295 \<and> 4591 dvd y - x"
proof -
  have f: "fits 32 (x + sntrup_q12) = Some (x + 2295)" using assms by (simp add: fits_def sntrup_q12_def sntrup_q_def)
  obtain r where r: "i32_mod_q (x + 2295) = Some r" "uint r = (x + 2295) mod 4591"
    using i32_mod_q_eq [of "x + 2295"] assms by auto
  have b: "0 \<le> uint r" "uint r < 4591" unfolding r(2) by simp_all
  have "signed_take_bit 15 d = d" if "0 \<le> d" "d < 4591" for d :: int
    by (rule signed_take_bit_int_eq_self) (use that in simp_all)
  from this [OF b]
  have "fq_freeze x = Some (uint r - 2295)"
    using b by (simp add: fq_freeze_def f r(1) as_signed_def del: fits_abs)
      (simp add: sntrup_q12_def sntrup_q_def)
  moreover have "4591 dvd uint r - (x + 2295)" unfolding r(2) by (simp add: mod_eq_dvd_iff [symmetric])
  then have "4591 dvd (uint r - 2295) - x" by (simp add: algebra_simps)
  moreover have "\<bar>uint r - 2295\<bar> \<le> 2295" using b by linarith
  ultimately show ?thesis by blast
qed

lemma fq_freeze_abs:
  assumes "\<bar>x\<bar> \<le> 2147481352"
  obtains y where "fq_freeze x = Some y" "\<bar>y\<bar> \<le> 2295" "4591 dvd y - x"
  using fq_freeze_spec [of x] assms by (simp add: abs_le_iff) blast

section \<open>The modulus is prime\<close>

lemma no_small_divisor: "list_all (\<lambda>d. (4591 :: int) mod d \<noteq> 0) [2..67]"
  by (simp add: upto_rec_numeral)

lemma divisors_q: "d dvd (4591 :: nat) \<Longrightarrow> d = 1 \<or> d = 4591"
proof -
  assume "d dvd 4591"
  then obtain e where e: "4591 = d * e" by (elim dvdE)
  have one: "x = 1" if "4591 = x * y" "x < 68" for x y :: nat
  proof (rule ccontr)
    assume "x \<noteq> 1"
    moreover have "x \<noteq> 0" using that(1) by (metis mult_0 zero_neq_numeral)
    ultimately have "int x \<in> {2..67}" using that(2) by simp
    then have "4591 mod int x \<noteq> 0" by (rule bspec [OF no_small_divisor [unfolded list_all_iff set_upto]])
    moreover have "(4591 :: int) = int x * int y" using that(1) by (metis of_nat_mult of_nat_numeral)
    ultimately show False by simp
  qed
  have "d < 68 \<or> e < 68"
  proof (rule ccontr)
    assume "\<not> ?thesis"
    then have "68 * 68 \<le> d * e" by (intro mult_le_mono) simp_all
    then show False using e by simp
  qed
  then show ?thesis using one [of d e] one [of e d] e by (auto simp: mult.commute)
qed

lemma coprime_q_nat: "0 < k \<Longrightarrow> k < 4591 \<Longrightarrow> coprime k (4591 :: nat)"
proof -
  assume k: "0 < k" "k < 4591"
  have "gcd k 4591 = 1 \<or> gcd k 4591 = 4591" by (intro divisors_q) simp
  moreover have "gcd k 4591 \<le> k" using k by (intro gcd_le1_nat) simp
  ultimately show ?thesis using k by (auto simp: coprime_iff_gcd_eq_1)
qed

lemma coprime_q: "\<bar>a\<bar> < 4591 \<Longrightarrow> a \<noteq> 0 \<Longrightarrow> coprime a (4591 :: int)"
proof -
  assume "\<bar>a\<bar> < 4591" "a \<noteq> 0"
  then have "coprime (int (nat \<bar>a\<bar>)) (int 4591)" unfolding coprime_int_iff by (intro coprime_q_nat) auto
  then show ?thesis by (simp only: of_nat_numeral nat_0_le abs_ge_zero coprime_abs_left_iff)
qed

lemma q_dvd_mult: "4591 dvd a * b \<Longrightarrow> \<bar>a\<bar> < 4591 \<Longrightarrow> a \<noteq> 0 \<Longrightarrow> (4591 :: int) dvd b"
  using coprime_q [of a] by (metis coprime_commute coprime_dvd_mult_right_iff)

text \<open>Fermat's little theorem for q, by the binomial theorem.\<close>

lemma fermat_from_binomials:
  assumes "1 < p" and "\<And>k. 0 < k \<Longrightarrow> k < p \<Longrightarrow> p dvd (p choose k)"
  shows "(a :: nat) ^ p mod p = a mod p"
proof (induction a)
  case 0
  then show ?case using assms(1) by (simp add: zero_power)
next
  case (Suc a)
  define s where "s = (\<Sum>k\<in>{..p} - {0, p}. (p choose k) * a ^ k)"
  have "(a + 1) ^ p = (\<Sum>k\<le>p. (p choose k) * a ^ k)" using binomial [of a 1 p] by simp
  also have "\<dots> = s + (\<Sum>k\<in>{0, p}. (p choose k) * a ^ k)"
    unfolding s_def by (rule sum.subset_diff) auto
  finally have split: "(a + 1) ^ p = s + (1 + a ^ p)" using assms(1) by simp
  have "p dvd s" unfolding s_def by (rule dvd_sum) (auto intro!: dvd_mult2 assms(2))
  then obtain c where "s = p * c" by (elim dvdE)
  then have "(a + 1) ^ p mod p = (1 + a ^ p) mod p" unfolding split by simp
  also have "\<dots> = (1 + a) mod p" using Suc.IH by (metis mod_add_right_eq)
  finally show ?case by simp
qed

lemma fermat_q: "(a :: nat) ^ 4591 mod 4591 = a mod 4591"
proof (rule fermat_from_binomials)
  fix k :: nat assume k: "0 < k" "k < 4591"
  have "k * (4591 choose k) = 4591 * ((4591 - 1) choose (k - 1))" by (rule times_binomial_minus1_eq [OF k(1)])
  then have "4591 dvd k * (4591 choose k)" by (metis dvd_triv_left)
  then show "4591 dvd (4591 choose k)" using coprime_q_nat [OF k] by (metis coprime_commute coprime_dvd_mult_right_iff)
qed simp

section \<open>Both inversions invert\<close>

lemma abs_opposite:
  fixes s t q :: int
  assumes "s * t \<le> 0" and "0 \<le> q"
  shows "\<bar>t - q * s\<bar> = \<bar>t\<bar> + q * \<bar>s\<bar>"
proof -
  consider "s = 0" | "0 < s" "t \<le> 0" | "s < 0" "0 \<le> t"
    using assms(1) unfolding mult_le_0_iff by linarith
  then show ?thesis
  proof cases
    case 2
    then have "0 \<le> q * s" using assms(2) by simp
    then show ?thesis using 2 by simp
  next
    case 3
    then have "q * s \<le> 0" using assms(2) by (simp add: mult_nonneg_nonpos)
    then show ?thesis using 3 by simp
  qed simp
qed

text \<open>The invariant of the Euclidean loop: the cofactors alternate in sign and
  \<open>old_r * |s| + r * |old_s|\<close> stays q, which bounds every intermediate value.\<close>

lemma fq_euclid_inverts:
  assumes "0 \<le> r \<and> r \<le> 4591" "0 < old_r" "old_r \<le> 4591" "coprime old_r r"
    and "old_r * \<bar>s\<bar> + r * \<bar>old_s\<bar> = 4591" "s * old_s \<le> 0" "\<bar>old_s\<bar> \<le> 4591"
    and "4591 dvd old_r - old_s * a" "4591 dvd r - s * a"
  shows "\<exists>os. fq_euclid old_r r old_s s = Some (1, os) \<and> \<bar>os\<bar> \<le> 4591 \<and> 4591 dvd 1 - os * a"
  using assms
proof (induction old_r r old_s s rule: fq_euclid.induct)
  case (1 old_r r old_s s)
  show ?case
  proof (cases "r = 0")
    case True
    then have "fq_euclid old_r r old_s s = Some (1, old_s)"
      using 1(3,5) by (subst fq_euclid.simps) simp
    then show ?thesis using 1(3,5,8,9) True by simp
  next
    case False
    define q where "q = old_r sdiv r"
    have r: "0 < r" using False 1(2) by simp
    have q: "q = old_r div r" using 1(2,3) by (simp add: q_def signed_divide_int_def sgn_if)
    have q0: "0 \<le> q" using r 1(3) by (simp add: q pos_imp_zdiv_nonneg_iff)
    have "q * r \<le> old_r" unfolding q using div_mult_mod_eq [of old_r r] pos_mod_sign [OF r, of old_r] by linarith
    then have qr: "q * r \<le> old_r" "0 \<le> q * r" using r q0 by simp_all
    have q_le: "q \<le> q * r" using q0 r mult_left_mono [of 1 r q] by simp
    have qs: "\<bar>q * s\<bar> \<le> 4591"
    proof -
      have "\<bar>q * s\<bar> = q * \<bar>s\<bar>" using q0 by (simp add: abs_mult)
      also have "\<dots> \<le> old_r * \<bar>s\<bar>" using qr q_le by (intro mult_right_mono) linarith+
      also have "\<dots> \<le> 4591" using 1(6) mult_nonneg_nonneg [of r "\<bar>old_s\<bar>"] r by linarith
      finally show ?thesis .
    qed
    define r' where "r' = old_r - q * r"
    define s' where "s' = old_s - q * s"
    have r'm: "r' = old_r mod r" by (simp add: r'_def q minus_div_mult_eq_mod)
    have r': "0 \<le> r'" "r' < r" unfolding r'm using r by simp_all
    have rel: "r * \<bar>s'\<bar> + r' * \<bar>s\<bar> = 4591"
    proof -
      have "\<bar>s'\<bar> = \<bar>old_s\<bar> + q * \<bar>s\<bar>"
        unfolding s'_def using 1(7) q0 by (rule abs_opposite)
      then show ?thesis using 1(6) by (simp add: r'_def algebra_simps)
    qed
    have sgn: "s' * s \<le> 0"
    proof -
      have "s' * s = s * old_s - q * (s * s)" by (simp add: s'_def algebra_simps)
      moreover have "0 \<le> q * (s * s)" using q0 by simp
      ultimately show ?thesis using 1(7) by linarith
    qed
    have s_le: "\<bar>s\<bar> \<le> 4591"
    proof -
      have "1 * \<bar>s\<bar> \<le> old_r * \<bar>s\<bar>" using 1(3) by (intro mult_right_mono) simp_all
      moreover have "0 \<le> r * \<bar>old_s\<bar>" using r by simp
      ultimately show ?thesis using 1(6) by linarith
    qed
    have f: "fits 32 (old_r sdiv r) = Some q" "fits 32 (q * r) = Some (q * r)" "fits 32 (old_r - q * r) = Some r'"
      "fits 32 (q * s) = Some (q * s)" "fits 32 (old_s - q * s) = Some s'"
      using qr q_le q0 qs r' r 1(4,8) unfolding r'_def s'_def q_def [symmetric] by (auto simp: fits_def)
    have "\<exists>os. fq_euclid r r' s s' = Some (1, os) \<and> \<bar>os\<bar> \<le> 4591 \<and> 4591 dvd 1 - os * a"
    proof (rule "1.IH" [OF False f])
      show "coprime r r'" using 1(5) unfolding r'm by (simp add: coprime_iff_gcd_eq_1 gcd.commute [of r] gcd_red_int [of old_r, symmetric])
      have "r' - s' * a = (old_r - old_s * a) - q * (r - s * a)" by (simp add: r'_def s'_def algebra_simps)
      then show "4591 dvd r' - s' * a" using 1(9,10) by (simp add: dvd_diff)
    qed (use r r' rel sgn s_le 1(2,10) in auto)
    then show ?thesis using False f by (simp add: fq_euclid.simps [of old_r r])
  qed
qed

text \<open>\<open>recip\<close> inverts every nonzero value of the field in centred or in least positive form.\<close>

lemma fq_recip_inverts:
  assumes "a \<noteq> 0" and "\<bar>a\<bar> < 4591"
  shows "\<exists>y. fq_recip a = Some y \<and> \<bar>y\<bar> \<le> 2295 \<and> 4591 dvd y * a - 1"
proof -
  define b where "b = (if a < 0 then a + 4591 else a)"
  have b: "0 < b" "b < 4591" using assms by (auto simp: b_def)
  have pos: "(if a < 0 then fits 32 (a + sntrup_q) else Some a) = Some b"
    using assms by (auto simp: b_def sntrup_q_def fits_def)
  have "coprime (4591 :: int) b" using coprime_q [of b] b by (simp add: coprime_commute)
  then obtain os where os: "fq_euclid 4591 b 0 1 = Some (1, os)" "\<bar>os\<bar> \<le> 4591" "4591 dvd 1 - os * b"
    using fq_euclid_inverts [of b 4591 1 0 b] b by auto
  obtain y where y: "fq_freeze os = Some y" "\<bar>y\<bar> \<le> 2295" "4591 dvd y - os"
    by (rule fq_freeze_abs [of os]) (use os(2) in auto)
  have "4591 dvd b - a" by (simp add: b_def)
  then have "4591 dvd (y - os) * a - os * (b - a) - (1 - os * b)"
    by (rule dvd_diff [OF dvd_diff [OF dvd_mult2 [OF y(3)] dvd_mult] os(3)])
  then have "4591 dvd y * a - 1" by (simp add: algebra_simps)
  moreover have "fq_recip a = Some y"
    unfolding fq_recip_def pos by (simp add: sntrup_q_def os(1) y(1))
  ultimately show ?thesis using y(2) by blast
qed

text \<open>One step of \<open>recip_ct\<close> multiplies by the base exactly when the exponent has the bit.\<close>

lemma exp_bit: "- as_signed 16 (uint (drop_bit k FERMAT_EXP AND 1)) = (if odd (4589 div 2 ^ k :: nat) then - 1 else 0)"
proof -
  have "unat (drop_bit k FERMAT_EXP) = 4589 div 2 ^ k"
    using div_le_dividend [of 4589 "2 ^ k"]
    by (simp add: FERMAT_EXP_def unsigned_drop_bit_eq drop_bit_nat_def take_bit_nat_eq_self)
  moreover have "odd w \<longleftrightarrow> odd (unat w)" for w :: u32
    using bit_unsigned_iff [of w 0, where 'a = nat] by (simp add: bit_0)
  ultimately have "odd (drop_bit k FERMAT_EXP) \<longleftrightarrow> odd (4589 div 2 ^ k :: nat)" by metis
  moreover have "w AND 1 = (if odd w then 1 else 0)" for w :: u32 by (simp add: and_one_eq odd_iff_mod_2_eq_one even_iff_mod_2_eq_zero)
  ultimately show ?thesis by (simp add: as_signed_def signed_take_bit_int_eq_self)
qed

lemma ct_multiply_spec:
  assumes "\<bar>result\<bar> \<le> 2295" and "\<bar>base\<bar> \<le> 4590"
  shows "\<exists>r. ct_multiply k result base = Some r \<and> \<bar>r\<bar> \<le> 2295
    \<and> 4591 dvd r - (if odd (4589 div 2 ^ k :: nat) then result * base else result)"
proof -
  have "\<bar>result * base\<bar> \<le> 2295 * 4590" unfolding abs_mult using assms by (intro mult_mono) simp_all
  then have m: "- 10534050 \<le> result * base" "result * base \<le> 10534050" by linarith+
  then have f: "fits 32 (result * base) = Some (result * base)" by (simp add: fits_def)
  obtain u where u: "fq_freeze (result * base) = Some u" "\<bar>u\<bar> \<le> 2295" "4591 dvd u - result * base"
    by (rule fq_freeze_abs [of "result * base"]) (use m in auto)
  obtain v where v: "fq_freeze result = Some v" "\<bar>v\<bar> \<le> 2295" "4591 dvd v - result"
    by (rule fq_freeze_abs [of result]) (use assms(1) in auto)
  show ?thesis unfolding ct_multiply_def exp_bit using u v by (simp add: f)
qed

lemma ct_square_spec:
  assumes "\<bar>base\<bar> \<le> 4590"
  shows "\<exists>b. ct_square base = Some b \<and> \<bar>b\<bar> \<le> 2295 \<and> 4591 dvd b - base * base"
proof -
  have "\<bar>base * base\<bar> \<le> 4590 * 4590" unfolding abs_mult using assms by (intro mult_mono) simp_all
  then have m: "- 21068100 \<le> base * base" "base * base \<le> 21068100" by linarith+
  then show ?thesis using fq_freeze_spec [of "base * base"] by (simp add: ct_square_def fits_def)
qed

lemma exp_prefix: "(4589 :: nat) mod 2 ^ Suc k = 4589 mod 2 ^ k + (if odd (4589 div 2 ^ k :: nat) then 2 ^ k else 0)"
  using mod_mult2_eq [of 4589 "2 ^ k" 2] by (simp add: mult.commute odd_iff_mod_2_eq_one)

lemma ct_bits_spec:
  assumes "\<bar>result\<bar> \<le> 2295" and "\<bar>base\<bar> \<le> 4590"
    and "result mod 4591 = a ^ (4589 mod 2 ^ k) mod 4591" and "base mod 4591 = a ^ (2 ^ k) mod 4591"
  shows "\<exists>r b. ct_bits [k..<k + n] result base = Some (r, b) \<and> \<bar>r\<bar> \<le> 2295 \<and> \<bar>b\<bar> \<le> 4590
    \<and> r mod 4591 = a ^ (4589 mod 2 ^ (k + n)) mod 4591 \<and> b mod 4591 = a ^ (2 ^ (k + n)) mod 4591"
  using assms
proof (induction n arbitrary: k result base)
  case 0
  then show ?case by simp
next
  case (Suc n)
  obtain r where r: "ct_multiply k result base = Some r" "\<bar>r\<bar> \<le> 2295"
    "4591 dvd r - (if odd (4589 div 2 ^ k :: nat) then result * base else result)"
    using ct_multiply_spec [OF Suc.prems(1,2)] by blast
  obtain b where b: "ct_square base = Some b" "\<bar>b\<bar> \<le> 2295" "4591 dvd b - base * base"
    using ct_square_spec [OF Suc.prems(2)] by blast
  have r': "r mod 4591 = a ^ (4589 mod 2 ^ Suc k) mod 4591"
  proof (cases "odd (4589 div 2 ^ k :: nat)")
    case True
    then have "r mod 4591 = (result * base) mod 4591" using r(3) by (simp add: mod_eq_dvd_iff)
    also have "\<dots> = (a ^ (4589 mod 2 ^ k) * a ^ (2 ^ k)) mod 4591" using Suc.prems(3,4) by (rule mod_mult_cong)
    finally show ?thesis unfolding exp_prefix using True by (simp only: power_add if_True not_False_eq_True)
  next
    case False
    then show ?thesis unfolding exp_prefix using r(3) Suc.prems(3) by (simp add: mod_eq_dvd_iff [symmetric])
  qed
  have "b mod 4591 = (base * base) mod 4591" using b(3) by (simp add: mod_eq_dvd_iff)
  also have "\<dots> = (a ^ (2 ^ k) * a ^ (2 ^ k)) mod 4591" using Suc.prems(4,4) by (rule mod_mult_cong)
  finally have b': "b mod 4591 = a ^ (2 ^ Suc k) mod 4591" by (simp only: power_add [symmetric] mult_2 [symmetric] power_Suc)
  have "[k..<k + Suc n] = k # [Suc k..<Suc k + n]" by (simp add: upt_conv_Cons)
  then show ?case using Suc.IH [OF r(2) _ r' b'] b(2) r(1) b(1) by simp
qed

text \<open>\<open>recip_ct\<close> computes the same inverse by raising to the power q - 2.\<close>

lemma recip_ct_inverts:
  assumes "a \<noteq> 0" and "\<bar>a\<bar> \<le> 2295"
  shows "\<exists>y. recip_ct a = Some y \<and> \<bar>y\<bar> \<le> 2295 \<and> 4591 dvd y * a - 1"
proof -
  define b where "b = (if a < 0 then a + 4591 else a)"
  have b: "0 < b" "b < 4591" using assms by (auto simp: b_def)
  have pos: "fits 32 (a + (drop_bit 15 a AND sntrup_q)) = Some b"
    using assms i16_negative_mask_eq [of a] unfolding i16_negative_mask_def
    by (auto simp: b_def sntrup_q_def fits_def abs_le_iff)
  define c where "c = b ^ 4589"
  obtain r base where rb: "ct_bits [0..<12] 1 b = Some (r, base)" "\<bar>r\<bar> \<le> 2295" "\<bar>base\<bar> \<le> 4590"
    "r mod 4591 = b ^ (4589 mod 2 ^ 12) mod 4591" "base mod 4591 = b ^ (2 ^ 12) mod 4591"
    using ct_bits_spec [of 1 b b 0 12] b by auto
  obtain y where y: "ct_multiply 12 r base = Some y" "\<bar>y\<bar> \<le> 2295" "4591 dvd y - r * base"
    using ct_multiply_spec [OF rb(2,3), of 12] by auto
  have "y mod 4591 = (r * base) mod 4591" using y(3) by (simp add: mod_eq_dvd_iff)
  also have "\<dots> = (b ^ (4589 mod 2 ^ 12) * b ^ (2 ^ 12)) mod 4591" using rb(4,5) by (rule mod_mult_cong)
  finally have yb: "4591 dvd y - c" unfolding c_def power_add [symmetric] by (simp add: mod_eq_dvd_iff)
  obtain n where n: "b = int n" using b zero_less_imp_eq_int by blast
  have "int (n ^ 4591 mod 4591) = int (n mod 4591)" by (simp only: fermat_q)
  then have "b ^ 4591 mod 4591 = b mod 4591" by (simp only: n of_nat_mod of_nat_power of_nat_numeral)
  then have "4591 dvd b ^ 4591 - b" by (simp only: mod_eq_dvd_iff)
  moreover have "b ^ 4591 = c * (b * b)"
  proof -
    have "(4591 :: nat) = 4589 + 2" by simp
    then have "b ^ 4591 = b ^ 4589 * b\<^sup>2" by (metis power_add)
    then show ?thesis by (simp only: power2_eq_square c_def)
  qed
  moreover have "c * (b * b) - b = b * (c * b - 1)" by (simp add: algebra_simps)
  ultimately have "4591 dvd b * (c * b - 1)" by metis
  then have inv: "4591 dvd c * b - 1" by (rule q_dvd_mult) (use b in linarith)+
  have "4591 dvd b - a" by (simp add: b_def)
  then have "4591 dvd (y - c) * a + (c * b - 1) - c * (b - a)"
    by (rule dvd_diff [OF dvd_add [OF dvd_mult2 [OF yb] inv] dvd_mult])
  then have "4591 dvd y * a - 1" by (simp add: algebra_simps)
  moreover have "recip_ct a = Some y"
    using y(2) by (simp add: recip_ct_def Let_def pos rb(1) y(1) as_signed_def abs_le_iff signed_take_bit_int_eq_self)
  ultimately show ?thesis using y(2) by blast
qed

end
