(* ===== verification/Sntrup_Quotient.thy ===== *)
theory Sntrup_Quotient
  imports Sntrup_Ring
begin

text \<open>
  The ring Z[x]/(x^761 - x - 1) as a type, with the library's commutative ring structure, for the
  proofs about inversion. In it x has the inverse \<open>y = x^760 - 1\<close>; \<open>pol\<close> evaluates a coefficient
  list at x, \<open>ev\<close> at y, and reversing a list turns one into the other. Congruence modulo an
  integer is divisibility by it, coefficient by coefficient.
\<close>

typedef qring = "{f. deg_p f}"
  by (rule exI [of _ rone]) simp

setup_lifting type_definition_qring

instantiation qring :: comm_ring_1
begin

lift_definition zero_qring :: qring is "\<lambda>_. 0" by (simp add: deg_p_def)
lift_definition one_qring :: qring is rone by simp
lift_definition plus_qring :: "qring \<Rightarrow> qring \<Rightarrow> qring" is "\<lambda>f g k. f k + g k" by (simp add: deg_p_def)
lift_definition minus_qring :: "qring \<Rightarrow> qring \<Rightarrow> qring" is "\<lambda>f g k. f k - g k" by (simp add: deg_p_def)
lift_definition uminus_qring :: "qring \<Rightarrow> qring" is "\<lambda>f k. - f k" by (simp add: deg_p_def)
lift_definition times_qring :: "qring \<Rightarrow> qring \<Rightarrow> qring" is rmul by simp

instance
proof
  fix a b c :: qring
  show "a + b + c = a + (b + c)" "a + b = b + a" "0 + a = a" "- a + a = 0" "a - b = a + - b"
    by (transfer; simp add: fun_eq_iff)+
  show "a * b * c = a * (b * c)" by transfer (simp add: rmul_assoc)
  show "a * b = b * a" by transfer (rule rmul_commute)
  show "1 * a = a" by transfer (simp add: fun_eq_iff rmul_rone_left)
  show "(a + b) * c = a * c + b * c" by transfer (simp add: fun_eq_iff rmul_add_left)
  show "(0 :: qring) \<noteq> 1"
  proof transfer
    have "rone 0 \<noteq> 0" by (simp add: rone_def)
    then show "(\<lambda>_. 0) \<noteq> rone" by metis
  qed
qed

end

section \<open>Coefficients\<close>

lift_definition cf :: "qring \<Rightarrow> nat \<Rightarrow> int" is "\<lambda>f. f" .

lemma cf_simps [simp]: "cf 0 k = 0" "cf 1 k = rone k" "cf (a + b) k = cf a k + cf b k"
  "cf (a - b) k = cf a k - cf b k" "cf (- a) k = - cf a k"
  by (simp_all add: cf.rep_eq zero_qring.rep_eq one_qring.rep_eq plus_qring.rep_eq minus_qring.rep_eq uminus_qring.rep_eq)

lemma cf_mult: "cf (a * b) = rmul (cf a) (cf b)"
  by (simp add: cf.rep_eq times_qring.rep_eq)

lemma deg_p_cf [simp]: "deg_p (cf a)"
  using Rep_qring [of a] by (simp add: cf.rep_eq)

lemma cf_eqI: "(\<And>k. k < sntrup_p \<Longrightarrow> cf a k = cf b k) \<Longrightarrow> a = b"
proof -
  assume "\<And>k. k < sntrup_p \<Longrightarrow> cf a k = cf b k"
  moreover have "cf a k = cf b k" if "sntrup_p \<le> k" for k
    using that deg_p_cf [of a] deg_p_cf [of b] by (simp add: deg_p_def)
  ultimately have "cf a = cf b" by (metis ext not_less)
  then show ?thesis by (simp add: cf.rep_eq Rep_qring_inject)
qed

lemma cf_of_nat_mult: "cf (of_nat n * a) k = int n * cf a k"
  by (induction n) (simp_all add: algebra_simps)

lemma cf_of_int_mult: "cf (of_int n * a) k = n * cf a k"
proof (cases "0 \<le> n")
  case True
  then show ?thesis using cf_of_nat_mult [of "nat n" a k] by simp
next
  case False
  then show ?thesis using cf_of_nat_mult [of "nat (- n)" a k] by simp
qed

lemma cf_of_int: "cf (of_int n) k = n * rone k"
  using cf_of_int_mult [of n 1 k] by simp

text \<open>Divisibility by an integer is divisibility of every coefficient.\<close>

lemma of_int_dvd: "of_int n dvd (a :: qring) \<longleftrightarrow> (\<forall>k < sntrup_p. n dvd cf a k)"
proof
  assume "of_int n dvd a"
  then obtain b where "a = of_int n * b" by (elim dvdE)
  then show "\<forall>k < sntrup_p. n dvd cf a k" by (simp add: cf_of_int_mult)
next
  assume d: "\<forall>k < sntrup_p. n dvd cf a k"
  define b where "b = Abs_qring (\<lambda>k. cf a k div n)"
  have "deg_p (\<lambda>k. cf a k div n)" using deg_p_cf [of a] by (simp add: deg_p_def)
  then have "cf b k = cf a k div n" for k by (simp add: b_def cf.rep_eq Abs_qring_inverse)
  then have "a = of_int n * b" using d by (intro cf_eqI) (simp add: cf_of_int_mult)
  then show "of_int n dvd a" by simp
qed

section \<open>Evaluation at x and at its inverse\<close>

lift_definition qx :: qring is "mulx rone" by simp

lemma cf_qx_mult: "cf (qx * a) = mulx (cf a)"
  by transfer (simp add: rmul_mulx_left rmul_rone_left fun_eq_iff [symmetric] ext [OF rmul_rone_left])

lemma cf_qx_power: "cf (qx ^ n * a) = (mulx ^^ n) (cf a)"
  by (induction n) (simp_all add: cf_qx_mult mult.assoc)

lemma qx_p: "qx ^ sntrup_p = qx + 1"
proof (rule cf_eqI)
  fix k
  have "cf (qx ^ sntrup_p * 1) k = mulx (cf 1) k + cf 1 k"
    using mulx_pow_p [OF deg_p_cf [of 1]] by (simp only: cf_qx_power)
  moreover have "cf (qx * 1) k = mulx (cf 1) k" by (simp only: cf_qx_mult)
  ultimately show "cf (qx ^ sntrup_p) k = cf (qx + 1) k" by simp
qed

definition qy :: qring where "qy = qx ^ (sntrup_p - 1) - 1"

lemma qx_qy [simp]: "qx * qy = 1" "qy * qx = 1"
proof -
  have "Suc (sntrup_p - 1) = sntrup_p" by (simp add: sntrup_p_def)
  then have "qx * qx ^ (sntrup_p - 1) = qx + 1" by (metis power_Suc qx_p)
  then show "qx * qy = 1" by (simp add: qy_def right_diff_distrib)
  then show "qy * qx = 1" by (simp add: mult.commute)
qed

lemma qx_qy_power: "qx ^ n * qy ^ n = 1" "qx ^ n * (qy ^ n * a) = a"
  by (simp_all add: power_mult_distrib [symmetric] mult.assoc [symmetric])

fun pol :: "int list \<Rightarrow> qring" where
  "pol [] = 0"
| "pol (a # l) = of_int a + qx * pol l"

fun ev :: "int list \<Rightarrow> qring" where
  "ev [] = 0"
| "ev (a # l) = of_int a + qy * ev l"

lemma cf_pol: "length l \<le> sntrup_p \<Longrightarrow> cf (pol l) = coef l"
proof (induction l)
  case Nil
  then show ?case by (simp add: fun_eq_iff coef_def)
next
  case (Cons a l)
  then have "cf (qx * pol l) = psh 1 (coef l)"
    by (auto simp: cf_qx_mult fun_eq_iff mulx_def psh_def coef_def)
  then show ?case by (simp add: fun_eq_iff coef_Cons cf_of_int rone_def)
qed

text \<open>The code's product of two polynomials is the ring's.\<close>

lemma cf_pol_mult:
  "length a = sntrup_p \<Longrightarrow> length b = sntrup_p \<Longrightarrow> k < sntrup_p \<Longrightarrow> cf (pol a * pol b) k = ring_mul a b k"
  by (simp add: cf_mult cf_pol ring_mul_eq)

lemma pol_append: "pol (a @ b) = pol a + qx ^ length a * pol b"
  by (induction a) (simp_all add: algebra_simps)

lemma ev_append: "ev (a @ b) = ev a + qy ^ length a * ev b"
  by (induction a) (simp_all add: algebra_simps)

lemma ev_zeros [simp]: "ev (replicate n 0) = 0"
  by (induction n) simp_all

lemma pol_zeros [simp]: "pol (replicate n 0) = 0"
  by (induction n) simp_all

text \<open>Reversal: x^(n - 1) times the value at y is the value of the reversed list at x.\<close>

lemma ev_reverse: "length l = Suc n \<Longrightarrow> qx ^ n * ev l = pol (rev l)"
proof (induction n arbitrary: l)
  case 0
  then show ?case by (cases l) simp_all
next
  case (Suc n)
  then obtain a m where l: "l = a # m" "length m = Suc n" by (cases l) auto
  have "qx ^ Suc n * ev l = of_int a * qx ^ Suc n + qx ^ n * (qx * qy) * ev m"
    by (simp add: l(1) algebra_simps del: qx_qy)
  also have "\<dots> = pol (rev l)" using Suc.IH [OF l(2)] l by (simp add: pol_append algebra_simps)
  finally show ?case .
qed

lemma ev_sum: "ev l = (\<Sum>i < length l. of_int (l ! i) * qy ^ i)"
  by (induction l) (simp_all add: sum.lessThan_Suc_shift sum_distrib_left algebra_simps del: sum.lessThan_Suc)

text \<open>Coefficientwise congruences carry over.\<close>

lemma of_int_dvd_of_int: "m dvd n \<Longrightarrow> (of_int m :: qring) dvd of_int n"
  by (auto elim!: dvdE)

lemma ev_combination:
  assumes "length u = n" "length f = n" "length g = n"
    and "\<And>i. i < n \<Longrightarrow> k dvd u ! i - (a * g ! i + b * f ! i)"
  shows "of_int k dvd ev u - (of_int a * ev g + of_int b * ev f)"
proof -
  have "ev u - (of_int a * ev g + of_int b * ev f)
      = (\<Sum>i < n. of_int (u ! i - (a * g ! i + b * f ! i)) * qy ^ i)"
    using assms(1-3) by (simp add: ev_sum sum_subtractf sum.distrib sum_distrib_left algebra_simps)
  also have "of_int k dvd \<dots>" using assms(4) by (intro dvd_sum dvd_mult2 of_int_dvd_of_int) simp
  finally show ?thesis .
qed

lemma ev_shift_right: "v \<noteq> [] \<Longrightarrow> last v = 0 \<Longrightarrow> ev (0 # butlast v) = qy * ev v"
  by (cases v rule: rev_cases) (simp_all add: ev_append)

lemma ev_shift_left: "u \<noteq> [] \<Longrightarrow> hd u = 0 \<Longrightarrow> ev u = qy * ev (tl u @ [0])"
  by (cases u) (simp_all add: ev_append)

end
