(* ===== verification/Sntrup_Inverse.thy ===== *)
theory Sntrup_Inverse
  imports Sntrup_Fq Sntrup_Quotient
begin

text \<open>
  Inversion in the rings Z/q[x]/(x^761 - x - 1) and Z/3[x]/(x^761 - x - 1)
  (\<open>Rq::recip\<close> and \<open>R3::recip\<close> of \<open>trelis-primitives/src/sntrup761/fq.rs\<close>): 1521 branch-free
  division steps on four arrays of 762 coefficients. The locale \<open>division_steps\<close> states what one
  step does to the arrays, for either modulus, and proves from it that the loop ends with the
  inverse exactly when there is one; it is interpreted on both of the code's steps.
\<close>

section \<open>The division steps\<close>

record div_state =
  st_delta :: int
  st_f :: "int list"
  st_g :: "int list"
  st_v :: "int list"
  st_r :: "int list"

text \<open>\<open>for i in (1..=P).rev() { v[i] = v[i - 1] } v[0] = 0\<close> and \<open>for i in 0..P { g[i] = g[i + 1] } g[P] = 0\<close>.\<close>

definition shift_right :: "int list \<Rightarrow> int list" where
  "shift_right v = 0 # butlast v"

definition shift_left :: "int list \<Rightarrow> int list" where
  "shift_left g = tl g @ [0]"

text \<open>\<open>t = swap & (a ^ b); a ^= t; b ^= t\<close> for every entry.\<close>

definition cond_swap :: "int \<Rightarrow> int list \<Rightarrow> int list \<Rightarrow> int list \<times> int list" where
  "cond_swap swap as bs =
     (map2 (\<lambda>a b. a XOR (swap AND (a XOR b))) as bs, map2 (\<lambda>a b. b XOR (swap AND (a XOR b))) as bs)"

text \<open>The swap mask and the update of \<open>delta\<close>.\<close>

definition swap_mask :: "int \<Rightarrow> int \<Rightarrow> int option" where
  "swap_mask delta g0 = do {
     n \<leftarrow> fits 16 (- delta);
     Some (i16_negative_mask n AND i16_nonzero_mask g0) }"

definition next_delta :: "int \<Rightarrow> int \<Rightarrow> int option" where
  "next_delta swap delta = do {
     n \<leftarrow> fits 16 (- delta);
     fits 16 ((delta XOR (swap AND (delta XOR n))) + 1) }"

definition quotient_update :: "int list \<Rightarrow> int \<Rightarrow> int \<Rightarrow> int list \<Rightarrow> int list option" where
  "quotient_update out f0 g0 fv = those (map2 (\<lambda>o1 v. do {
     a \<leftarrow> fits 32 (f0 * o1);
     b \<leftarrow> fits 32 (g0 * v);
     x \<leftarrow> fits 32 (a - b);
     fq_freeze x }) out fv)"

definition rq_step :: "div_state \<Rightarrow> div_state option" where
  "rq_step s = do {
     let v = shift_right (st_v s);
     swap \<leftarrow> swap_mask (st_delta s) (hd (st_g s));
     delta \<leftarrow> next_delta swap (st_delta s);
     let (f, g) = cond_swap swap (st_f s) (st_g s);
     let (v, r) = cond_swap swap v (st_r s);
     let f0 = hd f;
     let g0 = hd g;
     g \<leftarrow> quotient_update g f0 g0 f;
     r \<leftarrow> quotient_update r f0 g0 v;
     Some \<lparr> st_delta = delta, st_f = f, st_g = shift_left g, st_v = v, st_r = r \<rparr> }"

definition quotient_update_r3 :: "int list \<Rightarrow> int \<Rightarrow> int list \<Rightarrow> int list option" where
  "quotient_update_r3 out sign fv = those (map2 (\<lambda>o1 v. do {
     m \<leftarrow> fits 8 (sign * v);
     x \<leftarrow> fits 8 (o1 + m);
     f3_freeze x }) out fv)"

definition r3_step :: "div_state \<Rightarrow> div_state option" where
  "r3_step s = do {
     let v = shift_right (st_v s);
     n \<leftarrow> fits 8 (- hd (st_g s));
     sign \<leftarrow> fits 8 (n * hd (st_f s));
     swap16 \<leftarrow> swap_mask (st_delta s) (hd (st_g s));
     let swap = as_signed 8 swap16;
     delta \<leftarrow> next_delta swap (st_delta s);
     let (f, g) = cond_swap swap (st_f s) (st_g s);
     let (v, r) = cond_swap swap v (st_r s);
     g \<leftarrow> quotient_update_r3 g sign f;
     r \<leftarrow> quotient_update_r3 r sign v;
     Some \<lparr> st_delta = delta, st_f = f, st_g = shift_left g, st_v = v, st_r = r \<rparr> }"

fun repeat_steps :: "nat \<Rightarrow> (div_state \<Rightarrow> div_state option) \<Rightarrow> div_state \<Rightarrow> div_state option" where
  "repeat_steps 0 step s = Some s"
| "repeat_steps (Suc n) step s = do { s \<leftarrow> step s; repeat_steps n step s }"

text \<open>f = 1 - x^(P - 1) - x^P, g the reversed input, v = 0 and r the given constant.\<close>

definition start_state :: "int \<Rightarrow> int list \<Rightarrow> div_state" where
  "start_state r0 input =
     \<lparr> st_delta = 1, st_f = 1 # replicate (sntrup_p - 2) 0 @ [- 1, - 1], st_g = rev input @ [0],
       st_v = replicate (sntrup_p + 1) 0, st_r = r0 # replicate sntrup_p 0 \<rparr>"

section \<open>Inversion\<close>

definition rq_recip :: "int \<Rightarrow> int list \<Rightarrow> (string + int list) option" where
  "rq_recip ratio input = do {
     r0 \<leftarrow> fq_recip ratio;
     s \<leftarrow> repeat_steps (2 * sntrup_p - 1) rq_step (start_state r0 input);
     if i16_nonzero_mask (st_delta s) \<noteq> 0 then Some (Inl ''Polynomial not invertible'')
     else do {
       scale \<leftarrow> recip_ct (hd (st_f s));
       out \<leftarrow> those (map (\<lambda>i. do { x \<leftarrow> fits 32 (scale * st_v s ! (sntrup_p - 1 - i)); fq_freeze x }) [0..<sntrup_p]);
       Some (Inr out) } }"

definition r3_recip :: "int list \<Rightarrow> (string + int list) option" where
  "r3_recip input = do {
     s \<leftarrow> repeat_steps (2 * sntrup_p - 1) r3_step (start_state 1 input);
     if i16_nonzero_mask (st_delta s) \<noteq> 0 then Some (Inl ''Polynomial not invertible in R3'')
     else do {
       let sign = hd (st_f s);
       out \<leftarrow> those (map (\<lambda>i. fits 8 (sign * st_v s ! (sntrup_p - 1 - i))) [0..<sntrup_p]);
       Some (Inr out) } }"

section \<open>What a step does\<close>

definition regular :: "int \<Rightarrow> int \<Rightarrow> bool" where
  "regular k a \<longleftrightarrow> (\<forall>u. k dvd a * u \<longrightarrow> k dvd u)"

definition arrays :: "(int \<Rightarrow> bool) \<Rightarrow> div_state \<Rightarrow> bool" where
  "arrays ok s \<longleftrightarrow> (\<forall>l \<in> {st_f s, st_g s, st_v s, st_r s}. length l = sntrup_p + 1 \<and> list_all ok l)"

definition swaps :: "div_state \<Rightarrow> bool" where
  "swaps s \<longleftrightarrow> 0 < st_delta s \<and> hd (st_g s) \<noteq> 0"

text \<open>After the conditional swap: f, g, v (already shifted) and r.\<close>

definition swapped :: "div_state \<Rightarrow> int list \<times> int list \<times> int list \<times> int list" where
  "swapped s = (if swaps s then (st_g s, st_f s, st_r s, shift_right (st_v s))
     else (st_f s, st_g s, shift_right (st_v s), st_r s))"

text \<open>\<open>u = a * g + b * f\<close> modulo \<open>k\<close>, coefficientwise.\<close>

definition combines :: "int \<Rightarrow> int \<Rightarrow> int \<Rightarrow> int list \<Rightarrow> int list \<Rightarrow> int list \<Rightarrow> bool" where
  "combines k a b g f u \<longleftrightarrow> length u = sntrup_p + 1 \<and> (\<forall>i < sntrup_p + 1. k dvd u ! i - (a * g ! i + b * f ! i))"

definition division_step :: "int \<Rightarrow> (int \<Rightarrow> bool) \<Rightarrow> div_state \<Rightarrow> div_state \<Rightarrow> bool" where
  "division_step k ok s s' \<longleftrightarrow>
     (case swapped s of (f, g, v, r) \<Rightarrow>
        st_delta s' = (if swaps s then 1 - st_delta s else 1 + st_delta s) \<and> st_f s' = f \<and> st_v s' = v
      \<and> (\<exists>a b u. regular k a \<and> (swaps s \<longrightarrow> regular k b) \<and> (hd (st_g s) = 0 \<longrightarrow> b = 0)
           \<and> k dvd a * hd g + b * hd f \<and> combines k a b g f u \<and> list_all ok u \<and> st_g s' = shift_left u
           \<and> combines k a b r v (st_r s')))"

section \<open>The invariant of the loop\<close>

definition bounded :: "int \<Rightarrow> int list \<Rightarrow> bool" where
  "bounded d l \<longleftrightarrow> (\<forall>i < length l. d < 2 * int i \<longrightarrow> l ! i = 0)"

definition even_odds :: "int \<Rightarrow> qring \<Rightarrow> nat \<Rightarrow> qring \<Rightarrow> qring \<Rightarrow> bool" where
  "even_odds k t n a b \<longleftrightarrow> of_int k dvd qy ^ n * a - b * t"

definition pending :: "int \<Rightarrow> qring \<Rightarrow> nat \<Rightarrow> div_state \<Rightarrow> bool" where
  "pending k t n s \<longleftrightarrow>
     even_odds k t n (ev (st_f s)) (qy * ev (st_v s))
   \<and> bounded (1521 - int n + st_delta s) (st_f s)
   \<and> bounded (1521 - int n - st_delta s) (st_g s)
   \<and> bounded (int n + st_delta s - 1) (st_v s) \<and> int n + st_delta s \<le> 1521"

definition hopeless :: "div_state \<Rightarrow> bool" where
  "hopeless s \<longleftrightarrow> st_g s = replicate (sntrup_p + 1) 0 \<and> 0 < st_delta s"

text \<open>\<open>t\<close> stands for the input times the wanted ratio, evaluated at the inverse of x.\<close>

definition step_inv :: "int \<Rightarrow> (int \<Rightarrow> bool) \<Rightarrow> qring \<Rightarrow> nat \<Rightarrow> div_state \<Rightarrow> bool" where
  "step_inv k ok t n s \<longleftrightarrow>
     arrays ok s \<and> \<bar>st_delta s\<bar> \<le> int n + 1 \<and> hd (st_f s) \<noteq> 0 \<and> hd (st_r s) \<noteq> 0
   \<and> even_odds k t n (ev (st_g s)) (ev (st_r s)) \<and> bounded (int n - st_delta s + 1) (st_r s)
   \<and> (pending k t n s \<or> hopeless s)"

lemma bounded_mono: "bounded d l \<Longrightarrow> d \<le> e \<Longrightarrow> bounded e l"
  by (auto simp: bounded_def)

lemma bounded_shift_left: "bounded (d + 2) u \<Longrightarrow> length u = sntrup_p + 1 \<Longrightarrow> bounded d (shift_left u)"
  by (auto simp: bounded_def shift_left_def nth_append nth_tl)

lemma bounded_shift_right:
  assumes "bounded d v" and "v \<noteq> []"
  shows "bounded (d + 2) (shift_right v)"
  unfolding bounded_def
proof (intro allI impI)
  fix i assume i: "i < length (shift_right v)" "d + 2 < 2 * int i"
  then show "shift_right v ! i = 0"
    using assms by (cases i) (auto simp: bounded_def shift_right_def nth_butlast)
qed

lemma bounded_zero: "bounded d l \<Longrightarrow> d < 0 \<Longrightarrow> l = replicate (length l) 0"
  by (auto simp: bounded_def intro!: nth_equalityI)

lemma bounded_zeros [simp]: "bounded d (replicate n 0)"
  by (simp add: bounded_def)

lemma length_shifts [simp]: "v \<noteq> [] \<Longrightarrow> length (shift_right v) = length v" "v \<noteq> [] \<Longrightarrow> length (shift_left v) = length v"
  by (simp_all add: shift_right_def shift_left_def)

lemma arrays_lengths: "arrays ok s \<Longrightarrow> length (st_f s) = sntrup_p + 1 \<and> length (st_g s) = sntrup_p + 1
    \<and> length (st_v s) = sntrup_p + 1 \<and> length (st_r s) = sntrup_p + 1"
  by (simp add: arrays_def)

locale division_steps =
  fixes k :: int and ok :: "int \<Rightarrow> bool" and step :: "div_state \<Rightarrow> div_state option"
  assumes modulus: "1 < k"
    and ok_digits: "ok (- 1)" "ok 0" "ok 1"
    and ok_zero: "ok x \<Longrightarrow> k dvd x \<Longrightarrow> x = 0"
    and step_ok: "arrays ok s \<Longrightarrow> hd (st_f s) \<noteq> 0 \<Longrightarrow> \<bar>st_delta s\<bar> \<le> 2000 \<Longrightarrow>
      \<exists>s'. step s = Some s' \<and> arrays ok s' \<and> division_step k ok s s'"
begin

lemma combined_zero:
  assumes "combines k a b g f u" and "list_all ok u" and "i < sntrup_p + 1" and "a * g ! i + b * f ! i = 0"
  shows "u ! i = 0"
proof (rule ok_zero)
  have "k dvd u ! i - (a * g ! i + b * f ! i)" using assms(1,3) by (simp add: combines_def)
  then show "k dvd u ! i" by (simp only: assms(4) diff_0_right)
  show "ok (u ! i)" using assms(1-3) by (simp add: combines_def list_all_length)
qed

lemma combined_bounded:
  assumes "combines k a b g f u" and "list_all ok u" and "length g = sntrup_p + 1" "length f = sntrup_p + 1"
    and "bounded d g" and "b = 0 \<or> bounded d f"
  shows "bounded d u"
  unfolding bounded_def
proof (intro allI impI)
  fix i assume i: "i < length u" "d < 2 * int i"
  then have len: "i < sntrup_p + 1" using assms(1) by (simp add: combines_def)
  show "u ! i = 0"
    by (rule combined_zero [OF assms(1,2) len]) (use assms(3-6) i len in \<open>auto simp: bounded_def\<close>)
qed

lemma combined_ev:
  assumes "combines k a b g f u" and "combines k a b r v w"
    and "length g = sntrup_p + 1" "length f = sntrup_p + 1" "length r = sntrup_p + 1" "length v = sntrup_p + 1"
    and "even_odds k t n (ev g) (ev r)" and "b = 0 \<or> even_odds k t n (ev f) (ev v)"
  shows "even_odds k t n (ev u) (ev w)"
proof -
  define eu where "eu = ev u - (of_int a * ev g + of_int b * ev f)"
  define ew where "ew = ev w - (of_int a * ev r + of_int b * ev v)"
  have u: "of_int k dvd eu" unfolding eu_def
    using assms(1) by (intro ev_combination [OF _ assms(4,3)]) (simp_all add: combines_def)
  have w: "of_int k dvd ew" unfolding ew_def
    using assms(2) by (intro ev_combination [OF _ assms(6,5)]) (simp_all add: combines_def)
  have b: "of_int k dvd of_int b * (qy ^ n * ev f - ev v * t)"
    using assms(8) by (auto simp: even_odds_def)
  have "qy ^ n * ev u - ev w * t = qy ^ n * eu - ew * t
      + (of_int a * (qy ^ n * ev g - ev r * t) + of_int b * (qy ^ n * ev f - ev v * t))"
    by (simp add: eu_def ew_def algebra_simps)
  moreover have "of_int k dvd \<dots>"
    using u w b assms(7) by (intro dvd_add dvd_diff) (simp_all add: even_odds_def)
  ultimately show ?thesis by (simp add: even_odds_def)
qed

text \<open>The bounds and the two congruences for the arrays between the swap and the elimination.\<close>

lemma pending_swapped:
  assumes inv: "step_inv k ok t n s" "pending k t n s" and sw: "swapped s = (f, g, v, r)"
    and d: "d = (if swaps s then 1 - st_delta s else 1 + st_delta s)" and b: "hd (st_g s) = 0 \<longrightarrow> b = 0"
  shows "even_odds k t n (ev g) (ev r)" "even_odds k t n (ev f) (ev v)"
    "bounded (1521 - int (Suc n) + d) f" "bounded (1521 - int (Suc n) - d + 2) g"
    "b = 0 \<or> bounded (1521 - int (Suc n) - d + 2) f"
    "bounded (int (Suc n) + d - 1) v" "bounded (int (Suc n) - d + 1) r"
    "b = 0 \<or> bounded (int (Suc n) - d + 1) v"
proof -
  note len = arrays_lengths [of ok s]
  have arr: "arrays ok s" using inv(1) by (simp add: step_inv_def)
  have vne: "st_v s \<noteq> []" using len arr by auto
  have shv: "bounded (int n + st_delta s + 1) (shift_right (st_v s))"
    using bounded_shift_right [of "int n + st_delta s - 1" "st_v s"] inv(2) vne
    by (simp add: pending_def add.commute)
  have "last (st_v s) = st_v s ! sntrup_p" using len arr vne by (simp add: last_conv_nth)
  also have "\<dots> = 0" using inv(2) len arr by (auto simp: pending_def bounded_def sntrup_p_def)
  finally have evv: "ev (shift_right (st_v s)) = qy * ev (st_v s)"
    using ev_shift_right [OF vne] by (simp add: shift_right_def)
  show "even_odds k t n (ev g) (ev r)" "even_odds k t n (ev f) (ev v)"
    using inv sw evv by (auto simp: swapped_def step_inv_def pending_def split: if_splits)
  show "bounded (1521 - int (Suc n) + d) f" "bounded (1521 - int (Suc n) - d + 2) g"
    using inv(2) sw by (auto simp: swapped_def pending_def d algebra_simps split: if_splits)
  show "b = 0 \<or> bounded (1521 - int (Suc n) - d + 2) f"
    using inv(2) sw b by (auto simp: swapped_def swaps_def pending_def d split: if_splits intro: bounded_mono)
  show "bounded (int (Suc n) + d - 1) v" "bounded (int (Suc n) - d + 1) r"
    using inv shv sw by (auto simp: swapped_def step_inv_def d algebra_simps split: if_splits)
  show "b = 0 \<or> bounded (int (Suc n) - d + 1) v"
    using inv(1) shv sw b by (auto simp: swapped_def swaps_def step_inv_def d split: if_splits intro: bounded_mono)
qed

text \<open>When the arrays have become hopeless, nothing but \<open>delta\<close> and r changes.\<close>

lemma hopeless_swapped:
  assumes inv: "step_inv k ok t n s" "hopeless s" and sw: "swapped s = (f, g, v, r)"
    and d: "d = (if swaps s then 1 - st_delta s else 1 + st_delta s)" and b: "hd (st_g s) = 0 \<longrightarrow> b = 0"
  shows "even_odds k t n (ev g) (ev r)" "b = 0" "bounded (int (Suc n) - d + 1) r"
    "g = replicate (sntrup_p + 1) 0" "0 < d"
proof -
  have h: "hd (st_g s) = 0" "\<not> swaps s" using inv(2) by (simp_all add: hopeless_def swaps_def)
  show "b = 0" using b h by simp
  show "even_odds k t n (ev g) (ev r)" "bounded (int (Suc n) - d + 1) r"
    "g = replicate (sntrup_p + 1) 0" "0 < d"
    using inv sw h by (auto simp: swapped_def step_inv_def hopeless_def d)
qed

lemma ok_hd: "arrays ok s \<Longrightarrow> l \<in> {st_f s, st_g s, st_v s, st_r s} \<Longrightarrow> k dvd hd l \<Longrightarrow> hd l = 0"
  by (rule ok_zero) (auto simp: arrays_def list_all_iff intro!: hd_in_set)

lemma step_preserves:
  assumes inv: "step_inv k ok t n s" and n: "n < 1521"
  shows "\<exists>s'. step s = Some s' \<and> step_inv k ok t (Suc n) s'"
proof -
  have arr: "arrays ok s" and f0: "hd (st_f s) \<noteq> 0" and r0: "hd (st_r s) \<noteq> 0"
    and delta: "\<bar>st_delta s\<bar> \<le> int n + 1" and ph: "pending k t n s \<or> hopeless s"
    using inv by (simp_all add: step_inv_def)
  obtain s' where s': "step s = Some s'" "arrays ok s'" "division_step k ok s s'"
    using step_ok [OF arr f0] delta n by fastforce
  obtain f g v r where sw: "swapped s = (f, g, v, r)" by (metis prod_cases4)
  define d where "d = (if swaps s then 1 - st_delta s else 1 + st_delta s)"
  from s'(3) obtain a b u where st: "st_delta s' = d" "st_f s' = f" "st_v s' = v"
    and ab: "regular k a" "swaps s \<longrightarrow> regular k b" "hd (st_g s) = 0 \<longrightarrow> b = 0" "k dvd a * hd g + b * hd f"
    and u: "combines k a b g f u" "list_all ok u" "st_g s' = shift_left u" and w: "combines k a b r v (st_r s')"
    unfolding division_step_def sw by (auto simp: d_def)
  note len = arrays_lengths [OF arr]
  note len' = arrays_lengths [OF s'(2)]
  have vne: "st_v s \<noteq> []" using len by auto
  have lens: "length f = sntrup_p + 1" "length g = sntrup_p + 1" "length v = sntrup_p + 1" "length r = sntrup_p + 1"
    using sw len vne by (auto simp: swapped_def split: if_splits)
  note P = pending_swapped [OF inv _ sw d_def ab(3)] and H = hopeless_swapped [OF inv _ sw d_def ab(3)]
  have okw: "list_all ok (st_r s')" using s'(2) by (simp add: arrays_def)
  have f1: "hd f \<noteq> 0" using sw f0 by (auto simp: swapped_def swaps_def split: if_splits)
  have ulen: "length u = sntrup_p + 1" using u(1) by (simp add: combines_def)
  then have une: "u \<noteq> []" by auto
  have hd0: "hd l = l ! 0" if "length l = sntrup_p + 1" for l :: "int list" using that by (cases l) auto
  have "k dvd u ! 0 - (a * g ! 0 + b * f ! 0)" using u(1) by (simp add: combines_def)
  then have "k dvd u ! 0" using dvd_add [OF _ ab(4), of "u ! 0 - (a * g ! 0 + b * f ! 0)"] lens by (simp add: hd0)
  moreover have "ok (u ! 0)" using u(2) ulen by (simp add: list_all_length)
  ultimately have u0: "hd u = 0" using ok_zero ulen by (simp add: hd0)
  have B: "even_odds k t n (ev u) (ev (st_r s'))"
    by (rule combined_ev [OF u(1) w lens(2,1,4,3)]) (use ph P(1,2) H(1,2) in blast)+
  have B': "even_odds k t (Suc n) (ev (st_g s')) (ev (st_r s'))"
    using B ev_shift_left [OF une u0] by (simp add: even_odds_def u(3) shift_left_def mult.assoc mult.left_commute)
  have R: "bounded (int (Suc n) - st_delta s' + 1) (st_r s')"
    by (rule combined_bounded [OF w okw lens(4,3)]) (use ph P(7,8) H(2,3) st(1) in \<open>simp_all only:, blast+\<close>)
  have r1: "hd (st_r s') \<noteq> 0"
  proof
    assume "hd (st_r s') = 0"
    moreover have "k dvd st_r s' ! 0 - (a * r ! 0 + b * v ! 0)" using w by (simp add: combines_def)
    moreover have "hd (st_r s') = st_r s' ! 0" "hd r = r ! 0" "hd v = v ! 0" using lens len' by (simp_all add: hd0)
    ultimately have "k dvd 0 - (a * hd r + b * hd v)" by metis
    then have z: "k dvd a * hd r + b * hd v" by (simp only: diff_0 dvd_minus_iff)
    have "k dvd hd (st_r s)"
    proof (cases "swaps s")
      case True
      then have "hd r = 0" "v = st_r s" "regular k b" using sw ab(2) by (auto simp: swapped_def shift_right_def)
      then have "k dvd b * hd (st_r s)" using z by simp
      then show ?thesis using \<open>regular k b\<close> unfolding regular_def by blast
    next
      case False
      then have "hd v = 0" "r = st_r s" using sw by (auto simp: swapped_def shift_right_def)
      then have "k dvd a * hd (st_r s)" using z by simp
      then show ?thesis using ab(1) unfolding regular_def by blast
    qed
    then show False using ok_hd [OF arr, of "st_r s"] r0 by simp
  qed
  have D: "\<bar>st_delta s'\<bar> \<le> int (Suc n) + 1" using delta by (auto simp: st(1) d_def)
  have "pending k t (Suc n) s' \<or> hopeless s'"
  proof (cases "hopeless s")
    case True
    have "u = replicate (sntrup_p + 1) 0"
      using combined_zero [OF u(1,2)] H(2,4) [OF True] ulen by (intro nth_equalityI) (auto simp del: replicate_Suc)
    then have "st_g s' = replicate (sntrup_p + 1) 0" by (simp add: u(3) shift_left_def replicate_append_same)
    then show ?thesis using H(5) [OF True] by (simp add: hopeless_def st(1))
  next
    case False
    then have p: "pending k t n s" using ph by simp
    have G: "bounded (1521 - int (Suc n) - d) (st_g s')"
      unfolding u(3) by (rule bounded_shift_left [OF combined_bounded [OF u(1,2) lens(2,1) P(4,5) [OF p]] ulen])
    show ?thesis
    proof (cases "int (Suc n) + d \<le> 1521")
      case True
      have "qy ^ Suc n * ev f - qy * ev v * t = qy * (qy ^ n * ev f - ev v * t)" by (simp add: algebra_simps)
      then have "even_odds k t (Suc n) (ev f) (qy * ev v)" using P(2) [OF p] by (simp add: even_odds_def)
      then show ?thesis using P(3,6) [OF p] G True by (simp add: pending_def st)
    next
      case False
      then have "st_g s' = replicate (sntrup_p + 1) 0" using bounded_zero [OF G] len' by simp
      moreover have "0 < d" using False n by simp
      ultimately show ?thesis by (simp add: hopeless_def st(1))
    qed
  qed
  then have "step_inv k ok t (Suc n) s'"
    unfolding step_inv_def using s'(2) D f1 r1 B' R st(2) by simp
  then show ?thesis using s'(1) by blast
qed

lemma repeat_preserves:
  "step_inv k ok t n s \<Longrightarrow> n + m \<le> 1521 \<Longrightarrow> \<exists>s'. repeat_steps m step s = Some s' \<and> step_inv k ok t (n + m) s'"
proof (induction m arbitrary: n s)
  case 0
  then show ?case by simp
next
  case (Suc m)
  obtain s1 where "step s = Some s1" "step_inv k ok t (Suc n) s1" using step_preserves [OF Suc.prems(1)] Suc.prems(2) by auto
  then show ?case using Suc.IH [of "Suc n" s1] Suc.prems(2) by simp
qed

text \<open>The start: the reversed modulus vanishes at y, and the reversed input is what t is made of.\<close>

lemma start_inv:
  assumes len: "length input = sntrup_p" and ok: "list_all ok input" "ok r0" and r0: "k dvd ratio * r0 - 1"
  shows "step_inv k ok (of_int ratio * ev (rev input)) 0 (start_state r0 input)"
proof -
  let ?s = "start_state r0 input" and ?t = "of_int ratio * ev (rev input)"
  have p: "sntrup_p = 761" by (simp add: sntrup_p_def)
  have nz: "r0 \<noteq> 0"
  proof
    assume "r0 = 0"
    then have "k dvd 1" using r0 by simp
    then show False using modulus by simp
  qed
  have "qy ^ sntrup_p * qx ^ sntrup_p = qy ^ sntrup_p * qx + qy ^ sntrup_p" by (simp add: qx_p distrib_left)
  moreover have "qy ^ sntrup_p * qx ^ sntrup_p = 1" using qx_qy_power(1) [of sntrup_p] by (simp add: mult.commute)
  moreover have "qy ^ sntrup_p * qx = qy ^ (sntrup_p - 1)"
  proof -
    have "qy ^ sntrup_p = qy ^ (sntrup_p - 1) * qy" unfolding p by (simp add: power_Suc2 [symmetric] del: power_Suc)
    then show ?thesis by (simp add: mult.assoc)
  qed
  ultimately have "qy ^ (sntrup_p - 1) + qy ^ sntrup_p = 1" by simp
  then have M: "1 - qy ^ (sntrup_p - 1) - qy ^ sntrup_p = 0" unfolding diff_diff_eq by (simp only: diff_self)
  have "ev (st_f ?s) = 1 + qy * (qy ^ (sntrup_p - 2) * (- 1 - qy))"
    by (simp add: start_state_def ev_append)
  also have "\<dots> = 1 - qy ^ (sntrup_p - 1) - qy ^ sntrup_p"
  proof -
    have "qy * qy ^ (sntrup_p - 2) = qy ^ (sntrup_p - 1)" "qy * (qy ^ (sntrup_p - 2) * qy) = qy ^ sntrup_p"
      unfolding p by (simp_all add: power_Suc [symmetric] power_Suc2 [symmetric] del: power_Suc)
    then show ?thesis by (simp add: right_diff_distrib mult.assoc [symmetric])
  qed
  finally have f: "ev (st_f ?s) = 0" using M by simp
  have "ev (st_g ?s) - ev (st_r ?s) * ?t = of_int (- (ratio * r0 - 1)) * ev (rev input)"
    by (simp add: start_state_def ev_append algebra_simps)
  moreover have "of_int k dvd \<dots>" using r0 by (intro dvd_mult2 of_int_dvd_of_int) (simp only: dvd_minus_iff)
  ultimately have B: "even_odds k ?t 0 (ev (st_g ?s)) (ev (st_r ?s))" by (simp add: even_odds_def)
  have g: "bounded 1520 (st_g ?s)"
    using len by (auto simp: bounded_def start_state_def p nth_append)
  have r: "bounded 0 (st_r ?s)"
    by (auto simp: bounded_def start_state_def nth_Cons split: nat.split)
  have "pending k ?t 0 ?s"
    using f g by (simp add: pending_def even_odds_def) (simp add: start_state_def bounded_def p)
  moreover have "arrays ok ?s"
    using len ok ok_digits by (auto simp: arrays_def start_state_def p list_all_iff)
  ultimately show ?thesis
    using B r nz by (simp add: step_inv_def) (simp add: start_state_def)
qed

text \<open>The end: either delta is 0, f is a constant and v the reversed inverse up to that constant, or r
  shows that the input divides zero.\<close>

lemma loop_result:
  assumes len: "length input = sntrup_p" and ok: "list_all ok input" "ok r0" and r0: "k dvd ratio * r0 - 1"
  obtains s where "repeat_steps (2 * sntrup_p - 1) step (start_state r0 input) = Some s" "arrays ok s"
    "\<bar>st_delta s\<bar> \<le> 1522" "hd (st_f s) \<noteq> 0"
    "st_delta s = 0 \<Longrightarrow> of_int k dvd of_int (hd (st_f s)) - pol (rev (butlast (st_v s))) * (of_int ratio * pol input)"
    "st_delta s \<noteq> 0 \<Longrightarrow> last (rev (butlast (st_r s))) \<noteq> 0
      \<and> of_int k dvd pol (rev (butlast (st_r s))) * (of_int ratio * pol input)"
proof -
  let ?t = "of_int ratio * ev (rev input)"
  have p: "sntrup_p = 761" by (simp add: sntrup_p_def)
  obtain s where s: "repeat_steps (2 * sntrup_p - 1) step (start_state r0 input) = Some s" "step_inv k ok ?t 1521 s"
    using repeat_preserves [OF start_inv [OF assms], of 1521] by (auto simp: p)
  then have arr: "arrays ok s" and f0: "hd (st_f s) \<noteq> 0" and rn: "hd (st_r s) \<noteq> 0"
    and B: "even_odds k ?t 1521 (ev (st_g s)) (ev (st_r s))" and R: "bounded (1522 - st_delta s) (st_r s)"
    and ph: "pending k ?t 1521 s \<or> hopeless s" and d: "\<bar>st_delta s\<bar> \<le> 1522"
    by (simp_all add: step_inv_def)
  note lens = arrays_lengths [OF arr]
  have rev: "qx ^ 760 * ev l = pol (rev (butlast l))" if "length l = sntrup_p + 1" "l ! sntrup_p = 0" for l
  proof -
    have "l \<noteq> []" using that by auto
    then have "last l = 0" using that by (simp add: last_conv_nth)
    then have "l = butlast l @ [0]" using \<open>l \<noteq> []\<close> append_butlast_last_id by metis
    then have "ev l = ev (butlast l)" using ev_append [of "butlast l" "[0]"] by simp
    then show ?thesis using ev_reverse [of "butlast l" 760] that by (simp add: p)
  qed
  have input: "qx ^ 760 * ?t = of_int ratio * pol input"
    using ev_reverse [of "rev input" 760] len by (simp add: p mult.left_commute)
  have both: "qx ^ 1521 * (qy * (ev l * ?t)) = pol (rev (butlast l)) * (of_int ratio * pol input)"
    if "length l = sntrup_p + 1" "l ! sntrup_p = 0" for l
  proof -
    have e: "(1521 :: nat) = 760 + 760 + 1" by simp
    have "qx ^ 1521 * (qy * (ev l * ?t)) = (qx * qy) * ((qx ^ 760 * ev l) * (qx ^ 760 * ?t))"
      unfolding e power_add power_one_right by (simp only: ac_simps)
    then show ?thesis using rev [OF that] input by simp
  qed
  show thesis
  proof (rule that [OF s(1) arr d f0])
    assume d0: "st_delta s = 0"
    then have pe: "pending k ?t 1521 s" using ph by (simp add: hopeless_def)
    then have fz: "bounded 0 (st_f s)" and vz: "bounded 1520 (st_v s)"
      and A: "even_odds k ?t 1521 (ev (st_f s)) (qy * ev (st_v s))" by (simp_all add: pending_def d0)
    obtain c z where f: "st_f s = c # z" using lens by (cases "st_f s") auto
    have "z = replicate (length z) 0"
    proof (rule nth_equalityI)
      fix i assume "i < length z"
      then show "z ! i = replicate (length z) 0 ! i" using fz f by (auto simp: bounded_def dest!: spec [of _ "Suc i"])
    qed simp
    then have "ev (st_f s) = of_int c" using f ev_zeros [of "length z"] by simp
    then have "of_int k dvd qx ^ 1521 * (qy ^ 1521 * of_int c - qy * ev (st_v s) * ?t)"
      using A by (simp add: even_odds_def)
    also have "\<dots> = of_int c - pol (rev (butlast (st_v s))) * (of_int ratio * pol input)"
    proof -
      have "st_v s ! sntrup_p = 0" using vz lens by (auto simp: bounded_def p)
      then show ?thesis using both [of "st_v s"] lens by (simp add: right_diff_distrib qx_qy_power(2) mult.assoc)
    qed
    finally show "of_int k dvd of_int (hd (st_f s)) - pol (rev (butlast (st_v s))) * (of_int ratio * pol input)"
      by (simp add: f)
  next
    assume dn: "st_delta s \<noteq> 0"
    have "\<not> pending k ?t 1521 s"
    proof
      assume "pending k ?t 1521 s"
      then have "bounded (st_delta s) (st_f s)" "st_delta s \<le> 0" by (simp_all add: pending_def)
      then have "st_f s ! 0 = 0" using dn lens by (auto simp: bounded_def)
      then show False using f0 lens by (cases "st_f s") auto
    qed
    then have h: "st_g s = replicate (sntrup_p + 1) 0" "0 < st_delta s" using ph by (simp_all add: hopeless_def)
    then have rz: "st_r s ! sntrup_p = 0" using R lens by (auto simp: bounded_def p)
    have g0: "ev (st_g s) = 0" using h(1) ev_zeros [of "sntrup_p + 1"] by simp
    have "of_int k dvd - (ev (st_r s) * ?t)" using B by (simp only: even_odds_def g0 mult_zero_right diff_0)
    then have "of_int k dvd qx ^ 1521 * (qy * (ev (st_r s) * ?t))" by (simp only: dvd_minus_iff) (simp add: dvd_mult)
    then have "of_int k dvd pol (rev (butlast (st_r s))) * (of_int ratio * pol input)" using both [of "st_r s"] lens rz by simp
    moreover have "last (rev (butlast (st_r s))) = hd (st_r s)"
      using lens by (cases "st_r s") (auto simp: last_rev p)
    ultimately show "last (rev (butlast (st_r s))) \<noteq> 0 \<and> of_int k dvd pol (rev (butlast (st_r s))) * (of_int ratio * pol input)"
      using rn by simp
  qed
qed

end

section \<open>Both steps of the code are division steps\<close>

lemma swap_mask_eq:
  assumes "\<bar>delta\<bar> \<le> 2000" and "\<bar>g0\<bar> \<le> 2295"
  shows "swap_mask delta g0 = Some (if 0 < delta \<and> g0 \<noteq> 0 then - 1 else 0)"
proof -
  have "- 2000 \<le> delta" "delta \<le> 2000" using assms(1) by linarith+
  then have "fits 16 (- delta) = Some (- delta)" by (simp add: fits_def)
  moreover have "i16_negative_mask (- delta) = (if 0 < delta then - 1 else 0)"
    using i16_negative_mask_eq [of "- delta"] assms(1) by simp
  moreover have "i16_nonzero_mask g0 = (if g0 = 0 then 0 else - 1)"
    using i16_nonzero_mask_eq [of g0] assms(2) by simp
  ultimately show ?thesis by (simp add: swap_mask_def)
qed

lemma next_delta_eq:
  assumes "\<bar>delta\<bar> \<le> 2000"
  shows "next_delta (if sw then - 1 else 0) delta = Some (if sw then 1 - delta else 1 + delta)"
proof -
  have b: "- 2000 \<le> delta" "delta \<le> 2000" using assms by linarith+
  have "delta XOR (delta XOR - delta) = - delta" by (simp add: xor.assoc [symmetric])
  moreover have "fits 16 (- delta) = Some (- delta)" "fits 16 (- delta + 1) = Some (1 - delta)" "fits 16 (delta + 1) = Some (1 + delta)"
    "fits 16 (1 - delta) = Some (1 - delta)" "fits 16 (1 + delta) = Some (1 + delta)"
    using b by (simp_all add: fits_def)
  ultimately show ?thesis by (simp add: next_delta_def)
qed

lemma cond_swap_eq:
  assumes "length as = length bs"
  shows "cond_swap (if sw then - 1 else 0) as bs = (if sw then (bs, as) else (as, bs))"
proof -
  have "a XOR (a XOR b) = b" for a b :: int by (simp add: xor.assoc [symmetric])
  moreover have "map2 (\<lambda>a b. a) as bs = as" "map2 (\<lambda>a b. b) as bs = bs"
    using map_fst_zip [OF assms] map_snd_zip [OF assms] by (simp_all add: case_prod_unfold)
  ultimately show ?thesis by (simp add: cond_swap_def xor_back)
qed

lemma update_total:
  assumes "length out = length fv" and "\<And>i. i < length fv \<Longrightarrow> \<exists>y. h (out ! i) (fv ! i) = Some y \<and> Q (out ! i) (fv ! i) y"
  shows "\<exists>u. those (map2 h out fv) = Some u \<and> length u = length fv \<and> (\<forall>i < length fv. Q (out ! i) (fv ! i) (u ! i))"
proof -
  have "\<exists>y. case_prod h x = Some y \<and> Q (fst x) (snd x) y" if m: "x \<in> set (zip out fv)" for x
  proof -
    obtain i where "i < length fv" "x = (out ! i, fv ! i)" using m assms(1) by (auto simp: in_set_conv_nth)
    then show ?thesis using assms(2) by simp
  qed
  from those_total [of "zip out fv" "case_prod h" "\<lambda>x y. Q (fst x) (snd x) y", OF this]
  obtain u where u: "those (map2 h out fv) = Some u" "list_all2 (\<lambda>x y. Q (fst x) (snd x) y) (zip out fv) u"
    by blast
  then show ?thesis using assms(1) by (auto simp: list_all2_conv_all_nth)
qed

lemma fits_32: "\<bar>x\<bar> \<le> 20000000 \<Longrightarrow> fits 32 x = Some x"
  by simp

lemma quotient_update_total:
  assumes "length out = length fv" and "list_all (\<lambda>x. \<bar>x\<bar> \<le> 2295) out" "list_all (\<lambda>x. \<bar>x\<bar> \<le> 2295) fv"
    and "\<bar>f0\<bar> \<le> 2295" "\<bar>g0\<bar> \<le> 2295"
  shows "\<exists>u. quotient_update out f0 g0 fv = Some u \<and> length u = length fv \<and> list_all (\<lambda>x. \<bar>x\<bar> \<le> 2295) u
    \<and> (\<forall>i < length fv. 4591 dvd u ! i - (f0 * out ! i + - g0 * fv ! i))"
proof -
  let ?h = "\<lambda>o1 v. do { a \<leftarrow> fits 32 (f0 * o1); b \<leftarrow> fits 32 (g0 * v); x \<leftarrow> fits 32 (a - b); fq_freeze x }"
  let ?Q = "\<lambda>o1 v y. \<bar>y\<bar> \<le> 2295 \<and> 4591 dvd y - (f0 * o1 + - g0 * v)"
  have "\<exists>y. ?h o1 v = Some y \<and> ?Q o1 v y" if "\<bar>o1\<bar> \<le> 2295" "\<bar>v\<bar> \<le> 2295" for o1 v
  proof -
    have "\<bar>f0 * o1\<bar> \<le> 2295 * 2295" "\<bar>g0 * v\<bar> \<le> 2295 * 2295"
      unfolding abs_mult using assms(4,5) that by (intro mult_mono; simp)+
    then have b: "\<bar>f0 * o1\<bar> \<le> 5267025" "\<bar>g0 * v\<bar> \<le> 5267025" by simp_all
    then have d: "\<bar>f0 * o1 - g0 * v\<bar> \<le> 10534050" by linarith
    obtain y where "fq_freeze (f0 * o1 - g0 * v) = Some y" "\<bar>y\<bar> \<le> 2295" "4591 dvd y - (f0 * o1 - g0 * v)"
      by (rule fq_freeze_abs [of "f0 * o1 - g0 * v"]) (use d in auto)
    moreover have "fits 32 (f0 * o1) = Some (f0 * o1)" "fits 32 (g0 * v) = Some (g0 * v)"
      "fits 32 (f0 * o1 - g0 * v) = Some (f0 * o1 - g0 * v)"
      by (rule fits_32, use b d in linarith)+
    ultimately show ?thesis by simp
  qed
  then have "\<exists>y. ?h (out ! i) (fv ! i) = Some y \<and> ?Q (out ! i) (fv ! i) y" if "i < length fv" for i
    using that assms(1-3) by (simp add: list_all_length)
  from update_total [OF assms(1), of ?h ?Q, OF this] show ?thesis
    unfolding quotient_update_def list_all_length by metis
qed

definition rq_ok :: "int \<Rightarrow> bool" where "rq_ok x \<longleftrightarrow> \<bar>x\<bar> \<le> 2295"
definition r3_ok :: "int \<Rightarrow> bool" where "r3_ok x \<longleftrightarrow> x = - 1 \<or> x = 0 \<or> x = 1"

lemma arrays_facts:
  assumes "arrays ok s" and "swapped s = (f, g, v, r)" and "ok 0"
  shows "length f = sntrup_p + 1" "length g = sntrup_p + 1" "length v = sntrup_p + 1" "length r = sntrup_p + 1"
    "list_all ok f" "list_all ok g" "list_all ok v" "list_all ok r"
proof -
  have l: "length (st_v s) = sntrup_p + 1" and vne: "st_v s \<noteq> []" using assms(1) by (auto simp: arrays_def)
  have "list_all ok (st_v s)" using assms(1) by (simp add: arrays_def)
  then have "list_all ok (shift_right (st_v s))"
    using assms(3) by (auto simp: shift_right_def list_all_iff dest: in_set_butlastD)
  then show "length f = sntrup_p + 1" "length g = sntrup_p + 1" "length v = sntrup_p + 1" "length r = sntrup_p + 1"
    "list_all ok f" "list_all ok g" "list_all ok v" "list_all ok r"
    using assms(1,2) vne l by (auto simp: arrays_def swapped_def split: if_splits)
qed

text \<open>Both swaps of a step, in one equation.\<close>

lemma step_swaps:
  assumes "arrays ok s" and "swapped s = (f, g, v, r)" and "ok 0"
  shows "cond_swap (if swaps s then - 1 else 0) (st_f s) (st_g s) = (f, g)"
    "cond_swap (if swaps s then - 1 else 0) (shift_right (st_v s)) (st_r s) = (v, r)"
proof -
  have "length (st_f s) = length (st_g s)" "length (shift_right (st_v s)) = length (st_r s)"
    using arrays_lengths [OF assms(1)] by (auto simp: shift_right_def)
  then show "cond_swap (if swaps s then - 1 else 0) (st_f s) (st_g s) = (f, g)"
    "cond_swap (if swaps s then - 1 else 0) (shift_right (st_v s)) (st_r s) = (v, r)"
    using assms(2) by (auto simp: cond_swap_eq swapped_def split: if_splits)
qed

lemma hd_ok: "list_all ok l \<Longrightarrow> length l = sntrup_p + 1 \<Longrightarrow> ok (hd l)"
  by (cases l) simp_all

lemma regular_q:
  assumes "\<bar>a\<bar> \<le> 2295" and "a \<noteq> 0"
  shows "regular 4591 a"
  unfolding regular_def
proof (intro allI impI)
  fix u assume "4591 dvd a * u"
  moreover have "\<bar>a\<bar> < 4591" using assms(1) by linarith
  ultimately show "4591 dvd u" using assms(2) by (rule q_dvd_mult)
qed

lemma swapped_heads:
  assumes "swapped s = (f, g, v, r)" and "hd (st_f s) \<noteq> 0"
  shows "hd f \<noteq> 0" "swaps s \<Longrightarrow> hd g \<noteq> 0" "hd (st_g s) = 0 \<Longrightarrow> hd g = 0"
  by (cases "swaps s"; use assms in \<open>simp add: swapped_def swaps_def\<close>;
      use assms in \<open>force simp: swapped_def swaps_def\<close>)+

lemma list_all_shift_left: "list_all ok l \<Longrightarrow> ok 0 \<Longrightarrow> list_all ok (shift_left l)"
  by (cases l) (simp_all add: shift_left_def)

lemma rq_step_ok:
  assumes arr: "arrays rq_ok s" and f0: "hd (st_f s) \<noteq> 0" and d: "\<bar>st_delta s\<bar> \<le> 2000"
  shows "\<exists>s'. rq_step s = Some s' \<and> arrays rq_ok s' \<and> division_step 4591 rq_ok s s'"
proof -
  obtain f g v r where sw: "swapped s = (f, g, v, r)" by (metis prod_cases4)
  note F = arrays_facts [OF arr sw] and S = step_swaps [OF arr sw]
  have z: "rq_ok 0" by (simp add: rq_ok_def)
  have g0: "rq_ok (hd (st_g s))" using arr hd_ok [of rq_ok "st_g s"] by (simp add: arrays_def)
  then have m: "swap_mask (st_delta s) (hd (st_g s)) = Some (if swaps s then - 1 else 0)"
    using swap_mask_eq [OF d, of "hd (st_g s)"] by (simp add: rq_ok_def swaps_def)
  have small: "\<bar>hd f\<bar> \<le> 2295" "\<bar>hd g\<bar> \<le> 2295" using hd_ok [OF F(5,1)] hd_ok [OF F(6,2)] z by (simp_all add: rq_ok_def)
  have okl: "list_all (\<lambda>x. \<bar>x\<bar> \<le> 2295) l" if "list_all rq_ok l" for l using that by (simp add: list_all_iff rq_ok_def)
  obtain u where u: "quotient_update g (hd f) (hd g) f = Some u" "length u = length f" "list_all (\<lambda>x. \<bar>x\<bar> \<le> 2295) u"
    "\<forall>i < length f. 4591 dvd u ! i - (hd f * g ! i + - hd g * f ! i)"
    using quotient_update_total [OF _ okl [OF F(6) [OF z]] okl [OF F(5) [OF z]] small] F(1,2) [OF z] by auto
  obtain w where w: "quotient_update r (hd f) (hd g) v = Some w" "length w = length v" "list_all (\<lambda>x. \<bar>x\<bar> \<le> 2295) w"
    "\<forall>i < length v. 4591 dvd w ! i - (hd f * r ! i + - hd g * v ! i)"
    using quotient_update_total [OF _ okl [OF F(8) [OF z]] okl [OF F(7) [OF z]] small] F(3,4) [OF z] by auto
  define d' where "d' = (if swaps s then 1 - st_delta s else 1 + st_delta s)"
  define s' where "s' = \<lparr> st_delta = d', st_f = f, st_g = shift_left u, st_v = v, st_r = w \<rparr>"
  have st: "rq_step s = Some s'"
    by (simp add: rq_step_def Let_def m next_delta_eq [OF d] S [OF z] u(1) w(1) s'_def d'_def)
  have okr: "list_all rq_ok w" using w(3) by (simp add: list_all_iff rq_ok_def)
  moreover have "list_all rq_ok (shift_left u)"
    by (rule list_all_shift_left) (use u(3) in \<open>simp_all add: list_all_iff rq_ok_def\<close>)
  moreover have "length (shift_left u) = sntrup_p + 1" using u(2) F(1) [OF z] by (simp add: shift_left_def)
  ultimately have "arrays rq_ok s'"
    using F [OF z] w(2) by (simp add: arrays_def s'_def)
  moreover have "division_step 4591 rq_ok s s'"
  proof -
    have f1: "hd f \<noteq> 0" and gsw: "swaps s \<Longrightarrow> hd g \<noteq> 0" and gz: "hd (st_g s) = 0 \<Longrightarrow> hd g = 0"
      using swapped_heads [OF sw f0] by simp_all
    have ra: "regular 4591 (hd f)"
      using small(1) f1 by (rule regular_q)
    have rb: "regular 4591 (- hd g)" if "swaps s"
      by (rule regular_q) (use small(2) gsw [OF that] in linarith)+
    have cu: "combines 4591 (hd f) (- hd g) g f u"
      unfolding combines_def using u(2,4) unfolding F(1) [OF z] by (rule conjI)
    have cw: "combines 4591 (hd f) (- hd g) r v w"
      unfolding combines_def using w(2,4) unfolding F(3) [OF z] by (rule conjI)
    have ku: "list_all rq_ok u" using u(3) by (simp add: list_all_iff rq_ok_def)
    show ?thesis
      unfolding division_step_def sw prod.case
      by (intro conjI exI [of _ "hd f"] exI [of _ "- hd g"] exI [of _ u])
        (use ra rb cu cw ku gz in \<open>simp_all add: s'_def d'_def\<close>)
  qed
  ultimately show ?thesis using st by blast
qed

interpretation rq: division_steps 4591 rq_ok rq_step
proof
  show "rq_ok x \<Longrightarrow> 4591 dvd x \<Longrightarrow> x = 0" for x
    using dvd_imp_le_int [of x 4591] by (auto simp: rq_ok_def)
  show "arrays rq_ok s \<Longrightarrow> hd (st_f s) \<noteq> 0 \<Longrightarrow> \<bar>st_delta s\<bar> \<le> 2000 \<Longrightarrow>
      \<exists>s'. rq_step s = Some s' \<and> arrays rq_ok s' \<and> division_step 4591 rq_ok s s'" for s
    by (rule rq_step_ok)
qed (simp_all add: rq_ok_def)

text \<open>The step modulo 3: the same arrays, with digits -1, 0 and 1.\<close>

lemma quotient_update_r3_total:
  assumes "length out = length fv" and "list_all r3_ok out" "list_all r3_ok fv" and "r3_ok sg"
  shows "\<exists>u. quotient_update_r3 out sg fv = Some u \<and> length u = length fv
    \<and> (\<forall>i < length fv. r3_ok (u ! i) \<and> 3 dvd u ! i - (1 * out ! i + sg * fv ! i))"
proof -
  let ?h = "\<lambda>o1 v. do { m \<leftarrow> fits 8 (sg * v); x \<leftarrow> fits 8 (o1 + m); f3_freeze x }"
  let ?Q = "\<lambda>o1 v y. r3_ok y \<and> 3 dvd y - (1 * o1 + sg * v)"
  have "\<exists>y. ?h o1 v = Some y \<and> ?Q o1 v y" if "r3_ok o1" "r3_ok v" for o1 v
  proof -
    have "r3_ok (sg * v)" using assms(4) that(2) by (auto simp: r3_ok_def)
    then have b: "- 2 \<le> o1 + sg * v" "o1 + sg * v \<le> 2" "\<bar>sg * v\<bar> \<le> 1" using that(1) by (auto simp: r3_ok_def)
    obtain y where "f3_freeze (o1 + sg * v) = Some y" "r3_ok y" "3 dvd y - (1 * o1 + sg * v)"
      using f3_freeze_spec [of "o1 + sg * v"] b by (auto simp: r3_ok_def)
    moreover have "fits 8 (sg * v) = Some (sg * v)" "fits 8 (o1 + sg * v) = Some (o1 + sg * v)"
      unfolding fits_def using b by auto
    ultimately show ?thesis by simp
  qed
  then have "\<exists>y. ?h (out ! i) (fv ! i) = Some y \<and> ?Q (out ! i) (fv ! i) y" if "i < length fv" for i
    using that assms(1-3) by (simp add: list_all_length)
  from update_total [OF assms(1), of ?h ?Q, OF this] show ?thesis
    unfolding quotient_update_r3_def .
qed

lemma regular_3: "a = - 1 \<or> a = 1 \<Longrightarrow> regular 3 a"
  by (auto simp: regular_def)

lemma r3_step_ok:
  assumes arr: "arrays r3_ok s" and f0: "hd (st_f s) \<noteq> 0" and d: "\<bar>st_delta s\<bar> \<le> 2000"
  shows "\<exists>s'. r3_step s = Some s' \<and> arrays r3_ok s' \<and> division_step 3 r3_ok s s'"
proof -
  obtain f g v r where sw: "swapped s = (f, g, v, r)" by (metis prod_cases4)
  note F = arrays_facts [OF arr sw] and S = step_swaps [OF arr sw]
  have z: "r3_ok 0" by (simp add: r3_ok_def)
  have o0: "r3_ok (hd (st_g s))" "r3_ok (hd (st_f s))"
    using arr hd_ok [of r3_ok "st_g s"] hd_ok [of r3_ok "st_f s"] by (simp_all add: arrays_def)
  define sg where "sg = - hd (st_g s) * hd (st_f s)"
  have sg: "r3_ok sg" "hd (st_g s) = 0 \<Longrightarrow> sg = 0" "swaps s \<Longrightarrow> sg = - 1 \<or> sg = 1"
    using o0 f0 by (auto simp: sg_def r3_ok_def swaps_def)
  have signs: "fits 8 (- hd (st_g s)) = Some (- hd (st_g s))" "fits 8 (- (hd (st_g s) * hd (st_f s))) = Some sg"
    using o0 by (auto simp: sg_def r3_ok_def fits_def)
  have m: "swap_mask (st_delta s) (hd (st_g s)) = Some (if swaps s then - 1 else 0)"
    using swap_mask_eq [OF d, of "hd (st_g s)"] o0(1) by (auto simp: r3_ok_def swaps_def)
  have sw8: "as_signed 8 (if swaps s then - 1 else 0) = (if swaps s then - 1 else 0)"
    by (simp add: as_signed_def)
  have eliminates: "3 dvd 1 * hd g + sg * hd f"
    using sw o0 f0 by (auto simp: swapped_def swaps_def sg_def r3_ok_def split: if_splits)
  obtain u where u: "quotient_update_r3 g sg f = Some u" "length u = length f"
    "\<forall>i < length f. r3_ok (u ! i) \<and> 3 dvd u ! i - (1 * g ! i + sg * f ! i)"
    using quotient_update_r3_total [OF _ F(6) [OF z] F(5) [OF z] sg(1)] F(1,2) [OF z] by auto
  obtain w where w: "quotient_update_r3 r sg v = Some w" "length w = length v"
    "\<forall>i < length v. r3_ok (w ! i) \<and> 3 dvd w ! i - (1 * r ! i + sg * v ! i)"
    using quotient_update_r3_total [OF _ F(8) [OF z] F(7) [OF z] sg(1)] F(3,4) [OF z] by auto
  define d' where "d' = (if swaps s then 1 - st_delta s else 1 + st_delta s)"
  define s' where "s' = \<lparr> st_delta = d', st_f = f, st_g = shift_left u, st_v = v, st_r = w \<rparr>"
  have st: "r3_step s = Some s'"
    by (simp add: r3_step_def Let_def m signs sw8 next_delta_eq [OF d] S [OF z] u(1) w(1) s'_def d'_def)
  have okw: "list_all r3_ok w" and oku: "list_all r3_ok u" using u(2,3) w(2,3) by (simp_all add: list_all_length)
  moreover have "list_all r3_ok (shift_left u)" using oku z by (rule list_all_shift_left)
  moreover have "length (shift_left u) = sntrup_p + 1" using u(2) F(1) [OF z] by (simp add: shift_left_def)
  ultimately have "arrays r3_ok s'" using F [OF z] w(2) by (simp add: arrays_def s'_def)
  moreover have "division_step 3 r3_ok s s'"
  proof -
    have cu: "combines 3 1 sg g f u" and cw: "combines 3 1 sg r v w"
      unfolding combines_def using u(2,3) w(2,3) F(1,3) [OF z] by auto
    show ?thesis
      unfolding division_step_def sw prod.case
      by (intro conjI exI [of _ 1] exI [of _ sg] exI [of _ u])
        (use cu cw oku sg(2,3) regular_3 eliminates in \<open>auto simp: s'_def d'_def\<close>)
  qed
  ultimately show ?thesis using st by blast
qed

interpretation r3: division_steps 3 r3_ok r3_step
proof
  show "r3_ok x \<Longrightarrow> 3 dvd x \<Longrightarrow> x = 0" for x
    by (auto simp: r3_ok_def)
  show "arrays r3_ok s \<Longrightarrow> hd (st_f s) \<noteq> 0 \<Longrightarrow> \<bar>st_delta s\<bar> \<le> 2000 \<Longrightarrow>
      \<exists>s'. r3_step s = Some s' \<and> arrays r3_ok s' \<and> division_step 3 r3_ok s s'" for s
    by (rule r3_step_ok)
qed (simp_all add: r3_ok_def)

end
