(* ===== verification/Sntrup_Recip.thy ===== *)
theory Sntrup_Recip
  imports Sntrup_Inverse
begin

text \<open>
  What \<open>Rq::recip\<close> and \<open>R3::recip\<close> of \<open>trelis-primitives/src/sntrup761/fq.rs\<close> compute: the inverse,
  up to the given ratio, exactly when the input has one; and no step panics.
\<close>

section \<open>Inverses in the quotient ring\<close>

text \<open>\<open>c * a * b = 1\<close> modulo \<open>k\<close> and \<open>x^761 - x - 1\<close>.\<close>

definition inverse_poly :: "int \<Rightarrow> int \<Rightarrow> int list \<Rightarrow> int list \<Rightarrow> bool" where
  "inverse_poly k c a b \<longleftrightarrow> length b = sntrup_p \<and> (\<forall>i < sntrup_p. k dvd c * ring_mul b a i - rone i)"

definition invertible_poly :: "int \<Rightarrow> int list \<Rightarrow> bool" where
  "invertible_poly k a \<longleftrightarrow> (\<exists>b. inverse_poly k 1 a b)"

lemma inverse_poly_pol:
  assumes "length a = sntrup_p" and "length b = sntrup_p"
  shows "inverse_poly k c a b \<longleftrightarrow> of_int k dvd of_int c * (pol b * pol a) - 1"
proof -
  have "cf (of_int c * (pol b * pol a) - 1) i = c * ring_mul b a i - rone i" if "i < sntrup_p" for i
    using cf_pol_mult [OF assms(2,1) that] by (simp add: cf_of_int_mult)
  then show ?thesis using assms by (simp add: inverse_poly_def of_int_dvd)
qed

lemma pol_scale: "pol (map ((*) c) l) = of_int c * pol l"
  by (induction l) (simp_all add: algebra_simps)

text \<open>A ratio that is a unit modulo \<open>k\<close> does not change invertibility.\<close>

lemma inverse_poly_scale:
  assumes "inverse_poly k c a b" and len: "length a = sntrup_p"
  shows "inverse_poly k 1 a (map ((*) c) b)"
proof -
  have b: "length b = sntrup_p" using assms(1) by (simp add: inverse_poly_def)
  then have "of_int k dvd of_int c * (pol b * pol a) - 1" using assms(1) len by (simp add: inverse_poly_pol)
  then show ?thesis using b len by (simp add: inverse_poly_pol pol_scale mult.assoc)
qed

text \<open>The coefficients of a congruent list.\<close>

lemma pol_congruent:
  assumes "length a = sntrup_p" "length b = sntrup_p" and "\<And>i. i < sntrup_p \<Longrightarrow> k dvd a ! i - b ! i"
  shows "of_int k dvd pol a - pol b"
  using assms by (simp add: of_int_dvd cf_pol coef_def)

context division_steps
begin

lemma regular_unit:
  assumes "k dvd c * r - 1"
  shows "regular k c"
proof -
  have "k dvd u" if "k dvd c * u" for u
  proof -
    have "k dvd r * (c * u) - (c * r - 1) * u" by (rule dvd_diff [OF dvd_mult [OF that] dvd_mult2 [OF assms]])
    moreover have "r * (c * u) - (c * r - 1) * u = u" by (simp add: algebra_simps)
    ultimately show ?thesis by (simp only:)
  qed
  then show ?thesis unfolding regular_def by blast
qed

lemma recip_loop:
  assumes len: "length input = sntrup_p" and ok: "list_all ok input" "ok r0" and r0: "k dvd ratio * r0 - 1"
  obtains s where "repeat_steps (2 * sntrup_p - 1) step (start_state r0 input) = Some s" "arrays ok s"
    "\<bar>st_delta s\<bar> \<le> 1522" "ok (hd (st_f s))" "hd (st_f s) \<noteq> 0"
    "st_delta s = 0 \<Longrightarrow> of_int k dvd of_int (hd (st_f s)) - pol (rev (butlast (st_v s))) * (of_int ratio * pol input)"
    "st_delta s \<noteq> 0 \<Longrightarrow> \<not> invertible_poly k input"
proof (rule loop_result [OF assms])
  fix s
  assume s: "repeat_steps (2 * sntrup_p - 1) step (start_state r0 input) = Some s" "arrays ok s"
      "\<bar>st_delta s\<bar> \<le> 1522" "hd (st_f s) \<noteq> 0"
    and d0: "st_delta s = 0 \<Longrightarrow> of_int k dvd of_int (hd (st_f s)) - pol (rev (butlast (st_v s))) * (of_int ratio * pol input)"
    and dn: "st_delta s \<noteq> 0 \<Longrightarrow> last (rev (butlast (st_r s))) \<noteq> 0
      \<and> of_int k dvd pol (rev (butlast (st_r s))) * (of_int ratio * pol input)"
  define z where "z = rev (butlast (st_r s))"
  have z: "length z = sntrup_p" "list_all ok z"
    using s(2) by (auto simp: z_def arrays_def list_all_iff dest: in_set_butlastD)
  have "\<not> invertible_poly k input" if "st_delta s \<noteq> 0"
  proof
    assume "invertible_poly k input"
    then obtain b where inv: "inverse_poly k 1 input b" by (auto simp: invertible_poly_def)
    then have bl: "length b = sntrup_p" by (simp add: inverse_poly_def)
    then have b: "of_int k dvd of_int 1 * (pol b * pol input) - 1" using inv len by (simp only: inverse_poly_pol)
    have zd: "last z \<noteq> 0" "of_int k dvd pol z * (of_int ratio * pol input)" using dn [OF that] by (simp_all add: z_def)
    have "of_int k dvd pol b * (pol z * (of_int ratio * pol input)) - of_int ratio * pol z * (of_int 1 * (pol b * pol input) - 1)"
      by (rule dvd_diff [OF dvd_mult [OF zd(2)] dvd_mult [OF b]])
    moreover have "pol b * (pol z * (of_int ratio * pol input)) - of_int ratio * pol z * (of_int 1 * (pol b * pol input) - 1)
        = of_int ratio * pol z" by (simp add: right_diff_distrib ac_simps)
    ultimately have "of_int k dvd of_int ratio * pol z" by (simp only:)
    then have "k dvd ratio * z ! 760"
      using z(1) by (simp add: of_int_dvd cf_of_int_mult cf_pol coef_def sntrup_p_def)
    then have "k dvd z ! 760" using regular_unit [OF r0, unfolded regular_def] by blast
    moreover have "ok (z ! 760)" using z by (simp add: list_all_length sntrup_p_def)
    ultimately have "z ! 760 = 0" using ok_zero by blast
    then show False using zd(1) z(1) by (cases "z = []") (simp_all add: last_conv_nth sntrup_p_def)
  qed
  moreover have "ok (hd (st_f s))" using s(2) by (cases "st_f s") (auto simp: arrays_def)
  ultimately show thesis using that [OF s(1-3) _ s(4)] d0 by blast
qed

end

section \<open>Inversion modulo q\<close>

lemma those_map_total:
  assumes "\<And>i. i < n \<Longrightarrow> \<exists>y. h i = Some y \<and> Q i y"
  shows "\<exists>u. those (map h [0..<n]) = Some u \<and> length u = n \<and> (\<forall>i < n. Q i (u ! i))"
proof -
  have "\<exists>y. h i = Some y \<and> Q i y" if "i \<in> set [0..<n]" for i using that assms by simp
  from those_total [of "[0..<n]" h Q, OF this] show ?thesis by (auto simp: list_all2_conv_all_nth)
qed

lemma rev_butlast_nth: "length v = sntrup_p + 1 \<Longrightarrow> i < sntrup_p \<Longrightarrow> rev (butlast v) ! i = v ! (sntrup_p - 1 - i)"
  by (simp add: rev_nth nth_butlast)

lemma exact_inverse:
  assumes "of_int k dvd of_int a - pol v * (of_int c * b)" and "k dvd y * a - 1"
    and "of_int k dvd pol h - of_int y * pol v"
  shows "of_int k dvd of_int c * (pol h * b) - (1 :: qring)"
proof -
  have "of_int k dvd of_int (y * a - 1) - of_int y * (of_int a - pol v * (of_int c * b))
      + (pol h - of_int y * pol v) * (of_int c * b)"
    by (rule dvd_add [OF dvd_diff [OF of_int_dvd_of_int [OF assms(2)] dvd_mult [OF assms(1)]] dvd_mult2 [OF assms(3)]])
  moreover have "of_int (y * a - 1) - of_int y * (of_int a - pol v * (of_int c * b)) + (pol h - of_int y * pol v) * (of_int c * b)
      = of_int c * (pol h * b) - (1 :: qring)"
    by (simp add: right_diff_distrib left_diff_distrib ac_simps)
  ultimately show ?thesis by (simp only:)
qed

lemma rq_recip_outcomes:
  assumes a: "rq_poly a" and c: "c \<noteq> 0" "\<bar>c\<bar> < 4591"
  shows "if invertible_poly 4591 a then \<exists>h. rq_recip c a = Some (Inr h) \<and> rq_poly h \<and> inverse_poly 4591 c a h
    else rq_recip c a = Some (Inl ''Polynomial not invertible'')"
proof -
  have len: "length a = sntrup_p" and ok: "list_all rq_ok a" using a by (simp_all add: rq_poly_def rq_ok_def list_all_iff sntrup_q12_def sntrup_q_def)
  obtain r0 where r0: "fq_recip c = Some r0" "rq_ok r0" "4591 dvd c * r0 - 1"
    using fq_recip_inverts [OF c] by (auto simp: rq_ok_def mult.commute)
  show ?thesis
  proof (rule rq.recip_loop [OF len ok r0(2,3)])
    fix s
    assume s: "repeat_steps (2 * sntrup_p - 1) rq_step (start_state r0 a) = Some s" and arr: "arrays rq_ok s"
      and d: "\<bar>st_delta s\<bar> \<le> 1522" and f: "rq_ok (hd (st_f s))" "hd (st_f s) \<noteq> 0"
      and d0: "st_delta s = 0 \<Longrightarrow> of_int 4591 dvd of_int (hd (st_f s)) - pol (rev (butlast (st_v s))) * (of_int c * pol a)"
      and dn: "st_delta s \<noteq> 0 \<Longrightarrow> \<not> invertible_poly 4591 a"
    have m: "i16_nonzero_mask (st_delta s) = (if st_delta s = 0 then 0 else - 1)"
      by (rule i16_nonzero_mask_eq) (use d in linarith)+
    have v: "length (st_v s) = sntrup_p + 1" "list_all rq_ok (st_v s)" using arr by (simp_all add: arrays_def)
    show ?thesis
    proof (cases "st_delta s = 0")
      case False
      then show ?thesis using dn m unfolding rq_recip_def r0(1) bind.bind_lunit s by simp
    next
      case True
      obtain y where y: "recip_ct (hd (st_f s)) = Some y" "\<bar>y\<bar> \<le> 2295" "4591 dvd y * hd (st_f s) - 1"
        using recip_ct_inverts [of "hd (st_f s)"] f by (auto simp: rq_ok_def)
      let ?h = "\<lambda>i. do { x \<leftarrow> fits 32 (y * st_v s ! (sntrup_p - 1 - i)); fq_freeze x }"
      have "\<exists>z. ?h i = Some z \<and> \<bar>z\<bar> \<le> 2295 \<and> 4591 dvd z - y * st_v s ! (sntrup_p - 1 - i)" if "i < sntrup_p" for i
      proof -
        have "\<bar>st_v s ! (sntrup_p - 1 - i)\<bar> \<le> 2295" using v that by (simp add: list_all_length rq_ok_def)
        then have "\<bar>y * st_v s ! (sntrup_p - 1 - i)\<bar> \<le> 2295 * 2295"
          unfolding abs_mult using y(2) by (intro mult_mono) simp_all
        then have b: "\<bar>y * st_v s ! (sntrup_p - 1 - i)\<bar> \<le> 5267025" by simp
        obtain z where "fq_freeze (y * st_v s ! (sntrup_p - 1 - i)) = Some z" "\<bar>z\<bar> \<le> 2295"
            "4591 dvd z - y * st_v s ! (sntrup_p - 1 - i)"
          by (rule fq_freeze_abs [of "y * st_v s ! (sntrup_p - 1 - i)"]) (use b in linarith)
        moreover have "fits 32 (y * st_v s ! (sntrup_p - 1 - i)) = Some (y * st_v s ! (sntrup_p - 1 - i))"
          by (rule fits_32) (use b in linarith)
        ultimately show ?thesis by simp
      qed
      from those_map_total [of sntrup_p ?h, OF this] obtain h where h: "those (map ?h [0..<sntrup_p]) = Some h"
        "length h = sntrup_p" "\<forall>i < sntrup_p. \<bar>h ! i\<bar> \<le> 2295 \<and> 4591 dvd h ! i - y * st_v s ! (sntrup_p - 1 - i)"
        by blast
      have run: "rq_recip c a = Some (Inr h)" 
        using True m y(1) h(1) unfolding rq_recip_def r0(1) bind.bind_lunit s by simp
      have "of_int 4591 dvd pol h - of_int y * pol (rev (butlast (st_v s)))"
        unfolding pol_scale [symmetric]
        by (rule pol_congruent) (use h v in \<open>auto simp: rev_butlast_nth\<close>)
      then have "inverse_poly 4591 c a h"
        using exact_inverse [OF d0 [OF True] y(3)] h(2) len by (simp only: inverse_poly_pol)
      moreover have "rq_poly h" using h(2,3) by (auto simp: rq_poly_def sntrup_q12_def sntrup_q_def in_set_conv_nth)
      moreover have "invertible_poly 4591 a"
        using inverse_poly_scale [OF \<open>inverse_poly 4591 c a h\<close> len] by (auto simp: invertible_poly_def)
      ultimately show ?thesis using run by simp
    qed
  qed
qed

section \<open>Inversion modulo 3\<close>

lemma r3_recip_outcomes:
  assumes a: "small_poly a"
  shows "if invertible_poly 3 a then \<exists>h. r3_recip a = Some (Inr h) \<and> small_poly h \<and> inverse_poly 3 1 a h
    else r3_recip a = Some (Inl ''Polynomial not invertible in R3'')"
proof -
  have len: "length a = sntrup_p" and ok: "list_all r3_ok a" using a by (auto simp: small_poly_def r3_ok_def list_all_iff)
  show ?thesis
  proof (rule r3.recip_loop [OF len ok, of 1 1])
    show "r3_ok 1" "(3 :: int) dvd 1 * 1 - 1" by (simp_all add: r3_ok_def)
    fix s
    assume s: "repeat_steps (2 * sntrup_p - 1) r3_step (start_state 1 a) = Some s" and arr: "arrays r3_ok s"
      and d: "\<bar>st_delta s\<bar> \<le> 1522" and f: "r3_ok (hd (st_f s))" "hd (st_f s) \<noteq> 0"
      and d0: "st_delta s = 0 \<Longrightarrow> of_int 3 dvd of_int (hd (st_f s)) - pol (rev (butlast (st_v s))) * (of_int 1 * pol a)"
      and dn: "st_delta s \<noteq> 0 \<Longrightarrow> \<not> invertible_poly 3 a"
    have m: "i16_nonzero_mask (st_delta s) = (if st_delta s = 0 then 0 else - 1)"
      by (rule i16_nonzero_mask_eq) (use d in linarith)+
    have v: "length (st_v s) = sntrup_p + 1" "list_all r3_ok (st_v s)" using arr by (simp_all add: arrays_def)
    show ?thesis
    proof (cases "st_delta s = 0")
      case False
      then show ?thesis using dn m unfolding r3_recip_def s bind.bind_lunit by simp
    next
      case True
      let ?y = "hd (st_f s)"
      have y: "3 dvd ?y * ?y - 1" using f by (auto simp: r3_ok_def)
      let ?h = "\<lambda>i. fits 8 (?y * st_v s ! (sntrup_p - 1 - i))"
      have "\<exists>z. ?h i = Some z \<and> r3_ok z \<and> z = ?y * st_v s ! (sntrup_p - 1 - i)" if "i < sntrup_p" for i
      proof -
        have "r3_ok (st_v s ! (sntrup_p - 1 - i))" using v that by (simp add: list_all_length)
        then have "r3_ok (?y * st_v s ! (sntrup_p - 1 - i))" using f by (auto simp: r3_ok_def)
        then show ?thesis by (auto simp: r3_ok_def)
      qed
      from those_map_total [of sntrup_p ?h, OF this] obtain h where h: "those (map ?h [0..<sntrup_p]) = Some h"
        "length h = sntrup_p" "\<forall>i < sntrup_p. r3_ok (h ! i) \<and> h ! i = ?y * st_v s ! (sntrup_p - 1 - i)"
        by blast
      have run: "r3_recip a = Some (Inr h)" 
        using True m h(1) unfolding r3_recip_def s bind.bind_lunit Let_def by simp
      have "of_int 3 dvd pol h - of_int ?y * pol (rev (butlast (st_v s)))"
        unfolding pol_scale [symmetric]
        by (rule pol_congruent) (use h v in \<open>auto simp: rev_butlast_nth\<close>)
      then have "inverse_poly 3 1 a h"
        using exact_inverse [OF d0 [OF True] y] h(2) len by (simp only: inverse_poly_pol)
      moreover have "small_poly h" using h(2,3) by (auto simp: small_poly_def r3_ok_def in_set_conv_nth)
      moreover have "invertible_poly 3 a"
        using \<open>inverse_poly 3 1 a h\<close> by (auto simp: invertible_poly_def)
      ultimately show ?thesis using run by simp
    qed
  qed
qed

section \<open>The properties\<close>

definition poly_one :: "int list" where "poly_one = 1 # replicate (sntrup_p - 1) 0"
definition poly_zero :: "int list" where "poly_zero = replicate sntrup_p 0"

lemma pol_one_zero: "pol poly_one = 1" "pol poly_zero = 0"
  by (simp_all add: poly_one_def poly_zero_def)

lemma one_is_invertible: "invertible_poly k poly_one"
proof -
  have "length poly_one = sntrup_p" by (simp add: poly_one_def sntrup_p_def)
  then have "inverse_poly k 1 poly_one poly_one" by (simp add: inverse_poly_pol pol_one_zero)
  then show ?thesis by (auto simp: invertible_poly_def)
qed

lemma zero_is_not_invertible: "\<not> invertible_poly 3 poly_zero"
proof
  assume "invertible_poly 3 poly_zero"
  then obtain b where b: "inverse_poly 3 1 poly_zero b" by (auto simp: invertible_poly_def)
  have len: "length poly_zero = sntrup_p" by (simp add: poly_zero_def)
  have "length b = sntrup_p" using b by (simp add: inverse_poly_def)
  then have "of_int 3 dvd of_int 1 * (pol b * pol poly_zero) - 1" using b len by (simp only: inverse_poly_pol)
  then have "of_int 3 dvd (- 1 :: qring)" unfolding pol_one_zero by simp
  then have "(3 :: int) dvd cf (- 1) 0" unfolding of_int_dvd by (simp add: sntrup_p_def)
  then show False by (simp add: rone_def)
qed

text \<open>C37. Polynomial inversion is exact. For every polynomial with centred coefficients and every
  ratio that is not a multiple of q, \<open>Rq::recip\<close> returns a polynomial with centred coefficients
  whose product with the ratio and the input is 1 modulo q and x^761 - x - 1 when the input has an
  inverse at all, and its error when it has none; \<open>R3::recip\<close> does the same modulo 3. Neither
  panics: 1521 steps always suffice, and no intermediate value leaves its integer type.\<close>

theorem inversion_exact:
  assumes "rq_poly a" and "c \<noteq> 0" and "\<bar>c\<bar> < sntrup_q" and "small_poly s"
  shows "(if invertible_poly sntrup_q a then \<exists>h. rq_recip c a = Some (Inr h) \<and> rq_poly h \<and> inverse_poly sntrup_q c a h
      else rq_recip c a = Some (Inl ''Polynomial not invertible''))
    \<and> (if invertible_poly 3 s then \<exists>h. r3_recip s = Some (Inr h) \<and> small_poly h \<and> inverse_poly 3 1 s h
      else r3_recip s = Some (Inl ''Polynomial not invertible in R3''))"
proof
  show "if invertible_poly sntrup_q a then \<exists>h. rq_recip c a = Some (Inr h) \<and> rq_poly h \<and> inverse_poly sntrup_q c a h
      else rq_recip c a = Some (Inl ''Polynomial not invertible'')"
    using rq_recip_outcomes [of a c] assms(1-3) by (simp add: sntrup_q_def)
qed (rule r3_recip_outcomes [OF assms(4)])

theorem inversion_exact_witness:
  "(\<exists>h. rq_recip 3 poly_one = Some (Inr h) \<and> inverse_poly sntrup_q 3 poly_one h)
    \<and> r3_recip poly_zero = Some (Inl ''Polynomial not invertible in R3'')"
proof -
  have "rq_poly poly_one" "small_poly poly_zero"
    by (auto simp: rq_poly_def small_poly_def poly_one_def poly_zero_def sntrup_p_def sntrup_q12_def sntrup_q_def)
  from inversion_exact [OF this(1) _ _ this(2), of 3] show ?thesis
    using one_is_invertible [of sntrup_q] zero_is_not_invertible by (auto simp: sntrup_q_def)
qed

section \<open>The other operations on the two polynomial types\<close>

definition poly_eq_one :: "int list \<Rightarrow> bool" where
  "poly_eq_one cs \<longleftrightarrow> cs ! 0 = 1 \<and> list_all (\<lambda>i. cs ! i = 0) [1..<sntrup_p]"

definition poly_eq_zero :: "int list \<Rightarrow> bool" where
  "poly_eq_zero cs \<longleftrightarrow> list_all (\<lambda>c. c = 0) cs"

text \<open>\<open>((c as i32 % 3) + 3) % 3\<close>, where \<open>%\<close> truncates; 2 becomes -1.\<close>

definition to_r3 :: "int list \<Rightarrow> int list" where
  "to_r3 cs = map (\<lambda>c. let r = (c smod 3 + 3) smod 3 in if r = 0 then 0 else if r = 1 then 1 else - 1) cs"

definition mult_int :: "int \<Rightarrow> int list \<Rightarrow> int list option" where
  "mult_int n cs = those (map (\<lambda>c. do { x \<leftarrow> fits 32 (c * n); fq_freeze x }) cs)"

definition rq_from_r3 :: "int list \<Rightarrow> int list option" where
  "rq_from_r3 cs = those (map fq_freeze cs)"

lemma fq_freeze_small:
  assumes "\<bar>c\<bar> \<le> 2295"
  shows "fq_freeze c = Some c"
proof -
  have b: "\<bar>c\<bar> \<le> 2147481352" using assms by linarith
  obtain y where y: "fq_freeze c = Some y" "\<bar>y\<bar> \<le> 2295" "4591 dvd y - c" by (rule fq_freeze_abs [OF b])
  have "\<bar>y - c\<bar> < 4591" using y(2) assms by linarith
  then have "y - c = 0" using y(3) dvd_imp_le_int [of "y - c" 4591] by fastforce
  then show ?thesis using y(1) by simp
qed

text \<open>A small polynomial is unchanged by the embedding.\<close>

lemma rq_from_r3_small:
  assumes "small_poly cs"
  shows "rq_from_r3 cs = Some cs"
proof -
  have "fq_freeze c = Some c" if "c \<in> set cs" for c
    by (rule fq_freeze_small) (use assms that in \<open>auto simp: small_poly_def\<close>)
  then show ?thesis using those_map_Some [of cs fq_freeze "\<lambda>x. x"] by (simp add: rq_from_r3_def)
qed

lemma poly_eq_one_iff: "length cs = sntrup_p \<Longrightarrow> poly_eq_one cs \<longleftrightarrow> cs = poly_one"
  by (auto simp: poly_eq_one_def poly_one_def list_all_iff list_eq_iff_nth_eq nth_Cons' sntrup_p_def)

lemma poly_eq_zero_iff: "length cs = sntrup_p \<Longrightarrow> poly_eq_zero cs \<longleftrightarrow> cs = poly_zero"
  by (auto simp: poly_eq_zero_def poly_zero_def list_all_length list_eq_iff_nth_eq)

end
