(* ===== verification/Sntrup_Keygen.thy ===== *)
theory Sntrup_Keygen
  imports Sntrup_Recip Sntrup_Kem
begin

text \<open>
  Key generation of sntrup761 (\<open>generate_from_rng\<close>, \<open>generate\<close> and \<open>generate_from_seed\<close> of
  \<open>trelis-primitives/src/sntrup761/pure_rust.rs\<close>), with its two loops of rejected draws and the
  outer loop that starts again when \<open>f\<close> has no inverse. The generator of random numbers is
  threaded as a state; the polynomials the crate ntrulp draws from it are parameters
  (\<open>random_small\<close>, \<open>short_random\<close>), as are its bytes. The keys that come out satisfy the
  arithmetic relation \<open>sntrup_keypair\<close>, so the correctness of decapsulation applies to them.
\<close>

section \<open>The generator\<close>

record 'r keygen_rng =
  random_small :: "'r \<Rightarrow> int list \<times> 'r"
  short_random :: "'r \<Rightarrow> int list option \<times> 'r"
  rng_fill_bytes :: "nat \<Rightarrow> 'r \<Rightarrow> bytes \<times> 'r"

type_synonym ('r, 'a) draw = "'r \<Rightarrow> 'a outcome \<times> 'r"

definition bind_draw :: "('r, 'a) draw \<Rightarrow> ('a \<Rightarrow> ('r, 'b) draw) \<Rightarrow> ('r, 'b) draw" where
  "bind_draw m k s = (case m s of
     (Done x, s) \<Rightarrow> k x s | (Fail e, s) \<Rightarrow> (Fail e, s) | (Panic, s) \<Rightarrow> (Panic, s))"

definition no_draw :: "'a option \<Rightarrow> ('r, 'a) draw" where
  "no_draw m s = (or_panic m, s)"

text \<open>The first loop: small polynomials until one has an inverse modulo 3.\<close>

fun draw_g :: "'r keygen_rng \<Rightarrow> nat \<Rightarrow> ('r, int list \<times> int list) draw" where
  "draw_g R 0 s = (Fail KeyGenerationFailed, s)"
| "draw_g R (Suc n) s =
     (let (g, s) = random_small R s in
      case r3_recip g of
        None \<Rightarrow> (Panic, s)
      | Some (Inr ginv) \<Rightarrow> (Done (g, ginv), s)
      | Some (Inl e) \<Rightarrow> draw_g R n s)"

text \<open>The second loop: short polynomials until one has weight \<open>W\<close>.\<close>

fun draw_f :: "'r keygen_rng \<Rightarrow> nat \<Rightarrow> ('r, int list) draw" where
  "draw_f R 0 s = (Fail KeyGenerationFailed, s)"
| "draw_f R (Suc n) s =
     (case short_random R s of
        (Some short, s) \<Rightarrow>
          let f_i8 = map (\<lambda>i. as_signed 8 (short ! i)) [0..<sntrup_p] in
          if weight f_i8 = W then (Done f_i8, s) else draw_f R n s
      | (None, s) \<Rightarrow> draw_f R n s)"

text \<open>What follows the draws: the public key, \<open>rho\<close> and the assembled secret key.\<close>

definition finish_key :: "primitives \<Rightarrow> 'r keygen_rng \<Rightarrow> int list \<Rightarrow> int list \<Rightarrow> int list \<Rightarrow> int list \<Rightarrow> ('r, bytes) draw" where
  "finish_key p R f g ginv finv =
     bind_draw (no_draw (do { h \<leftarrow> rq_mult_r3 finv g; rq_encode h })) (\<lambda>pk s.
       let (rho, s) = rng_fill_bytes R SMALL_BYTES s in
       no_draw (do {
         f_enc \<leftarrow> small_encode f;
         ginv_enc \<leftarrow> small_encode ginv;
         Some (assemble_sk p f_enc ginv_enc pk rho) }) s)"

text \<open>The outer loop; \<open>n\<close> attempts are left.\<close>

fun keygen_loop :: "primitives \<Rightarrow> 'r keygen_rng \<Rightarrow> nat \<Rightarrow> ('r, bytes) draw" where
  "keygen_loop p R 0 s = (Fail KeyGenerationFailed, s)"
| "keygen_loop p R (Suc n) s =
     bind_draw (draw_g R MAX_KEYGEN_ATTEMPTS) (\<lambda>(g, ginv).
     bind_draw (draw_f R MAX_KEYGEN_ATTEMPTS) (\<lambda>f.
     bind_draw (no_draw (do { f_rq \<leftarrow> rq_from_r3 f; rq_recip 3 f_rq })) (\<lambda>recip s.
       case recip of
         Inr finv \<Rightarrow> finish_key p R f g ginv finv s
       | Inl e \<Rightarrow> keygen_loop p R n s))) s"

definition generate_from_rng :: "primitives \<Rightarrow> 'r keygen_rng \<Rightarrow> ('r, bytes) draw" where
  "generate_from_rng p R = keygen_loop p R MAX_KEYGEN_ATTEMPTS"

text \<open>\<open>generate\<close> runs it on the system generator, \<open>generate_from_seed\<close> on the one \<open>SeededRng::new\<close>
  makes of the seed.\<close>

definition sntrup_generate :: "primitives \<Rightarrow> 'r keygen_rng \<Rightarrow> 'r \<Rightarrow> bytes outcome" where
  "sntrup_generate p R os_rng = fst (generate_from_rng p R os_rng)"

definition sntrup_generate_from_seed ::
  "primitives \<Rightarrow> 'r keygen_rng \<Rightarrow> (bytes \<Rightarrow> string \<Rightarrow> 'r) \<Rightarrow> bytes \<Rightarrow> bytes outcome" where
  "sntrup_generate_from_seed p R seeded_rng seed =
     fst (generate_from_rng p R (seeded_rng seed ''trelis-sntrup761-keygen''))"

section \<open>What the generator promises\<close>

definition keygen_rng_ok :: "'r keygen_rng \<Rightarrow> bool" where
  "keygen_rng_ok R \<longleftrightarrow>
     (\<forall>s. small_poly (fst (random_small R s)))
   \<and> (\<forall>s f. fst (short_random R s) = Some f \<longrightarrow> small_poly f)
   \<and> (\<forall>n s. length (fst (rng_fill_bytes R n s)) = n)"

text \<open>The first draws already do: \<open>g\<close> has an inverse modulo 3, \<open>f\<close> has weight \<open>W\<close> and an inverse
  modulo q.\<close>

definition good_draws :: "'r keygen_rng \<Rightarrow> 'r \<Rightarrow> bool" where
  "good_draws R s \<longleftrightarrow>
     (let (g, s1) = random_small R s; (f, s2) = short_random R s1 in
      invertible_poly 3 g \<and> (\<exists>f'. f = Some f' \<and> weight f' = W \<and> invertible_poly sntrup_q f'))"

section \<open>The loops\<close>

lemma recip_3_cases:
  assumes "small_poly g"
  obtains ginv where "r3_recip g = Some (Inr ginv)" "small_poly ginv" "inverse_poly 3 1 g ginv" "invertible_poly 3 g"
  | e where "r3_recip g = Some (Inl e)" "\<not> invertible_poly 3 g"
  using r3_recip_outcomes [OF assms] by (auto split: if_splits)

lemma draw_g_spec:
  assumes "keygen_rng_ok R" and "draw_g R n s = (res, s')"
  shows "(\<exists>g ginv. res = Done (g, ginv) \<and> small_poly g \<and> small_poly ginv \<and> inverse_poly 3 1 g ginv)
    \<or> res = Fail KeyGenerationFailed"
  using assms(2)
proof (induction n arbitrary: s)
  case 0
  then show ?case by simp
next
  case (Suc n)
  obtain g s1 where d: "random_small R s = (g, s1)" by fastforce
  then have g: "small_poly g" using assms(1) by (auto simp: keygen_rng_ok_def dest: spec [of _ s])
  show ?case
  proof (rule recip_3_cases [OF g])
    fix ginv assume "r3_recip g = Some (Inr ginv)" "small_poly ginv" "inverse_poly 3 1 g ginv"
    then show ?thesis using Suc.prems g d by auto
  next
    fix e assume "r3_recip g = Some (Inl e)"
    then show ?thesis using Suc.prems d Suc.IH [of s1] by simp
  qed
qed

text \<open>The cast to \<open>i8\<close> leaves a small polynomial as it is.\<close>

lemma small_cast:
  assumes "small_poly f"
  shows "map (\<lambda>i. as_signed 8 (f ! i)) [0..<sntrup_p] = f"
proof (rule nth_equalityI)
  have l: "length f = sntrup_p" using assms by (simp add: small_poly_def)
  then show "length (map (\<lambda>i. as_signed 8 (f ! i)) [0..<sntrup_p]) = length f" by simp
  fix i assume "i < length (map (\<lambda>i. as_signed 8 (f ! i)) [0..<sntrup_p])"
  then have "i < sntrup_p" by simp
  then show "map (\<lambda>i. as_signed 8 (f ! i)) [0..<sntrup_p] ! i = f ! i"
    using small_coef [OF assms, of i] l by (simp add: coef_def as_signed_def abs_le_iff signed_take_bit_int_eq_self)
qed

lemma draw_f_spec:
  assumes "keygen_rng_ok R" and "draw_f R n s = (res, s')"
  shows "(\<exists>f. res = Done f \<and> small_poly f \<and> weight f = W) \<or> res = Fail KeyGenerationFailed"
  using assms(2)
proof (induction n arbitrary: s)
  case 0
  then show ?case by simp
next
  case (Suc n)
  obtain o1 s1 where d: "short_random R s = (o1, s1)" by fastforce
  show ?case
  proof (cases o1)
    case None
    then show ?thesis using Suc.prems d Suc.IH [of s1] by simp
  next
    case (Some f)
    then have f: "small_poly f" using assms(1) d by (auto simp: keygen_rng_ok_def dest!: spec [of _ s])
    then show ?thesis
      using Suc.prems d Some Suc.IH [of s1] small_cast [OF f] by (auto simp: Let_def split: if_splits)
  qed
qed

text \<open>The public key is \<open>g / 3f\<close>: the arithmetic relation of a key pair.\<close>

lemma public_key_relation:
  assumes f: "small_poly f" and g: "small_poly g" and finv: "rq_poly finv" "inverse_poly 4591 3 f finv"
    and h: "length h = sntrup_p" "\<And>k. k < sntrup_p \<Longrightarrow> 4591 dvd h ! k - ring_mul finv g k" and k: "k < sntrup_p"
  shows "4591 dvd 3 * ring_mul h f k - coef g k"
proof -
  have l: "length f = sntrup_p" "length g = sntrup_p" "length finv = sntrup_p"
    using f g finv by (simp_all add: small_poly_def rq_poly_def)
  have "of_int 4591 dvd of_int 3 * (pol finv * pol f) - (1 :: qring)"
    using finv(2) l by (simp only: inverse_poly_pol)
  moreover have "of_int 4591 dvd pol h - pol finv * pol g"
    unfolding of_int_dvd using h l by (simp add: cf_pol_mult cf_pol) (simp add: coef_def)
  ultimately have "of_int 4591 dvd pol g * (of_int 3 * (pol finv * pol f) - 1) + of_int 3 * pol f * (pol h - pol finv * pol g)"
    by (intro dvd_add dvd_mult)
  moreover have "pol g * (of_int 3 * (pol finv * pol f) - 1) + of_int 3 * pol f * (pol h - pol finv * pol g)
      = of_int 3 * (pol h * pol f) - pol g"
    by (simp add: right_diff_distrib ac_simps)
  ultimately have "of_int 4591 dvd of_int 3 * (pol h * pol f) - pol g" by (simp only:)
  then have "4591 dvd cf (of_int 3 * (pol h * pol f) - pol g) k" using k unfolding of_int_dvd by blast
  then show ?thesis using cf_pol_mult [OF h(1) l(1) k] l(2) by (simp only: cf_simps cf_of_int_mult cf_pol order_refl)
qed

text \<open>The inverse of \<open>g\<close>, read in the other order.\<close>

lemma inverse_poly_commute:
  assumes "inverse_poly k 1 a b" and "length a = sntrup_p" and "i < sntrup_p"
  shows "k dvd ring_mul a b i - rone i"
proof -
  have "length b = sntrup_p" "k dvd 1 * ring_mul b a i - rone i" using assms(1,3) by (simp_all add: inverse_poly_def)
  moreover have "ring_mul a b i = ring_mul b a i"
    using assms(2,3) \<open>length b = sntrup_p\<close> by (simp add: ring_mul_eq rmul_commute)
  ultimately show ?thesis by simp
qed

lemma finish_key_spec:
  assumes R: "keygen_rng_ok R" and f: "small_poly f" "weight f = W" and g: "small_poly g"
    and ginv: "small_poly ginv" "inverse_poly 3 1 g ginv" and finv: "rq_poly finv" "inverse_poly 4591 3 f finv"
  shows "\<exists>sk s' h rho pk. finish_key p R f g ginv finv s = (Done sk, s') \<and> sntrup_keypair p f g ginv h rho sk pk"
proof -
  obtain h where h: "rq_mult_r3 finv g = Some h" "rq_poly h" "\<And>k. k < sntrup_p \<Longrightarrow> 4591 dvd h ! k - ring_mul finv g k"
    using rq_mult_r3_facts [of finv g] rq_poly_list_all [OF finv(1)] g by blast
  have lh: "length h = sntrup_p" and lg: "length g = sntrup_p" using h(2) g by (simp_all add: rq_poly_def small_poly_def)
  obtain pk where pk: "rq_encode h = Some pk" using rq_round_trip_aux [OF h(2)] by blast
  obtain fe where fe: "small_encode f = Some fe" using small_round_trip_aux [OF f(1)] by blast
  obtain ge where ge: "small_encode ginv = Some ge" using small_round_trip_aux [OF ginv(1)] by blast
  obtain rho s' where rho: "rng_fill_bytes R SMALL_BYTES s = (rho, s')" by fastforce
  then have lr: "length rho = SMALL_BYTES"
    using R unfolding keygen_rng_ok_def by (metis fst_conv)
  have "finish_key p R f g ginv finv s = (Done (assemble_sk p fe ge pk rho), s')"
    by (simp add: finish_key_def bind_draw_def no_draw_def h(1) pk rho fe ge)
  moreover have "sntrup_keypair p f g ginv h rho (assemble_sk p fe ge pk rho) pk"
    unfolding sntrup_keypair_def sntrup_q_def
    using f g ginv(1) h(2) pk lr fe ge public_key_relation [OF f(1) g finv lh h(3)] inverse_poly_commute [OF ginv(2) lg]
    by simp
  ultimately show ?thesis by blast
qed

lemma recip_q_cases:
  assumes "small_poly f"
  obtains finv where "rq_from_r3 f \<bind> rq_recip 3 = Some (Inr finv)" "rq_poly finv" "inverse_poly 4591 3 f finv" "invertible_poly 4591 f"
  | e where "rq_from_r3 f \<bind> rq_recip 3 = Some (Inl e)" "\<not> invertible_poly 4591 f"
proof -
  have "rq_poly f" using assms by (auto simp: small_poly_def rq_poly_def sntrup_q12_def sntrup_q_def)
  from rq_recip_outcomes [OF this, of 3] show thesis
    using that rq_from_r3_small [OF assms] by (auto split: if_splits)
qed

lemma keygen_loop_spec:
  assumes R: "keygen_rng_ok R"
  shows "(\<exists>sk s' f g ginv h rho pk. keygen_loop p R n s = (Done sk, s') \<and> weight f = W \<and> sntrup_keypair p f g ginv h rho sk pk)
    \<or> (\<exists>s'. keygen_loop p R n s = (Fail KeyGenerationFailed, s'))"
proof (induction n arbitrary: s)
  case 0
  then show ?case by simp
next
  case (Suc n)
  obtain res s1 where dg: "draw_g R MAX_KEYGEN_ATTEMPTS s = (res, s1)" by fastforce
  from draw_g_spec [OF R this] show ?case
  proof (elim disjE exE conjE)
    assume "res = Fail KeyGenerationFailed"
    then show ?thesis using dg by (simp add: bind_draw_def)
  next
    fix g ginv assume g: "res = Done (g, ginv)" "small_poly g" "small_poly ginv" "inverse_poly 3 1 g ginv"
    obtain res' s2 where df: "draw_f R MAX_KEYGEN_ATTEMPTS s1 = (res', s2)" by fastforce
    from draw_f_spec [OF R this] show ?thesis
    proof (elim disjE exE conjE)
      assume "res' = Fail KeyGenerationFailed"
      then show ?thesis using dg df g(1) by (simp add: bind_draw_def)
    next
      fix f assume f: "res' = Done f" "small_poly f" "weight f = W"
      show ?thesis
      proof (rule recip_q_cases [OF f(2)])
        fix finv assume i: "rq_from_r3 f \<bind> rq_recip 3 = Some (Inr finv)" "rq_poly finv" "inverse_poly 4591 3 f finv"
        obtain sk s' h rho pk where "finish_key p R f g ginv finv s2 = (Done sk, s')" "sntrup_keypair p f g ginv h rho sk pk"
          using finish_key_spec [OF R f(2,3) g(2-4) i(2,3)] by blast
        then show ?thesis using dg df g(1) f(1,3) i(1) by (simp add: bind_draw_def no_draw_def) blast
      next
        fix e assume "rq_from_r3 f \<bind> rq_recip 3 = Some (Inl e)"
        then show ?thesis using dg df g(1) f(1) Suc.IH [of s2] by (simp add: bind_draw_def no_draw_def)
      qed
    qed
  qed
qed

text \<open>Good first draws are used.\<close>

lemma keygen_succeeds:
  assumes R: "keygen_rng_ok R" and good: "good_draws R s"
  shows "\<exists>sk s'. generate_from_rng p R s = (Done sk, s')"
proof -
  obtain g s1 where dg: "random_small R s = (g, s1)" by fastforce
  obtain o1 s2 where ds: "short_random R s1 = (o1, s2)" by fastforce
  obtain f where f: "o1 = Some f" "weight f = W" "invertible_poly 4591 f" and gi: "invertible_poly 3 g"
    using good by (auto simp: good_draws_def dg ds sntrup_q_def)
  have g: "small_poly g" using R dg by (auto simp: keygen_rng_ok_def dest: spec [of _ s])
  have sf: "small_poly f" using R ds f(1) by (auto simp: keygen_rng_ok_def dest: spec [of _ s1])
  obtain ginv where gv: "r3_recip g = Some (Inr ginv)" "small_poly ginv" "inverse_poly 3 1 g ginv"
    by (rule recip_3_cases [OF g]) (use gi in simp_all)
  obtain finv where fv: "rq_from_r3 f \<bind> rq_recip 3 = Some (Inr finv)" "rq_poly finv" "inverse_poly 4591 3 f finv"
    by (rule recip_q_cases [OF sf]) (use f(3) in simp_all)
  have "MAX_KEYGEN_ATTEMPTS \<noteq> 0" by (simp add: MAX_KEYGEN_ATTEMPTS_def)
  then obtain n where m: "MAX_KEYGEN_ATTEMPTS = Suc n" using not0_implies_Suc by blast
  have "draw_g R MAX_KEYGEN_ATTEMPTS s = (Done (g, ginv), s1)" unfolding m using dg gv(1) by simp
  moreover have "draw_f R MAX_KEYGEN_ATTEMPTS s1 = (Done f, s2)"
    unfolding m using ds f(1,2) small_cast [OF sf] by (simp add: Let_def)
  moreover obtain sk s3 where "finish_key p R f g ginv finv s2 = (Done sk, s3)"
    using finish_key_spec [OF R sf f(2) g gv(2,3) fv(2,3)] by blast
  ultimately have "keygen_loop p R (Suc n) s = (Done sk, s3)"
    using fv(1) by (simp add: bind_draw_def no_draw_def)
  then show ?thesis by (simp add: generate_from_rng_def m)
qed

section \<open>A short polynomial with a known inverse\<close>

text \<open>\<open>f\<close> times (x^20 - 1)(x^38 - 1) is (x - 1)(x^5 + 1)(x^760 - 1), and x^760 - 1 is the inverse of x.\<close>

definition sparse_block :: "int list" where
  "sparse_block = [- 1, 1, 0, 0, 0, - 1, 1] @ replicate 31 0"

fun divide_by :: "int list \<Rightarrow> int list \<Rightarrow> int list" where
  "divide_by w [] = []"
| "divide_by w (c # cs) = (let x = hd w - c in x # divide_by (tl w @ [x]) cs)"

definition sparse_product :: "int list" where
  "sparse_product = concat (replicate 20 sparse_block)"

definition sample_f :: "int list" where
  "sample_f = divide_by (replicate 20 0) (take 740 sparse_product) @ replicate 21 0"

lemma sample_f_checks:
  "length sample_f = 761 \<and> list_all (\<lambda>c. c = - 1 \<or> c = 0 \<or> c = 1) sample_f
    \<and> length (filter (\<lambda>c. c \<noteq> 0) sample_f) = 286
    \<and> map2 (-) (replicate 20 0 @ take 740 sample_f) (take 740 sample_f @ replicate 20 0) = sparse_product
    \<and> drop 740 sample_f = replicate 21 0"
  by code_simp

lemma pol_diff: "length a = length b \<Longrightarrow> pol (map2 (-) a b) = pol a - pol b"
  by (induction a b rule: list_induct2) (simp_all add: right_diff_distrib)

lemma pol_periodic: "pol (concat (replicate n b)) * (qx ^ length b - 1) = pol b * (qx ^ (length b * n) - 1)"
  by (induction n) (simp_all add: pol_append power_add algebra_simps)

lemma qy_dvd_1: "qy dvd 1"
  by (metis dvd_triv_left qx_qy(2))

lemma power_minus_1_dvd: "qx ^ n - 1 dvd qx ^ (n * m) - 1"
  using power_diff_1_eq [of "qx ^ n" m] by (simp add: power_mult)

lemma sample_f_unit: "pol sample_f dvd 1"
proof -
  let ?F = "pol (take 740 sample_f)"
  have "qx ^ 20 * ?F - ?F = pol (map2 (-) (replicate 20 0 @ take 740 sample_f) (take 740 sample_f @ replicate 20 0))"
    by (subst pol_diff) (simp_all add: pol_append)
  then have "(qx ^ 20 - 1) * ?F = pol sparse_product"
    using sample_f_checks by (simp add: algebra_simps)
  moreover have "pol sparse_product * (qx ^ 38 - 1) = pol sparse_block * (qx ^ 760 - 1)"
    using pol_periodic [of 20 sparse_block] by (simp add: sparse_product_def) (simp add: sparse_block_def)
  moreover have "pol sparse_block = (qx - 1) * (qx ^ 5 + 1)"
    by (simp add: sparse_block_def pol_append algebra_simps eval_nat_numeral)
  moreover have "qx ^ 760 - 1 = qy" by (simp add: qy_def sntrup_p_def)
  ultimately have "?F * ((qx ^ 20 - 1) * (qx ^ 38 - 1)) = (qx - 1) * (qx ^ 5 + 1) * qy"
    by (metis mult.assoc mult.commute)
  moreover have "(qx - 1) * (qx ^ 5 + 1) * qy dvd 1"
  proof -
    have q: "qx ^ 760 - 1 = qy" by (simp add: qy_def sntrup_p_def)
    have "qx - 1 dvd qy" using power_minus_1_dvd [of 1 760] by (simp add: q)
    moreover have "qx ^ 5 + 1 dvd qx ^ 10 - 1" by (rule dvdI [of _ _ "qx ^ 5 - 1"]) (simp add: algebra_simps power_add [symmetric])
    moreover have "qx ^ 10 - 1 dvd qy" using power_minus_1_dvd [of 10 76] by (simp add: q)
    ultimately have "qx - 1 dvd 1" "qx ^ 5 + 1 dvd 1" using qy_dvd_1 by (metis dvd_trans)+
    then have "(qx - 1) * (qx ^ 5 + 1) * qy dvd 1 * 1 * 1" using qy_dvd_1 by (intro mult_dvd_mono)
    then show ?thesis by simp
  qed
  ultimately have "?F dvd 1" by (metis dvd_triv_left dvd_trans)
  moreover have "pol sample_f = ?F"
  proof -
    have "pol sample_f = pol (take 740 sample_f @ drop 740 sample_f)" by simp
    then show ?thesis using sample_f_checks unfolding pol_append by simp
  qed
  ultimately show ?thesis by simp
qed

lemma pol_surj: "\<exists>l. length l = sntrup_p \<and> pol l = b"
proof (intro exI conjI)
  show "length (map (cf b) [0..<sntrup_p]) = sntrup_p" by simp
  show "pol (map (cf b) [0..<sntrup_p]) = b"
    by (rule cf_eqI) (simp add: cf_pol coef_def)
qed

lemma sample_f_facts: "small_poly sample_f" "weight sample_f = W" "invertible_poly k sample_f"
proof -
  have l: "length sample_f = sntrup_p" using sample_f_checks by (simp add: sntrup_p_def)
  show "small_poly sample_f" "weight sample_f = W"
    using sample_f_checks l by (simp_all add: small_poly_def list_all_iff weight_def W_def)
  obtain b where "1 = pol sample_f * b" using sample_f_unit by (elim dvdE)
  then obtain bl where "length bl = sntrup_p" "pol bl * pol sample_f = 1" using pol_surj [of b] by (metis mult.commute)
  then have "inverse_poly k 1 sample_f bl" using l by (simp add: inverse_poly_pol)
  then show "invertible_poly k sample_f" by (auto simp: invertible_poly_def)
qed

definition sample_rng :: "unit keygen_rng" where
  "sample_rng = \<lparr> random_small = \<lambda>s. (one_poly, s), short_random = \<lambda>s. (Some sample_f, s),
     rng_fill_bytes = \<lambda>n s. (replicate n 0, s) \<rparr>"

lemma sample_rng_ok: "keygen_rng_ok sample_rng"
  by (simp add: keygen_rng_ok_def sample_rng_def toy_polys sample_f_facts)

lemma sample_rng_good: "good_draws sample_rng s"
proof -
  have "one_poly = poly_one" by (simp add: one_poly_def poly_one_def sntrup_p_def)
  then show ?thesis
    using one_is_invertible [of 3] by (simp add: good_draws_def sample_rng_def sample_f_facts)
qed

section \<open>The property\<close>

text \<open>C25. Key generation is total and its keys work. For any generator whose polynomials are small
  and whose byte strings have the length asked for, \<open>generate_from_rng\<close> returns a secret key of
  1763 bytes or \<open>KeyGenerationFailed\<close>, never panicking, and it does not fail when the first draws
  are usable. A returned key holds a short \<open>f\<close> of weight 286, an invertible \<open>g\<close> and the public key
  \<open>g / 3f\<close> it reports; and decapsulation with it inverts every encapsulation to that public key.\<close>

theorem generated_keys_decapsulate:
  assumes "prims_ok p" and "keygen_rng_ok R"
  shows "case fst (generate_from_rng p R s) of
      Done sk \<Rightarrow> length sk = SECRET_KEY_BYTES
        \<and> (\<exists>f g ginv h rho. weight f = W \<and> sntrup_keypair p f g ginv h rho sk (sntrup_sk_public_key sk))
        \<and> (\<forall>r. small_poly r \<and> weight r \<le> W \<longrightarrow>
            (\<exists>ss ct. sntrup_encapsulate_with p (sntrup_sk_public_key sk) r = Some (ss, ct)
              \<and> sntrup_decapsulate p sk ct = Some ss))
    | Fail e \<Rightarrow> e = KeyGenerationFailed \<and> \<not> good_draws R s
    | Panic \<Rightarrow> False"
  using keygen_loop_spec [OF assms(2), of p MAX_KEYGEN_ATTEMPTS s]
proof (elim disjE exE conjE)
  fix sk s' f g ginv h rho pk
  assume k: "keygen_loop p R MAX_KEYGEN_ATTEMPTS s = (Done sk, s')" "weight f = W" "sntrup_keypair p f g ginv h rho sk pk"
  note key = length_assembled_sk [OF k(3) assms(1)]
  have "\<exists>ss ct. sntrup_encapsulate_with p pk r = Some (ss, ct) \<and> sntrup_decapsulate p sk ct = Some ss"
    if r: "small_poly r" "weight r \<le> W" for r
  proof -
    obtain ss ct where "sntrup_encapsulate_with p pk r = Some (ss, ct)"
      using encapsulate_with_total [OF r(1), of p pk] by (metis surj_pair)
    then show ?thesis using decapsulate_correct_aux [OF assms(1) k(3) r] by blast
  qed
  moreover have "\<exists>f g ginv h rho. weight f = W \<and> sntrup_keypair p f g ginv h rho sk pk" using k(2,3) by blast
  ultimately show ?thesis
    using key unfolding generate_from_rng_def k(1) fst_conv outcome.case by simp
next
  fix s' assume "keygen_loop p R MAX_KEYGEN_ATTEMPTS s = (Fail KeyGenerationFailed, s')"
  then show ?thesis using keygen_succeeds [OF assms(2), of s p] by (auto simp: generate_from_rng_def)
qed

theorem generated_keys_decapsulate_witness:
  "\<exists>sk ss ct. fst (generate_from_rng toy_prims sample_rng ()) = Done sk
    \<and> sntrup_encapsulate_with toy_prims (sntrup_sk_public_key sk) short_poly = Some (ss, ct)
    \<and> sntrup_decapsulate toy_prims sk ct = Some ss"
  using generated_keys_decapsulate [OF toy_prims_ok sample_rng_ok, of "()"] sample_rng_good [of "()"] toy_polys(3,5)
  by (auto split: outcome.splits)

end
