(* ===== verification/Spec2Isabelle.thy ===== *)
theory Spec2Isabelle
  imports Tree_Resolution Cocoa_Device Cocoa_Group Wire_Codec Ratchet_Conversation X3dh Identity_Cert Device_Certificates History_Share Device_Wrap Mldsa_Hybrid Sntrup_Keygen
begin

text \<open>
  Trelis is a hybrid post-quantum messaging protocol in Rust. This development models the code under
  \<open>src/crates\<close> and proves what makes it correct. File names below are relative to that directory.

  \<^bold>\<open>The program.\<close> \<open>trelis-error\<close> holds the one error type and \<open>trelis-wire\<close> the buffer encoder and decoder
  every message goes through. \<open>trelis-primitives\<close> has the cryptography that is written in the repository
  (sntrup761, X448, ML-DSA, wrappers of XChaCha20-Poly1305, BLAKE3 and Ed448) and \<open>trelis-hybrid\<close> pairs a
  classical with a post-quantum scheme: the hybrid KEM, the hybrid signature, identities, certificates,
  recovery and safety numbers. Three protocols use them: \<open>trelis-x3dh-pq\<close> makes the first shared secret of
  two parties, \<open>trelis-ratchet\<close> renews it with every message, and \<open>trelis-cocoa\<close> keeps the secrets of a
  group in a binary tree of which each member holds a part. \<open>trelis-multidevice\<close> adds devices to an account:
  approvals, revocations, wrapped keys and the shared history.

  \<^bold>\<open>Conventions.\<close> Bytes are \<open>8 word\<close>, the other machine integers words of their width or, where the code
  computes with signed values or indices, \<open>int\<close> and \<open>nat\<close> with the bounds written out. Overflow checks are
  on in every profile of the workspace, so a checked operation that overflows is \<open>None\<close>. A function that
  returns \<open>Result\<close> has type \<open>'a result\<close>; one that can also panic has type \<open>'a outcome\<close> (\<open>Done\<close>, \<open>Fail\<close>,
  \<open>Panic\<close>) or \<open>option\<close>. A method on \<open>&mut self\<close> takes the state and returns it, with its error if it failed,
  so that what a failed operation leaves behind is part of the model. Randomness is an argument: the bytes
  the generator returns, \<open>None\<close> when it fails. Code outside the repository is a record of parameters with
  its documented laws as named hypotheses: \<open>primitives\<close> with \<open>prims_ok\<close> (SHA-512, BLAKE3, XChaCha20-Poly1305,
  the Montgomery ladder of X448), \<open>sig_suite\<close> with \<open>suite_ok\<close> (the Ed448 curve, SHAKE256 and the ML-DSA scheme,
  which the code takes as a type parameter), \<open>fips204\<close> with \<open>fips_ok\<close>, the output functions of ML-DSA, and
  \<open>keygen_rng\<close> with \<open>keygen_rng_ok\<close> (the polynomials the crate ntrulp draws). The laws of signatures are about keys
  that the scheme generates, never about other byte strings that parse; \<open>Mldsa_Hybrid\<close> proves them for both
  ML-DSA schemes of the code. No secrecy is assumed anywhere; binding results end in a clash of a hash on two
  named inputs. Every law is shown to be satisfiable by the concrete instance a witness uses.

  \<^bold>\<open>Library.\<close> \<open>Trelis_Prelude\<close>: checked arithmetic, little- and big-endian bytes, slices, results with the
  question mark operator (\<open>tryR\<close>), the collections of rewrite rules, and the interfaces of codecs
  (\<open>prefix_codec\<close>, \<open>fixed_codec\<close>, \<open>strict_codec\<close>: what is encoded is read back, from no other bytes) and of
  counters (\<open>forward_counter\<close>), which the message formats and sessions of all crates interpret.
  \<open>Crypto_Error\<close> (\<open>trelis-error/src/lib.rs\<close>): the error enumeration, its text and classification.
  \<open>Crypto_Primitives\<close>: the external primitives and \<open>blake3_kdf.rs\<close>.

  \<^bold>\<open>Wire format.\<close> \<open>Wire_Codec\<close> (\<open>trelis-wire/src/encode.rs\<close>, \<open>decode.rs\<close>): the two cursors and every read and
  write; a sequence of writes is read back by the same sequence of reads. \<open>Wire_Header\<close> (\<open>header.rs\<close> and the
  size constants).

  \<^bold>\<open>sntrup761.\<close> \<open>Sntrup_Poly\<close> (\<open>sntrup761/poly.rs\<close>: schoolbook and Karatsuba products, which agree, with the
  32-bit accumulators shown not to overflow), \<open>Sntrup_Ring\<close> (the ring behind them, no code),
  \<open>Sntrup_Encoding\<close> (\<open>sntrup761/encoding.rs\<close>: the mixed-radix codecs; every decoder returns on every input)
  and \<open>Sntrup_Kem\<close> (\<open>sntrup761/pure_rust.rs\<close>: hashes, encapsulation, decapsulation with implicit rejection).
  Decapsulation recovers the encapsulated secret because the product of short polynomials stays below
  half the modulus; the proof derives that bound. \<open>Sntrup_Fq\<close> (\<open>sntrup761/fq.rs\<close>: division by a precomputed
  reciprocal, the two centred reductions, inversion by Euclid and by Fermat), \<open>Sntrup_Quotient\<close> (the quotient
  ring as a type of the class \<open>comm_ring_1\<close>, no code), \<open>Sntrup_Inverse\<close> and \<open>Sntrup_Recip\<close> (the 1521 division
  steps of \<open>Rq::recip\<close> and \<open>R3::recip\<close>; the locale \<open>division_steps\<close> proves from what one step does that the
  loop ends with the inverse exactly when there is one, and is interpreted on both steps) and
  \<open>Sntrup_Keygen\<close> (\<open>pure_rust.rs\<close>: key generation over a generator threaded as a state; the keys it returns
  have the relation from which decapsulation is correct).

  \<^bold>\<open>ML-DSA.\<close> \<open>Mldsa_Field\<close> and \<open>Mldsa_Poly\<close> (\<open>mldsa_core/algebra.rs\<close>, \<open>module_lattice/algebra.rs\<close>: Barrett
  reduction, rounding, polynomials, vectors, matrices over the ring of integers modulo 8380417),
  \<open>Mldsa_Hint\<close> (\<open>hint.rs\<close>), \<open>Mldsa_Ntt\<close> (\<open>ntt.rs\<close>: the butterflies evaluate at the 256 odd powers of a root of
  unity, so they compute negacyclic products), \<open>Mldsa_Encode\<close> (\<open>encode.rs\<close>, \<open>module_lattice/encode.rs\<close>,
  \<open>util.rs\<close>), \<open>Mldsa_Hash\<close> (\<open>hash.rs\<close>, \<open>crypto.rs\<close>, \<open>crypto_blake3.rs\<close>: the SHAKE and the BLAKE3 state
  machines, the latter with its read-ahead cache), \<open>Mldsa_Sample\<close> (\<open>sampling.rs\<close>), \<open>Mldsa_Core\<close>
  (\<open>internal.rs\<close>, \<open>param.rs\<close>: key generation, the rejection loop, verification), \<open>Mldsa_Codec\<close> (keys and
  signatures as bytes), \<open>Mldsa_Steady\<close> (a run followed by hand, for witnesses), \<open>Mldsa_Api\<close>
  (\<open>mldsa_core/mod.rs\<close>, \<open>mldsa65b.rs\<close>) and \<open>Mldsa_Scheme\<close> (\<open>mldsa65.rs\<close>, \<open>mldsa.rs\<close>). The locale
  \<open>hash_interface\<close> is what the scheme asks of a hash state, \<open>mldsa_suite\<close> the scheme over it; both are
  interpreted on the two state machines, and \<open>mldsa_interface\<close>, the contract of the trait, on the BLAKE3
  scheme. \<open>Mldsa_Hybrid\<close> puts a scheme under the hybrid signature: the locale \<open>hybrid_scheme\<close> extends the
  contract by sizes and exact parsing, and hybrid signatures over either scheme are correct.

  \<^bold>\<open>Other primitives.\<close> \<open>X448\<close> (\<open>x448.rs\<close>, \<open>random.rs\<close>) and \<open>Aead\<close> (\<open>aead.rs\<close>, with the key-committing mode).

  \<^bold>\<open>Hybrid schemes.\<close> \<open>Hybrid_Kem\<close> (\<open>combiner.rs\<close>, \<open>kem.rs\<close>): the locale \<open>kem\<close> is interpreted on sntrup761 and
  on the hybrid. \<open>Hybrid_Signature\<close> (\<open>signature.rs\<close>, \<open>ed448.rs\<close>): the combiner of Ed448 and ML-DSA; the locale
  \<open>signature_scheme\<close> is interpreted on its plain, context and prehashed modes. \<open>Identity\<close> (\<open>identity.rs\<close>,
  \<open>one_time_key.rs\<close>, \<open>prekey_bundle.rs\<close>), \<open>Identity_Cert\<close>, \<open>Recovery\<close> and \<open>Safety_Number\<close>.

  \<^bold>\<open>Two parties.\<close> \<open>X3dh\<close> (\<open>trelis-x3dh-pq/src\<close>): both sides derive the same secret, and the session binds the
  whole transcript. \<open>Ratchet_Wire\<close>, \<open>Ratchet_State\<close>, \<open>Ratchet_Session\<close> (\<open>trelis-ratchet/src\<close>): derivations and
  codecs, the state with its operations, and runs of one party as a step relation whose invariant is
  preserved. \<open>Ratchet_Conversation\<close>: two parties taking turns, in which every message sent is delivered.

  \<^bold>\<open>Groups.\<close> \<open>Tree_Index\<close>, \<open>Tree_Path\<close>, \<open>Tree_Node\<close>, \<open>Tree_View\<close>, \<open>Tree_Resolution\<close> (\<open>trelis-cocoa/src/tree\<close>): the
  linear numbering, paths, nodes, a member's partial view as the ordered map the code uses, and
  resolutions, which are the frontier of populated nodes below a node. The locales \<open>node_store\<close> and \<open>lookup\<close>
  are the interfaces of the view. \<open>Key_Schedule\<close>, \<open>Cocoa_Epoch\<close>, \<open>Cocoa_Session\<close> (\<open>key_schedule.rs\<close>,
  \<open>epoch.rs\<close>, \<open>session.rs\<close>, \<open>session_watermark.rs\<close>): derivations, the epoch, the session with its message
  channel and its persisted state. \<open>Cocoa_Device\<close>: a device over its life, restarts included, as a step
  relation; no position of the key stream is used twice. \<open>Cocoa_Path\<close>, \<open>Cocoa_Commit\<close>, \<open>Cocoa_Update\<close>,
  \<open>Cocoa_Add\<close>, \<open>Cocoa_Remove\<close>, \<open>Cocoa_Welcome\<close> (\<open>operations/\<close>): path updates, signed commits, and the three
  operations with the processing of their commits, group creation and joining. \<open>Cocoa_Sample\<close> holds the
  group of two of the witnesses. \<open>Cocoa_Group\<close>: every operation of every member refines a step of an
  abstract group, which knows the epoch and its secrets and nothing of trees and keys.

  \<^bold>\<open>Devices.\<close> \<open>Retained_Keys\<close> (\<open>retained_key.rs\<close>, \<open>settings.rs\<close>: the store, with the binary search of the
  standard library behind the locale \<open>sorted_search\<close>), \<open>History_Share\<close> (\<open>history.rs\<close>), \<open>Device_Wrap\<close>
  (\<open>device_key_wrap.rs\<close>) and \<open>Device_Certificates\<close> (\<open>approval.rs\<close>, \<open>revocation.rs\<close>).

  \<^bold>\<open>What the lemmas show.\<close> For data: codecs as interpretations of the codec locales. For operations: the
  result on every branch, the errors in the order of the code's checks, and what a failure leaves of the
  state. For protocols: agreement of the parties, invariants by rule induction over runs, refinement of the
  abstract group, and binding of keys, signatures and transcripts. For optimised routines: equality with
  the direct definition (Karatsuba and the number theoretic transform, Barrett and the division-free
  reductions, the sparse path update, the resolution loops) or with the mathematical notion (inverses). Where the code does not do what it means to,
  the property states what it does: an added member cannot join with the welcome it is sent
  (\<open>Cocoa_Welcome\<close>), honest additions can be refused (\<open>Cocoa_Add\<close>), a removal with an empty path is
  accepted (\<open>Cocoa_Remove\<close>), approvals are self-asserted (\<open>Device_Certificates\<close>), signatures are malleable
  and some accepted keys panic (\<open>Mldsa_Api\<close>).

  \<^bold>\<open>Loops and fuel.\<close> Structural recursion and \<open>function\<close> with a measure, except: the rejection loops of
  \<open>Mldsa_Sample\<close>, which nothing bounds, are \<open>partial_function (option)\<close>, so \<open>None\<close> is also the endless run;
  \<open>Mldsa_Steady\<close> shows that they and the signing loop can end. The signing loop itself ends after its 16-bit
  counter is used up, with the panic of \<open>unreachable!\<close>. The searches for polynomials
  (\<open>Sntrup_Kem.pick_short\<close>, \<open>draw_g\<close>, \<open>draw_f\<close> and \<open>keygen_loop\<close> of \<open>Sntrup_Keygen\<close>) have the code's own bound on
  attempts as their fuel, and the division steps its constant number of iterations.

  \<^bold>\<open>Not modelled.\<close> Memory locking (\<open>memlock.rs\<close>) is system calls on pages without functional behaviour, and
  the WebAssembly bindings (\<open>trelis-wasm\<close>) convert arguments and forward to the crates modelled here. The
  transform product of \<open>sntrup761/poly.rs\<close> is called by tests only. Curve arithmetic, hash and cipher cores are third-party crates. Plain
  Ed448 signatures forward to the curve crate. Zeroisation, constant-time comparison and formatting for
  debugging are not visible in the model. Tests, benches and fuzz targets are not part of the program.
\<close>

end
